(* ===== verification/Upsgi_Prelude.thy ===== *)
theory Upsgi_Prelude
  imports Main "HOL-Library.Word"
begin

text \<open>
  Shared vocabulary of the development.  C strings and byte arrays are lists of
  \<^typ>\<open>char\<close>; a C function that reports failure returns a \<open>c_result\<close>: \<open>Ok\<close> with the
  state it leaves on success, \<open>Err\<close> with the state it leaves when it returns \<open>-1\<close>, and
  \<open>Fault\<close> when it would touch memory outside the object it works on (undefined behaviour
  in C, which the safety theorems exclude).  \<open>size_t\<close> values are \<^typ>\<open>nat\<close> with the
  wrap-around of subtraction and addition written out in \<open>size_sub\<close> and \<open>size_add\<close> where
  the code can reach it.  The last part holds the byte encodings of machine integers and
  the lemmas on them that the encoders and parsers share.
\<close>

unbundle bit_operations_syntax

named_theorems byte_simps
named_theorems res_simps

section \<open>Results of C functions\<close>

datatype 'a c_result = Ok 'a | Err 'a | Fault

fun c_bind :: "'a c_result \<Rightarrow> ('a \<Rightarrow> 'a c_result) \<Rightarrow> 'a c_result" where
  "c_bind (Ok s) f = f s"
| "c_bind (Err s) f = Err s"
| "c_bind Fault f = Fault"

fun is_ok :: "'a c_result \<Rightarrow> bool" where
  "is_ok (Ok _) = True"
| "is_ok _ = False"

lemma c_bind_right_id [simp]: "c_bind m Ok = m" "c_bind m (\<lambda>s. Ok s) = m"
  by (cases m; simp)+

lemma c_bind_Ok_iff [res_simps]:
  "c_bind m f = Ok t \<longleftrightarrow> (\<exists>s. m = Ok s \<and> f s = Ok t)"
  by (cases m) auto

lemma c_bind_Err_iff [res_simps]:
  "c_bind m f = Err t \<longleftrightarrow> m = Err t \<or> (\<exists>s. m = Ok s \<and> f s = Err t)"
  by (cases m) auto

lemma c_bind_Fault_iff [res_simps]:
  "c_bind m f = Fault \<longleftrightarrow> m = Fault \<or> (\<exists>s. m = Ok s \<and> f s = Fault)"
  by (cases m) auto

section \<open>size\_t arithmetic\<close>

definition size_max :: nat where
  "size_max = 2 ^ 64 - 1"

definition size_sub :: "nat \<Rightarrow> nat \<Rightarrow> nat" where
  "size_sub a b = (if b \<le> a then a - b else 2 ^ 64 - (b - a) mod 2 ^ 64)"

definition size_add :: "nat \<Rightarrow> nat \<Rightarrow> nat" where
  "size_add a b = (a + b) mod 2 ^ 64"

lemma size_sub_le [simp]: "b \<le> a \<Longrightarrow> size_sub a b = a - b"
  by (simp add: size_sub_def)

lemma size_add_small [simp]: "a + b < 2 ^ 64 \<Longrightarrow> size_add a b = a + b"
  by (simp add: size_add_def)

section \<open>Memory blocks\<close>

text \<open>\<open>memcpy\<close> into a block: the bytes land at the offset, or the access is a fault.\<close>

definition mem_write :: "'a list \<Rightarrow> nat \<Rightarrow> 'a list \<Rightarrow> 'a list option" where
  "mem_write m off d =
     (if off + length d \<le> length m
      then Some (take off m @ d @ drop (off + length d) m) else None)"

lemma mem_write_length: "mem_write m off d = Some m' \<Longrightarrow> length m' = length m"
  by (auto simp: mem_write_def split: if_splits)

lemma mem_write_take:
  "mem_write m off d = Some m' \<Longrightarrow> take (off + length d) m' = take off m @ d"
  by (auto simp: mem_write_def split: if_splits)

lemma mem_write_prefix:
  "mem_write m off d = Some m' \<Longrightarrow> k \<le> off \<Longrightarrow> take k m' = take k m"
  by (auto simp: mem_write_def min_def split: if_splits)

section \<open>Bytes of machine integers\<close>

lemma unat_of_nat_small:
  "n < 2 ^ LENGTH('a) \<Longrightarrow> unat (of_nat n :: 'a::len word) = n"
  by (simp add: unat_of_nat)

text \<open>Byte \<open>k\<close> of a word: \<open>(uint8_t) ((num >> (8 * k)) & 0xff)\<close>.\<close>

definition byte_of :: "nat \<Rightarrow> 'a::len word \<Rightarrow> char" where
  "byte_of k w = char_of (unat (drop_bit (8 * k) w AND mask 8))"

lemma of_char_byte_of [byte_simps]:
  "(of_char (byte_of k w) :: nat) = (unat w div 256 ^ k) mod 256"
proof -
  have p: "(2::nat) ^ (8 * k) = 256 ^ k" by (simp add: power_mult)
  have m: "(drop_bit (8 * k) w AND mask 8) = take_bit 8 (drop_bit (8 * k) w)"
    by (simp add: take_bit_eq_mask)
  have "unat (drop_bit (8 * k) w AND mask 8) = (unat w div 256 ^ k) mod 256"
    unfolding m unsigned_take_bit_eq unsigned_drop_bit_eq
    by (simp add: drop_bit_eq_div take_bit_eq_mod p)
  then show ?thesis by (simp add: byte_of_def of_char_of)
qed

end
