(* ===== verification/Upsgi_Codec.thy ===== *)
theory Upsgi_Codec
  imports Upsgi_Prelude
begin

text \<open>
  The encoders and decoders of \<open>core/utils.c\<close> that the other components call: decimal and
  hexadecimal text, big-endian reads, base64, percent-decoding with dot-segment removal, and
  netstrings.  The properties are the round trips (base64, decimal text, big-endian words)
  and the output bound of the URL decoder, whose caller allocates exactly the input's length.
\<close>

section \<open>Characters\<close>

text \<open>A C \<open>char\<close> as the signed value that integer promotion gives it.\<close>

definition schar :: "char \<Rightarrow> int" where
  "schar c = (let n = (of_char c :: nat) in if n < 128 then int n else int n - 256)"

abbreviation ord :: "char \<Rightarrow> nat" where
  "ord c \<equiv> of_char c"

definition is_digit :: "char \<Rightarrow> bool" where
  "is_digit c \<longleftrightarrow> 48 \<le> ord c \<and> ord c \<le> 57"

definition is_lower :: "char \<Rightarrow> bool" where
  "is_lower c \<longleftrightarrow> 97 \<le> ord c \<and> ord c \<le> 122"

definition is_upper :: "char \<Rightarrow> bool" where
  "is_upper c \<longleftrightarrow> 65 \<le> ord c \<and> ord c \<le> 90"

definition isspace :: "char \<Rightarrow> bool" where
  "isspace c \<longleftrightarrow> ord c = 32 \<or> (9 \<le> ord c \<and> ord c \<le> 13)"

definition is_space :: "char \<Rightarrow> bool" where
  "is_space c \<longleftrightarrow> c = CHR '' '' \<or> 9 \<le> ord c \<and> ord c \<le> (13::nat)"

definition tolower :: "char \<Rightarrow> char" where
  "tolower c = (if is_upper c then char_of (ord c + 32) else c)"

definition toupper :: "char \<Rightarrow> char" where
  "toupper c = (if is_lower c then char_of (ord c - 32) else c)"

section \<open>Decimal and hexadecimal text\<close>

definition digit :: "nat \<Rightarrow> char" where
  "digit n = char_of (48 + n)"

fun nat_dec :: "nat \<Rightarrow> string" where
  "nat_dec n = (if n < 10 then [digit n] else nat_dec (n div 10) @ [digit (n mod 10)])"

declare nat_dec.simps [simp del]

text \<open>\<open>snprintf\<close> with \<open>%lld\<close> and \<open>%X\<close>.\<close>

definition int_dec :: "int \<Rightarrow> string" where
  "int_dec i = (if i < 0 then CHR ''-'' # nat_dec (nat (- i)) else nat_dec (nat i))"

definition hex_digit :: "nat \<Rightarrow> char" where
  "hex_digit n = (if n < 10 then char_of (48 + n) else char_of (55 + n))"

fun nat_hex :: "nat \<Rightarrow> string" where
  "nat_hex n = (if n < 16 then [hex_digit n] else nat_hex (n div 16) @ [hex_digit (n mod 16)])"

declare nat_hex.simps [simp del]

fun dec_val :: "nat \<Rightarrow> string \<Rightarrow> nat" where
  "dec_val acc [] = acc"
| "dec_val acc (c # cs) = dec_val (acc * 10 + (ord c - 48)) cs"

definition hex_val1 :: "char \<Rightarrow> nat" where
  "hex_val1 c = (if is_digit c then ord c - 48
     else if 97 \<le> ord c \<and> ord c \<le> 102 then ord c - 87
     else ord c - 55)"

definition is_xdigit :: "char \<Rightarrow> bool" where
  "is_xdigit c \<longleftrightarrow> is_digit c \<or> (97 \<le> ord c \<and> ord c \<le> 102) \<or> (65 \<le> ord c \<and> ord c \<le> 70)"

fun hex_val :: "nat \<Rightarrow> string \<Rightarrow> nat" where
  "hex_val acc [] = acc"
| "hex_val acc (c # cs) = hex_val (acc * 16 + hex_val1 c) cs"

text \<open>
  \<open>upsgi_str_num\<close>: \<open>delta = pow(10, len)\<close> is converted from \<open>double\<close> to \<open>uint64_t\<close>, which
  is undefined once \<open>len\<close> reaches 20; that case is \<open>None\<close>.
\<close>

fun str_num_loop :: "string \<Rightarrow> 64 word \<Rightarrow> 64 word \<Rightarrow> 64 word" where
  "str_num_loop [] delta num = num"
| "str_num_loop (c # cs) delta num =
     (let d = delta div 10 in str_num_loop cs d (num + d * of_int (schar c - 48)))"

definition upsgi_str_num :: "string \<Rightarrow> 64 word option" where
  "upsgi_str_num s =
     (if length s < 20 then Some (str_num_loop s (of_nat (10 ^ length s)) 0) else None)"

section \<open>Big-endian reads\<close>

definition upsgi_be16 :: "char list \<Rightarrow> nat" where
  "upsgi_be16 b = ord (b ! 0) * 256 + ord (b ! 1)"

definition upsgi_be32 :: "char list \<Rightarrow> nat" where
  "upsgi_be32 b = ((ord (b ! 0) * 256 + ord (b ! 1)) * 256 + ord (b ! 2)) * 256 + ord (b ! 3)"

definition upsgi_be64 :: "char list \<Rightarrow> nat" where
  "upsgi_be64 b = upsgi_be32 (take 4 b) * 2 ^ 32 + upsgi_be32 (drop 4 b)"

section \<open>Base64\<close>

definition b64_table64_2 :: string where
  "b64_table64_2 = ''ABCDEFGHIJKLMNOPQRSTUVWXYZabcdefghijklmnopqrstuvwxyz0123456789+/''"

text \<open>The 256-entry table \<open>b64_table64\<close>: 77 marks an invalid byte.\<close>

definition b64_table64 :: "char \<Rightarrow> 8 word" where
  "b64_table64 c =
     (let n = ord c in
      if n = 43 then 62 else if n = 47 then 63
      else if 48 \<le> n \<and> n \<le> 57 then of_nat (n + 4)
      else if 65 \<le> n \<and> n \<le> 90 then of_nat (n - 65)
      else if 97 \<le> n \<and> n \<le> 122 then of_nat (n - 71)
      else 77)"

abbreviation b8 :: "char \<Rightarrow> 8 word" where
  "b8 c \<equiv> of_char c"

definition char8 :: "8 word \<Rightarrow> char" where
  "char8 w = char_of (unat w)"

definition b64c :: "8 word \<Rightarrow> char" where
  "b64c w = b64_table64_2 ! unat w"

fun upsgi_base64_encode :: "char list \<Rightarrow> char list" where
  "upsgi_base64_encode (x # y # z # rest) =
     b64c (drop_bit 2 (b8 x)) #
     b64c ((push_bit 4 (b8 x) AND 0x30) OR drop_bit 4 (b8 y)) #
     b64c ((push_bit 2 (b8 y) AND 0x3C) OR drop_bit 6 (b8 z)) #
     b64c (b8 z AND 0x3F) # upsgi_base64_encode rest"
| "upsgi_base64_encode [x, y] =
     [b64c (drop_bit 2 (b8 x)), b64c ((push_bit 4 (b8 x) AND 0x30) OR drop_bit 4 (b8 y)),
      b64c (push_bit 2 (b8 y) AND 0x3C), CHR ''='']"
| "upsgi_base64_encode [x] =
     [b64c (drop_bit 2 (b8 x)), b64c (push_bit 4 (b8 x) AND 0x30), CHR ''='', CHR ''='']"
| "upsgi_base64_encode [] = []"

text \<open>The decoder's main loop over the bytes before the first \<open>=\<close>.\<close>

fun base64_decode_loop :: "char list \<Rightarrow> char list" where
  "base64_decode_loop (a # b # c # d # rest) =
     char8 (push_bit 2 (b64_table64 a) OR drop_bit 4 (b64_table64 b)) #
     char8 (push_bit 4 (b64_table64 b) OR drop_bit 2 (b64_table64 c)) #
     char8 (push_bit 6 (b64_table64 c) OR b64_table64 d) # base64_decode_loop rest"
| "base64_decode_loop [a, b, c] =
     [char8 (push_bit 2 (b64_table64 a) OR drop_bit 4 (b64_table64 b)),
      char8 (push_bit 4 (b64_table64 b) OR drop_bit 2 (b64_table64 c))]"
| "base64_decode_loop [a, b] =
     [char8 (push_bit 2 (b64_table64 a) OR drop_bit 4 (b64_table64 b))]"
| "base64_decode_loop [a] = []"
| "base64_decode_loop [] = []"

definition upsgi_base64_decode :: "char list \<Rightarrow> char list option" where
  "upsgi_base64_decode buf =
     (let body = takeWhile (\<lambda>c. c \<noteq> CHR ''='') buf in
      if \<exists>c \<in> set body. b64_table64 c = 77 then None
      else if length body mod 4 = 1 then None
      else Some (base64_decode_loop body))"

section \<open>Percent decoding\<close>

definition hex2num_digit :: "char \<Rightarrow> 8 word option" where
  "hex2num_digit c =
     (if is_digit c then Some (b8 c AND 0x0F)
      else if (65 \<le> ord c \<and> ord c \<le> 70) \<or> (97 \<le> ord c \<and> ord c \<le> 102)
      then Some ((b8 c AND 0x0F) + 9) else None)"

definition hex2num :: "char \<Rightarrow> char \<Rightarrow> char" where
  "hex2num a b =
     (case (hex2num_digit a, hex2num_digit b) of
        (Some x, Some y) \<Rightarrow> char8 (push_bit 4 x + y)
      | _ \<Rightarrow> CHR 0x00)"

datatype url_status = UZero | UPercent1 | UPercent2 | USlash | UDot | UDotdot

text \<open>
  The decoder's variables: the status, \<open>value[0]\<close>, and \<open>dst[0..new_len)\<close>.
\<close>

type_synonym url_state = "url_status \<times> char \<times> char list"

text \<open>The loop that removes a segment, with its leading slash (state \<open>dotdot\<close>).\<close>

definition pop_segment :: "char list \<Rightarrow> char list" where
  "pop_segment out = rev (drop 1 (dropWhile (\<lambda>c. c \<noteq> CHR ''/'') (rev out)))"

text \<open>The loop after the end of input, which keeps the slash.\<close>

definition end_segment :: "char list \<Rightarrow> char list" where
  "end_segment out = rev (dropWhile (\<lambda>c. c \<noteq> CHR ''/'') (rev out))"

definition slash_if :: "bool \<Rightarrow> char list" where
  "slash_if b = (if b then ''/'' else [])"

fun url_step :: "bool \<Rightarrow> bool \<Rightarrow> nat \<Rightarrow> char \<Rightarrow> url_state \<Rightarrow> url_state" where
  "url_step nsd ns i c (UZero, v, out) =
     (if c = CHR ''%'' then (UPercent1, v, out)
      else if c = CHR ''/'' then (USlash, v, out)
      else (UZero, v, out @ [c]))"
| "url_step nsd ns i c (UPercent1, v, out) =
     (if c = CHR ''%'' then (UZero, v, out @ ''%'') else (UPercent2, c, out))"
| "url_step nsd ns i c (UPercent2, v, out) =
     (if nsd \<and> v = CHR ''2'' \<and> (c = CHR ''F'' \<or> c = CHR ''f'')
      then (UZero, v, out @ [CHR ''%'', v, c])
      else (UZero, v, out @ [hex2num v c]))"
| "url_step nsd ns i c (USlash, v, out) =
     (if c = CHR ''.'' then (UDot, v, out)
      else if c = CHR ''%'' then (UPercent1, v, out @ slash_if (i > 0 \<or> \<not> ns))
      else if c = CHR ''/'' then (USlash, v, out @ slash_if (i > 0 \<or> \<not> ns))
      else (UZero, v, out @ slash_if (i > 0 \<or> \<not> ns) @ [c]))"
| "url_step nsd ns i c (UDot, v, out) =
     (if c = CHR ''.'' then (UDotdot, v, out)
      else if c = CHR ''/'' then (USlash, v, out)
      else if c = CHR ''%'' then (UPercent1, v, out @ slash_if (i > 1) @ ''.'')
      else (UZero, v, out @ slash_if (i > 1) @ ''.'' @ [c]))"
| "url_step nsd ns i c (UDotdot, v, out) =
     (if c = CHR ''/'' then (USlash, v, pop_segment out)
      else if c = CHR ''%'' then (UPercent1, v, out @ slash_if (i > 2) @ ''..'')
      else (UZero, v, out @ slash_if (i > 2) @ ''..'' @ [c]))"

fun url_loop :: "bool \<Rightarrow> bool \<Rightarrow> nat \<Rightarrow> char list \<Rightarrow> url_state \<Rightarrow> url_state" where
  "url_loop nsd ns i [] (q, v, out) = (q, v, out)"
| "url_loop nsd ns i (c # cs) (q, v, out) =
     (if c = CHR ''#'' then (q, v, out)
      else url_loop nsd ns (Suc i) cs (url_step nsd ns i c (q, v, out)))"

fun url_finish :: "url_state \<Rightarrow> char list" where
  "url_finish (USlash, v, out) = out @ ''/''"
| "url_finish (UDot, v, out) = out @ ''/''"
| "url_finish (UDotdot, v, out) = end_segment out"
| "url_finish (_, v, out) = out"

definition http_url_decode4 :: "bool \<Rightarrow> char list \<Rightarrow> char list" where
  "http_url_decode4 no_slash_decode buf =
     (if buf \<noteq> [] \<and> hd buf \<noteq> CHR ''/''
      then url_finish (url_loop no_slash_decode True 0 buf (USlash, CHR ''0'', []))
      else url_finish (url_loop no_slash_decode False 0 buf (UZero, CHR ''0'', [])))"

section \<open>Netstrings\<close>

text \<open>The netstring payload and the position after the trailing byte.\<close>

definition upsgi_netstring :: "char list \<Rightarrow> (char list \<times> nat) option" where
  "upsgi_netstring buf =
     (let k = length (takeWhile (\<lambda>c. c \<noteq> CHR '':'') buf) in
      if k = length buf then None
      else case upsgi_str_num (take k buf) of None \<Rightarrow> None
         | Some w \<Rightarrow>
           if k + unat w + 2 > length buf then None
           else Some (take (unat w) (drop (k + 1) buf), k + unat w + 2))"

section \<open>Decimal text: lemmas\<close>

lemma ord_digit: "n < 10 \<Longrightarrow> ord (digit n) = 48 + n"
  by (simp add: digit_def)

lemma dec_val_append: "dec_val acc (xs @ ys) = dec_val (dec_val acc xs) ys"
  by (induction xs arbitrary: acc) auto

lemma dec_val_nat_dec: "dec_val 0 (nat_dec n) = n"
proof (induction n rule: nat_dec.induct)
  case (1 n)
  then show ?case
    by (subst nat_dec.simps) (simp add: ord_digit dec_val_append)
qed

lemma nat_dec_digits: "\<forall>c \<in> set (nat_dec n). is_digit c"
proof (induction n rule: nat_dec.induct)
  case (1 n)
  then show ?case
    by (subst nat_dec.simps) (auto simp: is_digit_def ord_digit)
qed

lemma nat_dec_nonempty [simp]: "nat_dec n \<noteq> []"
  by (subst nat_dec.simps) simp

lemma nat_dec_length: "k > 0 \<Longrightarrow> n < 10 ^ k \<Longrightarrow> length (nat_dec n) \<le> k"
proof (induction k arbitrary: n)
  case 0
  then show ?case by simp
next
  case (Suc k)
  show ?case
  proof (cases "n < 10")
    case True
    then show ?thesis by (subst nat_dec.simps) simp
  next
    case False
    with Suc.prems have "n div 10 < 10 ^ k" and "k > 0"
      by (auto intro: gr0I)
    then have "length (nat_dec (n div 10)) \<le> k" by (rule Suc.IH [rotated])
    with False show ?thesis by (subst nat_dec.simps) simp
  qed
qed

lemma nat_hex_length: "k > 0 \<Longrightarrow> n < 16 ^ k \<Longrightarrow> length (nat_hex n) \<le> k"
proof (induction k arbitrary: n)
  case 0
  then show ?case by simp
next
  case (Suc k)
  show ?case
  proof (cases "n < 16")
    case True
    then show ?thesis by (subst nat_hex.simps) simp
  next
    case False
    with Suc.prems have "n div 16 < 16 ^ k" and "k > 0"
      by (auto intro: gr0I)
    then have "length (nat_hex (n div 16)) \<le> k" by (rule Suc.IH [rotated])
    with False show ?thesis by (subst nat_hex.simps) simp
  qed
qed

lemma nat_hex_nonempty [simp]: "nat_hex n \<noteq> []"
  by (subst nat_hex.simps) simp

lemma hex_val_append: "hex_val acc (xs @ ys) = hex_val (hex_val acc xs) ys"
  by (induction xs arbitrary: acc) auto

lemma hex_digit_ord: "n < 16 \<Longrightarrow> ord (hex_digit n) = (if n < 10 then 48 + n else 55 + n)"
  by (simp add: hex_digit_def)

lemma hex_digit_xdigit: "n < 16 \<Longrightarrow> is_xdigit (hex_digit n)"
  by (auto simp: is_xdigit_def is_digit_def hex_digit_ord)

lemma hex_val1_digit: "n < 16 \<Longrightarrow> hex_val1 (hex_digit n) = n"
  by (auto simp: hex_val1_def is_digit_def hex_digit_ord)

lemma hex_val_nat_hex: "hex_val 0 (nat_hex n) = n"
proof (induction n rule: nat_hex.induct)
  case (1 n)
  then show ?case
    by (subst nat_hex.simps) (simp add: hex_val1_digit hex_val_append)
qed

lemma nat_hex_xdigits: "\<forall>c \<in> set (nat_hex n). is_xdigit c"
proof (induction n rule: nat_hex.induct)
  case (1 n)
  then show ?case
    by (subst nat_hex.simps) (auto simp: hex_digit_xdigit)
qed

section \<open>Decimal text reads back\<close>

lemma pow10_div:
  assumes "n < 19"
  shows "(of_nat (10 ^ Suc n) :: 64 word) div 10 = of_nat (10 ^ n)"
proof -
  have b: "(10::nat) ^ Suc n \<le> 10 ^ 19" using assms by (intro power_increasing) auto
  have b64: "(10::nat) ^ 19 < 2 ^ 64" by simp
  have u: "unat (of_nat (10 ^ Suc n) :: 64 word) = 10 ^ Suc n"
    using b b64 by (intro unat_of_nat_small) simp
  have "unat ((of_nat (10 ^ Suc n) :: 64 word) div 10) = 10 ^ n"
    by (simp only: unat_div u) simp
  moreover have "unat (of_nat (10 ^ n) :: 64 word) = 10 ^ n"
    using b b64 by (intro unat_of_nat_small) simp
  ultimately show ?thesis by (metis word_unat_eq_iff)
qed

lemma schar_digit: "is_digit c \<Longrightarrow> schar c - 48 = int (ord c - 48)"
  by (auto simp: schar_def is_digit_def Let_def)

lemma dec_val_acc: "dec_val acc s = acc * 10 ^ length s + dec_val 0 s"
proof (induction s arbitrary: acc)
  case Nil
  then show ?case by simp
next
  case (Cons c s)
  have "dec_val acc (c # s) = (acc * 10 + (ord c - 48)) * 10 ^ length s + dec_val 0 s"
    by (simp add: Cons.IH [of "acc * 10 + (ord c - 48)"])
  moreover have "dec_val 0 (c # s) = (ord c - 48) * 10 ^ length s + dec_val 0 s"
    by (simp add: Cons.IH [of "ord c - 48"])
  ultimately show ?case by (simp add: algebra_simps)
qed

lemma str_num_loop_digits:
  assumes "\<forall>c \<in> set s. is_digit c" and "length s < 20"
  shows "str_num_loop s (of_nat (10 ^ length s)) num = num + of_nat (dec_val 0 s)"
  using assms
proof (induction s arbitrary: num)
  case Nil
  then show ?case by simp
next
  case (Cons c s)
  have d: "(of_nat (10 ^ length (c # s)) :: 64 word) div 10 = of_nat (10 ^ length s)"
    using pow10_div [of "length s"] Cons.prems by simp
  have i: "(of_int (schar c - 48) :: 64 word) = of_nat (ord c - 48)"
    using Cons.prems by (simp add: schar_digit del: of_nat_diff)
  define k where "k = ord c - 48"
  have v: "dec_val 0 (c # s) = k * 10 ^ length s + dec_val 0 s"
    using dec_val_acc [of k s] by (simp add: k_def)
  have IH: "str_num_loop s (of_nat (10 ^ length s)) (num + of_nat (10 ^ length s) * of_nat k) =
      num + of_nat (10 ^ length s) * of_nat k + of_nat (dec_val 0 s)"
    using Cons by simp
  show ?case
    unfolding str_num_loop.simps Let_def d i k_def [symmetric] IH v by (simp add: algebra_simps)
qed

text \<open>The decimal text of a number below \<open>10 ^ 19\<close> reads back as that number.\<close>

theorem upsgi_str_num_nat_dec:
  assumes "n < 10 ^ 19"
  shows "upsgi_str_num (nat_dec n) = Some (of_nat n)"
proof -
  have l: "length (nat_dec n) < 20" using nat_dec_length [of 19 n] assms by simp
  have "str_num_loop (nat_dec n) (of_nat (10 ^ length (nat_dec n))) 0 = of_nat n"
    using str_num_loop_digits [OF nat_dec_digits l, of 0] by (simp add: dec_val_nat_dec)
  with l show ?thesis by (simp only: upsgi_str_num_def if_True)
qed

theorem upsgi_str_num_nat_dec_witness:
  "(8080::nat) < 10 ^ 19 \<and> upsgi_str_num (nat_dec 8080) = Some 8080"
  using upsgi_str_num_nat_dec [of 8080] by simp

section \<open>Base64 round trip\<close>

lemma b64_table64_2_ord:
  "map ord b64_table64_2 = [65..<91] @ [97..<123] @ [48..<58] @ [43, 47]"
  by (simp add: b64_table64_2_def upt_conv_Cons)

lemma b64_ord_nth:
  assumes "i < 64"
  shows "ord (b64_table64_2 ! i) =
    (if i < 26 then 65 + i else if i < 52 then 71 + i else if i < 62 then i - 4
     else if i = 62 then 43 else 47)"
proof -
  have l: "length b64_table64_2 = 64" by (simp add: b64_table64_2_def)
  have "ord (b64_table64_2 ! i) = map ord b64_table64_2 ! i" using assms l by simp
  also have "\<dots> = ([65..<91] @ [97..<123] @ [48..<58] @ [43, 47]) ! i"
    by (simp only: b64_table64_2_ord)
  finally show ?thesis using assms by (auto simp: nth_append nth_Cons split: nat.split)
qed

lemma b64_inverse:
  assumes "i < 64"
  shows "b64_table64 (b64_table64_2 ! i) = of_nat i" "b64_table64_2 ! i \<noteq> CHR ''=''"
proof -
  from assms consider "i < 62" | "i = 62" | "i = 63" by linarith
  then show "b64_table64 (b64_table64_2 ! i) = of_nat i"
    using assms by cases (auto simp: b64_table64_def b64_ord_nth Let_def)
  have "ord (b64_table64_2 ! i) \<noteq> ord (CHR ''='')"
    using assms by (auto simp: b64_ord_nth)
  then show "b64_table64_2 ! i \<noteq> CHR ''=''" by metis
qed

lemma b64c_props:
  assumes "w < 64"
  shows "b64_table64 (b64c w) = w" "b64c w \<noteq> CHR ''=''"
proof -
  have u: "unat w < 64" using assms by (simp add: word_less_nat_alt)
  have "b64_table64 (b64c w) = of_nat (unat w)"
    using b64_inverse u by (simp add: b64c_def)
  then show "b64_table64 (b64c w) = w" by simp
  show "b64c w \<noteq> CHR ''=''"
    using b64_inverse u by (simp add: b64c_def)
qed


lemma nat8_cases: "(n::nat) < 8 \<Longrightarrow> n = 0 \<or> n = 1 \<or> n = 2 \<or> n = 3 \<or> n = 4 \<or> n = 5 \<or> n = 6 \<or> n = 7"
  by auto

lemma word8_eqI:
  fixes x y :: "8 word"
  assumes "bit x 0 = bit y 0" "bit x 1 = bit y 1" "bit x 2 = bit y 2" "bit x 3 = bit y 3"
    "bit x 4 = bit y 4" "bit x 5 = bit y 5" "bit x 6 = bit y 6" "bit x 7 = bit y 7"
  shows "x = y"
proof (rule bit_word_eqI)
  fix n assume "n < LENGTH(8)"
  then have "n < 8" by simp
  then show "bit x n = bit y n" using nat8_cases assms by metis
qed


lemma word8_no_bit: "\<not> bit (a :: 8 word) (8 + n)"
  by (auto dest: bit_imp_le_length)

lemma word8_lt64:
  fixes x :: "8 word"
  assumes "\<not> bit x 6" "\<not> bit x 7"
  shows "x < 64"
proof -
  have "take_bit 6 x = x"
    using assms by (intro word8_eqI) (simp_all add: bit_take_bit_iff)
  then have "unat x = take_bit 6 (unat x)" by (metis unsigned_take_bit_eq)
  then have "unat x < 2 ^ 6" using take_bit_nat_less_exp [of 6 "unat x"] by simp
  then show ?thesis by (simp add: word_less_nat_alt)
qed

lemmas bits8 = bit_or_iff bit_and_iff bit_push_bit_iff bit_drop_bit_eq o_def
  bit_numeral_rec numeral_2_eq_2 [symmetric] numeral_3_eq_3 [symmetric]
  word8_no_bit [of _ 0, simplified] word8_no_bit [of _ 1, simplified]

lemma sextet_bound:
  fixes a b :: "8 word"
  shows "drop_bit 2 a < 64" and "(push_bit 4 a AND 0x30) OR drop_bit 4 b < 64"
    and "(push_bit 2 a AND 0x3C) OR drop_bit 6 b < 64" and "a AND 0x3F < 64"
    and "push_bit 4 a AND 0x30 < 64" and "push_bit 2 a AND 0x3C < 64"
  by (rule word8_lt64; simp add: bits8 word8_no_bit [of _ 2, simplified] 
       word8_no_bit [of _ 3, simplified] word8_no_bit [of _ 4, simplified] word8_no_bit [of _ 5, simplified])+

lemma sextet_join:
  fixes a b c :: "8 word"
  shows "push_bit 2 (drop_bit 2 a) OR drop_bit 4 ((push_bit 4 a AND 0x30) OR drop_bit 4 b) = a"
    and "push_bit 2 (drop_bit 2 a) OR drop_bit 4 (push_bit 4 a AND 0x30) = a"
    and "push_bit 4 ((push_bit 4 a AND 0x30) OR drop_bit 4 b)
         OR drop_bit 2 ((push_bit 2 b AND 0x3C) OR drop_bit 6 c) = b"
    and "push_bit 4 ((push_bit 4 a AND 0x30) OR drop_bit 4 b)
         OR drop_bit 2 (push_bit 2 b AND 0x3C) = b"
    and "push_bit 6 ((push_bit 2 b AND 0x3C) OR drop_bit 6 c) OR (c AND 0x3F) = c"
      apply (rule word8_eqI; simp add: bits8)
     apply (rule word8_eqI; simp add: bits8)
     apply (rule word8_eqI; simp add: bits8)
     apply (rule word8_eqI; simp add: bits8)
     apply (rule word8_eqI; simp add: bits8)
  done

lemma char8_b8 [simp]: "char8 (b8 c) = c"
proof -
  have "b8 c = of_nat (ord c)" by (rule of_nat_of_char [symmetric])
  moreover have "unat (of_nat (ord c) :: 8 word) = ord c mod 256"
    by (simp only: unat_of_nat) simp
  ultimately show ?thesis by (simp only: char8_def) simp
qed

definition b64_body :: "char list \<Rightarrow> char list" where
  "b64_body s = takeWhile (\<lambda>c. c \<noteq> CHR ''='') (upsgi_base64_encode s)"

lemmas b64_quad = b64c_props(1) [OF sextet_bound(1)] b64c_props(1) [OF sextet_bound(2)]
  b64c_props(1) [OF sextet_bound(3)] b64c_props(1) [OF sextet_bound(4)]
  b64c_props(1) [OF sextet_bound(5)] b64c_props(1) [OF sextet_bound(6)]

lemmas b64_neq = b64c_props(2) [OF sextet_bound(1)] b64c_props(2) [OF sextet_bound(2)]
  b64c_props(2) [OF sextet_bound(3)] b64c_props(2) [OF sextet_bound(4)]
  b64c_props(2) [OF sextet_bound(5)] b64c_props(2) [OF sextet_bound(6)]

lemma b64_body_simps:
  "b64_body (x # y # z # rest) =
     b64c (drop_bit 2 (b8 x)) # b64c ((push_bit 4 (b8 x) AND 0x30) OR drop_bit 4 (b8 y)) #
     b64c ((push_bit 2 (b8 y) AND 0x3C) OR drop_bit 6 (b8 z)) # b64c (b8 z AND 0x3F) # b64_body rest"
  "b64_body [x, y] = [b64c (drop_bit 2 (b8 x)),
     b64c ((push_bit 4 (b8 x) AND 0x30) OR drop_bit 4 (b8 y)), b64c (push_bit 2 (b8 y) AND 0x3C)]"
  "b64_body [x] = [b64c (drop_bit 2 (b8 x)), b64c (push_bit 4 (b8 x) AND 0x30)]"
  "b64_body [] = []"
  by (simp_all only: b64_body_def upsgi_base64_encode.simps takeWhile.simps b64_neq
        not_False_eq_True simp_thms if_True if_False)

lemma b64_body_decode: "base64_decode_loop (b64_body s) = s"
  by (induction s rule: upsgi_base64_encode.induct)
    (simp_all only: b64_body_simps base64_decode_loop.simps b64_quad sextet_join char8_b8)

lemma lt64_valid: "(w :: 8 word) < 64 \<Longrightarrow> w \<noteq> 77"
  by auto

lemmas b64_valid = sextet_bound [THEN lt64_valid]

lemma b64_body_valid: "\<forall>c \<in> set (b64_body s). b64_table64 c \<noteq> 77"
  by (induction s rule: upsgi_base64_encode.induct)
    (simp_all only: b64_body_simps set_simps ball_simps b64_quad b64_valid not_False_eq_True simp_thms)

lemma b64_body_length: "length (b64_body s) mod 4 \<noteq> 1"
  by (induction s rule: upsgi_base64_encode.induct) (simp_all add: b64_body_simps)

text \<open>decoding a base64 encoding gives back the encoded bytes, for every byte string.\<close>

theorem base64_roundtrip: "upsgi_base64_decode (upsgi_base64_encode s) = Some s"
  using b64_body_decode b64_body_valid b64_body_length
  by (auto simp: upsgi_base64_decode_def Let_def b64_body_def)

section \<open>Percent decoding: bounds and dot segments\<close>

subsection \<open>The output fits the caller's buffer\<close>

text \<open>Bytes of consumed input that the pending state still stands for.\<close>

fun url_pending :: "bool \<Rightarrow> nat \<Rightarrow> url_status \<Rightarrow> nat" where
  "url_pending ns i UZero = 0"
| "url_pending ns i UPercent1 = 1"
| "url_pending ns i UPercent2 = 2"
| "url_pending ns i USlash = (if i > 0 \<or> \<not> ns then 1 else 0)"
| "url_pending ns i UDot = (if i > 1 then 2 else 1)"
| "url_pending ns i UDotdot = (if i > 2 then 3 else 2)"

fun url_budget :: "bool \<Rightarrow> nat \<Rightarrow> url_state \<Rightarrow> bool" where
  "url_budget ns i (q, v, out) \<longleftrightarrow> length out + url_pending ns i q \<le> i"

lemma slash_if_length [simp]: "length (slash_if b) = (if b then 1 else 0)"
  by (simp add: slash_if_def)

lemma pop_segment_length: "length (pop_segment out) \<le> length out"
  unfolding pop_segment_def using length_dropWhile_le [of "\<lambda>c. c \<noteq> CHR ''/''" "rev out"] by simp

lemma end_segment_length: "length (end_segment out) \<le> length out"
  unfolding end_segment_def using length_dropWhile_le [of "\<lambda>c. c \<noteq> CHR ''/''" "rev out"] by simp

lemma url_step_budget:
  "url_budget ns i st \<Longrightarrow> url_budget ns (Suc i) (url_step nsd ns i c st)"
proof (induction nsd ns i c st rule: url_step.induct)
  case (6 nsd ns i c v out)
  then show ?case using pop_segment_length [of out] by auto
qed auto

text \<open>The budget at the end; a \<open>#\<close> stops the loop with at least that byte unread.\<close>

lemma url_loop_budget:
  assumes "url_budget ns i st" "s \<noteq> []"
  shows "\<exists>j. url_budget ns j (url_loop nsd ns i s st) \<and> j \<le> i + length s \<and>
     (j < i + length s \<or> 0 < j)"
  using assms
proof (induction s arbitrary: i st)
  case Nil
  then show ?case by simp
next
  case (Cons c s)
  obtain q v out where st: "st = (q, v, out)" by (cases st)
  show ?case
  proof (cases "c = CHR ''#''")
    case True
    with Cons.prems st show ?thesis by (intro exI [of _ i]) auto
  next
    case False
    have b: "url_budget ns (Suc i) (url_step nsd ns i c st)"
      using Cons.prems by (simp add: url_step_budget)
    show ?thesis
    proof (cases s)
      case Nil
      then show ?thesis using False b st
        by (intro exI [of _ "Suc i"]) (cases "url_step nsd ns i c st"; simp)
    next
      case (Cons d r)
      then obtain j where "url_budget ns j (url_loop nsd ns (Suc i) s (url_step nsd ns i c st))"
        "j \<le> Suc i + length s" "j < Suc i + length s \<or> 0 < j"
        using Cons.IH [OF b] by auto
      with False st show ?thesis by (intro exI [of _ j]) auto
    qed
  qed
qed

lemma url_finish_length:
  "url_budget ns j st \<Longrightarrow> j \<le> n \<Longrightarrow> j < n \<or> 0 < j \<Longrightarrow> length (url_finish st) \<le> n"
proof (induction st rule: url_finish.induct)
  case (3 v out)
  then show ?case using end_segment_length [of out] by auto
qed (auto split: if_splits)

text \<open>percent decoding never writes more bytes than it reads, so the
  \<open>path_len\<close> bytes that \<open>http_add_path_info\<close> allocates are enough.\<close>

theorem http_url_decode4_length: "length (http_url_decode4 nsd buf) \<le> length buf"
proof (cases "buf = []")
  case True
  then show ?thesis by (simp add: http_url_decode4_def)
next
  case False
  have *: "length (url_finish (url_loop nsd ns 0 buf st)) \<le> length buf"
    if "url_budget ns 0 st" for ns st
    using url_loop_budget [OF that False, of nsd] by (auto intro: url_finish_length)
  show ?thesis
    using * [of True "(USlash, CHR ''0'', [])"] * [of False "(UZero, CHR ''0'', [])"]
    by (simp add: http_url_decode4_def)
qed

section \<open>Dot segments\<close>

fun segments :: "char list \<Rightarrow> char list list" where
  "segments [] = [[]]"
| "segments (c # cs) =
     (if c = CHR ''/'' then [] # segments cs else (c # hd (segments cs)) # tl (segments cs))"

lemma segments_nonempty [simp]: "segments s \<noteq> []"
  by (induction s) auto

lemma segments_snoc_slash: "segments (s @ [CHR ''/'']) = segments s @ [[]]"
  by (induction s) (auto simp: hd_append)

lemma segments_snoc:
  "c \<noteq> CHR ''/'' \<Longrightarrow> segments (s @ [c]) = butlast (segments s) @ [last (segments s) @ [c]]"
proof (induction s)
  case Nil
  then show ?case by simp
next
  case (Cons a s)
  obtain x xs where "segments s = x # xs" by (cases "segments s") auto
  with Cons show ?case by (cases xs) auto
qed

lemma segments_split: "\<forall>c \<in> set q. c \<noteq> CHR ''/'' \<Longrightarrow> segments (p @ CHR ''/'' # q) = segments p @ [q]"
proof (induction p)
  case Nil
  then show ?case by (induction q) auto
next
  case (Cons c p)
  then show ?case by (auto simp: hd_append)
qed

lemma strip_to_slash:
  obtains (no) "\<forall>c \<in> set out. c \<noteq> CHR ''/''" "pop_segment out = []" "end_segment out = []"
  | (yes) p q where "out = p @ CHR ''/'' # q" "\<forall>c \<in> set q. c \<noteq> CHR ''/''"
      "pop_segment out = p" "end_segment out = p @ [CHR ''/'']"
proof -
  let ?P = "\<lambda>c. c \<noteq> CHR ''/''"
  have dec: "rev out = takeWhile ?P (rev out) @ dropWhile ?P (rev out)" by simp
  show ?thesis
  proof (cases "dropWhile ?P (rev out)")
    case Nil
    then have "\<forall>c \<in> set out. c \<noteq> CHR ''/''" by (simp add: dropWhile_eq_Nil_conv)
    then show ?thesis by (rule no) (simp_all only: pop_segment_def end_segment_def Nil drop_Nil rev.simps)
  next
    case (Cons x r)
    then have x: "x = CHR ''/''" using hd_dropWhile [of ?P "rev out"] by auto
    have "out = rev (dropWhile ?P (rev out)) @ rev (takeWhile ?P (rev out))"
      using dec by (metis rev_append rev_rev_ident)
    then have "out = rev r @ CHR ''/'' # rev (takeWhile ?P (rev out))" by (simp add: Cons x)
    moreover have "\<forall>c \<in> set (rev (takeWhile ?P (rev out))). c \<noteq> CHR ''/''"
      by (auto dest: set_takeWhileD)
    ultimately show ?thesis using Cons x
      by (intro yes [of "rev r" "rev (takeWhile ?P (rev out))"])
         (simp_all add: pop_segment_def end_segment_def)
  qed
qed

definition no_dotdot :: "char list \<Rightarrow> bool" where
  "no_dotdot s \<longleftrightarrow> ''..'' \<notin> set (segments s)"

lemma no_dotdot_Nil: "no_dotdot []"
  by (simp add: no_dotdot_def)

lemma no_dotdot_slash: "no_dotdot (s @ [CHR ''/'']) \<longleftrightarrow> no_dotdot s"
  by (auto simp: no_dotdot_def segments_snoc_slash)

lemma no_dotdot_pop: "no_dotdot out \<Longrightarrow> no_dotdot (pop_segment out)"
  by (cases out rule: strip_to_slash) (auto simp: no_dotdot_def segments_split)

lemma no_dotdot_end: "no_dotdot out \<Longrightarrow> no_dotdot (end_segment out)"
  by (cases out rule: strip_to_slash) (auto simp: no_dotdot_def segments_split segments_snoc_slash)

lemma no_dotdot_snoc:
  assumes "no_dotdot s" "c \<noteq> CHR ''/''" "last (segments s) @ [c] \<noteq> ''..''"
  shows "no_dotdot (s @ [c])"
  using assms by (auto simp: no_dotdot_def segments_snoc dest: in_set_butlastD)

text \<open>In state \<open>zero\<close> the segment being written can no longer become a dot segment.\<close>

fun url_safe :: "url_state \<Rightarrow> bool" where
  "url_safe (q, v, out) \<longleftrightarrow> no_dotdot out \<and> q \<notin> {UPercent1, UPercent2} \<and>
     (q = UZero \<longrightarrow> last (segments out) \<notin> {[], ''.'', ''..''})"

lemma url_safe_word:
  assumes "c \<noteq> CHR ''.'' \<or> d = ''..''" "c \<noteq> CHR ''/''" "no_dotdot s" "d \<in> {[], ''.'', ''..''}"
  shows "no_dotdot (s @ slash_if b @ d @ [c]) \<and>
    last (segments (s @ slash_if b @ d @ [c])) \<notin> {[], ''.'', ''..''}"
proof -
  define t where "t = s @ slash_if b"
  have t: "no_dotdot t" using assms by (auto simp: t_def no_dotdot_slash slash_if_def)
  have last: "last (segments (t @ d @ [c])) = last (segments (t @ d)) @ [c]"
    using segments_snoc [OF assms(2), of "t @ d"] by simp
  have dd: "last (segments (t @ ''..'')) = last (segments t) @ ''..''"
    using segments_snoc [of "CHR ''.''" "t @ ''.''"] segments_snoc [of "CHR ''.''" t] by simp
  have ne: "last (segments (t @ d)) @ [c] \<notin> {[], ''.'', ''..''}"
    using assms(1) dd by (auto simp: append_eq_Cons_conv)
  have d: "\<forall>g \<in> set (butlast (segments (t @ d))). g \<noteq> ''..''"
    using assms(4) t segments_snoc [of "CHR ''.''" t] segments_snoc [of "CHR ''.''" "t @ ''.''"]
    by (auto simp: no_dotdot_def dest: in_set_butlastD)
  have "no_dotdot (t @ d @ [c])"
    using segments_snoc [OF assms(2), of "t @ d"] d ne by (auto simp: no_dotdot_def)
  with last ne show ?thesis by (simp add: t_def)
qed

lemma url_step_safe:
  assumes "url_safe st" "c \<noteq> CHR ''%''"
  shows "url_safe (url_step nsd ns i c st)"
  using assms
proof (induction nsd ns i c st rule: url_step.induct)
  case (1 nsd ns i c v out)
  show ?case
  proof (cases "c = CHR ''/''")
    case True
    with 1 show ?thesis by simp
  next
    case False
    have l: "last (segments (out @ [c])) = last (segments out) @ [c]"
      using False by (simp add: segments_snoc)
    have "last (segments out) \<notin> {[], ''.'', ''..''}" using 1 by simp
    then have n: "last (segments out) @ [c] \<notin> {[], ''.'', ''..''}"
      by (auto simp: append_eq_Cons_conv)
    have "no_dotdot (out @ [c])"
      using 1 False n by (intro no_dotdot_snoc) auto
    with 1 False l n show ?thesis by simp
  qed
next
  case (4 nsd ns i c v out)
  then show ?case
    using url_safe_word [where c = c and s = out and d = "[]" and b = "i > 0 \<or> \<not> ns"]
    by (auto simp: no_dotdot_slash slash_if_def)
next
  case (5 nsd ns i c v out)
  then show ?case
    using url_safe_word [where c = c and s = out and d = "''.''" and b = "i > 1"] by auto
next
  case (6 nsd ns i c v out)
  then show ?case
    using url_safe_word [where c = c and s = out and d = "''..''" and b = "i > 2"]
    by (auto simp: no_dotdot_pop)
qed auto

lemma url_loop_safe:
  "url_safe st \<Longrightarrow> CHR ''%'' \<notin> set s \<Longrightarrow> url_safe (url_loop nsd ns i s st)"
proof (induction s arbitrary: i st)
  case Nil
  then show ?case by (cases st) simp
next
  case (Cons c s)
  then have "url_safe (url_step nsd ns i c st)" by (auto intro: url_step_safe)
  then have "url_safe (url_loop nsd ns (Suc i) s (url_step nsd ns i c st))"
    using Cons by auto
  with Cons.prems show ?case by (cases st) simp
qed

lemma url_finish_safe: "url_safe st \<Longrightarrow> no_dotdot (url_finish st)"
  by (induction st rule: url_finish.induct) (auto simp: no_dotdot_slash no_dotdot_end)

text \<open>a path with no percent escape comes out without any \<open>..\<close> segment:
  dot segments are removed, never passed on.\<close>

theorem http_url_decode4_no_dotdot:
  assumes "CHR ''%'' \<notin> set buf"
  shows "''..'' \<notin> set (segments (http_url_decode4 nsd buf))"
proof -
  have safe: "url_safe (USlash, v, [])" for v by (simp add: no_dotdot_Nil)
  have "no_dotdot (http_url_decode4 nsd buf)"
  proof (cases "buf = [] \<or> hd buf \<noteq> CHR ''/''")
    case True
    then show ?thesis
      using url_finish_safe [OF url_loop_safe [OF safe assms]]
      by (auto simp: http_url_decode4_def no_dotdot_Nil)
  next
    case False
    then obtain s where buf: "buf = CHR ''/'' # s" by (cases buf) auto
    have "no_dotdot (url_finish (url_loop nsd False 1 s (USlash, CHR ''0'', [])))"
      using assms buf by (intro url_finish_safe url_loop_safe safe) auto
    then show ?thesis by (simp add: http_url_decode4_def buf)
  qed
  then show ?thesis by (simp add: no_dotdot_def)
qed

theorem http_url_decode4_no_dotdot_witness:
  "CHR ''%'' \<notin> set ''/a/../../etc'' \<and>
   ''..'' \<notin> set (segments (http_url_decode4 False ''/a/../../etc'')) \<and>
   http_url_decode4 False ''/a/../../etc'' = ''/etc''"
  using http_url_decode4_no_dotdot [of "''/a/../../etc''" False]
  by (simp add: http_url_decode4_def slash_if_def pop_segment_def)

text \<open>The escape matters: an encoded dot segment survives decoding.\<close>

lemma http_url_decode4_encoded_dotdot:
  "http_url_decode4 False ''/%2e%2e/etc'' = ''/../etc''"
  by (simp add: http_url_decode4_def slash_if_def hex2num_def hex2num_digit_def
      is_digit_def char8_def char_of_def bit_0)

end
