(* ===== verification/Upsgi_Buffer.thy ===== *)
theory Upsgi_Buffer
  imports Upsgi_Codec
begin

text \<open>
  The growable byte buffer of \<open>core/buffer.c\<close>.  A buffer is the allocated block (so \<open>len\<close> is
  the block's length), the write position and the optional limit.  The environment carries
  what the C code gets from outside: the page size, whether a \<open>realloc\<close> to a given size
  succeeds, whether it moves the block, and the contents of fresh memory.

  A buffer refines a byte sequence: \<open>ub_content\<close> is the first \<open>pos\<close> bytes, and the operations
  append to it, insert into it or drop its front.  The locale \<open>byte_sink\<close> states the contract
  clients rely on (an append either extends the contents or leaves the buffer as it was, and
  never writes out of bounds); the encoders for JSON, XML, numbers and key/value pairs are
  proved against it.
\<close>

record mem_env =
  page_size :: nat
  realloc_ok :: "nat \<Rightarrow> bool"
  realloc_moves :: "nat \<Rightarrow> bool"
  fresh_byte :: "nat \<Rightarrow> char"

record upsgi_buffer =
  ub_buf :: "char list"
  ub_pos :: nat
  ub_limit :: nat

abbreviation ub_len :: "upsgi_buffer \<Rightarrow> nat" where
  "ub_len ub \<equiv> length (ub_buf ub)"

definition ub_content :: "upsgi_buffer \<Rightarrow> char list" where
  "ub_content ub = take (ub_pos ub) (ub_buf ub)"

definition ub_inv :: "upsgi_buffer \<Rightarrow> bool" where
  "ub_inv ub \<longleftrightarrow> ub_pos ub \<le> ub_len ub"

section \<open>Allocation\<close>

definition fresh_block :: "mem_env \<Rightarrow> nat \<Rightarrow> nat \<Rightarrow> char list" where
  "fresh_block env from to = map (fresh_byte env) [from..<to]"

definition upsgi_buffer_new :: "mem_env \<Rightarrow> nat \<Rightarrow> upsgi_buffer" where
  "upsgi_buffer_new env len = \<lparr>ub_buf = fresh_block env 0 len, ub_pos = 0, ub_limit = 0\<rparr>"

definition ub_realloc :: "mem_env \<Rightarrow> upsgi_buffer \<Rightarrow> nat \<Rightarrow> upsgi_buffer c_result" where
  "ub_realloc env ub n =
     (if realloc_ok env n
      then Ok (ub\<lparr>ub_buf := take n (ub_buf ub) @ fresh_block env (ub_len ub) n\<rparr>)
      else Err ub)"

definition upsgi_buffer_fix :: "mem_env \<Rightarrow> upsgi_buffer \<Rightarrow> nat \<Rightarrow> upsgi_buffer c_result" where
  "upsgi_buffer_fix env ub len =
     (if ub_limit ub > 0 \<and> len > ub_limit ub then Err ub
      else if ub_len ub < len then ub_realloc env ub len
      else Ok ub)"

definition upsgi_buffer_ensure :: "mem_env \<Rightarrow> upsgi_buffer \<Rightarrow> nat \<Rightarrow> upsgi_buffer c_result" where
  "upsgi_buffer_ensure env ub len =
     (let remains = size_sub (ub_len ub) (ub_pos ub) in
      if remains < len then
        (let new_len = size_add (ub_len ub) (len - remains) in
         if ub_limit ub > 0 \<and> new_len > ub_limit ub then
           (if ub_limit ub = ub_len ub then Err ub else ub_realloc env ub (ub_limit ub))
         else ub_realloc env ub new_len)
      else Ok ub)"

section \<open>Writing into the block\<close>

definition ub_memcpy :: "upsgi_buffer \<Rightarrow> nat \<Rightarrow> char list \<Rightarrow> upsgi_buffer c_result" where
  "ub_memcpy ub off d =
     (case mem_write (ub_buf ub) off d of None \<Rightarrow> Fault | Some m \<Rightarrow> Ok (ub\<lparr>ub_buf := m\<rparr>))"

definition ub_advance :: "nat \<Rightarrow> upsgi_buffer \<Rightarrow> upsgi_buffer c_result" where
  "ub_advance n ub = Ok (ub\<lparr>ub_pos := ub_pos ub + n\<rparr>)"

definition upsgi_buffer_append :: "mem_env \<Rightarrow> upsgi_buffer \<Rightarrow> char list \<Rightarrow> upsgi_buffer c_result" where
  "upsgi_buffer_append env ub d =
     (let len = length d;
          remains = size_sub (ub_len ub) (ub_pos ub);
          grown =
            (if len > remains then
               (let chunk_size = max len (page_size env) in
                if ub_limit ub > 0 \<and> ub_len ub + chunk_size > ub_limit ub then
                  (let chunk_size = (if len < page_size env then len else chunk_size) in
                   if ub_len ub + chunk_size > ub_limit ub then Err ub
                   else ub_realloc env ub (ub_len ub + chunk_size))
                else ub_realloc env ub (ub_len ub + chunk_size))
             else Ok ub)
      in c_bind grown (\<lambda>u. c_bind (ub_memcpy u (ub_pos u) d) (ub_advance len)))"

definition upsgi_buffer_insert ::
    "mem_env \<Rightarrow> upsgi_buffer \<Rightarrow> nat \<Rightarrow> char list \<Rightarrow> upsgi_buffer c_result" where
  "upsgi_buffer_insert env ub pos d =
     (let to_move = size_sub (ub_pos ub) pos in
      c_bind (upsgi_buffer_ensure env ub (length d)) (\<lambda>u.
        if pos + to_move > ub_len u then Fault
        else c_bind (ub_memcpy u (pos + length d) (take to_move (drop pos (ub_buf u)))) (\<lambda>v.
          c_bind (ub_memcpy v pos d) (ub_advance (length d)))))"

text \<open>The chunk size line \<open>%X\r\n\<close>; the length is cast to \<open>unsigned int\<close>.\<close>

definition chunk_line :: "nat \<Rightarrow> char list" where
  "chunk_line len = nat_hex (len mod 2 ^ 32) @ [CHR 0x0D, CHR 0x0A]"

definition upsgi_buffer_insert_chunked ::
    "mem_env \<Rightarrow> upsgi_buffer \<Rightarrow> nat \<Rightarrow> nat \<Rightarrow> upsgi_buffer c_result" where
  "upsgi_buffer_insert_chunked env ub pos len =
     (let ret = length (chunk_line len) in
      if ret \<le> 0 \<or> ret \<ge> 19 then Err ub else upsgi_buffer_insert env ub pos (chunk_line len))"

definition upsgi_buffer_append_chunked ::
    "mem_env \<Rightarrow> upsgi_buffer \<Rightarrow> nat \<Rightarrow> upsgi_buffer c_result" where
  "upsgi_buffer_append_chunked env ub len =
     (let ret = length (chunk_line len) in
      if ret \<le> 0 \<or> ret \<ge> 19 then Err ub else upsgi_buffer_append env ub (chunk_line len))"

definition upsgi_buffer_decapitate :: "upsgi_buffer \<Rightarrow> nat \<Rightarrow> upsgi_buffer c_result" where
  "upsgi_buffer_decapitate ub len =
     (if len > ub_pos ub then Err ub
      else if ub_pos ub > ub_len ub then Fault
      else c_bind (ub_memcpy ub 0 (take (ub_pos ub - len) (drop len (ub_buf ub))))
             (\<lambda>u. Ok (u\<lparr>ub_pos := ub_pos ub - len\<rparr>)))"

definition upsgi_buffer_byte :: "mem_env \<Rightarrow> upsgi_buffer \<Rightarrow> char \<Rightarrow> upsgi_buffer c_result" where
  "upsgi_buffer_byte env ub b = upsgi_buffer_append env ub [b]"

definition upsgi_buffer_u8 :: "mem_env \<Rightarrow> upsgi_buffer \<Rightarrow> 8 word \<Rightarrow> upsgi_buffer c_result" where
  "upsgi_buffer_u8 env ub w = upsgi_buffer_append env ub [byte_of 0 w]"

section \<open>Escaped text\<close>

definition json_escape :: "char \<Rightarrow> char list" where
  "json_escape c =
     (if c = CHR 0x09 then [CHR 0x5C, CHR ''t'']
      else if c = CHR 0x0A then [CHR 0x5C, CHR ''n'']
      else if c = CHR 0x0D then [CHR 0x5C, CHR ''r'']
      else if c = CHR 0x22 then [CHR 0x5C, CHR 0x22]
      else if c = CHR 0x5C then [CHR 0x5C, CHR 0x5C]
      else [c])"

definition xml_escape :: "char \<Rightarrow> char list" where
  "xml_escape c =
     (if c = CHR 0x22 then ''&quot;''
      else if c = CHR 0x27 then ''&apos;''
      else if c = CHR ''<'' then ''&lt;''
      else if c = CHR ''>'' then ''&gt;''
      else if c = CHR ''&'' then ''&amp;''
      else [c])"

fun upsgi_buffer_append_json :: "mem_env \<Rightarrow> upsgi_buffer \<Rightarrow> char list \<Rightarrow> upsgi_buffer c_result" where
  "upsgi_buffer_append_json env ub [] = Ok ub"
| "upsgi_buffer_append_json env ub (c # cs) =
     c_bind (upsgi_buffer_append env ub (json_escape c)) (\<lambda>u. upsgi_buffer_append_json env u cs)"

fun upsgi_buffer_append_xml :: "mem_env \<Rightarrow> upsgi_buffer \<Rightarrow> char list \<Rightarrow> upsgi_buffer c_result" where
  "upsgi_buffer_append_xml env ub [] = Ok ub"
| "upsgi_buffer_append_xml env ub (c # cs) =
     c_bind (upsgi_buffer_append env ub (xml_escape c)) (\<lambda>u. upsgi_buffer_append_xml env u cs)"

section \<open>Numbers\<close>

definition u16le :: "16 word \<Rightarrow> char list" where
  "u16le num = [byte_of 0 num, byte_of 1 num]"

definition u16be :: "16 word \<Rightarrow> char list" where
  "u16be num = [byte_of 1 num, byte_of 0 num]"

definition u24be :: "32 word \<Rightarrow> char list" where
  "u24be num = [byte_of 2 num, byte_of 1 num, byte_of 0 num]"

definition u32be :: "32 word \<Rightarrow> char list" where
  "u32be num = [byte_of 3 num, byte_of 2 num, byte_of 1 num, byte_of 0 num]"

definition u32le :: "32 word \<Rightarrow> char list" where
  "u32le num = [byte_of 0 num, byte_of 1 num, byte_of 2 num, byte_of 3 num]"

definition u64be :: "64 word \<Rightarrow> char list" where
  "u64be num = [byte_of 7 num, byte_of 6 num, byte_of 5 num, byte_of 4 num,
                byte_of 3 num, byte_of 2 num, byte_of 1 num, byte_of 0 num]"

definition u64le :: "64 word \<Rightarrow> char list" where
  "u64le num = [byte_of 0 num, byte_of 1 num, byte_of 2 num, byte_of 3 num,
                byte_of 4 num, byte_of 5 num, byte_of 6 num, byte_of 7 num]"

definition upsgi_buffer_u16le :: "mem_env \<Rightarrow> upsgi_buffer \<Rightarrow> 16 word \<Rightarrow> upsgi_buffer c_result" where
  "upsgi_buffer_u16le env ub num = upsgi_buffer_append env ub (u16le num)"

definition upsgi_buffer_u16be :: "mem_env \<Rightarrow> upsgi_buffer \<Rightarrow> 16 word \<Rightarrow> upsgi_buffer c_result" where
  "upsgi_buffer_u16be env ub num = upsgi_buffer_append env ub (u16be num)"

definition upsgi_buffer_u24be :: "mem_env \<Rightarrow> upsgi_buffer \<Rightarrow> 32 word \<Rightarrow> upsgi_buffer c_result" where
  "upsgi_buffer_u24be env ub num = upsgi_buffer_append env ub (u24be num)"

definition upsgi_buffer_u32be :: "mem_env \<Rightarrow> upsgi_buffer \<Rightarrow> 32 word \<Rightarrow> upsgi_buffer c_result" where
  "upsgi_buffer_u32be env ub num = upsgi_buffer_append env ub (u32be num)"

text \<open>The float variants write the four or eight bytes of the value's representation.\<close>

definition upsgi_buffer_f32be :: "mem_env \<Rightarrow> upsgi_buffer \<Rightarrow> 32 word \<Rightarrow> upsgi_buffer c_result" where
  "upsgi_buffer_f32be env ub repr = upsgi_buffer_append env ub (u32be repr)"

definition upsgi_buffer_u32le :: "mem_env \<Rightarrow> upsgi_buffer \<Rightarrow> 32 word \<Rightarrow> upsgi_buffer c_result" where
  "upsgi_buffer_u32le env ub num = upsgi_buffer_append env ub (u32le num)"

definition upsgi_buffer_u64be :: "mem_env \<Rightarrow> upsgi_buffer \<Rightarrow> 64 word \<Rightarrow> upsgi_buffer c_result" where
  "upsgi_buffer_u64be env ub num = upsgi_buffer_append env ub (u64be num)"

definition upsgi_buffer_u64le :: "mem_env \<Rightarrow> upsgi_buffer \<Rightarrow> 64 word \<Rightarrow> upsgi_buffer c_result" where
  "upsgi_buffer_u64le env ub num = upsgi_buffer_append env ub (u64le num)"

definition upsgi_buffer_f64be :: "mem_env \<Rightarrow> upsgi_buffer \<Rightarrow> 64 word \<Rightarrow> upsgi_buffer c_result" where
  "upsgi_buffer_f64be env ub repr = upsgi_buffer_append env ub (u64be repr)"

text \<open>\<open>inet_ntop(AF_INET, ...)\<close>: dotted decimal of the four address bytes.\<close>

fun inet_ntoa :: "8 word \<times> 8 word \<times> 8 word \<times> 8 word \<Rightarrow> char list" where
  "inet_ntoa (a, b, c, d) =
     nat_dec (unat a) @ ''.'' @ nat_dec (unat b) @ ''.'' @ nat_dec (unat c) @ ''.'' @ nat_dec (unat d)"

definition upsgi_buffer_append_ipv4 ::
    "mem_env \<Rightarrow> upsgi_buffer \<Rightarrow> 8 word \<times> 8 word \<times> 8 word \<times> 8 word \<Rightarrow> upsgi_buffer c_result" where
  "upsgi_buffer_append_ipv4 env ub addr = upsgi_buffer_append env ub (inet_ntoa addr)"

text \<open>\<open>sizeof(UMAX64_STR)+1\<close> is 22.\<close>

definition upsgi_buffer_num64 :: "mem_env \<Rightarrow> upsgi_buffer \<Rightarrow> 64 word \<Rightarrow> upsgi_buffer c_result" where
  "upsgi_buffer_num64 env ub num =
     (let s = int_dec (sint num) in
      if length s \<le> 0 \<or> length s \<ge> 22 then Err ub else upsgi_buffer_append env ub s)"

section \<open>Key/value pairs\<close>

text \<open>The lengths are the callers' \<open>uint16_t\<close> or \<open>uint32_t\<close> arguments.\<close>

definition upsgi_buffer_append_keyval ::
    "mem_env \<Rightarrow> upsgi_buffer \<Rightarrow> char list \<Rightarrow> char list \<Rightarrow> upsgi_buffer c_result" where
  "upsgi_buffer_append_keyval env ub key val =
     c_bind (upsgi_buffer_u16le env ub (of_nat (length key))) (\<lambda>u1.
     c_bind (upsgi_buffer_append env u1 key) (\<lambda>u2.
     c_bind (upsgi_buffer_u16le env u2 (of_nat (length val))) (\<lambda>u3.
       upsgi_buffer_append env u3 val)))"

definition upsgi_buffer_append_keyval32 ::
    "mem_env \<Rightarrow> upsgi_buffer \<Rightarrow> char list \<Rightarrow> char list \<Rightarrow> upsgi_buffer c_result" where
  "upsgi_buffer_append_keyval32 env ub key val =
     c_bind (upsgi_buffer_u32be env ub (of_nat (length key))) (\<lambda>u1.
     c_bind (upsgi_buffer_append env u1 key) (\<lambda>u2.
     c_bind (upsgi_buffer_u32be env u2 (of_nat (length val))) (\<lambda>u3.
       upsgi_buffer_append env u3 val)))"

definition upsgi_buffer_append_keynum ::
    "mem_env \<Rightarrow> upsgi_buffer \<Rightarrow> char list \<Rightarrow> 64 word \<Rightarrow> upsgi_buffer c_result" where
  "upsgi_buffer_append_keynum env ub key num =
     (let s = int_dec (sint num) in
      if length s \<le> 0 \<or> length s \<ge> 22 then Err ub
      else c_bind (upsgi_buffer_u16le env ub (of_nat (length key))) (\<lambda>u1.
           c_bind (upsgi_buffer_append env u1 key) (\<lambda>u2.
           c_bind (upsgi_buffer_u16le env u2 (of_nat (length s))) (\<lambda>u3.
             upsgi_buffer_append env u3 s))))"

definition upsgi_buffer_append_valnum ::
    "mem_env \<Rightarrow> upsgi_buffer \<Rightarrow> 64 word \<Rightarrow> upsgi_buffer c_result" where
  "upsgi_buffer_append_valnum env ub num =
     (let s = int_dec (sint num) in
      if length s \<le> 0 \<or> length s \<ge> 22 then Err ub
      else c_bind (upsgi_buffer_u16le env ub (of_nat (length s))) (\<lambda>u1.
             upsgi_buffer_append env u1 s))"

text \<open>
  \<open>ptr = ub->buf + (ub->pos - 2)\<close> is taken before the address is appended: when that append
  reallocates and the block moves, the final store goes through a dangling pointer.
\<close>

definition upsgi_buffer_append_keyipv4 ::
    "mem_env \<Rightarrow> upsgi_buffer \<Rightarrow> char list \<Rightarrow> 8 word \<times> 8 word \<times> 8 word \<times> 8 word \<Rightarrow>
     upsgi_buffer c_result" where
  "upsgi_buffer_append_keyipv4 env ub key addr =
     c_bind (upsgi_buffer_u16le env ub (of_nat (length key))) (\<lambda>u1.
     c_bind (upsgi_buffer_append env u1 key) (\<lambda>u2.
     c_bind (upsgi_buffer_u16le env u2 15) (\<lambda>u3.
     c_bind (upsgi_buffer_append_ipv4 env u3 addr) (\<lambda>u4.
       if ub_len u4 \<noteq> ub_len u3 \<and> realloc_moves env (ub_len u4) then Fault
       else ub_memcpy u4 (ub_pos u3 - 2) [char_of (ub_pos u4 - ub_pos u3)]))))"

definition upsgi_buffer_append_base64 ::
    "mem_env \<Rightarrow> upsgi_buffer \<Rightarrow> char list \<Rightarrow> upsgi_buffer c_result" where
  "upsgi_buffer_append_base64 env ub s = upsgi_buffer_append env ub (upsgi_base64_encode s)"

section \<open>Sending, mapping and the packet header\<close>

text \<open>
  What the kernel answers to a \<open>write\<close>: it takes at most \<open>n\<close> bytes, or fails.  The outcome of
  a sending loop is the bytes that left and how it ended; \<open>IoPending\<close> means that the answers
  of the script are used up and the loop would go on.
\<close>

datatype write_ev = Wrote nat | WriteErr

datatype io_ret = IoOk | IoFail int | IoPending

fun write_simple_loop :: "char list \<Rightarrow> write_ev list \<Rightarrow> char list \<times> io_ret" where
  "write_simple_loop [] evs = ([], IoOk)"
| "write_simple_loop (b # bs) [] = ([], IoPending)"
| "write_simple_loop (b # bs) (Wrote n # evs) =
     (if n = 0 then ([], IoFail 0)
      else (let k = min n (length (b # bs));
                (s, r) = write_simple_loop (drop k (b # bs)) evs
            in (take k (b # bs) @ s, r)))"
| "write_simple_loop (b # bs) (WriteErr # evs) = ([], IoFail (-1))"

definition upsgi_buffer_write_simple :: "upsgi_buffer \<Rightarrow> write_ev list \<Rightarrow> char list \<times> io_ret" where
  "upsgi_buffer_write_simple ub evs = write_simple_loop (ub_content ub) evs"

text \<open>Each round waits for the descriptor first: a positive answer, a timeout or an error.\<close>

fun buffer_send_loop :: "char list \<Rightarrow> (int \<times> write_ev) list \<Rightarrow> char list \<times> io_ret" where
  "buffer_send_loop [] evs = ([], IoOk)"
| "buffer_send_loop (b # bs) [] = ([], IoPending)"
| "buffer_send_loop (b # bs) ((w, ev) # evs) =
     (if w > 0 then
        (case ev of
           Wrote n \<Rightarrow>
             (if n = 0 then ([], IoFail (-1))
              else (let k = min n (length (b # bs));
                        (s, r) = buffer_send_loop (drop k (b # bs)) evs
                    in (take k (b # bs) @ s, r)))
         | WriteErr \<Rightarrow> ([], IoFail (-1)))
      else ([], IoFail (-1)))"

definition upsgi_buffer_send :: "upsgi_buffer \<Rightarrow> (int \<times> write_ev) list \<Rightarrow> char list \<times> io_ret" where
  "upsgi_buffer_send ub evs = buffer_send_loop (ub_content ub) evs"

definition upsgi_buffer_set_uh :: "upsgi_buffer \<Rightarrow> 8 word \<Rightarrow> 8 word \<Rightarrow> upsgi_buffer c_result" where
  "upsgi_buffer_set_uh ub modifier1 modifier2 =
     (if ub_pos ub < 4 then Err ub
      else ub_memcpy ub 0
        [byte_of 0 modifier1, char_of ((ub_pos ub - 4) mod 256),
         char_of ((ub_pos ub - 4) div 256 mod 256), byte_of 0 modifier2])"

datatype file_read = OpenFail | FstatFail | FileRead nat "char list option"

definition upsgi_buffer_from_file :: "mem_env \<Rightarrow> file_read \<Rightarrow> upsgi_buffer option" where
  "upsgi_buffer_from_file env f =
     (case f of
        FileRead st_size (Some d) \<Rightarrow>
          (if length d \<noteq> st_size then None
           else Some (upsgi_buffer_new env st_size\<lparr>ub_buf := d, ub_pos := st_size\<rparr>))
      | _ \<Rightarrow> None)"

definition upsgi_buffer_map :: "upsgi_buffer \<Rightarrow> char list \<Rightarrow> upsgi_buffer" where
  "upsgi_buffer_map ub buf = ub\<lparr>ub_buf := buf, ub_pos := length buf\<rparr>"

text \<open>\<open>upsgi_http_date\<close> (\<open>core/static.c\<close>) over the broken-down time \<open>gmtime\<close> gives.\<close>

record tm =
  tm_sec :: nat
  tm_min :: nat
  tm_hour :: nat
  tm_mday :: nat
  tm_mon :: nat
  tm_year :: nat
  tm_wday :: nat

definition pad_left :: "nat \<Rightarrow> char \<Rightarrow> char list \<Rightarrow> char list" where
  "pad_left n c s = replicate (n - length s) c @ s"

abbreviation fmt02 :: "nat \<Rightarrow> char list" where
  "fmt02 n \<equiv> pad_left 2 (CHR ''0'') (nat_dec n)"

definition week_names :: "string list" where
  "week_names = [''Sun'', ''Mon'', ''Tue'', ''Wed'', ''Thu'', ''Fri'', ''Sat'']"

definition month_names :: "string list" where
  "month_names = [''Jan'', ''Feb'', ''Mar'', ''Apr'', ''May'', ''Jun'', ''Jul'', ''Aug'',
                  ''Sep'', ''Oct'', ''Nov'', ''Dec'']"

definition http_date_text :: "tm \<Rightarrow> char list" where
  "http_date_text t =
     week_names ! tm_wday t @ '', '' @ fmt02 (tm_mday t) @ '' '' @ month_names ! tm_mon t @ '' '' @
     pad_left 4 (CHR '' '') (nat_dec (tm_year t + 1900)) @ '' '' @
     fmt02 (tm_hour t) @ '':'' @ fmt02 (tm_min t) @ '':'' @ fmt02 (tm_sec t) @ '' GMT''"

text \<open>The bytes left in \<open>dst\<close> up to the returned length; \<open>snprintf\<close> cuts at 30 and a zero.\<close>

definition upsgi_http_date :: "tm \<Rightarrow> char list" where
  "upsgi_http_date t =
     (let s = http_date_text t in
      if length s > 31 then [] else take (length s) (take 30 s @ [CHR 0x00]))"

definition upsgi_buffer_httpdate :: "mem_env \<Rightarrow> upsgi_buffer \<Rightarrow> tm \<Rightarrow> upsgi_buffer c_result" where
  "upsgi_buffer_httpdate env ub t =
     (if upsgi_http_date t = [] then Err ub else upsgi_buffer_append env ub (upsgi_http_date t))"

section \<open>The contract of an append-only sink\<close>

fun sink_all :: "('s \<Rightarrow> char list \<Rightarrow> 's c_result) \<Rightarrow> 's \<Rightarrow> char list list \<Rightarrow> 's c_result" where
  "sink_all app s [] = Ok s"
| "sink_all app s (d # ds) = c_bind (app s d) (\<lambda>u. sink_all app u ds)"

lemma sink_all_single: "sink_all app s [d] = app s d"
  by simp

locale byte_sink =
  fixes inv :: "'s \<Rightarrow> bool"
    and content :: "'s \<Rightarrow> char list"
    and app :: "'s \<Rightarrow> char list \<Rightarrow> 's c_result"
  assumes app_ok: "inv s \<Longrightarrow> app s d = Ok s' \<Longrightarrow> inv s' \<and> content s' = content s @ d"
    and app_err: "inv s \<Longrightarrow> app s d = Err s' \<Longrightarrow> s' = s"
    and app_no_fault: "inv s \<Longrightarrow> app s d \<noteq> Fault"
begin

lemma sink_all_ok:
  "inv s \<Longrightarrow> sink_all app s ds = Ok s' \<Longrightarrow> inv s' \<and> content s' = content s @ concat ds"
proof (induction ds arbitrary: s)
  case Nil
  then show ?case by simp
next
  case (Cons d ds)
  then obtain u where "app s d = Ok u" "sink_all app u ds = Ok s'"
    by (auto simp: res_simps)
  with Cons app_ok [of s d u] show ?case by auto
qed

lemma sink_all_err:
  "inv s \<Longrightarrow> sink_all app s ds = Err s' \<Longrightarrow>
   inv s' \<and> (\<exists>k < length ds. content s' = content s @ concat (take k ds))"
proof (induction ds arbitrary: s)
  case Nil
  then show ?case by simp
next
  case (Cons d ds)
  consider "app s d = Err s'" | u where "app s d = Ok u" "sink_all app u ds = Err s'"
    using Cons.prems by (auto simp: res_simps)
  then show ?case
  proof cases
    case 1
    with Cons.prems app_err have "s' = s" by blast
    with Cons.prems show ?thesis by (auto intro: exI [of _ 0])
  next
    case 2
    have u: "inv u" "content u = content s @ d" using app_ok [OF Cons.prems(1) 2(1)] by auto
    from Cons.IH [OF u(1) 2(2)] u(2) obtain k
      where "inv s'" "k < length ds" "content s' = content s @ d @ concat (take k ds)" by auto
    then show ?thesis by (auto intro: exI [of _ "Suc k"])
  qed
qed

lemma sink_all_no_fault: "inv s \<Longrightarrow> sink_all app s ds \<noteq> Fault"
proof (induction ds arbitrary: s)
  case Nil
  then show ?case by simp
next
  case (Cons d ds)
  then show ?case using app_ok app_no_fault by (auto simp: res_simps)
qed

end

section \<open>The buffer meets the contract\<close>

lemma fresh_block_length [simp]: "length (fresh_block env a b) = b - a"
  by (simp add: fresh_block_def)

lemma ub_realloc_Ok:
  assumes "ub_realloc env ub n = Ok u"
  shows "ub_len u = n" "ub_pos u = ub_pos ub" "ub_limit u = ub_limit ub"
    "k \<le> ub_len ub \<Longrightarrow> k \<le> n \<Longrightarrow> take k (ub_buf u) = take k (ub_buf ub)"
  using assms by (auto simp: ub_realloc_def min_def split: if_splits)

lemma ub_realloc_no_fault [simp]: "ub_realloc env ub n \<noteq> Fault"
  by (simp add: ub_realloc_def)

lemma ub_realloc_Err: "ub_realloc env ub n = Err u \<Longrightarrow> u = ub"
  by (simp add: ub_realloc_def split: if_splits)

lemma ub_memcpy_Ok:
  assumes "ub_memcpy ub off d = Ok u"
  shows "ub_len u = ub_len ub" "ub_pos u = ub_pos ub" "ub_limit u = ub_limit ub"
    "off + length d \<le> ub_len ub" "take (off + length d) (ub_buf u) = take off (ub_buf ub) @ d"
  using assms
  by (auto simp: ub_memcpy_def mem_write_def split: option.splits if_splits)

lemma ub_memcpy_in_range: "off + length d \<le> ub_len ub \<Longrightarrow> \<exists>u. ub_memcpy ub off d = Ok u"
  by (simp add: ub_memcpy_def mem_write_def)

lemma ub_memcpy_not_Err [simp]: "ub_memcpy ub off d \<noteq> Err u"
  by (simp add: ub_memcpy_def split: option.splits)

text \<open>The block an append works on: large enough, with the old contents.\<close>

definition append_grown :: "mem_env \<Rightarrow> upsgi_buffer \<Rightarrow> nat \<Rightarrow> upsgi_buffer c_result" where
  "append_grown env ub len =
     (let remains = size_sub (ub_len ub) (ub_pos ub) in
      if len > remains then
        (let chunk_size = max len (page_size env) in
         if ub_limit ub > 0 \<and> ub_len ub + chunk_size > ub_limit ub then
           (let chunk_size = (if len < page_size env then len else chunk_size) in
            if ub_len ub + chunk_size > ub_limit ub then Err ub
            else ub_realloc env ub (ub_len ub + chunk_size))
         else ub_realloc env ub (ub_len ub + chunk_size))
      else Ok ub)"

lemma upsgi_buffer_append_alt:
  "upsgi_buffer_append env ub d =
     c_bind (append_grown env ub (length d))
       (\<lambda>u. c_bind (ub_memcpy u (ub_pos u) d) (ub_advance (length d)))"
  by (simp add: upsgi_buffer_append_def append_grown_def Let_def)

lemma append_grown_Ok:
  assumes "ub_inv ub" "append_grown env ub n = Ok u"
  shows "ub_pos u + n \<le> ub_len u" "ub_content u = ub_content ub" "ub_pos u = ub_pos ub"
    "ub_limit u = ub_limit ub" "ub_len ub \<le> ub_len u"
    "ub_limit ub > 0 \<Longrightarrow> ub_len ub \<le> ub_limit ub \<Longrightarrow> ub_len u \<le> ub_limit ub"
  using assms ub_realloc_Ok [of env ub _ u]
  by (auto simp: append_grown_def ub_inv_def ub_content_def Let_def split: if_splits)

lemma append_grown_Err: "append_grown env ub n = Err u \<Longrightarrow> u = ub"
  by (auto simp: append_grown_def Let_def dest: ub_realloc_Err split: if_splits)

lemma append_grown_no_fault [simp]: "append_grown env ub n \<noteq> Fault"
  by (simp add: append_grown_def Let_def)

lemma append_Ok_obtain:
  assumes "ub_inv ub" "upsgi_buffer_append env ub d = Ok v"
  obtains u w where "append_grown env ub (length d) = Ok u" "ub_memcpy u (ub_pos u) d = Ok w"
    "v = w\<lparr>ub_pos := ub_pos w + length d\<rparr>"
  using assms by (auto simp: upsgi_buffer_append_alt ub_advance_def res_simps)

interpretation ub: byte_sink ub_inv ub_content "upsgi_buffer_append env" for env
proof
  fix s d s'
  assume inv: "ub_inv s" and app: "upsgi_buffer_append env s d = Ok s'"
  from append_Ok_obtain [OF inv app] obtain u w where
    g: "append_grown env s (length d) = Ok u" and m: "ub_memcpy u (ub_pos u) d = Ok w"
    and v: "s' = w\<lparr>ub_pos := ub_pos w + length d\<rparr>" .
  from append_grown_Ok [OF inv g] ub_memcpy_Ok [OF m] v
  show "ub_inv s' \<and> ub_content s' = ub_content s @ d"
    by (simp add: ub_inv_def ub_content_def)
next
  fix s d s'
  assume "ub_inv s" "upsgi_buffer_append env s d = Err s'"
  then show "s' = s"
    by (auto simp: upsgi_buffer_append_alt ub_advance_def res_simps dest: append_grown_Err)
next
  fix s d
  assume inv: "ub_inv s"
  have "ub_memcpy u (ub_pos u) d \<noteq> Fault" if "append_grown env s (length d) = Ok u" for u
    using append_grown_Ok(1) [OF inv that] ub_memcpy_in_range [of "ub_pos u" d u] by auto
  then show "upsgi_buffer_append env s d \<noteq> Fault"
    by (auto simp: upsgi_buffer_append_alt ub_advance_def res_simps)
qed

text \<open>The composite writers are sequences of appends.\<close>

lemma append_json_sink:
  "upsgi_buffer_append_json env ub s = sink_all (upsgi_buffer_append env) ub (map json_escape s)"
  by (induction s arbitrary: ub) auto

lemma append_xml_sink:
  "upsgi_buffer_append_xml env ub s = sink_all (upsgi_buffer_append env) ub (map xml_escape s)"
  by (induction s arbitrary: ub) auto

lemma append_keyval_sink:
  "upsgi_buffer_append_keyval env ub key val =
   sink_all (upsgi_buffer_append env) ub
     [u16le (of_nat (length key)), key, u16le (of_nat (length val)), val]"
  by (simp add: upsgi_buffer_append_keyval_def upsgi_buffer_u16le_def)

section \<open>Properties of appending\<close>

lemma append_limit:
  assumes "ub_inv ub" "upsgi_buffer_append env ub d = Ok v"
    "ub_limit ub > 0" "ub_len ub \<le> ub_limit ub"
  shows "ub_len v \<le> ub_limit v \<and> ub_limit v = ub_limit ub"
proof -
  from append_Ok_obtain [OF assms(1,2)] obtain u w where
    g: "append_grown env ub (length d) = Ok u" and m: "ub_memcpy u (ub_pos u) d = Ok w"
    and v: "v = w\<lparr>ub_pos := ub_pos w + length d\<rparr>" .
  from append_grown_Ok(4,6) [OF assms(1) g] ub_memcpy_Ok(1,3) [OF m] assms(3,4) v
  show ?thesis by simp
qed

text \<open>C16: appending to a well-formed buffer either extends its contents by exactly the given
  bytes and keeps it well formed and within its limit, or reports an error and leaves it
  untouched; it never writes outside the allocated block.\<close>

theorem upsgi_buffer_append_refines:
  assumes "ub_inv ub" "ub_limit ub = 0 \<or> ub_len ub \<le> ub_limit ub"
  shows "case upsgi_buffer_append env ub d of
      Ok u \<Rightarrow> ub_inv u \<and> ub_content u = ub_content ub @ d \<and>
              (ub_limit ub > 0 \<longrightarrow> ub_len u \<le> ub_limit ub)
    | Err u \<Rightarrow> u = ub
    | Fault \<Rightarrow> False"
proof (cases "upsgi_buffer_append env ub d")
  case (Ok u)
  with ub.app_ok [OF assms(1) Ok] append_limit [OF assms(1) Ok] assms(2) show ?thesis by auto
next
  case (Err u)
  with ub.app_err [OF assms(1) Err] show ?thesis by simp
next
  case Fault
  with ub.app_no_fault [OF assms(1)] show ?thesis by auto
qed

definition env0 :: mem_env where
  "env0 = \<lparr>page_size = 4, realloc_ok = (\<lambda>n. n < 4096), realloc_moves = (\<lambda>_. True),
           fresh_byte = (\<lambda>_. CHR 0x00)\<rparr>"

definition ub_ex :: upsgi_buffer where
  "ub_ex = \<lparr>ub_buf = ''ab?'', ub_pos = 2, ub_limit = 0\<rparr>"

theorem upsgi_buffer_append_refines_witness:
  "ub_inv ub_ex \<and> (case upsgi_buffer_append env0 ub_ex ''xyz'' of
      Ok u \<Rightarrow> ub_inv u \<and> ub_content u = ''abxyz'' | Err u \<Rightarrow> u = ub_ex | Fault \<Rightarrow> False)"
proof -
  have h: "ub_inv ub_ex" "ub_limit ub_ex = 0 \<or> ub_len ub_ex \<le> ub_limit ub_ex"
    by (simp_all add: ub_inv_def ub_ex_def)
  have "ub_content ub_ex @ ''xyz'' = ''abxyz''" by (simp add: ub_content_def ub_ex_def)
  with upsgi_buffer_append_refines [OF h, where env = env0 and d = "''xyz''"] h(1) show ?thesis
    by (cases "upsgi_buffer_append env0 ub_ex ''xyz''") auto
qed

lemma append_grown_total:
  "ub_limit ub = 0 \<Longrightarrow> (\<And>n. realloc_ok env n) \<Longrightarrow> \<exists>u. append_grown env ub k = Ok u"
  by (simp add: append_grown_def ub_realloc_def Let_def)

lemma append_total:
  assumes "ub_inv ub" "ub_limit ub = 0" "\<And>n. realloc_ok env n"
  shows "\<exists>u. upsgi_buffer_append env ub d = Ok u \<and> ub_content u = ub_content ub @ d \<and>
    ub_inv u \<and> ub_limit u = 0"
proof -
  obtain g where g: "append_grown env ub (length d) = Ok g"
    using append_grown_total assms(2,3) by blast
  obtain w where w: "ub_memcpy g (ub_pos g) d = Ok w"
    using append_grown_Ok(1) [OF assms(1) g] ub_memcpy_in_range by blast
  have "ub_limit w = 0" using ub_memcpy_Ok(3) [OF w] append_grown_Ok(4) [OF assms(1) g] assms(2) by simp
  moreover have "upsgi_buffer_append env ub d = Ok (w\<lparr>ub_pos := ub_pos w + length d\<rparr>)"
    by (simp add: upsgi_buffer_append_alt g w ub_advance_def)
  ultimately show ?thesis using ub.app_ok [OF assms(1)] by force
qed

text \<open>an unlimited buffer always takes an append as long as memory can be obtained, so the
  only failures of an append are a reached limit and an exhausted allocator.\<close>

theorem upsgi_buffer_append_total:
  assumes "ub_inv ub" "ub_limit ub = 0" "\<And>n. realloc_ok env n"
  shows "\<exists>u. upsgi_buffer_append env ub d = Ok u \<and> ub_content u = ub_content ub @ d"
  using append_total [OF assms] by blast

theorem upsgi_buffer_append_total_witness:
  "\<exists>u. upsgi_buffer_append (env0\<lparr>realloc_ok := \<lambda>_. True\<rparr>) ub_ex ''xyz'' = Ok u \<and>
       ub_content u = ''abxyz''"
  using upsgi_buffer_append_total [where ub = ub_ex and d = "''xyz''" and
      env = "env0\<lparr>realloc_ok := \<lambda>_. True\<rparr>"]
  by (simp add: ub_inv_def ub_ex_def ub_content_def)

section \<open>Escaping\<close>

text \<open>A reader of the escaped text.\<close>

fun json_unescape :: "char list \<Rightarrow> char list" where
  "json_unescape (x # y # cs) =
     (if x = CHR 0x5C then
        (if y = CHR ''t'' then CHR 0x09 # json_unescape cs
         else if y = CHR ''n'' then CHR 0x0A # json_unescape cs
         else if y = CHR ''r'' then CHR 0x0D # json_unescape cs
         else y # json_unescape cs)
      else x # json_unescape (y # cs))"
| "json_unescape cs = cs"

text \<open>Whether a string literal ends here: a quote that no backslash escapes.\<close>

fun json_open :: "char list \<Rightarrow> bool" where
  "json_open [] = True"
| "json_open (x # cs) =
     (if x = CHR 0x22 then False
      else if x = CHR 0x5C then (case cs of [] \<Rightarrow> False | y # ds \<Rightarrow> json_open ds)
      else json_open cs)"

lemma json_unescape_plain:
  "x \<noteq> CHR 0x5C \<Longrightarrow> json_unescape (x # cs) = x # json_unescape cs"
  by (cases cs) auto

lemma json_escape_roundtrip: "json_unescape (concat (map json_escape s)) = s"
  by (induction s) (auto simp: json_escape_def json_unescape_plain)

lemma json_escape_open: "json_open (concat (map json_escape s))"
  by (induction s) (auto simp: json_escape_def)

text \<open>when escaping into a buffer succeeds, what was added reads back as the original bytes
  and contains no unescaped quote, so it cannot end the surrounding string literal.\<close>

theorem upsgi_buffer_append_json_roundtrip:
  assumes "ub_inv ub" "upsgi_buffer_append_json env ub s = Ok u"
  shows "\<exists>t. ub_content u = ub_content ub @ t \<and> json_unescape t = s \<and> json_open t \<and> ub_inv u"
  using ub.sink_all_ok [OF assms(1), of env "map json_escape s" u] assms(2)
    json_escape_roundtrip json_escape_open
  by (auto simp: append_json_sink)

theorem upsgi_buffer_append_json_roundtrip_witness:
  "\<exists>u t. upsgi_buffer_append_json (env0\<lparr>page_size := 16\<rparr>) ub_ex [CHR 0x22] = Ok u \<and>
     ub_content u = ''ab'' @ t \<and> json_unescape t = [CHR 0x22] \<and> json_open t"
proof -
  obtain u where u: "upsgi_buffer_append_json (env0\<lparr>page_size := 16\<rparr>) ub_ex [CHR 0x22] = Ok u"
    by (simp add: json_escape_def upsgi_buffer_append_def ub_ex_def ub_realloc_def env0_def
        ub_memcpy_def mem_write_def ub_advance_def Let_def)
  have "ub_inv ub_ex" "ub_content ub_ex = ''ab''"
    by (simp_all add: ub_inv_def ub_content_def ub_ex_def)
  with upsgi_buffer_append_json_roundtrip [OF _ u] u show ?thesis by auto
qed

section \<open>Inserting, dropping the front\<close>

lemma ensure_unlimited:
  assumes "ub_inv ub" "ub_limit ub = 0" "upsgi_buffer_ensure env ub n = Ok u"
    "ub_len ub + n < 2 ^ 64"
  shows "ub_pos ub + n \<le> ub_len u \<and> ub_len ub \<le> ub_len u \<and> ub_pos u = ub_pos ub \<and>
    ub_limit u = 0 \<and> take (ub_len ub) (ub_buf u) = ub_buf ub"
  using assms ub_realloc_Ok [of env ub _ u]
  by (auto simp: upsgi_buffer_ensure_def ub_inv_def Let_def split: if_splits)

lemma ensure_Ok:
  assumes "ub_inv ub" "ub_limit ub = 0 \<or> ub_len ub \<le> ub_limit ub"
    "upsgi_buffer_ensure env ub n = Ok u" "ub_pos ub + n < 2 ^ 64"
  shows "ub_inv u" "ub_content u = ub_content ub" "ub_pos u = ub_pos ub"
    "ub_limit u = ub_limit ub" "ub_limit u = 0 \<or> ub_len u \<le> ub_limit u"
    "u = ub \<or> realloc_ok env (ub_len u)"
    "ub_limit ub = 0 \<or> ub_pos ub + n \<le> ub_limit ub \<Longrightarrow> ub_pos ub + n \<le> ub_len u"
  using assms
  by (auto simp: upsgi_buffer_ensure_def ub_realloc_def ub_inv_def ub_content_def Let_def
      split: if_splits)

lemma ensure_total:
  assumes "ub_inv ub" "ub_pos ub + n < 2 ^ 64"
    "ub_limit ub = 0 \<or> ub_pos ub + n \<le> ub_limit ub" "realloc_ok env (ub_pos ub + n)"
  shows "\<exists>u. upsgi_buffer_ensure env ub n = Ok u"
  using assms
  by (auto simp: upsgi_buffer_ensure_def ub_realloc_def ub_inv_def Let_def add.commute)

lemma ensure_no_fault [simp]: "upsgi_buffer_ensure env ub n \<noteq> Fault"
  by (simp add: upsgi_buffer_ensure_def Let_def)

lemma ensure_Err: "upsgi_buffer_ensure env ub n = Err u \<Longrightarrow> u = ub"
  by (auto simp: upsgi_buffer_ensure_def Let_def dest: ub_realloc_Err split: if_splits)

lemma insert_into_block:
  assumes "pos \<le> p" "p + length d \<le> length b"
  shows "mem_write b (pos + length d) (take (p - pos) (drop pos b)) =
      Some (take (pos + length d) b @ take (p - pos) (drop pos b) @ drop (p + length d) b)"
    "mem_write (take (pos + length d) b @ take (p - pos) (drop pos b) @ drop (p + length d) b) pos d =
      Some (take pos b @ d @ take (p - pos) (drop pos b) @ drop (p + length d) b)"
proof -
  have "min (length b - pos) (p - pos) = p - pos" using assms by simp
  then show "mem_write b (pos + length d) (take (p - pos) (drop pos b)) =
      Some (take (pos + length d) b @ take (p - pos) (drop pos b) @ drop (p + length d) b)"
    using assms by (simp add: mem_write_def add.commute)
  show "mem_write (take (pos + length d) b @ take (p - pos) (drop pos b) @ drop (p + length d) b) pos d =
      Some (take pos b @ d @ take (p - pos) (drop pos b) @ drop (p + length d) b)"
    using assms by (simp add: mem_write_def min_absorb1)
qed

text \<open>inserting into an unlimited buffer at a position inside its contents splices the bytes
  in at that position, shifting the rest, or reports an error and changes nothing.\<close>

theorem upsgi_buffer_insert_splices:
  assumes "ub_inv ub" "ub_limit ub = 0" "pos \<le> ub_pos ub" "ub_len ub + length d < 2 ^ 64"
  shows "case upsgi_buffer_insert env ub pos d of
      Ok u \<Rightarrow> ub_inv u \<and> ub_content u = take pos (ub_content ub) @ d @ drop pos (ub_content ub)
    | Err u \<Rightarrow> u = ub
    | Fault \<Rightarrow> False"
proof (cases "upsgi_buffer_ensure env ub (length d)")
  case (Ok v)
  from ensure_unlimited [OF assms(1,2) Ok assms(4)]
  have v: "ub_pos ub + length d \<le> ub_len v" "ub_pos v = ub_pos ub"
    "take (ub_len ub) (ub_buf v) = ub_buf ub" by auto
  have "take (ub_pos ub) (take (ub_len ub) (ub_buf v)) = ub_content ub"
    by (simp only: v(3) ub_content_def)
  then have c: "ub_content ub = take (ub_pos ub) (ub_buf v)"
    using assms(1) by (simp add: ub_inv_def min_absorb1)
  have m: "take (ub_pos ub - pos) (drop pos (ub_buf v)) = drop pos (ub_content ub)"
    by (simp only: c drop_take)
  have m2: "take pos (ub_buf v) = take pos (ub_content ub)"
    using assms(3) by (simp add: c min_absorb1)
  have l: "length (ub_content ub) = ub_pos ub"
    using assms(1) by (simp add: ub_content_def ub_inv_def)
  show ?thesis
    using insert_into_block [OF assms(3), of d "ub_buf v"] v assms(3)
    by (simp add: upsgi_buffer_insert_def Ok ub_memcpy_def ub_advance_def m m2 l
        ub_inv_def ub_content_def [of "_\<lparr>ub_pos := _\<rparr>"])
next
  case (Err v)
  with ensure_Err [OF Err] show ?thesis by (simp add: upsgi_buffer_insert_def)
qed simp

theorem upsgi_buffer_insert_splices_witness:
  "case upsgi_buffer_insert env0 ub_ex 1 ''--'' of
     Ok u \<Rightarrow> ub_content u = ''a--b'' | Err u \<Rightarrow> u = ub_ex | Fault \<Rightarrow> False"
  using upsgi_buffer_insert_splices [where ub = ub_ex and pos = 1 and d = "''--''" and env = env0]
  by (cases "upsgi_buffer_insert env0 ub_ex 1 ''--''")
     (auto simp: ub_inv_def ub_ex_def ub_content_def)

text \<open>with a limit the guarantee is lost.  \<open>upsgi_buffer_ensure\<close> reports success after growing
  only up to the limit, so an insertion into a well-formed buffer within its limit can write
  past the end of the block.\<close>

theorem upsgi_buffer_insert_limit_overflow:
  "\<exists>env ub pos d. ub_inv ub \<and> ub_len ub \<le> ub_limit ub \<and> pos \<le> ub_pos ub \<and>
     upsgi_buffer_insert env ub pos d = Fault"
proof -
  let ?ub = "\<lparr>ub_buf = ''abcdefgh'', ub_pos = 8, ub_limit = 10\<rparr>"
  have "ub_inv ?ub" "ub_len ?ub \<le> ub_limit ?ub" "(0::nat) \<le> ub_pos ?ub"
    by (simp_all add: ub_inv_def)
  moreover have "upsgi_buffer_insert env0 ?ub 0 ''12345'' = Fault"
    by (simp add: upsgi_buffer_insert_def upsgi_buffer_ensure_def ub_realloc_def env0_def
        ub_memcpy_def mem_write_def Let_def size_sub_def size_add_def)
  ultimately show ?thesis by blast
qed

lemma decapitate_Ok:
  assumes "ub_inv ub" "n \<le> ub_pos ub"
  shows "\<exists>u. upsgi_buffer_decapitate ub n = Ok u \<and> ub_inv u \<and> ub_len u = ub_len ub \<and>
    ub_pos u = ub_pos ub - n \<and> ub_limit u = ub_limit ub \<and> ub_content u = drop n (ub_content ub)"
  using assms
  by (auto simp: upsgi_buffer_decapitate_def ub_inv_def ub_memcpy_def mem_write_def
      ub_content_def drop_take)

text \<open>dropping the first bytes of a well-formed buffer succeeds exactly when it has that many
  bytes, leaves the rest in order, and never touches memory outside the block.\<close>

theorem upsgi_buffer_decapitate_drops:
  assumes "ub_inv ub"
  shows "case upsgi_buffer_decapitate ub n of
      Ok u \<Rightarrow> n \<le> ub_pos ub \<and> ub_inv u \<and> ub_content u = drop n (ub_content ub)
    | Err u \<Rightarrow> n > ub_pos ub \<and> u = ub
    | Fault \<Rightarrow> False"
proof (cases "n \<le> ub_pos ub")
  case True
  with decapitate_Ok [OF assms True] show ?thesis by auto
next
  case False
  then show ?thesis by (simp add: upsgi_buffer_decapitate_def)
qed

theorem upsgi_buffer_decapitate_drops_witness:
  "ub_inv ub_ex \<and> (case upsgi_buffer_decapitate ub_ex 1 of
     Ok u \<Rightarrow> ub_content u = ''b'' | Err u \<Rightarrow> False | Fault \<Rightarrow> False)"
  using upsgi_buffer_decapitate_drops [of ub_ex 1]
  by (cases "upsgi_buffer_decapitate ub_ex 1") (auto simp: ub_inv_def ub_ex_def ub_content_def)

section \<open>Sending\<close>

lemma buffer_send_loop_prefix:
  "buffer_send_loop d evs = (s, r) \<Longrightarrow> (\<exists>rest. d = s @ rest \<and> (r = IoOk \<longleftrightarrow> rest = []))"
proof (induction d evs arbitrary: s r rule: buffer_send_loop.induct)
  case (3 b bs w ev evs)
  show ?case
  proof (cases "\<exists>n > 0. ev = Wrote n \<and> w > 0")
    case True
    then obtain n where n: "n > 0" "ev = Wrote n" "w > 0" by auto
    define k where "k = min n (length (b # bs))"
    obtain s' r' where rec: "buffer_send_loop (drop k (b # bs)) evs = (s', r')"
      by fastforce
    have IH: "\<exists>rest. drop k (b # bs) = s' @ rest \<and> (r' = IoOk) = (rest = [])"
      using "3.IH" n rec by (simp add: k_def)
    have "s = take k (b # bs) @ s'" "r = r'"
      using "3.prems" n rec by (simp_all add: Let_def k_def)
    then show ?thesis using IH by (metis append.assoc append_take_drop_id)
  next
    case False
    then have "s = [] \<and> r = IoFail (-1)"
      using "3.prems" by (cases ev) (simp_all split: if_splits)
    then show ?thesis by simp
  qed
qed auto

text \<open>whatever the descriptor answers, the bytes that left are a prefix of the buffer's
  contents in order, and success is reported exactly when all of them left.\<close>

theorem upsgi_buffer_send_exact:
  assumes "upsgi_buffer_send ub evs = (sent, r)"
  shows "\<exists>rest. ub_content ub = sent @ rest \<and> (r = IoOk \<longleftrightarrow> rest = [])"
  using buffer_send_loop_prefix assms by (simp add: upsgi_buffer_send_def)

theorem upsgi_buffer_send_exact_witness:
  "\<exists>rest. ub_content ub_ex = ''a'' @ rest \<and> (IoFail (-1) = IoOk \<longleftrightarrow> rest = [])"
  using upsgi_buffer_send_exact [of ub_ex "[(1, Wrote 1), (0, WriteErr)]" "''a''" "IoFail (-1)"]
  by (simp add: upsgi_buffer_send_def ub_content_def ub_ex_def)

end
