(* ===== verification/Upsgi_ProtoBase.thy ===== *)
theory Upsgi_ProtoBase
  imports Upsgi_Buffer
begin

text \<open>
  The protocol-independent half of the wire layer, \<open>proto/base.c\<close>: the request packet that the
  text protocols build (pairs of 16-bit little-endian lengths and bytes, appended to
  \<open>wsgi_req->buffer\<close>), the response header lines, and the single-shot reads and writes that the
  reader and writer loops repeat.  What the kernel answers is a script: a list of answers to
  \<open>read\<close>, one answer per \<open>write\<close>.  \<open>uint16_t\<close> parameters cut the length the caller passes
  (\<open>u16_arg\<close>).
\<close>

section \<open>The request packet\<close>

definition u16_arg :: "'a list \<Rightarrow> 'a list" where
  "u16_arg xs = take (length xs mod 2 ^ 16) xs"

lemma u16_arg_small [simp]: "length xs < 65536 \<Longrightarrow> u16_arg xs = xs"
  by (simp add: u16_arg_def)

lemma u16_arg_length: "length (u16_arg xs) < 65536"
  using mod_less_divisor [of 65536 "length xs"] by (simp add: u16_arg_def min.strict_coboundedI2)

text \<open>\<open>buffer\<close> (a block of \<open>upsgi.buffer_size\<close> bytes) and \<open>len\<close> of \<open>struct wsgi_request\<close>.\<close>

record req_packet =
  pkt_buffer :: "char list"
  pkt_len :: nat

definition pkt_inv :: "req_packet \<Rightarrow> bool" where
  "pkt_inv p \<longleftrightarrow> pkt_len p \<le> length (pkt_buffer p)"

definition pkt_content :: "req_packet \<Rightarrow> char list" where
  "pkt_content p = take (pkt_len p) (pkt_buffer p)"

text \<open>The two length bytes \<open>n & 0xff\<close> and \<open>(n >> 8) & 0xff\<close> of an \<open>int\<close>.\<close>

definition le16 :: "nat \<Rightarrow> char list" where
  "le16 n = [char_of (n mod 256), char_of (n div 256 mod 256)]"

definition keyval_bytes :: "char list \<Rightarrow> char list \<Rightarrow> char list" where
  "keyval_bytes key val = le16 (length key) @ key @ le16 (length val) @ val"

text \<open>A store at \<open>wsgi_req->buffer + wsgi_req->len\<close>; it does not move \<open>len\<close>.\<close>

definition pkt_store :: "req_packet \<Rightarrow> char list \<Rightarrow> req_packet option" where
  "pkt_store p d =
     map_option (\<lambda>m. p\<lparr>pkt_buffer := m\<rparr>) (mem_write (pkt_buffer p) (pkt_len p) d)"

text \<open>Both writers return the number of bytes written (0: no room), \<open>None\<close> is an access outside
  the buffer.  The caller adds the number to \<open>wsgi_req->len\<close>.\<close>

definition proto_base_add_upsgi_var ::
    "req_packet \<Rightarrow> char list \<Rightarrow> char list \<Rightarrow> (nat \<times> req_packet) option" where
  "proto_base_add_upsgi_var p k v =
     (let key = u16_arg k; val = u16_arg v in
      if pkt_len p + length key + length val + 2 + 2 \<ge> length (pkt_buffer p) then Some (0, p)
      else map_option (\<lambda>q. (length key + length val + 2 + 2, q))
             (pkt_store p (keyval_bytes key val)))"

definition cgi_char :: "char \<Rightarrow> char" where
  "cgi_char c = (if c = CHR ''-'' then CHR ''_'' else toupper c)"

definition proto_base_add_upsgi_header ::
    "req_packet \<Rightarrow> char list \<Rightarrow> char list \<Rightarrow> (nat \<times> req_packet) option" where
  "proto_base_add_upsgi_header p k v =
     (let key = map cgi_char (u16_arg k); val = u16_arg v in
      if key \<noteq> ''CONTENT_TYPE'' \<and> key \<noteq> ''CONTENT_LENGTH'' then
        (if pkt_len p + length key + length val + 2 + 2 + 5 \<ge> length (pkt_buffer p) then Some (0, p)
         else map_option (\<lambda>q. ((length key + 5) mod 2 ^ 16 + length val + 2 + 2, q))
                (pkt_store p (keyval_bytes (''HTTP_'' @ key) val)))
      else
        (if pkt_len p + length key + length val + 2 + 2 \<ge> length (pkt_buffer p) then Some (0, p)
         else map_option (\<lambda>q. (length key + length val + 2 + 2, q))
                (pkt_store p (keyval_bytes key val))))"

text \<open>The callers' \<open>wsgi_req->len += proto_base_add_upsgi_...(...)\<close>.\<close>

definition pkt_advance :: "(nat \<times> req_packet) option \<Rightarrow> req_packet option" where
  "pkt_advance r = map_option (\<lambda>(n, p). p\<lparr>pkt_len := pkt_len p + n\<rparr>) r"

section \<open>Response headers\<close>

definition upsgi_proto_base_add_header ::
    "mem_env \<Rightarrow> char list \<Rightarrow> char list \<Rightarrow> upsgi_buffer c_result" where
  "upsgi_proto_base_add_header env k v =
     (let key = u16_arg k; val = u16_arg v in
      if length key > 0 then
        c_bind (upsgi_buffer_append env (upsgi_buffer_new env (length key + 2 + length val + 2)) key) (\<lambda>u1.
        c_bind (upsgi_buffer_append env u1 '': '') (\<lambda>u2.
        c_bind (upsgi_buffer_append env u2 val) (\<lambda>u3.
          upsgi_buffer_append env u3 [CHR 0x0D, CHR 0x0A])))
      else
        c_bind (upsgi_buffer_append env (upsgi_buffer_new env (length val + 2)) val) (\<lambda>u1.
          upsgi_buffer_append env u1 [CHR 0x0D, CHR 0x0A]))"

definition upsgi_proto_base_cgi_prepare_headers :: "mem_env \<Rightarrow> char list \<Rightarrow> upsgi_buffer c_result" where
  "upsgi_proto_base_cgi_prepare_headers env s =
     (let st = u16_arg s in
      c_bind (upsgi_buffer_append env (upsgi_buffer_new env (8 + length st + 2)) ''Status: '') (\<lambda>u1.
      c_bind (upsgi_buffer_append env u1 st) (\<lambda>u2.
        upsgi_buffer_append env u2 [CHR 0x0D, CHR 0x0A])))"

definition upsgi_proto_base_prepare_headers ::
    "mem_env \<Rightarrow> bool \<Rightarrow> char list \<Rightarrow> char list \<Rightarrow> upsgi_buffer c_result" where
  "upsgi_proto_base_prepare_headers env cgi_mode protocol s =
     (let st = u16_arg s;
          ub = (if \<not> cgi_mode then
                  (if length protocol > 0 then
                     c_bind (upsgi_buffer_append env
                              (upsgi_buffer_new env (length protocol + 1 + length st + 2)) protocol)
                       (\<lambda>u. upsgi_buffer_append env u '' '')
                   else upsgi_buffer_append env (upsgi_buffer_new env (9 + length st + 2)) ''HTTP/1.0 '')
                else upsgi_buffer_append env (upsgi_buffer_new env (8 + length st + 2)) ''Status: '')
      in c_bind ub (\<lambda>u1. c_bind (upsgi_buffer_append env u1 st)
           (\<lambda>u2. upsgi_buffer_append env u2 [CHR 0x0D, CHR 0x0A])))"

definition upsgi_proto_base_fix_headers :: "mem_env \<Rightarrow> upsgi_buffer \<Rightarrow> upsgi_buffer c_result" where
  "upsgi_proto_base_fix_headers env headers = upsgi_buffer_append env headers [CHR 0x0D, CHR 0x0A]"

section \<open>Writing\<close>

datatype wr_ev = WWrote nat | WAgain | WErr

datatype proto_ret = UPSGI_OK | UPSGI_AGAIN | PROTO_ERR

text \<open>\<open>write_pos\<close> counts what has left already; the third component is what leaves now.\<close>

fun upsgi_proto_base_write :: "char list \<Rightarrow> nat \<Rightarrow> wr_ev \<Rightarrow> proto_ret \<times> nat \<times> char list" where
  "upsgi_proto_base_write buf write_pos (WWrote n) =
     (let out = take n (drop write_pos buf); wlen = length out in
      if wlen > 0 then
        (if write_pos + wlen = length buf then UPSGI_OK else UPSGI_AGAIN, write_pos + wlen, out)
      else (PROTO_ERR, write_pos, []))"
| "upsgi_proto_base_write buf write_pos WAgain = (UPSGI_AGAIN, write_pos, [])"
| "upsgi_proto_base_write buf write_pos WErr = (PROTO_ERR, write_pos, [])"

text \<open>\<open>sendfile\<close> takes the bytes from offset \<open>pos\<close> of a file; it sends none past the file's end.\<close>

fun upsgi_proto_base_sendfile ::
    "char list \<Rightarrow> nat \<Rightarrow> nat \<Rightarrow> nat \<Rightarrow> wr_ev \<Rightarrow> proto_ret \<times> nat \<times> char list" where
  "upsgi_proto_base_sendfile file pos len write_pos (WWrote n) =
     (let out = take (min n (len - write_pos)) (drop (pos + write_pos) file); wlen = length out in
      if wlen > 0 then
        (if write_pos + wlen = len then UPSGI_OK else UPSGI_AGAIN, write_pos + wlen, out)
      else (PROTO_ERR, write_pos, []))"
| "upsgi_proto_base_sendfile file pos len write_pos WAgain = (UPSGI_AGAIN, write_pos, [])"
| "upsgi_proto_base_sendfile file pos len write_pos WErr = (PROTO_ERR, write_pos, [])"

text \<open>The search for the first vector that is not consumed: its index, the bytes of it to skip,
  and how many vectors remain.\<close>

fun iov_scan :: "char list list \<Rightarrow> nat \<Rightarrow> nat \<Rightarrow> nat \<Rightarrow> nat \<times> nat \<times> nat" where
  "iov_scan [] i wlen new_len = (0, 0, new_len)"
| "iov_scan (v # vs) i wlen new_len =
     (if length v \<le> wlen then iov_scan vs (i + 1) (wlen - length v) (new_len - 1)
      else (i, wlen, new_len))"

text \<open>The compaction loop, on the array, from \<open>i\<close> with target \<open>pos\<close>.\<close>

function iov_move :: "char list list \<Rightarrow> nat \<Rightarrow> nat \<Rightarrow> nat \<Rightarrow> nat \<Rightarrow> char list list" where
  "iov_move iov i pos skip orig_len =
     (if i \<ge> orig_len then iov
      else (let a = (if pos = 0 then iov[i := drop skip (iov ! i)] else iov);
                b = a[pos := a ! i]
            in iov_move b (i + 1) (pos + 1) skip orig_len))"
  by auto
termination
  by (relation "measure (\<lambda>(iov, i, pos, skip, orig_len). orig_len - i)") auto

declare iov_move.simps [simp del]

text \<open>Result, the new \<open>write_pos\<close>, the array and its length, and the bytes that leave.\<close>

fun upsgi_proto_base_writev ::
    "char list list \<Rightarrow> nat \<Rightarrow> nat \<Rightarrow> wr_ev \<Rightarrow> proto_ret \<times> nat \<times> char list list \<times> nat \<times> char list" where
  "upsgi_proto_base_writev iov len write_pos (WWrote n) =
     (let out = take n (concat (take len iov)); wlen = length out;
          needed = sum_list (map length (take len iov)) in
      if wlen > 0 then
        (if wlen = needed then (UPSGI_OK, write_pos + wlen, iov, len, out)
         else (let (first_iov, skip_bytes, new_len) = iov_scan (take len iov) 0 wlen len
               in (UPSGI_AGAIN, write_pos + wlen, iov_move iov first_iov 0 skip_bytes len, new_len, out)))
      else (PROTO_ERR, write_pos, iov, len, []))"
| "upsgi_proto_base_writev iov len write_pos WAgain = (UPSGI_AGAIN, write_pos, iov, len, [])"
| "upsgi_proto_base_writev iov len write_pos WErr = (PROTO_ERR, write_pos, iov, len, [])"

section \<open>Reading the body\<close>

datatype read_ev = RData "char list" | REof | RAgain | RErr

text \<open>What \<open>read\<close> gives: bytes (none at the end of the stream), \<open>EAGAIN\<close> or another error.\<close>

datatype read_ret = Got "char list" | WouldBlock | ReadFail

fun sock_read :: "nat \<Rightarrow> read_ev list \<Rightarrow> read_ret \<times> read_ev list" where
  "sock_read n [] = (Got [], [])"
| "sock_read n (RData bs # evs) =
     (Got (take n bs), if length bs \<le> n then evs else RData (drop n bs) # evs)"
| "sock_read n (REof # evs) = (Got [], REof # evs)"
| "sock_read n (RAgain # evs) = (WouldBlock, evs)"
| "sock_read n (RErr # evs) = (ReadFail, evs)"

text \<open>\<open>remains\<close> is what the header parser read beyond the headers.\<close>

definition upsgi_proto_base_read_body ::
    "nat \<Rightarrow> char list \<Rightarrow> read_ev list \<Rightarrow> read_ret \<times> char list \<times> read_ev list" where
  "upsgi_proto_base_read_body len remains evs =
     (if remains \<noteq> [] then (Got (take len remains), drop len remains, evs)
      else (case sock_read len evs of (r, evs') \<Rightarrow> (r, [], evs')))"

definition upsgi_proto_noop_read_body ::
    "nat \<Rightarrow> char list \<Rightarrow> read_ev list \<Rightarrow> read_ret \<times> char list \<times> read_ev list" where
  "upsgi_proto_noop_read_body len remains evs = (ReadFail, remains, evs)"

section \<open>Adding variables to the packet\<close>

lemma le16_length [simp]: "length (le16 n) = 2"
  by (simp add: le16_def)

lemma keyval_bytes_length [simp]: "length (keyval_bytes k v) = length k + length v + 4"
  by (simp add: keyval_bytes_def)

lemma pkt_store_ok:
  assumes "pkt_inv p" "pkt_len p + length d \<le> length (pkt_buffer p)"
  obtains q where "pkt_store p d = Some q" "pkt_len q = pkt_len p"
    "length (pkt_buffer q) = length (pkt_buffer p)"
    "take (pkt_len p + length d) (pkt_buffer q) = pkt_content p @ d"
proof -
  obtain m where m: "mem_write (pkt_buffer p) (pkt_len p) d = Some m"
    using assms(2) by (simp add: mem_write_def)
  show thesis
    using that [of "p\<lparr>pkt_buffer := m\<rparr>"] mem_write_length [OF m] mem_write_take [OF m]
    by (simp add: pkt_store_def m pkt_content_def)
qed

text \<open>
  What the request parsers rely on: adding a variable is total, keeps the packet well formed,
  and leaves it as it was or extended by the encoded pair.  \<open>name\<close> is how the writer spells the
  key, \<open>fits\<close> which arguments it takes.
\<close>

fun add_vars :: "('s \<Rightarrow> char list \<Rightarrow> char list \<Rightarrow> 's option) \<Rightarrow> 's \<Rightarrow>
    (char list \<times> char list) list \<Rightarrow> 's option" where
  "add_vars add s [] = Some s"
| "add_vars add s ((k, v) # kvs) = (case add s k v of None \<Rightarrow> None | Some s' \<Rightarrow> add_vars add s' kvs)"

definition encode_vars :: "(char list \<times> char list) list \<Rightarrow> char list" where
  "encode_vars kvs = concat (map (\<lambda>(k, v). keyval_bytes k v) kvs)"

lemma encode_vars_simps [simp]:
  "encode_vars [] = []"
  "encode_vars ((k, v) # kvs) = keyval_bytes k v @ encode_vars kvs"
  "encode_vars (xs @ ys) = encode_vars xs @ encode_vars ys"
  by (simp_all add: encode_vars_def)

locale var_sink =
  fixes inv :: "'s \<Rightarrow> bool"
    and content :: "'s \<Rightarrow> char list"
    and add :: "'s \<Rightarrow> char list \<Rightarrow> char list \<Rightarrow> 's option"
    and name :: "char list \<Rightarrow> char list"
    and fits :: "char list \<Rightarrow> char list \<Rightarrow> bool"
  assumes add_total: "inv s \<Longrightarrow> fits k v \<Longrightarrow> \<exists>s'. add s k v = Some s' \<and> inv s' \<and>
      (content s' = content s \<or> content s' = content s @ keyval_bytes (name k) v)"
begin

lemma add_vars_total:
  assumes "inv s" "\<forall>(k, v) \<in> set kvs. fits k v"
  shows "\<exists>s' kept. add_vars add s kvs = Some s' \<and> inv s' \<and>
    content s' = content s @ encode_vars kept \<and>
    set kept \<subseteq> set (map (\<lambda>(k, v). (name k, v)) kvs)"
  using assms
proof (induction kvs arbitrary: s)
  case Nil
  then show ?case by (auto intro: exI [of _ "[]"])
next
  case (Cons kv kvs)
  obtain k v where kv: "kv = (k, v)" by fastforce
  with Cons.prems add_total [of s k v] obtain s1 e where
    s1: "add s k v = Some s1" "inv s1" "content s1 = content s @ encode_vars e"
    "set e \<subseteq> {(name k, v)}"
    by (auto intro: that [of _ "[]"] that [of _ "[(name k, v)]"])
  from Cons.IH [OF s1(2)] Cons.prems(2) obtain s' kept where
    "add_vars add s1 kvs = Some s'" "inv s'" "content s' = content s1 @ encode_vars kept"
    "set kept \<subseteq> set (map (\<lambda>(k, v). (name k, v)) kvs)" by auto
  with s1 kv show ?case
    by (intro exI [of _ s'] exI [of _ "e @ kept"]) auto
qed

end

definition add_var :: "req_packet \<Rightarrow> char list \<Rightarrow> char list \<Rightarrow> req_packet option" where
  "add_var p k v = pkt_advance (proto_base_add_upsgi_var p k v)"

definition add_hdr :: "req_packet \<Rightarrow> char list \<Rightarrow> char list \<Rightarrow> req_packet option" where
  "add_hdr p k v = pkt_advance (proto_base_add_upsgi_header p k v)"

definition cgi_name :: "char list \<Rightarrow> char list" where
  "cgi_name k =
     (let key = map cgi_char k in
      if key = ''CONTENT_TYPE'' \<or> key = ''CONTENT_LENGTH'' then key else ''HTTP_'' @ key)"

definition var_fits :: "nat \<Rightarrow> char list \<Rightarrow> char list \<Rightarrow> bool" where
  "var_fits extra k v \<longleftrightarrow> length k + extra < 65536 \<and> length v < 65536"

lemma advance_store:
  assumes "pkt_inv p" "pkt_len p + length d < length (pkt_buffer p)"
  shows "\<exists>q. pkt_advance (map_option (\<lambda>q. (length d, q)) (pkt_store p d)) = Some q \<and>
    pkt_inv q \<and> length (pkt_buffer q) = length (pkt_buffer p) \<and>
    pkt_content q = pkt_content p @ d"
proof -
  obtain q where "pkt_store p d = Some q" "pkt_len q = pkt_len p"
    "length (pkt_buffer q) = length (pkt_buffer p)"
    "take (pkt_len p + length d) (pkt_buffer q) = pkt_content p @ d"
    using pkt_store_ok [OF assms(1), of d] assms(2) by auto
  with assms(2) show ?thesis
    by (auto simp: pkt_advance_def pkt_inv_def pkt_content_def)
qed

text \<open>Both writers succeed exactly when the pair fits below the watermark.\<close>

definition pkt_put :: "req_packet \<Rightarrow> char list \<Rightarrow> req_packet option" where
  "pkt_put p d =
     (if pkt_len p + length d < length (pkt_buffer p)
      then pkt_advance (map_option (\<lambda>q. (length d, q)) (pkt_store p d)) else Some p)"

lemma add_var_put: "var_fits 0 k v \<Longrightarrow> add_var p k v = pkt_put p (keyval_bytes k v)"
  by (simp add: add_var_def pkt_put_def proto_base_add_upsgi_var_def var_fits_def Let_def
      pkt_advance_def not_le add.commute del: add_2_eq_Suc add_2_eq_Suc')

lemma cgi_name_length: "length (cgi_name k) =
    (if map cgi_char k = ''CONTENT_TYPE'' \<or> map cgi_char k = ''CONTENT_LENGTH'' then 0 else 5) + length k"
proof -
  have "length (map cgi_char k) = length k" by simp
  then show ?thesis by (simp only: cgi_name_def Let_def) (simp split: if_splits)
qed

lemma add_hdr_put:
  assumes "var_fits 5 k v"
  shows "add_hdr p k v = pkt_put p (keyval_bytes (cgi_name k) v)"
proof -
  have s: "u16_arg k = k" "u16_arg v = v" "length k + 5 < 65536" using assms by (auto simp: var_fits_def)
  have l: "length (map cgi_char k) = length k" by simp
  show ?thesis
  proof (cases "map cgi_char k = ''CONTENT_TYPE'' \<or> map cgi_char k = ''CONTENT_LENGTH''")
    case True
    then have n: "cgi_name k = map cgi_char k" by (simp add: cgi_name_def Let_def)
    have c: "\<not> (map cgi_char k \<noteq> ''CONTENT_TYPE'' \<and> map cgi_char k \<noteq> ''CONTENT_LENGTH'')"
      using True by blast
    show ?thesis
      unfolding add_hdr_def proto_base_add_upsgi_header_def Let_def s n if_not_P [OF c]
        pkt_put_def keyval_bytes_length l
      by (simp add: pkt_advance_def not_le algebra_simps del: add_2_eq_Suc add_2_eq_Suc')
  next
    case False
    then have n: "cgi_name k = ''HTTP_'' @ map cgi_char k" by (auto simp: cgi_name_def Let_def)
    have c: "map cgi_char k \<noteq> ''CONTENT_TYPE'' \<and> map cgi_char k \<noteq> ''CONTENT_LENGTH''"
      using False unfolding de_Morgan_disj .
    show ?thesis
      unfolding add_hdr_def proto_base_add_upsgi_header_def Let_def s n if_P [OF c]
        pkt_put_def keyval_bytes_length
      using s(3) by (simp add: pkt_advance_def not_le algebra_simps del: add_2_eq_Suc add_2_eq_Suc')
  qed
qed

lemma pkt_put_ok:
  assumes "pkt_inv p"
  shows "\<exists>q. pkt_put p d = Some q \<and> pkt_inv q \<and> length (pkt_buffer q) = length (pkt_buffer p) \<and>
    pkt_content q = (if pkt_len p + length d < length (pkt_buffer p)
                     then pkt_content p @ d else pkt_content p)"
  using advance_store [OF assms, of d] assms by (auto simp: pkt_put_def)

interpretation pv: var_sink pkt_inv pkt_content add_var "\<lambda>k. k" "var_fits 0"
  using pkt_put_ok by unfold_locales (force simp: add_var_put)

interpretation ph: var_sink pkt_inv pkt_content add_hdr cgi_name "var_fits 5"
  using pkt_put_ok by unfold_locales (force simp: add_hdr_put)

section \<open>Header lines\<close>

lemma sink_new_exact:
  assumes "length (concat ds) \<le> n"
  shows "\<exists>u. sink_all (upsgi_buffer_append env) (upsgi_buffer_new env n) ds = Ok u \<and>
    ub_content u = concat ds \<and> ub_len u = n"
proof -
  have "\<exists>u. sink_all (upsgi_buffer_append env) ub ds = Ok u \<and>
      ub_content u = ub_content ub @ concat ds \<and> ub_len u = ub_len ub"
    if "ub_inv ub" "ub_pos ub + length (concat ds) \<le> ub_len ub" for ub
    using that
  proof (induction ds arbitrary: ub)
    case Nil
    then show ?case by simp
  next
    case (Cons d ds)
    from Cons.prems have "ub_pos ub \<le> ub_len ub" "\<not> length d > ub_len ub - ub_pos ub"
      by (auto simp: ub_inv_def)
    then have "append_grown env ub (length d) = Ok ub"
      by (simp add: append_grown_def Let_def)
    moreover obtain w where w: "ub_memcpy ub (ub_pos ub) d = Ok w"
      using ub_memcpy_in_range [of "ub_pos ub" d ub] Cons.prems by auto
    ultimately have a: "upsgi_buffer_append env ub d = Ok (w\<lparr>ub_pos := ub_pos w + length d\<rparr>)"
      by (simp add: upsgi_buffer_append_alt ub_advance_def)
    let ?v = "w\<lparr>ub_pos := ub_pos w + length d\<rparr>"
    have "ub_inv ?v" "ub_content ?v = ub_content ub @ d" using ub.app_ok [OF Cons.prems(1) a] by auto
    moreover have "ub_len ?v = ub_len ub" "ub_pos ?v + length (concat ds) \<le> ub_len ?v"
      using ub_memcpy_Ok [OF w] Cons.prems(2) by auto
    ultimately show ?case using Cons.IH [of ?v] by (simp add: a)
  qed
  from this [of "upsgi_buffer_new env n"] assms show ?thesis
    by (simp add: upsgi_buffer_new_def ub_inv_def ub_content_def)
qed

text \<open>a header line is always built, in a block of exactly its size: the name, a colon and a
  space, the value and CRLF, or the value and CRLF alone when the name is empty.\<close>

theorem upsgi_proto_base_add_header_exact:
  "\<exists>u. upsgi_proto_base_add_header env k v = Ok u \<and>
     ub_content u = (if u16_arg k = [] then u16_arg v @ [CHR 0x0D, CHR 0x0A]
       else u16_arg k @ '': '' @ u16_arg v @ [CHR 0x0D, CHR 0x0A]) \<and>
     ub_len u = length (ub_content u)"
proof (cases "u16_arg k = []")
  case True
  have "upsgi_proto_base_add_header env k v =
      sink_all (upsgi_buffer_append env) (upsgi_buffer_new env (length (u16_arg v) + 2))
        [u16_arg v, [CHR 0x0D, CHR 0x0A]]"
    by (simp add: upsgi_proto_base_add_header_def True Let_def)
  with sink_new_exact [of "[u16_arg v, [CHR 0x0D, CHR 0x0A]]" "length (u16_arg v) + 2" env] True
  show ?thesis by auto
next
  case False
  have "upsgi_proto_base_add_header env k v =
      sink_all (upsgi_buffer_append env) (upsgi_buffer_new env (length (u16_arg k) + 2 + length (u16_arg v) + 2))
        [u16_arg k, '': '', u16_arg v, [CHR 0x0D, CHR 0x0A]]"
    using False by (simp add: upsgi_proto_base_add_header_def Let_def)
  with sink_new_exact [of "[u16_arg k, '': '', u16_arg v, [CHR 0x0D, CHR 0x0A]]"
      "length (u16_arg k) + 2 + length (u16_arg v) + 2" env] False
  show ?thesis by auto
qed

section \<open>Vectored writes\<close>

lemma iov_scan_spec:
  assumes "iov_scan vs i wlen n = (f, s, m)" "wlen < length (concat vs)" "length vs \<le> n"
  shows "\<exists>k < length vs. f = i + k \<and> m = n - k \<and> s < length (vs ! k) \<and>
    drop s (vs ! k) @ concat (drop (Suc k) vs) = drop wlen (concat vs)"
  using assms
proof (induction vs arbitrary: i wlen n)
  case Nil
  then show ?case by simp
next
  case (Cons v vs)
  show ?case
  proof (cases "length v \<le> wlen")
    case True
    with Cons.prems have h: "iov_scan vs (i + 1) (wlen - length v) (n - 1) = (f, s, m)"
      "wlen - length v < length (concat vs)" "length vs \<le> n - 1" by auto
    from Cons.IH [OF h] obtain k where
      "k < length vs" "f = i + 1 + k" "m = n - 1 - k" "s < length (vs ! k)"
      "drop s (vs ! k) @ concat (drop (Suc k) vs) = drop (wlen - length v) (concat vs)" by auto
    with True show ?thesis by (intro exI [of _ "Suc k"]) auto
  next
    case False
    with Cons.prems show ?thesis by (intro exI [of _ 0]) auto
  qed
qed

text \<open>From the second target on, the loop copies cells down.\<close>

lemma iov_move_length: "length (iov_move iov i pos skip n) = length iov"
  by (induction iov i pos skip n rule: iov_move.induct) (subst iov_move.simps, simp add: Let_def)

lemma iov_move_tail:
  assumes "0 < pos" "pos \<le> i" "i \<le> n" "n \<le> length iov"
  shows "take (pos + (n - i)) (iov_move iov i pos skip n) = take pos iov @ take (n - i) (drop i iov)"
  using assms
proof (induction "n - i" arbitrary: iov i pos)
  case 0
  then show ?case by (simp add: iov_move.simps [of iov i])
next
  case (Suc d)
  let ?b = "iov[pos := iov ! i]"
  have i: "i < n" "i < length iov" "pos < length iov" using Suc(2-) by auto
  have u: "iov_move iov i pos skip n = iov_move ?b (i + 1) (pos + 1) skip n"
    using i Suc(3) by (simp add: iov_move.simps [of iov i pos])
  have "take (pos + 1) ?b = take pos iov @ [iov ! i]"
    using i by (simp add: take_Suc_conv_app_nth)
  moreover have "take (n - (i + 1)) (drop (i + 1) ?b) = take (n - (i + 1)) (drop (i + 1) iov)"
    using Suc(4) by simp
  moreover have "take (n - i) (drop i iov) = iov ! i # take (n - (i + 1)) (drop (i + 1) iov)"
    using i by (simp add: Cons_nth_drop_Suc [symmetric] take_Cons')
  moreover have "pos + (n - i) = pos + 1 + (n - (i + 1))" using i by simp
  ultimately show ?case
    using Suc(1) [of "i + 1" "pos + 1" ?b] Suc(2-) i by (simp add: u)
qed

lemma iov_move_spec:
  assumes "k < n" "n \<le> length iov"
  shows "take (n - k) (iov_move iov k 0 skip n) = drop skip (iov ! k) # take (n - Suc k) (drop (Suc k) iov)"
proof -
  let ?a = "iov[k := drop skip (iov ! k)]"
  let ?b = "?a[0 := ?a ! k]"
  have u: "iov_move iov k 0 skip n = iov_move ?b (k + 1) 1 skip n"
    using assms by (simp add: iov_move.simps [of iov k 0] Let_def)
  have "iov \<noteq> []" using assms by auto
  then have "take 1 ?b = [drop skip (iov ! k)]"
    using assms by (cases iov) (auto simp: nth_Cons split: nat.splits)
  moreover have "drop (k + 1) ?b = drop (k + 1) iov" by (cases k) simp_all
  moreover have "1 + (n - (k + 1)) = n - k" using assms by simp
  ultimately show "take (n - k) (iov_move iov k 0 skip n) = drop skip (iov ! k) # take (n - Suc k) (drop (Suc k) iov)"
    using iov_move_tail [of 1 "k + 1" n ?b skip] assms by (simp add: u)
qed

lemma writev_step:
  assumes "len \<le> length iov" "upsgi_proto_base_writev iov len write_pos ev = (r, wp, iov', len', out)"
    "r \<noteq> PROTO_ERR" "concat (take len iov) \<noteq> []"
  shows "len' \<le> length iov' \<and> wp = write_pos + length out \<and>
    (if r = UPSGI_OK then out = concat (take len iov)
     else concat (take len iov) = out @ concat (take len' iov') \<and> concat (take len' iov') \<noteq> [])"
proof (cases ev)
  case (WWrote n)
  let ?d = "concat (take len iov)"
  have needed: "sum_list (map length (take len iov)) = length ?d" by (simp add: length_concat)
  show ?thesis
  proof (cases "length (take n ?d) = length ?d")
    case True
    then have "take n ?d = ?d" by simp
    with assms WWrote True needed show ?thesis by (auto simp: Let_def split: if_splits)
  next
    case False
    define w where "w = length (take n ?d)"
    have w: "w < length ?d" "take n ?d = take w ?d" using False by (auto simp: w_def)
    obtain f s m where sc: "iov_scan (take len iov) 0 w len = (f, s, m)" using prod_cases3 by blast
    have r: "r = UPSGI_AGAIN" "wp = write_pos + w" "iov' = iov_move iov f 0 s len" "len' = m" "out = take n ?d"
      using assms(2,3) WWrote False needed sc by (auto simp: Let_def w_def split: if_splits prod.splits)
    from iov_scan_spec [OF sc w(1)] obtain k where
      k: "k < len" "f = k" "m = len - k" "s < length (iov ! k)"
      "drop s (iov ! k) @ concat (take (len - Suc k) (drop (Suc k) iov)) = drop w ?d"
      using assms(1) by (auto simp: drop_take)
    have c: "concat (take len' iov') = drop w ?d"
      unfolding r(3,4) k(2,3) iov_move_spec [OF k(1) assms(1)] by (simp add: k(5))
    have "?d = out @ drop w ?d" "length out = w" unfolding r(5) w(2) using w(1) by auto
    moreover have "len' \<le> length iov'" using r k assms(1) by (simp add: iov_move_length)
    moreover have "drop w ?d \<noteq> []" using w(1) by simp
    ultimately show ?thesis unfolding c using r(1,2) by simp
  qed
qed (use assms in auto)

text \<open>a vectored write never loses, repeats or reorders data: the bytes that left followed by
  the vectors it leaves to write are the vectors it was given, \<open>write_pos\<close> moves by what left,
  and it reports success exactly when nothing is left.\<close>

theorem upsgi_proto_base_writev_exact:
  assumes "len \<le> length iov" "upsgi_proto_base_writev iov len write_pos ev = (r, wp, iov', len', out)"
    "r \<noteq> PROTO_ERR" "concat (take len iov) \<noteq> []"
  shows "len' \<le> length iov' \<and> wp = write_pos + length out \<and>
    (if r = UPSGI_OK then out = concat (take len iov)
     else concat (take len iov) = out @ concat (take len' iov') \<and> concat (take len' iov') \<noteq> [])"
  by (rule writev_step [OF assms])

theorem upsgi_proto_base_writev_exact_witness:
  "\<exists>iov' len'. upsgi_proto_base_writev [''ab'', ''cde'', ''f''] 3 0 (WWrote 3) =
       (UPSGI_AGAIN, 3, iov', len', ''abc'') \<and>
     ''abcdef'' = ''abc'' @ concat (take len' iov')"
proof -
  obtain iov' len' where r: "upsgi_proto_base_writev [''ab'', ''cde'', ''f''] 3 0 (WWrote 3) =
       (UPSGI_AGAIN, 3, iov', len', ''abc'')"
    by (simp add: Let_def numeral_3_eq_3)
  from upsgi_proto_base_writev_exact [OF _ r] r show ?thesis by (auto simp: numeral_3_eq_3)
qed

section \<open>Reading under a budget\<close>

text \<open>All bytes a reader can still get.\<close>

fun ev_data :: "read_ev \<Rightarrow> char list" where
  "ev_data (RData bs) = bs"
| "ev_data _ = []"

definition pending :: "char list \<Rightarrow> read_ev list \<Rightarrow> char list" where
  "pending remains evs = remains @ concat (map ev_data evs)"

lemma sock_read_data:
  "case sock_read n evs of (r, evs') \<Rightarrow>
     (case r of Got d \<Rightarrow> concat (map ev_data evs) = d @ concat (map ev_data evs') \<and> length d \<le> n
      | _ \<Rightarrow> concat (map ev_data evs) = concat (map ev_data evs'))"
  by (cases "(n, evs)" rule: sock_read.cases) auto

lemma read_body_data:
  "case upsgi_proto_base_read_body n rem evs of (r, rem', evs') \<Rightarrow>
     (case r of Got d \<Rightarrow> pending rem evs = d @ pending rem' evs' \<and> length d \<le> n
      | _ \<Rightarrow> pending rem evs = pending rem' evs')"
  using sock_read_data [where n = n and evs = evs]
  by (cases "sock_read n evs") (simp add: upsgi_proto_base_read_body_def pending_def split: read_ret.splits)

end
