(* ===== verification/Upsgi_BodySched.thy ===== *)
theory Upsgi_BodySched
  imports Upsgi_Prelude
begin

text \<open>
  The request-body scheduler of \<open>core/body_scheduler.c\<close>: every request that carries a body
  is registered on its core, starts in the interactive lane and gets a read budget per turn
  from a deficit counter; large or slow uploads move to the bulk lane, whose quantum is half.
  \<open>body_req\<close> holds the fields of \<open>struct wsgi_request\<close> the scheduler owns (and the two it
  reads), \<open>body_core\<close> the counters of \<open>struct upsgi_core\<close>; \<open>uint64_t\<close> and \<open>size_t\<close> are 64-bit
  words, so counters wrap as in C.  The clock (\<open>upsgi_micros\<close>) and the switch
  \<open>upsgi.body_scheduler\<close> are arguments.  A core serves one request at a time, so one pair of
  records is the whole state; \<open>bs_step\<close> is any call the body readers make.
\<close>

datatype lane = LaneNone | LaneInteractive | LaneBulk

record body_req =
  post_cl :: "64 word"
  body_is_chunked :: bool
  bs_started_at_us :: "64 word"
  bs_last_service_us :: "64 word"
  bs_bytes_observed :: "64 word"
  bs_deficit_bytes :: "64 word"
  bs_last_budget_bytes :: "64 word"
  bs_rounds_observed :: "32 word"
  bs_full_budget_turns :: "32 word"
  bs_registered :: bool
  bs_lane_class :: lane
  bs_promoted_by_bytes :: bool
  bs_promoted_by_rounds :: bool
  bs_promoted_by_residency :: bool
  bs_marked_complete :: bool
  bs_last_budget_capped :: bool
  bs_disabled_fallback_noted :: bool
  bs_recent_wait_event :: bool

record body_core =
  rounds :: "64 word"
  interactive_turns :: "64 word"
  bulk_turns :: "64 word"
  requeues :: "64 word"
  promotions_to_bulk :: "64 word"
  no_credit_skips :: "64 word"
  empty_read_events :: "64 word"
  eagain_events :: "64 word"
  completed_items :: "64 word"
  bytes_interactive :: "64 word"
  bytes_bulk :: "64 word"
  bytes_total :: "64 word"
  credit_granted_bytes :: "64 word"
  credit_unused_bytes :: "64 word"
  active_items :: "64 word"
  interactive_depth_max :: "64 word"
  bulk_depth_max :: "64 word"
  residency_us_max :: "64 word"
  residency_us_p50_sample :: "64 word"
  residency_us_p95_sample :: "64 word"
  items_promoted_by_bytes :: "64 word"
  items_promoted_by_rounds :: "64 word"
  items_promoted_by_residency :: "64 word"
  near_complete_fastfinishes :: "64 word"
  overflow_protection_hits :: "64 word"
  disabled_fallbacks :: "64 word"
  full_budget_turns :: "64 word"
  wait_relief_events :: "64 word"
  yield_hints :: "64 word"
  interactive_depth_current :: "64 word"
  bulk_depth_current :: "64 word"
  residency_hist :: "64 word list"

type_synonym body_state = "body_req \<times> body_core"

section \<open>Constants\<close>

definition INTERACTIVE_BYTES_THRESHOLD :: "64 word" where "INTERACTIVE_BYTES_THRESHOLD = 262144"
definition INTERACTIVE_ROUNDS_THRESHOLD :: "32 word" where "INTERACTIVE_ROUNDS_THRESHOLD = 4"
definition INTERACTIVE_RESIDENCY_US_THRESHOLD :: "64 word" where "INTERACTIVE_RESIDENCY_US_THRESHOLD = 250000"
definition NEAR_COMPLETE_BYTES_THRESHOLD :: "64 word" where "NEAR_COMPLETE_BYTES_THRESHOLD = 65536"
definition PROMOTION_MIN_BYTES :: "64 word" where "PROMOTION_MIN_BYTES = 65536"
definition FULL_BUDGET_PROMOTION_THRESHOLD :: "32 word" where "FULL_BUDGET_PROMOTION_THRESHOLD = 2"
definition INTERACTIVE_QUANTUM_BYTES :: "64 word" where "INTERACTIVE_QUANTUM_BYTES = 65536"
definition BULK_QUANTUM_BYTES :: "64 word" where "BULK_QUANTUM_BYTES = 32768"
definition DEFICIT_CAP_MULTIPLIER :: "64 word" where "DEFICIT_CAP_MULTIPLIER = 4"

lemmas bs_consts = INTERACTIVE_BYTES_THRESHOLD_def INTERACTIVE_ROUNDS_THRESHOLD_def
  INTERACTIVE_RESIDENCY_US_THRESHOLD_def NEAR_COMPLETE_BYTES_THRESHOLD_def
  PROMOTION_MIN_BYTES_def FULL_BUDGET_PROMOTION_THRESHOLD_def INTERACTIVE_QUANTUM_BYTES_def
  BULK_QUANTUM_BYTES_def DEFICIT_CAP_MULTIPLIER_def

definition residency_bucket_limits_us :: "64 word list" where
  "residency_bucket_limits_us =
     [1000, 2000, 4000, 8000, 16000, 32000, 64000, 128000, 256000, 512000, 1000000, 2000000,
      4000000, 8000000, 16000000, -1]"

section \<open>Lanes and budgets\<close>

definition lane_quantum :: "body_req \<Rightarrow> 64 word" where
  "lane_quantum r =
     (if bs_lane_class r = LaneBulk then BULK_QUANTUM_BYTES else INTERACTIVE_QUANTUM_BYTES)"

definition is_full_budget_turn :: "body_req \<Rightarrow> 64 word \<Rightarrow> bool" where
  "is_full_budget_turn r observed \<longleftrightarrow>
     (if bs_last_budget_bytes r = 0 then False
      else if observed \<ge> bs_last_budget_bytes r then True
      else observed * 8 \<ge> bs_last_budget_bytes r * 7)"

definition update_depth_max :: "body_core \<Rightarrow> body_core" where
  "update_depth_max c =
     (let c1 = (if interactive_depth_current c > interactive_depth_max c
                then c\<lparr>interactive_depth_max := interactive_depth_current c\<rparr> else c)
      in if bulk_depth_current c1 > bulk_depth_max c1
         then c1\<lparr>bulk_depth_max := bulk_depth_current c1\<rparr> else c1)"

definition promote_to_bulk :: "body_state \<Rightarrow> body_state" where
  "promote_to_bulk s =
     (let r = fst s; c = snd s in
      if bs_lane_class r = LaneBulk then s
      else
        (let c1 = (if interactive_depth_current c > 0
                   then c\<lparr>interactive_depth_current := interactive_depth_current c - 1\<rparr> else c);
             c2 = update_depth_max (c1\<lparr>bulk_depth_current := bulk_depth_current c1 + 1\<rparr>);
             c3 = c2\<lparr>promotions_to_bulk := promotions_to_bulk c2 + 1\<rparr>;
             r1 = r\<lparr>bs_lane_class := LaneBulk\<rparr>
         in (if bs_deficit_bytes r1 > BULK_QUANTUM_BYTES
             then r1\<lparr>bs_deficit_bytes := BULK_QUANTUM_BYTES\<rparr> else r1, c3)))"

section \<open>Residency samples\<close>

text \<open>The percentile loop over the histogram; a sample of 0 means not found yet.\<close>

fun percentile_loop ::
    "(64 word \<times> 64 word) list \<Rightarrow> 64 word \<Rightarrow> 64 word \<Rightarrow> 64 word \<Rightarrow> 64 word \<Rightarrow> 64 word \<Rightarrow> 64 word \<times> 64 word" where
  "percentile_loop [] seen t50 t95 p50 p95 = (p50, p95)"
| "percentile_loop ((h, lim) # rest) seen t50 t95 p50 p95 =
     (let seen' = seen + h;
          p50' = (if p50 = 0 \<and> seen' \<ge> t50 then lim else p50)
      in if p95 = 0 \<and> seen' \<ge> t95 then (p50', lim)
         else percentile_loop rest seen' t50 t95 p50' p95)"

definition refresh_samples :: "body_core \<Rightarrow> body_core" where
  "refresh_samples c =
     (let total = sum_list (residency_hist c) in
      if total = 0 then c\<lparr>residency_us_p50_sample := 0, residency_us_p95_sample := 0\<rparr>
      else
        (let target50 = (total + 1) div 2;
             t95 = (total * 95 + 99) div 100;
             target95 = (if t95 = 0 then 1 else t95);
             (p50, p95) = percentile_loop (zip (residency_hist c) residency_bucket_limits_us)
                            0 target50 target95 0 0
         in c\<lparr>residency_us_p50_sample := p50, residency_us_p95_sample := p95\<rparr>))"

text \<open>The first bucket whose limit the residency does not exceed counts it.\<close>

fun bump_bucket :: "64 word \<Rightarrow> (64 word \<times> 64 word) list \<Rightarrow> 64 word list" where
  "bump_bucket us [] = []"
| "bump_bucket us ((h, lim) # rest) =
     (if us \<le> lim then (h + 1) # map fst rest else h # bump_bucket us rest)"

definition record_residency :: "body_core \<Rightarrow> 64 word \<Rightarrow> body_core" where
  "record_residency c us =
     (let c1 = (if us > residency_us_max c then c\<lparr>residency_us_max := us\<rparr> else c);
          c2 = c1\<lparr>residency_hist := bump_bucket us (zip (residency_hist c1) residency_bucket_limits_us)\<rparr>
      in refresh_samples c2)"

section \<open>Promotions\<close>

definition promote_by_bytes :: "body_state \<Rightarrow> body_state" where
  "promote_by_bytes s =
     (let r = fst s; c = snd s in
      if \<not> bs_promoted_by_bytes r \<and> bs_bytes_observed r \<ge> INTERACTIVE_BYTES_THRESHOLD
      then promote_to_bulk (r\<lparr>bs_promoted_by_bytes := True\<rparr>,
             c\<lparr>items_promoted_by_bytes := items_promoted_by_bytes c + 1\<rparr>)
      else s)"

definition promote_by_rounds :: "body_state \<Rightarrow> body_state" where
  "promote_by_rounds s =
     (let r = fst s; c = snd s in
      if \<not> bs_promoted_by_rounds r \<and> bs_rounds_observed r \<ge> INTERACTIVE_ROUNDS_THRESHOLD \<and>
         bs_bytes_observed r \<ge> PROMOTION_MIN_BYTES \<and>
         bs_full_budget_turns r \<ge> FULL_BUDGET_PROMOTION_THRESHOLD
      then promote_to_bulk (r\<lparr>bs_promoted_by_rounds := True\<rparr>,
             c\<lparr>items_promoted_by_rounds := items_promoted_by_rounds c + 1\<rparr>)
      else s)"

definition promote_by_residency :: "64 word \<Rightarrow> body_state \<Rightarrow> body_state" where
  "promote_by_residency residency_us s =
     (let r = fst s; c = snd s in
      if \<not> bs_promoted_by_residency r \<and> residency_us \<ge> INTERACTIVE_RESIDENCY_US_THRESHOLD \<and>
         bs_bytes_observed r \<ge> PROMOTION_MIN_BYTES \<and> bs_full_budget_turns r > 0
      then promote_to_bulk (r\<lparr>bs_promoted_by_residency := True\<rparr>,
             c\<lparr>items_promoted_by_residency := items_promoted_by_residency c + 1\<rparr>)
      else s)"

definition update_promotions :: "body_state \<Rightarrow> body_state" where
  "update_promotions s =
     (if \<not> bs_registered (fst s) then s
      else
        (let residency_us = bs_last_service_us (fst s) - bs_started_at_us (fst s)
         in promote_by_residency residency_us (promote_by_rounds (promote_by_bytes s))))"

section \<open>The operations\<close>

definition note_request :: "bool \<Rightarrow> 64 word \<Rightarrow> body_state \<Rightarrow> body_state" where
  "note_request enabled now s =
     (let r = fst s; c = snd s in
      if bs_registered r then s
      else if post_cl r = 0 \<and> \<not> body_is_chunked r then s
      else
        (let r1 = r\<lparr>bs_registered := True, bs_lane_class := LaneInteractive,
                    bs_started_at_us := now, bs_last_service_us := now\<rparr>;
             c1 = update_depth_max
                    (c\<lparr>active_items := active_items c + 1,
                       interactive_depth_current := interactive_depth_current c + 1\<rparr>)
         in if \<not> enabled \<and> \<not> bs_disabled_fallback_noted r1
            then (r1\<lparr>bs_disabled_fallback_noted := True\<rparr>,
                  c1\<lparr>disabled_fallbacks := disabled_fallbacks c1 + 1\<rparr>)
            else (r1, c1)))"

definition budget_refill :: "64 word \<Rightarrow> body_state \<Rightarrow> body_state" where
  "budget_refill quantum s =
     (let r = fst s; c = snd s; deficit_cap = quantum * DEFICIT_CAP_MULTIPLIER in
      if bs_deficit_bytes r < deficit_cap then
        (let d = bs_deficit_bytes r + quantum in
         if d > deficit_cap
         then (r\<lparr>bs_deficit_bytes := deficit_cap\<rparr>,
               c\<lparr>overflow_protection_hits := overflow_protection_hits c + 1\<rparr>)
         else (r\<lparr>bs_deficit_bytes := d\<rparr>, c))
      else (r, c\<lparr>overflow_protection_hits := overflow_protection_hits c + 1\<rparr>))"

definition read_budget :: "bool \<Rightarrow> 64 word \<Rightarrow> 64 word \<Rightarrow> body_state \<Rightarrow> 64 word \<times> body_state" where
  "read_budget enabled now requested s0 =
     (if requested = 0 then (requested, s0)
      else
       (let s1 = note_request enabled now s0 in
        if \<not> bs_registered (fst s1) then (requested, s1)
        else
         (let r = (fst s1)\<lparr>bs_last_budget_capped := False, bs_last_budget_bytes := 0\<rparr>; c = snd s1 in
          if \<not> enabled then
            (requested, (r\<lparr>bs_last_budget_bytes := requested\<rparr>,
                         c\<lparr>credit_granted_bytes := credit_granted_bytes c + requested\<rparr>))
          else
           (let s2 = update_promotions (r, c); quantum = lane_quantum (fst s2) in
            if bs_recent_wait_event (fst s2) then
              (let grant = min requested quantum; c2 = snd s2 in
               (grant, ((fst s2)\<lparr>bs_last_budget_bytes := grant\<rparr>,
                        c2\<lparr>wait_relief_events := wait_relief_events c2 + 1,
                           credit_granted_bytes := credit_granted_bytes c2 + grant\<rparr>)))
            else
             (let s3 = budget_refill quantum s2;
                  g = min requested (bs_deficit_bytes (fst s3));
                  s4 = (if g = 0
                        then ((fst s3)\<lparr>bs_deficit_bytes := 0\<rparr>,
                              (snd s3)\<lparr>no_credit_skips := no_credit_skips (snd s3) + 1\<rparr>)
                        else s3);
                  grant = (if g = 0 then min requested quantum else g);
                  s5 = (if grant < requested
                        then ((fst s4)\<lparr>bs_last_budget_capped := True\<rparr>,
                              (snd s4)\<lparr>no_credit_skips := no_credit_skips (snd s4) + 1\<rparr>)
                        else s4)
              in (grant, ((fst s5)\<lparr>bs_last_budget_bytes := grant\<rparr>,
                          (snd s5)\<lparr>credit_granted_bytes := credit_granted_bytes (snd s5) + grant\<rparr>)))))))"

text \<open>The parts of \<open>upsgi_body_sched_note_bytes\<close>, in order.\<close>

definition account_bytes :: "64 word \<Rightarrow> 64 word \<Rightarrow> body_state \<Rightarrow> body_state" where
  "account_bytes now observed s =
     (let r = fst s; c = snd s;
          r1 = r\<lparr>bs_rounds_observed := bs_rounds_observed r + 1,
                 bs_bytes_observed := bs_bytes_observed r + observed,
                 bs_last_service_us := now\<rparr>;
          c1 = c\<lparr>rounds := rounds c + 1\<rparr>;
          c2 = (if bs_lane_class r1 = LaneBulk
                then c1\<lparr>bulk_turns := bulk_turns c1 + 1, bytes_bulk := bytes_bulk c1 + observed\<rparr>
                else c1\<lparr>interactive_turns := interactive_turns c1 + 1,
                        bytes_interactive := bytes_interactive c1 + observed\<rparr>);
          c3 = c2\<lparr>bytes_total := bytes_total c2 + observed\<rparr>
      in (r1, if bs_marked_complete r1 then c3 else c3\<lparr>requeues := requeues c3 + 1\<rparr>))"

definition settle_credit :: "bool \<Rightarrow> 64 word \<Rightarrow> body_state \<Rightarrow> body_state" where
  "settle_credit enabled observed s =
     (let r = fst s; c = snd s;
          c1 = (if bs_last_budget_bytes r > observed
                then c\<lparr>credit_unused_bytes := credit_unused_bytes c + (bs_last_budget_bytes r - observed)\<rparr>
                else c);
          r1 = (if enabled
                then r\<lparr>bs_deficit_bytes :=
                         (if bs_deficit_bytes r \<ge> observed then bs_deficit_bytes r - observed else 0)\<rparr>
                else r)
      in (r1, c1))"

definition count_full_turn :: "bool \<Rightarrow> body_state \<Rightarrow> body_state" where
  "count_full_turn full s =
     (if full
      then ((fst s)\<lparr>bs_full_budget_turns := bs_full_budget_turns (fst s) + 1\<rparr>,
            (snd s)\<lparr>full_budget_turns := full_budget_turns (snd s) + 1\<rparr>)
      else ((fst s)\<lparr>bs_full_budget_turns := 0\<rparr>, snd s))"

definition mark_complete :: "64 word \<Rightarrow> body_state \<Rightarrow> body_state" where
  "mark_complete bytes_before s =
     (let r = fst s; c = snd s in
      if \<not> body_is_chunked r \<and> post_cl r > 0 \<and> bs_bytes_observed r \<ge> post_cl r then
        (r\<lparr>bs_marked_complete := True\<rparr>,
         if post_cl r - min bytes_before (post_cl r) \<le> NEAR_COMPLETE_BYTES_THRESHOLD
         then c\<lparr>near_complete_fastfinishes := near_complete_fastfinishes c + 1\<rparr> else c)
      else s)"

definition yield_hint :: "bool \<Rightarrow> bool \<Rightarrow> body_state \<Rightarrow> body_state" where
  "yield_hint enabled full s =
     (let r = fst s; c = snd s in
      if enabled \<and> bs_last_budget_capped r \<and> bs_lane_class r = LaneBulk \<and>
         \<not> bs_marked_complete r \<and> full \<and> \<not> bs_recent_wait_event r
      then (r, c\<lparr>yield_hints := yield_hints c + 1\<rparr>) else s)"

definition note_bytes :: "bool \<Rightarrow> 64 word \<Rightarrow> 64 word \<Rightarrow> body_state \<Rightarrow> body_state" where
  "note_bytes enabled now observed s0 =
     (if observed = 0 then s0
      else
       (let s1 = note_request enabled now s0 in
        if \<not> bs_registered (fst s1) then s1
        else
         (let bytes_before = bs_bytes_observed (fst s1);
              s2 = settle_credit enabled observed (account_bytes now observed s1);
              full = is_full_budget_turn (fst s2) observed;
              s3 = update_promotions (count_full_turn full s2);
              s4 = yield_hint enabled full (mark_complete bytes_before s3)
          in ((fst s4)\<lparr>bs_recent_wait_event := False\<rparr>, snd s4))))"

definition note_empty_read :: "bool \<Rightarrow> 64 word \<Rightarrow> body_state \<Rightarrow> body_state" where
  "note_empty_read enabled now s0 =
     (let s1 = note_request enabled now s0 in
      if \<not> bs_registered (fst s1) then s1
      else ((fst s1)\<lparr>bs_recent_wait_event := True, bs_full_budget_turns := 0\<rparr>,
            (snd s1)\<lparr>empty_read_events := empty_read_events (snd s1) + 1\<rparr>))"

definition note_eagain :: "bool \<Rightarrow> 64 word \<Rightarrow> body_state \<Rightarrow> body_state" where
  "note_eagain enabled now s0 =
     (let s1 = note_request enabled now s0 in
      if \<not> bs_registered (fst s1) then s1
      else ((fst s1)\<lparr>bs_recent_wait_event := True, bs_full_budget_turns := 0\<rparr>,
            (snd s1)\<lparr>eagain_events := eagain_events (snd s1) + 1\<rparr>))"

definition note_chunked_complete :: "bool \<Rightarrow> 64 word \<Rightarrow> body_state \<Rightarrow> body_state" where
  "note_chunked_complete enabled now s0 =
     (let s1 = note_request enabled now s0 in ((fst s1)\<lparr>bs_marked_complete := True\<rparr>, snd s1))"

definition sched_finish :: "64 word \<Rightarrow> body_state \<Rightarrow> body_state" where
  "sched_finish now s =
     (let r = fst s; c = snd s in
      if \<not> bs_registered r then s
      else
        (let c1 = (if active_items c > 0 then c\<lparr>active_items := active_items c - 1\<rparr> else c);
             c2 = (if bs_lane_class r = LaneBulk
                   then (if bulk_depth_current c1 > 0
                         then c1\<lparr>bulk_depth_current := bulk_depth_current c1 - 1\<rparr> else c1)
                   else (if interactive_depth_current c1 > 0
                         then c1\<lparr>interactive_depth_current := interactive_depth_current c1 - 1\<rparr> else c1));
             c3 = record_residency c2 (now - bs_started_at_us r);
             c4 = (if bs_marked_complete r then c3\<lparr>completed_items := completed_items c3 + 1\<rparr> else c3)
         in (r\<lparr>bs_registered := False, bs_deficit_bytes := 0, bs_last_budget_bytes := 0,
               bs_last_budget_capped := False, bs_disabled_fallback_noted := False,
               bs_recent_wait_event := False, bs_full_budget_turns := 0\<rparr>, c4)))"

section \<open>Runs of the scheduler\<close>

text \<open>Every call the request readers make, in any order and with any clock.\<close>

inductive bs_step :: "bool \<Rightarrow> body_state \<Rightarrow> body_state \<Rightarrow> bool" for enabled :: bool where
  step_request: "bs_step enabled s (note_request enabled now s)"
| step_budget: "bs_step enabled s (snd (read_budget enabled now requested s))"
| step_bytes: "bs_step enabled s (note_bytes enabled now observed s)"
| step_empty: "bs_step enabled s (note_empty_read enabled now s)"
| step_eagain: "bs_step enabled s (note_eagain enabled now s)"
| step_complete: "bs_step enabled s (note_chunked_complete enabled now s)"
| step_finish: "bs_step enabled s (sched_finish now s)"

inductive bs_run :: "bool \<Rightarrow> body_state \<Rightarrow> body_state \<Rightarrow> bool" for enabled :: bool where
  run_refl: "bs_run enabled s s"
| run_step: "bs_run enabled s t \<Longrightarrow> bs_step enabled t u \<Longrightarrow> bs_run enabled s u"

section \<open>The accounting invariant\<close>

definition deficit_cap :: "lane \<Rightarrow> 64 word" where
  "deficit_cap l = (if l = LaneBulk then BULK_QUANTUM_BYTES else INTERACTIVE_QUANTUM_BYTES)
                     * DEFICIT_CAP_MULTIPLIER"

definition depth_inv :: "body_state \<Rightarrow> bool" where
  "depth_inv s \<longleftrightarrow>
     (let r = fst s; c = snd s in
      if bs_registered r then
        active_items c = 1 \<and>
        (bs_lane_class r = LaneBulk \<and> bulk_depth_current c = 1 \<and> interactive_depth_current c = 0 \<or>
         bs_lane_class r = LaneInteractive \<and> bulk_depth_current c = 0 \<and> interactive_depth_current c = 1)
      else active_items c = 0 \<and> bulk_depth_current c = 0 \<and> interactive_depth_current c = 0)"

definition account_inv :: "body_state \<Rightarrow> bool" where
  "account_inv s \<longleftrightarrow>
     (let c = snd s in
      rounds c = interactive_turns c + bulk_turns c \<and>
      bytes_total c = bytes_interactive c + bytes_bulk c)"

definition deficit_inv :: "body_state \<Rightarrow> bool" where
  "deficit_inv s \<longleftrightarrow>
     (if bs_registered (fst s) then bs_deficit_bytes (fst s) \<le> deficit_cap (bs_lane_class (fst s))
      else bs_deficit_bytes (fst s) = 0)"

definition bs_inv :: "body_state \<Rightarrow> bool" where
  "bs_inv s \<longleftrightarrow> depth_inv s \<and> account_inv s \<and> deficit_inv s"

lemmas bs_inv_defs = bs_inv_def depth_inv_def account_inv_def deficit_inv_def deficit_cap_def

lemma update_depth_max_simps [simp]:
  "active_items (update_depth_max c) = active_items c"
  "bulk_depth_current (update_depth_max c) = bulk_depth_current c"
  "interactive_depth_current (update_depth_max c) = interactive_depth_current c"
  "rounds (update_depth_max c) = rounds c"
  "interactive_turns (update_depth_max c) = interactive_turns c"
  "bulk_turns (update_depth_max c) = bulk_turns c"
  "bytes_total (update_depth_max c) = bytes_total c"
  "bytes_interactive (update_depth_max c) = bytes_interactive c"
  "bytes_bulk (update_depth_max c) = bytes_bulk c"
  by (simp_all add: update_depth_max_def Let_def)

lemma refresh_samples_simps [simp]:
  "active_items (refresh_samples c) = active_items c"
  "bulk_depth_current (refresh_samples c) = bulk_depth_current c"
  "interactive_depth_current (refresh_samples c) = interactive_depth_current c"
  "rounds (refresh_samples c) = rounds c"
  "interactive_turns (refresh_samples c) = interactive_turns c"
  "bulk_turns (refresh_samples c) = bulk_turns c"
  "bytes_total (refresh_samples c) = bytes_total c"
  "bytes_interactive (refresh_samples c) = bytes_interactive c"
  "bytes_bulk (refresh_samples c) = bytes_bulk c"
  "residency_hist (refresh_samples c) = residency_hist c"
  by (simp_all add: refresh_samples_def Let_def split: prod.splits)

lemma record_residency_simps [simp]:
  "active_items (record_residency c us) = active_items c"
  "bulk_depth_current (record_residency c us) = bulk_depth_current c"
  "interactive_depth_current (record_residency c us) = interactive_depth_current c"
  "rounds (record_residency c us) = rounds c"
  "interactive_turns (record_residency c us) = interactive_turns c"
  "bulk_turns (record_residency c us) = bulk_turns c"
  "bytes_total (record_residency c us) = bytes_total c"
  "bytes_interactive (record_residency c us) = bytes_interactive c"
  "bytes_bulk (record_residency c us) = bytes_bulk c"
  by (simp_all add: record_residency_def Let_def)

lemma below_bulk_cap: "\<not> (32768 :: 64 word) < d \<Longrightarrow> d \<le> 131072"
  by (rule order_trans [of _ 32768]) auto

lemma promote_to_bulk_inv:
  "bs_inv s \<Longrightarrow> bs_registered (fst s) \<Longrightarrow> bs_inv (promote_to_bulk s)"
  by (auto simp: promote_to_bulk_def bs_inv_defs bs_consts Let_def below_bulk_cap)

lemma promote_to_bulk_req [simp]:
  "bs_registered (fst (promote_to_bulk s)) = bs_registered (fst s)"
  "bs_bytes_observed (fst (promote_to_bulk s)) = bs_bytes_observed (fst s)"
  "bs_recent_wait_event (fst (promote_to_bulk s)) = bs_recent_wait_event (fst s)"
  "bs_lane_class (fst (promote_to_bulk s)) = LaneBulk"
  by (simp_all add: promote_to_bulk_def Let_def)

lemma promotion_steps_req [simp]:
  "bs_registered (fst (promote_by_bytes s)) = bs_registered (fst s)"
  "bs_registered (fst (promote_by_rounds s)) = bs_registered (fst s)"
  "bs_registered (fst (promote_by_residency us s)) = bs_registered (fst s)"
  "bs_bytes_observed (fst (promote_by_bytes s)) = bs_bytes_observed (fst s)"
  "bs_bytes_observed (fst (promote_by_rounds s)) = bs_bytes_observed (fst s)"
  "bs_bytes_observed (fst (promote_by_residency us s)) = bs_bytes_observed (fst s)"
  by (simp_all add: promote_by_bytes_def promote_by_rounds_def promote_by_residency_def Let_def)

text \<open>The flags and counters a promotion sets before moving the request do not matter.\<close>

lemma bs_inv_flags:
  "bs_inv (r\<lparr>bs_promoted_by_bytes := b\<rparr>, c\<lparr>items_promoted_by_bytes := n\<rparr>) = bs_inv (r, c)"
  "bs_inv (r\<lparr>bs_promoted_by_rounds := b\<rparr>, c\<lparr>items_promoted_by_rounds := n\<rparr>) = bs_inv (r, c)"
  "bs_inv (r\<lparr>bs_promoted_by_residency := b\<rparr>, c\<lparr>items_promoted_by_residency := n\<rparr>) = bs_inv (r, c)"
  by (simp_all add: bs_inv_defs Let_def)

lemma promotion_steps_inv:
  assumes "bs_inv s" "bs_registered (fst s)"
  shows "bs_inv (promote_by_bytes s)" "bs_inv (promote_by_rounds s)"
    "bs_inv (promote_by_residency us s)"
  using assms
  by (simp_all add: promote_by_bytes_def promote_by_rounds_def promote_by_residency_def Let_def
      promote_to_bulk_inv bs_inv_flags)

lemma update_promotions_inv: "bs_inv s \<Longrightarrow> bs_inv (update_promotions s)"
  by (simp add: update_promotions_def Let_def promotion_steps_inv)

lemma update_promotions_registered [simp]:
  "bs_registered (fst (update_promotions s)) = bs_registered (fst s)"
  by (simp add: update_promotions_def Let_def)

lemma note_request_inv: "bs_inv s \<Longrightarrow> bs_inv (note_request enabled now s)"
  by (auto simp: note_request_def bs_inv_defs bs_consts Let_def)

lemma refill_nonzero:
  "(d :: 64 word) < 262144 \<Longrightarrow> d + 65536 \<noteq> 0" "(d :: 64 word) < 131072 \<Longrightarrow> d + 32768 \<noteq> 0"
  by (auto simp: eq_neg_iff_add_eq_0 [symmetric])

lemma budget_refill_inv:
  assumes "bs_inv s" "bs_registered (fst s)" "quantum = lane_quantum (fst s)"
  shows "bs_inv (budget_refill quantum s)"
    "bs_registered (fst (budget_refill quantum s))"
    "bs_lane_class (fst (budget_refill quantum s)) = bs_lane_class (fst s)"
    "bs_deficit_bytes (fst (budget_refill quantum s)) \<noteq> 0"
  using assms
  by (auto simp: budget_refill_def bs_inv_defs bs_consts lane_quantum_def Let_def
      dest: refill_nonzero)

text \<open>Fields the invariant does not read.\<close>

lemma bs_inv_budget_fields [simp]:
  "bs_inv (r\<lparr>bs_last_budget_bytes := b\<rparr>, c) = bs_inv (r, c)"
  "bs_inv (r\<lparr>bs_last_budget_capped := k\<rparr>, c) = bs_inv (r, c)"
  "bs_inv (r\<lparr>bs_recent_wait_event := k\<rparr>, c) = bs_inv (r, c)"
  "bs_inv (r\<lparr>bs_marked_complete := k\<rparr>, c) = bs_inv (r, c)"
  "bs_inv (r\<lparr>bs_full_budget_turns := n\<rparr>, c) = bs_inv (r, c)"
  "bs_inv (r, c\<lparr>credit_granted_bytes := b\<rparr>) = bs_inv (r, c)"
  "bs_inv (r, c\<lparr>credit_unused_bytes := b\<rparr>) = bs_inv (r, c)"
  "bs_inv (r, c\<lparr>no_credit_skips := b\<rparr>) = bs_inv (r, c)"
  "bs_inv (r, c\<lparr>wait_relief_events := b\<rparr>) = bs_inv (r, c)"
  "bs_inv (r, c\<lparr>full_budget_turns := b\<rparr>) = bs_inv (r, c)"
  "bs_inv (r, c\<lparr>near_complete_fastfinishes := b\<rparr>) = bs_inv (r, c)"
  "bs_inv (r, c\<lparr>yield_hints := b\<rparr>) = bs_inv (r, c)"
  "bs_inv (r, c\<lparr>empty_read_events := b\<rparr>) = bs_inv (r, c)"
  "bs_inv (r, c\<lparr>eagain_events := b\<rparr>) = bs_inv (r, c)"
  by (simp_all add: bs_inv_defs Let_def)

text \<open>The state in which a budget is computed: registered, fields reset, promotions applied.\<close>

definition budget_start :: "bool \<Rightarrow> 64 word \<Rightarrow> body_state \<Rightarrow> body_state" where
  "budget_start enabled now s =
     (let s1 = note_request enabled now s
      in update_promotions
           ((fst s1)\<lparr>bs_last_budget_capped := False, bs_last_budget_bytes := 0\<rparr>, snd s1))"

lemma budget_start_inv: "bs_inv s \<Longrightarrow> bs_inv (budget_start enabled now s)"
  using note_request_inv [of s enabled now]
  by (cases "note_request enabled now s")
     (simp add: budget_start_def Let_def update_promotions_inv)

lemma budget_start_registered [simp]:
  "bs_registered (fst (budget_start enabled now s)) = bs_registered (fst (note_request enabled now s))"
  by (simp add: budget_start_def Let_def)

text \<open>The grant on each path, and the state's invariant.\<close>

lemma read_budget_scheduled:
  assumes "bs_inv s" "requested \<noteq> 0" "bs_registered (fst (note_request True now s))"
  shows "fst (read_budget True now requested s) \<noteq> 0"
    "fst (read_budget True now requested s) \<le> requested"
    "fst (read_budget True now requested s) \<le> deficit_cap (bs_lane_class (fst (snd (read_budget True now requested s))))"
    "bs_inv (snd (read_budget True now requested s))"
proof -
  let ?s2 = "budget_start True now s"
  let ?q = "lane_quantum (fst ?s2)"
  let ?s3 = "budget_refill ?q ?s2"
  have i2: "bs_inv ?s2" "bs_registered (fst ?s2)"
    using assms budget_start_inv by auto
  note i3 = budget_refill_inv [OF i2 refl]
  have d3: "bs_deficit_bytes (fst ?s3) \<le> deficit_cap (bs_lane_class (fst ?s3))"
    using i3(1,2) by (simp add: bs_inv_def deficit_inv_def)
  have q: "?q \<noteq> 0" "?q \<le> deficit_cap (bs_lane_class (fst ?s2))"
    by (auto simp: lane_quantum_def deficit_cap_def bs_consts)
  have g: "min requested (bs_deficit_bytes (fst ?s3)) \<noteq> 0"
    using assms(2) i3(4) by (simp add: min_def)
  have *: "read_budget True now requested s =
     (if bs_recent_wait_event (fst ?s2) then
        (min requested ?q, ((fst ?s2)\<lparr>bs_last_budget_bytes := min requested ?q\<rparr>,
            (snd ?s2)\<lparr>wait_relief_events := wait_relief_events (snd ?s2) + 1,
              credit_granted_bytes := credit_granted_bytes (snd ?s2) + min requested ?q\<rparr>))
      else (let grant = min requested (bs_deficit_bytes (fst ?s3));
              s5 = (if grant < requested
                        then ((fst ?s3)\<lparr>bs_last_budget_capped := True\<rparr>,
                              (snd ?s3)\<lparr>no_credit_skips := no_credit_skips (snd ?s3) + 1\<rparr>)
                        else ?s3)
            in (grant, ((fst s5)\<lparr>bs_last_budget_bytes := grant\<rparr>,
                          (snd s5)\<lparr>credit_granted_bytes := credit_granted_bytes (snd s5) + grant\<rparr>))))"
    using assms(2,3) g by (simp add: read_budget_def budget_start_def Let_def)
  show "fst (read_budget True now requested s) \<noteq> 0"
    using assms(2) q(1) g by (simp add: * Let_def min_def)
  show "fst (read_budget True now requested s) \<le> requested"
    by (simp add: * Let_def)
  show "fst (read_budget True now requested s) \<le> deficit_cap (bs_lane_class (fst (snd (read_budget True now requested s))))"
    using q(2) d3 i3(3) by (auto simp: * Let_def min_def intro: order_trans)
  show "bs_inv (snd (read_budget True now requested s))"
    using i2(1) i3(1) by (auto simp: * Let_def)
qed

lemma read_budget_inv: "bs_inv s \<Longrightarrow> bs_inv (snd (read_budget enabled now requested s))"
proof (cases "requested = 0 \<or> \<not> bs_registered (fst (note_request enabled now s)) \<or> \<not> enabled")
  case True
  assume "bs_inv s"
  with note_request_inv [of s enabled now] True show ?thesis
    by (cases "note_request enabled now s") (auto simp: read_budget_def Let_def)
next
  case False
  assume inv: "bs_inv s"
  from False have e: "enabled = True" and q: "requested \<noteq> 0"
    and reg: "bs_registered (fst (note_request True now s))" by auto
  show ?thesis unfolding e by (rule read_budget_scheduled(4) [OF inv q reg])
qed

lemma account_bytes_inv: "bs_inv s \<Longrightarrow> bs_inv (account_bytes now observed s)"
  by (auto simp: account_bytes_def bs_inv_defs Let_def algebra_simps)

lemma settle_credit_inv: "bs_inv s \<Longrightarrow> bs_inv (settle_credit enabled observed s)"
proof -
  have le: "d - b \<le> d" if "b \<le> d" for b d :: "64 word"
    using that by (simp add: word_le_nat_alt unat_sub)
  assume "bs_inv s"
  then show ?thesis
    by (auto simp: settle_credit_def bs_inv_defs Let_def intro: order_trans [OF le])
qed

lemma count_full_turn_inv: "bs_inv s \<Longrightarrow> bs_inv (count_full_turn full s)"
  by (simp add: count_full_turn_def)

lemma mark_complete_inv: "bs_inv s \<Longrightarrow> bs_inv (mark_complete b s)"
  by (simp add: mark_complete_def Let_def)

lemma yield_hint_inv: "bs_inv s \<Longrightarrow> bs_inv (yield_hint enabled full s)"
  by (simp add: yield_hint_def Let_def)

lemmas bs_part_invs = note_request_inv account_bytes_inv settle_credit_inv count_full_turn_inv
  update_promotions_inv mark_complete_inv yield_hint_inv

lemma note_bytes_inv: "bs_inv s \<Longrightarrow> bs_inv (note_bytes enabled now observed s)"
  by (simp add: note_bytes_def Let_def bs_part_invs)

lemma note_empty_read_inv: "bs_inv s \<Longrightarrow> bs_inv (note_empty_read enabled now s)"
  using note_request_inv [of s enabled now]
  by (cases "note_request enabled now s") (simp add: note_empty_read_def Let_def)

lemma note_eagain_inv: "bs_inv s \<Longrightarrow> bs_inv (note_eagain enabled now s)"
  using note_request_inv [of s enabled now]
  by (cases "note_request enabled now s") (simp add: note_eagain_def Let_def)

lemma note_chunked_complete_inv: "bs_inv s \<Longrightarrow> bs_inv (note_chunked_complete enabled now s)"
  using note_request_inv [of s enabled now]
  by (cases "note_request enabled now s") (simp add: note_chunked_complete_def Let_def)

lemma sched_finish_inv: "bs_inv s \<Longrightarrow> bs_inv (sched_finish now s)"
  by (auto simp: sched_finish_def bs_inv_defs Let_def)

lemmas bs_op_invs = note_request_inv read_budget_inv note_bytes_inv note_empty_read_inv
  note_eagain_inv note_chunked_complete_inv sched_finish_inv

lemma bs_step_inv: "bs_step enabled s t \<Longrightarrow> bs_inv s \<Longrightarrow> bs_inv t"
  by (induction rule: bs_step.induct) (auto intro: bs_op_invs)

lemma bs_run_inv: "bs_run enabled s t \<Longrightarrow> bs_inv s \<Longrightarrow> bs_inv t"
  by (induction rule: bs_run.induct) (auto intro: bs_step_inv)

section \<open>The contract of a read governor\<close>

text \<open>What a body reader relies on: a read that asks for room is granted some of it, never more,
  and every report keeps the governor consistent.\<close>

locale read_governor =
  fixes inv :: "'s \<Rightarrow> bool"
    and budget :: "64 word \<Rightarrow> 64 word \<Rightarrow> 's \<Rightarrow> 64 word \<times> 's"
    and got :: "64 word \<Rightarrow> 64 word \<Rightarrow> 's \<Rightarrow> 's"
    and empty :: "64 word \<Rightarrow> 's \<Rightarrow> 's"
    and again :: "64 word \<Rightarrow> 's \<Rightarrow> 's"
  assumes budget_pos: "inv s \<Longrightarrow> requested \<noteq> 0 \<Longrightarrow> fst (budget now requested s) \<noteq> 0"
    and budget_le: "inv s \<Longrightarrow> fst (budget now requested s) \<le> requested"
    and budget_inv: "inv s \<Longrightarrow> inv (snd (budget now requested s))"
    and got_inv: "inv s \<Longrightarrow> inv (got now n s)"
    and empty_inv: "inv s \<Longrightarrow> inv (empty now s)"
    and again_inv: "inv s \<Longrightarrow> inv (again now s)"
begin

text \<open>A governed read into \<open>room\<close> free bytes stays inside them, and takes something when
  something is there.\<close>

lemma governed_room:
  assumes "inv s" "room < 2 ^ 64"
  shows "unat (fst (budget now (of_nat room) s)) \<le> room"
  using budget_le [OF assms(1), of now "of_nat room"] unat_of_nat_small [of room, where 'a = 64] assms(2)
  by (simp add: word_le_nat_alt)

lemma governed_progress:
  assumes "inv s" "0 < room" "room < 2 ^ 64"
  shows "0 < unat (fst (budget now (of_nat room) s))"
proof -
  have "of_nat room \<noteq> (0 :: 64 word)"
    using unat_of_nat_small [of room, where 'a = 64] assms(2,3) by (auto simp: unat_eq_0 [symmetric])
  then show ?thesis using budget_pos [OF assms(1)] by (simp add: unat_gt_0)
qed

end

lemma read_budget_grant:
  assumes "bs_inv s"
  shows "requested \<noteq> 0 \<Longrightarrow> fst (read_budget enabled now requested s) \<noteq> 0"
    "fst (read_budget enabled now requested s) \<le> requested"
proof -
  have "(requested \<noteq> 0 \<longrightarrow> fst (read_budget enabled now requested s) \<noteq> 0) \<and>
    fst (read_budget enabled now requested s) \<le> requested"
  proof (cases "requested = 0 \<or> \<not> enabled \<or> \<not> bs_registered (fst (note_request enabled now s))")
    case True
    then show ?thesis by (auto simp: read_budget_def Let_def)
  next
    case False
    then have e: "enabled = True" and q: "requested \<noteq> 0"
      and reg: "bs_registered (fst (note_request True now s))" by auto
    show ?thesis
      unfolding e using read_budget_scheduled(1,2) [OF assms q reg] by blast
  qed
  then show "requested \<noteq> 0 \<Longrightarrow> fst (read_budget enabled now requested s) \<noteq> 0"
    "fst (read_budget enabled now requested s) \<le> requested" by blast+
qed

interpretation bs: read_governor bs_inv "read_budget enabled" "note_bytes enabled"
    "note_empty_read enabled" "note_eagain enabled" for enabled
  by unfold_locales (simp_all add: read_budget_grant bs_op_invs)

section \<open>Reachable states\<close>

text \<open>A request as the parser leaves it, on a core that has served nothing yet.\<close>

definition fresh_req :: "64 word \<Rightarrow> bool \<Rightarrow> body_req" where
  "fresh_req cl chunked =
     \<lparr>post_cl = cl, body_is_chunked = chunked, bs_started_at_us = 0, bs_last_service_us = 0,
      bs_bytes_observed = 0, bs_deficit_bytes = 0, bs_last_budget_bytes = 0,
      bs_rounds_observed = 0, bs_full_budget_turns = 0, bs_registered = False,
      bs_lane_class = LaneNone, bs_promoted_by_bytes = False, bs_promoted_by_rounds = False,
      bs_promoted_by_residency = False, bs_marked_complete = False,
      bs_last_budget_capped = False, bs_disabled_fallback_noted = False,
      bs_recent_wait_event = False\<rparr>"

definition fresh_core :: body_core where
  "fresh_core =
     \<lparr>rounds = 0, interactive_turns = 0, bulk_turns = 0, requeues = 0, promotions_to_bulk = 0,
      no_credit_skips = 0, empty_read_events = 0, eagain_events = 0, completed_items = 0,
      bytes_interactive = 0, bytes_bulk = 0, bytes_total = 0, credit_granted_bytes = 0,
      credit_unused_bytes = 0, active_items = 0, interactive_depth_max = 0, bulk_depth_max = 0,
      residency_us_max = 0, residency_us_p50_sample = 0, residency_us_p95_sample = 0,
      items_promoted_by_bytes = 0, items_promoted_by_rounds = 0, items_promoted_by_residency = 0,
      near_complete_fastfinishes = 0, overflow_protection_hits = 0, disabled_fallbacks = 0,
      full_budget_turns = 0, wait_relief_events = 0, yield_hints = 0,
      interactive_depth_current = 0, bulk_depth_current = 0, residency_hist = replicate 16 0\<rparr>"

lemma fresh_inv: "bs_inv (fresh_req cl chunked, fresh_core)"
  by (simp add: bs_inv_defs fresh_req_def fresh_core_def Let_def)

text \<open>C15: after any sequence of scheduler calls, with any clock and any read sizes, a registered
  request is counted exactly once as active and exactly once in the lane it is in, nothing is
  counted when no request is registered, and the per-lane turn and byte counters add up to the
  totals.\<close>

theorem body_sched_accounting:
  assumes "bs_run enabled (fresh_req cl chunked, fresh_core) (r, c)"
  shows "active_items c = (if bs_registered r then 1 else 0) \<and>
    interactive_depth_current c = (if bs_registered r \<and> bs_lane_class r = LaneInteractive then 1 else 0) \<and>
    bulk_depth_current c = (if bs_registered r \<and> bs_lane_class r = LaneBulk then 1 else 0) \<and>
    rounds c = interactive_turns c + bulk_turns c \<and>
    bytes_total c = bytes_interactive c + bytes_bulk c"
  using bs_run_inv [OF assms fresh_inv] by (auto simp: bs_inv_defs Let_def split: if_splits)

definition bs_example :: body_state where
  "bs_example = note_request True 7 (fresh_req 10 False, fresh_core)"

lemma bs_example_run: "bs_run True (fresh_req 10 False, fresh_core) bs_example"
  unfolding bs_example_def by (intro run_step [OF run_refl] step_request)

lemma bs_example_registered: "bs_registered (fst bs_example)"
  by (simp add: bs_example_def note_request_def fresh_req_def Let_def)

theorem body_sched_accounting_witness:
  "bs_run True (fresh_req 10 False, fresh_core) (fst bs_example, snd bs_example) \<and>
   active_items (snd bs_example) = 1"
proof -
  have run: "bs_run True (fresh_req 10 False, fresh_core) (fst bs_example, snd bs_example)"
    using bs_example_run by simp
  from body_sched_accounting [OF run] bs_example_registered run show ?thesis by simp
qed

lemma deficit_cap_simps:
  "deficit_cap LaneBulk = 131072" "l \<noteq> LaneBulk \<Longrightarrow> deficit_cap l = 262144"
  by (simp_all add: deficit_cap_def bs_consts)

text \<open>C23: in every reachable state a read that asks for something is granted something, and never
  more than it asked for; with the scheduler on and a body expected, one turn is bounded by
  128 KiB in the bulk lane and 256 KiB otherwise, so no upload can starve and none can take a
  worker for an unbounded turn.\<close>

theorem body_sched_budget_bounds:
  assumes "bs_run enabled (fresh_req cl chunked, fresh_core) s" "requested \<noteq> 0"
  shows "case read_budget enabled now requested s of (grant, r, c) \<Rightarrow>
      0 < grant \<and> grant \<le> requested \<and>
      (enabled \<and> bs_registered r \<longrightarrow>
         grant \<le> (if bs_lane_class r = LaneBulk then 131072 else 262144))"
proof -
  have inv: "bs_inv s" by (rule bs_run_inv [OF assms(1) fresh_inv])
  show ?thesis
  proof (cases "enabled \<and> bs_registered (fst (note_request enabled now s))")
    case True
    then have e: "enabled" and reg: "bs_registered (fst (note_request True now s))" by auto
    note b = read_budget_scheduled [OF inv assms(2) reg]
    obtain g r c where rb: "read_budget True now requested s = (g, r, c)"
      by (cases "read_budget True now requested s") auto
    from b(1,2,3) have "0 < g" "g \<le> requested" "g \<le> deficit_cap (bs_lane_class r)"
      by (auto simp: rb word_neq_0_conv)
    with e show ?thesis by (auto simp: rb deficit_cap_simps)
  next
    case False
    with assms(2) show ?thesis by (auto simp: read_budget_def Let_def word_neq_0_conv)
  qed
qed

theorem body_sched_budget_bounds_witness:
  "case read_budget True 9 1000000 bs_example of (grant, r, c) \<Rightarrow>
     0 < grant \<and> grant \<le> 1000000 \<and>
     (True \<and> bs_registered r \<longrightarrow>
        grant \<le> (if bs_lane_class r = LaneBulk then 131072 else 262144))"
  by (rule body_sched_budget_bounds [OF bs_example_run]) simp

section \<open>Lane changes\<close>

lemma promotion_steps_lane:
  "bs_lane_class (fst s) = LaneBulk \<Longrightarrow> bs_lane_class (fst (promote_by_bytes s)) = LaneBulk"
  "bs_lane_class (fst s) = LaneBulk \<Longrightarrow> bs_lane_class (fst (promote_by_rounds s)) = LaneBulk"
  "bs_lane_class (fst s) = LaneBulk \<Longrightarrow> bs_lane_class (fst (promote_by_residency us s)) = LaneBulk"
  "bs_lane_class (fst (promote_by_bytes s)) = LaneBulk \<Longrightarrow>
     bs_lane_class (fst s) = LaneBulk \<or> PROMOTION_MIN_BYTES \<le> bs_bytes_observed (fst s)"
  "bs_lane_class (fst (promote_by_rounds s)) = LaneBulk \<Longrightarrow>
     bs_lane_class (fst s) = LaneBulk \<or> PROMOTION_MIN_BYTES \<le> bs_bytes_observed (fst s)"
  "bs_lane_class (fst (promote_by_residency us s)) = LaneBulk \<Longrightarrow>
     bs_lane_class (fst s) = LaneBulk \<or> PROMOTION_MIN_BYTES \<le> bs_bytes_observed (fst s)"
  by (auto simp: promote_by_bytes_def promote_by_rounds_def promote_by_residency_def bs_consts Let_def
      intro: order_trans [of "65536 :: 64 word" 262144] split: if_splits)

lemma update_promotions_lane:
  "bs_lane_class (fst s) = LaneBulk \<Longrightarrow> bs_lane_class (fst (update_promotions s)) = LaneBulk"
  "bs_lane_class (fst (update_promotions s)) = LaneBulk \<Longrightarrow>
     bs_lane_class (fst s) = LaneBulk \<or> PROMOTION_MIN_BYTES \<le> bs_bytes_observed (fst s)"
  by (auto simp: update_promotions_def Let_def promotion_steps_lane(1-3)
      dest!: promotion_steps_lane(4-6) split: if_splits)

lemma update_promotions_bytes [simp]:
  "bs_bytes_observed (fst (update_promotions s)) = bs_bytes_observed (fst s)"
  by (simp add: update_promotions_def Let_def)

lemma note_bytes_frames [simp]:
  "bs_lane_class (fst (account_bytes now b s)) = bs_lane_class (fst s)"
  "bs_lane_class (fst (settle_credit e b s)) = bs_lane_class (fst s)"
  "bs_lane_class (fst (count_full_turn f s)) = bs_lane_class (fst s)"
  "bs_lane_class (fst (mark_complete b s)) = bs_lane_class (fst s)"
  "bs_lane_class (fst (yield_hint e f s)) = bs_lane_class (fst s)"
  "bs_bytes_observed (fst (account_bytes now b s)) = bs_bytes_observed (fst s) + b"
  "bs_bytes_observed (fst (settle_credit e b s)) = bs_bytes_observed (fst s)"
  "bs_bytes_observed (fst (count_full_turn f s)) = bs_bytes_observed (fst s)"
  "bs_bytes_observed (fst (mark_complete b s)) = bs_bytes_observed (fst s)"
  "bs_bytes_observed (fst (yield_hint e f s)) = bs_bytes_observed (fst s)"
  by (simp_all add: account_bytes_def settle_credit_def count_full_turn_def mark_complete_def
      yield_hint_def Let_def)

lemma budget_refill_frames [simp]:
  "bs_lane_class (fst (budget_refill q s)) = bs_lane_class (fst s)"
  "bs_bytes_observed (fst (budget_refill q s)) = bs_bytes_observed (fst s)"
  by (simp_all add: budget_refill_def Let_def)

lemma note_request_registered: "bs_registered (fst s) \<Longrightarrow> note_request enabled now s = s"
  by (simp add: note_request_def Let_def)

lemma note_bytes_part_registered [simp]:
  "bs_registered (fst (account_bytes now b s)) = bs_registered (fst s)"
  "bs_registered (fst (settle_credit e b s)) = bs_registered (fst s)"
  "bs_registered (fst (count_full_turn f s)) = bs_registered (fst s)"
  "bs_registered (fst (mark_complete b s)) = bs_registered (fst s)"
  "bs_registered (fst (yield_hint e f s)) = bs_registered (fst s)"
  "bs_registered (fst (update_promotions s)) = bs_registered (fst s)"
  by (simp_all add: account_bytes_def settle_credit_def count_full_turn_def mark_complete_def
      yield_hint_def update_promotions_def Let_def)

lemma note_bytes_registered:
  "bs_registered (fst s) \<Longrightarrow> bs_registered (fst (note_bytes enabled now observed s))"
  by (simp add: note_bytes_def note_request_registered Let_def)

lemma read_budget_lane:
  assumes "bs_registered (fst s)" "requested \<noteq> 0" "enabled"
  shows "bs_lane_class (fst (snd (read_budget enabled now requested s))) =
      bs_lane_class (fst (budget_start enabled now s))"
    "bs_bytes_observed (fst (snd (read_budget enabled now requested s))) = bs_bytes_observed (fst s)"
  using assms
  by (simp_all add: read_budget_def budget_start_def note_request_registered Let_def)

text \<open>while a request stays registered, no scheduler call takes it out of the bulk lane, and
  none moves it there before at least 64 KiB of its body have been read.\<close>

theorem body_sched_lane_changes:
  assumes "bs_step enabled s t" "bs_registered (fst s)" "bs_registered (fst t)"
  shows "(bs_lane_class (fst s) = LaneBulk \<longrightarrow> bs_lane_class (fst t) = LaneBulk) \<and>
    (bs_lane_class (fst s) \<noteq> LaneBulk \<and> bs_lane_class (fst t) = LaneBulk \<longrightarrow>
       65536 \<le> bs_bytes_observed (fst t))"
  using assms
proof (induction rule: bs_step.induct)
  case (step_budget s now requested)
  show ?case
  proof (cases "requested \<noteq> 0 \<and> enabled")
    case True
    with step_budget read_budget_lane [of s requested enabled now]
      update_promotions_lane [of "((fst s)\<lparr>bs_last_budget_capped := False, bs_last_budget_bytes := 0\<rparr>, snd s)"]
    show ?thesis
      by (auto simp: budget_start_def note_request_registered PROMOTION_MIN_BYTES_def Let_def)
  next
    case False
    with step_budget show ?thesis
      by (auto simp: read_budget_def note_request_registered Let_def)
  qed
next
  case (step_bytes s now observed)
  then show ?case
    by (auto simp: note_bytes_def note_request_registered Let_def PROMOTION_MIN_BYTES_def
        update_promotions_lane(1) dest!: update_promotions_lane(2))
qed (auto simp: note_request_registered note_empty_read_def note_eagain_def
      note_chunked_complete_def sched_finish_def Let_def)

lemma bs_example_eagain:
  "bs_registered (fst (note_eagain True 20 bs_example))" "bs_lane_class (fst bs_example) \<noteq> LaneBulk"
  "bs_bytes_observed (fst (note_eagain True 20 bs_example)) = 0"
  using bs_example_registered
  by (simp_all add: note_eagain_def note_request_registered Let_def)
    (simp_all add: bs_example_def note_request_def fresh_req_def Let_def)

theorem body_sched_lane_changes_witness:
  "bs_step True bs_example (note_eagain True 20 bs_example) \<and>
   bs_lane_class (fst (note_eagain True 20 bs_example)) \<noteq> LaneBulk"
proof -
  have st: "bs_step True bs_example (note_eagain True 20 bs_example)" by (rule step_eagain)
  from body_sched_lane_changes [OF st bs_example_registered bs_example_eagain(1)] bs_example_eagain(2,3) st
  show ?thesis by auto
qed

end
