(* ===== verification/Upsgi_Chunked.thy ===== *)
theory Upsgi_Chunked
  imports Upsgi_ProtoBase Upsgi_BodySched
begin

text \<open>
  The reader of chunked request bodies, \<open>core/chunked.c\<close>.  \<open>chunk_req\<close> holds the parser's fields
  of \<open>struct wsgi_request\<close>, the bytes the header parser read ahead, the script of what \<open>read\<close>
  and the wait hook answer, and the state of the body scheduler, which every read consults
  (\<open>recv_once\<close>).  Each round of the loop of \<open>upsgi_chunked_read\<close> is \<open>chunk_iter\<close>; the loop ends
  because each round consumes input or leaves the parser waiting for input (\<open>chunk_rank\<close>).
  The statuses 0, 1 and 2 of the source are \<open>WaitLine\<close>, \<open>WaitBody\<close> and \<open>WaitFinal\<close>.  A result
  \<open>CGot d\<close> stands for the returned pointer with its length: the first bytes of the buffer.
\<close>

datatype chunk_status = WaitLine | WaitBody | WaitFinal

record chunk_cfg =
  cc_env :: mem_env
  cc_limit :: nat
  cc_sched_on :: bool
  cc_clock :: "nat \<Rightarrow> 64 word"

record chunk_req =
  chunked_input_buf :: "upsgi_buffer option"
  chunked_input_chunk_len :: int
  chunked_input_need :: nat
  chunked_input_parser_status :: chunk_status
  chunked_input_decapitate :: nat
  chunked_input_complete :: bool
  body_chunked_buf :: "upsgi_buffer option"
  cr_remains :: "char list"
  cr_reads :: "read_ev list"
  cr_waits :: "int list"
  cr_sched :: body_state
  cr_ticks :: nat

abbreviation CRLF :: "char list" where
  "CRLF \<equiv> [CHR 0x0D, CHR 0x0A]"

section \<open>Receiving\<close>

datatype recv_ret = RecvGot nat | RecvNone | RecvAgain | RecvFault

text \<open>Ask for a budget, read, report.  The bytes land at \<open>buf + pos\<close>; \<open>pos\<close> is moved later.\<close>

definition recv_once ::
    "chunk_cfg \<Rightarrow> upsgi_buffer \<Rightarrow> chunk_req \<Rightarrow> recv_ret \<times> upsgi_buffer \<times> chunk_req" where
  "recv_once cfg ub r =
     (let t = cr_ticks r; on = cc_sched_on cfg;
          room = size_sub (ub_len ub) (ub_pos ub);
          (grant, s1) = read_budget on (cc_clock cfg t) (of_nat room) (cr_sched r);
          (ret, rem', evs') = upsgi_proto_base_read_body (unat grant) (cr_remains r) (cr_reads r);
          r1 = r\<lparr>cr_remains := rem', cr_reads := evs', cr_ticks := t + 2\<rparr>
      in case ret of
           Got d \<Rightarrow>
             (if d = [] then
                (RecvNone, ub, r1\<lparr>cr_sched := note_empty_read on (cc_clock cfg (t + 1)) s1\<rparr>)
              else
                (case ub_memcpy ub (ub_pos ub) d of
                   Ok u \<Rightarrow> (RecvGot (length d), u,
                            r1\<lparr>cr_sched := note_bytes on (cc_clock cfg (t + 1)) (of_nat (length d)) s1\<rparr>)
                 | _ \<Rightarrow> (RecvFault, ub, r1)))
         | WouldBlock \<Rightarrow>
             (RecvAgain, ub, r1\<lparr>cr_sched := note_eagain on (cc_clock cfg (t + 1)) s1\<rparr>)
         | ReadFail \<Rightarrow> (RecvNone, ub, r1\<lparr>cr_sched := s1\<rparr>))"

text \<open>The \<open>wait:\<close> part: the hook answers 0 (timeout) when its script is used up.\<close>

fun recv_wait ::
    "chunk_cfg \<Rightarrow> bool \<Rightarrow> int list \<Rightarrow> upsgi_buffer \<Rightarrow> chunk_req \<Rightarrow> recv_ret \<times> upsgi_buffer \<times> chunk_req" where
  "recv_wait cfg nb [] ub r = (RecvNone, ub, r\<lparr>cr_waits := []\<rparr>)"
| "recv_wait cfg nb (w # ws) ub r =
     (if w > 0 then
        (case recv_once cfg ub (r\<lparr>cr_waits := ws\<rparr>) of (ret, ub', r') \<Rightarrow>
           if ret = RecvAgain then (if nb then (RecvNone, ub', r') else recv_wait cfg nb ws ub' r')
           else (ret, ub', r'))
      else (RecvNone, ub, r\<lparr>cr_waits := ws\<rparr>))"

definition upsgi_chunked_input_recv ::
    "chunk_cfg \<Rightarrow> bool \<Rightarrow> upsgi_buffer \<Rightarrow> chunk_req \<Rightarrow> recv_ret \<times> upsgi_buffer \<times> chunk_req" where
  "upsgi_chunked_input_recv cfg nb ub r =
     (case recv_once cfg ub r of (ret, ub', r') \<Rightarrow>
        if ret = RecvAgain then
          (if nb then (RecvNone, ub', r') else recv_wait cfg nb (cr_waits r') ub' r')
        else (ret, ub', r'))"

section \<open>Parsing\<close>

definition upsgi_chunked_require_crlf :: "upsgi_buffer \<Rightarrow> nat \<Rightarrow> bool option" where
  "upsgi_chunked_require_crlf ub chunk_len =
     (if chunk_len + 1 < ub_len ub
      then Some (ub_buf ub ! chunk_len = CHR 0x0D \<and> ub_buf ub ! (chunk_len + 1) = CHR 0x0A)
      else None)"

datatype parse_ret = PContinue | PNull | PLen nat | PFault

definition upsgi_chunked_require_final_crlf ::
    "upsgi_buffer \<Rightarrow> chunk_req \<Rightarrow> parse_ret \<times> upsgi_buffer \<times> chunk_req" where
  "upsgi_chunked_require_final_crlf ub r =
     (if ub_pos ub < 2 then
        (PContinue, ub, r\<lparr>chunked_input_need := 2 - ub_pos ub, chunked_input_parser_status := WaitFinal\<rparr>)
      else if ub_len ub < 2 then (PFault, ub, r)
      else if ub_buf ub ! 0 \<noteq> CHR 0x0D \<or> ub_buf ub ! 1 \<noteq> CHR 0x0A then (PNull, ub, r)
      else (case upsgi_buffer_decapitate ub 2 of
              Ok u \<Rightarrow> (PLen 0, u, r\<lparr>chunked_input_need := 0, chunked_input_parser_status := WaitLine,
                                     chunked_input_complete := True\<rparr>)
            | Err u \<Rightarrow> (PNull, u, r)
            | Fault \<Rightarrow> (PFault, ub, r)))"

text \<open>The scan of the size line: the index of its line feed, more input needed, or malformed.\<close>

datatype line_ret = LineEnd nat | LineMore | LineBad

fun readline_scan :: "char list \<Rightarrow> nat \<Rightarrow> bool \<Rightarrow> line_ret" where
  "readline_scan [] i found = LineMore"
| "readline_scan (c # cs) i found =
     (if found then (if c = CHR 0x0A then LineEnd i else LineBad)
      else if is_xdigit c then readline_scan cs (i + 1) False
      else if c = CHR 0x0D then readline_scan cs (i + 1) True
      else LineBad)"

text \<open>\<open>strtoul(..., 16)\<close> on a text that starts with the digits of the line: it saturates at
  \<open>ULONG_MAX\<close>.  The value is then returned as a \<open>ssize_t\<close>.\<close>

definition strtoul16 :: "char list \<Rightarrow> nat" where
  "strtoul16 s = min (hex_val 0 (takeWhile is_xdigit s)) (2 ^ 64 - 1)"

definition ssize :: "nat \<Rightarrow> int" where
  "ssize n = (if n < 2 ^ 63 then int n else int n - 2 ^ 64)"

definition upsgi_chunked_readline :: "upsgi_buffer \<Rightarrow> (int \<times> upsgi_buffer) option" where
  "upsgi_chunked_readline ub =
     (if ub_pos ub > ub_len ub then None
      else (case readline_scan (ub_content ub) 0 False of
              LineEnd i \<Rightarrow>
                (case upsgi_buffer_decapitate ub (i + 1) of
                   Ok u \<Rightarrow> Some (ssize (strtoul16 (ub_content ub)), u)
                 | Err u \<Rightarrow> Some (-1, u)
                 | Fault \<Rightarrow> None)
            | LineMore \<Rightarrow> Some (-2, ub)
            | LineBad \<Rightarrow> Some (-1, ub)))"

text \<open>The body of a chunk and its terminator (the common end of the cases 0 and 1); the sum
  \<open>chunk_len + 2\<close> is compared as a \<open>size_t\<close>.\<close>

definition chunk_body :: "upsgi_buffer \<Rightarrow> chunk_req \<Rightarrow> parse_ret \<times> upsgi_buffer \<times> chunk_req" where
  "chunk_body ub r =
     (let n = nat (chunked_input_chunk_len r) in
      if n + 2 > ub_pos ub then
        (PContinue, ub, r\<lparr>chunked_input_need := n + 2 - ub_pos ub, chunked_input_parser_status := WaitBody\<rparr>)
      else (case upsgi_chunked_require_crlf ub n of
              None \<Rightarrow> (PFault, ub, r)
            | Some ok \<Rightarrow>
                if \<not> ok then (PNull, ub, r)
                else (PLen n, ub, r\<lparr>chunked_input_decapitate := n + 2,
                                    chunked_input_parser_status := WaitLine\<rparr>)))"

definition chunk_parse :: "upsgi_buffer \<Rightarrow> chunk_req \<Rightarrow> parse_ret \<times> upsgi_buffer \<times> chunk_req" where
  "chunk_parse ub r =
     (case chunked_input_parser_status r of
        WaitLine \<Rightarrow>
          (case upsgi_chunked_readline ub of
             None \<Rightarrow> (PFault, ub, r)
           | Some (n, u) \<Rightarrow>
               (let r1 = r\<lparr>chunked_input_chunk_len := n\<rparr> in
                if n = -2 then (PContinue, u, r1\<lparr>chunked_input_need := chunked_input_need r1 + 1\<rparr>)
                else if n < 0 then (PNull, u, r1)
                else if n = 0 then upsgi_chunked_require_final_crlf u r1
                else chunk_body u r1))
      | WaitBody \<Rightarrow> chunk_body ub r
      | WaitFinal \<Rightarrow> upsgi_chunked_require_final_crlf ub r)"

section \<open>The loop\<close>

datatype cget = CNull | CFault | CGot "char list"

datatype iter_ret = Continue upsgi_buffer chunk_req | Return cget upsgi_buffer chunk_req

definition chunk_after_read :: "upsgi_buffer \<Rightarrow> chunk_req \<Rightarrow> iter_ret" where
  "chunk_after_read ub r =
     (if chunked_input_need r > 0 then Continue ub r
      else if ub_pos ub > 0 then
        (case chunk_parse ub r of (ret, u, r1) \<Rightarrow>
           (case ret of
              PContinue \<Rightarrow> Continue u r1
            | PNull \<Rightarrow> Return CNull u r1
            | PLen n \<Rightarrow> Return (CGot (take n (ub_buf u))) u r1
            | PFault \<Rightarrow> Return CFault u r1))
      else Continue ub r)"

definition chunk_iter :: "chunk_cfg \<Rightarrow> bool \<Rightarrow> upsgi_buffer \<Rightarrow> chunk_req \<Rightarrow> iter_ret" where
  "chunk_iter cfg nb ub r =
     (if chunked_input_need r > 0 \<or> ub_pos ub = 0 then
        (case upsgi_buffer_ensure (cc_env cfg) ub (max (page_size (cc_env cfg)) (chunked_input_need r)) of
           Ok u \<Rightarrow>
             (case upsgi_chunked_input_recv cfg nb u r of (ret, u1, r1) \<Rightarrow>
                (case ret of
                   RecvGot rlen \<Rightarrow>
                     chunk_after_read (u1\<lparr>ub_pos := ub_pos u1 + rlen\<rparr>)
                       (r1\<lparr>chunked_input_need := chunked_input_need r1 - rlen\<rparr>)
                 | RecvFault \<Rightarrow> Return CFault u1 r1
                 | _ \<Rightarrow> Return CNull u1 r1))
         | Err u \<Rightarrow> Return CNull u r
         | Fault \<Rightarrow> Return CFault ub r)
      else chunk_after_read ub r)"

text \<open>Input that can still arrive, and the rank of a loop state.\<close>

definition io_size :: "chunk_req \<Rightarrow> nat" where
  "io_size r = length (cr_remains r) + sum_list (map (\<lambda>ev. 1 + length (ev_data ev)) (cr_reads r))"

definition chunk_rank :: "upsgi_buffer \<Rightarrow> chunk_req \<Rightarrow> nat" where
  "chunk_rank ub r =
     2 * io_size r + (if chunked_input_need r = 0 \<and> ub_pos ub \<noteq> 0 then 1 else 0)"

lemma sock_read_size:
  "sock_read n evs = (ret, evs') \<Longrightarrow>
   sum_list (map (\<lambda>ev. 1 + length (ev_data ev)) evs') + (case ret of Got d \<Rightarrow> length d | _ \<Rightarrow> 0) \<le>
   sum_list (map (\<lambda>ev. 1 + length (ev_data ev)) evs)"
  by (cases "(n, evs)" rule: sock_read.cases) (auto split: if_splits)

lemma read_body_size:
  assumes "upsgi_proto_base_read_body n (cr_remains r) (cr_reads r) = (ret, rem', evs')"
  shows "io_size (r\<lparr>cr_remains := rem', cr_reads := evs'\<rparr>) +
     (case ret of Got d \<Rightarrow> length d | _ \<Rightarrow> 0) \<le> io_size r"
  using assms sock_read_size [of n "cr_reads r"]
  by (auto simp: upsgi_proto_base_read_body_def io_size_def split: if_splits prod.splits)

lemma io_size_frame [simp]:
  "io_size (r\<lparr>cr_sched := s\<rparr>) = io_size r"
  "io_size (r\<lparr>cr_ticks := t\<rparr>) = io_size r"
  "io_size (r\<lparr>cr_waits := w\<rparr>) = io_size r"
  "io_size (r\<lparr>chunked_input_need := n\<rparr>) = io_size r"
  "io_size (r\<lparr>chunked_input_parser_status := st\<rparr>) = io_size r"
  "io_size (r\<lparr>chunked_input_chunk_len := l\<rparr>) = io_size r"
  "io_size (r\<lparr>chunked_input_decapitate := n\<rparr>) = io_size r"
  "io_size (r\<lparr>chunked_input_complete := b\<rparr>) = io_size r"
  by (simp_all add: io_size_def)

text \<open>What a receive does to the rest of the state.\<close>

lemma recv_once_size:
  assumes "recv_once cfg ub r = (ret, u, r1)"
  shows "io_size r1 + (case ret of RecvGot n \<Rightarrow> n | _ \<Rightarrow> 0) \<le> io_size r"
    "ret = RecvGot n \<Longrightarrow> 0 < n"
proof -
  obtain g s1 where b: "read_budget (cc_sched_on cfg) (cc_clock cfg (cr_ticks r))
      (of_nat (size_sub (ub_len ub) (ub_pos ub))) (cr_sched r) = (g, s1)" by (metis surj_pair)
  obtain q rem' evs' where q: "upsgi_proto_base_read_body (unat g) (cr_remains r) (cr_reads r) = (q, rem', evs')"
    using prod_cases3 by blast
  show "io_size r1 + (case ret of RecvGot n \<Rightarrow> n | _ \<Rightarrow> 0) \<le> io_size r"
    "ret = RecvGot n \<Longrightarrow> 0 < n"
    using assms read_body_size [OF q]
    by (auto simp: recv_once_def b q Let_def split: read_ret.splits if_splits c_result.splits)
qed

lemma recv_wait_size:
  "recv_wait cfg nb ws ub r = (ret, u, r1) \<Longrightarrow>
   io_size r1 + (case ret of RecvGot n \<Rightarrow> n | _ \<Rightarrow> 0) \<le> io_size r \<and> (\<forall>n. ret = RecvGot n \<longrightarrow> 0 < n)"
proof (induction cfg nb ws ub r arbitrary: ret u r1 rule: recv_wait.induct)
  case (2 cfg nb w ws ub r)
  obtain q u' r' where q: "recv_once cfg ub (r\<lparr>cr_waits := ws\<rparr>) = (q, u', r')" using prod_cases3 by blast
  note s = recv_once_size [OF q]
  show ?case
  proof (cases "w > 0 \<and> q = RecvAgain \<and> \<not> nb")
    case True
    with 2 q have "io_size r1 + (case ret of RecvGot n \<Rightarrow> n | _ \<Rightarrow> 0) \<le> io_size r' \<and>
        (\<forall>n. ret = RecvGot n \<longrightarrow> 0 < n)" by auto
    with s True show ?thesis by auto
  next
    case False
    with 2(2) q s show ?thesis by (auto split: if_splits)
  qed
qed auto

lemma recv_size:
  assumes "upsgi_chunked_input_recv cfg nb ub r = (RecvGot n, u, r1)"
  shows "io_size r1 + n \<le> io_size r" "0 < n"
proof -
  obtain q u' r' where q: "recv_once cfg ub r = (q, u', r')" using prod_cases3 by blast
  have "io_size r1 + n \<le> io_size r \<and> 0 < n"
  proof (cases "q = RecvAgain \<and> \<not> nb")
    case True
    with assms q have "recv_wait cfg nb (cr_waits r') u' r' = (RecvGot n, u, r1)"
      by (simp add: upsgi_chunked_input_recv_def)
    from recv_wait_size [OF this] recv_once_size(1) [OF q] show ?thesis by (auto split: recv_ret.splits)
  next
    case False
    with assms q recv_once_size [OF q] show ?thesis
      by (auto simp: upsgi_chunked_input_recv_def split: if_splits)
  qed
  then show "io_size r1 + n \<le> io_size r" "0 < n" by auto
qed

lemma chunk_parse_continue:
  assumes "chunk_parse ub r = (PContinue, u, r1)"
  shows "chunked_input_need r1 > 0" "io_size r1 = io_size r"
  using assms
  by (auto simp: chunk_parse_def chunk_body_def upsgi_chunked_require_final_crlf_def Let_def
      split: chunk_status.splits option.splits prod.splits if_splits c_result.splits)

lemma chunk_after_read_rank:
  assumes "chunk_after_read ub r = Continue u r1"
  shows "io_size r1 = io_size r" "chunk_rank u r1 = 2 * io_size r"
  using assms chunk_parse_continue
  by (auto simp: chunk_after_read_def chunk_rank_def split: if_splits prod.splits parse_ret.splits)

lemma chunk_iter_rank:
  assumes "chunk_iter cfg nb ub r = Continue u r1"
  shows "chunk_rank u r1 < chunk_rank ub r"
proof (cases "chunked_input_need r > 0 \<or> ub_pos ub = 0")
  case True
  with assms obtain v n v1 r' where
    rc: "upsgi_chunked_input_recv cfg nb v r = (RecvGot n, v1, r')" and
    ar: "chunk_after_read (v1\<lparr>ub_pos := ub_pos v1 + n\<rparr>)
       (r'\<lparr>chunked_input_need := chunked_input_need r' - n\<rparr>) = Continue u r1"
    by (auto simp: chunk_iter_def split: c_result.splits prod.splits recv_ret.splits)
  from recv_size [OF rc] chunk_after_read_rank(2) [OF ar] show ?thesis
    by (simp add: chunk_rank_def)
next
  case False
  with assms chunk_after_read_rank(2) [of ub r u r1] show ?thesis
    by (auto simp: chunk_iter_def chunk_rank_def)
qed

function chunked_loop :: "chunk_cfg \<Rightarrow> bool \<Rightarrow> upsgi_buffer \<Rightarrow> chunk_req \<Rightarrow> cget \<times> upsgi_buffer \<times> chunk_req" where
  "chunked_loop cfg nb ub r =
     (case chunk_iter cfg nb ub r of
        Continue u r1 \<Rightarrow> chunked_loop cfg nb u r1
      | Return c u r1 \<Rightarrow> (c, u, r1))"
  by auto
termination
  by (relation "measure (\<lambda>(cfg, nb, ub, r). chunk_rank ub r)") (auto simp: chunk_iter_rank)

declare chunked_loop.simps [simp del]

definition chunk_buf :: "chunk_cfg \<Rightarrow> chunk_req \<Rightarrow> upsgi_buffer" where
  "chunk_buf cfg r =
     (case chunked_input_buf r of
        None \<Rightarrow> upsgi_buffer_new (cc_env cfg) (page_size (cc_env cfg))\<lparr>ub_limit := cc_limit cfg\<rparr>
      | Some ub \<Rightarrow> ub)"

definition upsgi_chunked_read :: "chunk_cfg \<Rightarrow> bool \<Rightarrow> chunk_req \<Rightarrow> cget \<times> chunk_req" where
  "upsgi_chunked_read cfg nb r =
     (let ub = chunk_buf cfg r in
      if chunked_input_complete r then (CGot [], r\<lparr>chunked_input_buf := Some ub\<rparr>)
      else
        (let res = (if chunked_input_decapitate r > 0
                    then upsgi_buffer_decapitate ub (chunked_input_decapitate r) else Ok ub) in
         case res of
           Ok u \<Rightarrow>
             (case chunked_loop cfg nb u (r\<lparr>chunked_input_decapitate := 0\<rparr>) of (c, u1, r1) \<Rightarrow>
                (c, r1\<lparr>chunked_input_buf := Some u1\<rparr>))
         | Err u \<Rightarrow> (CNull, r\<lparr>chunked_input_buf := Some u\<rparr>)
         | Fault \<Rightarrow> (CFault, r\<lparr>chunked_input_buf := Some ub\<rparr>)))"

text \<open>\<open>upsgi_chunked_read_smart\<close>: both loops may in principle go on, so they are partial.\<close>

datatype smart_ret = SNull chunk_req | SBuf upsgi_buffer chunk_req | SFault

definition smart_take :: "chunk_cfg \<Rightarrow> upsgi_buffer \<Rightarrow> upsgi_buffer \<Rightarrow> nat \<Rightarrow> chunk_req \<Rightarrow> smart_ret" where
  "smart_take cfg ret body n r =
     (case upsgi_buffer_append (cc_env cfg) ret (take n (ub_buf body)) of
        Ok u \<Rightarrow>
          (case upsgi_buffer_decapitate body n of
             Ok b \<Rightarrow> SBuf u (r\<lparr>body_chunked_buf := Some b\<rparr>)
           | Err b \<Rightarrow> SBuf u (r\<lparr>body_chunked_buf := Some b\<rparr>)
           | Fault \<Rightarrow> SFault)
      | Err u \<Rightarrow> SNull (r\<lparr>body_chunked_buf := Some body\<rparr>)
      | Fault \<Rightarrow> SFault)"

partial_function (option) smart_all :: "chunk_cfg \<Rightarrow> upsgi_buffer \<Rightarrow> chunk_req \<Rightarrow> smart_ret option" where
  "smart_all cfg body r =
     (case upsgi_chunked_read cfg False r of (c, r1) \<Rightarrow>
        (case c of
           CNull \<Rightarrow> Some (SNull (r1\<lparr>body_chunked_buf := Some body\<rparr>))
         | CFault \<Rightarrow> Some SFault
         | CGot d \<Rightarrow>
             if d = [] then
               Some (smart_take cfg (upsgi_buffer_new (cc_env cfg) (ub_pos body)) body (ub_pos body) r1)
             else (case upsgi_buffer_append (cc_env cfg) body d of
                     Ok b \<Rightarrow> smart_all cfg b r1
                   | Err b \<Rightarrow> Some (SNull (r1\<lparr>body_chunked_buf := Some b\<rparr>))
                   | Fault \<Rightarrow> Some SFault)))"

partial_function (option) smart_more ::
    "chunk_cfg \<Rightarrow> nat \<Rightarrow> upsgi_buffer \<Rightarrow> upsgi_buffer \<Rightarrow> chunk_req \<Rightarrow> smart_ret option" where
  "smart_more cfg remains ret body r =
     (if remains = 0 then Some (smart_take cfg ret body (ub_pos body) r)
      else
       (case upsgi_chunked_read cfg False r of (c, r1) \<Rightarrow>
        (case c of
           CNull \<Rightarrow> Some (SNull (r1\<lparr>body_chunked_buf := Some body\<rparr>))
         | CFault \<Rightarrow> Some SFault
         | CGot d \<Rightarrow>
             if d = [] then Some (smart_take cfg ret body (ub_pos body) r1)
             else (case upsgi_buffer_append (cc_env cfg) body d of
                     Ok b \<Rightarrow>
                       (if length d > remains
                        then Some (smart_take cfg ret b (size_sub (ub_pos b) (length d - remains)) r1)
                        else smart_more cfg (remains - length d) ret b r1)
                   | Err b \<Rightarrow> Some (SNull (r1\<lparr>body_chunked_buf := Some b\<rparr>))
                   | Fault \<Rightarrow> Some SFault))))"

definition upsgi_chunked_read_smart :: "chunk_cfg \<Rightarrow> nat \<Rightarrow> chunk_req \<Rightarrow> smart_ret option" where
  "upsgi_chunked_read_smart cfg len r =
     (let body = (case body_chunked_buf r of
                    None \<Rightarrow> upsgi_buffer_new (cc_env cfg) (page_size (cc_env cfg)) | Some b \<Rightarrow> b) in
      if len = 0 then smart_all cfg body r
      else if len \<le> ub_pos body then
        Some (smart_take cfg (upsgi_buffer_new (cc_env cfg) len) body len r)
      else
        (let ret = upsgi_buffer_new (cc_env cfg) len in
         if ub_pos body > 0 then
           (case smart_take cfg ret body (ub_pos body) r of
              SBuf u r1 \<Rightarrow>
                smart_more cfg (len - ub_pos body) u (the (body_chunked_buf r1)) r1
            | x \<Rightarrow> Some x)
         else smart_more cfg len ret body r))"

section \<open>What a receive does\<close>

abbreviation cr_pending :: "chunk_req \<Rightarrow> char list" where
  "cr_pending r \<equiv> pending (cr_remains r) (cr_reads r)"

definition same_parser :: "chunk_req \<Rightarrow> chunk_req \<Rightarrow> bool" where
  "same_parser r s \<longleftrightarrow>
     chunked_input_buf s = chunked_input_buf r \<and>
     chunked_input_chunk_len s = chunked_input_chunk_len r \<and>
     chunked_input_need s = chunked_input_need r \<and>
     chunked_input_parser_status s = chunked_input_parser_status r \<and>
     chunked_input_decapitate s = chunked_input_decapitate r \<and>
     chunked_input_complete s = chunked_input_complete r \<and>
     body_chunked_buf s = body_chunked_buf r"

definition recv_ok :: "upsgi_buffer \<Rightarrow> chunk_req \<Rightarrow> recv_ret \<times> upsgi_buffer \<times> chunk_req \<Rightarrow> bool" where
  "recv_ok ub r x \<longleftrightarrow>
     (case x of (ret, u, r1) \<Rightarrow>
        same_parser r r1 \<and> bs_inv (cr_sched r1) \<and> ret \<noteq> RecvFault \<and>
        (case ret of
           RecvGot n \<Rightarrow> \<exists>d. length d = n \<and> cr_pending r = d @ cr_pending r1 \<and>
             ub_pos ub + n \<le> ub_len ub \<and> ub_len u = ub_len ub \<and> ub_pos u = ub_pos ub \<and>
             ub_limit u = ub_limit ub \<and> take (ub_pos ub + n) (ub_buf u) = ub_content ub @ d
         | _ \<Rightarrow> u = ub \<and> cr_pending r1 = cr_pending r))"

lemma same_parser_refl [simp]: "same_parser r r"
  by (simp add: same_parser_def)

lemma recv_once_ok:
  assumes "ub_inv ub" "ub_len ub < 2 ^ 64" "bs_inv (cr_sched r)"
  shows "recv_ok ub r (recv_once cfg ub r)"
proof -
  define room where "room = ub_len ub - ub_pos ub"
  have room: "size_sub (ub_len ub) (ub_pos ub) = room" "room < 2 ^ 64" "ub_pos ub + room = ub_len ub"
    using assms(1,2) by (auto simp: room_def ub_inv_def)
  obtain g s1 where b: "read_budget (cc_sched_on cfg) (cc_clock cfg (cr_ticks r))
      (of_nat room) (cr_sched r) = (g, s1)" by (metis surj_pair)
  have g: "unat g \<le> room" "bs_inv s1"
    using bs.governed_room [OF assms(3) room(2), of "cc_sched_on cfg" "cc_clock cfg (cr_ticks r)"]
      bs.budget_inv [OF assms(3), of "cc_sched_on cfg" "cc_clock cfg (cr_ticks r)" "of_nat room"]
    by (auto simp: b)
  obtain q rem' evs' where q: "upsgi_proto_base_read_body (unat g) (cr_remains r) (cr_reads r) = (q, rem', evs')"
    using prod_cases3 by blast
  note d = read_body_data [where n = "unat g" and rem = "cr_remains r" and evs = "cr_reads r", unfolded q]
  show ?thesis
  proof (cases q)
    case (Got x)
    with d g room have l: "ub_pos ub + length x \<le> ub_len ub" by auto
    obtain u where u: "ub_memcpy ub (ub_pos ub) x = Ok u" using ub_memcpy_in_range [OF l] by blast
    show ?thesis
      using Got d ub_memcpy_Ok [OF u] l g(2)
      by (auto simp: recv_once_def room b q u recv_ok_def same_parser_def ub_content_def
          bs.got_inv bs.empty_inv Let_def)
  qed (use d g(2) in \<open>auto simp: recv_once_def room b q recv_ok_def same_parser_def bs.again_inv Let_def\<close>)
qed

lemma recv_ok_again:
  assumes "recv_ok ub r (RecvAgain, u, r1)"
  shows "u = ub" "bs_inv (cr_sched r1)" "recv_ok ub r1 x \<Longrightarrow> recv_ok ub r x"
  using assms by (auto simp: recv_ok_def same_parser_def split: recv_ret.splits)

lemma recv_ok_none: "recv_ok ub r (RecvAgain, u, r1) \<Longrightarrow> recv_ok ub r (RecvNone, u, r1)"
  by (simp add: recv_ok_def)

lemma recv_ok_waits [simp]: "recv_ok ub (r\<lparr>cr_waits := ws\<rparr>) x = recv_ok ub r x"
  by (simp add: recv_ok_def same_parser_def cong: prod.case_cong recv_ret.case_cong)

lemma recv_wait_ok:
  assumes "ub_inv ub" "ub_len ub < 2 ^ 64"
  shows "bs_inv (cr_sched r) \<Longrightarrow> recv_ok ub r (recv_wait cfg nb ws ub r)"
proof (induction ws arbitrary: r)
  case Nil
  then show ?case by (simp add: recv_ok_def same_parser_def)
next
  case (Cons w ws)
  obtain q u r' where q: "recv_once cfg ub (r\<lparr>cr_waits := ws\<rparr>) = (q, u, r')" using prod_cases3 by blast
  have ok: "recv_ok ub r (q, u, r')"
    using recv_once_ok [OF assms, of "r\<lparr>cr_waits := ws\<rparr>" cfg] Cons.prems by (simp add: q)
  show ?case
  proof (cases "w > 0 \<and> q = RecvAgain")
    case True
    with ok have a: "recv_ok ub r (RecvAgain, u, r')" by simp
    with True recv_ok_none [OF a] recv_ok_again(3) [OF a] Cons.IH [OF recv_ok_again(2) [OF a]]
    show ?thesis by (cases nb) (simp_all add: q recv_ok_again(1) [OF a])
  next
    case False
    then show ?thesis
      using ok Cons.prems by (auto simp: q recv_ok_def [of ub r "(RecvNone, ub, _)"] same_parser_def)
  qed
qed

lemma recv_spec:
  assumes "ub_inv ub" "ub_len ub < 2 ^ 64" "bs_inv (cr_sched r)"
  shows "recv_ok ub r (upsgi_chunked_input_recv cfg nb ub r)"
proof -
  obtain q u r' where q: "recv_once cfg ub r = (q, u, r')" using prod_cases3 by blast
  have ok: "recv_ok ub r (q, u, r')" using recv_once_ok [OF assms, of cfg] by (simp add: q)
  show ?thesis
  proof (cases "q = RecvAgain")
    case True
    with ok have a: "recv_ok ub r (RecvAgain, u, r')" by simp
    show ?thesis
      using recv_ok_none [OF a] recv_ok_again(3) [OF a] recv_wait_ok [OF assms(1,2) recv_ok_again(2) [OF a]]
      by (simp add: upsgi_chunked_input_recv_def q True recv_ok_again(1) [OF a])
  next
    case False
    with ok show ?thesis by (simp add: upsgi_chunked_input_recv_def q)
  qed
qed

section \<open>The framing\<close>

text \<open>
  What the reader accepts, as a relation between a parser state, the bytes from there on, the
  chunk delivered and the bytes that remain.  A size line whose value is \<open>2^64 - 2\<close> reads as the
  \<open>ssize_t\<close> -2, which the loop takes for an incomplete line after the line has been dropped:
  rule \<open>framed_skip\<close>.
\<close>

inductive framed :: "chunk_status \<Rightarrow> int \<Rightarrow> char list \<Rightarrow> char list \<Rightarrow> char list \<Rightarrow> bool" where
  framed_body: "d \<noteq> [] \<Longrightarrow> framed WaitBody (int (length d)) (d @ CRLF @ R) d R"
| framed_final: "framed WaitFinal l (CRLF @ R) [] R"
| framed_line: "\<forall>c \<in> set ds. is_xdigit c \<Longrightarrow> strtoul16 ds = n \<Longrightarrow> 0 < n \<Longrightarrow> n < 2 ^ 63 \<Longrightarrow>
    framed WaitBody (int n) S d R \<Longrightarrow> framed WaitLine l (ds @ CRLF @ S) d R"
| framed_last: "\<forall>c \<in> set ds. is_xdigit c \<Longrightarrow> strtoul16 ds = 0 \<Longrightarrow>
    framed WaitFinal 0 S d R \<Longrightarrow> framed WaitLine l (ds @ CRLF @ S) d R"
| framed_skip: "\<forall>c \<in> set ds. is_xdigit c \<Longrightarrow> strtoul16 ds = 2 ^ 64 - 2 \<Longrightarrow>
    framed WaitLine (-2) S d R \<Longrightarrow> framed WaitLine l (ds @ CRLF @ S) d R"

inductive_cases framed_bodyE: "framed WaitBody l S d R"
inductive_cases framed_finalE: "framed WaitFinal l S d R"

lemma not_xdigit_CR [simp]: "\<not> is_xdigit (CHR 0x0D)"
  by (simp add: is_xdigit_def is_digit_def)

lemma scan_end:
  "readline_scan cs i False = LineEnd j \<Longrightarrow>
   \<exists>ds rest. cs = ds @ CRLF @ rest \<and> (\<forall>c \<in> set ds. is_xdigit c) \<and> j = i + length ds + 1"
proof (induction cs arbitrary: i)
  case Nil
  then show ?case by simp
next
  case (Cons c cs)
  show ?case
  proof (cases "is_xdigit c")
    case True
    with Cons obtain ds rest where "cs = ds @ CRLF @ rest" "\<forall>c \<in> set ds. is_xdigit c"
      "j = i + 1 + length ds + 1" by fastforce
    with True show ?thesis by (intro exI [of _ "c # ds"] exI [of _ rest]) auto
  next
    case False
    with Cons.prems show ?thesis
      by (cases cs) (auto split: if_splits intro: exI [of _ "[]"])
  qed
qed

lemma scan_line:
  "\<forall>c \<in> set ds. is_xdigit c \<Longrightarrow> readline_scan (ds @ CRLF @ rest) i False = LineEnd (i + length ds + 1)"
  by (induction ds arbitrary: i) auto

lemma strtoul16_line:
  "\<forall>c \<in> set ds. is_xdigit c \<Longrightarrow> strtoul16 (ds @ CHR 0x0D # rest) = strtoul16 ds"
  by (simp add: strtoul16_def takeWhile_append2 takeWhile_eq_all_conv [THEN iffD2])

text \<open>A size line, read from a well-formed buffer.\<close>

lemma readline_spec:
  assumes "ub_inv ub"
  obtains (bad) "upsgi_chunked_readline ub = Some (-1, ub)" "readline_scan (ub_content ub) 0 False = LineBad"
  | (more) "upsgi_chunked_readline ub = Some (-2, ub)" "readline_scan (ub_content ub) 0 False = LineMore"
  | (line) ds u where "upsgi_chunked_readline ub = Some (ssize (strtoul16 ds), u)"
      "\<forall>c \<in> set ds. is_xdigit c" "ub_content ub = ds @ CRLF @ ub_content u"
      "ub_inv u" "ub_len u = ub_len ub" "ub_limit u = ub_limit ub" "ub_pos ub = length ds + 2 + ub_pos u"
proof (cases "readline_scan (ub_content ub) 0 False")
  case (LineEnd j)
  from scan_end [OF LineEnd] obtain ds rest where
    l: "ub_content ub = ds @ CRLF @ rest" "\<forall>c \<in> set ds. is_xdigit c" "j = length ds + 1" by auto
  have p: "ub_pos ub = length (ub_content ub)" using assms by (simp add: ub_content_def ub_inv_def)
  from decapitate_Ok [OF assms, of "j + 1"] l p obtain u where
    u: "upsgi_buffer_decapitate ub (j + 1) = Ok u" "ub_inv u" "ub_len u = ub_len ub"
      "ub_pos u = ub_pos ub - (j + 1)" "ub_limit u = ub_limit ub" "ub_content u = drop (j + 1) (ub_content ub)"
    by auto
  have s: "strtoul16 (ub_content ub) = strtoul16 ds"
    using strtoul16_line [OF l(2)] l(1) by simp
  have "upsgi_chunked_readline ub = Some (ssize (strtoul16 ds), u)"
    using assms by (simp add: upsgi_chunked_readline_def LineEnd u(1)[simplified] s ub_inv_def)
  moreover have "ub_content ub = ds @ CRLF @ ub_content u" using l u(6) by simp
  ultimately show thesis using line u l p by auto
next
  case LineMore
  with more assms show thesis by (simp add: upsgi_chunked_readline_def ub_inv_def)
next
  case LineBad
  with bad assms show thesis by (simp add: upsgi_chunked_readline_def ub_inv_def)
qed

lemma ssize_0 [simp]: "ssize 0 = 0"
  by (simp add: ssize_def)

lemma ssize_cases:
  "ssize n = -2 \<longleftrightarrow> n = 2 ^ 64 - 2" "0 \<le> ssize n \<Longrightarrow> n < 2 ^ 64 \<Longrightarrow> ssize n = int n \<and> n < 2 ^ 63"
  by (auto simp: ssize_def split: if_splits)

lemma strtoul16_bound: "strtoul16 s < 2 ^ 64"
  by (simp add: strtoul16_def)

section \<open>The invariant\<close>

text \<open>The configuration: pages and limits are sane, and an allocation never exceeds \<open>PTRDIFF_MAX\<close>.\<close>

definition cfg_ok :: "chunk_cfg \<Rightarrow> bool" where
  "cfg_ok cfg \<longleftrightarrow>
     page_size (cc_env cfg) < 2 ^ 63 \<and> (cc_limit cfg = 0 \<or> page_size (cc_env cfg) \<le> cc_limit cfg) \<and>
     (\<forall>n. realloc_ok (cc_env cfg) n \<longrightarrow> n < 2 ^ 63)"

definition ci_inv :: "chunk_cfg \<Rightarrow> upsgi_buffer \<Rightarrow> chunk_req \<Rightarrow> bool" where
  "ci_inv cfg ub r \<longleftrightarrow>
     ub_inv ub \<and> ub_limit ub = cc_limit cfg \<and> (cc_limit cfg = 0 \<or> ub_len ub \<le> cc_limit cfg) \<and>
     ub_len ub < 2 ^ 63 \<and> bs_inv (cr_sched r) \<and>
     (chunked_input_need r > 0 \<longrightarrow> ub_pos ub + chunked_input_need r \<le> 2 ^ 63 + 1) \<and>
     (chunked_input_parser_status r = WaitBody \<longrightarrow>
        0 < chunked_input_chunk_len r \<and> chunked_input_chunk_len r < 2 ^ 63)"

abbreviation stream :: "upsgi_buffer \<Rightarrow> chunk_req \<Rightarrow> char list" where
  "stream ub r \<equiv> ub_content ub @ cr_pending r"

lemma ci_inv_length: "ci_inv cfg ub r \<Longrightarrow> length (ub_content ub) = ub_pos ub"
  by (simp add: ci_inv_def ub_inv_def ub_content_def)

text \<open>The outcome of one parsing step, relative to the bytes \<open>P\<close> that have not arrived.\<close>

definition parse_ok ::
    "chunk_cfg \<Rightarrow> upsgi_buffer \<Rightarrow> chunk_req \<Rightarrow> parse_ret \<times> upsgi_buffer \<times> chunk_req \<Rightarrow> bool" where
  "parse_ok cfg ub r x \<longleftrightarrow>
     (case x of (ret, u, r1) \<Rightarrow>
        ci_inv cfg u r1 \<and> cr_pending r1 = cr_pending r \<and> chunked_input_buf r1 = chunked_input_buf r \<and>
        ub_len u = ub_len ub \<and> body_chunked_buf r1 = body_chunked_buf r \<and>
        (case ret of
           PContinue \<Rightarrow> chunked_input_decapitate r1 = chunked_input_decapitate r \<and>
             chunked_input_complete r1 = chunked_input_complete r \<and>
             (\<forall>P d R. framed (chunked_input_parser_status r1) (chunked_input_chunk_len r1) (ub_content u @ P) d R \<longrightarrow>
                framed (chunked_input_parser_status r) (chunked_input_chunk_len r) (ub_content ub @ P) d R)
         | PNull \<Rightarrow> chunked_input_decapitate r1 = chunked_input_decapitate r \<and>
             chunked_input_complete r1 = chunked_input_complete r
         | PLen n \<Rightarrow> n \<le> ub_pos u \<and> chunked_input_decapitate r1 \<le> ub_pos u \<and>
             chunked_input_need r1 = 0 \<and> chunked_input_parser_status r1 = WaitLine \<and>
             chunked_input_complete r1 = (n = 0) \<and>
             (\<forall>P. framed (chunked_input_parser_status r) (chunked_input_chunk_len r) (ub_content ub @ P)
                (take n (ub_buf u)) (drop (chunked_input_decapitate r1) (ub_content u) @ P))
         | PFault \<Rightarrow> False))"

lemma take_two: "n + 1 < length b \<Longrightarrow> take (n + 2) b = take n b @ [b ! n, b ! (n + 1)]"
  by (simp add: take_Suc_conv_app_nth)

text \<open>The preconditions of a parsing step: nothing is pending from the step before.\<close>

definition parse_pre :: "chunk_cfg \<Rightarrow> upsgi_buffer \<Rightarrow> chunk_req \<Rightarrow> bool" where
  "parse_pre cfg ub r \<longleftrightarrow> ci_inv cfg ub r \<and> chunked_input_need r = 0 \<and>
     chunked_input_decapitate r = 0 \<and> \<not> chunked_input_complete r"

lemma chunk_body_ok:
  assumes "parse_pre cfg ub r" "0 < chunked_input_chunk_len r" "chunked_input_chunk_len r < 2 ^ 63"
  shows "parse_ok cfg ub (r\<lparr>chunked_input_parser_status := WaitBody\<rparr>) (chunk_body ub r)"
proof -
  define n where "n = nat (chunked_input_chunk_len r)"
  have n: "chunked_input_chunk_len r = int n" "0 < n" "n < 2 ^ 63" using assms(2,3) by (auto simp: n_def)
  note pre = assms(1) [unfolded parse_pre_def ci_inv_def]
  show ?thesis
  proof (cases "n + 2 > ub_pos ub")
    case True
    then show ?thesis using pre n
      by (auto simp: chunk_body_def n_def [symmetric] parse_ok_def ci_inv_def Let_def)
  next
    case False
    then have c: "upsgi_chunked_require_crlf ub n =
        Some (ub_buf ub ! n = CHR 0x0D \<and> ub_buf ub ! (n + 1) = CHR 0x0A)"
      using pre by (simp add: upsgi_chunked_require_crlf_def ub_inv_def)
    show ?thesis
    proof (cases "ub_buf ub ! n = CHR 0x0D \<and> ub_buf ub ! (n + 1) = CHR 0x0A")
      case True
      let ?d = "take n (ub_buf ub)"
      have l: "n + 1 < ub_len ub" using False pre by (auto simp: ub_inv_def)
      have "take (n + 2) (ub_content ub) = ?d @ CRLF"
        using False take_two [OF l] True by (simp add: ub_content_def min_absorb1)
      then have split: "ub_content ub = ?d @ CRLF @ drop (n + 2) (ub_content ub)"
        by (metis append_assoc append_take_drop_id)
      have "framed WaitBody (int (length ?d)) (?d @ CRLF @ drop (n + 2) (ub_content ub) @ P) ?d
          (drop (n + 2) (ub_content ub) @ P)" for P
        using l n(2) by (intro framed_body) auto
      then have "framed WaitBody (int n) (ub_content ub @ P) ?d (drop (n + 2) (ub_content ub) @ P)" for P
        using l by (subst split) simp
      then show ?thesis using pre n False True
        by (auto simp: chunk_body_def n_def [symmetric] c parse_ok_def ci_inv_def)
    next
      case f2: False
      then show ?thesis using pre n False
        by (auto simp: chunk_body_def n_def [symmetric] c parse_ok_def ci_inv_def)
    qed
  qed
qed

lemma final_crlf_ok:
  assumes "parse_pre cfg ub r"
  shows "parse_ok cfg ub (r\<lparr>chunked_input_parser_status := WaitFinal\<rparr>) (upsgi_chunked_require_final_crlf ub r)"
proof -
  note pre = assms(1) [unfolded parse_pre_def ci_inv_def]
  show ?thesis
  proof (cases "ub_pos ub < 2")
    case True
    then show ?thesis using pre
      by (auto simp: upsgi_chunked_require_final_crlf_def parse_ok_def ci_inv_def)
  next
    case False
    then have l: "0 + 1 < ub_len ub" "\<not> ub_len ub < 2" using pre by (auto simp: ub_inv_def)
    show ?thesis
    proof (cases "ub_buf ub ! 0 = CHR 0x0D \<and> ub_buf ub ! 1 = CHR 0x0A")
      case True
      obtain u where u: "upsgi_buffer_decapitate ub 2 = Ok u" "ub_inv u" "ub_len u = ub_len ub"
        "ub_limit u = ub_limit ub" "ub_content u = drop 2 (ub_content ub)"
        using decapitate_Ok [of ub 2] False pre by auto
      have "take 2 (ub_content ub) = CRLF"
        using False take_two [OF l(1)] True by (simp add: ub_content_def min_absorb1 numeral_2_eq_2)
      then have "ub_content ub = CRLF @ ub_content u"
        unfolding u(5) by (metis append_take_drop_id)
      then have "framed WaitFinal l (ub_content ub @ P) [] (ub_content u @ P)" for P l
        using framed_final [of l "ub_content u @ P"] by simp
      then show ?thesis using pre u(1-4) False True l
        by (auto simp: upsgi_chunked_require_final_crlf_def parse_ok_def ci_inv_def)
    next
      case f2: False
      then show ?thesis using pre False l
        by (auto simp: upsgi_chunked_require_final_crlf_def parse_ok_def ci_inv_def)
    qed
  qed
qed

lemma parse_ok_step:
  assumes "parse_ok cfg u s x" "cr_pending s = cr_pending r" "chunked_input_buf s = chunked_input_buf r"
    "body_chunked_buf s = body_chunked_buf r" "ub_len u = ub_len ub"
    "chunked_input_decapitate s = chunked_input_decapitate r"
    "chunked_input_complete s = chunked_input_complete r"
    "\<And>P d R. framed (chunked_input_parser_status s) (chunked_input_chunk_len s) (ub_content u @ P) d R \<Longrightarrow>
       framed (chunked_input_parser_status r) (chunked_input_chunk_len r) (ub_content ub @ P) d R"
  shows "parse_ok cfg ub r x"
  using assms by (cases x) (auto simp: parse_ok_def split: parse_ret.splits)

lemma chunk_parse_ok:
  assumes "parse_pre cfg ub r"
  shows "parse_ok cfg ub r (chunk_parse ub r)"
proof (cases "chunked_input_parser_status r")
  case WaitBody
  then have r: "r\<lparr>chunked_input_parser_status := WaitBody\<rparr> = r" by simp
  have "0 < chunked_input_chunk_len r \<and> chunked_input_chunk_len r < 2 ^ 63"
    using assms WaitBody by (simp add: parse_pre_def ci_inv_def)
  then show ?thesis using chunk_body_ok [OF assms] by (simp add: chunk_parse_def WaitBody r)
next
  case WaitFinal
  then have r: "r\<lparr>chunked_input_parser_status := WaitFinal\<rparr> = r" by simp
  then show ?thesis using final_crlf_ok [OF assms] by (simp add: chunk_parse_def WaitFinal r)
next
  case st: WaitLine
  note pre = assms [unfolded parse_pre_def ci_inv_def]
  from pre have inv: "ub_inv ub" by simp
  show ?thesis
  proof (cases rule: readline_spec [OF inv])
    case 1
    with pre st show ?thesis by (simp add: chunk_parse_def parse_ok_def ci_inv_def)
  next
    case 2
    have "ub_pos ub < 2 ^ 63" using pre by (simp add: ub_inv_def)
    then have i: "ci_inv cfg ub (r\<lparr>chunked_input_chunk_len := -2, chunked_input_need := 1\<rparr>)"
      using pre st by (simp add: ci_inv_def)
    have "framed WaitLine l S d R" if "framed WaitLine (-2) S d R" for l S d R
      using that by cases (auto intro: framed_line [simplified] framed_last [simplified] framed_skip [simplified])
    with i 2 pre st show ?thesis by (simp add: chunk_parse_def parse_ok_def)
  next
    case (3 ds u)
    define k where "k = strtoul16 ds"
    define r1 where "r1 = r\<lparr>chunked_input_chunk_len := ssize k\<rparr>"
    have k: "k < 2 ^ 64" using strtoul16_bound by (simp add: k_def)
    have pre1: "parse_pre cfg u r1" using pre 3 st by (simp add: parse_pre_def ci_inv_def r1_def)
    have c: "ub_content ub @ P = ds @ CRLF @ (ub_content u @ P)" for P using 3(3) by simp
    consider (skip) "k = 2 ^ 64 - 2" | (neg) "ssize k < 0" "ssize k \<noteq> -2" | (zero) "k = 0"
      | (pos) "0 < k" "k < 2 ^ 63" "ssize k = int k"
      using ssize_cases(2) [of k] k by (fastforce simp: ssize_cases(1))
    then show ?thesis
    proof cases
      case skip
      have "ub_pos u < 2 ^ 63" using pre 3 by (simp add: ub_inv_def)
      then have i: "ci_inv cfg u (r1\<lparr>chunked_input_need := 1\<rparr>)"
        using pre 3 st by (simp add: ci_inv_def r1_def)
      have s: "ssize k = -2" using skip by (simp add: ssize_cases(1))
      have "framed WaitLine l (ub_content ub @ P) d R" if "framed WaitLine (-2) (ub_content u @ P) d R" for l P d R
        unfolding c using 3(2) skip that by (intro framed_skip) (simp_all add: k_def)
      with i 3(1,5) pre st s show ?thesis
        by (simp add: chunk_parse_def parse_ok_def k_def [symmetric] r1_def)
    next
      case neg
      with 3(1,5) pre1 pre st show ?thesis
        by (simp add: chunk_parse_def parse_ok_def k_def [symmetric] r1_def parse_pre_def)
    next
      case zero
      then have s: "ssize k = 0" by (simp add: ssize_def)
      have p: "chunk_parse ub r = upsgi_chunked_require_final_crlf u r1"
        by (simp add: chunk_parse_def st 3(1) k_def [symmetric] s r1_def)
      show ?thesis unfolding p
        by (rule parse_ok_step [OF final_crlf_ok [OF pre1]])
           (use 3(2,5) zero st in \<open>auto simp: r1_def s c k_def intro!: framed_last [simplified]\<close>)
    next
      case pos
      have p: "chunk_parse ub r = chunk_body u r1"
        using pos by (simp add: chunk_parse_def st 3(1) k_def [symmetric] r1_def)
      have b: "0 < chunked_input_chunk_len r1" "chunked_input_chunk_len r1 < 2 ^ 63"
        using pos by (auto simp: r1_def)
      show ?thesis unfolding p
        by (rule parse_ok_step [OF chunk_body_ok [OF pre1 b]])
           (use 3(2,5) pos st in \<open>auto simp: r1_def c k_def intro!: framed_line [simplified]\<close>)
    qed
  qed
qed

section \<open>The loop is sound\<close>

definition got_ok :: "chunk_cfg \<Rightarrow> upsgi_buffer \<Rightarrow> chunk_req \<Rightarrow> cget \<times> upsgi_buffer \<times> chunk_req \<Rightarrow> bool" where
  "got_ok cfg ub r x \<longleftrightarrow>
     (case x of (c, u, r1) \<Rightarrow>
        ci_inv cfg u r1 \<and> body_chunked_buf r1 = body_chunked_buf r \<and>
        (case c of
           CNull \<Rightarrow> chunked_input_decapitate r1 = 0 \<and> \<not> chunked_input_complete r1
         | CFault \<Rightarrow> False
         | CGot d \<Rightarrow> chunked_input_need r1 = 0 \<and> chunked_input_parser_status r1 = WaitLine \<and>
             chunked_input_decapitate r1 \<le> ub_pos u \<and> chunked_input_complete r1 = (d = []) \<and>
             framed (chunked_input_parser_status r) (chunked_input_chunk_len r) (stream ub r) d
               (drop (chunked_input_decapitate r1) (ub_content u) @ cr_pending r1)))"

definition loop_pre :: "chunk_cfg \<Rightarrow> upsgi_buffer \<Rightarrow> chunk_req \<Rightarrow> bool" where
  "loop_pre cfg ub r \<longleftrightarrow>
     ci_inv cfg ub r \<and> chunked_input_decapitate r = 0 \<and> \<not> chunked_input_complete r"

definition iter_ok :: "chunk_cfg \<Rightarrow> upsgi_buffer \<Rightarrow> chunk_req \<Rightarrow> iter_ret \<Rightarrow> bool" where
  "iter_ok cfg ub r x \<longleftrightarrow>
     (case x of
        Continue u r1 \<Rightarrow> loop_pre cfg u r1 \<and> (\<forall>y. got_ok cfg u r1 y \<longrightarrow> got_ok cfg ub r y)
      | Return c u r1 \<Rightarrow> got_ok cfg ub r (c, u, r1))"

lemma chunk_after_read_ok:
  assumes "loop_pre cfg ub r"
  shows "iter_ok cfg ub r (chunk_after_read ub r)"
proof (cases "chunked_input_need r > 0 \<or> ub_pos ub = 0")
  case True
  with assms show ?thesis by (auto simp: chunk_after_read_def iter_ok_def)
next
  case False
  obtain ret u r1 where x: "chunk_parse ub r = (ret, u, r1)" using prod_cases3 by blast
  have "parse_pre cfg ub r" using assms False by (simp add: parse_pre_def loop_pre_def)
  from chunk_parse_ok [OF this] have ok: "parse_ok cfg ub r (ret, u, r1)" by (simp add: x)
  have z: "take n (ub_buf u) = [] \<longleftrightarrow> n = 0" if "ci_inv cfg u r1" "n \<le> ub_pos u" for n
    using that by (cases "ub_buf u") (auto simp: ci_inv_def ub_inv_def)
  show ?thesis
    using ok assms False
    by (cases ret) (auto simp: chunk_after_read_def x iter_ok_def parse_ok_def loop_pre_def got_ok_def
        z [simplified] split: cget.splits)
qed

text \<open>The state after the bytes of one receive are counted.\<close>

lemma recv_step:
  assumes "cfg_ok cfg" "loop_pre cfg ub r"
    "upsgi_buffer_ensure (cc_env cfg) ub (max (page_size (cc_env cfg)) (chunked_input_need r)) = Ok v"
    "upsgi_chunked_input_recv cfg nb v r = (ret, u, r1)"
  shows "ret \<noteq> RecvFault" "loop_pre cfg u r1" "body_chunked_buf r1 = body_chunked_buf r"
    "ret = RecvGot n \<Longrightarrow> loop_pre cfg (u\<lparr>ub_pos := ub_pos u + n\<rparr>)
        (r1\<lparr>chunked_input_need := chunked_input_need r1 - n\<rparr>) \<and>
      stream (u\<lparr>ub_pos := ub_pos u + n\<rparr>) r1 = stream ub r \<and> same_parser r r1 \<and> ub_pos u = ub_pos ub"
proof -
  note pre = assms(2) [unfolded loop_pre_def ci_inv_def] and cfg = assms(1) [unfolded cfg_ok_def]
  have b: "ub_pos ub + max (page_size (cc_env cfg)) (chunked_input_need r) < 2 ^ 64"
    using pre cfg by (auto simp: ub_inv_def max_def)
  note e = ensure_Ok [OF _ _ assms(3) b]
  have v: "ub_inv v" "ub_content v = ub_content ub" "ub_pos v = ub_pos ub" "ub_limit v = cc_limit cfg"
    "cc_limit cfg = 0 \<or> ub_len v \<le> cc_limit cfg"
    using e(1-5) pre by auto
  have v63: "ub_len v < 2 ^ 63" using e(6) pre cfg by auto
  have ok: "recv_ok v r (ret, u, r1)"
    using recv_spec [of v r cfg nb] v(1) v63 pre assms(4) by simp
  then show "ret \<noteq> RecvFault" "body_chunked_buf r1 = body_chunked_buf r"
    by (auto simp: recv_ok_def same_parser_def)
  from ok pre v v63 show "loop_pre cfg u r1"
    by (cases ret) (auto simp: recv_ok_def same_parser_def loop_pre_def ci_inv_def ub_inv_def)
  show "loop_pre cfg (u\<lparr>ub_pos := ub_pos u + n\<rparr>) (r1\<lparr>chunked_input_need := chunked_input_need r1 - n\<rparr>) \<and>
      stream (u\<lparr>ub_pos := ub_pos u + n\<rparr>) r1 = stream ub r \<and> same_parser r r1 \<and> ub_pos u = ub_pos ub"
    if "ret = RecvGot n"
  proof -
    from ok that obtain d where d: "length d = n" "cr_pending r = d @ cr_pending r1"
      "ub_pos v + n \<le> ub_len v" "ub_len u = ub_len v" "ub_pos u = ub_pos v" "ub_limit u = ub_limit v"
      "take (ub_pos v + n) (ub_buf u) = ub_content v @ d" "same_parser r r1" "bs_inv (cr_sched r1)"
      by (auto simp: recv_ok_def)
    have c: "ub_content (u\<lparr>ub_pos := ub_pos u + n\<rparr>) = ub_content ub @ d"
      using d(5,7) v(2) by (simp add: ub_content_def)
    show ?thesis
      using c d v v63 pre by (auto simp: loop_pre_def ci_inv_def ub_inv_def same_parser_def)
  qed
qed

lemma chunk_iter_ok:
  assumes "cfg_ok cfg" "loop_pre cfg ub r"
  shows "iter_ok cfg ub r (chunk_iter cfg nb ub r)"
proof (cases "chunked_input_need r > 0 \<or> ub_pos ub = 0")
  case False
  then show ?thesis using chunk_after_read_ok [OF assms(2)] by (simp add: chunk_iter_def)
next
  case need: True
  let ?e = "upsgi_buffer_ensure (cc_env cfg) ub (max (page_size (cc_env cfg)) (chunked_input_need r))"
  show ?thesis
  proof (cases ?e)
    case (Ok v)
    obtain ret u r1 where x: "upsgi_chunked_input_recv cfg nb v r = (ret, u, r1)" using prod_cases3 by blast
    note s = recv_step [OF assms Ok x]
    show ?thesis
    proof (cases "\<exists>n. ret = RecvGot n")
      case True
      then obtain n where n: "ret = RecvGot n" by blast
      let ?u = "u\<lparr>ub_pos := ub_pos u + n\<rparr>" and ?r = "r1\<lparr>chunked_input_need := chunked_input_need r1 - n\<rparr>"
      have "iter_ok cfg ?u ?r (chunk_after_read ?u ?r)" using chunk_after_read_ok s(4) [OF n] by blast
      moreover have "got_ok cfg ?u ?r y \<Longrightarrow> got_ok cfg ub r y" for y
        using s(4) [OF n] by (cases y) (auto simp: got_ok_def same_parser_def split: cget.splits)
      ultimately show ?thesis
        using need by (auto simp: chunk_iter_def Ok x n iter_ok_def split: iter_ret.splits)
    next
      case False
      with s(1-3) show ?thesis
        using need by (cases ret) (auto simp: chunk_iter_def Ok x iter_ok_def got_ok_def loop_pre_def)
    qed
  next
    case (Err v)
    with ensure_Err [OF Err] assms(2) need show ?thesis
      by (auto simp: chunk_iter_def iter_ok_def got_ok_def loop_pre_def)
  qed simp
qed

lemma chunked_loop_ok:
  "cfg_ok cfg \<Longrightarrow> loop_pre cfg ub r \<Longrightarrow> got_ok cfg ub r (chunked_loop cfg nb ub r)"
proof (induction cfg nb ub r rule: chunked_loop.induct)
  case (1 cfg nb ub r)
  note i = chunk_iter_ok [OF 1(2,3), of nb]
  show ?case
  proof (cases "chunk_iter cfg nb ub r")
    case (Continue u r1)
    with i have p: "loop_pre cfg u r1" and g: "\<And>y. got_ok cfg u r1 y \<Longrightarrow> got_ok cfg ub r y"
      unfolding iter_ok_def by auto
    show ?thesis
      by (subst chunked_loop.simps) (use g [OF 1(1) [OF Continue 1(2) p]] Continue in simp)
  next
    case (Return c u r1)
    with i show ?thesis by (subst chunked_loop.simps) (simp add: iter_ok_def)
  qed
qed

section \<open>Properties of the reader\<close>

definition cr_inv :: "chunk_cfg \<Rightarrow> chunk_req \<Rightarrow> bool" where
  "cr_inv cfg r \<longleftrightarrow>
     cfg_ok cfg \<and> ci_inv cfg (chunk_buf cfg r) r \<and>
     chunked_input_decapitate r \<le> ub_pos (chunk_buf cfg r) \<and>
     (chunked_input_decapitate r > 0 \<longrightarrow>
        chunked_input_need r = 0 \<and> chunked_input_parser_status r = WaitLine)"

definition cr_stream :: "chunk_cfg \<Rightarrow> chunk_req \<Rightarrow> char list" where
  "cr_stream cfg r = drop (chunked_input_decapitate r) (ub_content (chunk_buf cfg r)) @ cr_pending r"

lemma ci_inv_buf [simp]:
  "ci_inv cfg ub (r\<lparr>chunked_input_buf := b\<rparr>) = ci_inv cfg ub r"
  "ci_inv cfg ub (r\<lparr>body_chunked_buf := b\<rparr>) = ci_inv cfg ub r"
  "ci_inv cfg ub (r\<lparr>chunked_input_decapitate := n\<rparr>) = ci_inv cfg ub r"
  by (simp_all add: ci_inv_def)

lemma upsgi_chunked_read_ok:
  assumes "cr_inv cfg r" "\<not> chunked_input_complete r" "upsgi_chunked_read cfg nb r = (c, r1)"
  shows "cr_inv cfg r1 \<and> c \<noteq> CFault \<and> body_chunked_buf r1 = body_chunked_buf r \<and>
    (c = CNull \<longrightarrow> \<not> chunked_input_complete r1) \<and>
    (\<forall>d. c = CGot d \<longrightarrow> chunked_input_parser_status r1 = WaitLine \<and> chunked_input_need r1 = 0 \<and>
       chunked_input_complete r1 = (d = []) \<and>
       framed (chunked_input_parser_status r) (chunked_input_chunk_len r) (cr_stream cfg r) d (cr_stream cfg r1))"
proof -
  let ?ub = "chunk_buf cfg r"
  have inv: "ub_inv ?ub" using assms(1) by (simp add: cr_inv_def ci_inv_def)
  obtain u where u: "(if chunked_input_decapitate r > 0
      then upsgi_buffer_decapitate ?ub (chunked_input_decapitate r) else Ok ?ub) = Ok u"
    "ci_inv cfg u (r\<lparr>chunked_input_decapitate := 0\<rparr>)"
    "ub_content u = drop (chunked_input_decapitate r) (ub_content ?ub)"
    using assms(1) decapitate_Ok [OF inv, of "chunked_input_decapitate r"]
    by (cases "chunked_input_decapitate r > 0") (auto simp: cr_inv_def ci_inv_def)
  let ?r = "r\<lparr>chunked_input_decapitate := 0\<rparr>"
  obtain c' u1 r1' where l: "chunked_loop cfg nb u ?r = (c', u1, r1')" using prod_cases3 by blast
  have e: "c' = c" "r1 = r1'\<lparr>chunked_input_buf := Some u1\<rparr>"
    using assms(2,3) by (auto simp: upsgi_chunked_read_def Let_def u(1) l)
  have "loop_pre cfg u ?r" using u(2) assms(2) by (simp add: loop_pre_def)
  from chunked_loop_ok [OF _ this, of nb] assms(1) have "got_ok cfg u ?r (c', u1, r1')"
    by (simp add: l cr_inv_def)
  then show ?thesis
    using e u(3) assms(1)
    by (auto simp: got_ok_def cr_inv_def cr_stream_def chunk_buf_def split: cget.splits)
qed

section \<open>The loop delivers a chunk that arrives\<close>

definition data_only :: "chunk_req \<Rightarrow> bool" where
  "data_only r \<longleftrightarrow> (\<forall>ev \<in> set (cr_reads r). \<exists>bs. ev = RData bs \<and> bs \<noteq> [])"

lemma read_body_progress:
  assumes "data_only r" "cr_pending r \<noteq> []" "0 < n"
  shows "\<exists>d rem' evs'. upsgi_proto_base_read_body n (cr_remains r) (cr_reads r) = (Got d, rem', evs') \<and>
    d \<noteq> [] \<and> data_only (r\<lparr>cr_remains := rem', cr_reads := evs'\<rparr>)"
proof (cases "cr_remains r")
  case Nil
  with assms obtain bs evs where "cr_reads r = RData bs # evs" "bs \<noteq> []"
    by (cases "cr_reads r") (auto simp: data_only_def pending_def)
  with Nil assms show ?thesis by (auto simp: upsgi_proto_base_read_body_def data_only_def)
next
  case (Cons c cs)
  with assms show ?thesis by (auto simp: upsgi_proto_base_read_body_def data_only_def)
qed

lemma recv_progress:
  assumes "ub_inv ub" "ub_len ub < 2 ^ 64" "bs_inv (cr_sched r)" "ub_pos ub < ub_len ub"
    "data_only r" "cr_pending r \<noteq> []"
  shows "\<exists>n u r1. upsgi_chunked_input_recv cfg nb ub r = (RecvGot n, u, r1) \<and> data_only r1 \<and> 0 < n"
proof -
  define room where "room = ub_len ub - ub_pos ub"
  have room: "size_sub (ub_len ub) (ub_pos ub) = room" "0 < room" "room < 2 ^ 64" "ub_pos ub + room = ub_len ub"
    using assms(1,2,4) by (auto simp: room_def)
  obtain g s1 where b: "read_budget (cc_sched_on cfg) (cc_clock cfg (cr_ticks r))
      (of_nat room) (cr_sched r) = (g, s1)" by (metis surj_pair)
  have g: "unat g \<le> room" "0 < unat g"
    using bs.governed_room [OF assms(3) room(3), of "cc_sched_on cfg" "cc_clock cfg (cr_ticks r)"]
      bs.governed_progress [OF assms(3) room(2,3), of "cc_sched_on cfg" "cc_clock cfg (cr_ticks r)"]
    by (auto simp: b)
  from read_body_progress [OF assms(5,6) g(2)] obtain d rem' evs' where
    q: "upsgi_proto_base_read_body (unat g) (cr_remains r) (cr_reads r) = (Got d, rem', evs')"
    and d: "d \<noteq> []" "data_only (r\<lparr>cr_remains := rem', cr_reads := evs'\<rparr>)" by blast
  have "length d \<le> unat g"
    using read_body_data [where n = "unat g" and rem = "cr_remains r" and evs = "cr_reads r"] by (simp add: q)
  then obtain u where u: "ub_memcpy ub (ub_pos ub) d = Ok u"
    using ub_memcpy_in_range [of "ub_pos ub" d ub] g room by force
  show ?thesis
    using d by (auto simp: upsgi_chunked_input_recv_def recv_once_def room(1) b q u Let_def data_only_def)
qed

text \<open>The bytes of one chunk, seen from each parser state.\<close>

definition frame_at :: "chunk_status \<Rightarrow> int \<Rightarrow> char list \<Rightarrow> char list \<Rightarrow> bool" where
  "frame_at st l F d \<longleftrightarrow>
     (case st of
        WaitBody \<Rightarrow> F = d @ CRLF \<and> d \<noteq> [] \<and> l = int (length d)
      | WaitFinal \<Rightarrow> F = CRLF \<and> d = []
      | WaitLine \<Rightarrow> \<exists>ds. (\<forall>c \<in> set ds. is_xdigit c) \<and> strtoul16 ds = length d \<and> length d < 2 ^ 63 \<and>
          F = ds @ CRLF @ d @ CRLF)"

definition arriving :: "chunk_cfg \<Rightarrow> upsgi_buffer \<Rightarrow> chunk_req \<Rightarrow> char list \<Rightarrow> char list \<Rightarrow> char list \<Rightarrow> bool" where
  "arriving cfg ub r F d R \<longleftrightarrow>
     loop_pre cfg ub r \<and> data_only r \<and> stream ub r = F @ R \<and>
     frame_at (chunked_input_parser_status r) (chunked_input_chunk_len r) F d \<and>
     (chunked_input_need r > 0 \<longrightarrow> ub_pos ub + chunked_input_need r \<le> length F)"

lemma content_prefix:
  assumes "ub_inv ub" "ub_content ub @ P = F @ R" "k \<le> length F" "k \<le> ub_pos ub"
  shows "take k (ub_buf ub) = take k F" "i < k \<Longrightarrow> ub_buf ub ! i = F ! i"
    "k = length F \<Longrightarrow> drop k (ub_content ub) @ P = R"
proof -
  have l: "length (ub_content ub) = ub_pos ub" using assms(1) by (simp add: ub_content_def ub_inv_def)
  have "take k (ub_content ub) = take k (ub_content ub @ P)" using assms(4) l by simp
  also have "\<dots> = take k F" unfolding assms(2) using assms(3) by simp
  finally show t: "take k (ub_buf ub) = take k F" using assms(4) by (simp add: ub_content_def min_absorb1)
  show "ub_buf ub ! i = F ! i" if "i < k" using t that by (metis nth_take)
  show "drop k (ub_content ub) @ P = R" if "k = length F"
  proof -
    have "drop k (ub_content ub) @ P = drop k (ub_content ub @ P)" using assms(4) l by simp
    then show ?thesis unfolding assms(2) using that by simp
  qed
qed

text \<open>The outcome of a parsing step on a chunk that arrives.\<close>

definition delivers ::
    "chunk_cfg \<Rightarrow> upsgi_buffer \<Rightarrow> chunk_req \<Rightarrow> char list \<Rightarrow> char list \<Rightarrow> nat \<Rightarrow>
     parse_ret \<times> upsgi_buffer \<times> chunk_req \<Rightarrow> bool" where
  "delivers cfg ub r d R m x \<longleftrightarrow>
     (case x of (ret, u, r1) \<Rightarrow> cr_reads r1 = cr_reads r \<and>
        (case ret of
           PContinue \<Rightarrow> \<exists>F. length F \<le> m \<and> stream u r1 = F @ R \<and>
             frame_at (chunked_input_parser_status r1) (chunked_input_chunk_len r1) F d \<and>
             ub_pos u + chunked_input_need r1 \<le> length F
         | PLen n \<Rightarrow> take n (ub_buf u) = d \<and>
             drop (chunked_input_decapitate r1) (ub_content u) @ cr_pending r1 = R
         | _ \<Rightarrow> False))"

lemma chunk_body_delivers:
  assumes "parse_pre cfg ub r" "stream ub r = d @ CRLF @ R" "d \<noteq> []"
    "chunked_input_chunk_len r = int (length d)"
  shows "delivers cfg ub r d R (length d + 2) (chunk_body ub r)"
proof (cases "length d + 2 > ub_pos ub")
  case True
  then show ?thesis using assms
    by (auto simp: chunk_body_def delivers_def frame_at_def intro!: exI [of _ "d @ CRLF"])
next
  case False
  have inv: "ub_inv ub" using assms(1) by (simp add: parse_pre_def ci_inv_def)
  note p = content_prefix [OF inv, of "cr_pending r" "d @ CRLF" R "length d + 2"]
  have "upsgi_chunked_require_crlf ub (length d) = Some True"
    using False inv assms(2) p(2) [of "length d"] p(2) [of "length d + 1"]
    by (simp add: upsgi_chunked_require_crlf_def ub_inv_def nth_append)
  moreover have "take (length d) (ub_buf ub) = d"
    using content_prefix(1) [OF inv, of "cr_pending r" "d @ CRLF" R "length d"] False assms(2) by simp
  ultimately show ?thesis
    using False assms p(3) by (simp add: chunk_body_def delivers_def Let_def)
qed

lemma final_crlf_delivers:
  assumes "parse_pre cfg ub r" "stream ub r = CRLF @ R"
  shows "delivers cfg ub r [] R 2 (upsgi_chunked_require_final_crlf ub r)"
proof (cases "ub_pos ub < 2")
  case True
  then show ?thesis using assms
    by (auto simp: upsgi_chunked_require_final_crlf_def delivers_def frame_at_def)
next
  case False
  have inv: "ub_inv ub" using assms(1) by (simp add: parse_pre_def ci_inv_def)
  note p = content_prefix [OF inv, of "cr_pending r" CRLF R 2]
  obtain u where u: "upsgi_buffer_decapitate ub 2 = Ok u" "ub_content u = drop 2 (ub_content ub)"
    using decapitate_Ok [OF inv, of 2] False by auto
  show ?thesis
    using False inv assms p(2) [of 0] p(2) [of 1] p(3) u
    by (simp add: upsgi_chunked_require_final_crlf_def delivers_def parse_pre_def ub_inv_def numeral_2_eq_2)
qed

lemma scan_prefix:
  "\<forall>c \<in> set ds. is_xdigit c \<Longrightarrow> cs @ P = ds @ CRLF @ X \<Longrightarrow>
   readline_scan cs i False = (if length cs < length ds + 2 then LineMore else LineEnd (i + length ds + 1))"
proof (induction ds arbitrary: cs i)
  case Nil
  then show ?case by (cases cs; cases "tl cs") auto
next
  case (Cons x ds)
  then show ?case by (cases cs) auto
qed

lemma chunk_parse_delivers:
  assumes "parse_pre cfg ub r" "stream ub r = F @ R"
    "frame_at (chunked_input_parser_status r) (chunked_input_chunk_len r) F d"
  shows "delivers cfg ub r d R (length F) (chunk_parse ub r)"
proof (cases "chunked_input_parser_status r")
  case WaitBody
  then show ?thesis using chunk_body_delivers [of cfg ub r d R] assms by (simp add: chunk_parse_def frame_at_def)
next
  case WaitFinal
  then show ?thesis using final_crlf_delivers [of cfg ub r R] assms
    by (simp add: chunk_parse_def frame_at_def numeral_2_eq_2)
next
  case st: WaitLine
  with assms(3) obtain ds where ds: "\<forall>c \<in> set ds. is_xdigit c" "strtoul16 ds = length d" "length d < 2 ^ 63"
    "F = ds @ CRLF @ d @ CRLF" by (auto simp: frame_at_def)
  have inv: "ub_inv ub" using assms(1) by (simp add: parse_pre_def ci_inv_def)
  have l: "length (ub_content ub) = ub_pos ub" using inv by (simp add: ub_content_def ub_inv_def)
  have str: "ub_content ub @ cr_pending r = ds @ CRLF @ (d @ CRLF @ R)" using assms(2) ds(4) by simp
  note sc = scan_prefix [OF ds(1) str, of 0, unfolded l]
  show ?thesis
  proof (cases rule: readline_spec [OF inv])
    case 1
    then show ?thesis using sc by (auto split: if_splits)
  next
    case 2
    then have "ub_pos ub < length ds + 2" using sc by (auto split: if_splits)
    with 2(1) assms(1,2) st ds show ?thesis
      by (auto simp: chunk_parse_def delivers_def frame_at_def parse_pre_def intro!: exI [of _ F])
  next
    case (3 ds' u)
    have "ds' = takeWhile is_xdigit (ub_content ub @ cr_pending r)"
      using 3(2,3) by (simp add: takeWhile_append2 takeWhile_eq_all_conv [THEN iffD2])
    also have "\<dots> = ds" unfolding str using ds(1) by (simp add: takeWhile_append2)
    finally have e: "ds' = ds" .
    define r1 where "r1 = r\<lparr>chunked_input_chunk_len := int (length d)\<rparr>"
    have s: "ssize (strtoul16 ds') = int (length d)" using e ds(2,3) by (simp add: ssize_def)
    have str1: "stream u r1 = d @ CRLF @ R" using str 3(3) e by (simp add: r1_def)
    have pre1: "parse_pre cfg u r1" using assms(1) 3 st by (simp add: parse_pre_def ci_inv_def r1_def)
    have fr: "delivers cfg ub r d R (length F) x" if "delivers cfg u r1 d R m x" "m \<le> length F" for x m
      using that by (cases x) (auto simp: delivers_def r1_def split: parse_ret.splits intro: order_trans)
    show ?thesis
    proof (cases "d = []")
      case True
      have p: "chunk_parse ub r = upsgi_chunked_require_final_crlf u r1"
        using 3(1) s True by (simp add: chunk_parse_def st r1_def)
      show ?thesis unfolding p
        using fr final_crlf_delivers [OF pre1] str1 True ds(4) by simp
    next
      case False
      have p: "chunk_parse ub r = chunk_body u r1"
        using 3(1) s False by (simp add: chunk_parse_def st r1_def)
      show ?thesis unfolding p
        using fr chunk_body_delivers [OF pre1 str1 False] ds(4) by (simp add: r1_def)
    qed
  qed
qed

text \<open>The configuration can hold \<open>m\<close> bytes of frame beside one page of read-ahead.\<close>

definition cfg_holds :: "chunk_cfg \<Rightarrow> nat \<Rightarrow> bool" where
  "cfg_holds cfg m \<longleftrightarrow> cfg_ok cfg \<and> 0 < page_size (cc_env cfg) \<and>
     (cc_limit cfg = 0 \<or> m + page_size (cc_env cfg) \<le> cc_limit cfg) \<and>
     (\<forall>n \<le> m + page_size (cc_env cfg). realloc_ok (cc_env cfg) n)"

lemma cfg_holds_mono: "cfg_holds cfg m \<Longrightarrow> k \<le> m \<Longrightarrow> cfg_holds cfg k"
  by (auto simp: cfg_holds_def)

definition iter_delivers :: "chunk_cfg \<Rightarrow> char list \<Rightarrow> char list \<Rightarrow> nat \<Rightarrow> iter_ret \<Rightarrow> bool" where
  "iter_delivers cfg d R m x \<longleftrightarrow>
     (case x of
        Continue u r1 \<Rightarrow> \<exists>F. length F \<le> m \<and> arriving cfg u r1 F d R
      | Return c u r1 \<Rightarrow> c = CGot d \<and> data_only r1 \<and>
          drop (chunked_input_decapitate r1) (ub_content u) @ cr_pending r1 = R)"

lemma after_read_delivers:
  assumes "arriving cfg ub r F d R" "0 < ub_pos ub"
  shows "iter_delivers cfg d R (length F) (chunk_after_read ub r)"
proof (cases "chunked_input_need r > 0")
  case True
  with assms show ?thesis by (auto simp: chunk_after_read_def iter_delivers_def)
next
  case False
  note a = assms(1) [unfolded arriving_def]
  have pre: "parse_pre cfg ub r" using a False by (simp add: parse_pre_def loop_pre_def)
  obtain ret u r1 where x: "chunk_parse ub r = (ret, u, r1)" using prod_cases3 by blast
  have ok: "parse_ok cfg ub r (ret, u, r1)" using chunk_parse_ok [OF pre] by (simp add: x)
  have dl: "delivers cfg ub r d R (length F) (ret, u, r1)"
    using chunk_parse_delivers [OF pre] a x by metis
  show ?thesis
    using ok dl a False assms(2)
    by (cases ret) (auto simp: chunk_after_read_def x iter_delivers_def delivers_def parse_ok_def
        arriving_def loop_pre_def data_only_def)
qed

lemma chunk_iter_delivers:
  assumes "cfg_holds cfg (length F)" "arriving cfg ub r F d R"
  shows "iter_delivers cfg d R (length F) (chunk_iter cfg nb ub r)"
proof (cases "chunked_input_need r > 0 \<or> ub_pos ub = 0")
  case False
  then show ?thesis using after_read_delivers [OF assms(2)] by (simp add: chunk_iter_def)
next
  case need: True
  note a = assms(2) [unfolded arriving_def] and cfg = assms(1) [unfolded cfg_holds_def]
  define m where "m = max (page_size (cc_env cfg)) (chunked_input_need r)"
  have pre: "loop_pre cfg ub r" using a by simp
  note ci = pre [unfolded loop_pre_def ci_inv_def]
  have "2 \<le> length F" using a by (auto simp: frame_at_def split: chunk_status.splits)
  then have short: "ub_pos ub < length F" and mb: "ub_pos ub + m \<le> length F + page_size (cc_env cfg)"
    using need a by (auto simp: m_def)
  have big: "ub_pos ub + m < 2 ^ 63" using cfg mb by (auto simp: cfg_ok_def)
  have fits: "ub_limit ub = 0 \<or> ub_pos ub + m \<le> ub_limit ub" using cfg mb ci by auto
  obtain v where v: "upsgi_buffer_ensure (cc_env cfg) ub m = Ok v"
    using ensure_total [of ub m "cc_env cfg"] ci big fits cfg mb by auto
  have e: "ub_inv v" "ub_pos v = ub_pos ub" "ub_pos ub + m \<le> ub_len v" "ub_len v < 2 ^ 63"
    using ensure_Ok(1,3,6,7) [OF _ _ v] ci big fits cfg by (auto simp: cfg_ok_def)
  have "0 < m" using cfg by (auto simp: m_def max_def)
  then have room: "ub_pos v < ub_len v" using e by simp
  have "length (ub_content ub) < length (F @ R)"
    using short ci by (simp add: ub_content_def ub_inv_def)
  then have "cr_pending r \<noteq> []" using a by (metis append_Nil2 less_irrefl)
  with recv_progress [OF e(1) _ _ room, of r cfg nb] e(4) a ci obtain n u r1 where
    x: "upsgi_chunked_input_recv cfg nb v r = (RecvGot n, u, r1)" and d1: "data_only r1" "0 < n" by auto
  have cfg1: "cfg_ok cfg" using cfg by simp
  note s = recv_step(4) [OF cfg1 pre v [unfolded m_def] x refl]
  let ?u = "u\<lparr>ub_pos := ub_pos u + n\<rparr>" and ?r = "r1\<lparr>chunked_input_need := chunked_input_need r1 - n\<rparr>"
  have "arriving cfg ?u ?r F d R"
    using s a d1 by (auto simp: arriving_def same_parser_def data_only_def)
  from after_read_delivers [OF this] d1(2) show ?thesis
    using need by (simp add: chunk_iter_def v [unfolded m_def] x)
qed

lemma chunked_loop_delivers:
  "cfg_holds cfg (length F) \<Longrightarrow> arriving cfg ub r F d R \<Longrightarrow>
   (case chunked_loop cfg nb ub r of (c, u, r1) \<Rightarrow> c = CGot d \<and> data_only r1 \<and>
      drop (chunked_input_decapitate r1) (ub_content u) @ cr_pending r1 = R)"
proof (induction cfg nb ub r arbitrary: F rule: chunked_loop.induct)
  case (1 cfg nb ub r)
  note i = chunk_iter_delivers [OF 1(2,3), of nb]
  show ?case
  proof (cases "chunk_iter cfg nb ub r")
    case (Continue u r1)
    with i obtain F' where F': "length F' \<le> length F" "arriving cfg u r1 F' d R"
      by (auto simp: iter_delivers_def)
    show ?thesis
      by (subst chunked_loop.simps)
         (use 1(1) [OF Continue cfg_holds_mono [OF 1(2) F'(1)] F'(2)] Continue in simp)
  next
    case (Return c u r1)
    with i show ?thesis by (subst chunked_loop.simps) (simp add: iter_delivers_def)
  qed
qed

lemma upsgi_chunked_read_delivers:
  assumes "cr_inv cfg r" "\<not> chunked_input_complete r" "chunked_input_need r = 0"
    "chunked_input_parser_status r = WaitLine" "data_only r"
    "\<forall>c \<in> set ds. is_xdigit c" "hex_val 0 ds = length d" "length d < 2 ^ 63"
    "cr_stream cfg r = ds @ CRLF @ d @ CRLF @ R" "cfg_holds cfg (length ds + length d + 4)"
  shows "\<exists>r1. upsgi_chunked_read cfg nb r = (CGot d, r1) \<and> cr_stream cfg r1 = R \<and> data_only r1"
proof -
  let ?ub = "chunk_buf cfg r" and ?r = "r\<lparr>chunked_input_decapitate := 0\<rparr>"
  have inv: "ub_inv ?ub" using assms(1) by (simp add: cr_inv_def ci_inv_def)
  obtain u where u: "(if chunked_input_decapitate r > 0
      then upsgi_buffer_decapitate ?ub (chunked_input_decapitate r) else Ok ?ub) = Ok u"
    "ci_inv cfg u ?r" "ub_content u = drop (chunked_input_decapitate r) (ub_content ?ub)"
    using assms(1) decapitate_Ok [OF inv, of "chunked_input_decapitate r"]
    by (cases "chunked_input_decapitate r > 0") (auto simp: cr_inv_def ci_inv_def)
  have w: "takeWhile is_xdigit ds = ds" using assms(6) by (simp add: takeWhile_eq_all_conv)
  have "strtoul16 ds = length d" unfolding strtoul16_def w using assms(7,8) by simp
  then have "arriving cfg u ?r (ds @ CRLF @ d @ CRLF) d R"
    using assms(2-9) u by (auto simp: arriving_def loop_pre_def frame_at_def data_only_def cr_stream_def)
  moreover have "cfg_holds cfg (length (ds @ CRLF @ d @ CRLF))"
    by (rule cfg_holds_mono [OF assms(10)]) simp
  ultimately obtain u1 r1 where l: "chunked_loop cfg nb u ?r = (CGot d, u1, r1)" and
    r1: "data_only r1" "drop (chunked_input_decapitate r1) (ub_content u1) @ cr_pending r1 = R"
    using chunked_loop_delivers [of cfg "ds @ CRLF @ d @ CRLF" u ?r d R nb]
    by (cases "chunked_loop cfg nb u ?r") auto
  have "upsgi_chunked_read cfg nb r = (CGot d, r1\<lparr>chunked_input_buf := Some u1\<rparr>)"
    using assms(2) by (simp add: upsgi_chunked_read_def Let_def u(1) l)
  with r1 show ?thesis by (simp add: cr_stream_def chunk_buf_def data_only_def)
qed

section \<open>Properties\<close>

lemma cr_inv_complete:
  "cr_inv cfg r \<Longrightarrow> chunked_input_complete r \<Longrightarrow>
   upsgi_chunked_read cfg nb r = (CGot [], r\<lparr>chunked_input_buf := Some (chunk_buf cfg r)\<rparr>) \<and>
   cr_inv cfg (r\<lparr>chunked_input_buf := Some (chunk_buf cfg r)\<rparr>)"
  by (simp add: upsgi_chunked_read_def cr_inv_def chunk_buf_def Let_def)


text \<open>A configuration and a request to exercise the reader on.\<close>

definition chunk_cfg0 :: chunk_cfg where
  "chunk_cfg0 = \<lparr>cc_env = env0, cc_limit = 64, cc_sched_on = True, cc_clock = (\<lambda>t. of_nat t)\<rparr>"

definition chunk_req0 :: "char list list \<Rightarrow> chunk_req" where
  "chunk_req0 reads =
     \<lparr>chunked_input_buf = None, chunked_input_chunk_len = 0, chunked_input_need = 0,
      chunked_input_parser_status = WaitLine, chunked_input_decapitate = 0,
      chunked_input_complete = False, body_chunked_buf = None, cr_remains = [],
      cr_reads = map RData reads, cr_waits = [], cr_sched = (fresh_req 0 True, fresh_core),
      cr_ticks = 0\<rparr>"

lemma chunk_cfg0_ok: "cfg_ok chunk_cfg0"
  by (simp add: cfg_ok_def chunk_cfg0_def env0_def)

lemma chunk_req0_inv: "cr_inv chunk_cfg0 (chunk_req0 reads)"
  using chunk_cfg0_ok fresh_inv
  by (simp add: cr_inv_def ci_inv_def chunk_req0_def chunk_buf_def upsgi_buffer_new_def ub_inv_def
      chunk_cfg0_def env0_def)


lemma strtoul16_exact:
  assumes "\<forall>c \<in> set ds. is_xdigit c" "strtoul16 ds = n" "n < 2 ^ 64 - 1"
  shows "hex_val 0 ds = n"
proof -
  have w: "takeWhile is_xdigit ds = ds" using assms(1) by (simp add: takeWhile_eq_all_conv)
  show ?thesis using assms(2,3) unfolding strtoul16_def w by (auto simp: min_def split: if_splits)
qed

definition hex_lines :: "char list list \<Rightarrow> char list" where
  "hex_lines ls = concat (map (\<lambda>l. l @ CRLF) ls)"

lemma framed_shape:
  "framed st l S d R \<Longrightarrow>
   (case st of
      WaitBody \<Rightarrow> S = d @ CRLF @ R \<and> l = int (length d)
    | WaitFinal \<Rightarrow> S = CRLF @ R \<and> d = []
    | WaitLine \<Rightarrow> \<exists>ls ds. S = hex_lines ls @ ds @ CRLF @ d @ CRLF @ R \<and>
        (\<forall>l \<in> set ls. (\<forall>c \<in> set l. is_xdigit c) \<and> hex_val 0 l = 2 ^ 64 - 2) \<and>
        (\<forall>c \<in> set ds. is_xdigit c) \<and> hex_val 0 ds = length d)"
proof (induction rule: framed.induct)
  case (framed_line ds n S d R l)
  then have "hex_val 0 ds = n" by (intro strtoul16_exact) auto
  with framed_line show ?case
    by (auto simp: hex_lines_def intro!: exI [of _ "[]"] exI [of _ ds])
next
  case (framed_last ds S d R l)
  then have "hex_val 0 ds = 0" by (intro strtoul16_exact) auto
  with framed_last show ?case
    by (auto simp: hex_lines_def intro!: exI [of _ "[]"] exI [of _ ds])
next
  case (framed_skip ds S d R l)
  from framed_skip.IH obtain ls ds' where h: "S = hex_lines ls @ ds' @ CRLF @ d @ CRLF @ R"
    "\<forall>l \<in> set ls. (\<forall>c \<in> set l. is_xdigit c) \<and> hex_val 0 l = 2 ^ 64 - 2"
    "\<forall>c \<in> set ds'. is_xdigit c" "hex_val 0 ds' = length d" by auto
  have "hex_val 0 ds = 2 ^ 64 - 2" using framed_skip by (intro strtoul16_exact) auto
  with h framed_skip show ?case
    by (auto simp: hex_lines_def intro!: exI [of _ "ds # ls"] exI [of _ ds'])
qed simp_all



definition chunk_pieces :: "char list list" where
  "chunk_pieces = [''2'', [CHR 0x0D], CHR 0x0A # ''h'', ''i'' @ CRLF @ ''0'', CRLF @ CRLF]"

lemma chunk_pieces_stream:
  "cr_stream chunk_cfg0 (chunk_req0 chunk_pieces) = ''2'' @ CRLF @ ''hi'' @ CRLF @ (''0'' @ CRLF @ CRLF)"
  by (simp add: cr_stream_def chunk_req0_def chunk_pieces_def pending_def chunk_buf_def
      upsgi_buffer_new_def ub_content_def)

lemma chunk_req0_frames:
  "data_only (chunk_req0 chunk_pieces)" "\<not> chunked_input_complete (chunk_req0 p)"
  "chunked_input_need (chunk_req0 p) = 0" "chunked_input_parser_status (chunk_req0 p) = WaitLine"
  by (auto simp: data_only_def chunk_req0_def chunk_pieces_def)

lemma hex_val_2: "\<forall>c \<in> set ''2''. is_xdigit c" "hex_val 0 ''2'' = length ''hi''"
  by (simp_all add: is_xdigit_def is_digit_def hex_val1_def)

lemma chunk_cfg0_holds: "m \<le> 32 \<Longrightarrow> cfg_holds chunk_cfg0 m"
  using chunk_cfg0_ok by (auto simp: cfg_holds_def chunk_cfg0_def env0_def)



section \<open>Reading a whole body\<close>

text \<open>A body on the wire: chunks with their size lines, then a size line of value zero.\<close>

definition wire :: "(char list \<times> char list) list \<Rightarrow> char list \<Rightarrow> char list" where
  "wire cs zs = concat (map (\<lambda>(ds, d). ds @ CRLF @ d @ CRLF) cs) @ zs @ CRLF @ CRLF"

definition wire_ok :: "(char list \<times> char list) list \<Rightarrow> char list \<Rightarrow> bool" where
  "wire_ok cs zs \<longleftrightarrow>
     (\<forall>(ds, d) \<in> set cs. (\<forall>c \<in> set ds. is_xdigit c) \<and> hex_val 0 ds = length d \<and> d \<noteq> [] \<and> length d < 2 ^ 63) \<and>
     (\<forall>c \<in> set zs. is_xdigit c) \<and> hex_val 0 zs = 0"

definition ready :: "chunk_cfg \<Rightarrow> chunk_req \<Rightarrow> bool" where
  "ready cfg r \<longleftrightarrow> cr_inv cfg r \<and> \<not> chunked_input_complete r \<and> chunked_input_need r = 0 \<and>
     chunked_input_parser_status r = WaitLine \<and> data_only r"

lemma ready_read:
  assumes "ready cfg r" "\<forall>c \<in> set ds. is_xdigit c" "hex_val 0 ds = length d" "length d < 2 ^ 63"
    "cr_stream cfg r = ds @ CRLF @ d @ CRLF @ R" "cfg_holds cfg (length ds + length d + 4)"
  shows "\<exists>r1. upsgi_chunked_read cfg nb r = (CGot d, r1) \<and> cr_stream cfg r1 = R \<and>
    (d \<noteq> [] \<longrightarrow> ready cfg r1) \<and> body_chunked_buf r1 = body_chunked_buf r"
proof -
  note a = assms(1) [unfolded ready_def]
  obtain r1 where r1: "upsgi_chunked_read cfg nb r = (CGot d, r1)" "cr_stream cfg r1 = R" "data_only r1"
    using upsgi_chunked_read_delivers [OF _ _ _ _ _ assms(2-6), of nb] a by auto
  with upsgi_chunked_read_ok [OF _ _ r1(1)] a show ?thesis by (auto simp: ready_def)
qed

lemma append_fits:
  assumes "ub_inv b" "ub_limit b = 0" "\<forall>n \<le> 2 * (ub_pos b + length d) + page_size env. realloc_ok env n"
  shows "\<exists>b1. upsgi_buffer_append env b d = Ok b1 \<and> ub_inv b1 \<and> ub_limit b1 = 0 \<and>
    ub_content b1 = ub_content b @ d"
proof -
  have g: "\<exists>g. append_grown env b (length d) = Ok g"
    using assms by (auto simp: append_grown_def ub_realloc_def ub_inv_def max_def Let_def)
  then obtain g where g: "append_grown env b (length d) = Ok g" by blast
  obtain w where w: "ub_memcpy g (ub_pos g) d = Ok w"
    using append_grown_Ok(1) [OF assms(1) g] ub_memcpy_in_range by blast
  have e: "upsgi_buffer_append env b d = Ok (w\<lparr>ub_pos := ub_pos w + length d\<rparr>)"
    by (simp add: upsgi_buffer_append_alt g w ub_advance_def)
  with ub.app_ok [OF assms(1) e] append_grown_Ok(4) [OF assms(1) g] ub_memcpy_Ok(3) [OF w] assms(2)
  show ?thesis by simp
qed

lemma smart_take_all:
  assumes "ub_inv body"
  shows "\<exists>ret b. smart_take cfg (upsgi_buffer_new (cc_env cfg) (ub_pos body)) body (ub_pos body) r =
      SBuf ret (r\<lparr>body_chunked_buf := Some b\<rparr>) \<and> ub_content ret = ub_content body"
proof -
  have "length (ub_content body) = ub_pos body" using assms by (simp add: ub_content_def ub_inv_def)
  then obtain u where "upsgi_buffer_append (cc_env cfg) (upsgi_buffer_new (cc_env cfg) (ub_pos body))
      (ub_content body) = Ok u" "ub_content u = ub_content body"
    using sink_new_exact [of "[ub_content body]" "ub_pos body" "cc_env cfg"] by auto
  moreover obtain b where "upsgi_buffer_decapitate body (ub_pos body) = Ok b"
    using decapitate_Ok [OF assms, of "ub_pos body"] by auto
  ultimately show ?thesis by (auto simp: smart_take_def ub_content_def [of body, symmetric])
qed

definition wire_room :: "chunk_cfg \<Rightarrow> (char list \<times> char list) list \<Rightarrow> char list \<Rightarrow> nat \<Rightarrow> bool" where
  "wire_room cfg cs zs n \<longleftrightarrow>
     (\<forall>(ds, d) \<in> set cs. cfg_holds cfg (length ds + length d + 4)) \<and> cfg_holds cfg (length zs + 4) \<and>
     (\<forall>k \<le> 2 * (n + length (concat (map snd cs))) + page_size (cc_env cfg). realloc_ok (cc_env cfg) k)"

lemma smart_all_reads:
  assumes "ready cfg r" "wire_ok cs zs" "cr_stream cfg r = wire cs zs @ R"
    "ub_inv body" "ub_limit body = 0" "wire_room cfg cs zs (ub_pos body)"
  shows "\<exists>ret r1. smart_all cfg body r = Some (SBuf ret r1) \<and> cr_stream cfg r1 = R \<and>
    ub_content ret = ub_content body @ concat (map snd cs)"
  using assms
proof (induction cs arbitrary: r body)
  case Nil
  then have "cr_stream cfg r = zs @ CRLF @ [] @ CRLF @ R" by (simp add: wire_def)
  from ready_read [OF Nil.prems(1) _ _ _ this, of False] Nil.prems(2,6) obtain r1 where
    r1: "upsgi_chunked_read cfg False r = (CGot [], r1)" "cr_stream cfg r1 = R"
    by (auto simp: wire_ok_def wire_room_def)
  obtain ret b where "smart_take cfg (upsgi_buffer_new (cc_env cfg) (ub_pos body)) body (ub_pos body) r1 =
      SBuf ret (r1\<lparr>body_chunked_buf := Some b\<rparr>)" "ub_content ret = ub_content body"
    using smart_take_all [OF Nil.prems(4)] by blast
  with r1 show ?case
    by (subst smart_all.simps) (simp add: cr_stream_def chunk_buf_def)
next
  case (Cons c cs)
  obtain ds d where c: "c = (ds, d)" by fastforce
  have d: "\<forall>c \<in> set ds. is_xdigit c" "hex_val 0 ds = length d" "d \<noteq> []" "length d < 2 ^ 63"
    using Cons.prems(2) by (auto simp: wire_ok_def c)
  have "cr_stream cfg r = ds @ CRLF @ d @ CRLF @ (wire cs zs @ R)"
    using Cons.prems(3) by (simp add: wire_def c)
  from ready_read [OF Cons.prems(1) d(1,2,4) this, of False] Cons.prems(6) d(3) obtain r1 where
    r1: "upsgi_chunked_read cfg False r = (CGot d, r1)" "cr_stream cfg r1 = wire cs zs @ R" "ready cfg r1"
    by (auto simp: wire_room_def c)
  have "\<forall>n \<le> 2 * (ub_pos body + length d) + page_size (cc_env cfg). realloc_ok (cc_env cfg) n"
    using Cons.prems(6) by (auto simp: wire_room_def c)
  from append_fits [OF Cons.prems(4,5) this] obtain b where
    b: "upsgi_buffer_append (cc_env cfg) body d = Ok b" "ub_inv b" "ub_limit b = 0"
      "ub_content b = ub_content body @ d" by blast
  have "ub_pos b = ub_pos body + length d"
    using arg_cong [OF b(4), of length] b(2) Cons.prems(4) by (simp add: ub_content_def ub_inv_def)
  then have room: "wire_room cfg cs zs (ub_pos b)"
    using Cons.prems(6) by (auto simp: wire_room_def c algebra_simps)
  have ok: "wire_ok cs zs" using Cons.prems(2) by (auto simp: wire_ok_def)
  from Cons.IH [OF r1(3) ok r1(2) b(2,3) room] obtain ret r2 where
    "smart_all cfg b r1 = Some (SBuf ret r2)" "cr_stream cfg r2 = R"
    "ub_content ret = ub_content b @ concat (map snd cs)" by blast
  then show ?case
    by (subst smart_all.simps) (simp add: r1(1) d(3) b(1,4) c)
qed



section \<open>Two departures\<close>

text \<open>The size line \<open>fffffffffffffffe\<close> is passed over without being taken as a size.\<close>

lemma skipped_line:
  assumes "parse_pre cfg ub r" "chunked_input_parser_status r = WaitLine"
    "\<forall>c \<in> set ds. is_xdigit c" "hex_val 0 ds = 2 ^ 64 - 2" "ub_content ub = ds @ CRLF @ rest"
  shows "\<exists>u r1. chunk_parse ub r = (PContinue, u, r1) \<and> ub_content u = rest \<and>
    chunked_input_parser_status r1 = WaitLine \<and> chunked_input_need r1 = 1"
proof -
  have inv: "ub_inv ub" using assms(1) by (simp add: parse_pre_def ci_inv_def)
  have sc: "readline_scan (ub_content ub) 0 False = LineEnd (length ds + 1)"
    using scan_line [OF assms(3), of rest 0] assms(5) by simp
  have w: "takeWhile is_xdigit ds = ds" using assms(3) by (simp add: takeWhile_eq_all_conv)
  show ?thesis
  proof (cases rule: readline_spec [OF inv])
    case (3 ds' u)
    have "ds' = takeWhile is_xdigit (ub_content ub)"
      using 3(2,3) by (simp add: takeWhile_append2 takeWhile_eq_all_conv [THEN iffD2])
    also have "\<dots> = ds" unfolding assms(5) using assms(3) by (simp add: takeWhile_append2)
    finally have e: "ds' = ds" .
    have "strtoul16 ds = 2 ^ 64 - 2" unfolding strtoul16_def w assms(4) by simp
    then have s: "ssize (strtoul16 ds') = -2" unfolding e by (simp add: ssize_def)
    have "ub_content u = rest" using 3(3) assms(5) e by simp
    with 3(1) s assms(1,2) show ?thesis by (simp add: chunk_parse_def parse_pre_def)
  qed (use sc in simp_all)
qed

lemma recv_unscheduled:
  assumes "\<not> cc_sched_on cfg" "cr_remains r = []" "cr_reads r = RData bs # evs" "bs \<noteq> []"
    "length bs \<le> size_sub (ub_len ub) (ub_pos ub)" "size_sub (ub_len ub) (ub_pos ub) < 2 ^ 64"
  shows "\<exists>s t. upsgi_chunked_input_recv cfg nb ub r =
    (case ub_memcpy ub (ub_pos ub) bs of
       Ok u \<Rightarrow> (RecvGot (length bs), u, r\<lparr>cr_reads := evs, cr_sched := s, cr_ticks := t\<rparr>)
     | _ \<Rightarrow> (RecvFault, ub, r\<lparr>cr_reads := evs, cr_ticks := t\<rparr>))"
proof -
  let ?n = "size_sub (ub_len ub) (ub_pos ub)"
  have "fst (read_budget False t q s) = q" for t q s
    by (simp add: read_budget_def Let_def)
  then obtain s1 where b: "read_budget False (cc_clock cfg (cr_ticks r)) (of_nat ?n) (cr_sched r) =
      (of_nat ?n, s1)" by (metis surjective_pairing)
  have u: "unat (of_nat ?n :: 64 word) = ?n" using assms(6) by (intro unat_of_nat_small) simp
  have r: "r\<lparr>cr_remains := []\<rparr> = r" using assms(2) by simp
  have p: "0 < ?n" using assms(4,5) by (cases bs) auto
  show ?thesis
    using assms(1-5) u p
    by (intro exI [of _ "note_bytes False (cc_clock cfg (cr_ticks r + 1)) (of_nat (length bs)) s1"]
          exI [of _ "cr_ticks r + 2"])
       (simp add: upsgi_chunked_input_recv_def recv_once_def b
        upsgi_proto_base_read_body_def r Let_def split: c_result.splits)
qed

definition small_cfg :: chunk_cfg where
  "small_cfg = chunk_cfg0\<lparr>cc_limit := 2, cc_sched_on := False\<rparr>"

lemma small_first:
  "\<exists>r1. chunk_iter small_cfg False (chunk_buf small_cfg (chunk_req0 [''1111'', ''2222'']))
      (chunk_req0 [''1111'', ''2222'']) =
    Continue \<lparr>ub_buf = ''1111'', ub_pos = 4, ub_limit = 2\<rparr> r1 \<and>
    chunked_input_need r1 = 1 \<and> cr_remains r1 = [] \<and> cr_reads r1 = [RData ''2222'']"
proof -
  let ?r = "chunk_req0 [''1111'', ''2222'']"
  let ?b = "chunk_buf small_cfg ?r"
  have f: "cc_env small_cfg = env0" "\<not> cc_sched_on small_cfg" "page_size env0 = 4"
    by (simp_all add: small_cfg_def chunk_cfg0_def env0_def)
  have b: "ub_len ?b = 4" "ub_pos ?b = 0" "ub_limit ?b = 2"
    by (simp_all add: chunk_buf_def chunk_req0_def upsgi_buffer_new_def f small_cfg_def [symmetric])
       (simp_all add: small_cfg_def)
  have n: "chunked_input_need ?r = 0" "cr_remains ?r = []" "cr_reads ?r = RData ''1111'' # [RData ''2222'']"
    "chunked_input_parser_status ?r = WaitLine"
    by (simp_all add: chunk_req0_def)
  have e: "upsgi_buffer_ensure env0 ?b 4 = Ok ?b" using b by (simp add: upsgi_buffer_ensure_def Let_def)
  let ?u = "\<lparr>ub_buf = ''1111'', ub_pos = 0, ub_limit = 2\<rparr>"
  have m: "ub_memcpy ?b 0 ''1111'' = Ok ?u"
    using b by (simp add: ub_memcpy_def mem_write_def)
  obtain s t where r: "upsgi_chunked_input_recv small_cfg False ?b ?r =
      (RecvGot 4, ?u, ?r\<lparr>cr_reads := [RData ''2222''], cr_sched := s, cr_ticks := t\<rparr>)"
    using recv_unscheduled [OF f(2) n(2,3), where ub = ?b and nb = False] b m by (auto simp: size_sub_def)
  have l: "upsgi_chunked_readline \<lparr>ub_buf = ''1111'', ub_pos = 4, ub_limit = 2\<rparr> =
      Some (-2, \<lparr>ub_buf = ''1111'', ub_pos = 4, ub_limit = 2\<rparr>)"
    by (simp add: upsgi_chunked_readline_def ub_content_def is_xdigit_def is_digit_def)
  show ?thesis
    using n by (simp add: chunk_iter_def f b e r chunk_after_read_def chunk_parse_def l Let_def)
qed

text \<open>the invariant's condition on the configuration is needed.  With a chunked-input limit
  below the page size, \<open>upsgi_buffer_ensure\<close> shrinks the block under the data already read, the
  room left wraps around, and the next read writes outside the block.\<close>

theorem upsgi_chunked_read_small_limit_overflow:
  "\<exists>cfg r. 0 < cc_limit cfg \<and> cc_limit cfg < page_size (cc_env cfg) \<and>
     fst (upsgi_chunked_read cfg False r) = CFault"
proof -
  let ?r = "chunk_req0 [''1111'', ''2222'']"
  let ?u = "\<lparr>ub_buf = ''1111'', ub_pos = 4, ub_limit = 2\<rparr>"
  let ?v = "\<lparr>ub_buf = ''11'', ub_pos = 4, ub_limit = 2\<rparr>"
  have f: "cc_env small_cfg = env0" "\<not> cc_sched_on small_cfg" "page_size env0 = 4"
    by (simp_all add: small_cfg_def chunk_cfg0_def env0_def)
  obtain r1 where i1: "chunk_iter small_cfg False (chunk_buf small_cfg ?r) ?r = Continue ?u r1"
    and r1: "chunked_input_need r1 = 1" "cr_remains r1 = []" "cr_reads r1 = [RData ''2222'']"
    using small_first by blast
  have e: "upsgi_buffer_ensure env0 ?u 4 = Ok ?v"
    by (simp add: upsgi_buffer_ensure_def ub_realloc_def env0_def fresh_block_def size_add_def Let_def)
  have "ub_memcpy ?v 4 ''2222'' = Fault" by (simp add: ub_memcpy_def mem_write_def)
  then obtain r2 where "upsgi_chunked_input_recv small_cfg False ?v r1 = (RecvFault, ?v, r2)"
    using recv_unscheduled [OF f(2) r1(2,3), where ub = ?v and nb = False] by (auto simp: size_sub_def)
  then have i2: "chunk_iter small_cfg False ?u r1 = Return CFault ?v r2"
    by (simp add: chunk_iter_def f r1(1) e)
  have z: "?r\<lparr>chunked_input_decapitate := 0\<rparr> = ?r" "\<not> chunked_input_complete ?r"
    "chunked_input_decapitate ?r = 0" by (simp_all add: chunk_req0_def)
  have "chunked_loop small_cfg False (chunk_buf small_cfg ?r) ?r = (CFault, ?v, r2)"
    by (subst chunked_loop.simps, simp add: i1, subst chunked_loop.simps, simp add: i2)
  then have "fst (upsgi_chunked_read small_cfg False ?r) = CFault"
    by (simp add: upsgi_chunked_read_def z Let_def)
  moreover have "0 < cc_limit small_cfg" "cc_limit small_cfg < page_size (cc_env small_cfg)"
    by (simp_all add: small_cfg_def chunk_cfg0_def env0_def)
  ultimately show ?thesis by blast
qed

end
