(* ===== verification/Upsgi_Strings.thy ===== *)
theory Upsgi_Strings
  imports Upsgi_Codec
begin

text \<open>
  The string helpers of \<open>core/strings.c\<close>.  A sized string is the list of its bytes; a C string
  argument is the list up to its terminating zero, and a returned C string is the block with
  the zero at its end.  Comparisons return 0 for equal and 1 otherwise: the callers only test
  for zero, and the sign of \<open>memcmp\<close> is not part of the model.  A search that returns a pointer
  returns the index, \<open>None\<close> for \<open>NULL\<close>.
\<close>

section \<open>Splitting and counting\<close>

text \<open>The loop keeps the index of the current item and the bytes of it seen so far.\<close>

fun split_nget_loop :: "char list \<Rightarrow> char \<Rightarrow> nat \<Rightarrow> nat \<Rightarrow> char list \<Rightarrow> char list option" where
  "split_nget_loop [] what pos current chosen =
     (if current = pos then (if chosen = [] then None else Some chosen) else None)"
| "split_nget_loop (c # cs) what pos current chosen =
     (if c = what then
        (if current = pos then (if chosen = [] then None else Some chosen)
         else split_nget_loop cs what pos (current + 1) [])
      else split_nget_loop cs what pos current (chosen @ [c]))"

definition upsgi_str_split_nget :: "char list \<Rightarrow> char \<Rightarrow> nat \<Rightarrow> char list option" where
  "upsgi_str_split_nget str what pos = split_nget_loop str what pos 0 []"

fun upsgi_str_occurence :: "char list \<Rightarrow> char \<Rightarrow> nat" where
  "upsgi_str_occurence [] what = 0"
| "upsgi_str_occurence (c # cs) what =
     (if c = what then 1 else 0) + upsgi_str_occurence cs what"

text \<open>The index of the first item equal to the key.\<close>

fun upsgi_string_list_has_item :: "char list list \<Rightarrow> char list \<Rightarrow> nat option" where
  "upsgi_string_list_has_item [] key = None"
| "upsgi_string_list_has_item (v # usl) key =
     (if length key = length v \<and> key = v then Some 0
      else map_option Suc (upsgi_string_list_has_item usl key))"

definition upsgi_lower :: "char list \<Rightarrow> char list" where
  "upsgi_lower str = map tolower str"

fun upsgi_str_contains :: "char list \<Rightarrow> char \<Rightarrow> nat option" where
  "upsgi_str_contains [] what = None"
| "upsgi_str_contains (c # cs) what =
     (if c = what then Some 0 else map_option Suc (upsgi_str_contains cs what))"

text \<open>\<open>p\<close> is what is left of \<open>s2\<close> from \<open>ptr\<close> on; with an empty needle the first round reads
  \<open>s2[0]\<close>, which is outside it (\<open>None\<close>).\<close>

fun contains_n_loop :: "char list \<Rightarrow> char list \<Rightarrow> char list \<Rightarrow> bool option" where
  "contains_n_loop [] s2 p = Some False"
| "contains_n_loop (c # cs) s2 p =
     (case p of
        [] \<Rightarrow> None
      | x # xs \<Rightarrow>
          if c = x then (if xs = [] then Some True else contains_n_loop cs s2 xs)
          else contains_n_loop cs s2 s2)"

definition upsgi_contains_n :: "char list \<Rightarrow> char list \<Rightarrow> bool option" where
  "upsgi_contains_n s1 s2 = contains_n_loop s1 s2 s2"

section \<open>Comparing\<close>

definition upsgi_strncmp :: "char list \<Rightarrow> char list \<Rightarrow> nat" where
  "upsgi_strncmp src dst = (if length src \<noteq> length dst then 1 else if src = dst then 0 else 1)"

text \<open>\<open>strncasecmp\<close> on two strings of the same size: it stops at a zero byte.\<close>

fun strncasecmp :: "char list \<Rightarrow> char list \<Rightarrow> nat" where
  "strncasecmp (a # as) (b # bs) =
     (if tolower a \<noteq> tolower b then 1 else if a = CHR 0x00 then 0 else strncasecmp as bs)"
| "strncasecmp _ _ = 0"

definition upsgi_strnicmp :: "char list \<Rightarrow> char list \<Rightarrow> nat" where
  "upsgi_strnicmp src dst = (if length src \<noteq> length dst then 1 else strncasecmp src dst)"

definition upsgi_starts_with :: "char list \<Rightarrow> char list \<Rightarrow> int" where
  "upsgi_starts_with src dst =
     (if length src < length dst then -1 else if take (length dst) src = dst then 0 else 1)"

text \<open>Unsized: comparing past the end of \<open>src\<close> reads outside it.\<close>

definition upsgi_startswith :: "char list \<Rightarrow> char list \<Rightarrow> nat option" where
  "upsgi_startswith src what =
     (if length src < length what then None else Some (if take (length what) src = what then 0 else 1))"

section \<open>Concatenating\<close>

abbreviation NUL :: char where "NUL \<equiv> CHR 0x00"

definition cstr :: "char list \<Rightarrow> char list" where
  "cstr s = takeWhile (\<lambda>c. c \<noteq> NUL) s"

text \<open>The variadic forms stop at a null item or after \<open>c\<close> items.\<close>

fun va_items :: "nat \<Rightarrow> char list option list \<Rightarrow> char list list" where
  "va_items (Suc j) (Some x # xs) = x # va_items j xs"
| "va_items _ _ = []"

definition upsgi_concatn :: "nat \<Rightarrow> char list option list \<Rightarrow> char list" where
  "upsgi_concatn c items = concat (va_items c items) @ [NUL]"

definition upsgi_concat :: "nat \<Rightarrow> char list option list \<Rightarrow> char list" where
  "upsgi_concat c items = concat (map cstr (va_items c items)) @ [NUL]"

definition upsgi_concat2n :: "char list \<Rightarrow> char list \<Rightarrow> char list" where
  "upsgi_concat2n one two = one @ two @ [NUL]"

definition upsgi_concat2nn :: "char list \<Rightarrow> char list \<Rightarrow> char list \<times> nat" where
  "upsgi_concat2nn one two = (one @ two @ [NUL], length one + length two + 1)"

definition upsgi_concat3n :: "char list \<Rightarrow> char list \<Rightarrow> char list \<Rightarrow> char list" where
  "upsgi_concat3n one two three = one @ two @ three @ [NUL]"

definition upsgi_concat4n :: "char list \<Rightarrow> char list \<Rightarrow> char list \<Rightarrow> char list \<Rightarrow> char list" where
  "upsgi_concat4n one two three four = one @ two @ three @ four @ [NUL]"

definition upsgi_concat2 :: "char list \<Rightarrow> char list \<Rightarrow> char list" where
  "upsgi_concat2 one two = cstr one @ cstr two @ [NUL]"

definition upsgi_concat3 :: "char list \<Rightarrow> char list \<Rightarrow> char list \<Rightarrow> char list" where
  "upsgi_concat3 one two three = cstr one @ cstr two @ cstr three @ [NUL]"

definition upsgi_concat4 :: "char list \<Rightarrow> char list \<Rightarrow> char list \<Rightarrow> char list \<Rightarrow> char list" where
  "upsgi_concat4 one two three four = cstr one @ cstr two @ cstr three @ cstr four @ [NUL]"

definition upsgi_strncopy :: "char list \<Rightarrow> char list" where
  "upsgi_strncopy s = s @ [NUL]"

text \<open>In place: the \<open>len\<close> bytes at \<open>pos\<close> of the block move back by one, byte by byte, and a zero
  takes the last place.  \<open>None\<close> is an access outside the block.\<close>

fun cheap_loop :: "char list \<Rightarrow> nat \<Rightarrow> nat \<Rightarrow> nat \<Rightarrow> char list" where
  "cheap_loop m pos 0 i = m"
| "cheap_loop m pos (Suc n) i = cheap_loop (m[pos - 1 + i := m ! (pos + i)]) pos n (i + 1)"

definition upsgi_cheap_string :: "char list \<Rightarrow> nat \<Rightarrow> nat \<Rightarrow> char list option" where
  "upsgi_cheap_string m pos len =
     (if pos = 0 \<or> pos + len > length m then None
      else Some ((cheap_loop m pos len 0)[pos + len - 1 := NUL]))"

section \<open>Splitting quoted text\<close>

datatype quote_status = QPlain | QSingle | QDouble | QBsPlain | QBsSingle | QBsDouble

text \<open>\<open>item\<close> is \<open>None\<close> when the next byte opens an item.  \<open>strchr(sep, c)\<close> also finds the
  terminating zero of \<open>sep\<close>.\<close>

definition is_sep :: "char list \<Rightarrow> char \<Rightarrow> bool" where
  "is_sep sep c \<longleftrightarrow> c \<in> set (cstr sep) \<or> c = NUL"

fun quoted_step :: "char list \<Rightarrow> quote_status \<Rightarrow> char list \<Rightarrow> char \<Rightarrow> quote_status \<times> char list \<times> bool" where
  "quoted_step sep QPlain item c =
     (if c = CHR 0x5C then (QBsPlain, item, False)
      else if c = CHR 0x22 then (QDouble, item, False)
      else if c = CHR 0x27 then (QSingle, item, False)
      else if is_sep sep c then (QPlain, item, True)
      else (QPlain, item @ [c], False))"
| "quoted_step sep QBsPlain item c = (QPlain, item @ [c], False)"
| "quoted_step sep QSingle item c =
     (if c = CHR 0x5C then (QBsSingle, item, False)
      else if c = CHR 0x27 then (QPlain, item, False)
      else (QSingle, item @ [c], False))"
| "quoted_step sep QDouble item c =
     (if c = CHR 0x5C then (QBsDouble, item, False)
      else if c = CHR 0x22 then (QPlain, item, False)
      else (QDouble, item @ [c], False))"
| "quoted_step sep QBsSingle item c = (QSingle, item @ [c], False)"
| "quoted_step sep QBsDouble item c = (QDouble, item @ [c], False)"

fun quoted_loop :: "char list \<Rightarrow> char list \<Rightarrow> quote_status \<Rightarrow> char list option \<Rightarrow> char list list" where
  "quoted_loop sep [] st item = (case item of None \<Rightarrow> [] | Some x \<Rightarrow> [x])"
| "quoted_loop sep (c # cs) st item =
     (case quoted_step sep st (case item of None \<Rightarrow> [] | Some x \<Rightarrow> x) c of (st', x, done) \<Rightarrow>
        if done then x # quoted_loop sep cs st' None else quoted_loop sep cs st' (Some x))"

text \<open>The items, without the zero that ends each.\<close>

definition upsgi_split_quoted :: "char list \<Rightarrow> char list \<Rightarrow> char list list" where
  "upsgi_split_quoted what sep = quoted_loop sep what QPlain None"

text \<open>\<open>strrchr\<close> and \<open>memrchr\<close>.\<close>

fun last_index :: "char list \<Rightarrow> char \<Rightarrow> nat option" where
  "last_index [] c = None"
| "last_index (x # xs) c =
     (case last_index xs c of Some i \<Rightarrow> Some (Suc i) | None \<Rightarrow> if x = c then Some 0 else None)"

definition upsgi_get_last_char :: "char list \<Rightarrow> char \<Rightarrow> nat option" where
  "upsgi_get_last_char what c = last_index (cstr what @ [NUL]) c"

definition upsgi_get_last_charn :: "char list \<Rightarrow> char \<Rightarrow> nat option" where
  "upsgi_get_last_charn what c = last_index what c"

section \<open>Properties\<close>

lemma contains_first: "c \<notin> set xs \<Longrightarrow> upsgi_str_contains (xs @ c # ys) c = Some (length xs)"
  by (induction xs) auto

text \<open>The items between separators.\<close>

fun split_on :: "char \<Rightarrow> char list \<Rightarrow> char list list" where
  "split_on w [] = [[]]"
| "split_on w (c # cs) =
     (if c = w then [] # split_on w cs
      else (case split_on w cs of [] \<Rightarrow> [[c]] | x # xs \<Rightarrow> (c # x) # xs))"

lemma split_on_nonempty [simp]: "split_on w cs \<noteq> []"
  by (induction cs) (auto split: list.splits)

lemma split_nget_loop_spec:
  assumes "current \<le> pos"
  shows "split_nget_loop cs w pos current chosen =
    (let xs = (chosen @ hd (split_on w cs)) # tl (split_on w cs) in
     if pos - current < length xs \<and> xs ! (pos - current) \<noteq> [] then Some (xs ! (pos - current)) else None)"
  using assms
proof (induction cs arbitrary: current chosen)
  case Nil
  then show ?case by (auto simp: Let_def)
next
  case (Cons c cs)
  obtain x xs where sp: "split_on w cs = x # xs" by (cases "split_on w cs") auto
  show ?case
  proof (cases "c = w \<and> current \<noteq> pos")
    case True
    then have "pos - current = Suc (pos - (current + 1))" using Cons.prems by arith
    with True Cons.IH [of "current + 1" "[]"] Cons.prems show ?thesis by (simp add: sp Let_def)
  next
    case False
    with Cons.IH [of current "chosen @ [c]"] Cons.prems show ?thesis
      by (auto simp: sp Let_def)
  qed
qed

text \<open>the n-th item of a separated string is the n-th element of the list obtained by cutting
  the string at every separator, if it exists and is not empty.\<close>

theorem upsgi_str_split_nget_spec:
  "upsgi_str_split_nget str w pos =
     (if pos < length (split_on w str) \<and> split_on w str ! pos \<noteq> [] then Some (split_on w str ! pos) else None)"
  using split_nget_loop_spec [of 0 pos str w "[]"]
  by (simp add: upsgi_str_split_nget_def Let_def hd_Cons_tl)

text \<open>The loop never backtracks: a hit is a real one, but some are missed.\<close>

lemma contains_n_loop_sound:
  "contains_n_loop cs s2 p = Some True \<Longrightarrow> s2 = q @ p \<Longrightarrow>
   \<exists>a b. q @ cs = a @ s2 @ b"
proof (induction cs arbitrary: p q)
  case Nil
  then show ?case by simp
next
  case (Cons c cs)
  then obtain x xs where p: "p = x # xs" by (cases p) auto
  consider (last) "c = x" "xs = []" | (more) "c = x" "contains_n_loop cs s2 xs = Some True"
    | (restart) "contains_n_loop cs s2 s2 = Some True"
    using Cons.prems(1) p by (auto split: if_splits)
  then show ?case
  proof cases
    case last
    with Cons.prems(2) p show ?thesis by (intro exI [of _ "[]"] exI [of _ cs]) simp
  next
    case more
    with Cons.IH [of xs "q @ [x]"] Cons.prems(2) p show ?thesis by simp
  next
    case restart
    with Cons.IH [of s2 "[]"] obtain a b where "cs = a @ s2 @ b" by auto
    then show ?thesis by (intro exI [of _ "q @ c # a"] exI [of _ b]) simp
  qed
qed

lemma upsgi_contains_n_sound: "upsgi_contains_n s1 s2 = Some True \<Longrightarrow> \<exists>a b. s1 = a @ s2 @ b"
  using contains_n_loop_sound [of s1 s2 s2 "[]"] by (simp add: upsgi_contains_n_def)

text \<open>the substring search reports only real occurrences, but it does not report all of them:
  it restarts after a mismatch without looking at the mismatching byte again.\<close>

theorem upsgi_contains_n_incomplete:
  "(\<forall>s1 s2. upsgi_contains_n s1 s2 = Some True \<longrightarrow> (\<exists>a b. s1 = a @ s2 @ b)) \<and>
   upsgi_contains_n ''aab'' ''ab'' = Some False"
  using upsgi_contains_n_sound by (simp add: upsgi_contains_n_def)

theorem upsgi_contains_n_incomplete_witness:
  "upsgi_contains_n ''xaby'' ''ab'' = Some True \<and> (\<exists>a b. ''xaby'' = a @ ''ab'' @ b)"
proof -
  have h: "upsgi_contains_n ''xaby'' ''ab'' = Some True" by (simp add: upsgi_contains_n_def)
  with upsgi_contains_n_incomplete show ?thesis by blast
qed

lemma cheap_loop_spec:
  assumes "0 < pos" "pos + i + n \<le> length m"
  shows "cheap_loop m pos n i =
    take (pos - 1 + i) m @ take n (drop (pos + i) m) @ drop (pos - 1 + i + n) m"
  using assms
proof (induction n arbitrary: m i)
  case 0
  then show ?case by simp
next
  case (Suc n)
  let ?m = "m[pos - 1 + i := m ! (pos + i)]"
  have l: "pos - 1 + i < length m" "pos + i < length m" "pos - 1 + (i + 1) = pos + i"
    "pos - 1 + i + Suc n = pos + i + n" using Suc.prems by auto
  have "take (Suc (pos - 1 + i)) ?m = take (pos - 1 + i) ?m @ [?m ! (pos - 1 + i)]"
    using l(1) by (intro take_Suc_conv_app_nth) simp
  moreover have "Suc (pos - 1 + i) = pos + i" using Suc.prems(1) by simp
  ultimately have t: "take (pos + i) ?m = take (pos - 1 + i) m @ [m ! (pos + i)]"
    using l(1) by simp
  have d: "drop k ?m = drop k m" if "pos + i \<le> k" for k using that l(3) by simp
  have "cheap_loop m pos (Suc n) i = cheap_loop ?m pos n (i + 1)" by simp
  also have "\<dots> = take (pos + i) ?m @ take n (drop (pos + (i + 1)) ?m) @ drop (pos + i + n) ?m"
    using Suc.IH [of "i + 1" ?m] Suc.prems l by simp
  also have "\<dots> = take (pos - 1 + i) m @ (m ! (pos + i) # take n (drop (pos + (i + 1)) m)) @ drop (pos + i + n) m"
    using t d [of "pos + (i + 1)"] d [of "pos + i + n"] by (simp del: drop_update_cancel)
  also have "m ! (pos + i) # take n (drop (pos + (i + 1)) m) = take (Suc n) (drop (pos + i) m)"
    using l(2) by (simp add: Cons_nth_drop_Suc [symmetric])
  finally show ?case using l(4) by simp
qed

text \<open>the in-place trick leaves, one byte earlier, exactly the bytes of the string followed by
  a zero, and touches nothing else.\<close>

theorem upsgi_cheap_string_moves:
  assumes "0 < pos" "0 < len" "pos + len \<le> length m"
  shows "upsgi_cheap_string m pos len =
    Some (take (pos - 1) m @ take len (drop pos m) @ [NUL] @ drop (pos + len) m)"
proof -
  let ?x = "take (pos - 1) m @ take len (drop pos m)"
  have l: "length ?x = pos + len - 1" using assms by simp
  have "drop (pos - 1 + len) m = m ! (pos + len - 1) # drop (pos + len) m"
    using assms Cons_nth_drop_Suc [of "pos + len - 1" m] by simp
  then have "cheap_loop m pos len 0 = ?x @ m ! (pos + len - 1) # drop (pos + len) m"
    using cheap_loop_spec [of pos 0 len m] assms by simp
  then have "(cheap_loop m pos len 0)[pos + len - 1 := NUL] = ?x @ NUL # drop (pos + len) m"
    by (simp only: l [symmetric] list_update_length)
  with assms show ?thesis by (simp add: upsgi_cheap_string_def)
qed

theorem upsgi_cheap_string_moves_witness:
  "upsgi_cheap_string ''.key=v'' 1 3 = Some (''key'' @ [NUL] @ ''=v'')"
  using upsgi_cheap_string_moves [of 1 3 "''.key=v''"] by simp

text \<open>A writer for the quoted form: double quotes around, a backslash before each byte that needs it.\<close>

definition quote_char :: "char \<Rightarrow> char list" where
  "quote_char c = (if c = CHR 0x5C \<or> c = CHR 0x22 then [CHR 0x5C, c] else [c])"

definition quote_item :: "char list \<Rightarrow> char list" where
  "quote_item x = CHR 0x22 # concat (map quote_char x) @ [CHR 0x22]"

fun join_quoted :: "char \<Rightarrow> char list list \<Rightarrow> char list" where
  "join_quoted s [] = []"
| "join_quoted s [x] = quote_item x"
| "join_quoted s (x # y # xs) = quote_item x @ s # join_quoted s (y # xs)"

lemma quoted_loop_body:
  "quoted_loop sep (concat (map quote_char x) @ rest) QDouble (Some acc) =
   quoted_loop sep rest QDouble (Some (acc @ x))"
  by (induction x arbitrary: acc) (auto simp: quote_char_def)

lemma quoted_loop_item:
  "quoted_loop sep (quote_item x @ rest) QPlain None = quoted_loop sep rest QPlain (Some x)"
  by (simp add: quote_item_def quoted_loop_body)

lemma quoted_loop_join:
  assumes "is_sep sep s" "s \<noteq> CHR 0x5C" "s \<noteq> CHR 0x22" "s \<noteq> CHR 0x27"
  shows "quoted_loop sep (join_quoted s xs) QPlain None = xs"
proof (induction xs rule: induct_list012)
  case 1
  then show ?case by simp
next
  case (2 x)
  then show ?case using quoted_loop_item [of sep x "[]"] by simp
next
  case (3 x y xs)
  then show ?case using assms by (simp add: quoted_loop_item)
qed

text \<open>splitting quoted text undoes quoting: any list of strings, whatever bytes they hold,
  written in double quotes with backslashes and joined by one of the separators, is split back
  into exactly those strings.\<close>

theorem upsgi_split_quoted_roundtrip:
  assumes "is_sep sep s" "s \<noteq> CHR 0x5C" "s \<noteq> CHR 0x22" "s \<noteq> CHR 0x27"
  shows "upsgi_split_quoted (join_quoted s xs) sep = xs"
  using quoted_loop_join [OF assms] by (simp add: upsgi_split_quoted_def)

theorem upsgi_split_quoted_roundtrip_witness:
  "upsgi_split_quoted (join_quoted (CHR 0x3B) [''a b'', [CHR 0x22], []]) [CHR 0x3B] = [''a b'', [CHR 0x22], []]"
  by (rule upsgi_split_quoted_roundtrip) (simp_all add: is_sep_def cstr_def)

end
