(* ===== verification/Upsgi_Protocol.thy ===== *)
theory Upsgi_Protocol
  imports Upsgi_ProtoBase Upsgi_BodySched Upsgi_Strings "HOL-Library.Monad_Syntax"
begin

text \<open>
  The request packet and the variables in it, \<open>core/protocol.c\<close>: the readers of a packet
  (\<open>upsgi_parse_vars\<close> with its hooks, \<open>upsgi_simple_parse_vars\<close>, \<open>upsgi_hooked_parse\<close> and the
  array forms), the writers that extend it (\<open>upsgi_req_append\<close>), the choice of the application
  by mount point, and the transformation of a raw response.

  A reader works on the bytes from \<open>ptrbuf\<close> to \<open>bufferend\<close>; a sized string field of
  \<open>struct wsgi_request\<close> is the list of its bytes, empty when it is not set; \<open>hvec\<close> with \<open>var_cnt\<close>
  is the list of the entries counted so far.  \<open>Ok\<close> is a return of 0, \<open>Err\<close> of -1, \<open>Fault\<close> an
  access or a conversion that C leaves undefined.  The scheduler state carries \<open>post_cl\<close> and
  \<open>body_is_chunked\<close>.
\<close>

section \<open>Numbers\<close>

fun content_length_loop :: "char list \<Rightarrow> nat \<Rightarrow> nat option" where
  "content_length_loop [] v = Some v"
| "content_length_loop (c # cs) v =
     (if schar c < 48 \<or> schar c > 57 then None
      else (let d = nat (schar c - 48) in
            if v > (size_max - d) div 10 then None else content_length_loop cs (v * 10 + d)))"

definition get_content_length :: "char list \<Rightarrow> nat option" where
  "get_content_length buf = (if buf = [] then None else content_length_loop buf 0)"

datatype upsgi_range = RANGE_NOT_PARSED | RANGE_PARSED | RANGE_VALID | RANGE_INVALID

abbreviation int64_max :: "64 word" where "int64_max \<equiv> 0x7FFFFFFFFFFFFFFF"

text \<open>\<open>None\<close>: a number of twenty or more digits, whose power of ten does not fit the conversion.\<close>

definition upsgi_parse_http_range :: "char list \<Rightarrow> (upsgi_range \<times> 64 word \<times> 64 word) option" where
  "upsgi_parse_http_range buf =
     (let b = takeWhile (\<lambda>c. c \<noteq> CHR '','') buf in
      if length b < 8 then Some (RANGE_INVALID, 0, 0)
      else if upsgi_str_contains b (CHR ''='') \<noteq> Some 5 then Some (RANGE_INVALID, 0, 0)
      else if take 5 b \<noteq> ''bytes'' then Some (RANGE_INVALID, 0, 0)
      else
       (let range = drop 6 b in
        case upsgi_str_contains range (CHR ''-'') of
          None \<Rightarrow> Some (RANGE_INVALID, 0, 0)
        | Some dash \<Rightarrow>
            if dash \<noteq> 0 then
              do {
                from \<leftarrow> upsgi_str_num (take dash range);
                to \<leftarrow> (if dash = length range - 1 then Some int64_max
                       else upsgi_str_num (drop (dash + 1) range));
                Some (if from \<le>s to then (RANGE_PARSED, from, to) else (RANGE_INVALID, 0, 0))
              }
            else
              do {
                n \<leftarrow> upsgi_str_num (drop 1 range);
                Some (if - n <s 0 then (RANGE_PARSED, - n, int64_max) else (RANGE_INVALID, - n, 0))
              }))"

section \<open>The request\<close>

record proto_cfg =
  pc_vec_size :: nat
  pc_limit_post :: nat
  pc_honour_range :: bool
  pc_dynamic_apps :: bool
  pc_log_x_forwarded_for :: bool
  pc_sched_on :: bool
  pc_now :: "64 word"
  pc_fopen :: "char list \<Rightarrow> bool"

record wsgi_req =
  rq_hvec :: "char list list"
  rq_body :: body_state
  rq_has_content_length :: bool
  rq_path_info :: "char list"
  rq_path_info_pos :: int
  rq_script_name :: "char list"
  rq_script_name_pos :: int
  rq_https :: "char list"
  rq_host :: "char list"
  rq_uri :: "char list"
  rq_remote_user :: "char list"
  rq_remote_addr :: "char list"
  rq_cookie :: "char list"
  rq_appid :: "char list"
  rq_chdir :: "char list"
  rq_http_origin :: "char list"
  rq_query_string :: "char list"
  rq_content_type :: "char list"
  rq_referer :: "char list"
  rq_scheme :: "char list"
  rq_script :: "char list"
  rq_module :: "char list"
  rq_callable :: "char list"
  rq_home :: "char list"
  rq_file :: "char list"
  rq_document_root :: "char list"
  rq_method :: "char list"
  rq_protocol :: "char list"
  rq_user_agent :: "char list"
  rq_authorization :: "char list"
  rq_touch_reload :: "char list"
  rq_if_modified_since :: "char list"
  rq_if_range :: "char list"
  rq_encoding :: "char list"
  rq_http_sec_websocket_key :: "char list"
  rq_http_sec_websocket_protocol :: "char list"
  rq_dynamic :: bool
  rq_range_parsed :: upsgi_range
  rq_range_from :: "64 word"
  rq_range_to :: "64 word"
  rq_setenv :: "(char list \<times> char list) list"
  rq_post_file :: "char list option"

abbreviation rq_post_cl :: "wsgi_req \<Rightarrow> 64 word" where
  "rq_post_cl r \<equiv> post_cl (fst (rq_body r))"

abbreviation rq_body_is_chunked :: "wsgi_req \<Rightarrow> bool" where
  "rq_body_is_chunked r \<equiv> body_is_chunked (fst (rq_body r))"

definition note_body :: "proto_cfg \<Rightarrow> wsgi_req \<Rightarrow> wsgi_req" where
  "note_body cfg r = r\<lparr>rq_body := note_request (pc_sched_on cfg) (pc_now cfg) (rq_body r)\<rparr>"

section \<open>The hooks, by length of the key\<close>

definition upsgi_proto_check_5 :: "char list \<Rightarrow> char list \<Rightarrow> wsgi_req \<Rightarrow> wsgi_req c_result" where
  "upsgi_proto_check_5 key buf r = Ok (if key = ''HTTPS'' then r\<lparr>rq_https := buf\<rparr> else r)"

definition upsgi_proto_check_9 :: "char list \<Rightarrow> char list \<Rightarrow> wsgi_req \<Rightarrow> wsgi_req c_result" where
  "upsgi_proto_check_9 key buf r =
     Ok (if key = ''PATH_INFO''
         then r\<lparr>rq_path_info := buf, rq_path_info_pos := int (length (rq_hvec r)) + 1\<rparr>
         else if key = ''HTTP_HOST'' then r\<lparr>rq_host := buf\<rparr> else r)"

text \<open>The first comparison looks at thirteen bytes from the start of a ten-byte key, that is at the
  key, the two bytes of the value's length and the first byte of the value.\<close>

definition upsgi_proto_check_10 ::
    "proto_cfg \<Rightarrow> char list \<Rightarrow> char list \<Rightarrow> wsgi_req \<Rightarrow> wsgi_req c_result" where
  "upsgi_proto_check_10 cfg key buf r =
     (let r1 = (if pc_honour_range cfg \<and> take 13 (key @ le16 (length buf) @ buf) = ''HTTP_IF_RANGE''
                then r\<lparr>rq_if_range := buf\<rparr> else r) in
      if pc_honour_range cfg \<and> key = ''HTTP_RANGE'' then
        (case upsgi_parse_http_range buf of
           None \<Rightarrow> Fault
         | Some (p, f, t) \<Rightarrow> Ok (r1\<lparr>rq_range_parsed := p, rq_range_from := f, rq_range_to := t\<rparr>))
      else if pc_dynamic_apps cfg \<and> key = ''UPSGI_FILE'' then Ok (r1\<lparr>rq_file := buf, rq_dynamic := True\<rparr>)
      else if pc_dynamic_apps cfg \<and> key = ''UPSGI_HOME'' then Ok (r1\<lparr>rq_home := buf\<rparr>)
      else Ok r1)"

definition upsgi_proto_check_11 :: "char list \<Rightarrow> char list \<Rightarrow> wsgi_req \<Rightarrow> wsgi_req c_result" where
  "upsgi_proto_check_11 key buf r =
     Ok (if key = ''SCRIPT_NAME''
         then r\<lparr>rq_script_name := buf, rq_script_name_pos := int (length (rq_hvec r)) + 1\<rparr>
         else if key = ''REQUEST_URI'' then r\<lparr>rq_uri := buf\<rparr>
         else if key = ''REMOTE_USER'' then r\<lparr>rq_remote_user := buf\<rparr>
         else if rq_host r = [] \<and> key = ''SERVER_NAME'' then r\<lparr>rq_host := buf\<rparr>
         else if rq_remote_addr r = [] \<and> key = ''REMOTE_ADDR'' then r\<lparr>rq_remote_addr := buf\<rparr>
         else if key = ''HTTP_COOKIE'' then r\<lparr>rq_cookie := buf\<rparr>
         else if key = ''UPSGI_APPID'' then r\<lparr>rq_appid := buf\<rparr>
         else if key = ''UPSGI_CHDIR'' then r\<lparr>rq_chdir := buf\<rparr>
         else if key = ''HTTP_ORIGIN'' then r\<lparr>rq_http_origin := buf\<rparr>
         else r)"

definition upsgi_proto_check_12 ::
    "proto_cfg \<Rightarrow> char list \<Rightarrow> char list \<Rightarrow> wsgi_req \<Rightarrow> wsgi_req c_result" where
  "upsgi_proto_check_12 cfg key buf r =
     Ok (if key = ''QUERY_STRING'' then r\<lparr>rq_query_string := buf\<rparr>
         else if key = ''CONTENT_TYPE'' then r\<lparr>rq_content_type := buf\<rparr>
         else if key = ''HTTP_REFERER'' then r\<lparr>rq_referer := buf\<rparr>
         else if key = ''UPSGI_SCHEME'' then r\<lparr>rq_scheme := buf\<rparr>
         else if pc_dynamic_apps cfg \<and> key = ''UPSGI_SCRIPT'' then r\<lparr>rq_script := buf, rq_dynamic := True\<rparr>
         else if pc_dynamic_apps cfg \<and> key = ''UPSGI_MODULE'' then r\<lparr>rq_module := buf, rq_dynamic := True\<rparr>
         else if key = ''UPSGI_PYHOME'' then r\<lparr>rq_home := buf\<rparr>
         else if key = ''UPSGI_SETENV'' then
           (case upsgi_str_contains buf (CHR ''='') of
              None \<Rightarrow> r
            | Some i \<Rightarrow> r\<lparr>rq_setenv := rq_setenv r @ [(cstr (take i buf), cstr (drop (i + 1) buf))]\<rparr>)
         else r)"

definition upsgi_proto_check_13 :: "char list \<Rightarrow> char list \<Rightarrow> wsgi_req \<Rightarrow> wsgi_req c_result" where
  "upsgi_proto_check_13 key buf r =
     Ok (if key = ''DOCUMENT_ROOT'' then r\<lparr>rq_document_root := buf\<rparr> else r)"

definition set_content_length :: "proto_cfg \<Rightarrow> char list \<Rightarrow> wsgi_req \<Rightarrow> wsgi_req c_result" where
  "set_content_length cfg buf r =
     (case get_content_length buf of
        None \<Rightarrow> Err r
      | Some n \<Rightarrow>
          if rq_body_is_chunked r then Err r
          else
            (let r1 = r\<lparr>rq_body := ((fst (rq_body r))\<lparr>post_cl := of_nat n\<rparr>, snd (rq_body r)),
                        rq_has_content_length := True\<rparr>;
                 r2 = (if rq_post_cl r1 > 0 then note_body cfg r1 else r1)
             in if pc_limit_post cfg > 0 \<and> n > pc_limit_post cfg then Err r2 else Ok r2))"

definition upsgi_proto_check_14 ::
    "proto_cfg \<Rightarrow> char list \<Rightarrow> char list \<Rightarrow> wsgi_req \<Rightarrow> wsgi_req c_result" where
  "upsgi_proto_check_14 cfg key buf r =
     (if key = ''REQUEST_METHOD'' then Ok (r\<lparr>rq_method := buf\<rparr>)
      else if key = ''CONTENT_LENGTH'' then set_content_length cfg buf r
      else if key = ''UPSGI_POSTFILE'' then
        Ok (r\<lparr>rq_post_file := (if pc_fopen cfg (cstr buf) then Some (cstr buf) else None)\<rparr>)
      else if pc_dynamic_apps cfg \<and> key = ''UPSGI_CALLABLE'' then Ok (r\<lparr>rq_callable := buf, rq_dynamic := True\<rparr>)
      else Ok r)"

definition upsgi_proto_check_15 :: "char list \<Rightarrow> char list \<Rightarrow> wsgi_req \<Rightarrow> wsgi_req c_result" where
  "upsgi_proto_check_15 key buf r =
     Ok (if key = ''SERVER_PROTOCOL'' then r\<lparr>rq_protocol := buf\<rparr>
         else if key = ''HTTP_USER_AGENT'' then r\<lparr>rq_user_agent := buf\<rparr> else r)"

definition upsgi_proto_check_18 :: "char list \<Rightarrow> char list \<Rightarrow> wsgi_req \<Rightarrow> wsgi_req c_result" where
  "upsgi_proto_check_18 key buf r =
     Ok (if key = ''HTTP_AUTHORIZATION'' then r\<lparr>rq_authorization := buf\<rparr>
         else if key = ''UPSGI_TOUCH_RELOAD'' then r\<lparr>rq_touch_reload := buf\<rparr> else r)"

definition upsgi_proto_check_20 ::
    "proto_cfg \<Rightarrow> char list \<Rightarrow> char list \<Rightarrow> wsgi_req \<Rightarrow> wsgi_req c_result" where
  "upsgi_proto_check_20 cfg key buf r =
     Ok (if pc_log_x_forwarded_for cfg \<and> key = ''HTTP_X_FORWARDED_FOR'' then r\<lparr>rq_remote_addr := buf\<rparr>
         else if key = ''HTTP_X_FORWARDED_SSL'' then r\<lparr>rq_https := buf\<rparr>
         else if key = ''HTTP_ACCEPT_ENCODING'' then r\<lparr>rq_encoding := buf\<rparr> else r)"

definition set_transfer_encoding :: "proto_cfg \<Rightarrow> char list \<Rightarrow> wsgi_req \<Rightarrow> wsgi_req c_result" where
  "set_transfer_encoding cfg buf r =
     (if upsgi_strnicmp buf ''chunked'' = 0 then
        (if rq_has_content_length r then Err r
         else Ok (note_body cfg (r\<lparr>rq_body := ((fst (rq_body r))\<lparr>body_is_chunked := True\<rparr>, snd (rq_body r))\<rparr>)))
      else Ok r)"

definition upsgi_proto_check_22 ::
    "proto_cfg \<Rightarrow> char list \<Rightarrow> char list \<Rightarrow> wsgi_req \<Rightarrow> wsgi_req c_result" where
  "upsgi_proto_check_22 cfg key buf r =
     (if key = ''HTTP_IF_MODIFIED_SINCE'' then Ok (r\<lparr>rq_if_modified_since := buf\<rparr>)
      else if key = ''HTTP_SEC_WEBSOCKET_KEY'' then Ok (r\<lparr>rq_http_sec_websocket_key := buf\<rparr>)
      else if key = ''HTTP_X_FORWARDED_PROTO'' then Ok (r\<lparr>rq_scheme := buf\<rparr>)
      else if key = ''HTTP_TRANSFER_ENCODING'' then set_transfer_encoding cfg buf r
      else Ok r)"

definition upsgi_proto_check_27 :: "char list \<Rightarrow> char list \<Rightarrow> wsgi_req \<Rightarrow> wsgi_req c_result" where
  "upsgi_proto_check_27 key buf r =
     Ok (if key = ''HTTP_SEC_WEBSOCKET_PROTOCOL'' then r\<lparr>rq_http_sec_websocket_protocol := buf\<rparr> else r)"

text \<open>The table \<open>upsgi.proto_hooks\<close>; a length without a hook leaves the request alone.\<close>

definition proto_hook :: "proto_cfg \<Rightarrow> char list \<Rightarrow> char list \<Rightarrow> wsgi_req \<Rightarrow> wsgi_req c_result" where
  "proto_hook cfg key buf r =
     (let n = length key in
      if n = 5 then upsgi_proto_check_5 key buf r
      else if n = 9 then upsgi_proto_check_9 key buf r
      else if n = 10 then upsgi_proto_check_10 cfg key buf r
      else if n = 11 then upsgi_proto_check_11 key buf r
      else if n = 12 then upsgi_proto_check_12 cfg key buf r
      else if n = 13 then upsgi_proto_check_13 key buf r
      else if n = 14 then upsgi_proto_check_14 cfg key buf r
      else if n = 15 then upsgi_proto_check_15 key buf r
      else if n = 18 then upsgi_proto_check_18 key buf r
      else if n = 20 then upsgi_proto_check_20 cfg key buf r
      else if n = 22 then upsgi_proto_check_22 cfg key buf r
      else if n = 27 then upsgi_proto_check_27 key buf r
      else Ok r)"

section \<open>Reading a packet\<close>

definition rd16 :: "char list \<Rightarrow> nat" where
  "rd16 b = ord (b ! 0) + 256 * ord (b ! 1)"

text \<open>An entry is counted only while \<open>var_cnt < vec_size - 5\<close>.\<close>

definition push_var :: "nat \<Rightarrow> char list \<Rightarrow> wsgi_req \<Rightarrow> wsgi_req c_result" where
  "push_var vec_size x r =
     (if length (rq_hvec r) + 5 < vec_size then Ok (r\<lparr>rq_hvec := rq_hvec r @ [x]\<rparr>) else Err r)"

definition var_step :: "proto_cfg \<Rightarrow> char list \<Rightarrow> char list \<Rightarrow> wsgi_req \<Rightarrow> wsgi_req c_result" where
  "var_step cfg key val r =
     c_bind (proto_hook cfg key val r) (\<lambda>r1.
     c_bind (push_var (pc_vec_size cfg) key r1) (push_var (pc_vec_size cfg) val))"

text \<open>A key that reaches the end of the packet is not an error: the loop goes on after its two
  length bytes.\<close>

function parse_vars_loop :: "proto_cfg \<Rightarrow> char list \<Rightarrow> wsgi_req \<Rightarrow> wsgi_req c_result" where
  "parse_vars_loop cfg bs r =
     (if bs = [] then Ok r
      else if length bs \<le> 2 then Err r
      else
       (let strsize = rd16 bs; bs1 = drop 2 bs in
        if strsize = 0 then Err r
        else if strsize < length bs1 then
          (let key = take strsize bs1; bs2 = drop strsize bs1 in
           if 2 \<le> length bs2 then
             (let vallen = rd16 bs2; bs3 = drop 2 bs2 in
              if vallen \<le> length bs3 then
                c_bind (var_step cfg key (take vallen bs3) r) (parse_vars_loop cfg (drop vallen bs3))
              else Err r)
           else Err r)
        else parse_vars_loop cfg bs1 r))"
  by auto
termination
  by (relation "measure (\<lambda>(cfg, bs, r). length bs)") auto

declare parse_vars_loop.simps [simp del]

text \<open>\<open>upsgi_simple_parse_vars\<close> has no branch for a rest of one or two bytes: it may not return.\<close>

partial_function (option) upsgi_simple_parse_vars ::
    "nat \<Rightarrow> char list \<Rightarrow> wsgi_req \<Rightarrow> wsgi_req c_result option" where
  "upsgi_simple_parse_vars vec_size bs r =
     (if bs = [] then Some (Ok r)
      else if length bs \<le> 2 then upsgi_simple_parse_vars vec_size bs r
      else if rd16 bs = 0 then Some (Err r)
      else if rd16 bs < length (drop 2 bs) then
        (if 2 \<le> length (drop (rd16 bs) (drop 2 bs)) then
           (if rd16 (drop (rd16 bs) (drop 2 bs)) \<le> length (drop 2 (drop (rd16 bs) (drop 2 bs))) then
              (case c_bind (push_var vec_size (take (rd16 bs) (drop 2 bs)) r)
                      (push_var vec_size (take (rd16 (drop (rd16 bs) (drop 2 bs)))
                         (drop 2 (drop (rd16 bs) (drop 2 bs))))) of
                 Ok r1 \<Rightarrow> upsgi_simple_parse_vars vec_size
                            (drop (rd16 (drop (rd16 bs) (drop 2 bs))) (drop 2 (drop (rd16 bs) (drop 2 bs)))) r1
               | Err r1 \<Rightarrow> Some (Err r1)
               | Fault \<Rightarrow> Some Fault)
            else Some (Err r))
         else Some (Err r))
      else upsgi_simple_parse_vars vec_size (drop 2 bs) r)"

text \<open>\<open>upsgi_hooked_parse\<close>: the calls of the hook, in order, and whether it returned 0.\<close>

function hooked_parse_loop :: "char list \<Rightarrow> (char list \<times> char list) list \<Rightarrow> bool \<times> (char list \<times> char list) list" where
  "hooked_parse_loop bs acc =
     (if bs = [] then (True, acc)
      else if length bs \<le> 2 then (False, acc)
      else
       (let keysize = rd16 bs; bs1 = drop 2 bs; bs2 = drop keysize bs1 in
        if keysize = 0 then (False, acc)
        else if keysize > length bs1 then (False, acc)
        else if length bs2 < 2 then (False, acc)
        else
         (let valsize = rd16 bs2; bs3 = drop 2 bs2 in
          if valsize > length bs3 then (False, acc)
          else hooked_parse_loop (drop valsize bs3) (acc @ [(take keysize bs1, take valsize bs3)]))))"
  by auto
termination
  by (relation "measure (\<lambda>(bs, acc). length bs)") auto

declare hooked_parse_loop.simps [simp del]

definition upsgi_hooked_parse :: "char list \<Rightarrow> bool \<times> (char list \<times> char list) list" where
  "upsgi_hooked_parse buffer = hooked_parse_loop buffer []"

function hooked_array_loop :: "char list \<Rightarrow> char list list \<Rightarrow> bool \<times> char list list" where
  "hooked_array_loop bs acc =
     (if bs = [] then (True, acc)
      else if length bs < 2 then (False, acc)
      else
       (let valsize = rd16 bs; bs1 = drop 2 bs in
        if valsize > length bs1 then (False, acc)
        else hooked_array_loop (drop valsize bs1) (acc @ [take valsize bs1])))"
  by auto
termination
  by (relation "measure (\<lambda>(bs, acc). length bs)") (auto simp: neq_Nil_conv)

declare hooked_array_loop.simps [simp del]

definition upsgi_hooked_parse_array :: "char list \<Rightarrow> bool \<times> char list list" where
  "upsgi_hooked_parse_array buffer = hooked_array_loop buffer []"

text \<open>\<open>upsgi_parse_array\<close> stores at most \<open>max\<close> items, skips empty ones, and needs a byte after the
  two length bytes.\<close>

function parse_array_loop :: "nat \<Rightarrow> char list \<Rightarrow> char list list \<Rightarrow> bool \<times> char list list" where
  "parse_array_loop maxc bs argv =
     (if bs = [] \<or> length argv \<ge> maxc then (True, argv)
      else if length bs \<le> 2 then (False, argv)
      else
       (let strsize = rd16 bs; bs1 = drop 2 bs in
        if strsize = 0 then parse_array_loop maxc bs1 argv
        else if strsize \<le> length bs1
             then parse_array_loop maxc (drop strsize bs1) (argv @ [take strsize bs1])
        else (False, argv)))"
  by auto
termination
  by (relation "measure (\<lambda>(maxc, bs, argv). length bs)") auto

declare parse_array_loop.simps [simp del]

definition upsgi_parse_array :: "nat \<Rightarrow> char list \<Rightarrow> bool \<times> char list list" where
  "upsgi_parse_array maxc buffer = parse_array_loop maxc buffer []"

section \<open>Extending the packet\<close>

text \<open>The parts of the request that \<open>upsgi_req_append\<close> touches: the packet, the entries, and the
  body bytes that were read with the packet and lie behind it in the same buffer until they
  are copied out (\<open>remains_copied\<close>).\<close>

record append_req =
  ap_pkt :: req_packet
  ap_hvec :: "char list list"
  ap_path_info :: "char list"
  ap_path_info_len :: nat
  ap_remains :: "char list"
  ap_remains_copied :: bool

definition copy_remains :: "append_req \<Rightarrow> append_req" where
  "copy_remains a = (if ap_remains a \<noteq> [] then a\<lparr>ap_remains_copied := True\<rparr> else a)"

definition append_pair :: "char list \<Rightarrow> char list \<Rightarrow> append_req \<Rightarrow> append_req c_result" where
  "append_pair key val a =
     (case pkt_store (ap_pkt a) (keyval_bytes key val) of
        None \<Rightarrow> Fault
      | Some p \<Rightarrow> Ok (a\<lparr>ap_pkt := p\<lparr>pkt_len := pkt_len p + length (keyval_bytes key val)\<rparr>,
                        ap_hvec := ap_hvec a @ [key, val]\<rparr>))"

definition upsgi_req_append ::
    "nat \<Rightarrow> char list \<Rightarrow> char list \<Rightarrow> append_req \<Rightarrow> append_req c_result" where
  "upsgi_req_append vec_size k v a0 =
     (let key = u16_arg k; val = u16_arg v; a = copy_remains a0 in
      if pkt_len (ap_pkt a) + (2 + length key + 2 + length val) > length (pkt_buffer (ap_pkt a)) then Err a
      else if length (ap_hvec a) + 6 \<ge> vec_size then Err a
      else append_pair key val a)"

text \<open>\<open>path_info_len\<close> is grown, as a \<open>uint16_t\<close>, before the checks.  \<open>ap_path_info\<close> is the memory the
  path pointer owns, of which \<open>ap_path_info_len\<close> says how much is the path; a wrapped sum makes
  the first copy's length negative.\<close>

definition upsgi_req_append_path_info_with_index ::
    "nat \<Rightarrow> char list \<Rightarrow> append_req \<Rightarrow> append_req c_result" where
  "upsgi_req_append_path_info_with_index vec_size ix a0 =
     (let index = u16_arg ix; a = copy_remains a0; plen = ap_path_info_len a in
      if plen > length (ap_path_info a) then Fault
      else
       (let slash = (if plen > 0 \<and> ap_path_info a ! (plen - 1) \<noteq> CHR ''/'' then ''/'' else []);
            newlen = (plen + length slash + length index) mod 2 ^ 16;
            b = a\<lparr>ap_path_info_len := newlen\<rparr> in
        if pkt_len (ap_pkt a) + (13 + newlen) > length (pkt_buffer (ap_pkt a)) then Err b
        else if length (ap_hvec a) + 6 \<ge> vec_size then Err b
        else if newlen < length slash + length index then Fault
        else
         (let path = take (newlen - (length slash + length index)) (ap_path_info a) @ slash @ index in
          c_bind (append_pair ''PATH_INFO'' path b) (\<lambda>c. Ok (c\<lparr>ap_path_info := path\<rparr>)))))"

section \<open>Choosing the application\<close>

text \<open>One candidate of the loop over \<open>upsgi_apps\<close>: the state is the length of the best match and
  the two strings.  \<open>Fault\<close>: \<open>path_info_len\<close> wraps below zero.\<close>

definition mount_candidate :: "char list \<Rightarrow> char list \<Rightarrow> nat \<Rightarrow> bool" where
  "mount_candidate orig mp best =
     (let n = (if mp \<noteq> [] \<and> last mp = CHR ''/'' then length mp - 1 else length mp) in
      \<not> (length orig < n \<or> n \<le> best \<or> take n orig \<noteq> take n mp \<or>
         (length orig > n \<and> orig ! n \<noteq> CHR ''/'')))"

fun mount_loop :: "char list \<Rightarrow> char list list \<Rightarrow> nat \<times> char list \<times> char list \<Rightarrow>
    (nat \<times> char list \<times> char list) c_result" where
  "mount_loop orig [] s = Ok s"
| "mount_loop orig (mp # mps) (best, sn, pi) =
     (if mount_candidate orig mp best then
        (if length mp > length orig then Fault
         else mount_loop orig mps
                (if mp \<noteq> [] \<and> last mp = CHR ''/'' then length mp - 1 else length mp, mp, drop (length mp) orig))
      else mount_loop orig mps (best, sn, pi))"

definition set_entry :: "int \<Rightarrow> char list \<Rightarrow> char list list \<Rightarrow> char list list" where
  "set_entry pos x hvec = (if 0 \<le> pos then hvec[nat pos := x] else hvec)"

definition manage_script_name :: "nat \<Rightarrow> char list list \<Rightarrow> wsgi_req \<Rightarrow> wsgi_req c_result" where
  "manage_script_name vec_size mounts r =
     (if mounts = [] \<or> rq_path_info r = [] \<or> rq_path_info_pos r = -1 then Ok r
      else
       (let slot = (if rq_script_name_pos r = -1 then
                      (if length (rq_hvec r) + 6 \<ge> vec_size then Err r
                       else Ok (r\<lparr>rq_hvec := rq_hvec r @ [''SCRIPT_NAME'', []],
                                  rq_script_name_pos := int (length (rq_hvec r)) + 1\<rparr>))
                    else Ok r) in
        c_bind slot (\<lambda>r1.
          (case mount_loop (rq_path_info r) mounts (0, rq_script_name r1, rq_path_info r1) of
             Fault \<Rightarrow> Fault
           | Err _ \<Rightarrow> Err r1
           | Ok (best, sn, pi) \<Rightarrow>
               if best = 0 then Ok r1
               else Ok (r1\<lparr>rq_script_name := sn, rq_path_info := pi,
                           rq_hvec := set_entry (rq_path_info_pos r1) pi
                             (set_entry (rq_script_name_pos r1) sn (rq_hvec r1))\<rparr>)))))"

text \<open>The extensions that are never served from the file system.\<close>

fun static_skip_ext :: "char list list \<Rightarrow> char list \<Rightarrow> bool" where
  "static_skip_ext [] path = False"
| "static_skip_ext (e # es) path =
     (if length e \<le> length path \<and> upsgi_strncmp (drop (length path - length e) path) e = 0 then True
      else static_skip_ext es path)"

section \<open>Static interception\<close>

text \<open>The file system and \<open>upsgi_file_serve\<close> are arguments: \<open>fs_realpath\<close> is \<open>realpath\<close> (\<open>None\<close> for
  an error), \<open>fs_is_file\<close> tests for a regular file, and \<open>fs_serve docroot path is_a_file\<close> tells
  whether the file was served.  A map is resolved the first time it is used, and a map
  whose directory does not exist is passed over.\<close>

record static_fs =
  fs_realpath :: "char list \<Rightarrow> char list option"
  fs_is_file :: "char list \<Rightarrow> bool"
  fs_serve :: "char list \<Rightarrow> char list \<Rightarrow> bool \<Rightarrow> bool"

record static_map =
  sm_key :: "char list"
  sm_value :: "char list option"
  sm_status :: nat

fun check_static_loop :: "static_fs \<Rightarrow> char list \<Rightarrow> static_map list \<Rightarrow> bool \<times> static_map list" where
  "check_static_loop fs path [] = (False, [])"
| "check_static_loop fs path (u # us) =
     (case (case sm_value u of None \<Rightarrow> fs_realpath fs (sm_key u) | Some v \<Rightarrow> Some v) of
        None \<Rightarrow> (case check_static_loop fs path us of (s, us') \<Rightarrow> (s, u # us'))
      | Some v \<Rightarrow>
          if fs_serve fs v path False then (True, u\<lparr>sm_value := Some v\<rparr> # us)
          else (case check_static_loop fs path us of (s, us') \<Rightarrow> (s, u\<lparr>sm_value := Some v\<rparr> # us')))"

definition resolve_map :: "static_fs \<Rightarrow> static_map \<Rightarrow> static_map" where
  "resolve_map fs u =
     (if sm_status u = 0 then
        (case Option.bind (sm_value u) (fs_realpath fs) of
           None \<Rightarrow> u\<lparr>sm_value := None\<rparr>
         | Some v \<Rightarrow> u\<lparr>sm_value := Some v, sm_status := 1 + (if fs_is_file fs v then 1 else 0)\<rparr>)
      else u)"

text \<open>\<open>whole\<close> is the mode of \<open>static-map2\<close>: the whole path is appended to the directory.\<close>

fun static_map_loop :: "static_fs \<Rightarrow> bool \<Rightarrow> char list \<Rightarrow> static_map list \<Rightarrow> bool \<times> static_map list" where
  "static_map_loop fs whole path [] = (False, [])"
| "static_map_loop fs whole path (u # us) =
     (let u1 = resolve_map fs u in
      case sm_value u1 of
        None \<Rightarrow> (case static_map_loop fs whole path us of (s, us') \<Rightarrow> (s, u1 # us'))
      | Some v \<Rightarrow>
          if upsgi_starts_with path (sm_key u1) = 0 \<and>
             fs_serve fs v (if whole then path else drop (length (sm_key u1)) path) (sm_status u1 = 2)
          then (True, u1 # us)
          else (case static_map_loop fs whole path us of (s, us') \<Rightarrow> (s, u1 # us')))"

record static_cfg =
  sc_skip_ext :: "char list list"
  sc_check_static :: "static_map list"
  sc_maps :: "static_map list"
  sc_maps2 :: "static_map list"
  sc_docroot :: bool

text \<open>The result \<open>Err\<close> is \<open>return -1\<close>: the file was served and the request is over, or the
  document root does not exist.\<close>

definition static_intercept :: "static_fs \<Rightarrow> wsgi_req \<Rightarrow> static_cfg \<Rightarrow> static_cfg c_result" where
  "static_intercept fs r sc =
     (let path = rq_path_info r in
      if static_skip_ext (sc_skip_ext sc) path then Ok sc
      else case check_static_loop fs path (sc_check_static sc) of (s1, cs) \<Rightarrow>
        let sc1 = sc\<lparr>sc_check_static := cs\<rparr> in
        if s1 then Err sc1
        else case static_map_loop fs False path (sc_maps sc) of (s2, ms) \<Rightarrow>
          let sc2 = sc1\<lparr>sc_maps := ms\<rparr> in
          if s2 then Err sc2
          else case static_map_loop fs True path (sc_maps2 sc) of (s3, ms2) \<Rightarrow>
            let sc3 = sc2\<lparr>sc_maps2 := ms2\<rparr> in
            if s3 then Err sc3
            else if sc_docroot sc \<and> rq_document_root r \<noteq> [] then
              (case fs_realpath fs (rq_document_root r) of
                 None \<Rightarrow> Err sc3
               | Some v \<Rightarrow> if fs_serve fs v path False then Err sc3 else Ok sc3)
            else Ok sc3)"

section \<open>The whole request\<close>

text \<open>\<open>upsgi_parse_vars\<close> on a request that has not been parsed yet: the packet, then post buffering
  (\<open>post_buffer\<close>, of \<open>core/reader.c\<close>), the mount points and the static files.  \<open>None\<close>: the
  packet reader does not return.\<close>

definition upsgi_parse_vars ::
    "proto_cfg \<Rightarrow> (wsgi_req \<Rightarrow> wsgi_req c_result) \<Rightarrow> char list list option \<Rightarrow> static_fs \<Rightarrow> static_cfg \<Rightarrow>
     char list \<Rightarrow> wsgi_req \<Rightarrow> (wsgi_req c_result \<times> static_cfg) option" where
  "upsgi_parse_vars cfg post_buffer mounts fs sc packet r =
     map_option (\<lambda>parsed.
        let managed = c_bind (c_bind parsed post_buffer)
              (\<lambda>r2. case mounts of None \<Rightarrow> Ok r2 | Some ms \<Rightarrow> manage_script_name (pc_vec_size cfg) ms r2) in
        (case managed of
           Ok r3 \<Rightarrow> (case static_intercept fs r3 sc of
                       Ok sc' \<Rightarrow> (Ok r3, sc') | Err sc' \<Rightarrow> (Err r3, sc') | Fault \<Rightarrow> (Fault, sc))
         | failed \<Rightarrow> (failed, sc)))
      (if rq_uri r \<noteq> [] then upsgi_simple_parse_vars (pc_vec_size cfg) packet r
       else Some (parse_vars_loop cfg packet (r\<lparr>rq_script_name_pos := -1, rq_path_info_pos := -1\<rparr>)))"

section \<open>Responses\<close>

text \<open>The calls \<open>upsgi_blob_to_response\<close> makes, each of which may fail (\<open>ok\<close>).\<close>

datatype resp_act = PrepareHeaders "char list" | AddHeader "char list" "char list" | WriteBody "char list"

definition blob_line :: "bool \<Rightarrow> char list \<Rightarrow> resp_act option" where
  "blob_line status_managed line =
     (let l = butlast line in
      if status_managed then
        (case upsgi_str_contains l (CHR '':'') of
           None \<Rightarrow> None
         | Some i \<Rightarrow> if line ! (i + 1) \<noteq> CHR '' '' then None
                     else Some (AddHeader (take i l) (drop (i + 2) l)))
      else
        (case upsgi_str_contains l (CHR '' '') of
           None \<Rightarrow> None
         | Some i \<Rightarrow> if length l - (i + 1) < 3 then None else Some (PrepareHeaders (drop (i + 1) l))))"

fun blob_loop :: "(resp_act \<Rightarrow> bool) \<Rightarrow> char list \<Rightarrow> char list \<Rightarrow> bool \<Rightarrow> bool \<times> resp_act list" where
  "blob_loop ok [] line st = (True, [])"
| "blob_loop ok (c # cs) line st =
     (if c \<noteq> CHR 0x0A then blob_loop ok cs (line @ [c]) st
      else if line = [] \<or> last line \<noteq> CHR 0x0D then (False, [])
      else if length line = 1 then
        (if cs = [] then (True, []) else (ok (WriteBody cs), [WriteBody cs]))
      else (case blob_line st line of
              None \<Rightarrow> (False, [])
            | Some act \<Rightarrow>
                if \<not> ok act then (False, [act])
                else (case blob_loop ok cs [] True of (r, acts) \<Rightarrow> (r, act # acts))))"

definition upsgi_blob_to_response :: "(resp_act \<Rightarrow> bool) \<Rightarrow> char list \<Rightarrow> bool \<times> resp_act list" where
  "upsgi_blob_to_response ok body = blob_loop ok body [] False"

text \<open>\<open>upsgi_read_response\<close>: each round waits (positive, zero or negative answer) and reads.  The test
  for a timeout looks at \<open>ret\<close>, which is -1 there.  \<open>None\<close>: the script is used up.\<close>

fun read_exact :: "nat \<Rightarrow> char list \<Rightarrow> (int \<times> char list) list \<Rightarrow> int \<Rightarrow>
    (bool \<times> char list \<times> (int \<times> char list) list \<times> int) option" where
  "read_exact n got [] ret = (if n = 0 then Some (True, got, [], ret) else None)"
| "read_exact n got ((w, d) # evs) ret =
     (if n = 0 then Some (True, got, (w, d) # evs, ret)
      else if w > 0 then
        (if take n d = [] then Some (False, got, evs, ret)
         else read_exact (n - length (take n d)) (got @ take n d) evs ret)
      else Some (False, got, evs, if ret = 0 then -2 else ret))"

text \<open>\<open>uh0\<close> is what the caller's header holds before; the header keeps it where nothing was read.\<close>

definition upsgi_read_response ::
    "char list \<Rightarrow> bool \<Rightarrow> (int \<times> char list) list \<Rightarrow> (int \<times> char list \<times> char list) option" where
  "upsgi_read_response uh0 want_body evs =
     (case read_exact 4 [] evs (-1) of
        None \<Rightarrow> None
      | Some (ok, got, evs1, ret0) \<Rightarrow>
          (let uh = got @ drop (length got) uh0;
               ret = (if ok then int (ord (uh ! 3)) else ret0);
               pktsize = rd16 (drop 1 uh) in
           if want_body \<and> pktsize > 0 then
             (case read_exact pktsize [] evs1 (-1) of
                None \<Rightarrow> None
              | Some (ok2, body, _, ret2) \<Rightarrow> Some (if ok2 then int (ord (uh ! 3)) else ret2, uh, body))
           else Some (ret, uh, [])))"

section \<open>Packets read back\<close>

lemma rd16_le16: "n < 65536 \<Longrightarrow> rd16 (le16 n @ xs) = n"
  by (simp add: rd16_def le16_def of_char_of)

lemma drop_le16 [simp]: "drop 2 (le16 n @ xs) = xs"
  by (simp add: le16_def)

definition wf_vars :: "(char list \<times> char list) list \<Rightarrow> bool" where
  "wf_vars kvs \<longleftrightarrow> (\<forall>(k, v) \<in> set kvs. k \<noteq> [] \<and> length k < 65536 \<and> length v < 65536)"

lemma wf_vars_Cons [simp]:
  "wf_vars [] = True"
  "wf_vars ((k, v) # kvs) \<longleftrightarrow> k \<noteq> [] \<and> length k < 65536 \<and> length v < 65536 \<and> wf_vars kvs"
  by (auto simp: wf_vars_def)

text \<open>What a packet means: its variables, one after the other.\<close>

fun run_vars :: "proto_cfg \<Rightarrow> (char list \<times> char list) list \<Rightarrow> wsgi_req \<Rightarrow> wsgi_req c_result" where
  "run_vars cfg [] r = Ok r"
| "run_vars cfg ((k, v) # kvs) r = c_bind (var_step cfg k v r) (run_vars cfg kvs)"

lemma parse_vars_pair:
  assumes "k \<noteq> []" "length k < 65536" "length v < 65536"
  shows "parse_vars_loop cfg (keyval_bytes k v @ rest) r =
    c_bind (var_step cfg k v r) (parse_vars_loop cfg rest)"
proof -
  let ?bs = "le16 (length k) @ k @ le16 (length v) @ v @ rest"
  have b: "keyval_bytes k v @ rest = ?bs" by (simp add: keyval_bytes_def)
  have "?bs \<noteq> []" "\<not> length ?bs \<le> 2" "rd16 ?bs = length k" "drop 2 ?bs = k @ le16 (length v) @ v @ rest"
    "length k < length (k @ le16 (length v) @ v @ rest)" "length k \<noteq> 0"
    using assms by (simp_all add: rd16_le16)
  moreover have "rd16 (le16 (length v) @ v @ rest) = length v" using assms by (simp add: rd16_le16)
  ultimately show ?thesis unfolding b by (subst parse_vars_loop.simps) (simp add: Let_def)
qed

lemma parse_vars_run: "wf_vars kvs \<Longrightarrow> parse_vars_loop cfg (encode_vars kvs) r = run_vars cfg kvs r"
proof (induction cfg kvs r rule: run_vars.induct)
  case (1 cfg r)
  then show ?case by (simp add: parse_vars_loop.simps)
next
  case (2 cfg k v kvs r)
  then show ?case by (cases "var_step cfg k v r") (simp_all add: parse_vars_pair)
qed

text \<open>C3: reading a packet that was written as a sequence of variables is the same as handling the
  variables one by one, in order, for any variables with non-empty names and 16-bit lengths:
  nothing is lost, merged or split, and the first failure stops the parse.\<close>

theorem parse_vars_refines:
  assumes "wf_vars kvs"
  shows "parse_vars_loop cfg (encode_vars kvs) r = run_vars cfg kvs r"
  by (rule parse_vars_run [OF assms])

lemma hooked_parse_vars:
  "wf_vars kvs \<Longrightarrow> hooked_parse_loop (encode_vars kvs) acc = (True, acc @ kvs)"
proof (induction kvs arbitrary: acc)
  case Nil
  then show ?case by (simp add: hooked_parse_loop.simps)
next
  case (Cons kv kvs)
  obtain k v where kv: "kv = (k, v)" by fastforce
  let ?rest = "encode_vars kvs"
  let ?bs = "le16 (length k) @ k @ le16 (length v) @ v @ ?rest"
  have b: "encode_vars (kv # kvs) = ?bs" by (simp add: keyval_bytes_def kv)
  have "?bs \<noteq> []" "\<not> length ?bs \<le> 2" "rd16 ?bs = length k" "drop 2 ?bs = k @ le16 (length v) @ v @ ?rest"
    "length k \<noteq> 0" "rd16 (le16 (length v) @ v @ ?rest) = length v"
    using Cons.prems by (simp_all add: rd16_le16 kv)
  then show ?case
    unfolding b using Cons by (subst hooked_parse_loop.simps) (simp add: Let_def kv)
qed

lemma keyval_u16le:
  assumes "length x < 65536"
  shows "u16le (of_nat (length x)) = le16 (length x)"
proof -
  let ?w = "of_nat (length x) :: 16 word"
  have u: "unat ?w = length x" using assms by (simp add: unat_of_nat_small)
  have inj: "c = d" if "(of_char c :: nat) = of_char d" for c d :: char
    using that by simp
  have "byte_of 0 ?w = char_of (length x mod 256)" "byte_of 1 ?w = char_of (length x div 256 mod 256)"
    by (rule inj, simp only: of_char_byte_of u of_char_of, simp)+
  then show ?thesis by (simp add: u16le_def le16_def)
qed

fun append_pairs :: "mem_env \<Rightarrow> upsgi_buffer \<Rightarrow> (char list \<times> char list) list \<Rightarrow> upsgi_buffer c_result" where
  "append_pairs env ub [] = Ok ub"
| "append_pairs env ub ((k, v) # kvs) =
     c_bind (upsgi_buffer_append_keyval env ub k v) (\<lambda>u. append_pairs env u kvs)"

lemma append_pairs_content:
  "ub_inv ub \<Longrightarrow> wf_vars kvs \<Longrightarrow> append_pairs env ub kvs = Ok u \<Longrightarrow>
   ub_content u = ub_content ub @ encode_vars kvs"
proof (induction env ub kvs arbitrary: u rule: append_pairs.induct)
  case (1 env ub)
  then show ?case by simp
next
  case (2 env ub k v kvs)
  from "2.prems"(3) obtain w where w: "upsgi_buffer_append_keyval env ub k v = Ok w"
    "append_pairs env w kvs = Ok u" by (auto simp: res_simps)
  have "ub_inv w \<and> ub_content w = ub_content ub @ keyval_bytes k v"
    using ub.sink_all_ok [OF "2.prems"(1) w(1) [unfolded append_keyval_sink]] "2.prems"(2)
    by (simp add: keyval_bytes_def keyval_u16le)
  with "2.IH" [OF _ _ w(2)] "2.prems"(2) show ?case by simp
qed

text \<open>C31: what the buffer writes as key/value pairs, the packet reader hands to its hook, pair by
  pair: for any pairs with non-empty keys and 16-bit lengths, appended to an empty buffer with
  \<open>upsgi_buffer_append_keyval\<close>, \<open>upsgi_hooked_parse\<close> succeeds and makes exactly those calls.\<close>

theorem keyval_hooked_parse_roundtrip:
  assumes "wf_vars kvs" "append_pairs env (upsgi_buffer_new env n) kvs = Ok u"
  shows "upsgi_hooked_parse (ub_content u) = (True, kvs)"
proof -
  have "ub_content u = encode_vars kvs"
    using append_pairs_content [OF _ assms] by (simp add: upsgi_buffer_new_def ub_inv_def ub_content_def)
  then show ?thesis using hooked_parse_vars [OF assms(1), of "[]"] by (simp add: upsgi_hooked_parse_def)
qed

theorem keyval_hooked_parse_roundtrip_witness:
  "\<exists>u. append_pairs env0 (upsgi_buffer_new env0 8) [(''k'', ''v'')] = Ok u \<and>
     upsgi_hooked_parse (ub_content u) = (True, [(''k'', ''v'')])"
proof -
  obtain u where u: "append_pairs env0 (upsgi_buffer_new env0 8) [(''k'', ''v'')] = Ok u"
    using sink_new_exact [of "[le16 1, ''k'', le16 1, ''v'']" 8 env0]
      keyval_u16le [of "''k''"] keyval_u16le [of "''v''"]
    by (auto simp: append_keyval_sink)
  with keyval_hooked_parse_roundtrip [OF _ u] show ?thesis by auto
qed

section \<open>The packet reader's invariants\<close>

lemma dec_val_ge: "v \<le> dec_val v cs"
proof (induction cs arbitrary: v)
  case (Cons c cs)
  have "v \<le> v * 10 + (ord c - 48)" by simp
  also have "\<dots> \<le> dec_val (v * 10 + (ord c - 48)) cs" by (rule Cons.IH)
  finally show ?case by simp
qed simp

lemma schar_digit_iff: "\<not> (schar c < 48 \<or> schar c > 57) \<longleftrightarrow> is_digit c"
proof -
  have "ord c < 256" using of_char_mod_256 [of c, where 'a = nat] mod_less_divisor [of 256 "ord c"] by simp
  then have b: "int (ord c) - 256 < 48" by linarith
  show ?thesis
  proof (cases "ord c < 128")
    case True
    then show ?thesis by (auto simp: schar_def is_digit_def Let_def)
  next
    case False
    then have "schar c = int (ord c) - 256" by (simp add: schar_def Let_def)
    with b False show ?thesis by (simp add: is_digit_def)
  qed
qed

lemma content_length_loop_spec:
  "content_length_loop cs v =
    (if (\<forall>c \<in> set cs. is_digit c) \<and> (cs \<noteq> [] \<longrightarrow> dec_val v cs \<le> size_max) then Some (dec_val v cs) else None)"
proof (induction cs arbitrary: v)
  case Nil
  then show ?case by simp
next
  case (Cons c cs)
  show ?case
  proof (cases "is_digit c")
    case True
    define d where "d = ord c - 48"
    have d: "nat (schar c - 48) = d" "d \<le> 9"
      using True by (auto simp: d_def schar_digit is_digit_def)
    have g: "\<not> (schar c < 48 \<or> schar c > 57)" using True schar_digit_iff by blast
    have "d \<le> size_max" using d(2) by (simp add: size_max_def)
    then have m: "v > (size_max - d) div 10 \<longleftrightarrow> v * 10 + d > size_max"
      by (simp add: div_less_iff_less_mult less_diff_conv2)
    have dv: "dec_val v (c # cs) = dec_val (v * 10 + d) cs" by (simp add: d_def)
    show ?thesis
      using Cons.IH [of "v * 10 + d"] True g dec_val_ge [of "v * 10 + d" cs]
      by (auto simp: d m dv Let_def simp del: dec_val.simps(2))
  next
    case False
    then have "schar c < 48 \<or> schar c > 57" using schar_digit_iff by blast
    with False show ?thesis by auto
  qed
qed

text \<open>C32: a content length is accepted exactly when it is a non-empty string of decimal digits whose
  value fits a \<open>size_t\<close>, and then the value is that number: no sign, no space, no wrap-around.\<close>

theorem get_content_length_exact:
  "get_content_length buf =
     (if buf \<noteq> [] \<and> list_all is_digit buf \<and> dec_val 0 buf \<le> 2 ^ 64 - 1
      then Some (dec_val 0 buf) else None)"
  by (auto simp: list_all_iff get_content_length_def content_length_loop_spec size_max_def)

text \<open>Only two hooks touch the body's framing.\<close>

definition body_view :: "wsgi_req \<Rightarrow> body_state \<times> bool" where
  "body_view r = (rq_body r, rq_has_content_length r)"

lemma body_view_checks:
  "upsgi_proto_check_5 key buf r = Ok r' \<Longrightarrow> body_view r' = body_view r"
  "upsgi_proto_check_9 key buf r = Ok r' \<Longrightarrow> body_view r' = body_view r"
  "upsgi_proto_check_11 key buf r = Ok r' \<Longrightarrow> body_view r' = body_view r"
  "upsgi_proto_check_13 key buf r = Ok r' \<Longrightarrow> body_view r' = body_view r"
  "upsgi_proto_check_15 key buf r = Ok r' \<Longrightarrow> body_view r' = body_view r"
  "upsgi_proto_check_18 key buf r = Ok r' \<Longrightarrow> body_view r' = body_view r"
  "upsgi_proto_check_20 cfg key buf r = Ok r' \<Longrightarrow> body_view r' = body_view r"
  "upsgi_proto_check_27 key buf r = Ok r' \<Longrightarrow> body_view r' = body_view r"
  by (auto simp: upsgi_proto_check_5_def upsgi_proto_check_9_def upsgi_proto_check_11_def
      upsgi_proto_check_13_def upsgi_proto_check_15_def upsgi_proto_check_18_def
      upsgi_proto_check_20_def upsgi_proto_check_27_def body_view_def split: if_splits)

lemma body_view_check_10: "upsgi_proto_check_10 cfg key buf r = Ok r' \<Longrightarrow> body_view r' = body_view r"
  by (auto simp: upsgi_proto_check_10_def body_view_def Let_def split: if_splits option.splits prod.splits)

lemma body_view_check_12: "upsgi_proto_check_12 cfg key buf r = Ok r' \<Longrightarrow> body_view r' = body_view r"
  by (auto simp: upsgi_proto_check_12_def body_view_def split: if_splits option.splits)

definition one_framing :: "wsgi_req \<Rightarrow> bool" where
  "one_framing r \<longleftrightarrow> \<not> (rq_has_content_length r \<and> rq_body_is_chunked r)"

lemma one_framing_view: "body_view r' = body_view r \<Longrightarrow> one_framing r \<Longrightarrow> one_framing r'"
  by (simp add: body_view_def one_framing_def)

lemma note_body_framing [simp]:
  "rq_body_is_chunked (note_body cfg r) = rq_body_is_chunked r"
  "rq_has_content_length (note_body cfg r) = rq_has_content_length r"
  by (simp_all add: note_body_def note_request_def Let_def)

lemma framing_check_14: "upsgi_proto_check_14 cfg key buf r = Ok r' \<Longrightarrow> one_framing r \<Longrightarrow> one_framing r'"
  by (auto simp: upsgi_proto_check_14_def set_content_length_def one_framing_def Let_def
      split: if_splits option.splits)

lemma framing_check_22: "upsgi_proto_check_22 cfg key buf r = Ok r' \<Longrightarrow> one_framing r \<Longrightarrow> one_framing r'"
  by (auto simp: upsgi_proto_check_22_def set_transfer_encoding_def one_framing_def split: if_splits)

lemma proto_hook_framing:
  assumes "proto_hook cfg key buf r = Ok r'" "one_framing r"
  shows "one_framing r'"
  using assms
  by (auto simp: proto_hook_def Let_def split: if_splits
      dest: framing_check_14 framing_check_22 body_view_checks body_view_check_10 body_view_check_12
      intro: one_framing_view)

lemma push_var_framing: "push_var n x r = Ok r' \<Longrightarrow> one_framing r' = one_framing r"
  by (auto simp: push_var_def one_framing_def split: if_splits)

lemma var_step_framing: "var_step cfg k v r = Ok r' \<Longrightarrow> one_framing r \<Longrightarrow> one_framing r'"
  by (auto simp: var_step_def res_simps push_var_framing dest: proto_hook_framing)

text \<open>A property that every variable keeps holds after a successful parse, whatever the bytes.\<close>

lemma parse_vars_keeps:
  assumes step: "\<And>k v r r'. var_step cfg k v r = Ok r' \<Longrightarrow> P r \<Longrightarrow> P r'"
  shows "parse_vars_loop cfg bs r = Ok r' \<Longrightarrow> P r \<Longrightarrow> P r'"
proof (induction "length bs" arbitrary: bs r rule: less_induct)
  case less
  let ?bs1 = "drop 2 bs" and ?n = "rd16 bs"
  let ?bs2 = "drop ?n ?bs1"
  let ?bs3 = "drop 2 ?bs2" and ?m = "rd16 ?bs2"
  consider "bs = []" "r' = r"
    | "length bs > 2" "parse_vars_loop cfg ?bs1 r = Ok r'"
    | r1 where "length bs > 2" "var_step cfg (take ?n ?bs1) (take ?m ?bs3) r = Ok r1"
        "parse_vars_loop cfg (drop ?m ?bs3) r1 = Ok r'"
    using less.prems(1) by (subst (asm) parse_vars_loop.simps) (auto simp: Let_def res_simps split: if_splits)
  then show ?case
  proof cases
    case 2
    with less.hyps [of ?bs1 r] less.prems(2) show ?thesis by simp
  next
    case 3
    with less.hyps [of "drop ?m ?bs3" r1] step [OF 3(2) less.prems(2)] show ?thesis by simp
  qed (use less.prems in simp)
qed

text \<open>C10: a packet is never accepted with two framings of its body: whatever bytes it holds, if the
  parse succeeds, a content length and chunked transfer encoding have not both been set.\<close>

theorem parse_vars_one_framing:
  assumes "parse_vars_loop cfg bs r = Ok r'" "\<not> (rq_has_content_length r \<and> rq_body_is_chunked r)"
  shows "\<not> (rq_has_content_length r' \<and> rq_body_is_chunked r')"
  using parse_vars_keeps [of cfg one_framing bs r r'] var_step_framing assms by (auto simp: one_framing_def)

definition proto_cfg0 :: proto_cfg where
  "proto_cfg0 = \<lparr>pc_vec_size = 32, pc_limit_post = 0, pc_honour_range = True, pc_dynamic_apps = False,
     pc_log_x_forwarded_for = False, pc_sched_on = True, pc_now = 5, pc_fopen = (\<lambda>_. False)\<rparr>"

definition wsgi_req0 :: wsgi_req where
  "wsgi_req0 = \<lparr>rq_hvec = [], rq_body = (fresh_req 0 False, fresh_core), rq_has_content_length = False,
     rq_path_info = [], rq_path_info_pos = -1, rq_script_name = [], rq_script_name_pos = -1,
     rq_https = [], rq_host = [], rq_uri = [], rq_remote_user = [], rq_remote_addr = [], rq_cookie = [],
     rq_appid = [], rq_chdir = [], rq_http_origin = [], rq_query_string = [], rq_content_type = [],
     rq_referer = [], rq_scheme = [], rq_script = [], rq_module = [], rq_callable = [], rq_home = [],
     rq_file = [], rq_document_root = [], rq_method = [], rq_protocol = [], rq_user_agent = [],
     rq_authorization = [], rq_touch_reload = [], rq_if_modified_since = [], rq_if_range = [],
     rq_encoding = [], rq_http_sec_websocket_key = [], rq_http_sec_websocket_protocol = [],
     rq_dynamic = False, rq_range_parsed = RANGE_NOT_PARSED, rq_range_from = 0, rq_range_to = 0,
     rq_setenv = [], rq_post_file = None\<rparr>"

lemma run_https:
  "run_vars proto_cfg0 [(''HTTPS'', ''on'')] wsgi_req0 =
     Ok (wsgi_req0\<lparr>rq_https := ''on'', rq_hvec := [''HTTPS'', ''on'']\<rparr>)"
  by (simp add: var_step_def proto_hook_def upsgi_proto_check_5_def push_var_def proto_cfg0_def wsgi_req0_def)

theorem parse_vars_refines_witness:
  "parse_vars_loop proto_cfg0 (encode_vars [(''HTTPS'', ''on'')]) wsgi_req0 =
     Ok (wsgi_req0\<lparr>rq_https := ''on'', rq_hvec := [''HTTPS'', ''on'']\<rparr>)"
  using parse_vars_refines [of "[(''HTTPS'', ''on'')]" proto_cfg0 wsgi_req0] run_https by simp

theorem parse_vars_one_framing_witness:
  "\<exists>r'. parse_vars_loop proto_cfg0 (encode_vars [(''HTTPS'', ''on'')]) wsgi_req0 = Ok r' \<and>
     \<not> (rq_has_content_length r' \<and> rq_body_is_chunked r')"
proof -
  have p: "parse_vars_loop proto_cfg0 (encode_vars [(''HTTPS'', ''on'')]) wsgi_req0 =
      Ok (wsgi_req0\<lparr>rq_https := ''on'', rq_hvec := [''HTTPS'', ''on'']\<rparr>)"
    using parse_vars_run [of "[(''HTTPS'', ''on'')]" proto_cfg0 wsgi_req0] run_https by simp
  from parse_vars_one_framing [OF p] p show ?thesis
    by (auto simp: wsgi_req0_def fresh_req_def)
qed

section \<open>Where the readers differ\<close>

text \<open>\<open>upsgi_simple_parse_vars\<close>, which is used when the protocol layer has already set the URI, does
  not return on a packet that ends in one or two stray bytes: the loop has no branch for them
  and does not move.\<close>

theorem simple_parse_vars_stuck:
  assumes "length bs = 1 \<or> length bs = 2"
  shows "upsgi_simple_parse_vars vec_size bs r = None"
proof (cases "upsgi_simple_parse_vars vec_size bs r")
  case (Some y)
  have "\<not> (length bs = 1 \<or> length bs = 2)"
  proof (rule upsgi_simple_parse_vars.raw_induct [OF _ Some, where P = "\<lambda>v b r y. \<not> (length b = 1 \<or> length b = 2)"])
    fix f :: "nat \<Rightarrow> char list \<Rightarrow> wsgi_req \<Rightarrow> wsgi_req c_result option" and v b r y
    assume ih: "\<And>v b r y. f v b r = Some y \<Longrightarrow> \<not> (length b = 1 \<or> length b = 2)"
      and e: "(if b = [] then Some (Ok r)
      else if length b \<le> 2 then f v b r
      else if rd16 b = 0 then Some (Err r)
      else if rd16 b < length (drop 2 b) then
        (if 2 \<le> length (drop (rd16 b) (drop 2 b)) then
           (if rd16 (drop (rd16 b) (drop 2 b)) \<le> length (drop 2 (drop (rd16 b) (drop 2 b))) then
              (case c_bind (push_var v (take (rd16 b) (drop 2 b)) r)
                      (push_var v (take (rd16 (drop (rd16 b) (drop 2 b)))
                         (drop 2 (drop (rd16 b) (drop 2 b))))) of
                 Ok r1 \<Rightarrow> f v (drop (rd16 (drop (rd16 b) (drop 2 b))) (drop 2 (drop (rd16 b) (drop 2 b)))) r1
               | Err r1 \<Rightarrow> Some (Err r1)
               | Fault \<Rightarrow> Some Fault)
            else Some (Err r))
         else Some (Err r))
      else f v (drop 2 b) r) = Some y"
    show "\<not> (length b = 1 \<or> length b = 2)"
    proof
      assume l: "length b = 1 \<or> length b = 2"
      then have "b \<noteq> []" "length b \<le> 2" by auto
      with e have "f v b r = Some y" by simp
      from ih [OF this] l show False by blast
    qed
  qed
  with assms show ?thesis by blast
qed

theorem simple_parse_vars_stuck_witness: "upsgi_simple_parse_vars 32 ''x'' wsgi_req0 = None"
  by (rule simple_parse_vars_stuck) simp

text \<open>The same packet without the stray bytes is read completely.\<close>

text \<open>the condition \<open>If-Range\<close> is never seen: its name has thirteen bytes and the code that looks
  for it is the hook of ten-byte names, so handling the variable leaves \<open>if_range\<close> as it was,
  whatever its value and the configuration.\<close>

theorem if_range_never_set:
  "\<exists>r'. proto_hook cfg ''HTTP_IF_RANGE'' val r = Ok r' \<and> rq_if_range r' = rq_if_range r"
  by (simp add: proto_hook_def upsgi_proto_check_13_def)

section \<open>Mount points\<close>

definition mount_len :: "char list \<Rightarrow> nat" where
  "mount_len mp = (if mp \<noteq> [] \<and> last mp = CHR ''/'' then length mp - 1 else length mp)"

text \<open>A mount point matches a path if it is the path, or a prefix of it up to a slash.\<close>

definition mounts_at :: "char list \<Rightarrow> char list \<Rightarrow> bool" where
  "mounts_at mp orig \<longleftrightarrow> mp \<noteq> [] \<and> (\<exists>rest. orig = mp @ rest \<and> (rest = [] \<or> hd rest = CHR ''/''))"

lemma mount_candidate_plain:
  assumes "mp = [] \<or> last mp \<noteq> CHR ''/''"
  shows "mount_candidate orig mp best \<longleftrightarrow> best < length mp \<and> mounts_at mp orig"
proof -
  have n: "(if mp \<noteq> [] \<and> last mp = CHR ''/'' then length mp - 1 else length mp) = length mp"
    using assms by auto
  have "mount_candidate orig mp best \<longleftrightarrow> length mp \<le> length orig \<and> best < length mp \<and>
      take (length mp) orig = mp \<and> (length orig \<le> length mp \<or> orig ! length mp = CHR ''/'')"
    unfolding mount_candidate_def n Let_def by auto
  also have "\<dots> \<longleftrightarrow> best < length mp \<and> mounts_at mp orig"
  proof
    assume a: "length mp \<le> length orig \<and> best < length mp \<and>
      take (length mp) orig = mp \<and> (length orig \<le> length mp \<or> orig ! length mp = CHR ''/'')"
    then have "orig = mp @ drop (length mp) orig" by (metis append_take_drop_id)
    moreover have "drop (length mp) orig = [] \<or> hd (drop (length mp) orig) = CHR ''/''"
    proof (cases "length mp < length orig")
      case True
      moreover from this a have "orig ! length mp = CHR ''/''" by simp
      ultimately show ?thesis by (simp only: hd_drop_conv_nth simp_thms)
    qed simp
    moreover have "mp \<noteq> []" using a by force
    ultimately show "best < length mp \<and> mounts_at mp orig"
      unfolding mounts_at_def using a by blast
  next
    assume a: "best < length mp \<and> mounts_at mp orig"
    then obtain rest where "orig = mp @ rest" "rest = [] \<or> hd rest = CHR ''/''"
      unfolding mounts_at_def by blast
    with a show "length mp \<le> length orig \<and> best < length mp \<and>
      take (length mp) orig = mp \<and> (length orig \<le> length mp \<or> orig ! length mp = CHR ''/'')"
      by (cases rest) simp_all
  qed
  finally show ?thesis .
qed

lemma mount_loop_plain:
  assumes "\<forall>mp \<in> set mps. mp = [] \<or> last mp \<noteq> CHR ''/''"
  shows "\<exists>best' sn' pi'. mount_loop orig mps (best, sn, pi) = Ok (best', sn', pi') \<and>
    (\<forall>mp \<in> set mps. mounts_at mp orig \<longrightarrow> length mp \<le> best') \<and> best \<le> best' \<and>
    (best' = best \<and> sn' = sn \<and> pi' = pi \<or>
     best < best' \<and> sn' \<in> set mps \<and> mounts_at sn' orig \<and> length sn' = best' \<and> orig = sn' @ pi')"
  using assms
proof (induction mps arbitrary: best sn pi)
  case Nil
  then show ?case by simp
next
  case (Cons mp mps)
  then have c: "mount_candidate orig mp best \<longleftrightarrow> best < length mp \<and> mounts_at mp orig"
    and n: "(if mp \<noteq> [] \<and> last mp = CHR ''/'' then length mp - 1 else length mp) = length mp"
    using mount_candidate_plain [of mp orig best] by auto
  show ?case
  proof (cases "mount_candidate orig mp best")
    case True
    with c have m: "best < length mp" "mounts_at mp orig" by auto
    then obtain rest where rest: "orig = mp @ rest" unfolding mounts_at_def by blast
    then have o: "drop (length mp) orig = rest" "\<not> length orig < length mp" by simp_all
    have e: "mount_loop orig (mp # mps) (best, sn, pi) = mount_loop orig mps (length mp, mp, rest)"
      unfolding mount_loop.simps n o(1) using True o(2) by (simp only: if_True if_False)
    have pr: "\<forall>mp \<in> set mps. mp = [] \<or> last mp \<noteq> CHR ''/''" using Cons.prems by simp
    from Cons.IH [OF pr, of "length mp" mp rest] obtain best' sn' pi' where i: "mount_loop orig mps (length mp, mp, rest) = Ok (best', sn', pi')"
      "\<forall>mp \<in> set mps. mounts_at mp orig \<longrightarrow> length mp \<le> best'" "length mp \<le> best'"
      "best' = length mp \<and> sn' = mp \<and> pi' = rest \<or>
       length mp < best' \<and> sn' \<in> set mps \<and> mounts_at sn' orig \<and> length sn' = best' \<and> orig = sn' @ pi'"
      by (elim exE conjE) (rule that)
    have "sn' \<in> set (mp # mps) \<and> mounts_at sn' orig \<and> length sn' = best' \<and> orig = sn' @ pi'"
      using i(4) m(2) rest unfolding list.set by blast
    moreover have "best < best'" "best \<le> best'" using i(3) m(1) by simp_all
    moreover have "\<forall>x \<in> set (mp # mps). mounts_at x orig \<longrightarrow> length x \<le> best'" using i(2,3) by simp
    ultimately show ?thesis unfolding e using i(1) by blast
  next
    case False
    with c have f: "mounts_at mp orig \<Longrightarrow> length mp \<le> best" by auto
    have e: "mount_loop orig (mp # mps) (best, sn, pi) = mount_loop orig mps (best, sn, pi)"
      using False by simp
    have pr: "\<forall>mp \<in> set mps. mp = [] \<or> last mp \<noteq> CHR ''/''" using Cons.prems by simp
    from Cons.IH [OF pr, of best sn pi] obtain best' sn' pi' where
      i: "mount_loop orig mps (best, sn, pi) = Ok (best', sn', pi')"
        "\<forall>mp \<in> set mps. mounts_at mp orig \<longrightarrow> length mp \<le> best'" "best \<le> best'"
        "best' = best \<and> sn' = sn \<and> pi' = pi \<or>
         best < best' \<and> sn' \<in> set mps \<and> mounts_at sn' orig \<and> length sn' = best' \<and> orig = sn' @ pi'"
      by (elim exE conjE) (rule that)
    have "\<forall>x \<in> set (mp # mps). mounts_at x orig \<longrightarrow> length x \<le> best'"
      using i(2,3) f by (simp, blast intro: le_trans)
    then show ?thesis unfolding e using i(1,3,4) unfolding list.set by blast
  qed
qed



text \<open>a mount point that ends in a slash is compared without it but cut off with it: for the path
  that is the mount point without its slash, the length of PATH_INFO becomes minus one.\<close>

theorem mount_trailing_slash_underflow:
  assumes "mp = path @ ''/''" "path \<noteq> []"
  shows "mount_loop path [mp] (0, sn, path) = Fault"
  using assms by (simp add: mount_candidate_def Let_def)

theorem mount_trailing_slash_underflow_witness: "mount_loop ''/app'' [''/app/''] (0, [], ''/app'') = Fault"
  by (rule mount_trailing_slash_underflow) simp_all

end
