(* ===== verification/Upsgi_Http.thy ===== *)
theory Upsgi_Http
  imports Upsgi_Protocol
begin

text \<open>
  The HTTP protocol parser, \<open>proto/http.c\<close>: the search for the end of the headers, the parser that
  turns a request into packet variables, the header table with its duplicate rules, and the
  functions that turn a request into HTTP again and that decide on keeping a connection.

  \<open>hr_rest\<close> is the bytes from \<open>ptr\<close> to \<open>watermark\<close>; a header slot owns its value, so
  the ownership flags of the table and its release have no counterpart.  \<open>inet_ntop\<close> and the peer
  address are arguments.
\<close>

abbreviation CR :: char where "CR \<equiv> CHR 0x0D"
abbreviation LF :: char where "LF \<equiv> CHR 0x0A"
abbreviation TAB :: char where "TAB \<equiv> CHR 0x09"

section \<open>Status line of a CGI answer\<close>

text \<open>\<open>atoi\<close> on memory \<open>m\<close>; \<open>None\<close>: it runs off the memory, or the number does not fit an \<open>int\<close>.\<close>

definition atoi :: "char list \<Rightarrow> int option" where
  "atoi m =
     (let s = dropWhile is_space m;
          neg = (s \<noteq> [] \<and> hd s = CHR ''-'');
          d = (if s \<noteq> [] \<and> (hd s = CHR ''-'' \<or> hd s = CHR ''+'') then tl s else s);
          n = int (dec_val 0 (takeWhile is_digit d));
          v = (if neg then - n else n) in
      if dropWhile is_digit d = [] \<or> v < - (2 ^ 31) \<or> v \<ge> 2 ^ 31 then None else Some v)"

text \<open>\<open>mem\<close> is the readable memory from \<open>buf\<close> on, of which \<open>len\<close> bytes are the answer.  A first line
  that is not the status line is skipped, and the next one is taken for it without a look.\<close>

definition status_value :: "char list \<Rightarrow> int \<Rightarrow> int option" where
  "status_value mem len =
     (let len1 = len - 8; m1 = drop 8 mem;
          sp = length (takeWhile is_space (take (nat len1) m1)) in
      if len1 - int sp \<le> 0 then Some (-1) else atoi (drop sp m1))"

definition http_status_code :: "char list \<Rightarrow> nat \<Rightarrow> int option" where
  "http_status_code mem len =
     (if len < 11 then Some (-1)
      else if length mem < len then None
      else if take 2 mem = [CR, LF] then Some (-1)
      else if take 7 mem \<noteq> ''Status:'' then
        (case upsgi_str_contains (take len mem) CR of
           None \<Rightarrow> Some (-1)
         | Some q \<Rightarrow>
             if q + 1 \<ge> len then Some (-1)
             else if mem ! (q + 1) \<noteq> LF then Some (-1)
             else status_value (drop (q + 2) mem) (int len - int (q + 2)))
      else status_value mem (int len))"

section \<open>Header names and values\<close>

definition http_header_name_eq :: "char list \<Rightarrow> char list \<Rightarrow> bool" where
  "http_header_name_eq key normalized \<longleftrightarrow>
     length key = length normalized \<and> map cgi_char key = normalized"

definition http_header_normalize_name :: "char list \<Rightarrow> char list" where
  "http_header_normalize_name key = map cgi_char key @ [CHR 0x00]"

definition http_header_allow_duplicate_merge :: "char list \<Rightarrow> bool" where
  "http_header_allow_duplicate_merge key \<longleftrightarrow>
     list_ex (http_header_name_eq key)
       [''ACCEPT'', ''ACCEPT_CHARSET'', ''ACCEPT_ENCODING'', ''ACCEPT_LANGUAGE'', ''CACHE_CONTROL'',
        ''CONNECTION'', ''FORWARDED'', ''IF_MATCH'', ''IF_NONE_MATCH'', ''PRAGMA'', ''TE'', ''TRAILER'',
        ''UPGRADE'', ''VIA'', ''WARNING'', ''X_FORWARDED_FOR'']"

definition http_header_reject_duplicate :: "char list \<Rightarrow> bool" where
  "http_header_reject_duplicate key \<longleftrightarrow>
     (if http_header_name_eq key ''HOST'' then True
      else if http_header_name_eq key ''CONTENT_LENGTH'' then True
      else if http_header_name_eq key ''CONTENT_TYPE'' then True
      else if http_header_name_eq key ''TRANSFER_ENCODING'' then True
      else \<not> http_header_allow_duplicate_merge key)"

definition is_blank :: "char \<Rightarrow> bool" where
  "is_blank c \<longleftrightarrow> c = CHR '' '' \<or> c = TAB"

definition rtrim :: "char list \<Rightarrow> char list" where
  "rtrim xs = rev (dropWhile is_blank (rev xs))"

lemma token_shrinks:
  assumes "dropWhile (\<lambda>c. is_blank c \<or> c = CHR '','') xs \<noteq> []"
  shows "length (dropWhile (\<lambda>c. c \<noteq> CHR '','') (dropWhile (\<lambda>c. c \<noteq> CHR '','' \<and> c \<noteq> CHR '';'')
    (dropWhile (\<lambda>c. is_blank c \<or> c = CHR '','') xs))) < length xs"
proof -
  obtain c cs where v: "dropWhile (\<lambda>c. is_blank c \<or> c = CHR '','') xs = c # cs"
    using assms by (meson neq_Nil_conv)
  have "c \<noteq> CHR '',''"
    using hd_dropWhile [OF assms] by (simp add: v)
  then have "length (dropWhile (\<lambda>c. c \<noteq> CHR '','') (dropWhile (\<lambda>c. c \<noteq> CHR '','' \<and> c \<noteq> CHR '';'') (c # cs)))
      \<le> length cs"
    by (auto simp: length_dropWhile_le intro: le_trans [OF length_dropWhile_le length_dropWhile_le])
  also have "length cs < length xs"
    using length_dropWhile_le [of "\<lambda>c. is_blank c \<or> c = CHR '',''" xs] by (simp add: v)
  finally show ?thesis by (simp add: v)
qed

function http_header_value_has_token :: "char list \<Rightarrow> char list \<Rightarrow> bool" where
  "http_header_value_has_token hval token =
     (let v = dropWhile (\<lambda>c. is_blank c \<or> c = CHR '','') hval in
      if v = [] then False
      else
       (let item = rtrim (takeWhile (\<lambda>c. c \<noteq> CHR '','' \<and> c \<noteq> CHR '';'') v);
            more = dropWhile (\<lambda>c. c \<noteq> CHR '','' \<and> c \<noteq> CHR '';'') v in
        if length item = length token \<and> upsgi_strnicmp item token = 0 then True
        else http_header_value_has_token (dropWhile (\<lambda>c. c \<noteq> CHR '','') more) token))"
  by auto
termination
  by (relation "measure (\<lambda>(hval, token). length hval)") (simp_all add: token_shrinks)

declare http_header_value_has_token.simps [simp del]

definition http_header_value_has_chunked_token :: "char list \<Rightarrow> bool" where
  "http_header_value_has_chunked_token hval = http_header_value_has_token hval ''chunked''"

text \<open>The variable of a name that was added last wins (\<open>upsgi_get_var\<close> walks backwards).\<close>

fun get_var_loop :: "char list \<Rightarrow> char list list \<Rightarrow> char list option" where
  "get_var_loop key (v # k # rest) = (if upsgi_strncmp key k = 0 then Some v else get_var_loop key rest)"
| "get_var_loop key _ = None"

definition upsgi_get_var :: "char list list \<Rightarrow> char list \<Rightarrow> char list option" where
  "upsgi_get_var hvec key = get_var_loop key (rev hvec)"

definition upsgi_http11_request_wants_close :: "char list list \<Rightarrow> bool" where
  "upsgi_http11_request_wants_close hvec =
     (case upsgi_get_var hvec ''HTTP_CONNECTION'' of
        None \<Rightarrow> False
      | Some v \<Rightarrow> if v = [] then False else http_header_value_has_token v ''close'')"

text \<open>\<open>h\<close> is the headers from \<open>pos\<close> on.\<close>

function response_connection_loop :: "char list \<Rightarrow> bool" where
  "response_connection_loop h =
     (if length h \<le> 1 then False
      else
       (case upsgi_str_contains h LF of
          None \<Rightarrow> False
        | Some eol \<Rightarrow>
            (let raw = take eol h;
                 line = (if raw \<noteq> [] \<and> last raw = CR then butlast raw else raw) in
             if line = [] then False
             else if CHR '':'' \<notin> set line then response_connection_loop (drop (eol + 1) h)
             else if length line \<ge> 11 \<and> upsgi_strnicmp (take 10 line) ''Connection'' = 0 \<and> line ! 10 = CHR '':''
             then True
             else response_connection_loop (drop (eol + 1) h))))"
  by auto
termination
  by (relation "measure length") auto

declare response_connection_loop.simps [simp del]

definition upsgi_http_response_has_connection_header :: "char list \<Rightarrow> bool" where
  "upsgi_http_response_has_connection_header headers = response_connection_loop headers"

section \<open>The path\<close>

text \<open>The loop of \<open>http_path_needs_decode\<close> on the bytes from \<open>i\<close> on.\<close>

fun needs_decode_loop :: "char list \<Rightarrow> bool" where
  "needs_decode_loop [] = False"
| "needs_decode_loop (c # cs) =
     (if c = CHR ''%'' \<or> c = CHR ''#'' then True
      else if c \<noteq> CHR ''/'' then needs_decode_loop cs
      else if cs = [] then needs_decode_loop cs
      else if hd cs = CHR ''/'' then True
      else if hd cs \<noteq> CHR ''.'' then needs_decode_loop cs
      else if tl cs = [] then True
      else if hd (tl cs) = CHR ''/'' then True
      else if hd (tl cs) = CHR ''.'' \<and> (tl (tl cs) = [] \<or> hd (tl (tl cs)) = CHR ''/'') then True
      else needs_decode_loop cs)"

definition http_path_needs_decode :: "char list \<Rightarrow> bool" where
  "http_path_needs_decode path =
     (if path = [] then False
      else if hd path \<noteq> CHR ''/'' then True
      else needs_decode_loop path)"

section \<open>The parser's state\<close>

datatype client_addr = Inet6 "char list" | Inet4 "char list"

record http_cfg =
  hc_proxy :: bool
  hc_manage_script_name :: bool
  hc_no_decode_slashes :: bool
  hc_hostname :: "char list"
  hc_server_port :: "char list"
  hc_client :: client_addr
  hc_ntop4 :: "char list \<Rightarrow> char list option"
  hc_ntop6 :: "char list \<Rightarrow> char list option"
  hc_https :: "char list"
  hc_modifiers :: "nat \<times> nat"

record http_req =
  hr_rest :: "char list"
  hr_pkt :: req_packet
  hr_ignore_body :: bool

definition put_var :: "char list \<Rightarrow> char list \<Rightarrow> http_req \<Rightarrow> http_req c_result" where
  "put_var k v r = (case add_var (hr_pkt r) k v of None \<Rightarrow> Fault | Some p \<Rightarrow> Ok (r\<lparr>hr_pkt := p\<rparr>))"

definition http_add_path_info :: "http_cfg \<Rightarrow> char list \<Rightarrow> http_req \<Rightarrow> http_req c_result" where
  "http_add_path_info cfg p r =
     (let path = u16_arg p in
      if \<not> http_path_needs_decode path then put_var ''PATH_INFO'' path r
      else put_var ''PATH_INFO'' (http_url_decode4 (hc_no_decode_slashes cfg) path) r)"

text \<open>The port in the name of a socket, empty when there is none.\<close>

definition upsgi_http_setup_server_port_cache :: "char list option \<Rightarrow> char list" where
  "upsgi_http_setup_server_port_cache name =
     (case name of None \<Rightarrow> []
      | Some n \<Rightarrow> (case upsgi_get_last_char n (CHR '':'') of None \<Rightarrow> [] | Some i \<Rightarrow> drop (i + 1) n))"

section \<open>The PROXY line\<close>

datatype proxy_scan = PField "char list" "char list" | PNewline "char list" | PEnd

fun proxy_field :: "char \<Rightarrow> char list \<Rightarrow> char list \<Rightarrow> proxy_scan" where
  "proxy_field sep base [] = PEnd"
| "proxy_field sep base (c # cs) =
     (if c = sep then PField base cs
      else if c = LF then PNewline cs
      else proxy_field sep (base @ [c]) cs)"

record proxy_info =
  px_src :: "char list option"
  px_dst :: "char list option"
  px_src_port :: "char list option"
  px_dst_port :: "char list option"

text \<open>One field after the other; a newline ends the line early, the end of the data ends it without
  anything left.\<close>

fun proxy_fields :: "(char \<times> (char list \<Rightarrow> proxy_info \<Rightarrow> proxy_info)) list \<Rightarrow> char list \<Rightarrow> proxy_info \<Rightarrow>
    char list \<times> proxy_info" where
  "proxy_fields [] cs px = (drop 1 (dropWhile (\<lambda>c. c \<noteq> LF) cs), px)"
| "proxy_fields ((sep, set_field) # fs) cs px =
     (case proxy_field sep [] cs of
        PField base rest \<Rightarrow> proxy_fields fs rest (set_field base px)
      | PNewline rest \<Rightarrow> (rest, px)
      | PEnd \<Rightarrow> ([], px))"

definition no_proxy :: proxy_info where
  "no_proxy = \<lparr>px_src = None, px_dst = None, px_src_port = None, px_dst_port = None\<rparr>"

definition proxy1_parse :: "char list \<Rightarrow> char list \<times> proxy_info" where
  "proxy1_parse ptr =
     (if length ptr > 6 \<and> take 6 ptr = ''PROXY '' then
        proxy_fields
          [(CHR '' '', \<lambda>_ px. px), (CHR '' '', \<lambda>b px. px\<lparr>px_src := Some b\<rparr>), (CHR '' '', \<lambda>b px. px\<lparr>px_dst := Some b\<rparr>),
           (CHR '' '', \<lambda>b px. px\<lparr>px_src_port := Some b\<rparr>), (CR, \<lambda>b px. px\<lparr>px_dst_port := Some b\<rparr>)]
          (drop 6 ptr) no_proxy
      else (ptr, no_proxy))"

section \<open>Headers\<close>

text \<open>Key, value, and whether the variable gets the prefix \<open>HTTP_\<close>.\<close>

definition http_header_to_cgi :: "char list \<Rightarrow> (char list \<times> char list \<times> bool) option" where
  "http_header_to_cgi hh =
     (let key = takeWhile (\<lambda>c. c \<noteq> CHR '':'') hh;
          val = dropWhile (\<lambda>c. c = CHR '' '') (drop 1 (dropWhile (\<lambda>c. c \<noteq> CHR '':'') hh)) in
      if key = [] \<or> val = [] then None
      else Some (key, val, upsgi_strnicmp key ''Content-Length'' \<noteq> 0 \<and> upsgi_strnicmp key ''Content-Type'' \<noteq> 0))"

definition http_add_upsgi_header ::
    "req_packet \<Rightarrow> char list \<Rightarrow> char list \<Rightarrow> bool \<Rightarrow> (nat \<times> req_packet) option" where
  "http_add_upsgi_header p hh hv has_prefix =
     (let keylen = length hh + (if has_prefix then 5 else 0) in
      if pkt_len p + keylen + length hv + 2 + 2 \<ge> length (pkt_buffer p) then Some (0, p)
      else map_option (\<lambda>q. (2 + keylen + 2 + length hv, q))
             (pkt_store p (keyval_bytes ((if has_prefix then ''HTTP_'' else []) @ map cgi_char hh) hv)))"

record http_header_slot =
  sl_key :: "char list"
  sl_value :: "char list"
  sl_has_prefix :: bool

text \<open>The first \<open>pos\<close> slots are the list, of a block with room for \<open>tb_size\<close>.\<close>

record http_header_table =
  tb_slots :: "http_header_slot list"
  tb_size :: nat

definition http_header_table_init :: http_header_table where
  "http_header_table_init = \<lparr>tb_slots = [], tb_size = 16\<rparr>"

definition http_header_table_reserve :: "http_header_table \<Rightarrow> http_header_table" where
  "http_header_table_reserve t =
     (if length (tb_slots t) < tb_size t then t
      else t\<lparr>tb_size := (if tb_size t > 0 then tb_size t * 2 else 16)\<rparr>)"

fun slot_find :: "http_header_slot list \<Rightarrow> char list \<Rightarrow> nat option" where
  "slot_find [] key = None"
| "slot_find (s # ss) key =
     (if length (sl_key s) = length key \<and> upsgi_strnicmp (sl_key s) key = 0 then Some 0
      else map_option Suc (slot_find ss key))"

definition http_header_table_find :: "http_header_table \<Rightarrow> char list \<Rightarrow> nat option" where
  "http_header_table_find t key = slot_find (tb_slots t) key"

text \<open>One header line; \<open>None\<close>: the request is refused.\<close>

definition header_line :: "char list \<Rightarrow> http_header_table \<Rightarrow> http_header_table option" where
  "header_line line t =
     (case http_header_to_cgi line of
        None \<Rightarrow> None
      | Some (key, val, has_prefix) \<Rightarrow>
          (case http_header_table_find t key of
             Some i \<Rightarrow>
               if http_header_reject_duplicate key then None
               else Some (t\<lparr>tb_slots := (tb_slots t)[i := (tb_slots t ! i)
                            \<lparr>sl_value := sl_value (tb_slots t ! i) @ '', '' @ val\<rparr>]\<rparr>)
           | None \<Rightarrow>
               (let t1 = http_header_table_reserve t in
                Some (t1\<lparr>tb_slots := tb_slots t1 @
                   [\<lparr>sl_key = key, sl_value = val, sl_has_prefix = has_prefix\<rparr>]\<rparr>))))"

text \<open>The header loop: \<open>line\<close> is the bytes from \<open>base\<close> to \<open>ptr\<close>.\<close>

fun header_loop :: "char list \<Rightarrow> char list \<Rightarrow> http_header_table \<Rightarrow> http_header_table option" where
  "header_loop [] line t = Some t"
| "header_loop [c] line t = (if c = CR then None else Some t)"
| "header_loop (c # d # cs) line t =
     (if c = CR then
        (if d \<noteq> LF then None
         else if cs \<noteq> [] \<and> is_blank (hd cs) then None
         else if line = [] then Some t
         else if length line > 0xffff then None
         else Option.bind (header_line line t) (header_loop cs []))
      else header_loop (d # cs) (line @ [c]) t)"

text \<open>The second loop: the slots become variables; the flags are \<open>saw_content_length\<close> and
  \<open>saw_chunked_transfer_encoding\<close>.\<close>

definition is_cl_slot :: "http_header_slot \<Rightarrow> bool" where
  "is_cl_slot s \<longleftrightarrow> length (sl_key s) = 14 \<and> upsgi_strnicmp (sl_key s) ''Content-Length'' = 0"

definition is_te_slot :: "http_header_slot \<Rightarrow> bool" where
  "is_te_slot s \<longleftrightarrow> length (sl_key s) = 17 \<and> upsgi_strnicmp (sl_key s) ''Transfer-Encoding'' = 0 \<and>
     http_header_value_has_chunked_token (sl_value s)"

fun emit_slots :: "http_header_slot list \<Rightarrow> bool \<Rightarrow> bool \<Rightarrow> http_req \<Rightarrow> http_req c_result" where
  "emit_slots [] cl te r = Ok r"
| "emit_slots (s # ss) cl te r =
     (if is_cl_slot s \<and> te then Err r
      else if \<not> is_cl_slot s \<and> is_te_slot s \<and> cl then Err r
      else
       (case http_add_upsgi_header (hr_pkt r) (sl_key s) (sl_value s) (sl_has_prefix s) of
          None \<Rightarrow> Fault
        | Some (n, p) \<Rightarrow>
            if n = 0 then Err (r\<lparr>hr_pkt := p\<rparr>)
            else emit_slots ss (cl \<or> is_cl_slot s) (te \<or> \<not> is_cl_slot s \<and> is_te_slot s)
                   (r\<lparr>hr_pkt := p\<lparr>pkt_len := pkt_len p + n\<rparr>\<rparr>)))"

section \<open>The request\<close>

definition method_stage :: "http_req \<Rightarrow> http_req c_result" where
  "method_stage r =
     (let base = takeWhile (\<lambda>c. c \<noteq> CHR '' '') (hr_rest r);
          rest = dropWhile (\<lambda>c. c \<noteq> CHR '' '') (hr_rest r) in
      if rest = [] then Ok (r\<lparr>hr_rest := []\<rparr>)
      else c_bind (put_var ''REQUEST_METHOD'' base (r\<lparr>hr_rest := tl rest\<rparr>)) (\<lambda>r1.
             Ok (if base = ''HEAD'' then r1\<lparr>hr_ignore_body := True\<rparr> else r1)))"

text \<open>\<open>seen\<close> is the bytes from \<open>base\<close> to \<open>ptr\<close>, \<open>query\<close> those from \<open>query_string\<close> on.\<close>

fun uri_loop :: "http_cfg \<Rightarrow> char list \<Rightarrow> char list \<Rightarrow> char list option \<Rightarrow> http_req \<Rightarrow> http_req c_result" where
  "uri_loop cfg [] seen query r = Ok (r\<lparr>hr_rest := []\<rparr>)"
| "uri_loop cfg (c # cs) seen query r =
     (if c = CHR ''?'' \<and> query = None then
        c_bind (http_add_path_info cfg seen r) (uri_loop cfg cs (seen @ [c]) (Some []))
      else if c = CHR '' '' then
        c_bind (put_var ''REQUEST_URI'' seen (r\<lparr>hr_rest := cs\<rparr>)) (\<lambda>r1.
          (case query of
             None \<Rightarrow> c_bind (http_add_path_info cfg seen r1) (put_var ''QUERY_STRING'' [])
           | Some q \<Rightarrow> put_var ''QUERY_STRING'' q r1))
      else uri_loop cfg cs (seen @ [c]) (map_option (\<lambda>q. q @ [c]) query) r)"

definition uri_stage :: "http_cfg \<Rightarrow> http_req \<Rightarrow> http_req c_result" where
  "uri_stage cfg r = uri_loop cfg (hr_rest r) [] None r"

definition protocol_stage :: "http_req \<Rightarrow> http_req c_result" where
  "protocol_stage r =
     (let base = takeWhile (\<lambda>c. c \<noteq> CR) (hr_rest r) in
      case dropWhile (\<lambda>c. c \<noteq> CR) (hr_rest r) of
        [] \<Rightarrow> Ok (r\<lparr>hr_rest := []\<rparr>)
      | [_] \<Rightarrow> Err r
      | _ # d # rest \<Rightarrow>
          if d \<noteq> LF then Err r
          else if length base > 0xffff then Err r
          else put_var ''SERVER_PROTOCOL'' base (r\<lparr>hr_rest := rest\<rparr>))"

definition server_stage :: "http_cfg \<Rightarrow> proxy_info \<Rightarrow> http_req \<Rightarrow> http_req c_result" where
  "server_stage cfg px r =
     c_bind (if hc_manage_script_name cfg then Ok r else put_var ''SCRIPT_NAME'' [] r) (\<lambda>r1.
     c_bind (put_var ''SERVER_NAME'' (hc_hostname cfg) r1) (\<lambda>r2.
       (case px_dst px of
          Some dst \<Rightarrow>
            c_bind (put_var ''SERVER_ADDR'' dst r2) (\<lambda>r3.
              (case px_dst_port px of Some port \<Rightarrow> put_var ''SERVER_PORT'' port r3 | None \<Rightarrow> Ok r3))
        | None \<Rightarrow>
            put_var ''SERVER_PORT'' (if hc_server_port cfg \<noteq> [] then hc_server_port cfg else ''80'') r2)))"

text \<open>An IPv4 address that is mapped into IPv6 is shown as an IPv4 address.\<close>

definition v4mapped :: "char list \<Rightarrow> bool" where
  "v4mapped a \<longleftrightarrow> take 12 a = replicate 10 (CHR 0x00) @ [CHR 0xFF, CHR 0xFF]"

definition client_text :: "http_cfg \<Rightarrow> char list option" where
  "client_text cfg =
     (case hc_client cfg of
        Inet6 a \<Rightarrow> if v4mapped a then hc_ntop4 cfg (drop 12 a) else hc_ntop6 cfg a
      | Inet4 a \<Rightarrow> hc_ntop4 cfg a)"

definition remote_stage :: "http_cfg \<Rightarrow> proxy_info \<Rightarrow> http_req \<Rightarrow> http_req c_result" where
  "remote_stage cfg px r =
     (case px_src px of
        Some src \<Rightarrow>
          c_bind (put_var ''REMOTE_ADDR'' src r) (\<lambda>r1.
            (case px_src_port px of Some port \<Rightarrow> put_var ''REMOTE_PORT'' port r1 | None \<Rightarrow> Ok r1))
      | None \<Rightarrow>
          (case client_text cfg of None \<Rightarrow> Err r | Some ip \<Rightarrow> put_var ''REMOTE_ADDR'' ip r))"

definition https_stage :: "http_cfg \<Rightarrow> http_req \<Rightarrow> http_req c_result" where
  "https_stage cfg r = (if hc_https cfg \<noteq> [] then put_var ''HTTPS'' (hc_https cfg) r else Ok r)"

definition headers_stage :: "http_req \<Rightarrow> http_req c_result" where
  "headers_stage r =
     (case header_loop (hr_rest r) [] http_header_table_init of
        None \<Rightarrow> Err r
      | Some t \<Rightarrow> emit_slots (tb_slots t) False False r)"

definition http_parse :: "http_cfg \<Rightarrow> http_req \<Rightarrow> http_req c_result" where
  "http_parse cfg r =
     (case (if hc_proxy cfg then proxy1_parse (hr_rest r) else (hr_rest r, no_proxy)) of (rest, px) \<Rightarrow>
      c_bind (method_stage (r\<lparr>hr_rest := rest\<rparr>)) (\<lambda>r1.
      c_bind (uri_stage cfg r1) (\<lambda>r2.
      c_bind (protocol_stage r2) (\<lambda>r3.
      c_bind (server_stage cfg px r3) (\<lambda>r4.
      c_bind (remote_stage cfg px r4) (\<lambda>r5.
      c_bind (https_stage cfg r5) headers_stage))))))"

section \<open>Receiving a request\<close>

text \<open>\<open>hn_buf\<close> is the first \<open>proto_parser_pos\<close> bytes of \<open>proto_parser_buf\<close>.\<close>

record http_conn =
  hn_buf :: "char list"
  hn_status :: nat
  hn_remains :: "char list"
  hn_modifiers :: "nat \<times> nat"

text \<open>The scan for the empty line: the status it leaves, and what follows the line if it was found.\<close>

fun scan_loop :: "nat \<Rightarrow> char list \<Rightarrow> nat \<times> char list option" where
  "scan_loop st [] = (st, None)"
| "scan_loop st (c # cs) =
     (if c = CR \<and> (st = 0 \<or> st = 2) then scan_loop (st + 1) cs
      else if c = CR then scan_loop 1 cs
      else if c = LF \<and> st = 1 then scan_loop 2 cs
      else if c = LF \<and> st = 3 then (3, Some cs)
      else scan_loop 0 cs)"

definition http_received ::
    "http_cfg \<Rightarrow> char list \<Rightarrow> http_conn \<Rightarrow> http_req \<Rightarrow> (proto_ret \<times> http_conn \<times> http_req) option" where
  "http_received cfg d conn r =
     (let buf = hn_buf conn @ d in
      case scan_loop (hn_status conn) d of
        (st, None) \<Rightarrow> Some (UPSGI_AGAIN, conn\<lparr>hn_buf := buf, hn_status := st\<rparr>, r)
      | (st, Some remains) \<Rightarrow>
          (let conn1 = conn\<lparr>hn_buf := buf, hn_status := st, hn_remains := remains\<rparr> in
           case http_parse cfg (r\<lparr>hr_rest := take (length buf - length remains) buf\<rparr>) of
             Ok r1 \<Rightarrow> Some (UPSGI_OK, conn1\<lparr>hn_modifiers := hc_modifiers cfg\<rparr>, r1)
           | Err r1 \<Rightarrow> Some (PROTO_ERR, conn1, r1)
           | Fault \<Rightarrow> None))"

text \<open>The parser's buffer has the size of the packet buffer, \<open>upsgi.buffer_size\<close>.\<close>

definition upsgi_proto_http_parser ::
    "http_cfg \<Rightarrow> http_conn \<Rightarrow> http_req \<Rightarrow> read_ev list \<Rightarrow>
     ((proto_ret \<times> http_conn \<times> http_req) option) \<times> read_ev list" where
  "upsgi_proto_http_parser cfg conn r evs =
     (let room = length (pkt_buffer (hr_pkt r)) - length (hn_buf conn) in
      if room = 0 then (Some (PROTO_ERR, conn, r), evs)
      else case sock_read room evs of
             (Got d, evs1) \<Rightarrow> (if d = [] then Some (PROTO_ERR, conn, r) else http_received cfg d conn r, evs1)
           | (WouldBlock, evs1) \<Rightarrow> (Some (UPSGI_AGAIN, conn, r), evs1)
           | (ReadFail, evs1) \<Rightarrow> (Some (PROTO_ERR, conn, r), evs1))"

text \<open>The same over TLS: what \<open>SSL_read\<close> answers, with the answer of the wait for a writable socket.\<close>

datatype ssl_ev = SData "char list" | SEmpty | SWantRead | SWantWrite int | SFail

fun ssl_fetch :: "nat \<Rightarrow> ssl_ev list \<Rightarrow> read_ret \<times> ssl_ev list" where
  "ssl_fetch n [] = (Got [], [])"
| "ssl_fetch n (SData bs # evs) =
     (Got (take n bs), if length bs \<le> n then evs else SData (drop n bs) # evs)"
| "ssl_fetch n (SEmpty # evs) = (Got [], evs)"
| "ssl_fetch n (SWantRead # evs) = (WouldBlock, evs)"
| "ssl_fetch n (SWantWrite w # evs) = (if w \<le> 0 then (ReadFail, evs) else ssl_fetch n evs)"
| "ssl_fetch n (SFail # evs) = (ReadFail, evs)"

definition upsgi_proto_https_parser ::
    "http_cfg \<Rightarrow> http_conn \<Rightarrow> http_req \<Rightarrow> ssl_ev list \<Rightarrow>
     ((proto_ret \<times> http_conn \<times> http_req) option) \<times> ssl_ev list" where
  "upsgi_proto_https_parser cfg conn r evs =
     (let room = length (pkt_buffer (hr_pkt r)) - length (hn_buf conn) in
      if room = 0 then (Some (PROTO_ERR, conn, r), evs)
      else case ssl_fetch room evs of
             (Got d, evs1) \<Rightarrow> (if d = [] then Some (PROTO_ERR, conn, r)
                               else http_received (cfg\<lparr>hc_https := ''on''\<rparr>) d conn r, evs1)
           | (WouldBlock, evs1) \<Rightarrow> (Some (UPSGI_AGAIN, conn, r), evs1)
           | (ReadFail, evs1) \<Rightarrow> (Some (PROTO_ERR, conn, r), evs1))"

section \<open>Back to HTTP\<close>

definition lower_char :: "char \<Rightarrow> char" where
  "lower_char c = (if 65 \<le> ord c \<and> ord c \<le> (90::nat) then char_of (ord c + (32::nat)) else c)"

fun httpize_loop :: "bool \<Rightarrow> char list \<Rightarrow> char list" where
  "httpize_loop upper [] = []"
| "httpize_loop upper (c # cs) =
     (if upper then c # httpize_loop False cs
      else if c = CHR ''_'' then CHR ''-'' # httpize_loop True cs
      else lower_char c # httpize_loop False cs)"

definition upsgi_httpize_var :: "char list \<Rightarrow> char list" where
  "upsgi_httpize_var buf = httpize_loop True buf"

text \<open>The loop over the variables: the pieces it appends and the value of \<open>X-Forwarded-For\<close>.  The
  entries are pairs.\<close>

fun to_http_vars :: "char list list \<Rightarrow> bool \<Rightarrow> char list list \<Rightarrow> char list \<Rightarrow> char list list \<times> char list" where
  "to_http_vars drops has_host (k # v # rest) xff =
     (if upsgi_starts_with k ''HTTP_'' = 0 then
        (let header = drop 5 k in
         if has_host \<and> upsgi_strncmp header ''HOST'' = 0 then to_http_vars drops has_host rest xff
         else if header \<in> set drops then to_http_vars drops has_host rest xff
         else if upsgi_strncmp header ''X_FORWARDED_FOR'' = 0 then to_http_vars drops has_host rest v
         else (case to_http_vars drops has_host rest xff of
                 (ps, x) \<Rightarrow> (upsgi_httpize_var header # '': '' # v # [CR, LF] # ps, x)))
      else to_http_vars drops has_host rest xff)"
| "to_http_vars drops has_host _ xff = ([], xff)"

definition to_http_tail :: "mem_env \<Rightarrow> char list option \<Rightarrow> wsgi_req \<Rightarrow> char list list \<Rightarrow> char list \<Rightarrow>
    upsgi_buffer \<Rightarrow> upsgi_buffer c_result" where
  "to_http_tail env host r required xff ub =
     (let app = sink_all (upsgi_buffer_append env) in
      c_bind (case host of None \<Rightarrow> Ok ub | Some h \<Rightarrow> app ub [''Host: '', h, [CR, LF]]) (\<lambda>u1.
      c_bind (if rq_content_type r \<noteq> [] then app u1 [''Content-Type: '', rq_content_type r, [CR, LF]] else Ok u1) (\<lambda>u2.
      c_bind (if rq_post_cl r > 0 then
                c_bind (app u2 [''Content-Length: '']) (\<lambda>u.
                c_bind (upsgi_buffer_num64 env u (rq_post_cl r)) (\<lambda>w. app w [[CR, LF]]))
              else Ok u2) (\<lambda>u3.
        app u3 (required @ [''X-Forwarded-For: ''] @ (if xff \<noteq> [] then [xff, '', ''] else []) @
                [rq_remote_addr r, [CR, LF, CR, LF]])))))"

definition upsgi_to_http_dumb ::
    "mem_env \<Rightarrow> wsgi_req \<Rightarrow> char list option \<Rightarrow> char list option \<Rightarrow> upsgi_buffer c_result" where
  "upsgi_to_http_dumb env r host uri =
     (case to_http_vars [] (host \<noteq> None) (rq_hvec r) [] of (vars, xff) \<Rightarrow>
      c_bind (sink_all (upsgi_buffer_append env) (upsgi_buffer_new env 4096)
                ([rq_method r, '' '', (case uri of Some u \<Rightarrow> if u \<noteq> [] then u else rq_uri r | None \<Rightarrow> rq_uri r),
                  '' '', rq_protocol r, [CR, LF]] @ vars))
        (to_http_tail env host r [] xff))"

definition upsgi_to_http ::
    "mem_env \<Rightarrow> wsgi_req \<Rightarrow> char list option \<Rightarrow> char list option \<Rightarrow> upsgi_buffer c_result" where
  "upsgi_to_http env r host uri =
     (case to_http_vars [''CONNECTION'', ''KEEP_ALIVE'', ''TE'', ''TRAILER''] (host \<noteq> None) (rq_hvec r) [] of (vars, xff) \<Rightarrow>
      c_bind (sink_all (upsgi_buffer_append env) (upsgi_buffer_new env 4096)
                ([rq_method r, '' '', (case uri of Some u \<Rightarrow> if u \<noteq> [] then u else rq_uri r | None \<Rightarrow> rq_uri r),
                  '' HTTP/1.0'' @ [CR, LF]] @ vars))
        (to_http_tail env host r [''Connection: close'' @ [CR, LF]] xff))"

fun full_http_loop :: "nat \<Rightarrow> char list \<Rightarrow> bool" where
  "full_http_loop st [] = False"
| "full_http_loop st (c # cs) =
     (if st = 0 then full_http_loop (if c = CR then 1 else 0) cs
      else if st = 1 then full_http_loop (if c = LF then 2 else 0) cs
      else if st = 2 then full_http_loop (if c = CR then 3 else 0) cs
      else if st = 3 then (if c = LF then True else full_http_loop 0 cs)
      else full_http_loop 0 cs)"

definition upsgi_is_full_http :: "upsgi_buffer \<Rightarrow> bool" where
  "upsgi_is_full_http ub = full_http_loop 0 (ub_content ub)"

section \<open>Keeping a connection\<close>

text \<open>What \<open>upsgi_proto_http11_close\<close> looks at, and the slots of a core in the socket's arrays.\<close>

record http11_req =
  h1_write_errors :: nat
  h1_status :: nat
  h1_remains :: nat
  h1_post_pos :: "64 word"
  h1_via_offload :: bool
  h1_req :: wsgi_req

record http11_slot =
  h1_retry :: bool
  h1_fd :: int

text \<open>Whether the descriptor is closed, and the slot afterwards.\<close>

definition http11_must_close :: "http11_req \<Rightarrow> bool" where
  "http11_must_close q \<longleftrightarrow>
     h1_write_errors q \<noteq> 0 \<or> h1_status q \<noteq> 3 \<or> h1_remains q > 0 \<or> h1_post_pos q < rq_post_cl (h1_req q) \<or>
     h1_via_offload q \<or> upsgi_strncmp ''HTTP/1.0'' (rq_protocol (h1_req q)) = 0 \<or>
     upsgi_http11_request_wants_close (rq_hvec (h1_req q))"

definition upsgi_proto_http11_close :: "http11_req \<Rightarrow> int \<Rightarrow> http11_slot \<Rightarrow> bool \<times> http11_slot" where
  "upsgi_proto_http11_close q fd s =
     (if http11_must_close q then (True, s\<lparr>h1_retry := False, h1_fd := -1\<rparr>)
      else (False, s\<lparr>h1_retry := True, h1_fd := fd\<rparr>))"

definition upsgi_proto_http11_fix_headers :: "mem_env \<Rightarrow> wsgi_req \<Rightarrow> upsgi_buffer \<Rightarrow> upsgi_buffer c_result" where
  "upsgi_proto_http11_fix_headers env r headers =
     c_bind
       (if (upsgi_http11_request_wants_close (rq_hvec r) \<or> upsgi_strncmp ''HTTP/1.0'' (rq_protocol r) = 0) \<and>
           \<not> upsgi_http_response_has_connection_header (ub_content headers)
        then upsgi_buffer_append env headers (''Connection: close'' @ [CR, LF]) else Ok headers)
       (upsgi_proto_base_fix_headers env)"

text \<open>The answers of \<open>getsockname\<close>, of the wait for data and of a plain accept are arguments.  The
  result is the descriptor, whether the kept one was closed, and the slot.\<close>

definition upsgi_proto_http11_accept :: "bool \<Rightarrow> int \<Rightarrow> int \<Rightarrow> http11_slot \<Rightarrow> int \<times> bool \<times> http11_slot" where
  "upsgi_proto_http11_accept getsockname_ok wait_ret accept_ret s =
     (if h1_retry s then
        (if \<not> getsockname_ok \<or> wait_ret \<le> 0 then (-1, True, s\<lparr>h1_retry := False, h1_fd := -1\<rparr>)
         else (h1_fd s, False, s))
      else (accept_ret, False, s))"

section \<open>Tokens\<close>

definition item_matches :: "char list \<Rightarrow> char list \<Rightarrow> bool" where
  "item_matches token item \<longleftrightarrow>
     upsgi_strnicmp (rtrim (takeWhile (\<lambda>c. c \<noteq> CHR '';'') (dropWhile is_blank item))) token = 0"

abbreviation lists_token :: "char list \<Rightarrow> char list \<Rightarrow> bool" where
  "lists_token v token \<equiv> list_ex (item_matches token) (split_on (CHR '','') v)"

lemma split_on_cons:
  "split_on w v = takeWhile (\<lambda>c. c \<noteq> w) v #
     (case dropWhile (\<lambda>c. c \<noteq> w) v of [] \<Rightarrow> [] | _ # r \<Rightarrow> split_on w r)"
  by (induction v) auto

lemma item_matches_empty: "token \<noteq> [] \<Longrightarrow> \<not> item_matches token []"
  by (simp add: item_matches_def rtrim_def upsgi_strnicmp_def)

lemma lists_token_skip:
  assumes "token \<noteq> []"
  shows "lists_token (dropWhile (\<lambda>c. is_blank c \<or> c = CHR '','') v) token \<longleftrightarrow> lists_token v token"
proof (induction v)
  case (Cons c v)
  have "lists_token (c # v) token \<longleftrightarrow> lists_token v token" if "is_blank c" "c \<noteq> CHR '',''"
    using that by (subst (1 2) split_on_cons) (simp add: item_matches_def)
  moreover have "lists_token (CHR '','' # v) token \<longleftrightarrow> lists_token v token"
    using assms by (simp add: item_matches_empty)
  ultimately show ?case using Cons by auto
qed simp

lemma takeWhile_twice: "takeWhile P (takeWhile Q xs) = takeWhile (\<lambda>x. Q x \<and> P x) xs"
  by (induction xs) auto

lemma lists_token_first:
  assumes "token \<noteq> []" "v \<noteq> []" "\<not> is_blank (hd v)"
  shows "lists_token v token \<longleftrightarrow>
    upsgi_strnicmp (rtrim (takeWhile (\<lambda>c. c \<noteq> CHR '','' \<and> c \<noteq> CHR '';'') v)) token = 0 \<or>
    lists_token (dropWhile (\<lambda>c. c \<noteq> CHR '','') v) token"
proof -
  let ?i = "takeWhile (\<lambda>c. c \<noteq> CHR '','') v"
  have "dropWhile is_blank ?i = ?i" using assms(2,3) by (cases v) auto
  then have i: "item_matches token ?i \<longleftrightarrow>
      upsgi_strnicmp (rtrim (takeWhile (\<lambda>c. c \<noteq> CHR '','' \<and> c \<noteq> CHR '';'') v)) token = 0"
    by (simp add: item_matches_def takeWhile_twice)
  show ?thesis
  proof (cases "dropWhile (\<lambda>c. c \<noteq> CHR '','') v")
    case Nil
    then have "split_on (CHR '','') v = [?i]" by (subst split_on_cons) (simp only: list.case)
    then show ?thesis unfolding Nil using i assms(1) by (simp only:) (simp add: item_matches_empty)
  next
    case (Cons c r)
    then have c: "c = CHR '',''" using hd_dropWhile [of "\<lambda>c. c \<noteq> CHR '',''" v] by simp
    have "split_on (CHR '','') v = ?i # split_on (CHR '','') r"
      using Cons by (subst split_on_cons) (simp only: list.case)
    then show ?thesis unfolding Cons c using i assms(1) by (simp only:) (simp add: item_matches_empty)
  qed
qed

lemma dropWhile_twice: "(\<And>x. Q x \<Longrightarrow> P x) \<Longrightarrow> dropWhile P (dropWhile Q xs) = dropWhile P xs"
  by (induction xs) auto

lemma has_token_lists:
  "token \<noteq> [] \<Longrightarrow> http_header_value_has_token v token \<longleftrightarrow> lists_token v token"
proof (induction v token rule: http_header_value_has_token.induct)
  case (1 v token)
  let ?v = "dropWhile (\<lambda>c. is_blank c \<or> c = CHR '','') v"
  let ?i = "rtrim (takeWhile (\<lambda>c. c \<noteq> CHR '','' \<and> c \<noteq> CHR '';'') ?v)"
  have d: "dropWhile (\<lambda>c. c \<noteq> CHR '','') (dropWhile (\<lambda>c. c \<noteq> CHR '','' \<and> c \<noteq> CHR '';'') ?v) =
      dropWhile (\<lambda>c. c \<noteq> CHR '','') ?v"
    by (rule dropWhile_twice) simp
  show ?case
  proof (cases "?v = []")
    case True
    then have "\<not> http_header_value_has_token v token"
      by (subst http_header_value_has_token.simps) (simp only: Let_def if_True simp_thms)
    moreover have "\<not> lists_token v token"
      using lists_token_skip [OF 1(2), of v] 1(2) unfolding True by (simp add: item_matches_empty)
    ultimately show ?thesis by blast
  next
    case False
    have "\<not> is_blank (hd ?v)" using hd_dropWhile [OF False] by simp
    note f = lists_token_first [OF 1(2) False this]
    have len: "upsgi_strnicmp ?i token = 0 \<Longrightarrow> length ?i = length token"
      by (simp add: upsgi_strnicmp_def split: if_splits)
    have u: "http_header_value_has_token v token \<longleftrightarrow>
        upsgi_strnicmp ?i token = 0 \<or> http_header_value_has_token (dropWhile (\<lambda>c. c \<noteq> CHR '','') ?v) token"
      using False len by (subst http_header_value_has_token.simps) (auto simp only: Let_def d split: if_splits)
    show ?thesis
      unfolding u f [unfolded lists_token_skip [OF 1(2)]]
      using 1(1) [OF refl False refl refl, unfolded d] 1(2) by (cases "upsgi_strnicmp ?i token = 0") auto
  qed
qed

text \<open>a token is found in a header value exactly when one of the items between commas, without the
  blanks around it and without its parameters, is the token, upper or lower case.\<close>

theorem http_value_has_token_spec:
  assumes "token \<noteq> []"
  shows "http_header_value_has_token v token \<longleftrightarrow>
    (\<exists>item \<in> set (split_on (CHR '','') v).
       upsgi_strnicmp (rtrim (takeWhile (\<lambda>c. c \<noteq> CHR '';'') (dropWhile is_blank item))) token = 0)"
  using has_token_lists [OF assms] by (simp add: list_ex_iff item_matches_def)

theorem http_value_has_token_spec_witness:
  "http_header_value_has_token ''gzip;q=1 , Chunked '' ''chunked''"
  using http_value_has_token_spec [of "''chunked''" "''gzip;q=1 , Chunked ''"]
  by (simp add: rtrim_def is_blank_def upsgi_strnicmp_def tolower_def is_upper_def char_of_def bit_0)

section \<open>Paths that need no decoding\<close>

lemma decode_plain:
  "\<not> needs_decode_loop cs \<Longrightarrow> url_finish (url_loop nsd False i cs (UZero, v, out)) = out @ cs"
  "\<not> needs_decode_loop (CHR ''/'' # cs) \<Longrightarrow> i > 0 \<Longrightarrow>
     url_finish (url_loop nsd False i cs (USlash, v, out)) = out @ CHR ''/'' # cs"
  "\<not> needs_decode_loop (CHR ''/'' # CHR ''.'' # cs) \<Longrightarrow> i > 1 \<Longrightarrow>
     url_finish (url_loop nsd False i cs (UDot, v, out)) = out @ CHR ''/'' # CHR ''.'' # cs"
  "\<not> needs_decode_loop (CHR ''/'' # CHR ''.'' # CHR ''.'' # cs) \<Longrightarrow> i > 2 \<Longrightarrow>
     url_finish (url_loop nsd False i cs (UDotdot, v, out)) = out @ CHR ''/'' # CHR ''.'' # CHR ''.'' # cs"
proof (induction cs arbitrary: i out)
  case Nil
  { case 1 then show ?case by simp }
  { case 2 then show ?case by simp }
  { case 3 then show ?case by simp }
  { case 4 then show ?case by simp }
next
  case (Cons c cs)
  { case 1 then show ?case using Cons by (auto split: if_splits) }
  { case 2 then show ?case using Cons by (auto simp: slash_if_def split: if_splits) }
  { case 3 then show ?case using Cons by (auto simp: slash_if_def split: if_splits) }
  { case 4 then show ?case using Cons by (auto simp: slash_if_def split: if_splits) }
qed

lemma no_decode_same:
  assumes "\<not> http_path_needs_decode path"
  shows "http_url_decode4 nsd path = path"
proof (cases path)
  case Nil
  then show ?thesis by (simp add: http_url_decode4_def)
next
  case (Cons c cs)
  with assms have "c = CHR ''/''" "\<not> needs_decode_loop path"
    by (auto simp: http_path_needs_decode_def split: if_splits)
  then show ?thesis using decode_plain(1) [of path nsd 0] Cons by (simp add: http_url_decode4_def)
qed

text \<open>the path that is passed on without decoding is the path that decoding would have given: the
  test for special characters is exact enough for the short cut.\<close>

theorem http_path_no_decode_sound:
  assumes "\<not> http_path_needs_decode path"
  shows "http_url_decode4 nsd path = path"
  by (rule no_decode_same [OF assms])

theorem http_path_no_decode_sound_witness: "http_url_decode4 False ''/a/.b'' = ''/a/.b''"
  by (rule http_path_no_decode_sound) (simp add: http_path_needs_decode_def)

section \<open>The end of the headers\<close>

lemma scan_loop_append:
  "scan_loop st (xs @ ys) =
     (case scan_loop st xs of (st', None) \<Rightarrow> scan_loop st' ys | (st', Some rest) \<Rightarrow> (st', Some (rest @ ys)))"
  by (induction st xs rule: scan_loop.induct) auto

text \<open>The status is how much of the empty line has just been seen.\<close>

definition seen_tail :: "nat \<Rightarrow> char list" where
  "seen_tail st = take st [CR, LF, CR]"

lemma scan_loop_sound:
  "scan_loop st cs = (st', Some rest) \<Longrightarrow> st \<le> 3 \<Longrightarrow>
     st' = 3 \<and> (\<exists>pre. seen_tail st @ cs = pre @ [CR, LF, CR, LF] @ rest)"
proof (induction st cs rule: scan_loop.induct)
  case (1 st)
  then show ?case by simp
next
  case (2 st c cs)
  have p: "\<exists>pre. seen_tail st @ c # cs = pre @ [CR, LF, CR, LF] @ rest"
    if "seen_tail st @ [c] = x @ seen_tail k" "\<exists>pre. seen_tail k @ cs = pre @ [CR, LF, CR, LF] @ rest" for x k
  proof -
    from that(2) obtain pre where "seen_tail k @ cs = pre @ [CR, LF, CR, LF] @ rest" by blast
    then have "(seen_tail st @ [c]) @ cs = (x @ pre) @ [CR, LF, CR, LF] @ rest" unfolding that(1) by simp
    then show ?thesis by auto
  qed
  consider "st = 0" | "st = 1" | "st = 2" | "st = 3" using 2(6) by linarith
  then show ?case
  proof cases
    case 1
    with 2 p [of "[]" 1] p [of "[c]" 0] show ?thesis by (auto simp: seen_tail_def split: if_splits)
  next
    case c1: 2
    with 2 p [of "[]" 2] p [of "[CR, c]" 0] p [of "[CR]" 1] show ?thesis
      by (auto simp: seen_tail_def numeral_2_eq_2 split: if_splits)
  next
    case 3
    with 2 p [of "[]" 3] p [of "[CR, LF, c]" 0] show ?thesis
      by (auto simp: seen_tail_def numeral_2_eq_2 numeral_3_eq_3 split: if_splits)
  next
    case 4
    with 2 p [of "[CR, LF, CR]" 1] p [of "[CR, LF, CR, c]" 0] show ?thesis
      by (auto simp: seen_tail_def numeral_2_eq_2 numeral_3_eq_3 split: if_splits)
  qed
qed

text \<open>An occurrence of the empty line is not lost when the status falls back.\<close>

lemma tail_shift:
  assumes "seen_tail st @ c # cs = pre @ [CR, LF, CR, LF] @ rest" "st \<le> 3" "\<not> (st = 3 \<and> c = LF)"
  shows "\<exists>pre'. seen_tail (if c = CR then (if st = 0 \<or> st = 2 then st + 1 else 1)
                   else if c = LF \<and> st = 1 then 2 else 0) @ cs = pre' @ [CR, LF, CR, LF] @ rest"
proof -
  consider "st = 0" | "st = 1" | "st = 2" | "st = 3" using assms(2) by linarith
  then show ?thesis
  proof cases
    case 1
    with assms(1) show ?thesis by (cases "c = CR") (auto simp: seen_tail_def Cons_eq_append_conv)
  next
    case 2
    with assms(1) show ?thesis
      by (cases "c = CR"; cases "c = LF") (auto simp: seen_tail_def Cons_eq_append_conv numeral_2_eq_2)
  next
    case 3
    with assms(1) show ?thesis
      by (cases "c = CR") (auto simp: seen_tail_def Cons_eq_append_conv numeral_2_eq_2 numeral_3_eq_3)
  next
    case 4
    with assms(1,3) show ?thesis
      by (cases "c = CR") (auto simp: seen_tail_def Cons_eq_append_conv numeral_2_eq_2 numeral_3_eq_3)
  qed
qed

lemma scan_loop_complete:
  "seen_tail st @ cs = pre @ [CR, LF, CR, LF] @ rest \<Longrightarrow> st \<le> 3 \<Longrightarrow>
     \<exists>rest'. scan_loop st cs = (3, Some rest') \<and> length rest \<le> length rest'"
proof (induction cs arbitrary: st pre)
  case Nil
  then have "length (seen_tail st) = length pre + 4 + length rest" by simp
  moreover have "length (seen_tail st) \<le> 3" by (simp add: seen_tail_def)
  ultimately show ?case by linarith
next
  case (Cons c cs)
  let ?k = "if c = CR then (if st = 0 \<or> st = 2 then st + 1 else 1) else if c = LF \<and> st = 1 then 2 else 0"
  show ?case
  proof (cases "st = 3 \<and> c = LF")
    case True
    have "length (seen_tail st) + Suc (length cs) = length pre + 4 + length rest"
      using arg_cong [OF Cons.prems(1), of length] by simp
    with True show ?thesis by (simp add: seen_tail_def)
  next
    case False
    from tail_shift [OF Cons.prems False] obtain pre' where
      "seen_tail ?k @ cs = pre' @ [CR, LF, CR, LF] @ rest" by blast
    moreover have "?k \<le> 3" using Cons.prems(2) by simp
    ultimately have "\<exists>rest'. scan_loop ?k cs = (3, Some rest') \<and> length rest \<le> length rest'"
      by (rule Cons.IH)
    moreover have "scan_loop st (c # cs) = scan_loop ?k cs" using False by auto
    ultimately show ?thesis by simp
  qed
qed

text \<open>The request as it arrives in pieces.\<close>

fun http_feed :: "http_cfg \<Rightarrow> char list list \<Rightarrow> http_conn \<Rightarrow> http_req \<Rightarrow> (proto_ret \<times> http_conn \<times> http_req) option" where
  "http_feed cfg [] conn r = Some (UPSGI_AGAIN, conn, r)"
| "http_feed cfg (d # ds) conn r =
     (case http_received cfg d conn r of
        Some (UPSGI_AGAIN, conn1, r1) \<Rightarrow> http_feed cfg ds conn1 r1
      | done \<Rightarrow> done)"

lemma http_feed_again:
  "scan_loop (hn_status conn) (concat ds) = (st, None) \<Longrightarrow>
     http_feed cfg (ds @ ds') conn r =
       http_feed cfg ds' (conn\<lparr>hn_buf := hn_buf conn @ concat ds, hn_status := st\<rparr>) r"
proof (induction ds arbitrary: conn)
  case Nil
  then have "conn\<lparr>hn_buf := hn_buf conn @ concat [], hn_status := st\<rparr> = conn" by simp
  then show ?case by (simp only: append_Nil)
next
  case (Cons d ds)
  obtain st1 where st1: "scan_loop (hn_status conn) d = (st1, None)"
    "scan_loop st1 (concat ds) = (st, None)"
    using Cons.prems by (auto simp: scan_loop_append split: prod.splits option.splits)
  with Cons.IH [of "conn\<lparr>hn_buf := hn_buf conn @ d, hn_status := st1\<rparr>"] show ?case
    by (simp add: http_received_def Let_def)
qed

lemma scan_loop_head:
  assumes "head = pre @ [CR, LF, CR, LF]" "\<nexists>a b. butlast head = a @ [CR, LF, CR, LF] @ b"
  shows "scan_loop 0 head = (3, Some [])"
proof -
  obtain rest where r: "scan_loop 0 head = (3, Some rest)"
    using scan_loop_complete [of 0 head pre "[]"] assms(1) by (auto simp: seen_tail_def)
  from scan_loop_sound [OF r] obtain p where "head = p @ [CR, LF, CR, LF] @ rest" by (auto simp: seen_tail_def)
  with assms(2) have "rest = []" by (cases rest rule: rev_cases) (auto simp: butlast_append)
  with r show ?thesis by simp
qed

lemma scan_loop_before:
  assumes "\<nexists>a b. butlast head = a @ [CR, LF, CR, LF] @ b" "head = xs @ ys" "ys \<noteq> []"
  shows "\<exists>st. scan_loop 0 xs = (st, None)"
proof (cases "scan_loop 0 xs")
  case (Pair st res)
  have "res = None"
  proof (cases res)
    case (Some rest)
    with Pair scan_loop_sound [of 0 xs st rest] obtain p where "xs = p @ [CR, LF, CR, LF] @ rest"
      by (auto simp: seen_tail_def)
    with assms have "butlast head = p @ [CR, LF, CR, LF] @ (rest @ butlast ys)"
      by (simp add: butlast_append)
    with assms(1) show ?thesis by blast
  qed
  with Pair show ?thesis by simp
qed

text \<open>C18: the request is handed to the parser when the first empty line is complete, and only then, in
  whatever pieces it arrives: the parser sees exactly the bytes up to and including the empty
  line, and what came with the last piece behind it is kept as the beginning of the body.\<close>

theorem http_feed_split_independent:
  assumes "head = pre @ [CR, LF, CR, LF]" "\<nexists>a b. butlast head = a @ [CR, LF, CR, LF] @ b"
    and "concat ds @ d = head @ extra" "length (concat ds) < length head"
    and "hn_buf conn = []" "hn_status conn = 0"
  shows "http_feed cfg (ds @ [d]) conn r =
    (let conn1 = conn\<lparr>hn_buf := head @ extra, hn_status := 3, hn_remains := extra\<rparr> in
     case http_parse cfg (r\<lparr>hr_rest := head\<rparr>) of
       Ok r1 \<Rightarrow> Some (UPSGI_OK, conn1\<lparr>hn_modifiers := hc_modifiers cfg\<rparr>, r1)
     | Err r1 \<Rightarrow> Some (PROTO_ERR, conn1, r1)
     | Fault \<Rightarrow> None)"
proof -
  have h: "head = concat ds @ take (length head - length (concat ds)) d"
  proof -
    have "take (length head) (concat ds @ d) = head" unfolding assms(3) by simp
    then show ?thesis using assms(4) by simp
  qed
  then have n: "take (length head - length (concat ds)) d \<noteq> []" using assms(4) by auto
  from scan_loop_before [OF assms(2) h n] obtain st where st: "scan_loop 0 (concat ds) = (st, None)" ..
  have "scan_loop 0 (concat ds @ d) = (3, Some extra)"
    unfolding assms(3) by (simp add: scan_loop_append scan_loop_head [OF assms(1,2)])
  with st have d: "scan_loop st d = (3, Some extra)" by (simp add: scan_loop_append)
  have "http_feed cfg (ds @ [d]) conn r =
      http_feed cfg [d] (conn\<lparr>hn_buf := concat ds, hn_status := st\<rparr>) r"
    using http_feed_again [of conn ds st cfg "[d]" r] st assms(5,6) by simp
  then show ?thesis
    by (simp add: http_received_def d Let_def assms(3) split: c_result.splits)
qed

text \<open>Unlike the request parser, \<open>upsgi_is_full_http\<close> falls back too far: the empty line of a header
  block is missed when a stray carriage return stands before it.\<close>

lemma full_http_missed:
  "full_http_loop 0 (''HTTP/1.0 200 OK'' @ [CR, CR, LF, CR, LF]) = False"
  "scan_loop 0 (''HTTP/1.0 200 OK'' @ [CR, CR, LF, CR, LF]) = (3, Some [])"
  by simp_all

section \<open>The packet the parser builds\<close>

text \<open>What every stage keeps: the packet is well formed and, for a buffer no larger than a variable
  may be, holds encoded variables.\<close>

definition pkt_ok :: "nat \<Rightarrow> http_req \<Rightarrow> bool" where
  "pkt_ok n r \<longleftrightarrow> pkt_inv (hr_pkt r) \<and> length (pkt_buffer (hr_pkt r)) = n \<and>
     (n \<le> 65536 \<longrightarrow> (\<exists>kvs. wf_vars kvs \<and> pkt_content (hr_pkt r) = encode_vars kvs))"

fun res_ok :: "nat \<Rightarrow> http_req c_result \<Rightarrow> bool" where
  "res_ok n (Ok r) = pkt_ok n r"
| "res_ok n (Err r) = pkt_ok n r"
| "res_ok n Fault = False"

named_theorems stage_intros

lemma res_ok_bind [stage_intros]:
  "res_ok n m \<Longrightarrow> (\<And>r. pkt_ok n r \<Longrightarrow> res_ok n (g r)) \<Longrightarrow> res_ok n (c_bind m g)"
  by (cases m) simp_all

lemma pkt_ok_update [simp]:
  "pkt_ok n (r\<lparr>hr_rest := x\<rparr>) = pkt_ok n r" "pkt_ok n (r\<lparr>hr_ignore_body := b\<rparr>) = pkt_ok n r"
  by (simp_all add: pkt_ok_def)

lemma u16_arg_idem: "u16_arg (u16_arg xs) = u16_arg xs"
  by (simp add: u16_arg_length)

lemma add_var_u16: "add_var p k v = add_var p (u16_arg k) (u16_arg v)"
  by (simp add: add_var_def proto_base_add_upsgi_var_def u16_arg_idem)

lemma pkt_ok_put:
  assumes "pkt_ok n r" "n \<le> 65536 \<Longrightarrow> pkt_len (hr_pkt r) + length (keyval_bytes k v) < n \<Longrightarrow> wf_vars [(k, v)]"
  shows "\<exists>p. pkt_put (hr_pkt r) (keyval_bytes k v) = Some p \<and> pkt_ok n (r\<lparr>hr_pkt := p\<rparr>)"
proof -
  from assms(1) have i: "pkt_inv (hr_pkt r)" "length (pkt_buffer (hr_pkt r)) = n" by (auto simp: pkt_ok_def)
  from pkt_put_ok [OF i(1), of "keyval_bytes k v"] obtain q where
    q: "pkt_put (hr_pkt r) (keyval_bytes k v) = Some q" "pkt_inv q" "length (pkt_buffer q) = n"
      "pkt_content q = (if pkt_len (hr_pkt r) + length (keyval_bytes k v) < n
         then pkt_content (hr_pkt r) @ keyval_bytes k v else pkt_content (hr_pkt r))"
    unfolding i(2) by blast
  have "\<exists>kvs. wf_vars kvs \<and> pkt_content q = encode_vars kvs" if small: "n \<le> 65536"
  proof -
    obtain kvs where "wf_vars kvs" "pkt_content (hr_pkt r) = encode_vars kvs"
      using assms(1) small unfolding pkt_ok_def by blast
    note kvs = this
    show ?thesis
    proof (cases "pkt_len (hr_pkt r) + length (keyval_bytes k v) < n")
      case True
      with kvs q(4) assms(2) [OF small] have "wf_vars (kvs @ [(k, v)])"
        "pkt_content q = encode_vars (kvs @ [(k, v)])" by (auto simp: wf_vars_def)
      then show ?thesis by blast
    next
      case False
      with kvs q(4) show ?thesis by auto
    qed
  qed
  with q show ?thesis by (auto simp: pkt_ok_def)
qed

lemma res_ok_put_var [stage_intros]:
  assumes "pkt_ok n r" "k \<noteq> []" "length k < 65536"
  shows "res_ok n (put_var k v r)"
proof -
  have "add_var (hr_pkt r) k v = pkt_put (hr_pkt r) (keyval_bytes k (u16_arg v))"
    using assms by (subst add_var_u16) (simp add: add_var_put var_fits_def u16_arg_length)
  then show ?thesis
    using pkt_ok_put [OF assms(1), of k "u16_arg v"] assms u16_arg_length [of v]
    by (auto simp: put_var_def)
qed

lemma res_ok_path_info [stage_intros]: "pkt_ok n r \<Longrightarrow> res_ok n (http_add_path_info cfg p r)"
  by (auto simp: http_add_path_info_def Let_def intro: stage_intros)

lemma res_ok_method [stage_intros]: "pkt_ok n r \<Longrightarrow> res_ok n (method_stage r)"
  unfolding method_stage_def Let_def by (auto intro!: stage_intros)

lemma res_ok_uri_loop: "pkt_ok n r \<Longrightarrow> res_ok n (uri_loop cfg cs seen query r)"
  by (induction cs arbitrary: seen query r) (auto intro!: stage_intros split: option.splits)

lemma res_ok_uri [stage_intros]: "pkt_ok n r \<Longrightarrow> res_ok n (uri_stage cfg r)"
  by (simp add: uri_stage_def res_ok_uri_loop)

lemma res_ok_protocol [stage_intros]: "pkt_ok n r \<Longrightarrow> res_ok n (protocol_stage r)"
  unfolding protocol_stage_def Let_def by (auto intro!: stage_intros split: list.splits)

lemma res_ok_server [stage_intros]: "pkt_ok n r \<Longrightarrow> res_ok n (server_stage cfg px r)"
  unfolding server_stage_def by (intro stage_intros) (auto intro!: stage_intros split: option.splits)

lemma res_ok_remote [stage_intros]: "pkt_ok n r \<Longrightarrow> res_ok n (remote_stage cfg px r)"
  unfolding remote_stage_def by (auto intro!: stage_intros split: option.splits)

lemma res_ok_https [stage_intros]: "pkt_ok n r \<Longrightarrow> res_ok n (https_stage cfg r)"
  unfolding https_stage_def by (auto intro!: stage_intros)

text \<open>A header variable is stored like the others, whatever its length, if it fits the buffer.\<close>

definition slot_var :: "http_header_slot \<Rightarrow> char list \<times> char list" where
  "slot_var s = ((if sl_has_prefix s then ''HTTP_'' else []) @ map cgi_char (sl_key s), sl_value s)"

lemma add_header_put:
  "http_add_upsgi_header p (sl_key s) (sl_value s) (sl_has_prefix s) =
     (let d = keyval_bytes (fst (slot_var s)) (snd (slot_var s)) in
      if pkt_len p + length d < length (pkt_buffer p)
      then map_option (\<lambda>q. (length d, q)) (pkt_store p d) else Some (0, p))"
  by (auto simp: http_add_upsgi_header_def slot_var_def Let_def not_le add.commute add.left_commute
      simp del: add_2_eq_Suc add_2_eq_Suc')

lemma emit_slots_Cons:
  "emit_slots (s # ss) cl te r =
     (let d = keyval_bytes (fst (slot_var s)) (snd (slot_var s)) in
      if is_cl_slot s \<and> te \<or> \<not> is_cl_slot s \<and> is_te_slot s \<and> cl then Err r
      else if pkt_len (hr_pkt r) + length d < length (pkt_buffer (hr_pkt r)) then
        (case pkt_put (hr_pkt r) d of
           None \<Rightarrow> Fault
         | Some p \<Rightarrow> emit_slots ss (cl \<or> is_cl_slot s) (te \<or> \<not> is_cl_slot s \<and> is_te_slot s) (r\<lparr>hr_pkt := p\<rparr>))
      else Err r)"
  by (auto simp: add_header_put Let_def pkt_put_def pkt_advance_def split: option.splits)

lemma res_ok_emit:
  "pkt_ok n r \<Longrightarrow> \<forall>s \<in> set ss. sl_key s \<noteq> [] \<Longrightarrow> res_ok n (emit_slots ss cl te r)"
proof (induction ss arbitrary: cl te r)
  case Nil
  then show ?case by simp
next
  case (Cons s ss)
  let ?k = "fst (slot_var s)" and ?v = "snd (slot_var s)"
  have "\<exists>p. pkt_put (hr_pkt r) (keyval_bytes ?k ?v) = Some p \<and> pkt_ok n (r\<lparr>hr_pkt := p\<rparr>)"
    using Cons.prems by (intro pkt_ok_put) (auto simp: slot_var_def)
  then show ?case
    using Cons by (auto simp: emit_slots_Cons Let_def simp del: emit_slots.simps)
qed


section \<open>The header table\<close>

definition same_name :: "char list \<Rightarrow> char list \<Rightarrow> bool" where
  "same_name a b \<longleftrightarrow> upsgi_strnicmp a b = 0"

text \<open>The table holds no two slots of the same name, only named ones, and has room for them.\<close>

definition table_ok :: "http_header_table \<Rightarrow> bool" where
  "table_ok t \<longleftrightarrow> length (tb_slots t) \<le> tb_size t \<and> (\<forall>s \<in> set (tb_slots t). sl_key s \<noteq> []) \<and>
     sorted_wrt (\<lambda>a b. \<not> same_name a b) (map sl_key (tb_slots t))"

lemma slot_find_None:
  "slot_find ss key = None \<Longrightarrow> s \<in> set ss \<Longrightarrow> \<not> same_name (sl_key s) key"
  by (induction ss) (auto simp: same_name_def upsgi_strnicmp_def split: if_splits)

lemma slot_find_Some: "slot_find ss key = Some i \<Longrightarrow> i < length ss"
  by (induction ss arbitrary: i) (auto split: if_splits)

lemma header_line_table:
  assumes "table_ok t" "header_line line t = Some t'"
  shows "table_ok t'"
proof -
  obtain key val has_prefix where c: "http_header_to_cgi line = Some (key, val, has_prefix)"
    using assms(2) by (auto simp: header_line_def split: option.splits)
  then have key: "key \<noteq> []" by (auto simp: http_header_to_cgi_def Let_def split: if_splits)
  show ?thesis
  proof (cases "slot_find (tb_slots t) key")
    case None
    have "\<not> same_name (sl_key s) key" if "s \<in> set (tb_slots t)" for s
      using slot_find_None [OF None that] .
    with None c assms key show ?thesis
      by (auto simp: header_line_def http_header_table_find_def http_header_table_reserve_def Let_def
          table_ok_def sorted_wrt_append split: if_splits)
  next
    case (Some i)
    with slot_find_Some have i: "i < length (tb_slots t)" by blast
    let ?s = "(tb_slots t ! i)\<lparr>sl_value := sl_value (tb_slots t ! i) @ '', '' @ val\<rparr>"
    from Some c assms(2) have t': "t' = t\<lparr>tb_slots := (tb_slots t)[i := ?s]\<rparr>"
      by (auto simp: header_line_def http_header_table_find_def split: if_splits)
    have "map sl_key ((tb_slots t)[i := ?s]) = map sl_key (tb_slots t)"
      using i by (simp add: map_update list_update_same_conv)
    moreover have "\<forall>s \<in> set ((tb_slots t)[i := ?s]). sl_key s \<noteq> []"
      using assms(1) i set_update_subset_insert [of "tb_slots t" i ?s] by (force simp: table_ok_def)
    ultimately show ?thesis using assms(1) unfolding t' by (simp add: table_ok_def)
  qed
qed

lemma header_loop_table: "table_ok t \<Longrightarrow> header_loop cs line t = Some t' \<Longrightarrow> table_ok t'"
proof (induction cs line t rule: header_loop.induct)
  case (3 c d cs line t)
  then show ?case
    by (auto split: if_splits Option.bind_splits dest: header_line_table)
qed (auto split: if_splits)

lemma table_init_ok: "table_ok http_header_table_init"
  by (simp add: table_ok_def http_header_table_init_def)

lemma res_ok_headers [stage_intros]: "pkt_ok n r \<Longrightarrow> res_ok n (headers_stage r)"
  using header_loop_table [OF table_init_ok]
  by (auto simp: headers_stage_def table_ok_def split: option.splits intro!: res_ok_emit)

lemma http_parse_ok: "pkt_ok n r \<Longrightarrow> res_ok n (http_parse cfg r)"
  by (auto simp: http_parse_def split: prod.splits intro!: stage_intros)


section \<open>Message framing\<close>

lemma emit_framing:
  "emit_slots ss cl te r = Ok r' \<Longrightarrow>
     \<not> ((cl \<or> (\<exists>s \<in> set ss. is_cl_slot s)) \<and> (te \<or> (\<exists>s \<in> set ss. is_te_slot s))) \<or> cl \<and> te"
proof (induction ss arbitrary: cl te r)
  case (Cons s ss)
  have "is_te_slot s \<Longrightarrow> \<not> is_cl_slot s" by (auto simp: is_te_slot_def is_cl_slot_def)
  then show ?case using Cons by (auto split: if_splits option.splits prod.splits)
qed auto


section \<open>A request that is printed is read back\<close>

definition room :: "nat \<Rightarrow> (char list \<times> char list) list \<Rightarrow> bool" where
  "room n kvs \<longleftrightarrow> length (encode_vars kvs) < n \<and> (\<forall>(k, v) \<in> set kvs. length k < 65536 \<and> length v < 65536)"

lemma room_prefix: "room n (a @ b) \<Longrightarrow> room n a"
  by (auto simp: room_def)

text \<open>The parser has written \<open>kvs\<close> and still has \<open>rest\<close> to read.\<close>

definition parsed :: "nat \<Rightarrow> (char list \<times> char list) list \<Rightarrow> char list \<Rightarrow> bool \<Rightarrow> http_req \<Rightarrow> bool" where
  "parsed n kvs rest ign r \<longleftrightarrow> pkt_inv (hr_pkt r) \<and> length (pkt_buffer (hr_pkt r)) = n \<and>
     pkt_content (hr_pkt r) = encode_vars kvs \<and> hr_rest r = rest \<and> hr_ignore_body r = ign"

fun yields :: "nat \<Rightarrow> (char list \<times> char list) list \<Rightarrow> char list \<Rightarrow> bool \<Rightarrow> http_req c_result \<Rightarrow> bool" where
  "yields n kvs rest ign (Ok r) = parsed n kvs rest ign r"
| "yields n kvs rest ign _ = False"

lemma yields_bind:
  "yields n kvs rest ign m \<Longrightarrow> (\<And>r. parsed n kvs rest ign r \<Longrightarrow> yields n kvs' rest' ign' (g r)) \<Longrightarrow>
   yields n kvs' rest' ign' (c_bind m g)"
  by (cases m) simp_all

lemma parsed_len: "parsed n kvs rest ign r \<Longrightarrow> pkt_len (hr_pkt r) = length (encode_vars kvs)"
  by (metis parsed_def pkt_content_def pkt_inv_def length_take min.absorb2)

lemma parsed_put:
  assumes "parsed n kvs rest ign r" "length (encode_vars (kvs @ [(k, v)])) < n"
  shows "\<exists>p. pkt_put (hr_pkt r) (keyval_bytes k v) = Some p \<and>
    parsed n (kvs @ [(k, v)]) rest ign (r\<lparr>hr_pkt := p\<rparr>)"
  using pkt_put_ok [of "hr_pkt r" "keyval_bytes k v"] parsed_len [OF assms(1)] assms
  by (auto simp: parsed_def)

lemma yields_put_var:
  assumes "parsed n kvs rest ign r" "room n (kvs @ [(k, v)])"
  shows "yields n (kvs @ [(k, v)]) rest ign (put_var k v r)"
proof -
  have "add_var (hr_pkt r) k v = pkt_put (hr_pkt r) (keyval_bytes k v)"
    using assms(2) by (auto simp: room_def add_var_put var_fits_def)
  with parsed_put [OF assms(1), of k v] assms(2) show ?thesis
    by (auto simp: put_var_def room_def)
qed

lemma yields_put_var2:
  assumes "parsed n kvs rest ign r" "room n (kvs @ (k, v) # rem)"
    and "\<And>r'. parsed n (kvs @ [(k, v)]) rest ign r' \<Longrightarrow> yields n kvs' rest' ign' (g r')"
  shows "yields n kvs' rest' ign' (c_bind (put_var k v r) g)"
  using yields_bind [OF yields_put_var [OF assms(1)]] assms(2,3) room_prefix [of n "kvs @ [(k, v)]" rem]
  by simp

lemma yields_path_info:
  assumes "parsed n kvs rest ign r" "length p < 65536"
    "room n (kvs @ [(''PATH_INFO'', http_url_decode4 (hc_no_decode_slashes cfg) p)])"
  shows "yields n (kvs @ [(''PATH_INFO'', http_url_decode4 (hc_no_decode_slashes cfg) p)]) rest ign
    (http_add_path_info cfg p r)"
  using yields_put_var [OF assms(1,3)] assms(2) no_decode_same [of p "hc_no_decode_slashes cfg"]
  by (auto simp: http_add_path_info_def)

lemma parsed_rest: "parsed n kvs rest ign r \<Longrightarrow> parsed n kvs x ign (r\<lparr>hr_rest := x\<rparr>)"
  by (simp add: parsed_def)

lemma yields_method:
  assumes "parsed n kvs (m @ CHR '' '' # rest) ign r" "CHR '' '' \<notin> set m" "room n (kvs @ [(''REQUEST_METHOD'', m)])"
  shows "yields n (kvs @ [(''REQUEST_METHOD'', m)]) rest (ign \<or> m = ''HEAD'') (method_stage r)"
proof -
  have "hr_rest r = m @ CHR '' '' # rest" using assms(1) by (simp add: parsed_def)
  moreover have "\<forall>c \<in> set m. c \<noteq> CHR '' ''" using assms(2) by blast
  ultimately have s: "method_stage r = c_bind (put_var ''REQUEST_METHOD'' m (r\<lparr>hr_rest := rest\<rparr>)) (\<lambda>r1.
             Ok (if m = ''HEAD'' then r1\<lparr>hr_ignore_body := True\<rparr> else r1))"
    by (simp add: method_stage_def Let_def takeWhile_tail dropWhile_append3)
  show ?thesis unfolding s
    by (rule yields_bind [OF yields_put_var [OF parsed_rest [OF assms(1)] assms(3)]]) (auto simp: parsed_def)
qed


text \<open>The variables of the request line.\<close>

definition uri_vars :: "bool \<Rightarrow> char list \<Rightarrow> (char list \<times> char list) list" where
  "uri_vars nsd u =
     (let path = takeWhile (\<lambda>c. c \<noteq> CHR ''?'') u in
      if CHR ''?'' \<in> set u then
        [(''PATH_INFO'', http_url_decode4 nsd path), (''REQUEST_URI'', u), (''QUERY_STRING'', drop (length path + 1) u)]
      else [(''REQUEST_URI'', u), (''PATH_INFO'', http_url_decode4 nsd u), (''QUERY_STRING'', [])])"

lemma yields_query:
  assumes "parsed n kvs rest0 ign r" "CHR '' '' \<notin> set cs"
    "room n (kvs @ [(''REQUEST_URI'', seen @ cs), (''QUERY_STRING'', q @ cs)])"
  shows "yields n (kvs @ [(''REQUEST_URI'', seen @ cs), (''QUERY_STRING'', q @ cs)]) rest ign
    (uri_loop cfg (cs @ CHR '' '' # rest) seen (Some q) r)"
  using assms
proof (induction cs arbitrary: seen q)
  case Nil
  have "yields n ((kvs @ [(''REQUEST_URI'', seen)]) @ [(''QUERY_STRING'', q)]) rest ign
      (c_bind (put_var ''REQUEST_URI'' seen (r\<lparr>hr_rest := rest\<rparr>)) (put_var ''QUERY_STRING'' q))"
    using Nil by (intro yields_put_var2 [OF parsed_rest] yields_put_var) auto
  then show ?case by simp
next
  case (Cons c cs)
  then show ?case using Cons.IH [of "seen @ [c]" "q @ [c]"] by auto
qed

lemma yields_uri_loop:
  assumes "parsed n kvs rest0 ign r" "CHR '' '' \<notin> set cs" "CHR ''?'' \<notin> set seen"
    "room n (kvs @ uri_vars (hc_no_decode_slashes cfg) (seen @ cs))" "length (seen @ cs) < 65536"
  shows "yields n (kvs @ uri_vars (hc_no_decode_slashes cfg) (seen @ cs)) rest ign
    (uri_loop cfg (cs @ CHR '' '' # rest) seen None r)"
  using assms
proof (induction cs arbitrary: seen)
  case Nil
  let ?d = "http_url_decode4 (hc_no_decode_slashes cfg) seen"
  have v: "uri_vars (hc_no_decode_slashes cfg) seen = [(''REQUEST_URI'', seen), (''PATH_INFO'', ?d), (''QUERY_STRING'', [])]"
    using Nil by (simp add: uri_vars_def)
  have "yields n (((kvs @ [(''REQUEST_URI'', seen)]) @ [(''PATH_INFO'', ?d)]) @ [(''QUERY_STRING'', [])]) rest ign
      (c_bind (put_var ''REQUEST_URI'' seen (r\<lparr>hr_rest := rest\<rparr>))
         (\<lambda>r1. c_bind (http_add_path_info cfg seen r1) (put_var ''QUERY_STRING'' [])))"
    using Nil v room_prefix [of n "kvs @ [(''REQUEST_URI'', seen), (''PATH_INFO'', ?d)]" "[(''QUERY_STRING'', [])]"]
    by (intro yields_put_var2 [OF parsed_rest, where rem = "[(''PATH_INFO'', ?d), (''QUERY_STRING'', [])]"]
        yields_bind [OF yields_path_info] yields_put_var) auto
  then show ?case by (simp add: v)
next
  case (Cons c cs)
  show ?case
  proof (cases "c = CHR ''?''")
    case True
    let ?d = "http_url_decode4 (hc_no_decode_slashes cfg) seen"
    have "takeWhile (\<lambda>c. c \<noteq> CHR ''?'') (seen @ CHR ''?'' # cs) = seen"
      using Cons.prems(3) by (auto simp: takeWhile_tail)
    then have v: "uri_vars (hc_no_decode_slashes cfg) (seen @ c # cs) =
        [(''PATH_INFO'', ?d), (''REQUEST_URI'', seen @ c # cs), (''QUERY_STRING'', cs)]"
      using True by (simp add: uri_vars_def)
    have "yields n ((kvs @ [(''PATH_INFO'', ?d)]) @ [(''REQUEST_URI'', (seen @ [c]) @ cs), (''QUERY_STRING'', [] @ cs)]) rest ign
        (c_bind (http_add_path_info cfg seen r) (uri_loop cfg (cs @ CHR '' '' # rest) (seen @ [c]) (Some [])))"
      using Cons.prems v room_prefix [of n "kvs @ [(''PATH_INFO'', ?d)]"]
      by (intro yields_bind [OF yields_path_info] yields_query) auto
    with True v show ?thesis by simp
  next
    case False
    with Cons.IH [of "seen @ [c]"] Cons.prems show ?thesis by auto
  qed
qed


lemma yields_protocol:
  assumes "parsed n kvs (proto @ CR # LF # rest) ign r" "CR \<notin> set proto" "room n (kvs @ [(''SERVER_PROTOCOL'', proto)])"
  shows "yields n (kvs @ [(''SERVER_PROTOCOL'', proto)]) rest ign (protocol_stage r)"
proof -
  have "hr_rest r = proto @ CR # LF # rest" using assms(1) by (simp add: parsed_def)
  moreover have "\<forall>c \<in> set proto. c \<noteq> CR" using assms(2) by blast
  moreover have "length proto < 65536" using assms(3) by (simp add: room_def)
  ultimately have s: "protocol_stage r = put_var ''SERVER_PROTOCOL'' proto (r\<lparr>hr_rest := rest\<rparr>)"
    by (simp add: protocol_stage_def Let_def takeWhile_tail dropWhile_append3)
  show ?thesis unfolding s by (rule yields_put_var [OF parsed_rest [OF assms(1)] assms(3)])
qed

definition server_vars :: "http_cfg \<Rightarrow> (char list \<times> char list) list" where
  "server_vars cfg =
     (if hc_manage_script_name cfg then [] else [(''SCRIPT_NAME'', [])]) @
     [(''SERVER_NAME'', hc_hostname cfg),
      (''SERVER_PORT'', if hc_server_port cfg \<noteq> [] then hc_server_port cfg else ''80'')]"

lemma yields_server:
  assumes "parsed n kvs rest ign r" "room n (kvs @ server_vars cfg)"
  shows "yields n (kvs @ server_vars cfg) rest ign (server_stage cfg no_proxy r)"
proof -
  let ?port = "if hc_server_port cfg \<noteq> [] then hc_server_port cfg else ''80''"
  have two: "yields n (k @ [(''SERVER_NAME'', hc_hostname cfg), (''SERVER_PORT'', ?port)]) rest ign
      (c_bind (put_var ''SERVER_NAME'' (hc_hostname cfg) q) (put_var ''SERVER_PORT'' ?port))"
    if "parsed n k rest ign q" "room n (k @ [(''SERVER_NAME'', hc_hostname cfg), (''SERVER_PORT'', ?port)])" for k q
  proof -
    have "yields n ((k @ [(''SERVER_NAME'', hc_hostname cfg)]) @ [(''SERVER_PORT'', ?port)]) rest ign
      (c_bind (put_var ''SERVER_NAME'' (hc_hostname cfg) q) (put_var ''SERVER_PORT'' ?port))"
      using that by (intro yields_put_var2 [OF that(1)] yields_put_var) auto
    then show ?thesis by simp
  qed
  have e: "server_stage cfg no_proxy r = c_bind (if hc_manage_script_name cfg then Ok r else put_var ''SCRIPT_NAME'' [] r)
      (\<lambda>q. c_bind (put_var ''SERVER_NAME'' (hc_hostname cfg) q) (put_var ''SERVER_PORT'' ?port))"
    by (simp add: server_stage_def no_proxy_def)
  show ?thesis
  proof (cases "hc_manage_script_name cfg")
    case True
    then show ?thesis unfolding e using two [OF assms(1)] assms(2) by (simp add: server_vars_def)
  next
    case False
    have "yields n ((kvs @ [(''SCRIPT_NAME'', [])]) @ [(''SERVER_NAME'', hc_hostname cfg), (''SERVER_PORT'', ?port)]) rest ign
      (server_stage cfg no_proxy r)"
      unfolding e if_not_P [OF False] using assms False
      by (intro yields_put_var2 [OF assms(1)] two) (auto simp: server_vars_def)
    with False show ?thesis by (simp add: server_vars_def)
  qed
qed

definition peer_vars :: "http_cfg \<Rightarrow> char list \<Rightarrow> (char list \<times> char list) list" where
  "peer_vars cfg ip = [(''REMOTE_ADDR'', ip)] @ (if hc_https cfg \<noteq> [] then [(''HTTPS'', hc_https cfg)] else [])"

lemma yields_peer:
  assumes "parsed n kvs rest ign r" "room n (kvs @ peer_vars cfg ip)" "client_text cfg = Some ip"
  shows "yields n (kvs @ peer_vars cfg ip) rest ign (c_bind (remote_stage cfg no_proxy r) (https_stage cfg))"
proof -
  have "yields n (kvs @ peer_vars cfg ip) rest ign (https_stage cfg q)"
    if "parsed n (kvs @ [(''REMOTE_ADDR'', ip)]) rest ign q" for q
    using that yields_put_var [OF that, of "''HTTPS''" "hc_https cfg"] assms(2)
    by (auto simp: https_stage_def peer_vars_def)
  then show ?thesis
    using yields_put_var2 [OF assms(1)] assms(2,3)
    by (auto simp: remote_stage_def no_proxy_def peer_vars_def)
qed

text \<open>The header lines.\<close>

definition print_header :: "char list \<times> char list \<Rightarrow> char list" where
  "print_header h = fst h @ '': '' @ snd h @ [CR, LF]"

definition plain_header :: "char list \<times> char list \<Rightarrow> bool" where
  "plain_header h \<longleftrightarrow> fst h \<noteq> [] \<and> snd h \<noteq> [] \<and> hd (snd h) \<noteq> CHR '' '' \<and> \<not> is_blank (hd (fst h)) \<and>
     CHR '':'' \<notin> set (fst h) \<and> CR \<notin> set (fst h) \<and> CR \<notin> set (snd h) \<and> length (fst h) + length (snd h) + 2 < 65536"

definition header_slot :: "char list \<times> char list \<Rightarrow> http_header_slot" where
  "header_slot h = \<lparr>sl_key = fst h, sl_value = snd h,
     sl_has_prefix = (upsgi_strnicmp (fst h) ''Content-Length'' \<noteq> 0 \<and> upsgi_strnicmp (fst h) ''Content-Type'' \<noteq> 0)\<rparr>"

lemma header_loop_line:
  "CR \<notin> set l \<Longrightarrow> header_loop (l @ CR # d # rest) line t = header_loop (CR # d # rest) (line @ l) t"
proof (induction l arbitrary: line)
  case Nil
  then show ?case by simp
next
  case (Cons x l)
  obtain y ys where y: "l @ CR # d # rest = y # ys" by (cases l) auto
  have "header_loop ((x # l) @ CR # d # rest) line t = header_loop (l @ CR # d # rest) (line @ [x]) t"
    using Cons.prems by (simp only: append_Cons y header_loop.simps) auto
  also have "\<dots> = header_loop (CR # d # rest) ((line @ [x]) @ l) t"
    by (rule Cons.IH) (use Cons.prems in simp)
  finally show ?case by simp
qed

lemma to_cgi_plain:
  assumes "plain_header h"
  shows "http_header_to_cgi (fst h @ '': '' @ snd h) = Some (sl_key (header_slot h), sl_value (header_slot h), sl_has_prefix (header_slot h))"
proof -
  have k: "takeWhile (\<lambda>c. c \<noteq> CHR '':'') (fst h @ '': '' @ snd h) = fst h"
    "dropWhile (\<lambda>c. c \<noteq> CHR '':'') (fst h @ '': '' @ snd h) = '': '' @ snd h"
    using assms by (auto simp: plain_header_def takeWhile_tail dropWhile_append3)
  have v: "dropWhile (\<lambda>c. c = CHR '' '') ('' '' @ snd h) = snd h"
    using assms by (cases "snd h") (auto simp: plain_header_def)
  show ?thesis unfolding http_header_to_cgi_def Let_def k using v assms by (simp add: header_slot_def plain_header_def)
qed

lemma slot_find_absent:
  "\<forall>s \<in> set ss. upsgi_strnicmp (sl_key s) key \<noteq> 0 \<Longrightarrow> slot_find ss key = None"
  by (induction ss) auto

lemma header_loop_print:
  assumes "\<forall>h \<in> set hs. plain_header h"
    and "sorted_wrt (\<lambda>a b. upsgi_strnicmp a b \<noteq> 0) (map sl_key (tb_slots t) @ map fst hs)"
  shows "\<exists>t'. header_loop (concat (map print_header hs) @ [CR, LF]) [] t = Some t' \<and>
    tb_slots t' = tb_slots t @ map header_slot hs"
  using assms
proof (induction hs arbitrary: t)
  case Nil
  then show ?case by simp
next
  case (Cons h hs)
  let ?rest = "concat (map print_header hs) @ [CR, LF]"
  let ?line = "fst h @ '': '' @ snd h"
  have p: "plain_header h" using Cons.prems by simp
  have absent: "slot_find (tb_slots t) (fst h) = None"
    using Cons.prems(2) by (intro slot_find_absent) (auto simp: sorted_wrt_append)
  obtain t1 where t1: "header_line ?line t = Some t1" "tb_slots t1 = tb_slots t @ [header_slot h]"
    using to_cgi_plain [OF p] absent
    by (auto simp: header_line_def http_header_table_find_def http_header_table_reserve_def header_slot_def Let_def)
  have b: "\<not> is_blank (hd ?rest)"
    using Cons.prems(1) by (cases hs) (auto simp: print_header_def plain_header_def is_blank_def)
  have cr: "CR \<notin> set ?line" "?line \<noteq> []" "length ?line \<le> 65535" using p by (auto simp: plain_header_def)
  have "header_loop (concat (map print_header (h # hs)) @ [CR, LF]) [] t = header_loop (?line @ CR # LF # ?rest) [] t"
    by (simp add: print_header_def)
  also have "\<dots> = header_loop (CR # LF # ?rest) ?line t"
    using header_loop_line [OF cr(1), of LF ?rest "[]"] by simp
  also have "\<dots> = header_loop ?rest [] t1"
    using b cr t1(1) by (simp del: append_assoc)
  finally show ?case using Cons.IH [of t1] Cons.prems t1(2) by (auto simp: header_slot_def)
qed

lemma yields_emit:
  assumes "parsed n kvs rest ign r" "room n (kvs @ map slot_var ss)"
    "\<not> ((cl \<or> (\<exists>s \<in> set ss. is_cl_slot s)) \<and> (te \<or> (\<exists>s \<in> set ss. is_te_slot s)))"
  shows "yields n (kvs @ map slot_var ss) rest ign (emit_slots ss cl te r)"
  using assms
proof (induction ss arbitrary: kvs cl te r)
  case Nil
  then show ?case by simp
next
  case (Cons s ss)
  let ?k = "fst (slot_var s)" and ?v = "snd (slot_var s)"
  have l: "length (encode_vars (kvs @ [(?k, ?v)])) < n"
    using room_prefix [of n "kvs @ [slot_var s]" "map slot_var ss"] Cons.prems(2)
    by (simp add: room_def)
  from parsed_put [OF Cons.prems(1) l] obtain p where
    p: "pkt_put (hr_pkt r) (keyval_bytes ?k ?v) = Some p" "parsed n (kvs @ [(?k, ?v)]) rest ign (r\<lparr>hr_pkt := p\<rparr>)"
    by blast
  have fit: "pkt_len (hr_pkt r) + length (keyval_bytes ?k ?v) < length (pkt_buffer (hr_pkt r))"
    using l parsed_len [OF Cons.prems(1)] Cons.prems(1) by (simp add: parsed_def encode_vars_def split_beta)
  have noclash: "\<not> (is_cl_slot s \<and> te \<or> \<not> is_cl_slot s \<and> is_te_slot s \<and> cl)"
    using Cons.prems(3) by auto
  have ih: "yields n ((kvs @ [slot_var s]) @ map slot_var ss) rest ign
      (emit_slots ss (cl \<or> is_cl_slot s) (te \<or> \<not> is_cl_slot s \<and> is_te_slot s) (r\<lparr>hr_pkt := p\<rparr>))"
    using Cons.prems p(2) by (intro Cons.IH) auto
  show ?case
    unfolding emit_slots_Cons Let_def if_not_P [OF noclash] if_P [OF fit] p(1) option.case
    using ih by simp
qed

definition print_request :: "char list \<Rightarrow> char list \<Rightarrow> char list \<Rightarrow> (char list \<times> char list) list \<Rightarrow> char list" where
  "print_request m u proto hs =
     m @ CHR '' '' # u @ CHR '' '' # proto @ CR # LF # concat (map print_header hs) @ [CR, LF]"

definition request_vars :: "http_cfg \<Rightarrow> char list \<Rightarrow> char list \<Rightarrow> char list \<Rightarrow> char list \<Rightarrow>
    (char list \<times> char list) list \<Rightarrow> (char list \<times> char list) list" where
  "request_vars cfg ip m u proto hs =
     [(''REQUEST_METHOD'', m)] @ uri_vars (hc_no_decode_slashes cfg) u @ [(''SERVER_PROTOCOL'', proto)] @
     server_vars cfg @ peer_vars cfg ip @ map (slot_var \<circ> header_slot) hs"

definition plain_request :: "char list \<Rightarrow> char list \<Rightarrow> char list \<Rightarrow> (char list \<times> char list) list \<Rightarrow> bool" where
  "plain_request m u proto hs \<longleftrightarrow>
     CHR '' '' \<notin> set m \<and> CHR '' '' \<notin> set u \<and> length u < 65536 \<and> CR \<notin> set proto \<and>
     (\<forall>h \<in> set hs. plain_header h) \<and>
     sorted_wrt (\<lambda>a b. upsgi_strnicmp a b \<noteq> 0) (map fst hs) \<and>
     \<not> ((\<exists>h \<in> set hs. is_cl_slot (header_slot h)) \<and> (\<exists>h \<in> set hs. is_te_slot (header_slot h)))"

lemma yields_headers:
  assumes "parsed n kvs (concat (map print_header hs) @ [CR, LF]) ign r"
    "room n (kvs @ map (slot_var \<circ> header_slot) hs)" "plain_request m u proto hs"
  shows "yields n (kvs @ map (slot_var \<circ> header_slot) hs) (hr_rest r) ign (headers_stage r)"
proof -
  have h: "\<forall>h \<in> set hs. plain_header h"
    "sorted_wrt (\<lambda>a b. upsgi_strnicmp a b \<noteq> 0) (map sl_key (tb_slots http_header_table_init) @ map fst hs)"
    using assms(3) by (auto simp: plain_request_def http_header_table_init_def)
  from header_loop_print [OF h] obtain t where
    t: "header_loop (concat (map print_header hs) @ [CR, LF]) [] http_header_table_init = Some t"
      "tb_slots t = map header_slot hs" by (auto simp: http_header_table_init_def)
  have rest: "hr_rest r = concat (map print_header hs) @ [CR, LF]" using assms(1) by (simp add: parsed_def)
  have "yields n (kvs @ map slot_var (map header_slot hs)) (hr_rest r) ign
      (emit_slots (map header_slot hs) False False r)"
    using assms rest by (intro yields_emit) (auto simp: plain_request_def)
  then show ?thesis unfolding headers_stage_def rest t(1) by (simp add: t(2) rest)
qed

text \<open>C1: an HTTP request that is put together from its parts is parsed back into these parts: the
  variables are the method, the decoded path, the URI and the query string, the protocol, the
  server and the peer, and the headers by their CGI names, in the order of the request, if
  they fit the buffer.\<close>

theorem http_parse_roundtrip:
  assumes "plain_request m u proto hs" "room n (request_vars cfg ip m u proto hs)"
    and "\<not> hc_proxy cfg" "client_text cfg = Some ip"
    and "pkt_len p = 0" "length (pkt_buffer p) = n"
  shows "\<exists>r'. http_parse cfg \<lparr>hr_rest = print_request m u proto hs, hr_pkt = p, hr_ignore_body = False\<rparr> = Ok r' \<and>
    pkt_content (hr_pkt r') = encode_vars (request_vars cfg ip m u proto hs) \<and>
    hr_ignore_body r' = (m = ''HEAD'')"
proof -
  let ?r = "\<lparr>hr_rest = print_request m u proto hs, hr_pkt = p, hr_ignore_body = False\<rparr>"
  let ?hd = "m = ''HEAD''"
  let ?uv = "uri_vars (hc_no_decode_slashes cfg) u"
  let ?hv = "map (slot_var \<circ> header_slot) hs"
  let ?hs = "concat (map print_header hs) @ [CR, LF]"
  let ?v1 = "[(''REQUEST_METHOD'', m)]"
  let ?v2 = "?v1 @ ?uv"
  let ?v3 = "?v2 @ [(''SERVER_PROTOCOL'', proto)]"
  let ?v4 = "?v3 @ server_vars cfg"
  let ?v5 = "?v4 @ peer_vars cfg ip"
  let ?v6 = "?v5 @ ?hv"
  have v6: "request_vars cfg ip m u proto hs = ?v6" by (simp add: request_vars_def)
  note room6 = assms(2) [unfolded v6]
  note room5 = room_prefix [OF room6]
  note room4 = room_prefix [OF room5]
  note room3 = room_prefix [OF room4]
  note room2 = room_prefix [OF room3]
  note room1 = room_prefix [OF room2]
  have q: "CHR '' '' \<notin> set m" "CHR '' '' \<notin> set u" "length u < 65536" "CR \<notin> set proto"
    using assms(1) by (auto simp: plain_request_def)
  have p0: "parsed n [] (m @ CHR '' '' # u @ CHR '' '' # proto @ CR # LF # ?hs) False ?r"
    using assms(5,6) by (simp add: parsed_def pkt_inv_def pkt_content_def print_request_def)
  have uri: "yields n ?v2 (proto @ CR # LF # ?hs) ?hd (uri_stage cfg r1)"
    if "parsed n ?v1 (u @ CHR '' '' # proto @ CR # LF # ?hs) ?hd r1" for r1
  proof -
    have "hr_rest r1 = u @ CHR '' '' # proto @ CR # LF # ?hs" using that by (simp add: parsed_def)
    with yields_uri_loop [OF that q(2), of "[]" cfg "proto @ CR # LF # ?hs"] room2 q(3)
    show ?thesis by (simp add: uri_stage_def)
  qed
  have tail: "yields n ?v6 ?hs ?hd (headers_stage r6)" if "parsed n ?v5 ?hs ?hd r6" for r6
    using yields_headers [OF that room6 assms(1)] that by (simp add: parsed_def)
  have "yields n ?v6 ?hs ?hd
      (c_bind (method_stage ?r) (\<lambda>r1. c_bind (uri_stage cfg r1) (\<lambda>r2. c_bind (protocol_stage r2) (\<lambda>r3.
       c_bind (server_stage cfg no_proxy r3) (\<lambda>r4. c_bind (c_bind (remote_stage cfg no_proxy r4) (https_stage cfg)) headers_stage)))))"
    using yields_method [OF p0 q(1)] room1
    by (intro yields_bind [of n ?v1 "u @ CHR '' '' # proto @ CR # LF # ?hs" ?hd "method_stage ?r"]
        yields_bind [OF uri] yields_bind [OF yields_protocol [OF _ q(4) room3]]
        yields_bind [OF yields_server [OF _ room4]] yields_bind [OF yields_peer [OF _ room5 assms(4)]] tail) auto
  moreover have "c_bind (c_bind a f) g = c_bind a (\<lambda>x. c_bind (f x) g)" for a :: "http_req c_result" and f g
    by (cases a) simp_all
  ultimately have "yields n ?v6 ?hs ?hd (http_parse cfg ?r)"
    using assms(3) by (simp add: http_parse_def)
  then show ?thesis unfolding v6 by (cases "http_parse cfg ?r") (auto simp: parsed_def)
qed

text \<open>A configuration and a request to try the properties on.\<close>

definition http_cfg0 :: http_cfg where
  "http_cfg0 = \<lparr>hc_proxy = False, hc_manage_script_name = False, hc_no_decode_slashes = False,
     hc_hostname = ''box'', hc_server_port = ''8080'', hc_client = Inet4 [CHR 0x7F, CHR 0x00, CHR 0x00, CHR 0x01],
     hc_ntop4 = (\<lambda>_. Some ''127.0.0.1''), hc_ntop6 = (\<lambda>_. None), hc_https = [], hc_modifiers = (0, 0)\<rparr>"

definition http_pkt0 :: req_packet where
  "http_pkt0 = \<lparr>pkt_buffer = replicate 4096 (CHR 0x00), pkt_len = 0\<rparr>"

lemma request0:
  "plain_request ''GET'' ''/a'' ''HTTP/1.1'' [(''Host'', ''x'')]"
  "request_vars http_cfg0 ''127.0.0.1'' ''GET'' ''/a'' ''HTTP/1.1'' [(''Host'', ''x'')] =
     [(''REQUEST_METHOD'', ''GET''), (''REQUEST_URI'', ''/a''), (''PATH_INFO'', ''/a''), (''QUERY_STRING'', []),
      (''SERVER_PROTOCOL'', ''HTTP/1.1''), (''SCRIPT_NAME'', []), (''SERVER_NAME'', ''box''), (''SERVER_PORT'', ''8080''),
      (''REMOTE_ADDR'', ''127.0.0.1''), (''HTTP_HOST'', ''x'')]"
  by (simp_all add: plain_request_def plain_header_def header_slot_def is_cl_slot_def is_te_slot_def is_blank_def
      request_vars_def uri_vars_def server_vars_def peer_vars_def http_cfg0_def slot_var_def http_url_decode4_def
      slash_if_def upsgi_strnicmp_def cgi_char_def toupper_def is_lower_def char_of_def bit_0)

theorem http_parse_roundtrip_witness:
  "\<exists>r'. http_parse http_cfg0 \<lparr>hr_rest = print_request ''GET'' ''/a'' ''HTTP/1.1'' [(''Host'', ''x'')],
        hr_pkt = http_pkt0, hr_ignore_body = False\<rparr> = Ok r' \<and>
     pkt_content (hr_pkt r') = encode_vars
       [(''REQUEST_METHOD'', ''GET''), (''REQUEST_URI'', ''/a''), (''PATH_INFO'', ''/a''), (''QUERY_STRING'', []),
      (''SERVER_PROTOCOL'', ''HTTP/1.1''), (''SCRIPT_NAME'', []), (''SERVER_NAME'', ''box''), (''SERVER_PORT'', ''8080''),
      (''REMOTE_ADDR'', ''127.0.0.1''), (''HTTP_HOST'', ''x'')]"
  using http_parse_roundtrip [of "''GET''" "''/a''" "''HTTP/1.1''" "[(''Host'', ''x'')]" 4096 http_cfg0 "''127.0.0.1''" http_pkt0]
  by (simp add: request0 room_def) (simp add: http_cfg0_def http_pkt0_def client_text_def, blast)

text \<open>a kept connection forgets about a chunked body: the decision to keep it looks at the bytes
  announced by Content-Length only, so a request whose chunked body the application has not
  read is kept, and the next request is read from the middle of that body.\<close>

theorem http11_keeps_unread_chunked:
  assumes "h1_write_errors q = 0" "h1_status q = 3" "h1_remains q = 0" "\<not> h1_via_offload q"
    and "rq_body_is_chunked (h1_req q)" "rq_post_cl (h1_req q) = 0"
    and "rq_protocol (h1_req q) = ''HTTP/1.1''" "upsgi_get_var (rq_hvec (h1_req q)) ''HTTP_CONNECTION'' = None"
  shows "upsgi_proto_http11_close q fd s = (False, s\<lparr>h1_retry := True, h1_fd := fd\<rparr>)"
  using assms by (simp add: upsgi_proto_http11_close_def http11_must_close_def upsgi_strncmp_def
      upsgi_http11_request_wants_close_def)

theorem http11_keeps_unread_chunked_witness:
  "upsgi_proto_http11_close
     \<lparr>h1_write_errors = 0, h1_status = 3, h1_remains = 0, h1_post_pos = 0, h1_via_offload = False,
      h1_req = wsgi_req0\<lparr>rq_body := (fresh_req 0 True, fresh_core), rq_protocol := ''HTTP/1.1''\<rparr>\<rparr> 7
     \<lparr>h1_retry = False, h1_fd = -1\<rparr> = (False, \<lparr>h1_retry = True, h1_fd = 7\<rparr>)"
  by (subst http11_keeps_unread_chunked)
    (simp_all add: wsgi_req0_def fresh_req_def upsgi_get_var_def)



definition http_req0 :: http_req where
  "http_req0 = \<lparr>hr_rest = [], hr_pkt = http_pkt0, hr_ignore_body = False\<rparr>"

definition http_conn0 :: http_conn where
  "http_conn0 = \<lparr>hn_buf = [], hn_status = 0, hn_remains = [], hn_modifiers = (0, 0)\<rparr>"

theorem http_feed_split_independent_witness:
  "http_feed http_cfg0 [''GET / '', ''H'' @ [CR, LF, CR], LF # ''xy''] http_conn0 http_req0 =
    (let conn1 = http_conn0\<lparr>hn_buf := ''GET / H'' @ [CR, LF, CR, LF] @ ''xy'', hn_status := 3, hn_remains := ''xy''\<rparr> in
     case http_parse http_cfg0 (http_req0\<lparr>hr_rest := ''GET / H'' @ [CR, LF, CR, LF]\<rparr>) of
       Ok r1 \<Rightarrow> Some (UPSGI_OK, conn1\<lparr>hn_modifiers := hc_modifiers http_cfg0\<rparr>, r1)
     | Err r1 \<Rightarrow> Some (PROTO_ERR, conn1, r1)
     | Fault \<Rightarrow> None)"
proof -
  have n: "\<nexists>a b. butlast (''GET / H'' @ [CR, LF, CR, LF]) = a @ [CR, LF, CR, LF] @ b"
    by (auto simp: Cons_eq_append_conv)
  show ?thesis
    using http_feed_split_independent [OF refl n, of "[''GET / '', ''H'' @ [CR, LF, CR]]" "LF # ''xy''" "''xy''" http_conn0 http_cfg0 http_req0]
    by (simp add: http_conn0_def)
qed


end
