(* ===== verification/Upsgi_Hash.thy ===== *)
theory Upsgi_Hash
  imports Upsgi_Codec
begin

text \<open>
  The hash functions of \<open>core/hash.c\<close> and the list they are registered in.  A key is the list of
  its bytes; \<open>char\<close> is signed, so a byte above 127 enters \<open>djb33x_hash\<close> and the tail of
  \<open>murmur2_hash\<close> with its sign bits.  The counter of \<open>rr_hash\<close> and the sequence \<open>rand\<close> draws from are
  state.
\<close>

definition sext8 :: "char \<Rightarrow> 32 word" where
  "sext8 c = (if ord c < (128::nat) then of_nat (ord c) else of_nat (ord c) - 256)"

definition zext8 :: "char \<Rightarrow> 32 word" where
  "zext8 c = of_nat (ord c)"

section \<open>The functions\<close>

fun djb33x_loop :: "32 word \<Rightarrow> char list \<Rightarrow> 32 word" where
  "djb33x_loop hash [] = hash"
| "djb33x_loop hash (c # cs) = djb33x_loop ((push_bit 5 hash + hash) XOR sext8 c) cs"

definition djb33x_hash :: "char list \<Rightarrow> 32 word" where
  "djb33x_hash key = djb33x_loop 5381 key"

definition murmur_m :: "32 word" where
  "murmur_m = 0x5bd1e995"

definition murmur_mix :: "32 word \<Rightarrow> char \<Rightarrow> char \<Rightarrow> char \<Rightarrow> char \<Rightarrow> 32 word" where
  "murmur_mix h a b c d =
     (let k = zext8 a OR push_bit 8 (zext8 b) OR push_bit 16 (zext8 c) OR push_bit 24 (zext8 d);
          k1 = k * murmur_m;
          k2 = k1 XOR drop_bit 24 k1;
          k3 = k2 * murmur_m
      in (h * murmur_m) XOR k3)"

text \<open>The loop over groups of four; the second result is the number of bytes left.\<close>

fun murmur_loop :: "32 word \<Rightarrow> char list \<Rightarrow> 32 word \<times> nat" where
  "murmur_loop h (a # b # c # d # rest) = murmur_loop (murmur_mix h a b c d) rest"
| "murmur_loop h rest = (h, length rest)"

text \<open>The tail is taken from \<open>key\<close>, the start of the string, and not from \<open>ukey\<close>, which the loop has
  moved.\<close>

definition murmur_tail :: "char list \<Rightarrow> nat \<Rightarrow> 32 word \<Rightarrow> 32 word" where
  "murmur_tail key left h =
     (let h1 = (if left = 3 then h XOR push_bit 16 (sext8 (key ! 2)) else h);
          h2 = (if left = 2 \<or> left = 3 then h1 XOR push_bit 8 (sext8 (key ! 1)) else h1)
      in if left = 1 \<or> left = 2 \<or> left = 3 then (h2 XOR sext8 (key ! 0)) * murmur_m else h2)"

definition murmur2_hash :: "char list \<Rightarrow> 32 word" where
  "murmur2_hash key =
     (case murmur_loop (of_nat (length key)) key of (h, left) \<Rightarrow>
      let h1 = murmur_tail key left h;
          h2 = h1 XOR drop_bit 13 h1;
          h3 = h2 * murmur_m
      in h3 XOR drop_bit 15 h3)"

text \<open>The maximum is a decimal number in the key; \<open>None\<close>: its conversion is undefined.\<close>

definition rr_hash :: "32 word \<Rightarrow> char list \<Rightarrow> (32 word \<times> 32 word) option" where
  "rr_hash rr key =
     map_option (\<lambda>n. let max_value = ucast n :: 32 word; rr1 = rr + 1 in (rr, if rr1 > max_value then 0 else rr1))
       (upsgi_str_num key)"

section \<open>The list of algorithms\<close>

datatype hash_fun = Djb33x | Murmur2 | RandomHash | RrHash

type_synonym hash_algos = "(char list \<times> hash_fun) list"

fun upsgi_hash_algo_get :: "hash_algos \<Rightarrow> char list \<Rightarrow> hash_fun option" where
  "upsgi_hash_algo_get [] name = None"
| "upsgi_hash_algo_get ((n, f) # rest) name = (if name = n then Some f else upsgi_hash_algo_get rest name)"

fun upsgi_hash_algo_register :: "char list \<Rightarrow> hash_fun \<Rightarrow> hash_algos \<Rightarrow> hash_algos" where
  "upsgi_hash_algo_register name f [] = [(name, f)]"
| "upsgi_hash_algo_register name f ((n, g) # rest) =
     (if n = name then (n, g) # rest else (n, g) # upsgi_hash_algo_register name f rest)"

definition upsgi_hash_algo_register_all :: "hash_algos \<Rightarrow> hash_algos" where
  "upsgi_hash_algo_register_all algos =
     upsgi_hash_algo_register ''rr'' RrHash
      (upsgi_hash_algo_register ''rand'' RandomHash
        (upsgi_hash_algo_register ''random'' RandomHash
          (upsgi_hash_algo_register ''murmur2'' Murmur2
            (upsgi_hash_algo_register ''djb33x'' Djb33x algos))))"

text \<open>Calling a function: the round-robin counter and the values \<open>rand\<close> will give.\<close>

record hash_state =
  hs_rr :: "32 word"
  hs_rand :: "32 word list"

fun hash_call :: "hash_fun \<Rightarrow> char list \<Rightarrow> hash_state \<Rightarrow> (32 word \<times> hash_state) option" where
  "hash_call Djb33x key s = Some (djb33x_hash key, s)"
| "hash_call Murmur2 key s = Some (murmur2_hash key, s)"
| "hash_call RandomHash key s =
     (case hs_rand s of [] \<Rightarrow> None | r # rs \<Rightarrow> Some (r, s\<lparr>hs_rand := rs\<rparr>))"
| "hash_call RrHash key s = map_option (\<lambda>(h, rr). (h, s\<lparr>hs_rr := rr\<rparr>)) (rr_hash (hs_rr s) key)"

section \<open>Registries\<close>

text \<open>What the code relies on in its lists of named handlers: the first registration of a name stays.\<close>

locale registry =
  fixes get :: "'r \<Rightarrow> 'n \<Rightarrow> 'f option"
    and register :: "'n \<Rightarrow> 'f \<Rightarrow> 'r \<Rightarrow> 'r"
  assumes get_register: "get (register n f r) m =
      (if m = n then (case get r n of None \<Rightarrow> Some f | Some g \<Rightarrow> Some g) else get r m)"
begin

lemma register_stays: "get r n = Some g \<Longrightarrow> get (register m f r) n = Some g"
  by (auto simp: get_register)

lemma register_twice: "get (register n f (register n g r)) m = get (register n g r) m"
  by (simp add: get_register split: option.split)

lemma register_commute: "n \<noteq> m \<Longrightarrow> get (register n f (register m g r)) k = get (register m g (register n f r)) k"
  by (auto simp: get_register)

end

interpretation ha: registry upsgi_hash_algo_get upsgi_hash_algo_register
proof
  fix n f r m
  show "upsgi_hash_algo_get (upsgi_hash_algo_register n f r) m =
      (if m = n then (case upsgi_hash_algo_get r n of None \<Rightarrow> Some f | Some g \<Rightarrow> Some g) else upsgi_hash_algo_get r m)"
    by (induction n f r rule: upsgi_hash_algo_register.induct) auto
qed

section \<open>Properties\<close>

lemma register_all_get:
  "upsgi_hash_algo_get (upsgi_hash_algo_register_all algos) name =
     (case upsgi_hash_algo_get algos name of
        Some f \<Rightarrow> Some f
      | None \<Rightarrow> map_of [(''djb33x'', Djb33x), (''murmur2'', Murmur2), (''random'', RandomHash),
                        (''rand'', RandomHash), (''rr'', RrHash)] name)"
  by (simp add: upsgi_hash_algo_register_all_def ha.get_register split: option.split)

text \<open>The round-robin hash with maximum \<open>n\<close> counts from 0 to \<open>n\<close> and starts again.\<close>

fun rr_calls :: "nat \<Rightarrow> 32 word \<Rightarrow> char list \<Rightarrow> (32 word list \<times> 32 word) option" where
  "rr_calls 0 rr key = Some ([], rr)"
| "rr_calls (Suc k) rr key =
     (case rr_hash rr key of
        None \<Rightarrow> None
      | Some (h, rr1) \<Rightarrow> map_option (\<lambda>(hs, rr2). (h # hs, rr2)) (rr_calls k rr1 key))"

lemma murmur_loop_short: "length ys < 4 \<Longrightarrow> murmur_loop h ys = (h, length ys)"
  by (induction h ys rule: murmur_loop.induct) auto

lemma murmur_loop_blocks:
  "length xs mod 4 = 0 \<Longrightarrow> length ys < 4 \<Longrightarrow> murmur_loop h (xs @ ys) = (fst (murmur_loop h xs), length ys)"
proof (induction h xs rule: murmur_loop.induct)
  case (1 h a b c d rest)
  then show ?case by simp
qed (auto simp: murmur_loop_short)

text \<open>the last one to three bytes of a key longer than three bytes do not enter its murmur2 hash:
  keys that differ only there have the same hash.\<close>

theorem murmur2_tail_ignored:
  assumes "length p mod 4 = 0" "p \<noteq> []" "length xs = length ys" "length xs < 4"
  shows "murmur2_hash (p @ xs) = murmur2_hash (p @ ys)"
proof -
  obtain a b c d r where p: "p = a # b # c # d # r"
    using assms(1,2) by (cases p rule: remdups_adj.cases; cases "tl (tl p)" rule: remdups_adj.cases) auto
  have "murmur_tail (p @ xs) k h = murmur_tail (p @ ys) k h" for k h
    by (simp add: murmur_tail_def p numeral_2_eq_2)
  then show ?thesis
    using murmur_loop_blocks [OF assms(1)] assms(3,4) by (simp add: murmur2_hash_def)
qed

theorem murmur2_tail_ignored_witness: "murmur2_hash ''keys1'' = murmur2_hash ''keys2''"
  using murmur2_tail_ignored [of "''keys''" "''1''" "''2''"] by simp

lemma rr_hash_dec:
  assumes "n < 2 ^ 32 - 1"
  shows "rr_hash rr (nat_dec n) = Some (rr, if rr + 1 > of_nat n then 0 else rr + 1)"
proof -
  have "(ucast (of_nat n :: 64 word) :: 32 word) = of_nat n"
    using assms by (simp add: unsigned_of_nat take_bit_nat_eq_self)
  then show ?thesis using assms by (simp add: rr_hash_def upsgi_str_num_nat_dec Let_def)
qed

lemma unat_succ: "n < 2 ^ 32 - 1 \<Longrightarrow> unat (of_nat n + 1 :: 32 word) = Suc n"
proof -
  assume n: "n < 2 ^ 32 - 1"
  have "(of_nat n + 1 :: 32 word) = of_nat (Suc n)" by (simp only: of_nat_Suc add.commute)
  then show ?thesis using unat_of_nat_small [of "Suc n", where 'a = 32] n by (simp only:) simp
qed

lemma rr_calls_from:
  assumes "n < 2 ^ 32 - 1" "r + k = n"
  shows "rr_calls (Suc k) (of_nat r) (nat_dec n) = Some (map of_nat [r..<Suc n], 0)"
  using assms(2)
proof (induction k arbitrary: r)
  case 0
  then have r: "r = n" by simp
  have "unat (of_nat n + 1 :: 32 word) = Suc n"
    using unat_succ [of n] assms(1) by simp
  then have "(of_nat n :: 32 word) < of_nat n + 1"
    using assms(1) by (simp add: word_less_nat_alt unat_of_nat_small)
  then have h: "rr_hash (of_nat n) (nat_dec n) = Some (of_nat n, 0)"
    by (simp only: rr_hash_dec [OF assms(1)] if_True)
  show ?case unfolding r rr_calls.simps h by simp
next
  case (Suc k)
  then have r: "r < n" by auto
  have "unat (of_nat r + 1 :: 32 word) = Suc r"
    using unat_succ [of r] assms(1) r by simp
  then have "\<not> (of_nat n :: 32 word) < of_nat r + 1"
    using assms(1) r by (simp add: word_less_nat_alt unat_of_nat_small)
  then have h: "rr_hash (of_nat r) (nat_dec n) = Some (of_nat r, of_nat (Suc r))"
    by (simp only: rr_hash_dec [OF assms(1)] if_False of_nat_Suc add.commute)
  have ih: "rr_calls (Suc k) (of_nat (Suc r)) (nat_dec n) = Some (map of_nat [Suc r..<Suc n], 0)"
    using Suc.prems by (intro Suc.IH) auto
  have u: "[r..<Suc n] = r # [Suc r..<Suc n]" using r by (simp add: upt_conv_Cons del: upt_Suc)
  show ?case unfolding rr_calls.simps(2) [of "Suc k"] h u option.case prod.case ih by simp
qed

text \<open>the round-robin hash with a maximum of \<open>n\<close> gives 0, 1, and so on up to \<open>n\<close> and is then where it
  began, so \<open>n + 1\<close> callers in a row get different values and none is skipped.\<close>

theorem rr_hash_cycle:
  assumes "n < 2 ^ 32 - 1"
  shows "rr_calls (Suc n) 0 (nat_dec n) = Some (map of_nat [0..<Suc n], 0)"
  using rr_calls_from [OF assms, of 0 n] by simp

theorem rr_hash_cycle_witness: "rr_calls (Suc 2) 0 (nat_dec 2) = Some (map of_nat [0..<Suc 2], 0)"
  by (rule rr_hash_cycle) simp

end
