(* ===== verification/Upsgi_Query.thy ===== *)
theory Upsgi_Query
  imports Upsgi_Strings
begin

text \<open>
  Query strings and cookies, \<open>core/querystring.c\<close> and \<open>core/cookie.c\<close>: the value of a key in a
  list of \<open>name=value\<close> items.  The query string never looks outside itself and is modelled as a
  list; the cookie code does arithmetic on \<open>uint16_t\<close> lengths that can leave the item, so its
  model carries the memory that follows the cookie, and \<open>Fault\<close> is a read behind that memory.
\<close>

section \<open>Query strings\<close>

definition check_qs :: "char list \<Rightarrow> char list \<Rightarrow> char list option" where
  "check_qs qs key =
     (case upsgi_str_contains qs (CHR ''='') of
        None \<Rightarrow> None
      | Some equal \<Rightarrow>
          if upsgi_strncmp key (take equal qs) \<noteq> 0 then None
          else if drop (equal + 1) qs = [] then None
          else Some (drop (equal + 1) qs))"

text \<open>\<open>qs\<close> is the item up to \<open>ptr\<close>.\<close>

fun get_qs_loop :: "char list \<Rightarrow> char list \<Rightarrow> char list \<Rightarrow> char list option" where
  "get_qs_loop [] qs key = (if qs \<noteq> [] then check_qs qs key else None)"
| "get_qs_loop (c # cs) qs key =
     (if c = CHR ''&'' then (case check_qs qs key of Some v \<Rightarrow> Some v | None \<Rightarrow> get_qs_loop cs [] key)
      else get_qs_loop cs (qs @ [c]) key)"

definition upsgi_get_qs :: "char list \<Rightarrow> char list \<Rightarrow> char list option" where
  "upsgi_get_qs query_string key = get_qs_loop query_string [] key"

section \<open>Cookies\<close>

text \<open>\<open>m\<close> is the memory from the start of the item on.  Both strips count with the length they are
  changing.\<close>

function cookie_lstrip :: "char list \<Rightarrow> nat \<Rightarrow> nat \<Rightarrow> nat \<times> nat" where
  "cookie_lstrip m i len = (if i < len \<and> is_space (m ! i) then cookie_lstrip m (i + 1) (len - 1) else (i, len))"
  by auto
termination
  by (relation "measure (\<lambda>(m, i, len). len)") auto

declare cookie_lstrip.simps [simp del]

fun cookie_rstrip :: "char list \<Rightarrow> nat \<Rightarrow> nat \<Rightarrow> nat option" where
  "cookie_rstrip m 0 len = Some len"
| "cookie_rstrip m (Suc i) len =
     (if Suc i \<ge> length m then None
      else if is_space (m ! Suc i) then cookie_rstrip m i ((len + 65535) mod 65536)
      else Some len)"

definition check_cookie :: "char list \<Rightarrow> nat \<Rightarrow> char list \<Rightarrow> char list option c_result" where
  "check_cookie m len0 key =
     (case cookie_lstrip m 0 len0 of (start, len1) \<Rightarrow>
      case cookie_rstrip m ((len0 + 65535) mod 65536) len1 of
        None \<Rightarrow> Fault
      | Some len \<Rightarrow>
          (let cookie = drop start m in
           case upsgi_str_contains (take len cookie) (CHR ''='') of
             None \<Rightarrow> if start + len > length m then Fault else Ok None
           | Some equal \<Rightarrow>
               if upsgi_strncmp key (take equal cookie) \<noteq> 0 then Ok None
               else if len - (equal + 1) = 0 then Ok None
               else if start + len > length m then Fault
               else Ok (Some (take (len - (equal + 1)) (drop (equal + 1) cookie)))))"

fun get_cookie_loop :: "char list \<Rightarrow> char list \<Rightarrow> char list \<Rightarrow> char list \<Rightarrow> char list option c_result" where
  "get_cookie_loop beyond [] cookie key =
     (if cookie \<noteq> [] then check_cookie (cookie @ beyond) (length cookie) key else Ok None)"
| "get_cookie_loop beyond (c # cs) cookie key =
     (if c = CHR '';'' then
        (case check_cookie (cookie @ c # cs @ beyond) (length cookie) key of
           Ok None \<Rightarrow> get_cookie_loop beyond cs [] key
         | r \<Rightarrow> r)
      else get_cookie_loop beyond cs (cookie @ [c]) key)"

definition upsgi_get_cookie :: "char list \<Rightarrow> char list \<Rightarrow> char list \<Rightarrow> char list option c_result" where
  "upsgi_get_cookie beyond cookie key = get_cookie_loop beyond cookie [] key"

section \<open>Query strings as association lists\<close>

definition item_pairs :: "char list \<Rightarrow> (char list \<times> char list) list" where
  "item_pairs item =
     (case upsgi_str_contains item (CHR ''='') of
        None \<Rightarrow> []
      | Some i \<Rightarrow> if drop (i + 1) item = [] then [] else [(take i item, drop (i + 1) item)])"

definition query_pairs :: "char list \<Rightarrow> (char list \<times> char list) list" where
  "query_pairs qs = concat (map item_pairs (split_on (CHR ''&'') qs))"

lemma check_qs_pairs: "check_qs item key = map_of (item_pairs item) key"
  by (auto simp: check_qs_def item_pairs_def upsgi_strncmp_def split: option.splits)

lemma get_qs_loop_pairs:
  "get_qs_loop cs item key =
     (case split_on (CHR ''&'') cs of
        [] \<Rightarrow> None
      | x # xs \<Rightarrow> map_of (concat (map item_pairs ((item @ x) # xs))) key)"
proof (induction cs arbitrary: item)
  case Nil
  then show ?case by (simp add: check_qs_pairs item_pairs_def)
next
  case (Cons c cs)
  then show ?case
    by (auto simp: check_qs_pairs map_add_def split: list.splits option.splits)
qed

text \<open>the value of a key in a query string is the value of the first item of that name with a
  non-empty value, whatever the query string is.\<close>

theorem upsgi_get_qs_map_of: "upsgi_get_qs qs key = map_of (query_pairs qs) key"
  by (auto simp: upsgi_get_qs_def get_qs_loop_pairs query_pairs_def split: list.splits)

section \<open>Cookies that are printed are found\<close>

definition plain_cookie :: "char list \<times> char list \<Rightarrow> bool" where
  "plain_cookie kv \<longleftrightarrow> CHR ''='' \<notin> set (fst kv) \<and> CHR '';'' \<notin> set (fst kv) \<and> CHR '';'' \<notin> set (snd kv) \<and>
     snd kv \<noteq> [] \<and> \<not> is_space (last (snd kv)) \<and> (fst kv \<noteq> [] \<longrightarrow> \<not> is_space (hd (fst kv))) \<and>
     length (fst kv) + length (snd kv) + 2 < 65536"

definition print_cookie :: "char list \<times> char list \<Rightarrow> char list" where
  "print_cookie kv = fst kv @ CHR ''='' # snd kv"

fun print_cookies :: "(char list \<times> char list) list \<Rightarrow> char list" where
  "print_cookies [] = []"
| "print_cookies [kv] = print_cookie kv"
| "print_cookies (kv # kvs) = print_cookie kv @ ''; '' @ print_cookies kvs"

lemma is_space_equal [simp]: "\<not> is_space (CHR ''='')"
  by (simp add: is_space_def)

text \<open>An item, with at most one blank before it, is found to be its pair.\<close>

lemma check_cookie_plain:
  assumes "plain_cookie kv" "blank = [] \<or> blank = '' ''"
  shows "check_cookie ((blank @ print_cookie kv) @ beyond) (length (blank @ print_cookie kv)) key =
    Ok (if key = fst kv then Some (snd kv) else None)"
proof -
  obtain k v where kv: "kv = (k, v)" by (cases kv)
  let ?item = "k @ CHR ''='' # v"
  let ?m = "(blank @ ?item) @ beyond"
  have v: "v \<noteq> []" "\<not> is_space (last v)" and k: "CHR ''='' \<notin> set k"
    and len: "length k + length v + 2 < 65536"
    using assms(1) by (auto simp: plain_cookie_def kv)
  have first: "\<not> is_space (hd ?item)" using assms(1) by (cases k) (auto simp: plain_cookie_def kv)
  have l: "cookie_lstrip ?m 0 (length (blank @ ?item)) = (length blank, length ?item)"
    using assms(2)
  proof
    assume "blank = []"
    with first show ?thesis by (cases k) (simp_all add: cookie_lstrip.simps [of _ 0])
  next
    assume b: "blank = '' ''"
    have "cookie_lstrip ?m 0 (length (blank @ ?item)) = cookie_lstrip ?m 1 (length ?item)"
      by (subst cookie_lstrip.simps) (simp add: b is_space_def)
    also have "\<dots> = (1, length ?item)"
      using first by (cases k) (simp_all add: cookie_lstrip.simps [of _ "Suc 0"] b)
    finally show ?thesis by (simp add: b)
  qed
  have lb: "length blank \<le> 1" using assms(2) by auto
  have i: "(length (blank @ ?item) + 65535) mod 65536 = length (blank @ ?item) - 1"
    using len lb by (simp add: mod_if)
  obtain j where j: "length (blank @ ?item) - 1 = Suc j" using v(1) by (cases v) auto
  have "?m ! Suc j = last v"
  proof -
    have "?m ! Suc j = (blank @ ?item) ! (length (blank @ ?item) - 1)"
      unfolding j [symmetric] by (subst nth_append) simp
    also have "\<dots> = last (blank @ ?item)" by (rule last_conv_nth [symmetric]) simp
    finally show ?thesis using v(1) by simp
  qed
  then have r: "cookie_rstrip ?m ((length (blank @ ?item) + 65535) mod 65536) (length ?item) = Some (length ?item)"
    unfolding i j using v(2) j by simp
  have c: "upsgi_str_contains (take (length ?item) (drop (length blank) ?m)) (CHR ''='') = Some (length k)"
    using contains_first [OF k, of v] by simp
  show ?thesis
    unfolding check_cookie_def print_cookie_def kv fst_conv snd_conv l r prod.case option.case Let_def c
    using v(1) by (auto simp: upsgi_strncmp_def)
qed

lemma get_cookie_step:
  assumes "CHR '';'' \<notin> set xs"
  shows "get_cookie_loop beyond (xs @ cs) item key = get_cookie_loop beyond cs (item @ xs) key"
  using assms by (induction xs arbitrary: item) auto

lemma get_cookie_print:
  assumes "\<forall>kv \<in> set kvs. plain_cookie kv" "kvs \<noteq> []" "blank = [] \<or> blank = '' ''"
  shows "get_cookie_loop beyond (print_cookies kvs) blank key = Ok (map_of kvs key)"
  using assms
proof (induction kvs arbitrary: blank rule: print_cookies.induct)
  case (2 kv)
  have "CHR '';'' \<notin> set (print_cookie kv)" using 2(1) by (simp add: plain_cookie_def print_cookie_def)
  then have "get_cookie_loop beyond (print_cookies [kv]) blank key =
      get_cookie_loop beyond [] (blank @ print_cookie kv) key"
    using get_cookie_step [of "print_cookie kv" beyond "[]"] by simp
  then show ?case using 2 check_cookie_plain [of kv blank beyond key]
    by (cases kv) (simp add: print_cookie_def)
next
  case (3 kv kv' kvs)
  let ?rest = "print_cookies (kv' # kvs)"
  have n: "CHR '';'' \<notin> set (print_cookie kv)" using 3(2) by (simp add: plain_cookie_def print_cookie_def)
  have "get_cookie_loop beyond (print_cookies (kv # kv' # kvs)) blank key =
      get_cookie_loop beyond (CHR '';'' # CHR '' '' # ?rest) (blank @ print_cookie kv) key"
    using get_cookie_step [OF n, of beyond "CHR '';'' # CHR '' '' # ?rest"] by simp
  also have "\<dots> = (case Ok (if key = fst kv then Some (snd kv) else None) of
      Ok None \<Rightarrow> get_cookie_loop beyond (CHR '' '' # ?rest) [] key | r \<Rightarrow> r)"
    using check_cookie_plain [of kv blank "CHR '';'' # CHR '' '' # ?rest @ beyond" key] 3 by simp
  also have "get_cookie_loop beyond (CHR '' '' # ?rest) [] key = Ok (map_of (kv' # kvs) key)"
    using 3(1) [of "'' ''"] 3(2) by simp
  finally show ?case by (cases kv) auto
qed simp

text \<open>C30: in a cookie header that is put together from pairs, separated by a semicolon and a blank, the
  value of a key is the one of the first pair of that name, whatever follows the header in memory.\<close>

theorem upsgi_get_cookie_roundtrip:
  assumes "\<forall>kv \<in> set kvs. plain_cookie kv"
  shows "upsgi_get_cookie beyond (print_cookies kvs) key = Ok (map_of kvs key)"
  using get_cookie_print [OF assms, of "[]" beyond key] by (cases "kvs = []") (simp_all add: upsgi_get_cookie_def)

theorem upsgi_get_cookie_roundtrip_witness:
  "upsgi_get_cookie ''Host=x'' ''a=1; b=2'' ''b'' = Ok (Some ''2'')"
  using upsgi_get_cookie_roundtrip [of "[(''a'', ''1''), (''b'', ''2'')]" "''Host=x''" "''b''"]
  by (simp add: plain_cookie_def print_cookie_def is_space_def)

text \<open>an empty item makes the search read far behind the cookie: the length of the item, minus one,
  is 65535 as a \<open>uint16_t\<close>, and the strip from the right begins there.\<close>

theorem upsgi_get_cookie_empty_item_overread:
  assumes "length cs + length beyond < 65535"
  shows "upsgi_get_cookie beyond (CHR '';'' # cs) key = Fault"
proof -
  have "cookie_rstrip m 65535 len = None" if "length m \<le> 65535" for m len
    using that cookie_rstrip.simps(2) [of m 65534 len] by (simp only: eval_nat_numeral) simp
  then show ?thesis
    using assms by (simp add: upsgi_get_cookie_def check_cookie_def split: prod.split)
qed

theorem upsgi_get_cookie_empty_item_overread_witness: "upsgi_get_cookie [] '';a=1'' ''a'' = Fault"
  using upsgi_get_cookie_empty_item_overread [of "''a=1''" "[]" "''a''"] by simp

end
