(* ===== verification/Upsgi_Wire.thy ===== *)
theory Upsgi_Wire
  imports Upsgi_Http
begin

text \<open>
  The two binary request protocols: SCGI, \<open>proto/scgi.c\<close>, and the native packet protocol,
  \<open>proto/upsgi.c\<close>, plain and over TLS.  Both fill the packet of the request, SCGI by writing the
  variables of a netstring into it, the native one by reading header and packet straight into
  place (\<open>uh\<close> and \<open>buffer\<close> lie behind each other in memory).
\<close>

section \<open>SCGI\<close>

text \<open>\<open>sc_key\<close> and \<open>sc_value\<close> are the bytes from the pointers \<open>key\<close> and \<open>value\<close> to the current one,
  \<open>None\<close> for \<open>NULL\<close>.\<close>

record scgi_state =
  sc_key :: "char list option"
  sc_keylen :: nat
  sc_value :: "char list option"
  sc_pkt :: req_packet

definition scgi_begin :: "scgi_state \<Rightarrow> scgi_state" where
  "scgi_begin s =
     (case sc_key s of
        None \<Rightarrow> s\<lparr>sc_key := Some []\<rparr>
      | Some _ \<Rightarrow> if sc_keylen s > 0 \<and> sc_value s = None then s\<lparr>sc_value := Some []\<rparr> else s)"

definition scgi_advance :: "char \<Rightarrow> scgi_state \<Rightarrow> scgi_state" where
  "scgi_advance c s =
     s\<lparr>sc_key := map_option (\<lambda>k. k @ [c]) (sc_key s), sc_value := map_option (\<lambda>v. v @ [c]) (sc_value s)\<rparr>"

text \<open>The number of bytes written is cut to a \<open>uint16_t\<close>.\<close>

definition scgi_var :: "char list \<Rightarrow> char list \<Rightarrow> scgi_state \<Rightarrow> scgi_state c_result" where
  "scgi_var key v s =
     (case proto_base_add_upsgi_var (sc_pkt s) key v of
        None \<Rightarrow> Fault
      | Some (n, p) \<Rightarrow>
          (let pktsize = n mod 65536 in
           if pktsize = 0 then Err (s\<lparr>sc_pkt := p\<rparr>)
           else Ok (s\<lparr>sc_pkt := p\<lparr>pkt_len := pkt_len p + pktsize\<rparr>,
                      sc_key := None, sc_value := None, sc_keylen := 0\<rparr>)))"

definition scgi_byte :: "char \<Rightarrow> scgi_state \<Rightarrow> scgi_state c_result" where
  "scgi_byte c s0 =
     (let s = scgi_begin s0 in
      if c = CHR 0x00 then
        (case (sc_key s, sc_value s) of
           (Some key, Some v) \<Rightarrow> scgi_var (take (sc_keylen s) key) v s
         | (Some key, None) \<Rightarrow> Ok (scgi_advance c (s\<lparr>sc_keylen := length key, sc_value := None\<rparr>))
         | (None, _) \<Rightarrow> Fault)
      else Ok (scgi_advance c s))"

fun scgi_vars :: "char list \<Rightarrow> scgi_state \<Rightarrow> scgi_state c_result" where
  "scgi_vars [] s = Ok s"
| "scgi_vars (c # cs) s = c_bind (scgi_byte c s) (scgi_vars cs)"

text \<open>The parser: \<open>buf\<close> is the whole block, of which \<open>len\<close> bytes have been received.  The result is the
  returned number, the packet, and the offset of the bytes behind the request.\<close>

definition scgi_parse :: "char list \<Rightarrow> nat \<Rightarrow> req_packet \<Rightarrow> (int \<times> req_packet \<times> nat) option" where
  "scgi_parse buf len p =
     (case upsgi_str_contains (take len buf) (CHR '':'') of
        None \<Rightarrow> Some (0, p, len)
      | Some i \<Rightarrow>
          (case upsgi_str_num (take i buf) of
             None \<Rightarrow> None
           | Some n \<Rightarrow>
               (let scgi_len = unat n; vars = i + 1; stop = size_add (size_add i scgi_len) 1 in
                if scgi_len = 0 then Some (-1, p, len)
                else if stop > len then Some (0, p, len)
                else
                 (case scgi_vars (take (stop - vars) (drop vars buf))
                         \<lparr>sc_key = Some [], sc_keylen = 0, sc_value = None, sc_pkt = p\<rparr> of
                    Fault \<Rightarrow> None
                  | Err s \<Rightarrow> Some (-1, sc_pkt s, len)
                  | Ok s \<Rightarrow>
                      (let j = max vars stop in
                       if j \<ge> length buf then None
                       else if buf ! j = CHR '','' then Some (1, sc_pkt s, if len > j + 1 then j + 1 else len)
                       else Some (-1, sc_pkt s, len))))))"

record scgi_conn =
  sn_buf :: "char list"
  sn_pos :: nat
  sn_remains :: "char list"
  sn_modifiers :: "nat \<times> nat"

text \<open>The block as \<open>upsgi_malloc\<close> returns it is part of the connection.\<close>

definition upsgi_proto_scgi_parser ::
    "nat \<times> nat \<Rightarrow> scgi_conn \<Rightarrow> req_packet \<Rightarrow> read_ev list \<Rightarrow>
     ((proto_ret \<times> scgi_conn \<times> req_packet) option) \<times> read_ev list" where
  "upsgi_proto_scgi_parser mods conn p evs =
     (let room = length (sn_buf conn) - sn_pos conn in
      if room = 0 then (Some (PROTO_ERR, conn, p), evs)
      else case sock_read room evs of
             (Got d, evs1) \<Rightarrow>
               (if d = [] then Some (PROTO_ERR, conn, p)
                else
                 (let buf = take (sn_pos conn) (sn_buf conn) @ d @ drop (sn_pos conn + length d) (sn_buf conn);
                      pos = sn_pos conn + length d;
                      conn1 = conn\<lparr>sn_buf := buf, sn_pos := pos\<rparr> in
                  case scgi_parse buf pos p of
                    None \<Rightarrow> None
                  | Some (ret, q, ofs) \<Rightarrow>
                      if ret > 0 then
                        Some (UPSGI_OK, conn1\<lparr>sn_remains := drop ofs (take pos buf), sn_modifiers := mods\<rparr>, q)
                      else if ret = 0 then Some (UPSGI_AGAIN, conn1, q)
                      else Some (PROTO_ERR, conn1, q)), evs1)
           | (WouldBlock, evs1) \<Rightarrow> (Some (UPSGI_AGAIN, conn, p), evs1)
           | (ReadFail, evs1) \<Rightarrow> (Some (PROTO_ERR, conn, p), evs1))"

section \<open>Native packets\<close>

text \<open>\<open>up_data\<close> is the bytes received at \<open>uh\<close>; \<open>up_len\<close> is \<open>wsgi_req->len\<close>, the length of the packet the
  request reader will use.\<close>

record upsgi_conn =
  up_data :: "char list"
  up_len :: nat
  up_remains :: "char list"

definition up_pktsize :: "upsgi_conn \<Rightarrow> nat" where
  "up_pktsize c = rd16 (drop 1 (up_data c))"

definition up_packet :: "upsgi_conn \<Rightarrow> char list" where
  "up_packet c = take (up_len c) (drop 4 (up_data c))"

text \<open>The decision after a read; \<open>c\<close> has the new bytes and, for the plain protocol, the new length.\<close>

definition packet_decide :: "nat \<Rightarrow> upsgi_conn \<Rightarrow> proto_ret \<times> upsgi_conn" where
  "packet_decide buffer_size c =
     (let pos = length (up_data c); size = up_pktsize c in
      if pos < 4 then (UPSGI_AGAIN, c)
      else if pos - 4 = size then (UPSGI_OK, c)
      else if pos - 4 > size then (UPSGI_OK, c\<lparr>up_remains := drop (4 + size) (up_data c)\<rparr>)
      else if size > buffer_size then (PROTO_ERR, c)
      else (UPSGI_AGAIN, c))"

definition packet_received :: "nat \<Rightarrow> char list \<Rightarrow> upsgi_conn \<Rightarrow> proto_ret \<times> upsgi_conn" where
  "packet_received buffer_size d c =
     (let c1 = c\<lparr>up_data := up_data c @ d\<rparr> in
      packet_decide buffer_size (if length (up_data c1) \<ge> 4 then c1\<lparr>up_len := up_pktsize c1\<rparr> else c1))"

definition upsgi_proto_upsgi_parser ::
    "nat \<Rightarrow> upsgi_conn \<Rightarrow> read_ev list \<Rightarrow> (proto_ret \<times> upsgi_conn) \<times> read_ev list" where
  "upsgi_proto_upsgi_parser buffer_size c evs =
     (case sock_read (buffer_size + 4 - length (up_data c)) evs of
        (Got d, evs1) \<Rightarrow> (if d = [] then (PROTO_ERR, c) else packet_received buffer_size d c, evs1)
      | (WouldBlock, evs1) \<Rightarrow> ((UPSGI_AGAIN, c), evs1)
      | (ReadFail, evs1) \<Rightarrow> ((PROTO_ERR, c), evs1))"

text \<open>Over TLS the length of the packet is not stored.\<close>

definition upsgi_proto_supsgi_parser ::
    "nat \<Rightarrow> upsgi_conn \<Rightarrow> ssl_ev list \<Rightarrow> (proto_ret \<times> upsgi_conn) \<times> ssl_ev list" where
  "upsgi_proto_supsgi_parser buffer_size c evs =
     (case ssl_fetch (buffer_size + 4 - length (up_data c)) evs of
        (Got d, evs1) \<Rightarrow>
          (if d = [] then (PROTO_ERR, c) else packet_decide buffer_size (c\<lparr>up_data := up_data c @ d\<rparr>), evs1)
      | (WouldBlock, evs1) \<Rightarrow> ((UPSGI_AGAIN, c), evs1)
      | (ReadFail, evs1) \<Rightarrow> ((PROTO_ERR, c), evs1))"

section \<open>An SCGI request that is printed is read back\<close>

definition scgi_payload :: "(char list \<times> char list) list \<Rightarrow> char list" where
  "scgi_payload kvs = concat (map (\<lambda>(k, v). k @ CHR 0x00 # v @ [CHR 0x00]) kvs)"

definition print_scgi :: "(char list \<times> char list) list \<Rightarrow> char list \<Rightarrow> char list" where
  "print_scgi kvs body =
     nat_dec (length (scgi_payload kvs)) @ CHR '':'' # scgi_payload kvs @ CHR '','' # body"

definition plain_var :: "char list \<times> char list \<Rightarrow> bool" where
  "plain_var kv \<longleftrightarrow> fst kv \<noteq> [] \<and> CHR 0x00 \<notin> set (fst kv) \<and> CHR 0x00 \<notin> set (snd kv)"

definition holds_vars :: "nat \<Rightarrow> (char list \<times> char list) list \<Rightarrow> req_packet \<Rightarrow> bool" where
  "holds_vars n kvs p \<longleftrightarrow> pkt_inv p \<and> length (pkt_buffer p) = n \<and> pkt_content p = encode_vars kvs"

lemma scgi_var_ok:
  assumes "holds_vars n kvs (sc_pkt s)" "length (encode_vars (kvs @ [(k, v)])) < n" "n \<le> 65536"
  shows "\<exists>q. scgi_var k v s = Ok \<lparr>sc_key = None, sc_keylen = 0, sc_value = None, sc_pkt = q\<rparr> \<and>
    holds_vars n (kvs @ [(k, v)]) q"
proof -
  let ?d = "keyval_bytes k v"
  have inv: "pkt_inv (sc_pkt s)" and n: "length (pkt_buffer (sc_pkt s)) = n"
    and c: "pkt_content (sc_pkt s) = encode_vars kvs" using assms(1) by (auto simp: holds_vars_def)
  have l: "pkt_len (sc_pkt s) = length (encode_vars kvs)"
    using inv c by (metis pkt_content_def pkt_inv_def length_take min.absorb2)
  have fit: "pkt_len (sc_pkt s) + length ?d < n" using assms(2) l by simp
  obtain q where q: "pkt_store (sc_pkt s) ?d = Some q" "pkt_len q = pkt_len (sc_pkt s)"
      "length (pkt_buffer q) = length (pkt_buffer (sc_pkt s))"
      "take (pkt_len (sc_pkt s) + length ?d) (pkt_buffer q) = pkt_content (sc_pkt s) @ ?d"
    using pkt_store_ok [OF inv, of ?d] fit n by auto
  have kv: "u16_arg k = k" "u16_arg v = v" using fit assms(3) by simp_all
  have "proto_base_add_upsgi_var (sc_pkt s) k v = Some (length ?d, q)"
    using fit n q(1) kv
    by (simp add: proto_base_add_upsgi_var_def Let_def not_le add.commute add.left_commute del: add_2_eq_Suc add_2_eq_Suc')
  then show ?thesis
    using fit n q(2,3,4) c assms(3)
    by (intro exI [of _ "q\<lparr>pkt_len := pkt_len q + length ?d\<rparr>"])
      (auto simp: scgi_var_def Let_def holds_vars_def pkt_inv_def pkt_content_def)
qed

lemma scgi_key_bytes:
  assumes "CHR 0x00 \<notin> set k" "sc_keylen s = 0" "sc_value s = None" "sc_key s = Some a"
  shows "scgi_vars (k @ cs) s = scgi_vars cs (s\<lparr>sc_key := Some (a @ k)\<rparr>)"
  using assms
proof (induction k arbitrary: s a)
  case (Cons c k)
  then show ?case
    by (cases s) (auto simp: scgi_byte_def scgi_begin_def scgi_advance_def Let_def)
next
  case Nil
  then show ?case by (cases s) simp
qed

lemma scgi_value_bytes:
  assumes "CHR 0x00 \<notin> set v" "sc_keylen s > 0" "sc_value s = Some w" "sc_key s = Some a"
  shows "scgi_vars (v @ cs) s = scgi_vars cs (s\<lparr>sc_key := Some (a @ v), sc_value := Some (w @ v)\<rparr>)"
  using assms
proof (induction v arbitrary: s a w)
  case (Cons c v)
  then show ?case
    by (cases s) (auto simp: scgi_byte_def scgi_begin_def scgi_advance_def Let_def)
next
  case Nil
  then show ?case by (cases s) simp
qed

lemma scgi_pair:
  assumes "k \<noteq> []" "CHR 0x00 \<notin> set k" "CHR 0x00 \<notin> set v"
    and "sc_keylen s = 0" "sc_value s = None" "sc_key s = None \<or> sc_key s = Some []"
  shows "\<exists>s'. sc_pkt s' = sc_pkt s \<and>
    scgi_vars (k @ CHR 0x00 # v @ CHR 0x00 # cs) s = c_bind (scgi_var k v s') (scgi_vars cs)"
proof -
  let ?s0 = "s\<lparr>sc_key := Some []\<rparr>"
  let ?s1 = "s\<lparr>sc_key := Some (k @ [CHR 0x00]), sc_keylen := length k\<rparr>"
  let ?s2 = "s\<lparr>sc_key := Some (k @ CHR 0x00 # v), sc_keylen := length k, sc_value := Some v\<rparr>"
  have "scgi_begin s = ?s0" using assms(4-6) by (auto simp: scgi_begin_def)
  moreover have "scgi_begin ?s0 = ?s0" using assms(4,5) by (simp add: scgi_begin_def)
  ultimately have "scgi_vars (k @ CHR 0x00 # v @ CHR 0x00 # cs) s = scgi_vars (k @ CHR 0x00 # v @ CHR 0x00 # cs) ?s0"
    using assms(1) by (cases k) (simp_all add: scgi_byte_def Let_def)
  also have "\<dots> = scgi_vars (CHR 0x00 # v @ CHR 0x00 # cs) (s\<lparr>sc_key := Some k\<rparr>)"
    using scgi_key_bytes [OF assms(2), of ?s0 "[]"] assms(4,5) by simp
  also have "\<dots> = scgi_vars (v @ CHR 0x00 # cs) ?s1"
    using assms(1,4,5) by (cases s) (simp add: scgi_byte_def scgi_begin_def scgi_advance_def Let_def)
  also have "\<dots> = c_bind (scgi_var k v ?s2) (scgi_vars cs)"
  proof (cases v)
    case Nil
    then show ?thesis using assms(1,5) by (simp add: scgi_byte_def scgi_begin_def Let_def)
  next
    case (Cons b bs)
    let ?s3 = "?s1\<lparr>sc_key := Some (k @ [CHR 0x00, b]), sc_value := Some [b]\<rparr>"
    have "scgi_vars (v @ CHR 0x00 # cs) ?s1 = scgi_vars (bs @ CHR 0x00 # cs) ?s3"
      using Cons assms(1,3,5) by (auto simp: scgi_byte_def scgi_begin_def scgi_advance_def Let_def)
    also have "\<dots> = scgi_vars (CHR 0x00 # cs) ?s2"
      using scgi_value_bytes [of bs ?s3 "[b]" "k @ [CHR 0x00, b]"] Cons assms(1,3) by (cases s) simp
    finally show ?thesis using assms(1) by (simp add: scgi_byte_def scgi_begin_def Let_def)
  qed
  finally show ?thesis by (intro exI [of _ ?s2]) simp
qed

lemma scgi_vars_print:
  assumes "\<forall>kv \<in> set kvs. plain_var kv" "holds_vars n done0 (sc_pkt s)" "n \<le> 65536"
    and "length (encode_vars (done0 @ kvs)) < n"
    and "sc_keylen s = 0" "sc_value s = None" "sc_key s = None \<or> sc_key s = Some []"
  shows "\<exists>s'. scgi_vars (scgi_payload kvs) s = Ok s' \<and> holds_vars n (done0 @ kvs) (sc_pkt s')"
  using assms
proof (induction kvs arbitrary: s done0)
  case Nil
  then show ?case by (simp add: scgi_payload_def)
next
  case (Cons kv kvs)
  obtain k v where kv: "kv = (k, v)" by (cases kv)
  have p: "k \<noteq> []" "CHR 0x00 \<notin> set k" "CHR 0x00 \<notin> set v" using Cons.prems(1) by (auto simp: plain_var_def kv)
  have "scgi_payload (kv # kvs) = k @ CHR 0x00 # v @ CHR 0x00 # scgi_payload kvs"
    by (simp add: scgi_payload_def kv)
  with scgi_pair [OF p Cons.prems(5-7), of "scgi_payload kvs"] obtain s1 where
    s1: "sc_pkt s1 = sc_pkt s" "scgi_vars (scgi_payload (kv # kvs)) s = c_bind (scgi_var k v s1) (scgi_vars (scgi_payload kvs))"
    by auto
  have fit: "length (encode_vars (done0 @ [(k, v)])) < n" using Cons.prems(4) by (simp add: kv)
  from scgi_var_ok [of n done0 s1 k v] Cons.prems(2,3) fit s1(1) obtain q where
    q: "scgi_var k v s1 = Ok \<lparr>sc_key = None, sc_keylen = 0, sc_value = None, sc_pkt = q\<rparr>"
      "holds_vars n (done0 @ [(k, v)]) q" by auto
  from Cons.IH [of "done0 @ [(k, v)]" "\<lparr>sc_key = None, sc_keylen = 0, sc_value = None, sc_pkt = q\<rparr>"]
    Cons.prems q show ?case by (simp add: s1(2) [unfolded kv] kv)
qed

lemma scgi_payload_length: "length (scgi_payload kvs) \<le> length (encode_vars kvs)"
  by (induction kvs) (auto simp: scgi_payload_def)

text \<open>What the parser has done when the netstring is complete and its last byte is to be looked at.\<close>

lemma scgi_parse_head:
  assumes "kvs \<noteq> []" "\<forall>kv \<in> set kvs. plain_var kv" "pkt_len p = 0" "length (pkt_buffer p) = n" "n \<le> 65536"
    and "length (encode_vars kvs) < n"
    and "head = nat_dec (length (scgi_payload kvs)) @ CHR '':'' # scgi_payload kvs"
    and "length head \<le> len" "len \<le> length (head @ rest)"
  shows "\<exists>q. pkt_content q = encode_vars kvs \<and>
    scgi_parse (head @ rest) len p =
      (if rest = [] then None
       else if hd rest = CHR '','' then Some (1, q, if len > length head + 1 then length head + 1 else len)
       else Some (-1, q, len))"
proof -
  let ?L = "length (scgi_payload kvs)" and ?d = "nat_dec (length (scgi_payload kvs))"
  have L: "?L < 65536" using scgi_payload_length [of kvs] assms(5,6) by simp
  have L0: "?L \<noteq> 0" using assms(1) by (cases kvs) (auto simp: scgi_payload_def)
  have c: "CHR '':'' \<notin> set ?d" using nat_dec_digits [of ?L] by (auto simp: is_digit_def)
  have "take len (head @ rest) = head @ take (len - length head) rest" using assms(8) by simp
  then have i: "upsgi_str_contains (take len (head @ rest)) (CHR '':'') = Some (length ?d)"
    using contains_first [OF c] by (simp add: assms(7))
  have num: "upsgi_str_num (take (length ?d) (head @ rest)) = Some (of_nat ?L)"
    using L by (simp add: assms(7) upsgi_str_num_nat_dec)
  have u: "unat (of_nat ?L :: 64 word) = ?L" using L by (simp add: unat_of_nat_small)
  have dl: "length ?d < 20" using nat_dec_length [of 19 ?L] L by simp
  have stop: "size_add (size_add (length ?d) ?L) 1 = length head"
    using L dl by (simp add: size_add_def assms(7))
  have holds: "holds_vars n [] p" using assms(3,4) by (simp add: holds_vars_def pkt_inv_def pkt_content_def)
  obtain s where s: "scgi_vars (scgi_payload kvs) \<lparr>sc_key = Some [], sc_keylen = 0, sc_value = None, sc_pkt = p\<rparr> = Ok s"
      "holds_vars n ([] @ kvs) (sc_pkt s)"
    using scgi_vars_print [OF assms(2), of n "[]" "\<lparr>sc_key = Some [], sc_keylen = 0, sc_value = None, sc_pkt = p\<rparr>"]
      holds assms(5,6) by auto
  have pay: "take (length head - (length ?d + 1)) (drop (length ?d + 1) (head @ rest)) = scgi_payload kvs"
    by (simp add: assms(7))
  have j: "max (length ?d + 1) (length head) = length head" by (simp add: assms(7))
  have nth: "rest \<noteq> [] \<Longrightarrow> (head @ rest) ! length head = hd rest" by (simp add: nth_append hd_conv_nth)
  have "scgi_parse (head @ rest) len p =
      (if rest = [] then None
       else if hd rest = CHR '','' then Some (1, sc_pkt s, if len > length head + 1 then length head + 1 else len)
       else Some (-1, sc_pkt s, len))"
    unfolding scgi_parse_def i option.case num Let_def u stop pay s(1) c_result.case j
    using L0 assms(8) nth by simp
  then show ?thesis using s(2) by (intro exI [of _ "sc_pkt s"]) (simp add: holds_vars_def)
qed

text \<open>an SCGI request put together from its variables is read back: the packet holds exactly these
  variables, in order, and what follows the netstring is kept as the beginning of the body.\<close>

theorem scgi_parse_roundtrip:
  assumes "kvs \<noteq> []" "\<forall>kv \<in> set kvs. plain_var kv" "pkt_len p = 0" "length (pkt_buffer p) = n" "n \<le> 65536"
    and "length (encode_vars kvs) < n"
  shows "\<exists>q ofs. scgi_parse (print_scgi kvs body @ stale) (length (print_scgi kvs body)) p = Some (1, q, ofs) \<and>
    pkt_content q = encode_vars kvs \<and> drop ofs (print_scgi kvs body) = body"
proof -
  let ?head = "nat_dec (length (scgi_payload kvs)) @ CHR '':'' # scgi_payload kvs"
  have e: "print_scgi kvs body @ stale = ?head @ CHR '','' # body @ stale" by (simp add: print_scgi_def)
  from scgi_parse_head [OF assms refl, of "length (print_scgi kvs body)" "CHR '','' # body @ stale"]
  obtain q where "pkt_content q = encode_vars kvs"
    "scgi_parse (print_scgi kvs body @ stale) (length (print_scgi kvs body)) p =
       Some (1, q, if length (print_scgi kvs body) > length ?head + 1 then length ?head + 1 else length (print_scgi kvs body))"
    unfolding e by (auto simp: print_scgi_def)
  then show ?thesis by (auto simp: print_scgi_def)
qed

theorem scgi_parse_roundtrip_witness:
  "\<exists>q ofs. scgi_parse (print_scgi [(''A'', ''b'')] ''xy'' @ []) (length (print_scgi [(''A'', ''b'')] ''xy'')) http_pkt0 = Some (1, q, ofs) \<and>
    pkt_content q = encode_vars [(''A'', ''b'')] \<and> drop ofs (print_scgi [(''A'', ''b'')] ''xy'') = ''xy''"
  by (rule scgi_parse_roundtrip [where n = 4096]) (simp_all add: plain_var_def http_pkt0_def)

text \<open>when a request has arrived up to, but without, the comma that ends the netstring, the parser
  does not wait for it: it looks at the byte behind the received data, which is outside the block
  when the block is full, and otherwise refuses the request unless a comma happens to be there.\<close>

theorem scgi_parse_short_by_comma:
  assumes "kvs \<noteq> []" "\<forall>kv \<in> set kvs. plain_var kv" "pkt_len p = 0" "length (pkt_buffer p) = n" "n \<le> 65536"
    and "length (encode_vars kvs) < n"
    and "head = nat_dec (length (scgi_payload kvs)) @ CHR '':'' # scgi_payload kvs"
    and "c \<noteq> CHR '',''"
  shows "scgi_parse head (length head) p = None \<and>
    (\<exists>q. scgi_parse (head @ c # stale) (length head) p = Some (-1, q, length head))"
  using scgi_parse_head [OF assms(1-7), of "length head" "[]"]
    scgi_parse_head [OF assms(1-7), of "length head" "c # stale"] assms(8) by auto

theorem scgi_parse_short_by_comma_witness:
  "scgi_parse (nat_dec (length (scgi_payload [(''A'', ''b'')])) @ CHR '':'' # scgi_payload [(''A'', ''b'')])
     (length (nat_dec (length (scgi_payload [(''A'', ''b'')])) @ CHR '':'' # scgi_payload [(''A'', ''b'')])) http_pkt0 = None \<and>
   (\<exists>q. scgi_parse ((nat_dec (length (scgi_payload [(''A'', ''b'')])) @ CHR '':'' # scgi_payload [(''A'', ''b'')]) @ CHR ''x'' # [])
     (length (nat_dec (length (scgi_payload [(''A'', ''b'')])) @ CHR '':'' # scgi_payload [(''A'', ''b'')])) http_pkt0 =
       Some (-1, q, length (nat_dec (length (scgi_payload [(''A'', ''b'')])) @ CHR '':'' # scgi_payload [(''A'', ''b'')])))"
  by (rule scgi_parse_short_by_comma [OF _ _ _ _ _ _ refl, where n = 4096]) (simp_all add: plain_var_def http_pkt0_def)

section \<open>Native packets in pieces\<close>

fun packet_feed :: "nat \<Rightarrow> char list list \<Rightarrow> upsgi_conn \<Rightarrow> proto_ret \<times> upsgi_conn" where
  "packet_feed buffer_size [] c = (UPSGI_AGAIN, c)"
| "packet_feed buffer_size (d # ds) c =
     (case packet_received buffer_size d c of
        (UPSGI_AGAIN, c1) \<Rightarrow> packet_feed buffer_size ds c1
      | r \<Rightarrow> r)"

definition packet_bytes :: "char \<Rightarrow> char \<Rightarrow> char list \<Rightarrow> char list" where
  "packet_bytes m1 m2 payload = m1 # le16 (length payload) @ m2 # payload"

lemma packet_bytes_size:
  assumes "length payload < 65536" "xs @ ys = packet_bytes m1 m2 payload @ extra" "4 \<le> length xs"
  shows "rd16 (drop 1 xs) = length payload"
proof -
  have "take 2 (drop 1 xs) = take 2 (drop 1 (xs @ ys))" using assms(3) by simp
  also have "\<dots> = le16 (length payload)"
    unfolding assms(2) by (simp add: packet_bytes_def le16_def numeral_2_eq_2)
  finally have t: "take 2 (drop 1 xs) = le16 (length payload)" .
  have "drop 1 xs = le16 (length payload) @ drop 2 (drop 1 xs)"
    unfolding t [symmetric] by (rule append_take_drop_id [symmetric])
  then show ?thesis using rd16_le16 [OF assms(1)] by metis
qed

text \<open>While the packet is incomplete the parser asks for more.\<close>

lemma packet_feed_again:
  assumes "length payload < 65536" "length payload \<le> buffer_size"
    and "(up_data c @ concat ds) @ ys = packet_bytes m1 m2 payload @ extra"
    and "length (up_data c @ concat ds) < 4 + length payload"
  shows "\<exists>c'. up_data c' = up_data c @ concat ds \<and> up_remains c' = up_remains c \<and>
    packet_feed buffer_size (ds @ rest) c = packet_feed buffer_size rest c'"
  using assms
proof (induction ds arbitrary: c)
  case Nil
  then show ?case by auto
next
  case (Cons d ds)
  let ?c1 = "c\<lparr>up_data := up_data c @ d\<rparr>"
  let ?c2 = "if length (up_data ?c1) \<ge> 4 then ?c1\<lparr>up_len := up_pktsize ?c1\<rparr> else ?c1"
  have size: "up_pktsize ?c1 = length payload" if "4 \<le> length (up_data c @ d)"
    using packet_bytes_size [OF Cons.prems(1), of "up_data c @ d" "concat ds @ ys" m1 m2 extra] Cons.prems(3) that
    by (simp add: up_pktsize_def)
  have "packet_received buffer_size d c = (UPSGI_AGAIN, ?c2)"
    using size Cons.prems(2,4) by (auto simp: packet_received_def packet_decide_def Let_def up_pktsize_def)
  moreover have "up_data ?c2 = up_data c @ d" "up_remains ?c2 = up_remains c" by auto
  ultimately show ?case using Cons.IH [of ?c2] Cons.prems by auto
qed

text \<open>C28: a native packet is complete exactly when its announced length has arrived, in whatever pieces:
  then the packet the request reader sees is the announced bytes, and the rest of the last piece is
  kept as the beginning of the body.\<close>

theorem upsgi_packet_split_independent:
  assumes "length payload < 65536" "length payload \<le> buffer_size"
    and "concat ds @ d = packet_bytes m1 m2 payload @ extra" "length (concat ds) < 4 + length payload"
    and "up_data c = []" "up_remains c = []"
  shows "\<exists>c'. packet_feed buffer_size (ds @ [d]) c = (UPSGI_OK, c') \<and>
    up_packet c' = payload \<and> up_remains c' = extra"
proof -
  obtain c1 where c1: "up_data c1 = concat ds" "up_remains c1 = []"
    "packet_feed buffer_size (ds @ [d]) c = packet_feed buffer_size [d] c1"
    using packet_feed_again [of payload buffer_size c ds d m1 m2 extra "[d]"] assms by auto
  let ?c2 = "c1\<lparr>up_data := packet_bytes m1 m2 payload @ extra, up_len := length payload\<rparr>"
  have pl: "length (packet_bytes m1 m2 payload) = 4 + length payload" by (simp add: packet_bytes_def)
  have size: "up_pktsize (c1\<lparr>up_data := packet_bytes m1 m2 payload @ extra\<rparr>) = length payload"
    using packet_bytes_size [OF assms(1), of "packet_bytes m1 m2 payload @ extra" "[]" m1 m2 extra] pl
    by (simp add: up_pktsize_def)
  have r: "packet_received buffer_size d c1 = packet_decide buffer_size ?c2"
    using size pl by (simp add: packet_received_def c1(1) assms(3) Let_def)
  have "packet_decide buffer_size ?c2 = (UPSGI_OK, if extra = [] then ?c2 else ?c2\<lparr>up_remains := extra\<rparr>)"
    using size pl by (cases "extra = []") (auto simp: packet_decide_def Let_def up_pktsize_def)
  moreover have "up_packet ?c2 = payload" by (simp add: up_packet_def packet_bytes_def le16_def)
  ultimately show ?thesis using c1 r by (auto simp: up_packet_def split: if_splits)
qed

definition upsgi_conn0 :: upsgi_conn where
  "upsgi_conn0 = \<lparr>up_data = [], up_len = 0, up_remains = []\<rparr>"

theorem upsgi_packet_split_independent_witness:
  "\<exists>c'. packet_feed 4096 ([take 3 (packet_bytes (CHR 0x00) (CHR 0x00) ''abc'')] @
      [drop 3 (packet_bytes (CHR 0x00) (CHR 0x00) ''abc'') @ ''xy'']) upsgi_conn0 = (UPSGI_OK, c') \<and>
    up_packet c' = ''abc'' \<and> up_remains c' = ''xy''"
  by (rule upsgi_packet_split_independent [where ?m1.0 = "CHR 0x00" and ?m2.0 = "CHR 0x00"])
    (simp_all add: packet_bytes_def upsgi_conn0_def le16_def)

text \<open>over TLS the length of the packet is never stored, whatever is received, so the request reader
  sees the length of a fresh request, an empty packet.\<close>

theorem supsgi_packet_length_lost:
  "up_len (snd (fst (upsgi_proto_supsgi_parser buffer_size c evs))) = up_len c"
  by (auto simp: upsgi_proto_supsgi_parser_def packet_decide_def Let_def split: prod.splits read_ret.splits)

end
