(* ===== verification/Upsgi_Writer.thy ===== *)
theory Upsgi_Writer
  imports Upsgi_Protocol
begin

text \<open>
  The response writer, \<open>core/writer.c\<close>, with the output transformations of
  \<open>core/transformations.c\<close>: the functions every request plugin calls to build the response
  headers and to send headers, body chunks, vectors and files.

  The function pointers of a socket are the record \<open>proto_ops\<close>; the tables that the protocols of
  \<open>proto/\<close> install are values of it.  \<open>w_wire\<close> is the sequence of bytes that left through the
  socket, \<open>w_evs\<close> what the kernel will answer to the writes: each answer comes with the result of
  the wait for a writable socket that follows it when it is \<open>EAGAIN\<close>.  A used-up script is an
  error, so every loop ends.  Routes and the functions of the transformations are code of other
  modules and arguments of the model (\<open>wr_cfg\<close>).

  The locale \<open>stream_writer\<close> states what a protocol's write function promises (what it reports as
  sent is what left, it is the next piece of the buffer, success means all of it), and the retry
  loop is proved exact from it.
\<close>

section \<open>State\<close>

record transformation =
  ut_func :: nat
  ut_chunk :: "upsgi_buffer option"
  ut_can_stream :: bool
  ut_is_final :: bool
  ut_flushed :: bool
  ut_round :: nat

datatype via = ViaNone | ViaSendfile | ViaRoute | ViaOffload

record wr_req =
  w_headers :: "upsgi_buffer option"
  w_header_cnt :: "16 word"
  w_headers_size :: nat
  w_headers_sent :: bool
  w_response_size :: nat
  w_write_pos :: nat
  w_write_errors :: nat
  w_ignore_body :: bool
  w_status :: int
  w_is_error_routing :: bool
  w_is_response_routing :: bool
  w_transformations :: "transformation list"
  w_transformed_chunk :: "char list"
  w_remove_headers :: "char list list"
  w_additional_headers :: "char list list"
  w_append :: append_req
  w_via :: via
  w_closed :: nat
  w_wire :: "char list"
  w_evs :: "(wr_ev \<times> int) list"

record proto_ops =
  po_prepare_headers :: "mem_env \<Rightarrow> char list \<Rightarrow> upsgi_buffer c_result"
  po_add_header :: "mem_env \<Rightarrow> char list \<Rightarrow> char list \<Rightarrow> upsgi_buffer c_result"
  po_fix_headers :: "mem_env \<Rightarrow> upsgi_buffer \<Rightarrow> upsgi_buffer c_result"
  po_write :: "char list \<Rightarrow> nat \<Rightarrow> wr_ev \<Rightarrow> proto_ret \<times> nat \<times> char list"
  po_writev :: "(char list list \<Rightarrow> nat \<Rightarrow> nat \<Rightarrow> wr_ev \<Rightarrow>
                 proto_ret \<times> nat \<times> char list list \<times> nat \<times> char list) option"
  po_write_headers :: "char list \<Rightarrow> nat \<Rightarrow> wr_ev \<Rightarrow> proto_ret \<times> nat \<times> char list"
  po_sendfile :: "char list \<Rightarrow> nat \<Rightarrow> nat \<Rightarrow> nat \<Rightarrow> wr_ev \<Rightarrow> proto_ret \<times> nat \<times> char list"
  po_can_offload :: bool

text \<open>The tables; \<open>cgi_mode\<close>, the request's protocol and whether there are offload threads are
  bound when the table is used.  The raw protocol has no vectored write.\<close>

definition http_setup :: "bool \<Rightarrow> char list \<Rightarrow> bool \<Rightarrow> proto_ops" where
  "http_setup cgi_mode protocol offload =
     \<lparr>po_prepare_headers = (\<lambda>env. upsgi_proto_base_prepare_headers env cgi_mode protocol),
      po_add_header = upsgi_proto_base_add_header,
      po_fix_headers = upsgi_proto_base_fix_headers,
      po_write = upsgi_proto_base_write,
      po_writev = Some upsgi_proto_base_writev,
      po_write_headers = upsgi_proto_base_write,
      po_sendfile = upsgi_proto_base_sendfile,
      po_can_offload = offload\<rparr>"

definition upsgi_setup :: "bool \<Rightarrow> char list \<Rightarrow> bool \<Rightarrow> proto_ops" where
  "upsgi_setup cgi_mode protocol offload = http_setup cgi_mode protocol offload"

definition scgi_setup :: proto_ops where
  "scgi_setup =
     (http_setup False [] False)\<lparr>po_prepare_headers := upsgi_proto_base_cgi_prepare_headers\<rparr>"

definition scgi_nph_setup :: "bool \<Rightarrow> char list \<Rightarrow> proto_ops" where
  "scgi_nph_setup cgi_mode protocol = http_setup cgi_mode protocol False"

definition raw_setup :: "bool \<Rightarrow> char list \<Rightarrow> bool \<Rightarrow> proto_ops" where
  "raw_setup cgi_mode protocol offload = (http_setup cgi_mode protocol offload)\<lparr>po_writev := None\<rparr>"

text \<open>\<open>True\<close> is the answer \<open>UPSGI_ROUTE_BREAK\<close>; a transformation that fails answers \<open>False\<close>.\<close>

record wr_cfg =
  wc_env :: mem_env
  wc_ops :: proto_ops
  wc_header_limit :: nat
  wc_vec_size :: nat
  wc_pull_headers :: "(char list \<times> char list) list"
  wc_collect_headers :: "(char list \<times> char list) list"
  wc_remove_headers :: "char list list"
  wc_additional_headers :: "char list list"
  wc_error_routes :: "wr_req \<Rightarrow> bool \<times> wr_req"
  wc_response_routes :: "wr_req \<Rightarrow> bool \<times> wr_req"
  wc_transform :: "nat \<Rightarrow> wr_req \<Rightarrow> transformation \<Rightarrow> bool \<times> wr_req \<times> transformation"
  wc_gmtime :: "nat \<Rightarrow> tm"

datatype wr_ret = WR_OK | WR_AGAIN | WR_ERR | WR_FAULT

definition write_error :: "wr_req \<Rightarrow> wr_req" where
  "write_error r = r\<lparr>w_write_errors := w_write_errors r + 1\<rparr>"

section \<open>Status messages\<close>

definition hsc :: "(string \<times> string) list" where
  "hsc =
     [(''200'', ''OK''), (''302'', ''Found''), (''404'', ''Not Found''),
      (''500'', ''Internal Server Error''), (''301'', ''Moved Permanently''),
      (''304'', ''Not Modified''), (''303'', ''See Other''), (''403'', ''Forbidden''),
      (''307'', ''Temporary Redirect''), (''401'', ''Unauthorized''), (''400'', ''Bad Request''),
      (''405'', ''Method Not Allowed''), (''408'', ''Request Timeout''),
      (''100'', ''Continue''), (''101'', ''Switching Protocols''), (''103'', ''Early Hints''),
      (''201'', ''Created''), (''202'', ''Accepted''), (''203'', ''Non-Authoritative Information''),
      (''204'', ''No Content''), (''205'', ''Reset Content''), (''206'', ''Partial Content''),
      (''300'', ''Multiple Choices''), (''305'', ''Use Proxy''), (''402'', ''Payment Required''),
      (''406'', ''Not Acceptable''), (''407'', ''Proxy Authentication Required''),
      (''409'', ''Conflict''), (''410'', ''Gone''), (''411'', ''Length Required''),
      (''412'', ''Precondition Failed''), (''413'', ''Request Entity Too Large''),
      (''414'', ''Request-URI Too Long''), (''415'', ''Unsupported Media Type''),
      (''416'', ''Requested Range Not Satisfiable''), (''417'', ''Expectation Failed''),
      (''418'', ''I'' @ CHR 0x27 # ''m a teapot''), (''422'', ''Unprocessable Entity''),
      (''425'', ''Too Early''), (''426'', ''Upgrade Required''),
      (''428'', ''Precondition Required''), (''429'', ''Too Many Requests''),
      (''431'', ''Request Header Fields Too Large''),
      (''451'', ''Unavailable For Legal Reasons''), (''501'', ''Not Implemented''),
      (''502'', ''Bad Gateway''), (''503'', ''Service Unavailable''),
      (''504'', ''Gateway Timeout''), (''505'', ''HTTP Version Not Supported''),
      (''509'', ''Bandwidth Limit Exceeded''), (''511'', ''Network Authentication Required'')]"

definition upsgi_http_status_msg :: "char list \<Rightarrow> string option" where
  "upsgi_http_status_msg status = map_of hsc (take 3 status)"

definition upsgi_str3_num :: "char list \<Rightarrow> int" where
  "upsgi_str3_num s = 100 * (schar (s ! 0) - 48) + 10 * (schar (s ! 1) - 48) + (schar (s ! 2) - 48)"

section \<open>Building the headers\<close>

definition headers_buf :: "wr_cfg \<Rightarrow> wr_req \<Rightarrow> upsgi_buffer" where
  "headers_buf cfg r =
     (case w_headers r of
        Some b \<Rightarrow> b
      | None \<Rightarrow> (upsgi_buffer_new (wc_env cfg) (page_size (wc_env cfg)))\<lparr>ub_limit := wc_header_limit cfg\<rparr>)"

text \<open>The common end of the two header functions: what the protocol built is appended.\<close>

definition append_headers :: "wr_cfg \<Rightarrow> upsgi_buffer c_result \<Rightarrow> wr_req \<Rightarrow> wr_ret \<times> wr_req" where
  "append_headers cfg hh r =
     (case hh of
        Fault \<Rightarrow> (WR_FAULT, r)
      | Err _ \<Rightarrow> (WR_ERR, write_error r)
      | Ok h \<Rightarrow>
          (case upsgi_buffer_append (wc_env cfg) (headers_buf cfg r) (ub_content h) of
             Ok u \<Rightarrow> (WR_OK, r\<lparr>w_headers := Some u\<rparr>)
           | Err u \<Rightarrow> (WR_ERR, write_error (r\<lparr>w_headers := Some u\<rparr>))
           | Fault \<Rightarrow> (WR_FAULT, r)))"

definition headers_closed :: "wr_req \<Rightarrow> bool" where
  "headers_closed r \<longleftrightarrow>
     w_headers_sent r \<or> w_headers_size r > 0 \<or> w_response_size r > 0 \<or> w_write_errors r > 0"

definition status_line :: "char list \<Rightarrow> char list" where
  "status_line status =
     (if length status \<le> 4 then
        (case upsgi_http_status_msg status of
           Some sc \<Rightarrow> take 3 status @ '' '' @ sc
         | None \<Rightarrow> take 3 status @ '' Unknown'')
      else status)"

definition upsgi_response_prepare_headers :: "wr_cfg \<Rightarrow> char list \<Rightarrow> wr_req \<Rightarrow> wr_ret \<times> wr_req" where
  "upsgi_response_prepare_headers cfg st r =
     (let status = u16_arg st in
      if length status < 3 \<or> headers_closed r then (WR_ERR, r)
      else
       (let r1 = r\<lparr>w_headers := Some ((headers_buf cfg r)\<lparr>ub_pos := 0\<rparr>), w_header_cnt := 0,
                   w_status := upsgi_str3_num status\<rparr>;
            (brk, r2) = (if w_is_error_routing r1 then (False, r1) else wc_error_routes cfg r1) in
        if brk then (WR_ERR, r2\<lparr>w_ignore_body := True\<rparr>)
        else append_headers cfg (po_prepare_headers (wc_ops cfg) (wc_env cfg) (status_line status))
               (if w_is_error_routing r1 then r2 else r2\<lparr>w_is_error_routing := False\<rparr>)))"

text \<open>Three bytes are used whatever the number is; behind a shorter one they are what the stack holds.\<close>

definition upsgi_response_prepare_headers_int ::
    "wr_cfg \<Rightarrow> char list \<Rightarrow> int \<Rightarrow> wr_req \<Rightarrow> wr_ret \<times> wr_req" where
  "upsgi_response_prepare_headers_int cfg stack status =
     upsgi_response_prepare_headers cfg (take 3 (int_dec status @ CHR 0x00 # stack))"

definition req_append :: "wr_cfg \<Rightarrow> char list \<Rightarrow> char list \<Rightarrow> wr_req \<Rightarrow> wr_ret \<times> wr_req" where
  "req_append cfg var val r =
     (case upsgi_req_append (wc_vec_size cfg) var val (w_append r) of
        Ok a \<Rightarrow> (WR_OK, r\<lparr>w_append := a\<rparr>)
      | Err a \<Rightarrow> (WR_ERR, write_error (r\<lparr>w_append := a\<rparr>))
      | Fault \<Rightarrow> (WR_FAULT, r))"

fun pull_loop :: "wr_cfg \<Rightarrow> (char list \<times> char list) list \<Rightarrow> char list \<Rightarrow> char list \<Rightarrow> wr_req \<Rightarrow> (wr_ret \<times> wr_req) option" where
  "pull_loop cfg [] key val r = None"
| "pull_loop cfg ((h, var) # hs) key val r =
     (if upsgi_strnicmp key h = 0 then Some (req_append cfg var val r) else pull_loop cfg hs key val r)"

fun collect_loop :: "wr_cfg \<Rightarrow> (char list \<times> char list) list \<Rightarrow> char list \<Rightarrow> char list \<Rightarrow> wr_req \<Rightarrow> wr_ret \<times> wr_req" where
  "collect_loop cfg [] key val r = (WR_OK, r)"
| "collect_loop cfg ((h, var) # hs) key val r =
     (if upsgi_strnicmp key h = 0 then
        (case req_append cfg var val r of
           (WR_OK, r1) \<Rightarrow> collect_loop cfg hs key val r1
         | bad \<Rightarrow> bad)
      else collect_loop cfg hs key val r)"

definition upsgi_response_add_header_do ::
    "wr_cfg \<Rightarrow> char list \<Rightarrow> char list \<Rightarrow> wr_req \<Rightarrow> wr_ret \<times> wr_req" where
  "upsgi_response_add_header_do cfg key val r =
     (case pull_loop cfg (wc_pull_headers cfg) key val r of
        Some res \<Rightarrow> res
      | None \<Rightarrow>
          (case collect_loop cfg (wc_collect_headers cfg) key val r of
             (WR_OK, r1) \<Rightarrow>
               (case append_headers cfg (po_add_header (wc_ops cfg) (wc_env cfg) key val)
                       (r1\<lparr>w_headers := Some (headers_buf cfg r1)\<rparr>) of
                  (WR_OK, r2) \<Rightarrow> (WR_OK, r2\<lparr>w_header_cnt := w_header_cnt r2 + 1\<rparr>)
                | bad \<Rightarrow> bad)
           | bad \<Rightarrow> bad))"

definition upsgi_response_add_header_force ::
    "wr_cfg \<Rightarrow> char list \<Rightarrow> char list \<Rightarrow> wr_req \<Rightarrow> wr_ret \<times> wr_req" where
  "upsgi_response_add_header_force cfg key val r =
     (if headers_closed r then (WR_ERR, r)
      else upsgi_response_add_header_do cfg (u16_arg key) (u16_arg val) r)"

definition upsgi_response_add_header ::
    "wr_cfg \<Rightarrow> char list \<Rightarrow> char list \<Rightarrow> wr_req \<Rightarrow> wr_ret \<times> wr_req" where
  "upsgi_response_add_header cfg k v r =
     (let key = u16_arg k; val = u16_arg v in
      if headers_closed r then (WR_ERR, r)
      else if list_ex (\<lambda>rh. upsgi_strnicmp key rh = 0) (wc_remove_headers cfg) then (WR_OK, r)
      else if list_ex (\<lambda>rh. upsgi_strnicmp key rh = 0) (w_remove_headers r) then (WR_OK, r)
      else upsgi_response_add_header_do cfg key val r)"

definition upsgi_response_add_content_length :: "wr_cfg \<Rightarrow> nat \<Rightarrow> wr_req \<Rightarrow> wr_ret \<times> wr_req" where
  "upsgi_response_add_content_length cfg cl r =
     (let s = nat_dec cl in
      if length s \<ge> 22 then (WR_ERR, write_error r)
      else upsgi_response_add_header cfg ''Content-Length'' s r)"

definition upsgi_response_add_date :: "wr_cfg \<Rightarrow> char list \<Rightarrow> nat \<Rightarrow> wr_req \<Rightarrow> wr_ret \<times> wr_req" where
  "upsgi_response_add_date cfg hkey t r =
     (let d = upsgi_http_date (wc_gmtime cfg t) in
      if d = [] then (WR_ERR, write_error r) else upsgi_response_add_header cfg hkey d r)"

definition upsgi_response_add_expires :: "wr_cfg \<Rightarrow> nat \<Rightarrow> wr_req \<Rightarrow> wr_ret \<times> wr_req" where
  "upsgi_response_add_expires cfg = upsgi_response_add_date cfg ''Expires''"

definition upsgi_response_add_last_modified :: "wr_cfg \<Rightarrow> nat \<Rightarrow> wr_req \<Rightarrow> wr_ret \<times> wr_req" where
  "upsgi_response_add_last_modified cfg = upsgi_response_add_date cfg ''Last-Modified''"

text \<open>The buffer of 73 bytes holds every text of three 64-bit numbers.\<close>

definition content_range_text :: "int \<Rightarrow> int \<Rightarrow> int \<Rightarrow> char list option" where
  "content_range_text start stop cl =
     (if start = -1 \<and> stop = -1 \<and> cl \<ge> 0 then Some (''bytes */'' @ int_dec cl)
      else if start < 0 \<or> stop < start \<or> stop \<ge> cl then None
      else Some (''bytes '' @ int_dec start @ ''-'' @ int_dec stop @ ''/'' @ int_dec cl))"

definition upsgi_response_add_content_range ::
    "wr_cfg \<Rightarrow> int \<Rightarrow> int \<Rightarrow> int \<Rightarrow> wr_req \<Rightarrow> wr_ret \<times> wr_req" where
  "upsgi_response_add_content_range cfg start stop cl r =
     (case content_range_text start stop cl of
        None \<Rightarrow> (WR_ERR, write_error r)
      | Some s \<Rightarrow>
          if length s \<ge> 73 then (WR_ERR, write_error r)
          else upsgi_response_add_header cfg ''Content-Range'' s r)"

section \<open>Transformations\<close>

datatype tr_ret = TrSend | TrBuffer | TrFail | TrFault

definition ut_buf :: "wr_cfg \<Rightarrow> nat \<Rightarrow> transformation \<Rightarrow> upsgi_buffer" where
  "ut_buf cfg len ut = (case ut_chunk ut of Some b \<Rightarrow> b | None \<Rightarrow> upsgi_buffer_new (wc_env cfg) len)"

definition chunk_of :: "transformation \<Rightarrow> char list" where
  "chunk_of ut = (case ut_chunk ut of Some b \<Rightarrow> ub_content b | None \<Rightarrow> [])"

definition chunk_reset :: "transformation \<Rightarrow> transformation" where
  "chunk_reset ut = ut\<lparr>ut_chunk := map_option (\<lambda>b. b\<lparr>ub_pos := 0\<rparr>) (ut_chunk ut)\<rparr>"

text \<open>The chain: \<open>uts\<close> is the part from \<open>ut\<close> on, \<open>done\<close> the part before it; \<open>d\<close> is \<open>t_buf\<close>.\<close>

fun apply_chain ::
    "wr_cfg \<Rightarrow> transformation list \<Rightarrow> transformation list \<Rightarrow> char list \<Rightarrow> bool \<Rightarrow> wr_req \<Rightarrow> tr_ret \<times> wr_req" where
  "apply_chain cfg [] done d flushed r =
     (TrSend, r\<lparr>w_transformations := done, w_transformed_chunk := if flushed then [] else d\<rparr>)"
| "apply_chain cfg (ut # uts) done d flushed r =
     (let ut1 = ut\<lparr>ut_chunk := Some (ut_buf cfg (length d) ut)\<rparr> in
      if ut_is_final ut then apply_chain cfg uts (done @ [ut1]) d flushed r
      else
       (case upsgi_buffer_append (wc_env cfg) (ut_buf cfg (length d) ut) d of
          Fault \<Rightarrow> (TrFault, r)
        | Err u \<Rightarrow> (TrFail, r\<lparr>w_transformations := done @ ut1\<lparr>ut_chunk := Some u\<rparr> # uts\<rparr>)
        | Ok u \<Rightarrow>
            if \<not> ut_can_stream ut then
              (TrBuffer, r\<lparr>w_transformations := done @ ut1\<lparr>ut_chunk := Some u\<rparr> # uts\<rparr>)
            else
             (case wc_transform cfg (ut_func ut) r (ut1\<lparr>ut_chunk := Some u, ut_round := ut_round ut + 1\<rparr>) of
                (ok, r1, ut2) \<Rightarrow>
                  if \<not> ok then (TrFail, r1\<lparr>w_transformations := done @ ut2 # uts\<rparr>)
                  else apply_chain cfg uts (done @ [chunk_reset ut2]) (chunk_of ut2) (flushed \<or> ut_flushed ut2) r1)))"

definition upsgi_apply_transformations :: "wr_cfg \<Rightarrow> char list \<Rightarrow> wr_req \<Rightarrow> tr_ret \<times> wr_req" where
  "upsgi_apply_transformations cfg d r =
     apply_chain cfg (w_transformations r) [] d False (r\<lparr>w_transformed_chunk := []\<rparr>)"

text \<open>The final chain: up to the first transformation that buffers, nothing runs.\<close>

fun final_chain ::
    "wr_cfg \<Rightarrow> transformation list \<Rightarrow> transformation list \<Rightarrow> char list \<Rightarrow> bool \<Rightarrow> bool \<Rightarrow> wr_req \<Rightarrow> tr_ret \<times> wr_req" where
  "final_chain cfg [] done d flushed found r =
     (TrSend, r\<lparr>w_transformations := done, w_transformed_chunk := if flushed then [] else d\<rparr>)"
| "final_chain cfg (ut # uts) done d flushed found r =
     (if \<not> found \<and> ut_can_stream ut then
        (case ut_chunk ut of
           None \<Rightarrow> (TrSend, r\<lparr>w_transformations := done @ ut # uts\<rparr>)
         | Some b \<Rightarrow> final_chain cfg uts (done @ [ut]) (ub_content b) flushed False r)
      else
       (let b = ut_buf cfg (if length d > 0 then length d else page_size (wc_env cfg)) ut in
        case (if length d > 0 then upsgi_buffer_append (wc_env cfg) b d else Ok b) of
          Fault \<Rightarrow> (TrFault, r)
        | Err u \<Rightarrow> (TrFail, r\<lparr>w_transformations := done @ ut\<lparr>ut_chunk := Some u\<rparr> # uts\<rparr>)
        | Ok u \<Rightarrow>
            (case wc_transform cfg (ut_func ut) r (ut\<lparr>ut_chunk := Some u, ut_round := ut_round ut + 1\<rparr>) of
               (ok, r1, ut2) \<Rightarrow>
                 if \<not> ok then (TrFail, r1\<lparr>w_transformations := done @ ut2 # uts\<rparr>)
                 else final_chain cfg uts (done @ [ut2]) (chunk_of ut2) (flushed \<or> ut_flushed ut2) True r1)))"

definition upsgi_apply_final_transformations :: "wr_cfg \<Rightarrow> wr_req \<Rightarrow> tr_ret \<times> wr_req" where
  "upsgi_apply_final_transformations cfg r =
     final_chain cfg (w_transformations r) [] [] False False (r\<lparr>w_transformed_chunk := []\<rparr>)"

definition upsgi_add_transformation :: "nat \<Rightarrow> wr_req \<Rightarrow> wr_req" where
  "upsgi_add_transformation func r =
     r\<lparr>w_transformations := w_transformations r @
        [\<lparr>ut_func = func, ut_chunk = None, ut_can_stream = False, ut_is_final = False,
          ut_flushed = False, ut_round = 0\<rparr>]\<rparr>"

definition upsgi_free_transformations :: "wr_req \<Rightarrow> wr_req" where
  "upsgi_free_transformations r = r\<lparr>w_transformations := []\<rparr>"

section \<open>Writing\<close>

text \<open>The retry loop all senders share: one attempt of the protocol after another, a wait after each
  \<open>EAGAIN\<close>; \<open>v\<close> is what the attempt changes besides the request (the vectors).\<close>

fun write_retry ::
    "('v \<Rightarrow> nat \<Rightarrow> wr_ev \<Rightarrow> proto_ret \<times> nat \<times> 'v \<times> char list) \<Rightarrow> 'v \<Rightarrow> (wr_ev \<times> int) list \<Rightarrow> wr_req \<Rightarrow>
     wr_ret \<times> wr_req" where
  "write_retry attempt v [] r = (WR_ERR, write_error (r\<lparr>w_evs := []\<rparr>))"
| "write_retry attempt v ((ev, w) # evs) r =
     (case attempt v (w_write_pos r) ev of
        (ret, pos, v1, out) \<Rightarrow>
          (let r1 = r\<lparr>w_write_pos := pos, w_wire := w_wire r @ out, w_evs := evs\<rparr> in
           case ret of
             PROTO_ERR \<Rightarrow> (WR_ERR, write_error r1)
           | UPSGI_OK \<Rightarrow> (WR_OK, r1)
           | UPSGI_AGAIN \<Rightarrow>
               if ev = WAgain \<and> w \<le> 0 then (WR_ERR, write_error r1)
               else write_retry attempt v1 evs r1))"

definition buf_attempt ::
    "(char list \<Rightarrow> nat \<Rightarrow> wr_ev \<Rightarrow> proto_ret \<times> nat \<times> char list) \<Rightarrow>
     char list \<Rightarrow> nat \<Rightarrow> wr_ev \<Rightarrow> proto_ret \<times> nat \<times> char list \<times> char list" where
  "buf_attempt wr buf pos ev = (case wr buf pos ev of (ret, pos1, out) \<Rightarrow> (ret, pos1, buf, out))"

definition write_buf :: "wr_cfg \<Rightarrow> char list \<Rightarrow> wr_req \<Rightarrow> wr_ret \<times> wr_req" where
  "write_buf cfg buf r = write_retry (buf_attempt (po_write (wc_ops cfg))) buf (w_evs r) r"

text \<open>The bytes count as body, and \<open>write_pos\<close> is reset for the next write.\<close>

definition count_body :: "wr_ret \<times> wr_req \<Rightarrow> wr_ret \<times> wr_req" where
  "count_body res =
     (case res of
        (WR_OK, r) \<Rightarrow> (WR_OK, r\<lparr>w_response_size := w_response_size r + w_write_pos r, w_write_pos := 0\<rparr>)
      | bad \<Rightarrow> bad)"

fun add_headers_loop :: "wr_cfg \<Rightarrow> char list list \<Rightarrow> wr_req \<Rightarrow> wr_ret \<times> wr_req" where
  "add_headers_loop cfg [] r = (WR_OK, r)"
| "add_headers_loop cfg (h # hs) r =
     (case upsgi_response_add_header cfg [] h r of
        (WR_OK, r1) \<Rightarrow> add_headers_loop cfg hs r1
      | bad \<Rightarrow> bad)"

text \<open>The response routes run unless they are running; \<open>True\<close> means that they ended the response.\<close>

definition run_response_routes :: "wr_cfg \<Rightarrow> wr_req \<Rightarrow> bool \<times> wr_req" where
  "run_response_routes cfg r =
     (if w_is_response_routing r then (False, r)
      else (case wc_response_routes cfg r of (brk, r1) \<Rightarrow>
              if brk then (True, r1\<lparr>w_ignore_body := True\<rparr>) else (False, r1\<lparr>w_is_response_routing := False\<rparr>)))"

definition upsgi_response_write_headers_do0 :: "wr_cfg \<Rightarrow> wr_req \<Rightarrow> wr_ret \<times> wr_req" where
  "upsgi_response_write_headers_do0 cfg r =
     (if w_headers_sent r \<or> w_headers r = None \<or> w_response_size r > 0 \<or> w_write_errors r > 0 then (WR_OK, r)
      else
       (case run_response_routes cfg r of (brk, r0) \<Rightarrow>
         if brk then (WR_ERR, r0)
         else
          (case add_headers_loop cfg (wc_additional_headers cfg) r0 of
             (WR_OK, r1) \<Rightarrow>
               (case add_headers_loop cfg (w_additional_headers r1) r1 of
                  (WR_OK, r2) \<Rightarrow>
                    (case po_fix_headers (wc_ops cfg) (wc_env cfg) (headers_buf cfg r2) of
                       Ok u \<Rightarrow> (WR_AGAIN, r2\<lparr>w_headers := Some u\<rparr>)
                     | Err u \<Rightarrow> (WR_ERR, write_error (r2\<lparr>w_headers := Some u\<rparr>))
                     | Fault \<Rightarrow> (WR_FAULT, r2))
                | bad \<Rightarrow> bad)
           | bad \<Rightarrow> bad)))"

definition upsgi_response_write_headers_do :: "wr_cfg \<Rightarrow> wr_req \<Rightarrow> wr_ret \<times> wr_req" where
  "upsgi_response_write_headers_do cfg r =
     (case upsgi_response_write_headers_do0 cfg r of
        (WR_AGAIN, r1) \<Rightarrow>
          (case write_retry (buf_attempt (po_write_headers (wc_ops cfg)))
                  (ub_content (headers_buf cfg r1)) (w_evs r1) r1 of
             (WR_OK, r2) \<Rightarrow>
               (WR_OK, r2\<lparr>w_headers_size := w_headers_size r2 + w_write_pos r2, w_write_pos := 0,
                          w_headers_sent := True\<rparr>)
           | bad \<Rightarrow> bad)
      | res \<Rightarrow> res)"

text \<open>Headers and body in one vector; when one vector is left the plain write takes over, with the
  counters set so that the rest counts as body.\<close>

definition headers_done :: "nat \<Rightarrow> wr_req \<Rightarrow> wr_req" where
  "headers_done hlen r =
     (let r1 = r\<lparr>w_headers_size := w_headers_size r + hlen, w_headers_sent := True\<rparr> in
      r1\<lparr>w_response_size := size_add (w_response_size r1) (size_sub (w_write_pos r1) (w_headers_size r1)),
         w_write_pos := 0\<rparr>)"

fun writev_loop ::
    "wr_cfg \<Rightarrow> (char list list \<Rightarrow> nat \<Rightarrow> nat \<Rightarrow> wr_ev \<Rightarrow> proto_ret \<times> nat \<times> char list list \<times> nat \<times> char list) \<Rightarrow>
     nat \<Rightarrow> nat \<Rightarrow> char list list \<Rightarrow> nat \<Rightarrow> (wr_ev \<times> int) list \<Rightarrow> wr_req \<Rightarrow> wr_ret \<times> wr_req" where
  "writev_loop cfg writev hlen blen iov n [] r =
     (if n = 1 then count_body (write_buf cfg (iov ! 0) (headers_done hlen (r\<lparr>w_evs := []\<rparr>)))
      else (WR_ERR, write_error (r\<lparr>w_evs := []\<rparr>)))"
| "writev_loop cfg writev hlen blen iov n ((ev, w) # evs) r =
     (if n = 1 then count_body (write_buf cfg (iov ! 0) (headers_done hlen (r\<lparr>w_evs := (ev, w) # evs\<rparr>)))
      else
       (case writev iov n (w_write_pos r) ev of
          (ret, pos, iov1, n1, out) \<Rightarrow>
            (let r1 = r\<lparr>w_write_pos := pos, w_wire := w_wire r @ out, w_evs := evs\<rparr> in
             case ret of
               PROTO_ERR \<Rightarrow> (WR_ERR, write_error r1)
             | UPSGI_OK \<Rightarrow>
                 (WR_OK, r1\<lparr>w_headers_size := w_headers_size r1 + hlen, w_response_size := w_response_size r1 + blen,
                            w_headers_sent := True, w_write_pos := 0\<rparr>)
             | UPSGI_AGAIN \<Rightarrow>
                 if ev = WAgain \<and> w \<le> 0 then (WR_ERR, write_error r1)
                 else writev_loop cfg writev hlen blen iov1 n1 evs r1)))"

definition upsgi_response_writev_headers_and_body_do ::
    "wr_cfg \<Rightarrow> (char list list \<Rightarrow> nat \<Rightarrow> nat \<Rightarrow> wr_ev \<Rightarrow> proto_ret \<times> nat \<times> char list list \<times> nat \<times> char list) \<Rightarrow>
     char list \<Rightarrow> wr_req \<Rightarrow> wr_ret \<times> wr_req" where
  "upsgi_response_writev_headers_and_body_do cfg writev buf r =
     (case upsgi_response_write_headers_do0 cfg r of
        (WR_AGAIN, r1) \<Rightarrow>
          (let h = ub_content (headers_buf cfg r1) in
           writev_loop cfg writev (length h) (length buf) [h, buf] 2 (w_evs r1) r1)
      | res \<Rightarrow> res)"

text \<open>The gate of the body functions: \<open>Some\<close> is an early return.\<close>

definition body_gate :: "wr_cfg \<Rightarrow> wr_req \<Rightarrow> (wr_ret option) \<times> wr_req" where
  "body_gate cfg r =
     (if w_write_errors r > 0 then (Some WR_ERR, r)
      else if w_ignore_body r then (Some WR_OK, r)
      else if w_headers_sent r then (None, r)
      else (case run_response_routes cfg r of (brk, r1) \<Rightarrow> if brk then (Some WR_ERR, r1) else (None, r1)))"

text \<open>The headers, when they are still to be sent; an error counts twice.\<close>

definition send_headers :: "wr_cfg \<Rightarrow> wr_req \<Rightarrow> wr_ret \<times> wr_req" where
  "send_headers cfg r =
     (if w_headers_sent r then (WR_OK, r)
      else (case upsgi_response_write_headers_do cfg r of
              (WR_ERR, r1) \<Rightarrow> (WR_ERR, write_error r1)
            | res \<Rightarrow> res))"

definition write_chunk :: "wr_cfg \<Rightarrow> char list \<Rightarrow> wr_req \<Rightarrow> wr_ret \<times> wr_req" where
  "write_chunk cfg buf r =
     (case (if \<not> w_headers_sent r \<and> length buf > 0 \<and> w_headers r \<noteq> None then po_writev (wc_ops cfg) else None) of
        Some writev \<Rightarrow> upsgi_response_writev_headers_and_body_do cfg writev buf r
      | None \<Rightarrow>
          (case send_headers cfg r of
             (WR_OK, r1) \<Rightarrow> if buf = [] then (WR_OK, r1) else count_body (write_buf cfg buf r1)
           | bad \<Rightarrow> bad))"

definition upsgi_response_write_body_do :: "wr_cfg \<Rightarrow> char list \<Rightarrow> wr_req \<Rightarrow> wr_ret \<times> wr_req" where
  "upsgi_response_write_body_do cfg buf r =
     (case body_gate cfg r of
        (Some ret, r1) \<Rightarrow> (ret, r1)
      | (None, r1) \<Rightarrow>
          if w_transformed_chunk r1 = [] \<and> w_transformations r1 \<noteq> [] then
            (case upsgi_apply_transformations cfg buf r1 of
               (TrSend, r2) \<Rightarrow> write_chunk cfg (w_transformed_chunk r2) (r2\<lparr>w_transformed_chunk := []\<rparr>)
             | (TrBuffer, r2) \<Rightarrow> (WR_OK, r2)
             | (TrFail, r2) \<Rightarrow> (WR_ERR, write_error r2)
             | (TrFault, r2) \<Rightarrow> (WR_FAULT, r2))
          else write_chunk cfg buf r1)"

text \<open>The loop over the vectors: it leaves at the first transformation that sends.  The result is the
  answer (\<open>Some\<close> for an early return), the vectors and whether one of them was buffered.\<close>

fun transform_iov ::
    "wr_cfg \<Rightarrow> char list list \<Rightarrow> char list list \<Rightarrow> bool \<Rightarrow> wr_req \<Rightarrow> (wr_ret option) \<times> char list list \<times> wr_req" where
  "transform_iov cfg done [] buffering r = (if buffering then Some WR_OK else None, done, r)"
| "transform_iov cfg done (v # vs) buffering r =
     (if w_transformed_chunk r = [] \<and> w_transformations r \<noteq> [] then
        (case upsgi_apply_transformations cfg v r of
           (TrSend, r1) \<Rightarrow> (None, done @ w_transformed_chunk r1 # vs, r1\<lparr>w_transformed_chunk := []\<rparr>)
         | (TrBuffer, r1) \<Rightarrow> transform_iov cfg (done @ [v]) vs True r1
         | (TrFail, r1) \<Rightarrow> (Some WR_ERR, done @ v # vs, write_error r1)
         | (TrFault, r1) \<Rightarrow> (Some WR_FAULT, done @ v # vs, r1))
      else transform_iov cfg (done @ [v]) vs buffering r)"

fun write_each :: "wr_cfg \<Rightarrow> char list list \<Rightarrow> wr_req \<Rightarrow> wr_ret \<times> wr_req" where
  "write_each cfg [] r = (WR_OK, r)"
| "write_each cfg (v # vs) r =
     (case write_buf cfg v r of
        (WR_OK, r1) \<Rightarrow> write_each cfg vs r1
      | bad \<Rightarrow> bad)"

definition iov_attempt ::
    "(char list list \<Rightarrow> nat \<Rightarrow> nat \<Rightarrow> wr_ev \<Rightarrow> proto_ret \<times> nat \<times> char list list \<times> nat \<times> char list) \<Rightarrow>
     char list list \<times> nat \<Rightarrow> nat \<Rightarrow> wr_ev \<Rightarrow> proto_ret \<times> nat \<times> (char list list \<times> nat) \<times> char list" where
  "iov_attempt writev v pos ev =
     (case writev (fst v) (snd v) pos ev of (ret, pos1, iov1, n1, out) \<Rightarrow> (ret, pos1, (iov1, n1), out))"

definition upsgi_response_writev_body_do :: "wr_cfg \<Rightarrow> char list list \<Rightarrow> wr_req \<Rightarrow> wr_ret \<times> wr_req" where
  "upsgi_response_writev_body_do cfg iov r =
     (case body_gate cfg r of
        (Some ret, r1) \<Rightarrow> (ret, r1)
      | (None, r1) \<Rightarrow>
          (case transform_iov cfg [] iov False r1 of
             (Some ret, _, r2) \<Rightarrow> (ret, r2)
           | (None, vs, r2) \<Rightarrow>
               (case send_headers cfg r2 of
                  (WR_OK, r3) \<Rightarrow>
                    if vs = [] then (WR_OK, r3)
                    else
                      count_body
                        (case po_writev (wc_ops cfg) of
                           Some writev \<Rightarrow> write_retry (iov_attempt writev) (vs, length vs) (w_evs r3) r3
                         | None \<Rightarrow> write_each cfg vs r3)
                | bad \<Rightarrow> bad)))"

text \<open>A file: \<open>file\<close> is its contents, \<open>st_size\<close> the answer of \<open>fstat\<close>, \<open>dup_ok\<close> and \<open>offload_ok\<close> what
  \<open>dup\<close> and the offload engine answer; \<open>own\<close> is \<open>can_close\<close> without the descriptor that the
  request owns.\<close>

definition close_fd :: "bool \<Rightarrow> wr_req \<Rightarrow> wr_req" where
  "close_fd own r = (if own then r\<lparr>w_closed := w_closed r + 1\<rparr> else r)"

definition sendfile_len :: "nat option \<Rightarrow> nat \<Rightarrow> nat \<Rightarrow> nat option option" where
  "sendfile_len st_size pos len =
     (if len = 0 then
        (case st_size of
           None \<Rightarrow> None
         | Some n \<Rightarrow> if pos \<ge> n then Some None else Some (Some n))
      else Some (Some len))"

definition upsgi_response_sendfile_do_can_close ::
    "wr_cfg \<Rightarrow> char list \<Rightarrow> nat option \<Rightarrow> bool \<Rightarrow> bool \<Rightarrow> nat \<Rightarrow> nat \<Rightarrow> bool \<Rightarrow> wr_req \<Rightarrow> wr_ret \<times> wr_req" where
  "upsgi_response_sendfile_do_can_close cfg file st_size dup_ok offload_ok pos len own r =
     (if w_write_errors r > 0 then (WR_ERR, close_fd own r)
      else if w_ignore_body r then (WR_OK, close_fd own r)
      else
       (case send_headers cfg r of
          (WR_OK, r1) \<Rightarrow>
            (case sendfile_len st_size pos len of
               None \<Rightarrow> (WR_ERR, close_fd own (write_error r1))
             | Some None \<Rightarrow> (WR_OK, close_fd own r1)
             | Some (Some n) \<Rightarrow>
                 if po_can_offload (wc_ops cfg) then
                   (if \<not> own \<and> \<not> dup_ok then (WR_ERR, write_error r1)
                    else if offload_ok then
                      (WR_OK, r1\<lparr>w_via := ViaOffload, w_response_size := w_response_size r1 + n\<rparr>)
                    else (WR_ERR, close_fd True (write_error r1)))
                 else
                  (case write_retry (buf_attempt (\<lambda>file. po_sendfile (wc_ops cfg) file pos n)) file
                          (w_evs r1) (r1\<lparr>w_via := ViaSendfile\<rparr>) of
                     (WR_ERR, r2) \<Rightarrow> (WR_ERR, close_fd own r2)
                   | (WR_OK, r2) \<Rightarrow>
                       (WR_OK, close_fd own (r2\<lparr>w_response_size := w_response_size r2 + w_write_pos r2, w_write_pos := 0\<rparr>))
                   | res \<Rightarrow> res))
        | (WR_ERR, r1) \<Rightarrow> (WR_ERR, close_fd own r1)
        | res \<Rightarrow> res))"

definition upsgi_response_sendfile_do ::
    "wr_cfg \<Rightarrow> char list \<Rightarrow> nat option \<Rightarrow> bool \<Rightarrow> bool \<Rightarrow> nat \<Rightarrow> nat \<Rightarrow> bool \<Rightarrow> wr_req \<Rightarrow> wr_ret \<times> wr_req" where
  "upsgi_response_sendfile_do cfg file st_size dup_ok offload_ok pos len is_sendfile_fd =
     upsgi_response_sendfile_do_can_close cfg file st_size dup_ok offload_ok pos len (\<not> is_sendfile_fd)"

definition upsgi_simple_write :: "wr_cfg \<Rightarrow> char list \<Rightarrow> wr_req \<Rightarrow> wr_ret \<times> wr_req" where
  "upsgi_simple_write cfg buf r = write_buf cfg buf (r\<lparr>w_write_pos := 0\<rparr>)"

text \<open>The answer of \<open>poll\<close> and whether the socket is writable.\<close>

definition upsgi_simple_wait_write_hook :: "int \<Rightarrow> bool \<Rightarrow> int" where
  "upsgi_simple_wait_write_hook ret pollout = (if ret > 0 then (if pollout then 1 else -1) else ret)"

section \<open>The contract of one attempt\<close>

text \<open>\<open>io_out\<close> is the effect of a write on the request: bytes left, answers were used up, errors counted.\<close>

definition io_out :: "char list \<Rightarrow> nat \<Rightarrow> (wr_ev \<times> int) list \<Rightarrow> wr_req \<Rightarrow> wr_req" where
  "io_out out errors evs r =
     r\<lparr>w_write_pos := w_write_pos r + length out, w_wire := w_wire r @ out, w_evs := evs,
       w_write_errors := w_write_errors r + errors\<rparr>"

lemma io_out_io_out: "io_out b m evs2 (io_out a n evs1 r) = io_out (a @ b) (n + m) evs2 r"
  by (simp add: io_out_def)

lemma io_out_sel [simp]:
  "w_write_pos (io_out out n evs r) = w_write_pos r + length out"
  "w_wire (io_out out n evs r) = w_wire r @ out"
  "w_evs (io_out out n evs r) = evs"
  "w_write_errors (io_out out n evs r) = w_write_errors r + n"
  "w_response_size (io_out out n evs r) = w_response_size r"
  "w_headers_size (io_out out n evs r) = w_headers_size r"
  "w_headers_sent (io_out out n evs r) = w_headers_sent r"
  "w_headers (io_out out n evs r) = w_headers r"
  "w_ignore_body (io_out out n evs r) = w_ignore_body r"
  "w_transformations (io_out out n evs r) = w_transformations r"
  "w_transformed_chunk (io_out out n evs r) = w_transformed_chunk r"
  by (simp_all add: io_out_def)

text \<open>\<open>left v pos\<close> is what is still to be written: an attempt sends the front of it, and knows when it
  is done.\<close>

locale attempt_writer =
  fixes attempt :: "'v \<Rightarrow> nat \<Rightarrow> wr_ev \<Rightarrow> proto_ret \<times> nat \<times> 'v \<times> char list"
    and ready :: "'v \<Rightarrow> nat \<Rightarrow> bool"
    and left :: "'v \<Rightarrow> nat \<Rightarrow> char list"
  assumes moves: "ready v pos \<Longrightarrow> attempt v pos ev = (ret, pos1, v1, out) \<Longrightarrow> pos1 = pos + length out"
    and sent_all: "ready v pos \<Longrightarrow> attempt v pos ev = (UPSGI_OK, pos1, v1, out) \<Longrightarrow> left v pos = out"
    and sent_some: "ready v pos \<Longrightarrow> attempt v pos ev = (UPSGI_AGAIN, pos1, v1, out) \<Longrightarrow>
      ready v1 pos1 \<and> left v pos = out @ left v1 pos1"
    and failed: "ready v pos \<Longrightarrow> attempt v pos ev = (PROTO_ERR, pos1, v1, out) \<Longrightarrow> out = []"
begin

definition exact :: "'v \<Rightarrow> wr_req \<Rightarrow> wr_ret \<times> wr_req \<Rightarrow> bool" where
  "exact v r res \<longleftrightarrow>
     (\<exists>out evs. res = (WR_OK, io_out out 0 evs r) \<and> left v (w_write_pos r) = out) \<or>
     (\<exists>out evs rest. res = (WR_ERR, io_out out 1 evs r) \<and> left v (w_write_pos r) = out @ rest)"

lemma retry_exact: "ready v (w_write_pos r) \<Longrightarrow> exact v r (write_retry attempt v evs r)"
proof (induction evs arbitrary: v r)
  case Nil
  have "write_retry attempt v [] r = (WR_ERR, io_out [] 1 [] r)"
    by (simp add: write_error_def io_out_def)
  then show ?case by (auto simp: exact_def)
next
  case (Cons e evs)
  obtain ev w where e: "e = (ev, w)" by (cases e)
  obtain pret pos v1 out where a: "attempt v (w_write_pos r) ev = (pret, pos, v1, out)"
    using prod_cases4 by blast
  have pos: "pos = w_write_pos r + length out" using moves [OF Cons.prems a] .
  let ?r1 = "io_out out 0 evs r"
  have r1: "r\<lparr>w_write_pos := pos, w_wire := w_wire r @ out, w_evs := evs\<rparr> = ?r1"
    by (simp add: io_out_def pos)
  show ?case
  proof (cases pret)
    case UPSGI_OK
    with a r1 sent_all [OF Cons.prems] show ?thesis by (auto simp: e exact_def)
  next
    case PROTO_ERR
    with a failed [OF Cons.prems] have "out = []" by blast
    with a r1 PROTO_ERR have "write_retry attempt v (e # evs) r = (WR_ERR, io_out [] 1 evs r)"
      by (simp add: e write_error_def io_out_def)
    then show ?thesis by (auto simp: exact_def)
  next
    case UPSGI_AGAIN
    then have s: "ready v1 (w_write_pos ?r1)" "left v (w_write_pos r) = out @ left v1 (w_write_pos ?r1)"
      using sent_some [OF Cons.prems a [unfolded UPSGI_AGAIN]] by (simp_all add: pos)
    show ?thesis
    proof (cases "ev = WAgain \<and> w \<le> 0")
      case True
      with a r1 UPSGI_AGAIN have "write_retry attempt v (e # evs) r = (WR_ERR, io_out out 1 evs r)"
        by (simp add: e write_error_def io_out_def)
      then show ?thesis using s(2) by (auto simp: exact_def)
    next
      case False
      with a r1 UPSGI_AGAIN have "write_retry attempt v (e # evs) r = write_retry attempt v1 evs ?r1"
        by (auto simp: e Let_def)
      with Cons.IH [OF s(1)] s(2) show ?thesis
        by (fastforce simp: exact_def io_out_io_out)
    qed
  qed
qed

end

text \<open>The attempts of the base protocol keep the contract.\<close>

lemma drop_split: "drop p xs = take n (drop p xs) @ drop (p + n) xs"
  using append_take_drop_id [of n "drop p xs"] by (simp add: add.commute)

lemma base_write_result:
  "upsgi_proto_base_write buf pos ev = (ret, pos1, out) \<Longrightarrow>
   pos1 = pos + length out \<and>
   (case ret of
      UPSGI_OK \<Rightarrow> pos < length buf \<and> out = drop pos buf
    | UPSGI_AGAIN \<Rightarrow> drop pos buf = out @ drop pos1 buf \<and> (pos < length buf \<longrightarrow> pos1 < length buf)
    | PROTO_ERR \<Rightarrow> out = [])"
proof (cases ev)
  case (WWrote n)
  assume "upsgi_proto_base_write buf pos ev = (ret, pos1, out)"
  then show ?thesis
    using WWrote by (auto simp: Let_def min_def intro: drop_split split: if_splits)
qed auto

interpretation bw: attempt_writer "buf_attempt upsgi_proto_base_write" "\<lambda>buf pos. pos < length buf" "\<lambda>buf pos. drop pos buf"
  by unfold_locales (auto simp: buf_attempt_def dest!: base_write_result split: prod.splits)

lemma base_writev_failed:
  "upsgi_proto_base_writev iov n pos ev = (PROTO_ERR, pos1, iov1, n1, out) \<Longrightarrow> out = [] \<and> pos1 = pos"
  by (cases ev) (auto simp: Let_def split: if_splits prod.splits)

interpretation bv: attempt_writer "iov_attempt upsgi_proto_base_writev"
  "\<lambda>v pos. snd v \<le> length (fst v) \<and> concat (take (snd v) (fst v)) \<noteq> []" "\<lambda>v pos. concat (take (snd v) (fst v))"
proof
  fix v v1 :: "char list list \<times> nat" and pos ev ret pos1 out
  assume r: "snd v \<le> length (fst v) \<and> concat (take (snd v) (fst v)) \<noteq> []"
  have s: "pos1 = pos + length out \<and>
      (if ret = UPSGI_OK then out = concat (take (snd v) (fst v))
       else ret \<noteq> PROTO_ERR \<longrightarrow> snd v1 \<le> length (fst v1) \<and> concat (take (snd v1) (fst v1)) \<noteq> [] \<and>
         concat (take (snd v) (fst v)) = out @ concat (take (snd v1) (fst v1)))"
    if a: "iov_attempt upsgi_proto_base_writev v pos ev = (ret, pos1, v1, out)" for ret pos1 v1 out
  proof -
    from a have w: "upsgi_proto_base_writev (fst v) (snd v) pos ev = (ret, pos1, fst v1, snd v1, out)"
      by (auto simp: iov_attempt_def split: prod.splits)
    show ?thesis
    proof (cases "ret = PROTO_ERR")
      case True
      with w base_writev_failed show ?thesis by fastforce
    next
      case False
      with writev_step [OF _ w] r show ?thesis by (auto split: if_splits)
    qed
  qed
  show "iov_attempt upsgi_proto_base_writev v pos ev = (ret, pos1, v1, out) \<Longrightarrow> pos1 = pos + length out"
    using s by blast
  show "iov_attempt upsgi_proto_base_writev v pos ev = (UPSGI_OK, pos1, v1, out) \<Longrightarrow>
      concat (take (snd v) (fst v)) = out"
    using s [of UPSGI_OK pos1 v1 out] by simp
  show "iov_attempt upsgi_proto_base_writev v pos ev = (UPSGI_AGAIN, pos1, v1, out) \<Longrightarrow>
      (snd v1 \<le> length (fst v1) \<and> concat (take (snd v1) (fst v1)) \<noteq> []) \<and>
      concat (take (snd v) (fst v)) = out @ concat (take (snd v1) (fst v1))"
    using s [of UPSGI_AGAIN pos1 v1 out] by simp
  show "iov_attempt upsgi_proto_base_writev v pos ev = (PROTO_ERR, pos1, v1, out) \<Longrightarrow> out = []"
    using base_writev_failed by (auto simp: iov_attempt_def split: prod.splits)
qed

text \<open>A file that has the bytes the call promises.\<close>

lemma base_sendfile_result:
  "upsgi_proto_base_sendfile file pos len wp ev = (ret, wp1, out) \<Longrightarrow> pos + len \<le> length file \<Longrightarrow> wp < len \<Longrightarrow>
   wp1 = wp + length out \<and>
   (case ret of
      UPSGI_OK \<Rightarrow> out = take (len - wp) (drop (pos + wp) file)
    | UPSGI_AGAIN \<Rightarrow> wp1 < len \<and> take (len - wp) (drop (pos + wp) file) = out @ take (len - wp1) (drop (pos + wp1) file)
    | PROTO_ERR \<Rightarrow> out = [])"
proof (cases ev)
  case (WWrote n)
  assume a: "upsgi_proto_base_sendfile file pos len wp ev = (ret, wp1, out)" "pos + len \<le> length file" "wp < len"
  let ?d = "drop (pos + wp) file" and ?k = "min n (len - wp)"
  have l: "length (take ?k ?d) = ?k" using a(2,3) by auto
  have split: "take (len - wp) ?d = take ?k ?d @ take (len - (wp + ?k)) (drop (pos + (wp + ?k)) file)"
  proof -
    have "len - wp = ?k + (len - (wp + ?k))" by auto
    then have "take (len - wp) ?d = take (?k + (len - (wp + ?k))) ?d" by (rule arg_cong)
    also have "\<dots> = take ?k ?d @ take (len - (wp + ?k)) (drop ?k ?d)" by (rule take_add)
    also have "drop ?k ?d = drop (pos + (wp + ?k)) file" by (simp only: drop_drop ac_simps)
    finally show ?thesis .
  qed
  show ?thesis
    using a(1) unfolding WWrote upsgi_proto_base_sendfile.simps Let_def l
    using a(3) split l by (auto split: if_splits simp: min_def)
qed auto
section \<open>A response is its headers followed by its body\<close>

definition base_ops :: "proto_ops \<Rightarrow> bool" where
  "base_ops po \<longleftrightarrow> po_write po = upsgi_proto_base_write \<and> po_write_headers po = upsgi_proto_base_write \<and>
     (po_writev po = None \<or> po_writev po = Some upsgi_proto_base_writev)"

lemma base_ops_setups:
  "base_ops (http_setup c p q)" "base_ops (upsgi_setup c p q)" "base_ops scgi_setup"
  "base_ops (scgi_nph_setup c p)" "base_ops (raw_setup c p q)"
  by (simp_all add: base_ops_def http_setup_def upsgi_setup_def scgi_setup_def scgi_nph_setup_def raw_setup_def)

text \<open>The part of a request that building headers leaves alone.\<close>

definition io_eq :: "wr_req \<Rightarrow> wr_req \<Rightarrow> bool" where
  "io_eq r r' \<longleftrightarrow> w_wire r' = w_wire r \<and> w_evs r' = w_evs r \<and> w_write_pos r' = w_write_pos r \<and>
     w_write_errors r' = w_write_errors r \<and> w_response_size r' = w_response_size r \<and>
     w_headers_size r' = w_headers_size r \<and> w_headers_sent r' = w_headers_sent r \<and>
     w_ignore_body r' = w_ignore_body r \<and> w_transformations r' = w_transformations r \<and>
     w_transformed_chunk r' = w_transformed_chunk r"

lemma io_eq_refl [simp]: "io_eq r r"
  by (simp add: io_eq_def)

lemma io_eq_trans: "io_eq a b \<Longrightarrow> io_eq b c \<Longrightarrow> io_eq a c"
  by (simp add: io_eq_def)

lemma append_headers_io: "append_headers cfg hh r = (WR_OK, r') \<Longrightarrow> io_eq r r'"
  by (auto simp: append_headers_def io_eq_def split: c_result.splits)

lemma req_append_io: "req_append cfg var val r = (WR_OK, r') \<Longrightarrow> io_eq r r'"
  by (auto simp: req_append_def io_eq_def split: c_result.splits)

lemma pull_loop_io: "pull_loop cfg hs key val r = Some (WR_OK, r') \<Longrightarrow> io_eq r r'"
  by (induction cfg hs key val r rule: pull_loop.induct) (auto intro: req_append_io split: if_splits)

lemma collect_loop_io: "collect_loop cfg hs key val r = (WR_OK, r') \<Longrightarrow> io_eq r r'"
proof (induction cfg hs key val r rule: collect_loop.induct)
  case (2 cfg h var hs key val r)
  then show ?case
    by (auto intro: io_eq_trans req_append_io split: if_splits prod.splits wr_ret.splits)
qed simp

lemma add_header_io: "upsgi_response_add_header cfg k v r = (WR_OK, r') \<Longrightarrow> io_eq r r'"
proof -
  have add: "upsgi_response_add_header_do cfg k v r = (WR_OK, r') \<Longrightarrow> io_eq r r'" for k v
  proof -
    assume a: "upsgi_response_add_header_do cfg k v r = (WR_OK, r')"
    show ?thesis
    proof (cases "pull_loop cfg (wc_pull_headers cfg) k v r")
      case (Some res)
      with a show ?thesis by (auto simp: upsgi_response_add_header_do_def intro: pull_loop_io)
    next
      case None
      with a obtain r1 r2 where c: "collect_loop cfg (wc_collect_headers cfg) k v r = (WR_OK, r1)"
        and h: "append_headers cfg (po_add_header (wc_ops cfg) (wc_env cfg) k v)
            (r1\<lparr>w_headers := Some (headers_buf cfg r1)\<rparr>) = (WR_OK, r2)"
        and r': "r' = r2\<lparr>w_header_cnt := w_header_cnt r2 + 1\<rparr>"
        by (auto simp: upsgi_response_add_header_do_def split: prod.splits wr_ret.splits)
      from collect_loop_io [OF c] append_headers_io [OF h] show ?thesis by (simp add: io_eq_def r')
    qed
  qed
  then show "upsgi_response_add_header cfg k v r = (WR_OK, r') \<Longrightarrow> io_eq r r'"
    by (auto simp: upsgi_response_add_header_def Let_def split: if_splits)
qed

lemma add_headers_loop_io: "add_headers_loop cfg hs r = (WR_OK, r') \<Longrightarrow> io_eq r r'"
  by (induction cfg hs r rule: add_headers_loop.induct)
    (auto intro: io_eq_trans add_header_io split: prod.splits wr_ret.splits)

text \<open>Adding headers never answers \<open>UPSGI_AGAIN\<close>.\<close>

lemma add_header_not_again: "fst (upsgi_response_add_header cfg key v q) \<noteq> WR_AGAIN"
proof -
  have p: "pull_loop cfg ps k v q = Some res \<Longrightarrow> fst res \<noteq> WR_AGAIN" for ps k v res
    by (induction cfg ps k v q rule: pull_loop.induct)
      (auto simp: req_append_def split: if_splits c_result.splits)
  have c: "fst (collect_loop cfg ps k v q) \<noteq> WR_AGAIN" for ps k v
    by (induction cfg ps k v q rule: collect_loop.induct)
      (auto simp: req_append_def split: if_splits c_result.splits prod.splits wr_ret.splits)
  have a: "fst (append_headers cfg hh q) \<noteq> WR_AGAIN" for hh q
    by (auto simp: append_headers_def split: c_result.splits)
  show ?thesis
    using p c a
    by (auto simp: upsgi_response_add_header_def upsgi_response_add_header_do_def Let_def
        split: option.splits prod.splits wr_ret.splits) (metis fst_conv)+
qed

lemma add_headers_loop_not_again: "fst (add_headers_loop cfg hs q) \<noteq> WR_AGAIN"
proof (induction cfg hs q rule: add_headers_loop.induct)
  case (2 cfg h hs q)
  with add_header_not_again [of cfg "[]" h q] show ?case by (auto split: prod.splits wr_ret.splits)
qed simp

lemma do0_again:
  assumes "upsgi_response_write_headers_do0 cfg r = (WR_AGAIN, r0)" "run_response_routes cfg r = (False, r)"
  shows "io_eq r r0" "\<not> w_headers_sent r" "w_headers r \<noteq> None" "w_response_size r = 0" "w_write_errors r = 0"
proof -
  from assms have c: "\<not> (w_headers_sent r \<or> w_headers r = None \<or> w_response_size r > 0 \<or> w_write_errors r > 0)"
    by (auto simp: upsgi_response_write_headers_do0_def split: if_splits)
  then show "\<not> w_headers_sent r" "w_headers r \<noteq> None" "w_response_size r = 0" "w_write_errors r = 0"
    by auto
  obtain b r1 where l1: "add_headers_loop cfg (wc_additional_headers cfg) r = (b, r1)" by fastforce
  then have b: "b = WR_OK"
    using assms c add_headers_loop_not_again [of cfg "wc_additional_headers cfg" r]
    by (cases b) (auto simp: upsgi_response_write_headers_do0_def)
  obtain d r2 where l2: "add_headers_loop cfg (w_additional_headers r1) r1 = (d, r2)" by fastforce
  then have d: "d = WR_OK"
    using assms c l1 b add_headers_loop_not_again [of cfg "w_additional_headers r1" r1]
    by (cases d) (auto simp: upsgi_response_write_headers_do0_def)
  from assms c l1 l2 b d obtain u where "r0 = r2\<lparr>w_headers := Some u\<rparr>"
    by (auto simp: upsgi_response_write_headers_do0_def split: c_result.splits)
  then have "io_eq r2 r0" by (simp add: io_eq_def)
  with add_headers_loop_io [OF l1 [unfolded b]] add_headers_loop_io [OF l2 [unfolded d]]
  show "io_eq r r0" by (blast intro: io_eq_trans)
qed

text \<open>What one call promises: the message leaves and is counted, or an error is counted and a prefix left.\<close>

definition quiet :: "wr_req \<Rightarrow> bool" where
  "quiet r \<longleftrightarrow> \<not> w_ignore_body r \<and> w_transformations r = [] \<and> w_transformed_chunk r = [] \<and>
     w_write_pos r = 0 \<and> w_write_errors r = 0"

definition sends :: "char list \<Rightarrow> nat \<Rightarrow> nat \<Rightarrow> wr_req \<Rightarrow> wr_ret \<times> wr_req \<Rightarrow> bool" where
  "sends msg h b r res \<longleftrightarrow>
     fst res = WR_OK \<and> w_wire (snd res) = w_wire r @ msg \<and> w_headers_sent (snd res) \<and>
       w_headers_size (snd res) = w_headers_size r + h \<and> w_response_size (snd res) = w_response_size r + b \<and>
       quiet (snd res) \<or>
     fst res = WR_ERR \<and> w_write_errors (snd res) > 0 \<and> (\<exists>rest. w_wire r @ msg = w_wire (snd res) @ rest)"

lemma write_buf_sends:
  assumes "base_ops (wc_ops cfg)" "quiet r" "w_headers_sent r" "buf \<noteq> []"
  shows "sends buf 0 (length buf) r (count_body (write_buf cfg buf r))"
proof -
  have "bw.exact buf r (write_buf cfg buf r)"
    unfolding write_buf_def using assms by (simp add: base_ops_def bw.retry_exact quiet_def)
  with assms(2,3) show ?thesis
    by (auto simp: bw.exact_def sends_def quiet_def count_body_def io_out_def)
qed

lemma write_headers_sends:
  assumes "base_ops (wc_ops cfg)" "quiet r" "run_response_routes cfg r = (False, r)"
    and "upsgi_response_write_headers_do0 cfg r = (WR_AGAIN, r0)" "ub_content (headers_buf cfg r0) \<noteq> []"
  shows "sends (ub_content (headers_buf cfg r0)) (length (ub_content (headers_buf cfg r0))) 0 r
    (upsgi_response_write_headers_do cfg r)"
proof -
  let ?h = "ub_content (headers_buf cfg r0)"
  have e: "io_eq r r0" using do0_again(1) [OF assms(4,3)] .
  have "bw.exact ?h r0 (write_retry (buf_attempt (po_write_headers (wc_ops cfg))) ?h (w_evs r0) r0)"
    using assms(1,2,5) e by (simp add: base_ops_def bw.retry_exact quiet_def io_eq_def)
  then show ?thesis
    using assms(2,4) e
    by (auto simp: bw.exact_def sends_def quiet_def io_eq_def upsgi_response_write_headers_do_def io_out_def)
qed

text \<open>A vectored write of two vectors stops inside the first or inside the second.\<close>

lemma writev_two:
  assumes "upsgi_proto_base_writev [a, b] 2 pos ev = (UPSGI_AGAIN, pos1, iov1, n1, out)" "a \<noteq> []" "b \<noteq> []"
  shows "pos1 = pos + length out \<and>
    (n1 = 2 \<and> iov1 = [drop (length out) a, b] \<and> out = take (length out) a \<and> length out < length a \<or>
     n1 = 1 \<and> (\<exists>k < length b. iov1 ! 0 = drop k b \<and> out = a @ take k b))"
proof (cases ev)
  case (WWrote n)
  have two: "take 2 [a, b] = [a, b]" by simp
  let ?w = "min n (length a + length b)"
  have l: "length (take n (a @ b)) = ?w" by (simp only: length_take length_append min.commute)
  from assms(1) WWrote l have w: "0 < ?w" "?w < length a + length b" "out = take n (a @ b)"
    by (auto simp: two Let_def split: if_splits prod.splits)
  then have n: "?w = n" by simp
  have ln: "length (take n (concat (take 2 [a, b]))) = n" using w n by simp
  have nd: "sum_list (map length (take 2 [a, b])) = length a + length b" by simp
  have res: "upsgi_proto_base_writev [a, b] 2 pos (WWrote n) =
      (case iov_scan [a, b] 0 n 2 of (f, s, m) \<Rightarrow> (UPSGI_AGAIN, pos + n, iov_move [a, b] f 0 s 2, m, take n (a @ b)))"
    unfolding upsgi_proto_base_writev.simps Let_def ln nd using w n by (simp add: two)
  have m0: "iov_move [a, b] 0 0 n 2 = [drop n a, b]" by (simp add: iov_move.simps)
  have m1: "iov_move [a, b] (Suc 0) 0 k 2 = [drop k b, drop k b]" for k by (simp add: iov_move.simps)
  show ?thesis
  proof (cases "length a \<le> n")
    case True
    with w n have sc: "iov_scan [a, b] 0 n 2 = (Suc 0, n - length a, Suc 0)" by auto
    from assms(1) [unfolded WWrote res sc] w n True show ?thesis
      by (auto simp: m1 intro!: exI [of _ "n - length a"])
  next
    case False
    with w n have sc: "iov_scan [a, b] 0 n 2 = (0, n, 2)" by auto
    from assms(1) [unfolded WWrote res sc] w n False show ?thesis
      by (auto simp: m0)
  qed
qed (use assms in auto)

lemma writev_loop_sends:
  assumes "base_ops (wc_ops cfg)" "a \<noteq> []" "b \<noteq> []" "w_headers_size r = 0" "w_response_size r = 0"
    and "\<not> w_ignore_body r" "w_transformations r = []" "w_transformed_chunk r = []" "w_write_errors r = 0"
    and "hlen = w_write_pos r + length a" "hlen + length b < 2 ^ 64"
  shows "sends (a @ b) hlen (length b) r (writev_loop cfg upsgi_proto_base_writev hlen (length b) [a, b] 2 evs r)"
  using assms
proof (induction evs arbitrary: a r)
  case Nil
  then show ?case by (simp add: sends_def write_error_def)
next
  case (Cons e evs)
  obtain ev w where e: "e = (ev, w)" by (cases e)
  obtain ret pos iov1 n1 out where a: "upsgi_proto_base_writev [a, b] 2 (w_write_pos r) ev = (ret, pos, iov1, n1, out)"
    using prod_cases5 by blast
  let ?r1 = "io_out out 0 evs r"
  have cat: "concat (take 2 [a, b]) = a @ b" by simp
  have r1: "r\<lparr>w_write_pos := pos, w_wire := w_wire r @ out, w_evs := evs\<rparr> = ?r1"
    if "pos = w_write_pos r + length out" using that by (simp add: io_out_def)
  show ?case
  proof (cases ret)
    case PROTO_ERR
    with base_writev_failed a have "out = []" "pos = w_write_pos r" by auto
    with a PROTO_ERR show ?thesis by (simp add: e sends_def write_error_def)
  next
    case UPSGI_OK
    with writev_step [OF _ a] Cons.prems(2) cat have o: "out = a @ b" "pos = w_write_pos r + length out" by auto
    with a UPSGI_OK Cons.prems show ?thesis
      by (simp add: e r1 sends_def quiet_def)
  next
    case UPSGI_AGAIN
    note t = writev_two [OF a [unfolded UPSGI_AGAIN] Cons.prems(2,3)]
    show ?thesis
    proof (cases "ev = WAgain \<and> w \<le> 0")
      case True
      with t a UPSGI_AGAIN r1 show ?thesis
        by (auto simp: e sends_def write_error_def Let_def)
    next
      case False
      with a UPSGI_AGAIN r1 t have u: "writev_loop cfg upsgi_proto_base_writev hlen (length b) [a, b] 2 (e # evs) r =
          writev_loop cfg upsgi_proto_base_writev hlen (length b) iov1 n1 evs ?r1"
        by (auto simp: e Let_def)
      from t consider
        (one) "n1 = 2" "iov1 = [drop (length out) a, b]" "out = take (length out) a" "length out < length a"
        | (two) k where "n1 = 1" "k < length b" "iov1 ! 0 = drop k b" "out = a @ take k b" by auto
      then show ?thesis
      proof cases
        case one
        have "sends (drop (length out) a @ b) hlen (length b) ?r1
            (writev_loop cfg upsgi_proto_base_writev hlen (length b) [drop (length out) a, b] 2 evs ?r1)"
          by (rule Cons.IH) (use Cons.prems one(4) in auto)
        moreover have "a = out @ drop (length out) a" using one(3) by (metis append_take_drop_id)
        ultimately show ?thesis
          unfolding u one(1,2) by (auto simp: sends_def) (metis append.assoc)+
      next
        case two
        let ?r2 = "headers_done hlen ?r1"
        have k: "size_sub (w_write_pos r + length a + k) hlen = k" using Cons.prems(10) by simp
        have r2: "w_response_size ?r2 = k" "w_headers_size ?r2 = hlen" "w_headers_sent ?r2" "quiet ?r2"
          "w_wire ?r2 = w_wire r @ a @ take k b"
          using Cons.prems two(2,4) k by (simp_all add: headers_done_def quiet_def Let_def min_def)
        have "writev_loop cfg upsgi_proto_base_writev hlen (length b) iov1 n1 evs ?r1 =
            count_body (write_buf cfg (drop k b) ?r2)"
          using two(1,3) by (cases evs) (auto simp: io_out_def)
        moreover have "sends (drop k b) 0 (length (drop k b)) ?r2 (count_body (write_buf cfg (drop k b) ?r2))"
          by (rule write_buf_sends) (use Cons.prems r2 two in auto)
        ultimately show ?thesis
          unfolding u using r2 two(2) Cons.prems(4,5) by (auto simp: sends_def)
      qed
    qed
  qed
qed

lemma write_body_first:
  assumes "base_ops (wc_ops cfg)" "quiet r" "w_headers_size r = 0" "run_response_routes cfg r = (False, r)"
    and "upsgi_response_write_headers_do0 cfg r = (WR_AGAIN, r0)" "h = ub_content (headers_buf cfg r0)" "h \<noteq> []"
    and "length h + length buf < 2 ^ 64"
  shows "sends (h @ buf) (length h) (length buf) r (upsgi_response_write_body_do cfg buf r)"
proof -
  note d = do0_again [OF assms(5,4)]
  have g: "upsgi_response_write_body_do cfg buf r = write_chunk cfg buf r"
    using assms(2,4) d(2) by (auto simp: upsgi_response_write_body_do_def body_gate_def quiet_def)
  have hs: "sends h (length h) 0 r (upsgi_response_write_headers_do cfg r)"
    unfolding assms(6) by (rule write_headers_sends) (use assms in auto)
  show ?thesis
  proof (cases "buf \<noteq> [] \<and> po_writev (wc_ops cfg) = Some upsgi_proto_base_writev")
    case True
    have "sends (h @ buf) (length h) (length buf) r0
        (writev_loop cfg upsgi_proto_base_writev (length h) (length buf) [h, buf] 2 (w_evs r0) r0)"
      by (rule writev_loop_sends) (use assms True d in \<open>auto simp: io_eq_def quiet_def\<close>)
    moreover have "write_chunk cfg buf r =
        writev_loop cfg upsgi_proto_base_writev (length h) (length buf) [h, buf] 2 (w_evs r0) r0"
      using True d(2,3) assms(5,6)
      by (simp add: write_chunk_def upsgi_response_writev_headers_and_body_do_def Let_def)
    ultimately show ?thesis using d(1) by (simp add: g sends_def io_eq_def)
  next
    case False
    with assms(1) have n: "(if \<not> w_headers_sent r \<and> length buf > 0 \<and> w_headers r \<noteq> None
        then po_writev (wc_ops cfg) else None) = None"
      by (auto simp: base_ops_def)
    obtain ret r1 where w: "upsgi_response_write_headers_do cfg r = (ret, r1)" by fastforce
    show ?thesis
    proof (cases "ret = WR_OK")
      case True
      then have r1: "quiet r1" "w_headers_sent r1" using hs w by (auto simp: sends_def)
      have c: "write_chunk cfg buf r = (if buf = [] then (WR_OK, r1) else count_body (write_buf cfg buf r1))"
        unfolding write_chunk_def n using w True d(2) by (simp add: send_headers_def)
      have "buf \<noteq> [] \<Longrightarrow> sends buf 0 (length buf) r1 (count_body (write_buf cfg buf r1))"
        by (rule write_buf_sends [OF assms(1) r1])
      then show ?thesis
        unfolding g c using hs w True by (auto simp: sends_def)
    next
      case False
      with hs w have e: "ret = WR_ERR" "\<exists>rest. w_wire r @ h = w_wire r1 @ rest" by (auto simp: sends_def)
      have c: "write_chunk cfg buf r = (WR_ERR, write_error r1)"
        unfolding write_chunk_def n using w e(1) d(2) by (simp add: send_headers_def)
      show ?thesis
        unfolding g c using e(2) by (auto simp: sends_def write_error_def) (metis append.assoc)
    qed
  qed
qed

lemma write_body_next:
  assumes "base_ops (wc_ops cfg)" "quiet r" "w_headers_sent r"
  shows "sends buf 0 (length buf) r (upsgi_response_write_body_do cfg buf r)"
proof -
  have "upsgi_response_write_body_do cfg buf r = (if buf = [] then (WR_OK, r) else count_body (write_buf cfg buf r))"
    using assms by (simp add: upsgi_response_write_body_do_def body_gate_def quiet_def write_chunk_def send_headers_def)
  with write_buf_sends [OF assms] assms show ?thesis by (auto simp: sends_def)
qed

lemma write_body_refused:
  "w_write_errors r > 0 \<Longrightarrow> upsgi_response_write_body_do cfg buf r = (WR_ERR, r)"
  by (simp add: upsgi_response_write_body_do_def body_gate_def)

fun write_bodies :: "wr_cfg \<Rightarrow> char list list \<Rightarrow> wr_req \<Rightarrow> wr_ret list \<times> wr_req" where
  "write_bodies cfg [] r = ([], r)"
| "write_bodies cfg (b # bs) r =
     (case upsgi_response_write_body_do cfg b r of (ret, r1) \<Rightarrow>
        (case write_bodies cfg bs r1 of (rets, r2) \<Rightarrow> (ret # rets, r2)))"

lemma write_bodies_refused:
  "w_write_errors r > 0 \<Longrightarrow> write_bodies cfg bs r = (replicate (length bs) WR_ERR, r)"
  by (induction bs) (simp_all add: write_body_refused)

lemma write_bodies_next:
  assumes "base_ops (wc_ops cfg)" "quiet r" "w_headers_sent r" "write_bodies cfg bs r = (rets, r1)"
  shows "(list_all (\<lambda>x. x = WR_OK) rets \<and> w_wire r1 = w_wire r @ concat bs \<and> w_headers_size r1 = w_headers_size r \<and>
      w_response_size r1 = w_response_size r + length (concat bs) \<and> w_headers_sent r1) \<or>
    (\<not> list_all (\<lambda>x. x = WR_OK) rets \<and> w_write_errors r1 > 0 \<and> (\<exists>rest. w_wire r @ concat bs = w_wire r1 @ rest))"
  using assms
proof (induction bs arbitrary: r rets)
  case Nil
  then show ?case by simp
next
  case (Cons b bs)
  obtain ret q where w: "upsgi_response_write_body_do cfg b r = (ret, q)" by fastforce
  obtain rs where l: "write_bodies cfg bs q = (rs, r1)" "rets = ret # rs"
    using Cons.prems(4) w by (auto split: prod.splits)
  have s: "sends b 0 (length b) r (ret, q)" using write_body_next [OF Cons.prems(1-3), of b] w by simp
  show ?case
  proof (cases "ret = WR_OK")
    case True
    with s have q: "quiet q" "w_headers_sent q" "w_wire q = w_wire r @ b" "w_headers_size q = w_headers_size r"
      "w_response_size q = w_response_size r + length b" by (auto simp: sends_def)
    from Cons.IH [OF Cons.prems(1) q(1,2) l(1)] show ?thesis unfolding l(2) using True q by auto
  next
    case False
    with s have q: "w_write_errors q > 0" "\<exists>rest. w_wire r @ b = w_wire q @ rest" by (auto simp: sends_def)
    with write_bodies_refused [OF q(1), of cfg bs] l False show ?thesis
      by auto (metis append.assoc)
  qed
qed

lemma stream_exact:
  assumes "base_ops (wc_ops cfg)" "quiet r" "w_headers_size r = 0" "run_response_routes cfg r = (False, r)"
    and "upsgi_response_write_headers_do0 cfg r = (WR_AGAIN, r0)" "h = ub_content (headers_buf cfg r0)" "h \<noteq> []"
    and "length h + length b < 2 ^ 64" "write_bodies cfg (b # bs) r = (rets, r1)"
  shows "(list_all (\<lambda>x. x = WR_OK) rets \<and> w_wire r1 = w_wire r @ h @ concat (b # bs) \<and> w_headers_sent r1 \<and>
      w_headers_size r1 = length h \<and> w_response_size r1 = length (concat (b # bs))) \<or>
    (\<not> list_all (\<lambda>x. x = WR_OK) rets \<and> w_write_errors r1 > 0 \<and>
      (\<exists>rest. w_wire r @ h @ concat (b # bs) = w_wire r1 @ rest))"
proof -
  obtain ret q where w: "upsgi_response_write_body_do cfg b r = (ret, q)" by fastforce
  obtain rs where l: "write_bodies cfg bs q = (rs, r1)" "rets = ret # rs"
    using assms(9) w by (auto split: prod.splits)
  have s: "sends (h @ b) (length h) (length b) r (ret, q)"
    using write_body_first [OF assms(1-8)] w by simp
  have z: "w_response_size r = 0" using do0_again(4) [OF assms(5,4)] .
  show ?thesis
  proof (cases "ret = WR_OK")
    case True
    with s have q: "quiet q" "w_headers_sent q" "w_wire q = w_wire r @ h @ b" "w_headers_size q = length h"
      "w_response_size q = length b" using assms(3) z by (auto simp: sends_def)
    from write_bodies_next [OF assms(1) q(1,2) l(1)] show ?thesis
      unfolding l(2) using True q by auto
  next
    case False
    with s have q: "w_write_errors q > 0" "\<exists>rest. w_wire r @ h @ b = w_wire q @ rest" by (auto simp: sends_def)
    with write_bodies_refused [OF q(1), of cfg bs] l False show ?thesis
      by auto (metis append.assoc)
  qed
qed

text \<open>C20: however the kernel cuts the writes, what leaves through the socket is the headers followed by the
  body chunks in the order of the calls, each byte once: when every call succeeds all of it has left and
  the counters for headers and body are exact; after a failed call the request is marked, what left is a
  prefix of it, and no later call sends anything.\<close>

theorem response_stream:
  assumes "base_ops (wc_ops cfg)" "quiet r" "w_headers_size r = 0" "run_response_routes cfg r = (False, r)"
    and "upsgi_response_write_headers_do0 cfg r = (WR_AGAIN, r0)" "h = ub_content (headers_buf cfg r0)" "h \<noteq> []"
    and "length h + length b < 2 ^ 64" "write_bodies cfg (b # bs) r = (rets, r1)"
  shows "(list_all (\<lambda>x. x = WR_OK) rets \<and> w_wire r1 = w_wire r @ h @ concat (b # bs) \<and> w_headers_sent r1 \<and>
      w_headers_size r1 = length h \<and> w_response_size r1 = length (concat (b # bs))) \<or>
    (\<not> list_all (\<lambda>x. x = WR_OK) rets \<and> w_write_errors r1 > 0 \<and>
      (\<exists>rest. w_wire r @ h @ concat (b # bs) = w_wire r1 @ rest))"
  by (rule stream_exact [OF assms])

section \<open>The text of the headers\<close>

definition header_text :: "char list \<times> char list \<Rightarrow> char list" where
  "header_text h = fst h @ '': '' @ snd h @ [CHR 0x0D, CHR 0x0A]"

text \<open>Nothing is removed, pulled or collected, and the header routes do nothing.\<close>

definition plain_cfg :: "wr_cfg \<Rightarrow> bool" where
  "plain_cfg cfg \<longleftrightarrow> wc_pull_headers cfg = [] \<and> wc_collect_headers cfg = [] \<and> wc_remove_headers cfg = [] \<and>
     wc_additional_headers cfg = [] \<and> wc_error_routes cfg = Pair False \<and> wc_response_routes cfg = Pair False"

definition plain_line :: "char list \<times> char list \<Rightarrow> bool" where
  "plain_line h \<longleftrightarrow> fst h \<noteq> [] \<and> length (fst h) < 65536 \<and> length (snd h) < 65536"

text \<open>A request whose headers hold the text \<open>t\<close> and of which nothing has been sent; \<open>w\<close> left before it.\<close>

definition has_head :: "char list \<Rightarrow> char list \<Rightarrow> wr_req \<Rightarrow> bool" where
  "has_head w t r \<longleftrightarrow> quiet r \<and> \<not> headers_closed r \<and> w_remove_headers r = [] \<and> w_additional_headers r = [] \<and>
     w_wire r = w \<and> (\<exists>b. w_headers r = Some b \<and> ub_inv b \<and> ub_content b = t)"

lemma append_headers_head:
  assumes "append_headers cfg hh r = (WR_OK, r1)" "has_head w t r"
  shows "\<exists>u. hh = Ok u \<and> has_head w (t @ ub_content u) r1"
proof -
  from assms(2) obtain b where b: "w_headers r = Some b" "ub_inv b" "ub_content b = t" by (auto simp: has_head_def)
  from assms(1) b(1) obtain u b1 where "hh = Ok u" "upsgi_buffer_append (wc_env cfg) b (ub_content u) = Ok b1"
    "r1 = r\<lparr>w_headers := Some b1\<rparr>"
    by (auto simp: append_headers_def headers_buf_def split: c_result.splits)
  moreover from this ub.app_ok [OF b(2)] have "ub_inv b1 \<and> ub_content b1 = t @ ub_content u" using b(3) by auto
  ultimately show ?thesis using assms(2) by (auto simp: has_head_def quiet_def headers_closed_def)
qed

lemma add_header_head:
  assumes "plain_cfg cfg" "po_add_header (wc_ops cfg) = upsgi_proto_base_add_header"
    and "has_head w t r" "plain_line h" "upsgi_response_add_header cfg (fst h) (snd h) r = (WR_OK, r1)"
  shows "has_head w (t @ header_text h) r1"
proof -
  from assms(3) obtain b where b: "w_headers r = Some b" by (auto simp: has_head_def)
  then have "r\<lparr>w_headers := Some (headers_buf cfg r)\<rparr> = r" by (cases r) (simp add: headers_buf_def)
  with assms obtain r2 where a: "append_headers cfg (upsgi_proto_base_add_header (wc_env cfg) (fst h) (snd h)) r = (WR_OK, r2)"
    and r1: "r1 = r2\<lparr>w_header_cnt := w_header_cnt r2 + 1\<rparr>"
    by (auto simp: upsgi_response_add_header_def upsgi_response_add_header_do_def plain_cfg_def plain_line_def
        has_head_def split: prod.splits wr_ret.splits if_splits)
  from append_headers_head [OF a assms(3)] upsgi_proto_base_add_header_exact [of "wc_env cfg" "fst h" "snd h"] assms(4)
  have "has_head w (t @ header_text h) r2" by (auto simp: plain_line_def header_text_def)
  then show ?thesis by (simp add: r1 has_head_def quiet_def headers_closed_def)
qed

fun add_all :: "wr_cfg \<Rightarrow> (char list \<times> char list) list \<Rightarrow> wr_req \<Rightarrow> wr_ret \<times> wr_req" where
  "add_all cfg [] r = (WR_OK, r)"
| "add_all cfg (h # hs) r =
     (case upsgi_response_add_header cfg (fst h) (snd h) r of
        (WR_OK, r1) \<Rightarrow> add_all cfg hs r1
      | bad \<Rightarrow> bad)"

lemma add_all_head:
  assumes "plain_cfg cfg" "po_add_header (wc_ops cfg) = upsgi_proto_base_add_header"
  shows "has_head w t r \<Longrightarrow> list_all plain_line hs \<Longrightarrow> add_all cfg hs r = (WR_OK, r1) \<Longrightarrow>
    has_head w (t @ concat (map header_text hs)) r1"
proof (induction hs arbitrary: t r)
  case (Cons h hs)
  from Cons.prems(3) obtain r2 where s: "upsgi_response_add_header cfg (fst h) (snd h) r = (WR_OK, r2)"
    "add_all cfg hs r2 = (WR_OK, r1)" by (auto split: prod.splits wr_ret.splits)
  have "has_head w (t @ header_text h) r2"
    by (rule add_header_head [OF assms Cons.prems(1) _ s(1)]) (use Cons.prems(2) in simp)
  from Cons.IH [OF this _ s(2)] Cons.prems(2) show ?case by simp
qed simp

lemma base_prepare_text:
  assumes "protocol \<noteq> []"
  shows "\<exists>u. upsgi_proto_base_prepare_headers env False protocol s = Ok u \<and>
    ub_content u = protocol @ '' '' @ u16_arg s @ [CHR 0x0D, CHR 0x0A]"
proof -
  have "upsgi_proto_base_prepare_headers env False protocol s =
      sink_all (upsgi_buffer_append env) (upsgi_buffer_new env (length protocol + 1 + length (u16_arg s) + 2))
        [protocol, '' '', u16_arg s, [CHR 0x0D, CHR 0x0A]]"
    using assms by (cases "upsgi_buffer_append env (upsgi_buffer_new env (length protocol + 1 + length (u16_arg s) + 2)) protocol")
      (simp_all add: upsgi_proto_base_prepare_headers_def Let_def)
  with sink_new_exact [of "[protocol, '' '', u16_arg s, [CHR 0x0D, CHR 0x0A]]"
      "length protocol + 1 + length (u16_arg s) + 2" env]
  show ?thesis by auto
qed

text \<open>A request nothing has been done with.\<close>

definition fresh_response :: "wr_req \<Rightarrow> bool" where
  "fresh_response r \<longleftrightarrow> quiet r \<and> \<not> headers_closed r \<and> w_headers r = None \<and>
     w_remove_headers r = [] \<and> w_additional_headers r = []"

lemma prepare_head:
  assumes "plain_cfg cfg" "wc_ops cfg = http_setup False protocol off" "protocol \<noteq> []" "fresh_response r"
    and "length (status_line st) < 65536" "length st < 65536" "upsgi_response_prepare_headers cfg st r = (WR_OK, r1)"
  shows "has_head (w_wire r) (protocol @ '' '' @ status_line st @ [CHR 0x0D, CHR 0x0A]) r1"
proof -
  let ?r = "r\<lparr>w_headers := Some ((headers_buf cfg r)\<lparr>ub_pos := 0\<rparr>), w_header_cnt := 0, w_status := upsgi_str3_num st\<rparr>"
  let ?q = "if w_is_error_routing ?r then ?r else ?r\<lparr>w_is_error_routing := False\<rparr>"
  from assms obtain q where "append_headers cfg (upsgi_proto_base_prepare_headers (wc_env cfg) False protocol (status_line st)) q = (WR_OK, r1)"
    "q = ?r \<or> q = ?r\<lparr>w_is_error_routing := False\<rparr>"
    by (auto simp: upsgi_response_prepare_headers_def plain_cfg_def http_setup_def Let_def
        split: if_splits)
  moreover from this have "has_head (w_wire r) [] q"
    using assms(4) by (auto simp: has_head_def fresh_response_def quiet_def headers_closed_def ub_inv_def ub_content_def)
  ultimately show ?thesis
    using append_headers_head base_prepare_text [OF assms(3), of "wc_env cfg" "status_line st"] assms(5) by fastforce
qed

lemma do0_head:
  assumes "plain_cfg cfg" "po_fix_headers (wc_ops cfg) = upsgi_proto_base_fix_headers" "has_head w t r"
    and "upsgi_response_write_headers_do0 cfg r = (WR_AGAIN, r0)"
  shows "ub_content (headers_buf cfg r0) = t @ [CHR 0x0D, CHR 0x0A]"
proof -
  from assms(3) obtain b where b: "w_headers r = Some b" "ub_inv b" "ub_content b = t" by (auto simp: has_head_def)
  from assms obtain q u where q: "q = r \<or> q = r\<lparr>w_is_response_routing := False\<rparr>"
    and u: "upsgi_buffer_append (wc_env cfg) (headers_buf cfg q) [CHR 0x0D, CHR 0x0A] = Ok u" "r0 = q\<lparr>w_headers := Some u\<rparr>"
    by (auto simp: upsgi_response_write_headers_do0_def run_response_routes_def plain_cfg_def has_head_def
        upsgi_proto_base_fix_headers_def split: if_splits c_result.splits)
  from q b(1) have "headers_buf cfg q = b" by (auto simp: headers_buf_def)
  with u ub.app_ok [OF b(2)] b(3) show ?thesis by (auto simp: headers_buf_def)
qed

text \<open>An application's response: status, headers, body chunks.\<close>

definition respond ::
    "wr_cfg \<Rightarrow> char list \<Rightarrow> (char list \<times> char list) list \<Rightarrow> char list list \<Rightarrow> wr_req \<Rightarrow> wr_ret list \<times> wr_req" where
  "respond cfg st hs bs r =
     (case upsgi_response_prepare_headers cfg st r of
        (WR_OK, r1) \<Rightarrow>
          (case add_all cfg hs r1 of
             (WR_OK, r2) \<Rightarrow> write_bodies cfg bs r2
           | (ret, r2) \<Rightarrow> ([ret], r2))
      | (ret, r1) \<Rightarrow> ([ret], r1))"

definition response_text ::
    "char list \<Rightarrow> char list \<Rightarrow> (char list \<times> char list) list \<Rightarrow> char list list \<Rightarrow> char list" where
  "response_text protocol st hs bs =
     protocol @ '' '' @ status_line st @ [CHR 0x0D, CHR 0x0A] @ concat (map header_text hs) @
     [CHR 0x0D, CHR 0x0A] @ concat bs"

lemma run_routes_inert: "plain_cfg cfg \<Longrightarrow> run_response_routes cfg r = (False, r)"
  by (cases r) (simp add: run_response_routes_def plain_cfg_def)

text \<open>A body write that succeeds has sent the headers: completing them did not fail.\<close>

lemma write_body_needs_headers:
  assumes "plain_cfg cfg" "has_head w t r" "fst (upsgi_response_write_body_do cfg b r) = WR_OK"
  shows "\<exists>r0. upsgi_response_write_headers_do0 cfg r = (WR_AGAIN, r0)"
proof -
  obtain x r0 where d: "upsgi_response_write_headers_do0 cfg r = (x, r0)" by fastforce
  have "x \<noteq> WR_OK"
    using d assms(1,2) run_routes_inert [OF assms(1)]
    by (auto simp: upsgi_response_write_headers_do0_def has_head_def headers_closed_def plain_cfg_def split: if_splits c_result.splits)
  moreover have "upsgi_response_write_body_do cfg b r = write_chunk cfg b r"
    using assms(2) run_routes_inert [OF assms(1)]
    by (auto simp: upsgi_response_write_body_do_def body_gate_def has_head_def quiet_def)
  ultimately have "x = WR_AGAIN"
    using assms(2,3) d
    by (cases x) (auto simp: write_chunk_def send_headers_def upsgi_response_write_headers_do_def
        upsgi_response_writev_headers_and_body_do_def has_head_def headers_closed_def split: option.splits if_splits)
  with d show ?thesis by simp
qed

text \<open>C5: a response is on the wire what the application asked for: when every call of an HTTP response
  (status, headers, body chunks) reports success, the bytes that left are the status line with the
  protocol of the request, one line per header in the order of the calls, the empty line, and the
  chunks, whatever the kernel did with the single writes.\<close>

theorem response_message:
  assumes "plain_cfg cfg" "wc_ops cfg = http_setup False protocol off" "protocol \<noteq> []" "fresh_response r"
    and "length (status_line st) < 65536" "length st < 65536"
    and "list_all plain_line hs" "length (response_text protocol st hs (b # bs)) < 2 ^ 64"
    and "respond cfg st hs (b # bs) r = (rets, r1)" "list_all (\<lambda>x. x = WR_OK) rets"
  shows "w_wire r1 = w_wire r @ response_text protocol st hs (b # bs)"
proof -
  obtain r2 r3 where p: "upsgi_response_prepare_headers cfg st r = (WR_OK, r2)"
    and a: "add_all cfg hs r2 = (WR_OK, r3)" and w: "write_bodies cfg (b # bs) r3 = (rets, r1)"
    using assms(9,10) by (auto simp: respond_def split: prod.splits wr_ret.splits)
  let ?t = "protocol @ '' '' @ status_line st @ [CHR 0x0D, CHR 0x0A]"
  have po: "po_add_header (wc_ops cfg) = upsgi_proto_base_add_header" "po_fix_headers (wc_ops cfg) = upsgi_proto_base_fix_headers"
    "base_ops (wc_ops cfg)"
    using assms(2) by (simp_all add: http_setup_def base_ops_def)
  have "has_head (w_wire r) ?t r2" by (rule prepare_head [OF assms(1-6) p])
  from add_all_head [OF assms(1) po(1) this assms(7) a]
  have h: "has_head (w_wire r) (?t @ concat (map header_text hs)) r3" .
  then have q: "quiet r3" "w_headers_size r3 = 0" "w_wire r3 = w_wire r" by (auto simp: has_head_def headers_closed_def)
  from w assms(10) have ok: "fst (upsgi_response_write_body_do cfg b r3) = WR_OK" by (auto split: prod.splits)
  obtain r0 where d: "upsgi_response_write_headers_do0 cfg r3 = (WR_AGAIN, r0)"
    using write_body_needs_headers [OF assms(1) h ok] by blast
  let ?h = "?t @ concat (map header_text hs) @ [CHR 0x0D, CHR 0x0A]"
  have c: "?h = ub_content (headers_buf cfg r0)" using do0_head [OF assms(1) po(2) h d] by simp
  have l: "length ?h + length b < 2 ^ 64" using assms(8) by (simp add: response_text_def)
  show ?thesis
    using stream_exact [OF po(3) q(1,2) run_routes_inert [OF assms(1)] d c _ l w] assms(10) q(3)
    by (auto simp: response_text_def)
qed

section \<open>Files\<close>

interpretation bf: attempt_writer "buf_attempt (\<lambda>file. upsgi_proto_base_sendfile file pos len)"
  "\<lambda>file wp. pos + len \<le> length file \<and> wp < len" "\<lambda>file wp. take (len - wp) (drop (pos + wp) file)" for pos len
  by unfold_locales (auto simp: buf_attempt_def dest!: base_sendfile_result split: prod.splits)

text \<open>C34: a part of a file that is sent behind the headers leaves exactly once and is counted, or an error is
  counted and a prefix left; in both cases the descriptor is closed once.\<close>

theorem sendfile_exact:
  assumes "po_sendfile (wc_ops cfg) = upsgi_proto_base_sendfile" "\<not> po_can_offload (wc_ops cfg)"
    and "quiet r" "w_headers_sent r" "0 < len" "pos + len \<le> length file"
  shows "sends (take len (drop pos file)) 0 len r
      (upsgi_response_sendfile_do cfg file st_size dup_ok offload_ok pos len False r) \<and>
    w_closed (snd (upsgi_response_sendfile_do cfg file st_size dup_ok offload_ok pos len False r)) = w_closed r + 1"
proof -
  let ?q = "r\<lparr>w_via := ViaSendfile\<rparr>"
  have e: "bf.exact len pos file ?q (write_retry (buf_attempt (\<lambda>file. upsgi_proto_base_sendfile file pos len)) file (w_evs r) ?q)"
    by (rule bf.retry_exact) (use assms(3,5,6) in \<open>auto simp: quiet_def\<close>)
  have "upsgi_response_sendfile_do cfg file st_size dup_ok offload_ok pos len False r =
      (case write_retry (buf_attempt (\<lambda>file. upsgi_proto_base_sendfile file pos len)) file (w_evs r) ?q of
         (WR_ERR, r2) \<Rightarrow> (WR_ERR, close_fd True r2)
       | (WR_OK, r2) \<Rightarrow>
           (WR_OK, close_fd True (r2\<lparr>w_response_size := w_response_size r2 + w_write_pos r2, w_write_pos := 0\<rparr>))
       | res \<Rightarrow> res)"
    using assms by (simp add: upsgi_response_sendfile_do_def upsgi_response_sendfile_do_can_close_def
        quiet_def send_headers_def sendfile_len_def)
  with e assms(3-6) show ?thesis
    by (auto simp: bf.exact_def sends_def quiet_def close_fd_def io_out_def)
qed

lemma sendfile_past_end:
  "wp + pos \<le> length file \<Longrightarrow> length file < pos + len \<Longrightarrow> upsgi_proto_base_sendfile file pos len wp ev = (ret, wp1, out) \<Longrightarrow>
   ret \<noteq> UPSGI_OK \<and> wp1 + pos \<le> length file"
  by (cases ev) (auto simp: Let_def min_def split: if_splits)

lemma sendfile_past_end_retry:
  "w_write_pos r + pos \<le> length file \<Longrightarrow> length file < pos + len \<Longrightarrow>
   fst (write_retry (buf_attempt (\<lambda>file. upsgi_proto_base_sendfile file pos len)) file evs r) = WR_ERR"
proof (induction evs arbitrary: r)
  case (Cons e evs)
  obtain ev w ret wp1 out where e: "e = (ev, w)"
    and s: "upsgi_proto_base_sendfile file pos len (w_write_pos r) ev = (ret, wp1, out)"
    by (metis surj_pair)
  from sendfile_past_end [OF Cons.prems s] have n: "ret \<noteq> UPSGI_OK" "wp1 + pos \<le> length file" by auto
  show ?case
    using n Cons.IH [of "r\<lparr>w_write_pos := wp1, w_wire := w_wire r @ out, w_evs := evs\<rparr>"] Cons.prems(2) s
    by (cases ret) (auto simp: e buf_attempt_def Let_def)
qed simp

text \<open>a file that is sent from an offset to its end (length 0) always fails: the length taken is that of
  the whole file, so the writer asks for bytes behind its end and reports an error although everything
  was sent.\<close>

theorem sendfile_offset_fails:
  assumes "po_sendfile (wc_ops cfg) = upsgi_proto_base_sendfile" "\<not> po_can_offload (wc_ops cfg)"
    and "quiet r" "w_headers_sent r" "0 < pos" "pos < length file"
  shows "fst (upsgi_response_sendfile_do cfg file (Some (length file)) dup_ok offload_ok pos 0 own r) = WR_ERR"
proof -
  have "fst (write_retry (buf_attempt (\<lambda>f. upsgi_proto_base_sendfile f pos (length file))) file (w_evs r)
      (r\<lparr>w_via := ViaSendfile\<rparr>)) = WR_ERR"
    by (rule sendfile_past_end_retry) (use assms in \<open>auto simp: quiet_def\<close>)
  with assms show ?thesis
    by (auto simp: upsgi_response_sendfile_do_def upsgi_response_sendfile_do_can_close_def quiet_def
        send_headers_def sendfile_len_def split: prod.splits)
qed

section \<open>Vectors without a vectored write\<close>

text \<open>on a protocol without vectored writes, the second of two vectors is not sent from its start: the
  position is not reset between them, so the front of the second vector, as long as the first one, is
  skipped, the call succeeds, and the counted size is that of the second vector alone.\<close>

theorem writev_body_skips:
  assumes "po_write (wc_ops cfg) = upsgi_proto_base_write" "po_writev (wc_ops cfg) = None"
    and "quiet r" "w_headers_sent r" "a \<noteq> []" "length a < length b"
    and "w_evs r = [(WWrote (length a), 1), (WWrote (length b), 1)]"
  shows "\<exists>r1. upsgi_response_writev_body_do cfg [a, b] r = (WR_OK, r1) \<and>
    w_wire r1 = w_wire r @ a @ drop (length a) b \<and> w_response_size r1 = w_response_size r + length b"
  using assms
  by (simp add: upsgi_response_writev_body_do_def body_gate_def quiet_def send_headers_def
      write_buf_def buf_attempt_def Let_def count_body_def)

text \<open>The vectors behind the first one that a transformation sends are not transformed.\<close>

lemma transform_iov_first_only:
  assumes "w_transformed_chunk r = []" "w_transformations r \<noteq> []" "upsgi_apply_transformations cfg v r = (TrSend, r1)"
  shows "transform_iov cfg [] (v # vs) False r = (None, w_transformed_chunk r1 # vs, r1\<lparr>w_transformed_chunk := []\<rparr>)"
  using assms by simp

section \<open>Witnesses\<close>

definition wr_cfg0 :: wr_cfg where
  "wr_cfg0 = \<lparr>wc_env = env0\<lparr>page_size := 8, realloc_ok := \<lambda>_. True\<rparr>, wc_ops = http_setup False ''HTTP/1.1'' False,
     wc_header_limit = 0, wc_vec_size = 100, wc_pull_headers = [], wc_collect_headers = [],
     wc_remove_headers = [], wc_additional_headers = [], wc_error_routes = Pair False,
     wc_response_routes = Pair False, wc_transform = (\<lambda>_ r ut. (True, r, ut)),
     wc_gmtime = (\<lambda>_. \<lparr>tm_sec = 0, tm_min = 0, tm_hour = 0, tm_mday = 1, tm_mon = 0, tm_year = 70, tm_wday = 4\<rparr>)\<rparr>"

definition wr_req0 :: "(wr_ev \<times> int) list \<Rightarrow> wr_req" where
  "wr_req0 evs = \<lparr>w_headers = None, w_header_cnt = 0, w_headers_size = 0, w_headers_sent = False,
     w_response_size = 0, w_write_pos = 0, w_write_errors = 0, w_ignore_body = False, w_status = 0,
     w_is_error_routing = False, w_is_response_routing = False, w_transformations = [],
     w_transformed_chunk = [], w_remove_headers = [], w_additional_headers = [],
     w_append = \<lparr>ap_pkt = \<lparr>pkt_buffer = [], pkt_len = 0\<rparr>, ap_hvec = [], ap_path_info = [],
       ap_path_info_len = 0, ap_remains = [], ap_remains_copied = False\<rparr>,
     w_via = ViaNone, w_closed = 0, w_wire = [], w_evs = evs\<rparr>"

definition wr_evs0 :: "(wr_ev \<times> int) list" where
  "wr_evs0 = [(WWrote 5, 0), (WAgain, 1), (WWrote 100, 0)]"

lemma respond0: "fst (respond wr_cfg0 ''200'' [] [''x''] (wr_req0 wr_evs0)) = [WR_OK]"
  by (simp add: respond_def upsgi_response_prepare_headers_def wr_cfg0_def wr_req0_def wr_evs0_def headers_closed_def
      headers_buf_def upsgi_buffer_new_def fresh_block_def env0_def http_setup_def status_line_def
      upsgi_http_status_msg_def hsc_def upsgi_str3_num_def append_headers_def upsgi_proto_base_prepare_headers_def
      upsgi_buffer_append_def ub_memcpy_def ub_advance_def mem_write_def ub_content_def ub_realloc_def Let_def
      upsgi_response_write_body_do_def body_gate_def run_response_routes_def write_chunk_def
      upsgi_response_writev_headers_and_body_do_def upsgi_response_write_headers_do0_def
      upsgi_proto_base_fix_headers_def iov_move.simps headers_done_def write_buf_def buf_attempt_def count_body_def)

theorem response_message_witness:
  "\<exists>rets r1. respond wr_cfg0 ''200'' [] [''x''] (wr_req0 wr_evs0) = (rets, r1) \<and>
     w_wire r1 = w_wire (wr_req0 wr_evs0) @ response_text ''HTTP/1.1'' ''200'' [] [''x'']"
proof -
  obtain rets r1 where r: "respond wr_cfg0 ''200'' [] [''x''] (wr_req0 wr_evs0) = (rets, r1)"
    by fastforce
  have "w_wire r1 = w_wire (wr_req0 wr_evs0) @ response_text ''HTTP/1.1'' ''200'' [] [''x'']"
  proof (rule response_message [OF _ _ _ _ _ _ _ _ r])
    show "list_all (\<lambda>x. x = WR_OK) rets" using respond0 r by simp
  qed (simp_all add: plain_cfg_def wr_cfg0_def fresh_response_def wr_req0_def quiet_def headers_closed_def
      status_line_def upsgi_http_status_msg_def hsc_def plain_line_def response_text_def header_text_def)
  with r show ?thesis by blast
qed

theorem sendfile_exact_witness:
  "sends (take 2 (drop 1 ''abcd'')) 0 2 ((wr_req0 wr_evs0)\<lparr>w_headers_sent := True\<rparr>)
     (upsgi_response_sendfile_do wr_cfg0 ''abcd'' None True True 1 2 False ((wr_req0 wr_evs0)\<lparr>w_headers_sent := True\<rparr>))"
  using sendfile_exact [of wr_cfg0 "(wr_req0 wr_evs0)\<lparr>w_headers_sent := True\<rparr>" 2 1 "''abcd''" None True True]
  by (simp add: wr_cfg0_def http_setup_def quiet_def wr_req0_def)

theorem sendfile_offset_fails_witness:
  "fst (upsgi_response_sendfile_do wr_cfg0 ''abcd'' (Some (length ''abcd'')) True True 1 0 True
     ((wr_req0 wr_evs0)\<lparr>w_headers_sent := True\<rparr>)) = WR_ERR"
  by (rule sendfile_offset_fails) (simp_all add: wr_cfg0_def http_setup_def quiet_def wr_req0_def)

theorem writev_body_skips_witness:
  "\<exists>r1. upsgi_response_writev_body_do (wr_cfg0\<lparr>wc_ops := raw_setup False [] False\<rparr>) [''ab'', ''cdef'']
       ((wr_req0 [(WWrote (length ''ab''), 1), (WWrote (length ''cdef''), 1)])\<lparr>w_headers_sent := True\<rparr>) = (WR_OK, r1) \<and>
     w_wire r1 = ''abef''"
  using writev_body_skips [where cfg = "wr_cfg0\<lparr>wc_ops := raw_setup False [] False\<rparr>" and a = "''ab''" and b = "''cdef''"
      and r = "(wr_req0 [(WWrote (length ''ab''), 1), (WWrote (length ''cdef''), 1)])\<lparr>w_headers_sent := True\<rparr>"]
  by (auto simp: raw_setup_def http_setup_def quiet_def wr_req0_def)

theorem response_stream_witness:
  "\<exists>r1. write_bodies wr_cfg0 [''x''] ((wr_req0 wr_evs0)\<lparr>w_headers := Some ub_ex\<rparr>) = ([WR_OK], r1) \<and>
     w_wire r1 = ''ab'' @ [CHR 0x0D, CHR 0x0A] @ ''x'' \<and> w_headers_size r1 = 4 \<and> w_response_size r1 = 1"
proof -
  let ?r = "(wr_req0 wr_evs0)\<lparr>w_headers := Some ub_ex\<rparr>"
  let ?u = "\<lparr>ub_buf = ''ab'' @ [CHR 0x0D, CHR 0x0A] @ replicate 7 (CHR 0x00), ub_pos = 4, ub_limit = 0\<rparr>"
  have d: "upsgi_response_write_headers_do0 wr_cfg0 ?r = (WR_AGAIN, ?r\<lparr>w_headers := Some ?u\<rparr>)"
    by (simp add: upsgi_response_write_headers_do0_def wr_req0_def wr_cfg0_def env0_def run_response_routes_def
        headers_buf_def http_setup_def upsgi_proto_base_fix_headers_def ub_ex_def upsgi_buffer_append_def
        ub_realloc_def fresh_block_def ub_memcpy_def mem_write_def ub_advance_def Let_def eval_nat_numeral)
  have h: "ub_content (headers_buf wr_cfg0 (?r\<lparr>w_headers := Some ?u\<rparr>)) = ''ab'' @ [CHR 0x0D, CHR 0x0A]"
    by (simp add: headers_buf_def ub_content_def)
  obtain rets r1 where w: "write_bodies wr_cfg0 [''x''] ?r = (rets, r1)" by fastforce
  have q: "quiet ?r" "w_headers_size ?r = 0" "run_response_routes wr_cfg0 ?r = (False, ?r)" "base_ops (wc_ops wr_cfg0)"
    by (simp_all add: quiet_def wr_req0_def run_response_routes_def wr_cfg0_def base_ops_setups)
  have ok: "rets = [WR_OK]"
    using w d h q
    by (simp add: upsgi_response_write_body_do_def body_gate_def write_chunk_def wr_cfg0_def http_setup_def
        upsgi_response_writev_headers_and_body_do_def wr_req0_def wr_evs0_def iov_move.simps Let_def
        run_response_routes_def headers_done_def write_buf_def buf_attempt_def count_body_def)
  show ?thesis
    using response_stream [OF q(4,1,2,3) d h [symmetric] _ _ w] ok w by (auto simp: wr_req0_def)
qed

end
