(* ===== verification/Upsgi_Websocket.thy ===== *)
theory Upsgi_Websocket
  imports Upsgi_Writer
begin

text \<open>
  Websockets, \<open>core/websockets.c\<close>: the frames the server sends, the state machine that receives
  frames (phase 0 the two first bytes, phase 1 the extended length, phase 2 and 3 the mask, phase 4
  the payload), fragmented messages, ping and pong, and the handshake.

  \<open>ws_req\<close> is the websocket part of a request, with its response side (\<open>Upsgi_Writer\<close>) and what the
  socket will deliver; \<open>ws_srv\<close> is the part of the server's state the code uses, which is shared by
  all connections: the buffer in which fragments are collected.  The receive loop is partial
  (\<open>None\<close> would be a loop that does not end); that it returns is a theorem.
\<close>

section \<open>State\<close>

record ws_srv =
  wv_continuation :: "upsgi_buffer option"

record ws_req =
  ws_out :: wr_req
  ws_buf :: "upsgi_buffer option"
  ws_send_buf :: "upsgi_buffer option"
  ws_need :: nat
  ws_phase :: nat
  ws_opcode :: "8 word"
  ws_is_fin :: bool
  ws_has_mask :: bool
  ws_size :: nat
  ws_pktsize :: nat
  ws_last_ping :: int
  ws_last_pong :: int
  ws_closed :: bool
  ws_remains :: "char list"
  ws_reads :: "read_ev list"
  ws_waits :: "int list"
  ws_ticks :: nat

text \<open>The options, the writer's configuration and the clock: \<open>upsgi_now\<close> answers \<open>wsc_clock t\<close> at its
  \<open>t\<close>-th call.\<close>

record ws_cfg =
  wsc_wr :: wr_cfg
  wsc_ping_freq :: int
  wsc_pong_tolerance :: int
  wsc_max_size :: nat
  wsc_clock :: "nat \<Rightarrow> int"

abbreviation wsc_env :: "ws_cfg \<Rightarrow> mem_env" where
  "wsc_env cfg \<equiv> wc_env (wsc_wr cfg)"

definition upsgi_websockets_init :: "ws_cfg \<Rightarrow> ws_cfg \<times> ws_srv" where
  "upsgi_websockets_init cfg =
     (cfg\<lparr>wsc_ping_freq := 30, wsc_pong_tolerance := 3, wsc_max_size := 1024\<rparr>, \<lparr>wv_continuation = None\<rparr>)"

definition ws_pong_frame :: "char list" where "ws_pong_frame = [CHR 0x8A, CHR 0x00]"
definition ws_ping_frame :: "char list" where "ws_ping_frame = [CHR 0x89, CHR 0x00]"
definition ws_close_frame :: "char list" where "ws_close_frame = [CHR 0x88, CHR 0x00]"

section \<open>Sending\<close>

definition upsgi_websocket_message ::
    "ws_cfg \<Rightarrow> char list \<Rightarrow> 8 word \<Rightarrow> ws_req \<Rightarrow> upsgi_buffer c_result" where
  "upsgi_websocket_message cfg msg opcode r =
     (let env = wsc_env cfg; len = length msg;
          ub = (case ws_send_buf r of None \<Rightarrow> upsgi_buffer_new env (10 + len) | Some b \<Rightarrow> b\<lparr>ub_pos := 0\<rparr>)
      in
      c_bind (upsgi_buffer_u8 env ub opcode) (\<lambda>u1.
      c_bind (if len < 126 then upsgi_buffer_u8 env u1 (of_nat len)
              else if len \<le> 0xffff then
                c_bind (upsgi_buffer_u8 env u1 126) (\<lambda>u2. upsgi_buffer_u16be env u2 (of_nat len))
              else c_bind (upsgi_buffer_u8 env u1 127) (\<lambda>u2. upsgi_buffer_u64be env u2 (of_nat len))) (\<lambda>u3.
        upsgi_buffer_append env u3 msg)))"

definition ws_write :: "ws_cfg \<Rightarrow> char list \<Rightarrow> ws_req \<Rightarrow> wr_ret \<times> ws_req" where
  "ws_write cfg d r =
     (case upsgi_response_write_body_do (wsc_wr cfg) d (ws_out r) of (ret, o1) \<Rightarrow> (ret, r\<lparr>ws_out := o1\<rparr>))"

definition ws_now :: "ws_cfg \<Rightarrow> ws_req \<Rightarrow> int \<times> ws_req" where
  "ws_now cfg r = (wsc_clock cfg (ws_ticks r), r\<lparr>ws_ticks := ws_ticks r + 1\<rparr>)"

text \<open>These answer whether the call failed.\<close>

definition upsgi_websockets_ping :: "ws_cfg \<Rightarrow> ws_req \<Rightarrow> bool \<times> ws_req" where
  "upsgi_websockets_ping cfg r =
     (case ws_write cfg ws_ping_frame r of (ret, r1) \<Rightarrow>
        if ret \<noteq> WR_OK then (True, r1)
        else (case ws_now cfg r1 of (now, r2) \<Rightarrow> (False, r2\<lparr>ws_last_ping := now\<rparr>)))"

definition upsgi_websockets_pong :: "ws_cfg \<Rightarrow> ws_req \<Rightarrow> bool \<times> ws_req" where
  "upsgi_websockets_pong cfg r = (case ws_write cfg ws_pong_frame r of (ret, r1) \<Rightarrow> (ret \<noteq> WR_OK, r1))"

definition upsgi_websockets_close :: "ws_cfg \<Rightarrow> ws_req \<Rightarrow> bool \<times> ws_req" where
  "upsgi_websockets_close cfg r = (case ws_write cfg ws_close_frame r of (ret, r1) \<Rightarrow> (ret \<noteq> WR_OK, r1))"

definition upsgi_websockets_check_pingpong :: "ws_cfg \<Rightarrow> ws_req \<Rightarrow> bool \<times> ws_req" where
  "upsgi_websockets_check_pingpong cfg r0 =
     (case ws_now cfg r0 of (now, r) \<Rightarrow>
        if ws_last_ping r = 0 then upsgi_websockets_ping cfg r
        else if ws_last_pong r < ws_last_ping r then
          (now - ws_last_ping r > wsc_pong_tolerance cfg, r)
        else if now - ws_last_ping r \<ge> wsc_ping_freq cfg then upsgi_websockets_ping cfg r
        else (False, r))"

definition upsgi_websocket_send_do :: "ws_cfg \<Rightarrow> char list \<Rightarrow> 8 word \<Rightarrow> ws_req \<Rightarrow> wr_ret \<times> ws_req" where
  "upsgi_websocket_send_do cfg msg opcode r =
     (case upsgi_websocket_message cfg msg opcode r of
        Ok u \<Rightarrow> ws_write cfg (ub_content u) (r\<lparr>ws_send_buf := Some u\<rparr>)
      | Err u \<Rightarrow> (WR_ERR, r\<lparr>ws_send_buf := Some u\<rparr>)
      | Fault \<Rightarrow> (WR_FAULT, r))"

definition ws_send_op :: "ws_cfg \<Rightarrow> 8 word \<Rightarrow> char list \<Rightarrow> ws_req \<Rightarrow> wr_ret \<times> ws_req" where
  "ws_send_op cfg opcode msg r =
     (if ws_closed r then (WR_ERR, r)
      else (case upsgi_websocket_send_do cfg msg opcode r of
              (WR_ERR, r1) \<Rightarrow> (WR_ERR, r1\<lparr>ws_closed := True\<rparr>)
            | res \<Rightarrow> res))"

definition upsgi_websocket_send :: "ws_cfg \<Rightarrow> char list \<Rightarrow> ws_req \<Rightarrow> wr_ret \<times> ws_req" where
  "upsgi_websocket_send cfg = ws_send_op cfg 0x81"

definition upsgi_websocket_send_binary :: "ws_cfg \<Rightarrow> char list \<Rightarrow> ws_req \<Rightarrow> wr_ret \<times> ws_req" where
  "upsgi_websocket_send_binary cfg = ws_send_op cfg 0x82"

section \<open>Parsing a frame\<close>

text \<open>The bytes 0 and 1 of the buffer.\<close>

definition upsgi_websocket_parse_header :: "upsgi_buffer \<Rightarrow> ws_req \<Rightarrow> ws_req option" where
  "upsgi_websocket_parse_header b r =
     (if ub_len b < 2 then None
      else
       (let byte1 = b8 (ub_buf b ! 0); byte2 = b8 (ub_buf b ! 1) in
        Some (r\<lparr>ws_is_fin := drop_bit 7 byte1 \<noteq> 0, ws_opcode := byte1 AND 0xf,
                ws_has_mask := drop_bit 7 byte2 \<noteq> 0, ws_size := unat (byte2 AND 0x7f)\<rparr>)))"

definition xor_char :: "char \<Rightarrow> char \<Rightarrow> char" where
  "xor_char a b = byte_of 0 (b8 a XOR b8 b)"

text \<open>\<open>ptr[i] = ptr[i] ^ mask[i % 4]\<close> from index \<open>i\<close> on.\<close>

fun unmask :: "char list \<Rightarrow> nat \<Rightarrow> char list \<Rightarrow> char list" where
  "unmask m i [] = []"
| "unmask m i (c # cs) = xor_char c (m ! (i mod 4)) # unmask m (i + 1) cs"

datatype ws_res = WsNull | WsMsg "char list" | WsFault

text \<open>The end of \<open>upsgi_websockets_parse\<close>: \<open>ub\<close> holds the payload.  A frame that is not the last one of
  its message gives the caller a message of one zero byte.\<close>

definition ws_finish ::
    "ws_cfg \<Rightarrow> upsgi_buffer \<Rightarrow> upsgi_buffer \<Rightarrow> ws_srv \<Rightarrow> ws_req \<Rightarrow> ws_res \<times> ws_srv \<times> ws_req" where
  "ws_finish cfg b ub g r =
     (case upsgi_buffer_decapitate b (ws_pktsize r) of
        Ok b1 \<Rightarrow>
          (let r1 = r\<lparr>ws_buf := Some b1, ws_phase := 0, ws_need := 2\<rparr> in
           if ws_is_fin r then (WsMsg (ub_content ub), g\<lparr>wv_continuation := None\<rparr>, r1)
           else
             (case upsgi_buffer_append (wsc_env cfg) (upsgi_buffer_new (wsc_env cfg) 1) [CHR 0x00] of
                Fault \<Rightarrow> (WsFault, g, r1)
              | Ok z \<Rightarrow> (WsMsg (ub_content z), g\<lparr>wv_continuation := Some ub\<rparr>, r1)
              | Err z \<Rightarrow> (WsMsg (ub_content z), g\<lparr>wv_continuation := Some ub\<rparr>, r1)))
      | Err b1 \<Rightarrow> (WsNull, g\<lparr>wv_continuation := None\<rparr>, r\<lparr>ws_buf := Some b1\<rparr>)
      | Fault \<Rightarrow> (WsFault, g, r))"

text \<open>A continuation without a predecessor takes the error path with \<open>ub\<close> still \<open>NULL\<close>, and
  \<open>upsgi_buffer_destroy\<close> reads through it: a fault.\<close>

definition upsgi_websockets_parse ::
    "ws_cfg \<Rightarrow> upsgi_buffer \<Rightarrow> ws_srv \<Rightarrow> ws_req \<Rightarrow> ws_res \<times> ws_srv \<times> ws_req" where
  "upsgi_websockets_parse cfg b g r =
     (let off = ws_pktsize r - ws_size r; sz = ws_size r in
      if ws_pktsize r < sz \<or> off + sz > ub_len b \<or> (ws_has_mask r \<and> off < 4) then (WsFault, g, r)
      else
       (let raw = take sz (drop off (ub_buf b));
            payload = (if ws_has_mask r then unmask (take 4 (drop (off - 4) (ub_buf b))) 0 raw else raw);
            b1 = b\<lparr>ub_buf := take off (ub_buf b) @ payload @ drop (off + sz) (ub_buf b)\<rparr>;
            r1 = r\<lparr>ws_buf := Some b1\<rparr> in
        case (if ws_opcode r = 0 then wv_continuation g
              else Some (upsgi_buffer_new (wsc_env cfg) sz)) of
          None \<Rightarrow> (WsFault, g, r1)
        | Some ub \<Rightarrow>
            (case upsgi_buffer_append (wsc_env cfg) ub payload of
               Ok u \<Rightarrow> ws_finish cfg b1 u g r1
             | Err u \<Rightarrow> (WsNull, g\<lparr>wv_continuation := None\<rparr>, r1)
             | Fault \<Rightarrow> (WsFault, g, r1))))"

section \<open>Receiving\<close>

datatype ws_pkt = WGot "char list" | WNothing | WFail

definition ws_read :: "nat \<Rightarrow> ws_req \<Rightarrow> read_ret \<times> ws_req" where
  "ws_read n r =
     (case upsgi_proto_base_read_body n (ws_remains r) (ws_reads r) of
        (ret, rem1, evs1) \<Rightarrow> (ret, r\<lparr>ws_remains := rem1, ws_reads := evs1\<rparr>))"

text \<open>The loop of \<open>upsgi_websockets_recv_pkt\<close>; it comes back only after a wait that timed out.  When the
  script of the waits is used up the wait fails.\<close>

fun recv_pkt_loop :: "ws_cfg \<Rightarrow> bool \<Rightarrow> nat \<Rightarrow> int list \<Rightarrow> ws_req \<Rightarrow> ws_pkt \<times> ws_req" where
  "recv_pkt_loop cfg nb n ws r =
     (case ws_read n r of
        (Got d, r1) \<Rightarrow> (if d = [] then WFail else WGot d, r1)
      | (ReadFail, r1) \<Rightarrow> (WFail, r1)
      | (WouldBlock, r1) \<Rightarrow>
          if nb then
            (case upsgi_websockets_check_pingpong cfg r1 of (bad, r2) \<Rightarrow> (if bad then WFail else WNothing, r2))
          else
            (case ws of
               [] \<Rightarrow> (WFail, r1)
             | w # ws1 \<Rightarrow>
                 (let r2 = r1\<lparr>ws_waits := ws1\<rparr> in
                  if w > 0 then
                    (case ws_read n r2 of
                       (Got d, r3) \<Rightarrow> (if d = [] then WFail else WGot d, r3)
                     | (_, r3) \<Rightarrow> (WFail, r3))
                  else if w < 0 then (WFail, r2)
                  else
                    (case upsgi_websockets_check_pingpong cfg r2 of (bad, r3) \<Rightarrow>
                       if bad then (WFail, r3) else recv_pkt_loop cfg nb n ws1 r3))))"

declare recv_pkt_loop.simps [simp del]

definition upsgi_websockets_recv_pkt :: "ws_cfg \<Rightarrow> bool \<Rightarrow> upsgi_buffer \<Rightarrow> ws_req \<Rightarrow> ws_pkt \<times> ws_req" where
  "upsgi_websockets_recv_pkt cfg nb b r = recv_pkt_loop cfg nb (size_sub (ub_len b) (ub_pos b)) (ws_waits r) r"

datatype ws_iter = WsNext ws_srv ws_req | WsDone ws_res ws_srv ws_req

definition ws_phase0 :: "upsgi_buffer \<Rightarrow> ws_srv \<Rightarrow> ws_req \<Rightarrow> ws_iter" where
  "ws_phase0 b g r =
     (case upsgi_websocket_parse_header b r of
        None \<Rightarrow> WsDone WsFault g r
      | Some r1 \<Rightarrow>
          (let r2 = r1\<lparr>ws_pktsize := 2 + (if ws_has_mask r1 then 4 else 0)\<rparr> in
           WsNext g
             (if ws_size r2 = 126 then
                r2\<lparr>ws_need := ws_need r2 + 2, ws_phase := 1, ws_pktsize := ws_pktsize r2 + 2\<rparr>
              else if ws_size r2 = 127 then
                r2\<lparr>ws_need := ws_need r2 + 8, ws_phase := 1, ws_pktsize := ws_pktsize r2 + 8\<rparr>
              else r2\<lparr>ws_phase := 2\<rparr>)))"

definition ws_phase1 :: "ws_cfg \<Rightarrow> upsgi_buffer \<Rightarrow> ws_srv \<Rightarrow> ws_req \<Rightarrow> ws_iter" where
  "ws_phase1 cfg b g r =
     (let ext = (if ws_size r = 126 then Some (2, upsgi_be16 (drop 2 (ub_buf b)))
                 else if ws_size r = 127 then Some (8, upsgi_be64 (drop 2 (ub_buf b)))
                 else None) in
      case ext of
        None \<Rightarrow> WsDone WsNull g r
      | Some (n, sz) \<Rightarrow>
          if ub_len b < 2 + n then WsDone WsFault g r
          else
           (let r1 = r\<lparr>ws_size := sz\<rparr> in
            if sz > wsc_max_size cfg * 1024 mod 2 ^ 64 then WsDone WsNull g r1
            else WsNext g (r1\<lparr>ws_phase := 2\<rparr>)))"

definition ws_phase2 :: "ws_srv \<Rightarrow> ws_req \<Rightarrow> ws_iter" where
  "ws_phase2 g r =
     (if ws_has_mask r then WsNext g (r\<lparr>ws_need := ws_need r + 4, ws_phase := 3\<rparr>)
      else WsNext g (r\<lparr>ws_need := size_add (ws_need r) (ws_size r),
                       ws_pktsize := size_add (ws_pktsize r) (ws_size r), ws_phase := 4\<rparr>))"

definition ws_phase3 :: "ws_srv \<Rightarrow> ws_req \<Rightarrow> ws_iter" where
  "ws_phase3 g r =
     WsNext g (r\<lparr>ws_pktsize := size_add (ws_pktsize r) (ws_size r),
                 ws_need := size_add (ws_need r) (ws_size r), ws_phase := 4\<rparr>)"

definition ws_skip :: "upsgi_buffer \<Rightarrow> ws_srv \<Rightarrow> ws_req \<Rightarrow> ws_iter" where
  "ws_skip b g r =
     (let r1 = r\<lparr>ws_phase := 0, ws_need := 2\<rparr> in
      case upsgi_buffer_decapitate b (ws_pktsize r) of
        Ok b1 \<Rightarrow> WsNext g (r1\<lparr>ws_buf := Some b1\<rparr>)
      | Err b1 \<Rightarrow> WsDone WsNull g (r1\<lparr>ws_buf := Some b1\<rparr>)
      | Fault \<Rightarrow> WsDone WsFault g r1)"

definition ws_phase4 :: "ws_cfg \<Rightarrow> upsgi_buffer \<Rightarrow> ws_srv \<Rightarrow> ws_req \<Rightarrow> ws_iter" where
  "ws_phase4 cfg b g r =
     (if ws_opcode r \<le> 2 then
        (case upsgi_websockets_parse cfg b g r of (res, g1, r1) \<Rightarrow> WsDone res g1 r1)
      else if ws_opcode r = 8 then
        (case upsgi_websockets_close cfg r of (_, r1) \<Rightarrow> WsDone WsNull g r1)
      else if ws_opcode r = 9 then
        (case upsgi_websockets_pong cfg r of (bad, r1) \<Rightarrow>
           if bad then WsDone WsNull g r1 else ws_skip b g r1)
      else if ws_opcode r = 10 then
        (case ws_now cfg r of (now, r1) \<Rightarrow> ws_skip b g (r1\<lparr>ws_last_pong := now\<rparr>))
      else ws_skip b g r)"

definition ws_parse_step :: "ws_cfg \<Rightarrow> upsgi_buffer \<Rightarrow> ws_srv \<Rightarrow> ws_req \<Rightarrow> ws_iter" where
  "ws_parse_step cfg b g r =
     (if ws_phase r = 0 then ws_phase0 b g r
      else if ws_phase r = 1 then ws_phase1 cfg b g r
      else if ws_phase r = 2 then ws_phase2 g r
      else if ws_phase r = 3 then ws_phase3 g r
      else if ws_phase r = 4 then ws_phase4 cfg b g r
      else WsDone WsNull g r)"

definition ws_fill_step :: "ws_cfg \<Rightarrow> bool \<Rightarrow> upsgi_buffer \<Rightarrow> ws_srv \<Rightarrow> ws_req \<Rightarrow> ws_iter" where
  "ws_fill_step cfg nb b g r =
     (case upsgi_buffer_ensure (wsc_env cfg) b (page_size (wsc_env cfg)) of
        Err u \<Rightarrow> WsDone WsNull g (r\<lparr>ws_buf := Some u\<rparr>)
      | Fault \<Rightarrow> WsDone WsFault g r
      | Ok u \<Rightarrow>
          (case upsgi_websockets_recv_pkt cfg nb u (r\<lparr>ws_buf := Some u\<rparr>) of
             (WGot d, r1) \<Rightarrow>
               (case ub_memcpy u (ub_pos u) d of
                  Ok u1 \<Rightarrow> WsNext g (r1\<lparr>ws_buf := Some (u1\<lparr>ub_pos := ub_pos u1 + length d\<rparr>)\<rparr>)
                | _ \<Rightarrow> WsDone WsFault g r1)
           | (WNothing, r1) \<Rightarrow> WsDone (if nb then WsMsg [] else WsNull) g r1
           | (WFail, r1) \<Rightarrow> WsDone WsNull g r1))"

definition ws_start :: "ws_cfg \<Rightarrow> ws_req \<Rightarrow> ws_req" where
  "ws_start cfg r =
     (case ws_buf r of
        None \<Rightarrow> r\<lparr>ws_buf := Some (upsgi_buffer_new (wsc_env cfg) (page_size (wsc_env cfg))), ws_need := 2\<rparr>
      | Some _ \<Rightarrow> r)"

definition ws_iterate :: "ws_cfg \<Rightarrow> bool \<Rightarrow> ws_srv \<Rightarrow> ws_req \<Rightarrow> ws_iter" where
  "ws_iterate cfg nb g r =
     (case ws_buf r of
        None \<Rightarrow> WsDone WsFault g r
      | Some b \<Rightarrow> if ub_pos b \<ge> ws_need r then ws_parse_step cfg b g r else ws_fill_step cfg nb b g r)"

partial_function (option) ws_loop ::
    "ws_cfg \<Rightarrow> bool \<Rightarrow> ws_srv \<Rightarrow> ws_req \<Rightarrow> (ws_res \<times> ws_srv \<times> ws_req) option" where
  "ws_loop cfg nb g r =
     (case ws_iterate cfg nb g r of
        WsNext g1 r1 \<Rightarrow> ws_loop cfg nb g1 r1
      | WsDone res g1 r1 \<Rightarrow> Some (res, g1, r1))"

definition upsgi_websocket_recv_do ::
    "ws_cfg \<Rightarrow> bool \<Rightarrow> ws_srv \<Rightarrow> ws_req \<Rightarrow> (ws_res \<times> ws_srv \<times> ws_req) option" where
  "upsgi_websocket_recv_do cfg nb g r = ws_loop cfg nb g (ws_start cfg r)"

definition clear_continuation_buffer :: "ws_srv \<Rightarrow> ws_srv" where
  "clear_continuation_buffer g = g\<lparr>wv_continuation := None\<rparr>"

definition ws_recv_op ::
    "bool \<Rightarrow> ws_cfg \<Rightarrow> ws_srv \<Rightarrow> ws_req \<Rightarrow> (ws_res \<times> ws_srv \<times> ws_req) option" where
  "ws_recv_op nb cfg g r =
     (if ws_closed r then Some (WsNull, g, r)
      else map_option (\<lambda>(res, g1, r1).
             if res = WsNull then (WsNull, clear_continuation_buffer g1, r1\<lparr>ws_closed := True\<rparr>)
             else (res, g1, r1)) (upsgi_websocket_recv_do cfg nb g r))"

definition upsgi_websocket_recv ::
    "ws_cfg \<Rightarrow> ws_srv \<Rightarrow> ws_req \<Rightarrow> (ws_res \<times> ws_srv \<times> ws_req) option" where
  "upsgi_websocket_recv = ws_recv_op False"

definition upsgi_websocket_recv_nb ::
    "ws_cfg \<Rightarrow> ws_srv \<Rightarrow> ws_req \<Rightarrow> (ws_res \<times> ws_srv \<times> ws_req) option" where
  "upsgi_websocket_recv_nb = ws_recv_op True"

definition upsgi_websockets_simple_send :: "ws_cfg \<Rightarrow> upsgi_buffer \<Rightarrow> wr_ev \<Rightarrow> ws_req \<Rightarrow> proto_ret \<times> ws_req" where
  "upsgi_websockets_simple_send cfg ub ev r =
     (case po_write (wc_ops (wsc_wr cfg)) (ub_content ub) (w_write_pos (ws_out r)) ev of
        (ret, pos, out) \<Rightarrow>
          (if w_write_errors (ws_out r) > 0 then PROTO_ERR else ret,
           r\<lparr>ws_out := (ws_out r)\<lparr>w_write_pos := pos, w_wire := w_wire (ws_out r) @ out\<rparr>\<rparr>))"

section \<open>The handshake\<close>

text \<open>\<open>sha1\<close> stands for the digest of the TLS library, \<open>None\<close> when it fails; the fields of the request
  are its key, origin and protocol headers.\<close>

record ws_headers =
  wh_key :: "char list"
  wh_origin :: "char list"
  wh_protocol :: "char list"

definition ws_guid :: string where
  "ws_guid = ''258EAFA5-E914-47DA-95CA-C5AB0DC85B11''"

definition upsgi_websocket_handshake ::
    "ws_cfg \<Rightarrow> (char list \<Rightarrow> char list option) \<Rightarrow> ws_headers \<Rightarrow> char list \<Rightarrow> char list \<Rightarrow> char list \<Rightarrow> ws_req \<Rightarrow>
     wr_ret \<times> ws_req" where
  "upsgi_websocket_handshake cfg sha1 h k0 o0 p0 r =
     (let wc = wsc_wr cfg; key = (if k0 = [] then wh_key h else u16_arg k0);
          add = (\<lambda>n v res. case res of (WR_OK, q) \<Rightarrow> upsgi_response_add_header wc n v q | _ \<Rightarrow> res);
          fail = (\<lambda>res. (WR_ERR, r\<lparr>ws_out := snd res\<rparr>)) in
      if key = [] then (WR_ERR, r)
      else
       (let h1 = upsgi_response_prepare_headers wc ''101 Web Socket Protocol Handshake'' (ws_out r);
            h2 = add ''Connection'' ''Upgrade'' (add ''Upgrade'' ''WebSocket'' h1);
            h3 = add ''Sec-WebSocket-Origin''
                   (if wh_origin h \<noteq> [] \<or> o0 \<noteq> [] then (if o0 = [] then wh_origin h else o0) else ''*'') h2;
            h4 = (if wh_protocol h \<noteq> [] \<or> p0 \<noteq> []
                  then add ''Sec-WebSocket-Protocol'' (if p0 = [] then wh_protocol h else p0) h3 else h3) in
        if fst h4 = WR_FAULT then (WR_FAULT, r)
        else if fst h4 \<noteq> WR_OK then fail h4
        else
         (case sha1 (key @ ws_guid) of
            None \<Rightarrow> fail h4
          | Some digest \<Rightarrow>
              (let h5 = add ''Sec-WebSocket-Accept'' (upsgi_base64_encode (take 20 digest)) h4 in
               if fst h5 = WR_FAULT then (WR_FAULT, r)
               else if fst h5 \<noteq> WR_OK then fail h5
               else
                (case ws_now cfg (r\<lparr>ws_out := snd h5\<rparr>) of (now, r1) \<Rightarrow>
                  (case upsgi_response_write_headers_do wc (ws_out r1) of (ret, o1) \<Rightarrow>
                     (ret, r1\<lparr>ws_last_pong := now, ws_out := o1\<rparr>)))))))"

section \<open>The invariant of the receiver\<close>

text \<open>The largest payload: 125 bytes without an extended length, else the option.\<close>

definition ws_cap :: "ws_cfg \<Rightarrow> nat" where
  "ws_cap cfg = max 125 (wsc_max_size cfg * 1024 mod 2 ^ 64)"

abbreviation ws_mask_len :: "ws_req \<Rightarrow> nat" where
  "ws_mask_len r \<equiv> (if ws_has_mask r then 4 else 0)"

definition ws_shape :: "ws_cfg \<Rightarrow> ws_req \<Rightarrow> bool" where
  "ws_shape cfg r \<longleftrightarrow>
     ws_phase r = 0 \<and> ws_need r = 2 \<or>
     ws_phase r = 1 \<and> (ws_size r = 126 \<and> ws_need r = 4 \<or> ws_size r = 127 \<and> ws_need r = 10) \<and>
       ws_pktsize r = ws_need r + ws_mask_len r \<or>
     ws_phase r = 2 \<and> 2 \<le> ws_need r \<and> ws_need r \<le> 10 \<and> ws_pktsize r = ws_need r + ws_mask_len r \<and>
       ws_size r \<le> ws_cap cfg \<or>
     ws_phase r = 3 \<and> ws_has_mask r \<and> 6 \<le> ws_need r \<and> ws_need r \<le> 14 \<and> ws_pktsize r = ws_need r \<and>
       ws_size r \<le> ws_cap cfg \<or>
     ws_phase r = 4 \<and> ws_need r = ws_pktsize r \<and> 2 + ws_mask_len r + ws_size r \<le> ws_pktsize r \<and>
       ws_pktsize r \<le> ws_cap cfg + 14"

definition ws_inv :: "ws_cfg \<Rightarrow> ws_req \<Rightarrow> bool" where
  "ws_inv cfg r \<longleftrightarrow> ws_shape cfg r \<and> \<not> ws_closed r \<and> (\<exists>b. ws_buf r = Some b \<and> ub_inv b \<and> ub_limit b = 0)"

definition srv_inv :: "ws_srv \<Rightarrow> bool" where
  "srv_inv g \<longleftrightarrow> (\<forall>c. wv_continuation g = Some c \<longrightarrow> ub_inv c)"

text \<open>The option leaves room for the header in a \<open>size_t\<close>.\<close>

definition ws_cfg_ok :: "ws_cfg \<Rightarrow> bool" where
  "ws_cfg_ok cfg \<longleftrightarrow> ws_cap cfg + 14 + page_size (wsc_env cfg) < 2 ^ 64"

definition ws_io :: "ws_req \<Rightarrow> nat" where
  "ws_io r = length (ws_remains r) + sum_list (map (\<lambda>e. Suc (length (ev_data e))) (ws_reads r))"

lemma inv_open: "ws_inv cfg r \<Longrightarrow> \<not> ws_closed r"
  by (simp add: ws_inv_def)

lemma need_le: "ws_cfg_ok cfg \<Longrightarrow> ws_shape cfg r \<Longrightarrow> ws_need r \<le> ws_cap cfg + 14"
  by (auto simp: ws_shape_def)

lemma ws_write_frame:
  "ws_write cfg d r = (ret, r1) \<Longrightarrow> \<exists>o1. r1 = r\<lparr>ws_out := o1\<rparr>"
  by (auto simp: ws_write_def split: prod.splits)

text \<open>Answering leaves the receiver alone.\<close>

definition same_rx :: "ws_req \<Rightarrow> ws_req \<Rightarrow> bool" where
  "same_rx r r' \<longleftrightarrow> ws_buf r' = ws_buf r \<and> ws_need r' = ws_need r \<and> ws_phase r' = ws_phase r \<and>
     ws_opcode r' = ws_opcode r \<and> ws_is_fin r' = ws_is_fin r \<and> ws_has_mask r' = ws_has_mask r \<and>
     ws_size r' = ws_size r \<and> ws_pktsize r' = ws_pktsize r \<and> ws_closed r' = ws_closed r \<and>
     ws_remains r' = ws_remains r \<and> ws_reads r' = ws_reads r"

lemma same_rx_trans: "same_rx a b \<Longrightarrow> same_rx b c \<Longrightarrow> same_rx a c"
  by (simp add: same_rx_def)

lemma ping_same: "upsgi_websockets_ping cfg r = (bad, r1) \<Longrightarrow> same_rx r r1"
  by (auto simp: upsgi_websockets_ping_def ws_now_def same_rx_def split: prod.splits if_splits dest!: ws_write_frame)

lemma pong_same: "upsgi_websockets_pong cfg r = (bad, r1) \<Longrightarrow> same_rx r r1"
  by (auto simp: upsgi_websockets_pong_def same_rx_def split: prod.splits dest!: ws_write_frame)

lemma pingpong_same: "upsgi_websockets_check_pingpong cfg r = (bad, r1) \<Longrightarrow> same_rx r r1"
  by (auto simp: upsgi_websockets_check_pingpong_def ws_now_def split: if_splits dest!: ping_same)
    (auto simp: same_rx_def)

lemma same_rx_inv: "same_rx r r1 \<Longrightarrow> ws_inv cfg r \<Longrightarrow> ws_inv cfg r1"
  by (simp add: same_rx_def ws_inv_def ws_shape_def)

section \<open>Reading\<close>

definition rx_frame :: "ws_req \<Rightarrow> ws_req \<Rightarrow> bool" where
  "rx_frame r r' \<longleftrightarrow> ws_buf r' = ws_buf r \<and> ws_need r' = ws_need r \<and> ws_phase r' = ws_phase r \<and>
     ws_opcode r' = ws_opcode r \<and> ws_is_fin r' = ws_is_fin r \<and> ws_has_mask r' = ws_has_mask r \<and>
     ws_size r' = ws_size r \<and> ws_pktsize r' = ws_pktsize r \<and> ws_closed r' = ws_closed r"

lemma rx_frame_trans: "rx_frame a b \<Longrightarrow> rx_frame b c \<Longrightarrow> rx_frame a c"
  by (simp add: rx_frame_def)

lemma same_rx_frame: "same_rx r r1 \<Longrightarrow> rx_frame r r1 \<and> ws_io r1 = ws_io r"
  by (simp add: same_rx_def rx_frame_def ws_io_def)

lemma ws_read_result:
  "ws_read n r = (ret, r1) \<Longrightarrow> rx_frame r r1 \<and> ws_io r1 \<le> ws_io r \<and>
   (\<forall>d. ret = Got d \<longrightarrow> length d \<le> n \<and> (d \<noteq> [] \<longrightarrow> ws_io r1 < ws_io r))"
proof -
  have s: "sock_read n evs = (ret, evs1) \<Longrightarrow>
      sum_list (map (\<lambda>e. Suc (length (ev_data e))) evs1) \<le> sum_list (map (\<lambda>e. Suc (length (ev_data e))) evs) \<and>
      (\<forall>d. ret = Got d \<longrightarrow> length d \<le> n \<and> (d \<noteq> [] \<longrightarrow>
        sum_list (map (\<lambda>e. Suc (length (ev_data e))) evs1) < sum_list (map (\<lambda>e. Suc (length (ev_data e))) evs)))" for evs evs1
    by (cases "(n, evs)" rule: sock_read.cases) (auto split: if_splits)
  assume "ws_read n r = (ret, r1)"
  then show ?thesis
    using s by (auto simp: ws_read_def upsgi_proto_base_read_body_def rx_frame_def ws_io_def split: prod.splits if_splits)
      (fastforce+)?
qed

lemma recv_pkt_loop_result:
  "recv_pkt_loop cfg nb n ws r = (ret, r1) \<Longrightarrow> rx_frame r r1 \<and> ws_io r1 \<le> ws_io r \<and>
   (\<forall>d. ret = WGot d \<longrightarrow> d \<noteq> [] \<and> length d \<le> n \<and> ws_io r1 < ws_io r)"
proof (induction ws arbitrary: r ret r1)
  case Nil
  obtain x q where x: "ws_read n r = (x, q)" by fastforce
  from Nil x ws_read_result [OF x] show ?case
    by (auto simp: recv_pkt_loop.simps [of cfg nb n "[]"] split: read_ret.splits if_splits prod.splits
        dest!: pingpong_same same_rx_frame intro: rx_frame_trans)
next
  case (Cons w ws)
  obtain x q where x: "ws_read n r = (x, q)" by fastforce
  note rx = ws_read_result [OF x]
  let ?q = "q\<lparr>ws_waits := ws\<rparr>"
  have q: "rx_frame q ?q" "ws_io ?q = ws_io q" by (simp_all add: rx_frame_def ws_io_def)
  show ?case
  proof (cases "x = WouldBlock \<and> \<not> nb")
    case False
    with Cons.prems x rx show ?thesis
      by (auto simp: recv_pkt_loop.simps [of cfg nb n "w # ws"] split: read_ret.splits if_splits prod.splits
          dest!: pingpong_same same_rx_frame intro: rx_frame_trans)
  next
    case True
    obtain y s where y: "ws_read n ?q = (y, s)" by fastforce
    obtain bad t where t: "upsgi_websockets_check_pingpong cfg ?q = (bad, t)" by fastforce
    have tf: "rx_frame ?q t" "ws_io t = ws_io ?q" using same_rx_frame [OF pingpong_same [OF t]] by auto
    have u: "recv_pkt_loop cfg nb n (w # ws) r =
        (if w > 0 then (case y of Got d \<Rightarrow> (if d = [] then WFail else WGot d, s) | _ \<Rightarrow> (WFail, s))
         else if w < 0 then (WFail, ?q) else if bad then (WFail, t) else recv_pkt_loop cfg nb n ws t)"
      using True x y t by (subst recv_pkt_loop.simps) (simp split: read_ret.splits)
    consider (read) "w > 0" | (fail) "w < 0" | (timeout) "w = 0" by linarith
    then show ?thesis
    proof cases
      case read
      with Cons.prems u ws_read_result [OF y] rx q show ?thesis
        by (auto split: read_ret.splits if_splits intro: rx_frame_trans)
    next
      case fail
      with Cons.prems u rx q show ?thesis by (auto intro: rx_frame_trans)
    next
      case timeout
      show ?thesis
      proof (cases bad)
        case True
        with Cons.prems u timeout rx q tf show ?thesis by (auto intro: rx_frame_trans)
      next
        case False
        with Cons.prems u timeout have "recv_pkt_loop cfg nb n ws t = (ret, r1)" by simp
        from Cons.IH [OF this] rx q tf show ?thesis by (auto intro: rx_frame_trans)
      qed
    qed
  qed
qed

text \<open>What an iteration does to a well-formed state: it keeps it well formed and makes progress, in the
  order of input left, bytes in the buffer, phase; a fault is a continuation without predecessor.\<close>

definition ws_rank :: "ws_req \<Rightarrow> nat \<times> nat \<times> nat" where
  "ws_rank r = (ws_io r, (case ws_buf r of Some b \<Rightarrow> ub_pos b | None \<Rightarrow> 0), 4 - ws_phase r)"

abbreviation rank_less :: "((nat \<times> nat \<times> nat) \<times> (nat \<times> nat \<times> nat)) set" where
  "rank_less \<equiv> less_than <*lex*> less_than <*lex*> less_than"

definition iter_ok :: "ws_cfg \<Rightarrow> ws_srv \<Rightarrow> ws_req \<Rightarrow> ws_iter \<Rightarrow> bool" where
  "iter_ok cfg g r it \<longleftrightarrow>
     (case it of
        WsNext g1 r1 \<Rightarrow> g1 = g \<and> ws_inv cfg r1 \<and> (ws_rank r1, ws_rank r) \<in> rank_less
      | WsDone res g1 r1 \<Rightarrow> srv_inv g1 \<and> (res = WsFault \<longrightarrow> ws_opcode r = 0 \<and> wv_continuation g = None) \<and>
          (\<forall>m. res = WsMsg m \<longrightarrow> ws_inv cfg r1))"

lemma fill_step_ok:
  assumes "ws_cfg_ok cfg" "ws_inv cfg r" "srv_inv g" "ws_buf r = Some b" "ub_pos b < ws_need r"
  shows "iter_ok cfg g r (ws_fill_step cfg nb b g r)"
proof -
  have b: "ub_inv b" "ub_limit b = 0" and sh: "ws_shape cfg r" using assms(2,4) by (auto simp: ws_inv_def)
  have lt: "ub_pos b + page_size (wsc_env cfg) < 2 ^ 64"
    using assms(1,5) need_le [OF assms(1) sh] by (simp add: ws_cfg_ok_def)
  show ?thesis
  proof (cases "upsgi_buffer_ensure (wsc_env cfg) b (page_size (wsc_env cfg))")
    case (Err u)
    then show ?thesis using assms(3) by (simp add: ws_fill_step_def iter_ok_def)
  next
    case Fault
    then show ?thesis by simp
  next
    case (Ok u)
    note e = ensure_Ok [OF b(1) _ Ok lt]
    have u: "ub_inv u" "ub_pos u = ub_pos b" "ub_limit u = 0" using e b(2) by auto
    let ?r = "r\<lparr>ws_buf := Some u\<rparr>"
    obtain ret r1 where p: "upsgi_websockets_recv_pkt cfg nb u ?r = (ret, r1)" by fastforce
    from recv_pkt_loop_result [OF p [unfolded upsgi_websockets_recv_pkt_def]]
    have f: "rx_frame ?r r1" "ws_io r1 \<le> ws_io r"
      "\<And>d. ret = WGot d \<Longrightarrow> length d \<le> size_sub (ub_len u) (ub_pos u) \<and> ws_io r1 < ws_io r"
      by (auto simp: ws_io_def)
    have inv1: "ws_inv cfg r1" using f(1) u sh inv_open [OF assms(2)] by (auto simp: ws_inv_def rx_frame_def ws_shape_def)
    show ?thesis
    proof (cases ret)
      case (WGot d)
      have fit: "ub_pos u + length d \<le> ub_len u" using f(3) [OF WGot] u(1) by (auto simp: ub_inv_def)
      obtain u1 where m: "ub_memcpy u (ub_pos u) d = Ok u1" using ub_memcpy_in_range [OF fit] by blast
      note m1 = ub_memcpy_Ok [OF m]
      let ?r1 = "r1\<lparr>ws_buf := Some (u1\<lparr>ub_pos := ub_pos u1 + length d\<rparr>)\<rparr>"
      have "ws_inv cfg ?r1" using inv1 m1 u fit by (auto simp: ws_inv_def ws_shape_def ub_inv_def)
      moreover have "ws_io ?r1 < ws_io r" using f(3) [OF WGot] by (simp add: ws_io_def)
      ultimately show ?thesis
        using Ok p WGot m by (simp add: ws_fill_step_def iter_ok_def ws_rank_def)
    next
      case WNothing
      then show ?thesis using Ok p assms(3) inv1 by (simp add: ws_fill_step_def iter_ok_def)
    next
      case WFail
      then show ?thesis using Ok p assms(3) by (simp add: ws_fill_step_def iter_ok_def)
    qed
  qed
qed

lemma parse_header_fields:
  assumes "upsgi_websocket_parse_header b r = Some r1"
  shows "ws_buf r1 = ws_buf r \<and> ws_need r1 = ws_need r \<and> ws_remains r1 = ws_remains r \<and> ws_reads r1 = ws_reads r \<and>
    ws_phase r1 = ws_phase r \<and> ws_closed r1 = ws_closed r \<and> ws_size r1 \<le> 127"
proof -
  have "unat (w AND 0x7f) \<le> 127" for w :: "8 word"
  proof -
    have "w AND 0x7f = take_bit 7 w" by (simp add: take_bit_eq_mask mask_eq_exp_minus_1)
    moreover have "unat (take_bit 7 w) < 2 ^ 7"
      using take_bit_nat_less_exp [of 7 "unat w"] by (simp add: unsigned_take_bit_eq)
    ultimately show ?thesis by simp
  qed
  with assms show ?thesis by (auto simp: upsgi_websocket_parse_header_def Let_def split: if_splits)
qed

lemma phase0_ok:
  assumes "ws_cfg_ok cfg" "ws_inv cfg r" "srv_inv g" "ws_buf r = Some b" "ws_need r \<le> ub_pos b" "ws_phase r = 0"
  shows "iter_ok cfg g r (ws_phase0 b g r)"
proof -
  have n: "ws_need r = 2" and b: "ub_inv b" "ub_limit b = 0" using assms(2,4,6) by (auto simp: ws_inv_def ws_shape_def)
  then obtain r1 where r1: "upsgi_websocket_parse_header b r = Some r1"
    using assms(5) by (auto simp: upsgi_websocket_parse_header_def ub_inv_def Let_def)
  note f = parse_header_fields [OF r1]
  have cap: "125 \<le> ws_cap cfg" by (simp add: ws_cap_def)
  show ?thesis
    using f n b cap assms(4,6) inv_open [OF assms(2)]
    by (auto simp: ws_phase0_def r1 Let_def iter_ok_def ws_inv_def ws_shape_def ws_rank_def ws_io_def)
qed

lemma phase1_ok:
  assumes "ws_cfg_ok cfg" "ws_inv cfg r" "srv_inv g" "ws_buf r = Some b" "ws_need r \<le> ub_pos b" "ws_phase r = 1"
  shows "iter_ok cfg g r (ws_phase1 cfg b g r)"
proof -
  have b: "ub_inv b" "ub_limit b = 0" and l: "ws_need r \<le> ub_len b"
    using assms(2,4,5) by (auto simp: ws_inv_def ub_inv_def)
  from assms(2,6) have s: "ws_size r = 126 \<and> ws_need r = 4 \<or> ws_size r = 127 \<and> ws_need r = 10"
    "ws_pktsize r = ws_need r + ws_mask_len r" by (auto simp: ws_inv_def ws_shape_def)
  show ?thesis
    using s b l assms(3,4,6) inv_open [OF assms(2)]
    by (auto simp: ws_phase1_def Let_def iter_ok_def ws_inv_def ws_shape_def ws_rank_def ws_io_def ws_cap_def)
qed

lemma phase23_ok:
  assumes "ws_cfg_ok cfg" "ws_inv cfg r" "ws_buf r = Some b" "ws_need r \<le> ub_pos b"
  shows "ws_phase r = 2 \<Longrightarrow> iter_ok cfg g r (ws_phase2 g r)" "ws_phase r = 3 \<Longrightarrow> iter_ok cfg g r (ws_phase3 g r)"
  using assms
  by (auto simp: ws_phase2_def ws_phase3_def iter_ok_def ws_inv_def ws_shape_def ws_rank_def ws_io_def ws_cfg_ok_def)

lemma skip_ok:
  assumes "same_rx r0 r" "ws_inv cfg r0" "srv_inv g" "ws_buf r0 = Some b" "ws_need r0 \<le> ub_pos b" "ws_phase r0 = 4"
  shows "iter_ok cfg g r0 (ws_skip b g r)"
proof -
  have b: "ub_inv b" "ub_limit b = 0" and p: "ws_pktsize r0 \<le> ub_pos b" "0 < ws_pktsize r0"
    using assms(2,4-6) by (auto simp: ws_inv_def ws_shape_def)
  from decapitate_Ok [OF b(1) p(1)] obtain u where u: "upsgi_buffer_decapitate b (ws_pktsize r0) = Ok u" "ub_inv u"
    "ub_pos u = ub_pos b - ws_pktsize r0" "ub_limit u = 0" using b(2) by auto
  with assms(1,4) p inv_open [OF assms(2)] show ?thesis
    by (auto simp: ws_skip_def same_rx_def iter_ok_def ws_inv_def ws_shape_def ws_rank_def ws_io_def Let_def)
qed

text \<open>The payload of the frame in the buffer, and the buffer with the payload unmasked in place.\<close>

definition ws_payload :: "upsgi_buffer \<Rightarrow> ws_req \<Rightarrow> char list" where
  "ws_payload b r =
     (let off = ws_pktsize r - ws_size r; raw = take (ws_size r) (drop off (ub_buf b)) in
      if ws_has_mask r then unmask (take 4 (drop (off - 4) (ub_buf b))) 0 raw else raw)"

definition ws_unmasked :: "upsgi_buffer \<Rightarrow> ws_req \<Rightarrow> upsgi_buffer" where
  "ws_unmasked b r =
     (let off = ws_pktsize r - ws_size r in
      b\<lparr>ub_buf := take off (ub_buf b) @ ws_payload b r @ drop (off + ws_size r) (ub_buf b)\<rparr>)"

lemma unmask_length [simp]: "length (unmask m i xs) = length xs"
  by (induction xs arbitrary: i) simp_all

lemma parse_eq:
  assumes "2 + ws_mask_len r + ws_size r \<le> ws_pktsize r" "ws_pktsize r \<le> ub_len b"
  shows "upsgi_websockets_parse cfg b g r =
      (case (if ws_opcode r = 0 then wv_continuation g else Some (upsgi_buffer_new (wsc_env cfg) (ws_size r))) of
         None \<Rightarrow> (WsFault, g, r\<lparr>ws_buf := Some (ws_unmasked b r)\<rparr>)
       | Some ub \<Rightarrow>
           (case upsgi_buffer_append (wsc_env cfg) ub (ws_payload b r) of
              Ok u \<Rightarrow> ws_finish cfg (ws_unmasked b r) u g (r\<lparr>ws_buf := Some (ws_unmasked b r)\<rparr>)
            | Err u \<Rightarrow> (WsNull, g\<lparr>wv_continuation := None\<rparr>, r\<lparr>ws_buf := Some (ws_unmasked b r)\<rparr>)
            | Fault \<Rightarrow> (WsFault, g, r\<lparr>ws_buf := Some (ws_unmasked b r)\<rparr>)))"
proof -
  have guard: "\<not> (ws_pktsize r < ws_size r \<or> ws_pktsize r - ws_size r + ws_size r > ub_len b \<or>
      (ws_has_mask r \<and> ws_pktsize r - ws_size r < 4))"
    using assms by (auto split: if_splits)
  show ?thesis
    unfolding upsgi_websockets_parse_def Let_def if_not_P [OF guard] ws_unmasked_def ws_payload_def ..
qed

lemma ws_unmasked_props:
  assumes "2 + ws_mask_len r + ws_size r \<le> ws_pktsize r" "ws_pktsize r \<le> ub_pos b" "ub_inv b"
  shows "ub_inv (ws_unmasked b r)" "ub_limit (ws_unmasked b r) = ub_limit b" "ub_pos (ws_unmasked b r) = ub_pos b"
    "ub_len (ws_unmasked b r) = ub_len b"
    "drop (ws_pktsize r) (ub_content (ws_unmasked b r)) = drop (ws_pktsize r) (ub_content b)"
proof -
  have l: "length (ws_payload b r) = ws_size r" using assms by (simp add: ws_payload_def ub_inv_def Let_def)
  show "ub_limit (ws_unmasked b r) = ub_limit b" and pos: "ub_pos (ws_unmasked b r) = ub_pos b"
    by (simp_all add: ws_unmasked_def Let_def)
  show n: "ub_len (ws_unmasked b r) = ub_len b" using assms l by (simp add: ws_unmasked_def ub_inv_def Let_def)
  show "ub_inv (ws_unmasked b r)" using assms(3) n by (simp add: ub_inv_def ws_unmasked_def Let_def)
  have "drop (ws_pktsize r) (ub_buf (ws_unmasked b r)) = drop (ws_pktsize r) (ub_buf b)"
    using assms l by (simp add: ws_unmasked_def ub_inv_def Let_def)
  then show "drop (ws_pktsize r) (ub_content (ws_unmasked b r)) = drop (ws_pktsize r) (ub_content b)"
    unfolding ub_content_def drop_take pos by (rule arg_cong)
qed

lemma parse_ok:
  assumes "ws_inv cfg r" "srv_inv g" "ws_buf r = Some b" "ws_need r \<le> ub_pos b" "ws_phase r = 4"
    and "upsgi_websockets_parse cfg b g r = (res, g1, r1)"
  shows "srv_inv g1 \<and> (res = WsFault \<longrightarrow> ws_opcode r = 0 \<and> wv_continuation g = None) \<and> (\<forall>m. res = WsMsg m \<longrightarrow> ws_inv cfg r1)"
proof -
  have b: "ub_inv b" "ub_limit b = 0" "ub_pos b \<le> ub_len b"
    and p: "ws_pktsize r \<le> ub_pos b" "2 + ws_mask_len r + ws_size r \<le> ws_pktsize r"
    using assms(1,3-5) by (auto simp: ws_inv_def ws_shape_def ub_inv_def)
  note b1 = ws_unmasked_props [OF p(2,1) b(1)]
  obtain u where u: "upsgi_buffer_decapitate (ws_unmasked b r) (ws_pktsize r) = Ok u" "ub_inv u" "ub_limit u = 0"
    using decapitate_Ok [OF b1(1)] p(1) b1(2,3) b(2) by metis
  let ?r1 = "r\<lparr>ws_buf := Some (ws_unmasked b r)\<rparr>"
  have fin: "srv_inv (fst (snd (ws_finish cfg (ws_unmasked b r) v g ?r1))) \<and>
      fst (ws_finish cfg (ws_unmasked b r) v g ?r1) \<noteq> WsFault \<and>
      ws_inv cfg (snd (snd (ws_finish cfg (ws_unmasked b r) v g ?r1)))" if v: "ub_inv v" for v
  proof -
    have "upsgi_buffer_append (wsc_env cfg) (upsgi_buffer_new (wsc_env cfg) 1) [CHR 0x00] \<noteq> Fault"
      by (rule ub.app_no_fault) (simp add: ub_inv_def upsgi_buffer_new_def)
    with u v inv_open [OF assms(1)] show ?thesis
      by (auto simp: ws_finish_def Let_def srv_inv_def ws_inv_def ws_shape_def split: c_result.splits)
  qed
  have e: "ws_pktsize r \<le> ub_len b" using p(1) b(3) by simp
  show ?thesis
  proof (cases "if ws_opcode r = 0 then wv_continuation g else Some (upsgi_buffer_new (wsc_env cfg) (ws_size r))")
    case None
    then show ?thesis using assms(2,6) unfolding parse_eq [OF p(2) e] by (auto split: if_splits)
  next
    case (Some ub)
    have i: "ub_inv ub"
      using Some assms(2) by (auto simp: srv_inv_def upsgi_buffer_new_def ub_inv_def split: if_splits)
    show ?thesis
      using assms(2,6) fin ub.app_ok [OF i] ub.app_no_fault [OF i, of "wsc_env cfg" "ws_payload b r"]
      unfolding parse_eq [OF p(2) e] Some
      by (cases "upsgi_buffer_append (wsc_env cfg) ub (ws_payload b r)") (fastforce simp: srv_inv_def)+
  qed
qed

lemma phase4_ok:
  assumes "ws_inv cfg r" "srv_inv g" "ws_buf r = Some b" "ws_need r \<le> ub_pos b" "ws_phase r = 4"
  shows "iter_ok cfg g r (ws_phase4 cfg b g r)"
proof -
  have s: "iter_ok cfg g r (ws_skip b g q)" if "same_rx r q" for q
    using skip_ok [OF that assms] .
  have now: "same_rx r (snd (ws_now cfg r)\<lparr>ws_last_pong := t\<rparr>)" for t by (simp add: ws_now_def same_rx_def)
  show ?thesis
  proof (cases "ws_opcode r \<le> 2")
    case True
    with parse_ok [OF assms] show ?thesis
      by (cases "upsgi_websockets_parse cfg b g r") (auto simp: ws_phase4_def iter_ok_def)
  next
    case False
    show ?thesis
      using False assms(2) s pong_same s [OF now] s [of r]
      by (auto simp: ws_phase4_def iter_ok_def [of _ _ _ "WsDone _ _ _"] same_rx_def [of r r] split: prod.splits)
  qed
qed

lemma iterate_ok:
  assumes "ws_cfg_ok cfg" "ws_inv cfg r" "srv_inv g"
  shows "iter_ok cfg g r (ws_iterate cfg nb g r)"
proof -
  obtain b where b: "ws_buf r = Some b" using assms(2) by (auto simp: ws_inv_def)
  show ?thesis
  proof (cases "ws_need r \<le> ub_pos b")
    case True
    have "ws_phase r \<le> 4" using assms(2) by (auto simp: ws_inv_def ws_shape_def)
    then consider "ws_phase r = 0" | "ws_phase r = 1" | "ws_phase r = 2" | "ws_phase r = 3" | "ws_phase r = 4" by linarith
    then show ?thesis
      using phase0_ok [OF assms b True] phase1_ok [OF assms b True] phase23_ok [OF assms(1,2) b True]
        phase4_ok [OF assms(2,3) b True]
      by cases (simp_all add: ws_iterate_def b True ws_parse_step_def)
  next
    case False
    then show ?thesis using fill_step_ok [OF assms b] by (simp add: ws_iterate_def b)
  qed
qed

section \<open>Termination and safety\<close>

lemma wf_rank: "wf (inv_image rank_less ws_rank)"
  by (intro wf_inv_image wf_lex_prod wf_less_than)

lemma loop_returns:
  assumes "ws_cfg_ok cfg" "srv_inv g"
  shows "ws_inv cfg r \<Longrightarrow> \<exists>res g1 r1. ws_loop cfg nb g r = Some (res, g1, r1) \<and> srv_inv g1 \<and>
    (wv_continuation g \<noteq> None \<longrightarrow> res \<noteq> WsFault) \<and> (\<forall>m. res = WsMsg m \<longrightarrow> ws_inv cfg r1)"
proof (induction r rule: wf_induct_rule [OF wf_rank])
  case (1 r)
  note i = iterate_ok [OF assms(1) 1(2) assms(2), of nb]
  show ?case
  proof (cases "ws_iterate cfg nb g r")
    case (WsNext g1 r1)
    with i have n: "g1 = g" "ws_inv cfg r1" "(r1, r) \<in> inv_image rank_less ws_rank"
      by (simp_all add: iter_ok_def in_inv_image)
    from 1(1) [OF n(3,2)] show ?thesis by (simp add: ws_loop.simps [of cfg nb g r] WsNext n(1))
  next
    case (WsDone res g1 r1)
    with i show ?thesis by (auto simp: iter_ok_def ws_loop.simps [of cfg nb g r])
  qed
qed

text \<open>A connection between two calls: before the first one, or as a call left it.\<close>

definition ws_ready :: "ws_cfg \<Rightarrow> ws_req \<Rightarrow> bool" where
  "ws_ready cfg r \<longleftrightarrow> (if ws_buf r = None then ws_phase r = 0 \<and> \<not> ws_closed r else ws_inv cfg r)"

lemma start_inv: "ws_ready cfg r \<Longrightarrow> ws_inv cfg (ws_start cfg r)"
  by (cases "ws_buf r") (simp_all add: ws_ready_def ws_start_def ws_inv_def ws_shape_def upsgi_buffer_new_def ub_inv_def)

lemma ready_open: "ws_ready cfg r \<Longrightarrow> \<not> ws_closed r"
  by (auto simp: ws_ready_def ws_inv_def split: if_splits)

lemma inv_ready: "ws_inv cfg r \<Longrightarrow> ws_ready cfg r"
  by (auto simp: ws_ready_def ws_inv_def)

text \<open>C21: receiving a message always returns, whatever arrives and however slowly, as long as the waits end:
  every round of the receive loop uses up input, drops bytes from the buffer or moves to the next phase.
  The connection is then ready for the next call, unless the call reported the end of the connection;
  with a message under way (a continuation buffer) the call never touches memory it must not.\<close>

theorem websocket_recv_terminates:
  assumes "ws_cfg_ok cfg" "srv_inv g" "ws_ready cfg r"
  shows "\<exists>res g1 r1. upsgi_websocket_recv cfg g r = Some (res, g1, r1) \<and> srv_inv g1 \<and>
    (\<forall>m. res = WsMsg m \<longrightarrow> ws_ready cfg r1) \<and> (res = WsNull \<longrightarrow> ws_closed r1) \<and>
    (wv_continuation g \<noteq> None \<longrightarrow> res \<noteq> WsFault)"
proof -
  obtain res g1 r1 where l: "ws_loop cfg False g (ws_start cfg r) = Some (res, g1, r1)" "srv_inv g1"
    "wv_continuation g \<noteq> None \<longrightarrow> res \<noteq> WsFault" "\<forall>m. res = WsMsg m \<longrightarrow> ws_inv cfg r1"
    using loop_returns [OF assms(1,2) start_inv [OF assms(3)], of False] by blast
  then have "\<forall>m. res = WsMsg m \<longrightarrow> ws_ready cfg r1" using inv_ready by blast
  with l ready_open [OF assms(3)] show ?thesis
    by (cases "res = WsNull") (simp_all add: upsgi_websocket_recv_def ws_recv_op_def upsgi_websocket_recv_do_def
        clear_continuation_buffer_def srv_inv_def)
qed

section \<open>A frame is received as it was sent\<close>

definition data_only :: "read_ev list \<Rightarrow> bool" where
  "data_only evs \<longleftrightarrow> list_all (\<lambda>e. case e of RData bs \<Rightarrow> bs \<noteq> [] | _ \<Rightarrow> False) evs"

text \<open>What the connection still has for the receiver.\<close>

definition ws_stream :: "ws_req \<Rightarrow> char list" where
  "ws_stream r = (case ws_buf r of Some b \<Rightarrow> ub_content b | None \<Rightarrow> []) @ pending (ws_remains r) (ws_reads r)"

definition mem_ok :: "ws_cfg \<Rightarrow> bool" where
  "mem_ok cfg \<longleftrightarrow> ws_cfg_ok cfg \<and> 0 < page_size (wsc_env cfg) \<and> (\<forall>n. realloc_ok (wsc_env cfg) n)"

lemma ws_read_data:
  assumes "data_only (ws_reads r)" "pending (ws_remains r) (ws_reads r) \<noteq> []" "0 < n"
  shows "\<exists>d rem evs. ws_read n r = (Got d, r\<lparr>ws_remains := rem, ws_reads := evs\<rparr>) \<and> d \<noteq> [] \<and> length d \<le> n \<and>
    data_only evs \<and> pending (ws_remains r) (ws_reads r) = d @ pending rem evs"
proof (cases "ws_remains r = []")
  case False
  then have "take n (ws_remains r) \<noteq> []" using assms(3) by simp
  with False assms(1) show ?thesis
    by (intro exI [of _ "take n (ws_remains r)"] exI [of _ "drop n (ws_remains r)"] exI [of _ "ws_reads r"])
      (simp add: ws_read_def upsgi_proto_base_read_body_def pending_def)
next
  case True
  with assms obtain bs evs where e: "ws_reads r = RData bs # evs" "bs \<noteq> []" "data_only evs"
    by (cases "ws_reads r") (auto simp: pending_def data_only_def split: read_ev.splits)
  have "take n bs \<noteq> []" using e(2) assms(3) by simp
  with True e show ?thesis
    by (intro exI [of _ "take n bs"] exI [of _ "[]"] exI [of _ "if length bs \<le> n then evs else RData (drop n bs) # evs"])
      (simp add: ws_read_def upsgi_proto_base_read_body_def pending_def data_only_def)
qed

lemma fill_once:
  assumes "mem_ok cfg" "ws_inv cfg r" "ws_buf r = Some b" "ub_pos b < ws_need r" "ws_need r \<le> length (ws_stream r)"
    and "data_only (ws_reads r)"
  shows "\<exists>b1 rem evs. ws_iterate cfg nb g r = WsNext g (r\<lparr>ws_buf := Some b1, ws_remains := rem, ws_reads := evs\<rparr>) \<and>
    data_only evs \<and> ub_content b1 @ pending rem evs = ws_stream r \<and> ub_pos b < ub_pos b1 \<and> ub_inv b1 \<and> ub_limit b1 = 0"
proof -
  let ?n = "page_size (wsc_env cfg)"
  have b: "ub_inv b" "ub_limit b = 0" and sh: "ws_shape cfg r" using assms(2,3) by (auto simp: ws_inv_def)
  have cfg: "ws_cfg_ok cfg" "0 < ?n" "\<And>n. realloc_ok (wsc_env cfg) n" using assms(1) by (auto simp: mem_ok_def)
  have lt: "ub_pos b + ?n < 2 ^ 64" using cfg(1) assms(4) need_le [OF cfg(1) sh] by (simp add: ws_cfg_ok_def)
  obtain u where u: "upsgi_buffer_ensure (wsc_env cfg) b ?n = Ok u"
    using ensure_total [OF b(1) lt] b(2) cfg(3) by blast
  note e = ensure_Ok [OF b(1) _ u lt]
  have f: "ub_inv u" "ub_content u = ub_content b" "ub_pos u = ub_pos b" "ub_limit u = 0" using e b(2) by auto
  have room: "ub_pos u + ?n \<le> ub_len u" using e b(2) by auto
  let ?r = "r\<lparr>ws_buf := Some u\<rparr>"
  have "length (ub_content b) = ub_pos b" using b(1) by (simp add: ub_content_def ub_inv_def)
  then have "pending (ws_remains ?r) (ws_reads ?r) \<noteq> []" using assms(3-5) by (auto simp: ws_stream_def)
  then obtain d rem evs where rd: "ws_read (ub_len u - ub_pos u) ?r = (Got d, ?r\<lparr>ws_remains := rem, ws_reads := evs\<rparr>)"
    "d \<noteq> []" "length d \<le> ub_len u - ub_pos u" "data_only evs" "pending (ws_remains r) (ws_reads r) = d @ pending rem evs"
    using ws_read_data [of ?r "ub_len u - ub_pos u"] assms(6) room cfg(2) by auto
  have fit: "ub_pos u + length d \<le> ub_len u" using rd(3) room by simp
  obtain u1 where m: "ub_memcpy u (ub_pos u) d = Ok u1" using ub_memcpy_in_range [OF fit] by blast
  note m1 = ub_memcpy_Ok [OF m]
  let ?b1 = "u1\<lparr>ub_pos := ub_pos u1 + length d\<rparr>"
  have "upsgi_websockets_recv_pkt cfg nb u ?r = (WGot d, ?r\<lparr>ws_remains := rem, ws_reads := evs\<rparr>)"
    unfolding upsgi_websockets_recv_pkt_def
    using rd(1,2) f(1) by (subst recv_pkt_loop.simps) (simp add: ub_inv_def)
  then have it: "ws_iterate cfg nb g r = WsNext g (r\<lparr>ws_buf := Some ?b1, ws_remains := rem, ws_reads := evs\<rparr>)"
    using assms(3,4) u m by (simp add: ws_iterate_def ws_fill_step_def)
  have "ub_content ?b1 = ub_content b @ d" using m1(2,5) f(2,3) by (simp add: ub_content_def)
  then have "ub_content ?b1 @ pending rem evs = ws_stream r" using rd(5) assms(3) by (simp add: ws_stream_def)
  moreover have "ub_pos b < ub_pos ?b1" "ub_inv ?b1" "ub_limit ?b1 = 0"
    using rd(2) m1 f fit by (auto simp: ub_inv_def)
  ultimately show ?thesis using it rd(4) by blast
qed

text \<open>The loop reads until the phase has the bytes it needs.\<close>

definition ws_has :: "nat \<Rightarrow> char list \<Rightarrow> ws_req \<Rightarrow> bool" where
  "ws_has n s r \<longleftrightarrow> (\<exists>b. ws_buf r = Some b \<and> ub_inv b \<and> ub_limit b = 0 \<and> n \<le> ub_pos b) \<and>
     ws_stream r = s \<and> data_only (ws_reads r)"

lemma fill:
  assumes "mem_ok cfg"
  shows "ws_inv cfg r \<Longrightarrow> data_only (ws_reads r) \<Longrightarrow> ws_need r \<le> length (ws_stream r) \<Longrightarrow>
    \<exists>b rem evs. ws_loop cfg nb g r = ws_loop cfg nb g (r\<lparr>ws_buf := b, ws_remains := rem, ws_reads := evs\<rparr>) \<and>
      ws_has (ws_need r) (ws_stream r) (r\<lparr>ws_buf := b, ws_remains := rem, ws_reads := evs\<rparr>)"
proof (induction "ws_need r - (case ws_buf r of Some b \<Rightarrow> ub_pos b | None \<Rightarrow> 0)" arbitrary: r rule: less_induct)
  case less
  obtain b where b: "ws_buf r = Some b" "ub_inv b" "ub_limit b = 0" using less(2) by (auto simp: ws_inv_def)
  show ?case
  proof (cases "ws_need r \<le> ub_pos b")
    case True
    have e: "r\<lparr>ws_buf := Some b, ws_remains := ws_remains r, ws_reads := ws_reads r\<rparr> = r"
      using b(1) by (cases r) simp
    show ?thesis
      by (rule exI [of _ "Some b"], rule exI [of _ "ws_remains r"], rule exI [of _ "ws_reads r"], unfold e)
        (use True b less(3) in \<open>simp add: ws_has_def\<close>)
  next
    case False
    then obtain b1 rem evs where s: "ws_iterate cfg nb g r = WsNext g (r\<lparr>ws_buf := Some b1, ws_remains := rem, ws_reads := evs\<rparr>)"
      "data_only evs" "ub_content b1 @ pending rem evs = ws_stream r" "ub_pos b < ub_pos b1" "ub_inv b1" "ub_limit b1 = 0"
      using fill_once [OF assms less(2) b(1) _ less(4,3)] by force
    let ?r1 = "r\<lparr>ws_buf := Some b1, ws_remains := rem, ws_reads := evs\<rparr>"
    have st: "ws_stream ?r1 = ws_stream r" using s(3) by (simp add: ws_stream_def)
    have inv: "ws_inv cfg ?r1" using less(2) s(5,6) by (auto simp: ws_inv_def ws_shape_def)
    have "ws_loop cfg nb g r = ws_loop cfg nb g ?r1" by (simp add: ws_loop.simps [of cfg nb g r] s(1))
    moreover have "ws_need ?r1 - (case ws_buf ?r1 of Some b \<Rightarrow> ub_pos b | None \<Rightarrow> 0) <
        ws_need r - (case ws_buf r of Some b \<Rightarrow> ub_pos b | None \<Rightarrow> 0)" using b(1) s(4) False by simp
    from less(1) [OF this inv] s(2) less(4) st
    obtain b2 rem2 evs2 where "ws_loop cfg nb g ?r1 = ws_loop cfg nb g (r\<lparr>ws_buf := b2, ws_remains := rem2, ws_reads := evs2\<rparr>)"
      "ws_has (ws_need r) (ws_stream r) (r\<lparr>ws_buf := b2, ws_remains := rem2, ws_reads := evs2\<rparr>)" by auto
    ultimately show ?thesis by metis
  qed
qed

text \<open>One phase: the loop fills the buffer and takes the step of the phase, on bytes that are those of the
  stream.\<close>

definition rx_eq :: "ws_req \<Rightarrow> ws_req \<Rightarrow> bool" where
  "rx_eq r q \<longleftrightarrow> (\<exists>b rem evs. q = r\<lparr>ws_buf := b, ws_remains := rem, ws_reads := evs\<rparr>)"

lemma advance:
  assumes "mem_ok cfg" "ws_inv cfg r" "data_only (ws_reads r)" "ws_need r \<le> length (ws_stream r)"
  shows "\<exists>q b. rx_eq r q \<and> ws_buf q = Some b \<and> ub_inv b \<and> ub_limit b = 0 \<and> ws_need r \<le> ub_pos b \<and>
    ws_stream q = ws_stream r \<and> data_only (ws_reads q) \<and>
    ws_loop cfg nb g r =
      (case ws_parse_step cfg b g q of WsNext g1 r1 \<Rightarrow> ws_loop cfg nb g1 r1 | WsDone res g1 r1 \<Rightarrow> Some (res, g1, r1))"
proof -
  from fill [OF assms] obtain q where q: "rx_eq r q" "ws_loop cfg nb g r = ws_loop cfg nb g q"
    "ws_has (ws_need r) (ws_stream r) q" unfolding rx_eq_def by blast
  then obtain b where b: "ws_buf q = Some b" "ub_inv b" "ub_limit b = 0" "ws_need r \<le> ub_pos b"
    "ws_stream q = ws_stream r" "data_only (ws_reads q)" by (auto simp: ws_has_def)
  have "ws_need q = ws_need r" using q(1) by (auto simp: rx_eq_def)
  with b have "ws_iterate cfg nb g q = ws_parse_step cfg b g q" by (simp add: ws_iterate_def)
  then have "ws_loop cfg nb g r =
      (case ws_parse_step cfg b g q of WsNext g1 r1 \<Rightarrow> ws_loop cfg nb g1 r1 | WsDone res g1 r1 \<Rightarrow> Some (res, g1, r1))"
    unfolding q(2) by (subst ws_loop.simps) simp
  with q(1) b show ?thesis by blast
qed

lemma stream_nth:
  assumes "ws_buf q = Some b" "ub_inv b" "k < ub_pos b"
  shows "ub_buf b ! k = ws_stream q ! k"
  using assms by (simp add: ws_stream_def ub_content_def ub_inv_def nth_append)

lemma stream_take:
  assumes "ws_buf q = Some b" "ub_inv b" "i + j \<le> ub_pos b"
  shows "take j (drop i (ub_buf b)) = take j (drop i (ws_stream q))"
proof -
  have "take j (drop i (ub_buf b)) = take j (drop i (ub_content b))"
    using assms(3) by (simp add: ub_content_def drop_take min_def)
  also have "\<dots> = take j (drop i (ws_stream q))"
    using assms by (simp add: ws_stream_def ub_content_def ub_inv_def)
  finally show ?thesis .
qed

section \<open>Frames\<close>

definition ws_len_bytes :: "nat \<Rightarrow> nat \<Rightarrow> char list" where
  "ws_len_bytes mb n =
     (if n < 126 then [char_of (mb + n)]
      else if n < 65536 then char_of (mb + 126) # u16be (of_nat n)
      else char_of (mb + 127) # u64be (of_nat n))"

text \<open>A frame: the final flag, the opcode, the masking key if there is one, the payload.\<close>

definition ws_frame :: "bool \<Rightarrow> nat \<Rightarrow> char list option \<Rightarrow> char list \<Rightarrow> char list" where
  "ws_frame fin oc mk payload =
     char_of (oc + (if fin then 128 else 0)) #
     ws_len_bytes (if mk = None then 0 else 128) (length payload) @
     (case mk of None \<Rightarrow> payload | Some m \<Rightarrow> m @ unmask m 0 payload)"

lemma xor_char_b8: "b8 (xor_char a b) = b8 a XOR b8 b"
proof -
  have "(of_char (xor_char a b) :: nat) = unat (b8 a XOR b8 b) mod 256"
    by (simp add: xor_char_def of_char_byte_of)
  also have "\<dots> = unat (b8 a XOR b8 b)"
    using unsigned_less [of "b8 a XOR b8 b", where 'a = nat] by simp
  finally have "(of_nat (of_char (xor_char a b) :: nat) :: 8 word) = of_nat (unat (b8 a XOR b8 b))" by simp
  then show ?thesis by (simp add: of_nat_of_char)
qed

lemma b8_inj: "b8 a = b8 b \<Longrightarrow> a = b"
proof -
  assume "b8 a = b8 b"
  then have "unat (of_nat (of_char a :: nat) :: 8 word) = unat (of_nat (of_char b :: nat) :: 8 word)"
    by (simp add: of_nat_of_char)
  then have "(of_char a :: nat) = of_char b" by (simp add: unat_of_nat)
  then show ?thesis by simp
qed

lemma xor_char_self: "xor_char (xor_char a b) b = a"
  by (rule b8_inj) (simp add: xor_char_b8 xor.assoc)

lemma unat_b8: "unat (b8 c) = ord c"
proof -
  have "unat (of_nat (ord c) :: 8 word) = ord c" by (simp add: unat_of_nat)
  then show ?thesis by (simp add: of_nat_of_char)
qed

lemma unat_b8_char_of: "k < 256 \<Longrightarrow> unat (b8 (char_of k)) = k"
  by (simp add: unat_b8)

lemma and_low: "unat ((w :: 8 word) AND 0x7f) = unat w mod 128" "unat (w AND 0xf) = unat w mod 16"
  "unat (drop_bit 7 w) = unat w div 128"
proof -
  have "w AND 0x7f = take_bit 7 w" "w AND 0xf = take_bit 4 w"
    by (simp_all add: take_bit_eq_mask mask_eq_exp_minus_1)
  then have e: "unat (w AND 0x7f) = take_bit 7 (unat w)" "unat (w AND 0xf) = take_bit 4 (unat w)"
    by (simp_all only: unsigned_take_bit_eq)
  have "take_bit 8 (unat w) = unat w"
    using unsigned_less [of w, where 'a = nat] by (simp add: take_bit_nat_eq_self)
  then have d: "unat (drop_bit 7 w) = drop_bit 7 (unat w)" by (simp add: unsigned_drop_bit_eq)
  show "unat (w AND 0x7f) = unat w mod 128" "unat (w AND 0xf) = unat w mod 16" "unat (drop_bit 7 w) = unat w div 128"
    unfolding e d by (simp_all add: take_bit_eq_mod drop_bit_eq_div)
qed

lemma be16: "n < 65536 \<Longrightarrow> upsgi_be16 (u16be (of_nat n) @ t) = n"
  by (simp add: upsgi_be16_def u16be_def byte_simps unat_of_nat)

lemma be64:
  assumes "n < 2 ^ 64"
  shows "upsgi_be64 (u64be (of_nat n) @ t) = n"
proof -
  define f where "f k = n div 256 ^ k" for k :: nat
  define m where "m k = f k mod 256" for k
  have s: "j = Suc k \<Longrightarrow> f k = 256 * f j + m k" for j k
  proof -
    have "f (Suc k) = f k div 256" by (simp add: f_def div_mult2_eq power_Suc2 del: power_Suc)
    then show "j = Suc k \<Longrightarrow> f k = 256 * f j + m k" by (simp add: m_def)
  qed
  have "f 8 = 0" and n: "n = f 0" using assms by (simp_all add: f_def)
  have e: "upsgi_be64 (u64be (of_nat n) @ t) =
      (((m 7 * 256 + m 6) * 256 + m 5) * 256 + m 4) * 4294967296 + (((m 3 * 256 + m 2) * 256 + m 1) * 256 + m 0)"
    using assms by (simp add: upsgi_be64_def upsgi_be32_def u64be_def byte_simps unat_of_nat f_def m_def)
  have "f 0 = 256 * f 1 + m 0" "f 1 = 256 * f 2 + m 1" "f 2 = 256 * f 3 + m 2" "f 3 = 256 * f 4 + m 3"
    "f 4 = 256 * f 5 + m 4" "f 5 = 256 * f 6 + m 5" "f 6 = 256 * f 7 + m 6" "f 7 = 256 * f 8 + m 7"
    by (rule s; simp)+
  then have "f 0 = (((m 7 * 256 + m 6) * 256 + m 5) * 256 + m 4) * 4294967296 + (((m 3 * 256 + m 2) * 256 + m 1) * 256 + m 0)"
    by (simp add: \<open>f 8 = 0\<close> algebra_simps)
  with n have "n = (((m 7 * 256 + m 6) * 256 + m 5) * 256 + m 4) * 4294967296 + (((m 3 * 256 + m 2) * 256 + m 1) * 256 + m 0)"
    by (rule trans)
  with e show ?thesis by (rule trans [OF _ sym])
qed

lemma unmask_unmask: "unmask m i (unmask m i xs) = xs"
  by (induction xs arbitrary: i) (simp_all add: xor_char_self)


lemma phase0_step:
  assumes "ws_buf q = Some b" "ub_inv b" "2 \<le> ub_pos b" "ws_need q = 2"
    and "ws_stream q ! 0 = char_of k1" "ws_stream q ! 1 = char_of k2" "k1 < 256" "k2 < 256"
  shows "ws_phase0 b g q = WsNext g
    (q\<lparr>ws_is_fin := 128 \<le> k1, ws_opcode := of_nat (k1 mod 16), ws_has_mask := 128 \<le> k2, ws_size := k2 mod 128,
       ws_pktsize := 2 + (if k2 mod 128 = 126 then 2 else if k2 mod 128 = 127 then 8 else 0) + (if 128 \<le> k2 then 4 else 0),
       ws_need := 2 + (if k2 mod 128 = 126 then 2 else if k2 mod 128 = 127 then 8 else 0),
       ws_phase := if k2 mod 128 = 126 \<or> k2 mod 128 = 127 then 1 else 2\<rparr>)"
proof -
  have b: "ub_buf b ! 0 = char_of k1" "ub_buf b ! 1 = char_of k2" "\<not> ub_len b < 2"
    using stream_nth [OF assms(1,2)] assms(2,3,5,6) by (auto simp: ub_inv_def)
  let ?w1 = "b8 (ub_buf b ! 0)" and ?w2 = "b8 (ub_buf b ! 1)"
  have u: "unat ?w1 = k1" "unat ?w2 = k2" using assms(7,8) by (simp_all only: b unat_b8_char_of)
  have f: "(drop_bit 7 ?w1 \<noteq> 0) = (128 \<le> k1)" "(drop_bit 7 ?w2 \<noteq> 0) = (128 \<le> k2)"
    using and_low(3) [of ?w1] and_low(3) [of ?w2] u assms(7,8)
    by (auto simp: unat_eq_0 [symmetric] simp del: unat_eq_0 unsigned_0)
  have o: "?w1 AND 0xf = of_nat (k1 mod 16)"
    by (rule word_unat_eq_iff [THEN iffD2]) (use and_low(2) [of ?w1] u in \<open>simp add: unat_of_nat\<close>)
  have s: "unat (?w2 AND 0x7f) = k2 mod 128" using and_low(1) [of ?w2] u by simp
  have p: "upsgi_websocket_parse_header b q =
      Some (q\<lparr>ws_is_fin := 128 \<le> k1, ws_opcode := of_nat (k1 mod 16), ws_has_mask := 128 \<le> k2, ws_size := k2 mod 128\<rparr>)"
    unfolding upsgi_websocket_parse_header_def Let_def f o s using b(3) by simp
  show ?thesis
    unfolding ws_phase0_def p using assms(4) by (auto simp: Let_def)
qed

lemma rx_eq_inv:
  assumes "rx_eq r q" "ws_inv cfg r" "ws_buf q = Some b" "ub_inv b" "ub_limit b = 0"
  shows "ws_inv cfg q"
proof -
  from assms(1) have "ws_shape cfg q = ws_shape cfg r" "ws_closed q = ws_closed r"
    unfolding rx_eq_def by (elim exE, simp add: ws_shape_def)+
  with assms show ?thesis by (simp add: ws_inv_def)
qed

lemma be_take: "upsgi_be16 (take 2 xs) = upsgi_be16 xs" "upsgi_be64 (take 8 xs) = upsgi_be64 xs"
  by (simp_all add: upsgi_be16_def upsgi_be64_def upsgi_be32_def drop_take)

text \<open>The state behind the header of a frame, before its mask.\<close>

definition after_header :: "ws_cfg \<Rightarrow> char list \<Rightarrow> nat \<Rightarrow> nat \<Rightarrow> bool \<Rightarrow> bool \<Rightarrow> nat \<Rightarrow> ws_req \<Rightarrow> bool" where
  "after_header cfg s hlen n masked fin oc q \<longleftrightarrow> ws_inv cfg q \<and> data_only (ws_reads q) \<and> ws_stream q = s \<and>
     ws_phase q = 2 \<and> ws_need q = hlen \<and> ws_size q = n \<and> ws_has_mask q = masked \<and> ws_is_fin q = fin \<and>
     ws_opcode q = of_nat oc"

lemma extended_run:
  assumes "mem_ok cfg" "srv_inv g" "ws_inv cfg r" "ws_phase r = 1" "data_only (ws_reads r)"
    and "ws_stream r = x # y # (if ws_size r = 126 then u16be (of_nat n) else u64be (of_nat n)) @ rest"
    and "126 \<le> n" "n \<le> ws_cap cfg" "if ws_size r = 126 then n < 65536 else ws_size r = 127"
  shows "\<exists>q. ws_loop cfg nb g r = ws_loop cfg nb g q \<and>
    after_header cfg (ws_stream r) (ws_need r) n (ws_has_mask r) (ws_is_fin r) oc (q\<lparr>ws_opcode := of_nat oc\<rparr>) \<and>
    ws_opcode q = ws_opcode r"
proof -
  have sh: "ws_size r = 126 \<and> ws_need r = 4 \<or> ws_size r = 127 \<and> ws_need r = 10"
    using assms(3,4) by (auto simp: ws_inv_def ws_shape_def)
  then have need: "ws_need r \<le> length (ws_stream r)" using assms(6) by (auto simp: u16be_def u64be_def)
  from advance [OF assms(1,3,5) need] obtain q b where q: "rx_eq r q" "ws_buf q = Some b" "ub_inv b" "ub_limit b = 0"
    "ws_need r \<le> ub_pos b" "ws_stream q = ws_stream r" "data_only (ws_reads q)" and
    l: "ws_loop cfg nb g r =
      (case ws_parse_step cfg b g q of WsNext g1 r1 \<Rightarrow> ws_loop cfg nb g1 r1 | WsDone res g1 r1 \<Rightarrow> Some (res, g1, r1))"
    by blast
  have same: "ws_phase q = 1" "ws_size q = ws_size r" "ws_need q = ws_need r" "ws_has_mask q = ws_has_mask r"
    "ws_is_fin q = ws_is_fin r" "ws_opcode q = ws_opcode r" using q(1) assms(4) by (auto simp: rx_eq_def)
  have cap: "n < 2 ^ 64" using assms(1,8) by (simp add: mem_ok_def ws_cfg_ok_def)
  have sz: "if ws_size r = 126 then upsgi_be16 (drop 2 (ub_buf b)) = n else upsgi_be64 (drop 2 (ub_buf b)) = n"
  proof (cases "ws_size r = 126")
    case True
    with sh q(5) have "take 2 (drop 2 (ub_buf b)) = take 2 (drop 2 (ws_stream r))"
      using stream_take [OF q(2,3), of 2 2] q(6) by simp
    with True assms(6) have "take 2 (drop 2 (ub_buf b)) = u16be (of_nat n)" by (simp add: u16be_def)
    with be_take(1) [of "drop 2 (ub_buf b)"] be16 [of n "[]"] True assms(9) show ?thesis by simp
  next
    case False
    with sh q(5) have "take 8 (drop 2 (ub_buf b)) = take 8 (drop 2 (ws_stream r))"
      using stream_take [OF q(2,3), of 2 8] q(6) by auto
    with False assms(6) have "take 8 (drop 2 (ub_buf b)) = u64be (of_nat n)" by (simp add: u64be_def)
    with be_take(2) [of "drop 2 (ub_buf b)"] be64 [OF cap, of "[]"] False show ?thesis by simp
  qed
  let ?r1 = "q\<lparr>ws_size := n, ws_phase := 2\<rparr>"
  have le: "\<not> ub_len b < ws_need r" using q(3,5) by (simp add: ub_inv_def)
  have mx: "\<not> n > wsc_max_size cfg * 1024 mod 2 ^ 64" using assms(7,8) by (simp add: ws_cap_def)
  have st: "ws_phase1 cfg b g q = WsNext g ?r1"
    using sz sh le mx same(2) assms(9) by (auto simp: ws_phase1_def Let_def split: if_splits)
  have "ws_inv cfg ?r1"
    using phase1_ok [OF _ rx_eq_inv [OF q(1) assms(3) q(2-4)] assms(2) q(2) _ same(1)] q(5) same(3) assms(1)
    unfolding st by (simp add: iter_ok_def mem_ok_def)
  then have "after_header cfg (ws_stream r) (ws_need r) n (ws_has_mask r) (ws_is_fin r) oc (?r1\<lparr>ws_opcode := of_nat oc\<rparr>)"
    using q(6,7) same by (auto simp: after_header_def ws_inv_def ws_shape_def ws_stream_def)
  moreover have "ws_loop cfg nb g r = ws_loop cfg nb g ?r1" using l st same(1) by (simp add: ws_parse_step_def)
  ultimately show ?thesis using same(6) by (intro exI [of _ ?r1]) simp
qed

lemma header_run:
  assumes "mem_ok cfg" "srv_inv g" "ws_inv cfg r" "ws_phase r = 0" "data_only (ws_reads r)"
    and "ws_stream r = ws_frame fin oc mk payload @ extra" "oc < 16" "length payload \<le> ws_cap cfg"
  shows "\<exists>q. ws_loop cfg nb g r = ws_loop cfg nb g q \<and>
    after_header cfg (ws_stream r) (1 + length (ws_len_bytes 0 (length payload))) (length payload) (mk \<noteq> None) fin oc q"
proof -
  let ?n = "length payload" and ?mb = "if mk = None then 0 else 128 :: nat"
  define k1 where "k1 = oc + (if fin then 128 else 0)"
  define k2 where "k2 = ?mb + (if ?n < 126 then ?n else if ?n < 65536 then 126 else 127)"
  have k: "k1 < 256" "k2 < 256" "(128 \<le> k1) = fin" "k1 mod 16 = oc" "(128 \<le> k2) = (mk \<noteq> None)"
    "k2 mod 128 = (if ?n < 126 then ?n else if ?n < 65536 then 126 else 127)"
  proof -
    have "(oc + 128) mod 16 = oc" using assms(7) by presburger
    then show "k1 mod 16 = oc" using assms(7) by (simp add: k1_def)
  qed (use assms(7) in \<open>auto simp: k1_def k2_def\<close>)
  obtain rest where s: "ws_stream r = char_of k1 # char_of k2 #
      (if ?n < 126 then [] else if ?n < 65536 then u16be (of_nat ?n) else u64be (of_nat ?n)) @ rest"
    unfolding assms(6) ws_frame_def ws_len_bytes_def k1_def k2_def by simp
  have n2: "ws_need r = 2" using assms(3,4) by (auto simp: ws_inv_def ws_shape_def)
  then have "ws_need r \<le> length (ws_stream r)" by (simp add: s)
  from advance [OF assms(1,3,5) this] obtain q b where q: "rx_eq r q" "ws_buf q = Some b" "ub_inv b" "ub_limit b = 0"
    "ws_need r \<le> ub_pos b" "ws_stream q = ws_stream r" "data_only (ws_reads q)" and
    l: "ws_loop cfg nb g r =
      (case ws_parse_step cfg b g q of WsNext g1 r1 \<Rightarrow> ws_loop cfg nb g1 r1 | WsDone res g1 r1 \<Rightarrow> Some (res, g1, r1))"
    by blast
  have same: "ws_phase q = 0" "ws_need q = 2" using q(1) assms(4) n2 by (auto simp: rx_eq_def)
  have qi: "ws_inv cfg q" by (rule rx_eq_inv [OF q(1) assms(3) q(2-4)])
  have b2: "2 \<le> ub_pos b" using q(5) n2 by simp
  have "ws_stream q ! 0 = char_of k1" "ws_stream q ! 1 = char_of k2" unfolding q(6) s by simp_all
  from phase0_step [OF q(2,3) b2 same(2) this k(1,2), of g, unfolded k(3-5)] obtain r1 where
    st: "ws_phase0 b g q = WsNext g r1" and r1: "ws_is_fin r1 = fin" "ws_opcode r1 = of_nat oc" "ws_has_mask r1 = (mk \<noteq> None)"
      "ws_size r1 = k2 mod 128"
      "ws_need r1 = 2 + (if k2 mod 128 = 126 then 2 else if k2 mod 128 = 127 then 8 else 0)"
      "ws_phase r1 = (if k2 mod 128 = 126 \<or> k2 mod 128 = 127 then 1 else 2)"
      "ws_stream r1 = ws_stream r" "data_only (ws_reads r1)"
    using q(6,7) by (simp add: ws_stream_def)
  have i1: "ws_inv cfg r1"
    using phase0_ok [OF _ qi assms(2) q(2) _ same(1)] q(5) n2 same(2) assms(1)
    unfolding st by (simp add: iter_ok_def mem_ok_def)
  have l1: "ws_loop cfg nb g r = ws_loop cfg nb g r1" using l st same(1) by (simp add: ws_parse_step_def)
  show ?thesis
  proof (cases "?n < 126")
    case True
    then have "after_header cfg (ws_stream r) (1 + length (ws_len_bytes 0 ?n)) ?n (mk \<noteq> None) fin oc r1"
      using i1 r1 k(6) by (simp add: after_header_def ws_len_bytes_def)
    with l1 show ?thesis by blast
  next
    case False
    have sz: "ws_size r1 = (if ?n < 65536 then 126 else 127)" "ws_phase r1 = 1"
      "ws_need r1 = 1 + length (ws_len_bytes 0 ?n)"
      using False r1 k(6) by (auto simp: ws_len_bytes_def u16be_def u64be_def)
    have st1: "ws_stream r1 = char_of k1 # char_of k2 # (if ws_size r1 = 126 then u16be (of_nat ?n) else u64be (of_nat ?n)) @ rest"
      using r1(7) s sz(1) False by simp
    from extended_run [OF assms(1,2) i1 sz(2) r1(8) st1 _ assms(8), where oc = oc and nb = nb] False sz(1)
    obtain p where p: "ws_loop cfg nb g r1 = ws_loop cfg nb g p"
      "after_header cfg (ws_stream r1) (ws_need r1) ?n (ws_has_mask r1) (ws_is_fin r1) oc (p\<lparr>ws_opcode := of_nat oc\<rparr>)"
      "ws_opcode p = of_nat oc" using r1(2) by (auto split: if_splits)
    have "p\<lparr>ws_opcode := of_nat oc\<rparr> = p" using p(3) by (cases p) simp
    with p(1,2) l1 sz(3) r1(1,3,7) show ?thesis by (intro exI [of _ p]) simp
  qed
qed

text \<open>The state before the payload of a frame is complete.\<close>

definition before_payload :: "ws_cfg \<Rightarrow> char list \<Rightarrow> nat \<Rightarrow> nat \<Rightarrow> bool \<Rightarrow> bool \<Rightarrow> nat \<Rightarrow> ws_req \<Rightarrow> bool" where
  "before_payload cfg s off n masked fin oc q \<longleftrightarrow> ws_inv cfg q \<and> data_only (ws_reads q) \<and> ws_stream q = s \<and>
     ws_phase q = 4 \<and> ws_need q = off + n \<and> ws_pktsize q = off + n \<and> ws_size q = n \<and> ws_has_mask q = masked \<and>
     ws_is_fin q = fin \<and> ws_opcode q = of_nat oc"

lemma mask_run:
  assumes "mem_ok cfg" "srv_inv g" "after_header cfg s hlen n masked fin oc r" "hlen + (if masked then 4 else 0) \<le> length s"
  shows "\<exists>q. ws_loop cfg nb g r = ws_loop cfg nb g q \<and>
    before_payload cfg s (hlen + (if masked then 4 else 0)) n masked fin oc q"
proof -
  note r = assms(3) [unfolded after_header_def]
  have sh: "hlen \<le> 10" "ws_pktsize r = hlen + ws_mask_len r" "n \<le> ws_cap cfg"
    using r by (auto simp: ws_inv_def ws_shape_def)
  then have ov: "hlen + 4 + n < 2 ^ 64" using assms(1) by (simp add: mem_ok_def ws_cfg_ok_def)
  from r assms(4) have "ws_need r \<le> length (ws_stream r)" by (auto split: if_splits)
  with advance [OF assms(1), of r] r obtain q b where q: "rx_eq r q" "ws_buf q = Some b" "ub_inv b" "ub_limit b = 0"
    "ws_need r \<le> ub_pos b" "ws_stream q = s" "data_only (ws_reads q)" and
    l: "ws_loop cfg nb g r =
      (case ws_parse_step cfg b g q of WsNext g1 r1 \<Rightarrow> ws_loop cfg nb g1 r1 | WsDone res g1 r1 \<Rightarrow> Some (res, g1, r1))"
    by blast
  have same: "ws_phase q = 2" "ws_need q = hlen" "ws_pktsize q = hlen + ws_mask_len q" "ws_size q = n"
    "ws_has_mask q = masked" "ws_is_fin q = fin" "ws_opcode q = of_nat oc"
    using q(1) r sh by (auto simp: rx_eq_def)
  have qi: "ws_inv cfg q" by (rule rx_eq_inv [OF q(1) _ q(2-4)]) (use r in blast)
  have c: "ws_cfg_ok cfg" using assms(1) by (simp add: mem_ok_def)
  have need: "ws_need q \<le> ub_pos b" using q(5) same(2) r by simp
  note i2 = phase23_ok(1) [OF c qi q(2) need same(1), of g]
  show ?thesis
  proof (cases masked)
    case False
    let ?r1 = "q\<lparr>ws_need := size_add (ws_need q) (ws_size q), ws_pktsize := size_add (ws_pktsize q) (ws_size q), ws_phase := 4\<rparr>"
    have st: "ws_phase2 g q = WsNext g ?r1" using same False by (simp add: ws_phase2_def)
    have "before_payload cfg s hlen n masked fin oc ?r1"
      using i2 q(6,7) same ov False unfolding st by (simp add: iter_ok_def before_payload_def ws_stream_def)
    moreover have "ws_loop cfg nb g r = ws_loop cfg nb g ?r1" using l st same(1) by (simp add: ws_parse_step_def)
    ultimately show ?thesis using False by (intro exI [of _ ?r1]) simp
  next
    case True
    let ?r1 = "q\<lparr>ws_need := ws_need q + 4, ws_phase := 3\<rparr>"
    have st: "ws_phase2 g q = WsNext g ?r1" using same True by (simp add: ws_phase2_def)
    have i1: "ws_inv cfg ?r1" using i2 unfolding st by (simp add: iter_ok_def)
    have l1: "ws_loop cfg nb g r = ws_loop cfg nb g ?r1" using l st same(1) by (simp add: ws_parse_step_def)
    have d: "data_only (ws_reads ?r1)" using q(7) by simp
    have "ws_need ?r1 \<le> length (ws_stream ?r1)" using assms(4) True q(6) same(2) by (simp add: ws_stream_def)
    from advance [OF assms(1) i1 d this, where nb = nb and g = g] obtain p b2 where p: "rx_eq ?r1 p" "ws_buf p = Some b2" "ub_inv b2" "ub_limit b2 = 0"
      "ws_need ?r1 \<le> ub_pos b2" "ws_stream p = ws_stream ?r1" "data_only (ws_reads p)" and
      l2: "ws_loop cfg nb g ?r1 =
        (case ws_parse_step cfg b2 g p of WsNext g1 r1 \<Rightarrow> ws_loop cfg nb g1 r1 | WsDone res g1 r1 \<Rightarrow> Some (res, g1, r1))"
      by blast
    have psame: "ws_phase p = 3" "ws_need p = hlen + 4" "ws_pktsize p = hlen + 4" "ws_size p = n"
      "ws_has_mask p = masked" "ws_is_fin p = fin" "ws_opcode p = of_nat oc"
      using p(1) same True by (auto simp: rx_eq_def)
    have pi: "ws_inv cfg p" by (rule rx_eq_inv [OF p(1) i1 p(2-4)])
    have need2: "ws_need p \<le> ub_pos b2" using p(5) psame(2) same(2) by simp
    let ?r2 = "p\<lparr>ws_pktsize := size_add (ws_pktsize p) (ws_size p), ws_need := size_add (ws_need p) (ws_size p), ws_phase := 4\<rparr>"
    have st2: "ws_phase3 g p = WsNext g ?r2" by (simp add: ws_phase3_def)
    have "before_payload cfg s (hlen + 4) n masked fin oc ?r2"
      using phase23_ok(2) [OF c pi p(2) need2 psame(1), of g] p(6,7) q(6) psame ov
      unfolding st2 by (simp add: iter_ok_def before_payload_def ws_stream_def)
    moreover have "ws_loop cfg nb g ?r1 = ws_loop cfg nb g ?r2" using l2 st2 psame(1) by (simp add: ws_parse_step_def)
    ultimately show ?thesis using True l1 by (intro exI [of _ ?r2]) simp
  qed
qed

lemma payload_of_stream:
  assumes "before_payload cfg s off n masked fin oc q" "ws_buf q = Some b" "ub_inv b" "off + n \<le> ub_pos b" "masked \<Longrightarrow> 4 \<le> off"
  shows "ws_payload b q = (if masked then unmask (take 4 (drop (off - 4) s)) 0 (take n (drop off s)) else take n (drop off s))"
proof -
  note q = assms(1) [unfolded before_payload_def]
  have "take n (drop off (ub_buf b)) = take n (drop off s)"
    using stream_take [OF assms(2,3,4)] q by simp
  moreover have "take 4 (drop (off - 4) (ub_buf b)) = take 4 (drop (off - 4) s)" if "masked"
    using stream_take [OF assms(2,3), of "off - 4" 4] q assms(4,5) that by simp
  ultimately show ?thesis using q by (simp add: ws_payload_def Let_def)
qed

lemma frame_payload:
  assumes "s = ws_frame fin oc mk payload @ extra" "\<And>m. mk = Some m \<Longrightarrow> length m = 4"
    and "hlen = 1 + length (ws_len_bytes 0 (length payload))" "off = hlen + (if mk \<noteq> None then 4 else 0)"
  shows "(if mk \<noteq> None then unmask (take 4 (drop (off - 4) s)) 0 (take (length payload) (drop off s))
      else take (length payload) (drop off s)) = payload"
    "drop (off + length payload) s = extra" "off + length payload \<le> length s"
proof -
  let ?b = "case mk of None \<Rightarrow> payload | Some m \<Rightarrow> m @ unmask m 0 payload"
  obtain h where h: "length h = hlen" and s: "s = h @ ?b @ extra"
  proof
    let ?h = "char_of (oc + (if fin then 128 else 0)) # ws_len_bytes (if mk = None then 0 else 128) (length payload)"
    show "length ?h = hlen" by (simp add: assms(3) ws_len_bytes_def u16be_def u64be_def)
    show "s = ?h @ ?b @ extra" by (simp add: assms(1) ws_frame_def)
  qed
  have payload: "(if mk \<noteq> None then unmask (take 4 (drop (off - 4) s)) 0 (take (length payload) (drop off s))
      else take (length payload) (drop off s)) = payload \<and>
    drop (off + length payload) s = extra \<and> off + length payload \<le> length s"
  proof (cases mk)
    case None
    with assms(4) s h show ?thesis by simp
  next
    case (Some m)
    then have m: "length m = 4" and off: "off = length (h @ m)" using assms(2,4) h by simp_all
    have "s = (h @ m) @ unmask m 0 payload @ extra" using Some s by simp
    then have 1: "drop off s = unmask m 0 payload @ extra" unfolding off by simp
    have 2: "drop (off - 4) s = m @ unmask m 0 payload @ extra" using Some s off m by simp
    have "drop (off + length payload) s = extra" "off + length payload \<le> length s"
      using Some s off by simp_all
    with 1 2 Some m show ?thesis by (simp add: unmask_unmask)
  qed
  show "(if mk \<noteq> None then unmask (take 4 (drop (off - 4) s)) 0 (take (length payload) (drop off s))
      else take (length payload) (drop off s)) = payload"
    "drop (off + length payload) s = extra" "off + length payload \<le> length s"
    using payload by auto
qed

lemma body_run:
  assumes "mem_ok cfg" "before_payload cfg s off n masked fin oc r" "off + n \<le> length s" "masked \<Longrightarrow> 4 \<le> off" "oc \<le> 2"
    and "payload = (if masked then unmask (take 4 (drop (off - 4) s)) 0 (take n (drop off s)) else take n (drop off s))"
    and "if oc = 0 then wv_continuation g = Some c \<and> ub_inv c \<and> ub_limit c = 0 \<and> pre = ub_content c else pre = []"
  shows "\<exists>g1 r1. ws_loop cfg nb g r = Some (WsMsg (if fin then pre @ payload else [CHR 0x00]), g1, r1) \<and>
    (if fin then wv_continuation g1 = None
     else \<exists>c1. wv_continuation g1 = Some c1 \<and> ub_inv c1 \<and> ub_limit c1 = 0 \<and> ub_content c1 = pre @ payload) \<and>
    ws_stream r1 = drop (off + n) s \<and> ws_inv cfg r1 \<and> ws_phase r1 = 0 \<and> data_only (ws_reads r1)"
proof -
  note r = assms(2) [unfolded before_payload_def]
  have need: "ws_need r \<le> length (ws_stream r)" using r assms(3) by simp
  from advance [OF assms(1) _ _ need, where nb = nb and g = g] r obtain q b where
    q: "rx_eq r q" "ws_buf q = Some b" "ub_inv b" "ub_limit b = 0" "ws_need r \<le> ub_pos b" "ws_stream q = ws_stream r"
    "data_only (ws_reads q)" and
    l: "ws_loop cfg nb g r =
      (case ws_parse_step cfg b g q of WsNext g1 r1 \<Rightarrow> ws_loop cfg nb g1 r1 | WsDone res g1 r1 \<Rightarrow> Some (res, g1, r1))"
    by blast
  have qi: "ws_inv cfg q" by (rule rx_eq_inv [OF q(1) _ q(2-4)]) (use r in blast)
  have bq: "before_payload cfg s off n masked fin oc q"
    using q(1,6,7) r qi by (auto simp: rx_eq_def before_payload_def)
  note f = bq [unfolded before_payload_def]
  have need': "off + n \<le> ub_pos b" using q(5) r by simp
  have sh: "2 + ws_mask_len q + ws_size q \<le> ws_pktsize q" using qi f by (auto simp: ws_inv_def ws_shape_def)
  have pk: "ws_pktsize q \<le> ub_pos b" "ws_pktsize q \<le> ub_len b" using need' f q(3) by (simp_all add: ub_inv_def)
  have pay: "ws_payload b q = payload" using payload_of_stream [OF bq q(2,3) need' assms(4)] assms(6) by simp
  note b1 = ws_unmasked_props [OF sh pk(1) q(3)]
  obtain u where u: "upsgi_buffer_decapitate (ws_unmasked b q) (ws_pktsize q) = Ok u" "ub_inv u" "ub_limit u = 0"
    "ub_content u = drop (ws_pktsize q) (ub_content b)"
    using decapitate_Ok [OF b1(1), of "ws_pktsize q"] pk(1) b1(2,3,5) q(4) by auto
  have lim: "\<And>n. realloc_ok (wsc_env cfg) n" using assms(1) by (simp add: mem_ok_def)
  have op: "ws_opcode q = of_nat oc" "(ws_opcode q = 0) = (oc = 0)" "ws_opcode q \<le> 2"
    using f assms(5) by (auto simp: word_le_nat_alt unat_of_nat unat_eq_0 [symmetric] simp del: unat_eq_0)
  obtain tgt where tgt: "(if ws_opcode q = 0 then wv_continuation g else Some (upsgi_buffer_new (wsc_env cfg) (ws_size q))) = Some tgt"
    "ub_inv tgt" "ub_limit tgt = 0" "ub_content tgt = pre"
    using assms(7) op(2) by (cases "oc = 0") (auto simp: upsgi_buffer_new_def ub_inv_def ub_content_def)
  obtain v where v: "upsgi_buffer_append (wsc_env cfg) tgt payload = Ok v" "ub_content v = pre @ payload" "ub_inv v" "ub_limit v = 0"
    using append_total [OF tgt(2,3) lim] tgt(4) by metis
  obtain z where z: "upsgi_buffer_append (wsc_env cfg) (upsgi_buffer_new (wsc_env cfg) 1) [CHR 0x00] = Ok z"
    "ub_content z = [CHR 0x00]"
    using append_total [of "upsgi_buffer_new (wsc_env cfg) 1" "wsc_env cfg" "[CHR 0x00]", OF _ _ lim]
    by (auto simp: upsgi_buffer_new_def ub_inv_def ub_content_def)
  let ?r1 = "q\<lparr>ws_buf := Some u, ws_phase := 0, ws_need := 2\<rparr>"
  have p: "upsgi_websockets_parse cfg b g q =
      (if fin then (WsMsg (pre @ payload), g\<lparr>wv_continuation := None\<rparr>, ?r1)
       else (WsMsg [CHR 0x00], g\<lparr>wv_continuation := Some v\<rparr>, ?r1))"
    unfolding parse_eq [OF sh pk(2)] tgt(1) pay using u(1) v(1,2) z f by (simp add: ws_finish_def)
  have sq: "ws_stream q = ub_content b @ pending (ws_remains q) (ws_reads q)"
    using q(2) by (simp add: ws_stream_def)
  have "off + n \<le> length (ub_content b)" using need' q(3) by (simp add: ub_content_def ub_inv_def)
  then have "ws_stream ?r1 = drop (off + n) (ws_stream q)"
    unfolding sq using u(4) f by (simp add: ws_stream_def drop_append)
  then have "ws_stream ?r1 = drop (off + n) s" using f by simp
  moreover have "ws_inv cfg ?r1" using u(2,3) inv_open [OF qi] by (simp add: ws_inv_def ws_shape_def)
  moreover have "ws_loop cfg nb g r =
      Some (WsMsg (if fin then pre @ payload else [CHR 0x00]), g\<lparr>wv_continuation := if fin then None else Some v\<rparr>, ?r1)"
    using l p f op(3) by (simp add: ws_parse_step_def ws_phase4_def)
  ultimately show ?thesis using v q(7) by auto
qed

lemma frame_run:
  assumes "mem_ok cfg" "srv_inv g" "ws_inv cfg r" "ws_phase r = 0" "data_only (ws_reads r)"
    and "ws_stream r = ws_frame fin oc mk payload @ extra" "oc \<le> 2" "length payload \<le> ws_cap cfg"
    and "\<And>m. mk = Some m \<Longrightarrow> length m = 4"
  shows "\<exists>q off. ws_loop cfg nb g r = ws_loop cfg nb g q \<and>
    before_payload cfg (ws_stream r) off (length payload) (mk \<noteq> None) fin oc q \<and>
    off + length payload \<le> length (ws_stream r) \<and> (mk \<noteq> None \<longrightarrow> 4 \<le> off) \<and>
    payload = (if mk \<noteq> None then unmask (take 4 (drop (off - 4) (ws_stream r))) 0 (take (length payload) (drop off (ws_stream r)))
      else take (length payload) (drop off (ws_stream r))) \<and>
    drop (off + length payload) (ws_stream r) = extra"
proof -
  define hlen where "hlen = 1 + length (ws_len_bytes 0 (length payload))"
  define off where "off = hlen + (if mk \<noteq> None then 4 else 0)"
  note fp = frame_payload [OF assms(6,9) hlen_def off_def]
  have oc: "oc < 16" using assms(7) by simp
  from header_run [OF assms(1-6) oc assms(8), where nb = nb] obtain p where
    p: "ws_loop cfg nb g r = ws_loop cfg nb g p"
      "after_header cfg (ws_stream r) hlen (length payload) (mk \<noteq> None) fin oc p"
    unfolding hlen_def by blast
  from mask_run [OF assms(1,2) p(2)] fp(3) obtain q where "ws_loop cfg nb g p = ws_loop cfg nb g q"
    "before_payload cfg (ws_stream r) off (length payload) (mk \<noteq> None) fin oc q"
    unfolding off_def by fastforce
  with p(1) fp show ?thesis by (intro exI [of _ q] exI [of _ off]) (auto simp: off_def)
qed

text \<open>The part of a message the shared buffer holds.\<close>

definition ws_held :: "ws_srv \<Rightarrow> char list \<Rightarrow> bool" where
  "ws_held g pre \<longleftrightarrow> (\<exists>c. wv_continuation g = Some c \<and> ub_inv c \<and> ub_limit c = 0 \<and> ub_content c = pre)"

text \<open>A connection at a frame boundary with only data to come.\<close>

definition ws_at :: "ws_cfg \<Rightarrow> char list \<Rightarrow> ws_req \<Rightarrow> bool" where
  "ws_at cfg s r \<longleftrightarrow> ws_ready cfg r \<and> ws_phase r = 0 \<and> data_only (ws_reads r) \<and> ws_stream r = s"

definition frame_fits :: "ws_cfg \<Rightarrow> char list option \<times> char list \<Rightarrow> bool" where
  "frame_fits cfg f \<longleftrightarrow> length (snd f) \<le> ws_cap cfg \<and> (case fst f of None \<Rightarrow> True | Some m \<Rightarrow> length m = 4)"

lemma ws_at_start:
  assumes "ws_at cfg s r"
  shows "ws_inv cfg (ws_start cfg r)" "ws_phase (ws_start cfg r) = 0" "data_only (ws_reads (ws_start cfg r))"
    "ws_stream (ws_start cfg r) = s" "\<not> ws_closed r"
  using assms start_inv [of cfg r] ready_open [of cfg r]
  by (auto simp: ws_at_def ws_start_def ws_stream_def upsgi_buffer_new_def ub_content_def split: option.splits)

lemma recv_frame:
  assumes "mem_ok cfg" "srv_inv g" "ws_at cfg (ws_frame fin oc mk payload @ extra) r" "oc \<le> 2" "frame_fits cfg (mk, payload)"
    and "if oc = 0 then ws_held g pre else pre = []"
  shows "\<exists>g1 r1. upsgi_websocket_recv cfg g r = Some (WsMsg (if fin then pre @ payload else [CHR 0x00]), g1, r1) \<and>
    (if fin then wv_continuation g1 = None else ws_held g1 (pre @ payload)) \<and> ws_at cfg extra r1"
proof -
  let ?r = "ws_start cfg r"
  note at = ws_at_start [OF assms(3)]
  have fit: "length payload \<le> ws_cap cfg" "\<And>m. mk = Some m \<Longrightarrow> length m = 4"
    using assms(5) by (auto simp: frame_fits_def)
  from frame_run [OF assms(1,2) at(1-4) assms(4) fit, where nb = False] at(4) obtain q off where
    q: "ws_loop cfg False g ?r = ws_loop cfg False g q"
      "before_payload cfg (ws_stream ?r) off (length payload) (mk \<noteq> None) fin oc q"
      "off + length payload \<le> length (ws_stream ?r)" "mk \<noteq> None \<Longrightarrow> 4 \<le> off"
      "payload = (if mk \<noteq> None then unmask (take 4 (drop (off - 4) (ws_stream ?r))) 0 (take (length payload) (drop off (ws_stream ?r)))
        else take (length payload) (drop off (ws_stream ?r)))"
      "drop (off + length payload) (ws_stream ?r) = extra"
    by metis
  from assms(6) obtain c where "if oc = 0 then wv_continuation g = Some c \<and> ub_inv c \<and> ub_limit c = 0 \<and> pre = ub_content c
      else pre = []"
    by (auto simp: ws_held_def split: if_splits)
  from body_run [OF assms(1) q(2-4) assms(4) q(5) this, where nb = False] obtain g1 r1 where
    b: "ws_loop cfg False g q = Some (WsMsg (if fin then pre @ payload else [CHR 0x00]), g1, r1)"
      "if fin then wv_continuation g1 = None else ws_held g1 (pre @ payload)"
      "ws_at cfg extra r1"
    using q(6) inv_ready unfolding ws_held_def ws_at_def by metis
  then show ?thesis using q(1) at(5)
    by (intro exI [of _ g1] exI [of _ r1])
      (simp add: upsgi_websocket_recv_def ws_recv_op_def upsgi_websocket_recv_do_def)
qed

text \<open>A message in fragments: the first frame has the message's opcode, the others opcode 0.\<close>

fun ws_fragments :: "nat \<Rightarrow> (char list option \<times> char list) list \<Rightarrow> char list" where
  "ws_fragments oc [] = []"
| "ws_fragments oc [(mk, p)] = ws_frame True oc mk p"
| "ws_fragments oc ((mk, p) # f # fs) = ws_frame False oc mk p @ ws_fragments 0 (f # fs)"

text \<open>\<open>n\<close> calls in a row.\<close>

fun ws_recv_all :: "ws_cfg \<Rightarrow> nat \<Rightarrow> ws_srv \<Rightarrow> ws_req \<Rightarrow> (ws_res list \<times> ws_srv \<times> ws_req) option" where
  "ws_recv_all cfg 0 g r = Some ([], g, r)"
| "ws_recv_all cfg (Suc n) g r =
     (case upsgi_websocket_recv cfg g r of
        None \<Rightarrow> None
      | Some (res, g1, r1) \<Rightarrow> map_option (\<lambda>(rs, g2, r2). (res # rs, g2, r2)) (ws_recv_all cfg n g1 r1))"

lemma held_srv_inv: "ws_held g pre \<Longrightarrow> srv_inv g" "wv_continuation g = None \<Longrightarrow> srv_inv g"
  by (auto simp: ws_held_def srv_inv_def)

lemma recv_fragments:
  assumes "mem_ok cfg"
  shows "ws_at cfg (ws_fragments oc fs @ extra) r \<Longrightarrow> srv_inv g \<Longrightarrow> fs \<noteq> [] \<Longrightarrow> oc \<le> 2 \<Longrightarrow> list_all (frame_fits cfg) fs \<Longrightarrow>
    (if oc = 0 then ws_held g pre else pre = []) \<Longrightarrow>
    \<exists>g1 r1. ws_recv_all cfg (length fs) g r =
      Some (replicate (length fs - 1) (WsMsg [CHR 0x00]) @ [WsMsg (pre @ concat (map snd fs))], g1, r1) \<and>
      wv_continuation g1 = None \<and> ws_at cfg extra r1"
proof (induction oc fs arbitrary: g r pre rule: ws_fragments.induct)
  case (2 oc mk p)
  then have "ws_at cfg (ws_frame True oc mk p @ extra) r" "frame_fits cfg (mk, p)" by simp_all
  from recv_frame [OF assms(1) 2(2) this(1) 2(4) this(2) 2(6)] show ?case by auto
next
  case (3 oc mk p f fs)
  then have "ws_at cfg (ws_frame False oc mk p @ ws_fragments 0 (f # fs) @ extra) r" "frame_fits cfg (mk, p)"
    by simp_all
  from recv_frame [OF assms(1) 3(3) this(1) 3(5) this(2) 3(7)] obtain g1 r1 where 1: "upsgi_websocket_recv cfg g r = Some (WsMsg [CHR 0x00], g1, r1)"
    "ws_held g1 (pre @ p)" "ws_at cfg (ws_fragments 0 (f # fs) @ extra) r1"
    by auto
  from 3(1) [OF 1(3) held_srv_inv(1) [OF 1(2)], of "pre @ p"] 3(6) 1(2) obtain g2 r2 where
    "ws_recv_all cfg (length (f # fs)) g1 r1 =
      Some (replicate (length (f # fs) - 1) (WsMsg [CHR 0x00]) @ [WsMsg ((pre @ p) @ concat (map snd (f # fs)))], g2, r2)"
    "wv_continuation g2 = None" "ws_at cfg extra r2"
    by auto
  with 1(1) show ?case by simp
qed simp

text \<open>A connection without input yet, for concrete runs.\<close>

definition ws_cfg0 :: ws_cfg where
  "ws_cfg0 = \<lparr>wsc_wr = wr_cfg0, wsc_ping_freq = 30, wsc_pong_tolerance = 3, wsc_max_size = 1, wsc_clock = (\<lambda>t. int t)\<rparr>"

definition ws_req0 :: "read_ev list \<Rightarrow> ws_req" where
  "ws_req0 evs = \<lparr>ws_out = wr_req0 [], ws_buf = None, ws_send_buf = None, ws_need = 0, ws_phase = 0, ws_opcode = 0,
     ws_is_fin = False, ws_has_mask = False, ws_size = 0, ws_pktsize = 0, ws_last_ping = 0, ws_last_pong = 0,
     ws_closed = False, ws_remains = [], ws_reads = evs, ws_waits = [], ws_ticks = 0\<rparr>"

abbreviation ws_srv0 :: ws_srv where
  "ws_srv0 \<equiv> \<lparr>wv_continuation = None\<rparr>"

lemma ws0_ok: "mem_ok ws_cfg0" "ws_cfg_ok ws_cfg0" "srv_inv ws_srv0" "ws_ready ws_cfg0 (ws_req0 evs)" "125 \<le> ws_cap ws_cfg0"
  by (simp_all add: mem_ok_def ws_cfg_ok_def ws_cap_def ws_cfg0_def wr_cfg0_def srv_inv_def ws_ready_def ws_req0_def)

lemma ws0_at: "s \<noteq> [] \<Longrightarrow> ws_at ws_cfg0 s (ws_req0 [RData s])"
  using ws0_ok(4) [of "[RData s]"] by (simp add: ws_at_def ws_req0_def data_only_def ws_stream_def pending_def)

theorem websocket_recv_terminates_witness:
  "\<exists>res g1 r1. upsgi_websocket_recv ws_cfg0 ws_srv0 (ws_req0 [RAgain, RData ''abc'', REof]) = Some (res, g1, r1) \<and> srv_inv g1"
  using websocket_recv_terminates [OF ws0_ok(2-4), of "[RAgain, RData ''abc'', REof]"] by blast

text \<open>C6: a message, in one frame or in any number of fragments, masked or not, arriving in pieces of any
  size, is received as it was sent: every fragment but the last gives the application a message of one zero
  byte and the last one the whole message, and the bytes behind it are left for the next call.\<close>

theorem websocket_message_roundtrip:
  assumes "mem_ok cfg" "srv_inv g" "ws_at cfg (ws_fragments oc fs @ extra) r"
    and "fs \<noteq> []" "oc = 1 \<or> oc = 2" "list_all (frame_fits cfg) fs"
  shows "\<exists>g1 r1. ws_recv_all cfg (length fs) g r =
      Some (replicate (length fs - 1) (WsMsg [CHR 0x00]) @ [WsMsg (concat (map snd fs))], g1, r1) \<and>
    wv_continuation g1 = None \<and> ws_at cfg extra r1"
  using recv_fragments [OF assms(1,3,2,4) _ assms(6), of "[]"] assms(5) by auto

theorem websocket_message_roundtrip_witness:
  "\<exists>g1 r1. ws_recv_all ws_cfg0 2 ws_srv0
      (ws_req0 [RData (ws_fragments 1 [(Some ''wxyz'', ''hel''), (None, ''lo'')])]) =
    Some ([WsMsg [CHR 0x00], WsMsg ''hello''], g1, r1)"
proof -
  let ?fs = "[(Some ''wxyz'', ''hel''), (None, ''lo'')]"
  have "list_all (frame_fits ws_cfg0) ?fs" using ws0_ok(5) by (simp add: frame_fits_def)
  moreover have "ws_at ws_cfg0 (ws_fragments 1 ?fs @ []) (ws_req0 [RData (ws_fragments 1 ?fs)])"
    using ws0_at [of "ws_fragments 1 ?fs"] by (simp add: ws_frame_def)
  ultimately obtain g1 r1 where r: "ws_recv_all ws_cfg0 (length ?fs) ws_srv0 (ws_req0 [RData (ws_fragments 1 ?fs)]) =
      Some (replicate (length ?fs - 1) (WsMsg [CHR 0x00]) @ [WsMsg (concat (map snd ?fs))], g1, r1)"
    using websocket_message_roundtrip [OF ws0_ok(1,3), of 1 ?fs "[]"] by blast
  have "length ?fs = 2" "replicate (length ?fs - 1) (WsMsg [CHR 0x00]) @ [WsMsg (concat (map snd ?fs))] =
      [WsMsg [CHR 0x00], WsMsg ''hello'']" by simp_all
  with r have "ws_recv_all ws_cfg0 2 ws_srv0 (ws_req0 [RData (ws_fragments 1 ?fs)]) =
      Some ([WsMsg [CHR 0x00], WsMsg ''hello''], g1, r1)" by metis
  then show ?thesis by (intro exI)
qed

text \<open>the fragments of all connections are collected in one buffer of the server.  When one connection
  has sent a first fragment and another one sends a continuation, the second one receives the fragment of the
  first: a message nobody sent, and data of one client given to another.\<close>

theorem websocket_fragments_mix:
  assumes "mem_ok cfg" "srv_inv g" "oc = 1 \<or> oc = 2" "frame_fits cfg (mk, p)" "frame_fits cfg (mk', p')"
    and "ws_at cfg (ws_frame False oc mk p @ extra) a" "ws_at cfg (ws_frame True 0 mk' p' @ extra') b"
  shows "\<exists>g1 a1 g2 b1. upsgi_websocket_recv cfg g a = Some (WsMsg [CHR 0x00], g1, a1) \<and>
    upsgi_websocket_recv cfg g1 b = Some (WsMsg (p @ p'), g2, b1)"
proof -
  from recv_frame [OF assms(1,2,6) _ assms(4), of "[]"] assms(3) obtain g1 a1 where
    a: "upsgi_websocket_recv cfg g a = Some (WsMsg [CHR 0x00], g1, a1)" "ws_held g1 p"
    by auto
  from recv_frame [OF assms(1) held_srv_inv(1) [OF a(2)] assms(7) _ assms(5), of p] a show ?thesis by auto
qed

theorem websocket_fragments_mix_witness:
  "\<exists>g1 a1 g2 b1.
     upsgi_websocket_recv ws_cfg0 ws_srv0 (ws_req0 [RData (ws_frame False 1 None ''secret'')]) =
       Some (WsMsg [CHR 0x00], g1, a1) \<and>
     upsgi_websocket_recv ws_cfg0 g1 (ws_req0 [RData (ws_frame True 0 None ''!'')]) = Some (WsMsg ''secret!'', g2, b1)"
  using websocket_fragments_mix [OF ws0_ok(1,3), of 1 None "''secret''" None "''!''" "[]" _ "[]"]
    ws0_at [of "ws_frame False 1 None ''secret''"] ws0_at [of "ws_frame True 0 None ''!''"] ws0_ok(5)
  by (simp add: frame_fits_def ws_frame_def)

text \<open>a continuation frame that continues nothing makes the server read through a null pointer: any
  client with an open websocket can end the worker with one frame.\<close>

theorem websocket_orphan_continuation:
  assumes "mem_ok cfg" "wv_continuation g = None" "frame_fits cfg (mk, p)"
    and "ws_at cfg (ws_frame fin 0 mk p @ extra) r"
  shows "\<exists>g1 r1. upsgi_websocket_recv cfg g r = Some (WsFault, g1, r1)"
proof -
  let ?r = "ws_start cfg r"
  note at = ws_at_start [OF assms(4)]
  have fit: "length p \<le> ws_cap cfg" "\<And>m. mk = Some m \<Longrightarrow> length m = 4"
    using assms(3) by (auto simp: frame_fits_def)
  from frame_run [OF assms(1) held_srv_inv(2) [OF assms(2)] at(1-4) _ fit, where nb = False] obtain q off where
    q: "ws_loop cfg False g ?r = ws_loop cfg False g q"
      "before_payload cfg (ws_stream ?r) off (length p) (mk \<noteq> None) fin 0 q" "off + length p \<le> length (ws_stream ?r)"
    by auto
  note f = q(2) [unfolded before_payload_def]
  from advance [OF assms(1), of q False g] f q(3) obtain s b where
    s: "rx_eq q s" "ws_buf s = Some b" "ub_inv b" "ub_limit b = 0" "ws_need q \<le> ub_pos b" and
    l: "ws_loop cfg False g q =
      (case ws_parse_step cfg b g s of WsNext g1 r1 \<Rightarrow> ws_loop cfg False g1 r1 | WsDone res g1 r1 \<Rightarrow> Some (res, g1, r1))"
    by (metis le_refl)
  have si: "ws_inv cfg s" by (rule rx_eq_inv [OF s(1) _ s(2-4)]) (use f in blast)
  have same: "ws_phase s = 4" "ws_opcode s = 0" "ws_need s = ws_need q" using s(1) f by (auto simp: rx_eq_def)
  have sh: "2 + ws_mask_len s + ws_size s \<le> ws_pktsize s" "ws_pktsize s = ws_need s"
    using si same(1) by (auto simp: ws_inv_def ws_shape_def)
  have "ws_pktsize s \<le> ub_len b" using sh(2) same(3) s(3,5) by (simp add: ub_inv_def)
  from parse_eq [OF sh(1) this, of cfg g] same assms(2) have "fst (upsgi_websockets_parse cfg b g s) = WsFault" by simp
  with l same(1,2) q(1) at(5) show ?thesis
    by (auto simp: upsgi_websocket_recv_def ws_recv_op_def upsgi_websocket_recv_do_def ws_parse_step_def ws_phase4_def
        split: prod.splits)
qed

theorem websocket_orphan_continuation_witness:
  "\<exists>g1 r1. upsgi_websocket_recv ws_cfg0 ws_srv0 (ws_req0 [RData (ws_frame True 0 (Some ''wxyz'') [])]) =
     Some (WsFault, g1, r1)"
  using websocket_orphan_continuation [OF ws0_ok(1), of ws_srv0 "Some ''wxyz''" "[]" True "[]"]
    ws0_at [of "ws_frame True 0 (Some ''wxyz'') []"] ws0_ok(5)
  by (simp add: frame_fits_def ws_frame_def)

section \<open>Messages the server sends\<close>

lemma byte_of_0: "n < 256 \<Longrightarrow> byte_of 0 (of_nat n :: 8 word) = char_of n"
proof -
  assume "n < 256"
  then have "of_char (byte_of 0 (of_nat n :: 8 word)) = n" by (simp add: of_char_byte_of unat_of_nat)
  then show ?thesis by (metis char_of_char)
qed

lemma message_bytes:
  assumes "mem_ok cfg" "case ws_send_buf r of None \<Rightarrow> True | Some b \<Rightarrow> ub_inv b \<and> ub_limit b = 0"
  shows "\<exists>u. upsgi_websocket_message cfg msg w r = Ok u \<and> ub_inv u \<and> ub_limit u = 0 \<and>
    ub_content u = byte_of 0 w # ws_len_bytes 0 (length msg) @ msg"
proof -
  have ok: "\<And>n. realloc_ok (wsc_env cfg) n" using assms(1) by (simp add: mem_ok_def)
  note tot = append_total [OF _ _ ok]
  let ?n = "length msg"
  define b where "b = (case ws_send_buf r of None \<Rightarrow> upsgi_buffer_new (wsc_env cfg) (10 + ?n) | Some b \<Rightarrow> b\<lparr>ub_pos := 0\<rparr>)"
  have b: "ub_inv b" "ub_limit b = 0" "ub_content b = []"
    using assms(2) by (auto simp: b_def upsgi_buffer_new_def ub_inv_def ub_content_def split: option.splits)
  obtain u1 where u1: "upsgi_buffer_u8 (wsc_env cfg) b w = Ok u1" "ub_content u1 = [byte_of 0 w]" "ub_inv u1" "ub_limit u1 = 0"
    using tot [OF b(1,2), of "[byte_of 0 w]"] b(3) by (auto simp: upsgi_buffer_u8_def)
  obtain u2 where u2: "(if ?n < 126 then upsgi_buffer_u8 (wsc_env cfg) u1 (of_nat ?n)
      else if ?n \<le> 0xffff then c_bind (upsgi_buffer_u8 (wsc_env cfg) u1 126) (\<lambda>u2. upsgi_buffer_u16be (wsc_env cfg) u2 (of_nat ?n))
      else c_bind (upsgi_buffer_u8 (wsc_env cfg) u1 127) (\<lambda>u2. upsgi_buffer_u64be (wsc_env cfg) u2 (of_nat ?n))) = Ok u2"
    "ub_content u2 = byte_of 0 w # ws_len_bytes 0 ?n" "ub_inv u2" "ub_limit u2 = 0"
  proof (cases "?n < 126")
    case True
    with tot [OF u1(3,4), of "[byte_of 0 (of_nat ?n :: 8 word)]"] u1(2) byte_of_0 [of ?n] that show ?thesis
      by (auto simp: upsgi_buffer_u8_def ws_len_bytes_def)
  next
    case False
    let ?k = "if ?n \<le> 0xffff then 126 else 127 :: nat"
    obtain v where v: "upsgi_buffer_u8 (wsc_env cfg) u1 (of_nat ?k) = Ok v" "ub_content v = [byte_of 0 w, char_of ?k]"
      "ub_inv v" "ub_limit v = 0"
      using tot [OF u1(3,4), of "[byte_of 0 (of_nat ?k :: 8 word)]"] u1(2) byte_of_0 [of ?k]
      by (auto simp: upsgi_buffer_u8_def)
    from False v tot [OF v(3,4), of "if ?n \<le> 0xffff then u16be (of_nat ?n) else u64be (of_nat ?n)"] that show ?thesis
      by (auto simp: upsgi_buffer_u16be_def upsgi_buffer_u64be_def ws_len_bytes_def split: if_splits)
  qed
  have "upsgi_websocket_message cfg msg w r = upsgi_buffer_append (wsc_env cfg) u2 msg"
    unfolding upsgi_websocket_message_def Let_def b_def [symmetric] by (simp only: u1(1) u2(1) c_bind.simps)
  with tot [OF u2(3,4), of msg] u2(2) show ?thesis by auto
qed

text \<open>what the server sends as a message is one frame, final and unmasked, and a receiver that gets it,
  in pieces of any size, gets the message back.\<close>

theorem websocket_send_receive:
  assumes "mem_ok cfg" "case ws_send_buf r of None \<Rightarrow> True | Some b \<Rightarrow> ub_inv b \<and> ub_limit b = 0"
    and "oc = 1 \<or> oc = 2" "length msg \<le> ws_cap cfg" "srv_inv g"
  shows "\<exists>u. upsgi_websocket_message cfg msg (of_nat (128 + oc)) r = Ok u \<and> ub_content u = ws_frame True oc None msg \<and>
    (\<forall>q. ws_at cfg (ub_content u) q \<longrightarrow>
      (\<exists>g1 q1. upsgi_websocket_recv cfg g q = Some (WsMsg msg, g1, q1) \<and> ws_at cfg [] q1))"
proof -
  obtain u where u: "upsgi_websocket_message cfg msg (of_nat (128 + oc)) r = Ok u"
    "ub_content u = byte_of 0 (of_nat (128 + oc) :: 8 word) # ws_len_bytes 0 (length msg) @ msg"
    using message_bytes [OF assms(1,2)] by blast
  have "byte_of 0 (of_nat (128 + oc) :: 8 word) = char_of (oc + 128)"
    using byte_of_0 [of "128 + oc"] assms(3) by (auto simp: add.commute)
  with u(2) have c: "ub_content u = ws_frame True oc None msg @ []" by (simp add: ws_frame_def)
  have f: "frame_fits cfg (None, msg)" using assms(4) by (simp add: frame_fits_def)
  have "\<exists>g1 q1. upsgi_websocket_recv cfg g q = Some (WsMsg msg, g1, q1) \<and> ws_at cfg [] q1" if "ws_at cfg (ub_content u) q" for q
    using recv_frame [OF assms(1,5) _ _ f, of True oc "[]" q "[]"] that assms(3) unfolding c by auto
  with u(1) c show ?thesis by auto
qed

theorem websocket_send_receive_witness:
  "\<exists>u. upsgi_websocket_message ws_cfg0 ''hi'' 0x81 (ws_req0 []) = Ok u \<and> ub_content u = [CHR 0x81, CHR 0x02] @ ''hi'' \<and>
     (\<exists>g1 q1. upsgi_websocket_recv ws_cfg0 ws_srv0 (ws_req0 [RData (ub_content u)]) = Some (WsMsg ''hi'', g1, q1))"
proof -
  have s: "case ws_send_buf (ws_req0 []) of None \<Rightarrow> True | Some b \<Rightarrow> ub_inv b \<and> ub_limit b = 0"
    and l: "length ''hi'' \<le> ws_cap ws_cfg0" and w: "of_nat (128 + 1) = (0x81 :: 8 word)"
    using ws0_ok(5) by (simp_all add: ws_req0_def)
  obtain u where u: "upsgi_websocket_message ws_cfg0 ''hi'' 0x81 (ws_req0 []) = Ok u" "ub_content u = ws_frame True 1 None ''hi''"
    "\<forall>q. ws_at ws_cfg0 (ub_content u) q \<longrightarrow>
      (\<exists>g1 q1. upsgi_websocket_recv ws_cfg0 ws_srv0 q = Some (WsMsg ''hi'', g1, q1) \<and> ws_at ws_cfg0 [] q1)"
    using websocket_send_receive [OF ws0_ok(1) s disjI1 [OF refl] l ws0_ok(3)] unfolding w by blast
  have c: "ub_content u = [CHR 0x81, CHR 0x02] @ ''hi''" unfolding u(2) by code_simp
  then have "ws_at ws_cfg0 (ub_content u) (ws_req0 [RData (ub_content u)])" by (intro ws0_at) simp
  with u(1,3) c show ?thesis by blast
qed

end
