(* ===== verification/Upsgi_Bitmap.thy ===== *)
theory Upsgi_Bitmap
  imports Upsgi_Prelude
begin

text \<open>
  The block allocator of the cache, the first part of \<open>core/cache.c\<close>: a bitmap with one bit per block,
  the highest bit of a byte first, a set bit for a used block.  \<open>None\<close> is an access outside the bitmap.
  The specification is the predicate \<open>used\<close> on block numbers: marking adds a run of blocks to it,
  unmarking removes it, and a search that succeeds returns a free run.
\<close>

section \<open>The operations\<close>

definition needed_blocks :: "nat \<Rightarrow> nat \<Rightarrow> nat" where
  "needed_blocks blocksize need = need div blocksize + (if need mod blocksize > 0 then 1 else 0)"

text \<open>The inner loop of \<open>upsgi_cache_find_free_blocks\<close>, over the bits of byte \<open>j\<close> from position \<open>bit_pos\<close> on:
  a run that is long enough, or the length and the start of the run the byte ends with.\<close>

function scan_bits :: "8 word \<Rightarrow> nat \<Rightarrow> nat \<Rightarrow> nat \<Rightarrow> nat \<Rightarrow> nat option \<Rightarrow> nat + (nat \<times> nat option)" where
  "scan_bits num j bit_pos needed found base =
     (if bit_pos \<ge> 8 then Inr (found, base)
      else if bit num (7 - bit_pos) then scan_bits num j (bit_pos + 1) needed 0 None
      else
       (let b = (case base of None \<Rightarrow> j * 8 + bit_pos | Some b \<Rightarrow> b) in
        if found + 1 = needed then Inl b
        else scan_bits num j (bit_pos + 1) needed (found + 1) (Some b)))"
  by pat_completeness auto
termination by (relation "measure (\<lambda>(_, _, p, _). 8 - p)") auto

declare scan_bits.simps [simp del]

text \<open>The outer loop: \<open>need_to_scan\<close> bytes from byte \<open>j\<close> on, with a fresh run after the end of the map.  The
  start bit holds for the start byte until the scan wraps.\<close>

definition no_block :: nat where
  "no_block = 18446744073709551615"

fun scan_bytes ::
    "8 word list \<Rightarrow> nat \<Rightarrow> nat \<Rightarrow> nat \<Rightarrow> nat \<Rightarrow> nat \<Rightarrow> nat \<Rightarrow> nat option \<Rightarrow> nat option" where
  "scan_bytes bm start needed 0 bitmap_bit j found base = Some no_block"
| "scan_bytes bm start needed (Suc n) bitmap_bit j found base =
     (if j \<ge> length bm then None
      else
       (case scan_bits (bm ! j) j (if j = start then bitmap_bit else 0) needed found base of
          Inl r \<Rightarrow> Some r
        | Inr (found1, base1) \<Rightarrow>
            if j + 1 \<ge> length bm then scan_bytes bm start needed n 0 0 0 None
            else scan_bytes bm start needed n bitmap_bit (j + 1) found1 base1))"

definition upsgi_cache_find_free_blocks :: "8 word list \<Rightarrow> nat \<Rightarrow> nat \<Rightarrow> nat \<Rightarrow> nat option" where
  "upsgi_cache_find_free_blocks bm pos blocksize need =
     (let byte0 = pos div 8; bit0 = pos mod 8 in
      scan_bytes bm byte0 (needed_blocks blocksize need) (length bm + (if bit0 > 0 then 1 else 0)) bit0 byte0 0 None)"

text \<open>Marking and unmarking touch the same bytes: \<open>edge\<close> is applied to the first and the last one with the
  mask of the run, those between are set to \<open>fill\<close>.\<close>

definition run_mask :: "nat \<Rightarrow> nat \<Rightarrow> bool \<Rightarrow> 8 word" where
  "run_mask first_bit last_bit single =
     (let m = drop_bit first_bit 0xff in
      if single then push_bit (7 - last_bit) (drop_bit (7 - last_bit) m) else m)"

definition touch_blocks ::
    "(8 word \<Rightarrow> 8 word \<Rightarrow> 8 word) \<Rightarrow> 8 word \<Rightarrow> 8 word list \<Rightarrow> nat \<Rightarrow> nat \<Rightarrow> 8 word list option" where
  "touch_blocks edge fill bm index n =
     (let first_byte = index div 8; last = size_sub (index + n) 1; last_byte = last div 8;
          last_bit = last mod 8; bytes = size_add (size_sub last_byte first_byte) 1;
          bm1 = bm[first_byte := edge (bm ! first_byte) (run_mask (index mod 8) last_bit (bytes = 1))];
          bm2 = (if bytes > 1 then bm1[last_byte := edge (bm1 ! last_byte) (push_bit (7 - last_bit) 0xff)] else bm1)
      in
      if first_byte \<ge> length bm \<or> bytes > 1 \<and> last_byte \<ge> length bm then None
      else if bytes > 2 then mem_write bm2 (first_byte + 1) (replicate (bytes - 2) fill)
      else Some bm2)"

definition cache_mark_blocks :: "8 word list \<Rightarrow> nat \<Rightarrow> nat \<Rightarrow> nat \<Rightarrow> 8 word list option" where
  "cache_mark_blocks bm blocksize index len = touch_blocks (OR) 0xff bm index (needed_blocks blocksize len)"

definition cache_unmark_blocks :: "8 word list \<Rightarrow> nat \<Rightarrow> nat \<Rightarrow> nat \<Rightarrow> 8 word list option" where
  "cache_unmark_blocks bm blocksize index len =
     touch_blocks (\<lambda>w m. w AND NOT m) 0 bm index (needed_blocks blocksize len)"

text \<open>The bitmap of \<open>upsgi_cache_init\<close>: the bits behind the last block are set.\<close>

definition bitmap_init :: "nat \<Rightarrow> 8 word list" where
  "bitmap_init blocks =
     (let m = blocks mod 8; bm = replicate (blocks div 8 + (if m > 0 then 1 else 0)) 0 in
      if m > 0 then bm[length bm - 1 := drop_bit m 0xff] else bm)"

section \<open>Marking\<close>

definition used :: "8 word list \<Rightarrow> nat \<Rightarrow> bool" where
  "used bm k \<longleftrightarrow> k div 8 < length bm \<and> bit (bm ! (k div 8)) (7 - k mod 8)"

lemma bit_255: "bit (0xff :: int) k \<longleftrightarrow> k < 8"
proof -
  have "(0xff :: int) = mask 8" by (simp add: mask_eq_exp_minus_1)
  then have "bit (0xff :: int) k \<longleftrightarrow> bit (mask 8 :: int) k" by (rule arg_cong)
  then show ?thesis by (auto simp: bit_mask_iff)
qed

lemma bit_run_mask:
  assumes "p < 8" "first_bit < 8" "last_bit < 8"
  shows "bit (run_mask first_bit last_bit single) (7 - p) \<longleftrightarrow> first_bit \<le> p \<and> (single \<longrightarrow> p \<le> last_bit)"
  using assms by (auto simp: run_mask_def Let_def bit_drop_bit_eq bit_push_bit_iff bit_255)

lemma bit_tail_mask:
  assumes "p < 8" "last_bit < 8"
  shows "bit (push_bit (7 - last_bit) (0xff :: 8 word)) (7 - p) \<longleftrightarrow> p \<le> last_bit"
  using assms by (auto simp: bit_push_bit_iff bit_255)

text \<open>What a byte of the map becomes.\<close>

lemma touch_bytes:
  assumes "0 < n" "index + n \<le> 8 * length bm" "length bm < 2 ^ 60"
    and "touch_blocks edge fill bm index n = Some bm'"
  shows "length bm' = length bm \<and> (\<forall>j < length bm. bm' ! j =
     (let f = index div 8; l = (index + n - 1) div 8 in
      if j = f then edge (bm ! j) (run_mask (index mod 8) ((index + n - 1) mod 8) (f = l))
      else if j = l then edge (bm ! j) (push_bit (7 - (index + n - 1) mod 8) 0xff)
      else if f < j \<and> j < l then fill else bm ! j))"
proof -
  define f where "f = index div 8"
  define l where "l = (index + n - 1) div 8"
  have fl: "f \<le> l" "l < length bm" using assms(1,2) by (auto simp: f_def l_def div_le_mono)
  have s: "size_sub (index + n) 1 = index + n - 1" using assms(1) by simp
  have b: "size_add (size_sub l f) 1 = l - f + 1" using fl assms(3) by simp
  show ?thesis
    using assms(4) fl
    unfolding touch_blocks_def Let_def s f_def [symmetric] l_def [symmetric] b
    by (auto simp: nth_list_update mem_write_def nth_append min_def split: if_splits)
qed

lemma touch_total:
  assumes "0 < n" "index + n \<le> 8 * length bm" "length bm < 2 ^ 60"
  shows "\<exists>bm'. touch_blocks edge fill bm index n = Some bm'"
proof -
  define f where "f = index div 8"
  define l where "l = (index + n - 1) div 8"
  have fl: "f \<le> l" "l < length bm" using assms(1,2) by (auto simp: f_def l_def div_le_mono)
  have s: "size_sub (index + n) 1 = index + n - 1" using assms(1) by simp
  have b: "size_add (size_sub l f) 1 = l - f + 1" using fl assms(3) by simp
  show ?thesis
    using fl unfolding touch_blocks_def Let_def s f_def [symmetric] l_def [symmetric] b
    by (auto simp: mem_write_def)
qed

lemma block_in_run:
  fixes k index n :: nat
  assumes "0 < n"
  shows "index \<le> k \<and> k < index + n \<longleftrightarrow>
    (let f = index div 8; l = (index + n - 1) div 8; j = k div 8 in
     if j = f then index mod 8 \<le> k mod 8 \<and> (f = l \<longrightarrow> k mod 8 \<le> (index + n - 1) mod 8)
     else if j = l then k mod 8 \<le> (index + n - 1) mod 8 else f < j \<and> j < l)"
proof -
  define e where "e = index + n - 1"
  define a b c d j p where "a = index div 8" "b = index mod 8" "c = e div 8" "d = e mod 8" "j = k div 8" "p = k mod 8"
  note defs = this
  have lt: "b < 8" "d < 8" "p < 8" by (simp_all add: defs)
  have i: "index = 8 * a + b" and ee: "e = 8 * c + d" and k: "k = 8 * j + p" by (simp_all add: defs)
  have e: "index + n = e + 1" "index \<le> e" using assms by (auto simp: e_def)
  have "index \<le> k \<longleftrightarrow> a < j \<or> a = j \<and> b \<le> p" using lt unfolding i k by linarith
  moreover have "k < index + n \<longleftrightarrow> j < c \<or> j = c \<and> p \<le> d" using lt unfolding e ee k by linarith
  moreover have "a < c \<or> a = c \<and> b \<le> d" using e(2) lt unfolding i ee by linarith
  ultimately show ?thesis
    unfolding e_def [symmetric] Let_def defs(1-6) [symmetric] by auto
qed

lemma touch_used:
  assumes "0 < n" "index + n \<le> 8 * length bm" "length bm < 2 ^ 60" "touch_blocks edge fill bm index n = Some bm'"
    and "\<And>w m p. p < 8 \<Longrightarrow> bit (edge w m) p = (if bit m p then bit fill p else bit w p)" "\<And>p. p < 8 \<Longrightarrow> bit fill p = v"
  shows "length bm' = length bm" "used bm' k = (if index \<le> k \<and> k < index + n then v else used bm k)"
proof -
  define f l j q where "f = index div 8" "l = (index + n - 1) div 8" "j = k div 8" "q = k mod 8"
  define fb lb where "fb = index mod 8" "lb = (index + n - 1) mod 8"
  note defs = this \<open>f = index div 8\<close> \<open>l = (index + n - 1) div 8\<close> \<open>j = k div 8\<close> \<open>q = k mod 8\<close>
  note b = touch_bytes [OF assms(1-4), unfolded Let_def, folded defs]
  show len: "length bm' = length bm" using b by simp
  have p: "q < 8" "fb < 8" "lb < 8" "7 - q < 8" by (simp_all add: defs)
  note e = assms(5) [OF p(4)] assms(6) [OF p(4)]
  have r: "index \<le> k \<and> k < index + n \<longleftrightarrow>
      (if j = f then fb \<le> q \<and> (f = l \<longrightarrow> q \<le> lb) else if j = l then q \<le> lb else f < j \<and> j < l)"
    using block_in_run [OF assms(1), of index k] unfolding Let_def defs .
  have "bit (bm' ! j) (7 - q) =
      (if (if j = f then fb \<le> q \<and> (f = l \<longrightarrow> q \<le> lb) else if j = l then q \<le> lb else f < j \<and> j < l)
       then v else bit (bm ! j) (7 - q))" if j: "j < length bm"
  proof -
    from b j have "bm' ! j = (if j = f then edge (bm ! j) (run_mask fb lb (f = l))
        else if j = l then edge (bm ! j) (push_bit (7 - lb) 0xff) else if f < j \<and> j < l then fill else bm ! j)"
      by blast
    then show ?thesis
      by (auto simp only: e bit_run_mask [OF p(1-3)] bit_tail_mask [OF p(1,3)] if_True if_False split: if_splits)
  qed
  moreover have "j < length bm" if "index \<le> k \<and> k < index + n" using that assms(2) by (auto simp: defs)
  ultimately show "used bm' k = (if index \<le> k \<and> k < index + n then v else used bm k)"
    unfolding used_def len defs(3,4,5,6) [symmetric] using r by auto
qed

lemma edge_bits:
  fixes w m :: "8 word"
  assumes "p < 8"
  shows "bit (w OR m) p = (if bit m p then bit (0xff :: 8 word) p else bit w p)"
    "bit (w AND NOT m) p = (if bit m p then bit (0 :: 8 word) p else bit w p)" "bit (0xff :: 8 word) p = True"
  using assms by (auto simp: bit_or_iff bit_and_iff bit_not_iff bit_255)

lemma mark_blocks:
  assumes "0 < n" "n = needed_blocks bs len" "index + n \<le> 8 * length bm" "length bm < 2 ^ 60"
  shows "\<exists>bm'. cache_mark_blocks bm bs index len = Some bm' \<and> length bm' = length bm \<and>
    (\<forall>k. used bm' k \<longleftrightarrow> used bm k \<or> index \<le> k \<and> k < index + n)"
proof -
  obtain bm' where t: "touch_blocks (OR) 0xff bm index n = Some bm'"
    using touch_total [OF assms(1,3,4)] by blast
  note u = touch_used [OF assms(1,3,4) t edge_bits(1,3)]
  show ?thesis unfolding cache_mark_blocks_def assms(2) [symmetric] t using u by auto
qed

lemma unmark_blocks:
  assumes "0 < n" "n = needed_blocks bs len" "index + n \<le> 8 * length bm" "length bm < 2 ^ 60"
  shows "\<exists>bm'. cache_unmark_blocks bm bs index len = Some bm' \<and> length bm' = length bm \<and>
    (\<forall>k. used bm' k \<longleftrightarrow> used bm k \<and> \<not> (index \<le> k \<and> k < index + n))"
proof -
  obtain bm' where t: "touch_blocks (\<lambda>w m. w AND NOT m) 0 bm index n = Some bm'"
    using touch_total [OF assms(1,3,4)] by blast
  have z: "\<And>p. p < 8 \<Longrightarrow> bit (0 :: 8 word) p = False" by simp
  note u = touch_used [OF assms(1,3,4) t edge_bits(2) z]
  show ?thesis unfolding cache_unmark_blocks_def assms(2) [symmetric] t using u by auto
qed

section \<open>Searching\<close>

definition free_run :: "8 word list \<Rightarrow> nat \<Rightarrow> nat \<Rightarrow> bool" where
  "free_run bm r n \<longleftrightarrow> r + n \<le> 8 * length bm \<and> (\<forall>k. r \<le> k \<and> k < r + n \<longrightarrow> \<not> used bm k)"

text \<open>The state of a scan that started at block \<open>o\<close> and is at block \<open>q\<close>: the free run that ends at \<open>q\<close>, and
  no run that is long enough so far.\<close>

definition scan_inv :: "8 word list \<Rightarrow> nat \<Rightarrow> nat \<Rightarrow> nat \<Rightarrow> nat \<Rightarrow> nat option \<Rightarrow> bool" where
  "scan_inv bm needed org q found base \<longleftrightarrow>
     found < needed \<and> org + found \<le> q \<and> base = (if found = 0 then None else Some (q - found)) \<and>
     (\<forall>k. q - found \<le> k \<and> k < q \<longrightarrow> \<not> used bm k) \<and> (q - found = org \<or> used bm (q - found - 1)) \<and>
     (\<forall>r. org \<le> r \<and> r + needed \<le> q \<longrightarrow> (\<exists>k. r \<le> k \<and> k < r + needed \<and> used bm k))"

lemma scan_inv_start: "0 < needed \<Longrightarrow> scan_inv bm needed q q 0 None"
  by (auto simp: scan_inv_def)

lemma scan_inv_used:
  assumes "scan_inv bm needed org q found base" "used bm q"
  shows "scan_inv bm needed org (q + 1) 0 None"
proof -
  have "\<exists>k. r \<le> k \<and> k < r + needed \<and> used bm k" if "org \<le> r" "r + needed \<le> q + 1" for r
  proof (cases "r + needed \<le> q")
    case True
    with assms(1) that(1) show ?thesis by (auto simp: scan_inv_def)
  next
    case False
    with that assms have "r \<le> q \<and> q < r + needed" by (auto simp: scan_inv_def)
    with assms(2) show ?thesis by blast
  qed
  with assms show ?thesis by (auto simp: scan_inv_def)
qed

lemma scan_inv_free:
  assumes "scan_inv bm needed org q found base" "\<not> used bm q" "found + 1 \<noteq> needed"
  shows "scan_inv bm needed org (q + 1) (found + 1) (Some (case base of None \<Rightarrow> q | Some b \<Rightarrow> b))"
proof -
  note s = assms(1) [unfolded scan_inv_def]
  have "\<exists>k. r \<le> k \<and> k < r + needed \<and> used bm k" if "org \<le> r" "r + needed \<le> q + 1" for r
  proof (cases "r + needed \<le> q")
    case True
    with s that(1) show ?thesis by blast
  next
    case False
    with that s assms(3) have r: "r < q - found" "q - found - 1 < r + needed" "r \<le> q - found - 1" by auto
    then have "used bm (q - found - 1)" using s that(1) by auto
    with r show ?thesis by blast
  qed
  moreover have "\<not> used bm k" if "q - found \<le> k" "k < q + 1" for k
    using that s assms(2) by (cases "k = q") auto
  ultimately show ?thesis using s assms(3) by (auto simp: scan_inv_def split: option.splits if_splits)
qed

lemma scan_bits_ok:
  assumes "j < length bm"
  shows "scan_inv bm needed org (j * 8 + p) found base \<Longrightarrow> p \<le> 8 \<Longrightarrow>
    (case scan_bits (bm ! j) j p needed found base of
       Inl r \<Rightarrow> free_run bm r needed
     | Inr (found1, base1) \<Rightarrow> scan_inv bm needed org (j * 8 + 8) found1 base1)"
proof (induction "8 - p" arbitrary: p found base)
  case 0
  then show ?case by (simp add: scan_bits.simps)
next
  case (Suc d)
  then have p: "\<not> 8 \<le> p" "p + 1 \<le> 8" "d = 8 - (p + 1)" by simp_all
  have e: "used bm (j * 8 + p) = bit (bm ! j) (7 - p)" using p(1) assms by (simp add: used_def)
  let ?b = "case base of None \<Rightarrow> j * 8 + p | Some b \<Rightarrow> b"
  consider (used) "bit (bm ! j) (7 - p)" | (last) "\<not> bit (bm ! j) (7 - p)" "found + 1 = needed"
    | (free) "\<not> bit (bm ! j) (7 - p)" "found + 1 \<noteq> needed" by blast
  then show ?case
  proof cases
    case used
    with Suc(1) [OF p(3), of 0 None] scan_inv_used [OF Suc(3)] e p show ?thesis
      by (simp add: scan_bits.simps [of "bm ! j" j p] add.assoc)
  next
    case free
    with Suc(1) [OF p(3), of "found + 1" "Some ?b"] scan_inv_free [OF Suc(3) _ free(2)] e p show ?thesis
      by (simp add: scan_bits.simps [of "bm ! j" j p] Let_def add.assoc)
  next
    case last
    have b: "?b + needed = j * 8 + p + 1" using Suc(3) last(2) by (auto simp: scan_inv_def split: option.splits if_splits)
    have "\<not> used bm k" if "?b \<le> k" "k < ?b + needed" for k
    proof (cases "k = j * 8 + p")
      case True
      with e last(1) show ?thesis by simp
    next
      case False
      with that b have "j * 8 + p - found \<le> k \<and> k < j * 8 + p" using last(2) by linarith
      with Suc(3) show ?thesis by (simp add: scan_inv_def)
    qed
    moreover have "?b + needed \<le> 8 * length bm" using b p(2) assms by simp
    ultimately have "free_run bm ?b needed" by (auto simp: free_run_def)
    with last p(1) show ?thesis by (simp add: scan_bits.simps [of "bm ! j" j p] Let_def)
  qed
qed

text \<open>A scan of \<open>n\<close> bytes that finds nothing has seen no run that is long enough, neither in the part up to the
  end of the map nor in the part behind the wrap.\<close>

lemma scan_bytes_ok:
  assumes "0 < needed" "start < length bm" "8 * length bm < no_block"
  shows "scan_inv bm needed org (j * 8 + (if j = start then b else 0)) found base \<Longrightarrow> j < length bm \<Longrightarrow> b < 8 \<Longrightarrow>
    b = 0 \<or> start \<le> j \<Longrightarrow>
    \<exists>r. scan_bytes bm start needed n b j found base = Some r \<and>
      (r \<noteq> no_block \<longrightarrow> free_run bm r needed) \<and>
      (r = no_block \<longrightarrow>
        (\<forall>s. free_run bm s needed \<longrightarrow> org \<le> s \<longrightarrow> \<not> s + needed \<le> 8 * min (length bm) (j + n)) \<and>
        (\<forall>s. free_run bm s needed \<longrightarrow> length bm \<le> j + n \<longrightarrow> \<not> s + needed \<le> 8 * (j + n - length bm)))"
proof (induction n arbitrary: org j b found base)
  case 0
  then have "\<not> s + needed \<le> 8 * j" if "free_run bm s needed" "org \<le> s" for s
    using that by (auto simp: scan_inv_def free_run_def)
  with 0 assms(1) show ?case by (auto simp: min_def)
next
  case (Suc n)
  let ?p = "if j = start then b else 0"
  note sb = scan_bits_ok [OF Suc(3), of needed org ?p found base, OF Suc(2)]
  have p8: "?p \<le> 8" using Suc(4) by simp
  show ?case
  proof (cases "scan_bits (bm ! j) j ?p needed found base")
    case (Inl r)
    with sb [OF p8] have f: "free_run bm r needed" by simp
    then have "r \<noteq> no_block" using assms(1,3) by (auto simp: free_run_def)
    with Inl Suc(3) f show ?thesis by simp
  next
    case (Inr x)
    obtain f1 b1 where x: "x = (f1, b1)" by fastforce
    from Inr x sb [OF p8] have inv: "scan_inv bm needed org (j * 8 + 8) f1 b1" by simp
    show ?thesis
    proof (cases "j + 1 \<ge> length bm")
      case True
      then have j: "length bm = j + 1" using Suc(3) by simp
      have "0 < length bm" using assms(2) by linarith
      with Suc(1) [of 0 0 0 0 None] scan_inv_start [OF assms(1), of bm 0] obtain r where
        r: "scan_bytes bm start needed n 0 0 0 None = Some r" "r \<noteq> no_block \<longrightarrow> free_run bm r needed"
          "r = no_block \<longrightarrow> (\<forall>s. free_run bm s needed \<longrightarrow> \<not> s + needed \<le> 8 * min (length bm) n)"
        by auto
      have "\<not> s + needed \<le> 8 * length bm" if "free_run bm s needed" "org \<le> s" for s
        using that inv j by (auto simp: scan_inv_def free_run_def)
      moreover have "\<not> s + needed \<le> 8 * n" if "free_run bm s needed" "r = no_block" for s
        using r(3) that by (auto simp: free_run_def min_def split: if_splits)
      ultimately show ?thesis using r(1,2) Inr x j Suc(3) by (auto simp: min_def)
    next
      case False
      have q: "(j + 1) * 8 + (if j + 1 = start then b else 0) = j * 8 + 8" using Suc(5) by auto
      from Suc(1) [of org "j + 1" b f1 b1, unfolded q, OF inv] False Suc(4,5) obtain r where
        r: "scan_bytes bm start needed n b (j + 1) f1 b1 = Some r" "r \<noteq> no_block \<longrightarrow> free_run bm r needed"
          "r = no_block \<longrightarrow>
            (\<forall>s. free_run bm s needed \<longrightarrow> org \<le> s \<longrightarrow> \<not> s + needed \<le> 8 * min (length bm) (j + Suc n)) \<and>
            (\<forall>s. free_run bm s needed \<longrightarrow> length bm \<le> j + Suc n \<longrightarrow> \<not> s + needed \<le> 8 * (j + Suc n - length bm))"
        by (auto simp: add.assoc)
      with Inr x False Suc(3) show ?thesis by (intro exI [of _ r]) simp
    qed
  qed
qed

text \<open>The search: what it returns is a free run, and it misses only runs that lie across the position it
  starts from (with the bytes of the map as the grain).\<close>

lemma find_free_blocks:
  assumes "needed_blocks bs need = n" "0 < n" "pos < 8 * length bm" "8 * length bm < no_block"
  shows "\<exists>r. upsgi_cache_find_free_blocks bm pos bs need = Some r \<and>
    (r \<noteq> no_block \<longrightarrow> free_run bm r n) \<and>
    (\<forall>s. free_run bm s n \<longrightarrow> pos \<le> s \<or> s + n \<le> 8 * (pos div 8) + (if pos mod 8 > 0 then 8 else 0) \<longrightarrow> r \<noteq> no_block)"
proof -
  let ?b = "pos mod 8" and ?j = "pos div 8"
  let ?m = "length bm + (if ?b > 0 then 1 else 0)"
  have j: "?j < length bm" using assms(3) by auto
  have "scan_inv bm n pos (?j * 8 + (if ?j = ?j then ?b else 0)) 0 None"
    using scan_inv_start [OF assms(2), of bm pos] by simp
  from scan_bytes_ok [OF assms(2) j assms(4) this j, of ?m] obtain r where
    r: "scan_bytes bm ?j n ?m ?b ?j 0 None = Some r" "r \<noteq> no_block \<longrightarrow> free_run bm r n"
      "r = no_block \<longrightarrow>
        (\<forall>s. free_run bm s n \<longrightarrow> pos \<le> s \<longrightarrow> \<not> s + n \<le> 8 * min (length bm) (?j + ?m)) \<and>
        (\<forall>s. free_run bm s n \<longrightarrow> length bm \<le> ?j + ?m \<longrightarrow> \<not> s + n \<le> 8 * (?j + ?m - length bm))"
    by auto
  have "r \<noteq> no_block" if "free_run bm s n" "pos \<le> s \<or> s + n \<le> 8 * ?j + (if ?b > 0 then 8 else 0)" for s
    using that r(3) by (auto simp: free_run_def min_def split: if_splits)
  with r(1,2) assms(1) show ?thesis
    unfolding upsgi_cache_find_free_blocks_def Let_def by auto
qed

text \<open>The initial map: exactly the blocks of the cache are free.\<close>

lemma bitmap_init_alt:
  "bitmap_init blocks = replicate (blocks div 8) 0 @ (if blocks mod 8 = 0 then [] else [drop_bit (blocks mod 8) 0xff])"
proof -
  have "(replicate (Suc n) 0)[n := w] = replicate n 0 @ [w]" for n and w :: "8 word"
    by (induction n) simp_all
  then show ?thesis by (simp add: bitmap_init_def Let_def del: replicate_Suc)
qed

lemma bitmap_init_used: "used (bitmap_init blocks) k \<longleftrightarrow> blocks \<le> k \<and> k < 8 * length (bitmap_init blocks)"
proof -
  let ?n = "blocks div 8" and ?m = "blocks mod 8"
  have b: "blocks = 8 * ?n + ?m" and k: "k = 8 * (k div 8) + k mod 8" by simp_all
  show ?thesis
  proof (cases "?m = 0")
    case True
    then have "bitmap_init blocks = replicate ?n 0" by (simp add: bitmap_init_alt)
    moreover have "\<not> (blocks \<le> k \<and> k < 8 * ?n)" using True b by linarith
    ultimately show ?thesis by (auto simp: used_def)
  next
    case False
    then have i: "bitmap_init blocks = replicate ?n 0 @ [drop_bit ?m 0xff]" by (simp add: bitmap_init_alt)
    have bt: "bit (drop_bit ?m (0xff :: 8 word)) (7 - k mod 8) \<longleftrightarrow> ?m \<le> k mod 8"
      using mod_less_divisor [of 8 k] mod_less_divisor [of 8 blocks] by (auto simp: bit_drop_bit_eq bit_255)
    consider "k div 8 < ?n" | "k div 8 = ?n" | "?n < k div 8" by linarith
    then show ?thesis
    proof cases
      case 1
      then have "k < blocks" using b k mod_less_divisor [of 8 k] by linarith
      with 1 show ?thesis by (simp add: used_def i nth_append)
    next
      case 2
      then have "blocks \<le> k \<longleftrightarrow> ?m \<le> k mod 8" "k < 8 * (?n + 1)"
        using b k mod_less_divisor [of 8 k] by (linarith, simp)
      with 2 bt show ?thesis by (simp add: used_def i nth_append)
    next
      case 3
      then have "8 * (?n + 1) \<le> 8 * (k div 8)" by simp
      also have "\<dots> \<le> k" by simp
      finally have "\<not> k < 8 * (?n + 1)" by simp
      with 3 show ?thesis by (simp add: used_def i)
    qed
  qed
qed

lemma bitmap_init_length: "blocks \<le> 8 * length (bitmap_init blocks)" "8 * length (bitmap_init blocks) < blocks + 8"
proof -
  have "blocks \<le> 8 * (blocks div 8 + (if blocks mod 8 = 0 then 0 else 1))"
    "8 * (blocks div 8 + (if blocks mod 8 = 0 then 0 else 1)) < blocks + 8"
    by (cases "blocks mod 8 = 0"; simp; presburger)+
  then show "blocks \<le> 8 * length (bitmap_init blocks)" "8 * length (bitmap_init blocks) < blocks + 8"
    by (auto simp: bitmap_init_alt split: if_splits)
qed

text \<open>C24: the block search is sound: what it returns is a run of free blocks inside the map, and marking it
  makes exactly those blocks used; unmarking it restores the map's contents.\<close>

theorem cache_block_allocation:
  assumes "0 < bs" "0 < need" "pos < 8 * length bm" "8 * length bm < 2 ^ 62"
    and "upsgi_cache_find_free_blocks bm pos bs need = Some r" "r \<noteq> no_block"
  shows "free_run bm r (needed_blocks bs need) \<and>
    (\<exists>bm1 bm2. cache_mark_blocks bm bs r need = Some bm1 \<and>
       (\<forall>k. used bm1 k \<longleftrightarrow> used bm k \<or> r \<le> k \<and> k < r + needed_blocks bs need) \<and>
       cache_unmark_blocks bm1 bs r need = Some bm2 \<and> (\<forall>k. used bm2 k \<longleftrightarrow> used bm k))"
proof -
  let ?n = "needed_blocks bs need"
  have n: "0 < ?n"
    using assms(1,2) div_greater_zero_iff [of need bs] by (cases "need < bs") (auto simp: needed_blocks_def)
  have big: "8 * length bm < no_block" "length bm < 2 ^ 60" using assms(4) by (simp_all add: no_block_def)
  from find_free_blocks [OF refl n assms(3) big(1)] assms(5,6) have f: "free_run bm r ?n" by auto
  then have fit: "r + ?n \<le> 8 * length bm" by (simp add: free_run_def)
  obtain bm1 where 1: "cache_mark_blocks bm bs r need = Some bm1" "length bm1 = length bm"
    "\<forall>k. used bm1 k \<longleftrightarrow> used bm k \<or> r \<le> k \<and> k < r + ?n"
    using mark_blocks [OF n refl fit big(2)] by blast
  obtain bm2 where 2: "cache_unmark_blocks bm1 bs r need = Some bm2"
    "\<forall>k. used bm2 k \<longleftrightarrow> used bm1 k \<and> \<not> (r \<le> k \<and> k < r + ?n)"
    using unmark_blocks [OF n refl, of r bm1] fit big(2) 1(2) by auto
  have "\<forall>k. used bm2 k \<longleftrightarrow> used bm k" using 1(3) 2(2) f by (auto simp: free_run_def)
  with f 1 2 show ?thesis by blast
qed

theorem cache_block_allocation_witness:
  "free_run (bitmap_init 13) 0 3 \<and>
   (\<exists>bm1. cache_mark_blocks (bitmap_init 13) 10 0 25 = Some bm1 \<and> (\<forall>k. used bm1 k \<longleftrightarrow> used (bitmap_init 13) k \<or> k < 3))"
proof -
  have l: "length (bitmap_init 13) = 2" and n: "needed_blocks 10 25 = 3"
    and f: "upsgi_cache_find_free_blocks (bitmap_init 13) 0 10 25 = Some 0"
    by code_simp+
  from cache_block_allocation [OF _ _ _ _ f] l n show ?thesis by (auto simp: no_block_def)
qed

text \<open>the search is not complete: with the position inside a free run, a run that begins before it is not
  seen, so that an object is refused although its blocks are free.\<close>

theorem cache_find_misses_run:
  "\<exists>bm. free_run bm 6 4 \<and> upsgi_cache_find_free_blocks bm 8 1 4 = Some no_block"
proof (intro exI conjI)
  let ?bm = "[0xfc, 0x3f] :: 8 word list"
  show "upsgi_cache_find_free_blocks ?bm 8 1 4 = Some no_block"
    by (simp add: upsgi_cache_find_free_blocks_def needed_blocks_def scan_bits.simps numeral_2_eq_2)
  have "\<not> used ?bm 6 \<and> \<not> used ?bm 7 \<and> \<not> used ?bm 8 \<and> \<not> used ?bm 9" by code_simp
  moreover have "6 \<le> k \<and> k < 6 + 4 \<longrightarrow> k = 6 \<or> k = 7 \<or> k = 8 \<or> k = 9" for k :: nat by arith
  ultimately show "free_run ?bm 6 4" unfolding free_run_def by auto
qed

end
