(* ===== verification/Upsgi_Cache.thy ===== *)
theory Upsgi_Cache
  imports Upsgi_Protocol Upsgi_Bitmap "HOL-Library.Monad_Syntax" "HOL-Library.Signed_Division"
begin

text \<open>
  The shared-memory cache, \<open>core/cache.c\<close>: a fixed array of items, a hash table whose buckets are doubly
  linked through the items, a stack of unused items, blocks of data (one per item, or runs of blocks of a
  bitmap, \<open>Upsgi_Bitmap\<close>), and an optional least-recently-used list through the same items.  Item 0 is
  never used: index 0 is the null link.

  \<open>None\<close> is a call that does not come back in order: an access outside an array, a trapping division, or a
  chain that never ends.  The clock is read once per call (\<open>now\<close>).  The datagrams to the other nodes are
  appended to \<open>uc_udp\<close>.  Locking is left out: the calls are the critical sections.
\<close>

section \<open>State\<close>

record upsgi_cache_item =
  ci_flags :: "64 word"
  ci_keysize :: nat
  ci_hash :: nat
  ci_valsize :: nat
  ci_first_block :: nat
  ci_expires :: nat
  ci_hits :: nat
  ci_prev :: nat
  ci_next :: nat
  ci_lru_prev :: nat
  ci_lru_next :: nat
  ci_key :: "char list"

record upsgi_cache =
  uc_name :: "char list"
  uc_keysize :: nat
  uc_blocks :: nat
  uc_blocksize :: nat
  uc_hash :: "char list \<Rightarrow> 32 word"
  uc_hashtable :: "nat list"
  uc_hashsize :: nat
  uc_unused_stack :: "nat list"
  uc_unused_ptr :: nat
  uc_bitmap :: "8 word list option"
  uc_bitmap_pos :: nat
  uc_max_items :: nat
  uc_max_item_size :: nat
  uc_n_items :: nat
  uc_items :: "upsgi_cache_item list"
  uc_use_last_modified :: bool
  uc_last_modified_at :: nat
  uc_data :: "char list"
  uc_no_expire :: bool
  uc_full :: nat
  uc_hits :: nat
  uc_miss :: nat
  uc_math_initial :: "64 word"
  uc_nodes :: "char list list"
  uc_udp :: "(char list \<times> char list) list"
  uc_next_scan :: nat
  uc_purge_lru :: bool
  uc_lru_head :: nat
  uc_lru_tail :: nat
  uc_lazy_expire :: bool
  uc_sweep_on_full :: nat
  uc_clear_on_full :: bool

text \<open>The flags, by bit.\<close>

abbreviation (input) FLAG_UNGETTABLE :: nat where "FLAG_UNGETTABLE \<equiv> 0"
abbreviation (input) FLAG_UPDATE :: nat where "FLAG_UPDATE \<equiv> 1"
abbreviation (input) FLAG_LOCAL :: nat where "FLAG_LOCAL \<equiv> 2"
abbreviation (input) FLAG_ABSEXPIRE :: nat where "FLAG_ABSEXPIRE \<equiv> 3"
abbreviation (input) FLAG_MATH :: nat where "FLAG_MATH \<equiv> 4"
abbreviation (input) FLAG_INC :: nat where "FLAG_INC \<equiv> 5"
abbreviation (input) FLAG_DEC :: nat where "FLAG_DEC \<equiv> 6"
abbreviation (input) FLAG_MUL :: nat where "FLAG_MUL \<equiv> 7"
abbreviation (input) FLAG_DIV :: nat where "FLAG_DIV \<equiv> 8"
abbreviation (input) FLAG_FIXEXPIRE :: nat where "FLAG_FIXEXPIRE \<equiv> 9"

abbreviation flag_local :: "64 word" where "flag_local \<equiv> 4"

definition item_at :: "upsgi_cache \<Rightarrow> nat \<Rightarrow> upsgi_cache_item option" where
  "item_at uc i = (if i < length (uc_items uc) then Some (uc_items uc ! i) else None)"

definition set_item :: "nat \<Rightarrow> (upsgi_cache_item \<Rightarrow> upsgi_cache_item) \<Rightarrow> upsgi_cache \<Rightarrow> upsgi_cache option" where
  "set_item i f uc =
     (if i < length (uc_items uc) then Some (uc\<lparr>uc_items := (uc_items uc)[i := f (uc_items uc ! i)]\<rparr>) else None)"

definition bucket :: "upsgi_cache \<Rightarrow> nat \<Rightarrow> nat option" where
  "bucket uc hash =
     (let h = hash mod uc_hashsize uc in if h < length (uc_hashtable uc) then Some (uc_hashtable uc ! h) else None)"

definition set_bucket :: "nat \<Rightarrow> nat \<Rightarrow> upsgi_cache \<Rightarrow> upsgi_cache option" where
  "set_bucket hash slot uc =
     (let h = hash mod uc_hashsize uc in
      if h < length (uc_hashtable uc) then Some (uc\<lparr>uc_hashtable := (uc_hashtable uc)[h := slot]\<rparr>) else None)"

section \<open>Other nodes\<close>

definition udp_packet :: "char list \<Rightarrow> char list \<Rightarrow> nat \<Rightarrow> nat \<Rightarrow> char list" where
  "udp_packet key val expires cmd =
     (let k = u16_arg key; v = u16_arg val; es = nat_dec expires;
          body = le16 (length k) @ k @
                 (if cmd = 10 then le16 (length v) @ v @ le16 (length es) @ es else []) in
      char_of (111 :: nat) # le16 (length body mod 65536) @ [char_of cmd] @ body)"

definition cache_send_udp_command :: "char list \<Rightarrow> char list \<Rightarrow> nat \<Rightarrow> nat \<Rightarrow> upsgi_cache \<Rightarrow> upsgi_cache" where
  "cache_send_udp_command key val expires cmd uc =
     uc\<lparr>uc_udp := uc_udp uc @ map (\<lambda>n. (n, udp_packet key val expires cmd)) (uc_nodes uc)\<rparr>"

section \<open>The least-recently-used list\<close>

definition lru_remove_item :: "nat \<Rightarrow> upsgi_cache \<Rightarrow> upsgi_cache option" where
  "lru_remove_item index uc = do {
     curr \<leftarrow> item_at uc index;
     uc1 \<leftarrow> (if ci_lru_next curr \<noteq> 0
            then set_item (ci_lru_next curr) (\<lambda>it. it\<lparr>ci_lru_prev := ci_lru_prev curr\<rparr>) uc
            else Some (uc\<lparr>uc_lru_tail := ci_lru_prev curr\<rparr>));
     (if ci_lru_prev curr \<noteq> 0
      then set_item (ci_lru_prev curr) (\<lambda>it. it\<lparr>ci_lru_next := ci_lru_next curr\<rparr>) uc1
      else Some (uc1\<lparr>uc_lru_head := ci_lru_next curr\<rparr>))
   }"

definition lru_add_item :: "nat \<Rightarrow> upsgi_cache \<Rightarrow> upsgi_cache option" where
  "lru_add_item index uc = do {
     uc1 \<leftarrow> (if uc_lru_tail uc \<noteq> 0
            then set_item (uc_lru_tail uc) (\<lambda>it. it\<lparr>ci_lru_next := index\<rparr>) uc
            else Some (uc\<lparr>uc_lru_head := index\<rparr>));
     uc2 \<leftarrow> set_item index (\<lambda>it. it\<lparr>ci_lru_next := 0, ci_lru_prev := uc_lru_tail uc1\<rparr>) uc1;
     Some (uc2\<lparr>uc_lru_tail := index\<rparr>)
   }"

section \<open>Deleting\<close>

definition unmark_item :: "upsgi_cache_item \<Rightarrow> upsgi_cache \<Rightarrow> upsgi_cache option" where
  "unmark_item uci uc =
     (case uc_bitmap uc of
        None \<Rightarrow> Some uc
      | Some bm \<Rightarrow> map_option (\<lambda>bm1. uc\<lparr>uc_bitmap := Some bm1\<rparr>)
                    (cache_unmark_blocks bm (uc_blocksize uc) (ci_first_block uci) (ci_valsize uci)))"

definition push_unused :: "nat \<Rightarrow> upsgi_cache \<Rightarrow> upsgi_cache option" where
  "push_unused index uc =
     (let p = uc_unused_ptr uc + 1 in
      if p < length (uc_unused_stack uc)
      then Some (uc\<lparr>uc_unused_ptr := p, uc_unused_stack := (uc_unused_stack uc)[p := index]\<rparr>) else None)"

definition unlink_item :: "upsgi_cache_item \<Rightarrow> upsgi_cache \<Rightarrow> upsgi_cache option" where
  "unlink_item uci uc = do {
     uc1 \<leftarrow> (if ci_prev uci \<noteq> 0 then set_item (ci_prev uci) (\<lambda>it. it\<lparr>ci_next := ci_next uci\<rparr>) uc
            else set_bucket (ci_hash uci) (ci_next uci) uc);
     uc2 \<leftarrow> (if ci_next uci \<noteq> 0 then set_item (ci_next uci) (\<lambda>it. it\<lparr>ci_prev := ci_prev uci\<rparr>) uc1 else Some uc1);
     (if ci_prev uci = 0 \<and> ci_next uci = 0 then set_bucket (ci_hash uci) 0 uc2 else Some uc2)
   }"

definition touch_modified :: "nat \<Rightarrow> upsgi_cache \<Rightarrow> upsgi_cache" where
  "touch_modified now uc = (if uc_use_last_modified uc then uc\<lparr>uc_last_modified_at := now\<rparr> else uc)"

definition clear_item :: "upsgi_cache_item \<Rightarrow> upsgi_cache_item" where
  "clear_item it = it\<lparr>ci_keysize := 0, ci_valsize := 0, ci_hash := 0, ci_prev := 0, ci_next := 0, ci_expires := 0\<rparr>"

text \<open>\<open>upsgi_cache_del2\<close> with an index, which always answers 0.\<close>

definition del_slot :: "nat \<Rightarrow> char list \<Rightarrow> nat \<Rightarrow> 64 word \<Rightarrow> upsgi_cache \<Rightarrow> upsgi_cache option" where
  "del_slot now key index flags uc = do {
     uci \<leftarrow> item_at uc index;
     uc1 \<leftarrow> (if ci_keysize uci > 0 then do {
               u1 \<leftarrow> unmark_item uci uc;
               u2 \<leftarrow> push_unused index u1;
               u3 \<leftarrow> unlink_item uci u2;
               u4 \<leftarrow> (if uc_purge_lru u3 then lru_remove_item index u3 else Some u3);
               Some (u4\<lparr>uc_n_items := size_sub (uc_n_items u4) 1\<rparr>)
             } else Some uc);
     uc2 \<leftarrow> set_item index clear_item uc1;
     (let uc3 = touch_modified now uc2 in
      Some (if uc_nodes uc3 \<noteq> [] \<and> \<not> bit flags FLAG_LOCAL then cache_send_udp_command key [] 0 11 uc3 else uc3))
   }"

section \<open>Lookup\<close>

definition check_lazy :: "nat \<Rightarrow> upsgi_cache_item \<Rightarrow> nat \<Rightarrow> upsgi_cache \<Rightarrow> (nat \<times> upsgi_cache) option" where
  "check_lazy now uci slot uc =
     (if ci_expires uci = 0 \<or> \<not> uc_lazy_expire uc then Some (slot, uc)
      else if ci_expires uci \<le> now then map_option (\<lambda>u. (0, u)) (del_slot now [] slot flag_local uc)
      else Some (slot, uc))"

definition item_matches :: "char list \<Rightarrow> nat \<Rightarrow> upsgi_cache_item \<Rightarrow> bool" where
  "item_matches key hash it \<longleftrightarrow> ci_hash it = hash \<and> ci_keysize it = length key \<and> take (length key) (ci_key it) = key"

text \<open>The walk along a chain.  After \<open>max_items\<close> steps the code takes the chain for a loop and ends the
  process.\<close>

function chase :: "upsgi_cache \<Rightarrow> char list \<Rightarrow> nat \<Rightarrow> upsgi_cache_item \<Rightarrow> nat \<Rightarrow> nat option" where
  "chase uc key hash it steps =
     (if ci_next it = 0 then Some 0
      else
       (case item_at uc (ci_next it) of
          None \<Rightarrow> None
        | Some it1 \<Rightarrow>
            if steps + 1 > uc_max_items uc then None
            else if item_matches key hash it1 then Some (ci_next it)
            else chase uc key hash it1 (steps + 1)))"
  by pat_completeness auto
termination by (relation "measure (\<lambda>(uc, _, _, _, r). uc_max_items uc - r)") auto

declare chase.simps [simp del]

definition find_slot :: "char list \<Rightarrow> upsgi_cache \<Rightarrow> nat option" where
  "find_slot key uc =
     (let hash = unat (uc_hash uc key) in do {
        slot \<leftarrow> bucket uc hash;
        (if slot = 0 then Some 0
         else do {
           uci \<leftarrow> item_at uc slot;
           (if ci_hash uci mod uc_hashsize uc \<noteq> hash mod uc_hashsize uc then Some 0
            else if item_matches key hash uci then Some slot
            else chase uc key hash uci 0)
         })
      })"

definition upsgi_cache_get_index :: "nat \<Rightarrow> char list \<Rightarrow> upsgi_cache \<Rightarrow> (nat \<times> upsgi_cache) option" where
  "upsgi_cache_get_index now key uc = do {
     slot \<leftarrow> find_slot key uc;
     (if slot = 0 then Some (0, uc)
      else do { uci \<leftarrow> item_at uc slot; check_lazy now uci slot uc })
   }"

definition upsgi_cache_exists2 :: "nat \<Rightarrow> char list \<Rightarrow> upsgi_cache \<Rightarrow> (nat \<times> upsgi_cache) option" where
  "upsgi_cache_exists2 now key uc =
     map_option (\<lambda>(i, u). (i mod 2 ^ 32, u)) (upsgi_cache_get_index now key uc)"

definition read_data :: "upsgi_cache \<Rightarrow> nat \<Rightarrow> nat \<Rightarrow> char list option" where
  "read_data uc first_block n =
     (let off = first_block * uc_blocksize uc in
      if off + n \<le> length (uc_data uc) then Some (take n (drop off (uc_data uc))) else None)"

definition count_hit :: "nat \<Rightarrow> upsgi_cache \<Rightarrow> upsgi_cache option" where
  "count_hit index uc =
     map_option (\<lambda>u. u\<lparr>uc_hits := size_add (uc_hits u) 1\<rparr>) (set_item index (\<lambda>it. it\<lparr>ci_hits := size_add (ci_hits it) 1\<rparr>) uc)"

definition count_miss :: "upsgi_cache \<Rightarrow> upsgi_cache" where
  "count_miss uc = uc\<lparr>uc_miss := size_add (uc_miss uc) 1\<rparr>"

text \<open>The common body of the getters: \<open>lru\<close> tells whether the item becomes the most recently used one.  The
  value is what the returned pointer and size give the caller, with the item as it was for the other
  outputs.\<close>

definition cache_get :: "bool \<Rightarrow> nat \<Rightarrow> char list \<Rightarrow> upsgi_cache \<Rightarrow>
    ((char list \<times> upsgi_cache_item) option \<times> upsgi_cache) option" where
  "cache_get lru now key uc = do {
     (index, uc1) \<leftarrow> upsgi_cache_get_index now key uc;
     (if index = 0 then Some (None, count_miss uc1)
      else do {
        uci \<leftarrow> item_at uc1 index;
        (if bit (ci_flags uci) FLAG_UNGETTABLE then Some (None, uc1)
         else do {
           u2 \<leftarrow> (if lru \<and> uc_purge_lru uc1 then do { u \<leftarrow> lru_remove_item index uc1; lru_add_item index u } else Some uc1);
           u3 \<leftarrow> count_hit index u2;
           v \<leftarrow> read_data u3 (ci_first_block uci) (ci_valsize uci);
           Some (Some (v, uci), u3)
         })
      })
   }"

definition upsgi_cache_get2 :: "nat \<Rightarrow> char list \<Rightarrow> upsgi_cache \<Rightarrow> (char list option \<times> upsgi_cache) option" where
  "upsgi_cache_get2 now key uc = map_option (\<lambda>(r, u). (map_option fst r, u)) (cache_get True now key uc)"

definition upsgi_cache_get3 :: "nat \<Rightarrow> char list \<Rightarrow> upsgi_cache \<Rightarrow> ((char list \<times> nat) option \<times> upsgi_cache) option" where
  "upsgi_cache_get3 now key uc =
     map_option (\<lambda>(r, u). (map_option (\<lambda>(v, it). (v, ci_expires it)) r, u)) (cache_get True now key uc)"

definition upsgi_cache_get4 :: "nat \<Rightarrow> char list \<Rightarrow> upsgi_cache \<Rightarrow> ((char list \<times> nat) option \<times> upsgi_cache) option" where
  "upsgi_cache_get4 now key uc =
     map_option (\<lambda>(r, u). (map_option (\<lambda>(v, it). (v, ci_hits it)) r, u)) (cache_get False now key uc)"

definition rd64 :: "char list \<Rightarrow> 64 word" where
  "rd64 bs = foldr (\<lambda>c w. of_nat (ord c) + 256 * w) (take 8 bs) 0"

definition upsgi_cache_num2 :: "nat \<Rightarrow> char list \<Rightarrow> upsgi_cache \<Rightarrow> (64 word \<times> upsgi_cache) option" where
  "upsgi_cache_num2 now key uc = do {
     (index, uc1) \<leftarrow> upsgi_cache_get_index now key uc;
     (if index = 0 then Some (0, count_miss uc1)
      else do {
        uci \<leftarrow> item_at uc1 index;
        (if bit (ci_flags uci) FLAG_UNGETTABLE then Some (0, uc1)
         else do {
           u2 \<leftarrow> count_hit index uc1;
           v \<leftarrow> read_data u2 (ci_first_block uci) 8;
           Some (rd64 v, u2)
         })
      })
   }"

definition upsgi_cache_del2 :: "nat \<Rightarrow> char list \<Rightarrow> nat \<Rightarrow> 64 word \<Rightarrow> upsgi_cache \<Rightarrow> (bool \<times> upsgi_cache) option" where
  "upsgi_cache_del2 now key index flags uc = do {
     (i, uc1) \<leftarrow> (if index = 0 then upsgi_cache_get_index now key uc else Some (index, uc));
     (if i = 0 then Some (False, uc1) else map_option (Pair True) (del_slot now key i flags uc1))
   }"

section \<open>A full cache\<close>

fun sweep_expired :: "nat \<Rightarrow> nat list \<Rightarrow> upsgi_cache \<Rightarrow> (nat \<times> upsgi_cache) option" where
  "sweep_expired now [] uc = Some (0, uc)"
| "sweep_expired now (i # is) uc = do {
     uci \<leftarrow> item_at uc i;
     (if ci_expires uci > 0 \<and> ci_expires uci \<le> now then do {
        u \<leftarrow> del_slot now [] i 0 uc;
        (n, u1) \<leftarrow> sweep_expired now is u;
        Some (n + 1, u1)
      } else sweep_expired now is uc)
   }"

fun del_slots :: "nat \<Rightarrow> nat list \<Rightarrow> upsgi_cache \<Rightarrow> upsgi_cache option" where
  "del_slots now [] uc = Some uc"
| "del_slots now (i # is) uc = do { u \<leftarrow> del_slot now [] i 0 uc; del_slots now is u }"

definition cache_full :: "nat \<Rightarrow> upsgi_cache \<Rightarrow> upsgi_cache option" where
  "cache_full now uc = do {
     (let u0 = uc\<lparr>uc_full := size_add (uc_full uc) 1\<rparr> in do {
     u1 \<leftarrow> (if uc_purge_lru u0 \<and> uc_lru_head u0 \<noteq> 0 then del_slot now [] (uc_lru_head u0) flag_local u0 else Some u0);
     (removed, u2) \<leftarrow>
       (if uc_sweep_on_full u1 > 0 \<and> uc_next_scan u1 \<le> now
        then sweep_expired now [1 ..< uc_max_items u1] (u1\<lparr>uc_next_scan := size_add now (uc_sweep_on_full u1)\<rparr>)
        else Some (0, u1));
     (if uc_clear_on_full uc \<and> removed = 0 then del_slots now [1 ..< uc_max_items u2] u2 else Some u2)
     })
   }"

section \<open>Storing\<close>

text \<open>The arithmetic of the math flags on \<open>int64_t\<close>; the quotient of the least number and -1 traps.\<close>

definition math_op :: "64 word \<Rightarrow> 64 word \<Rightarrow> 64 word \<Rightarrow> 64 word option" where
  "math_op flags num delta =
     (if bit flags FLAG_INC then Some (num + delta)
      else if bit flags FLAG_DEC then Some (num - delta)
      else if bit flags FLAG_MUL then Some (num * delta)
      else if bit flags FLAG_DIV then
        (if delta = 0 then Some 0
         else if sint num = - (2 ^ 63) \<and> sint delta = -1 then None
         else Some (word_of_int (sint num sdiv sint delta)))
      else Some num)"

definition write_data :: "nat \<Rightarrow> char list \<Rightarrow> upsgi_cache \<Rightarrow> upsgi_cache option" where
  "write_data first_block d uc =
     map_option (\<lambda>m. uc\<lparr>uc_data := m\<rparr>) (mem_write (uc_data uc) (first_block * uc_blocksize uc) d)"

text \<open>The value of an item: the bytes, or the number in the block (\<open>math_initial\<close> for a new item) combined with
  the one given.\<close>

definition store_value :: "bool \<Rightarrow> 64 word \<Rightarrow> char list \<Rightarrow> nat \<Rightarrow> upsgi_cache \<Rightarrow> upsgi_cache option" where
  "store_value fresh flags val first_block uc =
     (if \<not> bit flags FLAG_MATH then write_data first_block val uc
      else do {
        old \<leftarrow> (if fresh then Some (uc_math_initial uc) else map_option rd64 (read_data uc first_block 8));
        num \<leftarrow> math_op flags old (rd64 val);
        write_data first_block (u64le num) uc
      })"

text \<open>A run of blocks of the bitmap for the value, or \<open>no_block\<close>.\<close>

definition claim_blocks :: "nat \<Rightarrow> upsgi_cache \<Rightarrow> 8 word list \<Rightarrow> (nat \<times> upsgi_cache) option" where
  "claim_blocks vallen uc bm = do {
     r \<leftarrow> upsgi_cache_find_free_blocks bm (uc_bitmap_pos uc) (uc_blocksize uc) vallen;
     (if r = no_block then Some (no_block, uc)
      else do {
        bm1 \<leftarrow> cache_mark_blocks bm (uc_blocksize uc) r vallen;
        (let e = r + needed_blocks (uc_blocksize uc) vallen in
         Some (r, uc\<lparr>uc_bitmap := Some bm1, uc_bitmap_pos := if e \<ge> uc_blocks uc then 0 else e\<rparr>))
      })
   }"

definition note_expiry :: "nat \<Rightarrow> upsgi_cache \<Rightarrow> upsgi_cache" where
  "note_expiry expires uc =
     (if uc_next_scan uc = 0 \<or> uc_next_scan uc > expires then uc\<lparr>uc_next_scan := expires\<rparr> else uc)"

partial_function (option) chain_last :: "upsgi_cache \<Rightarrow> nat \<Rightarrow> nat option" where
  "chain_last uc i = do {
     it \<leftarrow> item_at uc i;
     (if ci_next it = 0 then Some i else chain_last uc (ci_next it))
   }"

text \<open>The new item goes to the end of its chain.\<close>

definition link_item :: "nat \<Rightarrow> nat \<Rightarrow> upsgi_cache \<Rightarrow> upsgi_cache option" where
  "link_item hash index uc = do {
     u1 \<leftarrow> set_item index (\<lambda>it. it\<lparr>ci_prev := 0, ci_next := 0\<rparr>) uc;
     first \<leftarrow> bucket u1 hash;
     (if first = 0 then set_bucket hash index u1
      else do {
        last \<leftarrow> chain_last u1 first;
        u2 \<leftarrow> set_item last (\<lambda>it. it\<lparr>ci_next := index\<rparr>) u1;
        set_item index (\<lambda>it. it\<lparr>ci_prev := last\<rparr>) u2
      })
   }"

definition write_key :: "nat \<Rightarrow> char list \<Rightarrow> upsgi_cache \<Rightarrow> upsgi_cache option" where
  "write_key index key uc = do {
     it \<leftarrow> item_at uc index;
     k \<leftarrow> mem_write (ci_key it) 0 key;
     set_item index (\<lambda>it. it\<lparr>ci_key := k\<rparr>) uc
   }"

text \<open>The part of \<open>upsgi_cache_set2\<close> behind the choice of the item and its blocks; the expiry time is one of the
  results.\<close>

definition fill_entry :: "nat \<Rightarrow> char list \<Rightarrow> char list \<Rightarrow> nat \<Rightarrow> 64 word \<Rightarrow> nat \<Rightarrow> nat \<Rightarrow> upsgi_cache \<Rightarrow>
    (nat \<times> upsgi_cache) option" where
  "fill_entry now key val expires flags index first_block uc = do {
     u1 \<leftarrow> set_item index (\<lambda>it. it\<lparr>ci_first_block := first_block\<rparr>) uc;
     (e, u2) \<leftarrow>
       (if uc_purge_lru u1 then map_option (Pair expires) (lru_add_item index u1)
        else if expires \<noteq> 0 \<and> \<not> bit flags FLAG_ABSEXPIRE then
          (let e = size_add expires now in Some (e, note_expiry e u1))
        else Some (expires, u1));
     u3 \<leftarrow> set_item index (\<lambda>it. it\<lparr>ci_expires := e, ci_hash := unat (uc_hash uc key), ci_hits := 0, ci_flags := flags\<rparr>) u2;
     u4 \<leftarrow> write_key index key u3;
     u5 \<leftarrow> store_value True flags val first_block u4;
     u6 \<leftarrow> set_item index (\<lambda>it. it\<lparr>ci_valsize := length val, ci_keysize := length key\<rparr>) u5;
     Some (e, u6)
   }"

definition fill_item :: "nat \<Rightarrow> char list \<Rightarrow> char list \<Rightarrow> nat \<Rightarrow> 64 word \<Rightarrow> nat \<Rightarrow> nat \<Rightarrow> upsgi_cache \<Rightarrow>
    (nat \<times> upsgi_cache) option" where
  "fill_item now key val expires flags index first_block uc = do {
     (e, u1) \<leftarrow> fill_entry now key val expires flags index first_block uc;
     u2 \<leftarrow> link_item (unat (uc_hash uc key)) index u1;
     Some (e, u2\<lparr>uc_n_items := size_add (uc_n_items u2) 1\<rparr>)
   }"

text \<open>The result of the two branches: the expiry time that goes to the other nodes, or \<open>None\<close> when the call
  jumped to its end.\<close>

definition set_new :: "nat \<Rightarrow> char list \<Rightarrow> char list \<Rightarrow> nat \<Rightarrow> 64 word \<Rightarrow> upsgi_cache \<Rightarrow> (nat option \<times> upsgi_cache) option" where
  "set_new now key val expires flags uc = do {
     u0 \<leftarrow> (if uc_unused_ptr uc = 0 then cache_full now uc else Some uc);
     (if uc_unused_ptr u0 = 0 then Some (None, u0)
      else if uc_unused_ptr u0 \<ge> length (uc_unused_stack u0) then None
      else
       (let index = uc_unused_stack u0 ! uc_unused_ptr u0; u1 = u0\<lparr>uc_unused_ptr := uc_unused_ptr u0 - 1\<rparr> in do {
        (fb, u2) \<leftarrow> (case uc_bitmap u1 of None \<Rightarrow> Some (index, u1) | Some bm \<Rightarrow> claim_blocks (length val) u1 bm);
        (if uc_bitmap u1 \<noteq> None \<and> fb = no_block then do {
           u3 \<leftarrow> set_item index (\<lambda>it. it\<lparr>ci_first_block := no_block\<rparr>) (u2\<lparr>uc_unused_ptr := uc_unused_ptr u2 + 1\<rparr>);
           map_option (Pair None) (cache_full now u3)
         } else map_option (\<lambda>(e, u). (Some e, u)) (fill_item now key val expires flags index fb u2))
        }))
   }"

definition set_update :: "nat \<Rightarrow> nat \<Rightarrow> char list \<Rightarrow> nat \<Rightarrow> 64 word \<Rightarrow> upsgi_cache \<Rightarrow> (nat option \<times> upsgi_cache) option" where
  "set_update now index val expires flags uc = do {
     (e, u1) \<leftarrow>
       (if bit flags FLAG_FIXEXPIRE then Some (expires, uc)
        else do {
          (e, u) \<leftarrow>
            (if uc_purge_lru uc then do { u \<leftarrow> lru_remove_item index uc; map_option (Pair expires) (lru_add_item index u) }
             else if expires \<noteq> 0 \<and> \<not> bit flags FLAG_ABSEXPIRE then
               (let e = size_add expires now in Some (e, note_expiry e uc))
             else Some (expires, uc));
          map_option (Pair e) (set_item index (\<lambda>it. it\<lparr>ci_expires := e\<rparr>) u)
        });
     uci \<leftarrow> item_at u1 index;
     (fb, u2) \<leftarrow>
       (case uc_bitmap u1 of
          None \<Rightarrow> Some (ci_first_block uci, u1)
        | Some bm \<Rightarrow> do {
            (r, u) \<leftarrow> claim_blocks (length val) u1 bm;
            (if r = no_block then Some (no_block, u)
             else do {
               u' \<leftarrow> set_item index (\<lambda>it. it\<lparr>ci_first_block := r\<rparr>) u;
               map_option (Pair r) (unmark_item uci u')
             })
          });
     (if uc_bitmap u1 \<noteq> None \<and> fb = no_block then map_option (Pair None) (cache_full now u2)
      else do {
        u3 \<leftarrow> store_value False flags val fb u2;
        map_option (Pair (Some e)) (set_item index (\<lambda>it. it\<lparr>ci_valsize := length val\<rparr>) u3)
      })
   }"

text \<open>The guards at the head of \<open>upsgi_cache_set2\<close>.\<close>

definition set_refused :: "char list \<Rightarrow> char list \<Rightarrow> 64 word \<Rightarrow> upsgi_cache \<Rightarrow> bool" where
  "set_refused key val flags uc \<longleftrightarrow>
     key = [] \<or> val = [] \<or> length key > uc_keysize uc \<or> length val > uc_max_item_size uc \<or>
     bit flags FLAG_MATH \<and> length val \<noteq> 8"

definition upsgi_cache_set2 ::
    "nat \<Rightarrow> char list \<Rightarrow> char list \<Rightarrow> nat \<Rightarrow> 64 word \<Rightarrow> upsgi_cache \<Rightarrow> (bool \<times> upsgi_cache) option" where
  "upsgi_cache_set2 now key val expires flags uc =
     (if set_refused key val flags uc then Some (False, uc)
      else do {
        (index, u0) \<leftarrow> upsgi_cache_get_index now key uc;
        (if index \<noteq> 0 \<and> \<not> bit flags FLAG_UPDATE then Some (False, touch_modified now u0)
         else do {
           (res, u1) \<leftarrow> (if index = 0 then set_new now key val expires flags u0
                         else set_update now index val expires flags u0);
           Some (case res of
               None \<Rightarrow> (False, u1)
             | Some e \<Rightarrow>
                 (let u2 = touch_modified now u1 in
                  (True, if uc_nodes u2 \<noteq> [] \<and> \<not> bit flags FLAG_LOCAL then cache_send_udp_command key val e 10 u2 else u2)))
         })
      })"

section \<open>Sweeping, restoring and listing\<close>

fun sweeper_loop :: "nat \<Rightarrow> nat list \<Rightarrow> upsgi_cache \<Rightarrow> (nat \<times> upsgi_cache) option" where
  "sweeper_loop now [] uc = Some (0, uc)"
| "sweeper_loop now (i # is) uc =
     (let u0 = (if i = 1 then uc\<lparr>uc_next_scan := 0\<rparr> else uc) in do {
        uci \<leftarrow> item_at u0 i;
        (if ci_expires uci = 0 then sweeper_loop now is u0
         else if ci_expires uci \<le> now then do {
           u \<leftarrow> del_slot now [] i flag_local u0;
           (n, u1) \<leftarrow> sweeper_loop now is u;
           Some (n + 1, u1)
         } else sweeper_loop now is (note_expiry (ci_expires uci) u0))
      })"

definition cache_sweeper_free_items :: "nat \<Rightarrow> upsgi_cache \<Rightarrow> (nat \<times> upsgi_cache) option" where
  "cache_sweeper_free_items now uc =
     (if uc_no_expire uc \<or> uc_purge_lru uc \<or> uc_lazy_expire uc then Some (0, uc)
      else if uc_next_scan uc = 0 \<or> uc_next_scan uc > now then Some (0, uc)
      else sweeper_loop now [1 ..< uc_max_items uc] uc)"

fun fix_loop :: "nat list \<Rightarrow> nat \<Rightarrow> nat \<Rightarrow> upsgi_cache \<Rightarrow> (nat \<times> nat \<times> upsgi_cache) option" where
  "fix_loop [] restored next_scan uc = Some (restored, next_scan, uc)"
| "fix_loop (i # is) restored next_scan uc = do {
     uci \<leftarrow> item_at uc i;
     (if ci_keysize uci \<noteq> 0 then do {
        u1 \<leftarrow> (if ci_prev uci = 0 then set_bucket (ci_hash uci) i uc else Some uc);
        (let ns = (if ci_expires uci \<noteq> 0 \<and> (next_scan = 0 \<or> next_scan > ci_expires uci) then ci_expires uci else next_scan);
             u2 = (if uc_lru_head u1 = 0 \<and> ci_lru_prev uci = 0 then u1\<lparr>uc_lru_head := i\<rparr> else u1);
             u3 = (if uc_lru_tail u2 = 0 \<and> ci_lru_next uci = 0 then u2\<lparr>uc_lru_tail := i\<rparr> else u2)
         in fix_loop is (restored + 1) ns u3)
      } else do {
        u1 \<leftarrow> push_unused i uc;
        fix_loop is restored next_scan u1
      })
   }"

definition upsgi_cache_fix :: "upsgi_cache \<Rightarrow> upsgi_cache option" where
  "upsgi_cache_fix uc =
     map_option (\<lambda>(restored, ns, u). u\<lparr>uc_next_scan := ns, uc_n_items := restored\<rparr>)
       (fix_loop [1 ..< uc_max_items uc] 0 0 (uc\<lparr>uc_unused_ptr := 0\<rparr>))"

text \<open>The state \<open>upsgi_cache_init\<close> gives a cache without a backing store, from the sizes and options of its
  definition.  The data area is fresh memory.\<close>

definition empty_item :: "nat \<Rightarrow> upsgi_cache_item" where
  "empty_item keysize = \<lparr>ci_flags = 0, ci_keysize = 0, ci_hash = 0, ci_valsize = 0, ci_first_block = 0, ci_expires = 0,
     ci_hits = 0, ci_prev = 0, ci_next = 0, ci_lru_prev = 0, ci_lru_next = 0, ci_key = replicate keysize (CHR 0x00)\<rparr>"

definition upsgi_cache_init :: "bool \<Rightarrow> upsgi_cache \<Rightarrow> upsgi_cache" where
  "upsgi_cache_init use_bitmap uc =
     uc\<lparr>uc_hashtable := replicate (uc_hashsize uc) 0,
        uc_unused_stack := [0 ..< uc_max_items uc], uc_unused_ptr := uc_max_items uc - 1,
        uc_bitmap := if use_bitmap then Some (bitmap_init (uc_blocks uc)) else None,
        uc_items := replicate (uc_max_items uc) (empty_item (uc_keysize uc)),
        uc_data := replicate (uc_blocks uc * uc_blocksize uc) (CHR 0x00)\<rparr>"

text \<open>One call of \<open>upsgi_cache_keys\<close>: from bucket \<open>pos\<close> on, behind the item of the last call if there is one.\<close>

fun keys_loop :: "upsgi_cache \<Rightarrow> nat list \<Rightarrow> nat \<Rightarrow> nat option \<Rightarrow> (nat \<times> nat option) option" where
  "keys_loop uc [] pos old = Some (uc_hashsize uc + 1, None)"
| "keys_loop uc (p # ps) pos old = do {
     first \<leftarrow> (if p < length (uc_hashtable uc) then Some (uc_hashtable uc ! p) else None);
     slot \<leftarrow> (if p = pos then (case old of None \<Rightarrow> Some first | Some i \<Rightarrow> map_option ci_next (item_at uc i)) else Some first);
     (if slot = 0 then keys_loop uc ps pos old
      else if slot < length (uc_items uc) then Some (p, Some slot) else None)
   }"

definition upsgi_cache_keys :: "upsgi_cache \<Rightarrow> nat \<Rightarrow> nat option \<Rightarrow> (nat \<times> nat option) option" where
  "upsgi_cache_keys uc pos old =
     (if pos \<ge> uc_hashsize uc then Some (pos, None)
      else keys_loop uc [pos ..< uc_hashsize uc] pos old)"

end
