(* ===== verification/Upsgi_CacheLists.thy ===== *)
theory Upsgi_CacheLists
  imports Upsgi_Cache
begin

text \<open>
  The linked lists inside the cache: doubly linked lists as lists of indices, the effect of taking a node out
  and of adding one at the end, and what \<open>unlink_item\<close>, \<open>link_item\<close>, \<open>lru_remove_item\<close> and \<open>lru_add_item\<close> do to the
  chains of the hash table and to the least-recently-used list.  The frame lemmas say that these operations
  change nothing but the links.
\<close>

section \<open>Doubly linked lists\<close>

text \<open>\<open>dll nx pv p xs n\<close>: the nodes \<open>xs\<close> are linked in this order, with \<open>p\<close> before the first one and \<open>n\<close> behind
  the last one; 0 is the null link.\<close>

fun dll :: "(nat \<Rightarrow> nat) \<Rightarrow> (nat \<Rightarrow> nat) \<Rightarrow> nat \<Rightarrow> nat list \<Rightarrow> nat \<Rightarrow> bool" where
  "dll nx pv p [] n \<longleftrightarrow> True"
| "dll nx pv p (x # xs) n \<longleftrightarrow> pv x = p \<and> nx x = (if xs = [] then n else hd xs) \<and> dll nx pv x xs n"

abbreviation first0 :: "nat list \<Rightarrow> nat" where
  "first0 xs \<equiv> (if xs = [] then 0 else hd xs)"

abbreviation last0 :: "nat list \<Rightarrow> nat" where
  "last0 xs \<equiv> (if xs = [] then 0 else last xs)"

lemma dll_append:
  "dll nx pv p (xs @ ys) n \<longleftrightarrow>
     dll nx pv p xs (if ys = [] then n else hd ys) \<and> dll nx pv (if xs = [] then p else last xs) ys n"
  by (induction xs arbitrary: p) (auto simp: hd_append)

lemma dll_cong:
  "(\<And>x. x \<in> set xs \<Longrightarrow> nx x = nx' x) \<Longrightarrow> (\<And>x. x \<in> set xs \<Longrightarrow> pv x = pv' x) \<Longrightarrow> dll nx pv p xs n = dll nx' pv' p xs n"
  by (induction xs arbitrary: p) auto

lemma dll_frame [simp]:
  "i \<notin> set xs \<Longrightarrow> dll (nx(i := a)) pv p xs n = dll nx pv p xs n"
  "i \<notin> set xs \<Longrightarrow> dll nx (pv(i := a)) p xs n = dll nx pv p xs n"
  by (rule dll_cong; auto)+

lemma dll_snoc_end:
  "distinct xs \<Longrightarrow> xs \<noteq> [] \<Longrightarrow> dll nx pv p xs n \<Longrightarrow> dll (nx(last xs := m)) pv p xs m"
  by (induction xs arbitrary: p) (auto simp: last_in_set)

lemma dll_cons_start:
  "distinct xs \<Longrightarrow> xs \<noteq> [] \<Longrightarrow> dll nx pv p xs n \<Longrightarrow> dll nx (pv(hd xs := q)) q xs n"
  by (cases xs) auto

text \<open>Taking a node out, and adding one at the end.\<close>

lemma dll_remove:
  assumes "dll nx pv 0 (ys @ i # zs) 0" "distinct (ys @ i # zs)" "0 \<notin> set (ys @ i # zs)"
  shows "pv i = last0 ys" "nx i = first0 zs"
    "dll (if ys = [] then nx else nx(last ys := first0 zs)) (if zs = [] then pv else pv(hd zs := last0 ys)) 0 (ys @ zs) 0"
proof -
  from assms(1) have y: "dll nx pv 0 ys i" and i: "pv i = last0 ys" "nx i = first0 zs" and z: "dll nx pv i zs 0"
    by (auto simp: dll_append)
  show "pv i = last0 ys" "nx i = first0 zs" by fact+
  let ?nx = "if ys = [] then nx else nx(last ys := first0 zs)"
  let ?pv = "if zs = [] then pv else pv(hd zs := last0 ys)"
  have hz: "hd zs \<notin> set ys" if "zs \<noteq> []" using that assms(2) hd_in_set [OF that] by auto
  have "dll ?nx ?pv 0 ys (first0 zs)"
  proof (cases "ys = []")
    case False
    have "dll (nx(last ys := first0 zs)) pv 0 ys (first0 zs)" by (rule dll_snoc_end [OF _ False y]) (use assms(2) in auto)
    then show ?thesis using False hz by (cases "zs = []") simp_all
  qed simp
  moreover have "dll ?nx ?pv (last0 ys) zs 0"
  proof (cases "zs = []")
    case False
    have "dll nx (pv(hd zs := last0 ys)) (last0 ys) zs 0" by (rule dll_cons_start [OF _ False z]) (use assms(2) in auto)
    moreover have "last ys \<notin> set zs" if "ys \<noteq> []" using that assms(2) last_in_set [OF that] by (metis disjoint_iff distinct_append set_subset_Cons subsetD)
    ultimately show ?thesis using False by auto
  qed simp
  ultimately show "dll ?nx ?pv 0 (ys @ zs) 0" by (auto simp: dll_append)
qed

lemma dll_add:
  assumes "dll nx pv 0 xs 0" "distinct xs" "i \<notin> set xs"
  shows "dll ((if xs = [] then nx else nx(last xs := i))(i := 0)) (pv(i := last0 xs)) 0 (xs @ [i]) 0"
proof (cases "xs = []")
  case False
  then have "dll (nx(last xs := i)) pv 0 xs i" by (rule dll_snoc_end [OF assms(2) _ assms(1)])
  with False assms(3) show ?thesis by (simp add: dll_append)
qed simp

section \<open>The fields of the items\<close>

definition fld :: "(upsgi_cache_item \<Rightarrow> 'a) \<Rightarrow> upsgi_cache \<Rightarrow> nat \<Rightarrow> 'a" where
  "fld f uc i = f (if i < length (uc_items uc) then uc_items uc ! i else empty_item 0)"

lemma set_item_fld:
  assumes "set_item i g uc = Some u"
  shows "fld f u = (fld f uc)(i := f (g (uc_items uc ! i)))"
  using assms by (auto simp: set_item_def fld_def fun_eq_iff split: if_splits)

lemma set_item_some: "i < length (uc_items uc) \<Longrightarrow> \<exists>u. set_item i g uc = Some u"
  by (simp add: set_item_def)

text \<open>An update of any other part of the cache leaves the items alone.\<close>

lemma fld_frame [simp]:
  "fld f (uc\<lparr>uc_hashtable := a\<rparr>) = fld f uc" "fld f (uc\<lparr>uc_unused_stack := b\<rparr>) = fld f uc"
  "fld f (uc\<lparr>uc_unused_ptr := c\<rparr>) = fld f uc" "fld f (uc\<lparr>uc_bitmap := d\<rparr>) = fld f uc"
  "fld f (uc\<lparr>uc_bitmap_pos := e\<rparr>) = fld f uc" "fld f (uc\<lparr>uc_n_items := c\<rparr>) = fld f uc"
  "fld f (uc\<lparr>uc_last_modified_at := c\<rparr>) = fld f uc" "fld f (uc\<lparr>uc_data := g\<rparr>) = fld f uc"
  "fld f (uc\<lparr>uc_full := c\<rparr>) = fld f uc" "fld f (uc\<lparr>uc_hits := c\<rparr>) = fld f uc" "fld f (uc\<lparr>uc_miss := c\<rparr>) = fld f uc"
  "fld f (uc\<lparr>uc_udp := h\<rparr>) = fld f uc" "fld f (uc\<lparr>uc_next_scan := c\<rparr>) = fld f uc"
  "fld f (uc\<lparr>uc_lru_head := c\<rparr>) = fld f uc" "fld f (uc\<lparr>uc_lru_tail := c\<rparr>) = fld f uc"
  by (simp_all add: fld_def fun_eq_iff)

text \<open>A cache without its chains, and one without its least-recently-used list: two caches that agree on that
  differ in the links only.\<close>

definition unlinked :: "upsgi_cache \<Rightarrow> upsgi_cache" where
  "unlinked uc = uc\<lparr>uc_hashtable := replicate (length (uc_hashtable uc)) 0,
     uc_items := map (\<lambda>it. it\<lparr>ci_next := 0, ci_prev := 0\<rparr>) (uc_items uc)\<rparr>"

definition unranked :: "upsgi_cache \<Rightarrow> upsgi_cache" where
  "unranked uc = uc\<lparr>uc_lru_head := 0, uc_lru_tail := 0,
     uc_items := map (\<lambda>it. it\<lparr>ci_lru_next := 0, ci_lru_prev := 0\<rparr>) (uc_items uc)\<rparr>"

lemma fld_map_eq:
  assumes "map g (uc_items u) = map g (uc_items uc)" "\<And>it. f (g it) = f it"
  shows "fld f u = fld f uc"
proof
  fix i
  have l: "length (uc_items u) = length (uc_items uc)" using assms(1) by (rule map_eq_imp_length_eq)
  have "g (uc_items u ! i) = g (uc_items uc ! i)" if "i < length (uc_items uc)"
    using arg_cong [OF assms(1), of "\<lambda>xs. xs ! i"] that l by simp
  then have "f (uc_items u ! i) = f (uc_items uc ! i)" if "i < length (uc_items uc)"
    using that assms(2) by metis
  then show "fld f u i = fld f uc i" by (simp add: fld_def l)
qed

lemma unlinked_items:
  assumes "unlinked u = unlinked uc"
  shows "map (\<lambda>it. it\<lparr>ci_next := 0, ci_prev := 0\<rparr>) (uc_items u) = map (\<lambda>it. it\<lparr>ci_next := 0, ci_prev := 0\<rparr>) (uc_items uc)"
  using arg_cong [OF assms, of uc_items] by (simp add: unlinked_def)

lemma unranked_items:
  assumes "unranked u = unranked uc"
  shows "map (\<lambda>it. it\<lparr>ci_lru_next := 0, ci_lru_prev := 0\<rparr>) (uc_items u) =
    map (\<lambda>it. it\<lparr>ci_lru_next := 0, ci_lru_prev := 0\<rparr>) (uc_items uc)"
  using arg_cong [OF assms, of uc_items] by (simp add: unranked_def)

lemma unlinked_flds:
  assumes "unlinked u = unlinked uc"
  shows "fld ci_flags u = fld ci_flags uc" "fld ci_keysize u = fld ci_keysize uc" "fld ci_hash u = fld ci_hash uc"
    "fld ci_valsize u = fld ci_valsize uc" "fld ci_first_block u = fld ci_first_block uc" "fld ci_expires u = fld ci_expires uc"
    "fld ci_lru_prev u = fld ci_lru_prev uc" "fld ci_lru_next u = fld ci_lru_next uc" "fld ci_key u = fld ci_key uc"
  by (rule fld_map_eq [OF unlinked_items [OF assms]]; simp)+

lemma unranked_flds:
  assumes "unranked u = unranked uc"
  shows "fld ci_flags u = fld ci_flags uc" "fld ci_keysize u = fld ci_keysize uc" "fld ci_hash u = fld ci_hash uc"
    "fld ci_valsize u = fld ci_valsize uc" "fld ci_first_block u = fld ci_first_block uc" "fld ci_expires u = fld ci_expires uc"
    "fld ci_prev u = fld ci_prev uc" "fld ci_next u = fld ci_next uc" "fld ci_key u = fld ci_key uc"
  by (rule fld_map_eq [OF unranked_items [OF assms]]; simp)+

lemma unlinked_parts:
  assumes "unlinked u = unlinked uc"
  shows "uc_keysize u = uc_keysize uc" "uc_blocks u = uc_blocks uc" "uc_blocksize u = uc_blocksize uc" "uc_hash u = uc_hash uc"
    "uc_hashsize u = uc_hashsize uc" "uc_unused_stack u = uc_unused_stack uc" "uc_unused_ptr u = uc_unused_ptr uc"
    "uc_bitmap u = uc_bitmap uc" "uc_bitmap_pos u = uc_bitmap_pos uc" "uc_max_items u = uc_max_items uc"
    "uc_max_item_size u = uc_max_item_size uc" "uc_n_items u = uc_n_items uc" "uc_data u = uc_data uc"
    "uc_purge_lru u = uc_purge_lru uc" "uc_lru_head u = uc_lru_head uc" "uc_lru_tail u = uc_lru_tail uc"
    "uc_lazy_expire u = uc_lazy_expire uc" "uc_nodes u = uc_nodes uc" "uc_math_initial u = uc_math_initial uc"
    "length (uc_hashtable u) = length (uc_hashtable uc)" "length (uc_items u) = length (uc_items uc)"
  using assms map_eq_imp_length_eq [OF unlinked_items [OF assms]]
  by (cases u; cases uc; simp add: unlinked_def)+

lemma unranked_parts:
  assumes "unranked u = unranked uc"
  shows "uc_keysize u = uc_keysize uc" "uc_blocks u = uc_blocks uc" "uc_blocksize u = uc_blocksize uc" "uc_hash u = uc_hash uc"
    "uc_hashsize u = uc_hashsize uc" "uc_unused_stack u = uc_unused_stack uc" "uc_unused_ptr u = uc_unused_ptr uc"
    "uc_bitmap u = uc_bitmap uc" "uc_bitmap_pos u = uc_bitmap_pos uc" "uc_max_items u = uc_max_items uc"
    "uc_max_item_size u = uc_max_item_size uc" "uc_n_items u = uc_n_items uc" "uc_data u = uc_data uc"
    "uc_purge_lru u = uc_purge_lru uc" "uc_hashtable u = uc_hashtable uc"
    "uc_lazy_expire u = uc_lazy_expire uc" "uc_nodes u = uc_nodes uc" "uc_math_initial u = uc_math_initial uc"
    "length (uc_items u) = length (uc_items uc)"
  using assms map_eq_imp_length_eq [OF unranked_items [OF assms]]
  by (cases u; cases uc; simp add: unranked_def)+

lemma unlinked_set_item:
  assumes "set_item i g uc = Some u" "\<And>it. (g it)\<lparr>ci_next := 0, ci_prev := 0\<rparr> = it\<lparr>ci_next := 0, ci_prev := 0\<rparr>"
  shows "unlinked u = unlinked uc" "uc_hashtable u = uc_hashtable uc"
  using assms by (auto simp: set_item_def unlinked_def map_update split: if_splits) (metis list_update_id map_update)

lemma unranked_set_item:
  assumes "set_item i g uc = Some u" "\<And>it. (g it)\<lparr>ci_lru_next := 0, ci_lru_prev := 0\<rparr> = it\<lparr>ci_lru_next := 0, ci_lru_prev := 0\<rparr>"
  shows "unranked u = unranked uc" "uc_lru_head u = uc_lru_head uc" "uc_lru_tail u = uc_lru_tail uc"
  using assms by (auto simp: set_item_def unranked_def map_update split: if_splits) (metis list_update_id map_update)

section \<open>Chains\<close>

definition chained :: "upsgi_cache \<Rightarrow> (nat \<Rightarrow> nat list) \<Rightarrow> bool" where
  "chained uc ch \<longleftrightarrow> length (uc_hashtable uc) = uc_hashsize uc \<and>
     (\<forall>h < uc_hashsize uc. dll (fld ci_next uc) (fld ci_prev uc) 0 (ch h) 0 \<and> uc_hashtable uc ! h = first0 (ch h) \<and>
        distinct (ch h) \<and> set (ch h) \<subseteq> {1 ..< length (uc_items uc)}) \<and>
     (\<forall>h < uc_hashsize uc. \<forall>k < uc_hashsize uc. h \<noteq> k \<longrightarrow> set (ch h) \<inter> set (ch k) = {})"

lemma unlink_ok:
  assumes "chained uc ch" "0 < uc_hashsize uc" "h = ci_hash uci mod uc_hashsize uc" "i \<in> set (ch h)" "uci = uc_items uc ! i"
  shows "\<exists>u. unlink_item uci uc = Some u \<and> unlinked u = unlinked uc \<and> chained u (ch(h := remove1 i (ch h)))"
proof -
  have h: "h < uc_hashsize uc" "h < length (uc_hashtable uc)" using assms(1-3) by (simp_all add: chained_def)
  note c = assms(1) [unfolded chained_def]
  obtain ys zs where s: "ch h = ys @ i # zs" using split_list [OF assms(4)] by blast
  have d: "dll (fld ci_next uc) (fld ci_prev uc) 0 (ys @ i # zs) 0" "distinct (ys @ i # zs)" "0 \<notin> set (ys @ i # zs)"
    "set (ys @ i # zs) \<subseteq> {1 ..< length (uc_items uc)}" "uc_hashtable uc ! h = first0 (ys @ i # zs)"
    using c h(1) s by (metis, metis, force, metis, metis)
  have il: "i < length (uc_items uc)" using d(4) by auto
  note r = dll_remove [OF d(1-3)]
  have pn: "ci_prev uci = last0 ys" "ci_next uci = first0 zs" using r(1,2) il assms(5) by (simp_all add: fld_def)
  have mem: "x \<in> set (ys @ i # zs) \<Longrightarrow> x < length (uc_items uc) \<and> x \<noteq> 0" for x using subsetD [OF d(4)] by fastforce
  have ys: "ys \<noteq> [] \<Longrightarrow> last ys \<in> set ys" "ys \<noteq> [] \<Longrightarrow> last ys < length (uc_items uc) \<and> last ys \<noteq> 0"
    using mem last_in_set [of ys] by simp_all
  have zs: "zs \<noteq> [] \<Longrightarrow> hd zs \<in> set zs" "zs \<noteq> [] \<Longrightarrow> hd zs < length (uc_items uc) \<and> hd zs \<noteq> 0"
    using mem hd_in_set [of zs] by simp_all
  obtain u1 where u1: "(if ci_prev uci \<noteq> 0 then set_item (ci_prev uci) (\<lambda>it. it\<lparr>ci_next := ci_next uci\<rparr>) uc
        else set_bucket (ci_hash uci) (ci_next uci) uc) = Some u1" "unlinked u1 = unlinked uc"
    "fld ci_next u1 = (if ys = [] then fld ci_next uc else (fld ci_next uc)(last ys := first0 zs))"
    "fld ci_prev u1 = fld ci_prev uc"
    "uc_hashtable u1 = (if ys = [] then (uc_hashtable uc)[h := first0 zs] else uc_hashtable uc)"
  proof (cases "ys = []")
    case True
    let ?u = "uc\<lparr>uc_hashtable := (uc_hashtable uc)[h := first0 zs]\<rparr>"
    have "set_bucket (ci_hash uci) (ci_next uci) uc = Some ?u" using h(2) assms(3) pn by (simp add: set_bucket_def)
    moreover have "unlinked ?u = unlinked uc" by (simp add: unlinked_def)
    ultimately show ?thesis using that [of ?u] True pn by simp
  next
    case False
    obtain u where u: "set_item (last ys) (\<lambda>it. it\<lparr>ci_next := ci_next uci\<rparr>) uc = Some u" using set_item_some ys(2) False by blast
    note f = set_item_fld [OF u] unlinked_set_item [OF u]
    have "fld ci_prev u = fld ci_prev uc" by (simp add: f(1) fun_eq_iff) (simp add: fld_def ys(2) False)
    moreover have "fld ci_next u = (fld ci_next uc)(last ys := first0 zs)" by (simp add: f(1) pn)
    ultimately show ?thesis using that [of u] False u pn f(2,3) ys(2) by simp
  qed
  note q1 = unlinked_parts [OF u1(2)]
  obtain u2 where u2: "(if ci_next uci \<noteq> 0 then set_item (ci_next uci) (\<lambda>it. it\<lparr>ci_prev := ci_prev uci\<rparr>) u1 else Some u1) = Some u2"
    "unlinked u2 = unlinked u1" "fld ci_next u2 = fld ci_next u1"
    "fld ci_prev u2 = (if zs = [] then fld ci_prev u1 else (fld ci_prev u1)(hd zs := last0 ys))"
    "uc_hashtable u2 = uc_hashtable u1"
  proof (cases "zs = []")
    case True
    then show ?thesis using that [of u1] pn by simp
  next
    case False
    then have "hd zs < length (uc_items u1)" using zs(2) q1 by simp
    then obtain u where u: "set_item (hd zs) (\<lambda>it. it\<lparr>ci_prev := ci_prev uci\<rparr>) u1 = Some u" using set_item_some by blast
    note f = set_item_fld [OF u] unlinked_set_item [OF u]
    have "fld ci_next u = fld ci_next u1" using \<open>hd zs < length (uc_items u1)\<close> by (simp add: f(1) fun_eq_iff) (simp add: fld_def)
    moreover have "fld ci_prev u = (fld ci_prev u1)(hd zs := last0 ys)" by (simp add: f(1) pn)
    ultimately show ?thesis using that [of u] False u pn f(2,3) zs(2) by simp
  qed
  let ?ht = "if ys = [] then (uc_hashtable uc)[h := first0 zs] else uc_hashtable uc"
  obtain u where u: "(if ci_prev uci = 0 \<and> ci_next uci = 0 then set_bucket (ci_hash uci) 0 u2 else Some u2) = Some u"
    "unlinked u = unlinked u2" "fld ci_next u = fld ci_next u2" "fld ci_prev u = fld ci_prev u2" "uc_hashtable u = ?ht"
  proof (cases "ys = [] \<and> zs = []")
    case True
    let ?u = "u2\<lparr>uc_hashtable := (uc_hashtable u2)[h := 0]\<rparr>"
    have "h < length (uc_hashtable u2)" "uc_hashsize u2 = uc_hashsize uc"
      using h(2) q1 unlinked_parts [OF u2(2)] by simp_all
    then have "set_bucket (ci_hash uci) 0 u2 = Some ?u" using assms(3) by (simp add: set_bucket_def)
    moreover have "unlinked ?u = unlinked u2" by (simp add: unlinked_def)
    ultimately show ?thesis using that [of ?u] True pn u1(5) u2(5) by simp
  next
    case False
    then have "\<not> (ci_prev uci = 0 \<and> ci_next uci = 0)" using pn ys(2) zs(2) by auto
    then show ?thesis using that [of u2] u1(5) u2(5) by auto
  qed
  have un: "unlinked u = unlinked uc" using u(2) u2(2) u1(2) by simp
  have op: "unlink_item uci uc = Some u"
    unfolding unlink_item_def using u1(1) u2(1) u(1) by (simp only: bind.bind_lunit)
  note q = unlinked_parts [OF un]
  have rm: "remove1 i (ch h) = ys @ zs" using d(2) s by (simp add: remove1_append)
  have nxpv: "fld ci_next u = (if ys = [] then fld ci_next uc else (fld ci_next uc)(last ys := first0 zs))"
    "fld ci_prev u = (if zs = [] then fld ci_prev uc else (fld ci_prev uc)(hd zs := last0 ys))"
    using u u2 u1 by simp_all
  have "dll (fld ci_next u) (fld ci_prev u) 0 ((ch(h := ys @ zs)) k) 0 \<and> uc_hashtable u ! k = first0 ((ch(h := ys @ zs)) k)"
    if k: "k < uc_hashsize uc" for k
  proof (cases "k = h")
    case True
    then show ?thesis using r(3) nxpv u(5) d(5) h(2) by (auto simp: hd_append)
  next
    case False
    then have "set (ch k) \<inter> set (ys @ i # zs) = {}" using c k h(1) s by metis
    then have "last ys \<notin> set (ch k)" if "ys \<noteq> []" using ys(1) [OF that] by auto
    moreover have "hd zs \<notin> set (ch k)" if "zs \<noteq> []" using zs(1) [OF that] \<open>set (ch k) \<inter> set (ys @ i # zs) = {}\<close> by auto
    ultimately show ?thesis using c k False u(5) by (auto simp: nxpv)
  qed
  moreover have "distinct ((ch(h := ys @ zs)) k) \<and> set ((ch(h := ys @ zs)) k) \<subseteq> {1 ..< length (uc_items uc)}"
    if "k < uc_hashsize uc" for k using that c d(2,4) by auto
  moreover have "set ((ch(h := ys @ zs)) k) \<inter> set ((ch(h := ys @ zs)) j) = {}"
    if "k < uc_hashsize uc" "j < uc_hashsize uc" "k \<noteq> j" for k j
  proof -
    have "set ((ch(h := ys @ zs)) x) \<subseteq> set (ch x)" for x using s by auto
    moreover have "set (ch k) \<inter> set (ch j) = {}" using that c by blast
    ultimately show ?thesis by blast
  qed
  ultimately have "chained u (ch(h := ys @ zs))" unfolding chained_def q using c by (simp del: fun_upd_apply)
  with op un rm show ?thesis by auto
qed

lemma chain_last_dll:
  "dll (fld ci_next uc) pv p (x # xs) 0 \<Longrightarrow> set (x # xs) \<subseteq> {1 ..< length (uc_items uc)} \<Longrightarrow> chain_last uc x = Some (last (x # xs))"
proof (induction xs arbitrary: p x)
  case Nil
  then show ?case by (subst chain_last.simps) (simp add: item_at_def fld_def)
next
  case (Cons y ys)
  then have "chain_last uc y = Some (last (y # ys))" by simp
  with Cons.prems show ?case by (subst chain_last.simps) (simp add: item_at_def fld_def)
qed

lemma link_ok:
  assumes "chained uc ch" "0 < uc_hashsize uc" "h = hash mod uc_hashsize uc" "i \<in> {1 ..< length (uc_items uc)}"
    and "\<And>k. k < uc_hashsize uc \<Longrightarrow> i \<notin> set (ch k)"
  shows "\<exists>u. link_item hash i uc = Some u \<and> unlinked u = unlinked uc \<and> chained u (ch(h := ch h @ [i]))"
proof -
  have h: "h < uc_hashsize uc" "h < length (uc_hashtable uc)" using assms(1-3) by (simp_all add: chained_def)
  note c = assms(1) [unfolded chained_def]
  have d: "dll (fld ci_next uc) (fld ci_prev uc) 0 (ch h) 0" "distinct (ch h)" "uc_hashtable uc ! h = first0 (ch h)"
    "set (ch h) \<subseteq> {1 ..< length (uc_items uc)}" using c h(1) by blast+
  have il: "i < length (uc_items uc)" "i \<noteq> 0" using assms(4) by simp_all
  obtain u1 where u1: "set_item i (\<lambda>it. it\<lparr>ci_prev := 0, ci_next := 0\<rparr>) uc = Some u1" using set_item_some il(1) by blast
  note f1 = set_item_fld [OF u1]
  have un1: "unlinked u1 = unlinked uc" "uc_hashtable u1 = uc_hashtable uc" using unlinked_set_item [OF u1] by simp_all
  note q1 = unlinked_parts [OF un1(1)]
  have nx1: "fld ci_next u1 = (fld ci_next uc)(i := 0)" "fld ci_prev u1 = (fld ci_prev uc)(i := 0)" by (simp_all add: f1)
  have b: "bucket u1 hash = Some (first0 (ch h))" using h(2) d(3) assms(3) q1 un1(2) by (simp add: bucket_def)
  have ni: "i \<notin> set (ch h)" using assms(5) h(1) by blast
  obtain u where u: "link_item hash i uc = Some u" "unlinked u = unlinked uc"
    "fld ci_next u = (if ch h = [] then fld ci_next uc else (fld ci_next uc)(last (ch h) := i))(i := 0)"
    "fld ci_prev u = (fld ci_prev uc)(i := last0 (ch h))"
    "uc_hashtable u = (if ch h = [] then (uc_hashtable uc)[h := i] else uc_hashtable uc)"
  proof (cases "ch h = []")
    case True
    let ?u = "u1\<lparr>uc_hashtable := (uc_hashtable u1)[h := i]\<rparr>"
    have "set_bucket hash i u1 = Some ?u" using h(2) assms(3) q1 un1(2) by (simp add: set_bucket_def)
    then have "link_item hash i uc = Some ?u" using True u1 b by (simp add: link_item_def)
    moreover have "unlinked ?u = unlinked uc" using un1(1) by (simp add: unlinked_def)
    ultimately show ?thesis using that [of ?u] True nx1 un1(2) by simp
  next
    case False
    then have lm: "last (ch h) \<in> set (ch h)" by simp
    then have ll: "last (ch h) < length (uc_items uc)" "last (ch h) \<noteq> i" using subsetD [OF d(4)] ni by force+
    have fst: "first0 (ch h) = hd (ch h)" "hd (ch h) \<noteq> 0" using False subsetD [OF d(4), of "hd (ch h)"] by auto
    have dll1: "dll (fld ci_next u1) (fld ci_prev u1) 0 (ch h) 0" unfolding nx1 using d(1) ni by simp
    have cl: "chain_last u1 (hd (ch h)) = Some (last (ch h))"
      using chain_last_dll [of u1 "fld ci_prev u1" 0 "hd (ch h)" "tl (ch h)"] dll1 d(4) q1 False by simp
    obtain u2 where u2: "set_item (last (ch h)) (\<lambda>it. it\<lparr>ci_next := i\<rparr>) u1 = Some u2"
      using set_item_some ll(1) q1 by metis
    have un2: "unlinked u2 = unlinked u1" "uc_hashtable u2 = uc_hashtable u1" using unlinked_set_item [OF u2] by simp_all
    obtain u where u: "set_item i (\<lambda>it. it\<lparr>ci_prev := last (ch h)\<rparr>) u2 = Some u"
      using set_item_some il(1) q1 unlinked_parts [OF un2(1)] by metis
    have un: "unlinked u = unlinked u2" "uc_hashtable u = uc_hashtable u2" using unlinked_set_item [OF u] by simp_all
    have l1: "length (uc_items u1) = length (uc_items uc)" "length (uc_items u2) = length (uc_items uc)"
      using q1 unlinked_parts [OF un2(1)] by simp_all
    have "link_item hash i uc = Some u" using False u1 b fst cl u2 u by (simp add: link_item_def)
    moreover have "fld ci_next u2 = (fld ci_next u1)(last (ch h) := i)" by (simp add: set_item_fld [OF u2])
    moreover have "fld ci_prev u2 = fld ci_prev u1"
      by (simp add: set_item_fld [OF u2] fun_eq_iff) (simp add: fld_def l1 ll)
    moreover have "fld ci_next u = fld ci_next u2"
      by (simp add: set_item_fld [OF u] fun_eq_iff) (simp add: fld_def l1 il)
    moreover have "fld ci_prev u = (fld ci_prev u2)(i := last (ch h))" by (simp add: set_item_fld [OF u])
    ultimately show ?thesis using that [of u] False nx1 un un2 un1 ll(2) by (simp add: fun_upd_twist)
  qed
  note q = unlinked_parts [OF u(2)]
  have new: "dll (fld ci_next u) (fld ci_prev u) 0 (ch h @ [i]) 0" unfolding u(3,4) by (rule dll_add [OF d(1,2) ni])
  have "dll (fld ci_next u) (fld ci_prev u) 0 ((ch(h := ch h @ [i])) k) 0 \<and> uc_hashtable u ! k = first0 ((ch(h := ch h @ [i])) k)"
    if k: "k < uc_hashsize uc" for k
  proof (cases "k = h")
    case True
    then show ?thesis using new u(5) d(3) h(2) by auto
  next
    case False
    then have "last (ch h) \<notin> set (ch k)" if "ch h \<noteq> []" using c k h(1) last_in_set [OF that] by (metis disjoint_iff)
    then show ?thesis using c k False u(5) assms(5) [OF k] by (auto simp: u(3,4))
  qed
  moreover have "distinct ((ch(h := ch h @ [i])) k) \<and> set ((ch(h := ch h @ [i])) k) \<subseteq> {1 ..< length (uc_items uc)}"
    if "k < uc_hashsize uc" for k using that c ni assms(4) by auto
  moreover have "set ((ch(h := ch h @ [i])) k) \<inter> set ((ch(h := ch h @ [i])) j) = {}"
    if "k < uc_hashsize uc" "j < uc_hashsize uc" "k \<noteq> j" for k j using that c assms(5) by auto
  ultimately have "chained u (ch(h := ch h @ [i]))" unfolding chained_def q using c by (simp del: fun_upd_apply)
  with u(1,2) show ?thesis by blast
qed

section \<open>The least-recently-used list\<close>

definition ranked :: "upsgi_cache \<Rightarrow> nat list \<Rightarrow> bool" where
  "ranked uc l \<longleftrightarrow> dll (fld ci_lru_next uc) (fld ci_lru_prev uc) 0 l 0 \<and> uc_lru_head uc = first0 l \<and>
     uc_lru_tail uc = last0 l \<and> distinct l \<and> set l \<subseteq> {1 ..< length (uc_items uc)}"

lemma lru_remove_ok:
  assumes "ranked uc l" "i \<in> set l"
  shows "\<exists>u. lru_remove_item i uc = Some u \<and> unranked u = unranked uc \<and> ranked u (remove1 i l)"
proof -
  note c = assms(1) [unfolded ranked_def]
  obtain ys zs where s: "l = ys @ i # zs" using split_list [OF assms(2)] by blast
  have d: "dll (fld ci_lru_next uc) (fld ci_lru_prev uc) 0 (ys @ i # zs) 0" "distinct (ys @ i # zs)" "0 \<notin> set (ys @ i # zs)"
    "set (ys @ i # zs) \<subseteq> {1 ..< length (uc_items uc)}"
    using c s by (metis, metis, force, metis)
  have il: "i < length (uc_items uc)" using d(4) by auto
  note r = dll_remove [OF d(1-3)]
  have mem: "x \<in> set (ys @ i # zs) \<Longrightarrow> x < length (uc_items uc) \<and> x \<noteq> 0" for x using subsetD [OF d(4)] by fastforce
  have ys: "ys \<noteq> [] \<Longrightarrow> last ys < length (uc_items uc) \<and> last ys \<noteq> 0" using mem last_in_set [of ys] by simp
  have zs: "zs \<noteq> [] \<Longrightarrow> hd zs < length (uc_items uc) \<and> hd zs \<noteq> 0" using mem hd_in_set [of zs] by simp
  define curr where "curr = uc_items uc ! i"
  have pn: "ci_lru_prev curr = last0 ys" "ci_lru_next curr = first0 zs" using r(1,2) il by (simp_all add: fld_def curr_def)
  obtain u1 where u1: "(if ci_lru_next curr \<noteq> 0 then set_item (ci_lru_next curr) (\<lambda>it. it\<lparr>ci_lru_prev := ci_lru_prev curr\<rparr>) uc
        else Some (uc\<lparr>uc_lru_tail := ci_lru_prev curr\<rparr>)) = Some u1" "unranked u1 = unranked uc"
    "fld ci_lru_next u1 = fld ci_lru_next uc"
    "fld ci_lru_prev u1 = (if zs = [] then fld ci_lru_prev uc else (fld ci_lru_prev uc)(hd zs := last0 ys))"
    "uc_lru_head u1 = uc_lru_head uc" "uc_lru_tail u1 = (if zs = [] then last0 ys else uc_lru_tail uc)"
  proof (cases "zs = []")
    case True
    let ?u = "uc\<lparr>uc_lru_tail := last0 ys\<rparr>"
    have "unranked ?u = unranked uc" by (simp add: unranked_def)
    then show ?thesis using that [of ?u] True pn by simp
  next
    case False
    obtain u where u: "set_item (hd zs) (\<lambda>it. it\<lparr>ci_lru_prev := ci_lru_prev curr\<rparr>) uc = Some u" using set_item_some zs False by blast
    note f = set_item_fld [OF u]
    have "fld ci_lru_next u = fld ci_lru_next uc" by (simp add: f(1) fun_eq_iff) (simp add: fld_def zs False)
    moreover have "fld ci_lru_prev u = (fld ci_lru_prev uc)(hd zs := last0 ys)" by (simp add: f(1) pn)
    ultimately show ?thesis using that [of u] False u pn unranked_set_item [OF u] zs by simp
  qed
  have l1: "length (uc_items u1) = length (uc_items uc)" using unranked_parts [OF u1(2)] by simp
  obtain u where u: "(if ci_lru_prev curr \<noteq> 0 then set_item (ci_lru_prev curr) (\<lambda>it. it\<lparr>ci_lru_next := ci_lru_next curr\<rparr>) u1
        else Some (u1\<lparr>uc_lru_head := ci_lru_next curr\<rparr>)) = Some u" "unranked u = unranked u1"
    "fld ci_lru_next u = (if ys = [] then fld ci_lru_next u1 else (fld ci_lru_next u1)(last ys := first0 zs))"
    "fld ci_lru_prev u = fld ci_lru_prev u1"
    "uc_lru_head u = (if ys = [] then first0 zs else uc_lru_head u1)" "uc_lru_tail u = uc_lru_tail u1"
  proof (cases "ys = []")
    case True
    let ?u = "u1\<lparr>uc_lru_head := first0 zs\<rparr>"
    have "unranked ?u = unranked u1" by (simp add: unranked_def)
    then show ?thesis using that [of ?u] True pn by simp
  next
    case False
    obtain u where u: "set_item (last ys) (\<lambda>it. it\<lparr>ci_lru_next := ci_lru_next curr\<rparr>) u1 = Some u"
      using set_item_some ys False l1 by metis
    note f = set_item_fld [OF u]
    have "fld ci_lru_prev u = fld ci_lru_prev u1" by (simp add: f(1) fun_eq_iff) (simp add: fld_def ys False l1)
    moreover have "fld ci_lru_next u = (fld ci_lru_next u1)(last ys := first0 zs)" by (simp add: f(1) pn)
    ultimately show ?thesis using that [of u] False u pn unranked_set_item [OF u] ys by simp
  qed
  have a: "item_at uc i = Some curr" using il by (simp add: item_at_def curr_def)
  have op: "lru_remove_item i uc = Some u"
    unfolding lru_remove_item_def a using u1(1) u(1) by (simp only: bind.bind_lunit)
  have un: "unranked u = unranked uc" using u(2) u1(2) by simp
  have "ranked u (ys @ zs)"
    unfolding ranked_def using r(3) d(2,4) c s u(3-6) u1(3-6) unranked_parts [OF un] by (auto simp: hd_append)
  moreover have "remove1 i l = ys @ zs" using d(2) s by (simp add: remove1_append)
  ultimately show ?thesis using op un by auto
qed

lemma lru_add_ok:
  assumes "ranked uc l" "i \<notin> set l" "i \<in> {1 ..< length (uc_items uc)}"
  shows "\<exists>u. lru_add_item i uc = Some u \<and> unranked u = unranked uc \<and> ranked u (l @ [i])"
proof -
  note c = assms(1) [unfolded ranked_def]
  have il: "i < length (uc_items uc)" "i \<noteq> 0" using assms(3) by simp_all
  have tl: "l \<noteq> [] \<Longrightarrow> last l < length (uc_items uc) \<and> last l \<noteq> 0 \<and> last l \<noteq> i"
    using c last_in_set [of l] assms(2) by fastforce
  obtain u1 where u1: "(if uc_lru_tail uc \<noteq> 0 then set_item (uc_lru_tail uc) (\<lambda>it. it\<lparr>ci_lru_next := i\<rparr>) uc
        else Some (uc\<lparr>uc_lru_head := i\<rparr>)) = Some u1" "unranked u1 = unranked uc"
    "fld ci_lru_next u1 = (if l = [] then fld ci_lru_next uc else (fld ci_lru_next uc)(last l := i))"
    "fld ci_lru_prev u1 = fld ci_lru_prev uc"
    "uc_lru_head u1 = (if l = [] then i else uc_lru_head uc)" "uc_lru_tail u1 = uc_lru_tail uc"
  proof (cases "l = []")
    case True
    let ?u = "uc\<lparr>uc_lru_head := i\<rparr>"
    have "unranked ?u = unranked uc" by (simp add: unranked_def)
    then show ?thesis using that [of ?u] True c by simp
  next
    case False
    obtain u where u: "set_item (last l) (\<lambda>it. it\<lparr>ci_lru_next := i\<rparr>) uc = Some u" using set_item_some tl False by blast
    note f = set_item_fld [OF u]
    have "fld ci_lru_prev u = fld ci_lru_prev uc" by (simp add: f(1) fun_eq_iff) (simp add: fld_def tl False)
    moreover have "fld ci_lru_next u = (fld ci_lru_next uc)(last l := i)" by (simp add: f(1))
    ultimately show ?thesis using that [of u] False u c unranked_set_item [OF u] tl by simp
  qed
  have l1: "length (uc_items u1) = length (uc_items uc)" using unranked_parts [OF u1(2)] by simp
  obtain u2 where u2: "set_item i (\<lambda>it. it\<lparr>ci_lru_next := 0, ci_lru_prev := uc_lru_tail u1\<rparr>) u1 = Some u2"
    using set_item_some il(1) l1 by metis
  let ?u = "u2\<lparr>uc_lru_tail := i\<rparr>"
  have op: "lru_add_item i uc = Some ?u" unfolding lru_add_item_def using u1(1) u2 by simp
  have un: "unranked ?u = unranked uc" using unranked_set_item [OF u2] u1(2) by (simp add: unranked_def)
  have "fld ci_lru_next ?u = (fld ci_lru_next u1)(i := 0)" "fld ci_lru_prev ?u = (fld ci_lru_prev u1)(i := last0 l)"
    using u1(6) c by (simp_all add: set_item_fld [OF u2])
  then have "dll (fld ci_lru_next ?u) (fld ci_lru_prev ?u) 0 (l @ [i]) 0"
    using dll_add [of "fld ci_lru_next uc" "fld ci_lru_prev uc" l i] c assms(2) u1(3,4) by simp
  then have "ranked ?u (l @ [i])"
    unfolding ranked_def using c assms(2,3) u1(5) unranked_set_item [OF u2] unranked_parts [OF un] by auto
  with op un show ?thesis by blast
qed

end
