(* ===== verification/Upsgi_CacheInv.thy ===== *)
theory Upsgi_CacheInv
  imports Upsgi_CacheLists
begin

text \<open>
  The invariant of the cache: the arrays have their sizes, the chains hold exactly the live items by their hash,
  no key is stored twice, the stack holds exactly the unused items, the counter counts, the values lie in
  disjoint blocks that the bitmap knows, and the least-recently-used list holds the live items.  The lemmas
  show that a lookup finds the item of a key, and that deletions, alone or in the loops of a full cache, keep
  the invariant and the entries of the items they do not delete.
\<close>

section \<open>The invariant\<close>

definition live :: "upsgi_cache \<Rightarrow> nat set" where
  "live uc = {i. 0 < i \<and> i < uc_max_items uc \<and> fld ci_keysize uc i > 0}"

definition key_of :: "upsgi_cache \<Rightarrow> nat \<Rightarrow> char list" where
  "key_of uc i = take (fld ci_keysize uc i) (fld ci_key uc i)"

definition run_of :: "upsgi_cache \<Rightarrow> nat \<Rightarrow> nat set" where
  "run_of uc i = {fld ci_first_block uc i ..< fld ci_first_block uc i + needed_blocks (uc_blocksize uc) (fld ci_valsize uc i)}"

text \<open>The sizes of the arrays.\<close>

definition dims_inv :: "upsgi_cache \<Rightarrow> bool" where
  "dims_inv uc \<longleftrightarrow> 0 < uc_max_items uc \<and> 0 < uc_hashsize uc \<and> 0 < uc_blocksize uc \<and>
     uc_max_items uc \<le> uc_blocks uc \<and> uc_blocks uc < 2 ^ 61 \<and>
     length (uc_items uc) = uc_max_items uc \<and> length (uc_unused_stack uc) = uc_max_items uc \<and>
     length (uc_data uc) = uc_blocks uc * uc_blocksize uc \<and>
     (\<forall>i < uc_max_items uc. length (fld ci_key uc i) = uc_keysize uc)"

text \<open>The buckets hold the live items by their hash.\<close>

definition bucket_inv :: "upsgi_cache \<Rightarrow> (nat \<Rightarrow> nat list) \<Rightarrow> bool" where
  "bucket_inv uc ch \<longleftrightarrow> chained uc ch \<and>
     (\<forall>h < uc_hashsize uc. set (ch h) = {i \<in> live uc. fld ci_hash uc i mod uc_hashsize uc = h})"

definition keys_inv :: "upsgi_cache \<Rightarrow> bool" where
  "keys_inv uc \<longleftrightarrow> (\<forall>i \<in> live uc. fld ci_keysize uc i \<le> uc_keysize uc \<and> fld ci_hash uc i = unat (uc_hash uc (key_of uc i))) \<and>
     inj_on (key_of uc) (live uc)"

definition free_inv :: "upsgi_cache \<Rightarrow> bool" where
  "free_inv uc \<longleftrightarrow> uc_unused_ptr uc < uc_max_items uc \<and> distinct (take (uc_unused_ptr uc) (tl (uc_unused_stack uc))) \<and>
     set (take (uc_unused_ptr uc) (tl (uc_unused_stack uc))) = {1 ..< uc_max_items uc} - live uc"

definition count_inv :: "upsgi_cache \<Rightarrow> bool" where
  "count_inv uc \<longleftrightarrow> uc_n_items uc = card (live uc)"

text \<open>The values of different items lie in different blocks, and the bitmap knows them.\<close>

definition map_inv :: "nat \<Rightarrow> nat \<Rightarrow> nat set \<Rightarrow> 8 word list \<Rightarrow> bool" where
  "map_inv blocks pos taken bm \<longleftrightarrow> blocks \<le> 8 * length bm \<and> 8 * length bm < blocks + 8 \<and> pos < blocks \<and>
     (\<forall>k < 8 * length bm. used bm k \<longleftrightarrow> blocks \<le> k \<or> k \<in> taken)"

definition block_inv :: "upsgi_cache \<Rightarrow> bool" where
  "block_inv uc \<longleftrightarrow>
     (\<forall>i \<in> live uc. 0 < fld ci_valsize uc i \<and> run_of uc i \<subseteq> {..< uc_blocks uc}) \<and>
     (\<forall>i \<in> live uc. \<forall>j \<in> live uc. i \<noteq> j \<longrightarrow> run_of uc i \<inter> run_of uc j = {}) \<and>
     (case uc_bitmap uc of
        None \<Rightarrow> uc_max_item_size uc = uc_blocksize uc \<and>
          (\<forall>i \<in> live uc. fld ci_first_block uc i = i \<and> fld ci_valsize uc i \<le> uc_blocksize uc)
      | Some bm \<Rightarrow> map_inv (uc_blocks uc) (uc_bitmap_pos uc) (\<Union>i \<in> live uc. run_of uc i) bm)"

definition lru_inv :: "upsgi_cache \<Rightarrow> bool" where
  "lru_inv uc \<longleftrightarrow> (uc_purge_lru uc \<longrightarrow> (\<exists>l. ranked uc l \<and> set l = live uc))"

definition cache_inv :: "upsgi_cache \<Rightarrow> bool" where
  "cache_inv uc \<longleftrightarrow> dims_inv uc \<and> (\<exists>ch. bucket_inv uc ch) \<and> keys_inv uc \<and> free_inv uc \<and> count_inv uc \<and> block_inv uc \<and> lru_inv uc"

lemma cache_invD:
  assumes "cache_inv uc"
  shows "dims_inv uc" "\<exists>ch. bucket_inv uc ch" "keys_inv uc" "free_inv uc" "count_inv uc" "block_inv uc" "lru_inv uc"
  using assms by (simp_all add: cache_inv_def)

section \<open>Lookup\<close>

lemma chase_spec:
  "dll (fld ci_next uc) pv p (x # xs) 0 \<Longrightarrow> set (x # xs) \<subseteq> {1 ..< length (uc_items uc)} \<Longrightarrow>
   steps + length xs \<le> uc_max_items uc \<Longrightarrow>
   chase uc key hash (uc_items uc ! x) steps =
     Some (case filter (\<lambda>i. item_matches key hash (uc_items uc ! i)) xs of [] \<Rightarrow> 0 | i # _ \<Rightarrow> i)"
proof (induction xs arbitrary: p x steps)
  case Nil
  then show ?case by (simp add: chase.simps fld_def)
next
  case (Cons y ys)
  then have "ci_next (uc_items uc ! x) = y" "y \<noteq> 0" "item_at uc y = Some (uc_items uc ! y)" by (auto simp: fld_def item_at_def)
  moreover have "chase uc key hash (uc_items uc ! y) (steps + 1) =
      Some (case filter (\<lambda>i. item_matches key hash (uc_items uc ! i)) ys of [] \<Rightarrow> 0 | i # _ \<Rightarrow> i)"
    using Cons.prems by (intro Cons.IH [of x]) auto
  ultimately show ?case using Cons.prems(3) by (simp add: chase.simps [of uc key hash "uc_items uc ! x"])
qed

text \<open>An item of a chain matches when it has the key.\<close>

lemma match_key:
  assumes "dims_inv uc" "keys_inv uc" "i \<in> live uc"
  shows "item_matches key (unat (uc_hash uc key)) (uc_items uc ! i) \<longleftrightarrow> key_of uc i = key"
proof -
  have i: "i < length (uc_items uc)" using assms(1,3) by (simp add: live_def dims_inv_def)
  then have f: "ci_hash (uc_items uc ! i) = fld ci_hash uc i" "ci_keysize (uc_items uc ! i) = fld ci_keysize uc i"
    "ci_key (uc_items uc ! i) = fld ci_key uc i" by (simp_all add: fld_def)
  have l: "length (key_of uc i) = fld ci_keysize uc i"
    using assms i by (auto simp: key_of_def keys_inv_def dims_inv_def live_def)
  have h: "fld ci_hash uc i = unat (uc_hash uc (key_of uc i))" using assms(2,3) by (simp add: keys_inv_def)
  show ?thesis unfolding item_matches_def f using l h by (auto simp: key_of_def)
qed

lemma find_slot_spec:
  assumes "cache_inv uc"
  shows "\<exists>r. find_slot key uc = Some r \<and>
    (r = 0 \<and> (\<forall>i \<in> live uc. key_of uc i \<noteq> key) \<or> r \<in> live uc \<and> key_of uc r = key)"
proof -
  note inv = cache_invD [OF assms]
  obtain ch where b: "bucket_inv uc ch" using inv(2) by blast
  define hash where "hash = unat (uc_hash uc key)"
  define h where "h = hash mod uc_hashsize uc"
  have hs: "h < uc_hashsize uc" using inv(1) by (simp add: h_def dims_inv_def)
  note c = b [unfolded bucket_inv_def chained_def]
  have mem: "set (ch h) = {i \<in> live uc. fld ci_hash uc i mod uc_hashsize uc = h}" using c hs by blast
  have d: "dll (fld ci_next uc) (fld ci_prev uc) 0 (ch h) 0" "uc_hashtable uc ! h = first0 (ch h)" "distinct (ch h)"
    "set (ch h) \<subseteq> {1 ..< length (uc_items uc)}" using c hs by blast+
  have bk: "bucket uc hash = Some (first0 (ch h))" using c hs d(2) by (simp add: bucket_def h_def)
  have here: "key_of uc i = key \<Longrightarrow> i \<in> live uc \<Longrightarrow> i \<in> set (ch h)" for i
    using mem inv(3) by (auto simp: keys_inv_def h_def hash_def)
  have m: "item_matches key hash (uc_items uc ! i) \<longleftrightarrow> key_of uc i = key" if "i \<in> set (ch h)" for i
    using match_key [OF inv(1,3)] that mem by (auto simp: hash_def)
  show ?thesis
  proof (cases "ch h")
    case Nil
    then have "find_slot key uc = Some 0" using bk by (simp add: find_slot_def hash_def Let_def)
    with Nil here show ?thesis by auto
  next
    case (Cons x xs)
    have x: "x \<noteq> 0" "item_at uc x = Some (uc_items uc ! x)" using d(4) Cons by (auto simp: item_at_def)
    have "x \<in> set (ch h)" using Cons by simp
    then have "fld ci_hash uc x mod uc_hashsize uc = h" "x < length (uc_items uc)" using mem d(4) by auto
    then have hx: "ci_hash (uc_items uc ! x) mod uc_hashsize uc = h" by (simp add: fld_def)
    have len: "length xs \<le> uc_max_items uc"
      using distinct_card [OF d(3)] card_mono [OF _ d(4)] Cons inv(1) by (simp add: dims_inv_def)
    have ch: "chase uc key hash (uc_items uc ! x) 0 =
        Some (case filter (\<lambda>i. item_matches key hash (uc_items uc ! i)) xs of [] \<Rightarrow> 0 | i # _ \<Rightarrow> i)"
      by (rule chase_spec [of uc "fld ci_prev uc" 0]) (use d(1,4) Cons len in simp_all)
    have fs: "find_slot key uc = (if key_of uc x = key then Some x
        else chase uc key hash (uc_items uc ! x) 0)"
      using bk Cons x hx m [of x] by (simp add: find_slot_def hash_def [symmetric] Let_def h_def)
    show ?thesis
    proof (cases "key_of uc x = key")
      case True
      then show ?thesis using fs mem Cons by auto
    next
      case False
      show ?thesis
      proof (cases "filter (\<lambda>i. item_matches key hash (uc_items uc ! i)) xs")
        case Nil
        then have "\<forall>i \<in> set xs. key_of uc i \<noteq> key" using m Cons by (auto simp: filter_empty_conv)
        with False have "\<forall>i \<in> live uc. key_of uc i \<noteq> key" using here Cons by auto
        with fs ch False Nil show ?thesis by simp
      next
        case (Cons y ys)
        then have "y \<in> set xs" "item_matches key hash (uc_items uc ! y)"
          by (auto simp: filter_eq_Cons_iff)
        then have "y \<in> live uc \<and> key_of uc y = key" using m [of y] mem \<open>ch h = x # xs\<close> by auto
        with fs ch False Cons show ?thesis by simp
      qed
    qed
  qed
qed

section \<open>Frames\<close>

text \<open>The counters, the clock and the log do not matter for the invariant.\<close>

definition core :: "upsgi_cache \<Rightarrow> upsgi_cache" where
  "core uc = uc\<lparr>uc_last_modified_at := 0, uc_udp := [], uc_next_scan := 0, uc_full := 0, uc_hits := 0, uc_miss := 0\<rparr>"

lemma core_sel [simp]:
  "uc_keysize (core uc) = uc_keysize uc" "uc_blocks (core uc) = uc_blocks uc" "uc_blocksize (core uc) = uc_blocksize uc"
  "uc_hash (core uc) = uc_hash uc" "uc_hashtable (core uc) = uc_hashtable uc" "uc_hashsize (core uc) = uc_hashsize uc"
  "uc_unused_stack (core uc) = uc_unused_stack uc" "uc_unused_ptr (core uc) = uc_unused_ptr uc"
  "uc_bitmap (core uc) = uc_bitmap uc" "uc_bitmap_pos (core uc) = uc_bitmap_pos uc" "uc_max_items (core uc) = uc_max_items uc"
  "uc_max_item_size (core uc) = uc_max_item_size uc" "uc_n_items (core uc) = uc_n_items uc" "uc_items (core uc) = uc_items uc"
  "uc_data (core uc) = uc_data uc" "uc_purge_lru (core uc) = uc_purge_lru uc" "uc_lru_head (core uc) = uc_lru_head uc"
  "uc_lru_tail (core uc) = uc_lru_tail uc"
  by (simp_all add: core_def)

lemma core_views:
  "fld f (core uc) = fld f uc" "live (core uc) = live uc" "key_of (core uc) = key_of uc" "run_of (core uc) = run_of uc"
  "chained (core uc) ch = chained uc ch" "ranked (core uc) l = ranked uc l"
proof -
  show f: "fld f (core uc) = fld f uc" for f :: "upsgi_cache_item \<Rightarrow> 'x" by (simp add: fld_def fun_eq_iff)
  show "live (core uc) = live uc" "key_of (core uc) = key_of uc" "run_of (core uc) = run_of uc"
    "chained (core uc) ch = chained uc ch" "ranked (core uc) l = ranked uc l"
    unfolding live_def key_of_def [abs_def] run_of_def [abs_def] chained_def ranked_def f core_sel by (rule refl)+
qed

lemma core_parts:
  "dims_inv (core uc) = dims_inv uc" "bucket_inv (core uc) ch = bucket_inv uc ch" "keys_inv (core uc) = keys_inv uc"
  "free_inv (core uc) = free_inv uc" "count_inv (core uc) = count_inv uc" "block_inv (core uc) = block_inv uc"
  "lru_inv (core uc) = lru_inv uc"
  unfolding dims_inv_def bucket_inv_def keys_inv_def free_inv_def count_inv_def block_inv_def lru_inv_def core_views core_sel
  by (rule refl)+

lemma core_inv: "core u = core uc \<Longrightarrow> cache_inv u = cache_inv uc"
  by (metis cache_inv_def core_parts)

lemma inv_frame [simp]:
  "cache_inv (uc\<lparr>uc_last_modified_at := a\<rparr>) = cache_inv uc" "cache_inv (uc\<lparr>uc_udp := b\<rparr>) = cache_inv uc"
  "cache_inv (uc\<lparr>uc_next_scan := c\<rparr>) = cache_inv uc" "cache_inv (uc\<lparr>uc_full := c\<rparr>) = cache_inv uc"
  "cache_inv (uc\<lparr>uc_hits := c\<rparr>) = cache_inv uc" "cache_inv (uc\<lparr>uc_miss := c\<rparr>) = cache_inv uc"
  by (rule core_inv, simp add: core_def)+

text \<open>What an operation leaves alone: the setup of the cache, and the entry of an item (all but its links and
  its hits).\<close>

definition setup_of :: "upsgi_cache \<Rightarrow> nat \<times> nat \<times> nat \<times> (char list \<Rightarrow> 32 word) \<times> nat \<times> nat \<times> nat \<times> bool \<times> bool \<times> bool \<times> 64 word" where
  "setup_of uc = (uc_keysize uc, uc_blocks uc, uc_blocksize uc, uc_hash uc, uc_hashsize uc, uc_max_items uc, uc_max_item_size uc,
     uc_purge_lru uc, uc_lazy_expire uc, uc_bitmap uc = None, uc_math_initial uc)"

definition entry_of :: "upsgi_cache \<Rightarrow> nat \<Rightarrow> 64 word \<times> nat \<times> nat \<times> nat \<times> nat \<times> nat \<times> char list" where
  "entry_of uc i = (fld ci_flags uc i, fld ci_keysize uc i, fld ci_hash uc i, fld ci_valsize uc i, fld ci_first_block uc i,
     fld ci_expires uc i, fld ci_key uc i)"

definition value_of :: "upsgi_cache \<Rightarrow> nat \<Rightarrow> char list" where
  "value_of uc i = take (fld ci_valsize uc i) (drop (fld ci_first_block uc i * uc_blocksize uc) (uc_data uc))"

section \<open>Deleting\<close>

text \<open>The state between the steps of a deletion.\<close>

lemma unmark_ok:
  assumes "cache_inv uc" "i \<in> live uc"
  shows "\<exists>b. unmark_item (uc_items uc ! i) uc = Some (uc\<lparr>uc_bitmap := b\<rparr>) \<and> (b = None \<longleftrightarrow> uc_bitmap uc = None) \<and>
    (\<forall>bm. b = Some bm \<longrightarrow> map_inv (uc_blocks uc) (uc_bitmap_pos uc) (\<Union>j \<in> live uc - {i}. run_of uc j) bm)"
proof (cases "uc_bitmap uc")
  case None
  then have "uc\<lparr>uc_bitmap := None\<rparr> = uc" by (cases uc) simp
  with None show ?thesis by (intro exI [of _ None]) (simp add: unmark_item_def)
next
  case (Some bm)
  note inv = cache_invD [OF assms(1)]
  have i: "i < length (uc_items uc)" using assms(2) inv(1) by (simp add: live_def dims_inv_def)
  define n where "n = needed_blocks (uc_blocksize uc) (fld ci_valsize uc i)"
  define f where "f = fld ci_first_block uc i"
  have m: "map_inv (uc_blocks uc) (uc_bitmap_pos uc) (\<Union>j \<in> live uc. run_of uc j) bm"
    using inv(6) Some by (simp add: block_inv_def)
  have pos: "0 < fld ci_valsize uc i" and run: "run_of uc i \<subseteq> {..< uc_blocks uc}" and bs: "0 < uc_blocksize uc"
    using inv(1,6) assms(2) by (simp_all add: block_inv_def dims_inv_def)
  have n: "0 < n"
    using pos bs div_greater_zero_iff [of "fld ci_valsize uc i" "uc_blocksize uc"]
    by (cases "fld ci_valsize uc i < uc_blocksize uc") (auto simp: n_def needed_blocks_def)
  have r: "run_of uc i = {f ..< f + n}" by (simp add: run_of_def f_def n_def)
  have "f + n - 1 \<in> run_of uc i" using n r by simp
  then have fit: "f + n \<le> uc_blocks uc" using run n by fastforce
  have l: "f + n \<le> 8 * length bm" "length bm < 2 ^ 60" using fit m inv(1) by (simp_all add: map_inv_def dims_inv_def)
  obtain bm' where b: "cache_unmark_blocks bm (uc_blocksize uc) f (fld ci_valsize uc i) = Some bm'" "length bm' = length bm"
    "\<forall>k. used bm' k \<longleftrightarrow> used bm k \<and> \<not> (f \<le> k \<and> k < f + n)"
    using unmark_blocks [OF n n_def l] by blast
  have dis: "run_of uc i \<inter> run_of uc j = {}" if "j \<in> live uc" "j \<noteq> i" for j
    using inv(6) assms(2) that by (simp add: block_inv_def)
  have "used bm' k \<longleftrightarrow> uc_blocks uc \<le> k \<or> k \<in> (\<Union>j \<in> live uc - {i}. run_of uc j)" if "k < 8 * length bm" for k
  proof -
    have "used bm k \<longleftrightarrow> uc_blocks uc \<le> k \<or> k \<in> (\<Union>j \<in> live uc. run_of uc j)" using m that by (simp add: map_inv_def)
    moreover have "f \<le> k \<and> k < f + n \<longleftrightarrow> k \<in> run_of uc i" by (simp add: r)
    ultimately show ?thesis using b(3) dis run assms(2) by fastforce
  qed
  then have "map_inv (uc_blocks uc) (uc_bitmap_pos uc) (\<Union>j \<in> live uc - {i}. run_of uc j) bm'"
    using m b(2) by (simp add: map_inv_def)
  moreover have "unmark_item (uc_items uc ! i) uc = Some (uc\<lparr>uc_bitmap := Some bm'\<rparr>)"
    using Some b(1) i by (simp add: unmark_item_def fld_def f_def)
  ultimately show ?thesis using Some by (intro exI [of _ "Some bm'"]) simp
qed

lemma free_push:
  assumes "free_inv uc" "length (uc_unused_stack uc) = uc_max_items uc" "i \<in> live uc"
  shows "uc_unused_ptr uc + 1 < uc_max_items uc"
    "take (uc_unused_ptr uc + 1) (tl ((uc_unused_stack uc)[uc_unused_ptr uc + 1 := i])) =
     take (uc_unused_ptr uc) (tl (uc_unused_stack uc)) @ [i]"
proof -
  let ?p = "uc_unused_ptr uc" and ?s = "uc_unused_stack uc"
  note f = assms(1) [unfolded free_inv_def]
  have i: "i \<in> {1 ..< uc_max_items uc}" using assms(3) by (auto simp: live_def)
  have "?p \<le> length (tl ?s)" using f assms(2) by simp linarith
  then have "card ({1 ..< uc_max_items uc} - live uc) = ?p"
    using distinct_card [of "take ?p (tl ?s)"] f by simp
  moreover have "{1 ..< uc_max_items uc} - live uc \<subset> {1 ..< uc_max_items uc}" using i assms(3) by blast
  then have "card ({1 ..< uc_max_items uc} - live uc) < card {1 ..< uc_max_items uc}" by (rule psubset_card_mono [OF finite_atLeastLessThan])
  ultimately show lt: "?p + 1 < uc_max_items uc" by simp
  have "?s \<noteq> []" using lt assms(2) by force
  then obtain a xs where s: "?s = a # xs" by (meson neq_Nil_conv)
  have "Suc (length xs) = uc_max_items uc" using arg_cong [OF s, of length] assms(2) by simp
  then have "?p < length xs" using lt by simp
  moreover have "tl (?s[?p + 1 := i]) = xs[?p := i]" "tl ?s = xs" unfolding s by simp_all
  ultimately show "take (?p + 1) (tl (?s[?p + 1 := i])) = take ?p (tl ?s) @ [i]"
    by (simp add: take_Suc_conv_app_nth)
qed

lemma fld_cong: "uc_items u = uc_items uc \<Longrightarrow> fld f u = fld f uc"
  by (simp add: fld_def fun_eq_iff)

lemma chained_cong:
  "fld ci_next u = fld ci_next uc \<Longrightarrow> fld ci_prev u = fld ci_prev uc \<Longrightarrow> uc_hashtable u = uc_hashtable uc \<Longrightarrow>
   uc_hashsize u = uc_hashsize uc \<Longrightarrow> length (uc_items u) = length (uc_items uc) \<Longrightarrow> chained u ch = chained uc ch"
  by (simp only: chained_def)

lemma ranked_cong:
  "fld ci_lru_next u = fld ci_lru_next uc \<Longrightarrow> fld ci_lru_prev u = fld ci_lru_prev uc \<Longrightarrow> uc_lru_head u = uc_lru_head uc \<Longrightarrow>
   uc_lru_tail u = uc_lru_tail uc \<Longrightarrow> length (uc_items u) = length (uc_items uc) \<Longrightarrow> ranked u l = ranked uc l"
  by (simp only: ranked_def)

lemma set_item_parts:
  assumes "set_item i g uc = Some u"
  shows "uc_keysize u = uc_keysize uc" "uc_blocks u = uc_blocks uc" "uc_blocksize u = uc_blocksize uc" "uc_hash u = uc_hash uc"
    "uc_hashsize u = uc_hashsize uc" "uc_unused_stack u = uc_unused_stack uc" "uc_unused_ptr u = uc_unused_ptr uc"
    "uc_bitmap u = uc_bitmap uc" "uc_bitmap_pos u = uc_bitmap_pos uc" "uc_max_items u = uc_max_items uc"
    "uc_max_item_size u = uc_max_item_size uc" "uc_n_items u = uc_n_items uc" "uc_data u = uc_data uc"
    "uc_purge_lru u = uc_purge_lru uc" "uc_hashtable u = uc_hashtable uc" "uc_lru_head u = uc_lru_head uc"
    "uc_lru_tail u = uc_lru_tail uc" "uc_lazy_expire u = uc_lazy_expire uc" "uc_nodes u = uc_nodes uc"
    "uc_math_initial u = uc_math_initial uc" "length (uc_items u) = length (uc_items uc)" "i < length (uc_items uc)"
    "uc_next_scan u = uc_next_scan uc"
  using assms by (auto simp: set_item_def split: if_splits)

lemma set_item_keep:
  assumes "set_item i g uc = Some u" "\<And>it. f (g it) = f it"
  shows "fld f u = fld f uc"
  using set_item_fld [OF assms(1), of f] assms(2) set_item_parts [OF assms(1)] by (simp add: fun_eq_iff fld_def)

lemma chained_off:
  assumes "chained uc ch" "set_item i g uc = Some u" "\<And>h. h < uc_hashsize uc \<Longrightarrow> i \<notin> set (ch h)"
  shows "chained u ch"
  using assms(1,3) unfolding chained_def set_item_fld [OF assms(2)] set_item_parts [OF assms(2)] by simp

text \<open>The parts of the invariant that only look at the live items.\<close>

lemma entry_eqD:
  assumes "entry_of u j = entry_of uc j"
  shows "fld ci_flags u j = fld ci_flags uc j" "fld ci_keysize u j = fld ci_keysize uc j" "fld ci_hash u j = fld ci_hash uc j"
    "fld ci_valsize u j = fld ci_valsize uc j" "fld ci_first_block u j = fld ci_first_block uc j"
    "fld ci_expires u j = fld ci_expires uc j" "fld ci_key u j = fld ci_key uc j" "key_of u j = key_of uc j"
  using assms by (auto simp: entry_of_def key_of_def)

lemma setup_eqD:
  assumes "setup_of u = setup_of uc"
  shows "uc_keysize u = uc_keysize uc" "uc_blocks u = uc_blocks uc" "uc_blocksize u = uc_blocksize uc" "uc_hash u = uc_hash uc"
    "uc_hashsize u = uc_hashsize uc" "uc_max_items u = uc_max_items uc" "uc_max_item_size u = uc_max_item_size uc"
    "uc_purge_lru u = uc_purge_lru uc" "uc_lazy_expire u = uc_lazy_expire uc" "(uc_bitmap u = None) = (uc_bitmap uc = None)"
    "uc_math_initial u = uc_math_initial uc"
  using assms by (auto simp: setup_of_def)

lemma run_eq: "entry_of u j = entry_of uc j \<Longrightarrow> setup_of u = setup_of uc \<Longrightarrow> run_of u j = run_of uc j"
  by (simp add: run_of_def entry_of_def setup_of_def)

lemma keys_fewer:
  assumes "keys_inv uc" "live u \<subseteq> live uc" "\<And>j. j \<in> live u \<Longrightarrow> entry_of u j = entry_of uc j" "setup_of u = setup_of uc"
  shows "keys_inv u"
proof -
  have "inj_on (key_of u) (live u)"
  proof (rule inj_onI)
    fix a b assume ab: "a \<in> live u" "b \<in> live u" "key_of u a = key_of u b"
    then have "key_of uc a = key_of uc b" using entry_eqD(8) [OF assms(3)] by metis
    then show "a = b" using assms(1,2) ab(1,2) unfolding keys_inv_def inj_on_def by blast
  qed
  moreover have "fld ci_keysize u j \<le> uc_keysize u \<and> fld ci_hash u j = unat (uc_hash u (key_of u j))" if "j \<in> live u" for j
    using that assms(1,2) entry_eqD [OF assms(3) [OF that]] setup_eqD [OF assms(4)] by (auto simp: keys_inv_def)
  ultimately show ?thesis by (simp add: keys_inv_def)
qed

lemma block_fewer:
  assumes "block_inv uc" "live u \<subseteq> live uc" "\<And>j. j \<in> live u \<Longrightarrow> entry_of u j = entry_of uc j" "setup_of u = setup_of uc"
    and "\<And>bm. uc_bitmap u = Some bm \<Longrightarrow> map_inv (uc_blocks uc) (uc_bitmap_pos u) (\<Union>j \<in> live u. run_of uc j) bm"
  shows "block_inv u"
proof -
  have r: "run_of u j = run_of uc j" if "j \<in> live u" for j using run_eq assms(3,4) that by blast
  note s = setup_eqD [OF assms(4)]
  have "0 < fld ci_valsize u i \<and> run_of u i \<subseteq> {..< uc_blocks u}" if "i \<in> live u" for i
    using that assms(1,2) entry_eqD [OF assms(3) [OF that]] r s by (auto simp: block_inv_def)
  moreover have "run_of u i \<inter> run_of u j = {}" if "i \<in> live u" "j \<in> live u" "i \<noteq> j" for i j
    using that assms(1,2) r by (simp add: block_inv_def subset_iff)
  moreover have "case uc_bitmap u of
        None \<Rightarrow> uc_max_item_size u = uc_blocksize u \<and>
          (\<forall>i \<in> live u. fld ci_first_block u i = i \<and> fld ci_valsize u i \<le> uc_blocksize u)
      | Some bm \<Rightarrow> map_inv (uc_blocks u) (uc_bitmap_pos u) (\<Union>i \<in> live u. run_of u i) bm"
  proof (cases "uc_bitmap u")
    case None
    then have "uc_bitmap uc = None" using s by blast
    then show ?thesis using None assms(1,2) entry_eqD [OF assms(3)] s by (auto simp: block_inv_def)
  next
    case (Some bm)
    moreover have "(\<Union>i \<in> live u. run_of u i) = (\<Union>i \<in> live u. run_of uc i)" using r by auto
    ultimately show ?thesis using assms(5) s by simp
  qed
  ultimately show ?thesis unfolding block_inv_def by blast
qed

lemma dims_same:
  assumes "dims_inv uc" "setup_of u = setup_of uc" "length (uc_items u) = length (uc_items uc)"
    "length (uc_unused_stack u) = length (uc_unused_stack uc)" "length (uc_data u) = length (uc_data uc)"
    and "\<And>j. j < uc_max_items uc \<Longrightarrow> length (fld ci_key u j) = length (fld ci_key uc j)"
  shows "dims_inv u"
  using assms(1,6) unfolding dims_inv_def assms(3-5) setup_eqD [OF assms(2)] by simp

text \<open>The end of a deletion, after the lists have been updated.\<close>

lemma clear_fld:
  assumes "set_item i clear_item uc = Some u"
  shows "fld ci_keysize u = (fld ci_keysize uc)(i := 0)" "fld ci_valsize u = (fld ci_valsize uc)(i := 0)"
    "fld ci_hash u = (fld ci_hash uc)(i := 0)" "fld ci_expires u = (fld ci_expires uc)(i := 0)"
    "fld ci_flags u = fld ci_flags uc" "fld ci_first_block u = fld ci_first_block uc" "fld ci_key u = fld ci_key uc"
    "fld ci_lru_prev u = fld ci_lru_prev uc" "fld ci_lru_next u = fld ci_lru_next uc"
proof -
  show "fld ci_keysize u = (fld ci_keysize uc)(i := 0)" "fld ci_valsize u = (fld ci_valsize uc)(i := 0)"
    "fld ci_hash u = (fld ci_hash uc)(i := 0)" "fld ci_expires u = (fld ci_expires uc)(i := 0)"
    by (simp_all add: set_item_fld [OF assms] clear_item_def)
  show "fld ci_flags u = fld ci_flags uc" "fld ci_first_block u = fld ci_first_block uc" "fld ci_key u = fld ci_key uc"
    "fld ci_lru_prev u = fld ci_lru_prev uc" "fld ci_lru_next u = fld ci_lru_next uc"
    by (rule set_item_keep [OF assms], simp add: clear_item_def)+
qed

definition del_done :: "nat \<Rightarrow> char list \<Rightarrow> 64 word \<Rightarrow> upsgi_cache \<Rightarrow> upsgi_cache" where
  "del_done now key flags uc =
     (let uc3 = touch_modified now uc in
      if uc_nodes uc3 \<noteq> [] \<and> \<not> bit flags FLAG_LOCAL then cache_send_udp_command key [] 0 11 uc3 else uc3)"

lemma del_done_core: "core (del_done now key flags uc) = core uc"
  by (simp add: del_done_def touch_modified_def cache_send_udp_command_def core_def Let_def)

text \<open>Two caches with the same core agree on everything that matters.\<close>

lemma core_eqD:
  assumes "core u = core uc"
  shows "fld f u = fld f uc" "live u = live uc" "setup_of u = setup_of uc" "entry_of u = entry_of uc" "uc_data u = uc_data uc"
    "uc_unused_ptr u = uc_unused_ptr uc" "uc_items u = uc_items uc" "cache_inv u = cache_inv uc" "value_of u = value_of uc"
proof -
  have f: "fld f u = fld f uc" for f :: "upsgi_cache_item \<Rightarrow> 'x" using core_views(1) [of f u] core_views(1) [of f uc] assms by simp
  show "fld f u = fld f uc" by (rule f)
  show "live u = live uc" using core_views(2) assms by metis
  show "cache_inv u = cache_inv uc" using core_inv assms by blast
  have "uc_data u = uc_data uc" "uc_unused_ptr u = uc_unused_ptr uc" "uc_items u = uc_items uc" "uc_blocksize u = uc_blocksize uc"
    using core_sel(15) core_sel(8) core_sel(14) core_sel(3) assms by metis+
  then show "uc_data u = uc_data uc" "uc_unused_ptr u = uc_unused_ptr uc" "uc_items u = uc_items uc" "value_of u = value_of uc"
    "entry_of u = entry_of uc"
    by (simp_all add: entry_of_def [abs_def] value_of_def [abs_def] f)
  show "setup_of u = setup_of uc" using assms by (cases u; cases uc) (simp add: core_def setup_of_def)
qed

lemma del_live:
  assumes "cache_inv uc" "i \<in> live uc"
  shows "\<exists>u. del_slot now key i flags uc = Some u \<and> cache_inv u \<and> live u = live uc - {i} \<and> setup_of u = setup_of uc \<and>
    uc_data u = uc_data uc \<and> (\<forall>j. j \<noteq> i \<longrightarrow> entry_of u j = entry_of uc j) \<and> uc_unused_ptr u = uc_unused_ptr uc + 1"
proof -
  note inv = cache_invD [OF assms(1)]
  note dim = inv(1) [unfolded dims_inv_def]
  obtain ch where bk: "bucket_inv uc ch" using inv(2) by blast
  have i: "i < length (uc_items uc)" "i < uc_max_items uc" "i \<noteq> 0" using assms(2) dim by (simp_all add: live_def)
  define uci where "uci = uc_items uc ! i"
  have at: "item_at uc i = Some uci" using i(1) by (simp add: item_at_def uci_def)
  have ks: "ci_keysize uci > 0" and hsh: "ci_hash uci = fld ci_hash uc i"
    using assms(2) i(1) by (simp_all add: live_def fld_def uci_def)
  obtain b where b: "unmark_item uci uc = Some (uc\<lparr>uc_bitmap := b\<rparr>)" "(b = None) = (uc_bitmap uc = None)"
    "\<forall>bm. b = Some bm \<longrightarrow> map_inv (uc_blocks uc) (uc_bitmap_pos uc) (\<Union>j \<in> live uc - {i}. run_of uc j) bm"
    using unmark_ok [OF assms] unfolding uci_def [symmetric] by (elim exE conjE)
  let ?p = "uc_unused_ptr uc + 1"
  have st: "length (uc_unused_stack uc) = uc_max_items uc" using dim by simp
  note fp = free_push [OF inv(4) st assms(2)]
  define u2 where "u2 = uc\<lparr>uc_bitmap := b, uc_unused_ptr := ?p, uc_unused_stack := (uc_unused_stack uc)[?p := i]\<rparr>"
  have pu: "push_unused i (uc\<lparr>uc_bitmap := b\<rparr>) = Some u2" using fp(1) st by (simp add: push_unused_def u2_def)
  have f2: "fld f u2 = fld f uc" for f :: "upsgi_cache_item \<Rightarrow> 'x" by (simp add: u2_def fld_def fun_eq_iff)
  have c2: "chained u2 ch" using bk chained_cong [of u2 uc ch] by (simp add: bucket_inv_def f2) (simp add: u2_def)
  define h where "h = ci_hash uci mod uc_hashsize uc"
  have hs: "h < uc_hashsize uc" "uc_hashsize u2 = uc_hashsize uc" using dim by (simp_all add: h_def u2_def)
  have ih: "i \<in> set (ch h)" using bk hs(1) assms(2) hsh by (simp add: bucket_inv_def h_def)
  obtain u3 where u3: "unlink_item uci u2 = Some u3" "unlinked u3 = unlinked u2" "chained u3 (ch(h := remove1 i (ch h)))"
  proof -
    have "0 < uc_hashsize u2" "h = ci_hash uci mod uc_hashsize u2" "uci = uc_items u2 ! i"
      using hs dim by (simp_all add: h_def u2_def uci_def)
    from unlink_ok [OF c2 this(1,2) ih this(3)] that show ?thesis by blast
  qed
  note p3 = unlinked_parts [OF u3(2)] note f3 = unlinked_flds [OF u3(2)]
  obtain u4 where u4: "(if uc_purge_lru u3 then lru_remove_item i u3 else Some u3) = Some u4" "unranked u4 = unranked u3"
    "uc_purge_lru uc \<Longrightarrow> \<exists>l. ranked u4 l \<and> set l = live uc - {i}"
  proof (cases "uc_purge_lru uc")
    case True
    then obtain l where l: "ranked uc l" "set l = live uc" using inv(7) by (auto simp: lru_inv_def)
    have "ranked u3 l" using l(1) ranked_cong [of u3 uc l] p3 f3 by (simp add: f2) (simp add: u2_def)
    with lru_remove_ok [of u3 l i] l(2) assms(2) obtain u where
      "lru_remove_item i u3 = Some u" "unranked u = unranked u3" "ranked u (remove1 i l)" by blast
    moreover have "set (remove1 i l) = live uc - {i}" using l by (simp add: ranked_def set_remove1_eq)
    ultimately show ?thesis using that [of u] True p3 by (auto simp: u2_def)
  next
    case False
    then show ?thesis using that [of u3] p3 by (simp add: u2_def)
  qed
  note p4 = unranked_parts [OF u4(2)] note f4 = unranked_flds [OF u4(2)]
  let ?u5 = "u4\<lparr>uc_n_items := size_sub (uc_n_items u4) 1\<rparr>"
  have i5: "i < length (uc_items ?u5)" using i(1) p3 p4 by (simp add: u2_def)
  obtain u6 where u6: "set_item i clear_item ?u5 = Some u6" using set_item_some [OF i5] by blast
  note p6 = set_item_parts [OF u6] note f6 = clear_fld [OF u6]
  have op: "del_slot now key i flags uc = Some (del_done now key flags u6)"
    unfolding del_slot_def at using ks b(1) pu u3(1) u4(1) u6 by (simp add: del_done_def Let_def)
  have fs: "fld ci_keysize u6 = (fld ci_keysize uc)(i := 0)" "fld ci_valsize u6 = (fld ci_valsize uc)(i := 0)"
    "fld ci_hash u6 = (fld ci_hash uc)(i := 0)" "fld ci_expires u6 = (fld ci_expires uc)(i := 0)"
    "fld ci_flags u6 = fld ci_flags uc" "fld ci_first_block u6 = fld ci_first_block uc" "fld ci_key u6 = fld ci_key uc"
    by (simp_all add: f6 f4 f3 f2)
  have ps: "setup_of u6 = setup_of uc" "uc_data u6 = uc_data uc" "uc_unused_ptr u6 = ?p" "uc_bitmap u6 = b"
    "uc_bitmap_pos u6 = uc_bitmap_pos uc" "uc_unused_stack u6 = (uc_unused_stack uc)[?p := i]"
    "length (uc_items u6) = length (uc_items uc)" "uc_n_items u6 = size_sub (uc_n_items uc) 1"
    using p6 p4 p3 b(2) by (simp_all add: setup_of_def u2_def)
  note sp = setup_eqD [OF ps(1)]
  have lv: "live u6 = live uc - {i}" using sp by (auto simp: live_def fs)
  have en: "entry_of u6 j = entry_of uc j" if "j \<noteq> i" for j using that by (simp add: entry_of_def fs)
  have "bucket_inv u6 (ch(h := remove1 i (ch h)))"
  proof -
    let ?ch = "ch(h := remove1 i (ch h))"
    have c5: "chained ?u5 ?ch" using u3(3) chained_cong [of ?u5 u3 ?ch] p4 f4 by simp
    have d: "distinct (ch k)" "set (ch k) = {x \<in> live uc. fld ci_hash uc x mod uc_hashsize uc = k}"
      if "k < uc_hashsize uc" for k using bk that by (simp_all add: bucket_inv_def chained_def)
    have h5: "uc_hashsize ?u5 = uc_hashsize uc" using p4 p3 by (simp add: u2_def)
    have hk: "fld ci_hash uc i mod uc_hashsize uc = h" by (simp add: h_def hsh)
    have mem: "set (?ch k) = set (ch k) - {i}" if "k < uc_hashsize uc" for k
    proof (cases "k = h")
      case True
      then show ?thesis using d(1) [OF that] by (simp add: set_remove1_eq)
    next
      case False
      then have "i \<notin> set (ch k)" using d(2) [OF that] hk by simp
      then show ?thesis using False by simp
    qed
    have "chained u6 ?ch" by (rule chained_off [OF c5 u6]) (use mem h5 in simp)
    moreover have "set (?ch k) = {x \<in> live u6. fld ci_hash u6 x mod uc_hashsize u6 = k}" if "k < uc_hashsize u6" for k
    proof -
      have k: "k < uc_hashsize uc" using that sp(5) by simp
      show ?thesis unfolding mem [OF k] d(2) [OF k] lv fs(3) sp(5) by (rule set_eqI) auto
    qed
    ultimately show ?thesis by (simp add: bucket_inv_def)
  qed
  moreover have "dims_inv u6" by (rule dims_same [OF inv(1) ps(1,7)]) (simp_all add: ps fs)
  moreover have "keys_inv u6" by (rule keys_fewer [OF inv(3) _ _ ps(1)]) (use lv en in auto)
  moreover have "free_inv u6"
  proof -
    have "take (uc_unused_ptr u6) (tl (uc_unused_stack u6)) = take (uc_unused_ptr uc) (tl (uc_unused_stack uc)) @ [i]"
      using fp(2) ps by simp
    moreover have "{1 ..< uc_max_items uc} - (live uc - {i}) = insert i ({1 ..< uc_max_items uc} - live uc)" using i by auto
    ultimately show ?thesis using inv(4) fp(1) ps sp assms(2) by (simp add: free_inv_def lv)
  qed
  moreover have "count_inv u6"
  proof -
    have fin: "finite (live uc)" by (simp add: live_def)
    then have "0 < card (live uc)" using assms(2) card_gt_0_iff by blast
    then show ?thesis using inv(5) ps(8) assms(2) by (simp add: count_inv_def lv)
  qed
  moreover have "block_inv u6"
    by (rule block_fewer [OF inv(6) _ _ ps(1)]) (use lv en b(3) ps in auto)
  moreover have "lru_inv u6"
  proof -
    have "ranked u6 l" if "ranked u4 l" for l using that ranked_cong [of u6 u4 l] p6 f6 by simp
    then show ?thesis using u4(3) sp(8) lv by (auto simp: lru_inv_def)
  qed
  ultimately have "cache_inv u6" by (auto simp: cache_inv_def)
  with op lv en ps core_eqD [OF del_done_core [of now key flags u6]] show ?thesis by auto
qed

lemma del_dead:
  assumes "cache_inv uc" "i \<notin> live uc" "0 < i" "i < uc_max_items uc"
  shows "\<exists>u. del_slot now key i flags uc = Some u \<and> cache_inv u \<and> live u = live uc \<and> setup_of u = setup_of uc \<and>
    uc_data u = uc_data uc \<and> (\<forall>j. j \<noteq> i \<longrightarrow> entry_of u j = entry_of uc j) \<and> uc_unused_ptr u = uc_unused_ptr uc"
proof -
  note inv = cache_invD [OF assms(1)]
  have i: "i < length (uc_items uc)" using assms(4) inv(1) by (simp add: dims_inv_def)
  have at: "item_at uc i = Some (uc_items uc ! i)" using i by (simp add: item_at_def)
  have ks: "ci_keysize (uc_items uc ! i) = 0" using assms(2-4) i by (simp add: live_def fld_def)
  obtain u where u: "set_item i clear_item uc = Some u" using set_item_some [OF i] by blast
  note p = set_item_parts [OF u] note f = clear_fld [OF u]
  have op: "del_slot now key i flags uc = Some (del_done now key flags u)"
    unfolding del_slot_def at using ks u by (simp add: del_done_def Let_def)
  have ps: "setup_of u = setup_of uc" using p by (simp add: setup_of_def)
  have lv: "live u = live uc" using assms(2-4) p by (auto simp: live_def f)
  have en: "entry_of u j = entry_of uc j" if "j \<noteq> i" for j using that by (simp add: entry_of_def f)
  have enl: "entry_of u j = entry_of uc j" if "j \<in> live u" for j using that en lv assms(2) by metis
  obtain ch where bk: "bucket_inv uc ch" using inv(2) by blast
  have d: "set (ch k) = {x \<in> live uc. fld ci_hash uc x mod uc_hashsize uc = k}" if "k < uc_hashsize uc" for k
    using bk that by (simp add: bucket_inv_def)
  have "chained u ch" by (rule chained_off [OF _ u]) (use bk d assms(2) in \<open>simp_all add: bucket_inv_def\<close>)
  moreover have "set (ch k) = {x \<in> live u. fld ci_hash u x mod uc_hashsize u = k}" if "k < uc_hashsize u" for k
  proof -
    have "fld ci_hash u x = fld ci_hash uc x" if "x \<in> live uc" for x using that assms(2) by (auto simp: f)
    then show ?thesis using d [of k] that p lv by auto
  qed
  ultimately have "bucket_inv u ch" by (simp add: bucket_inv_def)
  moreover have "dims_inv u" by (rule dims_same [OF inv(1) ps]) (simp_all add: p f)
  moreover have "keys_inv u" by (rule keys_fewer [OF inv(3) _ enl ps]) (simp add: lv)
  moreover have "free_inv u" using inv(4) p lv by (simp add: free_inv_def)
  moreover have "count_inv u" using inv(5) p lv by (simp add: count_inv_def)
  moreover have "block_inv u"
    by (rule block_fewer [OF inv(6) _ enl ps]) (use inv(6) p lv in \<open>auto simp: block_inv_def\<close>)
  moreover have "lru_inv u"
  proof -
    have "ranked u l = ranked uc l" for l by (rule ranked_cong) (simp_all add: f p)
    then show ?thesis using inv(7) p lv by (simp add: lru_inv_def)
  qed
  ultimately have "cache_inv u" by (auto simp: cache_inv_def)
  with op lv en ps p core_eqD [OF del_done_core [of now key flags u]] show ?thesis by auto
qed

text \<open>What deletions do to a cache.\<close>

definition shrinks :: "upsgi_cache \<Rightarrow> upsgi_cache \<Rightarrow> bool" where
  "shrinks uc u \<longleftrightarrow> cache_inv u \<and> live u \<subseteq> live uc \<and> setup_of u = setup_of uc \<and> uc_data u = uc_data uc \<and>
     (\<forall>j \<in> live u. entry_of u j = entry_of uc j) \<and> uc_unused_ptr uc \<le> uc_unused_ptr u"

lemma shrinks_refl: "cache_inv uc \<Longrightarrow> shrinks uc uc"
  by (simp add: shrinks_def)

lemma shrinks_trans: "shrinks a b \<Longrightarrow> shrinks b c \<Longrightarrow> shrinks a c"
  unfolding shrinks_def by (metis order_trans subsetD)

lemma shrinks_core: "shrinks a b \<Longrightarrow> core c = core b \<Longrightarrow> shrinks a c"
  unfolding shrinks_def using core_eqD by metis

lemma core_shrinks: "core b = core a \<Longrightarrow> shrinks b c \<Longrightarrow> shrinks a c"
  unfolding shrinks_def using core_eqD by metis

lemma del_slot_ok:
  assumes "cache_inv uc" "0 < i" "i < uc_max_items uc"
  shows "\<exists>u. del_slot now key i flags uc = Some u \<and> shrinks uc u \<and> live u = live uc - {i} \<and>
    (i \<in> live uc \<longrightarrow> uc_unused_ptr u = uc_unused_ptr uc + 1)"
proof (cases "i \<in> live uc")
  case True
  obtain u where u: "del_slot now key i flags uc = Some u" "cache_inv u" "live u = live uc - {i}" "setup_of u = setup_of uc"
    "uc_data u = uc_data uc" "\<forall>j. j \<noteq> i \<longrightarrow> entry_of u j = entry_of uc j" "uc_unused_ptr u = uc_unused_ptr uc + 1"
    using del_live [OF assms(1) True, of now key flags] by (elim exE conjE)
  then have "shrinks uc u" by (auto simp: shrinks_def)
  with u show ?thesis by blast
next
  case False
  obtain u where u: "del_slot now key i flags uc = Some u" "cache_inv u" "live u = live uc" "setup_of u = setup_of uc"
    "uc_data u = uc_data uc" "\<forall>j. j \<noteq> i \<longrightarrow> entry_of u j = entry_of uc j" "uc_unused_ptr u = uc_unused_ptr uc"
    using del_dead [OF assms(1) False assms(2,3), of now key flags] by (elim exE conjE)
  then have "shrinks uc u" using False by (auto simp: shrinks_def)
  with u False show ?thesis by auto
qed

lemma shrinksD: "shrinks uc u \<Longrightarrow> cache_inv u" "shrinks uc u \<Longrightarrow> uc_max_items u = uc_max_items uc"
  by (simp_all add: shrinks_def setup_of_def)

lemma item_at_inv: "cache_inv uc \<Longrightarrow> i < uc_max_items uc \<Longrightarrow> item_at uc i = Some (uc_items uc ! i)"
  by (simp add: item_at_def cache_inv_def dims_inv_def)

lemma sweep_expired_ok:
  "cache_inv uc \<Longrightarrow> set is \<subseteq> {1 ..< uc_max_items uc} \<Longrightarrow>
   \<exists>n u. sweep_expired now is uc = Some (n, u) \<and> shrinks uc u"
proof (induction "is" arbitrary: uc)
  case Nil
  then show ?case by (simp add: shrinks_refl)
next
  case (Cons i xs)
  have at: "item_at uc i = Some (uc_items uc ! i)" using Cons.prems by (intro item_at_inv) auto
  show ?case
  proof (cases "ci_expires (uc_items uc ! i) > 0 \<and> ci_expires (uc_items uc ! i) \<le> now")
    case True
    obtain u where u: "del_slot now [] i 0 uc = Some u" "shrinks uc u"
      using del_slot_ok [OF Cons.prems(1), of i now "[]" 0] Cons.prems(2) by auto
    obtain n u1 where "sweep_expired now xs u = Some (n, u1)" "shrinks u u1"
      using Cons.IH [of u] shrinksD [OF u(2)] Cons.prems(2) by auto
    then show ?thesis using at True u shrinks_trans [OF u(2)] by auto
  next
    case False
    then show ?thesis using at Cons.IH [OF Cons.prems(1)] Cons.prems(2) by auto
  qed
qed

lemma del_slots_ok:
  "cache_inv uc \<Longrightarrow> set is \<subseteq> {1 ..< uc_max_items uc} \<Longrightarrow>
   \<exists>u. del_slots now is uc = Some u \<and> shrinks uc u \<and> live u = live uc - set is"
proof (induction "is" arbitrary: uc)
  case Nil
  then show ?case by (simp add: shrinks_refl)
next
  case (Cons i xs)
  obtain u where u: "del_slot now [] i 0 uc = Some u" "shrinks uc u" "live u = live uc - {i}"
    using del_slot_ok [OF Cons.prems(1), of i now "[]" 0] Cons.prems(2) by auto
  obtain u1 where "del_slots now xs u = Some u1" "shrinks u u1" "live u1 = live u - set xs"
    using Cons.IH [of u] shrinksD [OF u(2)] Cons.prems(2) by auto
  then show ?case using u shrinks_trans [OF u(2)] by auto
qed

lemma cache_full_ok:
  assumes "cache_inv uc"
  shows "\<exists>u. cache_full now uc = Some u \<and> shrinks uc u \<and> (uc_purge_lru uc \<and> uc_lru_head uc \<noteq> 0 \<longrightarrow> uc_unused_ptr u \<noteq> 0)"
proof -
  let ?u0 = "uc\<lparr>uc_full := size_add (uc_full uc) 1\<rparr>"
  have i0: "cache_inv ?u0" "core ?u0 = core uc" using assms by (simp_all add: core_def)
  obtain u1 where u1: "(if uc_purge_lru ?u0 \<and> uc_lru_head ?u0 \<noteq> 0 then del_slot now [] (uc_lru_head ?u0) flag_local ?u0 else Some ?u0) = Some u1"
    "shrinks uc u1" "uc_purge_lru uc \<and> uc_lru_head uc \<noteq> 0 \<longrightarrow> uc_unused_ptr u1 \<noteq> 0"
  proof (cases "uc_purge_lru ?u0 \<and> uc_lru_head ?u0 \<noteq> 0")
    case True
    then obtain l where l: "ranked uc l" "set l = live uc" using cache_invD(7) [OF assms] by (auto simp: lru_inv_def)
    then have lv: "uc_lru_head uc \<in> live uc" using True by (auto simp: ranked_def split: if_splits)
    then have "0 < uc_lru_head ?u0" "uc_lru_head ?u0 < uc_max_items ?u0" using lv by (simp_all add: live_def)
    from del_slot_ok [OF i0(1) this, of now "[]" flag_local] obtain u where
      "del_slot now [] (uc_lru_head ?u0) flag_local ?u0 = Some u" "shrinks ?u0 u"
      "uc_lru_head ?u0 \<in> live ?u0 \<longrightarrow> uc_unused_ptr u = uc_unused_ptr ?u0 + 1" by blast
    with True show ?thesis using that [of u] core_shrinks [OF i0(2)] lv core_eqD(2) [OF i0(2)] by auto
  next
    case False
    then show ?thesis using that [of ?u0] shrinks_core [OF shrinks_refl [OF assms] i0(2)] by auto
  qed
  obtain n u2 where u2: "(if uc_sweep_on_full u1 > 0 \<and> uc_next_scan u1 \<le> now
        then sweep_expired now [1 ..< uc_max_items u1] (u1\<lparr>uc_next_scan := size_add now (uc_sweep_on_full u1)\<rparr>)
        else Some (0, u1)) = Some (n, u2)" "shrinks u1 u2"
  proof (cases "uc_sweep_on_full u1 > 0 \<and> uc_next_scan u1 \<le> now")
    case True
    let ?v = "u1\<lparr>uc_next_scan := size_add now (uc_sweep_on_full u1)\<rparr>"
    have v: "cache_inv ?v" "core ?v = core u1" using shrinksD(1) [OF u1(2)] by (simp_all add: core_def)
    from sweep_expired_ok [OF v(1), of "[1 ..< uc_max_items u1]" now] obtain n u where
      "sweep_expired now [1 ..< uc_max_items u1] ?v = Some (n, u)" "shrinks ?v u" by auto
    then show ?thesis using that [of n u] True core_shrinks [OF v(2)] by auto
  next
    case False
    then show ?thesis using that [of 0 u1] shrinks_refl [OF shrinksD(1) [OF u1(2)]] by auto
  qed
  have i2: "cache_inv u2" using shrinksD(1) u2(2) by blast
  have s2: "shrinks uc u2" using shrinks_trans u1(2) u2(2) by blast
  obtain u where "(if uc_clear_on_full uc \<and> n = 0 then del_slots now [1 ..< uc_max_items u2] u2 else Some u2) = Some u" "shrinks u2 u"
  proof (cases "uc_clear_on_full uc \<and> n = 0")
    case True
    with del_slots_ok [OF i2, of "[1 ..< uc_max_items u2]" now] that show ?thesis by auto
  next
    case False
    then show ?thesis using that [of u2] shrinks_refl [OF i2] by auto
  qed
  moreover from this have "uc_unused_ptr u1 \<le> uc_unused_ptr u" using u2(2) by (simp add: shrinks_def)
  ultimately show ?thesis unfolding cache_full_def Let_def using u1(1,3) u2(1) shrinks_trans [OF s2] by auto
qed

end
