(* ===== verification/Upsgi_CacheStore.thy ===== *)
theory Upsgi_CacheStore
  imports Upsgi_CacheInv
begin

text \<open>
  Looking up and storing in a cache that satisfies its invariant: a lookup finds the item of its key and deletes
  it when it has expired (\<open>get_index_ok\<close>), a claimed run of blocks was free (\<open>claim_ok\<close>), and a new item is
  added without touching the others or the cache only shrinks (\<open>set_new_ok\<close>).
\<close>

section \<open>Looking up\<close>

lemma get_index_ok:
  assumes "cache_inv uc"
  shows "\<exists>r u. upsgi_cache_get_index now key uc = Some (r, u) \<and> shrinks uc u \<and>
    (r = 0 \<and> (\<forall>i \<in> live u. key_of u i \<noteq> key) \<or> r \<in> live u \<and> key_of u r = key \<and> u = uc) \<and>
    (\<forall>i \<in> live uc - live u. key_of uc i = key \<and> uc_lazy_expire uc \<and> fld ci_expires uc i \<noteq> 0 \<and> fld ci_expires uc i \<le> now)"
proof -
  note inv = cache_invD [OF assms]
  obtain r where r: "find_slot key uc = Some r"
    "r = 0 \<and> (\<forall>i \<in> live uc. key_of uc i \<noteq> key) \<or> r \<in> live uc \<and> key_of uc r = key"
    using find_slot_spec [OF assms] by blast
  show ?thesis
  proof (cases "r = 0")
    case True
    then have "upsgi_cache_get_index now key uc = Some (0, uc)" using r(1) by (simp add: upsgi_cache_get_index_def)
    with True r(2) shrinks_refl [OF assms] show ?thesis by (auto simp: live_def)
  next
    case False
    with r(2) have lv: "r \<in> live uc" "key_of uc r = key" by auto
    then have b: "0 < r" "r < uc_max_items uc" by (simp_all add: live_def)
    have at: "item_at uc r = Some (uc_items uc ! r)" by (rule item_at_inv [OF assms b(2)])
    have ex: "ci_expires (uc_items uc ! r) = fld ci_expires uc r" using b inv(1) by (simp add: fld_def dims_inv_def)
    show ?thesis
    proof (cases "uc_lazy_expire uc \<and> fld ci_expires uc r \<noteq> 0 \<and> fld ci_expires uc r \<le> now")
      case True
      obtain u where u: "del_slot now [] r flag_local uc = Some u" "shrinks uc u" "live u = live uc - {r}"
        using del_slot_ok [OF assms b, of now "[]" flag_local] by blast
      have "upsgi_cache_get_index now key uc = Some (0, u)"
        using r(1) False at True u(1) by (simp add: upsgi_cache_get_index_def check_lazy_def ex)
      moreover have "key_of u i \<noteq> key" if i: "i \<in> live u" for i
      proof -
        have "entry_of u i = entry_of uc i" using u(2) i by (simp add: shrinks_def)
        then have "key_of u i = key_of uc i" by (rule entry_eqD(8))
        moreover have "key_of uc i \<noteq> key_of uc r" using inv(3) i u(3) lv(1) unfolding keys_inv_def inj_on_def by blast
        ultimately show ?thesis using lv(2) by simp
      qed
      ultimately show ?thesis using u True lv by auto
    next
      case False
      then have "upsgi_cache_get_index now key uc = Some (r, uc)"
        using r(1) \<open>r \<noteq> 0\<close> at by (auto simp: upsgi_cache_get_index_def check_lazy_def ex)
      with lv shrinks_refl [OF assms] show ?thesis by auto
    qed
  qed
qed

section \<open>Storing an entry\<close>

lemma needed_pos: "0 < bs \<Longrightarrow> 0 < n \<Longrightarrow> 0 < needed_blocks bs n"
  using div_greater_zero_iff [of n bs] by (cases "n < bs") (auto simp: needed_blocks_def)

lemma needed_fits: "0 < bs \<Longrightarrow> n \<le> needed_blocks bs n * bs"
proof -
  assume "0 < bs"
  have "q + x \<le> q + (if 0 < x then bs else 0)" if "x < bs" for q x using that by simp
  from this [of "n mod bs" "n div bs * bs"] show ?thesis
    using \<open>0 < bs\<close> by (simp add: needed_blocks_def add_mult_distrib split: if_splits)
qed

lemma claim_ok:
  assumes "map_inv (uc_blocks uc) (uc_bitmap_pos uc) taken bm" "0 < uc_blocksize uc" "0 < len" "uc_blocks uc < 2 ^ 61"
    and "n = needed_blocks (uc_blocksize uc) len"
  shows "claim_blocks len uc bm = Some (no_block, uc) \<or>
    (\<exists>r bm' p. claim_blocks len uc bm = Some (r, uc\<lparr>uc_bitmap := Some bm', uc_bitmap_pos := p\<rparr>) \<and> r \<noteq> no_block \<and>
      r + n \<le> uc_blocks uc \<and> {r ..< r + n} \<inter> taken = {} \<and> map_inv (uc_blocks uc) p (taken \<union> {r ..< r + n}) bm')"
proof -
  note m = assms(1) [unfolded map_inv_def]
  have n: "0 < n" using needed_pos assms(2,3,5) by blast
  have big: "8 * length bm < no_block" "length bm < 2 ^ 60" "uc_bitmap_pos uc < 8 * length bm"
    using m assms(4) by (auto simp: no_block_def)
  obtain r where r: "upsgi_cache_find_free_blocks bm (uc_bitmap_pos uc) (uc_blocksize uc) len = Some r"
    "r \<noteq> no_block \<Longrightarrow> free_run bm r n"
    using find_free_blocks [OF assms(5) [symmetric] n big(3,1)] by blast
  show ?thesis
  proof (cases "r = no_block")
    case True
    then show ?thesis using r(1) by (simp add: claim_blocks_def)
  next
    case False
    then have f: "free_run bm r n" by (rule r(2))
    then have fit: "r + n \<le> 8 * length bm" by (simp add: free_run_def)
    have nf: "\<not> used bm k" if "r \<le> k" "k < r + n" for k using f that by (simp add: free_run_def)
    have "\<not> used bm (r + n - 1)" using nf n by simp
    then have e: "r + n \<le> uc_blocks uc" using m fit n by fastforce
    obtain bm' where b: "cache_mark_blocks bm (uc_blocksize uc) r len = Some bm'" "length bm' = length bm"
      "\<forall>k. used bm' k \<longleftrightarrow> used bm k \<or> r \<le> k \<and> k < r + n"
      using mark_blocks [OF n assms(5) fit big(2)] by blast
    define p where "p = (if r + n \<ge> uc_blocks uc then 0 else r + n)"
    have "{r ..< r + n} \<inter> taken = {}" using nf m fit by (auto simp: disjoint_iff)
    moreover have "map_inv (uc_blocks uc) p (taken \<union> {r ..< r + n}) bm'"
      using m b(2,3) by (auto simp: map_inv_def p_def)
    moreover have "claim_blocks len uc bm = Some (r, uc\<lparr>uc_bitmap := Some bm', uc_bitmap_pos := p\<rparr>)"
      using r(1) False b(1) by (simp add: claim_blocks_def Let_def p_def assms(5) [symmetric])
    ultimately show ?thesis using False e by blast
  qed
qed

text \<open>A value written into its blocks does not touch the others.\<close>

lemma mem_write_other:
  fixes d :: "'a list"
  assumes "mem_write d off x = Some d'" "a + m \<le> off \<or> off + length x \<le> a"
  shows "take m (drop a d') = take m (drop a d)"
proof -
  from assms(1) have d': "d' = take off d @ x @ drop (off + length x) d" "off + length x \<le> length d"
    by (auto simp: mem_write_def split: if_splits)
  from assms(2) show ?thesis
  proof
    assume am: "a + m \<le> off"
    have "take m (drop a e) = drop a (take (a + m) e)" for e :: "'a list" by (simp add: take_drop add.commute)
    moreover have "take (a + m) d' = take (a + m) d" using d' am by (simp add: min_def)
    ultimately show ?thesis by simp
  next
    assume a: "off + length x \<le> a"
    then have "drop a d' = drop a d" using d' by (simp add: drop_append min_def)
    then show ?thesis by simp
  qed
qed

lemma mem_write_there:
  "mem_write d off x = Some d' \<Longrightarrow> take (length x) (drop off d') = x"
  by (auto simp: mem_write_def split: if_splits)


lemma fld_upd:
  "i < length (uc_items uc) \<Longrightarrow> fld f (uc\<lparr>uc_items := (uc_items uc)[i := x]\<rparr>) = (fld f uc)(i := f x)"
  by (auto simp: fld_def fun_eq_iff)

text \<open>The bytes a call stores: the value, or the number that the arithmetic gives.\<close>

definition stored :: "64 word \<Rightarrow> 64 word \<Rightarrow> char list \<Rightarrow> char list" where
  "stored flags old val =
     (if bit flags FLAG_MATH then u64le (case math_op flags old (rd64 val) of None \<Rightarrow> 0 | Some n \<Rightarrow> n) else val)"

definition no_trap :: "64 word \<Rightarrow> bool" where
  "no_trap flags \<longleftrightarrow> \<not> (bit flags FLAG_MATH \<and> bit flags FLAG_DIV)"

lemma stored_length: "bit flags FLAG_MATH \<Longrightarrow> length val = 8 \<Longrightarrow> length (stored flags old val) = length val"
  "\<not> bit flags FLAG_MATH \<Longrightarrow> stored flags old val = val"
  by (simp_all add: stored_def u64le_def)

lemma math_total: "no_trap flags \<Longrightarrow> bit flags FLAG_MATH \<Longrightarrow> \<exists>n. math_op flags old d = Some n"
  by (simp add: no_trap_def math_op_def)

lemma store_ok:
  assumes "no_trap flags" "bit flags FLAG_MATH \<Longrightarrow> length val = 8" "fb * uc_blocksize uc + length val \<le> length (uc_data uc)"
    and "old = (if fresh then uc_math_initial uc else rd64 (take 8 (drop (fb * uc_blocksize uc) (uc_data uc))))"
  shows "\<exists>d. store_value fresh flags val fb uc = Some (uc\<lparr>uc_data := d\<rparr>) \<and>
    mem_write (uc_data uc) (fb * uc_blocksize uc) (stored flags old val) = Some d"
proof (cases "bit flags FLAG_MATH")
  case True
  then obtain n where n: "math_op flags old (rd64 val) = Some n" using math_total assms(1) by blast
  have l: "length val = 8" using True assms(2) by blast
  have w: "length (u64le n) = 8" by (simp add: u64le_def)
  have "mem_write (uc_data uc) (fb * uc_blocksize uc) (u64le n) \<noteq> None" using assms(3) l w by (simp add: mem_write_def)
  then show ?thesis using True n assms(3,4) l by (auto simp: store_value_def stored_def write_data_def read_data_def Let_def)
next
  case False
  have "mem_write (uc_data uc) (fb * uc_blocksize uc) val \<noteq> None" using assms(3) by (simp add: mem_write_def)
  then show ?thesis using False by (auto simp: store_value_def stored_def write_data_def)
qed


definition new_entry :: "nat \<Rightarrow> char list \<Rightarrow> char list \<Rightarrow> 64 word \<Rightarrow> nat \<Rightarrow> nat \<Rightarrow> upsgi_cache \<Rightarrow>
    64 word \<times> nat \<times> nat \<times> nat \<times> nat \<times> nat \<times> char list" where
  "new_entry index key val flags fb e uc =
     (flags, length key, unat (uc_hash uc key), length val, fb, e, key @ drop (length key) (fld ci_key uc index))"

lemma fill_entry_ok:
  assumes "index < length (uc_items uc)" "0 < index" "length (fld ci_key uc index) = uc_keysize uc" "\<not> set_refused key val flags uc"
    and "no_trap flags" "fb * uc_blocksize uc + length val \<le> length (uc_data uc)"
    and "uc_purge_lru uc \<longrightarrow> ranked uc l \<and> index \<notin> set l"
  shows "\<exists>e u. fill_entry now key val expires flags index fb uc = Some (e, u) \<and> setup_of u = setup_of uc \<and>
    entry_of u = (entry_of uc)(index := new_entry index key val flags fb e uc) \<and>
    fld ci_next u = fld ci_next uc \<and> fld ci_prev u = fld ci_prev uc \<and> uc_hashtable u = uc_hashtable uc \<and>
    mem_write (uc_data uc) (fb * uc_blocksize uc) (stored flags (uc_math_initial uc) val) = Some (uc_data u) \<and>
    (uc_purge_lru uc \<longrightarrow> ranked u (l @ [index])) \<and> uc_unused_stack u = uc_unused_stack uc \<and> uc_unused_ptr u = uc_unused_ptr uc \<and>
    uc_bitmap u = uc_bitmap uc \<and> uc_bitmap_pos u = uc_bitmap_pos uc \<and> uc_n_items u = uc_n_items uc \<and>
    length (uc_items u) = length (uc_items uc)"
proof -
  obtain u1 where u1: "set_item index (\<lambda>it. it\<lparr>ci_first_block := fb\<rparr>) uc = Some u1" using set_item_some assms(1) by blast
  note p1 = set_item_parts [OF u1]
  have k1: "fld ci_lru_next u1 = fld ci_lru_next uc" "fld ci_lru_prev u1 = fld ci_lru_prev uc"
    "fld ci_next u1 = fld ci_next uc" "fld ci_prev u1 = fld ci_prev uc" "fld ci_key u1 = fld ci_key uc"
    by (rule set_item_keep [OF u1], simp)+
  have f1: "fld ci_first_block u1 = (fld ci_first_block uc)(index := fb)" by (simp add: set_item_fld [OF u1])
  have e1: "entry_of u1 j = entry_of uc j" if "j \<noteq> index" for j using that by (simp add: entry_of_def set_item_fld [OF u1])
  obtain e u2 where u2: "(if uc_purge_lru u1 then map_option (Pair expires) (lru_add_item index u1)
        else if expires \<noteq> 0 \<and> \<not> bit flags FLAG_ABSEXPIRE then
          (let e = size_add expires now in Some (e, note_expiry e u1))
        else Some (expires, u1)) = Some (e, u2)" and un: "unranked (u2\<lparr>uc_next_scan := 0\<rparr>) = unranked (u1\<lparr>uc_next_scan := 0\<rparr>)"
    and rk: "uc_purge_lru uc \<longrightarrow> ranked u2 (l @ [index])"
  proof (cases "uc_purge_lru uc")
    case True
    have "ranked u1 l" using assms(7) True ranked_cong [of u1 uc l] k1 p1 by simp
    then obtain u where u: "lru_add_item index u1 = Some u" "unranked u = unranked u1" "ranked u (l @ [index])"
      using lru_add_ok [of u1 l index] assms(1,2,7) True p1 by auto
    have "unranked (u\<lparr>uc_next_scan := 0\<rparr>) = (unranked u)\<lparr>uc_next_scan := 0\<rparr>" for u by (simp add: unranked_def)
    with u that [of expires u] True p1 show ?thesis by auto
  next
    case False
    have "unranked ((note_expiry e u1)\<lparr>uc_next_scan := 0\<rparr>) = unranked (u1\<lparr>uc_next_scan := 0\<rparr>)" for e
      by (simp add: note_expiry_def unranked_def)
    note n = this [of "size_add expires now"]
    show ?thesis
    proof (cases "expires \<noteq> 0 \<and> \<not> bit flags FLAG_ABSEXPIRE")
      case True
      then show ?thesis using that [of "size_add expires now" "note_expiry (size_add expires now) u1"] n False p1(14) by (simp add: Let_def)
    next
      case e: False
      then show ?thesis using that [of expires u1] False p1(14) by auto
    qed
  qed
  note p2 = unranked_parts [OF un, simplified] note f2 = unranked_flds [OF un, simplified]
  have i2: "index < length (uc_items u2)" using assms(1) p1 p2 by simp
  define k where "k = key @ drop (length key) (fld ci_key uc index)"
  have kw: "mem_write (fld ci_key uc index) 0 key = Some k"
    using assms(3,4) by (simp add: mem_write_def k_def set_refused_def)
  obtain d where d: "mem_write (uc_data uc) (fb * uc_blocksize uc) (stored flags (uc_math_initial uc) val) = Some d"
    "\<And>w. uc_data w = uc_data uc \<Longrightarrow> uc_blocksize w = uc_blocksize uc \<Longrightarrow> uc_math_initial w = uc_math_initial uc \<Longrightarrow>
        store_value True flags val fb w = Some (w\<lparr>uc_data := d\<rparr>)"
  proof -
    have "\<exists>d. store_value True flags val fb w = Some (w\<lparr>uc_data := d\<rparr>) \<and>
        mem_write (uc_data uc) (fb * uc_blocksize uc) (stored flags (uc_math_initial uc) val) = Some d"
      if "uc_data w = uc_data uc" "uc_blocksize w = uc_blocksize uc" "uc_math_initial w = uc_math_initial uc" for w
    proof -
      have "bit flags FLAG_MATH \<Longrightarrow> length val = 8" "fb * uc_blocksize w + length val \<le> length (uc_data w)"
        using assms(4,6) that by (simp_all add: set_refused_def)
      from store_ok [OF assms(5) this refl, of True] show ?thesis using that by simp
    qed
    note st = this
    obtain d where d: "mem_write (uc_data uc) (fb * uc_blocksize uc) (stored flags (uc_math_initial uc) val) = Some d"
      using st [of uc] by blast
    show ?thesis
    proof (rule that [OF d])
      fix w :: upsgi_cache
      assume "uc_data w = uc_data uc" "uc_blocksize w = uc_blocksize uc" "uc_math_initial w = uc_math_initial uc"
      then obtain d1 where "store_value True flags val fb w = Some (w\<lparr>uc_data := d1\<rparr>)" "d = d1"
        using st [of w] d by auto
      then show "store_value True flags val fb w = Some (w\<lparr>uc_data := d\<rparr>)" by simp
    qed
  qed
  define it where "it = (uc_items u2 ! index)\<lparr>ci_expires := e, ci_hash := unat (uc_hash uc key), ci_hits := 0, ci_flags := flags,
    ci_key := k, ci_valsize := length val, ci_keysize := length key\<rparr>"
  define u where "u = u2\<lparr>uc_items := (uc_items u2)[index := it], uc_data := d\<rparr>"
  have ck: "ci_key (uc_items u2 ! index) = fld ci_key uc index"
    using fun_cong [OF f2(9), of index] k1(5) i2 by (simp add: fld_def [of _ u2])
  have op: "fill_entry now key val expires flags index fb uc = Some (e, u)"
    unfolding fill_entry_def u1 using u2 i2 kw ck d(2) p1 p2
    by (simp add: set_item_def write_key_def item_at_def it_def u_def)
  have fu: "fld f u = (fld f u2)(index := f it)" for f :: "upsgi_cache_item \<Rightarrow> 'x"
    using fld_upd [OF i2, of f it] by (simp add: u_def fld_def fun_eq_iff)
  have same: "f it = f (uc_items u2 ! index) \<Longrightarrow> fld f u = fld f u2" for f :: "upsgi_cache_item \<Rightarrow> 'x"
    using i2 by (simp add: fu) (auto simp: fld_def fun_eq_iff)
  have "ci_first_block it = fb" using fun_cong [OF f2(5), of index] f1 i2 by (simp add: it_def fld_def [of _ u2])
  then have "entry_of u = (entry_of uc)(index := new_entry index key val flags fb e uc)"
    using e1 by (auto simp: fun_eq_iff entry_of_def fu f2 new_entry_def it_def k_def)
  moreover have "fld ci_next u = fld ci_next uc" "fld ci_prev u = fld ci_prev uc"
    using same [of ci_next] same [of ci_prev] f2 k1 by (simp_all add: it_def)
  moreover have "ranked u m = ranked u2 m" for m
    by (rule ranked_cong) (simp_all add: same it_def, simp_all add: u_def)
  moreover have "setup_of u = setup_of uc" using p1 p2 by (simp add: setup_of_def u_def)
  ultimately show ?thesis using op rk d(1) p1 p2 by (simp add: u_def)
qed


text \<open>An invariant cache with one more slot taken and some blocks claimed becomes one with one more item.\<close>

lemma unused_pop:
  assumes "cache_inv uc" "uc_unused_ptr uc = Suc p" "index = uc_unused_stack uc ! Suc p"
  shows "index \<notin> live uc" "0 < index" "index < uc_max_items uc" "Suc p < length (uc_unused_stack uc)"
    "distinct (take p (tl (uc_unused_stack uc)))"
    "set (take p (tl (uc_unused_stack uc))) = {1 ..< uc_max_items uc} - insert index (live uc)"
proof -
  note f = cache_invD(4) [OF assms(1), unfolded free_inv_def]
  have len: "length (uc_unused_stack uc) = uc_max_items uc" using assms(1) by (simp add: cache_inv_def dims_inv_def)
  then show l: "Suc p < length (uc_unused_stack uc)" using f assms(2) by simp
  then obtain a xs where s: "uc_unused_stack uc = a # xs" by (metis length_0_conv list.exhaust not_less0)
  have "take (Suc p) (tl (uc_unused_stack uc)) = take p (tl (uc_unused_stack uc)) @ [index]"
    using l s assms(3) by (simp add: take_Suc_conv_app_nth)
  then have d: "distinct (take p (tl (uc_unused_stack uc)) @ [index])"
    "set (take p (tl (uc_unused_stack uc)) @ [index]) = {1 ..< uc_max_items uc} - live uc" using f assms(2) by metis+
  then show "distinct (take p (tl (uc_unused_stack uc)))" by simp
  have "index \<in> {1 ..< uc_max_items uc} - live uc" using d(2) by auto
  then show "index \<notin> live uc" "0 < index" "index < uc_max_items uc" by auto
  show "set (take p (tl (uc_unused_stack uc))) = {1 ..< uc_max_items uc} - insert index (live uc)" using d by auto
qed


text \<open>The data area of the other items does not change when a value goes to free blocks.\<close>

lemma value_kept:
  assumes "mem_write (uc_data uc) (fb * uc_blocksize uc) x = Some (uc_data u)" "length x \<le> n * uc_blocksize uc"
    and "entry_of u j = entry_of uc j" "setup_of u = setup_of uc" "0 < uc_blocksize uc"
    and "{fb ..< fb + n} \<inter> run_of uc j = {}" "0 < n" "0 < fld ci_valsize uc j"
  shows "value_of u j = value_of uc j"
proof -
  let ?f = "fld ci_first_block uc j" and ?v = "fld ci_valsize uc j" and ?b = "uc_blocksize uc"
  define m where "m = needed_blocks ?b ?v"
  have m: "?v \<le> m * ?b" "0 < m" using needed_fits [OF assms(5)] needed_pos [OF assms(5,8)] by (simp_all add: m_def)
  have r: "run_of uc j = {?f ..< ?f + m}" by (simp add: run_of_def m_def)
  have "?f + m \<le> fb \<or> fb + n \<le> ?f"
  proof (rule ccontr)
    assume "\<not> ?thesis"
    then have "max fb ?f \<in> {fb ..< fb + n} \<inter> run_of uc j" using assms(7) m(2) by (simp add: r)
    with assms(6) show False by blast
  qed
  then have "(?f + m) * ?b \<le> fb * ?b \<or> (fb + n) * ?b \<le> ?f * ?b" by (auto intro: mult_le_mono1)
  then have "?f * ?b + ?v \<le> fb * ?b \<or> fb * ?b + length x \<le> ?f * ?b" using m(1) assms(2) by (auto simp: add_mult_distrib)
  from mem_write_other [OF assms(1) this] show ?thesis
    unfolding value_of_def entry_eqD [OF assms(3)] setup_eqD [OF assms(4)] .
qed

lemma block_more:
  assumes "block_inv u0" "L \<subseteq> live u0" "index \<notin> L" "live u = insert index L" "setup_of u = setup_of u0"
    "\<And>j. j \<in> L \<Longrightarrow> entry_of u j = entry_of u0 j"
    and "run_of u index = {fb ..< fb + n}" "fb + n \<le> uc_blocks u0" "\<And>j. j \<in> L \<Longrightarrow> {fb ..< fb + n} \<inter> run_of u0 j = {}"
    "0 < fld ci_valsize u index"
    "uc_bitmap u = None \<Longrightarrow> fld ci_first_block u index = index \<and> fld ci_valsize u index \<le> uc_blocksize u0"
    "\<And>bm. uc_bitmap u = Some bm \<Longrightarrow> map_inv (uc_blocks u0) (uc_bitmap_pos u) ((\<Union>j \<in> L. run_of u0 j) \<union> {fb ..< fb + n}) bm"
  shows "block_inv u"
proof -
  note s = setup_eqD [OF assms(5)]
  have r: "run_of u j = run_of u0 j" if "j \<in> L" for j using run_eq assms(5,6) that by blast
  have "0 < fld ci_valsize u i \<and> run_of u i \<subseteq> {..< uc_blocks u}" if "i \<in> live u" for i
  proof (cases "i = index")
    case True
    then show ?thesis using assms(7,8,10) s by auto
  next
    case False
    then have i: "i \<in> L" "i \<in> live u0" using that assms(2,4) by auto
    then show ?thesis using assms(1) entry_eqD(4) [OF assms(6) [OF i(1)]] r [OF i(1)] s by (simp add: block_inv_def)
  qed
  moreover have "run_of u i \<inter> run_of u j = {}" if "i \<in> live u" "j \<in> live u" "i \<noteq> j" for i j
  proof (cases "i = index \<or> j = index")
    case True
    then show ?thesis using that assms(4,7,9) r by (metis inf_commute insertE)
  next
    case False
    then have "i \<in> L" "j \<in> L" using that assms(4) by auto
    then show ?thesis using that(3) assms(1,2) r by (simp add: block_inv_def subset_iff)
  qed
  moreover have "case uc_bitmap u of
        None \<Rightarrow> uc_max_item_size u = uc_blocksize u \<and>
          (\<forall>i \<in> live u. fld ci_first_block u i = i \<and> fld ci_valsize u i \<le> uc_blocksize u)
      | Some bm \<Rightarrow> map_inv (uc_blocks u) (uc_bitmap_pos u) (\<Union>i \<in> live u. run_of u i) bm"
  proof (cases "uc_bitmap u")
    case None
    then have b: "uc_bitmap u0 = None" using s by blast
    have "fld ci_first_block u i = i \<and> fld ci_valsize u i \<le> uc_blocksize u" if "i \<in> live u" for i
    proof (cases "i = index")
      case False
      then have i: "i \<in> L" "i \<in> live u0" using that assms(2,4) by auto
      then show ?thesis using b assms(1) entry_eqD [OF assms(6) [OF i(1)]] s by (simp add: block_inv_def)
    qed (use assms(11) None s in simp)
    then show ?thesis using None b assms(1) s by (simp add: block_inv_def)
  next
    case (Some bm)
    moreover have "(\<Union>i \<in> live u. run_of u i) = (\<Union>j \<in> L. run_of u0 j) \<union> {fb ..< fb + n}"
      using r assms(4,7) by auto
    ultimately show ?thesis using assms(12) s by simp
  qed
  ultimately show ?thesis unfolding block_inv_def by blast
qed

lemma keys_more:
  assumes "keys_inv u0" "live u = insert index (live u0)" "setup_of u = setup_of u0" "\<And>j. j \<in> live u0 \<Longrightarrow> entry_of u j = entry_of u0 j"
    and "key_of u index = key" "fld ci_keysize u index \<le> uc_keysize u0" "fld ci_hash u index = unat (uc_hash u0 key)"
    "\<And>j. j \<in> live u0 \<Longrightarrow> key_of u0 j \<noteq> key"
  shows "keys_inv u"
proof -
  note s = setup_eqD [OF assms(3)]
  have k: "key_of u j = key_of u0 j" if "j \<in> live u0" for j using entry_eqD(8) [OF assms(4) [OF that]] .
  have "inj_on (key_of u) (live u0)" using assms(1) k unfolding keys_inv_def inj_on_def by metis
  moreover have "key_of u index \<notin> key_of u ` live u0" using assms(5,8) k by force
  ultimately have "inj_on (key_of u) (live u)" using assms(2) by (auto simp: inj_on_insert)
  moreover have "fld ci_keysize u j \<le> uc_keysize u \<and> fld ci_hash u j = unat (uc_hash u (key_of u j))" if "j \<in> live u" for j
  proof (cases "j \<in> live u0")
    case True
    then show ?thesis using assms(1) entry_eqD [OF assms(4) [OF True]] s by (simp add: keys_inv_def)
  next
    case False
    then show ?thesis using that assms(2,5-7) s by simp
  qed
  ultimately show ?thesis by (simp add: keys_inv_def)
qed


text \<open>What a successful store does to a cache.\<close>

definition stores :: "upsgi_cache \<Rightarrow> upsgi_cache \<Rightarrow> nat \<Rightarrow> char list \<Rightarrow> char list \<Rightarrow> 64 word \<Rightarrow> bool" where
  "stores uc u index key x flags \<longleftrightarrow> cache_inv u \<and> live u = insert index (live uc) \<and> setup_of u = setup_of uc \<and>
     (\<forall>j \<in> live uc - {index}. entry_of u j = entry_of uc j \<and> value_of u j = value_of uc j) \<and>
     key_of u index = key \<and> value_of u index = x \<and> fld ci_flags u index = flags"

lemma stored_fits:
  "\<not> set_refused key val flags uc \<Longrightarrow> length (stored flags old val) = length val"
  by (auto simp: set_refused_def stored_def u64le_def)

lemma fill_item_ok:
  assumes "cache_inv u0" "uc_unused_ptr u0 = Suc p" "index = uc_unused_stack u0 ! Suc p"
    "uc = u0\<lparr>uc_unused_ptr := p, uc_bitmap := b, uc_bitmap_pos := q\<rparr>" "(b = None) = (uc_bitmap u0 = None)"
    "n = needed_blocks (uc_blocksize u0) (length val)" "fb + n \<le> uc_blocks u0" "\<And>j. j \<in> live u0 \<Longrightarrow> {fb ..< fb + n} \<inter> run_of u0 j = {}"
    "b = None \<Longrightarrow> fb = index"
    "\<And>bm. b = Some bm \<Longrightarrow> map_inv (uc_blocks u0) q ((\<Union>j \<in> live u0. run_of u0 j) \<union> {fb ..< fb + n}) bm"
    "\<not> set_refused key val flags u0" "no_trap flags" "\<And>j. j \<in> live u0 \<Longrightarrow> key_of u0 j \<noteq> key"
  shows "\<exists>e u. fill_item now key val expires flags index fb uc = Some (e, u) \<and>
    stores u0 u index key (stored flags (uc_math_initial u0) val) flags"
proof -
  note inv = cache_invD [OF assms(1)]
  note dim = inv(1) [unfolded dims_inv_def]
  note pop = unused_pop [OF assms(1-3)]
  have nr: "key \<noteq> []" "val \<noteq> []" "length key \<le> uc_keysize u0" "length val \<le> uc_max_item_size u0"
    using assms(11) by (auto simp: set_refused_def)
  have bs: "0 < uc_blocksize u0" using dim by simp
  have n: "0 < n" "length val \<le> n * uc_blocksize u0" using needed_pos needed_fits bs nr(2) assms(6) by auto
  have fits: "fb * uc_blocksize u0 + length val \<le> length (uc_data u0)"
  proof -
    have "(fb + n) * uc_blocksize u0 \<le> uc_blocks u0 * uc_blocksize u0" using assms(7) by (rule mult_le_mono1)
    then show ?thesis using n(2) dim by (simp add: add_mult_distrib)
  qed
  have fc: "fld f uc = fld f u0" for f :: "upsgi_cache_item \<Rightarrow> 'x" by (rule fld_cong) (simp add: assms(4))
  have ec: "entry_of uc = entry_of u0" by (simp add: entry_of_def fun_eq_iff fc)
  have sc: "setup_of uc = setup_of u0" using assms(5) by (simp add: setup_of_def assms(4))
  obtain l where l: "uc_purge_lru u0 \<Longrightarrow> ranked u0 l \<and> set l = live u0" using inv(7) by (auto simp: lru_inv_def)
  have "ranked uc l = ranked u0 l" by (rule ranked_cong) (simp_all add: fc, simp_all add: assms(4))
  then have lc: "uc_purge_lru uc \<longrightarrow> ranked uc l \<and> index \<notin> set l" using l pop(1) assms(4) by simp
  have ix: "index < length (uc_items uc)" "length (fld ci_key uc index) = uc_keysize uc"
    using pop(3) dim by (simp_all add: fc) (simp_all add: assms(4))
  have nr': "\<not> set_refused key val flags uc" using assms(11) by (simp add: set_refused_def assms(4))
  have fits': "fb * uc_blocksize uc + length val \<le> length (uc_data uc)" using fits by (simp add: assms(4))
  obtain e u1 where u1: "fill_entry now key val expires flags index fb uc = Some (e, u1)" "setup_of u1 = setup_of uc"
    "entry_of u1 = (entry_of uc)(index := new_entry index key val flags fb e uc)"
    "fld ci_next u1 = fld ci_next uc" "fld ci_prev u1 = fld ci_prev uc" "uc_hashtable u1 = uc_hashtable uc"
    "mem_write (uc_data uc) (fb * uc_blocksize uc) (stored flags (uc_math_initial uc) val) = Some (uc_data u1)"
    "uc_purge_lru uc \<longrightarrow> ranked u1 (l @ [index])" "uc_unused_stack u1 = uc_unused_stack uc" "uc_unused_ptr u1 = uc_unused_ptr uc"
    "uc_bitmap u1 = uc_bitmap uc" "uc_bitmap_pos u1 = uc_bitmap_pos uc" "uc_n_items u1 = uc_n_items uc"
    "length (uc_items u1) = length (uc_items uc)"
    using fill_entry_ok [OF ix(1) pop(2) ix(2) nr' assms(12) fits' lc, of now expires] by (elim exE conjE)
  note s1 = setup_eqD [OF trans [OF u1(2) sc]]
  obtain ch where bk: "bucket_inv u0 ch" using inv(2) by blast
  define h where "h = unat (uc_hash uc key) mod uc_hashsize u1"
  have c1: "chained u1 ch"
    using bk chained_cong [of u1 u0 ch] u1(4-6,14) s1 by (simp add: bucket_inv_def fc) (simp add: assms(4))
  have hs: "0 < uc_hashsize u1" "index \<in> {1 ..< length (uc_items u1)}" using s1 dim pop ix u1(14) by simp_all
  have new: "index \<notin> set (ch k)" if "k < uc_hashsize u1" for k using bk pop(1) that s1 by (simp add: bucket_inv_def)
  obtain u2 where u2: "link_item (unat (uc_hash uc key)) index u1 = Some u2" "unlinked u2 = unlinked u1"
    "chained u2 (ch(h := ch h @ [index]))" using link_ok [OF c1 hs(1) h_def hs(2) new] by blast
  define u where "u = u2\<lparr>uc_n_items := size_add (uc_n_items u2) 1\<rparr>"
  have op: "fill_item now key val expires flags index fb uc = Some (e, u)" using u1(1) u2(1) by (simp add: fill_item_def u_def)
  note p2 = unlinked_parts [OF u2(2)] note f2 = unlinked_flds [OF u2(2)]
  have su: "setup_of u = setup_of u0" using p2 u1(2) sc by (simp add: setup_of_def u_def)
  have en: "entry_of u = (entry_of u0)(index := new_entry index key val flags fb e u0)"
  proof -
    have "entry_of u = entry_of u1" by (simp add: entry_of_def fun_eq_iff f2 u_def)
    then show ?thesis using u1(3) ec by (simp add: new_entry_def fc) (simp add: assms(4))
  qed
  note s = setup_eqD [OF su]
  have ei: "fld ci_flags u index = flags" "fld ci_keysize u index = length key" "fld ci_hash u index = unat (uc_hash u0 key)"
    "fld ci_valsize u index = length val" "fld ci_first_block u index = fb"
    "fld ci_key u index = key @ drop (length key) (fld ci_key u0 index)"
    using fun_cong [OF en, of index] by (auto simp: entry_of_def new_entry_def)
  have eo: "entry_of u j = entry_of u0 j" if "j \<noteq> index" for j using en that by simp
  have lv: "live u = insert index (live u0)"
  proof -
    have "j \<in> live u \<longleftrightarrow> j \<in> live u0" if "j \<noteq> index" for j using entry_eqD(2) [OF eo [OF that]] s by (simp add: live_def)
    moreover have "index \<in> live u" using pop(2,3) nr(1) ei(2) s by (simp add: live_def)
    ultimately show ?thesis by (intro set_eqI) (metis insert_iff)
  qed
  have el: "entry_of u j = entry_of u0 j" if "j \<in> live u0" for j using eo that pop(1) by metis
  have ky: "key_of u index = key" by (simp add: key_of_def ei)
  have dt: "mem_write (uc_data u0) (fb * uc_blocksize u0) (stored flags (uc_math_initial u0) val) = Some (uc_data u)"
    using u1(7) p2 by (simp add: u_def assms(4))
  have sl: "length (stored flags (uc_math_initial u0) val) = length val" by (rule stored_fits [OF assms(11)])
  have "dims_inv u"
  proof (rule dims_same [OF inv(1) su])
    show "length (uc_items u) = length (uc_items u0)" using p2 u1(14) by (simp add: u_def assms(4))
    show "length (uc_unused_stack u) = length (uc_unused_stack u0)" using p2 u1(9) by (simp add: u_def assms(4))
    show "length (uc_data u) = length (uc_data u0)" using mem_write_length [OF dt] .
    show "length (fld ci_key u j) = length (fld ci_key u0 j)" if "j < uc_max_items u0" for j
      using that dim nr(3) ei(6) entry_eqD(7) [OF eo [of j]] by (cases "j = index") auto
  qed
  moreover have "bucket_inv u (ch(h := ch h @ [index]))"
  proof -
    let ?ch = "ch(h := ch h @ [index])"
    have "chained u ?ch" using u2(3) chained_cong [of u u2 ?ch] by (simp add: u_def)
    moreover have "set (?ch k) = {x \<in> live u. fld ci_hash u x mod uc_hashsize u = k}" if k: "k < uc_hashsize u" for k
    proof -
      have "set (ch k) = {x \<in> live u0. fld ci_hash u0 x mod uc_hashsize u0 = k}" using bk k s by (simp add: bucket_inv_def)
      moreover have "fld ci_hash u x = fld ci_hash u0 x" if "x \<in> live u0" for x using entry_eqD(3) [OF el [OF that]] .
      moreover have "h = fld ci_hash u index mod uc_hashsize u" using ei(3) s1 s by (simp add: h_def assms(4))
      ultimately show ?thesis using s lv by auto
    qed
    ultimately show ?thesis by (simp add: bucket_inv_def)
  qed
  moreover have "keys_inv u" by (rule keys_more [OF inv(3) lv su el ky]) (use ei nr assms(13) in simp_all)
  moreover have "free_inv u"
  proof -
    have "uc_unused_stack u = uc_unused_stack u0" "uc_unused_ptr u = p" using p2 u1(9,10) by (simp_all add: u_def assms(4))
    then show ?thesis using pop s lv dim by (simp add: free_inv_def)
  qed
  moreover have "count_inv u"
  proof -
    have "finite (live u0)" by (simp add: live_def)
    moreover have "live u0 \<subseteq> {1 ..< uc_max_items u0}" by (auto simp: live_def)
    then have "card (live u0) \<le> uc_max_items u0" using card_mono [of "{1 ..< uc_max_items u0}" "live u0"] by simp
    then have "card (live u0) < 2 ^ 61" using dim by (elim conjE) linarith
    moreover have "uc_n_items u = size_add (uc_n_items u0) 1" using p2 u1(13) by (simp add: u_def assms(4))
    ultimately show ?thesis using inv(5) pop(1) lv by (simp add: count_inv_def)
  qed
  moreover have "block_inv u"
  proof (rule block_more [OF inv(6) order_refl pop(1) lv su el])
    show "run_of u index = {fb ..< fb + n}" using ei s assms(6) by (simp add: run_of_def)
    show "0 < fld ci_valsize u index" using ei nr(2) by simp
    have bb: "uc_bitmap u = b" "uc_bitmap_pos u = q" using p2 u1(11,12) by (simp_all add: u_def assms(4))
    show "uc_bitmap u = None \<Longrightarrow> fld ci_first_block u index = index \<and> fld ci_valsize u index \<le> uc_blocksize u0"
      using bb assms(5,9) ei nr(4) inv(6) by (auto simp: block_inv_def)
    show "map_inv (uc_blocks u0) (uc_bitmap_pos u) ((\<Union>j \<in> live u0. run_of u0 j) \<union> {fb ..< fb + n}) bm"
      if "uc_bitmap u = Some bm" for bm using bb assms(10) that by simp
  qed (use assms(7,8) in auto)
  moreover have "lru_inv u"
  proof -
    have "ranked u m = ranked u1 m" for m by (rule ranked_cong) (simp_all add: f2 u_def, simp_all add: p2)
    then have "uc_purge_lru u \<Longrightarrow> ranked u (l @ [index])" using u1(8) s by (simp add: assms(4))
    then show ?thesis using l s lv by (force simp: lru_inv_def)
  qed
  ultimately have "cache_inv u" by (auto simp: cache_inv_def)
  moreover have "value_of u index = stored flags (uc_math_initial u0) val"
    using mem_write_there [OF dt] sl ei s by (simp add: value_of_def)
  moreover have "value_of u j = value_of u0 j" if j: "j \<in> live u0" for j
    by (rule value_kept [OF dt _ el [OF j] su bs assms(8) [OF j] n(1)]) (use n sl inv(6) j in \<open>simp_all add: block_inv_def\<close>)
  ultimately show ?thesis using op lv su el ky ei(1) pop(1) by (auto simp: stores_def)
qed


section \<open>Small changes of an item\<close>

text \<open>Moving an item in the least-recently-used list, or changing its hits, its expiry time, or the first block
  of an item that is not live.\<close>

lemma inv_unranked:
  assumes "cache_inv uc" "unranked u = unranked uc" "uc_purge_lru uc \<Longrightarrow> ranked u l \<and> set l = live uc"
  shows "cache_inv u" "live u = live uc" "setup_of u = setup_of uc" "uc_data u = uc_data uc" "entry_of u = entry_of uc"
    "uc_unused_ptr u = uc_unused_ptr uc" "uc_bitmap u = uc_bitmap uc" "uc_bitmap_pos u = uc_bitmap_pos uc" "length (uc_items u) = length (uc_items uc)"
proof -
  note inv = cache_invD [OF assms(1)]
  note p = unranked_parts [OF assms(2)] note f = unranked_flds [OF assms(2)]
  show lv: "live u = live uc" and su: "setup_of u = setup_of uc" and d: "uc_data u = uc_data uc" and en: "entry_of u = entry_of uc"
    and "uc_unused_ptr u = uc_unused_ptr uc" "uc_bitmap u = uc_bitmap uc" "uc_bitmap_pos u = uc_bitmap_pos uc" "length (uc_items u) = length (uc_items uc)"
    by (simp_all add: live_def setup_of_def entry_of_def fun_eq_iff p f)
  obtain ch where bk: "bucket_inv uc ch" using inv(2) by blast
  have "bucket_inv u ch" using bk chained_cong [of u uc ch] by (simp add: bucket_inv_def p f lv)
  moreover have "dims_inv u" by (rule dims_same [OF inv(1) su]) (simp_all add: p f)
  moreover have "keys_inv u" by (rule keys_fewer [OF inv(3) _ _ su]) (simp_all add: lv en)
  moreover have "free_inv u" "count_inv u" using inv(4,5) by (simp_all add: free_inv_def count_inv_def p lv)
  moreover have "block_inv u" by (rule block_fewer [OF inv(6) _ _ su]) (use inv(6) in \<open>simp_all add: lv en p block_inv_def\<close>)
  moreover have "lru_inv u" using assms(3) by (auto simp: lru_inv_def p lv)
  ultimately show "cache_inv u" by (auto simp: cache_inv_def)
qed

lemma inv_item:
  assumes "cache_inv uc" "set_item i g uc = Some u"
    "\<And>it. ci_keysize (g it) = ci_keysize it" "\<And>it. ci_hash (g it) = ci_hash it" "\<And>it. ci_key (g it) = ci_key it"
    "\<And>it. ci_next (g it) = ci_next it" "\<And>it. ci_prev (g it) = ci_prev it" "\<And>it. ci_lru_next (g it) = ci_lru_next it"
    "\<And>it. ci_lru_prev (g it) = ci_lru_prev it" "\<And>it. ci_valsize (g it) = ci_valsize it" "\<And>it. i \<in> live uc \<Longrightarrow> ci_first_block (g it) = ci_first_block it"
  shows "cache_inv u \<and> live u = live uc \<and> setup_of u = setup_of uc \<and> uc_data u = uc_data uc \<and>
    (\<forall>j. j \<noteq> i \<longrightarrow> entry_of u j = entry_of uc j) \<and> key_of u = key_of uc \<and> (\<forall>j \<in> live uc. value_of u j = value_of uc j)"
proof -
  note inv = cache_invD [OF assms(1)]
  note p = set_item_parts [OF assms(2)]
  have f: "fld ci_keysize u = fld ci_keysize uc" "fld ci_hash u = fld ci_hash uc" "fld ci_key u = fld ci_key uc"
    "fld ci_next u = fld ci_next uc" "fld ci_prev u = fld ci_prev uc" "fld ci_lru_next u = fld ci_lru_next uc"
    "fld ci_lru_prev u = fld ci_lru_prev uc" "fld ci_valsize u = fld ci_valsize uc"
    by (rule set_item_keep [OF assms(2)], rule assms)+
  have lv: "live u = live uc" and su: "setup_of u = setup_of uc" and ky: "key_of u = key_of uc"
    by (simp_all add: live_def setup_of_def key_of_def fun_eq_iff p f)
  have fb: "fld ci_first_block u j = fld ci_first_block uc j" if "j \<in> live uc" for j
    using that assms(11) p(22) by (auto simp: set_item_fld [OF assms(2)] fld_def)
  have ro: "run_of u j = run_of uc j" if "j \<in> live uc" for j using fb [OF that] by (simp add: run_of_def f p)
  obtain ch where bk: "bucket_inv uc ch" using inv(2) by blast
  have "bucket_inv u ch" using bk chained_cong [of u uc ch] by (simp add: bucket_inv_def p f lv)
  moreover have "dims_inv u" by (rule dims_same [OF inv(1) su]) (simp_all add: p f)
  moreover have "keys_inv u" using inv(3) by (simp add: keys_inv_def lv ky f p)
  moreover have "free_inv u" "count_inv u" using inv(4,5) by (simp_all add: free_inv_def count_inv_def p lv)
  moreover have "block_inv u" using inv(6) fb ro by (simp add: block_inv_def lv f p split: option.splits)
  moreover have "lru_inv u" using inv(7) ranked_cong [of u uc] by (simp add: lru_inv_def p f lv)
  moreover have "entry_of u j = entry_of uc j" if "j \<noteq> i" for j using that by (simp add: entry_of_def set_item_fld [OF assms(2)])
  moreover have "value_of u j = value_of uc j" if "j \<in> live uc" for j using fb [OF that] by (simp add: value_of_def p f)
  ultimately show ?thesis using su lv ky p by (auto simp: cache_inv_def)
qed

lemma lru_move:
  assumes "cache_inv uc" "uc_purge_lru uc" "i \<in> live uc"
  shows "\<exists>u l. do { u \<leftarrow> lru_remove_item i uc; lru_add_item i u } = Some u \<and> unranked u = unranked uc \<and> ranked u l \<and>
    set l = live uc \<and> last l = i \<and> l \<noteq> []"
proof -
  obtain l where l: "ranked uc l" "set l = live uc" using cache_invD(7) [OF assms(1)] assms(2) by (auto simp: lru_inv_def)
  obtain u1 where u1: "lru_remove_item i uc = Some u1" "unranked u1 = unranked uc" "ranked u1 (remove1 i l)"
    using lru_remove_ok [OF l(1)] l(2) assms(3) by blast
  have d: "distinct l" "i \<in> {1 ..< length (uc_items u1)}"
    using l assms(3) unranked_parts(19) [OF u1(2)] by (auto simp: ranked_def)
  obtain u where u: "lru_add_item i u1 = Some u" "unranked u = unranked u1" "ranked u (remove1 i l @ [i])"
    using lru_add_ok [OF u1(3) _ d(2)] d(1) by auto
  have "set (remove1 i l @ [i]) = live uc" using d(1) l(2) assms(3) by auto
  with u u1 show ?thesis by (intro exI [of _ u] exI [of _ "remove1 i l @ [i]"]) simp
qed


section \<open>A new item\<close>

lemma block_one: "0 < bs \<Longrightarrow> 0 < n \<Longrightarrow> n \<le> bs \<Longrightarrow> needed_blocks bs n = 1"
  by (cases "n = bs") (simp_all add: needed_blocks_def)

text \<open>A full cache with a least-recently-used list has an item to give up.\<close>

lemma full_lru:
  assumes "cache_inv uc" "uc_unused_ptr uc = 0" "uc_purge_lru uc" "uc_max_items uc \<noteq> 1"
  shows "uc_lru_head uc \<noteq> 0"
proof -
  note inv = cache_invD [OF assms(1)]
  have "{1 ..< uc_max_items uc} - live uc = {}" using inv(4) assms(2) by (simp add: free_inv_def)
  moreover have "1 \<in> {1 ..< uc_max_items uc}" using inv(1) assms(4) by (simp add: dims_inv_def)
  ultimately have "live uc \<noteq> {}" by blast
  moreover obtain l where "ranked uc l" "set l = live uc" using inv(7) assms(3) by (auto simp: lru_inv_def)
  ultimately show ?thesis by (cases l) (auto simp: ranked_def)
qed

lemma set_new_ok:
  assumes "cache_inv uc" "\<not> set_refused key val flags uc" "no_trap flags" "\<And>j. j \<in> live uc \<Longrightarrow> key_of uc j \<noteq> key"
  shows "\<exists>r u u0. set_new now key val expires flags uc = Some (r, u) \<and> shrinks uc u0 \<and>
    (case r of None \<Rightarrow> u = u0 \<and> (uc_bitmap uc \<noteq> None \<or> uc_unused_ptr uc = 0 \<and> (uc_purge_lru uc \<longrightarrow> uc_max_items uc = 1))
     | Some e \<Rightarrow> (\<exists>index. index \<notin> live u0 \<and> stores u0 u index key (stored flags (uc_math_initial uc) val) flags) \<and>
         (uc_unused_ptr uc \<noteq> 0 \<longrightarrow> u0 = uc))"
proof -
  obtain u0 where u0: "(if uc_unused_ptr uc = 0 then cache_full now uc else Some uc) = Some u0" "shrinks uc u0"
    "uc_unused_ptr uc \<noteq> 0 \<longrightarrow> u0 = uc" "uc_purge_lru uc \<and> uc_lru_head uc \<noteq> 0 \<longrightarrow> uc_unused_ptr uc \<noteq> 0 \<or> uc_unused_ptr u0 \<noteq> 0"
    using cache_full_ok [OF assms(1), of now] shrinks_refl [OF assms(1)] by (cases "uc_unused_ptr uc = 0") auto
  have i0: "cache_inv u0" and sub: "live u0 \<subseteq> live uc" and su: "setup_of u0 = setup_of uc"
    and eu: "\<And>j. j \<in> live u0 \<Longrightarrow> entry_of u0 j = entry_of uc j" using u0(2) by (simp_all add: shrinks_def)
  note s0 = setup_eqD [OF su]
  have nr: "\<not> set_refused key val flags u0" using assms(2) s0 by (simp add: set_refused_def)
  have fresh: "key_of u0 j \<noteq> key" if "j \<in> live u0" for j using assms(4) sub that entry_eqD(8) [OF eu [OF that]] by auto
  note inv = cache_invD [OF i0]
  note dim = inv(1) [unfolded dims_inv_def]
  show ?thesis
  proof (cases "uc_unused_ptr u0")
    case 0
    then have "set_new now key val expires flags uc = Some (None, u0)" using u0(1) by (simp add: set_new_def)
    moreover have "uc_unused_ptr uc = 0" using 0 u0(2) by (simp add: shrinks_def)
    moreover from this have "uc_purge_lru uc \<longrightarrow> uc_max_items uc = 1" using full_lru [OF assms(1)] 0 u0(4) by fastforce
    ultimately show ?thesis using u0(2) by auto
  next
    case (Suc p)
    define index where "index = uc_unused_stack u0 ! Suc p"
    define u1 where "u1 = u0\<lparr>uc_unused_ptr := p\<rparr>"
    define n where "n = needed_blocks (uc_blocksize u0) (length val)"
    note pop = unused_pop [OF i0 Suc index_def]
    have vl: "0 < length val" "length val \<le> uc_max_item_size u0" using nr by (simp_all add: set_refused_def)
    have sn: "set_new now key val expires flags uc = do {
        (fb, u2) \<leftarrow> (case uc_bitmap u1 of None \<Rightarrow> Some (index, u1) | Some bm \<Rightarrow> claim_blocks (length val) u1 bm);
        (if uc_bitmap u1 \<noteq> None \<and> fb = no_block then do {
           u3 \<leftarrow> set_item index (\<lambda>it. it\<lparr>ci_first_block := no_block\<rparr>) (u2\<lparr>uc_unused_ptr := uc_unused_ptr u2 + 1\<rparr>);
           map_option (Pair None) (cache_full now u3)
         } else map_option (\<lambda>(e, u). (Some e, u)) (fill_item now key val expires flags index fb u2)) }"
      unfolding set_new_def u0(1) index_def u1_def using Suc pop(4) by (simp add: Let_def)
    have fill: ?thesis if sf: "set_new now key val expires flags uc = map_option (\<lambda>(e, u). (Some e, u)) (fill_item now key val expires flags index fb u2)"
      and ff: "\<exists>e u. fill_item now key val expires flags index fb u2 = Some (e, u) \<and>
        stores u0 u index key (stored flags (uc_math_initial u0) val) flags" for fb u2
    proof -
      obtain e u where u: "fill_item now key val expires flags index fb u2 = Some (e, u)"
        "stores u0 u index key (stored flags (uc_math_initial u0) val) flags" using ff by blast
      then show ?thesis using sf u0(2,3) s0(11) pop(1)
        by (intro exI [of _ "Some e"] exI [of _ u] exI [of _ u0]) auto
    qed
    show ?thesis
    proof (cases "uc_bitmap u0")
      case None
      then have sz: "length val \<le> uc_blocksize u0" using vl inv(6) by (simp add: block_inv_def)
      have bs: "0 < uc_blocksize u0" using dim by blast
      have n: "n = 1" unfolding n_def by (rule block_one [OF bs vl(1) sz])
      have one: "run_of u0 j = {j}" if "j \<in> live u0" for j
      proof -
        have "fld ci_first_block u0 j = j" "0 < fld ci_valsize u0 j" "fld ci_valsize u0 j \<le> uc_blocksize u0"
          using inv(6) None that by (simp_all add: block_inv_def)
        then show ?thesis using block_one [of "uc_blocksize u0" "fld ci_valsize u0 j"] dim by (auto simp: run_of_def)
      qed
      have u1e: "u1 = u0\<lparr>uc_unused_ptr := p, uc_bitmap := None, uc_bitmap_pos := uc_bitmap_pos u0\<rparr>"
        using None by (simp add: u1_def)
      have "\<exists>e u. fill_item now key val expires flags index index u1 = Some (e, u) \<and>
          stores u0 u index key (stored flags (uc_math_initial u0) val) flags"
        by (rule fill_item_ok [OF i0 Suc index_def u1e _ n_def])
          (use None n one pop dim nr assms(3) fresh in \<open>auto simp: u1_def\<close>)
      moreover have "set_new now key val expires flags uc =
          map_option (\<lambda>(e, u). (Some e, u)) (fill_item now key val expires flags index index u1)"
        using sn None by (simp add: u1_def)
      ultimately show ?thesis using fill by blast
    next
      case (Some bm)
      have m: "map_inv (uc_blocks u1) (uc_bitmap_pos u1) (\<Union>j \<in> live u0. run_of u0 j) bm"
        using inv(6) Some by (simp add: block_inv_def u1_def)
      have n': "n = needed_blocks (uc_blocksize u1) (length val)" by (simp add: n_def u1_def)
      have d1: "0 < uc_blocksize u1" "uc_blocks u1 < 2 ^ 61" using dim by (simp_all add: u1_def)
      from claim_ok [OF m d1(1) vl(1) d1(2) n'] show ?thesis
      proof
        assume c: "claim_blocks (length val) u1 bm = Some (no_block, u1)"
        have ix: "index < length (uc_items u0)" using pop(3) dim by simp
        have bck: "u1\<lparr>uc_unused_ptr := uc_unused_ptr u1 + 1\<rparr> = u0" using Suc by (simp add: u1_def)
        obtain u3 where u3: "set_item index (\<lambda>it. it\<lparr>ci_first_block := no_block\<rparr>) u0 = Some u3" using set_item_some ix by blast
        have "cache_inv u3 \<and> live u3 = live u0 \<and> setup_of u3 = setup_of u0 \<and> uc_data u3 = uc_data u0 \<and>
            (\<forall>j. j \<noteq> index \<longrightarrow> entry_of u3 j = entry_of u0 j) \<and> key_of u3 = key_of u0 \<and> (\<forall>j \<in> live u0. value_of u3 j = value_of u0 j)"
          by (rule inv_item [OF i0 u3]) (use pop(1) in simp_all)
        then have s3: "shrinks u0 u3" using pop(1) set_item_parts(7) [OF u3] by (auto simp: shrinks_def)
        obtain u where u: "cache_full now u3 = Some u" "shrinks u3 u" using cache_full_ok shrinksD(1) [OF s3] by blast
        have "set_new now key val expires flags uc = Some (None, u)"
          using sn c u3 u(1) Some bck by (simp add: u1_def)
        then show ?thesis using shrinks_trans [OF u0(2) shrinks_trans [OF s3 u(2)]] Some s0(10) by auto
      next
        assume "\<exists>r bm' q. claim_blocks (length val) u1 bm = Some (r, u1\<lparr>uc_bitmap := Some bm', uc_bitmap_pos := q\<rparr>) \<and> r \<noteq> no_block \<and>
          r + n \<le> uc_blocks u1 \<and> {r ..< r + n} \<inter> (\<Union>j \<in> live u0. run_of u0 j) = {} \<and>
          map_inv (uc_blocks u1) q ((\<Union>j \<in> live u0. run_of u0 j) \<union> {r ..< r + n}) bm'"
        then obtain r bm' q where c: "claim_blocks (length val) u1 bm = Some (r, u1\<lparr>uc_bitmap := Some bm', uc_bitmap_pos := q\<rparr>)"
          "r \<noteq> no_block" "r + n \<le> uc_blocks u1" "{r ..< r + n} \<inter> (\<Union>j \<in> live u0. run_of u0 j) = {}"
          "map_inv (uc_blocks u1) q ((\<Union>j \<in> live u0. run_of u0 j) \<union> {r ..< r + n}) bm'" by blast
        let ?u2 = "u1\<lparr>uc_bitmap := Some bm', uc_bitmap_pos := q\<rparr>"
        have u2e: "?u2 = u0\<lparr>uc_unused_ptr := p, uc_bitmap := Some bm', uc_bitmap_pos := q\<rparr>" by (simp add: u1_def)
        have "\<exists>e u. fill_item now key val expires flags index r ?u2 = Some (e, u) \<and>
            stores u0 u index key (stored flags (uc_math_initial u0) val) flags"
          by (rule fill_item_ok [OF i0 Suc index_def u2e _ n_def])
            (use Some c nr assms(3) fresh in \<open>auto simp: u1_def\<close>)
        moreover have "set_new now key val expires flags uc =
            map_option (\<lambda>(e, u). (Some e, u)) (fill_item now key val expires flags index r ?u2)"
          using sn c(1,2) Some by (simp add: u1_def)
        ultimately show ?thesis using fill by blast
      qed
    qed
  qed
qed

end
