(* ===== verification/Upsgi_CacheMap.thy ===== *)
theory Upsgi_CacheMap
  imports Upsgi_CacheStore
begin

text \<open>
  The cache as a map from keys to values.  An update of an item keeps the invariant (\<open>set_update_ok\<close>), and
  \<open>upsgi_cache_set2\<close> as a whole either stores the value under its key or leaves a part of the map behind
  (\<open>set2_map\<close>).
\<close>

section \<open>Updating an item\<close>

lemma restore_ok:
  assumes "cache_inv u1" "index \<in> live u1" "setup_of u = setup_of u1"
    "entry_of u = (entry_of u1)(index := (fld ci_flags u1 index, fld ci_keysize u1 index, fld ci_hash u1 index, length x, fb,
       fld ci_expires u1 index, fld ci_key u1 index))"
    "fld ci_next u = fld ci_next u1" "fld ci_prev u = fld ci_prev u1" "fld ci_lru_next u = fld ci_lru_next u1" "fld ci_lru_prev u = fld ci_lru_prev u1"
    "uc_hashtable u = uc_hashtable u1" "uc_lru_head u = uc_lru_head u1" "uc_lru_tail u = uc_lru_tail u1" "uc_unused_stack u = uc_unused_stack u1"
    "uc_unused_ptr u = uc_unused_ptr u1" "uc_n_items u = uc_n_items u1" "length (uc_items u) = length (uc_items u1)"
    and "mem_write (uc_data u1) (fb * uc_blocksize u1) x = Some (uc_data u)" "n = needed_blocks (uc_blocksize u1) (length x)" "x \<noteq> []"
    "fb + n \<le> uc_blocks u1" "\<And>j. j \<in> live u1 - {index} \<Longrightarrow> {fb ..< fb + n} \<inter> run_of u1 j = {}"
    "uc_bitmap u = None \<Longrightarrow> fb = index \<and> length x \<le> uc_blocksize u1"
    "\<And>bm. uc_bitmap u = Some bm \<Longrightarrow> map_inv (uc_blocks u1) (uc_bitmap_pos u) ((\<Union>j \<in> live u1 - {index}. run_of u1 j) \<union> {fb ..< fb + n}) bm"
  shows "stores u1 u index (key_of u1 index) x (fld ci_flags u1 index)"
proof -
  note inv = cache_invD [OF assms(1)]
  note s = setup_eqD [OF assms(3)]
  have ei: "fld ci_flags u index = fld ci_flags u1 index" "fld ci_valsize u index = length x" "fld ci_first_block u index = fb"
    using fun_cong [OF assms(4), of index] by (auto simp: entry_of_def)
  have eo: "entry_of u j = entry_of u1 j" if "j \<noteq> index" for j using assms(4) that by simp
  have f: "fld ci_keysize u = fld ci_keysize u1" "fld ci_hash u = fld ci_hash u1" "fld ci_key u = fld ci_key u1"
  proof -
    have "fld ci_keysize u j = fld ci_keysize u1 j \<and> fld ci_hash u j = fld ci_hash u1 j \<and> fld ci_key u j = fld ci_key u1 j" for j
      using fun_cong [OF assms(4), of index] entry_eqD [OF eo [of j]] by (cases "j = index") (auto simp: entry_of_def)
    then show "fld ci_keysize u = fld ci_keysize u1" "fld ci_hash u = fld ci_hash u1" "fld ci_key u = fld ci_key u1" by blast+
  qed
  have lv: "live u = live u1" and ky: "key_of u = key_of u1" by (simp_all add: live_def key_of_def fun_eq_iff f s)
  have lv': "live u = insert index (live u1 - {index})" using lv assms(2) by auto
  have bs: "0 < uc_blocksize u1" using inv(1) by (simp add: dims_inv_def)
  have n: "0 < n" "length x \<le> n * uc_blocksize u1" using needed_pos needed_fits bs assms(17,18) by auto
  obtain ch where bk: "bucket_inv u1 ch" using inv(2) by blast
  have "bucket_inv u ch" using bk chained_cong [of u u1 ch] by (simp add: bucket_inv_def assms(5,6,9,15) f s lv)
  moreover have "dims_inv u"
    by (rule dims_same [OF inv(1) assms(3)]) (simp_all add: assms(12,15) mem_write_length [OF assms(16)] f)
  moreover have "keys_inv u" using inv(3) by (simp add: keys_inv_def lv ky f s)
  moreover have "free_inv u" "count_inv u" using inv(4,5) by (simp_all add: free_inv_def count_inv_def assms(12-14) s lv)
  moreover have "block_inv u"
    by (rule block_more [OF inv(6) _ _ lv' assms(3) _ _ assms(19,20)]) (use eo ei assms(17,18,21,22) s in \<open>auto simp: run_of_def\<close>)
  moreover have "lru_inv u" using inv(7) ranked_cong [of u u1] by (simp add: lru_inv_def s lv assms(7,8,10,11,15))
  ultimately have "cache_inv u" by (auto simp: cache_inv_def)
  moreover have "value_of u index = x" using mem_write_there [OF assms(16)] ei s by (simp add: value_of_def)
  moreover have "value_of u j = value_of u1 j" if j: "j \<in> live u1 - {index}" for j
    by (rule value_kept [OF assms(16) n(2) eo assms(3) bs assms(20) [OF j] n(1)]) (use inv(6) j in \<open>auto simp: block_inv_def\<close>)
  ultimately show ?thesis using lv assms(2,3) eo ky ei by (auto simp: stores_def)
qed

text \<open>The first half of an update changes the expiry time and the place in the least-recently-used list only.\<close>

definition touched :: "upsgi_cache \<Rightarrow> upsgi_cache \<Rightarrow> nat \<Rightarrow> bool" where
  "touched uc u i \<longleftrightarrow> cache_inv u \<and> live u = live uc \<and> setup_of u = setup_of uc \<and> uc_data u = uc_data uc \<and>
     (\<forall>j. j \<noteq> i \<longrightarrow> entry_of u j = entry_of uc j) \<and> key_of u = key_of uc \<and> fld ci_flags u = fld ci_flags uc \<and>
     fld ci_first_block u = fld ci_first_block uc \<and> fld ci_valsize u = fld ci_valsize uc \<and> uc_unused_ptr u = uc_unused_ptr uc"

lemma touched_refl: "cache_inv uc \<Longrightarrow> touched uc uc i"
  by (simp add: touched_def)

lemma touched_value: "touched uc u i \<Longrightarrow> value_of u = value_of uc"
  using setup_eqD(3) [of u uc] by (simp add: touched_def value_of_def [abs_def])

lemma expiry_ok:
  assumes "cache_inv uc" "index \<in> live uc"
  shows "\<exists>e u. (if bit flags FLAG_FIXEXPIRE then Some (expires, uc)
        else do {
          (e, u) \<leftarrow>
            (if uc_purge_lru uc then do { u \<leftarrow> lru_remove_item index uc; map_option (Pair expires) (lru_add_item index u) }
             else if expires \<noteq> 0 \<and> \<not> bit flags FLAG_ABSEXPIRE then
               (let e = size_add expires now in Some (e, note_expiry e uc))
             else Some (expires, uc));
          map_option (Pair e) (set_item index (\<lambda>it. it\<lparr>ci_expires := e\<rparr>) u)
        }) = Some (e, u) \<and> touched uc u index"
proof (cases "bit flags FLAG_FIXEXPIRE")
  case True
  then show ?thesis using touched_refl [OF assms(1)] by auto
next
  case False
  obtain e u where u: "(if uc_purge_lru uc then do { u \<leftarrow> lru_remove_item index uc; map_option (Pair expires) (lru_add_item index u) }
             else if expires \<noteq> 0 \<and> \<not> bit flags FLAG_ABSEXPIRE then
               (let e = size_add expires now in Some (e, note_expiry e uc))
             else Some (expires, uc)) = Some (e, u)" "touched uc u index"
  proof (cases "uc_purge_lru uc")
    case True
    obtain u1 u2 l where m: "lru_remove_item index uc = Some u1" "lru_add_item index u1 = Some u2" "unranked u2 = unranked uc"
      "ranked u2 l" "set l = live uc" using lru_move [OF assms(1) True assms(2)] by (auto simp: bind_eq_Some_conv)
    note i = inv_unranked [OF assms(1) m(3), of l]
    have "touched uc u2 index" using i m(4,5) unranked_flds [OF m(3)] by (simp add: touched_def key_of_def [abs_def])
    then show ?thesis using that [of expires u2] True m by simp
  next
    case False
    have "core (note_expiry e uc) = core uc" for e by (simp add: note_expiry_def core_def)
    then have "touched uc (note_expiry e uc) index" for e
      using assms(1) core_eqD [of "note_expiry e uc" uc] core_views(3) [of "note_expiry e uc"] core_views(3) [of uc]
      by (simp add: touched_def) (simp add: note_expiry_def)
    with touched_refl [OF assms(1)] False that [of expires uc] that [of "size_add expires now" "note_expiry (size_add expires now) uc"]
    show ?thesis by (cases "expires \<noteq> 0 \<and> \<not> bit flags FLAG_ABSEXPIRE") (auto simp: Let_def)
  qed
  have iu: "cache_inv u" "live u = live uc" using u(2) by (simp_all add: touched_def)
  then have "index < length (uc_items u)" using assms(2) cache_invD(1) [OF iu(1)] by (auto simp: live_def dims_inv_def)
  then obtain u1 where u1: "set_item index (\<lambda>it. it\<lparr>ci_expires := e\<rparr>) u = Some u1" using set_item_some by blast
  have "cache_inv u1 \<and> live u1 = live u \<and> setup_of u1 = setup_of u \<and> uc_data u1 = uc_data u \<and>
    (\<forall>j. j \<noteq> index \<longrightarrow> entry_of u1 j = entry_of u j) \<and> key_of u1 = key_of u \<and> (\<forall>j \<in> live u. value_of u1 j = value_of u j)"
    by (rule inv_item [OF iu(1) u1]) simp_all
  moreover have "fld ci_flags u1 = fld ci_flags u" "fld ci_first_block u1 = fld ci_first_block u" "fld ci_valsize u1 = fld ci_valsize u"
    by (rule set_item_keep [OF u1], simp)+
  ultimately have "touched uc u1 index" using u(2) set_item_parts(7) [OF u1] by (simp add: touched_def)
  then show ?thesis using False u(1) u1 by simp
qed


lemma touched_more:
  "shrinks u1 u \<Longrightarrow> touched uc u1 i \<Longrightarrow> cache_inv u \<and> live u \<subseteq> live uc \<and> setup_of u = setup_of uc \<and>
     (\<forall>j \<in> live u. key_of u j = key_of uc j \<and> value_of u j = value_of uc j \<and> fld ci_flags u j = fld ci_flags uc j)"
proof -
  assume s: "shrinks u1 u" and t: "touched uc u1 i"
  have "key_of u j = key_of uc j \<and> value_of u j = value_of uc j \<and> fld ci_flags u j = fld ci_flags uc j" if "j \<in> live u" for j
  proof -
    have e: "entry_of u j = entry_of u1 j" and su: "setup_of u = setup_of u1" and d: "uc_data u = uc_data u1"
      using s that by (simp_all add: shrinks_def)
    have "value_of u j = value_of u1 j" unfolding value_of_def entry_eqD [OF e] setup_eqD [OF su] d ..
    then show ?thesis using entry_eqD [OF e] touched_value [OF t] t by (simp add: touched_def)
  qed
  then show ?thesis using s t by (auto simp: shrinks_def touched_def)
qed

lemma release_ok:
  assumes "cache_inv u1" "index \<in> live u1" "map_inv (uc_blocks u1) q ((\<Union>j \<in> live u1. run_of u1 j) \<union> new) bm"
    "new \<inter> (\<Union>j \<in> live u1. run_of u1 j) = {}"
  shows "\<exists>bm2. cache_unmark_blocks bm (uc_blocksize u1) (fld ci_first_block u1 index) (fld ci_valsize u1 index) = Some bm2 \<and>
    map_inv (uc_blocks u1) q ((\<Union>j \<in> live u1 - {index}. run_of u1 j) \<union> new) bm2"
proof -
  note inv = cache_invD [OF assms(1)]
  define n where "n = needed_blocks (uc_blocksize u1) (fld ci_valsize u1 index)"
  define f where "f = fld ci_first_block u1 index"
  have n: "0 < n" unfolding n_def by (rule needed_pos) (use inv(1,6) assms(2) in \<open>simp_all add: dims_inv_def block_inv_def\<close>)
  have r: "run_of u1 index = {f ..< f + n}" by (simp add: run_of_def f_def n_def)
  have run: "run_of u1 index \<subseteq> {..< uc_blocks u1}" using inv(6) assms(2) by (simp add: block_inv_def)
  have "f + n - 1 \<in> run_of u1 index" using n r by simp
  then have "f + n \<le> uc_blocks u1" using run n by fastforce
  then have l: "f + n \<le> 8 * length bm" "length bm < 2 ^ 60" using assms(3) inv(1) by (simp_all add: map_inv_def dims_inv_def)
  obtain bm2 where b: "cache_unmark_blocks bm (uc_blocksize u1) f (fld ci_valsize u1 index) = Some bm2" "length bm2 = length bm"
    "\<forall>k. used bm2 k \<longleftrightarrow> used bm k \<and> \<not> (f \<le> k \<and> k < f + n)" using unmark_blocks [OF n n_def l] by blast
  have dis: "run_of u1 index \<inter> run_of u1 j = {}" if "j \<in> live u1" "j \<noteq> index" for j
    using inv(6) assms(2) that by (simp add: block_inv_def)
  have "used bm2 k \<longleftrightarrow> uc_blocks u1 \<le> k \<or> k \<in> (\<Union>j \<in> live u1 - {index}. run_of u1 j) \<union> new" if "k < 8 * length bm" for k
  proof -
    have "used bm k \<longleftrightarrow> uc_blocks u1 \<le> k \<or> k \<in> (\<Union>j \<in> live u1. run_of u1 j) \<union> new" using assms(3) that by (simp add: map_inv_def)
    moreover have "f \<le> k \<and> k < f + n \<longleftrightarrow> k \<in> run_of u1 index" by (simp add: r)
    ultimately show ?thesis using b(3) dis run assms(2,4) by fastforce
  qed
  then have "map_inv (uc_blocks u1) q ((\<Union>j \<in> live u1 - {index}. run_of u1 j) \<union> new) bm2" using assms(3) b(2) by (simp add: map_inv_def)
  with b(1) show ?thesis by (auto simp: f_def)
qed

lemma finish_ok:
  assumes "cache_inv u1" "index \<in> live u1" "u2 = u1\<lparr>uc_bitmap := b, uc_bitmap_pos := q,
      uc_items := (uc_items u1)[index := (uc_items u1 ! index)\<lparr>ci_first_block := fb\<rparr>]\<rparr>" "(b = None) = (uc_bitmap u1 = None)"
    "\<not> set_refused key val flags u1" "no_trap flags" "n = needed_blocks (uc_blocksize u1) (length val)"
    "fb + n \<le> uc_blocks u1" "\<And>j. j \<in> live u1 - {index} \<Longrightarrow> {fb ..< fb + n} \<inter> run_of u1 j = {}"
    "b = None \<Longrightarrow> fb = index"
    "\<And>bm. b = Some bm \<Longrightarrow> map_inv (uc_blocks u1) q ((\<Union>j \<in> live u1 - {index}. run_of u1 j) \<union> {fb ..< fb + n}) bm"
  shows "\<exists>u. do { u3 \<leftarrow> store_value False flags val fb u2; set_item index (\<lambda>it. it\<lparr>ci_valsize := length val\<rparr>) u3 } = Some u \<and>
    stores u1 u index (key_of u1 index) (stored flags (rd64 (take 8 (drop (fb * uc_blocksize u1) (uc_data u1)))) val) (fld ci_flags u1 index)"
proof -
  note dim = cache_invD(1) [OF assms(1), unfolded dims_inv_def]
  define x where "x = stored flags (rd64 (take 8 (drop (fb * uc_blocksize u1) (uc_data u1)))) val"
  have xl: "length x = length val" unfolding x_def by (rule stored_fits [OF assms(5)])
  have vl: "val \<noteq> []" "length val \<le> uc_max_item_size u1" "bit flags FLAG_MATH \<Longrightarrow> length val = 8"
    using assms(5) by (auto simp: set_refused_def)
  have ix: "index < length (uc_items u1)" using assms(2) dim by (simp add: live_def)
  have "(fb + n) * uc_blocksize u1 \<le> uc_blocks u1 * uc_blocksize u1" using assms(8) by (rule mult_le_mono1)
  moreover have "0 < uc_blocksize u1" using dim by blast
  ultimately have "fb * uc_blocksize u1 + length val \<le> length (uc_data u1)"
    using needed_fits [of "uc_blocksize u1" "length val"] dim assms(7) by (simp add: add_mult_distrib)
  then have fits: "fb * uc_blocksize u2 + length val \<le> length (uc_data u2)" by (simp add: assms(3))
  obtain d where d: "store_value False flags val fb u2 = Some (u2\<lparr>uc_data := d\<rparr>)"
    "mem_write (uc_data u1) (fb * uc_blocksize u1) x = Some d"
    using store_ok [OF assms(6) vl(3) fits refl, of False] by (auto simp: x_def assms(3))
  define it where "it = (uc_items u1 ! index)\<lparr>ci_first_block := fb, ci_valsize := length val\<rparr>"
  define u where "u = u1\<lparr>uc_bitmap := b, uc_bitmap_pos := q, uc_data := d, uc_items := (uc_items u1)[index := it]\<rparr>"
  have op: "do { u3 \<leftarrow> store_value False flags val fb u2; set_item index (\<lambda>it. it\<lparr>ci_valsize := length val\<rparr>) u3 } = Some u"
    using d(1) ix by (simp add: set_item_def assms(3) u_def it_def)
  have fu: "fld f u = (fld f u1)(index := f it)" for f :: "upsgi_cache_item \<Rightarrow> 'x"
    using ix by (auto simp: u_def fld_def fun_eq_iff)
  have same: "f it = f (uc_items u1 ! index) \<Longrightarrow> fld f u = fld f u1" for f :: "upsgi_cache_item \<Rightarrow> 'x"
    using ix by (simp add: fu) (auto simp: fld_def fun_eq_iff)
  have fs: "fld ci_flags u = fld ci_flags u1" "fld ci_keysize u = fld ci_keysize u1" "fld ci_hash u = fld ci_hash u1"
    "fld ci_expires u = fld ci_expires u1" "fld ci_key u = fld ci_key u1" "fld ci_next u = fld ci_next u1" "fld ci_prev u = fld ci_prev u1"
    "fld ci_lru_next u = fld ci_lru_next u1" "fld ci_lru_prev u = fld ci_lru_prev u1"
    by (rule same, simp add: it_def)+
  have en: "entry_of u = (entry_of u1)(index := (fld ci_flags u1 index, fld ci_keysize u1 index, fld ci_hash u1 index, length x, fb,
       fld ci_expires u1 index, fld ci_key u1 index))"
    by (simp add: fun_eq_iff entry_of_def fs xl) (simp add: fu it_def)
  have small: "length x \<le> uc_blocksize u1" if "b = None"
    using that assms(4) vl(2) cache_invD(6) [OF assms(1)] by (simp add: block_inv_def xl)
  have xn: "x \<noteq> []" using xl vl(1) by auto
  have "setup_of u = setup_of u1" using assms(4) by (simp add: setup_of_def u_def)
  from restore_ok [OF assms(1,2) this en fs(6-9)] have "stores u1 u index (key_of u1 index) x (fld ci_flags u1 index)"
    using d(2) assms(7-11) xl xn small by (simp add: u_def)
  with op show ?thesis by (auto simp: x_def)
qed


lemma set_update_ok:
  assumes "cache_inv uc" "index \<in> live uc" "\<not> set_refused key val flags uc" "no_trap flags"
  shows "\<exists>r u. set_update now index val expires flags uc = Some (r, u) \<and>
    (case r of
       None \<Rightarrow> uc_bitmap uc \<noteq> None \<and> (\<exists>u1. touched uc u1 index \<and> shrinks u1 u)
     | Some e \<Rightarrow> (\<exists>u1 old. touched uc u1 index \<and> stores u1 u index (key_of uc index) (stored flags old val) (fld ci_flags uc index) \<and>
         (uc_bitmap uc = None \<longrightarrow> old = rd64 (take 8 (drop (index * uc_blocksize uc) (uc_data uc))))))"
proof -
  obtain e u1 where u1: "(if bit flags FLAG_FIXEXPIRE then Some (expires, uc)
        else do {
          (e, u) \<leftarrow>
            (if uc_purge_lru uc then do { u \<leftarrow> lru_remove_item index uc; map_option (Pair expires) (lru_add_item index u) }
             else if expires \<noteq> 0 \<and> \<not> bit flags FLAG_ABSEXPIRE then
               (let e = size_add expires now in Some (e, note_expiry e uc))
             else Some (expires, uc));
          map_option (Pair e) (set_item index (\<lambda>it. it\<lparr>ci_expires := e\<rparr>) u)
        }) = Some (e, u1)" and t: "touched uc u1 index" using expiry_ok [OF assms(1,2)] by blast
  have i1: "cache_inv u1" and l1: "index \<in> live u1" and su: "setup_of u1 = setup_of uc" using t assms(2) by (simp_all add: touched_def)
  note s1 = setup_eqD [OF su]
  have nr: "\<not> set_refused key val flags u1" using assms(3) s1 by (simp add: set_refused_def)
  note inv = cache_invD [OF i1] note dim = inv(1) [unfolded dims_inv_def]
  have ix: "index < length (uc_items u1)" "item_at u1 index = Some (uc_items u1 ! index)"
    using l1 dim by (simp_all add: live_def item_at_def)
  have ky: "key_of u1 index = key_of uc index" "fld ci_flags u1 index = fld ci_flags uc index" using t by (simp_all add: touched_def)
  define n where "n = needed_blocks (uc_blocksize u1) (length val)"
  have vl: "0 < length val" "length val \<le> uc_max_item_size u1" using nr by (simp_all add: set_refused_def)
  note su_def = set_update_def [of now index val expires flags uc, unfolded u1 bind.bind_lunit prod.case]
  show ?thesis
  proof (cases "uc_bitmap u1")
    case None
    have fb: "ci_first_block (uc_items u1 ! index) = index" using inv(6) None l1 ix(1) by (auto simp: block_inv_def fld_def)
    have bs: "0 < uc_blocksize u1" "length val \<le> uc_blocksize u1" using dim vl inv(6) None by (simp_all add: block_inv_def)
    have n1: "n = 1" unfolding n_def by (rule block_one [OF bs(1) vl(1) bs(2)])
    have one: "run_of u1 j = {j}" if "j \<in> live u1" for j
    proof -
      have "fld ci_first_block u1 j = j" "0 < fld ci_valsize u1 j" "fld ci_valsize u1 j \<le> uc_blocksize u1"
        using inv(6) None that by (simp_all add: block_inv_def)
      then show ?thesis using block_one [of "uc_blocksize u1" "fld ci_valsize u1 j"] bs by (auto simp: run_of_def)
    qed
    have same: "u1 = u1\<lparr>uc_bitmap := None, uc_bitmap_pos := uc_bitmap_pos u1,
        uc_items := (uc_items u1)[index := (uc_items u1 ! index)\<lparr>ci_first_block := index\<rparr>]\<rparr>"
    proof -
      have "(uc_items u1 ! index)\<lparr>ci_first_block := index\<rparr> = uc_items u1 ! index" using fb by simp
      then show ?thesis using None by simp
    qed
    have "\<exists>u. do { u3 \<leftarrow> store_value False flags val index u1; set_item index (\<lambda>it. it\<lparr>ci_valsize := length val\<rparr>) u3 } = Some u \<and>
      stores u1 u index (key_of u1 index) (stored flags (rd64 (take 8 (drop (index * uc_blocksize u1) (uc_data u1)))) val) (fld ci_flags u1 index)"
      by (rule finish_ok [OF i1 l1 same _ nr assms(4) n_def]) (use None n1 one ix dim in auto)
    then obtain u3 u where u: "store_value False flags val index u1 = Some u3" "set_item index (\<lambda>it. it\<lparr>ci_valsize := length val\<rparr>) u3 = Some u"
      "stores u1 u index (key_of u1 index) (stored flags (rd64 (take 8 (drop (index * uc_blocksize u1) (uc_data u1)))) val) (fld ci_flags u1 index)"
      by (auto simp: bind_eq_Some_conv)
    have "set_update now index val expires flags uc = Some (Some e, u)"
      unfolding su_def using ix(2) None fb u(1,2) by simp
    moreover have "uc_data u1 = uc_data uc" using t by (simp add: touched_def)
    ultimately show ?thesis using t u(3) ky s1 by auto
  next
    case (Some bm)
    define taken where "taken = (\<Union>j \<in> live u1. run_of u1 j)"
    have m: "map_inv (uc_blocks u1) (uc_bitmap_pos u1) taken bm" using inv(6) Some by (simp add: block_inv_def taken_def)
    have d1: "0 < uc_blocksize u1" "uc_blocks u1 < 2 ^ 61" using dim by simp_all
    from claim_ok [OF m d1(1) vl(1) d1(2) n_def] show ?thesis
    proof
      assume c: "claim_blocks (length val) u1 bm = Some (no_block, u1)"
      obtain u where u: "cache_full now u1 = Some u" "shrinks u1 u" using cache_full_ok [OF i1] by blast
      have "set_update now index val expires flags uc = Some (None, u)" unfolding su_def using ix(2) Some c u(1) by simp
      then show ?thesis using t u(2) Some s1(10) by auto
    next
      assume "\<exists>r bm' q. claim_blocks (length val) u1 bm = Some (r, u1\<lparr>uc_bitmap := Some bm', uc_bitmap_pos := q\<rparr>) \<and> r \<noteq> no_block \<and>
          r + n \<le> uc_blocks u1 \<and> {r ..< r + n} \<inter> taken = {} \<and> map_inv (uc_blocks u1) q (taken \<union> {r ..< r + n}) bm'"
      then obtain r bm' q where c: "claim_blocks (length val) u1 bm = Some (r, u1\<lparr>uc_bitmap := Some bm', uc_bitmap_pos := q\<rparr>)"
        "r \<noteq> no_block" "r + n \<le> uc_blocks u1" "{r ..< r + n} \<inter> taken = {}" "map_inv (uc_blocks u1) q (taken \<union> {r ..< r + n}) bm'" by blast
      obtain bm2 where b2: "cache_unmark_blocks bm' (uc_blocksize u1) (fld ci_first_block u1 index) (fld ci_valsize u1 index) = Some bm2"
        "map_inv (uc_blocks u1) q ((\<Union>j \<in> live u1 - {index}. run_of u1 j) \<union> {r ..< r + n}) bm2"
        using release_ok [OF i1 l1 c(5) [unfolded taken_def] c(4) [unfolded taken_def]] by blast
      define u2 where "u2 = u1\<lparr>uc_bitmap := Some bm2, uc_bitmap_pos := q,
        uc_items := (uc_items u1)[index := (uc_items u1 ! index)\<lparr>ci_first_block := r\<rparr>]\<rparr>"
      have "\<exists>u. do { u3 \<leftarrow> store_value False flags val r u2; set_item index (\<lambda>it. it\<lparr>ci_valsize := length val\<rparr>) u3 } = Some u \<and>
        stores u1 u index (key_of u1 index) (stored flags (rd64 (take 8 (drop (r * uc_blocksize u1) (uc_data u1)))) val) (fld ci_flags u1 index)"
        by (rule finish_ok [OF i1 l1 u2_def _ nr assms(4) n_def]) (use Some c b2 in \<open>auto simp: taken_def\<close>)
      then obtain u3 u where u: "store_value False flags val r u2 = Some u3" "set_item index (\<lambda>it. it\<lparr>ci_valsize := length val\<rparr>) u3 = Some u"
        "stores u1 u index (key_of u1 index) (stored flags (rd64 (take 8 (drop (r * uc_blocksize u1) (uc_data u1)))) val) (fld ci_flags u1 index)"
        by (auto simp: bind_eq_Some_conv)
      have ci: "ci_first_block (uc_items u1 ! index) = fld ci_first_block u1 index" "ci_valsize (uc_items u1 ! index) = fld ci_valsize u1 index"
        using ix(1) by (simp_all add: fld_def)
      let ?c = "u1\<lparr>uc_bitmap := Some bm', uc_bitmap_pos := q\<rparr>"
      obtain c1 where c1: "set_item index (\<lambda>it. it\<lparr>ci_first_block := r\<rparr>) ?c = Some c1" "unmark_item (uc_items u1 ! index) c1 = Some u2"
        using ix b2(1) by (simp add: set_item_def unmark_item_def ci u2_def)
      have "set_update now index val expires flags uc = Some (Some e, u)"
        unfolding su_def using ix Some c(1,2) c1 u(1,2) by simp
      moreover have "uc_bitmap uc \<noteq> None" using Some s1(10) by simp
      ultimately show ?thesis using t u(3) ky
        by (intro exI [of _ "Some e"] exI [of _ u]) (auto intro!: exI [of _ u1])
    qed
  qed
qed


section \<open>The cache as a map\<close>

definition cache_map :: "upsgi_cache \<Rightarrow> char list \<Rightarrow> char list option" where
  "cache_map uc key =
     map_option (value_of uc) (find (\<lambda>i. fld ci_keysize uc i > 0 \<and> key_of uc i = key) [1 ..< uc_max_items uc])"

lemma cache_map_Some:
  assumes "cache_inv uc"
  shows "cache_map uc key = Some v \<longleftrightarrow> (\<exists>i \<in> live uc. key_of uc i = key \<and> value_of uc i = v)"
proof -
  have inj: "inj_on (key_of uc) (live uc)" using cache_invD(3) [OF assms] by (simp add: keys_inv_def)
  let ?P = "\<lambda>i. fld ci_keysize uc i > 0 \<and> key_of uc i = key"
  show ?thesis
  proof (cases "find ?P [1 ..< uc_max_items uc]")
    case None
    then have "cache_map uc key = None" unfolding cache_map_def by simp
    moreover have "\<forall>i \<in> live uc. key_of uc i \<noteq> key" using None by (auto simp: find_None_iff live_def)
    ultimately show ?thesis by simp
  next
    case (Some i)
    then have "i \<in> set [1 ..< uc_max_items uc] \<and> ?P i" by (auto simp: find_Some_iff in_set_conv_nth)
    then have i: "i \<in> live uc" "key_of uc i = key" by (auto simp: live_def)
    then have u: "j = i" if "j \<in> live uc" "key_of uc j = key" for j using that inj_onD [OF inj, of j i] by simp
    have "cache_map uc key = Some (value_of uc i)" unfolding cache_map_def Some by simp
    then show ?thesis using i u by (metis option.inject)
  qed
qed

lemma cache_map_None: "cache_inv uc \<Longrightarrow> cache_map uc key = None \<longleftrightarrow> (\<forall>i \<in> live uc. key_of uc i \<noteq> key)"
  using cache_map_Some by (metis not_None_eq)

lemma shrinks_value: "shrinks uc u \<Longrightarrow> j \<in> live u \<Longrightarrow> key_of u j = key_of uc j \<and> value_of u j = value_of uc j"
  unfolding shrinks_def value_of_def using entry_eqD [of u j uc] setup_eqD [of u uc] by metis

lemma map_le_iff_Some: "m \<subseteq>\<^sub>m n \<longleftrightarrow> (\<forall>k v. m k = Some v \<longrightarrow> n k = Some v)"
  by (auto simp: map_le_def dom_def)

lemma shrinks_map: "cache_inv uc \<Longrightarrow> shrinks uc u \<Longrightarrow> cache_map u \<subseteq>\<^sub>m cache_map uc"
proof (rule map_le_iff_Some [THEN iffD2], intro allI impI)
  fix k v assume s: "cache_inv uc" "shrinks uc u" and "cache_map u k = Some v"
  then obtain i where "i \<in> live u" "key_of u i = k" "value_of u i = v" using cache_map_Some [OF shrinksD(1) [OF s(2)]] by blast
  then show "cache_map uc k = Some v"
    using s shrinks_value [OF s(2)] cache_map_Some [OF s(1)] by (auto simp: shrinks_def)
qed

lemma stores_map:
  assumes "cache_inv uc" "stores uc u i key x flags" "i \<notin> live uc \<and> (\<forall>j \<in> live uc. key_of uc j \<noteq> key) \<or> i \<in> live uc \<and> key_of uc i = key"
  shows "cache_map u = (cache_map uc)(key \<mapsto> x)"
proof -
  note st = assms(2) [unfolded stores_def]
  have iu: "cache_inv u" using st by blast
  have "cache_map u k = Some v \<longleftrightarrow> ((cache_map uc)(key \<mapsto> x)) k = Some v" for k v
  proof (cases "k = key")
    case True
    have "j = i" if "j \<in> live u" "key_of u j = key" for j
    proof -
      have "inj_on (key_of u) (live u)" "i \<in> live u" "key_of u i = key" using cache_invD(3) [OF iu] st by (auto simp: keys_inv_def)
      then show ?thesis using inj_onD [of "key_of u" "live u" j i] that by simp
    qed
    moreover have "i \<in> live u" "key_of u i = key" "value_of u i = x" using st by auto
    ultimately have "(\<exists>j \<in> live u. key_of u j = key \<and> value_of u j = v) \<longleftrightarrow> v = x" by blast
    then show ?thesis using cache_map_Some [OF iu] True by auto
  next
    case False
    have "(\<exists>j \<in> live u. key_of u j = k \<and> value_of u j = v) \<longleftrightarrow> (\<exists>j \<in> live uc. key_of uc j = k \<and> value_of uc j = v)"
    proof -
      have old: "key_of u j = key_of uc j \<and> value_of u j = value_of uc j" if "j \<in> live uc" "j \<noteq> i" for j
      proof -
        have "entry_of u j = entry_of uc j" "value_of u j = value_of uc j" using that st by auto
        then show ?thesis using entry_eqD(8) by blast
      qed
      have lv: "live u = insert i (live uc)" "key_of u i = key" using st by blast+
      have "i \<in> live uc \<Longrightarrow> key_of uc i = key" using assms(3) by blast
      with False old lv show ?thesis by (metis insert_iff)
    qed
    then show ?thesis using False cache_map_Some [OF iu] cache_map_Some [OF assms(1)] by auto
  qed
  then show ?thesis by (intro ext) (metis not_None_eq)
qed


section \<open>The operations on the map\<close>

text \<open>A lookup either answers the item of the key, or there is none, or it has expired and is deleted.\<close>

lemma drop_key:
  assumes "cache_inv uc" "shrinks uc u" "\<And>i. i \<in> live uc - live u \<Longrightarrow> key_of uc i = key" "\<And>i. i \<in> live u \<Longrightarrow> key_of u i \<noteq> key"
  shows "cache_map u = (cache_map uc)(key := None)"
proof
  fix k
  have iu: "cache_inv u" using assms(2) by (rule shrinksD)
  show "cache_map u k = ((cache_map uc)(key := None)) k"
  proof (cases "k = key")
    case True
    then show ?thesis using assms(4) cache_map_None [OF iu] by simp
  next
    case False
    have "cache_map u k = Some v" if "cache_map uc k = Some v" for v
    proof -
      obtain i where i: "i \<in> live uc" "key_of uc i = k" "value_of uc i = v" using \<open>cache_map uc k = Some v\<close> cache_map_Some [OF assms(1)] by blast
      then have "i \<in> live u" using assms(3) False by blast
      then show ?thesis using i shrinks_value [OF assms(2)] cache_map_Some [OF iu] by blast
    qed
    moreover have "cache_map uc k = Some v" if "cache_map u k = Some v" for v
      using shrinks_map [OF assms(1,2)] that by (simp add: map_le_iff_Some)
    ultimately show ?thesis using False by (metis fun_upd_apply not_None_eq)
  qed
qed

lemma get_index_map:
  assumes "cache_inv uc"
  obtains r u where "upsgi_cache_get_index now key uc = Some (r, u)" "shrinks uc u"
    "r = 0 \<Longrightarrow> cache_map u = (cache_map uc)(key := None) \<and> (\<forall>i \<in> live u. key_of u i \<noteq> key) \<and> (cache_map uc key \<noteq> None \<longrightarrow> uc_unused_ptr u \<noteq> 0)"
    "r \<noteq> 0 \<Longrightarrow> r \<in> live uc \<and> key_of uc r = key \<and> u = uc \<and> cache_map uc key = Some (value_of uc r)"
    "r = 0 \<Longrightarrow> cache_map uc key \<noteq> None \<Longrightarrow> uc_lazy_expire uc"
proof -
  obtain r u where ru: "upsgi_cache_get_index now key uc = Some (r, u)" "shrinks uc u"
    "r = 0 \<and> (\<forall>i \<in> live u. key_of u i \<noteq> key) \<or> r \<in> live u \<and> key_of u r = key \<and> u = uc"
    "\<forall>i \<in> live uc - live u. key_of uc i = key \<and> uc_lazy_expire uc \<and> fld ci_expires uc i \<noteq> 0 \<and> fld ci_expires uc i \<le> now"
    using get_index_ok [OF assms, of now key] by blast
  have iu: "cache_inv u" using ru(2) by (rule shrinksD)
  have gone: "cache_map u = (cache_map uc)(key := None)" if "\<forall>i \<in> live u. key_of u i \<noteq> key"
    by (rule drop_key [OF assms ru(2)]) (use ru(4) that in auto)
  have room: "uc_unused_ptr u \<noteq> 0 \<and> uc_lazy_expire uc" if none: "\<forall>i \<in> live u. key_of u i \<noteq> key" and some: "cache_map uc key \<noteq> None"
  proof -
    obtain i where i: "i \<in> live uc" "key_of uc i = key" using some unfolding cache_map_None [OF assms] by blast
    have "key_of u i = key" if "i \<in> live u" using shrinks_value [OF ru(2) that] i(2) by simp
    then have "i \<notin> live u" using none by blast
    moreover have "i \<in> {1 ..< uc_max_items u}" using i(1) shrinksD(2) [OF ru(2)] by (auto simp: live_def)
    ultimately have "i \<in> set (take (uc_unused_ptr u) (tl (uc_unused_stack u)))" using cache_invD(4) [OF iu] by (auto simp: free_inv_def)
    then have "uc_unused_ptr u \<noteq> 0" by (cases "uc_unused_ptr u") auto
    with ru(4) i(1) \<open>i \<notin> live u\<close> show ?thesis by blast
  qed
  show ?thesis
  proof (rule that [OF ru(1,2)])
    assume "r = 0"
    then have none: "\<forall>i \<in> live u. key_of u i \<noteq> key" using ru(3) by (auto simp: live_def)
    show "cache_map u = (cache_map uc)(key := None) \<and> (\<forall>i \<in> live u. key_of u i \<noteq> key) \<and> (cache_map uc key \<noteq> None \<longrightarrow> uc_unused_ptr u \<noteq> 0)"
      using gone none room by blast
    show "cache_map uc key \<noteq> None \<Longrightarrow> uc_lazy_expire uc" using room none by blast
  next
    assume "r \<noteq> 0"
    then show "r \<in> live uc \<and> key_of uc r = key \<and> u = uc \<and> cache_map uc key = Some (value_of uc r)"
      using ru(3) cache_map_Some [OF assms] by blast
  qed
qed

lemma cache_map_core: "core u = core uc \<Longrightarrow> cache_map u = cache_map uc"
proof -
  assume c: "core u = core uc"
  have "key_of u = key_of uc" using core_views(3) [of u] core_views(3) [of uc] c by simp
  moreover have "fld ci_keysize u = fld ci_keysize uc" by (rule core_eqD [OF c])
  ultimately show ?thesis using core_eqD [OF c] setup_eqD(6) [of u uc] by (simp add: cache_map_def [abs_def])
qed

lemma count_miss_core: "core (count_miss uc) = core uc" by (simp add: count_miss_def core_def)

lemma touch_modified_core: "core (touch_modified now uc) = core uc" by (simp add: touch_modified_def core_def)

lemma send_core: "core (cache_send_udp_command k v e c uc) = core uc" by (simp add: cache_send_udp_command_def core_def)

definition same_content :: "upsgi_cache \<Rightarrow> upsgi_cache \<Rightarrow> bool" where
  "same_content uc u \<longleftrightarrow> cache_inv u \<and> setup_of u = setup_of uc \<and> cache_map u = cache_map uc \<and> uc_unused_ptr u = uc_unused_ptr uc"

lemma same_core: "cache_inv uc \<Longrightarrow> core u = core uc \<Longrightarrow> same_content uc u"
  using core_eqD [of u uc] cache_map_core [of u uc] by (simp add: same_content_def)

text \<open>A change of the links, the hits or the expiry time of items keeps the content.\<close>

lemma map_eqI:
  assumes "cache_inv uc" "cache_inv u" "live u = live uc" "key_of u = key_of uc" "\<And>i. i \<in> live uc \<Longrightarrow> value_of u i = value_of uc i"
  shows "cache_map u = cache_map uc"
proof
  fix k
  have "cache_map u k = Some v \<longleftrightarrow> cache_map uc k = Some v" for v
    unfolding cache_map_Some [OF assms(1)] cache_map_Some [OF assms(2)] assms(3,4) using assms(5) by auto
  then show "cache_map u k = cache_map uc k" by (metis not_None_eq)
qed

lemma touched_map: "cache_inv uc \<Longrightarrow> touched uc u i \<Longrightarrow> same_content uc u"
  using touched_value [of uc u i] map_eqI [of uc u] by (simp add: touched_def same_content_def)

section \<open>Storing, fetching, deleting\<close>

lemma set2_map:
  assumes "cache_inv uc" "no_trap flags"
  obtains ok u x where "upsgi_cache_set2 now key val expires flags uc = Some (ok, u)" "cache_inv u" "setup_of u = setup_of uc"
    "\<not> ok \<Longrightarrow> cache_map u \<subseteq>\<^sub>m cache_map uc" "\<not> bit flags FLAG_MATH \<Longrightarrow> x = val"
    "ok \<Longrightarrow> cache_map u key = Some x \<and> cache_map u \<subseteq>\<^sub>m (cache_map uc)(key \<mapsto> x) \<and>
       (uc_unused_ptr uc \<noteq> 0 \<or> cache_map uc key \<noteq> None \<longrightarrow> cache_map u = (cache_map uc)(key \<mapsto> x))"
    "uc_bitmap uc = None \<Longrightarrow> \<not> set_refused key val flags uc \<Longrightarrow> uc_purge_lru uc \<and> uc_max_items uc \<noteq> 1 \<or> uc_unused_ptr uc \<noteq> 0 \<Longrightarrow>
       cache_map uc key = None \<or> bit flags FLAG_UPDATE \<Longrightarrow> ok"
proof (cases "set_refused key val flags uc")
  case True
  then have "upsgi_cache_set2 now key val expires flags uc = Some (False, uc)" by (simp add: upsgi_cache_set2_def)
  from that [OF this assms(1) refl, of val] True show ?thesis by simp
next
  case nr: False
  obtain r u0 where g: "upsgi_cache_get_index now key uc = Some (r, u0)" "shrinks uc u0"
    "r = 0 \<Longrightarrow> cache_map u0 = (cache_map uc)(key := None) \<and> (\<forall>i \<in> live u0. key_of u0 i \<noteq> key) \<and> (cache_map uc key \<noteq> None \<longrightarrow> uc_unused_ptr u0 \<noteq> 0)"
    "r \<noteq> 0 \<Longrightarrow> r \<in> live uc \<and> key_of uc r = key \<and> u0 = uc \<and> cache_map uc key = Some (value_of uc r)"
    using get_index_map [OF assms(1)] by metis
  have i0: "cache_inv u0" and su: "setup_of u0 = setup_of uc" and up: "uc_unused_ptr uc \<le> uc_unused_ptr u0"
    using g(2) by (simp_all add: shrinks_def)
  note s0 = setup_eqD [OF su]
  have nr0: "\<not> set_refused key val flags u0" using nr s0 by (simp add: set_refused_def)
  define fin where "fin u1 e = (let u2 = touch_modified now u1 in
    if uc_nodes u2 \<noteq> [] \<and> \<not> bit flags FLAG_LOCAL then cache_send_udp_command key val e 10 u2 else u2)" for u1 e
  have fc: "core (fin u1 e) = core u1" for u1 e by (simp add: fin_def Let_def touch_modified_core send_core)
  show ?thesis
  proof (cases "r = 0")
    case True
    note g0 = g(3) [OF True]
    obtain res u b where n: "set_new now key val expires flags u0 = Some (res, u)" "shrinks u0 b"
      "case res of None \<Rightarrow> u = b \<and> (uc_bitmap u0 \<noteq> None \<or> uc_unused_ptr u0 = 0 \<and> (uc_purge_lru u0 \<longrightarrow> uc_max_items u0 = 1))
       | Some e \<Rightarrow> (\<exists>index. index \<notin> live b \<and> stores b u index key (stored flags (uc_math_initial u0) val) flags) \<and> (uc_unused_ptr u0 \<noteq> 0 \<longrightarrow> b = u0)"
      using set_new_ok [OF i0 nr0 assms(2), of now expires] g0 by blast
    show ?thesis
    proof (cases res)
      case None
      have "upsgi_cache_set2 now key val expires flags uc = Some (False, u)"
        using nr g(1) True n(1) None by (simp add: upsgi_cache_set2_def)
      moreover have sh: "shrinks uc u" using shrinks_trans [OF g(2) n(2)] n(3) None by simp
      moreover have "cache_map u \<subseteq>\<^sub>m cache_map uc" by (rule shrinks_map [OF assms(1) sh])
      ultimately show ?thesis using n(3) None s0 up by (intro that [of False u val]) (auto simp: shrinks_def)
    next
      case (Some e)
      then obtain ix where ix: "ix \<notin> live b" "stores b u ix key (stored flags (uc_math_initial u0) val) flags" and nf: "uc_unused_ptr u0 \<noteq> 0 \<longrightarrow> b = u0"
        using n(3) by auto
      define x where "x = stored flags (uc_math_initial u0) val"
      have ib: "cache_inv b" using n(2) by (rule shrinksD)
      have fresh: "key_of b j \<noteq> key" if "j \<in> live b" for j
        using shrinks_value [OF n(2) that] g0 that n(2) by (auto simp: shrinks_def)
      have mu: "cache_map u = (cache_map b)(key \<mapsto> x)"
        unfolding x_def by (rule stores_map [OF ib ix(2)]) (use ix(1) fresh in blast)
      have op: "upsgi_cache_set2 now key val expires flags uc = Some (True, fin u e)"
        using nr g(1) True n(1) Some by (simp add: upsgi_cache_set2_def fin_def Let_def)
      have mf: "cache_map (fin u e) = (cache_map b)(key \<mapsto> x)" using cache_map_core [OF fc [of u e]] mu by simp
      have iu: "cache_inv (fin u e)" "setup_of (fin u e) = setup_of uc"
        using core_eqD [OF fc [of u e]] ix(2) n(2) su by (simp_all add: stores_def shrinks_def)
      have "cache_map b \<subseteq>\<^sub>m cache_map uc" by (rule shrinks_map [OF assms(1) shrinks_trans [OF g(2) n(2)]])
      then have le: "cache_map (fin u e) \<subseteq>\<^sub>m (cache_map uc)(key \<mapsto> x)" using mf by (simp add: map_le_iff_Some)
      have eq: "cache_map (fin u e) = (cache_map uc)(key \<mapsto> x)" if "uc_unused_ptr uc \<noteq> 0 \<or> cache_map uc key \<noteq> None"
        using that nf g0 up mf by auto
      show ?thesis
        by (rule that [OF op iu, of x]) (use le eq mf in \<open>auto simp: x_def stored_def\<close>)
    qed
  next
    case False
    note g1 = g(4) [OF False]
    show ?thesis
    proof (cases "bit flags FLAG_UPDATE")
      case False
      have "upsgi_cache_set2 now key val expires flags uc = Some (False, touch_modified now uc)"
        using nr g(1) False g1 \<open>r \<noteq> 0\<close> by (simp add: upsgi_cache_set2_def)
      moreover have c: "core (touch_modified now uc) = core uc" by (rule touch_modified_core)
      ultimately show ?thesis using core_eqD [OF c] cache_map_core [OF c] assms(1) g1 False
        by (intro that [of False "touch_modified now uc" val]) auto
    next
      case up1: True
      obtain res u where n: "set_update now r val expires flags uc = Some (res, u)"
        "case res of None \<Rightarrow> uc_bitmap uc \<noteq> None \<and> (\<exists>u1. touched uc u1 r \<and> shrinks u1 u)
         | Some e \<Rightarrow> (\<exists>u1 old. touched uc u1 r \<and> stores u1 u r (key_of uc r) (stored flags old val) (fld ci_flags uc r) \<and>
           (uc_bitmap uc = None \<longrightarrow> old = rd64 (take 8 (drop (r * uc_blocksize uc) (uc_data uc)))))"
        using set_update_ok [OF assms(1) _ nr assms(2), of r now expires] g1 by blast
      show ?thesis
      proof (cases res)
        case None
        then obtain u1 where t: "touched uc u1 r" "shrinks u1 u" using n(2) by auto
        have sc: "same_content uc u1" by (rule touched_map [OF assms(1) t(1)])
        have "cache_map u \<subseteq>\<^sub>m cache_map uc" using shrinks_map [OF _ t(2)] sc by (simp add: same_content_def)
        moreover have "upsgi_cache_set2 now key val expires flags uc = Some (False, u)"
          using nr g(1) g1 \<open>r \<noteq> 0\<close> up1 n(1) None by (simp add: upsgi_cache_set2_def)
        ultimately show ?thesis using t(2) sc n(2) None by (intro that [of False u val]) (auto simp: shrinks_def same_content_def)
      next
        case (Some e)
        then obtain u1 old where t: "touched uc u1 r" "stores u1 u r (key_of uc r) (stored flags old val) (fld ci_flags uc r)" using n(2) by auto
        define x where "x = stored flags old val"
        have sc: "same_content uc u1" by (rule touched_map [OF assms(1) t(1)])
        have i1: "cache_inv u1" "r \<in> live u1" "key_of u1 r = key" using t(1) g1 by (simp_all add: touched_def)
        have "cache_map u = (cache_map u1)(key \<mapsto> x)"
          using stores_map [OF i1(1) t(2)] i1 g1 by (simp add: x_def)
        then have mu: "cache_map (fin u e) = (cache_map uc)(key \<mapsto> x)" using sc cache_map_core [OF fc [of u e]] by (simp add: same_content_def)
        have op: "upsgi_cache_set2 now key val expires flags uc = Some (True, fin u e)"
          using nr g(1) g1 \<open>r \<noteq> 0\<close> up1 n(1) Some by (simp add: upsgi_cache_set2_def fin_def Let_def)
        have iu: "cache_inv (fin u e)" "setup_of (fin u e) = setup_of uc"
          using core_eqD [OF fc [of u e]] t(2) sc by (simp_all add: stores_def same_content_def)
        show ?thesis by (rule that [OF op iu, of x]) (use mu in \<open>auto simp: x_def stored_def\<close>)
      qed
    qed
  qed
qed

end
