(* ===== verification/Upsgi_CacheOps.thy ===== *)
theory Upsgi_CacheOps
  imports Upsgi_CacheMap
begin

text \<open>
  The remaining operations on the cache as a map: fetching, deleting and sweeping, and the state after
  \<open>upsgi_cache_init\<close>.  The locale \<open>forgetful_store\<close> is the contract of a cache with its clients; the cache of
  \<open>core/cache.c\<close> fulfils it.
\<close>

section \<open>Fetching and deleting\<close>

text \<open>The key is stored in an item that may be fetched.\<close>

definition shown :: "upsgi_cache \<Rightarrow> char list \<Rightarrow> bool" where
  "shown uc key \<longleftrightarrow> list_ex (\<lambda>i. fld ci_keysize uc i > 0 \<and> key_of uc i = key \<and> \<not> bit (fld ci_flags uc i) FLAG_UNGETTABLE) [1 ..< uc_max_items uc]"

lemma shown_live: "shown uc key \<longleftrightarrow> (\<exists>i \<in> live uc. key_of uc i = key \<and> \<not> bit (fld ci_flags uc i) FLAG_UNGETTABLE)"
  unfolding shown_def list_ex_iff live_def by (auto simp: Suc_le_eq)

lemma value_in_data:
  assumes "cache_inv uc" "i \<in> live uc"
  shows "read_data uc (fld ci_first_block uc i) (fld ci_valsize uc i) = Some (value_of uc i)"
proof -
  note inv = cache_invD [OF assms(1)]
  let ?f = "fld ci_first_block uc i" and ?v = "fld ci_valsize uc i"
  define n where "n = needed_blocks (uc_blocksize uc) ?v"
  have bs: "0 < uc_blocksize uc" "0 < ?v" using inv(1,6) assms(2) by (simp_all add: dims_inv_def block_inv_def)
  have n: "0 < n" "?v \<le> n * uc_blocksize uc" using needed_pos [OF bs] needed_fits [OF bs(1)] by (simp_all add: n_def)
  have "run_of uc i \<subseteq> {..< uc_blocks uc}" using inv(6) assms(2) by (simp add: block_inv_def)
  moreover have "?f + n - 1 \<in> run_of uc i" using n(1) by (simp add: run_of_def n_def)
  ultimately have "?f + n \<le> uc_blocks uc" using n(1) by fastforce
  then have "(?f + n) * uc_blocksize uc \<le> uc_blocks uc * uc_blocksize uc" by (rule mult_le_mono1)
  then have "?f * uc_blocksize uc + ?v \<le> length (uc_data uc)" using n(2) inv(1) by (simp add: add_mult_distrib dims_inv_def)
  then show ?thesis by (simp add: read_data_def value_of_def)
qed

lemma hit_ok:
  assumes "cache_inv uc" "i \<in> live uc"
  shows "\<exists>u. count_hit i uc = Some u \<and> same_content uc u \<and> uc_data u = uc_data uc \<and> uc_blocksize u = uc_blocksize uc"
proof -
  have "i < length (uc_items uc)" using assms cache_invD(1) [OF assms(1)] by (simp add: live_def dims_inv_def)
  then obtain u1 where u1: "set_item i (\<lambda>it. it\<lparr>ci_hits := size_add (ci_hits it) 1\<rparr>) uc = Some u1" using set_item_some by blast
  have k: "cache_inv u1 \<and> live u1 = live uc \<and> setup_of u1 = setup_of uc \<and> uc_data u1 = uc_data uc \<and>
    (\<forall>j. j \<noteq> i \<longrightarrow> entry_of u1 j = entry_of uc j) \<and> key_of u1 = key_of uc \<and> (\<forall>j \<in> live uc. value_of u1 j = value_of uc j)"
    by (rule inv_item [OF assms(1) u1]) simp_all
  let ?u = "u1\<lparr>uc_hits := size_add (uc_hits u1) 1\<rparr>"
  have c: "core ?u = core u1" by (simp add: core_def)
  have "cache_map u1 = cache_map uc" by (rule map_eqI [OF assms(1)]) (use k in auto)
  then have "same_content uc ?u"
    using core_eqD [OF c] cache_map_core [OF c] k set_item_parts(7) [OF u1] by (simp add: same_content_def)
  then show ?thesis using u1 set_item_parts [OF u1] by (simp add: count_hit_def)
qed

lemma cache_get_map:
  assumes "cache_inv uc"
  obtains r u where "cache_get lru now key uc = Some (r, u)" "cache_inv u" "setup_of u = setup_of uc"
    "\<And>v it. r = Some (v, it) \<Longrightarrow> cache_map uc key = Some v"
    "cache_map u = cache_map uc \<or> r = None \<and> uc_lazy_expire uc \<and> cache_map u = (cache_map uc)(key := None)"
    "shown u key \<Longrightarrow> r \<noteq> None" "\<not> uc_lazy_expire uc \<Longrightarrow> shown uc key \<Longrightarrow> r \<noteq> None"
proof -
  obtain i u0 where g: "upsgi_cache_get_index now key uc = Some (i, u0)" "shrinks uc u0"
    "i = 0 \<Longrightarrow> cache_map u0 = (cache_map uc)(key := None) \<and> (\<forall>i \<in> live u0. key_of u0 i \<noteq> key) \<and> (cache_map uc key \<noteq> None \<longrightarrow> uc_unused_ptr u0 \<noteq> 0)"
    "i \<noteq> 0 \<Longrightarrow> i \<in> live uc \<and> key_of uc i = key \<and> u0 = uc \<and> cache_map uc key = Some (value_of uc i)"
    "i = 0 \<Longrightarrow> cache_map uc key \<noteq> None \<Longrightarrow> uc_lazy_expire uc"
    using get_index_map [OF assms] by metis
  have sh: "cache_map uc key \<noteq> None" if "shown uc key" using that cache_map_None [OF assms] by (auto simp: shown_live)
  show ?thesis
  proof (cases "i = 0")
    case True
    have op: "cache_get lru now key uc = Some (None, count_miss u0)" using g(1) True by (simp add: cache_get_def)
    have c: "core (count_miss u0) = core u0" by (rule count_miss_core)
    have su: "cache_inv (count_miss u0)" "setup_of (count_miss u0) = setup_of uc"
      using core_eqD [OF c] g(2) by (simp_all add: shrinks_def)
    have m: "cache_map (count_miss u0) = (cache_map uc)(key := None)" using cache_map_core [OF c] g(3) True by simp
    have ns: "\<not> shown (count_miss u0) key"
      using m cache_map_None [OF su(1), of key] by (auto simp: shown_live)
    have e: "(cache_map uc)(key := None) = cache_map uc" if "cache_map uc key = None" using that by auto
    show ?thesis
      by (rule that [OF op su]) (use m e ns sh g(5) True in auto)
  next
    case False
    note g1 = g(4) [OF False]
    have ix: "i < length (uc_items uc)" "item_at uc i = Some (uc_items uc ! i)" using g1 cache_invD(1) [OF assms]
      by (auto simp: live_def dims_inv_def item_at_def)
    have fl: "ci_flags (uc_items uc ! i) = fld ci_flags uc i" "ci_first_block (uc_items uc ! i) = fld ci_first_block uc i"
      "ci_valsize (uc_items uc ! i) = fld ci_valsize uc i" using ix(1) by (simp_all add: fld_def)
    show ?thesis
    proof (cases "bit (fld ci_flags uc i) FLAG_UNGETTABLE")
      case True
      have op: "cache_get lru now key uc = Some (None, uc)" using g(1) g1 False ix(2) True fl by (simp add: cache_get_def)
      have ns: "\<not> shown uc key"
      proof
        assume "shown uc key"
        then obtain j where j: "j \<in> live uc" "key_of uc j = key" "\<not> bit (fld ci_flags uc j) FLAG_UNGETTABLE" by (auto simp: shown_live)
        then have "j = i" using g1 cache_invD(3) [OF assms] inj_onD [of "key_of uc" "live uc" j i] by (simp add: keys_inv_def)
        with j True show False by simp
      qed
      show ?thesis by (rule that [OF op assms refl]) (use ns in auto)
    next
      case gt: False
      obtain u1 where u1: "(if lru \<and> uc_purge_lru uc then do { u \<leftarrow> lru_remove_item i uc; lru_add_item i u } else Some uc) = Some u1"
        "touched uc u1 i"
      proof (cases "lru \<and> uc_purge_lru uc")
        case True
        obtain u l where m: "do { u \<leftarrow> lru_remove_item i uc; lru_add_item i u } = Some u" "unranked u = unranked uc" "ranked u l" "set l = live uc"
          using lru_move [OF assms, of i] True g1 by blast
        note v = inv_unranked [OF assms m(2), of l]
        have "touched uc u i" using v m(3,4) unranked_flds [OF m(2)] by (simp add: touched_def key_of_def [abs_def])
        then show ?thesis using that [of u] True m(1) by simp
      next
        case False
        then show ?thesis using that [of uc] touched_refl [OF assms] by auto
      qed
      have i1: "cache_inv u1" "i \<in> live u1" "uc_data u1 = uc_data uc" using u1(2) g1 by (simp_all add: touched_def)
      obtain u2 where u2: "count_hit i u1 = Some u2" "same_content u1 u2" "uc_data u2 = uc_data u1" "uc_blocksize u2 = uc_blocksize u1"
        using hit_ok [OF i1(1,2)] by blast
      have sc: "same_content uc u1" by (rule touched_map [OF assms u1(2)])
      have "uc_blocksize u1 = uc_blocksize uc" using sc setup_eqD(3) [of u1 uc] by (simp add: same_content_def)
      then have rd: "read_data u2 (fld ci_first_block uc i) (fld ci_valsize uc i) = Some (value_of uc i)"
        using value_in_data [OF assms, of i] g1 u2(3,4) i1(3) by (simp add: read_data_def Let_def split: if_splits)
      have op: "cache_get lru now key uc = Some (Some (value_of uc i, uc_items uc ! i), u2)"
        using g(1) g1 False ix(2) gt fl u1(1) u2(1) rd by (simp add: cache_get_def)
      show ?thesis by (rule that [OF op]) (use u2(2) sc g1 in \<open>auto simp: same_content_def\<close>)
    qed
  qed
qed

lemma del2_map:
  assumes "cache_inv uc"
  obtains found u where "upsgi_cache_del2 now key 0 flags uc = Some (found, u)" "cache_inv u" "setup_of u = setup_of uc"
    "cache_map u = (cache_map uc)(key := None)" "found \<Longrightarrow> cache_map uc key \<noteq> None" "\<not> uc_lazy_expire uc \<Longrightarrow> cache_map uc key \<noteq> None \<Longrightarrow> found"
proof -
  obtain i u0 where g: "upsgi_cache_get_index now key uc = Some (i, u0)" "shrinks uc u0"
    "i = 0 \<Longrightarrow> cache_map u0 = (cache_map uc)(key := None) \<and> (\<forall>i \<in> live u0. key_of u0 i \<noteq> key) \<and> (cache_map uc key \<noteq> None \<longrightarrow> uc_unused_ptr u0 \<noteq> 0)"
    "i \<noteq> 0 \<Longrightarrow> i \<in> live uc \<and> key_of uc i = key \<and> u0 = uc \<and> cache_map uc key = Some (value_of uc i)"
    "i = 0 \<Longrightarrow> cache_map uc key \<noteq> None \<Longrightarrow> uc_lazy_expire uc"
    using get_index_map [OF assms] by metis
  show ?thesis
  proof (cases "i = 0")
    case True
    then have "upsgi_cache_del2 now key 0 flags uc = Some (False, u0)" using g(1) by (simp add: upsgi_cache_del2_def)
    then show ?thesis using that [of False u0] g True by (auto simp: shrinks_def)
  next
    case False
    note g1 = g(4) [OF False]
    have b: "0 < i" "i < uc_max_items uc" using g1 by (simp_all add: live_def)
    obtain u where u: "del_slot now key i flags uc = Some u" "shrinks uc u" "live u = live uc - {i}"
      using del_slot_ok [OF assms b, of now key flags] by blast
    have op: "upsgi_cache_del2 now key 0 flags uc = Some (True, u)" using g(1) False g1 u(1) by (simp add: upsgi_cache_del2_def)
    have "key_of u j \<noteq> key" if "j \<in> live u" for j
      using that u(3) shrinks_value [OF u(2) that] g1 cache_invD(3) [OF assms] inj_onD [of "key_of uc" "live uc" j i] by (auto simp: keys_inv_def)
    then have "cache_map u = (cache_map uc)(key := None)" by (intro drop_key [OF assms u(2)]) (use u(3) g1 in auto)
    then show ?thesis using that [OF op] u(2) g1 by (auto simp: shrinks_def)
  qed
qed


section \<open>Sweeping\<close>

abbreviation expired_at :: "nat \<Rightarrow> upsgi_cache \<Rightarrow> nat \<Rightarrow> bool" where
  "expired_at now uc i \<equiv> fld ci_expires uc i \<noteq> 0 \<and> fld ci_expires uc i \<le> now"

lemma note_expiry_core: "core (note_expiry e uc) = core uc" by (simp add: note_expiry_def core_def)

lemma sweeper_loop_ok:
  "cache_inv uc \<Longrightarrow> set is \<subseteq> {1 ..< uc_max_items uc} \<Longrightarrow>
   \<exists>n u. sweeper_loop now is uc = Some (n, u) \<and> shrinks uc u \<and> live u = {i \<in> live uc. \<not> (i \<in> set is \<and> expired_at now uc i)}"
proof (induction "is" arbitrary: uc)
  case Nil
  then show ?case by (auto simp: shrinks_refl)
next
  case (Cons i xs)
  define u0 where "u0 = (if i = 1 then uc\<lparr>uc_next_scan := 0\<rparr> else uc)"
  have c: "core u0 = core uc" by (simp add: u0_def core_def)
  have i0: "cache_inv u0" using core_eqD [OF c] Cons.prems(1) by simp
  have mx: "uc_max_items u0 = uc_max_items uc" by (simp add: u0_def)
  have b: "0 < i" "i < uc_max_items u0" "set xs \<subseteq> {1 ..< uc_max_items u0}" using Cons.prems(2) mx by auto
  have at: "item_at u0 i = Some (uc_items u0 ! i)" by (rule item_at_inv [OF i0 b(2)])
  have ex: "ci_expires (uc_items u0 ! i) = fld ci_expires u0 i"
    using b(2) cache_invD(1) [OF i0] by (simp add: fld_def dims_inv_def)
  have fe: "fld ci_expires u0 = fld ci_expires uc" by (rule core_eqD [OF c])
  have lv: "live u0 = live uc" by (rule core_eqD [OF c])
  note step = sweeper_loop.simps(2) [of now i xs uc, folded u0_def, unfolded Let_def]
  show ?case
  proof (cases "expired_at now u0 i")
    case True
    obtain u where u: "del_slot now [] i flag_local u0 = Some u" "shrinks u0 u" "live u = live u0 - {i}"
      using del_slot_ok [OF i0 b(1,2), of now "[]" flag_local] by blast
    obtain n u1 where u1: "sweeper_loop now xs u = Some (n, u1)" "shrinks u u1" "live u1 = {j \<in> live u. \<not> (j \<in> set xs \<and> expired_at now u j)}"
      using Cons.IH [OF shrinksD(1) [OF u(2)]] shrinksD(2) [OF u(2)] b(3) by auto
    have same: "fld ci_expires u j = fld ci_expires u0 j" if "j \<in> live u" for j
      using u(2) that entry_eqD(6) [of u j u0] by (simp add: shrinks_def)
    have "sweeper_loop now (i # xs) uc = Some (n + 1, u1)" using step at ex True u(1) u1(1) by (simp add: u0_def)
    moreover have "shrinks uc u1" by (rule core_shrinks [OF c shrinks_trans [OF u(2) u1(2)]])
    moreover have "live u1 = {j \<in> live uc. \<not> (j \<in> set (i # xs) \<and> expired_at now uc j)}"
    proof -
      have "expired_at now u j \<longleftrightarrow> expired_at now uc j" if "j \<in> live u" for j using same [OF that] fe by simp
      then have "live u1 = {j \<in> live u. \<not> (j \<in> set xs \<and> expired_at now uc j)}" unfolding u1(3) by blast
      then show ?thesis using u(3) lv True fe by auto
    qed
    ultimately show ?thesis by blast
  next
    case False
    define u2 where "u2 = (if fld ci_expires u0 i = 0 then u0 else note_expiry (fld ci_expires u0 i) u0)"
    have c2: "core u2 = core uc" using c by (simp add: u2_def note_expiry_core)
    have i2: "cache_inv u2" using core_eqD [OF c2] Cons.prems(1) by simp
    have "uc_max_items u2 = uc_max_items uc" using setup_eqD(6) [OF core_eqD(3) [OF c2]] .
    then obtain n u1 where u1: "sweeper_loop now xs u2 = Some (n, u1)" "shrinks u2 u1" "live u1 = {j \<in> live u2. \<not> (j \<in> set xs \<and> expired_at now u2 j)}"
      using Cons.IH [OF i2] b(3) mx by auto
    have "sweeper_loop now (i # xs) uc = Some (n, u1)" using step at ex False u1(1) by (auto simp: u2_def split: if_splits)
    moreover have "live u2 = live uc" "fld ci_expires u2 = fld ci_expires uc" by (rule core_eqD [OF c2])+
    then have "live u1 = {j \<in> live uc. \<not> (j \<in> set (i # xs) \<and> expired_at now uc j)}"
      using u1(3) False fe by auto
    ultimately show ?thesis using core_shrinks [OF c2 u1(2)] by blast
  qed
qed

lemma sweeper_ok:
  assumes "cache_inv uc"
  shows "\<exists>n u. cache_sweeper_free_items now uc = Some (n, u) \<and> shrinks uc u \<and>
    (live u = live uc \<or> live u = {i \<in> live uc. \<not> expired_at now uc i})"
proof (cases "uc_no_expire uc \<or> uc_purge_lru uc \<or> uc_lazy_expire uc \<or> uc_next_scan uc = 0 \<or> uc_next_scan uc > now")
  case True
  then show ?thesis using shrinks_refl [OF assms] by (auto simp: cache_sweeper_free_items_def)
next
  case False
  have "{i \<in> live uc. \<not> (i \<in> set [1 ..< uc_max_items uc] \<and> expired_at now uc i)} = {i \<in> live uc. \<not> expired_at now uc i}"
    by (auto simp: live_def)
  with sweeper_loop_ok [OF assms, of "[1 ..< uc_max_items uc]" now] False show ?thesis
    by (auto simp: cache_sweeper_free_items_def)
qed

section \<open>The fresh cache\<close>

definition config_ok :: "bool \<Rightarrow> upsgi_cache \<Rightarrow> bool" where
  "config_ok use_bitmap uc \<longleftrightarrow> 0 < uc_max_items uc \<and> 0 < uc_hashsize uc \<and> 0 < uc_blocksize uc \<and> uc_max_items uc \<le> uc_blocks uc \<and>
     uc_blocks uc < 2 ^ 61 \<and> (use_bitmap \<or> uc_max_item_size uc = uc_blocksize uc) \<and> uc_n_items uc = 0 \<and> uc_bitmap_pos uc = 0 \<and>
     uc_lru_head uc = 0 \<and> uc_lru_tail uc = 0"

lemma init_inv:
  assumes "config_ok b uc"
  shows "cache_inv (upsgi_cache_init b uc)" "cache_map (upsgi_cache_init b uc) = Map.empty"
proof -
  let ?u = "upsgi_cache_init b uc"
  note c = assms [unfolded config_ok_def]
  have f: "fld ci_keysize ?u i = 0" "fld ci_next ?u i = 0" for i by (simp_all add: fld_def upsgi_cache_init_def empty_item_def)
  have lv: "live ?u = {}" by (simp add: live_def f)
  have "dims_inv ?u" using c by (simp add: dims_inv_def upsgi_cache_init_def fld_def empty_item_def)
  moreover have "bucket_inv ?u (\<lambda>_. [])"
    using c by (simp add: bucket_inv_def chained_def lv) (simp add: upsgi_cache_init_def)
  moreover have "keys_inv ?u" "count_inv ?u" using c by (simp_all add: keys_inv_def count_inv_def lv) (simp add: upsgi_cache_init_def)
  moreover have "free_inv ?u"
  proof -
    obtain m where m: "uc_max_items uc = Suc m" using c not0_implies_Suc by blast
    have "tl [0 ..< Suc m] = [1 ..< Suc m]" by (simp add: tl_upt)
    then show ?thesis by (simp add: free_inv_def lv) (auto simp: upsgi_cache_init_def m)
  qed
  moreover have "block_inv ?u"
  proof (cases b)
    case True
    then have "uc_bitmap ?u = Some (bitmap_init (uc_blocks uc))" "uc_blocks ?u = uc_blocks uc" "uc_bitmap_pos ?u = 0"
      using c by (simp_all add: upsgi_cache_init_def)
    then show ?thesis using c bitmap_init_length [of "uc_blocks uc"] by (simp add: block_inv_def lv map_inv_def bitmap_init_used)
  next
    case False
    then have "uc_bitmap ?u = None" "uc_max_item_size ?u = uc_blocksize ?u" using c by (simp_all add: upsgi_cache_init_def)
    then show ?thesis by (simp add: block_inv_def lv)
  qed
  moreover have "ranked ?u []" using c by (simp add: ranked_def upsgi_cache_init_def)
  then have "lru_inv ?u" by (auto simp: lru_inv_def lv intro!: exI [of _ "[]"])
  ultimately show i: "cache_inv ?u" by (auto simp: cache_inv_def)
  show "cache_map ?u = Map.empty" using cache_map_None [OF i] lv by auto
qed


section \<open>A store that may forget\<close>

text \<open>
  The contract of a cache towards its clients: it may lose entries, but it never invents one.  A client
  calls it through \<open>step\<close>; \<open>effect\<close> is what a call with a given reply means for a map that forgets nothing,
  and the visible content always stays below that map.
\<close>

fun run_calls :: "('c \<Rightarrow> 's \<Rightarrow> ('r \<times> 's) option) \<Rightarrow> 'c list \<Rightarrow> 's \<Rightarrow> ('r list \<times> 's) option" where
  "run_calls f [] s = Some ([], s)"
| "run_calls f (c # cs) s = do {
     (r, s1) \<leftarrow> f c s;
     (rs, s2) \<leftarrow> run_calls f cs s1;
     Some (r # rs, s2)
   }"

fun replay :: "('c \<Rightarrow> 'r \<Rightarrow> 'm \<Rightarrow> 'm) \<Rightarrow> 'c list \<Rightarrow> 'r list \<Rightarrow> 'm \<Rightarrow> 'm" where
  "replay e (c # cs) (r # rs) m = replay e cs rs (e c r m)"
| "replay e _ _ m = m"

locale forgetful_store =
  fixes inv :: "'s \<Rightarrow> bool" and view :: "'s \<Rightarrow> 'k \<Rightarrow> 'v option" and step :: "'c \<Rightarrow> 's \<Rightarrow> ('r \<times> 's) option"
    and effect :: "'c \<Rightarrow> 'r \<Rightarrow> ('k \<Rightarrow> 'v option) \<Rightarrow> 'k \<Rightarrow> 'v option" and legal :: "'c \<Rightarrow> bool" and answers :: "'c \<Rightarrow> 'r \<Rightarrow> ('k \<Rightarrow> 'v option) \<Rightarrow> bool"
  assumes step_total: "inv s \<Longrightarrow> legal c \<Longrightarrow> \<exists>r t. step c s = Some (r, t) \<and> inv t \<and> view t \<subseteq>\<^sub>m effect c r (view s) \<and> answers c r (view s)"
    and effect_mono: "m \<subseteq>\<^sub>m n \<Longrightarrow> effect c r m \<subseteq>\<^sub>m effect c r n"
    and answers_mono: "m \<subseteq>\<^sub>m n \<Longrightarrow> answers c r m \<Longrightarrow> answers c r n"
begin

text \<open>No sequence of calls gets stuck, and what the store shows is what was written last or nothing.\<close>

lemma runs:
  "inv s \<Longrightarrow> list_all legal cs \<Longrightarrow> view s \<subseteq>\<^sub>m m \<Longrightarrow>
   \<exists>rs t. run_calls step cs s = Some (rs, t) \<and> inv t \<and> length rs = length cs \<and> view t \<subseteq>\<^sub>m replay effect cs rs m \<and>
     (\<forall>i < length cs. answers (cs ! i) (rs ! i) (replay effect (take i cs) (take i rs) m))"
proof (induction cs arbitrary: s m)
  case Nil
  then show ?case by simp
next
  case (Cons c cs)
  obtain r t where t: "step c s = Some (r, t)" "inv t" "view t \<subseteq>\<^sub>m effect c r (view s)" "answers c r (view s)"
    using step_total Cons.prems(1,2) by auto blast
  have le: "view t \<subseteq>\<^sub>m effect c r m" using t(3) effect_mono [OF Cons.prems(3)] map_le_trans by blast
  obtain rs u where u: "run_calls step cs t = Some (rs, u)" "inv u" "length rs = length cs" "view u \<subseteq>\<^sub>m replay effect cs rs (effect c r m)"
    "\<forall>i < length cs. answers (cs ! i) (rs ! i) (replay effect (take i cs) (take i rs) (effect c r m))"
    using Cons.IH [OF t(2) _ le] Cons.prems(2) by auto
  have "answers ((c # cs) ! i) ((r # rs) ! i) (replay effect (take i (c # cs)) (take i (r # rs)) m)" if "i < length (c # cs)" for i
    using that u(5) answers_mono [OF Cons.prems(3) t(4)] by (cases i) auto
  then show ?case using t(1) u by auto
qed

end

text \<open>The calls of the cache.\<close>

datatype cache_call = CSet nat "char list" "char list" nat "64 word" | CGet nat "char list" | CDel nat "char list" "64 word" | CExists nat "char list" | CSweep nat

datatype cache_reply = RDone bool | RValue "char list option" | RCount nat

fun cache_step :: "cache_call \<Rightarrow> upsgi_cache \<Rightarrow> (cache_reply \<times> upsgi_cache) option" where
  "cache_step (CSet now key val expires flags) uc = map_option (\<lambda>(ok, u). (RDone ok, u)) (upsgi_cache_set2 now key val expires flags uc)"
| "cache_step (CGet now key) uc = map_option (\<lambda>(v, u). (RValue v, u)) (upsgi_cache_get2 now key uc)"
| "cache_step (CDel now key flags) uc = map_option (\<lambda>(ok, u). (RDone ok, u)) (upsgi_cache_del2 now key 0 flags uc)"
| "cache_step (CExists now key) uc = map_option (\<lambda>(i, u). (RCount i, u)) (upsgi_cache_exists2 now key uc)"
| "cache_step (CSweep now) uc = map_option (\<lambda>(n, u). (RCount n, u)) (cache_sweeper_free_items now uc)"

fun written :: "cache_call \<Rightarrow> cache_reply \<Rightarrow> (char list \<Rightarrow> char list option) \<Rightarrow> char list \<Rightarrow> char list option" where
  "written (CSet now key val expires flags) (RDone ok) m = (if ok then m(key \<mapsto> val) else m)"
| "written (CDel now key flags) _ m = m(key := None)"
| "written _ _ m = m"

text \<open>The math calls store a number of their own.\<close>

fun plain_call :: "cache_call \<Rightarrow> bool" where
  "plain_call (CSet now key val expires flags) \<longleftrightarrow> \<not> bit flags FLAG_MATH"
| "plain_call _ \<longleftrightarrow> True"

fun right_answer :: "cache_call \<Rightarrow> cache_reply \<Rightarrow> (char list \<Rightarrow> char list option) \<Rightarrow> bool" where
  "right_answer (CGet now key) (RValue v) m \<longleftrightarrow> v = None \<or> v = m key"
| "right_answer (CExists now key) (RCount n) m \<longleftrightarrow> n = 0 \<or> m key \<noteq> None"
| "right_answer (CDel now key flags) (RDone ok) m \<longleftrightarrow> ok \<longrightarrow> m key \<noteq> None"
| "right_answer _ _ _ \<longleftrightarrow> True"

lemma step_right:
  assumes "cache_inv uc" "plain_call c"
  shows "\<exists>r u. cache_step c uc = Some (r, u) \<and> cache_inv u \<and> cache_map u \<subseteq>\<^sub>m written c r (cache_map uc) \<and> right_answer c r (cache_map uc)"
proof (cases c)
  case (CSet now key val expires flags)
  then have f: "\<not> bit flags FLAG_MATH" "no_trap flags" using assms(2) by (simp_all add: no_trap_def)
  show ?thesis by (rule set2_map [OF assms(1) f(2), of now key val expires]) (use CSet f in auto)
next
  case (CGet now key)
  obtain r u where g: "cache_get True now key uc = Some (r, u)" "cache_inv u" "\<And>v it. r = Some (v, it) \<Longrightarrow> cache_map uc key = Some v"
    "cache_map u = cache_map uc \<or> r = None \<and> uc_lazy_expire uc \<and> cache_map u = (cache_map uc)(key := None)"
    by (rule cache_get_map [OF assms(1), of True now key]) blast
  have "cache_map u \<subseteq>\<^sub>m cache_map uc" using g(4) by (auto simp: map_le_iff_Some split: if_splits)
  with g(1-3) show ?thesis by (cases r) (auto simp: CGet upsgi_cache_get2_def)
next
  case (CDel now key flags)
  show ?thesis by (rule del2_map [OF assms(1), of now key flags]) (use CDel in auto)
next
  case (CExists now key)
  show ?thesis
    by (rule get_index_map [OF assms(1), of now key])
      (use CExists in \<open>auto simp: upsgi_cache_exists2_def shrinks_def intro: shrinks_map [OF assms(1)]\<close>)
next
  case (CSweep now)
  then show ?thesis using sweeper_ok [OF assms(1), of now] shrinks_map [OF assms(1)] by (auto simp: shrinks_def)
qed

lemma right_mono: "m \<subseteq>\<^sub>m n \<Longrightarrow> right_answer c r m \<Longrightarrow> right_answer c r n"
proof (induction c r m rule: right_answer.induct)
  case (1 now key v m)
  then show ?case by (cases "m key") (auto simp: map_le_iff_Some)
qed (auto simp: map_le_iff_Some)

interpretation shm: forgetful_store cache_inv cache_map cache_step written plain_call right_answer
proof
  fix c r and m n :: "char list \<Rightarrow> char list option" assume le: "m \<subseteq>\<^sub>m n"
  show "written c r m \<subseteq>\<^sub>m written c r n" using le by (cases c; cases r) (auto simp: map_le_iff_Some)
  show "right_answer c r m \<Longrightarrow> right_answer c r n" by (rule right_mono [OF le])
qed (rule step_right)

end
