(* ===== verification/Upsgi_CacheRestore.thy ===== *)
theory Upsgi_CacheRestore
  imports Upsgi_CacheOps
begin

text \<open>
  A cache on a backing store: \<open>upsgi_cache_fix\<close> rebuilds the hash table, the stack and the ends of the
  least-recently-used list from the items of the file.  For a cache without a bitmap that gives back the
  cache that was stored (\<open>store_restored\<close>).
\<close>

section \<open>Restoring from a store\<close>

text \<open>\<open>upsgi_cache_init\<close> on an existing store of the right size: the items and the data are those of the file.\<close>

definition upsgi_cache_init_store :: "bool \<Rightarrow> upsgi_cache_item list \<Rightarrow> char list \<Rightarrow> upsgi_cache \<Rightarrow> upsgi_cache option" where
  "upsgi_cache_init_store use_bitmap items data uc =
     upsgi_cache_fix ((upsgi_cache_init use_bitmap uc)\<lparr>uc_items := items, uc_data := data\<rparr>)"

text \<open>What the loop has done after the items of \<open>is\<close>.\<close>

definition heads_of :: "upsgi_cache \<Rightarrow> nat list \<Rightarrow> nat list \<Rightarrow> nat list" where
  "heads_of uc is t = fold (\<lambda>i t. if fld ci_keysize uc i \<noteq> 0 \<and> fld ci_prev uc i = 0 then t[fld ci_hash uc i mod uc_hashsize uc := i] else t) is t"

lemma heads_length [simp]: "length (heads_of uc is t) = length t"
proof (induction "is" arbitrary: t)
  case (Cons i xs)
  then show ?case by (simp add: heads_of_def)
qed (simp add: heads_of_def)

lemma heads_nth:
  "h < length t \<Longrightarrow> uc_hashsize uc = length t \<Longrightarrow>
   heads_of uc is t ! h = last (t ! h # filter (\<lambda>i. fld ci_keysize uc i \<noteq> 0 \<and> fld ci_prev uc i = 0 \<and> fld ci_hash uc i mod uc_hashsize uc = h) is)"
proof (induction "is" arbitrary: t)
  case (Cons i xs)
  let ?t = "if fld ci_keysize uc i \<noteq> 0 \<and> fld ci_prev uc i = 0 then t[fld ci_hash uc i mod uc_hashsize uc := i] else t"
  have "heads_of uc (i # xs) t = heads_of uc xs ?t" by (simp add: heads_of_def)
  also have "\<dots> ! h = last (?t ! h # filter (\<lambda>i. fld ci_keysize uc i \<noteq> 0 \<and> fld ci_prev uc i = 0 \<and> fld ci_hash uc i mod uc_hashsize uc = h) xs)"
    using Cons.prems by (intro Cons.IH) auto
  finally show ?case using Cons.prems by (auto simp: nth_list_update)
qed (simp add: heads_of_def)

fun first_with :: "(nat \<Rightarrow> bool) \<Rightarrow> nat list \<Rightarrow> nat" where
  "first_with P [] = 0"
| "first_with P (i # is) = (if P i then i else first_with P is)"

lemma fix_loop_ok:
  "set is \<subseteq> {1 ..< length (uc_items uc)} \<Longrightarrow> 0 < uc_hashsize uc \<Longrightarrow> length (uc_hashtable uc) = uc_hashsize uc \<Longrightarrow>
   uc_unused_ptr uc + length is < length (uc_unused_stack uc) \<Longrightarrow>
   \<exists>ns u. fix_loop is n s uc = Some (n + length (filter (\<lambda>i. fld ci_keysize uc i \<noteq> 0) is), ns, u) \<and> uc_items u = uc_items uc \<and>
     setup_of u = setup_of uc \<and> uc_data u = uc_data uc \<and> uc_bitmap u = uc_bitmap uc \<and> uc_bitmap_pos u = uc_bitmap_pos uc \<and>
     uc_hashtable u = heads_of uc is (uc_hashtable uc) \<and>
     uc_unused_ptr u = uc_unused_ptr uc + length (filter (\<lambda>i. fld ci_keysize uc i = 0) is) \<and>
     length (uc_unused_stack u) = length (uc_unused_stack uc) \<and>
     take (uc_unused_ptr u + 1) (uc_unused_stack u) = take (uc_unused_ptr uc + 1) (uc_unused_stack uc) @ filter (\<lambda>i. fld ci_keysize uc i = 0) is \<and>
     uc_lru_head u = (if uc_lru_head uc \<noteq> 0 then uc_lru_head uc
       else first_with (\<lambda>i. fld ci_keysize uc i \<noteq> 0 \<and> fld ci_lru_prev uc i = 0) is) \<and>
     uc_lru_tail u = (if uc_lru_tail uc \<noteq> 0 then uc_lru_tail uc
       else first_with (\<lambda>i. fld ci_keysize uc i \<noteq> 0 \<and> fld ci_lru_next uc i = 0) is)"
proof (induction "is" arbitrary: n s uc)
  case Nil
  then show ?case by (simp add: heads_of_def)
next
  case (Cons i xs)
  have i: "0 < i" "i < length (uc_items uc)" using Cons.prems(1) by auto
  have at: "item_at uc i = Some (uc_items uc ! i)" using i by (simp add: item_at_def)
  have f: "ci_keysize (uc_items uc ! i) = fld ci_keysize uc i" "ci_prev (uc_items uc ! i) = fld ci_prev uc i"
    "ci_hash (uc_items uc ! i) = fld ci_hash uc i" "ci_lru_prev (uc_items uc ! i) = fld ci_lru_prev uc i"
    "ci_lru_next (uc_items uc ! i) = fld ci_lru_next uc i" using i(2) by (simp_all add: fld_def)
  show ?case
  proof (cases "fld ci_keysize uc i = 0")
    case True
    define p where "p = uc_unused_ptr uc + 1"
    define u1 where "u1 = uc\<lparr>uc_unused_ptr := p, uc_unused_stack := (uc_unused_stack uc)[p := i]\<rparr>"
    have pu: "push_unused i uc = Some u1" using Cons.prems(4) by (simp add: push_unused_def u1_def p_def)
    have fu: "fld g u1 = fld g uc" for g :: "upsgi_cache_item \<Rightarrow> 'x" by (simp add: u1_def fld_def fun_eq_iff)
    have tk: "take (p + 1) (uc_unused_stack u1) = take (uc_unused_ptr uc + 1) (uc_unused_stack uc) @ [i]"
      using Cons.prems(4) by (simp add: u1_def p_def take_Suc_conv_app_nth)
    have p1: "uc_items u1 = uc_items uc" "setup_of u1 = setup_of uc" "uc_data u1 = uc_data uc" "uc_bitmap u1 = uc_bitmap uc"
      "uc_bitmap_pos u1 = uc_bitmap_pos uc" "uc_hashsize u1 = uc_hashsize uc" "uc_hashtable u1 = uc_hashtable uc"
      "uc_lru_head u1 = uc_lru_head uc" "uc_lru_tail u1 = uc_lru_tail uc" "length (uc_unused_stack u1) = length (uc_unused_stack uc)"
      "uc_unused_ptr u1 = p" by (simp_all add: u1_def setup_of_def)
    have hd: "heads_of uc (i # xs) (uc_hashtable uc) = heads_of u1 xs (uc_hashtable u1)"
      using True unfolding heads_of_def fu p1(6,7) by simp
    have st: "fix_loop (i # xs) n s uc = fix_loop xs n s u1" using at f True pu by simp
    show ?thesis using Cons.IH [of u1 n s] Cons.prems True tk unfolding st hd fu p1 by (simp add: p_def cong: if_cong)
  next
    case False
    define h where "h = fld ci_hash uc i mod uc_hashsize uc"
    define u1 where "u1 = (if fld ci_prev uc i = 0 then uc\<lparr>uc_hashtable := (uc_hashtable uc)[h := i]\<rparr> else uc)"
    define u2 where "u2 = (if uc_lru_head u1 = 0 \<and> fld ci_lru_prev uc i = 0 then u1\<lparr>uc_lru_head := i\<rparr> else u1)"
    define u3 where "u3 = (if uc_lru_tail u2 = 0 \<and> fld ci_lru_next uc i = 0 then u2\<lparr>uc_lru_tail := i\<rparr> else u2)"
    have h: "h < length (uc_hashtable uc)" using Cons.prems(2,3) by (simp add: h_def)
    have sb: "(if fld ci_prev uc i = 0 then set_bucket (fld ci_hash uc i) i uc else Some uc) = Some u1"
      using h by (simp add: set_bucket_def Let_def h_def u1_def)
    define ns where "ns = (if ci_expires (uc_items uc ! i) \<noteq> 0 \<and> (s = 0 \<or> s > ci_expires (uc_items uc ! i)) then ci_expires (uc_items uc ! i) else s)"
    have st: "fix_loop (i # xs) n s uc = fix_loop xs (n + 1) ns u3"
      unfolding fix_loop.simps at bind.bind_lunit f Let_def sb ns_def [symmetric] u2_def [symmetric] u3_def [symmetric] using False by simp
    have p3: "uc_items u3 = uc_items uc" "setup_of u3 = setup_of uc" "uc_data u3 = uc_data uc" "uc_bitmap u3 = uc_bitmap uc"
      "uc_bitmap_pos u3 = uc_bitmap_pos uc" "uc_unused_ptr u3 = uc_unused_ptr uc" "uc_unused_stack u3 = uc_unused_stack uc"
      "uc_hashsize u3 = uc_hashsize uc" "uc_hashtable u3 = (if fld ci_prev uc i = 0 then (uc_hashtable uc)[h := i] else uc_hashtable uc)"
      "uc_lru_head u3 = (if uc_lru_head uc = 0 \<and> fld ci_lru_prev uc i = 0 then i else uc_lru_head uc)"
      "uc_lru_tail u3 = (if uc_lru_tail uc = 0 \<and> fld ci_lru_next uc i = 0 then i else uc_lru_tail uc)"
      by (simp_all add: u3_def u2_def u1_def setup_of_def)
    have fu: "fld g u3 = fld g uc" for g :: "upsgi_cache_item \<Rightarrow> 'x" by (rule fld_cong [OF p3(1)])
    have hd: "heads_of uc (i # xs) (uc_hashtable uc) = heads_of u3 xs (uc_hashtable u3)"
      using False unfolding heads_of_def fu p3(8,9) h_def by simp
    have lh: "(if uc_lru_head uc \<noteq> 0 then uc_lru_head uc else first_with (\<lambda>i. fld ci_keysize uc i \<noteq> 0 \<and> fld ci_lru_prev uc i = 0) (i # xs)) =
        (if uc_lru_head u3 \<noteq> 0 then uc_lru_head u3 else first_with (\<lambda>i. fld ci_keysize uc i \<noteq> 0 \<and> fld ci_lru_prev uc i = 0) xs)"
      using False i(1) by (simp add: p3(10))
    have lt: "(if uc_lru_tail uc \<noteq> 0 then uc_lru_tail uc else first_with (\<lambda>i. fld ci_keysize uc i \<noteq> 0 \<and> fld ci_lru_next uc i = 0) (i # xs)) =
        (if uc_lru_tail u3 \<noteq> 0 then uc_lru_tail u3 else first_with (\<lambda>i. fld ci_keysize uc i \<noteq> 0 \<and> fld ci_lru_next uc i = 0) xs)"
      using False i(1) by (simp add: p3(11))
    have ln: "length (uc_hashtable u3) = uc_hashsize uc" using Cons.prems(3) by (simp add: p3(9))
    show ?thesis using Cons.IH [of u3 "n + 1" ns] Cons.prems False ln unfolding st hd lh lt fu p3(1-8) by (simp cong: if_cong)
  qed
qed


text \<open>The item with an empty back link is the first of its list.\<close>

lemma dll_inner: "dll nx pv p xs q \<Longrightarrow> 0 \<notin> set xs \<Longrightarrow> p \<noteq> 0 \<Longrightarrow> i \<in> set xs \<Longrightarrow> pv i \<noteq> 0"
  by (induction xs arbitrary: p) auto

lemma dll_first: "dll nx pv 0 xs q \<Longrightarrow> 0 \<notin> set xs \<Longrightarrow> i \<in> set xs \<Longrightarrow> pv i = 0 \<longleftrightarrow> i = hd xs"
  by (cases xs) (auto dest: dll_inner)

lemma dll_last: "dll nx pv p xs 0 \<Longrightarrow> 0 \<notin> set xs \<Longrightarrow> distinct xs \<Longrightarrow> i \<in> set xs \<Longrightarrow> nx i = 0 \<longleftrightarrow> i = last xs"
proof (induction xs arbitrary: p)
  case (Cons x xs)
  show ?case
  proof (cases "xs = []")
    case False
    then have "hd xs \<noteq> 0" using Cons.prems(2) by (metis hd_in_set list.set_intros(2))
    then show ?thesis using Cons False last_in_set [OF False] by auto
  qed (use Cons in auto)
qed simp

lemma filter_one: "distinct xs \<Longrightarrow> a \<in> set xs \<Longrightarrow> (\<And>i. i \<in> set xs \<Longrightarrow> P i \<longleftrightarrow> i = a) \<Longrightarrow> filter P xs = [a]"
proof (induction xs)
  case (Cons x xs)
  show ?case
  proof (cases "x = a")
    case True
    then have "filter P xs = []" using Cons.prems by (auto simp: filter_empty_conv)
    then show ?thesis using True Cons.prems by simp
  qed (use Cons in auto)
qed simp

lemma first_with_filter: "first_with P xs = (case filter P xs of [] \<Rightarrow> 0 | i # _ \<Rightarrow> i)"
  by (induction xs) auto

text \<open>The search for the one item of a list with a null link.\<close>

lemma first_of_list:
  assumes "set l = {i. 0 < i \<and> i < m \<and> K i}" "\<And>i. i \<in> set l \<Longrightarrow> Q i \<longleftrightarrow> i = a" "l \<noteq> [] \<Longrightarrow> a \<in> set l"
  shows "filter (\<lambda>i. K i \<and> Q i) [1 ..< m] = (if l = [] then [] else [a])"
proof (cases "l = []")
  case True
  then have "\<not> K i" if "i \<in> set [1 ..< m]" for i using assms(1) that by auto
  then show ?thesis using True by (simp add: filter_empty_conv)
next
  case False
  then have a: "a \<in> set l" by (rule assms(3))
  have "filter (\<lambda>i. K i \<and> Q i) [1 ..< m] = [a]"
  proof (rule filter_one)
    show "a \<in> set [1 ..< m]" using a assms(1) by auto
    fix i assume "i \<in> set [1 ..< m]"
    then show "K i \<and> Q i \<longleftrightarrow> i = a" using assms(1,2) a by fastforce
  qed simp
  then show ?thesis using False by simp
qed

lemma store_restored:
  assumes "cache_inv uc" "uc_bitmap uc = None" "setup_of cfg = setup_of uc" "uc_lru_head cfg = 0" "uc_lru_tail cfg = 0"
  shows "\<exists>u. upsgi_cache_init_store False (uc_items uc) (uc_data uc) cfg = Some u \<and> cache_inv u \<and> cache_map u = cache_map uc"
proof -
  note inv = cache_invD [OF assms(1)] note dim = inv(1) [unfolded dims_inv_def] note sc = setup_eqD [OF assms(3)]
  let ?m = "uc_max_items uc" and ?n = "[1 ..< uc_max_items uc]"
  define v where "v = (upsgi_cache_init False cfg)\<lparr>uc_items := uc_items uc, uc_data := uc_data uc, uc_unused_ptr := 0\<rparr>"
  have pv: "uc_items v = uc_items uc" "uc_data v = uc_data uc" "uc_unused_ptr v = 0" "uc_unused_stack v = [0 ..< ?m]"
    "uc_hashtable v = replicate (uc_hashsize uc) 0" "uc_hashsize v = uc_hashsize uc" "uc_bitmap v = None" "uc_max_items v = ?m"
    "uc_lru_head v = 0" "uc_lru_tail v = 0" using sc assms(4,5) by (simp_all add: v_def upsgi_cache_init_def)
  have sv: "setup_of v = setup_of uc" using assms(2,3) by (simp add: v_def upsgi_cache_init_def setup_of_def)
  have fv: "fld g v = fld g uc" for g :: "upsgi_cache_item \<Rightarrow> 'x" by (rule fld_cong [OF pv(1)])
  have m: "0 < ?m" "length (uc_items uc) = ?m" using dim by blast+
  have "set ?n \<subseteq> {1 ..< length (uc_items v)}" "0 < uc_hashsize v" "length (uc_hashtable v) = uc_hashsize v"
    "uc_unused_ptr v + length ?n < length (uc_unused_stack v)" using dim by (simp_all add: pv)
  note fl = fix_loop_ok [OF this, of 0 0, unfolded pv(3,9,10) add_0 simp_thms if_False]
  obtain ns u1 where u1: "fix_loop ?n 0 0 v = Some (length (filter (\<lambda>i. fld ci_keysize v i \<noteq> 0) ?n), ns, u1)" "uc_items u1 = uc_items v"
     "setup_of u1 = setup_of v" "uc_data u1 = uc_data v" "uc_bitmap u1 = uc_bitmap v" "uc_bitmap_pos u1 = uc_bitmap_pos v"
     "uc_hashtable u1 = heads_of v ?n (uc_hashtable v)" "uc_unused_ptr u1 = length (filter (\<lambda>i. fld ci_keysize v i = 0) ?n)"
     "length (uc_unused_stack u1) = length (uc_unused_stack v)"
     "take (uc_unused_ptr u1 + 1) (uc_unused_stack u1) = take 1 (uc_unused_stack v) @ filter (\<lambda>i. fld ci_keysize v i = 0) ?n"
     "uc_lru_head u1 = first_with (\<lambda>i. fld ci_keysize v i \<noteq> 0 \<and> fld ci_lru_prev v i = 0) ?n"
     "uc_lru_tail u1 = first_with (\<lambda>i. fld ci_keysize v i \<noteq> 0 \<and> fld ci_lru_next v i = 0) ?n"
    using fl by (elim exE conjE)
  define u where "u = u1\<lparr>uc_next_scan := ns, uc_n_items := length (filter (\<lambda>i. fld ci_keysize uc i \<noteq> 0) ?n)\<rparr>"
  have op: "upsgi_cache_init_store False (uc_items uc) (uc_data uc) cfg = Some u"
  proof -
    have "uc_max_items ((upsgi_cache_init False cfg)\<lparr>uc_items := uc_items uc, uc_data := uc_data uc\<rparr>) = ?m"
      using sc(6) by (simp add: upsgi_cache_init_def)
    then show ?thesis
      unfolding upsgi_cache_init_store_def upsgi_cache_fix_def v_def [symmetric] by (simp only: u1(1) fv) (simp add: u_def)
  qed
  have fu: "fld g u = fld g uc" for g :: "upsgi_cache_item \<Rightarrow> 'x" by (rule fld_cong) (simp add: u_def u1(2) pv(1))
  have su: "setup_of u = setup_of uc" using u1(3) sv by (simp add: u_def setup_of_def)
  note s = setup_eqD [OF su]
  have lv: "live u = live uc" and ky: "key_of u = key_of uc" and en: "entry_of u = entry_of uc"
    by (simp_all add: live_def s fu key_of_def entry_of_def fun_eq_iff)
  have vl: "value_of u = value_of uc" using u1(4) pv(2) by (simp add: value_of_def [abs_def] fu s) (simp add: u_def)
  obtain ch where bk: "bucket_inv uc ch" using inv(2) by blast
  have ch: "dll (fld ci_next uc) (fld ci_prev uc) 0 (ch h) 0" "0 \<notin> set (ch h)" "distinct (ch h)"
    "set (ch h) = {i \<in> live uc. fld ci_hash uc i mod uc_hashsize uc = h}" if "h < uc_hashsize uc" for h
  proof -
    show "set (ch h) = {i \<in> live uc. fld ci_hash uc i mod uc_hashsize uc = h}" using bk that by (simp add: bucket_inv_def)
    then show "0 \<notin> set (ch h)" by (simp add: live_def)
  qed (use bk that in \<open>simp_all add: bucket_inv_def chained_def\<close>)
  have "heads_of v ?n (uc_hashtable v) ! h = first0 (ch h)" if h: "h < uc_hashsize uc" for h
  proof -
    have "filter (\<lambda>i. (fld ci_keysize uc i \<noteq> 0 \<and> fld ci_hash uc i mod uc_hashsize uc = h) \<and> fld ci_prev uc i = 0) ?n =
        (if ch h = [] then [] else [hd (ch h)])"
    proof (rule first_of_list)
      show "set (ch h) = {i. 0 < i \<and> i < ?m \<and> fld ci_keysize uc i \<noteq> 0 \<and> fld ci_hash uc i mod uc_hashsize uc = h}"
        unfolding ch(4) [OF h] live_def by auto
      show "fld ci_prev uc i = 0 \<longleftrightarrow> i = hd (ch h)" if "i \<in> set (ch h)" for i by (rule dll_first [OF ch(1,2) [OF h] that])
    qed simp
    moreover have "(\<lambda>i. fld ci_keysize uc i \<noteq> 0 \<and> fld ci_prev uc i = 0 \<and> fld ci_hash uc i mod uc_hashsize uc = h) =
      (\<lambda>i. (fld ci_keysize uc i \<noteq> 0 \<and> fld ci_hash uc i mod uc_hashsize uc = h) \<and> fld ci_prev uc i = 0)" by auto
    ultimately show ?thesis using heads_nth [of h "uc_hashtable v" v ?n] h by (simp add: pv fv)
  qed
  moreover have c: "chained uc ch" using bk by (simp add: bucket_inv_def)
  ultimately have "uc_hashtable u = uc_hashtable uc"
    by (intro nth_equalityI) (auto simp: u_def u1(7) pv(5) chained_def)
  then have "chained u ch"
    using c chained_cong [of u uc ch] u1(2) pv(1) by (simp add: fu s) (simp add: u_def)
  then have "bucket_inv u ch" using bk by (simp add: bucket_inv_def lv fu s)
  moreover have "dims_inv u"
    by (rule dims_same [OF inv(1) su]) (use u1 pv dim in \<open>simp_all add: fu\<close>, simp_all add: u_def)
  moreover have "keys_inv u" by (rule keys_fewer [OF inv(3) _ _ su]) (simp_all add: lv en)
  moreover have "count_inv u"
  proof -
    have "set (filter (\<lambda>i. fld ci_keysize uc i \<noteq> 0) ?n) = live uc" by (auto simp: live_def)
    then have "card (live uc) = length (filter (\<lambda>i. fld ci_keysize uc i \<noteq> 0) ?n)" using distinct_card [of "filter (\<lambda>i. fld ci_keysize uc i \<noteq> 0) ?n"] by simp
    then show ?thesis by (simp add: count_inv_def lv) (simp add: u_def)
  qed
  moreover have "free_inv u"
  proof -
    let ?d = "filter (\<lambda>i. fld ci_keysize uc i = 0) ?n"
    have "take 1 [0 ..< ?m] = [0]" using m(1) by (cases ?m) (simp_all add: upt_rec [of 0] del: upt_Suc)
    then have st: "take (uc_unused_ptr u + 1) (uc_unused_stack u) = 0 # ?d" using u1(10) by (simp add: pv fv u_def)
    then have "tl (take (uc_unused_ptr u + 1) (uc_unused_stack u)) = ?d" by simp
    then have tk: "take (uc_unused_ptr u) (tl (uc_unused_stack u)) = ?d" by (cases "uc_unused_stack u") simp_all
    have "length ?d \<le> ?m - 1" using length_filter_le [of "\<lambda>i. fld ci_keysize uc i = 0" ?n] by simp
    then have "uc_unused_ptr u < ?m" using u1(8) m(1) by (simp add: u_def fv)
    moreover have "set ?d = {1 ..< ?m} - live uc" by (auto simp: live_def)
    ultimately show ?thesis by (simp add: free_inv_def tk lv s)
  qed
  moreover have "block_inv u"
    by (rule block_fewer [OF inv(6) _ _ su]) (use u1(5) pv(7) in \<open>simp_all add: lv en\<close>, simp add: u_def)
  moreover have "lru_inv u"
  proof (cases "uc_purge_lru uc")
    case True
    then obtain l where l: "ranked uc l" "set l = live uc" using inv(7) by (auto simp: lru_inv_def)
    have d: "dll (fld ci_lru_next uc) (fld ci_lru_prev uc) 0 l 0" "0 \<notin> set l" "distinct l" using l(1) by (auto simp: ranked_def)
    have sl: "set l = {i. 0 < i \<and> i < ?m \<and> fld ci_keysize uc i \<noteq> 0}" unfolding l(2) live_def by auto
    have "filter (\<lambda>i. fld ci_keysize uc i \<noteq> 0 \<and> fld ci_lru_prev uc i = 0) ?n = (if l = [] then [] else [hd l])"
      by (rule first_of_list [OF sl dll_first [OF d(1,2)]]) simp_all
    moreover have "filter (\<lambda>i. fld ci_keysize uc i \<noteq> 0 \<and> fld ci_lru_next uc i = 0) ?n = (if l = [] then [] else [last l])"
      by (rule first_of_list [OF sl dll_last [OF d]]) simp_all
    ultimately have "uc_lru_head u1 = first0 l" "uc_lru_tail u1 = last0 l" using u1(11,12) by (simp_all add: fv first_with_filter)
    then have "ranked u l" using l(1) by (simp add: ranked_def fu) (simp add: u_def u1(2) pv(1))
    then show ?thesis using l(2) by (auto simp: lru_inv_def lv)
  next
    case False
    then show ?thesis by (simp add: lru_inv_def s)
  qed
  ultimately have iu: "cache_inv u" by (auto simp: cache_inv_def)
  have "cache_map u = cache_map uc" by (rule map_eqI [OF assms(1) iu lv ky]) (simp add: vl)
  with op iu show ?thesis by blast
qed

end
