(* ===== verification/Upsgi_CacheNet.thy ===== *)
theory Upsgi_CacheNet
  imports Upsgi_CacheOps Upsgi_Hash
begin

text \<open>
  The cache and the outside, \<open>core/cache.c\<close>: the datagrams of the other nodes, the definitions of caches
  (\<open>upsgi_cache_create\<close>, with \<open>upsgi_kvlist_parse\<close> of \<open>core/utils.c\<close>), the list of caches, and the magic
  functions that work on a local cache or ask a cache server.  The lemmas show that a definition the code
  accepts gives a cache that fulfils its invariant, that a set datagram does on the receiving node what it
  says, and that requests and option lists are read as they were written.
\<close>

section \<open>Datagrams from other nodes\<close>

text \<open>One round of \<open>cache_udp_server_loop\<close> on the datagram it has read.  A datagram of up to 7 bytes is only
  logged, but it cannot pass the checks that follow: its packet size is at most 3.\<close>

definition udp_set :: "nat \<Rightarrow> char list \<Rightarrow> nat \<Rightarrow> nat \<Rightarrow> upsgi_cache \<Rightarrow> upsgi_cache option" where
  "udp_set now buf pktsize keylen uc =
     (if keylen + 2 + 2 > pktsize then Some uc
      else
       (let vallen = rd16 (drop (6 + keylen) buf); key = take keylen (drop 6 buf); val = take vallen (drop (8 + keylen) buf);
            es = rd16 (drop (8 + keylen + vallen) buf);
            store = (\<lambda>e. map_option snd (upsgi_cache_set2 now key val e 0xe uc)) in
        if 4 + keylen + vallen > pktsize then Some uc
        else if 2 + keylen + 2 + vallen + 2 < pktsize then
          (if 6 + keylen + vallen + es > pktsize then Some uc
           else do {
             e \<leftarrow> upsgi_str_num (take es (drop (10 + keylen + vallen) buf));
             store (unat e)
           })
        else store 0))"

definition cache_udp_server :: "nat \<Rightarrow> char list \<Rightarrow> upsgi_cache \<Rightarrow> upsgi_cache option" where
  "cache_udp_server now buf uc =
     (if length buf \<le> 7 \<or> buf ! 0 \<noteq> CHR 0x6f then Some uc
      else
       (let pktsize = rd16 (drop 1 buf); ss = rd16 (drop 4 buf) in
        if pktsize + 4 \<noteq> length buf then Some uc
        else if 4 + ss > pktsize then Some uc
        else if buf ! 3 = CHR 0x0a then udp_set now buf pktsize ss uc
        else if buf ! 3 = CHR 0x0b then
          map_option snd (upsgi_cache_del2 now (take ss (drop 6 buf)) 0 flag_local uc)
        else Some uc))"

lemma rd16_here: "n < 65536 \<Longrightarrow> rd16 (le16 n @ xs) = n"
  by (rule rd16_le16)

lemma udp_bytes: "char_of (111 :: nat) = CHR 0x6f" "char_of (10 :: nat) = CHR 0x0a" "char_of (11 :: nat) = CHR 0x0b"
  by code_simp+

lemma udp_set_packet:
  assumes "length key + length val + length (nat_dec e) + 6 < 65536" "key \<noteq> []" "e < 10 ^ 19"
  shows "cache_udp_server now (udp_packet key val e 10) uc = map_option snd (upsgi_cache_set2 now key val e 0xe uc)"
proof -
  let ?es = "nat_dec e" and ?k = "length key" and ?v = "length val"
  define body where "body = le16 ?k @ key @ le16 ?v @ val @ le16 (length ?es) @ ?es"
  have bl: "length body = 6 + ?k + ?v + length ?es" by (simp add: body_def le16_def)
  have p: "udp_packet key val e 10 = CHR 0x6f # le16 (length body) @ CHR 0x0a # body" (is "_ = ?b")
    using assms(1) bl unfolding udp_packet_def Let_def udp_bytes body_def by (simp add: le16_def)
  have es: "upsgi_str_num ?es = Some (of_nat e)" by (rule upsgi_str_num_nat_dec [OF assms(3)])
  have ue: "unat (of_nat e :: 64 word) = e" using assms(3) by (simp add: unat_of_nat_small)
  have d6: "drop 6 ?b = key @ le16 ?v @ val @ le16 (length ?es) @ ?es" by (simp add: le16_def body_def)
  have s: "drop (m + n) xs = drop n (drop m xs)" for m n and xs :: "char list" by (simp add: add.commute)
  have d6k: "drop (6 + ?k) ?b = le16 ?v @ val @ le16 (length ?es) @ ?es" unfolding s [of 6] d6 by simp
  have e8: "8 + ?k = 6 + ?k + 2" by simp
  have d8k: "drop (8 + ?k) ?b = val @ le16 (length ?es) @ ?es" unfolding e8 s [of "6 + ?k"] d6k by simp
  have d8: "drop (8 + ?k + ?v) ?b = le16 (length ?es) @ ?es" unfolding s [of "8 + ?k"] d8k by simp
  have e10: "10 + ?k + ?v = 8 + ?k + ?v + 2" by simp
  have d10: "drop (10 + ?k + ?v) ?b = ?es" unfolding e10 s [of "8 + ?k + ?v"] d8 by simp
  have d: "drop 1 ?b = le16 (length body) @ CHR 0x0a # body" "drop 4 ?b = body" by (simp_all add: le16_def)
  note d = d d6 d6k d8k d8 d10
  have r: "rd16 (drop 1 ?b) = length body" "rd16 (drop 4 ?b) = ?k" "rd16 (drop (6 + ?k) ?b) = ?v" "rd16 (drop (8 + ?k + ?v) ?b) = length ?es"
    unfolding d using assms(1) bl by (simp_all add: rd16_here body_def)
  have n: "?b ! 0 = CHR 0x6f" "?b ! 3 = CHR 0x0a" "length ?b = length body + 4" by (simp_all add: le16_def)
  have nz: "0 < length ?es" by (subst nat_dec.simps) simp
  have "cache_udp_server now ?b uc = udp_set now ?b (length body) ?k uc"
    unfolding cache_udp_server_def Let_def r n using bl by simp
  also have "\<dots> = map_option snd (upsgi_cache_set2 now key val e 0xe uc)"
    unfolding udp_set_def Let_def unfolding r(3) unfolding r(4) unfolding d using bl nz es ue by simp
  finally show ?thesis using p by simp
qed

lemma udp_del_dropped: "cache_udp_server now (udp_packet key val e 11) uc = Some uc"
proof -
  define k where "k = u16_arg key"
  have k: "length k < 65536" by (simp add: k_def u16_arg_def)
  define n where "n = (length k + 2) mod 65536"
  have p: "udp_packet key val e 11 = CHR 0x6f # le16 n @ CHR 0x0b # le16 (length k) @ k" (is "_ = ?b")
    by (simp add: udp_packet_def Let_def k_def [symmetric] n_def le16_def udp_bytes)
  have d: "drop 1 ?b = le16 n @ CHR 0x0b # le16 (length k) @ k" "drop 4 ?b = le16 (length k) @ k" by (simp_all add: le16_def)
  have r: "rd16 (drop 1 ?b) = n" "rd16 (drop 4 ?b) = length k" unfolding d using k by (simp_all add: rd16_here n_def)
  have "n \<le> length k + 2" by (simp add: n_def)
  then have "4 + length k > n" by simp
  then have "cache_udp_server now ?b uc = Some uc" unfolding cache_udp_server_def Let_def r by simp
  with p show ?thesis by simp
qed


section \<open>Definitions of caches\<close>

text \<open>\<open>upsgi_kvlist_parse\<close>: the items of the list, and the name and the value of an item.  In the first pass a
  backslash takes the next character as it is; in the second pass it removes it from the name.\<close>

fun kv_items :: "char \<Rightarrow> bool \<Rightarrow> char list \<Rightarrow> char list \<Rightarrow> char list list" where
  "kv_items sep escaped cur [] = (if cur = [] then [] else [cur])"
| "kv_items sep escaped cur (c # cs) =
     (if c = sep \<and> \<not> escaped then cur # kv_items sep False [] cs
      else if c = CHR 0x5c \<and> \<not> escaped then kv_items sep True cur cs
      else kv_items sep False (cur @ [c]) cs)"

fun kv_pair :: "char \<Rightarrow> bool \<Rightarrow> char list \<Rightarrow> char list \<Rightarrow> (char list \<times> char list) option" where
  "kv_pair sep escaped name [] = None"
| "kv_pair sep escaped name (c # cs) =
     (if c = sep \<and> \<not> escaped then Some (name, cs)
      else if c = CHR 0x5c \<and> \<not> escaped then kv_pair sep True name cs
      else if escaped then kv_pair sep False name cs
      else kv_pair sep False (name @ [c]) cs)"

definition upsgi_kvlist_parse :: "char list \<Rightarrow> char \<Rightarrow> char \<Rightarrow> (char list \<times> char list) list" where
  "upsgi_kvlist_parse src list_separator kv_separator =
     List.map_filter (kv_pair kv_separator False []) (kv_items list_separator False [] src)"

text \<open>A variable keeps the value of the last item with one of its names.\<close>

definition kv_get :: "char list list \<Rightarrow> (char list \<times> char list) list \<Rightarrow> char list option" where
  "kv_get names kvs =
     (case filter (\<lambda>(k, v). k \<in> set names) kvs of [] \<Rightarrow> None | x # xs \<Rightarrow> Some (snd (last (x # xs))))"

text \<open>\<open>strtoul\<close> and \<open>strtol\<close> in base 10: leading white space and a sign are accepted, the rest is ignored, and a
  value that does not fit becomes the greatest (or the least) one.\<close>

definition strto_parts :: "char list \<Rightarrow> bool \<times> nat" where
  "strto_parts s =
     (let t = dropWhile isspace s; neg = (t \<noteq> [] \<and> hd t = CHR 0x2d);
          ds = takeWhile is_digit (if t \<noteq> [] \<and> (hd t = CHR 0x2d \<or> hd t = CHR 0x2b) then tl t else t) in
      (neg, dec_val 0 ds))"

definition upsgi_n64 :: "char list \<Rightarrow> nat" where
  "upsgi_n64 s =
     (case strto_parts s of (neg, v) \<Rightarrow> if v > size_max then size_max else if neg then size_sub 0 v else v)"

definition strtol10 :: "char list \<Rightarrow> 64 word" where
  "strtol10 s =
     (case strto_parts s of (neg, v) \<Rightarrow>
        word_of_int (if neg then max (- (2 ^ 63)) (- int v) else min (2 ^ 63 - 1) (int v)))"

text \<open>The hash functions that depend on the key alone.\<close>

fun key_hash :: "hash_fun \<Rightarrow> (char list \<Rightarrow> 32 word) option" where
  "key_hash Djb33x = Some djb33x_hash"
| "key_hash Murmur2 = Some murmur2_hash"
| "key_hash _ = None"

definition cache_zero :: upsgi_cache where
  "cache_zero = \<lparr>uc_name = [], uc_keysize = 0, uc_blocks = 0, uc_blocksize = 0, uc_hash = djb33x_hash, uc_hashtable = [], uc_hashsize = 0,
     uc_unused_stack = [], uc_unused_ptr = 0, uc_bitmap = None, uc_bitmap_pos = 0, uc_max_items = 0, uc_max_item_size = 0,
     uc_n_items = 0, uc_items = [], uc_use_last_modified = False, uc_last_modified_at = 0, uc_data = [], uc_no_expire = False,
     uc_full = 0, uc_hits = 0, uc_miss = 0, uc_math_initial = 0, uc_nodes = [], uc_udp = [], uc_next_scan = 0, uc_purge_lru = False,
     uc_lru_head = 0, uc_lru_tail = 0, uc_lazy_expire = False, uc_sweep_on_full = 0, uc_clear_on_full = False\<rparr>"

abbreviation umax16 :: nat where "umax16 \<equiv> 65536"

text \<open>\<open>upsgi_cache_create\<close>: \<open>None\<close> when the process ends with an error, or when the hash is one of the two that
  are not functions of the key.\<close>

definition checked_sizes :: "nat \<Rightarrow> nat \<Rightarrow> nat \<Rightarrow> nat \<Rightarrow> nat \<Rightarrow> bool \<Rightarrow> upsgi_cache \<Rightarrow> (bool \<times> upsgi_cache) option" where
  "checked_sizes items bs blocks hashsize keysize bitmap uc =
     (if items = 0 \<or> bs = 0 \<or> blocks = 0 \<or> hashsize = 0 \<or> keysize = 0 \<or> keysize \<ge> umax16 \<or> blocks < items then None
      else Some (bitmap, uc\<lparr>uc_max_items := items, uc_blocks := blocks, uc_blocksize := bs, uc_hashsize := hashsize, uc_keysize := keysize,
        uc_max_item_size := if bitmap then bs * blocks mod 2 ^ 64 else bs\<rparr>))"

definition cache_config :: "hash_algos \<Rightarrow> (char list \<times> char list) list \<Rightarrow> (bool \<times> upsgi_cache) option" where
  "cache_config algos kvs =
     (let opt = (\<lambda>names. kv_get names kvs);
          num = (\<lambda>names d. case opt names of None \<Rightarrow> d | Some v \<Rightarrow> upsgi_n64 v);
          items = num [''max_items'', ''maxitems'', ''items''] 0 in do {
        name \<leftarrow> opt [''name''];
        hash \<leftarrow> upsgi_hash_algo_get algos (case opt [''hash''] of None \<Rightarrow> ''djb33x'' | Some h \<Rightarrow> h);
        h \<leftarrow> key_hash hash;
        checked_sizes items (num [''blocksize''] umax16) (num [''blocks''] items) (num [''hashsize'', ''hash_size''] umax16 mod 2 ^ 32)
          (num [''keysize'', ''key_size''] 2048) (opt [''bitmap''] \<noteq> None)
          (cache_zero\<lparr>uc_name := name, uc_hash := h,
             uc_math_initial := (case opt [''math_initial''] of None \<Rightarrow> 0 | Some v \<Rightarrow> strtol10 v),
             uc_lazy_expire := (opt [''lazy_expire'', ''lazy''] \<noteq> None), uc_sweep_on_full := num [''sweep_on_full''] 0,
             uc_clear_on_full := (opt [''clear_on_full''] \<noteq> None), uc_no_expire := (opt [''no_expire''] \<noteq> None),
             uc_purge_lru := (opt [''purge_lru'', ''lru''] \<noteq> None)\<rparr>)
      })"

definition default_config :: upsgi_cache where
  "default_config = cache_zero\<lparr>uc_name := ''default'', uc_blocksize := umax16, uc_max_item_size := umax16, uc_max_items := 64,
     uc_blocks := 64, uc_keysize := 2048, uc_hashsize := umax16\<rparr>"

definition upsgi_cache_create :: "hash_algos \<Rightarrow> char list option \<Rightarrow> upsgi_cache list \<Rightarrow> upsgi_cache list option" where
  "upsgi_cache_create algos arg caches =
     (case arg of
        None \<Rightarrow> Some (caches @ [upsgi_cache_init False default_config])
      | Some a \<Rightarrow> map_option (\<lambda>(b, uc). caches @ [upsgi_cache_init b uc]) (cache_config algos (upsgi_kvlist_parse a CHR '','' CHR ''='')))"

fun create_each :: "hash_algos \<Rightarrow> char list list \<Rightarrow> upsgi_cache list \<Rightarrow> upsgi_cache list option" where
  "create_each algos [] caches = Some caches"
| "create_each algos (a # as) caches = do { c \<leftarrow> upsgi_cache_create algos (Some a) caches; create_each algos as c }"

definition upsgi_cache_create_all :: "hash_algos \<Rightarrow> char list list \<Rightarrow> upsgi_cache list \<Rightarrow> upsgi_cache list option" where
  "upsgi_cache_create_all algos defs caches = create_each (upsgi_hash_algo_register_all algos) defs caches"

text \<open>Finding a cache: the position of the first one with the name; the empty name is the first cache.\<close>

fun name_pos :: "char list \<Rightarrow> upsgi_cache list \<Rightarrow> nat option" where
  "name_pos name [] = None"
| "name_pos name (uc # ucs) = (if uc_name uc = name then Some 0 else map_option Suc (name_pos name ucs))"

definition upsgi_cache_by_name :: "upsgi_cache list \<Rightarrow> char list \<Rightarrow> nat option" where
  "upsgi_cache_by_name caches name = (if name = [] then (if caches = [] then None else Some 0) else name_pos name caches)"

fun namelen_pos :: "char list \<Rightarrow> upsgi_cache list \<Rightarrow> nat option" where
  "namelen_pos name [] = None"
| "namelen_pos name (uc # ucs) = (if upsgi_strncmp (uc_name uc) name = 0 then Some 0 else map_option Suc (namelen_pos name ucs))"

definition upsgi_cache_by_namelen :: "upsgi_cache list \<Rightarrow> char list \<Rightarrow> nat option" where
  "upsgi_cache_by_namelen caches name =
     (if name = [] \<or> hd name = CHR 0x00 then (if caches = [] then None else Some 0) else namelen_pos name caches)"

definition upsgi_cache_ensure_named_local :: "char list \<Rightarrow> nat \<Rightarrow> nat \<Rightarrow> upsgi_cache list \<Rightarrow> nat \<times> upsgi_cache list" where
  "upsgi_cache_ensure_named_local name max_items blocksize caches =
     (case upsgi_cache_by_name caches name of
        Some i \<Rightarrow> (i, caches)
      | None \<Rightarrow>
          (length caches, caches @ [upsgi_cache_init False (cache_zero\<lparr>uc_name := name, uc_max_items := max_items, uc_blocks := max_items,
             uc_blocksize := blocksize, uc_max_item_size := blocksize, uc_keysize := 2048, uc_hashsize := umax16\<rparr>)]))"


section \<open>The magic functions\<close>

record magic_context =
  mc_cmd :: "char list"
  mc_key :: "char list"
  mc_size :: "64 word"
  mc_expires :: "64 word"
  mc_status :: "char list"
  mc_cache :: "char list"

definition magic_zero :: magic_context where
  "magic_zero = \<lparr>mc_cmd = [], mc_key = [], mc_size = 0, mc_expires = 0, mc_status = [], mc_cache = []\<rparr>"

text \<open>\<open>None\<close>: a number is too long for \<open>upsgi_str_num\<close>.\<close>

definition upsgi_cache_magic_context_hook :: "char list \<Rightarrow> char list \<Rightarrow> magic_context \<Rightarrow> magic_context option" where
  "upsgi_cache_magic_context_hook key val mc =
     (if upsgi_strncmp key ''cmd'' = 0 then Some (mc\<lparr>mc_cmd := val\<rparr>)
      else if upsgi_strncmp key ''key'' = 0 then Some (mc\<lparr>mc_key := val\<rparr>)
      else if upsgi_strncmp key ''expires'' = 0 then map_option (\<lambda>n. mc\<lparr>mc_expires := n\<rparr>) (upsgi_str_num val)
      else if upsgi_strncmp key ''size'' = 0 then map_option (\<lambda>n. mc\<lparr>mc_size := n\<rparr>) (upsgi_str_num val)
      else if upsgi_strncmp key ''cache'' = 0 then Some (mc\<lparr>mc_cache := val\<rparr>)
      else if upsgi_strncmp key ''status'' = 0 then Some (mc\<lparr>mc_status := val\<rparr>)
      else Some mc)"

fun magic_hooks :: "(char list \<times> char list) list \<Rightarrow> magic_context \<Rightarrow> magic_context option" where
  "magic_hooks [] mc = Some mc"
| "magic_hooks ((k, v) # kvs) mc = do { m \<leftarrow> upsgi_cache_magic_context_hook k v mc; magic_hooks kvs m }"

text \<open>The request packets, behind the four bytes of the header.\<close>

definition magic_start :: "mem_env \<Rightarrow> upsgi_buffer" where
  "magic_start env = (upsgi_buffer_new env (page_size env))\<lparr>ub_pos := 4\<rparr>"

definition append_cache_name :: "mem_env \<Rightarrow> char list option \<Rightarrow> upsgi_buffer \<Rightarrow> upsgi_buffer c_result" where
  "append_cache_name env name ub =
     (case name of None \<Rightarrow> Ok ub | Some n \<Rightarrow> upsgi_buffer_append_keyval env ub ''cache'' n)"

definition prepare_magic_key :: "char list \<Rightarrow> mem_env \<Rightarrow> char list option \<Rightarrow> char list \<Rightarrow> upsgi_buffer c_result" where
  "prepare_magic_key cmd env name key =
     c_bind (upsgi_buffer_append_keyval env (magic_start env) ''cmd'' cmd) (\<lambda>u1.
     c_bind (upsgi_buffer_append_keyval env u1 ''key'' key) (append_cache_name env name))"

definition upsgi_cache_prepare_magic_get :: "mem_env \<Rightarrow> char list option \<Rightarrow> char list \<Rightarrow> upsgi_buffer c_result" where
  "upsgi_cache_prepare_magic_get = prepare_magic_key ''get''"

definition upsgi_cache_prepare_magic_exists :: "mem_env \<Rightarrow> char list option \<Rightarrow> char list \<Rightarrow> upsgi_buffer c_result" where
  "upsgi_cache_prepare_magic_exists = prepare_magic_key ''exists''"

definition upsgi_cache_prepare_magic_del :: "mem_env \<Rightarrow> char list option \<Rightarrow> char list \<Rightarrow> upsgi_buffer c_result" where
  "upsgi_cache_prepare_magic_del = prepare_magic_key ''del''"

definition upsgi_cache_prepare_magic_clear :: "mem_env \<Rightarrow> char list option \<Rightarrow> upsgi_buffer c_result" where
  "upsgi_cache_prepare_magic_clear env name =
     c_bind (upsgi_buffer_append_keyval env (magic_start env) ''cmd'' ''clear'') (append_cache_name env name)"

definition prepare_magic_store :: "char list \<Rightarrow> mem_env \<Rightarrow> char list option \<Rightarrow> char list \<Rightarrow> 64 word \<Rightarrow> 64 word \<Rightarrow> upsgi_buffer c_result" where
  "prepare_magic_store cmd env name key len expires =
     c_bind (upsgi_buffer_append_keyval env (magic_start env) ''cmd'' cmd) (\<lambda>u1.
     c_bind (upsgi_buffer_append_keyval env u1 ''key'' key) (\<lambda>u2.
     c_bind (upsgi_buffer_append_keynum env u2 ''size'' len) (\<lambda>u3.
     c_bind (if expires > 0 then upsgi_buffer_append_keynum env u3 ''expires'' expires else Ok u3) (\<lambda>u4.
     c_bind (upsgi_buffer_append_keynum env u4 ''size'' len) (append_cache_name env name)))))"

definition upsgi_cache_prepare_magic_set :: "mem_env \<Rightarrow> char list option \<Rightarrow> char list \<Rightarrow> 64 word \<Rightarrow> 64 word \<Rightarrow> upsgi_buffer c_result" where
  "upsgi_cache_prepare_magic_set = prepare_magic_store ''set''"

definition upsgi_cache_prepare_magic_update :: "mem_env \<Rightarrow> char list option \<Rightarrow> char list \<Rightarrow> 64 word \<Rightarrow> 64 word \<Rightarrow> upsgi_buffer c_result" where
  "upsgi_cache_prepare_magic_update = prepare_magic_store ''update''"

text \<open>
  The other end of a connection: \<open>peer server request\<close> is the dictionary it answers with and the bytes that
  follow, or \<open>None\<close> when connecting, writing or reading fails.
\<close>

type_synonym magic_peer = "char list \<Rightarrow> char list \<Rightarrow> (char list \<times> char list) option"

definition cache_magic_send_and_manage ::
    "mem_env \<Rightarrow> magic_peer \<Rightarrow> char list \<Rightarrow> upsgi_buffer c_result \<Rightarrow> char list \<Rightarrow> (magic_context \<times> char list) option" where
  "cache_magic_send_and_manage env peer server request stream =
     (case c_bind request (\<lambda>u. c_bind (upsgi_buffer_set_uh u 111 17) (\<lambda>u1. upsgi_buffer_append env u1 stream)) of
        Ok ub \<Rightarrow> do {
          (dict, rest) \<leftarrow> peer server (ub_content ub);
          (case upsgi_hooked_parse dict of
             (True, kvs) \<Rightarrow> map_option (\<lambda>mc. (mc, rest)) (magic_hooks kvs magic_zero)
           | (False, _) \<Rightarrow> None)
        }
      | _ \<Rightarrow> None)"

text \<open>Where a cache is: a local one, or a name on a server.\<close>

datatype cache_place = Local nat | Remote "char list" "char list" | Nowhere

definition cache_place :: "upsgi_cache list \<Rightarrow> char list option \<Rightarrow> cache_place" where
  "cache_place caches cache =
     (case cache of
        None \<Rightarrow> if caches = [] then Nowhere else Local 0
      | Some c \<Rightarrow>
          if CHR 0x40 \<in> set c then Remote (takeWhile (\<lambda>x. x \<noteq> CHR 0x40) c) (tl (dropWhile (\<lambda>x. x \<noteq> CHR 0x40) c))
          else (case upsgi_cache_by_name caches c of None \<Rightarrow> Nowhere | Some i \<Rightarrow> Local i))"

definition on_cache :: "nat \<Rightarrow> (upsgi_cache \<Rightarrow> ('a \<times> upsgi_cache) option) \<Rightarrow> upsgi_cache list \<Rightarrow> ('a \<times> upsgi_cache list) option" where
  "on_cache i f caches =
     (if i < length caches then map_option (\<lambda>(r, u). (r, caches[i := u])) (f (caches ! i)) else None)"

text \<open>What a remote call tells: the context of an answer with status \<open>ok\<close>.\<close>

definition magic_remote :: "mem_env \<Rightarrow> magic_peer \<Rightarrow> char list \<Rightarrow> upsgi_buffer c_result \<Rightarrow> char list \<Rightarrow> (magic_context \<times> char list) option" where
  "magic_remote env peer server request stream =
     (case cache_magic_send_and_manage env peer server request stream of
        Some (mc, rest) \<Rightarrow> if upsgi_strncmp (mc_status mc) ''ok'' = 0 then Some (mc, rest) else None
      | None \<Rightarrow> None)"

definition upsgi_cache_magic_get :: "mem_env \<Rightarrow> magic_peer \<Rightarrow> nat \<Rightarrow> char list \<Rightarrow> char list option \<Rightarrow> upsgi_cache list \<Rightarrow>
    ((char list \<times> nat) option \<times> upsgi_cache list) option" where
  "upsgi_cache_magic_get env peer now key cache caches =
     (case cache_place caches cache of
        Local i \<Rightarrow> on_cache i (upsgi_cache_get3 now key) caches
      | Remote name server \<Rightarrow>
          Some (case magic_remote env peer server (upsgi_cache_prepare_magic_get env (Some name) key) [] of
              Some (mc, rest) \<Rightarrow>
                if mc_size mc = 0 \<or> length rest < unat (mc_size mc) then None
                else Some (take (unat (mc_size mc)) rest, unat (mc_expires mc))
            | None \<Rightarrow> None, caches)
      | Nowhere \<Rightarrow> Some (None, caches))"

definition upsgi_cache_magic_exists :: "mem_env \<Rightarrow> magic_peer \<Rightarrow> nat \<Rightarrow> char list \<Rightarrow> char list option \<Rightarrow> upsgi_cache list \<Rightarrow>
    (bool \<times> upsgi_cache list) option" where
  "upsgi_cache_magic_exists env peer now key cache caches =
     (case cache_place caches cache of
        Local i \<Rightarrow> on_cache i (\<lambda>u. map_option (\<lambda>(n, u1). (n \<noteq> 0, u1)) (upsgi_cache_exists2 now key u)) caches
      | Remote name server \<Rightarrow>
          Some (magic_remote env peer server (upsgi_cache_prepare_magic_exists env (Some name) key) [] \<noteq> None, caches)
      | Nowhere \<Rightarrow> Some (False, caches))"

definition upsgi_cache_magic_set :: "mem_env \<Rightarrow> magic_peer \<Rightarrow> nat \<Rightarrow> char list \<Rightarrow> char list \<Rightarrow> nat \<Rightarrow> 64 word \<Rightarrow> char list option \<Rightarrow>
    upsgi_cache list \<Rightarrow> (bool \<times> upsgi_cache list) option" where
  "upsgi_cache_magic_set env peer now key val expires flags cache caches =
     (case cache_place caches cache of
        Local i \<Rightarrow> on_cache i (upsgi_cache_set2 now key val expires flags) caches
      | Remote name server \<Rightarrow>
          Some (magic_remote env peer server
              ((if bit flags FLAG_UPDATE then upsgi_cache_prepare_magic_update else upsgi_cache_prepare_magic_set)
                 env (Some name) key (of_nat (length val)) (of_nat expires)) val \<noteq> None, caches)
      | Nowhere \<Rightarrow> Some (False, caches))"

definition upsgi_cache_magic_del :: "mem_env \<Rightarrow> magic_peer \<Rightarrow> nat \<Rightarrow> char list \<Rightarrow> char list option \<Rightarrow> upsgi_cache list \<Rightarrow>
    (bool \<times> upsgi_cache list) option" where
  "upsgi_cache_magic_del env peer now key cache caches =
     (case cache_place caches cache of
        Local i \<Rightarrow> on_cache i (upsgi_cache_del2 now key 0 0) caches
      | Remote name server \<Rightarrow>
          Some (magic_remote env peer server (upsgi_cache_prepare_magic_del env (Some name) key) [] \<noteq> None, caches)
      | Nowhere \<Rightarrow> Some (False, caches))"

definition upsgi_cache_magic_clear :: "mem_env \<Rightarrow> magic_peer \<Rightarrow> nat \<Rightarrow> char list option \<Rightarrow> upsgi_cache list \<Rightarrow>
    (bool \<times> upsgi_cache list) option" where
  "upsgi_cache_magic_clear env peer now cache caches =
     (case cache_place caches cache of
        Local i \<Rightarrow> on_cache i (\<lambda>u. map_option (Pair True) (del_slots now [1 ..< uc_max_items u] u)) caches
      | Remote name server \<Rightarrow>
          Some (magic_remote env peer server (upsgi_cache_prepare_magic_clear env (Some name)) [] \<noteq> None, caches)
      | Nowhere \<Rightarrow> Some (False, caches))"


section \<open>The requests arrive as they were sent\<close>

lemma keyval_ok:
  assumes "ub_inv ub" "upsgi_buffer_append_keyval env ub k v = Ok u" "length k < 65536" "length v < 65536"
  shows "ub_inv u \<and> ub_content u = ub_content ub @ keyval_bytes k v"
  using ub.sink_all_ok [OF assms(1) assms(2) [unfolded append_keyval_sink]] assms(3,4) by (simp add: keyval_bytes_def keyval_u16le)

lemma nat_dec_short: "n < 10 ^ 19 \<Longrightarrow> length (nat_dec n) < 20"
  by (metis upsgi_str_num_nat_dec upsgi_str_num_def option.distinct(1))

lemma int_dec_word: "unat w < 2 ^ 63 \<Longrightarrow> int_dec (sint w) = nat_dec (unat w)" for w :: "64 word"
proof -
  assume "unat w < 2 ^ 63"
  then have "int (unat w) < int (2 ^ 63)" by (simp only: of_nat_less_iff)
  moreover have u: "uint w = int (unat w)" by simp
  ultimately have "uint w < 2 ^ 63" by (simp only: of_nat_power of_nat_numeral)
  then have "signed_take_bit 63 (uint w) = uint w" by (intro signed_take_bit_int_eq_self order_trans [of "- (2 ^ 63)" 0 "uint w"]) simp_all
  then have "sint w = uint w" by (simp add: sint_uint)
  moreover have "nat (uint w) = unat w" by simp
  moreover have "\<not> uint w < 0" using uint_ge_0 [of w] by linarith
  ultimately show ?thesis unfolding int_dec_def by (simp only: if_False)
qed

lemma keynum_ok:
  assumes "ub_inv ub" "upsgi_buffer_append_keynum env ub k n = Ok u" "length k < 65536" "unat n < 2 ^ 63"
  shows "ub_inv u \<and> ub_content u = ub_content ub @ keyval_bytes k (nat_dec (unat n))"
proof -
  have "unat n < 10 ^ 19" using assms(4) by simp
  then have "length (nat_dec (unat n)) < 20" by (rule nat_dec_short)
  moreover have "upsgi_buffer_append_keyval env ub k (nat_dec (unat n)) = Ok u"
    using assms(2) int_dec_word [OF assms(4)] by (simp add: upsgi_buffer_append_keynum_def upsgi_buffer_append_keyval_def Let_def split: if_splits)
  ultimately show ?thesis using keyval_ok [OF assms(1) _ assms(3)] by simp
qed

definition store_vars :: "char list \<Rightarrow> char list option \<Rightarrow> char list \<Rightarrow> 64 word \<Rightarrow> 64 word \<Rightarrow> (char list \<times> char list) list" where
  "store_vars cmd name key len expires =
     [(''cmd'', cmd), (''key'', key), (''size'', nat_dec (unat len))] @ (if expires > 0 then [(''expires'', nat_dec (unat expires))] else []) @
     [(''size'', nat_dec (unat len))] @ (case name of None \<Rightarrow> [] | Some n \<Rightarrow> [(''cache'', n)])"

lemma magic_start_ok: "4 \<le> page_size env \<Longrightarrow> ub_inv (magic_start env)" "4 \<le> page_size env \<Longrightarrow> length (ub_content (magic_start env)) = 4"
  by (simp_all add: magic_start_def upsgi_buffer_new_def ub_inv_def ub_content_def fresh_block_def)

lemma store_content:
  assumes "4 \<le> page_size env" "length cmd < 65536" "length key < 65536" "\<And>n. name = Some n \<Longrightarrow> length n < 65536"
    "unat len < 2 ^ 63" "unat expires < 2 ^ 63" "prepare_magic_store cmd env name key len expires = Ok u"
  shows "drop 4 (ub_content u) = encode_vars (store_vars cmd name key len expires)"
proof -
  obtain u1 u2 u3 u4 u5 where s: "upsgi_buffer_append_keyval env (magic_start env) ''cmd'' cmd = Ok u1"
    "upsgi_buffer_append_keyval env u1 ''key'' key = Ok u2" "upsgi_buffer_append_keynum env u2 ''size'' len = Ok u3"
    "(if expires > 0 then upsgi_buffer_append_keynum env u3 ''expires'' expires else Ok u3) = Ok u4"
    "upsgi_buffer_append_keynum env u4 ''size'' len = Ok u5" "append_cache_name env name u5 = Ok u"
    using assms(7) by (auto simp: prepare_magic_store_def res_simps)
  note a1 = keyval_ok [OF magic_start_ok(1) [OF assms(1)] s(1) _ assms(2), simplified]
  note a2 = keyval_ok [OF conjunct1 [OF a1] s(2) _ assms(3), simplified]
  note a3 = keynum_ok [OF conjunct1 [OF a2] s(3) _ assms(5), simplified]
  have a4: "ub_inv u4 \<and> ub_content u4 = ub_content u3 @ (if expires > 0 then keyval_bytes ''expires'' (nat_dec (unat expires)) else [])"
    using keynum_ok [OF conjunct1 [OF a3] _ _ assms(6), of env "''expires''"] s(4) a3 by (simp split: if_splits)
  note a5 = keynum_ok [OF conjunct1 [OF a4] s(5) _ assms(5), simplified]
  have a6: "ub_content u = ub_content u5 @ (case name of None \<Rightarrow> [] | Some n \<Rightarrow> keyval_bytes ''cache'' n)"
    using keyval_ok [OF conjunct1 [OF a5], of env "''cache''"] s(6) assms(4) by (auto simp: append_cache_name_def split: option.splits)
  show ?thesis using a1 a2 a3 a4 a5 a6 magic_start_ok(2) [OF assms(1)] by (auto simp: store_vars_def encode_vars_def split: option.splits)
qed

lemma hook_num: "unat w < 2 ^ 63 \<Longrightarrow> upsgi_str_num (nat_dec (unat w)) = Some w" for w :: "64 word"
  using upsgi_str_num_nat_dec [of "unat w"] by simp

lemma store_hooks:
  assumes "unat len < 2 ^ 63" "unat expires < 2 ^ 63"
  shows "magic_hooks (store_vars cmd name key len expires) magic_zero =
    Some \<lparr>mc_cmd = cmd, mc_key = key, mc_size = len, mc_expires = expires, mc_status = [], mc_cache = (case name of None \<Rightarrow> [] | Some n \<Rightarrow> n)\<rparr>"
  using hook_num [OF assms(1)] hook_num [OF assms(2)]
  by (auto simp: store_vars_def upsgi_cache_magic_context_hook_def upsgi_strncmp_def magic_zero_def word_gt_0 split: option.splits)

section \<open>Definitions give good caches\<close>

lemma config_ok_created:
  assumes "cache_config algos kvs = Some (b, uc)" "uc_blocks uc < 2 ^ 61"
  shows "config_ok b uc"
proof -
  obtain items bs blocks hashsize keysize bitmap v where v: "checked_sizes items bs blocks hashsize keysize bitmap v = Some (b, uc)"
    "uc_n_items v = 0 \<and> uc_bitmap_pos v = 0 \<and> uc_lru_head v = 0 \<and> uc_lru_tail v = 0"
    using assms(1) unfolding cache_config_def Let_def bind_eq_Some_conv by (elim exE conjE) (simp add: cache_zero_def)
  show ?thesis using v assms(2) by (auto simp: checked_sizes_def config_ok_def split: if_splits)
qed

text \<open>Every cache of a list fulfils its invariant, and its size is in range.\<close>

definition caches_ok :: "upsgi_cache list \<Rightarrow> bool" where
  "caches_ok caches \<longleftrightarrow> list_all cache_inv caches"

lemma on_cache_ok:
  assumes "caches_ok caches" "i < length caches" "\<And>u. cache_inv u \<Longrightarrow> \<exists>r v. f u = Some (r, v) \<and> cache_inv v"
  shows "\<exists>r cs. on_cache i f caches = Some (r, cs) \<and> caches_ok cs \<and> length cs = length caches"
proof -
  obtain r v where "f (caches ! i) = Some (r, v)" "cache_inv v" using assms by (fastforce simp: caches_ok_def list_all_length)
  then show ?thesis using assms(1,2) by (auto simp: on_cache_def caches_ok_def list_all_length nth_list_update)
qed

lemma name_pos_bound: "name_pos name caches = Some i \<Longrightarrow> i < length caches \<and> uc_name (caches ! i) = name"
  by (induction caches arbitrary: i) (auto split: if_splits)

lemma place_bound: "cache_place caches cache = Local i \<Longrightarrow> i < length caches"
  by (auto simp: cache_place_def upsgi_cache_by_name_def split: option.splits if_splits dest: name_pos_bound)


section \<open>Option lists\<close>

text \<open>Names without a separator, an equals sign or a backslash, and values without a separator or a backslash.\<close>

definition plain_kv :: "char \<Rightarrow> char \<Rightarrow> char list \<times> char list \<Rightarrow> bool" where
  "plain_kv ls ks kv \<longleftrightarrow> ls \<notin> set (fst kv) \<and> ks \<notin> set (fst kv) \<and> CHR 0x5c \<notin> set (fst kv) \<and> ls \<notin> set (snd kv) \<and> CHR 0x5c \<notin> set (snd kv)"

fun kv_join :: "char \<Rightarrow> char \<Rightarrow> (char list \<times> char list) list \<Rightarrow> char list" where
  "kv_join ls ks [] = []"
| "kv_join ls ks [(k, v)] = k @ ks # v"
| "kv_join ls ks ((k, v) # kvs) = k @ ks # v @ ls # kv_join ls ks kvs"

lemma kv_items_piece:
  "ls \<notin> set x \<Longrightarrow> CHR 0x5c \<notin> set x \<Longrightarrow> kv_items ls False cur (x @ rest) = kv_items ls False (cur @ x) rest"
  by (induction x arbitrary: cur) auto

lemma kv_items_join:
  "list_all (plain_kv ls ks) kvs \<Longrightarrow> ls \<noteq> ks \<Longrightarrow> ks \<noteq> CHR 0x5c \<Longrightarrow> kv_items ls False [] (kv_join ls ks kvs) = map (\<lambda>(k, v). k @ ks # v) kvs"
proof (induction ls ks kvs rule: kv_join.induct)
  case (2 ls ks k v)
  have "kv_items ls False [] ((k @ ks # v) @ []) = kv_items ls False ([] @ k @ ks # v) []"
    by (rule kv_items_piece) (use 2 in \<open>auto simp: plain_kv_def\<close>)
  then show ?case by simp
next
  case (3 ls ks k v x xs)
  have "kv_items ls False [] ((k @ ks # v) @ ls # kv_join ls ks (x # xs)) = kv_items ls False ([] @ k @ ks # v) (ls # kv_join ls ks (x # xs))"
    by (rule kv_items_piece) (use 3 in \<open>auto simp: plain_kv_def\<close>)
  with 3 show ?case by simp
qed simp

lemma kv_pair_plain:
  "ks \<notin> set k \<Longrightarrow> CHR 0x5c \<notin> set k \<Longrightarrow> kv_pair ks False name (k @ ks # v) = Some (name @ k, v)"
  by (induction k arbitrary: name) auto

lemma map_filter_all: "(\<And>x. x \<in> set xs \<Longrightarrow> f x = Some (g x)) \<Longrightarrow> List.map_filter f xs = map g xs"
  by (induction xs) simp_all

lemma kvlist_parse_join:
  assumes "list_all (plain_kv ls ks) kvs" "ls \<noteq> ks" "ks \<noteq> CHR 0x5c"
  shows "upsgi_kvlist_parse (kv_join ls ks kvs) ls ks = kvs"
proof -
  have "List.map_filter (kv_pair ks False []) (map (\<lambda>(k, v). k @ ks # v) kvs) = kvs"
    using assms(1) by (induction kvs) (auto simp: plain_kv_def kv_pair_plain)
  then show ?thesis by (simp add: upsgi_kvlist_parse_def kv_items_join [OF assms])
qed

end
