(* ===== verification/Upsgi_CacheProps.thy ===== *)
theory Upsgi_CacheProps
  imports Upsgi_CacheRestore Upsgi_CacheNet
begin

text \<open>
  The properties of the shared cache of core/cache.c: what the caches that a cache definition
  creates promise to the callers of the cache functions, that the replication packets and the
  remote commands carry what was stored, that a cache read back from its store file has the
  same content, and the corners where expiry and arithmetic go wrong.
\<close>

section \<open>A small cache for the examples\<close>

definition small_config :: upsgi_cache where
  "small_config = cache_zero\<lparr>uc_name := ''s'', uc_max_items := 3, uc_blocks := 3, uc_blocksize := 8, uc_max_item_size := 8,
     uc_keysize := 2, uc_hashsize := 1, uc_hash := (\<lambda>_. 0)\<rparr>"

lemma small_ok: "config_ok False small_config" "config_ok True (small_config\<lparr>uc_max_item_size := 24\<rparr>)"
  by (simp_all add: config_ok_def small_config_def cache_zero_def)

lemmas cache_eval = upsgi_cache_set2_def set_refused_def upsgi_cache_get_index_def find_slot_def bucket_def set_bucket_def set_new_def
  set_update_def fill_item_def fill_entry_def link_item_def write_key_def store_value_def write_data_def read_data_def item_at_def set_item_def
  touch_modified_def mem_write_def upsgi_cache_init_def small_config_def cache_zero_def empty_item_def check_lazy_def item_matches_def
  cache_get_def upsgi_cache_get2_def count_hit_def count_miss_def upsgi_cache_num2_def note_expiry_def claim_blocks_def
  cache_sweeper_free_items_def

lemma bitmap_init_4: "bitmap_init 4 = [0x0f]" by (simp add: bitmap_init_def)

lemma u64le_examples: "u64le 5 = [CHR 0x05, CHR 0x00, CHR 0x00, CHR 0x00, CHR 0x00, CHR 0x00, CHR 0x00, CHR 0x00]"
  "u64le 1 = [CHR 0x01, CHR 0x00, CHR 0x00, CHR 0x00, CHR 0x00, CHR 0x00, CHR 0x00, CHR 0x00]"
  by (simp_all add: u64le_def byte_of_def upt_rec char_of_def mask_eq_exp_minus_1 bit_Suc_0_iff)

lemma rd64_examples: "rd64 [CHR 0x05, CHR 0x00, CHR 0x00, CHR 0x00, CHR 0x00, CHR 0x00, CHR 0x00, CHR 0x00] = 5"
 "rd64 [CHR 0x01, CHR 0x00, CHR 0x00, CHR 0x00, CHR 0x00, CHR 0x00, CHR 0x00, CHR 0x00] = 1"
  "rd64 [CHR 0x00, CHR 0x00, CHR 0x00, CHR 0x00, CHR 0x00, CHR 0x00, CHR 0x00, CHR 0x00] = 0"
  "rd64 (replicate 8 NUL) = 0"
  by (simp_all add: rd64_def numeral_eq_Suc)

section \<open>The content of a cache\<close>

lemma created_inv:
  assumes "upsgi_cache_create algos (Some arg) [] = Some [uc]" "uc_blocks uc < 2 ^ 61"
  shows "cache_inv uc" "cache_map uc = Map.empty"
proof -
  obtain b cfg where c: "cache_config algos (upsgi_kvlist_parse arg CHR '','' CHR ''='') = Some (b, cfg)" "uc = upsgi_cache_init b cfg"
    using assms(1) by (auto simp: upsgi_cache_create_def)
  have "uc_blocks cfg < 2 ^ 61" using assms(2) c(2) by (simp add: upsgi_cache_init_def)
  then have "config_ok b cfg" by (rule config_ok_created [OF c(1)])
  then show "cache_inv uc" "cache_map uc = Map.empty" using init_inv [of b cfg] c(2) by simp_all
qed

lemma created_small:
  obtains uc where "upsgi_cache_create [(''djb33x'', Djb33x)] (Some ''name=a,items=3,blocksize=4'') [] = Some [uc]" "uc_blocks uc < 2 ^ 61"
proof -
  let ?a = "''name=a,items=3,blocksize=4''"
  have "upsgi_kvlist_parse ?a CHR '','' CHR ''='' = [(''name'', ''a''), (''items'', ''3''), (''blocksize'', ''4'')]"
    by (simp add: upsgi_kvlist_parse_def)
  moreover have "upsgi_n64 ''3'' = 3" "upsgi_n64 ''4'' = 4"
    by (simp_all add: upsgi_n64_def strto_parts_def isspace_def is_digit_def Let_def size_max_def)
  ultimately obtain uc where "upsgi_cache_create [(''djb33x'', Djb33x)] (Some ?a) [] = Some [uc]" "uc_blocks uc = 3"
    by (auto simp: upsgi_cache_create_def cache_config_def kv_get_def checked_sizes_def upsgi_cache_init_def)
  then show ?thesis by (intro that [of uc]) simp_all
qed





text \<open>C8: Setting a key in a well formed cache always returns and keeps the cache well formed. When it fails,
  nothing is in the cache that was not there before. When it succeeds, the key is bound, to the given
  value unless an arithmetic flag asks for a computed one, every other binding is an old one, and no old
  binding is lost when an item was free or the key was already there.\<close>

theorem cache_set_refines:
  assumes "cache_inv uc" "no_trap flags"
  shows "\<exists>ok u. upsgi_cache_set2 now key val expires flags uc = Some (ok, u) \<and> cache_inv u \<and>
    (\<not> ok \<longrightarrow> cache_map u \<subseteq>\<^sub>m cache_map uc) \<and>
    (ok \<longrightarrow> (\<exists>x. (\<not> bit flags FLAG_MATH \<longrightarrow> x = val) \<and> cache_map u key = Some x \<and> cache_map u \<subseteq>\<^sub>m (cache_map uc)(key \<mapsto> x) \<and>
       (uc_unused_ptr uc \<noteq> 0 \<or> cache_map uc key \<noteq> None \<longrightarrow> cache_map u = (cache_map uc)(key \<mapsto> x))))"
  by (rule set2_map [OF assms, of now key val expires]) blast

theorem cache_set_refines_witness:
  "cache_inv (upsgi_cache_init False small_config) \<and> no_trap 0 \<and>
   (\<exists>ok u. upsgi_cache_set2 7 ''k'' ''v'' 0 0 (upsgi_cache_init False small_config) = Some (ok, u) \<and> cache_inv u)"
proof -
  have i: "cache_inv (upsgi_cache_init False small_config)" by (rule init_inv(1) [OF small_ok(1)])
  moreover have n: "no_trap 0" by (simp add: no_trap_def)
  ultimately show ?thesis using cache_set_refines [OF i n, of 7 "''k''" "''v''" 0] by blast
qed

text \<open>In a cache without a bitmap, a set that passes the checks on key, value and flags succeeds whenever an
  item is free, or can be made free by dropping the least recently used one, and the key is new or the
  call is an update.\<close>

theorem cache_set_succeeds:
  assumes "cache_inv uc" "no_trap flags" "uc_bitmap uc = None" "\<not> set_refused key val flags uc"
    "uc_purge_lru uc \<and> uc_max_items uc \<noteq> 1 \<or> uc_unused_ptr uc \<noteq> 0" "cache_map uc key = None \<or> bit flags FLAG_UPDATE"
  shows "\<exists>u. upsgi_cache_set2 now key val expires flags uc = Some (True, u) \<and> cache_map u key \<noteq> None"
proof (rule set2_map [OF assms(1,2), of now key val expires])
  fix ok u x
  assume s: "upsgi_cache_set2 now key val expires flags uc = Some (ok, u)"
    "ok \<Longrightarrow> cache_map u key = Some x \<and> cache_map u \<subseteq>\<^sub>m (cache_map uc)(key \<mapsto> x) \<and>
       (uc_unused_ptr uc \<noteq> 0 \<or> cache_map uc key \<noteq> None \<longrightarrow> cache_map u = (cache_map uc)(key \<mapsto> x))"
    "uc_bitmap uc = None \<Longrightarrow> \<not> set_refused key val flags uc \<Longrightarrow> uc_purge_lru uc \<and> uc_max_items uc \<noteq> 1 \<or> uc_unused_ptr uc \<noteq> 0 \<Longrightarrow>
       cache_map uc key = None \<or> bit flags FLAG_UPDATE \<Longrightarrow> ok"
  have ok using s(3) [OF assms(3-6)] .
  then show ?thesis using s(1,2) by auto
qed

theorem cache_set_succeeds_witness:
  "cache_inv (upsgi_cache_init False small_config) \<and> no_trap 2 \<and> \<not> set_refused ''k'' ''v'' 2 (upsgi_cache_init False small_config) \<and>
   (\<exists>u. upsgi_cache_set2 7 ''k'' ''v'' 0 2 (upsgi_cache_init False small_config) = Some (True, u) \<and> cache_map u ''k'' \<noteq> None)"
proof -
  let ?c = "upsgi_cache_init False small_config"
  have h: "cache_inv ?c" "no_trap 2" "uc_bitmap ?c = None" "\<not> set_refused ''k'' ''v'' 2 ?c"
    "uc_purge_lru ?c \<and> uc_max_items ?c \<noteq> 1 \<or> uc_unused_ptr ?c \<noteq> 0" "cache_map ?c ''k'' = None \<or> bit (2 :: 64 word) FLAG_UPDATE"
    using init_inv(1) [OF small_ok(1)] by (simp_all add: no_trap_def cache_eval)
  from cache_set_succeeds [OF h, of 7 0] h show ?thesis by blast
qed

text \<open>A get after a successful set returns the value that was set, whatever the time that has passed, as
  long as the cache does not expire lazily and the stored item is the one the lookup of the key finds
  shown; it changes the content of no item.\<close>

theorem cache_get_after_set:
  assumes "cache_inv uc" "\<not> bit flags FLAG_MATH" "upsgi_cache_set2 now key val expires flags uc = Some (True, u)"
    "shown u key" "\<not> uc_lazy_expire uc"
  shows "\<exists>w. upsgi_cache_get2 later key u = Some (Some val, w) \<and> cache_inv w \<and> cache_map w = cache_map u"
proof -
  have nt: "no_trap flags" using assms(2) by (simp add: no_trap_def)
  have u: "cache_inv u" "setup_of u = setup_of uc" "cache_map u key = Some val"
    by (rule set2_map [OF assms(1) nt, of now key val expires], use assms(2,3) in auto)+
  have lz: "\<not> uc_lazy_expire u" using u(2) assms(5) setup_eqD(9) by blast
  obtain r w where g: "cache_get True later key u = Some (r, w)" "cache_inv w" "\<And>v it. r = Some (v, it) \<Longrightarrow> cache_map u key = Some v"
    "cache_map w = cache_map u \<or> r = None \<and> uc_lazy_expire u \<and> cache_map w = (cache_map u)(key := None)" "r \<noteq> None"
    by (rule cache_get_map [OF u(1), of True later key]) (use lz assms(4) in blast)
  then obtain it where "r = Some (val, it)" using u(3) by force
  then show ?thesis using g lz by (auto simp: upsgi_cache_get2_def)
qed

theorem cache_get_after_set_witness:
  "\<exists>u. upsgi_cache_set2 0 ''k'' ''v'' 0 0 (upsgi_cache_init False small_config) = Some (True, u) \<and> shown u ''k'' \<and>
     (\<exists>w. upsgi_cache_get2 9 ''k'' u = Some (Some ''v'', w) \<and> cache_inv w)"
proof -
  obtain u where u: "upsgi_cache_set2 0 ''k'' ''v'' 0 0 (upsgi_cache_init False small_config) = Some (True, u)" "shown u ''k''"
    by (simp add: cache_eval Let_def upt_rec shown_def fld_def key_of_def)
  have "\<not> uc_lazy_expire (upsgi_cache_init False small_config)" by (simp add: cache_eval)
  from cache_get_after_set [OF init_inv(1) [OF small_ok(1)] _ u this, of 9] u show ?thesis by auto
qed

section \<open>Expiry and arithmetic\<close>

text \<open>An item set with an absolute expiry (UPSGI_CACHE_FLAG_ABSEXPIRE) is never removed by the sweeper: the
  set leaves next_scan at zero, so a sweep long after the expiry frees nothing and the item is still served.\<close>

theorem cache_absolute_expiry_stays:
  "\<exists>u w. upsgi_cache_set2 0 ''k'' ''v'' 5 8 (upsgi_cache_init False small_config) = Some (True, u) \<and>
     cache_sweeper_free_items 100 u = Some (0, u) \<and> upsgi_cache_get2 100 ''k'' u = Some (Some ''v'', w)"
  by (simp add: cache_eval Let_def upt_rec)

text \<open>In a cache with purge_lru the lifetime in seconds is stored as if it was a point in time, so with
  lazy_expire an item set for a minute is gone one second later.\<close>

theorem cache_lru_relative_expiry:
  "\<exists>u w. upsgi_cache_set2 1000 ''k'' ''v'' 60 0 (upsgi_cache_init False (small_config\<lparr>uc_purge_lru := True, uc_lazy_expire := True\<rparr>)) = Some (True, u) \<and>
     upsgi_cache_get2 1001 ''k'' u = Some (None, w)"
  by (simp add: cache_eval Let_def upt_rec lru_add_item_def lru_remove_item_def del_slot_def unmark_item_def push_unused_def
      unlink_item_def clear_item_def)

text \<open>In a cache with a bitmap an arithmetic update loses the old number: it reads the operand from the blocks it
  has just allocated, so adding one to a stored five gives one.\<close>

theorem cache_math_bitmap_forgets:
  "\<exists>u w x. upsgi_cache_set2 0 ''k'' (u64le 5) 0 0x30 (upsgi_cache_init True (small_config\<lparr>uc_blocks := 4, uc_max_item_size := 32\<rparr>)) = Some (True, u) \<and>
     upsgi_cache_set2 0 ''k'' (u64le 1) 0 0x32 u = Some (True, w) \<and> upsgi_cache_num2 0 ''k'' w = Some (1, x)"
  by (simp add: cache_eval Let_def upt_rec bitmap_init_4 u64le_examples rd64_examples needed_blocks_def upsgi_cache_find_free_blocks_def
      scan_bits.simps cache_mark_blocks_def touch_blocks_def run_mask_def no_block_def math_op_def unmark_item_def cache_unmark_blocks_def)

section \<open>Storing, replicating and serving a cache\<close>

text \<open>C26: A cache without a bitmap that is mapped again from the items and blocks of a previous run, with the same
  settings, is well formed and has the same content.\<close>

theorem cache_restore_roundtrip:
  assumes "cache_inv uc" "uc_bitmap uc = None" "setup_of cfg = setup_of uc" "uc_lru_head cfg = 0" "uc_lru_tail cfg = 0"
  shows "\<exists>u. upsgi_cache_init_store False (uc_items uc) (uc_data uc) cfg = Some u \<and> cache_inv u \<and> cache_map u = cache_map uc"
  by (rule store_restored [OF assms])

theorem cache_restore_roundtrip_witness:
  "\<exists>u. upsgi_cache_set2 0 ''k'' ''v'' 0 0 (upsgi_cache_init False small_config) = Some (True, u) \<and> cache_map u ''k'' = Some ''v'' \<and>
     (\<exists>w. upsgi_cache_init_store False (uc_items u) (uc_data u) small_config = Some w \<and> cache_inv w \<and> cache_map w ''k'' = Some ''v'')"
proof -
  let ?c = "upsgi_cache_init False small_config"
  obtain u where u: "upsgi_cache_set2 0 ''k'' ''v'' 0 0 ?c = Some (True, u)" "uc_bitmap u = None"
    by (simp add: cache_eval Let_def upt_rec)
  have n: "no_trap 0" by (simp add: no_trap_def)
  have i: "cache_inv u" "cache_map u ''k'' = Some ''v''" "setup_of u = setup_of ?c"
    by (rule set2_map [OF init_inv(1) [OF small_ok(1)] n, of 0 "''k''" "''v''" 0], use u(1) in auto)+
  have "setup_of small_config = setup_of ?c" "uc_lru_head small_config = 0" "uc_lru_tail small_config = 0"
    by (simp_all add: small_config_def cache_zero_def setup_of_def upsgi_cache_init_def)
  then show ?thesis using cache_restore_roundtrip [OF i(1) u(2), of small_config] i(2,3) u(1) by metis
qed

text \<open>C27: The server of the replication packets does for a packet that carries a set, of a key, value and expiry
  that fit the packet's 16 bit sizes, exactly what setting the key with the flags of an absolute, local
  update does.\<close>

theorem cache_udp_set_equivalent:
  assumes "length key + length val + length (nat_dec e) + 6 < 65536" "key \<noteq> []" "e < 10 ^ 19"
  shows "cache_udp_server now (udp_packet key val e 10) uc = map_option snd (upsgi_cache_set2 now key val e 0xe uc)"
  by (rule udp_set_packet [OF assms])

theorem cache_udp_set_equivalent_witness:
  "cache_udp_server 7 (udp_packet ''k'' ''v'' 0 10) small_config = map_option snd (upsgi_cache_set2 7 ''k'' ''v'' 0 0xe small_config)"
  by (rule cache_udp_set_equivalent) (simp_all add: nat_dec.simps [of 0])

text \<open>The command that stores a value on another node, of key, cache name and sizes in the range of the
  packet, is read back by the hook of the receiving node as the same command, key, size, expiry and name.\<close>

theorem cache_magic_store_roundtrip:
  assumes "4 \<le> page_size env" "length cmd < 65536" "length key < 65536" "\<And>n. name = Some n \<Longrightarrow> length n < 65536"
    "unat len < 2 ^ 63" "unat expires < 2 ^ 63" "prepare_magic_store cmd env name key len expires = Ok u"
  shows "\<exists>vs. upsgi_hooked_parse (drop 4 (ub_content u)) = (True, vs) \<and>
    magic_hooks vs magic_zero = Some \<lparr>mc_cmd = cmd, mc_key = key, mc_size = len, mc_expires = expires, mc_status = [],
      mc_cache = (case name of None \<Rightarrow> [] | Some n \<Rightarrow> n)\<rparr>"
proof -
  have "wf_vars (store_vars cmd name key len expires)"
    using assms(2-4) nat_dec_short [of "unat len"] nat_dec_short [of "unat expires"] assms(5,6)
    by (auto simp: store_vars_def split: option.splits)
  then show ?thesis using store_content [OF assms] hooked_parse_vars [of _ "[]"] store_hooks [OF assms(5,6)]
    by (simp add: upsgi_hooked_parse_def)
qed

lemma store_example: "case prepare_magic_store ''set'' env0 None ''k'' 1 0 of Ok u \<Rightarrow> True | _ \<Rightarrow> False"
  by code_simp

theorem cache_magic_store_roundtrip_witness:
  "\<exists>u. prepare_magic_store ''set'' env0 None ''k'' 1 0 = Ok u \<and>
     (\<exists>vs. upsgi_hooked_parse (drop 4 (ub_content u)) = (True, vs) \<and> (\<exists>m. magic_hooks vs magic_zero = Some m \<and> mc_key m = ''k'' \<and> mc_size m = 1))"
proof -
  obtain u where u: "prepare_magic_store ''set'' env0 None ''k'' 1 0 = Ok u"
    using store_example by (cases "prepare_magic_store ''set'' env0 None ''k'' 1 0") simp_all
  show ?thesis using cache_magic_store_roundtrip [OF _ _ _ _ _ _ u] u by (auto simp: env0_def)
qed

text \<open>A list of options whose keys and values hold no separator and no backslash is read by the option list
  parser as the pairs it was written from.\<close>

theorem kvlist_roundtrip:
  assumes "list_all (plain_kv ls ks) kvs" "ls \<noteq> ks" "ks \<noteq> CHR 0x5c"
  shows "upsgi_kvlist_parse (kv_join ls ks kvs) ls ks = kvs"
  by (rule kvlist_parse_join [OF assms])

theorem kvlist_roundtrip_witness:
  "list_all (plain_kv CHR '','' CHR ''='') [(''name'', ''a''), (''items'', ''3'')] \<and>
   upsgi_kvlist_parse (kv_join CHR '','' CHR ''='' [(''name'', ''a''), (''items'', ''3'')]) CHR '','' CHR ''='' = [(''name'', ''a''), (''items'', ''3'')]"
  using kvlist_roundtrip [of "CHR '',''" "CHR ''=''" "[(''name'', ''a''), (''items'', ''3'')]"] by (simp add: plain_kv_def)

end
