(* ===== verification/Upsgi_Fastcgi.thy ===== *)
theory Upsgi_Fastcgi
  imports Upsgi_Wire
begin

text \<open>
  The FastCGI protocol, \<open>proto/fastcgi.c\<close>: the parameter records that become the packet of the
  request, the body that is handed out of the body records, the framing of the response, the end of a
  request, and the request the server writes itself.  The block the records are collected in is
  explicit; reads, writes and waits are scripts.  The main results are that a request in records and
  pieces of any sizes is read as it was sent, and that a response leaves as well formed records.
\<close>

section \<open>Name-value pairs\<close>

text \<open>A length: one byte, or four with the highest bit set.  \<open>None\<close>: the record ends within it.\<close>

definition fcgi_length :: "char list \<Rightarrow> (nat \<times> char list) option" where
  "fcgi_length bs =
     (if ord (hd bs) > 127 then
        (if length bs \<le> 4 then None else Some (upsgi_be32 bs - 2 ^ 31, drop 4 bs))
      else (if length bs \<le> 1 then None else Some (ord (hd bs), drop 1 bs)))"

definition fcgi_var :: "char list \<Rightarrow> char list \<Rightarrow> req_packet \<Rightarrow> req_packet c_result" where
  "fcgi_var key v p =
     (case proto_base_add_upsgi_var p key v of
        None \<Rightarrow> Fault
      | Some (n, q) \<Rightarrow>
          (let pktsize = n mod 65536 in
           if pktsize = 0 then Err q else Ok (q\<lparr>pkt_len := pkt_len q + pktsize\<rparr>)))"

text \<open>The loop steps on by \<open>keylen + vallen - 1\<close>, a \<open>uint32_t\<close>, and one: for an empty pair that is 2^32.\<close>

definition fcgi_step :: "nat \<Rightarrow> nat \<Rightarrow> nat" where
  "fcgi_step keylen vallen = (if keylen + vallen = 0 then 2 ^ 32 else keylen + vallen)"

lemma fcgi_length_shorter: "fcgi_length bs = Some (n, bs1) \<Longrightarrow> length bs1 < length bs"
  by (auto simp: fcgi_length_def split: if_splits)

function fastcgi_to_upsgi :: "char list \<Rightarrow> req_packet \<Rightarrow> req_packet c_result" where
  "fastcgi_to_upsgi bs p =
     (if bs = [] then Ok p
      else
       (case fcgi_length bs of
          None \<Rightarrow> Err p
        | Some (keylen, bs1) \<Rightarrow>
            (case fcgi_length bs1 of
               None \<Rightarrow> Err p
             | Some (vallen, bs2) \<Rightarrow>
                 if keylen + vallen > length bs2 then Err p
                 else if keylen > 65535 \<or> vallen > 65535 then Err p
                 else
                  (case fcgi_var (take keylen bs2) (take vallen (drop keylen bs2)) p of
                     Ok q \<Rightarrow> fastcgi_to_upsgi (drop (fcgi_step keylen vallen) bs2) q
                   | r \<Rightarrow> r))))"
  by auto
termination by (relation "measure (\<lambda>(bs, _). length bs)") (auto dest!: fcgi_length_shorter)

declare fastcgi_to_upsgi.simps [simp del]

section \<open>Records\<close>

text \<open>
  The part of the request that this protocol keeps: the block \<open>proto_parser_buf\<close> (empty before it is
  allocated) of which \<open>proto_parser_pos\<close> bytes are in use, the two low bytes of \<open>stream_id\<close>, the
  modifiers, and what is left of a body record: \<open>proto_parser_remains\<close> bytes at
  \<open>proto_parser_remains_buf\<close>, an offset, and \<open>proto_parser_move\<close>, the postponed move.
\<close>

record fcgi_conn =
  fc_buf :: "char list"
  fc_pos :: nat
  fc_sid :: "char \<times> char"
  fc_mods :: "nat \<times> nat"
  fc_eof :: bool
  fc_remains :: nat
  fc_remains_at :: nat
  fc_move :: nat

definition rec_type :: "char list \<Rightarrow> nat" where
  "rec_type buf = ord (buf ! 1)"

definition rec_len :: "char list \<Rightarrow> nat" where
  "rec_len buf = upsgi_be16 (drop 4 buf)"

definition rec_all :: "char list \<Rightarrow> nat" where
  "rec_all buf = 8 + rec_len buf + ord (buf ! 6)"

definition mem_move :: "nat \<Rightarrow> nat \<Rightarrow> char list \<Rightarrow> char list" where
  "mem_move from n buf = take n (drop from buf) @ drop n buf"

text \<open>The first record is dropped: the rest moves to the front.\<close>

definition drop_record :: "fcgi_conn \<Rightarrow> fcgi_conn" where
  "drop_record c =
     (let al = rec_all (fc_buf c) in
      c\<lparr>fc_buf := mem_move al (fc_pos c - al) (fc_buf c), fc_pos := fc_pos c - al\<rparr>)"

text \<open>The block grows when the record does not fit behind what it already holds.\<close>

definition grow_block :: "mem_env \<Rightarrow> fcgi_conn \<Rightarrow> fcgi_conn option" where
  "grow_block env c =
     (let al = rec_all (fc_buf c); size = length (fc_buf c); room = size - fc_pos c; n = size + al - room in
      if al > room then
        (if realloc_ok env n then Some (c\<lparr>fc_buf := take n (fc_buf c) @ fresh_block env size n\<rparr>) else None)
      else Some c)"

function fcgi_scan :: "mem_env \<Rightarrow> nat \<times> nat \<Rightarrow> fcgi_conn \<Rightarrow> req_packet \<Rightarrow> (proto_ret \<times> fcgi_conn \<times> req_packet) option" where
  "fcgi_scan env mods c p =
     (if fc_pos c < 8 then Some (UPSGI_AGAIN, c, p)
      else if fc_pos c > length (fc_buf c) then None
      else
       (let buf = fc_buf c; c1 = c\<lparr>fc_sid := (buf ! 3, buf ! 2)\<rparr> in
        if rec_type buf = 5 then
          Some (UPSGI_OK, c1\<lparr>fc_mods := mods, fc_eof := (rec_len buf = 0 \<or> fc_eof c)\<rparr>, p)
        else if fc_pos c \<ge> rec_all buf then
          (case if rec_type buf = 4 then fastcgi_to_upsgi (take (rec_len buf) (drop 8 buf)) p else Ok p of
             Ok q \<Rightarrow> fcgi_scan env mods (drop_record c1) q
           | Err q \<Rightarrow> Some (PROTO_ERR, c1, q)
           | Fault \<Rightarrow> None)
        else
          (case grow_block env c1 of
             None \<Rightarrow> Some (PROTO_ERR, c1, p)
           | Some c2 \<Rightarrow> Some (UPSGI_AGAIN, c2, p))))"
  by auto
termination
  by (relation "measure (\<lambda>(_, _, c, _). fc_pos c)") (auto simp: drop_record_def rec_all_def Let_def)

declare fcgi_scan.simps [simp del]

definition store_read :: "char list \<Rightarrow> fcgi_conn \<Rightarrow> fcgi_conn" where
  "store_read d c =
     c\<lparr>fc_buf := take (fc_pos c) (fc_buf c) @ d @ drop (fc_pos c + length d) (fc_buf c), fc_pos := fc_pos c + length d\<rparr>"

definition upsgi_proto_fastcgi_parser ::
    "mem_env \<Rightarrow> nat \<Rightarrow> nat \<times> nat \<Rightarrow> fcgi_conn \<Rightarrow> req_packet \<Rightarrow> read_ev list \<Rightarrow>
     (proto_ret \<times> fcgi_conn \<times> req_packet) option \<times> read_ev list" where
  "upsgi_proto_fastcgi_parser env buffer_size mods c0 p evs =
     (let c = (if fc_buf c0 = [] then c0\<lparr>fc_buf := fresh_block env 0 buffer_size\<rparr> else c0) in
      case sock_read (length (fc_buf c) - fc_pos c) evs of
        (Got d, evs1) \<Rightarrow>
          (if d = [] then Some (PROTO_ERR, c, p) else fcgi_scan env mods (store_read d c) p, evs1)
      | (WouldBlock, evs1) \<Rightarrow> (Some (UPSGI_AGAIN, c, p), evs1)
      | (ReadFail, evs1) \<Rightarrow> (Some (PROTO_ERR, c, p), evs1))"

section \<open>The body\<close>

text \<open>The rest of a record that was handed out in part.\<close>

definition take_remains :: "nat \<Rightarrow> fcgi_conn \<Rightarrow> char list \<times> fcgi_conn" where
  "take_remains len c =
     (let n = min (fc_remains c) len;
          c1 = c\<lparr>fc_remains := fc_remains c - n, fc_remains_at := fc_remains_at c + n\<rparr> in
      (take n (drop (fc_remains_at c) (fc_buf c)),
       if fc_remains c1 = 0 \<and> fc_move c1 \<noteq> 0
       then c1\<lparr>fc_buf := mem_move (fc_move c1) (fc_pos c1) (fc_buf c1), fc_move := 0\<rparr> else c1))"

text \<open>A body record: its front is handed out; the move waits for the rest.\<close>

definition take_stdin :: "nat \<Rightarrow> fcgi_conn \<Rightarrow> char list \<times> fcgi_conn" where
  "take_stdin len c =
     (let buf = fc_buf c; n = min (rec_len buf) len;
          c1 = c\<lparr>fc_remains := rec_len buf - n, fc_remains_at := 8 + n\<rparr> in
      (take n (drop 8 buf),
       if fc_remains c1 = 0 then drop_record c1
       else c1\<lparr>fc_move := rec_all buf, fc_pos := fc_pos c1 - rec_all buf\<rparr>))"

fun ev_weight :: "read_ev list \<Rightarrow> nat" where
  "ev_weight [] = 0"
| "ev_weight (RData bs # evs) = length bs + ev_weight evs"
| "ev_weight (_ # evs) = 1 + ev_weight evs"

lemma sock_read_weight: "sock_read n evs = (Got d, evs1) \<Longrightarrow> d \<noteq> [] \<Longrightarrow> ev_weight evs1 < ev_weight evs"
  by (cases "(n, evs)" rule: sock_read.cases) (auto split: if_splits)

function fcgi_body :: "mem_env \<Rightarrow> nat \<Rightarrow> bool \<Rightarrow> fcgi_conn \<Rightarrow> read_ev list \<Rightarrow> (read_ret \<times> fcgi_conn) option \<times> read_ev list" where
  "fcgi_body env len has_read c evs =
     (let gather = (\<lambda>c. case sock_read (length (fc_buf c) - fc_pos c) evs of
          (Got d, evs1) \<Rightarrow> if d = [] then (Some (Got [], c), evs1) else fcgi_body env len True (store_read d c) evs1
        | (r, evs1) \<Rightarrow> (Some (r, c), evs1)) in
      if fc_pos c \<ge> 8 then
        (if fc_pos c > length (fc_buf c) then (None, evs)
         else if fc_pos c \<ge> rec_all (fc_buf c) then
           (if rec_type (fc_buf c) = 5 then
              (if rec_len (fc_buf c) = 0 then (Some (Got [], c\<lparr>fc_eof := True\<rparr>), evs)
               else (case take_stdin len c of (d, c1) \<Rightarrow> (Some (Got d, c1), evs)))
            else fcgi_body env len has_read (drop_record c) evs)
         else
           (case grow_block env c of
              None \<Rightarrow> (Some (ReadFail, c), evs)
            | Some c1 \<Rightarrow> if has_read then (Some (WouldBlock, c1), evs) else gather c1))
      else gather c)"
  by auto
termination
  by (relation "measures [\<lambda>(_, _, _, _, evs). ev_weight evs, \<lambda>(_, _, _, c, _). fc_pos c]")
    (auto dest: sock_read_weight [OF sym] simp: drop_record_def rec_all_def Let_def)

declare fcgi_body.simps [simp del]

definition upsgi_proto_fastcgi_read_body ::
    "mem_env \<Rightarrow> nat \<Rightarrow> fcgi_conn \<Rightarrow> read_ev list \<Rightarrow> (read_ret \<times> fcgi_conn) option \<times> read_ev list" where
  "upsgi_proto_fastcgi_read_body env len c evs =
     (if fc_remains c > 0 then (case take_remains len c of (d, c1) \<Rightarrow> (Some (Got d, c1), evs))
      else if fc_eof c then (Some (Got [], c), evs)
      else fcgi_body env len False c evs)"


section \<open>The response\<close>

definition fcgi_header :: "nat \<Rightarrow> char \<times> char \<Rightarrow> nat \<Rightarrow> char list" where
  "fcgi_header ty sid n =
     [char_of (1 :: nat), char_of ty, snd sid, fst sid, char_of (n div 256 mod 256), char_of (n mod 256), char_of (0 :: nat), char_of (0 :: nat)]"

text \<open>
  A write: the header of a record when none is under way, then bytes of the record.  \<open>hdr\<close> is how
  \<open>upsgi_write_true_nb\<close> ended: \<open>None\<close> for success, or the number of bytes that left before it failed.
  \<open>status\<close> is the rest of the record under way.  The result, \<open>write_pos\<close>, \<open>status\<close> and the bytes that leave.
\<close>

definition upsgi_proto_fastcgi_write ::
    "char \<times> char \<Rightarrow> nat option \<Rightarrow> char list \<Rightarrow> nat \<Rightarrow> nat \<Rightarrow> wr_ev \<Rightarrow> proto_ret \<times> nat \<times> nat \<times> char list" where
  "upsgi_proto_fastcgi_write sid hdr buf write_pos status ev =
     (let fresh = (status = 0);
          n = (if fresh then min (length buf - write_pos) 65535 else status);
          head = (if fresh then fcgi_header 6 sid n else []) in
      case (if fresh then hdr else None) of
        Some k \<Rightarrow> (PROTO_ERR, write_pos, n, take k head)
      | None \<Rightarrow>
          (case ev of
             WWrote m \<Rightarrow>
               (let out = take (min m n) (drop write_pos buf); wlen = length out in
                if wlen > 0 then
                  (if write_pos + wlen = length buf then UPSGI_OK else UPSGI_AGAIN, write_pos + wlen, n - wlen, head @ out)
                else (PROTO_ERR, write_pos, n, head))
           | WAgain \<Rightarrow> (UPSGI_AGAIN, write_pos, n, head)
           | WErr \<Rightarrow> (PROTO_ERR, write_pos, n, head)))"

definition upsgi_proto_fastcgi_sendfile ::
    "char \<times> char \<Rightarrow> nat option \<Rightarrow> char list \<Rightarrow> nat \<Rightarrow> nat \<Rightarrow> nat \<Rightarrow> nat \<Rightarrow> wr_ev \<Rightarrow> proto_ret \<times> nat \<times> nat \<times> char list" where
  "upsgi_proto_fastcgi_sendfile sid hdr file pos len write_pos status ev =
     (let fresh = (status = 0);
          n = (if fresh then min (len - write_pos) 65535 else status);
          head = (if fresh then fcgi_header 6 sid n else []) in
      case (if fresh then hdr else None) of
        Some k \<Rightarrow> (PROTO_ERR, write_pos, n, take k head)
      | None \<Rightarrow>
          (case ev of
             WWrote m \<Rightarrow>
               (let out = take (min m n) (drop (pos + write_pos) file); wlen = length out in
                if wlen > 0 then
                  (if write_pos + wlen = len then UPSGI_OK else UPSGI_AGAIN, write_pos + wlen, n - wlen, head @ out)
                else (PROTO_ERR, write_pos, n, head))
           | WAgain \<Rightarrow> (UPSGI_AGAIN, write_pos, n, head)
           | WErr \<Rightarrow> (PROTO_ERR, write_pos, n, head)))"

text \<open>Closing: the rest of the body is read and dropped, then the end of the output and of the request are
  announced.  \<open>waits\<close> are the answers of the wait hook.  The flag tells whether the end of the body was seen.\<close>

partial_function (option) fcgi_drain ::
    "mem_env \<Rightarrow> fcgi_conn \<Rightarrow> read_ev list \<Rightarrow> int list \<Rightarrow> (bool \<times> fcgi_conn \<times> read_ev list) option" where
  "fcgi_drain env c evs waits =
     (case upsgi_proto_fastcgi_read_body env 4096 c evs of
        (None, _) \<Rightarrow> None
      | (Some (Got d, c1), evs1) \<Rightarrow> if d = [] then Some (True, c1, evs1) else fcgi_drain env c1 evs1 waits
      | (Some (WouldBlock, c1), evs1) \<Rightarrow>
          (case waits of
             [] \<Rightarrow> Some (False, c1, evs1)
           | w # ws \<Rightarrow> if w \<le> 0 then Some (False, c1, evs1) else fcgi_drain env c1 evs1 ws)
      | (Some (ReadFail, c1), evs1) \<Rightarrow> Some (False, c1, evs1))"

definition fcgi_end_request :: "char \<times> char \<Rightarrow> char list" where
  "fcgi_end_request sid = fcgi_header 6 sid 0 @ fcgi_header 3 sid 8 @ replicate 8 (CHR 0x00)"

definition upsgi_proto_fastcgi_close :: "mem_env \<Rightarrow> fcgi_conn \<Rightarrow> read_ev list \<Rightarrow> int list \<Rightarrow> char list option" where
  "upsgi_proto_fastcgi_close env c evs waits =
     (if fc_eof c then Some (fcgi_end_request (fc_sid c))
      else map_option (\<lambda>(ended, c1, _). if ended then fcgi_end_request (fc_sid c1) else []) (fcgi_drain env c evs waits))"

section \<open>Writing a request\<close>

definition buf_append_fcgi_u32 :: "mem_env \<Rightarrow> upsgi_buffer \<Rightarrow> 32 word \<Rightarrow> upsgi_buffer c_result" where
  "buf_append_fcgi_u32 env ub n = upsgi_buffer_append env ub [byte_of 3 n, byte_of 2 n, byte_of 1 n, byte_of 0 n]"

definition buf_append_fcgi_u16 :: "mem_env \<Rightarrow> upsgi_buffer \<Rightarrow> 16 word \<Rightarrow> upsgi_buffer c_result" where
  "buf_append_fcgi_u16 env ub n = upsgi_buffer_append env ub [byte_of 1 n, byte_of 0 n]"

definition buf_append_fcgi_u8 :: "mem_env \<Rightarrow> upsgi_buffer \<Rightarrow> 8 word \<Rightarrow> upsgi_buffer c_result" where
  "buf_append_fcgi_u8 env ub n = upsgi_buffer_append env ub [byte_of 0 n]"

text \<open>A record without its data, as all callers use it.\<close>

definition buf_append_fcgi_rec :: "mem_env \<Rightarrow> upsgi_buffer \<Rightarrow> 8 word \<Rightarrow> 16 word \<Rightarrow> 16 word \<Rightarrow> char list option \<Rightarrow> upsgi_buffer c_result" where
  "buf_append_fcgi_rec env ub ty reqid dlen data =
     c_bind (upsgi_buffer_append env ub [char_of (1 :: nat)]) (\<lambda>u1.
     c_bind (upsgi_buffer_append env u1 [byte_of 0 ty]) (\<lambda>u2.
     c_bind (buf_append_fcgi_u16 env u2 reqid) (\<lambda>u3.
     c_bind (buf_append_fcgi_u16 env u3 dlen) (\<lambda>u4.
     c_bind (buf_append_fcgi_u8 env u4 0) (\<lambda>u5.
     c_bind (buf_append_fcgi_u8 env u5 0) (\<lambda>u6.
       case data of None \<Rightarrow> Ok u6 | Some d \<Rightarrow> upsgi_buffer_append env u6 (take (unat dlen) d)))))))"

definition append_fcgi_len :: "mem_env \<Rightarrow> upsgi_buffer \<Rightarrow> nat \<Rightarrow> upsgi_buffer c_result" where
  "append_fcgi_len env ub n = (if n < 128 then buf_append_fcgi_u8 env ub (of_nat n) else buf_append_fcgi_u32 env ub (of_nat n))"

definition buf_append_fcgi_nameval :: "mem_env \<Rightarrow> upsgi_buffer \<Rightarrow> char list \<Rightarrow> char list \<Rightarrow> upsgi_buffer c_result" where
  "buf_append_fcgi_nameval env ub name val =
     c_bind (append_fcgi_len env ub (length name)) (\<lambda>u1.
     c_bind (append_fcgi_len env u1 (length val)) (\<lambda>u2.
     c_bind (upsgi_buffer_append env u2 name) (\<lambda>u3.
       upsgi_buffer_append env u3 val)))"

definition fastcgi_buf_begin_request :: "mem_env \<Rightarrow> upsgi_buffer \<Rightarrow> 16 word \<Rightarrow> 16 word \<Rightarrow> 8 word \<Rightarrow> upsgi_buffer c_result" where
  "fastcgi_buf_begin_request env ub reqid role flags =
     c_bind (buf_append_fcgi_rec env ub 1 reqid 8 None) (\<lambda>u1.
     c_bind (buf_append_fcgi_u16 env u1 role) (\<lambda>u2.
     c_bind (buf_append_fcgi_u8 env u2 flags) (\<lambda>u3.
       upsgi_buffer_append env u3 ''     '')))"

text \<open>The results of the appends are not looked at.\<close>

fun c_then :: "'a c_result \<Rightarrow> ('a \<Rightarrow> 'a c_result) \<Rightarrow> 'a c_result" where
  "c_then (Ok s) f = f s"
| "c_then (Err s) f = f s"
| "c_then Fault f = Fault"

definition fcgi_len_len :: "nat \<Rightarrow> nat" where
  "fcgi_len_len n = (if n < 128 then 1 else 4)"

definition params_length :: "(char list \<times> char list) list \<Rightarrow> nat" where
  "params_length kvs = sum_list (map (\<lambda>(k, v). length k + length v + fcgi_len_len (length k) + fcgi_len_len (length v)) kvs)"

fun append_namevals :: "mem_env \<Rightarrow> (char list \<times> char list) list \<Rightarrow> upsgi_buffer \<Rightarrow> upsgi_buffer c_result" where
  "append_namevals env [] ub = Ok ub"
| "append_namevals env ((k, v) # kvs) ub = c_then (buf_append_fcgi_nameval env ub k v) (append_namevals env kvs)"

definition upsgi_to_fastcgi :: "mem_env \<Rightarrow> (char list \<times> char list) list \<Rightarrow> 16 word \<Rightarrow> upsgi_buffer c_result" where
  "upsgi_to_fastcgi env kvs role =
     c_then (fastcgi_buf_begin_request env (upsgi_buffer_new env (page_size env)) 1 role 0) (\<lambda>u1.
     c_then (buf_append_fcgi_rec env u1 4 1 (of_nat (params_length kvs)) None) (\<lambda>u2.
     c_then (append_namevals env kvs u2) (\<lambda>u3.
     c_then (buf_append_fcgi_rec env u3 4 1 0 None) (\<lambda>u4.
     c_then (buf_append_fcgi_rec env u4 5 1 0 None) Ok))))"

text \<open>\<open>append_namevals\<close> ends in \<open>Ok\<close>; the buffer is returned whatever happened.\<close>

section \<open>Pairs are read as they are written\<close>

definition len_bytes :: "nat \<Rightarrow> char list" where
  "len_bytes n = (if n < 128 then [char_of n]
     else [char_of (128 + n div 2 ^ 24 mod 128), char_of (n div 65536 mod 256), char_of (n div 256 mod 256), char_of (n mod 256)])"

definition pair_bytes :: "char list \<times> char list \<Rightarrow> char list" where
  "pair_bytes kv = len_bytes (length (fst kv)) @ len_bytes (length (snd kv)) @ fst kv @ snd kv"

definition param_bytes :: "(char list \<times> char list) list \<Rightarrow> char list" where
  "param_bytes kvs = concat (map pair_bytes kvs)"

lemma len_bytes_read:
  assumes "n < 2 ^ 31" "rest \<noteq> []"
  shows "fcgi_length (len_bytes n @ rest) = Some (n, rest)"
proof (cases "n < 128")
  case True
  then show ?thesis using assms(2) by (simp add: fcgi_length_def len_bytes_def)
next
  case False
  have m: "n div 2 ^ 24 mod 128 = n div 2 ^ 24" using assms(1) by (intro mod_less) (simp add: less_mult_imp_div_less)
  have h: "128 + n div 2 ^ 24 < 256" using assms(1) by (simp add: less_mult_imp_div_less)
  have d: "n div 65536 = n div 256 div 256" "n div 2 ^ 24 = n div 256 div 256 div 256" by (simp_all add: div_mult2_eq [symmetric])
  have "((n div 2 ^ 24 * 256 + n div 65536 mod 256) * 256 + n div 256 mod 256) * 256 + n mod 256 = n"
    unfolding d by (simp only: div_mult_mod_eq)
  then have "upsgi_be32 (len_bytes n @ rest) = 2 ^ 31 + n"
    using False h m by (simp add: upsgi_be32_def len_bytes_def)
  moreover have "ord (hd (len_bytes n @ rest)) > 127" using False h m by (simp add: len_bytes_def)
  ultimately show ?thesis using assms(2) False by (simp add: fcgi_length_def len_bytes_def Suc_le_eq)
qed

definition good_pair :: "char list \<times> char list \<Rightarrow> bool" where
  "good_pair kv \<longleftrightarrow> fst kv @ snd kv \<noteq> []"

lemma fcgi_var_ok:
  assumes "holds_vars n kvs p" "length (encode_vars (kvs @ [(k, v)])) < n" "n \<le> 65536"
  shows "\<exists>q. fcgi_var k v p = Ok q \<and> holds_vars n (kvs @ [(k, v)]) q"
proof -
  let ?s = "\<lparr>sc_key = None, sc_keylen = 0, sc_value = None, sc_pkt = p\<rparr>"
  obtain q where "scgi_var k v ?s = Ok \<lparr>sc_key = None, sc_keylen = 0, sc_value = None, sc_pkt = q\<rparr>" "holds_vars n (kvs @ [(k, v)]) q"
    using scgi_var_ok [of n kvs ?s k v] assms by auto
  then show ?thesis by (auto simp: fcgi_var_def scgi_var_def Let_def split: option.splits if_splits)
qed

lemma params_read:
  assumes "list_all good_pair kvs" "holds_vars n done0 p" "n \<le> 65536" "length (encode_vars (done0 @ kvs)) < n"
  shows "\<exists>q. fastcgi_to_upsgi (param_bytes kvs) p = Ok q \<and> holds_vars n (done0 @ kvs) q"
  using assms
proof (induction kvs arbitrary: p done0)
  case Nil
  then show ?case by (simp add: param_bytes_def fastcgi_to_upsgi.simps)
next
  case (Cons kv kvs)
  obtain k v where kv: "kv = (k, v)" by (cases kv)
  let ?rest = "k @ v @ param_bytes kvs"
  have g: "k @ v \<noteq> []" using Cons.prems(1) by (simp add: kv good_pair_def)
  have l: "length k + length v < 65536" using Cons.prems(3,4) by (simp add: kv)
  have "fcgi_length (len_bytes (length k) @ len_bytes (length v) @ ?rest) = Some (length k, len_bytes (length v) @ ?rest)"
    using l by (intro len_bytes_read) (auto simp: len_bytes_def)
  moreover have "fcgi_length (len_bytes (length v) @ ?rest) = Some (length v, ?rest)"
    using l g by (intro len_bytes_read) auto
  moreover obtain q where q: "fcgi_var k v p = Ok q" "holds_vars n (done0 @ [(k, v)]) q"
    using fcgi_var_ok [OF Cons.prems(2), of k v] Cons.prems(3,4) by (auto simp: kv)
  moreover have "param_bytes (kv # kvs) = len_bytes (length k) @ len_bytes (length v) @ ?rest"
    by (simp add: param_bytes_def pair_bytes_def kv)
  moreover have "param_bytes (kv # kvs) \<noteq> []" by (simp add: param_bytes_def pair_bytes_def len_bytes_def)
  ultimately have "fastcgi_to_upsgi (param_bytes (kv # kvs)) p = fastcgi_to_upsgi (param_bytes kvs) q"
    using l g by (subst fastcgi_to_upsgi.simps) (auto simp: fcgi_step_def)
  then show ?case using Cons.IH [OF _ q(2)] Cons.prems by (simp add: kv)
qed

section \<open>Requests in pieces\<close>

text \<open>A record: type, request id, content, padding.\<close>

type_synonym fcgi_rec = "nat \<times> (char \<times> char) \<times> char list \<times> char list"

definition rec_bytes :: "fcgi_rec \<Rightarrow> char list" where
  "rec_bytes r = (case r of (ty, sid, d, pad) \<Rightarrow>
     [char_of (1 :: nat), char_of ty, snd sid, fst sid, char_of (length d div 256 mod 256), char_of (length d mod 256),
      char_of (length pad), char_of (0 :: nat)] @ d @ pad)"

definition wf_rec :: "fcgi_rec \<Rightarrow> bool" where
  "wf_rec r = (case r of (ty, sid, d, pad) \<Rightarrow> ty < 256 \<and> length d < 65536 \<and> length pad < 256)"

lemma rec_fields:
  assumes "wf_rec (ty, sid, d, pad)" "buf @ later = rec_bytes (ty, sid, d, pad) @ tail" "8 \<le> length buf"
  shows "rec_type buf = ty" "rec_len buf = length d" "rec_all buf = 8 + length d + length pad" "(buf ! 3, buf ! 2) = sid"
proof -
  have n: "buf ! i = (rec_bytes (ty, sid, d, pad) @ tail) ! i" if "i < 8" for i
    using assms(2,3) that by (metis nth_append order_less_le_trans)
  have "length d div 256 mod 256 = length d div 256"
    using assms(1) by (intro mod_less) (simp add: wf_rec_def less_mult_imp_div_less)
  then have "rec_len buf = length d"
    unfolding rec_len_def upsgi_be16_def using assms(1,3) n [of 4] n [of 5] by (simp add: rec_bytes_def)
  moreover have "ord (buf ! 6) = length pad" using n [of 6] assms(1) by (simp add: rec_bytes_def wf_rec_def)
  ultimately show "rec_len buf = length d" "rec_all buf = 8 + length d + length pad" by (simp_all add: rec_all_def)
  show "rec_type buf = ty" using n [of 1] assms(1) by (simp add: rec_bytes_def wf_rec_def rec_type_def)
  show "(buf ! 3, buf ! 2) = sid" using n [of 2] n [of 3] by (simp add: rec_bytes_def)
qed

definition live :: "fcgi_conn \<Rightarrow> char list" where
  "live c = take (fc_pos c) (drop (fc_move c) (fc_buf c))"

definition fc_ok :: "fcgi_conn \<Rightarrow> bool" where
  "fc_ok c \<longleftrightarrow> 8 \<le> length (fc_buf c) \<and> fc_pos c \<le> length (fc_buf c) \<and> fc_move c = 0 \<and> fc_remains c = 0"

lemma drop_record_ok:
  assumes "fc_ok c" "rec_all (fc_buf c) \<le> fc_pos c"
  shows "fc_ok (drop_record c)" "live (drop_record c) = drop (rec_all (fc_buf c)) (live c)"
    "fc_eof (drop_record c) = fc_eof c" "fc_pos (drop_record c) < fc_pos c" "fc_sid (drop_record c) = fc_sid c"
  using assms by (auto simp: drop_record_def Let_def fc_ok_def live_def mem_move_def take_drop rec_all_def)

lemma grow_block_ok:
  assumes "fc_ok c" "fc_pos c < rec_all (fc_buf c)" "\<forall>n. realloc_ok env n"
  shows "\<exists>c1. grow_block env c = Some c1 \<and> fc_ok c1 \<and> live c1 = live c \<and> fc_pos c1 < length (fc_buf c1) \<and>
    fc_eof c1 = fc_eof c \<and> fc_sid c1 = fc_sid c"
proof -
  let ?al = "rec_all (fc_buf c)" and ?size = "length (fc_buf c)"
  have p: "fc_pos c \<le> ?size" "8 \<le> ?al" using assms(1) by (simp_all add: fc_ok_def rec_all_def)
  show ?thesis
  proof (cases "?al > ?size - fc_pos c")
    case True
    let ?n = "?size + ?al - (?size - fc_pos c)"
    have "?size \<le> ?n" "fc_pos c < ?n" using True p by linarith+
    moreover have "length (fresh_block env ?size ?n) = ?n - ?size" by (simp add: fresh_block_def)
    ultimately show ?thesis using True assms p by (auto simp: grow_block_def Let_def fc_ok_def live_def)
  next
    case False
    then show ?thesis using assms p by (auto simp: grow_block_def Let_def fc_ok_def)
  qed
qed

lemma store_read_ok:
  assumes "fc_ok c" "length d \<le> length (fc_buf c) - fc_pos c"
  shows "fc_ok (store_read d c)" "live (store_read d c) = live c @ d" "fc_eof (store_read d c) = fc_eof c"
    "fc_sid (store_read d c) = fc_sid c"
  using assms by (auto simp: store_read_def fc_ok_def live_def)

fun run_params :: "fcgi_rec list \<Rightarrow> req_packet \<Rightarrow> req_packet c_result" where
  "run_params [] p = Ok p"
| "run_params ((ty, sid, d, pad) # rs) p =
     (if ty = 4 then (case fastcgi_to_upsgi d p of Ok q \<Rightarrow> run_params rs q | r \<Rightarrow> r) else run_params rs p)"

definition stream :: "fcgi_rec list \<Rightarrow> char list" where
  "stream rs = concat (map rec_bytes rs)"

lemma stream_simps [simp]: "stream [] = []" "stream (r # rs) = rec_bytes r @ stream rs"
  by (simp_all add: stream_def)

lemma rec_bytes_length: "length (rec_bytes (ty, sid, d, pad)) = 8 + length d + length pad"
  by (simp add: rec_bytes_def)

lemma head_record:
  assumes "fc_ok c" "8 \<le> fc_pos c" "wf_rec (ty, sid, d, pad)" "live c @ later = rec_bytes (ty, sid, d, pad) @ tail"
  shows "rec_type (fc_buf c) = ty" "rec_len (fc_buf c) = length d" "rec_all (fc_buf c) = length (rec_bytes (ty, sid, d, pad))"
    "(fc_buf c ! 3, fc_buf c ! 2) = sid"
    "rec_all (fc_buf c) \<le> fc_pos c \<Longrightarrow> take (length d) (drop 8 (fc_buf c)) = d"
    "rec_all (fc_buf c) \<le> fc_pos c \<Longrightarrow> drop (rec_all (fc_buf c)) (live c) @ later = tail"
proof -
  have l: "fc_buf c = live c @ drop (fc_pos c) (fc_buf c)" "length (live c) = fc_pos c"
    using assms(1) by (simp_all add: fc_ok_def live_def)
  have b: "8 \<le> length (live c)" using assms(2) l(2) by simp
  note f = rec_fields [OF assms(3,4) b]
  have c: "fc_buf c ! i = live c ! i" if "i < 8" for i using b that by (subst l(1)) (simp add: nth_append)
  have "rec_len (fc_buf c) = rec_len (live c)" unfolding rec_len_def upsgi_be16_def using c [of 4] c [of 5] assms(1) b
    by (simp add: fc_ok_def)
  with f c [of 1] c [of 6] c [of 2] c [of 3] show r: "rec_type (fc_buf c) = ty" "rec_len (fc_buf c) = length d"
      "rec_all (fc_buf c) = length (rec_bytes (ty, sid, d, pad))" "(fc_buf c ! 3, fc_buf c ! 2) = sid"
    by (simp_all add: rec_type_def rec_all_def rec_bytes_length)
  assume a: "rec_all (fc_buf c) \<le> fc_pos c"
  then have t: "take (rec_all (fc_buf c)) (live c) = rec_bytes (ty, sid, d, pad)" "drop (rec_all (fc_buf c)) (live c) @ later = tail"
    using assms(4) l(2) r(3) by (metis append_eq_append_conv append_take_drop_id append_assoc length_take min.absorb2)+
  show "drop (rec_all (fc_buf c)) (live c) @ later = tail" by (rule t(2))
  have "take (length d) (drop 8 (fc_buf c)) = take (length d) (drop 8 (take (rec_all (fc_buf c)) (live c)))"
    using a r(3) l(2) by (subst l(1)) (simp add: rec_bytes_length take_drop min_def)
  then show "take (length d) (drop 8 (fc_buf c)) = d" unfolding t(1) by (simp add: rec_bytes_def)
qed

lemma scan_records:
  assumes "list_all (\<lambda>r. wf_rec r \<and> fst r \<noteq> 5) recs" "wf_rec (5, sid, body, pad)" "\<forall>n. realloc_ok env n"
    and "fc_ok c" "live c @ later = stream recs @ rec_bytes (5, sid, body, pad) @ tail" "run_params recs p = Ok q"
  shows "\<exists>r c1 p1. fcgi_scan env mods c p = Some (r, c1, p1) \<and> fc_ok c1 \<and>
    (r = UPSGI_OK \<and> p1 = q \<and> live c1 @ later = rec_bytes (5, sid, body, pad) @ tail \<and> fc_sid c1 = sid \<and> fc_mods c1 = mods \<and>
       fc_eof c1 = (body = [] \<or> fc_eof c) \<or>
     r = UPSGI_AGAIN \<and> fc_pos c1 < length (fc_buf c1) \<and> fc_eof c1 = fc_eof c \<and>
       (\<exists>rs. list_all (\<lambda>r. wf_rec r \<and> fst r \<noteq> 5) rs \<and> run_params rs p1 = Ok q \<and>
         live c1 @ later = stream rs @ rec_bytes (5, sid, body, pad) @ tail \<and> length (live c1) < length (stream rs) + 8))"
  using assms(1,4-6)
proof (induction recs arbitrary: c p)
  case Nil
  show ?case
  proof (cases "fc_pos c < 8")
    case True
    then show ?thesis using Nil by (subst fcgi_scan.simps) (auto simp: fc_ok_def live_def intro!: exI [of _ "[]"])
  next
    case False
    note h = head_record(1,2,4) [OF Nil.prems(2) _ assms(2), of later tail]
    show ?thesis using False Nil h by (subst fcgi_scan.simps) (simp add: Let_def fc_ok_def live_def)
  qed
next
  case (Cons r recs)
  obtain ty rid d rpad where r: "r = (ty, rid, d, rpad)" using prod_cases4 by blast
  have w: "wf_rec (ty, rid, d, rpad)" "ty \<noteq> 5" using Cons.prems(1) by (simp_all add: r)
  have lv: "live c @ later = rec_bytes (ty, rid, d, rpad) @ stream recs @ rec_bytes (5, sid, body, pad) @ tail"
    using Cons.prems(3) by (simp add: r)
  let ?c1 = "c\<lparr>fc_sid := (fc_buf c ! 3, fc_buf c ! 2)\<rparr>"
  have ok1: "fc_ok ?c1" "live ?c1 = live c" using Cons.prems(2) by (simp_all add: fc_ok_def live_def)
  show ?case
  proof (cases "fc_pos c < 8")
    case True
    then have "length (live c) < length (stream (r # recs)) + 8" by (simp add: live_def)
    then show ?thesis using True Cons.prems by (subst fcgi_scan.simps) (auto simp: fc_ok_def simp del: stream_simps intro!: exI [of _ "r # recs"])
  next
    case False
    then have f8: "8 \<le> fc_pos c" "\<not> fc_pos c > length (fc_buf c)" using Cons.prems(2) by (simp_all add: fc_ok_def)
    note h = head_record [OF Cons.prems(2) f8(1) w(1) lv]
    show ?thesis
    proof (cases "rec_all (fc_buf c) \<le> fc_pos c")
      case True
      obtain p1 where p1: "(if ty = 4 then fastcgi_to_upsgi d p else Ok p) = Ok p1" "run_params recs p1 = Ok q"
        using Cons.prems(4) by (auto simp: r split: if_splits c_result.splits)
      have s: "fcgi_scan env mods c p = fcgi_scan env mods (drop_record ?c1) p1"
        using f8 True h(1) w(2) p1(1) h(5) [OF True] h(2) by (subst fcgi_scan.simps) (simp add: Let_def split: if_splits)
      have d: "fc_ok (drop_record ?c1)" "live (drop_record ?c1) = drop (rec_all (fc_buf c)) (live c)" "fc_eof (drop_record ?c1) = fc_eof c"
        using drop_record_ok [OF ok1(1)] True ok1(2) by simp_all
      have "live (drop_record ?c1) @ later = stream recs @ rec_bytes (5, sid, body, pad) @ tail"
        using h(6) [OF True] d(2) by simp
      from Cons.IH [OF _ d(1) this p1(2)] Cons.prems(1) show ?thesis by (simp add: s d(3))
    next
      case False
      obtain c2 where c2: "grow_block env ?c1 = Some c2" "fc_ok c2" "live c2 = live c" "fc_pos c2 < length (fc_buf c2)" "fc_eof c2 = fc_eof c"
        using grow_block_ok [OF ok1(1) _ assms(3)] False ok1(2) by auto
      moreover have "length (live c) < length (stream (r # recs)) + 8" using False h(3) by (simp add: live_def r)
      ultimately show ?thesis using f8 False h(1) w(2) Cons.prems by (subst fcgi_scan.simps) (auto simp: Let_def simp del: stream_simps intro!: exI [of _ "r # recs"])
    qed
  qed
qed

section \<open>Scripts\<close>

definition clean_evs :: "read_ev list \<Rightarrow> bool" where
  "clean_evs evs = list_all (\<lambda>e. case e of RData d \<Rightarrow> d \<noteq> [] | RAgain \<Rightarrow> True | _ \<Rightarrow> False) evs"

fun ev_bytes :: "read_ev list \<Rightarrow> char list" where
  "ev_bytes [] = []"
| "ev_bytes (RData d # evs) = d @ ev_bytes evs"
| "ev_bytes (_ # evs) = ev_bytes evs"

lemma clean_read:
  assumes "clean_evs evs" "0 < n" "ev_bytes evs \<noteq> []" "sock_read n evs = (r, evs1)"
  shows "clean_evs evs1 \<and> ev_weight evs1 < ev_weight evs \<and>
    (r = WouldBlock \<and> ev_bytes evs1 = ev_bytes evs \<or>
     (\<exists>d. r = Got d \<and> d \<noteq> [] \<and> length d \<le> n \<and> ev_bytes evs = d @ ev_bytes evs1))"
proof (cases "(n, evs)" rule: sock_read.cases)
  case (2 m bs rest)
  then show ?thesis using assms by (cases "length bs \<le> n") (auto simp: clean_evs_def)
qed (use assms in \<open>auto simp: clean_evs_def\<close>)


text \<open>The server calls the parser again as long as it asks for more.\<close>

partial_function (option) fcgi_run ::
    "mem_env \<Rightarrow> nat \<Rightarrow> nat \<times> nat \<Rightarrow> fcgi_conn \<Rightarrow> req_packet \<Rightarrow> read_ev list \<Rightarrow> (proto_ret \<times> fcgi_conn \<times> req_packet \<times> read_ev list) option" where
  "fcgi_run env buffer_size mods c p evs =
     (case upsgi_proto_fastcgi_parser env buffer_size mods c p evs of
        (None, _) \<Rightarrow> None
      | (Some (r, c1, p1), evs1) \<Rightarrow>
          if r = UPSGI_AGAIN then fcgi_run env buffer_size mods c1 p1 evs1 else Some (r, c1, p1, evs1))"

definition fcgi_conn0 :: fcgi_conn where
  "fcgi_conn0 = \<lparr>fc_buf = [], fc_pos = 0, fc_sid = (CHR 0x00, CHR 0x00), fc_mods = (0, 0), fc_eof = False, fc_remains = 0, fc_remains_at = 0, fc_move = 0\<rparr>"

lemma run_records:
  assumes "wf_rec (5, sid, body, pad)" "\<forall>n. realloc_ok env n" "clean_evs evs"
    and "list_all (\<lambda>r. wf_rec r \<and> fst r \<noteq> 5) recs" "fc_ok c" "fc_pos c < length (fc_buf c)" "\<not> fc_eof c"
    and "live c @ ev_bytes evs = stream recs @ rec_bytes (5, sid, body, pad) @ tail" "length (live c) < length (stream recs) + 8"
    and "run_params recs p = Ok q"
  shows "\<exists>c1 evs1. fcgi_run env buffer_size mods c p evs = Some (UPSGI_OK, c1, q, evs1) \<and> fc_ok c1 \<and> clean_evs evs1 \<and>
    live c1 @ ev_bytes evs1 = rec_bytes (5, sid, body, pad) @ tail \<and> fc_sid c1 = sid \<and> fc_mods c1 = mods \<and> fc_eof c1 = (body = [])"
  using assms(3-10)
proof (induction "ev_weight evs" arbitrary: evs recs c p rule: less_induct)
  case less
  have ne: "fc_buf c \<noteq> []" using less.prems(3) by (auto simp: fc_ok_def)
  have eb: "ev_bytes evs \<noteq> []"
  proof
    assume "ev_bytes evs = []"
    then have "length (live c) = length (stream recs @ rec_bytes (5, sid, body, pad) @ tail)" using less.prems(6) by simp
    then show False using less.prems(7) by (simp add: rec_bytes_length)
  qed
  obtain r evs1 where rd: "sock_read (length (fc_buf c) - fc_pos c) evs = (r, evs1)" by fastforce
  have cr: "clean_evs evs1" "ev_weight evs1 < ev_weight evs"
    "r = WouldBlock \<and> ev_bytes evs1 = ev_bytes evs \<or>
     (\<exists>d. r = Got d \<and> d \<noteq> [] \<and> length d \<le> length (fc_buf c) - fc_pos c \<and> ev_bytes evs = d @ ev_bytes evs1)"
    using clean_read [OF less.prems(1) _ eb rd] less.prems(4) by auto
  from cr(3) consider "r = WouldBlock" "ev_bytes evs1 = ev_bytes evs"
    | d where "r = Got d" "d \<noteq> []" "length d \<le> length (fc_buf c) - fc_pos c" "ev_bytes evs = d @ ev_bytes evs1" by blast
  then show ?case
  proof cases
    case 1
    have "fcgi_run env buffer_size mods c p evs = fcgi_run env buffer_size mods c p evs1"
      using ne rd 1 by (subst fcgi_run.simps) (simp add: upsgi_proto_fastcgi_parser_def)
    then show ?thesis using less.hyps [OF cr(2,1) less.prems(2-5) _ less.prems(7,8)] less.prems(6) 1(2) by simp
  next
    case 2
    note sr = store_read_ok [OF less.prems(3) 2(3)]
    have lv: "live (store_read d c) @ ev_bytes evs1 = stream recs @ rec_bytes (5, sid, body, pad) @ tail"
      using less.prems(6) 2(4) sr(2) by simp
    from scan_records [OF less.prems(2) assms(1,2) sr(1) lv less.prems(8), of mods] obtain ret c1 p1 where
      s: "fcgi_scan env mods (store_read d c) p = Some (ret, c1, p1)" "fc_ok c1"
        "ret = UPSGI_OK \<and> p1 = q \<and> live c1 @ ev_bytes evs1 = rec_bytes (5, sid, body, pad) @ tail \<and> fc_sid c1 = sid \<and> fc_mods c1 = mods \<and>
           fc_eof c1 = (body = [] \<or> fc_eof (store_read d c)) \<or>
         ret = UPSGI_AGAIN \<and> fc_pos c1 < length (fc_buf c1) \<and> fc_eof c1 = fc_eof (store_read d c) \<and>
           (\<exists>rs. list_all (\<lambda>r. wf_rec r \<and> fst r \<noteq> 5) rs \<and> run_params rs p1 = Ok q \<and>
             live c1 @ ev_bytes evs1 = stream rs @ rec_bytes (5, sid, body, pad) @ tail \<and> length (live c1) < length (stream rs) + 8)"
      by blast
    have st: "fcgi_run env buffer_size mods c p evs =
        (if ret = UPSGI_AGAIN then fcgi_run env buffer_size mods c1 p1 evs1 else Some (ret, c1, p1, evs1))"
      using ne rd 2(1,2) s(1) by (subst fcgi_run.simps) (simp add: upsgi_proto_fastcgi_parser_def)
    show ?thesis
    proof (cases "ret = UPSGI_AGAIN")
      case True
      then obtain rs where rs: "list_all (\<lambda>r. wf_rec r \<and> fst r \<noteq> 5) rs" "run_params rs p1 = Ok q"
          "live c1 @ ev_bytes evs1 = stream rs @ rec_bytes (5, sid, body, pad) @ tail" "fc_pos c1 < length (fc_buf c1)" "\<not> fc_eof c1" "length (live c1) < length (stream rs) + 8"
        using s(3) sr(3) less.prems(5) by auto
      show ?thesis using less.hyps [OF cr(2,1) rs(1) s(2) rs(4,5,3,6,2)] st True by simp
    next
      case False
      then show ?thesis using st s(2,3) cr(1) sr(3) less.prems(5) by auto
    qed
  qed
qed

section \<open>The body in pieces\<close>

definition fc_wf :: "fcgi_conn \<Rightarrow> bool" where
  "fc_wf c \<longleftrightarrow> 8 \<le> length (fc_buf c) \<and> fc_move c + fc_pos c \<le> length (fc_buf c) \<and>
     (if fc_remains c = 0 then fc_move c = 0 else fc_remains_at c + fc_remains c \<le> fc_move c)"

definition fc_pending :: "fcgi_conn \<Rightarrow> char list" where
  "fc_pending c = take (fc_remains c) (drop (fc_remains_at c) (fc_buf c))"

lemma take_remains_ok:
  assumes "fc_wf c" "0 < fc_remains c" "take_remains len c = (d, c1)"
  shows "d = take len (fc_pending c)" "fc_pending c1 = drop len (fc_pending c)" "live c1 = live c" "fc_wf c1" "fc_eof c1 = fc_eof c" "fc_sid c1 = fc_sid c"
proof -
  show d: "d = take len (fc_pending c)" using assms(3) by (auto simp: take_remains_def fc_pending_def Let_def min.commute)
  show "fc_pending c1 = drop len (fc_pending c)" "live c1 = live c" "fc_wf c1" "fc_eof c1 = fc_eof c" "fc_sid c1 = fc_sid c"
    using assms by (auto simp: take_remains_def fc_pending_def Let_def live_def fc_wf_def mem_move_def drop_take ac_simps
        split: if_splits)
qed

lemma take_stdin_ok:
  assumes "fc_ok c" "rec_all (fc_buf c) \<le> fc_pos c" "take (rec_len (fc_buf c)) (drop 8 (fc_buf c)) = b" "take_stdin len c = (d, c1)"
  shows "d = take len b" "fc_pending c1 = drop len b" "live c1 = drop (rec_all (fc_buf c)) (live c)" "fc_wf c1" "fc_eof c1 = fc_eof c" "fc_sid c1 = fc_sid c"
proof -
  let ?buf = "fc_buf c" and ?n = "rec_len (fc_buf c)"
  let ?k = "min ?n len"
  let ?c0 = "c\<lparr>fc_remains := ?n - ?k, fc_remains_at := 8 + ?k\<rparr>"
  have lb: "length b = ?n" using assms(1-3) by (auto simp: fc_ok_def rec_all_def)
  show "d = take len b" using assms(3,4) lb by (auto simp: take_stdin_def Let_def min.commute)
  have "fc_pending c1 = drop len b \<and> live c1 = drop (rec_all (fc_buf c)) (live c) \<and> fc_wf c1 \<and> fc_eof c1 = fc_eof c \<and> fc_sid c1 = fc_sid c"
  proof (cases "?n - ?k = 0")
    case True
    have k: "fc_ok ?c0" using True assms(1) by (simp add: fc_ok_def)
    have c1: "c1 = drop_record ?c0" using True assms(4) by (auto simp: take_stdin_def Let_def)
    have "fc_remains c1 = 0" "fc_move c1 = 0" using True assms(1) by (simp_all add: c1 drop_record_def Let_def fc_ok_def)
    then show ?thesis
      using drop_record_ok [OF k] assms(2) True lb by (simp add: c1 fc_pending_def fc_wf_def fc_ok_def live_def)
  next
    case False
    have c1: "c1 = ?c0\<lparr>fc_move := rec_all ?buf, fc_pos := fc_pos c - rec_all ?buf\<rparr>"
      using False assms(4) by (auto simp: take_stdin_def Let_def)
    show ?thesis
      using False assms(1-3) by (auto simp: c1 fc_pending_def live_def fc_wf_def fc_ok_def drop_take rec_all_def ac_simps min_def split: if_splits)
  qed
  then show "fc_pending c1 = drop len b" "live c1 = drop (rec_all (fc_buf c)) (live c)" "fc_wf c1" "fc_eof c1 = fc_eof c" "fc_sid c1 = fc_sid c" by blast+
qed

definition stdin_of :: "fcgi_rec \<Rightarrow> char list" where
  "stdin_of r = (case r of (ty, sid, d, pad) \<Rightarrow> if ty = 5 then d else [])"

definition body_rec :: "fcgi_rec \<Rightarrow> bool" where
  "body_rec r \<longleftrightarrow> wf_rec r \<and> (fst r = 5 \<longrightarrow> stdin_of r \<noteq> [])"

text \<open>What is left of the body: the rest of the record under way and the body records up to the empty one.\<close>

definition body_left :: "fcgi_rec \<Rightarrow> fcgi_conn \<Rightarrow> read_ev list \<Rightarrow> char list \<Rightarrow> bool" where
  "body_left fin c evs b \<longleftrightarrow> fc_wf c \<and> clean_evs evs \<and> fc_sid c = fst (snd fin) \<and>
     (if fc_eof c then b = [] \<and> fc_remains c = 0
      else \<exists>recs tail. list_all body_rec recs \<and> live c @ ev_bytes evs = stream recs @ rec_bytes fin @ tail \<and>
        b = fc_pending c @ concat (map stdin_of recs))"

lemma gather_some:
  assumes "live c @ ev_bytes evs = rec_bytes (ty, sid, d, pad) @ tail" "wf_rec (ty, sid, d, pad)" "fc_ok c"
    "fc_pos c < 8 \<or> fc_pos c < rec_all (fc_buf c)"
  shows "ev_bytes evs \<noteq> []"
proof
  assume "ev_bytes evs = []"
  then have l: "length (live c) = 8 + length d + length pad + length tail"
    using assms(1) by (metis append_Nil2 length_append rec_bytes_length)
  then have "8 \<le> fc_pos c" by (simp add: live_def)
  with head_record(3) [OF assms(3) this assms(2,1)] l assms(4) show False by (simp add: live_def rec_bytes_length)
qed

definition body_answer :: "fcgi_rec \<Rightarrow> nat \<Rightarrow> nat \<Rightarrow> char list \<Rightarrow> (read_ret \<times> fcgi_conn) option \<times> read_ev list \<Rightarrow> bool" where
  "body_answer fin w len body res \<longleftrightarrow>
     (\<exists>r c1 evs1 b. res = (Some (r, c1), evs1) \<and> body_left fin c1 evs1 b \<and> ev_weight evs1 \<le> w \<and>
       (r = WouldBlock \<longrightarrow> ev_weight evs1 < w) \<and>
       (r = WouldBlock \<and> b = body \<or>
        (\<exists>d. r = Got d \<and> body = d @ b \<and> length d \<le> len \<and> (d = [] \<longrightarrow> b = [] \<and> fc_eof c1))))"

lemma body_answer_mono: "body_answer fin w len body res \<Longrightarrow> w \<le> v \<Longrightarrow> body_answer fin v len body res"
  by (fastforce simp: body_answer_def)

abbreviation body_bound :: "bool \<Rightarrow> read_ev list \<Rightarrow> nat" where
  "body_bound has_read evs \<equiv> (if has_read then Suc (ev_weight evs) else ev_weight evs)"

lemma body_left_start:
  assumes "fc_sid c = fst (snd fin)" "fc_ok c" "\<not> fc_eof c" "clean_evs evs" "list_all body_rec recs" "live c @ ev_bytes evs = stream recs @ rec_bytes fin @ tail"
  shows "body_left fin c evs (concat (map stdin_of recs))"
  using assms by (auto simp: body_left_def fc_ok_def fc_wf_def fc_pending_def)

lemma fcgi_body_ok:
  assumes "wf_rec (5, sid, [], pad)" "\<forall>n. realloc_ok env n" "0 < len"
    and "fc_ok c" "\<not> fc_eof c" "clean_evs evs" "list_all body_rec recs" "live c @ ev_bytes evs = stream recs @ rec_bytes (5, sid, [], pad) @ tail"
    and "fc_sid c = sid"
  shows "body_answer (5, sid, [], pad) (body_bound has_read evs) len (concat (map stdin_of recs)) (fcgi_body env len has_read c evs)"
  using assms(4-9)
proof (induction "ev_weight evs" arbitrary: evs c recs has_read rule: less_induct)
  case less
  note outer = less.hyps
  let ?fin = "(5, sid, [], pad) :: fcgi_rec"
  have gather: "body_answer ?fin (body_bound has_read evs) len (concat (map stdin_of rs))
      (case sock_read (length (fc_buf k) - fc_pos k) evs of
          (Got d, evs1) \<Rightarrow> if d = [] then (Some (Got [], k), evs1) else fcgi_body env len True (store_read d k) evs1
        | (r, evs1) \<Rightarrow> (Some (r, k), evs1))"
    if k: "fc_ok k" "\<not> fc_eof k" "list_all body_rec rs" "live k @ ev_bytes evs = stream rs @ rec_bytes ?fin @ tail"
      "ev_bytes evs \<noteq> []" "fc_pos k < length (fc_buf k)" "fc_sid k = sid" for k rs
  proof -
    obtain r evs1 where rd: "sock_read (length (fc_buf k) - fc_pos k) evs = (r, evs1)" by fastforce
    have cr: "clean_evs evs1" "ev_weight evs1 < ev_weight evs"
      "r = WouldBlock \<and> ev_bytes evs1 = ev_bytes evs \<or>
       (\<exists>d. r = Got d \<and> d \<noteq> [] \<and> length d \<le> length (fc_buf k) - fc_pos k \<and> ev_bytes evs = d @ ev_bytes evs1)"
      using clean_read [OF less.prems(3) _ k(5) rd] k(6) by auto
    from cr(3) consider "r = WouldBlock" "ev_bytes evs1 = ev_bytes evs"
      | d where "r = Got d" "d \<noteq> []" "length d \<le> length (fc_buf k) - fc_pos k" "ev_bytes evs = d @ ev_bytes evs1" by blast
    then show ?thesis
    proof cases
      case 1
      then show ?thesis using rd body_left_start [OF _ k(1,2) cr(1) k(3)] k(4,7) cr(2) by (auto simp: body_answer_def)
    next
      case 2
      note sr = store_read_ok [OF k(1) 2(3)]
      have "live (store_read d k) @ ev_bytes evs1 = stream rs @ rec_bytes ?fin @ tail" using k(4) 2(4) sr(2) by simp
      then have "body_answer ?fin (Suc (ev_weight evs1)) len (concat (map stdin_of rs)) (fcgi_body env len True (store_read d k) evs1)"
        using outer [OF cr(2) sr(1) _ cr(1) k(3), of True] sr(3,4) k(2,7) by simp
      then have "body_answer ?fin (body_bound has_read evs) len (concat (map stdin_of rs)) (fcgi_body env len True (store_read d k) evs1)"
        by (rule body_answer_mono) (use cr(2) in simp)
      then show ?thesis using rd 2(1,2) by simp
    qed
  qed
  have partial: "body_answer ?fin (body_bound has_read evs) len (concat (map stdin_of rs)) (fcgi_body env len has_read k evs)"
    if k: "fc_ok k" "\<not> fc_eof k" "list_all body_rec rs" "live k @ ev_bytes evs = stream rs @ rec_bytes ?fin @ tail"
      "fc_pos k < 8 \<or> fc_pos k < rec_all (fc_buf k)" "fc_sid k = sid" for k rs
  proof -
    have ne: "ev_bytes evs \<noteq> []"
    proof (cases rs)
      case Nil
      then show ?thesis using gather_some [OF _ assms(1) k(1,5)] k(4) by simp
    next
      case (Cons r rs')
      obtain ty rid d rpad where r: "r = (ty, rid, d, rpad)" using prod_cases4 by blast
      show ?thesis using gather_some [OF _ _ k(1,5), of evs ty rid d rpad "stream rs' @ rec_bytes ?fin @ tail"] k(3,4)
        by (simp add: Cons r body_rec_def)
    qed
    show ?thesis
    proof (cases "fc_pos k < 8")
      case True
      then have "fc_pos k < length (fc_buf k)" using k(1) by (simp add: fc_ok_def)
      with gather [OF k(1-4) ne this k(6)] True show ?thesis by (subst fcgi_body.simps) (simp add: Let_def)
    next
      case False
      then have p: "fc_pos k < rec_all (fc_buf k)" "\<not> fc_pos k > length (fc_buf k)" using k(1,5) by (auto simp: fc_ok_def)
      obtain k1 where k1: "grow_block env k = Some k1" "fc_ok k1" "live k1 = live k" "fc_pos k1 < length (fc_buf k1)" "fc_eof k1 = fc_eof k"
          "fc_sid k1 = sid"
        using k(6) grow_block_ok [OF k(1) p(1) assms(2)] by auto
      have "has_read \<Longrightarrow> body_answer ?fin (body_bound has_read evs) len (concat (map stdin_of rs)) (Some (WouldBlock, k1), evs)"
        using body_left_start [OF _ k1(2) _ less.prems(3) k(3)] k1(3,5,6) k(2,4) by (auto simp: body_answer_def)
      with gather [OF k1(2) _ k(3) _ ne k1(4,6)] False p k1(1,3,5) k(2,4) show ?thesis
        by (cases has_read) (subst fcgi_body.simps, simp add: Let_def)+
    qed
  qed
  from less.prems show ?case
  proof (induction recs arbitrary: c)
    case Nil
    show ?case
    proof (cases "fc_pos c < 8 \<or> fc_pos c < rec_all (fc_buf c)")
      case True
      then show ?thesis using partial [of c "[]"] Nil by simp
    next
      case False
      then have p: "8 \<le> fc_pos c" "rec_all (fc_buf c) \<le> fc_pos c" "\<not> fc_pos c > length (fc_buf c)" using Nil(1) by (auto simp: fc_ok_def)
      have l: "live c @ ev_bytes evs = rec_bytes ?fin @ tail" using Nil(5) by simp
      note h = head_record(1,2) [OF Nil(1) p(1) assms(1) l]
      have "body_left ?fin (c\<lparr>fc_eof := True\<rparr>) evs []"
        using Nil(1,3,6) by (auto simp: body_left_def fc_wf_def fc_ok_def)
      then show ?thesis using p h by (subst fcgi_body.simps) (auto simp: Let_def body_answer_def)
    qed
  next
    case (Cons r recs)
    obtain ty rid d rpad where r: "r = (ty, rid, d, rpad)" using prod_cases4 by blast
    have br: "body_rec r" "list_all body_rec recs" using Cons.prems(4) by simp_all
    then have w: "wf_rec (ty, rid, d, rpad)" "ty = 5 \<Longrightarrow> d \<noteq> []" by (auto simp: r body_rec_def stdin_of_def)
    show ?case
    proof (cases "fc_pos c < 8 \<or> fc_pos c < rec_all (fc_buf c)")
      case True
      then show ?thesis using partial [of c "r # recs"] Cons.prems by simp
    next
      case False
      then have p: "8 \<le> fc_pos c" "rec_all (fc_buf c) \<le> fc_pos c" "\<not> fc_pos c > length (fc_buf c)" using Cons.prems(1) by (auto simp: fc_ok_def)
      have l: "live c @ ev_bytes evs = rec_bytes (ty, rid, d, rpad) @ stream recs @ rec_bytes ?fin @ tail"
        using Cons.prems(5) by (simp add: r)
      note h = head_record [OF Cons.prems(1) p(1) w(1) l]
      show ?thesis
      proof (cases "ty = 5")
        case True
        obtain x c1 where t: "take_stdin len c = (x, c1)" by fastforce
        note ts = take_stdin_ok [OF Cons.prems(1) p(2) _ t, of d, unfolded h(2), OF h(5) [OF p(2)]]
        have "live c1 @ ev_bytes evs = stream recs @ rec_bytes ?fin @ tail" using ts(3) h(6) [OF p(2)] by simp
        then have "body_left ?fin c1 evs (drop len d @ concat (map stdin_of recs))"
          using ts(2,4-6) Cons.prems(2,3,6) br(2) by (auto simp: body_left_def)
        moreover have "x \<noteq> []" "length x \<le> len" using ts(1) w(2) [OF True] assms(3) by auto
        moreover have "concat (map stdin_of (r # recs)) = x @ drop len d @ concat (map stdin_of recs)"
          using ts(1) True by (simp add: r stdin_of_def)
        ultimately show ?thesis using p h(1,2) True w(2) t
          by (subst fcgi_body.simps) (simp add: Let_def body_answer_def)
      next
        case False
        note dr = drop_record_ok [OF Cons.prems(1) p(2)]
        have "live (drop_record c) @ ev_bytes evs = stream recs @ rec_bytes ?fin @ tail" using dr(2) h(6) [OF p(2)] by simp
        then have "body_answer ?fin (body_bound has_read evs) len (concat (map stdin_of recs)) (fcgi_body env len has_read (drop_record c) evs)"
          using Cons.IH [OF dr(1) _ Cons.prems(3) br(2)] dr(3,5) Cons.prems(2,6) by simp
        moreover have "fcgi_body env len has_read c evs = fcgi_body env len has_read (drop_record c) evs"
          using p h(1) False by (subst fcgi_body.simps) (simp add: Let_def)
        moreover have "stdin_of r = []" using False by (simp add: r stdin_of_def)
        ultimately show ?thesis by simp
      qed
    qed
  qed
qed

lemma read_body_answer:
  assumes "body_left (5, sid, [], pad) c evs b" "wf_rec (5, sid, [], pad)" "\<forall>n. realloc_ok env n" "0 < len"
  shows "body_answer (5, sid, [], pad) (ev_weight evs) len b (upsgi_proto_fastcgi_read_body env len c evs)"
proof (cases "fc_remains c > 0")
  case True
  obtain x c1 where t: "take_remains len c = (x, c1)" by fastforce
  have e: "\<not> fc_eof c" and wf: "fc_wf c" using assms(1) True by (auto simp: body_left_def split: if_splits)
  note tr = take_remains_ok [OF wf True t]
  have p: "fc_pending c \<noteq> []" using True wf by (auto simp: fc_pending_def fc_wf_def)
  obtain recs tail where r: "list_all body_rec recs" "live c @ ev_bytes evs = stream recs @ rec_bytes (5, sid, [], pad) @ tail"
      "b = fc_pending c @ concat (map stdin_of recs)" "clean_evs evs"
    using assms(1) e by (auto simp: body_left_def)
  have "body_left (5, sid, [], pad) c1 evs (fc_pending c1 @ concat (map stdin_of recs))"
    using r(1,2,4) tr(3-6) e assms(1) by (auto simp: body_left_def)
  moreover have "b = x @ fc_pending c1 @ concat (map stdin_of recs)" "x \<noteq> []" "length x \<le> len"
    using tr(1,2) r(3) p assms(4) by auto
  ultimately show ?thesis using True t by (auto simp: upsgi_proto_fastcgi_read_body_def body_answer_def)
next
  case False
  show ?thesis
  proof (cases "fc_eof c")
    case True
    then show ?thesis using False assms(1) by (auto simp: upsgi_proto_fastcgi_read_body_def body_answer_def body_left_def)
  next
    case e: False
    obtain recs tail where r: "list_all body_rec recs" "live c @ ev_bytes evs = stream recs @ rec_bytes (5, sid, [], pad) @ tail"
        "b = concat (map stdin_of recs)" "clean_evs evs" "fc_ok c" "fc_sid c = sid"
      using assms(1) e False by (auto simp: body_left_def fc_pending_def fc_wf_def fc_ok_def)
    show ?thesis using fcgi_body_ok [OF assms(2-4) r(5) e r(4,1,2,6), of False] False e r(3)
      by (simp add: upsgi_proto_fastcgi_read_body_def)
  qed
qed

text \<open>Reads of the given sizes, one after the other; a read that would block counts as one that gave nothing.\<close>

fun fcgi_reads :: "mem_env \<Rightarrow> nat list \<Rightarrow> fcgi_conn \<Rightarrow> read_ev list \<Rightarrow> (char list list \<times> fcgi_conn \<times> read_ev list) option" where
  "fcgi_reads env [] c evs = Some ([], c, evs)"
| "fcgi_reads env (n # ns) c evs =
     (case upsgi_proto_fastcgi_read_body env n c evs of
        (Some (Got d, c1), evs1) \<Rightarrow> map_option (\<lambda>(ds, r). (d # ds, r)) (fcgi_reads env ns c1 evs1)
      | (Some (WouldBlock, c1), evs1) \<Rightarrow> map_option (\<lambda>(ds, r). ([] # ds, r)) (fcgi_reads env ns c1 evs1)
      | _ \<Rightarrow> None)"

lemma fcgi_reads_ok:
  assumes "body_left (5, sid, [], pad) c evs b" "wf_rec (5, sid, [], pad)" "\<forall>n. realloc_ok env n" "list_all ((<) 0) ns"
  shows "\<exists>ds c1 evs1 b1. fcgi_reads env ns c evs = Some (ds, c1, evs1) \<and> b = concat ds @ b1 \<and> body_left (5, sid, [], pad) c1 evs1 b1 \<and>
    list_all2 (\<lambda>d n. length d \<le> n) ds ns"
  using assms(1,4)
proof (induction ns arbitrary: c evs b)
  case Nil
  then show ?case by auto
next
  case (Cons n ns)
  have n: "0 < n" "list_all ((<) 0) ns" using Cons.prems(2) by simp_all
  from read_body_answer [OF Cons.prems(1) assms(2,3) n(1)] obtain r c1 evs1 b1 where
    a: "upsgi_proto_fastcgi_read_body env n c evs = (Some (r, c1), evs1)" "body_left (5, sid, [], pad) c1 evs1 b1"
      "r = WouldBlock \<and> b1 = b \<or> (\<exists>d. r = Got d \<and> b = d @ b1 \<and> length d \<le> n)"
    by (auto simp: body_answer_def)
  from Cons.IH [OF a(2) n(2)] obtain ds c2 evs2 b2 where
    "fcgi_reads env ns c1 evs1 = Some (ds, c2, evs2)" "b1 = concat ds @ b2" "body_left (5, sid, [], pad) c2 evs2 b2"
    "list_all2 (\<lambda>d n. length d \<le> n) ds ns" by blast
  with a show ?case by auto
qed

lemma drain_ok:
  assumes "body_left (5, sid, [], pad) c evs b" "wf_rec (5, sid, [], pad)" "\<forall>n. realloc_ok env n"
    "list_all ((<) 0) waits" "ev_weight evs \<le> length waits"
  shows "\<exists>c1 evs1. fcgi_drain env c evs waits = Some (True, c1, evs1) \<and> fc_sid c1 = sid"
  using assms(1,4,5)
proof (induction "ev_weight evs + length b" arbitrary: c evs b waits rule: less_induct)
  case less
  from read_body_answer [OF less.prems(1) assms(2,3), of 4096] obtain r c1 evs1 b1 where
    a: "upsgi_proto_fastcgi_read_body env 4096 c evs = (Some (r, c1), evs1)" "body_left (5, sid, [], pad) c1 evs1 b1"
      "ev_weight evs1 \<le> ev_weight evs" "r = WouldBlock \<longrightarrow> ev_weight evs1 < ev_weight evs"
      "r = WouldBlock \<and> b1 = b \<or> (\<exists>d. r = Got d \<and> b = d @ b1)"
    by (auto simp: body_answer_def)
  from a(5) consider "r = WouldBlock" "b1 = b" | "r = Got []" | d where "r = Got d" "d \<noteq> []" "b = d @ b1" by auto
  then show ?case
  proof cases
    case 1
    with a(4) less.prems(3) obtain w ws where w: "waits = w # ws" by (cases waits) auto
    have "\<exists>c1a evs1a. fcgi_drain env c1 evs1 ws = Some (True, c1a, evs1a) \<and> fc_sid c1a = sid"
      using less.hyps [OF _ a(2), of ws] a(4) 1 less.prems(2,3) w by auto
    then show ?thesis using a(1) 1 less.prems(2) w by (subst fcgi_drain.simps) auto
  next
    case 2
    then show ?thesis using a(1,2) by (subst fcgi_drain.simps) (simp add: body_left_def)
  next
    case 3
    have "ev_weight evs1 + length b1 < ev_weight evs + length b" using a(3) 3 by (cases d) auto
    then have "\<exists>c1a evs1a. fcgi_drain env c1 evs1 waits = Some (True, c1a, evs1a) \<and> fc_sid c1a = sid"
      using a(3) less.prems(2,3) by (intro less.hyps [OF _ a(2)]) auto
    then show ?thesis using a(1) 3 by (subst fcgi_drain.simps) auto
  qed
qed

section \<open>Whole requests\<close>

text \<open>A request as a web server sends it: the begin record, the parameters in any number of records, the body in
  records, and the empty body record.\<close>

type_synonym fcgi_groups = "((char list \<times> char list) list \<times> char list) list"

definition param_recs :: "char \<times> char \<Rightarrow> fcgi_groups \<Rightarrow> fcgi_rec list" where
  "param_recs sid groups = map (\<lambda>(kvs, pad). (4, sid, param_bytes kvs, pad)) groups"

definition body_recs :: "char \<times> char \<Rightarrow> (char list \<times> char list) list \<Rightarrow> fcgi_rec list" where
  "body_recs sid bodies = map (\<lambda>(d, pad). (5, sid, d, pad)) bodies"

definition fcgi_request :: "char \<times> char \<Rightarrow> char list \<Rightarrow> fcgi_groups \<Rightarrow> (char list \<times> char list) list \<Rightarrow> char list" where
  "fcgi_request sid begin groups bodies =
     stream ((1, sid, begin, []) # param_recs sid groups) @ stream (body_recs sid bodies) @ rec_bytes (5, sid, [], [])"

lemma run_groups:
  assumes "list_all (\<lambda>(kvs, pad). list_all good_pair kvs) groups" "holds_vars n done0 p" "n \<le> 65536"
    "length (encode_vars (done0 @ concat (map fst groups))) < n"
  shows "\<exists>q. run_params (param_recs sid groups) p = Ok q \<and> holds_vars n (done0 @ concat (map fst groups)) q"
  using assms
proof (induction groups arbitrary: p done0)
  case Nil
  then show ?case by (simp add: param_recs_def)
next
  case (Cons g groups)
  obtain kvs pad where g: "g = (kvs, pad)" by fastforce
  obtain q where q: "fastcgi_to_upsgi (param_bytes kvs) p = Ok q" "holds_vars n (done0 @ kvs) q"
    using params_read [OF _ Cons.prems(2,3), of kvs] Cons.prems(1,4) by (auto simp: g)
  then show ?case using Cons.IH [OF _ q(2) Cons.prems(3)] Cons.prems(1,4) by (simp add: g param_recs_def)
qed

definition wf_request :: "char list \<Rightarrow> fcgi_groups \<Rightarrow> (char list \<times> char list) list \<Rightarrow> bool" where
  "wf_request begin groups bodies \<longleftrightarrow> length begin < 65536 \<and>
     list_all (\<lambda>(kvs, pad). list_all good_pair kvs \<and> length (param_bytes kvs) < 65536 \<and> length pad < 256) groups \<and>
     list_all (\<lambda>(d, pad). d \<noteq> [] \<and> length d < 65536 \<and> length pad < 256) bodies"

lemma request_received:
  assumes "wf_request begin groups bodies" "\<forall>n. realloc_ok env n" "8 \<le> buffer_size" "clean_evs evs"
    and "ev_bytes evs = fcgi_request sid begin groups bodies" "pkt_len p = 0" "length (pkt_buffer p) = n" "n \<le> 65536"
    and "length (encode_vars (concat (map fst groups))) < n"
  shows "\<exists>c evs1 q. fcgi_run env buffer_size mods fcgi_conn0 p evs = Some (UPSGI_OK, c, q, evs1) \<and>
    pkt_content q = encode_vars (concat (map fst groups)) \<and> fc_sid c = sid \<and> fc_mods c = mods \<and>
    body_left (5, sid, [], []) c evs1 (concat (map fst bodies)) \<and> (bodies = [] \<longrightarrow> fc_eof c)"
proof -
  let ?recs = "(1, sid, begin, []) # param_recs sid groups" and ?fin = "(5, sid, [], []) :: fcgi_rec"
  let ?c0 = "fcgi_conn0\<lparr>fc_buf := fresh_block env 0 buffer_size\<rparr>"
  have fin: "wf_rec ?fin" by (simp add: wf_rec_def)
  have recs: "list_all (\<lambda>r. wf_rec r \<and> fst r \<noteq> 5) ?recs"
    using assms(1) by (auto simp: wf_request_def wf_rec_def param_recs_def list_all_iff)
  have "holds_vars n [] p" using assms(6,7) by (simp add: holds_vars_def pkt_inv_def pkt_content_def)
  moreover have "list_all (\<lambda>(kvs, pad). list_all good_pair kvs) groups"
    using assms(1) by (auto simp: wf_request_def list_all_iff)
  ultimately obtain q where q: "run_params ?recs p = Ok q" "holds_vars n (concat (map fst groups)) q"
    using run_groups [of groups n "[]" p sid] assms(8,9) by auto
  have c0: "fc_ok ?c0" "fc_pos ?c0 < length (fc_buf ?c0)" "\<not> fc_eof ?c0" "live ?c0 = []"
    using assms(3) by (simp_all add: fc_ok_def live_def fcgi_conn0_def fresh_block_def)
  have start: "fcgi_run env buffer_size mods fcgi_conn0 p evs = fcgi_run env buffer_size mods ?c0 p evs"
  proof -
    have "fc_buf ?c0 \<noteq> []" using assms(3) by (simp add: fresh_block_def)
    then have "upsgi_proto_fastcgi_parser env buffer_size mods fcgi_conn0 p evs = upsgi_proto_fastcgi_parser env buffer_size mods ?c0 p evs"
      by (simp add: upsgi_proto_fastcgi_parser_def fcgi_conn0_def)
    then show ?thesis by (simp add: fcgi_run.simps [of _ _ _ fcgi_conn0] fcgi_run.simps [of _ _ _ ?c0])
  qed
  show ?thesis
  proof (cases bodies)
    case Nil
    then have l: "live ?c0 @ ev_bytes evs = stream ?recs @ rec_bytes ?fin @ []"
      using assms(5) c0(4) by (simp add: fcgi_request_def body_recs_def)
    have "length (live ?c0) < length (stream ?recs) + 8" using c0(4) by simp
    from run_records [OF fin assms(2,4) recs c0(1-3) l this q(1), of buffer_size mods] obtain c1 evs1 where
      r: "fcgi_run env buffer_size mods ?c0 p evs = Some (UPSGI_OK, c1, q, evs1)" "fc_ok c1" "clean_evs evs1" "fc_sid c1 = sid" "fc_mods c1 = mods" "fc_eof c1"
      by auto
    moreover have "body_left ?fin c1 evs1 (concat (map fst bodies))" using r(2,3,4,6) Nil by (auto simp: body_left_def fc_wf_def fc_ok_def)
    ultimately show ?thesis using q(2) r(6) by (auto simp: start holds_vars_def)
  next
    case (Cons b bs)
    obtain d pad where b: "b = (d, pad)" by fastforce
    have w: "wf_rec (5, sid, d, pad)" "d \<noteq> []" "list_all body_rec (body_recs sid bodies)"
      using assms(1) by (auto simp: wf_request_def Cons b wf_rec_def list_all_iff body_recs_def body_rec_def stdin_of_def)
    let ?tail = "stream (body_recs sid bs) @ rec_bytes ?fin"
    have l: "live ?c0 @ ev_bytes evs = stream ?recs @ rec_bytes (5, sid, d, pad) @ ?tail"
      using assms(5) c0(4) by (simp add: fcgi_request_def body_recs_def Cons b)
    have "length (live ?c0) < length (stream ?recs) + 8" using c0(4) by simp
    from run_records [OF w(1) assms(2,4) recs c0(1-3) l this q(1), of buffer_size mods] obtain c1 evs1 where
      r: "fcgi_run env buffer_size mods ?c0 p evs = Some (UPSGI_OK, c1, q, evs1)" "fc_ok c1" "clean_evs evs1"
        "live c1 @ ev_bytes evs1 = rec_bytes (5, sid, d, pad) @ ?tail" "fc_sid c1 = sid" "fc_mods c1 = mods" "\<not> fc_eof c1"
      using w(2) by auto
    have "live c1 @ ev_bytes evs1 = stream (body_recs sid bodies) @ rec_bytes ?fin @ []" using r(4) by (simp add: body_recs_def Cons b)
    from body_left_start [OF _ r(2,7,3) w(3) this] r(5)
    have "body_left ?fin c1 evs1 (concat (map stdin_of (body_recs sid bodies)))" by simp
    moreover have "map stdin_of (body_recs sid bodies) = map fst bodies" by (auto simp: body_recs_def stdin_of_def)
    ultimately show ?thesis using q(2) r Cons by (auto simp: start holds_vars_def)
  qed
qed

section \<open>The response is framed\<close>

function fcgi_frame :: "char \<times> char \<Rightarrow> char list \<Rightarrow> char list" where
  "fcgi_frame sid bs = (if bs = [] then [] else
     fcgi_header 6 sid (min (length bs) 65535) @ take 65535 bs @ fcgi_frame sid (drop 65535 bs))"
  by auto
termination by (relation "measure (\<lambda>(_, bs). length bs)") auto

declare fcgi_frame.simps [simp del]

text \<open>What is still to be sent: the rest of the record under way, then the rest in records.\<close>

definition frame_left :: "char \<times> char \<Rightarrow> char list \<Rightarrow> nat \<Rightarrow> nat \<Rightarrow> char list" where
  "frame_left sid buf pos status =
     (if status = 0 then fcgi_frame sid (drop pos buf)
      else take status (drop pos buf) @ fcgi_frame sid (drop (pos + status) buf))"

lemma frame_left_fresh:
  assumes "pos < length buf"
  shows "frame_left sid buf pos 0 = fcgi_header 6 sid (min (length buf - pos) 65535) @ frame_left sid buf pos (min (length buf - pos) 65535)"
  using assms by (simp add: frame_left_def fcgi_frame.simps [of sid "drop pos buf"] min_def add.commute)

lemma frame_left_some:
  assumes "0 < n" "pos + n \<le> length buf" "k \<le> n"
  shows "frame_left sid buf pos n = take k (drop pos buf) @ frame_left sid buf (pos + k) (n - k)"
proof (cases "k = n")
  case True
  then show ?thesis using assms by (simp add: frame_left_def)
next
  case False
  have "take n (drop pos buf) = take k (drop pos buf) @ take (n - k) (drop (pos + k) buf)"
    using assms(3) by (metis drop_drop le_add_diff_inverse take_add add.commute)
  then show ?thesis using assms False by (simp add: frame_left_def)
qed

definition write_ready :: "char list \<Rightarrow> nat \<Rightarrow> nat \<Rightarrow> bool" where
  "write_ready buf pos status \<longleftrightarrow> pos < length buf \<and> pos + status \<le> length buf"

lemma fcgi_write_step:
  assumes "write_ready buf pos status" "upsgi_proto_fastcgi_write sid hdr buf pos status ev = (r, pos1, status1, out)"
  shows "\<exists>rest. frame_left sid buf pos status = out @ rest \<and> (r = UPSGI_OK \<longrightarrow> rest = []) \<and>
    (r = UPSGI_AGAIN \<longrightarrow> write_ready buf pos1 status1 \<and> rest = frame_left sid buf pos1 status1)"
proof -
  define n where "n = (if status = 0 then min (length buf - pos) 65535 else status)"
  define head where "head = (if status = 0 then fcgi_header 6 sid n else [])"
  have n: "0 < n" "pos + n \<le> length buf" using assms(1) by (auto simp: n_def write_ready_def)
  have fl: "frame_left sid buf pos status = head @ frame_left sid buf pos n"
    using frame_left_fresh [of pos buf sid] assms(1) by (auto simp: head_def n_def write_ready_def)
  have w: "upsgi_proto_fastcgi_write sid hdr buf pos status ev =
      (case (if status = 0 then hdr else None) of
         Some k \<Rightarrow> (PROTO_ERR, pos, n, take k head)
       | None \<Rightarrow> (case ev of
           WWrote m \<Rightarrow> (let o1 = take (min m n) (drop pos buf) in
             if length o1 > 0 then (if pos + length o1 = length buf then UPSGI_OK else UPSGI_AGAIN, pos + length o1, n - length o1, head @ o1)
             else (PROTO_ERR, pos, n, head))
         | WAgain \<Rightarrow> (UPSGI_AGAIN, pos, n, head) | WErr \<Rightarrow> (PROTO_ERR, pos, n, head)))"
    unfolding upsgi_proto_fastcgi_write_def n_def head_def Let_def by simp
  show ?thesis
  proof (cases "if status = 0 then hdr else None")
    case (Some k)
    then have "r = PROTO_ERR" "out = take k head" using assms(2) w by auto
    then show ?thesis by (intro exI [of _ "drop k head @ frame_left sid buf pos n"]) (simp add: fl)
  next
    case None
    show ?thesis
    proof (cases ev)
      case (WWrote m)
      let ?o = "take (min m n) (drop pos buf)"
      have l: "length ?o = min m n" using n(2) by simp
      note s = frame_left_some [OF n, of "min m n" sid]
      show ?thesis
      proof (cases "min m n = 0")
        case True
        then show ?thesis using assms(2) w None WWrote by (auto simp: fl Let_def)
      next
        case False
        then have r: "(r, pos1, status1, out) = (if pos + min m n = length buf then UPSGI_OK else UPSGI_AGAIN, pos + min m n, n - min m n, head @ ?o)"
          using assms(2) w None WWrote l n by (simp add: Let_def)
        show ?thesis
        proof (cases "pos + min m n = length buf")
          case True
          then have "min m n = n" using n(2) by linarith
          then have "frame_left sid buf pos n = ?o @ []" using s True by (simp add: frame_left_def fcgi_frame.simps)
          then show ?thesis using r True by (auto simp: fl)
        next
          case f: False
          then show ?thesis using r s n(2) by (auto simp: fl write_ready_def)
        qed
      qed
    next
      case WAgain
      then show ?thesis using assms w None n by (auto simp: fl write_ready_def)
    next
      case WErr
      then show ?thesis using assms w None by (auto simp: fl)
    qed
  qed
qed

text \<open>The writer calls again as long as it is told to; each call has its answers of the kernel.\<close>

fun fcgi_write_run :: "char \<times> char \<Rightarrow> char list \<Rightarrow> nat \<Rightarrow> nat \<Rightarrow> (nat option \<times> wr_ev) list \<Rightarrow> proto_ret \<times> char list" where
  "fcgi_write_run sid buf pos status [] = (UPSGI_AGAIN, [])"
| "fcgi_write_run sid buf pos status ((hdr, ev) # evs) =
     (case upsgi_proto_fastcgi_write sid hdr buf pos status ev of
        (r, pos1, status1, out) \<Rightarrow>
          if r = UPSGI_AGAIN then (case fcgi_write_run sid buf pos1 status1 evs of (r1, out1) \<Rightarrow> (r1, out @ out1)) else (r, out))"

lemma fcgi_write_run_left:
  "write_ready buf pos status \<Longrightarrow> fcgi_write_run sid buf pos status evs = (r, out) \<Longrightarrow>
   \<exists>rest. frame_left sid buf pos status = out @ rest \<and> (r = UPSGI_OK \<longrightarrow> rest = [])"
proof (induction evs arbitrary: pos status r out)
  case Nil
  then show ?case by simp
next
  case (Cons e evs)
  obtain hdr ev where e: "e = (hdr, ev)" by fastforce
  obtain r0 pos1 status1 o1 where w: "upsgi_proto_fastcgi_write sid hdr buf pos status ev = (r0, pos1, status1, o1)"
    using prod_cases4 by blast
  from fcgi_write_step [OF Cons.prems(1) w] obtain rest where
    s: "frame_left sid buf pos status = o1 @ rest" "r0 = UPSGI_OK \<longrightarrow> rest = []"
      "r0 = UPSGI_AGAIN \<longrightarrow> write_ready buf pos1 status1 \<and> rest = frame_left sid buf pos1 status1" by blast
  show ?case
  proof (cases "r0 = UPSGI_AGAIN")
    case True
    obtain r1 o2 where t: "fcgi_write_run sid buf pos1 status1 evs = (r1, o2)" by fastforce
    from Cons.IH [OF _ t] s(3) True obtain rest2 where "rest = o2 @ rest2" "r1 = UPSGI_OK \<longrightarrow> rest2 = []" by auto
    then show ?thesis using Cons.prems(2) w t True s(1) by (auto simp: e)
  next
    case False
    then show ?thesis using Cons.prems(2) w s(1,2) by (auto simp: e)
  qed
qed

function chunks :: "char list \<Rightarrow> char list list" where
  "chunks bs = (if bs = [] then [] else take 65535 bs # chunks (drop 65535 bs))"
  by auto
termination by (relation "measure length") auto

declare chunks.simps [simp del]

lemma frame_records:
  "fcgi_frame sid bs = stream (map (\<lambda>d. (6, sid, d, [])) (chunks bs)) \<and> concat (chunks bs) = bs \<and>
   list_all (\<lambda>d. d \<noteq> [] \<and> length d \<le> 65535) (chunks bs)"
proof (induction bs rule: chunks.induct)
  case (1 bs)
  show ?case
  proof (cases "bs = []")
    case True
    then show ?thesis by (simp add: fcgi_frame.simps chunks.simps)
  next
    case False
    then show ?thesis using 1 [OF False]
      by (subst chunks.simps, subst fcgi_frame.simps) (simp add: rec_bytes_def fcgi_header_def chunks.simps min.commute)
  qed
qed

section \<open>The request the server writes itself\<close>

text \<open>A writer that, with memory at hand, appends the given bytes to a buffer without a limit.\<close>

definition puts :: "(upsgi_buffer \<Rightarrow> upsgi_buffer c_result) \<Rightarrow> char list \<Rightarrow> bool" where
  "puts f d \<longleftrightarrow> (\<forall>ub. ub_inv ub \<and> ub_limit ub = 0 \<longrightarrow>
     (\<exists>u. f ub = Ok u \<and> ub_inv u \<and> ub_limit u = 0 \<and> ub_content u = ub_content ub @ d))"

lemma puts_append: "\<forall>n. realloc_ok env n \<Longrightarrow> puts (\<lambda>u. upsgi_buffer_append env u d) d"
proof -
  assume r: "\<forall>n. realloc_ok env n"
  have "\<exists>u. upsgi_buffer_append env ub d = Ok u \<and> ub_inv u \<and> ub_limit u = 0 \<and> ub_content u = ub_content ub @ d"
    if ub: "ub_inv ub" "ub_limit ub = 0" for ub
  proof -
    have "\<exists>g. append_grown env ub (length d) = Ok g" using r ub(2) by (simp add: append_grown_def Let_def ub_realloc_def)
    then obtain g where g: "append_grown env ub (length d) = Ok g" by blast
    obtain w where w: "ub_memcpy g (ub_pos g) d = Ok w"
      using ub_memcpy_in_range [OF append_grown_Ok(1) [OF ub(1) g]] by blast
    have o: "upsgi_buffer_append env ub d = Ok (w\<lparr>ub_pos := ub_pos w + length d\<rparr>)"
      using g w by (simp add: upsgi_buffer_append_alt ub_advance_def)
    have "ub_limit w = 0" using append_grown_Ok(4) [OF ub(1) g] ub_memcpy_Ok(3) [OF w] ub(2) by simp
    then show ?thesis using o ub.app_ok [OF ub(1) o] by simp
  qed
  then show ?thesis by (simp add: puts_def)
qed

lemma puts_Ok: "puts Ok []"
  by (simp add: puts_def)

lemma puts_bind: "puts f d \<Longrightarrow> puts g e \<Longrightarrow> puts (\<lambda>u. c_bind (f u) g) (d @ e)"
  unfolding puts_def by (metis append_assoc c_bind.simps(1))

lemma puts_then: "puts f d \<Longrightarrow> puts g e \<Longrightarrow> puts (\<lambda>u. c_then (f u) g) (d @ e)"
  unfolding puts_def by (metis append_assoc c_then.simps(1))

lemma puts_eq: "puts f d \<Longrightarrow> d = e \<Longrightarrow> puts f e"
  by simp

lemma puts_numbers:
  assumes "\<forall>n. realloc_ok env n"
  shows "puts (\<lambda>u. buf_append_fcgi_u8 env u a) [byte_of 0 a]" "puts (\<lambda>u. buf_append_fcgi_u16 env u b) [byte_of 1 b, byte_of 0 b]"
  unfolding buf_append_fcgi_u8_def buf_append_fcgi_u16_def by (rule puts_append [OF assms])+

lemma puts_rec:
  assumes "\<forall>n. realloc_ok env n"
  shows "puts (\<lambda>u. buf_append_fcgi_rec env u ty reqid dlen None)
    [char_of (1 :: nat), byte_of 0 ty, byte_of 1 reqid, byte_of 0 reqid, byte_of 1 dlen, byte_of 0 dlen, byte_of 0 (0 :: 8 word), byte_of 0 (0 :: 8 word)]"
  unfolding buf_append_fcgi_rec_def option.case
  by (rule puts_eq, (rule puts_bind puts_append [OF assms] puts_numbers [OF assms] puts_Ok)+, simp)

lemma byte_of_char: "byte_of k w = char_of (unat w div 256 ^ k mod 256)"
  by (metis char_of_char of_char_byte_of)

lemma small_byte: "n < 256 \<Longrightarrow> byte_of 0 (of_nat n :: 8 word) = char_of n"
  by (simp add: byte_of_char unat_of_nat)

lemma bytes_16:
  assumes "n < 65536"
  shows "byte_of 1 (of_nat n :: 16 word) = char_of (n div 256 mod 256)" "byte_of 0 (of_nat n :: 16 word) = char_of (n mod 256)"
  using assms by (simp_all add: byte_of_char unat_of_nat)

lemma puts_header:
  assumes "\<forall>n. realloc_ok env n" "ty < 256" "n < 65536"
  shows "puts (\<lambda>u. buf_append_fcgi_rec env u (of_nat ty) 1 (of_nat n) None) (fcgi_header ty (CHR 0x01, CHR 0x00) n)"
  by (rule puts_eq [OF puts_rec [OF assms(1)]])
    (use small_byte [OF assms(2)] small_byte [of 0] bytes_16 [OF assms(3)] bytes_16 [of 1] in \<open>simp add: fcgi_header_def char_of_def bit_Suc_0_iff\<close>)

lemma puts_nameval:
  assumes "\<forall>n. realloc_ok env n" "length k < 128" "length v < 128"
  shows "puts (\<lambda>u. buf_append_fcgi_nameval env u k v) (pair_bytes (k, v))"
proof -
  have l: "puts (\<lambda>u. append_fcgi_len env u n) [char_of n]" if "n < 128" for n
    using puts_eq [OF puts_numbers(1) [OF assms(1), of "of_nat n"]] small_byte [of n] that by (simp add: append_fcgi_len_def)
  show ?thesis unfolding buf_append_fcgi_nameval_def
    by (rule puts_eq, (rule puts_bind puts_append [OF assms(1)] l [OF assms(2)] l [OF assms(3)])+)
      (simp add: pair_bytes_def len_bytes_def assms(2,3))
qed

lemma puts_namevals:
  assumes "\<forall>n. realloc_ok env n" "list_all (\<lambda>(k, v). length k < 128 \<and> length v < 128) kvs"
  shows "puts (append_namevals env kvs) (param_bytes kvs)"
  using assms(2)
proof (induction kvs)
  case Nil
  then show ?case by (simp add: puts_def param_bytes_def)
next
  case (Cons kv kvs)
  obtain k v where kv: "kv = (k, v)" by fastforce
  have "puts (\<lambda>u. c_then (buf_append_fcgi_nameval env u k v) (append_namevals env kvs)) (pair_bytes (k, v) @ param_bytes kvs)"
    using Cons by (intro puts_then puts_nameval assms(1)) (simp_all add: kv)
  moreover have "append_namevals env (kv # kvs) = (\<lambda>u. c_then (buf_append_fcgi_nameval env u k v) (append_namevals env kvs))"
    by (rule ext) (simp add: kv)
  ultimately show ?case by (simp add: kv param_bytes_def)
qed

definition begin_bytes :: "16 word \<Rightarrow> char list" where
  "begin_bytes role = [byte_of 1 role, byte_of 0 role, CHR 0x00] @ ''     ''"

lemma params_length_short:
  "list_all (\<lambda>(k, v). length k < 128 \<and> length v < 128) kvs \<Longrightarrow> params_length kvs = length (param_bytes kvs)"
  by (induction kvs) (auto simp: params_length_def param_bytes_def pair_bytes_def fcgi_len_len_def len_bytes_def)

lemma to_fastcgi_content:
  assumes "\<forall>n. realloc_ok env n" "list_all (\<lambda>(k, v). length k < 128 \<and> length v < 128) kvs" "length (param_bytes kvs) < 65536"
  shows "\<exists>u. upsgi_to_fastcgi env kvs role = Ok u \<and>
    ub_content u = fcgi_request (CHR 0x01, CHR 0x00) (begin_bytes role) [(kvs, []), ([], [])] []"
proof -
  let ?sid = "(CHR 0x01, CHR 0x00)"
  have b: "puts (\<lambda>u. fastcgi_buf_begin_request env u 1 role 0) (fcgi_header 1 ?sid 8 @ begin_bytes role)"
    unfolding fastcgi_buf_begin_request_def
    by (rule puts_eq, (rule puts_bind puts_append [OF assms(1)] puts_numbers [OF assms(1)] puts_header [OF assms(1), of 1 8, simplified])+)
      (use small_byte [of 0] in \<open>simp add: begin_bytes_def char_of_def\<close>)
  have "puts (\<lambda>u0.
     c_then (fastcgi_buf_begin_request env u0 1 role 0) (\<lambda>u1.
     c_then (buf_append_fcgi_rec env u1 4 1 (of_nat (params_length kvs)) None) (\<lambda>u2.
     c_then (append_namevals env kvs u2) (\<lambda>u3.
     c_then (buf_append_fcgi_rec env u3 4 1 0 None) (\<lambda>u4.
     c_then (buf_append_fcgi_rec env u4 5 1 0 None) Ok)))))
     ((fcgi_header 1 ?sid 8 @ begin_bytes role) @ fcgi_header 4 ?sid (params_length kvs) @ param_bytes kvs @ fcgi_header 4 ?sid 0 @ fcgi_header 5 ?sid 0 @ [])"
    using assms(3) params_length_short [OF assms(2)]
    by (intro puts_then b puts_namevals puts_Ok assms(1,2) puts_header [OF assms(1), of 4, simplified] puts_header [OF assms(1), of 4 0, simplified]
        puts_header [OF assms(1), of 5 0, simplified]) simp_all
  moreover have "ub_inv (upsgi_buffer_new env (page_size env))" "ub_limit (upsgi_buffer_new env (page_size env)) = 0"
      "ub_content (upsgi_buffer_new env (page_size env)) = []"
    by (simp_all add: upsgi_buffer_new_def ub_inv_def ub_content_def)
  ultimately obtain u where "upsgi_to_fastcgi env kvs role = Ok u"
      "ub_content u = (fcgi_header 1 ?sid 8 @ begin_bytes role) @ fcgi_header 4 ?sid (params_length kvs) @ param_bytes kvs @ fcgi_header 4 ?sid 0 @ fcgi_header 5 ?sid 0 @ []"
    unfolding puts_def upsgi_to_fastcgi_def by fastforce
  then show ?thesis using params_length_short [OF assms(2)]
    by (simp add: fcgi_request_def param_recs_def body_recs_def rec_bytes_def fcgi_header_def begin_bytes_def param_bytes_def)
qed

section \<open>Properties\<close>

text \<open>An environment with memory at hand, and a small request, for the examples.\<close>

definition env1 :: mem_env where
  "env1 = \<lparr>page_size = 4096, realloc_ok = (\<lambda>_. True), realloc_moves = (\<lambda>_. False), fresh_byte = (\<lambda>_. CHR 0x00)\<rparr>"

lemma env1_ok: "\<forall>n. realloc_ok env1 n"
  by (simp add: env1_def)

definition sid1 :: "char \<times> char" where
  "sid1 = (CHR 0x01, CHR 0x00)"

abbreviation groups1 :: fcgi_groups where
  "groups1 \<equiv> [([(''A'', ''b'')], ''pad''), ([(''C'', [])], [])]"

abbreviation bodies1 :: "(char list \<times> char list) list" where
  "bodies1 \<equiv> [(''hello'', ''x''), ('' world'', [])]"

lemma wf1: "wf_request ''begin...'' groups1 bodies1"
  by (simp add: wf_request_def good_pair_def param_bytes_def pair_bytes_def len_bytes_def)

lemma pkt1: "pkt_len http_pkt0 = 0" "length (pkt_buffer http_pkt0) = 4096"
  by (simp_all add: http_pkt0_def)

abbreviation script1 :: "read_ev list" where
  "script1 \<equiv> [RData (take 11 (fcgi_request sid1 ''begin...'' groups1 bodies1)), RAgain, RData (drop 11 (fcgi_request sid1 ''begin...'' groups1 bodies1))]"

lemma script1_ok: "clean_evs script1" "ev_bytes script1 = fcgi_request sid1 ''begin...'' groups1 bodies1"
  by (simp_all add: clean_evs_def fcgi_request_def rec_bytes_def)



text \<open>Closing a FastCGI request that was accepted reads the rest of the body, however much of it has been read
  before, and announces the end of the output and of the request, as long as every wait for data succeeds.\<close>

theorem fastcgi_close_ends:
  assumes "wf_request begin groups bodies" "\<forall>n. realloc_ok env n" "8 \<le> buffer_size" "clean_evs evs"
    and "ev_bytes evs = fcgi_request sid begin groups bodies" "pkt_len p = 0" "length (pkt_buffer p) = n" "n \<le> 65536"
    and "length (encode_vars (concat (map fst groups))) < n" "list_all ((<) 0) ns"
    and "fcgi_run env buffer_size mods fcgi_conn0 p evs = Some (r, c, q, evs1)" "fcgi_reads env ns c evs1 = Some (ds, c1, evs2)"
    and "list_all ((<) 0) waits" "ev_weight evs2 \<le> length waits"
  shows "upsgi_proto_fastcgi_close env c1 evs2 waits = Some (fcgi_end_request sid)"
proof -
  have fin: "wf_rec (5, sid, [], [])" by (simp add: wf_rec_def)
  have "body_left (5, sid, [], []) c evs1 (concat (map fst bodies))"
    using request_received [OF assms(1-9), of mods] assms(11) by auto
  from fcgi_reads_ok [OF this fin assms(2,10)] assms(12) obtain b where b: "body_left (5, sid, [], []) c1 evs2 b" by auto
  then have "fc_sid c1 = sid" by (simp add: body_left_def)
  then show ?thesis using drain_ok [OF b fin assms(2,13,14)] by (auto simp: upsgi_proto_fastcgi_close_def)
qed

theorem fastcgi_close_ends_witness:
  "\<exists>c e1 q ds c1 e2. fcgi_run env1 8 (1, 2) fcgi_conn0 http_pkt0 script1 = Some (UPSGI_OK, c, q, e1) \<and>
     fcgi_reads env1 [2] c e1 = Some (ds, c1, e2) \<and> upsgi_proto_fastcgi_close env1 c1 e2 (replicate (ev_weight e2) 1) = Some (fcgi_end_request sid1)"
proof -
  have fin: "wf_rec (5, sid1, [], [])" by (simp add: wf_rec_def)
  obtain c e1 q where r: "fcgi_run env1 8 (1, 2) fcgi_conn0 http_pkt0 script1 = Some (UPSGI_OK, c, q, e1)"
      "body_left (5, sid1, [], []) c e1 (concat (map fst bodies1))"
    using request_received [OF wf1 env1_ok _ script1_ok pkt1, of 8 "(1, 2)"] by auto
  obtain ds c1 e2 where f: "fcgi_reads env1 [2] c e1 = Some (ds, c1, e2)"
    using fcgi_reads_ok [OF r(2) fin env1_ok, of "[2]"] by auto
  have w: "list_all ((<) 0) (replicate (ev_weight e2) (1 :: int))" by (simp add: list_all_iff)
  have "upsgi_proto_fastcgi_close env1 c1 e2 (replicate (ev_weight e2) 1) = Some (fcgi_end_request sid1)"
    by (rule fastcgi_close_ends [OF wf1 env1_ok _ script1_ok pkt1 _ _ _ r(1) f w]) simp_all
  then show ?thesis using r(1) f by blast
qed

text \<open>C29: However the kernel takes the writes, a response body leaves as a sequence of output records of at most
  65535 bytes whose contents put together are the body: all of it when the write succeeds, and a prefix of
  it otherwise.\<close>

theorem fastcgi_write_framed:
  assumes "buf \<noteq> []"
  shows "\<exists>cs rest. concat cs = buf \<and> list_all (\<lambda>d. d \<noteq> [] \<and> length d \<le> 65535) cs \<and>
    stream (map (\<lambda>d. (6, sid, d, [])) cs) = snd (fcgi_write_run sid buf 0 0 evs) @ rest \<and>
    (fst (fcgi_write_run sid buf 0 0 evs) = UPSGI_OK \<longrightarrow> rest = [])"
proof -
  obtain r out where w: "fcgi_write_run sid buf 0 0 evs = (r, out)" by fastforce
  have "write_ready buf 0 0" using assms by (simp add: write_ready_def)
  from fcgi_write_run_left [OF this w] obtain rest where
    "fcgi_frame sid buf = out @ rest" "r = UPSGI_OK \<longrightarrow> rest = []" by (auto simp: frame_left_def)
  then show ?thesis using frame_records [of sid buf] w by (intro exI [of _ "chunks buf"] exI [of _ rest]) simp
qed

theorem fastcgi_write_framed_witness:
  "''hi'' \<noteq> [] \<and> (\<exists>cs rest. concat cs = ''hi'' \<and>
     stream (map (\<lambda>d. (6, sid1, d, [])) cs) = snd (fcgi_write_run sid1 ''hi'' 0 0 [(None, WAgain), (None, WWrote 2)]) @ rest)"
  using fastcgi_write_framed [of "''hi''" sid1 "[(None, WAgain), (None, WWrote 2)]"] by blast

text \<open>The FastCGI request that the server writes for a set of variables, none of them longer than 127 bytes, is
  read by its own parser as these variables, and has an empty body.\<close>

theorem fastcgi_self_roundtrip:
  assumes "\<forall>n. realloc_ok env n" "list_all (\<lambda>(k, v). length k < 128 \<and> length v < 128) kvs" "list_all good_pair kvs"
    "length (param_bytes kvs) < 65536" "8 \<le> buffer_size" "pkt_len p = 0" "length (pkt_buffer p) = n" "n \<le> 65536"
    "length (encode_vars kvs) < n"
  shows "\<exists>u c q evs. upsgi_to_fastcgi env kvs role = Ok u \<and>
    fcgi_run env buffer_size mods fcgi_conn0 p [RData (ub_content u)] = Some (UPSGI_OK, c, q, evs) \<and>
    pkt_content q = encode_vars kvs \<and> upsgi_proto_fastcgi_read_body env 1 c evs = (Some (Got [], c), evs)"
proof -
  let ?sid = "(CHR 0x01, CHR 0x00)"
  obtain u where u: "upsgi_to_fastcgi env kvs role = Ok u" "ub_content u = fcgi_request ?sid (begin_bytes role) [(kvs, []), ([], [])] []"
    using to_fastcgi_content [OF assms(1,2,4)] by blast
  have w: "wf_request (begin_bytes role) [(kvs, []), ([], [])] []"
    using assms(3,4) by (simp add: wf_request_def begin_bytes_def param_bytes_def)
  have e: "clean_evs [RData (ub_content u)]" "ev_bytes [RData (ub_content u)] = fcgi_request ?sid (begin_bytes role) [(kvs, []), ([], [])] []"
    by (simp_all add: clean_evs_def u(2) fcgi_request_def rec_bytes_def)
  obtain c evs q where r: "fcgi_run env buffer_size mods fcgi_conn0 p [RData (ub_content u)] = Some (UPSGI_OK, c, q, evs)"
      "pkt_content q = encode_vars kvs" "body_left (5, ?sid, [], []) c evs []" "fc_eof c"
    using request_received [OF w assms(1,5) e assms(6-8), of mods] assms(9) by auto
  then have "upsgi_proto_fastcgi_read_body env 1 c evs = (Some (Got [], c), evs)"
    by (simp add: upsgi_proto_fastcgi_read_body_def body_left_def)
  then show ?thesis using r(1,2) u(1) by blast
qed

theorem fastcgi_self_roundtrip_witness:
  "\<exists>u c q evs. upsgi_to_fastcgi env1 [(''A'', ''b'')] 1 = Ok u \<and>
     fcgi_run env1 8 (0, 0) fcgi_conn0 http_pkt0 [RData (ub_content u)] = Some (UPSGI_OK, c, q, evs) \<and>
     pkt_content q = encode_vars [(''A'', ''b'')] \<and> upsgi_proto_fastcgi_read_body env1 1 c evs = (Some (Got [], c), evs)"
  by (rule fastcgi_self_roundtrip [OF env1_ok _ _ _ _ pkt1])
    (simp_all add: good_pair_def param_bytes_def pair_bytes_def len_bytes_def)

text \<open>A value of 128 bytes or more that the server writes into a FastCGI request is announced without the mark
  of a four byte length: a reader takes the first byte of the length, zero, for the whole of it.\<close>

theorem fastcgi_long_value_misread:
  assumes "\<forall>n. realloc_ok env n" "ub_inv ub" "ub_limit ub = 0" "length k < 128" "128 \<le> length v" "length v < 65536"
  shows "\<exists>u x bs1 bs2. buf_append_fcgi_nameval env ub k v = Ok u \<and> ub_content u = ub_content ub @ x \<and>
    fcgi_length x = Some (length k, bs1) \<and> fcgi_length bs1 = Some (0, bs2)"
proof -
  let ?w = "of_nat (length v) :: 32 word"
  let ?lv = "[byte_of 3 ?w, byte_of 2 ?w, byte_of 1 ?w, byte_of 0 ?w]"
  have "puts (\<lambda>u. append_fcgi_len env u (length k)) [char_of (length k)]"
    using puts_eq [OF puts_numbers(1) [OF assms(1), of "of_nat (length k)"]] small_byte [of "length k"] assms(4) by (simp add: append_fcgi_len_def)
  moreover have "puts (\<lambda>u. append_fcgi_len env u (length v)) ?lv"
    using puts_append [OF assms(1)] assms(5) by (simp add: append_fcgi_len_def buf_append_fcgi_u32_def)
  ultimately have "puts (\<lambda>u. buf_append_fcgi_nameval env u k v) ([char_of (length k)] @ ?lv @ k @ v)"
    unfolding buf_append_fcgi_nameval_def by (intro puts_bind puts_append assms(1))
  then obtain u where u: "buf_append_fcgi_nameval env ub k v = Ok u" "ub_content u = ub_content ub @ [char_of (length k)] @ ?lv @ k @ v"
    using assms(2,3) by (auto simp: puts_def)
  have "byte_of 3 ?w = CHR 0x00" using assms(6) by (simp add: byte_of_char unat_of_nat char_of_def)
  then have "fcgi_length (?lv @ k @ v) = Some (0, tl ?lv @ k @ v)" by (simp add: fcgi_length_def)
  moreover have "fcgi_length ([char_of (length k)] @ ?lv @ k @ v) = Some (length k, ?lv @ k @ v)"
    using assms(4) by (simp add: fcgi_length_def)
  ultimately show ?thesis using u by blast
qed

theorem fastcgi_long_value_misread_witness:
  "\<exists>u x bs1 bs2. buf_append_fcgi_nameval env1 (upsgi_buffer_new env1 16) ''A'' (replicate 200 CHR ''b'') = Ok u \<and>
     ub_content u = x \<and> fcgi_length x = Some (1, bs1) \<and> fcgi_length bs1 = Some (0, bs2)"
  using fastcgi_long_value_misread [OF env1_ok, of "upsgi_buffer_new env1 16" "''A''" "replicate 200 CHR ''b''"]
  by (simp add: upsgi_buffer_new_def ub_inv_def ub_content_def)

text \<open>A pair with an empty name and an empty value ends the reading of a parameter record: the pairs behind it
  are dropped, and the record counts as read.\<close>

theorem fastcgi_empty_pair_stops:
  assumes "kvs \<noteq> []" "holds_vars n done0 p" "n \<le> 65536" "length (encode_vars done0) + 4 < n" "length (param_bytes kvs) < 2 ^ 32"
  shows "\<exists>q. fastcgi_to_upsgi (param_bytes (([], []) # kvs)) p = Ok q \<and> holds_vars n (done0 @ [([], [])]) q"
proof -
  let ?rest = "param_bytes kvs"
  obtain q where q: "fcgi_var [] [] p = Ok q" "holds_vars n (done0 @ [([], [])]) q"
    using fcgi_var_ok [OF assms(2), of "[]" "[]"] assms(3,4) by auto
  have r: "?rest \<noteq> []" using assms(1) by (cases kvs) (auto simp: param_bytes_def pair_bytes_def len_bytes_def)
  have l: "fcgi_length (len_bytes 0 @ bs) = Some (0, bs)" if "bs \<noteq> []" for bs using len_bytes_read [of 0 bs] that by simp
  have b: "param_bytes (([], []) # kvs) = len_bytes 0 @ len_bytes 0 @ ?rest" by (simp add: param_bytes_def pair_bytes_def)
  have n: "len_bytes 0 \<noteq> []" by (simp add: len_bytes_def)
  have "fastcgi_to_upsgi (param_bytes (([], []) # kvs)) p = fastcgi_to_upsgi (drop (2 ^ 32) ?rest) q"
    unfolding b using l [of "len_bytes 0 @ ?rest"] l [OF r] n q(1) by (subst fastcgi_to_upsgi.simps) (simp add: fcgi_step_def)
  also have "\<dots> = Ok q" using assms(5) by (simp add: fastcgi_to_upsgi.simps)
  finally show ?thesis using q(2) by blast
qed

theorem fastcgi_empty_pair_stops_witness:
  "\<exists>q. fastcgi_to_upsgi (param_bytes [([], []), (''A'', ''b'')]) http_pkt0 = Ok q \<and> holds_vars 4096 [([], [])] q"
  using fastcgi_empty_pair_stops [of "[(''A'', ''b'')]" 4096 "[]" http_pkt0]
  by (simp add: holds_vars_def pkt_inv_def pkt_content_def http_pkt0_def param_bytes_def pair_bytes_def len_bytes_def)
end
