(* ===== verification/Upsgi_Reader.thy ===== *)
theory Upsgi_Reader
  imports Upsgi_Chunked
begin

text \<open>
  The request body as the application sees it, \<open>core/reader.c\<close>: \<open>upsgi_request_body_read\<close>, \<open>upsgi_request_body_readline\<close>,
  seeking, and the buffering of a whole body in memory or in a temporary file.  \<open>body_reader\<close> holds the fields of
  \<open>struct wsgi_request\<close> these functions use; the connection is the script of \<open>Upsgi_Chunked\<close>, read under the budget of the
  body scheduler.  \<open>None\<close> is an access outside of a block, or a line loop that does not end.  The four copies of the
  read-and-wait loop in the source are one definition, \<open>io_fetch\<close>; its answer tells what each caller distinguishes.
  The locale \<open>body_stream\<close> is what an application expects of a body: each call returns the next piece of it.  It is
  interpreted for bodies on the connection or in a file (\<open>br\<close>), and, for reads only, for bodies in memory (\<open>mr\<close>).
  Left out: the messages, the harakiri timer and the upload progress file.
\<close>

section \<open>The state\<close>

text \<open>
  The globals: memory and the chunked reader (\<open>rc_chunk\<close>), \<open>upsgi.buffer_size\<close>, \<open>upsgi.post_buffering\<close>,
  \<open>upsgi.post_buffering_bufsize\<close>, whether a temporary file can be had, and whether a write that leaves it
  with a given length succeeds.
\<close>

record reader_cfg =
  rc_chunk :: chunk_cfg
  rc_buffer_size :: nat
  rc_buffering :: nat
  rc_bufsize :: nat
  rc_tmpfile :: bool
  rc_fwrite :: "nat \<Rightarrow> bool"

text \<open>
  The fields of the request: \<open>post_cl\<close>, \<open>post_pos\<close>, \<open>body_is_chunked\<close>, \<open>post_file\<close> (its bytes and offset),
  \<open>post_buffering_buf\<close>, \<open>post_readline_buf\<close> with \<open>post_readline_pos\<close> and \<open>post_readline_watermark\<close>,
  \<open>post_read_buf\<close>, \<open>read_errors\<close>, and the connection.  The sizes of the blocks are their lengths.
\<close>

record body_reader =
  rd_cl :: nat
  rd_pos :: nat
  rd_chunked :: bool
  rd_file :: "(char list \<times> nat) option"
  rd_mem :: "char list"
  rd_line :: "char list option"
  rd_line_pos :: nat
  rd_line_mark :: nat
  rd_buf :: "char list option"
  rd_errors :: nat
  rd_io :: chunk_req

abbreviation rc_env :: "reader_cfg \<Rightarrow> mem_env" where
  "rc_env cfg \<equiv> cc_env (rc_chunk cfg)"

definition count_error :: "body_reader \<Rightarrow> body_reader" where
  "count_error r = r\<lparr>rd_errors := rd_errors r + 1\<rparr>"

section \<open>Receiving\<close>

text \<open>A read of at most \<open>n\<close> bytes under the budget of the body scheduler.\<close>

definition io_recv :: "chunk_cfg \<Rightarrow> nat \<Rightarrow> chunk_req \<Rightarrow> read_ret \<times> chunk_req" where
  "io_recv cfg n r =
     (let t = cr_ticks r; on = cc_sched_on cfg;
          (grant, s1) = read_budget on (cc_clock cfg t) (of_nat n) (cr_sched r);
          (ret, rem', evs') = upsgi_proto_base_read_body (unat grant) (cr_remains r) (cr_reads r);
          r1 = r\<lparr>cr_remains := rem', cr_reads := evs', cr_ticks := t + 2\<rparr>
      in (ret, r1\<lparr>cr_sched :=
            (case ret of
               Got d \<Rightarrow> if d = [] then note_empty_read on (cc_clock cfg (t + 1)) s1
                        else note_bytes on (cc_clock cfg (t + 1)) (of_nat (length d)) s1
             | WouldBlock \<Rightarrow> note_eagain on (cc_clock cfg (t + 1)) s1
             | ReadFail \<Rightarrow> s1)\<rparr>))"

text \<open>What the four loops of the file do: read, and as long as that would block, wait and read again.  The flag
  tells whether the answer came after a wait.\<close>

datatype fetched = FData "char list" | FClosed bool | FError bool | FTimeout | FWaitErr

fun io_wait :: "chunk_cfg \<Rightarrow> nat \<Rightarrow> int list \<Rightarrow> chunk_req \<Rightarrow> fetched \<times> chunk_req" where
  "io_wait cfg n [] r = (FTimeout, r\<lparr>cr_waits := []\<rparr>)"
| "io_wait cfg n (w # ws) r =
     (if w > 0 then
        (case io_recv cfg n (r\<lparr>cr_waits := ws\<rparr>) of
           (Got d, r1) \<Rightarrow> (if d = [] then FClosed True else FData d, r1)
         | (WouldBlock, r1) \<Rightarrow> io_wait cfg n ws r1
         | (ReadFail, r1) \<Rightarrow> (FError True, r1))
      else (if w = 0 then FTimeout else FWaitErr, r\<lparr>cr_waits := ws\<rparr>))"

definition io_fetch :: "chunk_cfg \<Rightarrow> nat \<Rightarrow> chunk_req \<Rightarrow> fetched \<times> chunk_req" where
  "io_fetch cfg n r =
     (case io_recv cfg n r of
        (Got d, r1) \<Rightarrow> (if d = [] then FClosed False else FData d, r1)
      | (WouldBlock, r1) \<Rightarrow> io_wait cfg n (cr_waits r1) r1
      | (ReadFail, r1) \<Rightarrow> (FError False, r1))"

lemma io_wait_data: "io_wait cfg n ws r = (FData d, r1) \<Longrightarrow> d \<noteq> []"
  by (induction ws arbitrary: r) (auto split: if_splits prod.splits read_ret.splits)

lemma io_fetch_data: "io_fetch cfg n r = (FData d, r1) \<Longrightarrow> d \<noteq> []"
  by (auto simp: io_fetch_def dest: io_wait_data split: if_splits prod.splits read_ret.splits)

text \<open>\<open>fread(buf, n, 1, file)\<close>: all of the bytes, or a failure.\<close>

definition fread_one :: "nat \<Rightarrow> char list \<times> nat \<Rightarrow> char list option \<times> (char list \<times> nat)" where
  "fread_one n f =
     (let d = take n (drop (snd f) (fst f)); f1 = (fst f, snd f + length d) in
      if n = 0 \<or> length d < n then (None, f1) else (Some d, f1))"

section \<open>Seeking\<close>

datatype whence = SEEK_SET | SEEK_CUR | SEEK_END | SEEK_OTHER

text \<open>A file takes any offset that is not negative.\<close>

definition upsgi_request_body_seek_do :: "reader_cfg \<Rightarrow> int \<Rightarrow> whence \<Rightarrow> body_reader \<Rightarrow> bool \<times> body_reader" where
  "upsgi_request_body_seek_do cfg pos w r =
     (case rd_file r of
        Some (d, off) \<Rightarrow>
          (let target = (case w of SEEK_SET \<Rightarrow> pos | SEEK_CUR \<Rightarrow> int off + pos | SEEK_END \<Rightarrow> int (length d) + pos | SEEK_OTHER \<Rightarrow> -1) in
           if target < 0 then (False, count_error r)
           else (True, r\<lparr>rd_file := Some (d, nat target), rd_pos := nat target\<rparr>))
      | None \<Rightarrow>
          if rc_buffering cfg > 0 then
            (let target = (case w of SEEK_SET \<Rightarrow> pos | SEEK_CUR \<Rightarrow> int (rd_pos r) + pos | SEEK_END \<Rightarrow> int (rd_cl r) + pos | SEEK_OTHER \<Rightarrow> -1) in
             if target < 0 \<or> target > int (rd_cl r) then (False, r) else (True, r\<lparr>rd_pos := nat target\<rparr>))
          else (False, r))"

definition upsgi_request_body_seek :: "reader_cfg \<Rightarrow> int \<Rightarrow> body_reader \<Rightarrow> body_reader" where
  "upsgi_request_body_seek cfg pos r = snd (upsgi_request_body_seek_do cfg pos SEEK_SET r)"

section \<open>Lines\<close>

text \<open>Room in the line buffer: when it is full, what was consumed makes place, then the block grows.\<close>

definition line_room :: "reader_cfg \<Rightarrow> char list \<Rightarrow> body_reader \<Rightarrow> bool \<times> body_reader" where
  "line_room cfg buf r =
     (let remains = min (rc_buffer_size cfg) (size_sub (rd_cl r) (rd_pos r)) in
      if size_sub (length buf) (rd_line_mark r) = 0 then
        (let m = size_sub (rd_line_mark r) (rd_line_pos r);
             buf1 = take m (drop (rd_line_pos r) buf) @ drop m buf;
             r1 = r\<lparr>rd_line := Some buf1, rd_line_mark := m, rd_line_pos := 0\<rparr> in
         if size_sub (length buf1) m < remains then
           (if realloc_ok (rc_env cfg) (length buf1 + remains)
            then (True, r1\<lparr>rd_line := Some (buf1 @ fresh_block (rc_env cfg) (length buf1) (length buf1 + remains))\<rparr>)
            else (False, r1))
         else (True, r1))
      else (True, r))"

text \<open>Bytes go behind the watermark.  \<open>None\<close>: outside of the block.\<close>

definition line_put :: "char list \<Rightarrow> char list \<Rightarrow> body_reader \<Rightarrow> body_reader option" where
  "line_put buf d r =
     map_option (\<lambda>m. r\<lparr>rd_line := Some m, rd_line_mark := rd_line_mark r + length d, rd_pos := rd_pos r + length d\<rparr>)
       (mem_write buf (rd_line_mark r) d)"

definition consume_body_for_readline :: "reader_cfg \<Rightarrow> body_reader \<Rightarrow> (bool \<times> body_reader) option" where
  "consume_body_for_readline cfg r0 =
     (case rd_line r0 of
        None \<Rightarrow> None
      | Some buf0 \<Rightarrow>
          (case line_room cfg buf0 r0 of
             (False, r) \<Rightarrow> Some (False, r)
           | (True, r) \<Rightarrow>
               (let buf = the (rd_line r);
                    remains = min (size_sub (length buf) (rd_line_mark r)) (size_sub (rd_cl r) (rd_pos r)) in
                case rd_file r of
                  Some f \<Rightarrow>
                    (case fread_one remains f of
                       (None, f1) \<Rightarrow> Some (False, r\<lparr>rd_file := Some f1\<rparr>)
                     | (Some d, f1) \<Rightarrow> map_option (Pair True) (line_put buf d (r\<lparr>rd_file := Some f1\<rparr>)))
                | None \<Rightarrow>
                    if rc_buffering cfg > 0 then
                      (if rd_pos r + remains \<le> length (rd_mem r)
                       then map_option (Pair True) (line_put buf (take remains (drop (rd_pos r) (rd_mem r))) r)
                       else None)
                    else
                      (case io_fetch (rc_chunk cfg) remains (rd_io r) of
                         (FData d, io) \<Rightarrow> map_option (Pair True) (line_put buf d (r\<lparr>rd_io := io\<rparr>))
                       | (FTimeout, io) \<Rightarrow> Some (False, r\<lparr>rd_io := io\<rparr>)
                       | (_, io) \<Rightarrow> Some (False, count_error (r\<lparr>rd_io := io\<rparr>))))))"

text \<open>What a call returns: \<open>upsgi.empty\<close>, NULL with the length, or the bytes at the pointer.\<close>

datatype body_ret = BEmpty | BNull int | BGot "char list"

definition window :: "body_reader \<Rightarrow> char list" where
  "window r = (case rd_line r of None \<Rightarrow> [] | Some buf \<Rightarrow> take (rd_line_mark r - rd_line_pos r) (drop (rd_line_pos r) buf))"

text \<open>The search for a newline in the unread part of the buffer, and the step behind it.\<close>

definition found_line :: "body_reader \<Rightarrow> (char list \<times> body_reader) option" where
  "found_line r =
     (if CHR 0x0A \<in> set (window r) then
        (let d = takeWhile (\<lambda>c. c \<noteq> CHR 0x0A) (window r) @ [CHR 0x0A]; p = rd_line_pos r + length d in
         Some (d, if p \<ge> rd_line_mark r then r\<lparr>rd_line_pos := 0, rd_line_mark := 0\<rparr> else r\<lparr>rd_line_pos := p\<rparr>))
      else None)"

partial_function (option) readline_loop :: "reader_cfg \<Rightarrow> body_reader \<Rightarrow> (body_ret \<times> body_reader) option" where
  "readline_loop cfg r =
     (if rd_pos r \<ge> rd_cl r then Some (BGot (window r), r\<lparr>rd_line_pos := 0\<rparr>)
      else
       (case consume_body_for_readline cfg r of
          None \<Rightarrow> None
        | Some (ok, r1) \<Rightarrow>
            if \<not> ok then Some (BNull (-1), count_error r1)
            else
             (case found_line r1 of
                Some (d, r2) \<Rightarrow> Some (BGot d, r2)
              | None \<Rightarrow> readline_loop cfg r1)))"

text \<open>The block of the first round.\<close>

definition line_alloc :: "reader_cfg \<Rightarrow> body_reader \<Rightarrow> body_reader option" where
  "line_alloc cfg r =
     (case rd_line r of
        Some _ \<Rightarrow> Some r
      | None \<Rightarrow>
          (let amount = min (rc_buffer_size cfg) (rd_cl r) in
           if realloc_ok (rc_env cfg) amount then Some (r\<lparr>rd_line := Some (fresh_block (rc_env cfg) 0 amount)\<rparr>) else None))"

definition upsgi_request_body_readline :: "reader_cfg \<Rightarrow> body_reader \<Rightarrow> (body_ret \<times> body_reader) option" where
  "upsgi_request_body_readline cfg r =
     (if (rd_cl r = 0 \<or> rd_pos r \<ge> rd_cl r) \<and> rd_line_pos r = 0 then Some (BEmpty, r)
      else
       (case if rd_line_pos r > 0 then found_line r else None of
          Some (d, r1) \<Rightarrow> Some (BGot d, r1)
        | None \<Rightarrow>
            (case line_alloc cfg r of
               None \<Rightarrow> Some (BNull (-1), count_error r)
             | Some r1 \<Rightarrow> readline_loop cfg r1)))"

section \<open>Reads\<close>

text \<open>The block \<open>post_read_buf\<close> with room for \<open>n\<close> bytes, grown or allocated.\<close>

definition buf_room :: "reader_cfg \<Rightarrow> nat \<Rightarrow> body_reader \<Rightarrow> body_reader option" where
  "buf_room cfg n r =
     (let size = (case rd_buf r of None \<Rightarrow> 0 | Some b \<Rightarrow> length b); old = (case rd_buf r of None \<Rightarrow> [] | Some b \<Rightarrow> b) in
      if n > size then
        (if realloc_ok (rc_env cfg) n then Some (r\<lparr>rd_buf := Some (old @ fresh_block (rc_env cfg) size n)\<rparr>) else None)
      else Some r)"

definition buf_put :: "nat \<Rightarrow> char list \<Rightarrow> body_reader \<Rightarrow> body_reader option" where
  "buf_put off d r =
     (case rd_buf r of
        None \<Rightarrow> if d = [] then Some r else None
      | Some b \<Rightarrow> map_option (\<lambda>m. r\<lparr>rd_buf := Some m\<rparr>) (mem_write b off d))"

definition buf_bytes :: "nat \<Rightarrow> body_reader \<Rightarrow> char list" where
  "buf_bytes n r = (case rd_buf r of None \<Rightarrow> [] | Some b \<Rightarrow> take n b)"

text \<open>The loop over the connection: \<open>remains\<close> bytes are still to be read, \<open>rlen\<close> are in place.\<close>

function read_loop :: "reader_cfg \<Rightarrow> nat \<Rightarrow> nat \<Rightarrow> body_reader \<Rightarrow> (body_ret \<times> body_reader) option" where
  "read_loop cfg remains rlen r =
     (if remains = 0 then Some (BGot (buf_bytes rlen r), r)
      else
       (case io_fetch (rc_chunk cfg) remains (rd_io r) of
          (FData d, io) \<Rightarrow>
            (case buf_put rlen d (r\<lparr>rd_io := io\<rparr>) of
               None \<Rightarrow> None
             | Some r1 \<Rightarrow> read_loop cfg (remains - length d) (rlen + length d) (r1\<lparr>rd_pos := rd_pos r1 + length d\<rparr>))
        | (FClosed _, io) \<Rightarrow> Some (BNull (-1), r\<lparr>rd_io := io\<rparr>)
        | (FError _, io) \<Rightarrow> Some (BNull (-1), count_error (r\<lparr>rd_io := io\<rparr>))
        | (FTimeout, io) \<Rightarrow> Some (BNull 0, r\<lparr>rd_io := io\<rparr>)
        | (FWaitErr, io) \<Rightarrow> Some (BNull (-1), count_error (r\<lparr>rd_io := io\<rparr>))))"
  by auto
termination
  by (relation "measure (\<lambda>(_, remains, _, _). remains)") (auto dest: io_fetch_data [OF sym])

declare read_loop.simps [simp del]

text \<open>A chunked body is read by the chunked reader.\<close>

definition read_chunked :: "reader_cfg \<Rightarrow> nat \<Rightarrow> body_reader \<Rightarrow> (body_ret \<times> body_reader) option" where
  "read_chunked cfg hint r =
     (let remains = (if hint = 0 then page_size (rc_env cfg) else hint) in
      case buf_room cfg remains r of
        None \<Rightarrow> Some (BNull (-1), count_error r)
      | Some r1 \<Rightarrow>
          (case upsgi_chunked_read_smart (rc_chunk cfg) remains (rd_io r1) of
             Some (SNull io) \<Rightarrow> Some (BNull (-1), count_error (r1\<lparr>rd_io := io\<rparr>))
           | Some (SBuf u io) \<Rightarrow>
               if ub_pos u = 0 then Some (BEmpty, r1\<lparr>rd_io := io\<lparr>cr_sched := note_chunked_complete (cc_sched_on (rc_chunk cfg)) (cc_clock (rc_chunk cfg) (cr_ticks io)) (cr_sched io)\<rparr>\<rparr>)
               else map_option (\<lambda>r2. (BGot (buf_bytes (ub_pos u) r2), r2)) (buf_put 0 (ub_content u) (r1\<lparr>rd_io := io\<rparr>))
           | Some SFault \<Rightarrow> None
           | None \<Rightarrow> None))"

text \<open>What is in the line buffer goes first: out of it, or copied in front of what is read.\<close>

definition read_residual :: "reader_cfg \<Rightarrow> nat \<Rightarrow> body_reader \<Rightarrow> (body_ret \<times> body_reader) option + (nat \<times> nat \<times> body_reader)" where
  "read_residual cfg remains r =
     (if rd_line_pos r > 0 then
        (let avail = size_sub (rd_line_mark r) (rd_line_pos r) in
         if remains \<le> avail
         then Inl (Some (BGot (take remains (window r)), r\<lparr>rd_line_pos := rd_line_pos r + remains\<rparr>))
         else
          (case buf_room cfg avail r of
             None \<Rightarrow> Inl (Some (BNull (-1), count_error r))
           | Some r1 \<Rightarrow>
               (case buf_put 0 (window r) r1 of
                  None \<Rightarrow> Inl None
                | Some r2 \<Rightarrow> Inr (remains - avail, avail, r2\<lparr>rd_line_pos := 0, rd_line_mark := 0\<rparr>))))
      else Inr (remains, 0, r))"

text \<open>The block for the bytes to come: a new one of \<open>remains\<close> bytes, or the old one made large enough.\<close>

definition read_alloc :: "reader_cfg \<Rightarrow> nat \<Rightarrow> nat \<Rightarrow> body_reader \<Rightarrow> body_reader option" where
  "read_alloc cfg remains rlen r =
     (case rd_buf r of
        None \<Rightarrow> if realloc_ok (rc_env cfg) remains then Some (r\<lparr>rd_buf := Some (fresh_block (rc_env cfg) 0 remains)\<rparr>) else None
      | Some b \<Rightarrow> buf_room cfg (size_add remains rlen) r)"

definition read_file_rest :: "nat \<Rightarrow> nat \<Rightarrow> char list \<times> nat \<Rightarrow> body_reader \<Rightarrow> (body_ret \<times> body_reader) option" where
  "read_file_rest remains rlen f r =
     (case fread_one remains f of
        (None, f1) \<Rightarrow> Some (BNull (-1), count_error (r\<lparr>rd_file := Some f1\<rparr>))
      | (Some d, f1) \<Rightarrow>
          map_option (\<lambda>r1. (BGot (buf_bytes (rlen + remains) r1), r1\<lparr>rd_pos := rd_pos r1 + remains\<rparr>))
            (buf_put rlen d (r\<lparr>rd_file := Some f1\<rparr>)))"

text \<open>The bytes at a pointer into the block of the post buffering, \<open>None\<close> when they end outside of it.\<close>

definition read_mem_rest :: "nat \<Rightarrow> nat \<Rightarrow> body_reader \<Rightarrow> (body_ret \<times> body_reader) option" where
  "read_mem_rest remains rlen r =
     (if rd_pos r + (rlen + remains) \<le> length (rd_mem r)
      then Some (BGot (take (rlen + remains) (drop (rd_pos r) (rd_mem r))), r\<lparr>rd_pos := rd_pos r + remains\<rparr>)
      else None)"

definition read_rest :: "reader_cfg \<Rightarrow> nat \<Rightarrow> nat \<Rightarrow> body_reader \<Rightarrow> (body_ret \<times> body_reader) option" where
  "read_rest cfg remains0 rlen r =
     (let remains = (if size_add remains0 (rd_pos r) > rd_cl r then size_sub (rd_cl r) (rd_pos r) else remains0) in
      if remains = 0 then Some (if rlen > 0 then BGot (buf_bytes rlen r) else BEmpty, r)
      else if rc_buffering cfg > 0 \<and> rd_file r = None then read_mem_rest remains rlen r
      else
       (case read_alloc cfg remains rlen r of
          None \<Rightarrow> Some (BNull (-1), count_error r)
        | Some r1 \<Rightarrow>
            (case rd_file r1 of
               Some f \<Rightarrow> read_file_rest remains rlen f r1
             | None \<Rightarrow> read_loop cfg remains rlen r1)))"

text \<open>The hint is a \<open>ssize_t\<close> stored in a \<open>size_t\<close>: only zero is not positive.\<close>

definition upsgi_request_body_read :: "reader_cfg \<Rightarrow> int \<Rightarrow> body_reader \<Rightarrow> (body_ret \<times> body_reader) option" where
  "upsgi_request_body_read cfg hint r =
     (let remains = nat (hint mod 2 ^ 64) in
      if rd_chunked r then read_chunked cfg remains r
      else if (rd_cl r = 0 \<or> rd_pos r \<ge> rd_cl r) \<and> rd_line_pos r = 0 then Some (BEmpty, r)
      else
       (case read_residual cfg (if remains = 0 then rd_cl r else remains) r of
          Inl x \<Rightarrow> x
        | Inr (n, rlen, r1) \<Rightarrow> read_rest cfg n rlen r1))"

section \<open>Post buffering\<close>

text \<open>The body in memory: the block of the configuration, or one of the body's size.\<close>

function mem_loop :: "reader_cfg \<Rightarrow> nat \<Rightarrow> nat \<Rightarrow> body_reader \<Rightarrow> (bool \<times> body_reader) option" where
  "mem_loop cfg remains at r =
     (if remains = 0 then Some (True, r)
      else
       (case io_fetch (rc_chunk cfg) remains (rd_io r) of
          (FData d, io) \<Rightarrow>
            (case mem_write (rd_mem r) at d of
               None \<Rightarrow> None
             | Some m \<Rightarrow> mem_loop cfg (remains - length d) (at + length d) (r\<lparr>rd_io := io, rd_mem := m\<rparr>))
        | (FError False, io) \<Rightarrow> Some (False, count_error (r\<lparr>rd_io := io\<rparr>))
        | (FWaitErr, io) \<Rightarrow> Some (False, count_error (r\<lparr>rd_io := io\<rparr>))
        | (_, io) \<Rightarrow> Some (False, r\<lparr>rd_io := io\<rparr>)))"
  by auto
termination
  by (relation "measure (\<lambda>(_, remains, _, _). remains)") (auto dest: io_fetch_data [OF sym])

declare mem_loop.simps [simp del]

definition upsgi_postbuffer_do_in_mem :: "reader_cfg \<Rightarrow> body_reader \<Rightarrow> (bool \<times> body_reader) option" where
  "upsgi_postbuffer_do_in_mem cfg r =
     (let remains = rd_cl r in
      if remains > rc_bufsize cfg then
        (if realloc_ok (rc_env cfg) remains
         then mem_loop cfg remains 0 (r\<lparr>rd_mem := fresh_block (rc_env cfg) 0 remains\<rparr>)
         else Some (False, count_error r))
      else mem_loop cfg remains 0 r)"

text \<open>The body in a temporary file, through the block of the configuration.\<close>

function disk_loop :: "reader_cfg \<Rightarrow> nat \<Rightarrow> body_reader \<Rightarrow> (bool \<times> body_reader) option" where
  "disk_loop cfg remains r =
     (if remains = 0 then Some (True, r\<lparr>rd_file := map_option (\<lambda>f. (fst f, 0)) (rd_file r)\<rparr>)
      else
       (case io_fetch (rc_chunk cfg) (min remains (rc_bufsize cfg)) (rd_io r) of
          (FData d, io) \<Rightarrow>
            (case (mem_write (rd_mem r) 0 d, rd_file r) of
               (Some m, Some f) \<Rightarrow>
                 (let r1 = r\<lparr>rd_io := io, rd_mem := m\<rparr> in
                  if rc_fwrite cfg (length (fst f) + length d)
                  then disk_loop cfg (remains - length d) (r1\<lparr>rd_file := Some (fst f @ d, snd f + length d)\<rparr>)
                  else Some (False, count_error r1))
             | _ \<Rightarrow> None)
        | (FError _, io) \<Rightarrow> Some (False, count_error (r\<lparr>rd_io := io\<rparr>))
        | (FWaitErr, io) \<Rightarrow> Some (False, count_error (r\<lparr>rd_io := io\<rparr>))
        | (_, io) \<Rightarrow> Some (False, r\<lparr>rd_io := io\<rparr>)))"
  by auto
termination
  by (relation "measure (\<lambda>(_, remains, _). remains)") (auto dest: io_fetch_data [OF sym])

declare disk_loop.simps [simp del]

definition upsgi_postbuffer_do_in_disk :: "reader_cfg \<Rightarrow> body_reader \<Rightarrow> (bool \<times> body_reader) option" where
  "upsgi_postbuffer_do_in_disk cfg r =
     (if rc_tmpfile cfg then disk_loop cfg (rd_cl r) (r\<lparr>rd_file := Some ([], 0)\<rparr>)
      else Some (False, count_error (r\<lparr>rd_file := None\<rparr>)))"

section \<open>A connection that delivers\<close>

text \<open>No error and no end of the stream, and a successful wait for every read that would block.\<close>

definition steady :: "chunk_req \<Rightarrow> bool" where
  "steady r \<longleftrightarrow> (\<forall>ev \<in> set (cr_reads r). ev = RAgain \<or> (\<exists>bs. ev = RData bs \<and> bs \<noteq> [])) \<and>
     (\<forall>w \<in> set (cr_waits r). w > 0) \<and> length (filter (\<lambda>ev. ev = RAgain) (cr_reads r)) \<le> length (cr_waits r) \<and>
     bs_inv (cr_sched r)"

lemma steady_read:
  assumes "steady r" "cr_pending r \<noteq> []" "0 < n" "upsgi_proto_base_read_body n (cr_remains r) (cr_reads r) = (q, rem', evs')"
  shows "(\<exists>d. q = Got d \<and> d \<noteq> [] \<and> length d \<le> n \<and> cr_pending r = d @ pending rem' evs' \<and>
        length (filter (\<lambda>ev. ev = RAgain) evs') = length (filter (\<lambda>ev. ev = RAgain) (cr_reads r))) \<or>
     (q = WouldBlock \<and> pending rem' evs' = cr_pending r \<and>
        Suc (length (filter (\<lambda>ev. ev = RAgain) evs')) = length (filter (\<lambda>ev. ev = RAgain) (cr_reads r)))"
    "\<forall>ev \<in> set evs'. ev = RAgain \<or> (\<exists>bs. ev = RData bs \<and> bs \<noteq> [])"
proof -
  have "((\<exists>d. q = Got d \<and> d \<noteq> [] \<and> length d \<le> n \<and> cr_pending r = d @ pending rem' evs' \<and>
        length (filter (\<lambda>ev. ev = RAgain) evs') = length (filter (\<lambda>ev. ev = RAgain) (cr_reads r))) \<or>
     (q = WouldBlock \<and> pending rem' evs' = cr_pending r \<and>
        Suc (length (filter (\<lambda>ev. ev = RAgain) evs')) = length (filter (\<lambda>ev. ev = RAgain) (cr_reads r)))) \<and>
    (\<forall>ev \<in> set evs'. ev = RAgain \<or> (\<exists>bs. ev = RData bs \<and> bs \<noteq> []))"
  proof (cases "cr_remains r")
    case Nil
    with assms obtain ev evs where e: "cr_reads r = ev # evs"
      by (cases "cr_reads r") (auto simp: pending_def)
    with assms(1) consider "ev = RAgain" | bs where "ev = RData bs" "bs \<noteq> []" by (auto simp: steady_def)
    then show ?thesis
      using assms Nil e by cases (auto simp: upsgi_proto_base_read_body_def pending_def steady_def split: if_splits)
  next
    case (Cons c cs)
    with assms show ?thesis by (auto simp: upsgi_proto_base_read_body_def pending_def steady_def)
  qed
  then show "(\<exists>d. q = Got d \<and> d \<noteq> [] \<and> length d \<le> n \<and> cr_pending r = d @ pending rem' evs' \<and>
        length (filter (\<lambda>ev. ev = RAgain) evs') = length (filter (\<lambda>ev. ev = RAgain) (cr_reads r))) \<or>
     (q = WouldBlock \<and> pending rem' evs' = cr_pending r \<and>
        Suc (length (filter (\<lambda>ev. ev = RAgain) evs')) = length (filter (\<lambda>ev. ev = RAgain) (cr_reads r)))"
    "\<forall>ev \<in> set evs'. ev = RAgain \<or> (\<exists>bs. ev = RData bs \<and> bs \<noteq> [])" by blast+
qed

text \<open>One read: data, or a block that leaves a wait over.\<close>

definition waits_left :: "chunk_req \<Rightarrow> bool" where
  "waits_left r \<longleftrightarrow> (\<forall>ev \<in> set (cr_reads r). ev = RAgain \<or> (\<exists>bs. ev = RData bs \<and> bs \<noteq> [])) \<and>
     (\<forall>w \<in> set (cr_waits r). w > 0) \<and> Suc (length (filter (\<lambda>ev. ev = RAgain) (cr_reads r))) \<le> length (cr_waits r) \<and>
     bs_inv (cr_sched r)"

lemma io_recv_steady:
  assumes "steady r" "cr_pending r \<noteq> []" "0 < n" "n < 2 ^ 64"
  obtains (data) d r1 where "io_recv cfg n r = (Got d, r1)" "d \<noteq> []" "length d \<le> n" "cr_pending r = d @ cr_pending r1" "steady r1"
  | (again) r1 where "io_recv cfg n r = (WouldBlock, r1)" "cr_pending r1 = cr_pending r" "waits_left r1"
proof -
  obtain g s1 where b: "read_budget (cc_sched_on cfg) (cc_clock cfg (cr_ticks r)) (of_nat n) (cr_sched r) = (g, s1)" by (metis surj_pair)
  have inv: "bs_inv (cr_sched r)" using assms(1) by (simp add: steady_def)
  have g: "unat g \<le> n" "0 < unat g" "bs_inv s1"
    using bs.governed_room [OF inv assms(4), of "cc_sched_on cfg" "cc_clock cfg (cr_ticks r)"]
      bs.governed_progress [OF inv assms(3,4), of "cc_sched_on cfg" "cc_clock cfg (cr_ticks r)"]
      bs.budget_inv [OF inv, of "cc_sched_on cfg" "cc_clock cfg (cr_ticks r)" "of_nat n"]
    by (auto simp: b)
  obtain q rem' evs' where q: "upsgi_proto_base_read_body (unat g) (cr_remains r) (cr_reads r) = (q, rem', evs')"
    using prod_cases3 by blast
  note s = steady_read [OF assms(1,2) g(2) q]
  from s(1) show thesis
  proof (elim disjE exE conjE)
    fix d assume d: "q = Got d" "d \<noteq> []" "length d \<le> unat g" "cr_pending r = d @ pending rem' evs'"
      "length (filter (\<lambda>ev. ev = RAgain) evs') = length (filter (\<lambda>ev. ev = RAgain) (cr_reads r))"
    define r1 where "r1 = snd (io_recv cfg n r)"
    have "io_recv cfg n r = (Got d, r1)" using d(2) by (simp add: r1_def io_recv_def b q d(1) Let_def)
    moreover have "steady r1" using assms(1) s(2) d(2,5) bs.got_inv [OF g(3)]
      by (simp add: r1_def io_recv_def b q d(1) Let_def steady_def)
    moreover have "cr_pending r1 = pending rem' evs'" by (simp add: r1_def io_recv_def b q d(1) Let_def)
    ultimately show thesis using data d g(1) by auto
  next
    assume d: "q = WouldBlock" "pending rem' evs' = cr_pending r"
        "Suc (length (filter (\<lambda>ev. ev = RAgain) evs')) = length (filter (\<lambda>ev. ev = RAgain) (cr_reads r))"
    define r1 where "r1 = snd (io_recv cfg n r)"
    have "io_recv cfg n r = (WouldBlock, r1)" by (simp add: r1_def io_recv_def b q d(1) Let_def)
    moreover have "waits_left r1" using assms(1) s(2) d(3) bs.again_inv [OF g(3)]
      by (simp add: r1_def io_recv_def b q d(1) Let_def steady_def waits_left_def)
    moreover have "cr_pending r1 = cr_pending r" using d(2) by (simp add: r1_def io_recv_def b q d(1) Let_def)
    ultimately show thesis using again by blast
  qed
qed

lemma io_wait_steady:
  assumes "waits_left r" "ws = cr_waits r" "cr_pending r \<noteq> []" "0 < n" "n < 2 ^ 64"
  shows "\<exists>d r1. io_wait cfg n ws r = (FData d, r1) \<and> d \<noteq> [] \<and> length d \<le> n \<and> cr_pending r = d @ cr_pending r1 \<and> steady r1"
  using assms(1,2,3)
proof (induction ws arbitrary: r)
  case Nil
  then show ?case by (simp add: waits_left_def)
next
  case (Cons w ws)
  have cw: "cr_waits r = w # ws" using Cons.prems(2) by simp
  have w: "w > 0" and st: "steady (r\<lparr>cr_waits := ws\<rparr>)" using Cons.prems(1) by (auto simp: waits_left_def steady_def cw)
  have p: "cr_pending (r\<lparr>cr_waits := ws\<rparr>) \<noteq> []" using Cons.prems(3) by simp
  from st p assms(4,5) show ?case
  proof (cases rule: io_recv_steady [where cfg = cfg])
    case (data d r1)
    then show ?thesis using w by auto
  next
    case (again r1)
    have "ws = cr_waits r1" using again(1) by (auto simp: io_recv_def Let_def split: prod.splits read_ret.splits)
    from Cons.IH [OF again(3) this] again(2) Cons.prems(3) w show ?thesis by (auto simp: again(1))
  qed
qed

lemma io_fetch_steady:
  assumes "steady r" "cr_pending r \<noteq> []" "0 < n" "n < 2 ^ 64"
  obtains d r1 where "io_fetch cfg n r = (FData d, r1)" "d \<noteq> []" "length d \<le> n" "cr_pending r = d @ cr_pending r1" "steady r1"
  using assms
proof (cases rule: io_recv_steady [where cfg = cfg])
  case (data d r1)
  then show ?thesis using that by (auto simp: io_fetch_def)
next
  case (again r1)
  then have "cr_pending r1 \<noteq> []" using assms(2) by simp
  from io_wait_steady [OF again(3) refl this assms(3,4), where cfg = cfg] again show ?thesis
    using that by (auto simp: io_fetch_def)
qed

section \<open>What is left of the body\<close>

text \<open>The bytes behind the line buffer: the rest of the file, or what the connection still has of the body.\<close>

definition rest :: "body_reader \<Rightarrow> char list" where
  "rest r = (case rd_file r of Some f \<Rightarrow> drop (snd f) (fst f) | None \<Rightarrow> take (rd_cl r - rd_pos r) (cr_pending (rd_io r)))"

definition left :: "body_reader \<Rightarrow> char list" where
  "left r = (if rd_line_pos r > 0 then window r @ rest r else rest r)"

definition source_ok :: "reader_cfg \<Rightarrow> body_reader \<Rightarrow> bool" where
  "source_ok cfg r \<longleftrightarrow>
     (case rd_file r of
        Some f \<Rightarrow> snd f = rd_pos r \<and> length (fst f) = rd_cl r
      | None \<Rightarrow> rc_buffering cfg = 0 \<and> steady (rd_io r) \<and> rd_cl r - rd_pos r \<le> length (cr_pending (rd_io r)))"

text \<open>Between two rounds of a loop, and between two calls.\<close>

definition loop_inv :: "reader_cfg \<Rightarrow> body_reader \<Rightarrow> bool" where
  "loop_inv cfg r \<longleftrightarrow> \<not> rd_chunked r \<and> rd_cl r < 2 ^ 63 \<and> rd_pos r \<le> rd_cl r \<and> rd_line_pos r \<le> rd_line_mark r \<and>
     rd_line_mark r \<le> rd_pos r \<and>
     (case rd_line r of None \<Rightarrow> rd_line_mark r = 0 | Some buf \<Rightarrow> rd_line_mark r \<le> length buf) \<and> source_ok cfg r"

definition reader_inv :: "reader_cfg \<Rightarrow> body_reader \<Rightarrow> bool" where
  "reader_inv cfg r \<longleftrightarrow> loop_inv cfg r \<and> (rd_line_pos r = 0 \<longrightarrow> rd_line_mark r = 0 \<or> rd_pos r = rd_cl r)"

definition rc_ok :: "reader_cfg \<Rightarrow> bool" where
  "rc_ok cfg \<longleftrightarrow> 0 < rc_buffer_size cfg \<and> (\<forall>n. realloc_ok (rc_env cfg) n)"

lemma rest_length: "source_ok cfg r \<Longrightarrow> length (rest r) = rd_cl r - rd_pos r"
  by (auto simp: source_ok_def rest_def split: option.splits)

lemma window_length: "loop_inv cfg r \<Longrightarrow> length (window r) = rd_line_mark r - rd_line_pos r"
  by (auto simp: loop_inv_def window_def split: option.splits)

lemma rest_frame [simp]:
  "rest (r\<lparr>rd_line := l\<rparr>) = rest r" "rest (r\<lparr>rd_line_pos := n\<rparr>) = rest r" "rest (r\<lparr>rd_line_mark := n\<rparr>) = rest r" "rest (r\<lparr>rd_buf := b\<rparr>) = rest r"
  "source_ok cfg (r\<lparr>rd_line := l\<rparr>) = source_ok cfg r" "source_ok cfg (r\<lparr>rd_line_pos := n\<rparr>) = source_ok cfg r"
  "source_ok cfg (r\<lparr>rd_line_mark := n\<rparr>) = source_ok cfg r" "source_ok cfg (r\<lparr>rd_buf := b\<rparr>) = source_ok cfg r"
  by (auto simp: rest_def source_ok_def split: option.splits)

lemma window_buf [simp]: "window (r\<lparr>rd_buf := b\<rparr>) = window r"
  by (simp add: window_def split: option.splits)

text \<open>A read of the connection or of the file takes bytes off the rest.\<close>

lemma fetch_rest:
  assumes "source_ok cfg r" "rd_file r = None" "0 < n" "n \<le> rd_cl r - rd_pos r" "rd_cl r < 2 ^ 63"
  obtains d io where "io_fetch (rc_chunk cfg) n (rd_io r) = (FData d, io)" "d \<noteq> []" "length d \<le> n"
    "rest r = d @ take (rd_cl r - rd_pos r - length d) (cr_pending io)"
    "steady io" "rd_cl r - rd_pos r - length d \<le> length (cr_pending io)"
proof -
  from assms have s: "steady (rd_io r)" "cr_pending (rd_io r) \<noteq> []" "rd_cl r - rd_pos r \<le> length (cr_pending (rd_io r))"
    by (auto simp: source_ok_def)
  have n: "n < 2 ^ 64" using assms(4,5) by simp
  from io_fetch_steady [OF s(1,2) assms(3) n, where cfg = "rc_chunk cfg"] obtain d io where
    d: "io_fetch (rc_chunk cfg) n (rd_io r) = (FData d, io)" "d \<noteq> []" "length d \<le> n"
    "cr_pending (rd_io r) = d @ cr_pending io" "steady io" by blast
  have "rest r = d @ take (rd_cl r - rd_pos r - length d) (cr_pending io)"
    using assms(2,4) d(3) by (simp add: rest_def d(4))
  with d s(3) show thesis using that [of d io] by (simp add: d(4))
qed

lemma fread_one_rest:
  assumes "0 < n" "n \<le> length (fst f) - snd f"
  shows "fread_one n f = (Some (take n (drop (snd f) (fst f))), (fst f, snd f + n))"
  using assms by (simp add: fread_one_def Let_def min_absorb2)

section \<open>Lines\<close>

lemma line_room_ok:
  assumes "loop_inv cfg r" "rc_ok cfg" "rd_line r = Some buf" "rd_pos r < rd_cl r"
  obtains nbuf p m where "line_room cfg buf r = (True, r\<lparr>rd_line := Some nbuf, rd_line_pos := p, rd_line_mark := m\<rparr>)"
    "p \<le> m" "m < length nbuf" "take (m - p) (drop p nbuf) = window r" "m \<le> rd_line_mark r"
proof (cases "length buf = rd_line_mark r")
  case False
  with assms(1,3) have "rd_line_mark r < length buf" "rd_line_pos r \<le> rd_line_mark r" by (auto simp: loop_inv_def)
  with that [where nbuf = buf and p = "rd_line_pos r" and m = "rd_line_mark r"] assms(3) show thesis
    by (simp add: line_room_def window_def Let_def)
next
  case True
  define m where "m = rd_line_mark r - rd_line_pos r"
  define n where "n = min (rc_buffer_size cfg) (rd_cl r - rd_pos r)"
  define buf1 where "buf1 = take m (drop (rd_line_pos r) buf) @ drop m buf"
  have le: "rd_line_pos r \<le> rd_line_mark r" using assms(1) by (simp add: loop_inv_def)
  have n: "0 < n" using assms(2,4) by (simp add: n_def rc_ok_def)
  have l: "length buf1 = length buf" "m \<le> length buf" using le True by (auto simp: buf1_def m_def)
  have w: "take m buf1 = window r" using le True by (simp add: buf1_def m_def window_def assms(3))
  have ok: "\<And>k. realloc_ok (rc_env cfg) k" using assms(2) by (simp add: rc_ok_def)
  have b1: "buf1 = drop (rd_line_pos r) buf @ drop m buf" using le True by (simp add: buf1_def m_def)
  have lr: "line_room cfg buf r = (True, r\<lparr>rd_line := Some (if length buf - m < n then buf1 @ fresh_block (rc_env cfg) (length buf1) (length buf1 + n) else buf1), rd_line_pos := 0, rd_line_mark := m\<rparr>)"
    using le True assms(4) l ok
    by (auto simp: line_room_def Let_def m_def [symmetric] n_def [symmetric] b1)
  show thesis
    by (rule that [OF lr]) (use n l w in \<open>auto simp: m_def\<close>)
qed

lemma line_put_ok:
  assumes "rd_line_mark r + length d \<le> length buf"
  shows "\<exists>m. line_put buf d r = Some (r\<lparr>rd_line := Some m, rd_line_mark := rd_line_mark r + length d, rd_pos := rd_pos r + length d\<rparr>) \<and>
    length m = length buf \<and> take (rd_line_mark r + length d) m = take (rd_line_mark r) buf @ d"
  using assms by (auto simp: line_put_def mem_write_def)

text \<open>A line buffer that took \<open>d\<close> bytes more.\<close>

definition took :: "reader_cfg \<Rightarrow> char list \<Rightarrow> body_reader \<Rightarrow> body_reader \<Rightarrow> bool" where
  "took cfg d r r1 \<longleftrightarrow> loop_inv cfg r1 \<and> d \<noteq> [] \<and> window r1 = window r @ d \<and> rest r = d @ rest r1 \<and> rd_line r1 \<noteq> None"

lemma window_put:
  assumes "p \<le> m" "take (m - p) (drop p buf) = w" "take (m + length d) b = take m buf @ d" "m \<le> length buf" "length b = length buf"
  shows "take (m + length d - p) (drop p b) = w @ d"
proof -
  have "take (m + length d - p) (drop p b) = drop p (take (m + length d) b)" using assms(1) by (simp add: drop_take)
  also have "\<dots> = drop p (take m buf) @ d" using assms(1,3,4) by simp
  finally show ?thesis using assms(1,2) by (simp add: drop_take)
qed

lemma took_intro:
  assumes "loop_inv cfg r" "p \<le> m" "take (m - p) (drop p buf) = window r" "m \<le> rd_line_mark r"
    "length b = length buf" "take (m + length d) b = take m buf @ d" "m + length d \<le> length buf" "d \<noteq> []"
    "rd_pos r + length d \<le> rd_cl r" "rest r = d @ rest r1" "source_ok cfg r1"
    "rd_line r1 = Some b" "rd_line_pos r1 = p" "rd_line_mark r1 = m + length d" "rd_pos r1 = rd_pos r + length d"
    "rd_cl r1 = rd_cl r" "rd_chunked r1 = rd_chunked r"
  shows "took cfg d r r1"
proof -
  have "window r1 = window r @ d"
    using window_put [OF assms(2,3,6) _ assms(5)] assms(7) by (simp add: window_def [of r1] assms(12-14))
  then show ?thesis using assms by (auto simp: took_def loop_inv_def)
qed

lemma consume_ok:
  assumes inv: "loop_inv cfg r" and ok: "rc_ok cfg" and lb: "rd_line r = Some buf" and more: "rd_pos r < rd_cl r"
  shows "\<exists>d r1. consume_body_for_readline cfg r = Some (True, r1) \<and> took cfg d r r1"
proof -
  from line_room_ok [OF assms] obtain buf1 p m where lr: "line_room cfg buf r = (True, r\<lparr>rd_line := Some buf1, rd_line_pos := p, rd_line_mark := m\<rparr>)"
    and pm: "p \<le> m" "m < length buf1" "take (m - p) (drop p buf1) = window r" "m \<le> rd_line_mark r" by blast
  define n where "n = min (length buf1 - m) (rd_cl r - rd_pos r)"
  have n: "0 < n" "m + n \<le> length buf1" "n \<le> rd_cl r - rd_pos r" using pm(2) more by (auto simp: n_def)
  have src: "source_ok cfg r" and cl: "rd_cl r < 2 ^ 63" using inv by (auto simp: loop_inv_def)
  show ?thesis
  proof (cases "rd_file r")
    case (Some f)
    define d where "d = take n (drop (snd f) (fst f))"
    define r2 where "r2 = r\<lparr>rd_line := Some buf1, rd_line_pos := p, rd_line_mark := m, rd_file := Some (fst f, snd f + n)\<rparr>"
    have f: "snd f = rd_pos r" "length (fst f) = rd_cl r" using src Some by (auto simp: source_ok_def)
    have df: "drop (rd_pos r) (fst f) = d @ drop (rd_pos r + n) (fst f)"
      using append_take_drop_id [of n "drop (rd_pos r) (fst f)"] by (simp add: d_def f(1) add.commute)
    have ld: "length d = n" using n f by (simp add: d_def)
    have fr: "fread_one n f = (Some d, (fst f, snd f + n))" using fread_one_rest [OF n(1), of f] n f by (simp add: d_def)
    obtain b where b: "line_put buf1 d r2 = Some (r2\<lparr>rd_line := Some b, rd_line_mark := m + n, rd_pos := rd_pos r + n\<rparr>)"
      "length b = length buf1" "take (m + n) b = take m buf1 @ d"
      using line_put_ok [of r2 d buf1] n by (auto simp: r2_def ld)
    have c: "consume_body_for_readline cfg r = Some (True, r2\<lparr>rd_line := Some b, rd_line_mark := m + n, rd_pos := rd_pos r + n\<rparr>)"
      using b(1) pm(2) more by (simp add: consume_body_for_readline_def lb lr Let_def n_def [symmetric] Some fr r2_def)
    have "took cfg d r (r2\<lparr>rd_line := Some b, rd_line_mark := m + n, rd_pos := rd_pos r + n\<rparr>)"
      by (rule took_intro [where p = p and m = m and buf = buf1 and b = b])
        (use inv pm b(2,3) n ld f Some df in \<open>auto simp: r2_def source_ok_def rest_def\<close>)
    with c show ?thesis by blast
  next
    case None
    from fetch_rest [OF src None n(1,3) cl] obtain d io where
      d: "io_fetch (rc_chunk cfg) n (rd_io r) = (FData d, io)" "d \<noteq> []" "length d \<le> n"
      "rest r = d @ take (rd_cl r - rd_pos r - length d) (cr_pending io)"
      "steady io" "rd_cl r - rd_pos r - length d \<le> length (cr_pending io)" by blast
    define r2 where "r2 = r\<lparr>rd_line := Some buf1, rd_line_pos := p, rd_line_mark := m, rd_io := io\<rparr>"
    have buff: "rc_buffering cfg = 0" using src None by (simp add: source_ok_def)
    obtain b where b: "line_put buf1 d r2 = Some (r2\<lparr>rd_line := Some b, rd_line_mark := m + length d, rd_pos := rd_pos r + length d\<rparr>)"
      "length b = length buf1" "take (m + length d) b = take m buf1 @ d"
      using line_put_ok [of r2 d buf1] n d(3) by (auto simp: r2_def)
    have c: "consume_body_for_readline cfg r = Some (True, r2\<lparr>rd_line := Some b, rd_line_mark := m + length d, rd_pos := rd_pos r + length d\<rparr>)"
      using b(1) pm(2) more d(1) by (simp add: consume_body_for_readline_def lb lr Let_def n_def [symmetric] None buff r2_def)
    have "took cfg d r (r2\<lparr>rd_line := Some b, rd_line_mark := m + length d, rd_pos := rd_pos r + length d\<rparr>)"
      by (rule took_intro [where p = p and m = m and buf = buf1 and b = b])
        (use inv pm b(2,3) n d None buff in \<open>auto simp: r2_def source_ok_def rest_def\<close>)
    with c show ?thesis by blast
  qed
qed

text \<open>The first line of a text, with its newline; all of it when it has none.\<close>

definition first_line :: "char list \<Rightarrow> char list" where
  "first_line s = (if CHR 0x0A \<in> set s then takeWhile (\<lambda>c. c \<noteq> CHR 0x0A) s @ [CHR 0x0A] else s)"

lemma first_line_prefix: "s = first_line s @ drop (length (first_line s)) s"
proof (cases "CHR 0x0A \<in> set s")
  case True
  then obtain a b where s: "s = a @ CHR 0x0A # b" "CHR 0x0A \<notin> set a" by (meson split_list_first)
  then have "takeWhile (\<lambda>c. c \<noteq> CHR 0x0A) s = a" by (auto simp: takeWhile_tail)
  with True s show ?thesis by (simp add: first_line_def)
qed (simp add: first_line_def)

lemma first_line_append: "CHR 0x0A \<in> set s \<Longrightarrow> first_line (s @ t) = first_line s"
  by (auto simp: first_line_def takeWhile_append1)

lemma first_line_nonempty: "s \<noteq> [] \<Longrightarrow> first_line s \<noteq> []"
  by (simp add: first_line_def)

definition bytes_of :: "body_ret \<Rightarrow> char list option" where
  "bytes_of x = (case x of BEmpty \<Rightarrow> Some [] | BGot d \<Rightarrow> Some d | BNull _ \<Rightarrow> None)"

text \<open>A call that returned \<open>d\<close> out of \<open>s\<close>.\<close>

definition served :: "reader_cfg \<Rightarrow> char list \<Rightarrow> char list \<Rightarrow> (body_ret \<times> body_reader) option \<Rightarrow> bool" where
  "served cfg s d x \<longleftrightarrow> (\<exists>y r1. x = Some (y, r1) \<and> bytes_of y = Some d \<and> reader_inv cfg r1 \<and> left r1 = drop (length d) s)"

lemma found_line_ok:
  assumes "loop_inv cfg r" "CHR 0x0A \<in> set (window r)"
  obtains r1 where "found_line r = Some (first_line (window r), r1)" "reader_inv cfg r1"
    "left r1 = drop (length (first_line (window r))) (window r) @ rest r"
proof -
  define d where "d = first_line (window r)"
  have wl: "length (window r) = rd_line_mark r - rd_line_pos r" by (rule window_length [OF assms(1)])
  have dl: "length d \<le> length (window r)" "0 < length d"
    using first_line_prefix [of "window r"] assms(2) by (auto simp: d_def first_line_def dest: arg_cong [where f = length])
  have le: "rd_line_pos r \<le> rd_line_mark r" using assms(1) by (simp add: loop_inv_def)
  define r1 where "r1 = (if rd_line_pos r + length d \<ge> rd_line_mark r then r\<lparr>rd_line_pos := 0, rd_line_mark := 0\<rparr> else r\<lparr>rd_line_pos := rd_line_pos r + length d\<rparr>)"
  have f: "found_line r = Some (d, r1)" using assms(2) by (simp add: found_line_def d_def first_line_def r1_def Let_def)
  have inv: "reader_inv cfg r1"
    using assms(1) dl(2) by (auto simp: r1_def reader_inv_def loop_inv_def split: option.splits)
  have "left r1 = drop (length d) (window r) @ rest r"
  proof (cases "rd_line_pos r + length d \<ge> rd_line_mark r")
    case True
    then have "length (window r) \<le> length d" using wl by simp
    with True show ?thesis by (simp add: r1_def left_def)
  next
    case False
    then have "window r1 = drop (length d) (window r)"
      by (auto simp: r1_def window_def drop_take drop_drop add.commute split: option.splits)
    with False dl(2) show ?thesis by (simp add: r1_def left_def)
  qed
  with that f inv show thesis by (simp add: d_def)
qed

lemma readline_loop_ok:
  assumes "loop_inv cfg r" "rc_ok cfg" "rd_line r \<noteq> None" "CHR 0x0A \<notin> set (window r)"
  shows "served cfg (window r @ rest r) (first_line (window r @ rest r)) (readline_loop cfg r)"
  using assms
proof (induction "length (rest r)" arbitrary: r rule: less_induct)
  case less
  have rl: "length (rest r) = rd_cl r - rd_pos r" using less.prems(1) rest_length by (auto simp: loop_inv_def)
  show ?case
  proof (cases "rd_pos r \<ge> rd_cl r")
    case True
    then have "rest r = []" using rl by simp
    moreover have "reader_inv cfg (r\<lparr>rd_line_pos := 0\<rparr>)" "rest (r\<lparr>rd_line_pos := 0\<rparr>) = rest r"
      using less.prems(1) True by (auto simp: reader_inv_def loop_inv_def split: option.splits)
    ultimately show ?thesis using True less.prems(4)
      by (subst readline_loop.simps) (auto simp: served_def bytes_of_def left_def first_line_def)
  next
    case False
    obtain buf where b: "rd_line r = Some buf" using less.prems(3) by auto
    from consume_ok [OF less.prems(1,2) b] False obtain d r1 where
      c: "consume_body_for_readline cfg r = Some (True, r1)" and t: "took cfg d r r1" by auto
    have t1: "loop_inv cfg r1" "d \<noteq> []" "window r1 = window r @ d" "rest r = d @ rest r1" "rd_line r1 \<noteq> None"
      using t by (auto simp: took_def)
    show ?thesis
    proof (cases "CHR 0x0A \<in> set (window r1)")
      case True
      from found_line_ok [OF t1(1) True] obtain r2 where
        f: "found_line r1 = Some (first_line (window r1), r2)" "reader_inv cfg r2"
        "left r2 = drop (length (first_line (window r1))) (window r1) @ rest r1" by blast
      have s: "window r @ rest r = window r1 @ rest r1" using t1 by simp
      have "length (first_line (window r1)) \<le> length (window r1)"
        using arg_cong [OF first_line_prefix [of "window r1"], where f = length] by simp
      with f False c show ?thesis
        by (subst readline_loop.simps) (simp add: s first_line_append [OF True] served_def bytes_of_def)
    next
      case nl: False
      have "found_line r1 = None" using nl by (simp add: found_line_def)
      moreover have "served cfg (window r1 @ rest r1) (first_line (window r1 @ rest r1)) (readline_loop cfg r1)"
        by (rule less.hyps) (use t1 less.prems(2) nl in auto)
      ultimately show ?thesis using False c t1(3,4) by (subst readline_loop.simps) simp
    qed
  qed
qed

lemma readline_ok:
  assumes inv: "reader_inv cfg r" and ok: "rc_ok cfg"
  shows "served cfg (left r) (first_line (left r)) (upsgi_request_body_readline cfg r)"
proof (cases "rd_pos r \<ge> rd_cl r \<and> rd_line_pos r = 0")
  case True
  have "rest r = []" using inv True rest_length [of cfg r] by (simp add: reader_inv_def loop_inv_def)
  with True inv show ?thesis by (auto simp: upsgi_request_body_readline_def served_def bytes_of_def left_def first_line_def)
next
  case False
  have li: "loop_inv cfg r" using inv by (simp add: reader_inv_def)
  have ne: "\<not> ((rd_cl r = 0 \<or> rd_pos r \<ge> rd_cl r) \<and> rd_line_pos r = 0)"
    using False li by (auto simp: loop_inv_def)
  show ?thesis
  proof (cases "rd_line_pos r > 0 \<and> CHR 0x0A \<in> set (window r)")
    case True
    from found_line_ok [OF li] True obtain r2 where
      f: "found_line r = Some (first_line (window r), r2)" "reader_inv cfg r2"
      "left r2 = drop (length (first_line (window r))) (window r) @ rest r" by blast
    have "length (first_line (window r)) \<le> length (window r)"
      using arg_cong [OF first_line_prefix [of "window r"], where f = length] by simp
    with True f ne show ?thesis
      by (simp add: upsgi_request_body_readline_def left_def first_line_append served_def bytes_of_def)
  next
    case nl: False
    have w: "left r = window r @ rest r" "CHR 0x0A \<notin> set (window r)"
      using nl inv False window_length [OF li] li by (auto simp: left_def reader_inv_def loop_inv_def)
    have fl: "(if rd_line_pos r > 0 then found_line r else None) = None" using w(2) by (simp add: found_line_def)
    obtain r1 where a: "line_alloc cfg r = Some r1" "loop_inv cfg r1" "rd_line r1 \<noteq> None" "window r1 = window r" "rest r1 = rest r"
    proof (cases "rd_line r")
      case None
      define r1 where "r1 = r\<lparr>rd_line := Some (fresh_block (rc_env cfg) 0 (min (rc_buffer_size cfg) (rd_cl r)))\<rparr>"
      have "line_alloc cfg r = Some r1" using ok None by (simp add: line_alloc_def r1_def rc_ok_def Let_def)
      moreover have "loop_inv cfg r1" "window r1 = window r" "rest r1 = rest r" "rd_line r1 \<noteq> None"
        using li None by (auto simp: loop_inv_def r1_def window_def split: option.splits)
      ultimately show thesis using that by blast
    next
      case (Some buf)
      show thesis by (rule that [of r]) (use Some li in \<open>auto simp: line_alloc_def\<close>)
    qed
    have "served cfg (window r1 @ rest r1) (first_line (window r1 @ rest r1)) (readline_loop cfg r1)"
      by (rule readline_loop_ok) (use a ok w in auto)
    with a w show ?thesis unfolding upsgi_request_body_readline_def if_not_P [OF ne] fl by simp
  qed
qed

section \<open>Reads\<close>

lemma buf_put_ok:
  assumes "rd_buf r = Some b" "off + length d \<le> length b"
  shows "\<exists>m. buf_put off d r = Some (r\<lparr>rd_buf := Some m\<rparr>) \<and> length m = length b \<and> take (off + length d) m = take off b @ d"
  using assms by (auto simp: buf_put_def mem_write_def)

text \<open>A source from which \<open>n\<close> bytes were taken, the line buffer untouched.\<close>

definition moved :: "reader_cfg \<Rightarrow> nat \<Rightarrow> body_reader \<Rightarrow> body_reader \<Rightarrow> bool" where
  "moved cfg n r r1 \<longleftrightarrow> source_ok cfg r1 \<and> rest r1 = drop n (rest r) \<and> rd_pos r1 = rd_pos r + n \<and> rd_cl r1 = rd_cl r \<and>
     rd_chunked r1 = rd_chunked r \<and> rd_line r1 = rd_line r \<and> rd_line_pos r1 = rd_line_pos r \<and> rd_line_mark r1 = rd_line_mark r"

lemma moved_inv:
  assumes "loop_inv cfg r" "rd_line_pos r = 0" "rd_line_mark r = 0" "moved cfg n r r1" "n \<le> rd_cl r - rd_pos r"
  shows "reader_inv cfg r1" "left r1 = drop n (rest r)"
  using assms by (auto simp: moved_def reader_inv_def loop_inv_def left_def split: option.splits)

lemma read_loop_ok:
  assumes "source_ok cfg r" "rd_file r = None" "rd_cl r < 2 ^ 63" "rd_buf r = Some b" "rlen + n \<le> length b" "n \<le> rd_cl r - rd_pos r"
  shows "\<exists>r1. read_loop cfg n rlen r = Some (BGot (take rlen b @ take n (rest r)), r1) \<and> moved cfg n r r1"
  using assms
proof (induction n arbitrary: r b rlen rule: less_induct)
  case (less n)
  show ?case
  proof (cases "n = 0")
    case True
    with less.prems show ?thesis by (subst read_loop.simps) (auto simp: buf_bytes_def moved_def)
  next
    case False
    from fetch_rest [OF less.prems(1,2) _ less.prems(6,3)] False obtain d io where
      d: "io_fetch (rc_chunk cfg) n (rd_io r) = (FData d, io)" "d \<noteq> []" "length d \<le> n"
      "rest r = d @ take (rd_cl r - rd_pos r - length d) (cr_pending io)"
      "steady io" "rd_cl r - rd_pos r - length d \<le> length (cr_pending io)" by auto
    from buf_put_ok [of "r\<lparr>rd_io := io\<rparr>" b rlen d] d(3) less.prems(4,5) obtain m where
      m: "buf_put rlen d (r\<lparr>rd_io := io\<rparr>) = Some (r\<lparr>rd_io := io, rd_buf := Some m\<rparr>)" "length m = length b"
      "take (rlen + length d) m = take rlen b @ d" by auto
    define r2 where "r2 = r\<lparr>rd_io := io, rd_buf := Some m, rd_pos := rd_pos r + length d\<rparr>"
    have src: "source_ok cfg r2" "rest r = d @ rest r2"
      using less.prems(1,2) d by (auto simp: r2_def source_ok_def rest_def)
    have nd: "n - length d < n" using d(2) False by (metis diff_less length_greater_0_conv neq0_conv)
    have "\<exists>r1. read_loop cfg (n - length d) (rlen + length d) r2 = Some (BGot (take (rlen + length d) m @ take (n - length d) (rest r2)), r1) \<and> moved cfg (n - length d) r2 r1"
      by (rule less.IH [OF nd src(1)]) (use less.prems d(3) m(2) in \<open>auto simp: r2_def\<close>)
    then obtain r1 where r1: "read_loop cfg (n - length d) (rlen + length d) r2 = Some (BGot (take (rlen + length d) m @ take (n - length d) (rest r2)), r1)"
      "moved cfg (n - length d) r2 r1" by blast
    have "read_loop cfg n rlen r = read_loop cfg (n - length d) (rlen + length d) r2"
      using False d(1) m(1) by (subst read_loop.simps) (simp add: r2_def)
    moreover have "moved cfg n r r1" using r1(2) src(2) d(3) by (auto simp: moved_def r2_def)
    ultimately show ?thesis using r1(1) src(2) d(3) by (simp add: m(3))
  qed
qed

text \<open>The block is large enough for what was copied and what is to come.\<close>

lemma buf_room_ok:
  assumes "rc_ok cfg"
  obtains b where "buf_room cfg n r = Some (r\<lparr>rd_buf := b\<rparr>)" "case b of None \<Rightarrow> n = 0 | Some b1 \<Rightarrow> n \<le> length b1"
    "\<And>b0. rd_buf r = Some b0 \<Longrightarrow> \<exists>x. b = Some (b0 @ x)"
proof (cases "n > (case rd_buf r of None \<Rightarrow> 0 | Some b \<Rightarrow> length b)")
  case True
  show thesis
    by (rule that [of "Some ((case rd_buf r of None \<Rightarrow> [] | Some b \<Rightarrow> b) @ fresh_block (rc_env cfg) (case rd_buf r of None \<Rightarrow> 0 | Some b \<Rightarrow> length b) n)"])
      (use True assms in \<open>auto simp: buf_room_def rc_ok_def Let_def split: option.splits\<close>)
next
  case False
  show thesis by (rule that [of "rd_buf r"]) (use False in \<open>auto simp: buf_room_def Let_def split: option.splits\<close>)
qed

lemma read_alloc_ok:
  assumes "rc_ok cfg" "rd_buf r = None \<longrightarrow> rlen = 0" "n + rlen < 2 ^ 64" "rlen \<le> length (buf_bytes rlen r)"
  obtains b where "read_alloc cfg n rlen r = Some (r\<lparr>rd_buf := Some b\<rparr>)" "rlen + n \<le> length b" "take rlen b = buf_bytes rlen r"
proof (cases "rd_buf r")
  case None
  then show thesis using that [of "fresh_block (rc_env cfg) 0 n"] assms by (simp add: read_alloc_def rc_ok_def buf_bytes_def)
next
  case (Some b0)
  from buf_room_ok [OF assms(1), of "n + rlen" r] obtain b where
    b: "buf_room cfg (n + rlen) r = Some (r\<lparr>rd_buf := b\<rparr>)" "case b of None \<Rightarrow> n + rlen = 0 | Some b1 \<Rightarrow> n + rlen \<le> length b1"
    "\<exists>x. b = Some (b0 @ x)" using Some by metis
  then obtain x where x: "b = Some (b0 @ x)" by blast
  show thesis using that [of "b0 @ x"] b(1,2) assms(3,4) by (simp add: read_alloc_def Some buf_bytes_def x)
qed

lemma read_rest_ok:
  assumes inv: "loop_inv cfg r" and ok: "rc_ok cfg" and l: "rd_line_pos r = 0" "rd_line_mark r = 0"
    and b: "rd_buf r = None \<longrightarrow> rlen = 0" "rlen = length (buf_bytes rlen r)" and n: "n < 2 ^ 63" "rlen < 2 ^ 63"
  shows "served cfg (buf_bytes rlen r @ rest r) (buf_bytes rlen r @ take n (rest r)) (read_rest cfg n rlen r)"
proof -
  define m where "m = min n (rd_cl r - rd_pos r)"
  have cl: "rd_cl r < 2 ^ 63" "rd_pos r \<le> rd_cl r" and src: "source_ok cfg r" using inv by (auto simp: loop_inv_def)
  have m: "(if size_add n (rd_pos r) > rd_cl r then size_sub (rd_cl r) (rd_pos r) else n) = m"
    using cl n by (auto simp: m_def)
  have tk: "take n (rest r) = take m (rest r)" using rest_length [OF src] by (simp add: m_def min_def)
  have len: "length (buf_bytes rlen r @ take m (rest r)) = rlen + m" using rest_length [OF src] b(2) by (simp add: m_def)
  have fin: "served cfg (buf_bytes rlen r @ rest r) (buf_bytes rlen r @ take m (rest r)) (Some (y, r1))"
    if "bytes_of y = Some (buf_bytes rlen r @ take m (rest r))" "moved cfg m r r1" for y r1
    using moved_inv [OF inv l that(2)] that(1) len b(2) by (simp add: served_def m_def drop_append)
  show ?thesis
  proof (cases "m = 0")
    case True
    have "moved cfg m r r" using src True by (simp add: moved_def)
    from fin [OF _ this] True b(2) m show ?thesis
      by (auto simp: read_rest_def Let_def tk bytes_of_def)
  next
    case False
    have m64: "m + rlen < 2 ^ 64" and mle: "m \<le> rd_cl r - rd_pos r" using n by (auto simp: m_def)
    obtain bb where bb: "read_alloc cfg m rlen r = Some (r\<lparr>rd_buf := Some bb\<rparr>)" "rlen + m \<le> length bb" "take rlen bb = buf_bytes rlen r"
      using read_alloc_ok [OF ok b(1) m64] b(2) by (metis order_refl)
    define r1 where "r1 = r\<lparr>rd_buf := Some bb\<rparr>"
    have r1: "source_ok cfg r1" "rest r1 = rest r" "rd_buf r1 = Some bb" "rd_cl r1 = rd_cl r" "rd_pos r1 = rd_pos r" "rd_file r1 = rd_file r"
      using src by (auto simp: r1_def)
    have nobuf: "\<not> (rc_buffering cfg > 0 \<and> rd_file r = None)" using src by (auto simp: source_ok_def split: option.splits)
    have e: "read_rest cfg n rlen r = (case rd_file r of Some f \<Rightarrow> read_file_rest m rlen f r1 | None \<Rightarrow> read_loop cfg m rlen r1)"
      using False bb(1) unfolding read_rest_def Let_def m if_not_P [OF nobuf] by (simp add: r1_def split: option.splits)
    show ?thesis
    proof (cases "rd_file r")
      case None
      from read_loop_ok [OF r1(1) _ _ r1(3) bb(2)] None cl mle obtain r2 where
        r2: "read_loop cfg m rlen r1 = Some (BGot (take rlen bb @ take m (rest r)), r2)" "moved cfg m r1 r2" by (auto simp: r1)
      have "moved cfg m r r2" using r2(2) by (simp add: moved_def r1_def)
      then show ?thesis using fin [of _ r2] r2(1) None by (simp add: e tk bb(3) bytes_of_def)
    next
      case (Some f)
      have f: "snd f = rd_pos r" "length (fst f) = rd_cl r" using src Some by (auto simp: source_ok_def)
      have fr: "fread_one m f = (Some (take m (rest r)), (fst f, snd f + m))"
        using fread_one_rest [of m f] False mle f by (simp add: rest_def Some)
      have lm: "length (take m (rest r)) = m" using rest_length [OF src] mle by simp
      obtain mm where mm: "buf_put rlen (take m (rest r)) (r1\<lparr>rd_file := Some (fst f, snd f + m)\<rparr>) = Some (r1\<lparr>rd_file := Some (fst f, snd f + m), rd_buf := Some mm\<rparr>)"
        "take (rlen + m) mm = take rlen bb @ take m (rest r)"
        using buf_put_ok [of "r1\<lparr>rd_file := Some (fst f, snd f + m)\<rparr>" bb rlen "take m (rest r)"] r1(3) bb(2) lm by auto
      define r2 where "r2 = r1\<lparr>rd_file := Some (fst f, snd f + m), rd_buf := Some mm, rd_pos := rd_pos r + m\<rparr>"
      have "read_rest cfg n rlen r = Some (BGot (take rlen bb @ take m (rest r)), r2)"
        using mm r1(5) by (simp add: e Some read_file_rest_def fr buf_bytes_def r2_def)
      moreover have "moved cfg m r r2" using f Some by (simp add: moved_def r2_def r1_def source_ok_def rest_def add.commute)
      ultimately show ?thesis using fin [of _ r2] by (simp add: tk bb(3) bytes_of_def)
    qed
  qed
qed

lemma read_ok:
  assumes inv: "reader_inv cfg r" and ok: "rc_ok cfg" and h: "n < 2 ^ 63"
  shows "served cfg (left r) (if n = 0 then left r else take n (left r)) (upsgi_request_body_read cfg (int n) r)"
proof (cases "rd_pos r \<ge> rd_cl r \<and> rd_line_pos r = 0")
  case True
  have "rest r = []" "\<not> rd_chunked r" using inv True rest_length [of cfg r] by (auto simp: reader_inv_def loop_inv_def)
  with True inv show ?thesis by (auto simp: upsgi_request_body_read_def served_def bytes_of_def left_def)
next
  case False
  have li: "loop_inv cfg r" using inv by (simp add: reader_inv_def)
  have ne: "\<not> ((rd_cl r = 0 \<or> rd_pos r \<ge> rd_cl r) \<and> rd_line_pos r = 0)" and nc: "\<not> rd_chunked r"
    using False li by (auto simp: loop_inv_def)
  define k where "k = (if n = 0 then rd_cl r else n)"
  have src: "source_ok cfg r" and cl: "rd_cl r < 2 ^ 63" "rd_pos r \<le> rd_cl r" "rd_line_pos r \<le> rd_line_mark r" "rd_line_mark r \<le> rd_pos r"
    using li by (auto simp: loop_inv_def)
  have wl: "length (window r) = rd_line_mark r - rd_line_pos r" by (rule window_length [OF li])
  have k: "k < 2 ^ 63" using h cl by (simp add: k_def)
  have lk: "(if n = 0 then left r else take n (left r)) = take k (left r)"
    using wl rest_length [OF src] cl by (simp add: k_def left_def)
  have "nat (int n mod 2 ^ 64) = n" using h by simp
  then have e: "upsgi_request_body_read cfg (int n) r = (case read_residual cfg k r of Inl x \<Rightarrow> x | Inr (n, rlen, r1) \<Rightarrow> read_rest cfg n rlen r1)"
    unfolding upsgi_request_body_read_def Let_def if_not_P [OF nc] if_not_P [OF ne] by (simp add: k_def)
  show ?thesis
  proof (cases "rd_line_pos r > 0")
    case False
    then have z: "rd_line_pos r = 0" "rd_line_mark r = 0" "left r = rest r" using inv ne by (auto simp: reader_inv_def left_def loop_inv_def)
    have "served cfg (buf_bytes 0 r @ rest r) (buf_bytes 0 r @ take k (rest r)) (read_rest cfg k 0 r)"
      by (rule read_rest_ok [OF li ok z(1,2)]) (use k in \<open>auto simp: buf_bytes_def split: option.splits\<close>)
    then show ?thesis using False by (simp add: e lk z(3) read_residual_def buf_bytes_def split: option.splits)
  next
    case True
    define a where "a = rd_line_mark r - rd_line_pos r"
    have a: "size_sub (rd_line_mark r) (rd_line_pos r) = a" "length (window r) = a" "a < 2 ^ 63" using cl wl by (auto simp: a_def)
    show ?thesis
    proof (cases "k \<le> a")
      case ka: True
      define r1 where "r1 = r\<lparr>rd_line_pos := rd_line_pos r + k\<rparr>"
      have "read_residual cfg k r = Inl (Some (BGot (take k (window r)), r1))"
        using True ka by (simp add: read_residual_def a(1) Let_def r1_def)
      moreover have "reader_inv cfg r1" using li ka True cl
        by (auto simp: r1_def reader_inv_def loop_inv_def a_def split: option.splits)
      moreover have "window r1 = drop k (window r)"
        by (auto simp: r1_def window_def drop_take add.commute split: option.splits)
      ultimately show ?thesis using True ka a(2)
        by (simp add: e lk served_def bytes_of_def left_def r1_def)
    next
      case ka: False
      from buf_room_ok [OF ok, of a r] obtain b where
        b: "buf_room cfg a r = Some (r\<lparr>rd_buf := b\<rparr>)" "case b of None \<Rightarrow> a = 0 | Some b1 \<Rightarrow> a \<le> length b1" by metis
      obtain c where c: "buf_put 0 (window r) (r\<lparr>rd_buf := b\<rparr>) = Some (r\<lparr>rd_buf := c\<rparr>)" "buf_bytes a (r\<lparr>rd_buf := c\<rparr>) = window r" "c = None \<longrightarrow> a = 0"
      proof (cases b)
        case None
        then show thesis using that [of None] b(2) a(2) by (auto simp: buf_put_def buf_bytes_def)
      next
        case (Some b1)
        from buf_put_ok [of "r\<lparr>rd_buf := b\<rparr>" b1 0 "window r"] b(2) a(2) Some obtain m where
          "buf_put 0 (window r) (r\<lparr>rd_buf := b\<rparr>) = Some (r\<lparr>rd_buf := Some m\<rparr>)" "take a m = window r" by auto
        then show thesis using that [of "Some m"] by (simp add: buf_bytes_def)
      qed
      define r1 where "r1 = r\<lparr>rd_buf := c, rd_line_pos := 0, rd_line_mark := 0\<rparr>"
      have rr: "read_residual cfg k r = Inr (k - a, a, r1)"
        using True ka b(1) c(1) by (simp add: read_residual_def a(1) Let_def r1_def)
      have r1: "loop_inv cfg r1" "rest r1 = rest r" "buf_bytes a r1 = window r"
        using li c(2) by (auto simp: r1_def loop_inv_def buf_bytes_def split: option.splits)
      have "served cfg (buf_bytes a r1 @ rest r1) (buf_bytes a r1 @ take (k - a) (rest r1)) (read_rest cfg (k - a) a r1)"
        by (rule read_rest_ok [OF r1(1) ok]) (use c(3) a r1(3) k in \<open>auto simp: r1_def\<close>)
      then show ?thesis using True ka a(2) by (simp add: e lk rr r1 left_def)
    qed
  qed
qed

section \<open>The body as a stream\<close>

text \<open>The calls an application makes, and what they return of a body.\<close>

datatype body_call = CallRead nat | CallLine

fun piece :: "body_call \<Rightarrow> char list \<Rightarrow> char list" where
  "piece (CallRead n) s = (if n = 0 then s else take n s)"
| "piece CallLine s = first_line s"

fun pieces :: "body_call list \<Rightarrow> char list \<Rightarrow> char list list" where
  "pieces [] s = []"
| "pieces (c # cs) s = piece c s # pieces cs (drop (length (piece c s)) s)"

fun body_calls :: "(body_call \<Rightarrow> 's \<Rightarrow> (char list \<times> 's) option) \<Rightarrow> body_call list \<Rightarrow> 's \<Rightarrow> (char list list \<times> 's) option" where
  "body_calls f [] s = Some ([], s)"
| "body_calls f (c # cs) s =
     (case f c s of None \<Rightarrow> None | Some (d, s1) \<Rightarrow> map_option (\<lambda>(ds, s2). (d # ds, s2)) (body_calls f cs s1))"

fun small_call :: "body_call \<Rightarrow> bool" where
  "small_call (CallRead n) \<longleftrightarrow> n < 2 ^ 63"
| "small_call CallLine \<longleftrightarrow> True"

lemma piece_prefix: "s = piece c s @ drop (length (piece c s)) s"
  using first_line_prefix [of s] by (cases c) (auto simp: min_def)

locale body_stream =
  fixes allowed :: "body_call \<Rightarrow> bool"
    and inv :: "'s \<Rightarrow> bool"
    and remaining :: "'s \<Rightarrow> char list"
    and step :: "body_call \<Rightarrow> 's \<Rightarrow> (char list \<times> 's) option"
  assumes step_law: "inv s \<Longrightarrow> allowed c \<Longrightarrow>
      \<exists>s1. step c s = Some (piece c (remaining s), s1) \<and> inv s1 \<and> remaining s1 = drop (length (piece c (remaining s))) (remaining s)"
begin

lemma calls_served:
  assumes "inv s" "list_all allowed cs"
  shows "\<exists>s1. body_calls step cs s = Some (pieces cs (remaining s), s1) \<and> inv s1 \<and>
    remaining s = concat (pieces cs (remaining s)) @ remaining s1"
  using assms
proof (induction cs arbitrary: s)
  case (Cons c cs)
  then obtain s1 where s1: "step c s = Some (piece c (remaining s), s1)" "inv s1"
    "remaining s1 = drop (length (piece c (remaining s))) (remaining s)" using step_law [of s c] by auto
  from Cons.IH [OF s1(2)] Cons.prems(2) obtain s2 where s2: "body_calls step cs s1 = Some (pieces cs (remaining s1), s2)" "inv s2"
    "remaining s1 = concat (pieces cs (remaining s1)) @ remaining s2" by auto
  have "remaining s = piece c (remaining s) @ remaining s1" using piece_prefix [of "remaining s" c] s1(3) by simp
  then have "remaining s = piece c (remaining s) @ concat (pieces cs (remaining s1)) @ remaining s2" using s2(3) by simp
  with s1 s2(1,2) show ?case by simp
qed simp

text \<open>A read of everything leaves nothing.\<close>

lemma read_all:
  assumes "inv s" "allowed (CallRead 0)"
  shows "\<exists>s1. step (CallRead 0) s = Some (remaining s, s1) \<and> inv s1 \<and> remaining s1 = []"
  using step_law [OF assms] by simp

end

fun body_step :: "reader_cfg \<Rightarrow> body_call \<Rightarrow> body_reader \<Rightarrow> (char list \<times> body_reader) option" where
  "body_step cfg c r =
     (case (case c of CallRead n \<Rightarrow> upsgi_request_body_read cfg (int n) r | CallLine \<Rightarrow> upsgi_request_body_readline cfg r) of
        None \<Rightarrow> None
      | Some (y, r1) \<Rightarrow> map_option (\<lambda>d. (d, r1)) (bytes_of y))"

interpretation br: body_stream small_call "\<lambda>r. rc_ok cfg \<and> reader_inv cfg r" left "body_step cfg" for cfg
proof unfold_locales
  fix r c assume a: "rc_ok cfg \<and> reader_inv cfg r" "small_call c"
  have "served cfg (left r) (piece c (left r)) (case c of CallRead n \<Rightarrow> upsgi_request_body_read cfg (int n) r | CallLine \<Rightarrow> upsgi_request_body_readline cfg r)"
    using a read_ok [of cfg r] readline_ok [of cfg r] by (cases c) auto
  with a show "\<exists>s1. body_step cfg c r = Some (piece c (left r), s1) \<and> (rc_ok cfg \<and> reader_inv cfg s1) \<and>
      left s1 = drop (length (piece c (left r))) (left r)"
    by (auto simp: served_def)
qed

section \<open>Post buffering\<close>

lemma mem_loop_ok:
  assumes "steady (rd_io r)" "n \<le> length (cr_pending (rd_io r))" "n < 2 ^ 63" "at + n \<le> length (rd_mem r)"
  shows "\<exists>m io. mem_loop cfg n at r = Some (True, r\<lparr>rd_io := io, rd_mem := m\<rparr>) \<and> steady io \<and>
    length m = length (rd_mem r) \<and> take (at + n) m = take at (rd_mem r) @ take n (cr_pending (rd_io r)) \<and>
    cr_pending io = drop n (cr_pending (rd_io r))"
  using assms
proof (induction n arbitrary: r at rule: less_induct)
  case (less n)
  show ?case
  proof (cases "n = 0")
    case True
    then show ?thesis using less.prems by (subst mem_loop.simps) (auto intro!: exI [of _ "rd_io r"] exI [of _ "rd_mem r"])
  next
    case False
    have nz: "cr_pending (rd_io r) \<noteq> []" "0 < n" "n < 2 ^ 64" using False less.prems(2,3) by auto
    from io_fetch_steady [OF less.prems(1) nz, where cfg = "rc_chunk cfg"] obtain d io where
      d: "io_fetch (rc_chunk cfg) n (rd_io r) = (FData d, io)" "d \<noteq> []" "length d \<le> n" "cr_pending (rd_io r) = d @ cr_pending io" "steady io" by blast
    obtain m where m: "mem_write (rd_mem r) at d = Some m" using less.prems(4) d(3) by (simp add: mem_write_def)
    have nd: "n - length d < n" using d(2) False by (metis diff_less length_greater_0_conv neq0_conv)
    define r2 where "r2 = r\<lparr>rd_io := io, rd_mem := m\<rparr>"
    have "\<exists>m' io'. mem_loop cfg (n - length d) (at + length d) r2 = Some (True, r2\<lparr>rd_io := io', rd_mem := m'\<rparr>) \<and> steady io' \<and>
      length m' = length (rd_mem r2) \<and> take (at + length d + (n - length d)) m' = take (at + length d) (rd_mem r2) @ take (n - length d) (cr_pending (rd_io r2)) \<and>
      cr_pending io' = drop (n - length d) (cr_pending (rd_io r2))"
      by (rule less.IH [OF nd]) (use less.prems d mem_write_length [OF m] in \<open>auto simp: r2_def\<close>)
    moreover have "mem_loop cfg n at r = mem_loop cfg (n - length d) (at + length d) r2"
      using False d(1) m by (subst mem_loop.simps) (simp add: r2_def)
    ultimately show ?thesis using d(3) by (auto simp: r2_def mem_write_length [OF m] mem_write_take [OF m] d(4))
  qed
qed

lemma disk_loop_ok:
  assumes "steady (rd_io r)" "n \<le> length (cr_pending (rd_io r))" "n < 2 ^ 63" "0 < rc_bufsize cfg" "rc_bufsize cfg \<le> length (rd_mem r)"
    "rd_file r = Some f" "\<And>k. rc_fwrite cfg k"
  shows "\<exists>m io. disk_loop cfg n r = Some (True, r\<lparr>rd_io := io, rd_mem := m, rd_file := Some (fst f @ take n (cr_pending (rd_io r)), 0)\<rparr>) \<and>
    steady io \<and> cr_pending io = drop n (cr_pending (rd_io r))"
  using assms
proof (induction n arbitrary: r f rule: less_induct)
  case (less n)
  show ?case
  proof (cases "n = 0")
    case True
    then show ?thesis using less.prems by (subst disk_loop.simps) (auto intro!: exI [of _ "rd_io r"] exI [of _ "rd_mem r"])
  next
    case False
    define k where "k = min n (rc_bufsize cfg)"
    have nz: "cr_pending (rd_io r) \<noteq> []" "0 < k" "k < 2 ^ 64" using False less.prems(2-4) by (auto simp: k_def)
    from io_fetch_steady [OF less.prems(1) nz, where cfg = "rc_chunk cfg"] obtain d io where
      d: "io_fetch (rc_chunk cfg) k (rd_io r) = (FData d, io)" "d \<noteq> []" "length d \<le> k" "cr_pending (rd_io r) = d @ cr_pending io" "steady io" by blast
    have dn: "length d \<le> n" using d(3) by (simp add: k_def)
    obtain m where m: "mem_write (rd_mem r) 0 d = Some m" using less.prems(5) d(3) by (simp add: mem_write_def k_def)
    have nd: "n - length d < n" using d(2) False by (metis diff_less length_greater_0_conv neq0_conv)
    define r2 where "r2 = r\<lparr>rd_io := io, rd_mem := m, rd_file := Some (fst f @ d, snd f + length d)\<rparr>"
    have "\<exists>m' io'. disk_loop cfg (n - length d) r2 = Some (True, r2\<lparr>rd_io := io', rd_mem := m', rd_file := Some (fst (fst f @ d, snd f + length d) @ take (n - length d) (cr_pending (rd_io r2)), 0)\<rparr>) \<and>
      steady io' \<and> cr_pending io' = drop (n - length d) (cr_pending (rd_io r2))"
      by (rule less.IH [OF nd]) (use less.prems d dn mem_write_length [OF m] in \<open>auto simp: r2_def\<close>)
    moreover have "disk_loop cfg n r = disk_loop cfg (n - length d) r2"
      using False d(1) m less.prems(6,7) by (subst disk_loop.simps) (simp add: r2_def k_def Let_def)
    ultimately show ?thesis using dn by (auto simp: r2_def d(4))
  qed
qed

text \<open>Reads of a body in memory.\<close>

definition mem_reader :: "reader_cfg \<Rightarrow> body_reader \<Rightarrow> bool" where
  "mem_reader cfg r \<longleftrightarrow> rc_buffering cfg > 0 \<and> rd_file r = None \<and> \<not> rd_chunked r \<and> rd_line_pos r = 0 \<and>
     rd_pos r \<le> rd_cl r \<and> rd_cl r \<le> length (rd_mem r) \<and> rd_cl r < 2 ^ 63"

definition mem_left :: "body_reader \<Rightarrow> char list" where
  "mem_left r = drop (rd_pos r) (take (rd_cl r) (rd_mem r))"

fun read_call :: "body_call \<Rightarrow> bool" where
  "read_call (CallRead n) \<longleftrightarrow> n < 2 ^ 63"
| "read_call CallLine \<longleftrightarrow> False"

lemma mem_read_ok:
  assumes "mem_reader cfg r" "n < 2 ^ 63"
  shows "\<exists>y r1. upsgi_request_body_read cfg (int n) r = Some (y, r1) \<and> bytes_of y = Some (piece (CallRead n) (mem_left r)) \<and>
    mem_reader cfg r1 \<and> mem_left r1 = drop (length (piece (CallRead n) (mem_left r))) (mem_left r)"
proof (cases "rd_pos r \<ge> rd_cl r")
  case True
  with assms show ?thesis
    by (auto simp: mem_reader_def upsgi_request_body_read_def bytes_of_def mem_left_def)
next
  case False
  define k where "k = (if n = 0 then rd_cl r else n)"
  define m where "m = min k (rd_cl r - rd_pos r)"
  have n64: "nat (int n mod 2 ^ 64) = n" using assms(2) by simp
  have a: "rc_buffering cfg > 0" "rd_file r = None" "\<not> rd_chunked r" "rd_line_pos r = 0" "rd_cl r \<le> length (rd_mem r)" "rd_cl r < 2 ^ 63"
    using assms(1) by (auto simp: mem_reader_def)
  have m: "(if size_add k (rd_pos r) > rd_cl r then size_sub (rd_cl r) (rd_pos r) else k) = m"
    using a(6) False assms(2) by (auto simp: m_def k_def)
  have m0: "m \<noteq> 0" "rd_pos r + m \<le> rd_cl r" using False by (auto simp: m_def k_def)
  have "upsgi_request_body_read cfg (int n) r = Some (BGot (take m (drop (rd_pos r) (rd_mem r))), r\<lparr>rd_pos := rd_pos r + m\<rparr>)"
    unfolding upsgi_request_body_read_def Let_def n64 using a False m0
    by (simp add: read_residual_def k_def [symmetric] read_rest_def Let_def m read_mem_rest_def)
  moreover have z: "rd_cl r \<le> rd_cl r - rd_pos r \<Longrightarrow> rd_pos r = 0" using False by linarith
  have "take m (drop (rd_pos r) (rd_mem r)) = piece (CallRead n) (mem_left r)"
    using False a(5) z by (auto simp: mem_left_def k_def m_def drop_take min_def)
  moreover have "mem_left (r\<lparr>rd_pos := rd_pos r + m\<rparr>) = drop m (mem_left r)" by (simp add: mem_left_def add.commute)
  moreover have "length (take m (drop (rd_pos r) (rd_mem r))) = m" using m0 a(5) by simp
  ultimately show ?thesis using assms(1) m0 by (auto simp: bytes_of_def mem_reader_def)
qed

interpretation mr: body_stream read_call "mem_reader cfg" mem_left "body_step cfg" for cfg
proof unfold_locales
  fix r c assume a: "mem_reader cfg r" "read_call c"
  then obtain n where "c = CallRead n" "n < 2 ^ 63" by (cases c) auto
  with mem_read_ok [OF a(1), of n] show "\<exists>s1. body_step cfg c r = Some (piece c (mem_left r), s1) \<and> mem_reader cfg s1 \<and>
      mem_left s1 = drop (length (piece c (mem_left r))) (mem_left r)" by auto
qed

text \<open>A request whose body nothing has touched, on a connection that delivers all of it.\<close>

definition fresh_body :: "body_reader \<Rightarrow> bool" where
  "fresh_body r \<longleftrightarrow> \<not> rd_chunked r \<and> rd_pos r = 0 \<and> rd_file r = None \<and> rd_line r = None \<and> rd_line_pos r = 0 \<and> rd_line_mark r = 0 \<and>
     rd_cl r < 2 ^ 63 \<and> steady (rd_io r) \<and> rd_cl r \<le> length (cr_pending (rd_io r))"

abbreviation whole_body :: "body_reader \<Rightarrow> char list" where
  "whole_body r \<equiv> take (rd_cl r) (cr_pending (rd_io r))"

text \<open>C11: reads and line reads of any sizes, in any order, return the body piece by piece.\<close>

theorem body_calls_exact:
  assumes "fresh_body r" "rc_ok cfg" "rc_buffering cfg = 0" "list_all small_call cs"
  shows "\<exists>r1. body_calls (body_step cfg) cs r = Some (pieces cs (whole_body r), r1) \<and>
    whole_body r = concat (pieces cs (whole_body r)) @ left r1"
proof -
  have "reader_inv cfg r" "left r = whole_body r"
    using assms by (auto simp: fresh_body_def reader_inv_def loop_inv_def source_ok_def left_def rest_def)
  with br.calls_served [where cfg = cfg and s = r and cs = cs] assms(2,4) show ?thesis by auto
qed

text \<open>a body buffered to disk gives the same pieces to any sequence of calls.\<close>

theorem disk_body_exact:
  assumes "fresh_body r" "rc_ok cfg" "list_all small_call cs"
    "rc_tmpfile cfg" "\<And>k. rc_fwrite cfg k" "0 < rc_bufsize cfg" "rc_bufsize cfg \<le> length (rd_mem r)"
  shows "\<exists>r0 r1. upsgi_postbuffer_do_in_disk cfg r = Some (True, r0) \<and>
    body_calls (body_step cfg) cs r0 = Some (pieces cs (whole_body r), r1)"
proof -
  define r' where "r' = r\<lparr>rd_file := Some ([], 0)\<rparr>"
  have f: "steady (rd_io r')" "rd_cl r \<le> length (cr_pending (rd_io r'))" "rd_cl r < 2 ^ 63" using assms(1) by (auto simp: fresh_body_def r'_def)
  from disk_loop_ok [OF f assms(6), of "([], 0)"] assms(5,7) obtain m io where
    d: "disk_loop cfg (rd_cl r) r' = Some (True, r'\<lparr>rd_io := io, rd_mem := m, rd_file := Some (whole_body r, 0)\<rparr>)"
    by (auto simp: r'_def)
  define r0 where "r0 = r'\<lparr>rd_io := io, rd_mem := m, rd_file := Some (whole_body r, 0)\<rparr>"
  have "reader_inv cfg r0" "left r0 = whole_body r"
    using assms(1) by (auto simp: fresh_body_def reader_inv_def loop_inv_def source_ok_def left_def rest_def r0_def r'_def)
  with br.calls_served [where cfg = cfg and s = r0 and cs = cs] assms(2,3) d show ?thesis
    by (auto simp: upsgi_postbuffer_do_in_disk_def assms(4) r'_def r0_def)
qed

text \<open>a body buffered in memory gives its bytes to any sequence of reads.\<close>

theorem mem_body_exact:
  assumes "fresh_body r" "list_all read_call cs" "realloc_ok (rc_env cfg) (rd_cl r)"
    "0 < rc_buffering cfg" "rc_bufsize cfg \<le> length (rd_mem r)"
  shows "\<exists>r0 r1. upsgi_postbuffer_do_in_mem cfg r = Some (True, r0) \<and>
    body_calls (body_step cfg) cs r0 = Some (pieces cs (whole_body r), r1)"
proof -
  define r' where "r' = (if rd_cl r > rc_bufsize cfg then r\<lparr>rd_mem := fresh_block (rc_env cfg) 0 (rd_cl r)\<rparr> else r)"
  have f: "steady (rd_io r')" "rd_cl r \<le> length (cr_pending (rd_io r'))" "rd_cl r < 2 ^ 63" "0 + rd_cl r \<le> length (rd_mem r')"
    using assms(1,5) by (auto simp: fresh_body_def r'_def)
  from mem_loop_ok [OF f, of cfg] obtain m io where
    d: "mem_loop cfg (rd_cl r) 0 r' = Some (True, r'\<lparr>rd_io := io, rd_mem := m\<rparr>)" "length m = length (rd_mem r')"
    "take (rd_cl r) m = take (rd_cl r) (cr_pending (rd_io r'))" by auto
  define r0 where "r0 = r'\<lparr>rd_io := io, rd_mem := m\<rparr>"
  have fr: "rd_io r' = rd_io r" by (simp add: r'_def)
  have "mem_reader cfg r0" "mem_left r0 = whole_body r"
    using assms(1,4) f(4) d(2,3) unfolding fr by (auto simp: fresh_body_def mem_reader_def mem_left_def r0_def r'_def)
  moreover have "upsgi_postbuffer_do_in_mem cfg r = Some (True, r0)"
    using d(1) assms(3) by (simp add: upsgi_postbuffer_do_in_mem_def r'_def r0_def Let_def split: if_splits)
  ultimately show ?thesis using mr.calls_served [of cfg r0 cs] assms(2) by auto
qed

section \<open>Concrete readers\<close>

definition reader_cfg0 :: "nat \<Rightarrow> reader_cfg" where
  "reader_cfg0 buffering =
     \<lparr>rc_chunk = chunk_cfg0\<lparr>cc_env := env0\<lparr>realloc_ok := \<lambda>_. True\<rparr>\<rparr>, rc_buffer_size = 3, rc_buffering = buffering, rc_bufsize = 2,
      rc_tmpfile = True, rc_fwrite = (\<lambda>_. True)\<rparr>"

definition reader0 :: "nat \<Rightarrow> char list list \<Rightarrow> char list \<Rightarrow> body_reader" where
  "reader0 cl reads m =
     \<lparr>rd_cl = cl, rd_pos = 0, rd_chunked = False, rd_file = None, rd_mem = m, rd_line = None, rd_line_pos = 0, rd_line_mark = 0,
      rd_buf = None, rd_errors = 0, rd_io = chunk_req0 reads\<rparr>"

abbreviation body_ab :: "char list" where
  "body_ab \<equiv> ''a'' @ [CHR 0x0A] @ ''bcd''"

lemma reader0_fresh: "fresh_body (reader0 5 [''a'', [CHR 0x0A], ''bcd''] ''..'')" "whole_body (reader0 5 [''a'', [CHR 0x0A], ''bcd''] ''..'') = body_ab"
  using fresh_inv by (auto simp: fresh_body_def reader0_def steady_def chunk_req0_def pending_def)

lemma reader_cfg0_ok: "rc_ok (reader_cfg0 n)" "realloc_ok (rc_env (reader_cfg0 n)) k"
  by (simp_all add: rc_ok_def reader_cfg0_def)

lemma pieces_ab: "pieces [CallLine, CallRead 2, CallRead 0] body_ab = [''a'' @ [CHR 0x0A], ''bc'', ''d'']"
  by (simp add: first_line_def)

theorem body_calls_exact_witness:
  "\<exists>r1. body_calls (body_step (reader_cfg0 0)) [CallLine, CallRead 2, CallRead 0] (reader0 5 [''a'', [CHR 0x0A], ''bcd''] ''..'') =
     Some ([''a'' @ [CHR 0x0A], ''bc'', ''d''], r1)"
  using body_calls_exact [OF reader0_fresh(1) reader_cfg0_ok(1), of 0 "[CallLine, CallRead 2, CallRead 0]", unfolded reader0_fresh(2) pieces_ab]
  by (auto simp: reader_cfg0_def)

theorem disk_body_exact_witness:
  "\<exists>r0 r1. upsgi_postbuffer_do_in_disk (reader_cfg0 4096) (reader0 5 [''a'', [CHR 0x0A], ''bcd''] ''..'') = Some (True, r0) \<and>
     body_calls (body_step (reader_cfg0 4096)) [CallLine, CallRead 2, CallRead 0] r0 = Some ([''a'' @ [CHR 0x0A], ''bc'', ''d''], r1)"
  using disk_body_exact [OF reader0_fresh(1) reader_cfg0_ok(1), of "[CallLine, CallRead 2, CallRead 0]" 4096, unfolded reader0_fresh(2) pieces_ab]
  by (auto simp: reader_cfg0_def reader0_def)

theorem mem_body_exact_witness:
  "\<exists>r0 r1. upsgi_postbuffer_do_in_mem (reader_cfg0 4096) (reader0 5 [''a'', [CHR 0x0A], ''bcd''] ''..'') = Some (True, r0) \<and>
     body_calls (body_step (reader_cfg0 4096)) [CallRead 2, CallRead 0] r0 = Some ([''a'' @ [CHR 0x0A], ''bcd''], r1)"
  using mem_body_exact [OF reader0_fresh(1) _ reader_cfg0_ok(2), of "[CallRead 2, CallRead 0]" 4096, unfolded reader0_fresh(2)]
  by (auto simp: reader_cfg0_def reader0_def)

section \<open>Where the two read calls disturb each other\<close>

text \<open>The state after the first line of a body in memory: three bytes are in the line buffer.\<close>

definition after_line :: body_reader where
  "after_line = (reader0 5 [] body_ab)\<lparr>rd_pos := 3, rd_line := Some (''a'' @ [CHR 0x0A] @ ''b''), rd_line_pos := 2, rd_line_mark := 3\<rparr>"

lemma mem_first_line: "upsgi_request_body_readline (reader_cfg0 4096) (reader0 5 [] body_ab) = Some (BGot (''a'' @ [CHR 0x0A]), after_line)"
proof -
  define r where "r = (reader0 5 [] body_ab)\<lparr>rd_line := Some (fresh_block (rc_env (reader_cfg0 4096)) 0 3)\<rparr>"
  define r1 where "r1 = (reader0 5 [] body_ab)\<lparr>rd_pos := 3, rd_line := Some (''a'' @ [CHR 0x0A] @ ''b''), rd_line_mark := 3\<rparr>"
  have a: "line_alloc (reader_cfg0 4096) (reader0 5 [] body_ab) = Some r"
    by (simp add: line_alloc_def reader0_def reader_cfg0_def r_def)
  have c: "consume_body_for_readline (reader_cfg0 4096) r = Some (True, r1)"
    by (simp add: consume_body_for_readline_def r_def r1_def reader0_def line_room_def reader_cfg0_def line_put_def mem_write_def)
  have f: "found_line r1 = Some (''a'' @ [CHR 0x0A], after_line)"
    by (simp add: found_line_def r1_def reader0_def window_def after_line_def)
  have "readline_loop (reader_cfg0 4096) r = Some (BGot (''a'' @ [CHR 0x0A]), after_line)"
    by (subst readline_loop.simps) (simp add: c f, simp add: r_def reader0_def)
  with a show ?thesis by (simp add: upsgi_request_body_readline_def, simp add: reader0_def)
qed


text \<open>a read of everything after a line read in memory goes past the end of the block.\<close>

theorem mem_read_after_line_overruns:
  "\<exists>r1. upsgi_request_body_readline (reader_cfg0 4096) (reader0 5 [] body_ab) = Some (BGot (''a'' @ [CHR 0x0A]), r1) \<and>
     upsgi_request_body_read (reader_cfg0 4096) 0 r1 = None"
  unfolding mem_first_line
  by (simp add: upsgi_request_body_read_def after_line_def reader0_def reader_cfg0_def read_residual_def buf_room_def buf_put_def
      read_rest_def read_mem_rest_def window_def mem_write_def first_line_def size_add_def)

text \<open>seeking to the start keeps the bytes of the line buffer: the next line is \<open>ba\n\<close>, the first line of the body
  with a byte of the second in front.\<close>

theorem seek_keeps_line_bytes:
  "\<exists>r1 r2 r3. upsgi_request_body_readline (reader_cfg0 4096) (reader0 5 [] body_ab) = Some (BGot (''a'' @ [CHR 0x0A]), r1) \<and>
     upsgi_request_body_seek_do (reader_cfg0 4096) 0 SEEK_SET r1 = (True, r2) \<and>
     upsgi_request_body_readline (reader_cfg0 4096) r2 = Some (BGot (''ba'' @ [CHR 0x0A]), r3)"
proof -
  define r2 where "r2 = after_line\<lparr>rd_pos := 0\<rparr>"
  define r3 where "r3 = after_line\<lparr>rd_pos := 5, rd_line := Some (''ba'' @ [CHR 0x0A] @ ''bcd''), rd_line_pos := 0, rd_line_mark := 6\<rparr>"
  have s: "upsgi_request_body_seek_do (reader_cfg0 4096) 0 SEEK_SET after_line = (True, r2)"
    by (simp add: upsgi_request_body_seek_do_def r2_def after_line_def reader0_def reader_cfg0_def)
  have c: "consume_body_for_readline (reader_cfg0 4096) r2 = Some (True, r3)"
    by (simp add: consume_body_for_readline_def r2_def r3_def after_line_def reader0_def line_room_def reader_cfg0_def line_put_def mem_write_def)
  have f: "found_line r3 = Some (''ba'' @ [CHR 0x0A], r3\<lparr>rd_line_pos := 3\<rparr>)" "found_line r2 = None"
    by (simp_all add: found_line_def r2_def r3_def reader0_def window_def after_line_def)
  have "readline_loop (reader_cfg0 4096) r2 = Some (BGot (''ba'' @ [CHR 0x0A]), r3\<lparr>rd_line_pos := 3\<rparr>)"
    by (subst readline_loop.simps) (simp add: c f, simp add: r2_def after_line_def reader0_def)
  then have "upsgi_request_body_readline (reader_cfg0 4096) r2 = Some (BGot (''ba'' @ [CHR 0x0A]), r3\<lparr>rd_line_pos := 3\<rparr>)"
    by (simp add: upsgi_request_body_readline_def f line_alloc_def, simp add: r2_def after_line_def reader0_def)
  with s show ?thesis using mem_first_line by blast
qed

end
