(* ===== verification/Upsgi_Cron.thy ===== *)
theory Upsgi_Cron
  imports Upsgi_CacheNet Upsgi_Http
begin

text \<open>
  Cron jobs: \<open>core/cron.c\<close>, with \<open>upsgi_cron_task_needs_execution\<close> of \<open>core/master_utils.c\<close> and the checks of jobs in
  \<open>core/master_checks.c\<close>.  The list of command jobs and the table of signals are lists of \<open>upsgi_cron\<close>.  The clock, the result of
  \<open>localtime\<close> and the process ids of new commands are arguments.  A task is compared with the crontab rule; signals are spaced by a
  minute; and \<open>cron_step\<close> is the history of walks and deaths in which a unique job has at most one process.
\<close>

section \<open>Jobs\<close>

text \<open>The broken-down time that the tasks are compared with; the month counts from 1 (\<open>tm_mon++\<close>).\<close>

record cron_tm =
  ct_min :: int
  ct_hour :: int
  ct_mday :: int
  ct_mon :: int
  ct_wday :: int

text \<open>\<open>func\<close> is a hook that the code never sets for the jobs of the options; a job without command does nothing.\<close>

record upsgi_cron =
  cj_minute :: int
  cj_hour :: int
  cj_day :: int
  cj_month :: int
  cj_week :: int
  cj_last_job :: int
  cj_sig :: nat
  cj_command :: "char list option"
  cj_started_at :: int
  cj_harakiri :: int
  cj_mercy :: int
  cj_unique :: nat
  cj_pid :: int

definition cron_zero :: upsgi_cron where
  "cron_zero = \<lparr>cj_minute = 0, cj_hour = 0, cj_day = 0, cj_month = 0, cj_week = 0, cj_last_job = 0, cj_sig = 0, cj_command = None,
     cj_started_at = 0, cj_harakiri = 0, cj_mercy = 0, cj_unique = 0, cj_pid = 0\<rparr>"

section \<open>Options\<close>

text \<open>\<open>%d\<close> of \<open>sscanf\<close>, after the white space that the conversion skips; \<open>None\<close>: no number, or one outside of \<open>int\<close>.\<close>

definition scan_int :: "char list \<Rightarrow> (int \<times> char list) option" where
  "scan_int s =
     (let t = dropWhile isspace s; signed = (t \<noteq> [] \<and> (hd t = CHR ''-'' \<or> hd t = CHR ''+''));
          d = (if signed then tl t else t); ds = takeWhile is_digit d;
          v = (if signed \<and> hd t = CHR ''-'' then - int (dec_val 0 ds) else int (dec_val 0 ds)) in
      if ds = [] \<or> v < - (2 ^ 31) \<or> v \<ge> 2 ^ 31 then None else Some (v, dropWhile is_digit d))"

text \<open>The new job goes to the end of the list.  \<open>None\<close>: the process ends with an error.\<close>

definition upsgi_cron_add :: "char list \<Rightarrow> upsgi_cron list \<Rightarrow> upsgi_cron list option" where
  "upsgi_cron_add crontab crons =
     (case scan_int crontab of None \<Rightarrow> None | Some (mi, s1) \<Rightarrow>
     (case scan_int s1 of None \<Rightarrow> None | Some (ho, s2) \<Rightarrow>
     (case scan_int s2 of None \<Rightarrow> None | Some (da, s3) \<Rightarrow>
     (case scan_int s3 of None \<Rightarrow> None | Some (mo, s4) \<Rightarrow>
     (case scan_int s4 of None \<Rightarrow> None | Some (we, s5) \<Rightarrow>
        Some (crons @ [cron_zero\<lparr>cj_minute := mi, cj_hour := ho, cj_day := da, cj_month := mo, cj_week := we,
                                 cj_command := Some (dropWhile isspace s5), cj_pid := -1\<rparr>]))))))"

definition upsgi_opt_add_cron :: "char list \<Rightarrow> upsgi_cron list \<Rightarrow> upsgi_cron list option" where
  "upsgi_opt_add_cron = upsgi_cron_add"

definition upsgi_opt_add_unique_cron :: "char list \<Rightarrow> upsgi_cron list \<Rightarrow> upsgi_cron list option" where
  "upsgi_opt_add_unique_cron v crons =
     map_option (\<lambda>cs. butlast cs @ [(last cs)\<lparr>cj_unique := 1\<rparr>]) (upsgi_cron_add v crons)"

text \<open>\<open>atoi\<close> on a string.\<close>

definition atoi_str :: "char list \<Rightarrow> int option" where
  "atoi_str s = atoi (s @ [CHR 0x00])"

definition kv_int :: "char list \<Rightarrow> (char list \<times> char list) list \<Rightarrow> int \<Rightarrow> int option" where
  "kv_int name kvs dflt = (case kv_get [name] kvs of None \<Rightarrow> Some dflt | Some v \<Rightarrow> atoi_str v)"

text \<open>The list of keys is the part before the first space when that holds an equal sign; the command follows.  Without such
  a list the whole value is the command, and it is searched for keys all the same.\<close>

definition cron2_split :: "char list \<Rightarrow> (char list \<times> char list) option" where
  "cron2_split v =
     (if CHR '' '' \<in> set v then
        (let a = takeWhile (\<lambda>c. c \<noteq> CHR '' '') v in
         if CHR ''='' \<in> set a then Some (a, drop (length a + 1) v) else Some (v, v))
      else if CHR ''='' \<in> set v then None else Some ([], v))"

definition upsgi_opt_add_cron2 :: "int \<Rightarrow> char list \<Rightarrow> upsgi_cron list \<Rightarrow> upsgi_cron list option" where
  "upsgi_opt_add_cron2 cron_harakiri v crons =
     (case cron2_split v of
        None \<Rightarrow> None
      | Some (keys, command) \<Rightarrow>
          (let kvs = upsgi_kvlist_parse keys (CHR '','') (CHR ''='') in
           case (kv_int ''minute'' kvs (-1), kv_int ''hour'' kvs (-1), kv_int ''day'' kvs (-1), kv_int ''month'' kvs (-1),
                 kv_int ''week'' kvs (-1), kv_int ''unique'' kvs 0, kv_int ''harakiri'' kvs 0) of
             (Some mi, Some ho, Some da, Some mo, Some we, Some un, Some ha) \<Rightarrow>
               Some (crons @ [cron_zero\<lparr>cj_minute := mi, cj_hour := ho, cj_day := da, cj_month := mo, cj_week := we,
                   cj_command := Some command, cj_pid := -1, cj_unique := nat (un mod 256),
                   cj_mercy := (if kv_get [''harakiri''] kvs = None then 0 else if ha = 0 then -1 else ha),
                   cj_harakiri := (if kv_get [''harakiri''] kvs = None then cron_harakiri else 0)\<rparr>])
           | _ \<Rightarrow> None))"

text \<open>The table of the signals, of at most 64 entries.\<close>

abbreviation MAX_CRONS :: nat where "MAX_CRONS \<equiv> 64"

definition upsgi_signal_add_cron :: "bool \<Rightarrow> nat \<Rightarrow> int \<Rightarrow> int \<Rightarrow> int \<Rightarrow> int \<Rightarrow> int \<Rightarrow> upsgi_cron list \<Rightarrow> bool \<times> upsgi_cron list" where
  "upsgi_signal_add_cron master sig minute hour day month week tab =
     (if \<not> master then (False, tab)
      else if length tab < MAX_CRONS then
        (True, tab @ [cron_zero\<lparr>cj_sig := sig, cj_minute := minute, cj_hour := hour, cj_day := day, cj_month := month, cj_week := week\<rparr>])
      else (False, tab))"

section \<open>When a task runs\<close>

definition cron_field :: "int \<Rightarrow> int \<Rightarrow> int" where
  "cron_field v t = (if v < 0 \<and> t mod \<bar>v\<bar> = 0 then t else v)"

definition upsgi_cron_task_needs_execution :: "cron_tm \<Rightarrow> int \<Rightarrow> int \<Rightarrow> int \<Rightarrow> int \<Rightarrow> int \<Rightarrow> bool" where
  "upsgi_cron_task_needs_execution t minute hour day month week =
     (let uc_week = (if week = 7 then 0 else week);
          uc_minute = cron_field minute (ct_min t); uc_hour = cron_field hour (ct_hour t); uc_month = cron_field month (ct_mon t);
          uc_day = cron_field day (ct_mday t);
          uc_week = (if week < 0 \<and> ct_wday t mod \<bar>week\<bar> = 0 then ct_wday t else uc_week) in
      if day \<ge> 0 \<and> week \<ge> 0
      then ct_min t = uc_minute \<and> ct_hour t = uc_hour \<and> ct_mon t = uc_month \<and> (ct_mday t = uc_day \<or> ct_wday t = uc_week)
      else ct_min t = uc_minute \<and> ct_hour t = uc_hour \<and> ct_mon t = uc_month \<and> ct_mday t = uc_day \<and> ct_wday t = uc_week)"

abbreviation cron_due :: "cron_tm \<Rightarrow> upsgi_cron \<Rightarrow> bool" where
  "cron_due t c \<equiv> upsgi_cron_task_needs_execution t (cj_minute c) (cj_hour c) (cj_day c) (cj_month c) (cj_week c)"

text \<open>The signals that are routed at \<open>now\<close>, in order, and the table with the times.\<close>

definition signal_fires :: "int \<Rightarrow> cron_tm \<Rightarrow> upsgi_cron \<Rightarrow> bool" where
  "signal_fires now t c \<longleftrightarrow> cron_due t c \<and> now - cj_last_job c \<ge> 60"

definition upsgi_manage_signal_cron :: "int \<Rightarrow> cron_tm option \<Rightarrow> upsgi_cron list \<Rightarrow> nat list \<times> upsgi_cron list" where
  "upsgi_manage_signal_cron now lt tab =
     (case lt of
        None \<Rightarrow> ([], tab)
      | Some t \<Rightarrow> (map cj_sig (filter (signal_fires now t) tab),
                   map (\<lambda>c. if signal_fires now t c then c\<lparr>cj_last_job := now\<rparr> else c) tab))"

text \<open>The start of a command: \<open>fork\<close> is the process id that \<open>upsgi_run_command\<close> returns, negative when it fails.\<close>

definition command_fires :: "int \<Rightarrow> cron_tm \<Rightarrow> upsgi_cron \<Rightarrow> bool" where
  "command_fires now t c \<longleftrightarrow> \<not> (cj_unique c > 0 \<and> cj_pid c \<ge> 0) \<and> cron_due t c \<and> now - cj_last_job c \<ge> 60"

definition start_command :: "int \<Rightarrow> int \<Rightarrow> int \<Rightarrow> upsgi_cron \<Rightarrow> upsgi_cron" where
  "start_command cron_harakiri now fork c =
     (let c1 = (if cj_command c \<noteq> None \<and> fork \<ge> 0 then
                  (let c0 = c\<lparr>cj_pid := fork, cj_started_at := now\<rparr> in
                   if cj_mercy c0 \<noteq> 0 then (if cj_mercy c0 > 0 then c0\<lparr>cj_harakiri := now + cj_mercy c0\<rparr> else c0)
                   else if cron_harakiri \<noteq> 0 then c0\<lparr>cj_harakiri := now + cron_harakiri\<rparr> else c0)
                else c) in
      c1\<lparr>cj_last_job := now\<rparr>)"

text \<open>The walk through the list; \<open>fork i\<close> is what \<open>upsgi_run_command\<close> answers for job \<open>i\<close>.\<close>

definition upsgi_manage_command_cron :: "int \<Rightarrow> int \<Rightarrow> cron_tm option \<Rightarrow> (nat \<Rightarrow> int) \<Rightarrow> upsgi_cron list \<Rightarrow> upsgi_cron list" where
  "upsgi_manage_command_cron cron_harakiri now lt fork crons =
     (case lt of
        None \<Rightarrow> crons
      | Some t \<Rightarrow> map (\<lambda>(i, c). if command_fires now t c then start_command cron_harakiri now (fork i) c else c) (enumerate 0 crons))"

section \<open>The death of a command\<close>

fun upsgi_master_check_cron_death :: "int \<Rightarrow> upsgi_cron list \<Rightarrow> bool \<times> upsgi_cron list" where
  "upsgi_master_check_cron_death diedpid [] = (False, [])"
| "upsgi_master_check_cron_death diedpid (c # cs) =
     (if cj_pid c = diedpid then (True, c\<lparr>cj_pid := -1, cj_started_at := 0\<rparr> # cs)
      else (case upsgi_master_check_cron_death diedpid cs of (b, cs') \<Rightarrow> (b, c # cs')))"

text \<open>The process groups that are killed at \<open>current_time\<close>.\<close>

definition upsgi_master_check_crons_deadline :: "int \<Rightarrow> upsgi_cron list \<Rightarrow> int list" where
  "upsgi_master_check_crons_deadline current_time crons =
     map cj_pid (filter (\<lambda>c. cj_pid c \<ge> 0 \<and> cj_harakiri c > 0 \<and> cj_harakiri c < current_time) crons)"

section \<open>The crontab rule\<close>

text \<open>A field is a number, or an interval as a negative number.\<close>

definition field_matches :: "int \<Rightarrow> int \<Rightarrow> bool" where
  "field_matches v t \<longleftrightarrow> (if v < 0 then \<bar>v\<bar> dvd t else t = v)"

definition cron_matches :: "cron_tm \<Rightarrow> int \<Rightarrow> int \<Rightarrow> int \<Rightarrow> int \<Rightarrow> int \<Rightarrow> bool" where
  "cron_matches t minute hour day month week \<longleftrightarrow>
     (let d = field_matches day (ct_mday t); w = field_matches (if week = 7 then 0 else week) (ct_wday t) in
      field_matches minute (ct_min t) \<and> field_matches hour (ct_hour t) \<and> field_matches month (ct_mon t) \<and>
      (if day \<ge> 0 \<and> week \<ge> 0 then d \<or> w else d \<and> w))"

definition tm_ok :: "cron_tm \<Rightarrow> bool" where
  "tm_ok t \<longleftrightarrow> 0 \<le> ct_min t \<and> 0 \<le> ct_hour t \<and> 0 \<le> ct_mday t \<and> 0 \<le> ct_mon t \<and> 0 \<le> ct_wday t"

lemma cron_field_matches: "0 \<le> t \<Longrightarrow> (t = cron_field v t) = field_matches v t"
  by (auto simp: cron_field_def field_matches_def dvd_eq_mod_eq_0)

text \<open>a task is due exactly when its fields match by the rule of crontab.\<close>

theorem cron_needs_execution_rule:
  assumes "tm_ok t"
  shows "upsgi_cron_task_needs_execution t minute hour day month week = cron_matches t minute hour day month week"
proof -
  have w: "(ct_wday t = (if week < 0 \<and> ct_wday t mod \<bar>week\<bar> = 0 then ct_wday t else if week = 7 then 0 else week)) =
      field_matches (if week = 7 then 0 else week) (ct_wday t)"
    using assms by (auto simp: field_matches_def tm_ok_def dvd_eq_mod_eq_0)
  have f: "0 \<le> ct_min t" "0 \<le> ct_hour t" "0 \<le> ct_mday t" "0 \<le> ct_mon t" using assms by (auto simp: tm_ok_def)
  note m = cron_field_matches [OF f(1), of minute] cron_field_matches [OF f(2), of hour]
    cron_field_matches [OF f(3), of day] cron_field_matches [OF f(4), of month]
  show ?thesis unfolding upsgi_cron_task_needs_execution_def cron_matches_def Let_def m w by simp
qed

definition monday_noon :: cron_tm where
  "monday_noon = \<lparr>ct_min = 0, ct_hour = 12, ct_mday = 15, ct_mon = 6, ct_wday = 1\<rparr>"

theorem cron_needs_execution_rule_witness:
  "upsgi_cron_task_needs_execution monday_noon (-5) 12 1 (-1) 1 = cron_matches monday_noon (-5) 12 1 (-1) 1"
  using cron_needs_execution_rule [of monday_noon] by (simp add: tm_ok_def monday_noon_def)

text \<open>an interval of five months is not \<open>*/5\<close> of crontab, which means the months 1, 6 and 11: it matches the months 5 and 10.\<close>

theorem cron_month_interval_shifted:
  "filter (\<lambda>m. upsgi_cron_task_needs_execution (monday_noon\<lparr>ct_mon := m\<rparr>) (-1) (-1) (-1) (-5) (-1)) [1 .. 12] = [5, 10]"
  by code_simp

section \<open>Spacing\<close>

text \<open>The times at which entry \<open>i\<close> of the table fires during a sequence of checks.\<close>

fun run_times :: "nat \<Rightarrow> (int \<times> cron_tm option) list \<Rightarrow> upsgi_cron list \<Rightarrow> int list" where
  "run_times i [] tab = []"
| "run_times i ((now, lt) # cs) tab =
     (if (case lt of None \<Rightarrow> False | Some t \<Rightarrow> signal_fires now t (tab ! i)) then [now] else []) @
     run_times i cs (snd (upsgi_manage_signal_cron now lt tab))"

text \<open>The times that are at least a minute behind the one taken before.\<close>

fun greedy :: "int \<Rightarrow> int list \<Rightarrow> int list" where
  "greedy l [] = []"
| "greedy l (t # ts) = (if t - l \<ge> 60 then t # greedy t ts else greedy l ts)"

definition due_times :: "upsgi_cron \<Rightarrow> (int \<times> cron_tm option) list \<Rightarrow> int list" where
  "due_times c checks = map fst (filter (\<lambda>(now, lt). case lt of None \<Rightarrow> False | Some t \<Rightarrow> cron_due t c) checks)"

lemma greedy_spaced: "sorted_wrt (\<lambda>a b. b - a \<ge> 60) (l # greedy l ts)"
proof (induction ts arbitrary: l)
  case (Cons t ts)
  have mono: "a + 60 \<le> x" if "x \<in> set (greedy t ts)" "60 \<le> t - a" for x a
    using Cons.IH [of t] that by auto
  show ?case
  proof (cases "60 \<le> t - l")
    case True
    then show ?thesis using Cons.IH [of t] mono [OF _ True] by auto
  next
    case False
    then show ?thesis using Cons.IH [of l] by simp
  qed
qed simp

lemma due_times_last [simp]: "due_times (c\<lparr>cj_last_job := n\<rparr>) checks = due_times c checks"
  by (simp add: due_times_def cong: option.case_cong)

lemma signal_entry:
  assumes "i < length tab"
  shows "snd (upsgi_manage_signal_cron now lt tab) ! i =
    (case lt of None \<Rightarrow> tab ! i | Some t \<Rightarrow> if signal_fires now t (tab ! i) then (tab ! i)\<lparr>cj_last_job := now\<rparr> else tab ! i)"
    "length (snd (upsgi_manage_signal_cron now lt tab)) = length tab"
  using assms by (auto simp: upsgi_manage_signal_cron_def split: option.splits)

lemma run_times_greedy:
  "i < length tab \<Longrightarrow> run_times i checks tab = greedy (cj_last_job (tab ! i)) (due_times (tab ! i) checks)"
proof (induction checks arbitrary: tab)
  case (Cons x checks)
  obtain now lt where x: "x = (now, lt)" by force
  note e = signal_entry [OF Cons.prems, of now lt]
  have ih: "run_times i checks (snd (upsgi_manage_signal_cron now lt tab)) =
      greedy (cj_last_job (snd (upsgi_manage_signal_cron now lt tab) ! i)) (due_times (snd (upsgi_manage_signal_cron now lt tab) ! i) checks)"
    by (rule Cons.IH) (simp add: e Cons.prems)
  from ih [unfolded e(1)] show ?case
    by (cases lt) (auto simp: x signal_fires_def due_times_def [of _ "_ # _"] due_times_def [symmetric])
qed (simp add: due_times_def)

text \<open>whatever the sequence of checks, a signal of the table fires at a due check exactly when at least 60 seconds have passed
  since it fired last, so that two firings are never closer.\<close>

theorem signal_cron_spacing:
  assumes "i < length tab"
  shows "run_times i checks tab = greedy (cj_last_job (tab ! i)) (due_times (tab ! i) checks) \<and>
    sorted_wrt (\<lambda>a b. b - a \<ge> 60) (cj_last_job (tab ! i) # run_times i checks tab)"
  using run_times_greedy [OF assms] greedy_spaced by metis

text \<open>A clock whose minutes are the multiples of 60 seconds.\<close>

definition clock_tm :: "int \<Rightarrow> cron_tm" where
  "clock_tm now = monday_noon\<lparr>ct_min := now div 60 mod 60, ct_hour := now div 3600 mod 24\<rparr>"

definition every_minute :: upsgi_cron where
  "every_minute = cron_zero\<lparr>cj_minute := -1, cj_hour := -1, cj_day := -1, cj_month := -1, cj_week := -1, cj_last_job := -100\<rparr>"

theorem signal_cron_spacing_witness:
  "run_times 0 [(0, Some (clock_tm 0)), (30, None), (59, Some (clock_tm 59)), (60, Some (clock_tm 60))] [every_minute] = [0, 60]"
  using signal_cron_spacing [of 0 "[every_minute]" "[(0, Some (clock_tm 0)), (30, None), (59, Some (clock_tm 59)), (60, Some (clock_tm 60))]"]
  by (simp add: due_times_def every_minute_def cron_zero_def clock_tm_def monday_noon_def upsgi_cron_task_needs_execution_def cron_field_def)

text \<open>the distance of 60 seconds can cost a run: an entry for every minute that is checked in the last second of minute 0, once
  in minute 1 and in the first second of minute 2 does not run in minute 1.\<close>

theorem signal_cron_misses_minute:
  "run_times 0 (map (\<lambda>n. (n, Some (clock_tm n))) [59, 118, 120]) [every_minute] = [59, 120] \<and>
   map (\<lambda>n. n div 60) [59, 118, 120 :: int] = [0, 1, 2]"
  by (simp add: upsgi_manage_signal_cron_def signal_fires_def every_minute_def cron_zero_def clock_tm_def monday_noon_def
      upsgi_cron_task_needs_execution_def cron_field_def)

section \<open>Reading the option\<close>

definition cron_line :: "int \<Rightarrow> int \<Rightarrow> int \<Rightarrow> int \<Rightarrow> int \<Rightarrow> char list \<Rightarrow> char list" where
  "cron_line mi ho da mo we cmd =
     int_dec mi @ '' '' @ int_dec ho @ '' '' @ int_dec da @ '' '' @ int_dec mo @ '' '' @ int_dec we @ '' '' @ cmd"

lemma takeWhile_digits: "takeWhile is_digit (nat_dec n @ '' '' @ s) = nat_dec n" "dropWhile is_digit (nat_dec n @ '' '' @ s) = '' '' @ s"
  using nat_dec_digits [of n] by (auto simp: takeWhile_append dropWhile_append is_digit_def)

lemma nat_dec_hd: "isspace (hd (nat_dec n)) = False" "hd (nat_dec n) \<noteq> CHR ''-''" "hd (nat_dec n) \<noteq> CHR ''+''"
proof -
  have "is_digit (hd (nat_dec n))" using nat_dec_digits hd_in_set [OF nat_dec_nonempty] by blast
  then show "isspace (hd (nat_dec n)) = False" "hd (nat_dec n) \<noteq> CHR ''-''" "hd (nat_dec n) \<noteq> CHR ''+''"
    by (auto simp: is_digit_def isspace_def)
qed

lemma dropWhile_hd: "xs \<noteq> [] \<Longrightarrow> \<not> P (hd xs) \<Longrightarrow> dropWhile P (xs @ ys) = xs @ ys"
  by (cases xs) auto

lemma scan_int_dec:
  assumes "- (2 ^ 31) \<le> n" "n < 2 ^ 31"
  shows "scan_int (int_dec n @ '' '' @ s) = Some (n, '' '' @ s)" "scan_int ('' '' @ int_dec n @ '' '' @ s) = Some (n, '' '' @ s)"
proof -
  have h: "int_dec n \<noteq> []" "isspace (hd (int_dec n)) = False" using nat_dec_hd by (auto simp: int_dec_def isspace_def)
  have d: "dropWhile isspace (int_dec n @ '' '' @ s) = int_dec n @ '' '' @ s" using h by (simp add: dropWhile_hd)
  then have d2: "dropWhile isspace ('' '' @ int_dec n @ '' '' @ s) = int_dec n @ '' '' @ s" by (simp add: isspace_def)
  have "scan_int t = Some (n, '' '' @ s)" if "dropWhile isspace t = int_dec n @ '' '' @ s" for t
    using assms nat_dec_hd [of "nat n"] nat_dec_hd [of "nat (- n)"] takeWhile_digits [of "nat n" s] takeWhile_digits [of "nat (- n)" s]
    by (cases "n < 0") (auto simp: scan_int_def that int_dec_def Let_def dec_val_nat_dec)
  with d d2 show "scan_int (int_dec n @ '' '' @ s) = Some (n, '' '' @ s)" "scan_int ('' '' @ int_dec n @ '' '' @ s) = Some (n, '' '' @ s)" by blast+
qed

text \<open>an option of five numbers and a command, printed with one space between them, gives the job with these numbers and this
  command, behind the jobs before it.\<close>

theorem cron_add_roundtrip:
  assumes "\<forall>n \<in> {mi, ho, da, mo, we}. - (2 ^ 31) \<le> n \<and> n < 2 ^ 31"
  shows "upsgi_cron_add (cron_line mi ho da mo we cmd) crons =
    Some (crons @ [cron_zero\<lparr>cj_minute := mi, cj_hour := ho, cj_day := da, cj_month := mo, cj_week := we,
                             cj_command := Some (dropWhile isspace cmd), cj_pid := -1\<rparr>])"
proof -
  note s = scan_int_dec [simplified]
  show ?thesis using assms by (simp add: upsgi_cron_add_def cron_line_def s isspace_def)
qed

theorem cron_add_roundtrip_witness:
  "\<exists>c. upsgi_cron_add (cron_line (-5) 3 (-1) (-1) 7 ''sweep'') [] = Some [c] \<and> cj_minute c = -5 \<and> cj_hour c = 3 \<and>
     cj_week c = 7 \<and> cj_command c = Some ''sweep''"
  using cron_add_roundtrip [of "-5" 3 "-1" "-1" 7 "''sweep''" "[]"] by (simp add: isspace_def)

text \<open>a command without keys is searched for keys: \<open>echo a,hour=3\<close> runs at three, not at every hour.\<close>

theorem cron2_reads_command:
  "\<exists>c. upsgi_opt_add_cron2 0 ''echo a,hour=3'' [] = Some [c] \<and> cj_hour c = 3 \<and> cj_command c = Some ''echo a,hour=3''"
  by (simp add: upsgi_opt_add_cron2_def cron2_split_def upsgi_kvlist_parse_def kv_int_def kv_get_def atoi_str_def atoi_def
      is_space_def is_digit_def map_filter_simps)

section \<open>Processes of the jobs\<close>

text \<open>The processes that one walk starts: the job and the process id.\<close>

definition cron_starts :: "int \<Rightarrow> cron_tm option \<Rightarrow> (nat \<Rightarrow> int) \<Rightarrow> upsgi_cron list \<Rightarrow> (nat \<times> int) set" where
  "cron_starts now lt fork crons =
     (case lt of None \<Rightarrow> {} | Some t \<Rightarrow>
        {(i, fork i) | i. i < length crons \<and> command_fires now t (crons ! i) \<and> cj_command (crons ! i) \<noteq> None \<and> fork i \<ge> 0})"

text \<open>
  The jobs and the processes that run: the master walks through the list, where the kernel gives every new process an id that
  no running process has, or a process ends and the master is told.
\<close>

inductive cron_step :: "int \<Rightarrow> upsgi_cron list \<times> (nat \<times> int) set \<Rightarrow> upsgi_cron list \<times> (nat \<times> int) set \<Rightarrow> bool" for h where
  walk: "inj fork \<Longrightarrow> range fork \<inter> snd ` alive = {} \<Longrightarrow>
     cron_step h (crons, alive) (upsgi_manage_command_cron h now lt fork crons, alive \<union> cron_starts now lt fork crons)"
| death: "(i, p) \<in> alive \<Longrightarrow> cron_step h (crons, alive) (snd (upsgi_master_check_cron_death p crons), alive - {(i, p)})"

text \<open>The jobs in a list know their processes: the last one a job has started, and for a unique job every one.\<close>

definition cron_inv :: "upsgi_cron list \<times> (nat \<times> int) set \<Rightarrow> bool" where
  "cron_inv s \<longleftrightarrow> (case s of (crons, alive) \<Rightarrow>
     (\<forall>i p. (i, p) \<in> alive \<longrightarrow> i < length crons \<and> p \<ge> 0 \<and> (cj_unique (crons ! i) > 0 \<longrightarrow> cj_pid (crons ! i) = p)) \<and>
     (\<forall>i < length crons. cj_pid (crons ! i) \<ge> 0 \<longrightarrow> (i, cj_pid (crons ! i)) \<in> alive) \<and> inj_on snd alive)"

lemma start_command_fields [simp]:
  "cj_unique (start_command h now p c) = cj_unique c"
  "cj_pid (start_command h now p c) = (if cj_command c \<noteq> None \<and> p \<ge> 0 then p else cj_pid c)"
  by (simp_all add: start_command_def Let_def)

lemma manage_entry:
  "length (upsgi_manage_command_cron h now lt fork crons) = length crons"
  "i < length crons \<Longrightarrow> upsgi_manage_command_cron h now lt fork crons ! i =
     (case lt of None \<Rightarrow> crons ! i | Some t \<Rightarrow> if command_fires now t (crons ! i) then start_command h now (fork i) (crons ! i) else crons ! i)"
  by (auto simp: upsgi_manage_command_cron_def nth_enumerate_eq split: option.splits)

lemma cron_death_at:
  "i < length crons \<Longrightarrow> cj_pid (crons ! i) = p \<Longrightarrow> (\<forall>j < i. cj_pid (crons ! j) \<noteq> p) \<Longrightarrow>
   upsgi_master_check_cron_death p crons = (True, crons[i := (crons ! i)\<lparr>cj_pid := -1, cj_started_at := 0\<rparr>])"
proof (induction crons arbitrary: i)
  case (Cons c cs)
  show ?case
  proof (cases i)
    case (Suc k)
    have "\<forall>j < k. cj_pid (cs ! j) \<noteq> p" using Cons.prems(3) Suc by fastforce
    with Cons.IH [of k] Cons.prems Suc show ?thesis by fastforce
  qed (use Cons.prems in simp)
qed simp

lemma cron_death_none: "\<forall>i < length crons. cj_pid (crons ! i) \<noteq> p \<Longrightarrow> upsgi_master_check_cron_death p crons = (False, crons)"
  by (induction crons) (fastforce simp: All_less_Suc2)+

lemma cron_walk_inv:
  assumes inv: "cron_inv (crons, alive)" and f: "inj fork" "range fork \<inter> snd ` alive = {}"
  shows "cron_inv (upsgi_manage_command_cron h now lt fork crons, alive \<union> cron_starts now lt fork crons)"
proof (cases lt)
  case None
  with inv show ?thesis by (simp add: upsgi_manage_command_cron_def cron_starts_def)
next
  case (Some t)
  define cs where "cs = upsgi_manage_command_cron h now lt fork crons"
  define S where "S = cron_starts now lt fork crons"
  have S: "(i, p) \<in> S \<longleftrightarrow> p = fork i \<and> i < length crons \<and> command_fires now t (crons ! i) \<and> cj_command (crons ! i) \<noteq> None \<and> fork i \<ge> 0" for i p
    by (auto simp: S_def cron_starts_def Some)
  have cs: "length cs = length crons" "i < length crons \<Longrightarrow> cs ! i = (if command_fires now t (crons ! i) then start_command h now (fork i) (crons ! i) else crons ! i)" for i
    using manage_entry [where h = h and now = now and lt = lt and fork = fork and crons = crons] by (auto simp: cs_def Some)
  have a: "(i, p) \<in> alive \<Longrightarrow> i < length crons \<and> p \<ge> 0 \<and> (cj_unique (crons ! i) > 0 \<longrightarrow> cj_pid (crons ! i) = p)" for i p
    using inv by (auto simp: cron_inv_def)
  have b: "i < length crons \<Longrightarrow> cj_pid (crons ! i) \<ge> 0 \<Longrightarrow> (i, cj_pid (crons ! i)) \<in> alive" for i
    using inv by (auto simp: cron_inv_def)
  have "inj_on snd alive" using inv by (simp add: cron_inv_def)
  then have c: "(i, p) \<in> alive \<Longrightarrow> (j, p) \<in> alive \<Longrightarrow> j = i" for i j p by (auto dest: inj_onD [of snd alive "(i, p)" "(j, p)"])
  have "i < length cs \<and> p \<ge> 0 \<and> (cj_unique (cs ! i) > 0 \<longrightarrow> cj_pid (cs ! i) = p)" if "(i, p) \<in> alive \<union> S" for i p
    using that a [of i p] by (auto simp: S cs command_fires_def)
  moreover have "(i, cj_pid (cs ! i)) \<in> alive \<union> S" if "i < length cs" "cj_pid (cs ! i) \<ge> 0" for i
    using that b [of i] by (auto simp: S cs split: if_splits)
  moreover have "inj_on snd (alive \<union> S)"
  proof (rule inj_onI)
    fix x y assume xy: "x \<in> alive \<union> S" "y \<in> alive \<union> S" "snd x = snd y"
    obtain i p j where e: "x = (i, p)" "y = (j, p)" using xy(3) by (metis prod.collapse)
    have "p \<notin> range fork" if "(k, p) \<in> alive" for k using f(2) that by force
    then show "x = y" using xy e c [of i p j] f(1) by (auto simp: S dest: injD)
  qed
  ultimately show ?thesis unfolding cs_def [symmetric] S_def [symmetric] by (simp add: cron_inv_def)
qed

lemma cron_death_inv:
  assumes inv: "cron_inv (crons, alive)" and ip: "(i, p) \<in> alive"
  shows "cron_inv (snd (upsgi_master_check_cron_death p crons), alive - {(i, p)})"
proof -
  have a: "(i, p) \<in> alive \<Longrightarrow> i < length crons \<and> p \<ge> 0 \<and> (cj_unique (crons ! i) > 0 \<longrightarrow> cj_pid (crons ! i) = p)" for i p
    using inv by (auto simp: cron_inv_def)
  have b: "i < length crons \<Longrightarrow> cj_pid (crons ! i) \<ge> 0 \<Longrightarrow> (i, cj_pid (crons ! i)) \<in> alive" for i
    using inv by (auto simp: cron_inv_def)
  have "inj_on snd alive" using inv by (simp add: cron_inv_def)
  then have c: "(i, p) \<in> alive \<Longrightarrow> (j, p) \<in> alive \<Longrightarrow> j = i" for i j p by (auto dest: inj_onD [of snd alive "(i, p)" "(j, p)"])
  have same: "j = i" if "j < length crons" "cj_pid (crons ! j) = p" for j
  proof -
    have "(j, p) \<in> alive" using b [OF that(1)] a [OF ip] that(2) by simp
    with c [OF ip] show ?thesis by blast
  qed
  show ?thesis
  proof (cases "cj_pid (crons ! i) = p")
    case True
    have e: "snd (upsgi_master_check_cron_death p crons) = crons[i := (crons ! i)\<lparr>cj_pid := -1, cj_started_at := 0\<rparr>]"
    proof -
      have "\<forall>j < i. cj_pid (crons ! j) \<noteq> p" using same a [OF ip] by (metis less_irrefl less_trans)
      with cron_death_at [of i crons p] a [OF ip] True show ?thesis by simp
    qed
    define cs where "cs = crons[i := (crons ! i)\<lparr>cj_pid := -1, cj_started_at := 0\<rparr>]"
    have cs: "length cs = length crons" "k < length crons \<Longrightarrow> cj_unique (cs ! k) = cj_unique (crons ! k) \<and> cj_pid (cs ! k) = (if k = i then -1 else cj_pid (crons ! k))" for k
      by (auto simp: cs_def nth_list_update)
    have "j < length cs \<and> q \<ge> 0 \<and> (cj_unique (cs ! j) > 0 \<longrightarrow> cj_pid (cs ! j) = q)" if "(j, q) \<in> alive - {(i, p)}" for j q
      using that a [of j q] cs True by auto
    moreover have "(j, cj_pid (cs ! j)) \<in> alive - {(i, p)}" if "j < length cs" "cj_pid (cs ! j) \<ge> 0" for j
    proof -
      have l: "j < length crons" using that(1) cs(1) by simp
      have ne: "j \<noteq> i" using that(2) cs(2) [OF l] by auto
      then have pid: "cj_pid (cs ! j) = cj_pid (crons ! j)" using cs(2) [OF l] by simp
      with b [OF l] that(2) ne show ?thesis by simp
    qed
    moreover have "inj_on snd (alive - {(i, p)})" using inv by (simp add: cron_inv_def inj_on_diff)
    ultimately show ?thesis unfolding e cs_def [symmetric] by (simp add: cron_inv_def)
  next
    case False
    have e: "snd (upsgi_master_check_cron_death p crons) = crons" using cron_death_none [of crons p] same False by (metis snd_conv)
    have "inj_on snd (alive - {(i, p)})" using inv by (simp add: cron_inv_def inj_on_diff)
    moreover have "(j, cj_pid (crons ! j)) \<in> alive - {(i, p)}" if "j < length crons" "cj_pid (crons ! j) \<ge> 0" for j
      using b [OF that] False by auto
    moreover have "j < length crons \<and> q \<ge> 0 \<and> (cj_unique (crons ! j) > 0 \<longrightarrow> cj_pid (crons ! j) = q)" if "(j, q) \<in> alive - {(i, p)}" for j q
      using that a [of j q] by auto
    ultimately show ?thesis unfolding e by (simp add: cron_inv_def)
  qed
qed

lemma cron_reach_inv: "(cron_step h)\<^sup>*\<^sup>* s s' \<Longrightarrow> cron_inv s \<Longrightarrow> cron_inv s'"
  by (induction rule: rtranclp_induct) (auto elim!: cron_step.cases intro: cron_walk_inv cron_death_inv)

text \<open>C35: in every history of walks through the list and of deaths of processes, a unique job has at most one process running.\<close>

theorem unique_cron_single:
  assumes "(cron_step h)\<^sup>*\<^sup>* (crons0, {}) (crons, alive)" "\<forall>c \<in> set crons0. cj_pid c = -1"
    "i < length crons" "cj_unique (crons ! i) > 0" "(i, p) \<in> alive" "(i, q) \<in> alive"
  shows "p = q \<and> cj_pid (crons ! i) = p"
proof -
  have "cron_inv (crons0, {})" using assms(2) by (simp add: cron_inv_def)
  from cron_reach_inv [OF assms(1) this] have inv: "\<And>k. (i, k) \<in> alive \<Longrightarrow> cj_unique (crons ! i) > 0 \<Longrightarrow> cj_pid (crons ! i) = k" by (simp add: cron_inv_def)
  from inv [OF assms(5,4)] inv [OF assms(6,4)] have "cj_pid (crons ! i) = p" "cj_pid (crons ! i) = q" .
  then show ?thesis by simp
qed

definition unique_job :: upsgi_cron where
  "unique_job = every_minute\<lparr>cj_command := Some ''x'', cj_unique := 1, cj_pid := -1\<rparr>"

theorem unique_cron_single_witness:
  "\<exists>crons. (cron_step 0)\<^sup>*\<^sup>* ([unique_job], {}) (crons, {(0, 7)}) \<and> cj_pid (crons ! 0) = 7"
proof -
  define fork where "fork = (\<lambda>i :: nat. int i + 7)"
  define crons where "crons = upsgi_manage_command_cron 0 0 (Some (clock_tm 0)) fork [unique_job]"
  have "cron_step 0 ([unique_job], {}) (crons, {} \<union> cron_starts 0 (Some (clock_tm 0)) fork [unique_job])"
    unfolding crons_def by (rule cron_step.walk) (simp_all add: fork_def inj_def)
  moreover have "cron_starts 0 (Some (clock_tm 0)) fork [unique_job] = {(0, 7)}"
    by (auto simp: cron_starts_def unique_job_def every_minute_def command_fires_def cron_zero_def fork_def clock_tm_def monday_noon_def
        upsgi_cron_task_needs_execution_def cron_field_def)
  ultimately have r: "(cron_step 0)\<^sup>*\<^sup>* ([unique_job], {}) (crons, {(0, 7)})" by auto
  have l: "0 < length crons" "cj_unique (crons ! 0) > 0"
    by (auto simp: crons_def manage_entry unique_job_def)
  from unique_cron_single [OF r _ l, of 7 7] r show ?thesis by (auto simp: unique_job_def)
qed

end
