(* ===== verification/Upsgi_Master.thy ===== *)
theory Upsgi_Master
  imports Upsgi_Prelude
begin

text \<open>
  Supervision of the workers (core/master_checks.c, core/master_utils.c, core/master.c).  The master keeps a table of workers in
  shared memory, asks them to end, kills those that are late, starts them again when they are gone, reloads them one after the
  other, and adapts their number to the load.  The operations below are functions on that table (\<open>master\<close>); the clock, the
  process ids that \<open>fork\<close> returns and the way a process ended are arguments, the signals sent are recorded in \<open>ms_kills\<close>.

  A history of a chain reload is a sequence of steps (\<open>chain_step\<close>): checks of the chain by the master, deaths of
  workers that were asked to end, and new workers becoming ready.  The invariant \<open>chain_inv\<close> splits the table at the position of
  the chain into workers already started again, the one in turn, and those still to come.  The lemmas on the cheaper
  subsystem share one description of what a step may touch (\<open>calc_cheaper_frame\<close>).

  Left out: the sleep against fork bombs and the messages, the counters \<open>delta_requests\<close>, \<open>uss_size\<close> and \<open>pss_size\<close>, which
  nothing here reads, the hooks of plugins, and the code of the new process behind \<open>fork\<close> but for what it writes to the table.
\<close>

section \<open>Workers\<close>

datatype unix_signal = SIGHUP | SIGINT | SIGKILL | SIGWINCH | SIGTSTP | SIG_NUM nat

record wcore =
  wc_in_request :: bool
  wc_harakiri :: int
  wc_user_harakiri :: int
  wc_requests :: "64 word"

record upsgi_worker =
  w_pid :: int
  w_last_spawn :: int
  w_respawn_count :: nat
  w_requests :: "64 word"
  w_harakiri_count :: nat
  w_pending_harakiri :: nat
  w_vsz_size :: nat
  w_rss_size :: nat
  w_manage_next_request :: bool
  w_cheaped :: bool
  w_suspended :: bool
  w_sig :: bool
  w_cursed_at :: int
  w_no_mercy_at :: int
  w_cores :: "wcore list"
  w_accepting :: bool

text \<open>
  The state of the master: \<open>workers[1 ..]\<close> as a list (\<open>workers[i]\<close> is its element \<open>i - 1\<close>), of \<open>workers[0]\<close> the counter of
  requests and the flag of the suspension, the fields of \<open>upsgi.status\<close> and of the shared memory, the static variables of
  the functions below, and the signals sent so far.
\<close>

record master =
  ms_workers :: "upsgi_worker list"
  ms_requests :: "64 word"
  ms_suspended :: bool
  ms_chain :: nat
  ms_last_chain_curse :: int
  ms_fifo_delta :: int
  ms_last_check :: int
  ms_overload_count :: nat
  ms_idle_count :: nat
  ms_idle_count2 :: int
  ms_backlog :: int
  ms_overloaded :: nat
  ms_busy_workers :: nat
  ms_idle_workers :: nat
  ms_kills :: "(int \<times> unix_signal) list"

record master_cfg =
  mc_worker_reload_mercy :: int
  mc_chain_reload_delay :: int
  mc_master_interval :: int
  mc_cheaper_overload :: nat
  mc_cheaper_step :: int
  mc_cheaper_count :: int
  mc_cheaper_idle :: int
  mc_rss_limit_soft :: nat
  mc_rss_limit_hard :: nat
  mc_graceful_timeout :: int
  mc_graceful_signal :: unix_signal
  mc_queue_threshold :: int
  mc_evil_as :: nat
  mc_evil_rss :: nat
  mc_max_lifetime :: nat
  mc_lifetime_delta :: nat

abbreviation numproc :: "master \<Rightarrow> nat" where
  "numproc m \<equiv> length (ms_workers m)"

definition the_worker :: "master \<Rightarrow> nat \<Rightarrow> upsgi_worker" where
  "the_worker m i = ms_workers m ! (i - 1)"

definition set_worker :: "nat \<Rightarrow> (upsgi_worker \<Rightarrow> upsgi_worker) \<Rightarrow> master \<Rightarrow> master" where
  "set_worker i f m = m\<lparr>ms_workers := (ms_workers m)[i - 1 := f (the_worker m i)]\<rparr>"

definition kill :: "int \<Rightarrow> unix_signal \<Rightarrow> master \<Rightarrow> master" where
  "kill pid sig m = m\<lparr>ms_kills := ms_kills m @ [(pid, sig)]\<rparr>"

abbreviation worker_active :: "upsgi_worker \<Rightarrow> bool" where
  "worker_active w \<equiv> \<not> w_cheaped w \<and> w_pid w > 0"

definition upsgi_worker_is_busy :: "upsgi_worker \<Rightarrow> bool" where
  "upsgi_worker_is_busy w \<longleftrightarrow> w_sig w \<or> list_ex wc_in_request (w_cores w)"

definition upsgi_curse :: "master_cfg \<Rightarrow> int \<Rightarrow> nat \<Rightarrow> unix_signal option \<Rightarrow> master \<Rightarrow> master" where
  "upsgi_curse cfg now wid sig m =
     (let m1 = set_worker wid (\<lambda>w. w\<lparr>w_cursed_at := now, w_no_mercy_at := now + mc_worker_reload_mercy cfg\<rparr>) m in
      case sig of None \<Rightarrow> m1 | Some s \<Rightarrow> kill (w_pid (the_worker m1 wid)) s m1)"

text \<open>A loop over the workers.\<close>

definition for_workers :: "(nat \<Rightarrow> master \<Rightarrow> master) \<Rightarrow> master \<Rightarrow> master" where
  "for_workers f m = fold f [1 ..< numproc m + 1] m"

section \<open>Starting and losing workers\<close>

text \<open>\<open>pid\<close> is what \<open>fork\<close> returns to the master, not positive when it fails.\<close>

definition upsgi_respawn_worker :: "int \<Rightarrow> int \<Rightarrow> nat \<Rightarrow> master \<Rightarrow> master" where
  "upsgi_respawn_worker current_time pid wid =
     set_worker wid (\<lambda>w.
       w\<lparr>w_accepting := False, w_respawn_count := w_respawn_count w + 1, w_last_spawn := current_time,
         w_cores := map (\<lambda>c. c\<lparr>wc_harakiri := 0, wc_user_harakiri := 0\<rparr>) (w_cores w), w_pending_harakiri := 0,
         w_rss_size := 0, w_vsz_size := 0, w_cursed_at := 0, w_no_mercy_at := 0, w_cheaped := False, w_sig := False,
         w_pid := (if pid < 1 then w_pid w else pid)\<rparr>)"

text \<open>What the new worker does in shared memory before it serves requests, and when it is ready.\<close>

definition worker_starts :: "nat \<Rightarrow> master \<Rightarrow> master" where
  "worker_starts wid = set_worker wid (\<lambda>w. w\<lparr>w_manage_next_request := True, w_cores := map (\<lambda>c. c\<lparr>wc_in_request := False\<rparr>) (w_cores w)\<rparr>)"

definition worker_ready :: "nat \<Rightarrow> master \<Rightarrow> master" where
  "worker_ready wid = set_worker wid (\<lambda>w. w\<lparr>w_accepting := True\<rparr>)"

text \<open>How a process ended, as far as the master distinguishes it.\<close>

datatype exit_kind = ExitFailedApp | ExitBrutalReload | ExitGoCheap | ExitOther

datatype death_ret = Buried | KillThemAll | ReapThemAll | Cheaped | Respawned

text \<open>The end of the loop of the master for a worker that died; \<open>stopping\<close>: the instance is reloading or dying.\<close>

definition worker_died :: "bool \<Rightarrow> bool \<Rightarrow> int \<Rightarrow> exit_kind \<Rightarrow> int \<Rightarrow> nat \<Rightarrow> master \<Rightarrow> death_ret \<times> master" where
  "worker_died stopping need_app current_time ex pid wid m =
     (let m1 = set_worker wid (\<lambda>w. w\<lparr>w_pid := 0, w_cores := map (\<lambda>c. c\<lparr>wc_harakiri := 0\<rparr>) (w_cores w)\<rparr>) m in
      if ex = ExitFailedApp \<and> need_app then (KillThemAll, m1)
      else if stopping then (Buried, set_worker wid (\<lambda>w. w\<lparr>w_cursed_at := 0\<rparr>) m1)
      else if ex = ExitBrutalReload then (ReapThemAll, m1)
      else
       (let m2 = (if ex = ExitGoCheap then set_worker wid (\<lambda>w. w\<lparr>w_cheaped := True\<rparr>) m1 else m1) in
        if w_cheaped (the_worker m2 wid) then (Cheaped, m2)
        else
         (let m3 = (if ms_chain m2 = wid then m2\<lparr>ms_chain := ms_chain m2 + 1\<rparr> else m2) in
          (Respawned, upsgi_respawn_worker current_time pid wid m3))))"

section \<open>Reloading\<close>

definition upsgi_reload_workers :: "master_cfg \<Rightarrow> int \<Rightarrow> master \<Rightarrow> master" where
  "upsgi_reload_workers cfg now =
     for_workers (\<lambda>i m. if w_pid (the_worker m i) > 0 then upsgi_curse cfg now i (Some SIGHUP) m else m)"

definition upsgi_brutally_reload_workers :: "master_cfg \<Rightarrow> int \<Rightarrow> master \<Rightarrow> master" where
  "upsgi_brutally_reload_workers cfg now =
     for_workers (\<lambda>i m. if w_pid (the_worker m i) > 0 then upsgi_curse cfg now i (Some SIGINT) m else m)"

definition upsgi_chain_reload :: "master \<Rightarrow> master" where
  "upsgi_chain_reload m = (if ms_chain m = 0 then m\<lparr>ms_chain := 1\<rparr> else m)"

text \<open>The search for the next victim from worker \<open>i\<close> on; workers that are away are passed over.\<close>

function chain_loop :: "master_cfg \<Rightarrow> int \<Rightarrow> nat \<Rightarrow> master \<Rightarrow> master" where
  "chain_loop cfg now i m =
     (if i > numproc m then m
      else
       (let w = the_worker m i in
        if w_pid w > 0 \<and> \<not> w_cheaped w \<and> w_accepting w then
          (if w_cursed_at w = 0 then (upsgi_curse cfg now i (Some SIGHUP) m)\<lparr>ms_last_chain_curse := now\<rparr> else m)
        else chain_loop cfg now (i + 1) (m\<lparr>ms_chain := ms_chain m + 1\<rparr>)))"
  by auto
termination
  by (relation "measure (\<lambda>(_, _, i, m). numproc m + 1 - i)") auto

declare chain_loop.simps [simp del]

definition upsgi_master_check_chain :: "master_cfg \<Rightarrow> int \<Rightarrow> master \<Rightarrow> master" where
  "upsgi_master_check_chain cfg now m =
     (let k = ms_chain m in
      if k = 0 then m\<lparr>ms_last_chain_curse := 0\<rparr>
      else if k > 1 \<and> worker_active (the_worker m (k - 1)) \<and> \<not> w_accepting (the_worker m (k - 1)) then m
      else if k > numproc m then m\<lparr>ms_chain := 0, ms_last_chain_curse := 0\<rparr>
      else if mc_chain_reload_delay cfg > 0 \<and> ms_last_chain_curse m > 0 \<and> now - ms_last_chain_curse m < mc_chain_reload_delay cfg then m
      else chain_loop cfg now k m)"

definition upsgi_master_check_mercy :: "master_cfg \<Rightarrow> int \<Rightarrow> master \<Rightarrow> master" where
  "upsgi_master_check_mercy cfg now =
     for_workers (\<lambda>i m. let w = the_worker m i in
       if w_pid w > 0 \<and> w_cursed_at w \<noteq> 0 \<and> now > w_no_mercy_at w then upsgi_curse cfg now i (Some SIGKILL) m else m)"

text \<open>All workers are gone: the instance ends (\<open>upsgi_master_check_death\<close>), or is reloaded (\<open>upsgi_master_check_reload\<close>).\<close>

definition upsgi_master_check_death :: "bool \<Rightarrow> master \<Rightarrow> bool" where
  "upsgi_master_check_death dying m \<longleftrightarrow> dying \<and> \<not> list_ex (\<lambda>w. w_pid w > 0) (ms_workers m)"

definition upsgi_master_check_reload :: "bool \<Rightarrow> master \<Rightarrow> bool" where
  "upsgi_master_check_reload reloading m \<longleftrightarrow> reloading \<and> \<not> list_ex (\<lambda>w. w_pid w > 0) (ms_workers m)"

definition upsgi_master_commit_status :: "master \<Rightarrow> master" where
  "upsgi_master_commit_status m = m\<lparr>ms_workers := map (\<lambda>w. w\<lparr>w_pid := 0\<rparr>) (ms_workers m)\<rparr>"

definition master_check_processes :: "bool \<Rightarrow> master \<Rightarrow> bool" where
  "master_check_processes die_on_no_workers m \<longleftrightarrow> die_on_no_workers \<and> length (filter worker_active (ms_workers m)) = 0"

definition suspend_resume_them_all :: "master \<Rightarrow> master" where
  "suspend_resume_them_all m =
     (let suspend = \<not> ms_suspended m in
      for_workers (\<lambda>i m. let m1 = set_worker i (\<lambda>w. w\<lparr>w_suspended := suspend\<rparr>) m in
          if w_pid (the_worker m1 i) > 0 then kill (w_pid (the_worker m1 i)) SIGTSTP m1 else m1)
        (m\<lparr>ms_suspended := suspend\<rparr>))"

section \<open>Counters\<close>

definition upsgi_update_load_counters :: "master \<Rightarrow> master" where
  "upsgi_update_load_counters m =
     (let act = filter worker_active (ms_workers m);
          idle = length (filter (\<lambda>w. \<not> upsgi_worker_is_busy w) act); busy = length (filter upsgi_worker_is_busy act);
          m1 = (if busy \<ge> numproc m then m\<lparr>ms_overloaded := ms_overloaded m + 1\<rparr> else m) in
      m1\<lparr>ms_busy_workers := busy, ms_idle_workers := idle\<rparr>)"

definition upsgi_master_fix_request_counters :: "master \<Rightarrow> master" where
  "upsgi_master_fix_request_counters m =
     (let ws = map (\<lambda>w. w\<lparr>w_requests := sum_list (map wc_requests (w_cores w))\<rparr>) (ms_workers m) in
      m\<lparr>ms_workers := ws, ms_requests := sum_list (map w_requests ws)\<rparr>)"

section \<open>Deadlines\<close>

definition trigger_harakiri :: "master_cfg \<Rightarrow> nat \<Rightarrow> master \<Rightarrow> master" where
  "trigger_harakiri cfg i m =
     (let w = the_worker m i in
      if w_pid w > 0 then
        set_worker i (\<lambda>w. w\<lparr>w_harakiri_count := w_harakiri_count w + (if w_pending_harakiri w = 0 then 1 else 0),
                            w_pending_harakiri := w_pending_harakiri w + 1\<rparr>)
          (kill (w_pid w) (if w_pending_harakiri w = 0 \<and> mc_graceful_timeout cfg > 0 then mc_graceful_signal cfg else SIGKILL) m)
      else m)"

definition set_core_harakiri :: "nat \<Rightarrow> nat \<Rightarrow> int \<Rightarrow> master \<Rightarrow> master" where
  "set_core_harakiri w c t = set_worker w (\<lambda>x. x\<lparr>w_cores := (w_cores x)[c := (w_cores x ! c)\<lparr>wc_harakiri := t\<rparr>]\<rparr>)"

definition upsgi_master_check_harakiri :: "master_cfg \<Rightarrow> int \<Rightarrow> nat \<Rightarrow> nat \<Rightarrow> int \<Rightarrow> master \<Rightarrow> bool \<times> master" where
  "upsgi_master_check_harakiri cfg current_time w c harakiri m =
     (if harakiri = 0 \<or> harakiri > current_time then (False, m)
      else if w_pending_harakiri (the_worker m w) = 0 \<and> ms_backlog m < mc_queue_threshold cfg then (False, m)
      else
       (let m1 = trigger_harakiri cfg w m in
        (True, if mc_graceful_timeout cfg > 0 then set_core_harakiri w c (harakiri + mc_graceful_timeout cfg) m1 else m1)))"

text \<open>The cores of a worker, up to the first whose deadline has passed.\<close>

fun harakiri_cores :: "master_cfg \<Rightarrow> int \<Rightarrow> nat \<Rightarrow> nat list \<Rightarrow> master \<Rightarrow> bool \<times> master" where
  "harakiri_cores cfg t w [] m = (False, m)"
| "harakiri_cores cfg t w (c # cs) m =
     (case upsgi_master_check_harakiri cfg t w c (wc_harakiri (w_cores (the_worker m w) ! c)) m of
        (True, m1) \<Rightarrow> (True, m1)
      | (False, m1) \<Rightarrow>
          (case upsgi_master_check_harakiri cfg t w c (wc_user_harakiri (w_cores (the_worker m1 w) ! c)) m1 of
             (True, m2) \<Rightarrow> (True, m2)
           | (False, m2) \<Rightarrow> harakiri_cores cfg t w cs m2))"

text \<open>The memory limits and the lifetime, which is a difference of times in 64 bits.\<close>

definition evil_checks :: "master_cfg \<Rightarrow> int \<Rightarrow> nat \<Rightarrow> bool \<times> master \<Rightarrow> bool \<times> master" where
  "evil_checks cfg now i x =
     (case x of (r, m) \<Rightarrow>
        (let (r1, m1) = (if mc_evil_as cfg > 0 \<and> w_vsz_size (the_worker m i) \<ge> mc_evil_as cfg
              then (True, set_worker i (\<lambda>w. w\<lparr>w_vsz_size := 0\<rparr>) (kill (w_pid (the_worker m i)) SIGKILL m)) else (r, m));
             (r2, m2) = (if mc_evil_rss cfg > 0 \<and> w_rss_size (the_worker m1 i) \<ge> mc_evil_rss cfg
              then (True, set_worker i (\<lambda>w. w\<lparr>w_rss_size := 0\<rparr>) (kill (w_pid (the_worker m1 i)) SIGKILL m1)) else (r1, m1));
             w = the_worker m2 i in
         if worker_active w \<and> mc_max_lifetime cfg > 0 \<and>
            nat ((now - w_last_spawn w) mod 2 ^ 64) > mc_max_lifetime cfg + (i - 1) * mc_lifetime_delta cfg \<and> w_manage_next_request w
         then (True, kill (w_pid w) SIGWINCH (set_worker i (\<lambda>w. w\<lparr>w_manage_next_request := False\<rparr>) m2))
         else (r2, m2)))"

definition upsgi_master_check_workers_deadline :: "master_cfg \<Rightarrow> nat \<Rightarrow> int \<Rightarrow> int \<Rightarrow> master \<Rightarrow> bool \<times> master" where
  "upsgi_master_check_workers_deadline cfg cores current_time now m =
     fold (\<lambda>i (r, m). case harakiri_cores cfg current_time i [0 ..< cores] m of (r1, m1) \<Rightarrow> evil_checks cfg now i (r \<or> r1, m1))
       [1 ..< numproc m + 1] (False, m)"

section \<open>The number of workers\<close>

text \<open>The workers that may be started, counted up to the step.\<close>

fun count_cheaped :: "int \<Rightarrow> int \<Rightarrow> upsgi_worker list \<Rightarrow> int" where
  "count_cheaped step n [] = n"
| "count_cheaped step n (w # ws) =
     (if w_cheaped w \<and> w_pid w = 0 then (if n + 1 \<ge> step then n + 1 else count_cheaped step (n + 1) ws)
      else count_cheaped step n ws)"

definition active_workers :: "master \<Rightarrow> int" where
  "active_workers m = int (length (filter worker_active (ms_workers m)))"

definition busy_workers :: "master \<Rightarrow> int" where
  "busy_workers m = int (length (filter (\<lambda>w. worker_active w \<and> upsgi_worker_is_busy w) (ms_workers m)))"

text \<open>An algorithm answers with the number of workers to start, or a negative number of those to stop.  \<open>None\<close>: a division by zero.\<close>

definition upsgi_cheaper_algo_manual :: "master_cfg \<Rightarrow> bool \<Rightarrow> master \<Rightarrow> (int \<times> master) option" where
  "upsgi_cheaper_algo_manual cfg can_spawn m = Some (0, m)"

definition upsgi_cheaper_algo_spare :: "master_cfg \<Rightarrow> bool \<Rightarrow> master \<Rightarrow> (int \<times> master) option" where
  "upsgi_cheaper_algo_spare cfg can_spawn m0 =
     (let m = (if list_ex (\<lambda>w. worker_active w \<and> \<not> upsgi_worker_is_busy w) (ms_workers m0)
               then m0\<lparr>ms_overload_count := ms_overload_count m0 - 1\<rparr>
               else m0\<lparr>ms_overload_count := ms_overload_count m0 + 1, ms_idle_count := 0\<rparr>) in
      if can_spawn \<and> ms_overload_count m \<ge> mc_cheaper_overload cfg then
        Some (count_cheaped (mc_cheaper_step cfg) 0 (ms_workers m), m\<lparr>ms_overload_count := 0\<rparr>)
      else if ms_overload_count m = 0 then
        (if active_workers m - busy_workers m = 1 then Some (0, m)
         else
          (let m1 = m\<lparr>ms_idle_count := ms_idle_count m + 1\<rparr> in
           if active_workers m > mc_cheaper_count cfg then
             (if mc_cheaper_overload cfg = 0 then None
              else Some (if ms_idle_count m1 mod mc_cheaper_overload cfg = 0 then -1 else 0, m1))
           else Some (0, m1)))
      else Some (0, m))"

definition upsgi_cheaper_algo_spare2 :: "master_cfg \<Rightarrow> bool \<Rightarrow> master \<Rightarrow> (int \<times> master) option" where
  "upsgi_cheaper_algo_spare2 cfg can_spawn m =
     (let busy = busy_workers m; idle = active_workers m - busy; cheaped = int (numproc m) - (idle + busy) in
      if idle < mc_cheaper_count cfg then
        Some (if can_spawn then min (min (mc_cheaper_count cfg - idle) cheaped) (mc_cheaper_step cfg) else 0, m\<lparr>ms_idle_count2 := 0\<rparr>)
      else if idle = mc_cheaper_count cfg then Some (0, m\<lparr>ms_idle_count2 := 0\<rparr>)
      else if ms_idle_count2 m + 1 < mc_cheaper_idle cfg then Some (0, m\<lparr>ms_idle_count2 := ms_idle_count2 m + 1\<rparr>)
      else Some (-1, m\<lparr>ms_idle_count2 := 0\<rparr>))"

definition upsgi_cheaper_algo_backlog :: "master_cfg \<Rightarrow> bool \<Rightarrow> master \<Rightarrow> (int \<times> master) option" where
  "upsgi_cheaper_algo_backlog cfg can_spawn m =
     Some (if can_spawn \<and> ms_backlog m > int (mc_cheaper_overload cfg) then count_cheaped (mc_cheaper_step cfg) 0 (ms_workers m)
           else if ms_backlog m < int (mc_cheaper_overload cfg) \<and> active_workers m > mc_cheaper_count cfg then -1 else 0, m)"

text \<open>The limits of the memory: a worker too many, and whether none may be started.\<close>

definition rss_limits :: "master_cfg \<Rightarrow> master \<Rightarrow> int \<times> bool" where
  "rss_limits cfg m =
     (if mc_rss_limit_soft cfg = 0 then (0, False)
      else
       (let ws = filter (\<lambda>w. \<not> w_cheaped w) (ms_workers m); total = sum_list (map w_rss_size ws) in
        if mc_rss_limit_hard cfg > 0 \<and> length ws > 1 \<and> total \<ge> mc_rss_limit_hard cfg then (-1, True)
        else (0, total \<ge> mc_rss_limit_soft cfg)))"

text \<open>\<open>pids i\<close> is what \<open>fork\<close> returns for worker \<open>i\<close>.\<close>

fun cheaper_spawn :: "int \<Rightarrow> (nat \<Rightarrow> int) \<Rightarrow> nat list \<Rightarrow> int \<Rightarrow> master \<Rightarrow> master" where
  "cheaper_spawn t pids [] needed m = m"
| "cheaper_spawn t pids (i # is) needed m =
     (let (n, m1) = (if w_cheaped (the_worker m i) \<and> w_pid (the_worker m i) = 0
                     then (needed - 1, upsgi_respawn_worker t (pids i) i m) else (needed, m)) in
      if n = 0 then m1 else cheaper_spawn t pids is n m1)"

abbreviation INT_MAX :: int where "INT_MAX \<equiv> 2147483647"

text \<open>The oldest active worker that is not busy, 0 when there is none.\<close>

definition oldest_worker :: "master \<Rightarrow> nat" where
  "oldest_worker m =
     fst (fold (\<lambda>i (o1, s). let w = the_worker m i in
         if worker_active w \<and> \<not> upsgi_worker_is_busy w \<and> w_last_spawn w < s then (i, w_last_spawn w) else (o1, s))
       [1 ..< numproc m + 1] (0, INT_MAX))"

definition cheap_one :: "master_cfg \<Rightarrow> int \<Rightarrow> master \<Rightarrow> master" where
  "cheap_one cfg now m =
     (let i = oldest_worker m in
      if i > 0 then
        upsgi_curse cfg now i (Some SIGWINCH)
          (set_worker i (\<lambda>w. w\<lparr>w_cheaped := True, w_rss_size := 0, w_vsz_size := 0, w_manage_next_request := False\<rparr>) m)
      else m\<lparr>ms_fifo_delta := ms_fifo_delta m - 1\<rparr>)"

definition cheaper_apply :: "master_cfg \<Rightarrow> int \<Rightarrow> int \<Rightarrow> (nat \<Rightarrow> int) \<Rightarrow> int \<Rightarrow> master \<Rightarrow> master" where
  "cheaper_apply cfg now t pids needed m =
     (if needed > 0 then cheaper_spawn t pids [1 ..< numproc m + 1] needed m
      else (cheap_one cfg now ^^ nat (- needed)) m)"

definition upsgi_calc_cheaper :: "master_cfg \<Rightarrow> (bool \<Rightarrow> master \<Rightarrow> (int \<times> master) option) \<Rightarrow> int \<Rightarrow> int \<Rightarrow> (nat \<Rightarrow> int) \<Rightarrow> master \<Rightarrow> master option" where
  "upsgi_calc_cheaper cfg algo now t pids m =
     (let prev = (if ms_last_check m = 0 then now else ms_last_check m);
          interval = (if mc_master_interval cfg = 0 then 1 else mc_master_interval cfg) in
      if now - prev < interval then Some (m\<lparr>ms_last_check := prev\<rparr>)
      else
       (let m1 = m\<lparr>ms_last_check := now\<rparr>; (needed, ignore_algo) = rss_limits cfg m1 in
        if ms_fifo_delta m1 \<noteq> 0 then
          Some (cheaper_apply cfg now t pids (if ignore_algo then needed else ms_fifo_delta m1) (m1\<lparr>ms_fifo_delta := 0\<rparr>))
        else
         (case if needed \<noteq> 0 then Some (needed, m1) else algo (\<not> ignore_algo) m1 of
            None \<Rightarrow> None
          | Some (n, m2) \<Rightarrow> Some (cheaper_apply cfg now t pids (if ignore_algo \<and> n > 0 then 0 else n) m2))))"

definition upsgi_cheaper_increase :: "master \<Rightarrow> master" where
  "upsgi_cheaper_increase m = m\<lparr>ms_fifo_delta := ms_fifo_delta m + 1\<rparr>"

definition upsgi_cheaper_decrease :: "master \<Rightarrow> master" where
  "upsgi_cheaper_decrease m = m\<lparr>ms_fifo_delta := ms_fifo_delta m - 1\<rparr>"

section \<open>Lemmas on single workers\<close>

lemma set_worker_simps [simp]:
  "numproc (set_worker i f m) = numproc m" "ms_chain (set_worker i f m) = ms_chain m"
  "ms_last_chain_curse (set_worker i f m) = ms_last_chain_curse m" "ms_fifo_delta (set_worker i f m) = ms_fifo_delta m"
  "ms_workers (kill p s m) = ms_workers m" "ms_chain (kill p s m) = ms_chain m" "ms_fifo_delta (kill p s m) = ms_fifo_delta m"
  "ms_last_chain_curse (kill p s m) = ms_last_chain_curse m"
  by (simp_all add: set_worker_def kill_def)

lemma the_worker_kill [simp]: "the_worker (kill p s m) = the_worker m"
  by (rule ext) (simp add: the_worker_def)

lemma the_worker_frame [simp]:
  "the_worker (m\<lparr>ms_chain := k\<rparr>) = the_worker m" "the_worker (m\<lparr>ms_last_chain_curse := t\<rparr>) = the_worker m"
  "the_worker (m\<lparr>ms_fifo_delta := d\<rparr>) = the_worker m" "the_worker (m\<lparr>ms_last_check := t\<rparr>) = the_worker m"
  by (rule ext, simp add: the_worker_def)+

lemma the_worker_set [simp]:
  "1 \<le> i \<Longrightarrow> i \<le> numproc m \<Longrightarrow> 1 \<le> j \<Longrightarrow> j \<le> numproc m \<Longrightarrow>
   the_worker (set_worker i f m) j = (if j = i then f (the_worker m i) else the_worker m j)"
  by (auto simp: the_worker_def set_worker_def nth_list_update)

lemma upsgi_curse_simps [simp]:
  "numproc (upsgi_curse cfg now i s m) = numproc m" "ms_chain (upsgi_curse cfg now i s m) = ms_chain m"
  "ms_fifo_delta (upsgi_curse cfg now i s m) = ms_fifo_delta m"
  "1 \<le> i \<Longrightarrow> i \<le> numproc m \<Longrightarrow> 1 \<le> j \<Longrightarrow> j \<le> numproc m \<Longrightarrow> the_worker (upsgi_curse cfg now i s m) j =
     (if j = i then (the_worker m i)\<lparr>w_cursed_at := now, w_no_mercy_at := now + mc_worker_reload_mercy cfg\<rparr> else the_worker m j)"
  by (auto simp: upsgi_curse_def Let_def split: option.splits)

section \<open>Chain reloading\<close>

definition worker_up :: "upsgi_worker \<Rightarrow> bool" where
  "worker_up w \<longleftrightarrow> w_pid w > 0 \<and> \<not> w_cheaped w \<and> w_accepting w \<and> w_cursed_at w = 0"

text \<open>
  The master checks the chain, a worker that was asked to end does so and is started again, and a worker gets ready.
\<close>

inductive chain_step :: "master_cfg \<Rightarrow> master \<Rightarrow> master \<Rightarrow> bool" for cfg where
  check: "0 < now \<Longrightarrow> chain_step cfg m (upsgi_master_check_chain cfg now m)"
| turnover: "1 \<le> i \<Longrightarrow> i \<le> numproc m \<Longrightarrow> w_pid (the_worker m i) > 0 \<Longrightarrow> w_cursed_at (the_worker m i) \<noteq> 0 \<Longrightarrow> pid > 0 \<Longrightarrow>
     worker_died False need_app t ExitOther pid i m = (Respawned, m') \<Longrightarrow> chain_step cfg m m'"
| ready: "1 \<le> i \<Longrightarrow> i \<le> numproc m \<Longrightarrow> w_pid (the_worker m i) > 0 \<Longrightarrow> chain_step cfg m (worker_ready i m)"

text \<open>Before worker \<open>chain\<close> all are renewed; only this one may have been asked to end, and only the one before may not be ready.\<close>

definition chain_inv :: "nat \<Rightarrow> (nat \<Rightarrow> nat) \<Rightarrow> master \<Rightarrow> bool" where
  "chain_inv n c0 m \<longleftrightarrow> numproc m = n \<and> ms_chain m \<le> n + 1 \<and>
     (\<forall>i. 1 \<le> i \<and> i \<le> n \<longrightarrow> (let w = the_worker m i in w_pid w > 0 \<and> \<not> w_cheaped w \<and>
        (w_cursed_at w \<noteq> 0 \<longrightarrow> i = ms_chain m \<and> w_accepting w) \<and> (\<not> w_accepting w \<longrightarrow> Suc i = ms_chain m) \<and>
        w_respawn_count w = c0 i + (if ms_chain m = 0 \<or> i < ms_chain m then 1 else 0))) \<and>
     (\<forall>i. 1 \<le> i \<and> Suc i \<le> n \<and> \<not> w_accepting (the_worker m i) \<longrightarrow> w_cursed_at (the_worker m (Suc i)) = 0)"

lemma chain_inv_worker:
  assumes "chain_inv n c0 m" "1 \<le> i" "i \<le> n"
  shows "w_pid (the_worker m i) > 0" "\<not> w_cheaped (the_worker m i)"
    "w_cursed_at (the_worker m i) \<noteq> 0 \<Longrightarrow> i = ms_chain m" "w_cursed_at (the_worker m i) \<noteq> 0 \<Longrightarrow> w_accepting (the_worker m i)"
    "\<not> w_accepting (the_worker m i) \<Longrightarrow> Suc i = ms_chain m"
    "w_respawn_count (the_worker m i) = c0 i + (if ms_chain m = 0 \<or> i < ms_chain m then 1 else 0)"
  using assms by (auto simp: chain_inv_def Let_def)

lemma chain_inv_next: "chain_inv n c0 m \<Longrightarrow> 1 \<le> i \<Longrightarrow> Suc i \<le> n \<Longrightarrow> \<not> w_accepting (the_worker m i) \<Longrightarrow> w_cursed_at (the_worker m (Suc i)) = 0"
  by (simp add: chain_inv_def)

lemma chain_inv_size: "chain_inv n c0 m \<Longrightarrow> numproc m = n" "chain_inv n c0 m \<Longrightarrow> ms_chain m \<le> n + 1"
  by (simp_all add: chain_inv_def)

lemma chain_invI:
  assumes "numproc m = n" "ms_chain m \<le> n + 1"
    "\<And>i. 1 \<le> i \<Longrightarrow> i \<le> n \<Longrightarrow> w_pid (the_worker m i) > 0 \<and> \<not> w_cheaped (the_worker m i) \<and>
      (w_cursed_at (the_worker m i) \<noteq> 0 \<longrightarrow> i = ms_chain m \<and> w_accepting (the_worker m i)) \<and>
      (\<not> w_accepting (the_worker m i) \<longrightarrow> Suc i = ms_chain m) \<and>
      w_respawn_count (the_worker m i) = c0 i + (if ms_chain m = 0 \<or> i < ms_chain m then 1 else 0)"
    "\<And>i. 1 \<le> i \<Longrightarrow> Suc i \<le> n \<Longrightarrow> \<not> w_accepting (the_worker m i) \<Longrightarrow> w_cursed_at (the_worker m (Suc i)) = 0"
  shows "chain_inv n c0 m"
  using assms by (auto simp: chain_inv_def Let_def)

lemma chain_check_cases:
  assumes "chain_inv n c0 m"
  obtains (idle) "ms_chain m = 0" "upsgi_master_check_chain cfg now m = m\<lparr>ms_last_chain_curse := 0\<rparr>"
  | (wait) "upsgi_master_check_chain cfg now m = m"
  | (finish) "ms_chain m = n + 1" "n \<ge> 1 \<Longrightarrow> w_accepting (the_worker m n)" "upsgi_master_check_chain cfg now m = m\<lparr>ms_chain := 0, ms_last_chain_curse := 0\<rparr>"
  | (curse) "1 \<le> ms_chain m" "ms_chain m \<le> n" "ms_chain m \<ge> 2 \<Longrightarrow> w_accepting (the_worker m (ms_chain m - 1))" "w_cursed_at (the_worker m (ms_chain m)) = 0"
      "upsgi_master_check_chain cfg now m = (upsgi_curse cfg now (ms_chain m) (Some SIGHUP) m)\<lparr>ms_last_chain_curse := now\<rparr>"
proof -
  define k where "k = ms_chain m"
  have n: "numproc m = n" "k \<le> n + 1" using chain_inv_size [OF assms] by (auto simp: k_def)
  note w = chain_inv_worker [OF assms]
  show thesis
  proof (cases "k = 0")
    case True
    then show thesis using idle by (simp add: upsgi_master_check_chain_def k_def)
  next
    case k0: False
    define prev where "prev = (k > 1 \<and> worker_active (the_worker m (k - 1)) \<and> \<not> w_accepting (the_worker m (k - 1)))"
    have acc: "w_accepting (the_worker m (k - 1))" if "k \<ge> 2" "\<not> prev"
      using that w(1,2) [of "k - 1"] n by (auto simp: prev_def)
    consider "prev" | "\<not> prev" "k > n" | "\<not> prev" "k \<le> n" by linarith
    then show thesis
    proof cases
      case 1
      then show thesis using wait k0 by (simp add: upsgi_master_check_chain_def k_def prev_def)
    next
      case 2
      have e: "upsgi_master_check_chain cfg now m = m\<lparr>ms_chain := 0, ms_last_chain_curse := 0\<rparr>"
        using 2(2) n unfolding upsgi_master_check_chain_def Let_def k_def [symmetric] if_not_P [OF k0] if_not_P [OF 2(1) [unfolded prev_def]] by simp
      have kn: "k = n + 1" using 2(2) n by simp
      have "w_accepting (the_worker m n)" if "n \<ge> 1" using acc that 2(1) kn by simp
      then show thesis using finish [OF _ _ e] kn by (simp add: k_def)
    next
      case 3
      have a: "w_accepting (the_worker m k)" using w(5) [of k] k0 3 by (auto simp: k_def)
      have loop: "chain_loop cfg now k m =
          (if w_cursed_at (the_worker m k) = 0 then (upsgi_curse cfg now k (Some SIGHUP) m)\<lparr>ms_last_chain_curse := now\<rparr> else m)"
        using w(1,2) [of k] a k0 3 n by (subst chain_loop.simps) (simp add: Let_def)
      have e3: "upsgi_master_check_chain cfg now m =
          (if mc_chain_reload_delay cfg > 0 \<and> ms_last_chain_curse m > 0 \<and> now - ms_last_chain_curse m < mc_chain_reload_delay cfg then m else chain_loop cfg now k m)"
        using 3(2) n(1) unfolding upsgi_master_check_chain_def Let_def k_def [symmetric] if_not_P [OF k0] if_not_P [OF 3(1) [unfolded prev_def]] by simp
      show thesis
      proof (cases "mc_chain_reload_delay cfg > 0 \<and> ms_last_chain_curse m > 0 \<and> now - ms_last_chain_curse m < mc_chain_reload_delay cfg \<or> w_cursed_at (the_worker m k) \<noteq> 0")
        case True
        show thesis
          by (rule wait) (use True loop in \<open>auto simp: e3\<close>)
      next
        case False
        have e: "upsgi_master_check_chain cfg now m = (upsgi_curse cfg now k (Some SIGHUP) m)\<lparr>ms_last_chain_curse := now\<rparr>"
          using False loop by (auto simp: e3)
        show thesis by (rule curse) (use False 3 k0 e acc in \<open>auto simp: k_def\<close>)
      qed
    qed
  qed
qed

lemma chain_check_inv:
  assumes inv: "chain_inv n c0 m" and now: "0 < now"
  shows "chain_inv n c0 (upsgi_master_check_chain cfg now m)"
  using inv
proof (cases rule: chain_check_cases [where cfg = cfg and now = now])
  case idle
  with inv show ?thesis by (simp add: chain_inv_def Let_def)
next
  case wait
  with inv show ?thesis by simp
next
  case finish
  note w = chain_inv_worker [OF inv]
  have up: "w_cursed_at (the_worker m i) = 0 \<and> w_accepting (the_worker m i)" if "1 \<le> i" "i \<le> n" for i
    using w(3,5) [OF that] finish(1,2) that by (auto simp: le_less)
  show ?thesis unfolding finish(3)
  proof (rule chain_invI)
    fix i assume i: "1 \<le> i" "i \<le> n"
    show "w_pid (the_worker (m\<lparr>ms_chain := 0, ms_last_chain_curse := 0\<rparr>) i) > 0 \<and> \<not> w_cheaped (the_worker (m\<lparr>ms_chain := 0, ms_last_chain_curse := 0\<rparr>) i) \<and>
      (w_cursed_at (the_worker (m\<lparr>ms_chain := 0, ms_last_chain_curse := 0\<rparr>) i) \<noteq> 0 \<longrightarrow> i = ms_chain (m\<lparr>ms_chain := 0, ms_last_chain_curse := 0\<rparr>) \<and> w_accepting (the_worker (m\<lparr>ms_chain := 0, ms_last_chain_curse := 0\<rparr>) i)) \<and>
      (\<not> w_accepting (the_worker (m\<lparr>ms_chain := 0, ms_last_chain_curse := 0\<rparr>) i) \<longrightarrow> Suc i = ms_chain (m\<lparr>ms_chain := 0, ms_last_chain_curse := 0\<rparr>)) \<and>
      w_respawn_count (the_worker (m\<lparr>ms_chain := 0, ms_last_chain_curse := 0\<rparr>) i) = c0 i + (if ms_chain (m\<lparr>ms_chain := 0, ms_last_chain_curse := 0\<rparr>) = 0 \<or> i < ms_chain (m\<lparr>ms_chain := 0, ms_last_chain_curse := 0\<rparr>) then 1 else 0)"
      using up [OF i] w(1,2,6) [OF i] finish(1) i by simp
  qed (use up chain_inv_size [OF inv] in auto)
next
  case curse
  note w = chain_inv_worker [OF inv]
  note n = chain_inv_size [OF inv]
  define m' where "m' = upsgi_master_check_chain cfg now m"
  have e: "the_worker m' i =
      (if i = ms_chain m then (the_worker m i)\<lparr>w_cursed_at := now, w_no_mercy_at := now + mc_worker_reload_mercy cfg\<rparr> else the_worker m i)"
    if "1 \<le> i" "i \<le> n" for i
    using that curse(1,2) n by (simp add: m'_def curse(5))
  have c: "ms_chain m' = ms_chain m" "numproc m' = n" using n by (simp_all add: m'_def curse(5))
  have a: "w_accepting (the_worker m (ms_chain m))" using w(5) [OF curse(1,2)] by auto
  have "chain_inv n c0 m'"
  proof (rule chain_invI)
    fix i assume i: "1 \<le> i" "i \<le> n"
    show "w_pid (the_worker m' i) > 0 \<and> \<not> w_cheaped (the_worker m' i) \<and> (w_cursed_at (the_worker m' i) \<noteq> 0 \<longrightarrow> i = ms_chain m' \<and> w_accepting (the_worker m' i)) \<and>
      (\<not> w_accepting (the_worker m' i) \<longrightarrow> Suc i = ms_chain m') \<and> w_respawn_count (the_worker m' i) = c0 i + (if ms_chain m' = 0 \<or> i < ms_chain m' then 1 else 0)"
      using w [OF i] a by (auto simp: e [OF i] c)
  next
    fix i assume i: "1 \<le> i" "Suc i \<le> n" "\<not> w_accepting (the_worker m' i)"
    have na: "\<not> w_accepting (the_worker m i)" using i e [of i] by (auto split: if_splits)
    then have "ms_chain m = Suc i" using w(5) [of i] i by simp
    with curse(3) na i(1) show "w_cursed_at (the_worker m' (Suc i)) = 0" by simp
  qed (use n c in auto)
  then show ?thesis by (simp add: m'_def)
qed

lemma turnover_effect:
  assumes "1 \<le> i" "i \<le> numproc m" "\<not> w_cheaped (the_worker m i)" "pid > 0" "ms_chain m = i"
  shows "\<exists>m'. worker_died False need_app t ExitOther pid i m = (Respawned, m') \<and> ms_chain m' = i + 1 \<and> numproc m' = numproc m \<and>
    (\<forall>j. 1 \<le> j \<and> j \<le> numproc m \<and> j \<noteq> i \<longrightarrow> the_worker m' j = the_worker m j) \<and>
    (let w = the_worker m' i in w_pid w > 0 \<and> \<not> w_cheaped w \<and> w_cursed_at w = 0 \<and> \<not> w_accepting w \<and>
       w_respawn_count w = w_respawn_count (the_worker m i) + 1)"
  using assms by (simp add: worker_died_def Let_def upsgi_respawn_worker_def)

lemma chain_turnover_inv:
  assumes inv: "chain_inv n c0 m" and i: "1 \<le> i" "i \<le> numproc m" "w_cursed_at (the_worker m i) \<noteq> 0" and pid: "pid > 0"
    and d: "worker_died False need_app t ExitOther pid i m = (Respawned, m')"
  shows "chain_inv n c0 m'"
proof -
  note w = chain_inv_worker [OF inv]
  have n: "numproc m = n" "ms_chain m \<le> n + 1" using chain_inv_size [OF inv] by auto
  have k: "i = ms_chain m" using w(3) i n by blast
  define w' where "w' = the_worker m' i"
  have e: "ms_chain m' = ms_chain m + 1" "numproc m' = n"
    and o: "\<And>j. 1 \<le> j \<Longrightarrow> j \<le> n \<Longrightarrow> j \<noteq> i \<Longrightarrow> the_worker m' j = the_worker m j"
    and s: "w_pid w' > 0 \<and> \<not> w_cheaped w' \<and> w_cursed_at w' = 0 \<and> \<not> w_accepting w' \<and> w_respawn_count w' = w_respawn_count (the_worker m i) + 1"
    using turnover_effect [OF i(1,2) w(2) [OF i(1)] pid k [symmetric], of need_app t] i(2) d n k by (auto simp: w'_def Let_def)
  have up: "w_cursed_at (the_worker m j) = 0 \<and> w_accepting (the_worker m j)" if "1 \<le> j" "j \<le> n" "j \<noteq> i" for j
  proof -
    have "w_accepting (the_worker m j)"
    proof (rule ccontr)
      assume na: "\<not> w_accepting (the_worker m j)"
      then have "Suc j = i" using w(5) [OF that(1,2)] k by simp
      with chain_inv_next [OF inv that(1) _ na] i n show False by simp
    qed
    with w(3) [OF that(1,2)] that(3) k show ?thesis by auto
  qed
  show ?thesis
  proof (rule chain_invI)
    fix j assume j: "1 \<le> j" "j \<le> n"
    show "w_pid (the_worker m' j) > 0 \<and> \<not> w_cheaped (the_worker m' j) \<and>
      (w_cursed_at (the_worker m' j) \<noteq> 0 \<longrightarrow> j = ms_chain m' \<and> w_accepting (the_worker m' j)) \<and>
      (\<not> w_accepting (the_worker m' j) \<longrightarrow> Suc j = ms_chain m') \<and>
      w_respawn_count (the_worker m' j) = c0 j + (if ms_chain m' = 0 \<or> j < ms_chain m' then 1 else 0)"
    proof (cases "j = i")
      case True
      then show ?thesis using s e k w(6) [OF j] i(1) by (auto simp: w'_def)
    next
      case False
      then show ?thesis using o [OF j False] up [OF j False] w(1,2,6) [OF j] e k i(1) by auto
    qed
  next
    fix j assume j: "1 \<le> j" "Suc j \<le> n" "\<not> w_accepting (the_worker m' j)"
    have "j = i"
    proof (rule ccontr)
      assume "j \<noteq> i"
      with o [of j] up [of j] j show False by simp
    qed
    with o [of "Suc j"] up [of "Suc j"] j(2) show "w_cursed_at (the_worker m' (Suc j)) = 0" by simp
  qed (use e n i k in auto)
qed

lemma chain_ready_inv:
  assumes inv: "chain_inv n c0 m" and i: "1 \<le> i" "i \<le> numproc m"
  shows "chain_inv n c0 (worker_ready i m)"
proof -
  note w = chain_inv_worker [OF inv]
  note n = chain_inv_size [OF inv]
  have e: "the_worker (worker_ready i m) j = (if j = i then (the_worker m i)\<lparr>w_accepting := True\<rparr> else the_worker m j)" if "1 \<le> j" "j \<le> n" for j
    using i n that by (simp add: worker_ready_def)
  have c: "ms_chain (worker_ready i m) = ms_chain m" "numproc (worker_ready i m) = n" using n by (simp_all add: worker_ready_def)
  show ?thesis
  proof (rule chain_invI)
    fix j assume j: "1 \<le> j" "j \<le> n"
    show "w_pid (the_worker (worker_ready i m) j) > 0 \<and> \<not> w_cheaped (the_worker (worker_ready i m) j) \<and>
      (w_cursed_at (the_worker (worker_ready i m) j) \<noteq> 0 \<longrightarrow> j = ms_chain (worker_ready i m) \<and> w_accepting (the_worker (worker_ready i m) j)) \<and>
      (\<not> w_accepting (the_worker (worker_ready i m) j) \<longrightarrow> Suc j = ms_chain (worker_ready i m)) \<and>
      w_respawn_count (the_worker (worker_ready i m) j) = c0 j + (if ms_chain (worker_ready i m) = 0 \<or> j < ms_chain (worker_ready i m) then 1 else 0)"
      using w [OF j] by (auto simp: e [OF j] c)
  next
    fix j assume j: "1 \<le> j" "Suc j \<le> n" "\<not> w_accepting (the_worker (worker_ready i m) j)"
    have "\<not> w_accepting (the_worker m j)" using j e [of j] by (auto split: if_splits)
    from chain_inv_next [OF inv j(1,2) this] show "w_cursed_at (the_worker (worker_ready i m) (Suc j)) = 0" using e [of "Suc j"] j(2) by auto
  qed (use n c in auto)
qed

lemma chain_step_inv:
  assumes "chain_step cfg m m'" "chain_inv n c0 m"
  shows "chain_inv n c0 m'"
  using assms(1)
proof cases
  case (check now)
  then show ?thesis using chain_check_inv [OF assms(2)] by simp
next
  case (turnover i pid need_app t)
  then show ?thesis using chain_turnover_inv [OF assms(2)] by blast
next
  case (ready i)
  then show ?thesis using chain_ready_inv [OF assms(2)] by simp
qed

lemma chain_steps_inv: "(chain_step cfg)\<^sup>*\<^sup>* m m' \<Longrightarrow> chain_inv n c0 m \<Longrightarrow> chain_inv n c0 m'"
  by (induction rule: rtranclp_induct) (auto intro: chain_step_inv)

lemma chain_inv_down:
  assumes "chain_inv n c0 m"
  shows "card {i. 1 \<le> i \<and> i \<le> n \<and> \<not> worker_up (the_worker m i)} \<le> 1"
proof -
  note w = chain_inv_worker [OF assms]
  have same: "i = j" if a: "1 \<le> i" "i \<le> n" "\<not> worker_up (the_worker m i)" "1 \<le> j" "j \<le> n" "\<not> worker_up (the_worker m j)" for i j
  proof -
    have c: "k = ms_chain m \<and> w_accepting (the_worker m k) \<and> w_cursed_at (the_worker m k) \<noteq> 0 \<or> Suc k = ms_chain m \<and> \<not> w_accepting (the_worker m k)"
      if "1 \<le> k" "k \<le> n" "\<not> worker_up (the_worker m k)" for k
      using that w [OF that(1,2)] by (auto simp: worker_up_def)
    from c [OF a(1-3)] c [OF a(4-6)] show ?thesis
      using chain_inv_next [OF assms a(1)] chain_inv_next [OF assms a(4)] a(2,5) by auto
  qed
  show ?thesis
  proof (cases "{i. 1 \<le> i \<and> i \<le> n \<and> \<not> worker_up (the_worker m i)} = {}")
    case False
    then obtain i where "i \<in> {i. 1 \<le> i \<and> i \<le> n \<and> \<not> worker_up (the_worker m i)}" by blast
    with same have "{i. 1 \<le> i \<and> i \<le> n \<and> \<not> worker_up (the_worker m i)} = {i}" by blast
    then show ?thesis by simp
  next
    case True
    then show ?thesis unfolding True by simp
  qed
qed

definition fresh_fleet :: "master \<Rightarrow> bool" where
  "fresh_fleet m \<longleftrightarrow> ms_chain m = 1 \<and> (\<forall>i. 1 \<le> i \<and> i \<le> numproc m \<longrightarrow> worker_up (the_worker m i))"

lemma fresh_chain_inv: "fresh_fleet m \<Longrightarrow> chain_inv (numproc m) (\<lambda>i. w_respawn_count (the_worker m i)) m"
  by (rule chain_invI) (auto simp: fresh_fleet_def worker_up_def)

text \<open>C12: in every history of a chain reload in which the workers die only when they are asked to, at most one worker is away at
  any time, and when the chain is over every worker was started again exactly once.\<close>

theorem chain_reload_one_down:
  assumes "fresh_fleet m0" "(chain_step cfg)\<^sup>*\<^sup>* m0 m"
  shows "card {i. 1 \<le> i \<and> i \<le> numproc m \<and> \<not> worker_up (the_worker m i)} \<le> 1 \<and>
    (ms_chain m = 0 \<longrightarrow> (\<forall>i. 1 \<le> i \<and> i \<le> numproc m \<longrightarrow>
       worker_up (the_worker m i) \<and> w_respawn_count (the_worker m i) = w_respawn_count (the_worker m0 i) + 1))"
proof -
  note inv = chain_steps_inv [OF assms(2) fresh_chain_inv [OF assms(1)]]
  have n: "numproc m = numproc m0" by (rule chain_inv_size(1) [OF inv])
  have "worker_up (the_worker m i) \<and> w_respawn_count (the_worker m i) = w_respawn_count (the_worker m0 i) + 1"
    if "ms_chain m = 0" "1 \<le> i" "i \<le> numproc m" for i
    using chain_inv_worker [OF inv that(2)] that n by (auto simp: worker_up_def)
  with chain_inv_down [OF inv] n show ?thesis by simp
qed

text \<open>One worker after the other can be renewed, and then the chain ends.\<close>

definition renewed_to :: "nat \<Rightarrow> master \<Rightarrow> master \<Rightarrow> bool" where
  "renewed_to k m0 m \<longleftrightarrow> chain_inv (numproc m0) (\<lambda>i. w_respawn_count (the_worker m0 i)) m \<and> ms_chain m = k \<and>
     (\<forall>i. 1 \<le> i \<and> i \<le> numproc m0 \<longrightarrow> worker_up (the_worker m i))"

lemma renew_one:
  assumes "renewed_to k m0 m" "1 \<le> k" "k \<le> numproc m0" "mc_chain_reload_delay cfg \<le> 0"
  shows "\<exists>m'. (chain_step cfg)\<^sup>*\<^sup>* m m' \<and> renewed_to (k + 1) m0 m'"
proof -
  define n where "n = numproc m0"
  have r: "chain_inv n (\<lambda>i. w_respawn_count (the_worker m0 i)) m" "ms_chain m = k" "\<And>i. 1 \<le> i \<Longrightarrow> i \<le> n \<Longrightarrow> worker_up (the_worker m i)" "k \<le> n"
    using assms by (auto simp: renewed_to_def n_def)
  have nm: "numproc m = n" by (rule chain_inv_size(1) [OF r(1)])
  define m1 where "m1 = upsgi_master_check_chain cfg 1 m"
  have loop: "chain_loop cfg 1 k m = (upsgi_curse cfg 1 k (Some SIGHUP) m)\<lparr>ms_last_chain_curse := 1\<rparr>"
    using r(3) [OF assms(2) r(4)] r(4) nm by (subst chain_loop.simps) (simp add: Let_def worker_up_def)
  have up: "k > 1 \<Longrightarrow> w_accepting (the_worker m (k - 1))" using r(3) [of "k - 1"] r(4) by (auto simp: worker_up_def)
  have m1: "m1 = (upsgi_curse cfg 1 k (Some SIGHUP) m)\<lparr>ms_last_chain_curse := 1\<rparr>"
    using assms(2,4) r(2,4) nm up loop by (auto simp: m1_def upsgi_master_check_chain_def Let_def)
  have w1: "the_worker m1 k = (the_worker m k)\<lparr>w_cursed_at := 1, w_no_mercy_at := 1 + mc_worker_reload_mercy cfg\<rparr>" "numproc m1 = n" "ms_chain m1 = k"
    using assms(2) r(2,4) nm by (simp_all add: m1)
  have "\<not> w_cheaped (the_worker m1 k)" using r(3) [OF assms(2) r(4)] by (simp add: w1 worker_up_def)
  from turnover_effect [OF assms(2) _ this _ w1(3), of 1 False 0] w1(2) r(4) obtain m2 where
    m2: "worker_died False False 0 ExitOther 1 k m1 = (Respawned, m2)" "ms_chain m2 = k + 1" "numproc m2 = n"
    "\<And>j. 1 \<le> j \<Longrightarrow> j \<le> n \<Longrightarrow> j \<noteq> k \<Longrightarrow> the_worker m2 j = the_worker m1 j"
    "w_pid (the_worker m2 k) > 0 \<and> \<not> w_cheaped (the_worker m2 k) \<and> w_cursed_at (the_worker m2 k) = 0"
    by (auto simp: Let_def)
  define m3 where "m3 = worker_ready k m2"
  have s1: "chain_step cfg m m1" unfolding m1_def by (rule chain_step.check) simp
  have s2: "chain_step cfg m1 m2"
    by (rule chain_step.turnover [OF assms(2) _ _ _ _ m2(1)]) (use w1 r(3) [OF assms(2) r(4)] r(4) in \<open>auto simp: worker_up_def\<close>)
  have s3: "chain_step cfg m2 m3" unfolding m3_def by (rule chain_step.ready) (use assms(2) r(4) m2(3,5) in auto)
  have st: "(chain_step cfg)\<^sup>*\<^sup>* m m3" using s1 s2 s3 by (meson r_into_rtranclp rtranclp_trans)
  have "worker_up (the_worker m3 j)" if "1 \<le> j" "j \<le> n" for j
  proof (cases "j = k")
    case True
    then show ?thesis using m2(3,5) assms(2) r(4) by (simp add: m3_def worker_ready_def worker_up_def)
  next
    case False
    then have "the_worker m3 j = the_worker m j" using m2(3,4) that assms(2) r(4) nm by (simp add: m3_def worker_ready_def m1)
    then show ?thesis using r(3) that by simp
  qed
  moreover have "ms_chain m3 = k + 1" by (simp add: m3_def worker_ready_def m2(2))
  ultimately have "renewed_to (k + 1) m0 m3" using chain_steps_inv [OF st r(1)] by (simp add: renewed_to_def n_def)
  with st show ?thesis by blast
qed

lemma renew_all:
  assumes "fresh_fleet m0" "mc_chain_reload_delay cfg \<le> 0" "k \<le> numproc m0"
  shows "\<exists>m. (chain_step cfg)\<^sup>*\<^sup>* m0 m \<and> renewed_to (k + 1) m0 m"
  using assms(3)
proof (induction k)
  case 0
  have "renewed_to 1 m0 m0" using assms(1) fresh_chain_inv [OF assms(1)] by (auto simp: renewed_to_def fresh_fleet_def)
  then show ?case by auto
next
  case (Suc k)
  then obtain m where m: "(chain_step cfg)\<^sup>*\<^sup>* m0 m" "renewed_to (k + 1) m0 m" by auto
  from renew_one [OF m(2) _ _ assms(2)] Suc.prems obtain m' where "(chain_step cfg)\<^sup>*\<^sup>* m m'" "renewed_to (k + 2) m0 m'" by auto
  with m(1) show ?case by (auto intro: rtranclp_trans)
qed

lemma chain_can_end:
  assumes "fresh_fleet m0" "mc_chain_reload_delay cfg \<le> 0"
  shows "\<exists>m. (chain_step cfg)\<^sup>*\<^sup>* m0 m \<and> ms_chain m = 0"
proof -
  from renew_all [OF assms order_refl] obtain m where m: "(chain_step cfg)\<^sup>*\<^sup>* m0 m" "renewed_to (numproc m0 + 1) m0 m" by blast
  have n: "numproc m = numproc m0" "ms_chain m = numproc m0 + 1" using m(2) chain_inv_size(1) by (auto simp: renewed_to_def)
  have "numproc m0 = 0 \<or> w_accepting (the_worker m (numproc m0))" using m(2) by (cases "1 \<le> numproc m0") (simp_all add: renewed_to_def worker_up_def not_le)
  then have "ms_chain (upsgi_master_check_chain cfg 1 m) = 0" using n by (auto simp: upsgi_master_check_chain_def Let_def)
  moreover have "chain_step cfg m (upsgi_master_check_chain cfg 1 m)" by (rule chain_step.check) simp
  ultimately show ?thesis using m(1) by (meson rtranclp.rtrancl_into_rtrancl)
qed

text \<open>a chain reload without pacing can always be brought to its end.\<close>

theorem chain_reload_completes:
  assumes "fresh_fleet m0" "mc_chain_reload_delay cfg \<le> 0"
  shows "\<exists>m. (chain_step cfg)\<^sup>*\<^sup>* m0 m \<and> ms_chain m = 0"
  using assms by (rule chain_can_end)

section \<open>What the cheaper subsystem touches\<close>

definition idle_active :: "upsgi_worker \<Rightarrow> bool" where
  "idle_active w \<longleftrightarrow> worker_active w \<and> \<not> upsgi_worker_is_busy w"

definition oldest_inv :: "master \<Rightarrow> nat set \<Rightarrow> nat \<times> int \<Rightarrow> bool" where
  "oldest_inv m I x \<longleftrightarrow> (case x of (o1, s) \<Rightarrow>
     (o1 = 0 \<and> s = INT_MAX \<or> o1 \<in> I \<and> idle_active (the_worker m o1) \<and> s = w_last_spawn (the_worker m o1) \<and> s < INT_MAX) \<and>
     (\<forall>i \<in> I. idle_active (the_worker m i) \<longrightarrow> s \<le> w_last_spawn (the_worker m i)))"

lemma oldest_fold:
  assumes "oldest_inv m I x"
  shows "oldest_inv m (I \<union> set is) (fold (\<lambda>i (o1, s). let w = the_worker m i in
         if worker_active w \<and> \<not> upsgi_worker_is_busy w \<and> w_last_spawn w < s then (i, w_last_spawn w) else (o1, s)) is x)"
  using assms
proof (induction "is" arbitrary: I x)
  case (Cons i "is")
  obtain o1 s where x: "x = (o1, s)" by force
  define y where "y = (let w = the_worker m i in
         if worker_active w \<and> \<not> upsgi_worker_is_busy w \<and> w_last_spawn w < s then (i, w_last_spawn w) else (o1, s))"
  have "oldest_inv m (insert i I) y"
    using Cons.prems by (auto simp: x y_def oldest_inv_def idle_active_def Let_def)
  from Cons.IH [OF this] show ?case by (simp add: x y_def)
qed simp

lemma oldest_worker_ok:
  "oldest_worker m = 0 \<and> (\<forall>i. 1 \<le> i \<and> i \<le> numproc m \<and> idle_active (the_worker m i) \<longrightarrow> INT_MAX \<le> w_last_spawn (the_worker m i)) \<or>
   1 \<le> oldest_worker m \<and> oldest_worker m \<le> numproc m \<and> idle_active (the_worker m (oldest_worker m)) \<and>
     w_last_spawn (the_worker m (oldest_worker m)) < INT_MAX \<and>
     (\<forall>i. 1 \<le> i \<and> i \<le> numproc m \<and> idle_active (the_worker m i) \<longrightarrow> w_last_spawn (the_worker m (oldest_worker m)) \<le> w_last_spawn (the_worker m i))"
proof -
  have "oldest_inv m {} (0, INT_MAX)" by (simp add: oldest_inv_def)
  note f = oldest_fold [OF this, of "[1 ..< numproc m + 1]"]
  define x where "x = fold (\<lambda>i (o1, s). let w = the_worker m i in
         if worker_active w \<and> \<not> upsgi_worker_is_busy w \<and> w_last_spawn w < s then (i, w_last_spawn w) else (o1, s)) [1 ..< numproc m + 1] (0, INT_MAX)"
  have o: "oldest_worker m = fst x" unfolding oldest_worker_def x_def ..
  have s: "{} \<union> set [1 ..< numproc m + 1] = {i. 1 \<le> i \<and> i \<le> numproc m}" by auto
  from f [folded x_def, unfolded s] show ?thesis unfolding o oldest_inv_def by (cases x) auto
qed

lemma cheap_one_touches:
  assumes "1 \<le> i" "i \<le> numproc m" "\<not> idle_active (the_worker m i)"
  shows "the_worker (cheap_one cfg now m) i = the_worker m i" "numproc (cheap_one cfg now m) = numproc m"
  using assms oldest_worker_ok [of m] by (auto simp: cheap_one_def Let_def)

lemma cheap_many_touches:
  assumes "1 \<le> i" "i \<le> numproc m" "\<not> idle_active (the_worker m i)"
  shows "the_worker ((cheap_one cfg now ^^ k) m) i = the_worker m i \<and> numproc ((cheap_one cfg now ^^ k) m) = numproc m"
proof (induction k)
  case (Suc k)
  then show ?case using cheap_one_touches [of i "(cheap_one cfg now ^^ k) m" cfg now] assms by simp
qed simp

lemma respawn_simps [simp]:
  "numproc (upsgi_respawn_worker t pid i m) = numproc m"
  "1 \<le> i \<Longrightarrow> i \<le> numproc m \<Longrightarrow> 1 \<le> j \<Longrightarrow> j \<le> numproc m \<Longrightarrow> j \<noteq> i \<Longrightarrow> the_worker (upsgi_respawn_worker t pid i m) j = the_worker m j"
  by (simp_all add: upsgi_respawn_worker_def)

lemma cheaper_spawn_touches:
  assumes "1 \<le> i" "i \<le> numproc m" "\<not> (w_cheaped (the_worker m i) \<and> w_pid (the_worker m i) = 0)" "\<forall>j \<in> set is. 1 \<le> j \<and> j \<le> numproc m"
  shows "the_worker (cheaper_spawn t pids is needed m) i = the_worker m i \<and> numproc (cheaper_spawn t pids is needed m) = numproc m"
  using assms
proof (induction "is" arbitrary: needed m)
  case (Cons j "is")
  have e: "the_worker (upsgi_respawn_worker t (pids j) j m) i = the_worker m i" if "w_cheaped (the_worker m j)" "w_pid (the_worker m j) = 0"
    using that Cons.prems by (cases "j = i") auto
  show ?case
  proof (cases "w_cheaped (the_worker m j) \<and> w_pid (the_worker m j) = 0")
    case True
    have "the_worker (cheaper_spawn t pids is (needed - 1) (upsgi_respawn_worker t (pids j) j m)) i = the_worker m i \<and>
        numproc (cheaper_spawn t pids is (needed - 1) (upsgi_respawn_worker t (pids j) j m)) = numproc m"
      using Cons.IH [of "upsgi_respawn_worker t (pids j) j m" "needed - 1"] Cons.prems e True by simp
    with True e show ?thesis by (simp add: Let_def)
  next
    case False
    then show ?thesis using Cons.IH [of m needed] Cons.prems by (auto simp: Let_def)
  qed
qed simp

text \<open>The algorithms look at the workers and change counters only.\<close>

definition only_looks :: "(bool \<Rightarrow> master \<Rightarrow> (int \<times> master) option) \<Rightarrow> bool" where
  "only_looks algo \<longleftrightarrow> (\<forall>b m n m'. algo b m = Some (n, m') \<longrightarrow> ms_workers m' = ms_workers m)"

lemma algos_only_look:
  "only_looks (upsgi_cheaper_algo_manual cfg)" "only_looks (upsgi_cheaper_algo_spare cfg)"
  "only_looks (upsgi_cheaper_algo_spare2 cfg)" "only_looks (upsgi_cheaper_algo_backlog cfg)"
  by (auto simp: only_looks_def upsgi_cheaper_algo_manual_def upsgi_cheaper_algo_spare_def upsgi_cheaper_algo_spare2_def
      upsgi_cheaper_algo_backlog_def Let_def split: if_splits)

lemma workers_eq: "ms_workers m' = ms_workers m \<Longrightarrow> the_worker m' = the_worker m"
  by (rule ext) (simp add: the_worker_def)

text \<open>The ways through a step.\<close>

lemma calc_cases:
  assumes "upsgi_calc_cheaper cfg algo now t pids m = Some m'"
  obtains (early) "m' = m\<lparr>ms_last_check := (if ms_last_check m = 0 then now else ms_last_check m)\<rparr>"
  | (fifo) k where "ms_fifo_delta m \<noteq> 0" "m' = cheaper_apply cfg now t pids k (m\<lparr>ms_last_check := now, ms_fifo_delta := 0\<rparr>)"
  | (limit) k where "mc_rss_limit_soft cfg \<noteq> 0" "m' = cheaper_apply cfg now t pids k (m\<lparr>ms_last_check := now\<rparr>)"
  | (algo) b n m2 where "algo b (m\<lparr>ms_last_check := now\<rparr>) = Some (n, m2)" "b \<or> mc_rss_limit_soft cfg \<noteq> 0"
      "m' = cheaper_apply cfg now t pids (if \<not> b \<and> n > 0 then 0 else n) m2"
proof -
  obtain needed ig where r: "rss_limits cfg (m\<lparr>ms_last_check := now\<rparr>) = (needed, ig)" by force
  have rl: "mc_rss_limit_soft cfg = 0 \<Longrightarrow> needed = 0 \<and> \<not> ig" using r by (simp add: rss_limits_def)
  define e where "e = (now - (if ms_last_check m = 0 then now else ms_last_check m) < (if mc_master_interval cfg = 0 then 1 else mc_master_interval cfg))"
  consider "e" | "\<not> e" "ms_fifo_delta m \<noteq> 0" | "\<not> e" "ms_fifo_delta m = 0" "needed \<noteq> 0" | "\<not> e" "ms_fifo_delta m = 0" "needed = 0" by blast
  then show thesis
  proof cases
    case 1
    then show thesis using assms early by (simp add: upsgi_calc_cheaper_def e_def)
  next
    case 2
    then show thesis using assms fifo [of "if ig then needed else ms_fifo_delta m"] by (simp add: upsgi_calc_cheaper_def e_def r Let_def cong: if_cong)
  next
    case 3
    then show thesis using assms limit [of "if ig \<and> needed > 0 then 0 else needed"] rl by (auto simp: upsgi_calc_cheaper_def e_def r Let_def)
  next
    case 4
    then obtain n m2 where "algo (\<not> ig) (m\<lparr>ms_last_check := now\<rparr>) = Some (n, m2)" "m' = cheaper_apply cfg now t pids (if ig \<and> n > 0 then 0 else n) m2"
      using assms by (auto simp: upsgi_calc_cheaper_def e_def r Let_def split: option.splits)
    then show thesis using algo [of "\<not> ig" n m2] rl by auto
  qed
qed

text \<open>A step of the cheaper subsystem, with any algorithm that only looks at the workers, changes only workers that are off and
  are started, and active workers that are not busy.\<close>

lemma calc_cheaper_frame:
  assumes "upsgi_calc_cheaper cfg algo now t pids m = Some m'" "only_looks algo" "1 \<le> i" "i \<le> numproc m"
    "\<not> (w_cheaped (the_worker m i) \<and> w_pid (the_worker m i) = 0)" "\<not> idle_active (the_worker m i)"
  shows "the_worker m' i = the_worker m i"
proof -
  have a: "the_worker (cheaper_apply cfg now t pids k m2) i = the_worker m i" if "ms_workers m2 = ms_workers m" for k m2
    using cheaper_spawn_touches [of i m2 "[1 ..< numproc m2 + 1]" t pids k] cheap_many_touches [of i m2 "nat (- k)" cfg now]
      workers_eq [OF that] that assms(3-6) by (auto simp: cheaper_apply_def)
  from assms(1) show ?thesis
  proof (cases rule: calc_cases)
    case early
    then show ?thesis by simp
  next
    case (fifo k)
    then show ?thesis using a by simp
  next
    case (limit k)
    then show ?thesis using a by simp
  next
    case (algo b n m2)
    then have "ms_workers m2 = ms_workers m" using assms(2) by (fastforce simp: only_looks_def)
    with a algo(3) show ?thesis by simp
  qed
qed

text \<open>a step of the cheaper subsystem never touches a worker that is busy.\<close>

theorem cheaper_spares_busy:
  assumes "algo \<in> {upsgi_cheaper_algo_manual cfg, upsgi_cheaper_algo_spare cfg, upsgi_cheaper_algo_spare2 cfg, upsgi_cheaper_algo_backlog cfg}"
    "upsgi_calc_cheaper cfg algo now t pids m = Some m'" "1 \<le> i" "i \<le> numproc m" "w_pid (the_worker m i) > 0" "upsgi_worker_is_busy (the_worker m i)"
  shows "the_worker m' i = the_worker m i"
  using calc_cheaper_frame [OF assms(2) _ assms(3,4)] assms(1,5,6) algos_only_look by (auto simp: idle_active_def)

text \<open>a worker whose start failed is lost: it is neither off nor running, and no later step of the cheaper subsystem starts it.\<close>

theorem failed_fork_lost:
  assumes "1 \<le> i" "i \<le> numproc m" "w_pid (the_worker m i) = 0" "pid < 1" "only_looks algo"
    "upsgi_calc_cheaper cfg algo now t pids (upsgi_respawn_worker t0 pid i m) = Some m'"
  shows "w_pid (the_worker m' i) = 0 \<and> \<not> w_cheaped (the_worker m' i)"
proof -
  define m1 where "m1 = upsgi_respawn_worker t0 pid i m"
  have w: "w_pid (the_worker m1 i) = 0" "\<not> w_cheaped (the_worker m1 i)" "numproc m1 = numproc m"
    using assms(1-4) by (simp_all add: m1_def upsgi_respawn_worker_def)
  have "the_worker m' i = the_worker m1 i"
    by (rule calc_cheaper_frame [OF assms(6) [folded m1_def] assms(5,1)]) (use w assms(2) in \<open>auto simp: idle_active_def\<close>)
  with w show ?thesis by simp
qed

text \<open>workers started from the year 2038 on are never found by the search for the oldest one, so that none is stopped.\<close>

theorem oldest_worker_2038:
  assumes "\<forall>w \<in> set (ms_workers m). w_last_spawn w \<ge> INT_MAX"
  shows "cheap_one cfg now m = m\<lparr>ms_fifo_delta := ms_fifo_delta m - 1\<rparr>"
proof -
  have "the_worker m (oldest_worker m) \<in> set (ms_workers m)" if "1 \<le> oldest_worker m" "oldest_worker m \<le> numproc m"
    using that by (simp add: the_worker_def)
  then have "oldest_worker m = 0" using oldest_worker_ok [of m] assms by fastforce
  then show ?thesis by (simp add: cheap_one_def)
qed

section \<open>The number of workers stays above the minimum\<close>

lemma length_filter_update:
  "k < length xs \<Longrightarrow> int (length (filter P (xs[k := y]))) = int (length (filter P xs)) - (if P (xs ! k) then 1 else 0) + (if P y then 1 else 0)"
proof (induction xs arbitrary: k)
  case (Cons x xs)
  show ?case
  proof (cases k)
    case (Suc j)
    with Cons.IH [of j] Cons.prems show ?thesis by auto
  qed simp
qed simp

lemma active_set:
  assumes "1 \<le> i" "i \<le> numproc m"
  shows "active_workers (set_worker i f m) =
    active_workers m - (if worker_active (the_worker m i) then 1 else 0) + (if worker_active (f (the_worker m i)) then 1 else 0)"
  using length_filter_update [of "i - 1" "ms_workers m" worker_active "f (the_worker m i)"] assms
  by (simp add: active_workers_def set_worker_def the_worker_def)

lemma active_kill [simp]: "active_workers (kill p s m) = active_workers m"
  by (simp add: active_workers_def)

lemma active_curse [simp]:
  assumes "1 \<le> i" "i \<le> numproc m"
  shows "active_workers (upsgi_curse cfg now i s m) = active_workers m"
  using assms by (auto simp: upsgi_curse_def Let_def active_set split: option.splits)

lemma cheap_one_active: "active_workers (cheap_one cfg now m) \<ge> active_workers m - 1"
proof (cases "oldest_worker m = 0")
  case True
  then show ?thesis by (simp add: cheap_one_def active_workers_def)
next
  case False
  with oldest_worker_ok [of m] have "1 \<le> oldest_worker m" "oldest_worker m \<le> numproc m" by auto
  then show ?thesis using False by (simp add: cheap_one_def Let_def active_set)
qed

lemma cheaper_spawn_active:
  assumes "\<forall>j \<in> set is. 1 \<le> j \<and> j \<le> numproc m"
  shows "active_workers (cheaper_spawn t pids is needed m) \<ge> active_workers m"
  using assms
proof (induction "is" arbitrary: needed m)
  case (Cons j "is")
  have a: "active_workers (upsgi_respawn_worker t (pids j) j m) \<ge> active_workers m" if "w_cheaped (the_worker m j)"
    using Cons.prems that by (simp add: upsgi_respawn_worker_def active_set)
  show ?case
    using Cons.IH [of "upsgi_respawn_worker t (pids j) j m" "needed - 1"] Cons.IH [of m needed] Cons.prems a by (auto simp: Let_def)
qed simp

text \<open>An algorithm that stops at most one worker, and none below the minimum.\<close>

definition keeps_minimum :: "master_cfg \<Rightarrow> (bool \<Rightarrow> master \<Rightarrow> (int \<times> master) option) \<Rightarrow> bool" where
  "keeps_minimum cfg algo \<longleftrightarrow> only_looks algo \<and>
     (\<forall>b m n m'. algo b m = Some (n, m') \<longrightarrow> n \<ge> -1 \<and> (n = -1 \<longrightarrow> active_workers m > mc_cheaper_count cfg))"

lemma count_cheaped_nonneg: "0 \<le> n \<Longrightarrow> 0 \<le> count_cheaped step n ws"
  by (induction ws arbitrary: n) auto

lemma active_counters [simp]:
  "active_workers (m\<lparr>ms_overload_count := a\<rparr>) = active_workers m" "active_workers (m\<lparr>ms_overload_count := a, ms_idle_count := b\<rparr>) = active_workers m"
  by (simp_all add: active_workers_def)

lemma spare_answers:
  assumes "upsgi_cheaper_algo_spare cfg b m = Some (n, m')"
  shows "n \<ge> -1" "n = -1 \<Longrightarrow> active_workers m > mc_cheaper_count cfg"
  using assms count_cheaped_nonneg [of 0 "mc_cheaper_step cfg" "ms_workers m"]
  by (auto simp: upsgi_cheaper_algo_spare_def Let_def split: if_splits)

lemma backlog_answers:
  assumes "upsgi_cheaper_algo_backlog cfg b m = Some (n, m')"
  shows "n \<ge> -1" "n = -1 \<Longrightarrow> active_workers m > mc_cheaper_count cfg"
  using assms count_cheaped_nonneg [of 0 "mc_cheaper_step cfg" "ms_workers m"]
  by (auto simp: upsgi_cheaper_algo_backlog_def split: if_splits)

lemma algos_keep_minimum:
  "keeps_minimum cfg (upsgi_cheaper_algo_manual cfg)" "keeps_minimum cfg (upsgi_cheaper_algo_spare cfg)" "keeps_minimum cfg (upsgi_cheaper_algo_backlog cfg)"
  unfolding keeps_minimum_def using algos_only_look spare_answers backlog_answers
  by (auto simp: upsgi_cheaper_algo_manual_def)

text \<open>without a limit of the memory and without requests of the administrator, a step with the algorithms \<open>spare\<close>, \<open>backlog\<close>
  or \<open>manual\<close> leaves at least the minimum of active workers, or as many as there were.\<close>

theorem cheaper_keeps_minimum:
  assumes "algo \<in> {upsgi_cheaper_algo_manual cfg, upsgi_cheaper_algo_spare cfg, upsgi_cheaper_algo_backlog cfg}"
    "upsgi_calc_cheaper cfg algo now t pids m = Some m'" "mc_rss_limit_soft cfg = 0" "ms_fifo_delta m = 0"
  shows "active_workers m' \<ge> min (mc_cheaper_count cfg) (active_workers m)"
proof -
  have km: "keeps_minimum cfg algo" using assms(1) algos_keep_minimum by auto
  have e: "active_workers (m\<lparr>ms_last_check := x\<rparr>) = active_workers m" for x by (simp add: active_workers_def)
  from assms(2) show ?thesis
  proof (cases rule: calc_cases)
    case early
    then show ?thesis by (simp add: e)
  next
    case (algo b n m2)
    then have b: "b" using assms(3) by simp
    have n: "n \<ge> -1" "n = -1 \<Longrightarrow> active_workers m > mc_cheaper_count cfg" "active_workers m2 = active_workers m"
    proof -
      from km algo(1) have "n \<ge> -1 \<and> (n = -1 \<longrightarrow> active_workers (m\<lparr>ms_last_check := now\<rparr>) > mc_cheaper_count cfg)" "ms_workers m2 = ms_workers (m\<lparr>ms_last_check := now\<rparr>)"
        unfolding keeps_minimum_def only_looks_def by blast+
      then show "n \<ge> -1" "n = -1 \<Longrightarrow> active_workers m > mc_cheaper_count cfg" "active_workers m2 = active_workers m"
        by (simp_all add: e) (simp add: active_workers_def)
    qed
    have m': "m' = cheaper_apply cfg now t pids n m2" using algo(3) b by simp
    show ?thesis
    proof (cases "n > 0")
      case True
      then show ?thesis using cheaper_spawn_active [of "[1 ..< numproc m2 + 1]" m2 t pids n] n(3) m' by (auto simp: cheaper_apply_def)
    next
      case False
      then have "n = 0 \<or> n = -1" using n(1) by linarith
      then show ?thesis using cheap_one_active [of m2 cfg now] n(2,3) m' by (auto simp: cheaper_apply_def)
    qed
  qed (use assms(3,4) in auto)
qed

section \<open>Deadlines\<close>

lemma core_harakiri_simps [simp]:
  "numproc (set_core_harakiri w c t m) = numproc m" "ms_kills (set_core_harakiri w c t m) = ms_kills m" "ms_backlog (set_core_harakiri w c t m) = ms_backlog m"
  "1 \<le> w \<Longrightarrow> w \<le> numproc m \<Longrightarrow> the_worker (set_core_harakiri w c t m) w =
     (the_worker m w)\<lparr>w_cores := (w_cores (the_worker m w))[c := (w_cores (the_worker m w) ! c)\<lparr>wc_harakiri := t\<rparr>]\<rparr>"
  by (simp_all add: set_core_harakiri_def) (simp_all add: set_worker_def)

lemma trigger_harakiri_simps:
  assumes "1 \<le> w" "w \<le> numproc m" "w_pid (the_worker m w) > 0"
  shows "ms_kills (trigger_harakiri cfg w m) = ms_kills m @ [(w_pid (the_worker m w),
      if w_pending_harakiri (the_worker m w) = 0 \<and> mc_graceful_timeout cfg > 0 then mc_graceful_signal cfg else SIGKILL)]"
    "numproc (trigger_harakiri cfg w m) = numproc m" "w_pid (the_worker (trigger_harakiri cfg w m) w) = w_pid (the_worker m w)"
    "w_pending_harakiri (the_worker (trigger_harakiri cfg w m) w) = w_pending_harakiri (the_worker m w) + 1"
    "w_cores (the_worker (trigger_harakiri cfg w m) w) = w_cores (the_worker m w)"
  using assms by (simp_all add: trigger_harakiri_def Let_def) (simp_all add: set_worker_def kill_def)

text \<open>the first check behind the deadline of a core asks its worker to end and moves the deadline by the grace time; until then
  nothing happens, and from then on the worker is killed, whatever the listen queue.\<close>

theorem harakiri_escalates:
  assumes "1 \<le> w" "w \<le> numproc m" "w_pid (the_worker m w) > 0" "w_pending_harakiri (the_worker m w) = 0" "c < length (w_cores (the_worker m w))"
    "h = wc_harakiri (w_cores (the_worker m w) ! c)" "0 < h" "h \<le> t" "ms_backlog m \<ge> mc_queue_threshold cfg" "mc_graceful_timeout cfg > 0"
  shows "\<exists>m1. upsgi_master_check_harakiri cfg t w c h m = (True, m1) \<and>
    ms_kills m1 = ms_kills m @ [(w_pid (the_worker m w), mc_graceful_signal cfg)] \<and>
    (let h1 = wc_harakiri (w_cores (the_worker m1 w) ! c) in h1 = h + mc_graceful_timeout cfg \<and>
      (\<forall>t1 < h1. upsgi_master_check_harakiri cfg t1 w c h1 m1 = (False, m1)) \<and>
      (\<forall>t1 \<ge> h1. \<forall>b. ms_kills (snd (upsgi_master_check_harakiri cfg t1 w c h1 (m1\<lparr>ms_backlog := b\<rparr>))) =
         ms_kills m1 @ [(w_pid (the_worker m w), SIGKILL)]))"
proof -
  note tr = trigger_harakiri_simps [OF assms(1-3), of cfg]
  define m1 where "m1 = set_core_harakiri w c (h + mc_graceful_timeout cfg) (trigger_harakiri cfg w m)"
  have m1: "upsgi_master_check_harakiri cfg t w c h m = (True, m1)"
    using assms(7-10) by (simp add: upsgi_master_check_harakiri_def m1_def Let_def)
  have w1: "wc_harakiri (w_cores (the_worker m1 w) ! c) = h + mc_graceful_timeout cfg" "w_pending_harakiri (the_worker m1 w) = 1"
    "w_pid (the_worker m1 w) = w_pid (the_worker m w)" "numproc m1 = numproc m"
    using assms(1,2,4,5) tr by (simp_all add: m1_def)
  have k: "ms_kills m1 = ms_kills m @ [(w_pid (the_worker m w), mc_graceful_signal cfg)]"
    using assms(4,10) tr(1) by (simp add: m1_def)
  have again: "ms_kills (snd (upsgi_master_check_harakiri cfg t1 w c (h + mc_graceful_timeout cfg) (m1\<lparr>ms_backlog := b\<rparr>))) =
      ms_kills m1 @ [(w_pid (the_worker m w), SIGKILL)]" if "t1 \<ge> h + mc_graceful_timeout cfg" for t1 b
  proof -
    have e: "the_worker (m1\<lparr>ms_backlog := b\<rparr>) w = the_worker m1 w" by (simp add: the_worker_def)
    have "ms_kills (trigger_harakiri cfg w (m1\<lparr>ms_backlog := b\<rparr>)) = ms_kills m1 @ [(w_pid (the_worker m w), SIGKILL)]"
      using trigger_harakiri_simps(1) [of w "m1\<lparr>ms_backlog := b\<rparr>" cfg] assms(1-3) w1 e by simp
    with that assms(7,10) w1(2) e show ?thesis by (simp add: upsgi_master_check_harakiri_def Let_def)
  qed
  have before: "upsgi_master_check_harakiri cfg t1 w c (h + mc_graceful_timeout cfg) m1 = (False, m1)" if "t1 < h + mc_graceful_timeout cfg" for t1
    using that by (simp add: upsgi_master_check_harakiri_def)
  show ?thesis
  proof (intro exI [of _ m1] conjI)
    show "upsgi_master_check_harakiri cfg t w c h m = (True, m1)" by (rule m1)
    show "ms_kills m1 = ms_kills m @ [(w_pid (the_worker m w), mc_graceful_signal cfg)]" by (rule k)
    show "let h1 = wc_harakiri (w_cores (the_worker m1 w) ! c) in h1 = h + mc_graceful_timeout cfg \<and>
      (\<forall>t1 < h1. upsgi_master_check_harakiri cfg t1 w c h1 m1 = (False, m1)) \<and>
      (\<forall>t1 \<ge> h1. \<forall>b. ms_kills (snd (upsgi_master_check_harakiri cfg t1 w c h1 (m1\<lparr>ms_backlog := b\<rparr>))) =
         ms_kills m1 @ [(w_pid (the_worker m w), SIGKILL)])"
      unfolding Let_def w1(1) using before again by blast
  qed
qed

section \<open>Concrete masters\<close>

definition core0 :: wcore where
  "core0 = \<lparr>wc_in_request = False, wc_harakiri = 0, wc_user_harakiri = 0, wc_requests = 0\<rparr>"

definition worker0 :: "int \<Rightarrow> upsgi_worker" where
  "worker0 pid = \<lparr>w_pid = pid, w_last_spawn = 10, w_respawn_count = 0, w_requests = 0, w_harakiri_count = 0, w_pending_harakiri = 0, w_vsz_size = 0,
     w_rss_size = 0, w_manage_next_request = True, w_cheaped = False, w_suspended = False, w_sig = False, w_cursed_at = 0, w_no_mercy_at = 0,
     w_cores = [core0], w_accepting = True\<rparr>"

definition master0 :: "upsgi_worker list \<Rightarrow> master" where
  "master0 ws = \<lparr>ms_workers = ws, ms_requests = 0, ms_suspended = False, ms_chain = 1, ms_last_chain_curse = 0, ms_fifo_delta = 0, ms_last_check = 5,
     ms_overload_count = 0, ms_idle_count = 0, ms_idle_count2 = 0, ms_backlog = 0, ms_overloaded = 0, ms_busy_workers = 0, ms_idle_workers = 0,
     ms_kills = []\<rparr>"

definition mcfg0 :: master_cfg where
  "mcfg0 = \<lparr>mc_worker_reload_mercy = 60, mc_chain_reload_delay = 0, mc_master_interval = 1, mc_cheaper_overload = 1, mc_cheaper_step = 1,
     mc_cheaper_count = 1, mc_cheaper_idle = 10, mc_rss_limit_soft = 0, mc_rss_limit_hard = 0, mc_graceful_timeout = 30,
     mc_graceful_signal = SIG_NUM 12, mc_queue_threshold = 0, mc_evil_as = 0, mc_evil_rss = 0, mc_max_lifetime = 0, mc_lifetime_delta = 0\<rparr>"

lemma fleet0: "fresh_fleet (master0 [worker0 7, worker0 8])"
proof -
  have "worker_up (worker0 7)" "worker_up (worker0 8)" by (simp_all add: worker_up_def worker0_def)
  then show ?thesis by (auto simp: fresh_fleet_def master0_def the_worker_def less_Suc_eq nth_Cons' le_Suc_eq numeral_2_eq_2)
qed

theorem chain_reload_one_down_witness:
  "\<exists>m. (chain_step mcfg0)\<^sup>*\<^sup>* (master0 [worker0 7, worker0 8]) m \<and> ms_chain m = 0 \<and>
     card {i. 1 \<le> i \<and> i \<le> numproc m \<and> \<not> worker_up (the_worker m i)} \<le> 1"
proof -
  obtain m where m: "(chain_step mcfg0)\<^sup>*\<^sup>* (master0 [worker0 7, worker0 8]) m" "ms_chain m = 0"
    using chain_can_end [OF fleet0, of mcfg0] by (auto simp: mcfg0_def)
  with chain_reload_one_down [OF fleet0 m(1)] show ?thesis by blast
qed

theorem chain_reload_completes_witness:
  "\<exists>m. (chain_step mcfg0)\<^sup>*\<^sup>* (master0 [worker0 7, worker0 8]) m \<and> ms_chain m = 0"
  using chain_reload_completes [OF fleet0, of mcfg0] by (simp add: mcfg0_def)

abbreviation busy0 :: upsgi_worker where
  "busy0 \<equiv> (worker0 7)\<lparr>w_cores := [core0\<lparr>wc_in_request := True\<rparr>]\<rparr>"

theorem cheaper_spares_busy_witness:
  "\<exists>m'. upsgi_calc_cheaper mcfg0 (upsgi_cheaper_algo_manual mcfg0) 100 100 (\<lambda>_. 9) ((master0 [busy0, worker0 8])\<lparr>ms_fifo_delta := -2\<rparr>) = Some m' \<and>
     the_worker m' 1 = busy0"
proof -
  obtain m' where m': "upsgi_calc_cheaper mcfg0 (upsgi_cheaper_algo_manual mcfg0) 100 100 (\<lambda>_. 9) ((master0 [busy0, worker0 8])\<lparr>ms_fifo_delta := -2\<rparr>) = Some m'"
    by (simp add: upsgi_calc_cheaper_def mcfg0_def master0_def rss_limits_def Let_def)
  have w: "the_worker ((master0 [busy0, worker0 8])\<lparr>ms_fifo_delta := -2\<rparr>) 1 = busy0" by (simp add: the_worker_def master0_def)
  from cheaper_spares_busy [OF _ m', of 1] w m' show ?thesis
    by (auto simp: master0_def worker0_def upsgi_worker_is_busy_def)
qed

theorem cheaper_keeps_minimum_witness:
  "\<exists>m'. upsgi_calc_cheaper mcfg0 (upsgi_cheaper_algo_spare mcfg0) 100 100 (\<lambda>_. 9) (master0 [worker0 7, worker0 8]) = Some m' \<and>
     active_workers m' \<ge> 1"
proof -
  let ?m = "master0 [worker0 7, worker0 8]"
  obtain m' where m': "upsgi_calc_cheaper mcfg0 (upsgi_cheaper_algo_spare mcfg0) 100 100 (\<lambda>_. 9) ?m = Some m'"
    by (cases "upsgi_calc_cheaper mcfg0 (upsgi_cheaper_algo_spare mcfg0) 100 100 (\<lambda>_. 9) ?m")
      (auto simp: upsgi_calc_cheaper_def mcfg0_def master0_def rss_limits_def Let_def upsgi_cheaper_algo_spare_def split: if_splits)
  have "active_workers ?m = 2" by (simp add: active_workers_def master0_def worker0_def)
  with cheaper_keeps_minimum [OF _ m'] m' show ?thesis by (auto simp: mcfg0_def master0_def)
qed

theorem failed_fork_lost_witness:
  "\<exists>m'. upsgi_calc_cheaper mcfg0 (upsgi_cheaper_algo_manual mcfg0) 100 100 (\<lambda>_. 9)
       ((upsgi_respawn_worker 50 (-1) 1 (master0 [(worker0 0)\<lparr>w_cheaped := True\<rparr>]))\<lparr>ms_fifo_delta := 1\<rparr>) = Some m' \<and>
     w_pid (the_worker m' 1) = 0"
proof -
  have e: "(upsgi_respawn_worker 50 (-1) 1 (master0 [(worker0 0)\<lparr>w_cheaped := True\<rparr>]))\<lparr>ms_fifo_delta := 1\<rparr> =
      upsgi_respawn_worker 50 (-1) 1 ((master0 [(worker0 0)\<lparr>w_cheaped := True\<rparr>])\<lparr>ms_fifo_delta := 1\<rparr>)"
    by (simp add: upsgi_respawn_worker_def set_worker_def the_worker_def)
  obtain m' where m': "upsgi_calc_cheaper mcfg0 (upsgi_cheaper_algo_manual mcfg0) 100 100 (\<lambda>_. 9)
      (upsgi_respawn_worker 50 (-1) 1 ((master0 [(worker0 0)\<lparr>w_cheaped := True\<rparr>])\<lparr>ms_fifo_delta := 1\<rparr>)) = Some m'"
    by (simp add: upsgi_calc_cheaper_def mcfg0_def master0_def rss_limits_def Let_def upsgi_respawn_worker_def set_worker_def)
  have "w_pid (the_worker m' 1) = 0 \<and> \<not> w_cheaped (the_worker m' 1)"
    by (rule failed_fork_lost [OF _ _ _ _ _ m']) (simp_all add: master0_def the_worker_def worker0_def algos_only_look)
  with m' show ?thesis unfolding e by blast
qed

theorem oldest_worker_2038_witness:
  "cheap_one mcfg0 2147483700 (master0 [(worker0 7)\<lparr>w_last_spawn := 2147483650\<rparr>]) = (master0 [(worker0 7)\<lparr>w_last_spawn := 2147483650\<rparr>])\<lparr>ms_fifo_delta := -1\<rparr>"
  using oldest_worker_2038 [of "master0 [(worker0 7)\<lparr>w_last_spawn := 2147483650\<rparr>]" mcfg0 2147483700] by (simp add: master0_def)

theorem harakiri_escalates_witness:
  "\<exists>m1. upsgi_master_check_harakiri mcfg0 100 1 0 90 (master0 [(worker0 7)\<lparr>w_cores := [core0\<lparr>wc_harakiri := 90\<rparr>]\<rparr>]) = (True, m1) \<and>
     ms_kills m1 = [(7, SIG_NUM 12)] \<and> upsgi_master_check_harakiri mcfg0 119 1 0 120 m1 = (False, m1)"
proof -
  let ?m = "master0 [(worker0 7)\<lparr>w_cores := [core0\<lparr>wc_harakiri := 90\<rparr>]\<rparr>]"
  have w: "the_worker ?m 1 = (worker0 7)\<lparr>w_cores := [core0\<lparr>wc_harakiri := 90\<rparr>]\<rparr>" by (simp add: master0_def the_worker_def)
  have "\<exists>m1. upsgi_master_check_harakiri mcfg0 100 1 0 90 ?m = (True, m1) \<and>
    ms_kills m1 = ms_kills ?m @ [(w_pid (the_worker ?m 1), mc_graceful_signal mcfg0)] \<and>
    (let h1 = wc_harakiri (w_cores (the_worker m1 1) ! 0) in h1 = 90 + mc_graceful_timeout mcfg0 \<and>
      (\<forall>t1 < h1. upsgi_master_check_harakiri mcfg0 t1 1 0 h1 m1 = (False, m1)) \<and>
      (\<forall>t1 \<ge> h1. \<forall>b. ms_kills (snd (upsgi_master_check_harakiri mcfg0 t1 1 0 h1 (m1\<lparr>ms_backlog := b\<rparr>))) =
         ms_kills m1 @ [(w_pid (the_worker ?m 1), SIGKILL)]))"
    by (rule harakiri_escalates) (unfold w, simp_all add: master0_def mcfg0_def worker0_def core0_def)
  then obtain m1 where m1: "upsgi_master_check_harakiri mcfg0 100 1 0 90 ?m = (True, m1)" "ms_kills m1 = [(7, SIG_NUM 12)]"
      "\<forall>t1 < 120. upsgi_master_check_harakiri mcfg0 t1 1 0 120 m1 = (False, m1)"
    unfolding w by (auto simp: master0_def mcfg0_def worker0_def Let_def)
  from m1(3) [rule_format, of 119] m1(1,2) show ?thesis by auto
qed


text \<open>the memory limit is checked for a worker that is gone as well, and then the signal goes to process 0, the whole process group
  of the master.\<close>

theorem evil_reload_kills_group:
  "let m = snd (worker_died False False 100 ExitGoCheap 0 1 (master0 [(worker0 7)\<lparr>w_vsz_size := 500\<rparr>])) in
   w_pid (the_worker m 1) = 0 \<and> ms_kills (snd (evil_checks (mcfg0\<lparr>mc_evil_as := 400\<rparr>) 101 1 (False, m))) = [(0, SIGKILL)]"
  by code_simp

end
