(* ===== verification/Upsgi_Routing.thy ===== *)
theory Upsgi_Routing
  imports Upsgi_Cron Upsgi_Query Upsgi_Writer "HOL-Library.AList"
begin

text \<open>
  The internal routing (core/routing.c, with the substitution of groups of core/regexp.c, the types of core/static.c and the log
  variables of core/logging.c).  Rules from the configuration form four tables; each rule has a condition or a subject with a
  pattern, and an action.  The interpreter walks a table with two counters in the request, \<open>route_pc\<close> and \<open>route_goto\<close>; actions
  change variables, fields and headers of the request, write the response, end the walk or jump ahead.

  The request (\<open>rt_req\<close>) holds the state of the response writer of \<open>Upsgi_Writer\<close> and with it the packet of variables; its fields
  are places in the buffer of the packet, so that a wrong length is a wrong reading.  PCRE, the resolver functions, the file
  system and the clocks are arguments (\<open>rt_cfg\<close>).  A result \<open>None\<close> stands for an access outside of a block.  What the writer
  does when it calls rules itself stays a parameter there.
\<close>

section \<open>Data\<close>

text \<open>The fields of the request that rules read or set, and the four tables of rules.\<close>

datatype req_field = F_host | F_uri | F_query_string | F_remote_addr | F_user_agent | F_referer | F_remote_user | F_path_info
  | F_script_name | F_appid | F_method | F_document_root | F_scheme | F_home | F_file | F_cookie

datatype route_table = T_routes | T_error | T_response | T_final

datatype route_cond = C_exists | C_isfile | C_isdir | C_islink | C_isexec | C_equal | C_startswith | C_endswith | C_regexp
  | C_higher | C_lower | C_higherequal | C_lowerequal | C_contains | C_ipv4in | C_ipv6in | C_empty | C_status

datatype route_func = R_continue | R_break | R_return | R_simple_math | R_harakiri | R_flush | R_fixcl | R_forcecl | R_log
  | R_donotlog | R_donotoffload | R_logvar | R_goto | R_addvar | R_addheader | R_remheader | R_clearheaders | R_disableheaders
  | R_signal | R_chdir | R_setapp | R_setscriptname | R_setmethod | R_seturi | R_setremoteaddr | R_setdocroot | R_setpathinfo
  | R_fixpathinfo | R_setscheme | R_setmodifier1 | R_setmodifier2 | R_setuser | R_sethome | R_setfile | R_setprocname | R_alarm | R_send

text \<open>\<open>data\<close> and \<open>data2\<close> are the memory from the pointer to the end of its block, the zero byte included.\<close>

record upsgi_route =
  ur_orig_route :: "char list"
  ur_subject_str :: "char list"
  ur_subject :: "req_field option"
  ur_if_func :: "route_cond option"
  ur_if_negate :: bool
  ur_if_status :: int
  ur_func :: route_func
  ur_data :: "char list"
  ur_data_len :: nat
  ur_data2 :: "char list"
  ur_data2_len :: nat
  ur_custom :: "64 word"
  ur_pos :: nat
  ur_label :: "char list option"

definition route_zero :: upsgi_route where
  "route_zero = \<lparr>ur_orig_route = [], ur_subject_str = [], ur_subject = None, ur_if_func = None, ur_if_negate = False, ur_if_status = 0,
     ur_func = R_continue, ur_data = [], ur_data_len = 0, ur_data2 = [], ur_data2_len = 0, ur_custom = 0, ur_pos = 0, ur_label = None\<rparr>"

text \<open>The memory of a rule for one core: \<open>condition_ub\<close>, \<open>ovn\<close> and \<open>ovector\<close>, the latter as pairs.\<close>

record route_mem =
  rm_ub :: "char list option"
  rm_ovn :: nat
  rm_ovector :: "(int \<times> int) list"

definition no_mem :: route_mem where
  "no_mem = \<lparr>rm_ub = None, rm_ovn = 0, rm_ovector = []\<rparr>"

record mime_entry =
  mt_key :: "char list"
  mt_value :: "char list"
  mt_hits :: nat

text \<open>A field of the request is a place in the buffer of the packet and a length; \<open>None\<close> is a null pointer.\<close>

record rt_req =
  rt_wr :: wr_req
  rt_fd :: nat
  rt_field :: "req_field \<Rightarrow> (nat \<times> nat) option"
  rt_pc :: "route_table \<Rightarrow> nat"
  rt_goto :: "route_table \<Rightarrow> nat"
  rt_is_routing :: bool
  rt_is_final_routing :: bool
  rt_routes_applied :: bool
  rt_response_routes_applied :: bool
  rt_routed_requests :: "64 word"
  rt_do_not_log :: bool
  rt_can_offload :: bool
  rt_dynamic :: bool
  rt_modifier1 :: nat
  rt_modifier2 :: nat
  rt_user_harakiri :: int
  rt_logvars :: "(char list \<times> char list) list"
  rt_log :: "char list list"
  rt_alarms :: "(char list \<times> char list) list"
  rt_signals :: "nat list"
  rt_cwd :: "char list"
  rt_procname :: "char list"
  rt_start :: "64 word"
  rt_end :: "64 word"
  rt_mimes :: "mime_entry list"

text \<open>The environment: clocks, identities, the file system, and the functions of PCRE and of the resolver library.  A pattern
  is identified with its text.\<close>

record rt_cfg =
  rc_wr :: wr_cfg
  rc_tables :: "route_table \<Rightarrow> upsgi_route list"
  rc_now :: int
  rc_micros :: int
  rc_wid :: int
  rc_pid :: int
  rc_uuid :: "char list"
  rc_backlog :: int
  rc_master :: bool
  rc_gmtime :: "int \<Rightarrow> tm"
  rc_file :: "route_cond \<Rightarrow> char list \<Rightarrow> bool"
  rc_chdir_ok :: "char list \<Rightarrow> bool"
  rc_re_build :: "char list \<Rightarrow> bool"
  rc_re_ovector :: "char list \<Rightarrow> nat"
  rc_re_exec :: "char list \<Rightarrow> char list \<Rightarrow> (int \<times> int) list option"
  rc_inet_addr :: "char list \<Rightarrow> 32 word"
  rc_inet_pton6 :: "char list \<Rightarrow> 32 word list option"

abbreviation rt_vars :: "rt_req \<Rightarrow> char list list" where
  "rt_vars r \<equiv> ap_hvec (w_append (rt_wr r))"

abbreviation rt_buffer :: "rt_req \<Rightarrow> char list" where
  "rt_buffer r \<equiv> pkt_buffer (ap_pkt (w_append (rt_wr r)))"

definition strchr_split :: "char \<Rightarrow> char list \<Rightarrow> (char list \<times> char list) option" where
  "strchr_split c s = (if c \<in> set s then Some (takeWhile (\<lambda>x. x \<noteq> c) s, tl (dropWhile (\<lambda>x. x \<noteq> c) s)) else None)"

text \<open>What a pointer to text points to: nothing, a block, or a place that must not be read.\<close>

datatype src = NullSrc | Mem "char list" | Wild nat

fun src_len :: "src \<Rightarrow> nat" where
  "src_len NullSrc = 0" | "src_len (Mem s) = length s" | "src_len (Wild n) = n"

definition field_src :: "rt_req \<Rightarrow> req_field \<Rightarrow> src" where
  "field_src r f =
     (case rt_field r f of
        None \<Rightarrow> NullSrc
      | Some (off, len) \<Rightarrow> if off + len \<le> length (rt_buffer r) then Mem (take len (drop off (rt_buffer r))) else Wild len)"

text \<open>A rule without a subject has the offset 0, where the request holds its file descriptor.\<close>

definition subject_src :: "rt_req \<Rightarrow> upsgi_route \<Rightarrow> src" where
  "subject_src r ur =
     (case ur_subject ur of Some f \<Rightarrow> field_src r f | None \<Rightarrow> if rt_fd r = 0 then NullSrc else Wild (rt_fd r mod 65536))"

section \<open>Substitution of captured groups\<close>

definition copy_group :: "src \<Rightarrow> int \<times> int \<Rightarrow> char list option" where
  "copy_group src g =
     (case g of (s, e) \<Rightarrow>
        if s = e then Some []
        else (case src of
                Mem m \<Rightarrow> if 0 \<le> s \<and> s < e \<and> e \<le> int (length m) then Some (take (nat (e - s)) (drop (nat s) m)) else None
              | _ \<Rightarrow> None))"

text \<open>\<open>cap\<close> is the size of the result block, \<open>out\<close> what is written; \<open>None\<close>: an access outside of a block.\<close>

definition put :: "nat \<Rightarrow> char list \<Rightarrow> char list \<Rightarrow> char list option" where
  "put cap out d = (if length out + length d \<le> cap then Some (out @ d) else None)"

fun ovec_loop :: "src \<Rightarrow> (int \<times> int) list \<Rightarrow> nat \<Rightarrow> nat \<Rightarrow> bool \<Rightarrow> char list \<Rightarrow> char list \<Rightarrow> char list option" where
  "ovec_loop src ov n cap dollar [] out = put cap out [NUL]"
| "ovec_loop src ov n cap True (c # cs) out =
     (if is_digit c then
        (let pos = ord c - 48 in
         if pos \<le> n then
           (if pos < length ov then
              Option.bind (copy_group src (ov ! pos)) (\<lambda>g. Option.bind (put cap out g) (ovec_loop src ov n cap False cs))
            else None)
         else ovec_loop src ov n cap False cs out)
      else Option.bind (put cap out [CHR ''$'', c]) (ovec_loop src ov n cap False cs))"
| "ovec_loop src ov n cap False (c # cs) out =
     (if c = CHR ''$'' then ovec_loop src ov n cap True cs out
      else Option.bind (put cap out [c]) (ovec_loop src ov n cap False cs))"

definition upsgi_regexp_apply_ovec :: "src \<Rightarrow> char list \<Rightarrow> (int \<times> int) list \<Rightarrow> nat \<Rightarrow> char list option" where
  "upsgi_regexp_apply_ovec src dst ov n =
     (let dollars = n + length (filter (\<lambda>c. c = CHR ''$'') dst) in
      ovec_loop src ov n (length dst + src_len src * dollars + 1) False dst [])"

section \<open>Variables in templates\<close>

definition upsgi_num2str :: "int \<Rightarrow> char list" where
  "upsgi_num2str n = take 10 (int_dec (sint (word_of_int n :: 32 word)))"

definition upsgi_64bit2str :: "int \<Rightarrow> char list" where
  "upsgi_64bit2str n = int_dec (sint (word_of_int n :: 64 word))"

definition upsgi_str_to_hex :: "char list \<Rightarrow> char list" where
  "upsgi_str_to_hex s = concat (map (\<lambda>c. [hex_digit (ord c div 16), hex_digit (ord c mod 16)]) s)"

text \<open>The table of types: an entry that is asked for moves one place to the front when it has more hits than the one before.\<close>

definition mime_ext :: "char list \<Rightarrow> char list option" where
  "mime_ext name = (if CHR ''.'' \<in> set name then Some (rev (takeWhile (\<lambda>c. c \<noteq> CHR ''.'') (rev name))) else None)"

fun mime_find :: "char list \<Rightarrow> mime_entry list \<Rightarrow> (char list \<times> mime_entry list) option" where
  "mime_find ext [] = None"
| "mime_find ext (e # es) =
     (if upsgi_strncmp ext (mt_key e) = 0 then Some (mt_value e, e\<lparr>mt_hits := mt_hits e + 1\<rparr> # es)
      else case es of
             [] \<Rightarrow> None
           | e1 # es1 \<Rightarrow>
               if upsgi_strncmp ext (mt_key e1) = 0 then
                 (let e2 = e1\<lparr>mt_hits := mt_hits e1 + 1\<rparr> in
                  Some (mt_value e1, if mt_hits e2 > mt_hits e then e2 # e # es1 else e # e2 # es1))
               else map_option (\<lambda>(v, xs). (v, e # xs)) (mime_find ext es))"

definition upsgi_get_mime_type :: "char list \<Rightarrow> mime_entry list \<Rightarrow> char list option \<times> mime_entry list" where
  "upsgi_get_mime_type name ms =
     (case mime_ext name of
        None \<Rightarrow> (None, ms)
      | Some ext \<Rightarrow> (case mime_find ext ms of None \<Rightarrow> (None, ms) | Some (v, ms1) \<Rightarrow> (Some v, ms1)))"

text \<open>A value, and the request, of which only the order of the types may change; \<open>None\<close>: an access outside of a block, or a
  conversion that C leaves undefined.\<close>

definition upsgi_route_var_upsgi :: "rt_cfg \<Rightarrow> rt_req \<Rightarrow> char list \<Rightarrow> char list option" where
  "upsgi_route_var_upsgi cfg r key =
     (if upsgi_strncmp key ''wid'' = 0 then Some (upsgi_num2str (rc_wid cfg))
      else if upsgi_strncmp key ''pid'' = 0 then Some (upsgi_num2str (rc_pid cfg))
      else if upsgi_strncmp key ''uuid'' = 0 then Some (rc_uuid cfg)
      else if upsgi_strncmp key ''status'' = 0 then Some (upsgi_num2str (w_status (rt_wr r)))
      else if upsgi_strncmp key ''rtime'' = 0 then Some (upsgi_num2str (uint (rt_end r - rt_start r)))
      else if upsgi_strncmp key ''lq'' = 0 then Some (upsgi_num2str (rc_backlog cfg))
      else if upsgi_strncmp key ''rsize'' = 0 then Some (upsgi_64bit2str (int (w_response_size (rt_wr r))))
      else if upsgi_strncmp key ''sor'' = 0 then Some (upsgi_64bit2str (uint (rt_start r)))
      else None)"

definition upsgi_route_var_time :: "rt_cfg \<Rightarrow> char list \<Rightarrow> char list option" where
  "upsgi_route_var_time cfg key =
     (if upsgi_strncmp key ''unix'' = 0 then Some (upsgi_num2str (rc_now cfg))
      else if upsgi_strncmp key ''micros'' = 0 then Some (upsgi_64bit2str (rc_micros cfg)) else None)"

definition upsgi_route_var_httptime :: "rt_cfg \<Rightarrow> char list \<Rightarrow> char list option option" where
  "upsgi_route_var_httptime cfg key =
     map_option (\<lambda>t. let d = upsgi_http_date (rc_gmtime cfg (sint (word_of_int (rc_now cfg) + t :: 64 word))) in if d = [] then None else Some d)
       (upsgi_str_num key)"

definition upsgi_route_var_base64 :: "rt_req \<Rightarrow> char list \<Rightarrow> char list option" where
  "upsgi_route_var_base64 r key = map_option (\<lambda>v. u16_arg (upsgi_base64_encode v)) (upsgi_get_var (rt_vars r) key)"

definition upsgi_route_var_hex :: "rt_req \<Rightarrow> char list \<Rightarrow> char list option" where
  "upsgi_route_var_hex r key = map_option (\<lambda>v. u16_arg (upsgi_str_to_hex v)) (upsgi_get_var (rt_vars r) key)"

definition upsgi_route_var_upper :: "rt_req \<Rightarrow> char list \<Rightarrow> char list option" where
  "upsgi_route_var_upper r key = map_option (map toupper) (upsgi_get_var (rt_vars r) key)"

definition upsgi_route_var_lower :: "rt_req \<Rightarrow> char list \<Rightarrow> char list option" where
  "upsgi_route_var_lower r key = map_option (map tolower) (upsgi_get_var (rt_vars r) key)"

definition upsgi_route_var_mime :: "rt_req \<Rightarrow> char list \<Rightarrow> char list option \<times> rt_req" where
  "upsgi_route_var_mime r key =
     (case upsgi_get_var (rt_vars r) key of
        None \<Rightarrow> (None, r)
      | Some v \<Rightarrow> (case upsgi_get_mime_type v (rt_mimes r) of (t, ms) \<Rightarrow> (t, r\<lparr>rt_mimes := ms\<rparr>)))"

definition field_text :: "rt_req \<Rightarrow> req_field \<Rightarrow> char list option" where
  "field_text r f = (case field_src r f of NullSrc \<Rightarrow> Some [] | Mem s \<Rightarrow> Some s | Wild _ \<Rightarrow> None)"

text \<open>What lies behind the header of the cookies in the buffer.\<close>

definition field_beyond :: "rt_req \<Rightarrow> req_field \<Rightarrow> char list" where
  "field_beyond r f = (case rt_field r f of None \<Rightarrow> [] | Some (off, len) \<Rightarrow> drop (off + len) (rt_buffer r))"

text \<open>The table of \<open>upsgi_register_embedded_routers\<close>; the outer \<open>None\<close> of the result: no variable of this name.\<close>

definition upsgi_get_route_var :: "rt_cfg \<Rightarrow> rt_req \<Rightarrow> char list \<Rightarrow> (char list \<Rightarrow> (char list option \<times> rt_req) option) option" where
  "upsgi_get_route_var cfg r name =
     map_of
      [(''cookie'', \<lambda>k. Option.bind (field_text r F_cookie) (\<lambda>c.
          case upsgi_get_cookie (field_beyond r F_cookie) c k of Ok v \<Rightarrow> Some (v, r) | Err v \<Rightarrow> Some (v, r) | Fault \<Rightarrow> None)),
       (''qs'', \<lambda>k. map_option (\<lambda>q. (upsgi_get_qs q k, r)) (field_text r F_query_string)),
       (''mime'', \<lambda>k. Some (upsgi_route_var_mime r k)),
       (''upsgi'', \<lambda>k. Some (upsgi_route_var_upsgi cfg r k, r)),
       (''time'', \<lambda>k. Some (upsgi_route_var_time cfg k, r)),
       (''httptime'', \<lambda>k. map_option (\<lambda>v. (v, r)) (upsgi_route_var_httptime cfg k)),
       (''base64'', \<lambda>k. Some (upsgi_route_var_base64 r k, r)),
       (''hex'', \<lambda>k. Some (upsgi_route_var_hex r k, r)),
       (''upper'', \<lambda>k. Some (upsgi_route_var_upper r k, r)),
       (''lower'', \<lambda>k. Some (upsgi_route_var_lower r k, r))] name"

definition get_value :: "rt_cfg \<Rightarrow> rt_req \<Rightarrow> char list \<Rightarrow> (char list option \<times> rt_req) option" where
  "get_value cfg r key =
     (let plain = Some (upsgi_get_var (rt_vars r) (u16_arg key), r) in
      case upsgi_str_contains key (CHR ''['') of
        None \<Rightarrow> plain
      | Some b \<Rightarrow>
          if last key = CHR '']'' then
            (case upsgi_get_route_var cfg r (u16_arg (take b key)) of
               None \<Rightarrow> plain
             | Some f \<Rightarrow> f (u16_arg (butlast (drop (b + 1) key))))
          else plain)"

section \<open>Translation of templates\<close>

text \<open>The second pass: \<open>st\<close> is the state (0, 1, 2) and \<open>key\<close> the name read so far.\<close>

fun translate_loop :: "rt_cfg \<Rightarrow> nat \<Rightarrow> char list \<Rightarrow> char list \<Rightarrow> upsgi_buffer \<Rightarrow> rt_req \<Rightarrow> (upsgi_buffer \<times> rt_req) c_result" where
  "translate_loop cfg st key [] ub r =
     (let app = (\<lambda>d. case upsgi_buffer_append (wc_env (rc_wr cfg)) ub d of Ok u \<Rightarrow> Ok (u, r) | Err u \<Rightarrow> Err (u, r) | Fault \<Rightarrow> Fault) in
      if st = 0 then Ok (ub, r) else if st = 1 then app ''$'' else app (''${'' @ key))"
| "translate_loop cfg st key (c # cs) ub r =
     (let app = (\<lambda>d r1. case upsgi_buffer_append (wc_env (rc_wr cfg)) ub d of
                          Ok u \<Rightarrow> translate_loop cfg 0 [] cs u r1 | Err u \<Rightarrow> Err (u, r1) | Fault \<Rightarrow> Fault) in
      if st = 0 then (if c = CHR ''$'' then translate_loop cfg 1 key cs ub r else app [c] r)
      else if st = 1 then (if c = CHR ''{'' then translate_loop cfg 2 [] cs ub r else app [CHR ''$'', c] r)
      else if c = CHR ''}'' then
        (case get_value cfg r key of
           None \<Rightarrow> Fault
         | Some (None, r1) \<Rightarrow> translate_loop cfg 0 [] cs ub r1
         | Some (Some v, r1) \<Rightarrow> app v r1)
      else translate_loop cfg 2 (key @ [c]) cs ub r)"

text \<open>\<open>m\<close> is the memory of the rule; a rule made by \<open>upsgi_route_api_func\<close> has none (\<open>None\<close>), and its null pointer is read.
  \<open>data\<close> is a block of which the first \<open>len\<close> bytes are the template.\<close>

definition pass1 :: "route_mem \<Rightarrow> src \<Rightarrow> char list \<Rightarrow> char list option" where
  "pass1 m subject data =
     (case rm_ub m of
        Some ub \<Rightarrow>
          if rm_ovn m > 0 then map_option cstr (upsgi_regexp_apply_ovec (Mem ub) data (rm_ovector m) (rm_ovn m))
          else if subject \<noteq> NullSrc then map_option cstr (upsgi_regexp_apply_ovec subject data (rm_ovector m) (rm_ovn m))
          else Some data
      | None \<Rightarrow>
          if subject \<noteq> NullSrc then map_option cstr (upsgi_regexp_apply_ovec subject data (rm_ovector m) (rm_ovn m)) else Some data)"

definition upsgi_routing_translate ::
    "rt_cfg \<Rightarrow> rt_req \<Rightarrow> route_mem option \<Rightarrow> src \<Rightarrow> char list \<Rightarrow> nat \<Rightarrow> (upsgi_buffer \<times> rt_req) c_result" where
  "upsgi_routing_translate cfg r mem subject data len =
     (case mem of
        None \<Rightarrow> Fault
      | Some m \<Rightarrow>
          if len > length data then Fault
          else
           (case pass1 m subject (take len data) of
              None \<Rightarrow> Fault
            | Some p \<Rightarrow>
                (case translate_loop cfg 0 [] p (upsgi_buffer_new (wc_env (rc_wr cfg)) (length p)) r of
                   Ok (ub, r1) \<Rightarrow>
                     (case upsgi_buffer_append (wc_env (rc_wr cfg)) ub [NUL] of
                        Ok u \<Rightarrow> Ok (u\<lparr>ub_pos := ub_pos u - 1\<rparr>, r1)
                      | Err u \<Rightarrow> Err (u, r1)
                      | Fault \<Rightarrow> Fault)
                 | bad \<Rightarrow> bad)))"

section \<open>Actions\<close>

datatype route_ret = NEXT | CONTINUE | BREAK

type_synonym act_result = "(route_ret \<times> rt_req) option"

text \<open>The common start of the actions: a template that cannot be built breaks off.\<close>

definition with_text :: "rt_cfg \<Rightarrow> rt_req \<Rightarrow> route_mem option \<Rightarrow> upsgi_route \<Rightarrow> char list \<Rightarrow> nat \<Rightarrow> (char list \<Rightarrow> rt_req \<Rightarrow> act_result) \<Rightarrow> act_result" where
  "with_text cfg r mem ur data len f =
     (case upsgi_routing_translate cfg r mem (subject_src r ur) data len of
        Ok (ub, r1) \<Rightarrow> f (ub_content ub) r1
      | Err (ub, r1) \<Rightarrow> Some (BREAK, r1)
      | Fault \<Rightarrow> None)"

abbreviation with_data :: "rt_cfg \<Rightarrow> rt_req \<Rightarrow> route_mem option \<Rightarrow> upsgi_route \<Rightarrow> (char list \<Rightarrow> rt_req \<Rightarrow> act_result) \<Rightarrow> act_result" where
  "with_data cfg r mem ur \<equiv> with_text cfg r mem ur (ur_data ur) (ur_data_len ur)"

text \<open>\<open>upsgi_req_append\<close>: the answer is the place of the value in the buffer, \<open>None\<close> for a null pointer.\<close>

definition rt_append :: "rt_cfg \<Rightarrow> char list \<Rightarrow> char list \<Rightarrow> rt_req \<Rightarrow> (nat option \<times> rt_req) option" where
  "rt_append cfg key val r =
     (let a = w_append (rt_wr r); ptr = pkt_len (ap_pkt a) + 2 + length (u16_arg key) + 2 in
      case upsgi_req_append (wc_vec_size (rc_wr cfg)) key val a of
        Ok a1 \<Rightarrow> Some (Some ptr, r\<lparr>rt_wr := (rt_wr r)\<lparr>w_append := a1\<rparr>\<rparr>)
      | Err a1 \<Rightarrow> Some (None, r\<lparr>rt_wr := (rt_wr r)\<lparr>w_append := a1\<rparr>\<rparr>)
      | Fault \<Rightarrow> None)"

definition set_field :: "req_field \<Rightarrow> nat \<Rightarrow> nat \<Rightarrow> rt_req \<Rightarrow> rt_req" where
  "set_field f ptr len r = r\<lparr>rt_field := (rt_field r)(f := Some (ptr, len mod 65536))\<rparr>"

definition append_field :: "rt_cfg \<Rightarrow> req_field \<Rightarrow> char list \<Rightarrow> nat \<Rightarrow> char list \<Rightarrow> rt_req \<Rightarrow> act_result" where
  "append_field cfg f name len val r =
     map_option (\<lambda>(p, r1). case p of None \<Rightarrow> (BREAK, r1) | Some ptr \<Rightarrow> (NEXT, set_field f ptr len r1)) (rt_append cfg name val r)"

text \<open>The shape of the ten actions that set a variable and the field that goes with it.\<close>

definition set_func :: "req_field \<Rightarrow> char list \<Rightarrow> rt_cfg \<Rightarrow> route_mem option \<Rightarrow> upsgi_route \<Rightarrow> rt_req \<Rightarrow> act_result" where
  "set_func f name cfg mem ur r = with_data cfg r mem ur (\<lambda>s. append_field cfg f name (length s) s)"

definition upsgi_router_setapp_func where "upsgi_router_setapp_func = set_func F_appid ''UPSGI_APPID''"
definition upsgi_router_setscriptname_func where "upsgi_router_setscriptname_func = set_func F_script_name ''SCRIPT_NAME''"
definition upsgi_router_setmethod_func where "upsgi_router_setmethod_func = set_func F_method ''REQUEST_METHOD''"
definition upsgi_router_seturi_func where "upsgi_router_seturi_func = set_func F_uri ''REQUEST_URI''"
definition upsgi_router_setremoteaddr_func where "upsgi_router_setremoteaddr_func = set_func F_remote_addr ''REMOTE_ADDR''"
definition upsgi_router_setdocroot_func where "upsgi_router_setdocroot_func = set_func F_document_root ''DOCUMENT_ROOT''"
definition upsgi_router_setpathinfo_func where "upsgi_router_setpathinfo_func = set_func F_path_info ''PATH_INFO''"
definition upsgi_router_setscheme_func where "upsgi_router_setscheme_func = set_func F_scheme ''UPSGI_SCHEME''"
definition upsgi_router_sethome_func where "upsgi_router_sethome_func = set_func F_home ''UPSGI_HOME''"

definition upsgi_router_setfile_func :: "rt_cfg \<Rightarrow> route_mem option \<Rightarrow> upsgi_route \<Rightarrow> rt_req \<Rightarrow> act_result" where
  "upsgi_router_setfile_func cfg mem ur r =
     map_option (\<lambda>(ret, r1). (ret, if ret = NEXT then r1\<lparr>rt_dynamic := True\<rparr> else r1)) (set_func F_file ''UPSGI_HOME'' cfg mem ur r)"

text \<open>The name ends at the first colon, the length of the field does not.\<close>

definition upsgi_router_setuser_func :: "rt_cfg \<Rightarrow> route_mem option \<Rightarrow> upsgi_route \<Rightarrow> rt_req \<Rightarrow> act_result" where
  "upsgi_router_setuser_func cfg mem ur r =
     with_data cfg r mem ur (\<lambda>s. append_field cfg F_remote_user ''REMOTE_USER'' (length s) (takeWhile (\<lambda>c. c \<noteq> CHR '':'') s))"

definition upsgi_router_fixpathinfo_func :: "rt_cfg \<Rightarrow> rt_req \<Rightarrow> act_result" where
  "upsgi_router_fixpathinfo_func cfg r =
     (let sn = (case rt_field r F_script_name of None \<Rightarrow> 0 | Some (_, n) \<Rightarrow> n) in
      if sn = 0 then Some (NEXT, r)
      else
       (case rt_field r F_path_info of
          None \<Rightarrow> None
        | Some (off, n) \<Rightarrow>
            (let len = nat ((int n - int sn) mod 65536) in
             if off + sn + len > length (rt_buffer r) then None
             else map_option (\<lambda>(p, r1). case p of None \<Rightarrow> (BREAK, r1) | Some _ \<Rightarrow> (NEXT, set_field F_path_info (off + sn) len r1))
                    (rt_append cfg ''PATH_INFO'' (take len (drop (off + sn) (rt_buffer r))) r))))"

definition upsgi_router_addvar_func :: "rt_cfg \<Rightarrow> route_mem option \<Rightarrow> upsgi_route \<Rightarrow> rt_req \<Rightarrow> act_result" where
  "upsgi_router_addvar_func cfg mem ur r =
     with_text cfg r mem ur (ur_data2 ur) (ur_data2_len ur) (\<lambda>s r1.
       map_option (\<lambda>(p, r2). (case p of None \<Rightarrow> BREAK | Some _ \<Rightarrow> NEXT, r2)) (rt_append cfg (take (ur_data_len ur) (ur_data ur)) s r1))"

definition wr_apply :: "(wr_req \<Rightarrow> wr_ret \<times> wr_req) \<Rightarrow> rt_req \<Rightarrow> (wr_ret \<times> rt_req) option" where
  "wr_apply f r = (case f (rt_wr r) of (ret, w) \<Rightarrow> if ret = WR_FAULT then None else Some (ret, r\<lparr>rt_wr := w\<rparr>))"

text \<open>Writes of the response, one after the other up to the first that fails.\<close>

fun wr_steps :: "(wr_req \<Rightarrow> wr_ret \<times> wr_req) list \<Rightarrow> rt_req \<Rightarrow> rt_req option" where
  "wr_steps [] r = Some r"
| "wr_steps (f # fs) r =
     (case wr_apply f r of None \<Rightarrow> None | Some (ret, r1) \<Rightarrow> if ret = WR_OK then wr_steps fs r1 else Some r1)"

definition upsgi_router_break_func :: "rt_cfg \<Rightarrow> upsgi_route \<Rightarrow> rt_req \<Rightarrow> act_result" where
  "upsgi_router_break_func cfg ur r =
     map_option (Pair BREAK)
      (if ur_data_len ur \<ge> 3 then
         wr_steps [upsgi_response_prepare_headers (rc_wr cfg) (take (ur_data_len ur) (ur_data ur)),
                   upsgi_response_add_header (rc_wr cfg) ''Connection'' ''close'',
                   upsgi_response_add_header (rc_wr cfg) ''Content-Type'' ''text/plain'',
                   upsgi_response_write_headers_do (rc_wr cfg)] r
       else Some r)"

definition upsgi_router_return_func :: "rt_cfg \<Rightarrow> upsgi_route \<Rightarrow> rt_req \<Rightarrow> act_result" where
  "upsgi_router_return_func cfg ur r =
     map_option (Pair BREAK)
      (if ur_data_len ur < 3 then Some r
       else
        (case upsgi_http_status_msg (ur_data ur) of
           None \<Rightarrow> Some r
         | Some msg \<Rightarrow>
             wr_steps [upsgi_response_prepare_headers (rc_wr cfg) (take (ur_data_len ur) (ur_data ur) @ '' '' @ msg),
                       upsgi_response_add_header (rc_wr cfg) ''Content-Type'' ''text/plain'',
                       upsgi_response_add_content_length (rc_wr cfg) (length msg),
                       upsgi_response_write_body_do (rc_wr cfg) msg] r))"

text \<open>The four operations on numbers; the text is the unsigned form of the result.\<close>

definition c_quot :: "int \<Rightarrow> int \<Rightarrow> int" where
  "c_quot a b = (if (a < 0) = (b < 0) then \<bar>a\<bar> div \<bar>b\<bar> else - (\<bar>a\<bar> div \<bar>b\<bar>))"

definition route_math :: "64 word \<Rightarrow> 64 word \<Rightarrow> 64 word \<Rightarrow> 64 word" where
  "route_math custom a b =
     (if custom = 1 then a - b else if custom = 2 then a * b
      else if custom = 3 then (if b = 0 then 0 else word_of_int (c_quot (sint a) (sint b))) else a + b)"

definition upsgi_router_simple_math_func :: "rt_cfg \<Rightarrow> route_mem option \<Rightarrow> upsgi_route \<Rightarrow> rt_req \<Rightarrow> act_result" where
  "upsgi_router_simple_math_func cfg mem ur r =
     (let name = take (ur_data_len ur) (ur_data ur);
          store = (\<lambda>base value r1. map_option (\<lambda>(p, r2). (case p of None \<Rightarrow> BREAK | Some _ \<Rightarrow> NEXT, r2))
                     (rt_append cfg name (nat_dec (unat (route_math (ur_custom ur) base value))) r1)) in
      case upsgi_get_var (rt_vars r) (u16_arg name) of
        None \<Rightarrow> Some (BREAK, r)
      | Some v \<Rightarrow>
          (case upsgi_str_num v of
             None \<Rightarrow> None
           | Some base \<Rightarrow>
               if ur_data2_len ur > 0 then
                 with_text cfg r mem ur (ur_data2 ur) (ur_data2_len ur) (\<lambda>s r1.
                   case upsgi_str_num s of None \<Rightarrow> None | Some value \<Rightarrow> store base value r1)
               else store base 1 r))"

definition set_user_harakiri :: "rt_cfg \<Rightarrow> int \<Rightarrow> rt_req \<Rightarrow> rt_req" where
  "set_user_harakiri cfg sec r =
     (if rc_master cfg then r\<lparr>rt_user_harakiri := if sec = 0 then 0 else rc_now cfg + sec\<rparr> else r)"

definition upsgi_router_harakiri_func :: "rt_cfg \<Rightarrow> upsgi_route \<Rightarrow> rt_req \<Rightarrow> act_result" where
  "upsgi_router_harakiri_func cfg ur r =
     Some (NEXT, if ur_custom ur > 0 then set_user_harakiri cfg (sint (ucast (ur_custom ur) :: 32 word)) r else r)"

text \<open>The transformations that rules add, with the numbers under which the response writer finds them.\<close>

definition transform_flush :: "wr_cfg \<Rightarrow> wr_req \<Rightarrow> transformation \<Rightarrow> bool \<times> wr_req \<times> transformation" where
  "transform_flush wcfg r ut =
     (let chunk = chunk_of ut in
      if chunk = [] then (True, r, ut)
      else
       (case upsgi_response_write_body_do wcfg chunk (r\<lparr>w_transformed_chunk := chunk\<rparr>) of
          (ret, r1) \<Rightarrow> (ret = WR_OK, r1\<lparr>w_transformed_chunk := []\<rparr>, ut\<lparr>ut_flushed := True\<rparr>)))"

definition transform_fixcl :: "wr_cfg \<Rightarrow> wr_req \<Rightarrow> transformation \<Rightarrow> bool \<times> wr_req \<times> transformation" where
  "transform_fixcl wcfg r ut =
     (let s = nat_dec (length (chunk_of ut)) in
      if length s \<ge> 22 then (False, write_error r, ut)
      else (True, snd (upsgi_response_add_header wcfg ''Content-Length'' s r), ut))"

definition transform_forcecl :: "wr_cfg \<Rightarrow> wr_req \<Rightarrow> transformation \<Rightarrow> bool \<times> wr_req \<times> transformation" where
  "transform_forcecl wcfg r ut =
     (let s = nat_dec (length (chunk_of ut)) in
      if length s \<ge> 22 then (False, write_error r, ut)
      else (True, snd (upsgi_response_add_header_force wcfg ''Content-Length'' s r), ut))"

abbreviation (input) UT_flush :: nat where "UT_flush \<equiv> 1"
abbreviation (input) UT_fixcl :: nat where "UT_fixcl \<equiv> 2"
abbreviation (input) UT_forcecl :: nat where "UT_forcecl \<equiv> 3"

definition on_wr :: "(wr_req \<Rightarrow> wr_req) \<Rightarrow> rt_req \<Rightarrow> rt_req" where
  "on_wr f r = r\<lparr>rt_wr := f (rt_wr r)\<rparr>"

definition upsgi_router_flush_func :: "rt_req \<Rightarrow> act_result" where
  "upsgi_router_flush_func r =
     Some (NEXT, on_wr (\<lambda>w. let w1 = upsgi_add_transformation UT_flush w; ts = w_transformations w1 in
       w1\<lparr>w_transformations := butlast ts @ [(last ts)\<lparr>ut_can_stream := True\<rparr>]\<rparr>) r)"

definition upsgi_router_fixcl_func :: "rt_req \<Rightarrow> act_result" where
  "upsgi_router_fixcl_func r = Some (NEXT, on_wr (upsgi_add_transformation UT_fixcl) r)"

definition upsgi_router_forcecl_func :: "rt_req \<Rightarrow> act_result" where
  "upsgi_router_forcecl_func r = Some (NEXT, on_wr (upsgi_add_transformation UT_forcecl) r)"

definition upsgi_router_log_func :: "rt_cfg \<Rightarrow> route_mem option \<Rightarrow> upsgi_route \<Rightarrow> rt_req \<Rightarrow> act_result" where
  "upsgi_router_log_func cfg mem ur r = with_data cfg r mem ur (\<lambda>s r1. Some (NEXT, r1\<lparr>rt_log := rt_log r1 @ [cstr s]\<rparr>))"

definition upsgi_logvar_get :: "rt_req \<Rightarrow> char list \<Rightarrow> char list option" where
  "upsgi_logvar_get r key = map_of (rt_logvars r) key"

text \<open>Names and values are kept in 256 bytes; their lengths are arguments of one byte.\<close>

definition u8_arg :: "'a list \<Rightarrow> 'a list" where
  "u8_arg xs = take (length xs mod 256) xs"

definition upsgi_logvar_add :: "char list \<Rightarrow> char list \<Rightarrow> rt_req \<Rightarrow> rt_req" where
  "upsgi_logvar_add k v r =
     (let key = u8_arg k; val = u8_arg v in
      r\<lparr>rt_logvars := (if upsgi_logvar_get r key = None then rt_logvars r @ [(key, val)] else AList.update key val (rt_logvars r))\<rparr>)"

definition upsgi_router_logvar_func :: "rt_cfg \<Rightarrow> route_mem option \<Rightarrow> upsgi_route \<Rightarrow> rt_req \<Rightarrow> act_result" where
  "upsgi_router_logvar_func cfg mem ur r =
     with_text cfg r mem ur (ur_data2 ur) (ur_data2_len ur) (\<lambda>s r1. Some (NEXT, upsgi_logvar_add (take (ur_data_len ur) (ur_data ur)) s r1))"

text \<open>The table a jump works on follows from the flags of the request.\<close>

definition goto_table :: "rt_req \<Rightarrow> route_table" where
  "goto_table r =
     (if w_is_error_routing (rt_wr r) then T_error else if rt_is_final_routing r then T_final
      else if w_is_response_routing (rt_wr r) then T_response else T_routes)"

fun find_label :: "upsgi_route list \<Rightarrow> char list \<Rightarrow> nat option" where
  "find_label [] l = None"
| "find_label (ur # urs) l =
     (case ur_label ur of
        Some n \<Rightarrow> if upsgi_strncmp n l = 0 then Some (ur_pos ur mod 2 ^ 32) else find_label urs l
      | None \<Rightarrow> find_label urs l)"

definition upsgi_router_goto_func :: "rt_cfg \<Rightarrow> route_mem option \<Rightarrow> upsgi_route \<Rightarrow> rt_req \<Rightarrow> act_result" where
  "upsgi_router_goto_func cfg mem ur r =
     with_data cfg r mem ur (\<lambda>s r1.
       let t = goto_table r1;
           g = (case find_label (rc_tables cfg t) s of Some p \<Rightarrow> p | None \<Rightarrow> unat (ur_custom ur) mod 2 ^ 32) in
       if g \<le> rt_pc r1 t then Some (BREAK, r1\<lparr>rt_goto := (rt_goto r1)(t := 0)\<rparr>)
       else Some (NEXT, r1\<lparr>rt_goto := (rt_goto r1)(t := g)\<rparr>))"

definition upsgi_router_addheader_func :: "rt_cfg \<Rightarrow> route_mem option \<Rightarrow> upsgi_route \<Rightarrow> rt_req \<Rightarrow> act_result" where
  "upsgi_router_addheader_func cfg mem ur r =
     with_data cfg r mem ur (\<lambda>s r1. Some (NEXT, on_wr (\<lambda>w. w\<lparr>w_additional_headers := w_additional_headers w @ [cstr (u16_arg s)]\<rparr>) r1))"

definition upsgi_router_remheader_func :: "rt_cfg \<Rightarrow> route_mem option \<Rightarrow> upsgi_route \<Rightarrow> rt_req \<Rightarrow> act_result" where
  "upsgi_router_remheader_func cfg mem ur r =
     with_data cfg r mem ur (\<lambda>s r1. Some (NEXT, on_wr (\<lambda>w. w\<lparr>w_remove_headers := w_remove_headers w @ [cstr (u16_arg s)]\<rparr>) r1))"

definition upsgi_router_clearheaders_func :: "rt_cfg \<Rightarrow> route_mem option \<Rightarrow> upsgi_route \<Rightarrow> rt_req \<Rightarrow> act_result" where
  "upsgi_router_clearheaders_func cfg mem ur r =
     with_data cfg r mem ur (\<lambda>s r1.
       map_option (\<lambda>(ret, r2). (if ret = WR_OK then NEXT else BREAK, r2)) (wr_apply (upsgi_response_prepare_headers (rc_wr cfg) s) r1))"

definition upsgi_router_chdir_func :: "rt_cfg \<Rightarrow> route_mem option \<Rightarrow> upsgi_route \<Rightarrow> rt_req \<Rightarrow> act_result" where
  "upsgi_router_chdir_func cfg mem ur r =
     with_data cfg r mem ur (\<lambda>s r1. Some (if rc_chdir_ok cfg (cstr s) then (NEXT, r1\<lparr>rt_cwd := cstr s\<rparr>) else (BREAK, r1)))"

definition upsgi_router_setprocname_func :: "rt_cfg \<Rightarrow> route_mem option \<Rightarrow> upsgi_route \<Rightarrow> rt_req \<Rightarrow> act_result" where
  "upsgi_router_setprocname_func cfg mem ur r = with_data cfg r mem ur (\<lambda>s r1. Some (NEXT, r1\<lparr>rt_procname := cstr s\<rparr>))"

definition upsgi_router_alarm_func :: "rt_cfg \<Rightarrow> route_mem option \<Rightarrow> upsgi_route \<Rightarrow> rt_req \<Rightarrow> act_result" where
  "upsgi_router_alarm_func cfg mem ur r =
     with_data cfg r mem ur (\<lambda>a r1. with_text cfg r1 mem ur (ur_data2 ur) (ur_data2_len ur) (\<lambda>s r2.
       Some (NEXT, r2\<lparr>rt_alarms := rt_alarms r2 @ [(cstr a, s)]\<rparr>)))"

definition upsgi_router_send_func :: "rt_cfg \<Rightarrow> route_mem option \<Rightarrow> upsgi_route \<Rightarrow> rt_req \<Rightarrow> act_result" where
  "upsgi_router_send_func cfg mem ur r =
     (case upsgi_routing_translate cfg r mem (subject_src r ur) (ur_data ur) (ur_data_len ur) of
        Fault \<Rightarrow> None
      | Err (ub, r1) \<Rightarrow> Some (BREAK, r1)
      | Ok (ub, r1) \<Rightarrow>
          (case if ur_custom ur \<noteq> 0 then upsgi_buffer_append (wc_env (rc_wr cfg)) ub [CHR 0x0D, CHR 0x0A] else Ok ub of
             Fault \<Rightarrow> None
           | Err _ \<Rightarrow> Some (BREAK, r1)
           | Ok u \<Rightarrow> map_option (\<lambda>(_, r2). (NEXT, r2)) (wr_apply (upsgi_response_write_body_do (rc_wr cfg) (ub_content u)) r1)))"

definition run_func :: "rt_cfg \<Rightarrow> route_mem option \<Rightarrow> upsgi_route \<Rightarrow> rt_req \<Rightarrow> act_result" where
  "run_func cfg mem ur r =
     (case ur_func ur of
        R_continue \<Rightarrow> Some (CONTINUE, r)
      | R_break \<Rightarrow> upsgi_router_break_func cfg ur r
      | R_return \<Rightarrow> upsgi_router_return_func cfg ur r
      | R_simple_math \<Rightarrow> upsgi_router_simple_math_func cfg mem ur r
      | R_harakiri \<Rightarrow> upsgi_router_harakiri_func cfg ur r
      | R_flush \<Rightarrow> upsgi_router_flush_func r
      | R_fixcl \<Rightarrow> upsgi_router_fixcl_func r
      | R_forcecl \<Rightarrow> upsgi_router_forcecl_func r
      | R_log \<Rightarrow> upsgi_router_log_func cfg mem ur r
      | R_donotlog \<Rightarrow> Some (NEXT, r\<lparr>rt_do_not_log := True\<rparr>)
      | R_donotoffload \<Rightarrow> Some (NEXT, r\<lparr>rt_can_offload := False\<rparr>)
      | R_logvar \<Rightarrow> upsgi_router_logvar_func cfg mem ur r
      | R_goto \<Rightarrow> upsgi_router_goto_func cfg mem ur r
      | R_addvar \<Rightarrow> upsgi_router_addvar_func cfg mem ur r
      | R_addheader \<Rightarrow> upsgi_router_addheader_func cfg mem ur r
      | R_remheader \<Rightarrow> upsgi_router_remheader_func cfg mem ur r
      | R_clearheaders \<Rightarrow> upsgi_router_clearheaders_func cfg mem ur r
      | R_disableheaders \<Rightarrow> Some (NEXT, on_wr (\<lambda>w. w\<lparr>w_headers_sent := True\<rparr>) r)
      | R_signal \<Rightarrow> Some (NEXT, r\<lparr>rt_signals := rt_signals r @ [unat (ur_custom ur) mod 256]\<rparr>)
      | R_chdir \<Rightarrow> upsgi_router_chdir_func cfg mem ur r
      | R_setapp \<Rightarrow> upsgi_router_setapp_func cfg mem ur r
      | R_setscriptname \<Rightarrow> upsgi_router_setscriptname_func cfg mem ur r
      | R_setmethod \<Rightarrow> upsgi_router_setmethod_func cfg mem ur r
      | R_seturi \<Rightarrow> upsgi_router_seturi_func cfg mem ur r
      | R_setremoteaddr \<Rightarrow> upsgi_router_setremoteaddr_func cfg mem ur r
      | R_setdocroot \<Rightarrow> upsgi_router_setdocroot_func cfg mem ur r
      | R_setpathinfo \<Rightarrow> upsgi_router_setpathinfo_func cfg mem ur r
      | R_fixpathinfo \<Rightarrow> upsgi_router_fixpathinfo_func cfg r
      | R_setscheme \<Rightarrow> upsgi_router_setscheme_func cfg mem ur r
      | R_setmodifier1 \<Rightarrow> Some (NEXT, r\<lparr>rt_modifier1 := unat (ur_custom ur) mod 256\<rparr>)
      | R_setmodifier2 \<Rightarrow> Some (NEXT, r\<lparr>rt_modifier2 := unat (ur_custom ur) mod 256\<rparr>)
      | R_setuser \<Rightarrow> upsgi_router_setuser_func cfg mem ur r
      | R_sethome \<Rightarrow> upsgi_router_sethome_func cfg mem ur r
      | R_setfile \<Rightarrow> upsgi_router_setfile_func cfg mem ur r
      | R_setprocname \<Rightarrow> upsgi_router_setprocname_func cfg mem ur r
      | R_alarm \<Rightarrow> upsgi_router_alarm_func cfg mem ur r
      | R_send \<Rightarrow> upsgi_router_send_func cfg mem ur r)"

section \<open>Conditions\<close>

text \<open>A condition answers 1, 0 or -1, and may set the memory of the rule.\<close>

type_synonym cond_result = "(int \<times> route_mem \<times> rt_req) option"

definition cond_text :: "rt_cfg \<Rightarrow> rt_req \<Rightarrow> route_mem \<Rightarrow> char list \<Rightarrow> (char list \<Rightarrow> rt_req \<Rightarrow> cond_result) \<Rightarrow> cond_result" where
  "cond_text cfg r m data f =
     (case upsgi_routing_translate cfg r (Some m) NullSrc data (length data) of
        Ok (ub, r1) \<Rightarrow> f (ub_content ub) r1 | Err (ub, r1) \<Rightarrow> Some (-1, m, r1) | Fault \<Rightarrow> None)"

definition answer :: "bool \<Rightarrow> route_mem \<Rightarrow> rt_req \<Rightarrow> cond_result" where
  "answer b m r = Some (if b then 1 else 0, m, r)"

text \<open>The conditions on one text, and those on two texts with a semicolon between.\<close>

definition cond_one :: "rt_cfg \<Rightarrow> upsgi_route \<Rightarrow> route_mem \<Rightarrow> rt_req \<Rightarrow> (char list \<Rightarrow> bool) \<Rightarrow> cond_result" where
  "cond_one cfg ur m r p = cond_text cfg r m (ur_subject_str ur) (\<lambda>s r1. answer (p s) m r1)"

definition cond_two :: "rt_cfg \<Rightarrow> upsgi_route \<Rightarrow> route_mem \<Rightarrow> rt_req \<Rightarrow> (char list \<Rightarrow> char list \<Rightarrow> rt_req \<Rightarrow> cond_result) \<Rightarrow> cond_result" where
  "cond_two cfg ur m r f =
     (case strchr_split (CHR '';'') (ur_subject_str ur) of
        None \<Rightarrow> answer False m r
      | Some (a, b) \<Rightarrow> cond_text cfg r m a (\<lambda>s1 r1. cond_text cfg r1 m b (\<lambda>s2 r2. f s1 s2 r2)))"

definition upsgi_route_condition_regexp :: "rt_cfg \<Rightarrow> upsgi_route \<Rightarrow> route_mem \<Rightarrow> rt_req \<Rightarrow> cond_result" where
  "upsgi_route_condition_regexp cfg ur m r =
     (case strchr_split (CHR '';'') (ur_subject_str ur) of
        None \<Rightarrow> answer False m r
      | Some (a, re) \<Rightarrow> cond_text cfg r m a (\<lambda>s r1.
          let m1 = m\<lparr>rm_ub := Some s\<rparr> in
          if \<not> rc_re_build cfg re then Some (-1, m1, r1)
          else
           (let n = rc_re_ovector cfg re in
            case rc_re_exec cfg re s of
              None \<Rightarrow> answer False (m1\<lparr>rm_ovn := n\<rparr>) r1
            | Some ov \<Rightarrow> answer True (m1\<lparr>rm_ovn := n, rm_ovector := if n > 0 then ov else []\<rparr>) r1)))"

definition upsgi_route_condition_equal where
  "upsgi_route_condition_equal cfg ur m r = cond_two cfg ur m r (\<lambda>a b. answer (upsgi_strncmp a b = 0) m)"

definition upsgi_route_condition_higher where
  "upsgi_route_condition_higher cfg ur m r = cond_two cfg ur m r (\<lambda>a b. answer (sint (strtol10 a) > sint (strtol10 b)) m)"

definition upsgi_route_condition_higherequal where
  "upsgi_route_condition_higherequal cfg ur m r = cond_two cfg ur m r (\<lambda>a b. answer (sint (strtol10 a) \<ge> sint (strtol10 b)) m)"

definition upsgi_route_condition_lower where
  "upsgi_route_condition_lower cfg ur m r = cond_two cfg ur m r (\<lambda>a b. answer (sint (strtol10 a) < sint (strtol10 b)) m)"

definition upsgi_route_condition_lowerequal where
  "upsgi_route_condition_lowerequal cfg ur m r = cond_two cfg ur m r (\<lambda>a b. answer (sint (strtol10 a) \<le> sint (strtol10 b)) m)"

definition upsgi_route_condition_startswith where
  "upsgi_route_condition_startswith cfg ur m r = cond_two cfg ur m r (\<lambda>a b. answer (upsgi_starts_with a b = 0) m)"

definition upsgi_route_condition_contains where
  "upsgi_route_condition_contains cfg ur m r = cond_two cfg ur m r (\<lambda>a b r1.
     case upsgi_contains_n a b of None \<Rightarrow> None | Some c \<Rightarrow> answer c m r1)"

definition upsgi_route_condition_endswith where
  "upsgi_route_condition_endswith cfg ur m r = cond_two cfg ur m r (\<lambda>a b.
     answer (length b \<le> length a \<and> upsgi_strncmp (drop (length a - length b) a) b = 0) m)"

text \<open>The address and the network; a prefix length follows a slash.  The copies are cut at their first zero byte.\<close>

definition split_prefix :: "int \<Rightarrow> char list \<Rightarrow> (char list \<times> int) option" where
  "split_prefix dflt mb =
     (case strchr_split (CHR ''/'') mb of
        None \<Rightarrow> Some (mb, dflt)
      | Some (net, p) \<Rightarrow> map_option (Pair net) (atoi_str p))"

definition ipv4_match :: "32 word \<Rightarrow> 32 word \<Rightarrow> nat \<Rightarrow> bool" where
  "ipv4_match ip net pfxlen =
     (let mk = (ucast (push_bit (32 - pfxlen) (- 1 :: 64 word)) :: 32 word) in (ip AND mk) = (net AND mk))"

definition upsgi_route_condition_ipv4in :: "rt_cfg \<Rightarrow> upsgi_route \<Rightarrow> route_mem \<Rightarrow> rt_req \<Rightarrow> cond_result" where
  "upsgi_route_condition_ipv4in cfg ur m r = cond_two cfg ur m r (\<lambda>a b r1.
     if length a > 15 \<or> length b \<ge> 18 then Some (-1, m, r1)
     else
      (case split_prefix 32 (cstr b) of
         None \<Rightarrow> None
       | Some (nb, pfxlen) \<Rightarrow>
           (let ip = rc_inet_addr cfg (cstr a); net = rc_inet_addr cfg nb in
            answer (ip \<noteq> - 1 \<and> net \<noteq> - 1 \<and> 0 \<le> pfxlen \<and> pfxlen \<le> 32 \<and> ipv4_match ip net (nat pfxlen)) m r1)))"

text \<open>The four words of an address, in the order of the bytes on the wire (each word is compared after \<open>htonl\<close>).\<close>

definition ipv6_mask :: "nat \<Rightarrow> 32 word list" where
  "ipv6_mask pfxlen =
     (let i = pfxlen div 32; m0 = map (\<lambda>k. if k < i then - 1 else 0) [0..<4] in
      if pfxlen mod 32 \<noteq> 0 then m0[i := push_bit (32 - pfxlen mod 32) (- 1)] else m0)"

definition ipv6_match :: "32 word list \<Rightarrow> 32 word list \<Rightarrow> nat \<Rightarrow> bool" where
  "ipv6_match ip net pfxlen = list_all (\<lambda>k. (ip ! k AND ipv6_mask pfxlen ! k) = (net ! k AND ipv6_mask pfxlen ! k)) [0..<4]"

definition upsgi_route_condition_ipv6in :: "rt_cfg \<Rightarrow> upsgi_route \<Rightarrow> route_mem \<Rightarrow> rt_req \<Rightarrow> cond_result" where
  "upsgi_route_condition_ipv6in cfg ur m r = cond_two cfg ur m r (\<lambda>a b r1.
     if length a > 39 \<or> length b \<ge> 43 then Some (-1, m, r1)
     else
      (case split_prefix 128 (cstr b) of
         None \<Rightarrow> None
       | Some (nb, pfxlen) \<Rightarrow>
           (case (rc_inet_pton6 cfg (cstr a), rc_inet_pton6 cfg nb) of
              (Some ip, Some net) \<Rightarrow> answer (0 \<le> pfxlen \<and> pfxlen \<le> 128 \<and> ipv6_match ip net (nat pfxlen)) m r1
            | _ \<Rightarrow> answer False m r1)))"

definition run_cond :: "rt_cfg \<Rightarrow> route_cond \<Rightarrow> upsgi_route \<Rightarrow> route_mem \<Rightarrow> rt_req \<Rightarrow> cond_result" where
  "run_cond cfg c ur m r =
     (case c of
        C_equal \<Rightarrow> upsgi_route_condition_equal cfg ur m r
      | C_startswith \<Rightarrow> upsgi_route_condition_startswith cfg ur m r
      | C_endswith \<Rightarrow> upsgi_route_condition_endswith cfg ur m r
      | C_regexp \<Rightarrow> upsgi_route_condition_regexp cfg ur m r
      | C_higher \<Rightarrow> upsgi_route_condition_higher cfg ur m r
      | C_lower \<Rightarrow> upsgi_route_condition_lower cfg ur m r
      | C_higherequal \<Rightarrow> upsgi_route_condition_higherequal cfg ur m r
      | C_lowerequal \<Rightarrow> upsgi_route_condition_lowerequal cfg ur m r
      | C_contains \<Rightarrow> upsgi_route_condition_contains cfg ur m r
      | C_ipv4in \<Rightarrow> upsgi_route_condition_ipv4in cfg ur m r
      | C_ipv6in \<Rightarrow> upsgi_route_condition_ipv6in cfg ur m r
      | C_empty \<Rightarrow> cond_one cfg ur m r (\<lambda>s. s = [])
      | C_status \<Rightarrow> answer (w_status (rt_wr r) = ur_if_status ur) m r
      | _ \<Rightarrow> cond_one cfg ur m r (\<lambda>s. rc_file cfg c (cstr s)))"

section \<open>The interpreter\<close>

text \<open>Does the rule apply?  A rule with neither condition nor subject is run always; a subject is matched with the pattern.
  \<open>None\<close>: an access outside of a block.\<close>

datatype verdict = Skip | Stop | Run route_mem

definition rule_applies :: "rt_cfg \<Rightarrow> upsgi_route \<Rightarrow> rt_req \<Rightarrow> (verdict \<times> rt_req) option" where
  "rule_applies cfg ur r =
     (case ur_if_func ur of
        Some c \<Rightarrow>
          (case run_cond cfg c ur no_mem r of
             None \<Rightarrow> None
           | Some (ret, m, r1) \<Rightarrow>
               Some (if ret < 0 then Stop else if (ret > 0) = ur_if_negate ur then Skip else Run m, r1))
      | None \<Rightarrow>
          (case ur_subject ur of
             None \<Rightarrow> Some (Run no_mem, r)
           | Some f \<Rightarrow>
               (let n = rc_re_ovector cfg (ur_orig_route ur) in
                case field_src r f of
                  Wild _ \<Rightarrow> None
                | s \<Rightarrow>
                    (case rc_re_exec cfg (ur_orig_route ur) (case s of Mem t \<Rightarrow> t | _ \<Rightarrow> []) of
                       None \<Rightarrow> Some (Skip, r)
                     | Some ov \<Rightarrow> Some (Run \<lparr>rm_ub = None, rm_ovn = n, rm_ovector = if n > 0 then ov else []\<rparr>, r)))))"

definition run_rule :: "rt_cfg \<Rightarrow> route_mem \<Rightarrow> upsgi_route \<Rightarrow> rt_req \<Rightarrow> act_result" where
  "run_rule cfg m ur r =
     map_option (\<lambda>(ret, r1). (ret, r1\<lparr>rt_is_routing := False, rt_routed_requests := rt_routed_requests r1 + (if ret = BREAK then 1 else 0)\<rparr>))
       (run_func cfg (Some m) ur (r\<lparr>rt_is_routing := True\<rparr>))"

definition next_rule :: "route_table \<Rightarrow> upsgi_route list \<Rightarrow> rt_req \<Rightarrow> rt_req" where
  "next_rule t urs r = (if urs = [] then r else r\<lparr>rt_pc := (rt_pc r)(t := (rt_pc r t + 1) mod 2 ^ 32)\<rparr>)"

fun upsgi_apply_routes_do :: "rt_cfg \<Rightarrow> route_table \<Rightarrow> upsgi_route list \<Rightarrow> rt_req \<Rightarrow> act_result" where
  "upsgi_apply_routes_do cfg t [] r = Some (CONTINUE, r)"
| "upsgi_apply_routes_do cfg t (ur # urs) r =
     (if ur_label ur \<noteq> None \<or> rt_goto r t > 0 \<and> rt_pc r t < rt_goto r t
      then upsgi_apply_routes_do cfg t urs (next_rule t urs r)
      else
       (case rule_applies cfg ur (r\<lparr>rt_goto := (rt_goto r)(t := 0)\<rparr>) of
          None \<Rightarrow> None
        | Some (Stop, r1) \<Rightarrow> Some (BREAK, r1)
        | Some (Skip, r1) \<Rightarrow> upsgi_apply_routes_do cfg t urs (next_rule t urs r1)
        | Some (Run m, r1) \<Rightarrow>
            (case run_rule cfg m ur r1 of
               None \<Rightarrow> None
             | Some (NEXT, r2) \<Rightarrow> upsgi_apply_routes_do cfg t urs (next_rule t urs r2)
             | Some (ret, r2) \<Rightarrow> Some (ret, r2))))"

text \<open>\<open>parse_ok\<close> is the answer of \<open>upsgi_parse_vars\<close>.\<close>

definition upsgi_apply_routes :: "rt_cfg \<Rightarrow> bool \<Rightarrow> rt_req \<Rightarrow> act_result" where
  "upsgi_apply_routes cfg parse_ok r =
     (if rc_tables cfg T_routes = [] \<or> rt_is_routing r then Some (CONTINUE, r)
      else if \<not> parse_ok then Some (BREAK, r)
      else if rt_routes_applied r then Some (CONTINUE, r)
      else upsgi_apply_routes_do cfg T_routes (rc_tables cfg T_routes) r)"

definition upsgi_apply_final_routes :: "rt_cfg \<Rightarrow> rt_req \<Rightarrow> rt_req option" where
  "upsgi_apply_final_routes cfg r =
     (if rc_tables cfg T_final = [] \<or> rt_is_routing r then Some r
      else map_option snd (upsgi_apply_routes_do cfg T_final (rc_tables cfg T_final) (r\<lparr>rt_is_final_routing := True\<rparr>)))"

definition upsgi_apply_error_routes :: "rt_cfg \<Rightarrow> rt_req \<Rightarrow> act_result" where
  "upsgi_apply_error_routes cfg r =
     (if rc_tables cfg T_error = [] \<or> w_is_error_routing (rt_wr r) then Some (NEXT, r)
      else upsgi_apply_routes_do cfg T_error (rc_tables cfg T_error) (on_wr (\<lambda>w. w\<lparr>w_is_error_routing := True\<rparr>) r))"

definition upsgi_apply_response_routes :: "rt_cfg \<Rightarrow> rt_req \<Rightarrow> act_result" where
  "upsgi_apply_response_routes cfg r =
     (if rc_tables cfg T_response = [] \<or> rt_response_routes_applied r \<or> w_is_response_routing (rt_wr r) then Some (NEXT, r)
      else map_option (\<lambda>(ret, r1). (ret, r1\<lparr>rt_response_routes_applied := True\<rparr>))
             (upsgi_apply_routes_do cfg T_response (rc_tables cfg T_response) (on_wr (\<lambda>w. w\<lparr>w_is_response_routing := True\<rparr>) r)))"

section \<open>Rules from options\<close>

definition with_arg :: "route_func \<Rightarrow> upsgi_route \<Rightarrow> char list \<Rightarrow> upsgi_route option" where
  "with_arg f ur arg = Some (ur\<lparr>ur_func := f, ur_data := arg @ [NUL], ur_data_len := length arg\<rparr>)"

definition without_arg :: "route_func \<Rightarrow> upsgi_route \<Rightarrow> char list \<Rightarrow> upsgi_route option" where
  "without_arg f ur arg = Some (ur\<lparr>ur_func := f\<rparr>)"

definition with_number :: "route_func \<Rightarrow> upsgi_route \<Rightarrow> char list \<Rightarrow> upsgi_route option" where
  "with_number f ur arg = map_option (\<lambda>n. ur\<lparr>ur_func := f, ur_custom := word_of_int n\<rparr>) (atoi_str arg)"

text \<open>A rule of the form key=value: the key stays at the head of the whole text.\<close>

definition with_pair :: "route_func \<Rightarrow> upsgi_route \<Rightarrow> char list \<Rightarrow> upsgi_route option" where
  "with_pair f ur arg =
     map_option (\<lambda>(k, v). ur\<lparr>ur_func := f, ur_data := arg @ [NUL], ur_data_len := length k, ur_data2 := v @ [NUL], ur_data2_len := length v\<rparr>)
       (strchr_split (CHR ''='') arg)"

text \<open>The length of the second part is taken from the whole text.\<close>

definition upsgi_router_simple_math_plus :: "upsgi_route \<Rightarrow> char list \<Rightarrow> upsgi_route option" where
  "upsgi_router_simple_math_plus ur arg =
     Some (case strchr_split (CHR '','') arg of
             Some (a, b) \<Rightarrow>
               ur\<lparr>ur_func := R_simple_math, ur_data := arg @ [NUL], ur_data_len := length a, ur_data2 := b @ [NUL], ur_data2_len := length arg\<rparr>
           | None \<Rightarrow> ur\<lparr>ur_func := R_simple_math, ur_data := arg @ [NUL], ur_data_len := length arg\<rparr>)"

definition upsgi_router_simple_math_minus :: "upsgi_route \<Rightarrow> char list \<Rightarrow> upsgi_route option" where
  "upsgi_router_simple_math_minus ur = upsgi_router_simple_math_plus (ur\<lparr>ur_custom := 1\<rparr>)"

definition upsgi_router_simple_math_multiply :: "upsgi_route \<Rightarrow> char list \<Rightarrow> upsgi_route option" where
  "upsgi_router_simple_math_multiply ur = upsgi_router_simple_math_plus (ur\<lparr>ur_custom := 2\<rparr>)"

definition upsgi_router_simple_math_divide :: "upsgi_route \<Rightarrow> char list \<Rightarrow> upsgi_route option" where
  "upsgi_router_simple_math_divide ur = upsgi_router_simple_math_plus (ur\<lparr>ur_custom := 2\<rparr>)"

definition upsgi_router_goto :: "upsgi_route \<Rightarrow> char list \<Rightarrow> upsgi_route option" where
  "upsgi_router_goto ur arg = Option.bind (with_arg R_goto ur arg) (\<lambda>u. with_number R_goto u arg)"

definition upsgi_router_alarm :: "upsgi_route \<Rightarrow> char list \<Rightarrow> upsgi_route option" where
  "upsgi_router_alarm ur arg =
     map_option (\<lambda>(a, b). ur\<lparr>ur_func := R_alarm, ur_data := a @ NUL # b @ [NUL], ur_data_len := length a, ur_data2 := b @ [NUL], ur_data2_len := length b\<rparr>)
       (strchr_split (CHR '' '') arg)"

definition upsgi_router_send_crnl :: "upsgi_route \<Rightarrow> char list \<Rightarrow> upsgi_route option" where
  "upsgi_router_send_crnl ur arg = map_option (\<lambda>u. u\<lparr>ur_custom := 1\<rparr>) (with_arg R_send ur arg)"

definition embedded_routers :: "(char list \<times> (upsgi_route \<Rightarrow> char list \<Rightarrow> upsgi_route option)) list" where
  "embedded_routers =
     [(''continue'', without_arg R_continue), (''last'', without_arg R_continue), (''break'', with_arg R_break),
      (''return'', with_arg R_return), (''break-with-status'', with_arg R_return), (''log'', with_arg R_log),
      (''donotlog'', without_arg R_donotlog), (''donotoffload'', without_arg R_donotoffload), (''logvar'', with_pair R_logvar),
      (''goto'', upsgi_router_goto), (''addvar'', with_pair R_addvar), (''addheader'', with_arg R_addheader),
      (''delheader'', with_arg R_remheader), (''remheader'', with_arg R_remheader), (''clearheaders'', with_arg R_clearheaders),
      (''resetheaders'', with_arg R_clearheaders), (''disableheaders'', with_arg R_disableheaders), (''signal'', with_number R_signal),
      (''send'', with_arg R_send), (''send-crnl'', upsgi_router_send_crnl), (''chdir'', with_arg R_chdir), (''setapp'', with_arg R_setapp),
      (''setuser'', with_arg R_setuser), (''sethome'', with_arg R_sethome), (''setfile'', with_arg R_setfile),
      (''setscriptname'', with_arg R_setscriptname), (''setmethod'', with_arg R_setmethod), (''seturi'', with_arg R_seturi),
      (''setremoteaddr'', with_arg R_setremoteaddr), (''setpathinfo'', with_arg R_setpathinfo), (''fixpathinfo'', with_arg R_fixpathinfo),
      (''setdocroot'', with_arg R_setdocroot), (''setscheme'', with_arg R_setscheme), (''setprocname'', with_arg R_setprocname),
      (''alarm'', upsgi_router_alarm), (''setmodifier1'', with_number R_setmodifier1), (''setmodifier2'', with_number R_setmodifier2),
      (''+'', upsgi_router_simple_math_plus), (''-'', upsgi_router_simple_math_minus), (''*'', upsgi_router_simple_math_multiply),
      (''/'', upsgi_router_simple_math_divide), (''flush'', without_arg R_flush), (''fixcl'', without_arg R_fixcl),
      (''forcecl'', without_arg R_forcecl), (''harakiri'', with_number R_harakiri)]"

definition embedded_conditions :: "(char list \<times> route_cond) list" where
  "embedded_conditions =
     [(''exists'', C_exists), (''isfile'', C_isfile), (''isdir'', C_isdir), (''islink'', C_islink), (''isexec'', C_isexec),
      (''equal'', C_equal), (''isequal'', C_equal), (''eq'', C_equal), (''=='', C_equal), (''startswith'', C_startswith),
      (''endswith'', C_endswith), (''regexp'', C_regexp), (''re'', C_regexp), (''ishigher'', C_higher), (''>'', C_higher),
      (''islower'', C_lower), (''<'', C_lower), (''ishigherequal'', C_higherequal), (''>='', C_higherequal),
      (''islowerequal'', C_lowerequal), (''<='', C_lowerequal), (''contains'', C_contains), (''contain'', C_contains),
      (''ipv4in'', C_ipv4in), (''ipv6in'', C_ipv6in), (''empty'', C_empty)]"

definition upsgi_route_get_condition_func :: "char list \<Rightarrow> route_cond option" where
  "upsgi_route_get_condition_func = map_of embedded_conditions"

definition route_subject :: "char list \<Rightarrow> req_field" where
  "route_subject kind =
     (if kind = ''http_host'' then F_host else if kind = ''request_uri'' then F_uri else if kind = ''query_string'' then F_query_string
      else if kind = ''remote_addr'' then F_remote_addr else if kind = ''user_agent'' then F_user_agent
      else if kind = ''referer'' then F_referer else if kind = ''remote_user'' then F_remote_user else F_path_info)"

definition add_action :: "upsgi_route \<Rightarrow> char list \<Rightarrow> upsgi_route option" where
  "add_action ur command =
     (case strchr_split (CHR '':'') command of
        None \<Rightarrow> None
      | Some (name, arg) \<Rightarrow> (case map_of embedded_routers name of None \<Rightarrow> None | Some f \<Rightarrow> f ur arg))"

text \<open>The part of a rule before its action; \<open>kind\<close> is the argument the option passes (\<open>foobar\<close>).  \<open>None\<close>: the process ends with
  a message.\<close>

definition add_subject :: "char list \<Rightarrow> char list \<Rightarrow> upsgi_route \<Rightarrow> upsgi_route option" where
  "add_subject kind pat ur =
     (if kind = ''if'' \<or> kind = ''if-not'' then
        (case strchr_split (CHR '':'') pat of
           None \<Rightarrow> None
         | Some (name, arg) \<Rightarrow>
             map_option (\<lambda>c. ur\<lparr>ur_orig_route := name, ur_if_negate := (kind = ''if-not''), ur_if_func := Some c, ur_subject_str := arg\<rparr>)
               (upsgi_route_get_condition_func name))
      else if kind = ''status'' then
        map_option (\<lambda>n. ur\<lparr>ur_orig_route := pat, ur_if_status := n, ur_if_func := Some C_status, ur_subject_str := pat\<rparr>) (atoi_str pat)
      else Some (ur\<lparr>ur_orig_route := pat, ur_subject := Some (route_subject kind), ur_subject_str := kind\<rparr>))"

definition upsgi_opt_add_route :: "char list option \<Rightarrow> char list \<Rightarrow> upsgi_route list \<Rightarrow> upsgi_route list option" where
  "upsgi_opt_add_route kind val urs =
     (let ur = route_zero\<lparr>ur_pos := length urs\<rparr> in
      map_option (\<lambda>u. urs @ [u])
       (case kind of
          None \<Rightarrow> Some (ur\<lparr>ur_label := Some val\<rparr>)
        | Some k \<Rightarrow>
            if k = ''run'' then add_action (ur\<lparr>ur_orig_route := val\<rparr>) val
            else
             (case strchr_split (CHR '' '') val of
                None \<Rightarrow> None
              | Some (pat, command) \<Rightarrow> Option.bind (add_subject k pat ur) (\<lambda>u. add_action u command))))"

text \<open>The patterns are compiled before the first request; a pattern that is not valid ends the process.\<close>

definition upsgi_fixup_routes :: "rt_cfg \<Rightarrow> upsgi_route list \<Rightarrow> bool" where
  "upsgi_fixup_routes cfg urs = list_all (\<lambda>ur. ur_subject ur \<noteq> None \<longrightarrow> rc_re_build cfg (ur_orig_route ur)) urs"

definition upsgi_route_api_func :: "rt_cfg \<Rightarrow> char list \<Rightarrow> char list \<Rightarrow> rt_req \<Rightarrow> act_result option" where
  "upsgi_route_api_func cfg router args r =
     (case map_of embedded_routers router of
        None \<Rightarrow> None
      | Some f \<Rightarrow> (case f route_zero args of None \<Rightarrow> None | Some ur \<Rightarrow> Some (run_func cfg None ur r)))"

end
