(* ===== verification/Upsgi_RoutingProps.thy ===== *)
theory Upsgi_RoutingProps
  imports Upsgi_Routing
begin

text \<open>
  Properties of the internal routing: the substitution of groups stays in its blocks and is exact; a translation is the rendering of
  a parsed template; a table is a structured program with jumps ahead; positions and labels; actions that set variables read
  back; the masks of networks are prefixes of bits.  The last part proves where the code deviates from its intention.
\<close>

section \<open>Captured groups\<close>

text \<open>The reference: a dollar and a digit stand for a group, a group that the pattern does not have for nothing; a dollar and
  another byte stand for themselves; a last dollar is lost.\<close>

fun group_subst :: "(nat \<Rightarrow> char list) \<Rightarrow> nat \<Rightarrow> char list \<Rightarrow> char list" where
  "group_subst g n [] = []"
| "group_subst g n (c # cs) =
     (if c = CHR ''$'' then
        (case cs of
           [] \<Rightarrow> []
         | d # ds \<Rightarrow> (if is_digit d then (if ord d - 48 \<le> n then g (ord d - 48) else []) else [CHR ''$'', d]) @ group_subst g n ds)
      else c # group_subst g n cs)"

definition group_ok :: "char list \<Rightarrow> int \<times> int \<Rightarrow> bool" where
  "group_ok s g \<longleftrightarrow> (case g of (a, b) \<Rightarrow> a = b \<or> 0 \<le> a \<and> a < b \<and> b \<le> int (length s))"

definition group_text :: "char list \<Rightarrow> int \<times> int \<Rightarrow> char list" where
  "group_text s g = (case g of (a, b) \<Rightarrow> if a = b then [] else take (nat (b - a)) (drop (nat a) s))"

definition ovector_ok :: "char list \<Rightarrow> nat \<Rightarrow> (int \<times> int) list \<Rightarrow> bool" where
  "ovector_ok s n ov \<longleftrightarrow> length ov = n + 1 \<and> list_all (group_ok s) ov"

lemma copy_group_ok: "group_ok s g \<Longrightarrow> copy_group (Mem s) g = Some (group_text s g)"
  by (auto simp: group_ok_def copy_group_def group_text_def split: prod.splits)

lemma group_text_length: "group_ok s g \<Longrightarrow> length (group_text s g) \<le> length s"
  by (auto simp: group_ok_def group_text_def split: prod.splits)

abbreviation dollars_in :: "char list \<Rightarrow> nat" where
  "dollars_in cs \<equiv> length (filter (\<lambda>c. c = CHR ''$'') cs)"

text \<open>What the block must still hold: the rest of the template, and a whole subject for every dollar.\<close>

definition subst_room :: "char list \<Rightarrow> nat \<Rightarrow> bool \<Rightarrow> char list \<Rightarrow> char list \<Rightarrow> bool" where
  "subst_room s cap dollar cs out \<longleftrightarrow>
     length out + length cs + (if dollar then 1 else 0) + length s * (dollars_in cs + (if dollar then 1 else 0)) + 1 \<le> cap"

lemma room_group:
  assumes "subst_room s cap True (c # cs) out" "length g \<le> length s"
  shows "subst_room s cap False cs (out @ g)" "put cap out g = Some (out @ g)"
proof -
  obtain k where "dollars_in (c # cs) = k + dollars_in cs" by (cases "c = CHR ''$''") auto
  with assms show "subst_room s cap False cs (out @ g)" by (simp add: subst_room_def algebra_simps del: filter.simps)
  then show "put cap out g = Some (out @ g)" by (simp add: subst_room_def put_def)
qed

lemma room_literal:
  assumes "subst_room s cap True (c # cs) out"
  shows "subst_room s cap False cs (out @ [CHR ''$'', c])" "put cap out [CHR ''$'', c] = Some (out @ [CHR ''$'', c])"
proof -
  obtain k where "dollars_in (c # cs) = k + dollars_in cs" by (cases "c = CHR ''$''") auto
  with assms show "subst_room s cap False cs (out @ [CHR ''$'', c])" by (simp add: subst_room_def algebra_simps del: filter.simps)
  then show "put cap out [CHR ''$'', c] = Some (out @ [CHR ''$'', c])" by (simp add: subst_room_def put_def)
qed

lemma ovec_loop_subst:
  assumes "ovector_ok s n ov" "subst_room s cap dollar cs out"
  shows "ovec_loop (Mem s) ov n cap dollar cs out =
     Some (out @ group_subst (\<lambda>k. group_text s (ov ! k)) n (if dollar then CHR ''$'' # cs else cs) @ [NUL])"
  using assms(2)
proof (induction cs arbitrary: dollar out)
  case Nil
  then show ?case by (simp add: put_def subst_room_def)
next
  case (Cons c cs)
  show ?case
  proof (cases dollar)
    case False
    show ?thesis
    proof (cases "c = CHR ''$''")
      case True
      have "subst_room s cap True cs out" using Cons.prems False True by (simp add: subst_room_def)
      from Cons.IH [OF this] show ?thesis using False True by simp
    next
      case no: False
      have "subst_room s cap False cs (out @ [c])" using Cons.prems False no by (simp add: subst_room_def)
      from Cons.IH [OF this] show ?thesis using Cons.prems False no by (simp add: put_def subst_room_def)
    qed
  next
    case True
    have r: "subst_room s cap True (c # cs) out" using Cons.prems True by simp
    have ok: "group_ok s (ov ! k)" if "k \<le> n" for k
      using assms(1) that by (auto simp: ovector_ok_def list_all_length)
    consider (grp) "is_digit c" "ord c - 48 \<le> n" | (none) "is_digit c" "\<not> ord c - 48 \<le> n" | (lit) "\<not> is_digit c" by blast
    then show ?thesis
    proof cases
      case grp
      note g = room_group [OF r group_text_length [OF ok [OF grp(2)]]]
      have "ord c - 48 < length ov" using assms(1) grp(2) by (simp add: ovector_ok_def)
      then show ?thesis
        using True grp copy_group_ok [OF ok [OF grp(2)]] g(2) Cons.IH [OF g(1)] by simp
    next
      case none
      note g = room_group [OF r, of "[]"]
      have "subst_room s cap False cs out" using g(1) by simp
      from Cons.IH [OF this] show ?thesis using True none by simp
    next
      case lit
      show ?thesis using True lit room_literal(2) [OF r] Cons.IH [OF room_literal(1) [OF r]] by simp
    qed
  qed
qed

text \<open>for the groups of a match, every access of the substitution stays within its blocks, whatever the template, and the
  result is the template with the groups in place of their numbers.\<close>

theorem apply_ovec_exact:
  assumes "ovector_ok s n ov"
  shows "upsgi_regexp_apply_ovec (Mem s) dst ov n = Some (group_subst (\<lambda>k. group_text s (ov ! k)) n dst @ [NUL])"
proof -
  have "subst_room s (length dst + length s * (n + dollars_in dst) + 1) False dst []" by (simp add: subst_room_def)
  from ovec_loop_subst [OF assms this] show ?thesis by (simp add: upsgi_regexp_apply_ovec_def)
qed

lemma ovec_prefix:
  assumes "CHR ''$'' \<notin> set a"
  shows "ovec_loop src ov n cap False (a @ rest) out =
     (if length out + length a \<le> cap \<or> a = [] then ovec_loop src ov n cap False rest (out @ a) else None)"
  using assms
proof (induction a arbitrary: out)
  case Nil
  then show ?case by simp
next
  case (Cons c a)
  then have "c \<noteq> CHR ''$''" by auto
  with Cons show ?case by (auto simp: put_def)
qed

lemma ovec_zero_group:
  assumes "CHR ''$'' \<notin> set a"
  shows "upsgi_regexp_apply_ovec src (a @ ''$0'' @ b) [] 0 = None"
proof -
  have "is_digit (CHR ''0'')" "ord (CHR ''0'') - 48 = 0" by code_simp+
  then show ?thesis unfolding upsgi_regexp_apply_ovec_def Let_def ovec_prefix [OF assms] by simp
qed

text \<open>a rule whose pattern has no groups has no vector; the number 0 in its template is read through a null pointer.\<close>

theorem group_zero_without_groups:
  assumes "CHR ''$'' \<notin> set a" "rm_ub m = None" "rm_ovn m = 0" "rm_ovector m = []" "src \<noteq> NullSrc"
    "len = length (a @ ''$0'' @ b)"
  shows "upsgi_routing_translate cfg r (Some m) src (a @ ''$0'' @ b @ c) len = Fault"
proof -
  have "take len (a @ ''$0'' @ b @ c) = a @ ''$0'' @ b" using assms(6) by simp
  moreover have "pass1 m src (a @ ''$0'' @ b) = None"
    using assms(2-5) ovec_zero_group [OF assms(1)] by (simp add: pass1_def)
  ultimately show ?thesis unfolding upsgi_routing_translate_def by simp
qed

section \<open>Templates\<close>

datatype seg = Lit "char list" | Var "char list"

text \<open>The reference: how a text divides into literal parts and variables.  A variable that is not closed is literal.\<close>

function parse_template :: "char list \<Rightarrow> seg list" where
  "parse_template [] = []"
| "parse_template (c # cs) =
     (if c \<noteq> CHR ''$'' then Lit [c] # parse_template cs
      else case cs of
             [] \<Rightarrow> [Lit ''$'']
           | d # ds \<Rightarrow>
               if d \<noteq> CHR ''{'' then Lit [c, d] # parse_template ds
               else if CHR ''}'' \<in> set ds then
                 Var (takeWhile (\<lambda>x. x \<noteq> CHR ''}'') ds) # parse_template (tl (dropWhile (\<lambda>x. x \<noteq> CHR ''}'') ds))
               else [Lit (''${'' @ ds)])"
  by pat_completeness auto
termination
  by (relation "measure length") (auto simp: less_Suc_eq_le intro!: le_SucI intro: le_trans [OF diff_le_self length_dropWhile_le])

fun render :: "rt_cfg \<Rightarrow> seg list \<Rightarrow> rt_req \<Rightarrow> (char list \<times> rt_req) option" where
  "render cfg [] r = Some ([], r)"
| "render cfg (Lit s # segs) r = map_option (\<lambda>(t, r1). (s @ t, r1)) (render cfg segs r)"
| "render cfg (Var k # segs) r =
     (case get_value cfg r k of
        None \<Rightarrow> None
      | Some (v, r1) \<Rightarrow> map_option (\<lambda>(t, r2). ((case v of None \<Rightarrow> [] | Some s \<Rightarrow> s) @ t, r2)) (render cfg segs r1))"

definition rendered :: "rt_cfg \<Rightarrow> seg list \<Rightarrow> rt_req \<Rightarrow> upsgi_buffer \<Rightarrow> (upsgi_buffer \<times> rt_req) c_result \<Rightarrow> bool" where
  "rendered cfg segs r ub x \<longleftrightarrow>
     (case render cfg segs r of
        None \<Rightarrow> x = Fault
      | Some (t, r1) \<Rightarrow> \<exists>u. x = Ok (u, r1) \<and> ub_content u = ub_content ub @ t \<and> ub_inv u \<and> ub_limit u = 0)"

lemma rendered_lit:
  assumes "rendered cfg segs r u x" "ub_content u = ub_content ub @ s"
  shows "rendered cfg (Lit s # segs) r ub x"
  using assms by (auto simp: rendered_def split: option.splits prod.splits)

lemma rendered_var:
  assumes "rendered cfg segs r1 u x" "ub_content u = ub_content ub @ (case v of None \<Rightarrow> [] | Some s \<Rightarrow> s)" "get_value cfg r k = Some (v, r1)"
  shows "rendered cfg (Var k # segs) r ub x"
  using assms by (auto simp: rendered_def split: option.splits prod.splits)

lemma translate_key_open:
  "CHR ''}'' \<notin> set ds \<Longrightarrow> translate_loop cfg 2 key ds ub r =
     (case upsgi_buffer_append (wc_env (rc_wr cfg)) ub (''${'' @ key @ ds) of Ok u \<Rightarrow> Ok (u, r) | Err u \<Rightarrow> Err (u, r) | Fault \<Rightarrow> Fault)"
  by (induction ds arbitrary: key) auto

lemma translate_key_closed:
  "CHR ''}'' \<in> set ds \<Longrightarrow> translate_loop cfg 2 key ds ub r =
     translate_loop cfg 2 (key @ takeWhile (\<lambda>x. x \<noteq> CHR ''}'') ds) (CHR ''}'' # tl (dropWhile (\<lambda>x. x \<noteq> CHR ''}'') ds)) ub r"
proof (induction ds arbitrary: key)
  case Nil
  then show ?case by simp
next
  case (Cons d ds)
  show ?case
  proof (cases "d = CHR ''}''")
    case False
    then have "CHR ''}'' \<in> set ds" using Cons.prems by auto
    from Cons.IH [OF this, of "key @ [d]"] False show ?thesis by (simp del: translate_loop.simps(2)) simp
  qed simp
qed

lemma translate_loop_renders:
  assumes "\<And>n. realloc_ok (wc_env (rc_wr cfg)) n" "ub_inv ub" "ub_limit ub = 0"
  shows "rendered cfg (parse_template cs) r ub (translate_loop cfg 0 [] cs ub r)"
  using assms(2,3)
proof (induction cs arbitrary: ub r rule: parse_template.induct)
  case 1
  then show ?case by (simp add: rendered_def)
next
  case (2 c cs)
  note app = append_total [OF "2.prems" assms(1)]
  show ?case
  proof (cases "c = CHR ''$''")
    case False
    obtain u where u: "upsgi_buffer_append (wc_env (rc_wr cfg)) ub [c] = Ok u" "ub_content u = ub_content ub @ [c]" "ub_inv u" "ub_limit u = 0"
      using app by blast
    from rendered_lit [OF "2.IH"(1) [OF False u(3,4)] u(2)] False u(1) show ?thesis by simp
  next
    case True
    show ?thesis
    proof (cases cs)
      case Nil
      obtain u where "upsgi_buffer_append (wc_env (rc_wr cfg)) ub ''$'' = Ok u" "ub_content u = ub_content ub @ ''$''" "ub_inv u" "ub_limit u = 0"
        using app by blast
      with True Nil show ?thesis by (simp add: rendered_def)
    next
      case (Cons d ds)
      show ?thesis
      proof (cases "d = CHR ''{''")
        case no: False
        obtain u where u: "upsgi_buffer_append (wc_env (rc_wr cfg)) ub [CHR ''$'', d] = Ok u" "ub_content u = ub_content ub @ [CHR ''$'', d]"
            "ub_inv u" "ub_limit u = 0"
          using app by blast
        have "\<not> c \<noteq> CHR ''$''" using True by simp
        from rendered_lit [OF "2.IH"(2) [OF this Cons no u(3,4)] u(2)] True Cons no u(1) show ?thesis by simp
      next
        case yes: True
        show ?thesis
        proof (cases "CHR ''}'' \<in> set ds")
          case False
          obtain u where "upsgi_buffer_append (wc_env (rc_wr cfg)) ub (''${'' @ ds) = Ok u" "ub_content u = ub_content ub @ ''${'' @ ds" "ub_inv u" "ub_limit u = 0"
            using app by blast
          with False True Cons yes translate_key_open [OF False, of cfg "[]" ub r] show ?thesis by (simp add: rendered_def)
        next
          case closed: True
          define k where "k = takeWhile (\<lambda>x. x \<noteq> CHR ''}'') ds"
          define rest where "rest = tl (dropWhile (\<lambda>x. x \<noteq> CHR ''}'') ds)"
          have ih: "rendered cfg (parse_template rest) r1 u (translate_loop cfg 0 [] rest u r1)" if "ub_inv u" "ub_limit u = 0" for u r1
            using "2.IH"(3) [of d ds u r1] True Cons yes closed that unfolding rest_def by blast
          have lhs: "translate_loop cfg 0 [] (c # cs) ub r = translate_loop cfg 2 k (CHR ''}'' # rest) ub r"
            using True Cons yes translate_key_closed [OF closed, of cfg "[]" ub r] by (simp add: k_def rest_def)
          have rhs: "parse_template (c # cs) = Var k # parse_template rest" using True Cons yes closed by (simp add: k_def rest_def)
          show ?thesis
          proof (cases "get_value cfg r k")
            case None
            then show ?thesis unfolding lhs rhs by (simp add: rendered_def)
          next
            case (Some p)
            obtain v r1 where p: "p = (v, r1)" by (cases p)
            show ?thesis
            proof (cases v)
              case None
              have "translate_loop cfg 2 k (CHR ''}'' # rest) ub r = translate_loop cfg 0 [] rest ub r1" using Some p None by simp
              then show ?thesis unfolding lhs rhs using rendered_var [OF ih [OF "2.prems", of r1], of ub v r k] Some p None by simp
            next
              case v: (Some s)
              obtain u where u: "upsgi_buffer_append (wc_env (rc_wr cfg)) ub s = Ok u" "ub_content u = ub_content ub @ s" "ub_inv u" "ub_limit u = 0"
                using app by blast
              have "translate_loop cfg 2 k (CHR ''}'' # rest) ub r = translate_loop cfg 0 [] rest u r1" using Some p v u(1) by simp
              then show ?thesis unfolding lhs rhs using rendered_var [OF ih [OF u(3,4), of r1], of ub v r k] Some p v u(2) by simp
            qed
          qed
        qed
      qed
    qed
  qed
qed

lemma new_buffer_ok: "ub_inv (upsgi_buffer_new env n)" "ub_limit (upsgi_buffer_new env n) = 0" "ub_content (upsgi_buffer_new env n) = []"
  by (simp_all add: upsgi_buffer_new_def ub_inv_def ub_content_def)

text \<open>C36: with enough memory the two passes of a translation are the substitution of the groups and then the replacement of every
  variable by its value; every template is treated, and the text is followed by a zero byte.\<close>

theorem translate_renders:
  assumes "\<And>n. realloc_ok (wc_env (rc_wr cfg)) n" "len \<le> length data" "pass1 m src (take len data) = Some p"
  shows "case render cfg (parse_template p) r of
      None \<Rightarrow> upsgi_routing_translate cfg r (Some m) src data len = Fault
    | Some (t, r1) \<Rightarrow> \<exists>u. upsgi_routing_translate cfg r (Some m) src data len = Ok (u, r1) \<and> ub_content u = t \<and>
        ub_buf u ! ub_pos u = NUL"
proof -
  note tl = translate_loop_renders [OF assms(1) new_buffer_ok(1) [of "wc_env (rc_wr cfg)" "length p"] new_buffer_ok(2), of p r]
  show ?thesis
  proof (cases "render cfg (parse_template p) r")
    case None
    with tl assms(2,3) show ?thesis by (simp add: rendered_def upsgi_routing_translate_def)
  next
    case (Some tr)
    obtain t r1 where tr: "tr = (t, r1)" by (cases tr)
    from tl Some tr obtain u where u: "translate_loop cfg 0 [] p (upsgi_buffer_new (wc_env (rc_wr cfg)) (length p)) r = Ok (u, r1)"
        "ub_content u = t" "ub_inv u" "ub_limit u = 0" by (auto simp: rendered_def new_buffer_ok)
    obtain v where v: "upsgi_buffer_append (wc_env (rc_wr cfg)) u [NUL] = Ok v" "ub_content v = t @ [NUL]" "ub_inv v"
      using append_total [OF u(3,4) assms(1), of "[NUL]"] u(2) by auto
    have "take (ub_pos v) (ub_buf v) = t @ [NUL]" "ub_pos v \<le> length (ub_buf v)" using v(2,3) by (simp_all add: ub_content_def ub_inv_def)
    then have len: "ub_pos v = length t + 1" by (metis length_append length_Cons list.size(3) length_take min.absorb2 One_nat_def)
    have "take (length t) (ub_buf v) = t" "ub_buf v ! length t = NUL"
      using \<open>take (ub_pos v) (ub_buf v) = t @ [NUL]\<close> unfolding len
      by (metis add_diff_cancel_right' append_eq_conv_conj le_add1 min.absorb1 take_take, metis lessI nth_append_length nth_take Suc_eq_plus1)
    with Some tr u(1) v(1) len assms(2,3) show ?thesis by (simp add: upsgi_routing_translate_def ub_content_def)
  qed
qed

text \<open>Text without a dollar stands for itself.\<close>

lemma parse_plain: "CHR ''$'' \<notin> set s \<Longrightarrow> render cfg (parse_template s) r = Some (s, r)"
  by (induction s) auto

lemma translate_plain:
  assumes "\<And>n. realloc_ok (wc_env (rc_wr cfg)) n" "CHR ''$'' \<notin> set s"
  shows "\<exists>u. upsgi_routing_translate cfg r (Some no_mem) NullSrc (s @ x) (length s) = Ok (u, r) \<and> ub_content u = s"
proof -
  have "pass1 no_mem NullSrc (take (length s) (s @ x)) = Some s" by (simp add: pass1_def no_mem_def)
  from translate_renders [OF assms(1) _ this, where r = r] parse_plain [OF assms(2), of cfg r] show ?thesis by auto
qed

section \<open>What translation, conditions and actions leave alone\<close>

definition only_mimes :: "rt_req \<Rightarrow> rt_req \<Rightarrow> bool" where
  "only_mimes r r1 \<longleftrightarrow> r1 = r\<lparr>rt_mimes := rt_mimes r1\<rparr>"

lemma only_mimes_refl [simp]: "only_mimes r r"
  by (simp add: only_mimes_def)

lemma only_mimes_trans: "only_mimes r r1 \<Longrightarrow> only_mimes r1 r2 \<Longrightarrow> only_mimes r r2"
  unfolding only_mimes_def by (metis rt_req.update_convs(25) rt_req.surjective)

lemma only_mimes_keeps:
  assumes "only_mimes r r1"
  shows "rt_pc r1 = rt_pc r" "rt_goto r1 = rt_goto r" "rt_wr r1 = rt_wr r" "rt_field r1 = rt_field r" "rt_fd r1 = rt_fd r"
    "rt_is_final_routing r1 = rt_is_final_routing r"
  by (subst assms [unfolded only_mimes_def]; simp)+

lemma var_mime_mimes: "upsgi_route_var_mime r k = (v, r1) \<Longrightarrow> only_mimes r r1"
  by (auto simp: upsgi_route_var_mime_def only_mimes_def split: option.splits prod.splits)

lemma route_var_mimes:
  assumes "upsgi_get_route_var cfg r name = Some f" "f k = Some (v, r1)"
  shows "only_mimes r r1"
  using assms unfolding upsgi_get_route_var_def
  by (auto split: if_splits c_result.split_asm option.splits simp: bind_eq_Some_conv dest: var_mime_mimes) (metis c_result.exhaust only_mimes_refl)

lemma get_value_mimes:
  assumes "get_value cfg r key = Some (v, r1)"
  shows "only_mimes r r1"
  using assms route_var_mimes by (auto simp: get_value_def Let_def split: option.splits if_splits)

lemma translate_loop_mimes:
  "translate_loop cfg st key cs ub r = Ok (u, r1) \<or> translate_loop cfg st key cs ub r = Err (u, r1) \<Longrightarrow> only_mimes r r1"
proof (induction cs arbitrary: st key ub r)
  case Nil
  then show ?case by (auto simp: Let_def split: c_result.splits if_splits)
next
  case (Cons c cs)
  have app: "only_mimes r r1"
    if x: "(case upsgi_buffer_append (wc_env (rc_wr cfg)) ub d of Ok u \<Rightarrow> translate_loop cfg 0 [] cs u q | Err u \<Rightarrow> Err (u, q) | Fault \<Rightarrow> Fault) = y"
      "y = Ok (u, r1) \<or> y = Err (u, r1)" "only_mimes r q" for d q y
    using x Cons.IH [of 0 "[]" _ q] only_mimes_trans [OF x(3)] by (auto split: c_result.splits)
  show ?case
  proof (cases "st \<noteq> 0 \<and> st \<noteq> 1 \<and> c = CHR ''}''")
    case True
    show ?thesis
    proof (cases "get_value cfg r key")
      case None
      with Cons.prems True show ?thesis by simp
    next
      case (Some p)
      obtain v q where p: "p = (v, q)" by (cases p)
      note q = get_value_mimes [OF Some [unfolded p]]
      show ?thesis
      proof (cases v)
        case None
        then show ?thesis using Cons.prems True Some p Cons.IH [of 0 "[]" ub q] only_mimes_trans [OF q] by auto
      next
        case s: (Some s)
        then show ?thesis using Cons.prems True Some p app [OF refl _ q, of s] by auto
      qed
    qed
  next
    case False
    then show ?thesis using Cons.prems Cons.IH [of 1 key ub r] Cons.IH [of 2 "[]" ub r] Cons.IH [of 2 "key @ [c]" ub r]
        app [OF refl _ only_mimes_refl, of "[c]"] app [OF refl _ only_mimes_refl, of "[CHR ''$'', c]"]
      by (auto simp: Let_def split: if_splits)
  qed
qed

lemma translate_mimes:
  assumes "upsgi_routing_translate cfg r mem src data len = Ok (u, r1) \<or> upsgi_routing_translate cfg r mem src data len = Err (u, r1)"
  shows "only_mimes r r1"
  using assms translate_loop_mimes
  by (auto simp: upsgi_routing_translate_def split: option.splits if_splits c_result.splits prod.splits) (metis, metis, metis)

lemma cond_text_mimes:
  assumes "cond_text cfg r m data f = Some (c, m1, r1)" "\<And>s q c m1 r1. f s q = Some (c, m1, r1) \<Longrightarrow> only_mimes q r1"
  shows "only_mimes r r1"
  using assms translate_mimes [of cfg r "Some m" NullSrc data "length data"] only_mimes_trans
  by (fastforce simp: cond_text_def split: c_result.splits prod.splits)

lemma cond_one_mimes: "cond_one cfg ur m r p = Some (c, m1, r1) \<Longrightarrow> only_mimes r r1"
  unfolding cond_one_def by (erule cond_text_mimes) (simp add: answer_def)

lemma cond_two_mimes:
  assumes "cond_two cfg ur m r f = Some (c, m1, r1)" "\<And>a b q c m1 r1. f a b q = Some (c, m1, r1) \<Longrightarrow> only_mimes q r1"
  shows "only_mimes r r1"
proof (cases "strchr_split (CHR '';'') (ur_subject_str ur)")
  case None
  with assms(1) show ?thesis by (simp add: cond_two_def answer_def)
next
  case (Some ab)
  obtain a b where ab: "ab = (a, b)" by (cases ab)
  show ?thesis
    by (rule cond_text_mimes [where f = "\<lambda>s1 r1. cond_text cfg r1 m b (\<lambda>s2 r2. f s1 s2 r2)" and data = a])
      (use assms(1) Some ab in \<open>simp add: cond_two_def\<close>, rule cond_text_mimes, assumption, rule assms(2), assumption)
qed

lemma run_cond_mimes:
  assumes "run_cond cfg k ur m r = Some (c, m1, r1)"
  shows "only_mimes r r1"
proof (cases k)
  case C_regexp
  then show ?thesis using assms cond_text_mimes
    by (fastforce simp: run_cond_def upsgi_route_condition_regexp_def answer_def Let_def split: option.splits prod.splits if_splits)
next
  case C_contains
  then show ?thesis using assms
    by (auto simp: run_cond_def upsgi_route_condition_contains_def answer_def split: option.splits elim!: cond_two_mimes)
next
  case C_ipv4in
  then show ?thesis using assms
    by (auto simp: run_cond_def upsgi_route_condition_ipv4in_def answer_def Let_def split: option.splits if_splits elim!: cond_two_mimes)
next
  case C_ipv6in
  then show ?thesis using assms
    by (auto simp: run_cond_def upsgi_route_condition_ipv6in_def answer_def Let_def split: option.splits if_splits elim!: cond_two_mimes)
next
  case C_status
  then show ?thesis using assms by (simp add: run_cond_def answer_def)
qed (use assms in \<open>auto simp: run_cond_def upsgi_route_condition_equal_def upsgi_route_condition_higher_def upsgi_route_condition_higherequal_def
      upsgi_route_condition_lower_def upsgi_route_condition_lowerequal_def upsgi_route_condition_startswith_def upsgi_route_condition_endswith_def
      answer_def elim!: cond_two_mimes cond_one_mimes\<close>)

lemma rule_applies_mimes: "rule_applies cfg ur r = Some (v, r1) \<Longrightarrow> only_mimes r r1"
  by (auto simp: rule_applies_def Let_def split: option.splits src.splits prod.splits dest: run_cond_mimes)

text \<open>No action moves the position in a table.\<close>

lemma with_text_pc:
  assumes "with_text cfg r mem ur data len f = Some (ret, r1)" "\<And>s q ret r1. f s q = Some (ret, r1) \<Longrightarrow> rt_pc r1 = rt_pc q"
  shows "rt_pc r1 = rt_pc r"
proof -
  consider ub q where "upsgi_routing_translate cfg r mem (subject_src r ur) data len = Ok (ub, q)" "f (ub_content ub) q = Some (ret, r1)"
    | ub where "upsgi_routing_translate cfg r mem (subject_src r ur) data len = Err (ub, r1)"
    using assms(1) by (auto simp: with_text_def split: c_result.splits)
  then show ?thesis
  proof cases
    case 1
    then show ?thesis using assms(2) only_mimes_keeps(1) translate_mimes by metis
  next
    case 2
    then show ?thesis using only_mimes_keeps(1) translate_mimes by metis
  qed
qed

lemma rt_append_pc: "rt_append cfg k v r = Some (p, r1) \<Longrightarrow> rt_pc r1 = rt_pc r"
  by (auto simp: rt_append_def Let_def split: c_result.splits)

lemma append_field_pc: "append_field cfg f name len s r = Some (ret, r1) \<Longrightarrow> rt_pc r1 = rt_pc r"
  by (auto simp: append_field_def set_field_def split: option.splits dest!: rt_append_pc)

lemma set_func_pc: "set_func f name cfg mem ur r = Some (ret, r1) \<Longrightarrow> rt_pc r1 = rt_pc r"
  unfolding set_func_def by (erule with_text_pc) (rule append_field_pc)

lemma wr_apply_pc: "wr_apply f r = Some (ret, r1) \<Longrightarrow> rt_pc r1 = rt_pc r"
  by (auto simp: wr_apply_def split: prod.splits if_splits)

lemma wr_steps_pc: "wr_steps fs r = Some r1 \<Longrightarrow> rt_pc r1 = rt_pc r"
proof (induction fs arbitrary: r)
  case (Cons f fs)
  then show ?case by (auto split: option.splits if_splits dest!: wr_apply_pc)
qed simp

lemmas set_router_defs = upsgi_router_setapp_func_def upsgi_router_setscriptname_func_def upsgi_router_setmethod_func_def
  upsgi_router_seturi_func_def upsgi_router_setremoteaddr_func_def upsgi_router_setdocroot_func_def upsgi_router_setpathinfo_func_def
  upsgi_router_setscheme_func_def upsgi_router_sethome_func_def

lemma setfile_pc: "upsgi_router_setfile_func cfg mem ur r = Some (ret, r1) \<Longrightarrow> rt_pc r1 = rt_pc r"
  by (auto simp: upsgi_router_setfile_func_def split: if_splits dest: set_func_pc)

lemma setuser_pc: "upsgi_router_setuser_func cfg mem ur r = Some (ret, r1) \<Longrightarrow> rt_pc r1 = rt_pc r"
  unfolding upsgi_router_setuser_func_def by (erule with_text_pc) (rule append_field_pc)

lemma fixpathinfo_pc: "upsgi_router_fixpathinfo_func cfg r = Some (ret, r1) \<Longrightarrow> rt_pc r1 = rt_pc r"
  by (auto simp: upsgi_router_fixpathinfo_func_def Let_def set_field_def split: option.splits if_splits dest!: rt_append_pc)

lemma addvar_pc: "upsgi_router_addvar_func cfg mem ur r = Some (ret, r1) \<Longrightarrow> rt_pc r1 = rt_pc r"
  unfolding upsgi_router_addvar_func_def by (erule with_text_pc) (auto dest: rt_append_pc)

lemma break_pc: "upsgi_router_break_func cfg ur r = Some (ret, r1) \<Longrightarrow> rt_pc r1 = rt_pc r"
  by (auto simp: upsgi_router_break_func_def simp del: wr_steps.simps split: if_splits dest: wr_steps_pc)

lemma return_pc: "upsgi_router_return_func cfg ur r = Some (ret, r1) \<Longrightarrow> rt_pc r1 = rt_pc r"
  by (auto simp: upsgi_router_return_func_def simp del: wr_steps.simps split: if_splits option.splits dest: wr_steps_pc)

lemma math_pc: "upsgi_router_simple_math_func cfg mem ur r = Some (ret, r1) \<Longrightarrow> rt_pc r1 = rt_pc r"
  by (auto simp: upsgi_router_simple_math_func_def Let_def split: option.splits if_splits dest: rt_append_pc
      elim!: with_text_pc)

lemma send_pc:
  assumes "upsgi_router_send_func cfg mem ur r = Some (ret, r1)"
  shows "rt_pc r1 = rt_pc r"
  using assms translate_mimes only_mimes_keeps(1)
  by (fastforce simp: upsgi_router_send_func_def split: c_result.splits if_splits dest: wr_apply_pc)

lemma goto_pc: "upsgi_router_goto_func cfg mem ur r = Some (ret, r1) \<Longrightarrow> rt_pc r1 = rt_pc r"
  unfolding upsgi_router_goto_func_def by (erule with_text_pc) (auto simp: Let_def split: if_splits)

lemma alarm_pc: "upsgi_router_alarm_func cfg mem ur r = Some (ret, r1) \<Longrightarrow> rt_pc r1 = rt_pc r"
  unfolding upsgi_router_alarm_func_def by (erule with_text_pc) (erule with_text_pc, auto)

lemma text_actions_pc:
  "upsgi_router_log_func cfg mem ur r = Some (ret, r1) \<Longrightarrow> rt_pc r1 = rt_pc r"
  "upsgi_router_logvar_func cfg mem ur r = Some (ret, r1) \<Longrightarrow> rt_pc r1 = rt_pc r"
  "upsgi_router_addheader_func cfg mem ur r = Some (ret, r1) \<Longrightarrow> rt_pc r1 = rt_pc r"
  "upsgi_router_remheader_func cfg mem ur r = Some (ret, r1) \<Longrightarrow> rt_pc r1 = rt_pc r"
  "upsgi_router_clearheaders_func cfg mem ur r = Some (ret, r1) \<Longrightarrow> rt_pc r1 = rt_pc r"
  "upsgi_router_chdir_func cfg mem ur r = Some (ret, r1) \<Longrightarrow> rt_pc r1 = rt_pc r"
  "upsgi_router_setprocname_func cfg mem ur r = Some (ret, r1) \<Longrightarrow> rt_pc r1 = rt_pc r"
  unfolding upsgi_router_log_func_def upsgi_router_logvar_func_def upsgi_router_addheader_func_def upsgi_router_remheader_func_def
    upsgi_router_clearheaders_func_def upsgi_router_chdir_func_def upsgi_router_setprocname_func_def
  by (erule with_text_pc, auto simp: upsgi_logvar_add_def Let_def on_wr_def split: if_splits dest: wr_apply_pc)+

lemmas action_pc = set_func_pc setfile_pc setuser_pc fixpathinfo_pc addvar_pc break_pc return_pc math_pc send_pc goto_pc alarm_pc text_actions_pc

lemma run_func_pc:
  assumes "run_func cfg mem ur r = Some (ret, r1)"
  shows "rt_pc r1 = rt_pc r"
  using assms unfolding run_func_def set_router_defs upsgi_router_harakiri_func_def set_user_harakiri_def on_wr_def
    upsgi_router_flush_func_def upsgi_router_fixcl_func_def upsgi_router_forcecl_func_def
  by (cases "ur_func ur"; simp only: route_func.case; (blast dest: action_pc | auto))

lemma run_rule_pc: "run_rule cfg m ur r = Some (ret, r1) \<Longrightarrow> rt_pc r1 = rt_pc r"
  by (auto simp: run_rule_def dest!: run_func_pc)

section \<open>Rules as a structured program\<close>

text \<open>The reference: positions in a table.  A rule is evaluated at its position; what comes next is the following position, or the
  one a jump has asked for.\<close>

definition at_rule :: "route_table \<Rightarrow> nat \<Rightarrow> rt_req \<Rightarrow> rt_req" where
  "at_rule t i r = r\<lparr>rt_pc := (rt_pc r)(t := i), rt_goto := (rt_goto r)(t := 0)\<rparr>"

abbreviation forget :: "route_table \<Rightarrow> rt_req \<Rightarrow> rt_req" where
  "forget t \<equiv> at_rule t 0"

function program :: "rt_cfg \<Rightarrow> route_table \<Rightarrow> upsgi_route list \<Rightarrow> nat \<Rightarrow> rt_req \<Rightarrow> act_result" where
  "program cfg t urs i r =
     (if i \<ge> length urs then Some (CONTINUE, forget t r)
      else if ur_label (urs ! i) \<noteq> None then program cfg t urs (i + 1) r
      else
       (case rule_applies cfg (urs ! i) (at_rule t i r) of
          None \<Rightarrow> None
        | Some (Stop, r1) \<Rightarrow> Some (BREAK, forget t r1)
        | Some (Skip, r1) \<Rightarrow> program cfg t urs (i + 1) r1
        | Some (Run m, r1) \<Rightarrow>
            (case run_rule cfg m (urs ! i) r1 of
               None \<Rightarrow> None
             | Some (NEXT, r2) \<Rightarrow> program cfg t urs (max (i + 1) (rt_goto r2 t)) r2
             | Some (ret, r2) \<Rightarrow> Some (ret, forget t r2))))"
  by auto
termination
  by (relation "measure (\<lambda>(_, _, urs, i, _). length urs - i)") auto

declare program.simps [simp del]

lemma at_rule_at_rule [simp]: "at_rule t i (at_rule t j r) = at_rule t i r"
  by (simp add: at_rule_def)

lemma program_end: "length urs \<le> i \<Longrightarrow> program cfg t urs i r = Some (CONTINUE, forget t r)"
  by (simp add: program.simps)

lemma program_cong: "forget t r = forget t r' \<Longrightarrow> program cfg t urs i r = program cfg t urs i r'"
proof (induction "length urs - i" arbitrary: i rule: less_induct)
  case less
  have e: "at_rule t k r = at_rule t k r'" for k
    using less.prems by (metis at_rule_at_rule)
  show ?case
  proof (cases "i < length urs \<and> ur_label (urs ! i) \<noteq> None")
    case True
    then have "length urs - (i + 1) < length urs - i" by arith
    from less.hyps [OF this less.prems] True show ?thesis by (simp add: program.simps [of _ _ _ i])
  next
    case False
    then show ?thesis using e [of 0] e [of i] by (subst (1 2) program.simps) simp
  qed
qed

lemma next_rule_pc: "rt_pc r t = i \<Longrightarrow> i + 1 < 2 ^ 32 \<Longrightarrow> urs \<noteq> [] \<Longrightarrow>
    rt_pc (next_rule t urs r) t = i + 1 \<and> rt_goto (next_rule t urs r) = rt_goto r"
  by (simp add: next_rule_def)

lemma forget_next_rule [simp]: "forget t (next_rule t urs r) = forget t r"
  by (simp add: next_rule_def at_rule_def)

lemma engine_program:
  assumes "length urs < 2 ^ 32"
  shows "i < length urs \<Longrightarrow> rt_pc r t = i \<Longrightarrow>
    map_option (map_prod id (forget t)) (upsgi_apply_routes_do cfg t (drop i urs) r) = program cfg t urs (max i (rt_goto r t)) r"
proof (induction "length urs - i" arbitrary: i r rule: less_induct)
  case less
  note i = less.prems
  obtain ur where ur: "urs ! i = ur" by simp
  have d: "drop i urs = ur # drop (i + 1) urs" using i(1) ur Cons_nth_drop_Suc by fastforce
  have tail: "map_option (map_prod id (forget t)) (upsgi_apply_routes_do cfg t (drop (i + 1) urs) (next_rule t (drop (i + 1) urs) q)) =
      program cfg t urs (max (i + 1) (rt_goto q t)) q" if q: "rt_pc q t = i" for q
  proof (cases "i + 1 < length urs")
    case True
    then have "drop (i + 1) urs \<noteq> []" by simp
    note n = next_rule_pc [OF q _ this] 
    have "i + 1 < 2 ^ 32" using True assms by simp
    with n have n1: "rt_pc (next_rule t (drop (i + 1) urs) q) t = i + 1" "rt_goto (next_rule t (drop (i + 1) urs) q) = rt_goto q" by simp_all
    from less.hyps [OF _ True n1(1)] True n1(2)
    have "map_option (map_prod id (forget t)) (upsgi_apply_routes_do cfg t (drop (i + 1) urs) (next_rule t (drop (i + 1) urs) q)) =
        program cfg t urs (max (i + 1) (rt_goto q t)) (next_rule t (drop (i + 1) urs) q)" by simp
    also have "\<dots> = program cfg t urs (max (i + 1) (rt_goto q t)) q" by (rule program_cong) simp
    finally show ?thesis .
  next
    case False
    then have "length urs \<le> max (i + 1) (rt_goto q t)" "drop (i + 1) urs = []" by auto
    then show ?thesis by (simp add: next_rule_def program_end)
  qed
  show ?case
  proof (cases "ur_label ur \<noteq> None \<or> rt_goto r t > i")
    case True
    have c: "ur_label ur \<noteq> None \<or> rt_goto r t > 0 \<and> rt_pc r t < rt_goto r t" using True i(2) by auto
    have "program cfg t urs (max i (rt_goto r t)) r = program cfg t urs (max (i + 1) (rt_goto r t)) r"
    proof (cases "rt_goto r t > i")
      case False
      then have "max i (rt_goto r t) = i" "max (i + 1) (rt_goto r t) = i + 1" "ur_label (urs ! i) \<noteq> None" using True ur by auto
      then show ?thesis using i(1) by (simp add: program.simps [of _ _ _ i])
    qed (simp add: max_def)
    then show ?thesis unfolding d using c tail [OF i(2)] by simp
  next
    case False
    have m: "max i (rt_goto r t) = i" using False by simp
    have c: "\<not> (ur_label ur \<noteq> None \<or> rt_goto r t > 0 \<and> rt_pc r t < rt_goto r t)" using False i(2) by auto
    have a: "r\<lparr>rt_goto := (rt_goto r)(t := 0)\<rparr> = at_rule t i r"
      using i(2) by (simp add: at_rule_def fun_upd_idem)
    have l: "ur_label (urs ! i) = None" using False ur by simp
    have p: "program cfg t urs i r =
       (case rule_applies cfg ur (at_rule t i r) of
          None \<Rightarrow> None
        | Some (Stop, r1) \<Rightarrow> Some (BREAK, forget t r1)
        | Some (Skip, r1) \<Rightarrow> program cfg t urs (i + 1) r1
        | Some (Run m, r1) \<Rightarrow>
            (case run_rule cfg m ur r1 of
               None \<Rightarrow> None
             | Some (NEXT, r2) \<Rightarrow> program cfg t urs (max (i + 1) (rt_goto r2 t)) r2
             | Some (ret, r2) \<Rightarrow> Some (ret, forget t r2)))"
      unfolding ur [symmetric] using i(1) l by (subst program.simps) simp
    have e: "upsgi_apply_routes_do cfg t (drop i urs) r =
       (case rule_applies cfg ur (at_rule t i r) of
          None \<Rightarrow> None
        | Some (Stop, r1) \<Rightarrow> Some (BREAK, r1)
        | Some (Skip, r1) \<Rightarrow> upsgi_apply_routes_do cfg t (drop (i + 1) urs) (next_rule t (drop (i + 1) urs) r1)
        | Some (Run m, r1) \<Rightarrow>
            (case run_rule cfg m ur r1 of
               None \<Rightarrow> None
             | Some (NEXT, r2) \<Rightarrow> upsgi_apply_routes_do cfg t (drop (i + 1) urs) (next_rule t (drop (i + 1) urs) r2)
             | Some (ret, r2) \<Rightarrow> Some (ret, r2)))"
      unfolding d upsgi_apply_routes_do.simps(2) if_not_P [OF c] a ..
    have pc: "rt_pc r1 t = i" "rt_goto r1 t = 0" if "rule_applies cfg ur (at_rule t i r) = Some (v, r1)" for v r1
      using only_mimes_keeps(1,2) [OF rule_applies_mimes [OF that]] by (simp_all add: at_rule_def)
    have pc2: "rt_pc r2 t = i" if "rule_applies cfg ur (at_rule t i r) = Some (v, r1)" "run_rule cfg m ur r1 = Some (ret, r2)" for v r1 m ret r2
      using pc(1) [OF that(1)] run_rule_pc [OF that(2)] by simp
    have sk: "max (i + 1) (rt_goto r1 t) = i + 1" if "rule_applies cfg ur (at_rule t i r) = Some (v, r1)" for v r1
      using pc(2) [OF that] by simp
    show ?thesis unfolding m p e
      using tail pc(1) pc2 sk
      by (auto split: option.splits verdict.splits route_ret.splits prod.splits)
  qed
qed

text \<open>C13: a table of rules is a structured program: the loop over the counters \<open>route_pc\<close> and \<open>route_goto\<close> runs each rule at its
  position and goes on behind it or at the target of a jump, which lies ahead; it always ends.\<close>

theorem routes_structured:
  assumes "length urs < 2 ^ 32" "urs \<noteq> []" "rt_pc r t = 0" "rt_goto r t = 0"
  shows "map_option (map_prod id (forget t)) (upsgi_apply_routes_do cfg t urs r) = program cfg t urs 0 r"
  using engine_program [OF assms(1), of 0 r t cfg] assms(2-4) by simp

section \<open>Positions and labels\<close>

definition positions_ok :: "upsgi_route list \<Rightarrow> bool" where
  "positions_ok urs \<longleftrightarrow> (\<forall>i < length urs. ur_pos (urs ! i) = i)"

lemma routers_keep_pos:
  assumes "(n, f) \<in> set embedded_routers" "f ur arg = Some u"
  shows "ur_pos u = ur_pos ur \<and> ur_label u = ur_label ur"
  using assms unfolding embedded_routers_def
  by (auto simp: with_arg_def without_arg_def with_number_def with_pair_def upsgi_router_goto_def upsgi_router_simple_math_plus_def
      upsgi_router_simple_math_minus_def upsgi_router_simple_math_multiply_def upsgi_router_simple_math_divide_def upsgi_router_alarm_def
      upsgi_router_send_crnl_def split: option.splits)

lemma add_action_keeps: "add_action ur command = Some u \<Longrightarrow> ur_pos u = ur_pos ur \<and> ur_label u = ur_label ur"
  by (auto simp: add_action_def split: option.splits prod.splits dest!: map_of_SomeD dest: routers_keep_pos)

lemma add_subject_keeps: "add_subject kind pat ur = Some u \<Longrightarrow> ur_pos u = ur_pos ur \<and> ur_label u = ur_label ur"
  by (auto simp: add_subject_def split: option.splits prod.splits if_splits)

text \<open>every rule of a table built from options knows its own position in it.\<close>

theorem add_route_positions:
  assumes "positions_ok urs" "upsgi_opt_add_route kind val urs = Some urs'"
  shows "positions_ok urs' \<and> length urs' = Suc (length urs) \<and> take (length urs) urs' = urs"
proof -
  obtain u where u: "urs' = urs @ [u]" "ur_pos u = length urs"
    using assms(2) by (auto simp: upsgi_opt_add_route_def Let_def bind_eq_Some_conv split: option.splits prod.splits if_splits
        dest!: add_action_keeps add_subject_keeps)
  with assms(1) show ?thesis by (auto simp: positions_ok_def nth_append less_Suc_eq)
qed

lemma find_label_first:
  assumes "positions_ok urs" "j < length urs" "ur_label (urs ! j) = Some l" "\<forall>k < j. ur_label (urs ! k) \<noteq> Some l" "length urs < 2 ^ 32"
  shows "find_label urs l = Some j"
proof -
  have g: "find_label xs l = Some (ur_pos (xs ! j) mod 2 ^ 32)"
    if "j < length xs" "ur_label (xs ! j) = Some l" "\<forall>k < j. ur_label (xs ! k) \<noteq> Some l" for xs j
    using that
  proof (induction xs arbitrary: j)
    case (Cons x xs)
    show ?case
    proof (cases j)
      case 0
      with Cons.prems show ?thesis by (simp add: upsgi_strncmp_def)
    next
      case (Suc j')
      have "ur_label x \<noteq> Some l" using Cons.prems(3) Suc by (metis nth_Cons_0 zero_less_Suc)
      moreover have "find_label xs l = Some (ur_pos (xs ! j') mod 2 ^ 32)"
        by (rule Cons.IH) (use Cons.prems Suc in auto)
      ultimately show ?thesis using Suc by (auto simp: upsgi_strncmp_def split: option.splits if_splits)
    qed
  qed simp
  from g [OF assms(2-4)] show ?thesis using assms(1,2,5) by (simp add: positions_ok_def)
qed

lemma apply_ovec_plain:
  assumes "CHR ''$'' \<notin> set dst"
  shows "upsgi_regexp_apply_ovec src dst ov n = Some (dst @ [NUL])"
  using ovec_prefix [OF assms, of src ov n _ "[]"] unfolding upsgi_regexp_apply_ovec_def Let_def by (simp add: put_def)

lemma cstr_plain: "NUL \<notin> set s \<Longrightarrow> cstr (s @ [NUL]) = s" "NUL \<notin> set s \<Longrightarrow> cstr s = s"
  unfolding cstr_def by (induction s, auto)+

text \<open>A template without variables and groups, in whatever rule, is its text.\<close>

lemma pass1_plain: "CHR ''$'' \<notin> set s \<Longrightarrow> NUL \<notin> set s \<Longrightarrow> pass1 m src s = Some s"
  by (simp add: pass1_def apply_ovec_plain cstr_plain split: option.splits)

lemma translate_text:
  assumes "\<And>n. realloc_ok (wc_env (rc_wr cfg)) n" "CHR ''$'' \<notin> set s" "NUL \<notin> set s"
  shows "\<exists>u. upsgi_routing_translate cfg r (Some m) src (s @ x) (length s) = Ok (u, r) \<and> ub_content u = s"
proof -
  have p: "pass1 m src (take (length s) (s @ x)) = Some s" using pass1_plain [OF assms(2,3)] by simp
  from translate_renders [OF assms(1) _ p, where r = r] parse_plain [OF assms(2), of cfg r] show ?thesis by auto
qed

definition goto_rule :: "upsgi_route \<Rightarrow> char list \<Rightarrow> bool" where
  "goto_rule ur l \<longleftrightarrow> ur_label ur = None \<and> ur_if_func ur = None \<and> ur_subject ur = None \<and> ur_func ur = R_goto \<and>
     ur_data ur = l @ [NUL] \<and> ur_data_len ur = length l"

text \<open>a jump to a label ahead goes on behind the first rule with that label.\<close>

theorem goto_lands:
  assumes "\<And>n. realloc_ok (wc_env (rc_wr cfg)) n" "length urs < 2 ^ 32" "positions_ok urs" "rc_tables cfg t = urs" "goto_table r = t"
    "\<not> rt_is_routing r" "i < j" "j < length urs" "goto_rule (urs ! i) l" "CHR ''$'' \<notin> set l" "NUL \<notin> set l"
    "ur_label (urs ! j) = Some l" "\<forall>k < j. ur_label (urs ! k) \<noteq> Some l"
  shows "program cfg t urs i r = program cfg t urs (Suc j) r"
proof -
  define r1 where "r1 = (at_rule t i r)\<lparr>rt_is_routing := True\<rparr>"
  define r2 where "r2 = (at_rule t i r)\<lparr>rt_goto := (rt_goto (at_rule t i r))(t := j)\<rparr>"
  have f: "find_label (rc_tables cfg t) l = Some j" unfolding assms(4) by (rule find_label_first) fact+
  obtain u where u: "upsgi_routing_translate cfg r1 (Some no_mem) (subject_src r1 (urs ! i)) (l @ [NUL]) (length l) = Ok (u, r1)" "ub_content u = l"
    using translate_text [OF assms(1,10,11)] by blast
  have "goto_table r1 = goto_table r" by (simp add: r1_def goto_table_def at_rule_def)
  then have gt: "goto_table r1 = t" "rt_pc r1 t = i" using assms(5) by (simp_all add: r1_def at_rule_def)
  have "upsgi_router_goto_func cfg (Some no_mem) (urs ! i) r1 = Some (NEXT, r1\<lparr>rt_goto := (rt_goto r1)(t := j)\<rparr>)"
    using u gt f assms(7,9) by (simp add: upsgi_router_goto_func_def with_text_def goto_rule_def Let_def)
  then have run: "run_rule cfg no_mem (urs ! i) (at_rule t i r) = Some (NEXT, r2)"
    using assms(6,9) by (simp add: run_rule_def run_func_def goto_rule_def r1_def r2_def at_rule_def)
  have app: "rule_applies cfg (urs ! i) (at_rule t i r) = Some (Run no_mem, at_rule t i r)"
    using assms(9) by (simp add: rule_applies_def goto_rule_def)
  have g: "rt_goto r2 t = j" by (simp add: r2_def)
  have "program cfg t urs i r = program cfg t urs (max (i + 1) j) r2"
    using assms(7-9) app run g by (subst program.simps) (simp add: goto_rule_def)
  also have "\<dots> = program cfg t urs j r2" using assms(7) by (simp add: max_def)
  also have "\<dots> = program cfg t urs (Suc j) r2" using assms(8,12) by (subst program.simps) simp
  also have "\<dots> = program cfg t urs (Suc j) r" by (rule program_cong) (simp add: r2_def at_rule_def)
  finally show ?thesis .
qed

section \<open>Setting variables\<close>

definition rt_wf :: "rt_req \<Rightarrow> bool" where
  "rt_wf r \<longleftrightarrow> pkt_len (ap_pkt (w_append (rt_wr r))) \<le> length (rt_buffer r) \<and>
     (\<forall>f off len. rt_field r f = Some (off, len) \<longrightarrow> off + len \<le> pkt_len (ap_pkt (w_append (rt_wr r))))"

lemma get_var_append: "upsgi_get_var (h @ [k, v]) key = (if key = k then Some v else upsgi_get_var h key)"
  by (simp add: upsgi_get_var_def upsgi_strncmp_def)

lemma req_append_Ok:
  assumes "upsgi_req_append vec k v a = Ok a1" "length k < 65536" "length v < 65536"
  shows "ap_hvec a1 = ap_hvec a @ [k, v]"
    "pkt_len (ap_pkt a1) = pkt_len (ap_pkt a) + length (keyval_bytes k v)"
    "mem_write (pkt_buffer (ap_pkt a)) (pkt_len (ap_pkt a)) (keyval_bytes k v) = Some (pkt_buffer (ap_pkt a1))"
  using assms by (auto simp: upsgi_req_append_def Let_def append_pair_def copy_remains_def pkt_store_def u16_arg_def split: if_splits option.splits)

lemma rt_append_Some:
  assumes "rt_append cfg k v r = Some (Some ptr, r1)" "length k < 65536" "length v < 65536" "rt_wf r"
  shows "rt_vars r1 = rt_vars r @ [k, v]" "ptr + length v \<le> pkt_len (ap_pkt (w_append (rt_wr r1)))"
    "take (length v) (drop ptr (rt_buffer r1)) = v" "rt_wf r1" "rt_field r1 = rt_field r" "field_text r1 f = field_text r f"
    "ptr + length v \<le> length (rt_buffer r1)"
proof -
  define p where "p = pkt_len (ap_pkt (w_append (rt_wr r)))"
  obtain a1 where a: "upsgi_req_append (wc_vec_size (rc_wr cfg)) k v (w_append (rt_wr r)) = Ok a1" "ptr = p + 4 + length k"
      "r1 = r\<lparr>rt_wr := (rt_wr r)\<lparr>w_append := a1\<rparr>\<rparr>"
    using assms(1,2) by (auto simp: rt_append_def Let_def p_def u16_arg_def split: c_result.splits)
  note q = req_append_Ok [OF a(1) assms(2,3)]
  show "rt_vars r1 = rt_vars r @ [k, v]" "rt_field r1 = rt_field r" using q(1) a(3) by simp_all
  have len: "length (keyval_bytes k v) = 4 + length k + length v" by (simp add: keyval_bytes_def le16_def)
  have b: "rt_buffer r1 = take p (rt_buffer r) @ keyval_bytes k v @ drop (p + 4 + length k + length v) (rt_buffer r)"
      "p + (4 + length k + length v) \<le> length (rt_buffer r)"
    using q(3) a(3) len by (auto simp: mem_write_def p_def ac_simps split: if_splits)
  have pl: "pkt_len (ap_pkt (w_append (rt_wr r1))) = p + 4 + length k + length v" using q(2) a(3) len by (simp add: p_def)
  have lr: "length (rt_buffer r1) = length (rt_buffer r)" unfolding b(1) using b(2) len by simp
  show p1: "ptr + length v \<le> pkt_len (ap_pkt (w_append (rt_wr r1)))" using pl a(2) by simp
  then show "ptr + length v \<le> length (rt_buffer r1)" using pl a(2) lr b(2) by simp
  define hd4 where "hd4 = le16 (length k) @ k @ le16 (length v)"
  have kb: "keyval_bytes k v = hd4 @ v" "length hd4 = 4 + length k" by (simp_all add: hd4_def keyval_bytes_def le16_def)
  have "drop ptr (rt_buffer r1) = v @ drop (p + 4 + length k + length v) (rt_buffer r)"
    unfolding b(1) a(2) kb(1) using b(2) kb(2) by simp
  then show "take (length v) (drop ptr (rt_buffer r1)) = v" by simp
  have inner: "off + n \<le> p" if "rt_field r g = Some (off, n)" for g off n using assms(4) that by (auto simp: rt_wf_def p_def)
  then show "rt_wf r1" using pl lr b(2) a(3) by (fastforce simp: rt_wf_def)
  have "take n (drop off (rt_buffer r1)) = take n (drop off (rt_buffer r))" if "off + n \<le> p" for off n
  proof -
    have "take n (drop off (rt_buffer r1)) = drop off (take (off + n) (rt_buffer r1))" by (simp add: take_drop add.commute)
    also have "take (off + n) (rt_buffer r1) = take (off + n) (rt_buffer r)" unfolding b(1) using that b(2) by (simp add: min_def)
    finally show ?thesis by (simp add: take_drop add.commute)
  qed
  with inner lr show "field_text r1 f = field_text r f"
    using a(3) by (auto simp: field_text_def field_src_def split: option.splits)
qed

lemma field_text_cong: "rt_field q g = rt_field r g \<Longrightarrow> rt_buffer q = rt_buffer r \<Longrightarrow> field_text q g = field_text r g"
  unfolding field_text_def field_src_def by presburger

text \<open>C37: an action that sets a variable and a field, run to its end, leaves its text in both, no other variable and no other field
  changed, and the fields within the packet.\<close>

theorem set_func_reads_back:
  assumes "rt_wf r" "upsgi_routing_translate cfg r mem (subject_src r ur) (ur_data ur) (ur_data_len ur) = Ok (u, q)"
    "length (ub_content u) < 65536" "length name < 65536" "set_func f name cfg mem ur r = Some (NEXT, r2)"
  shows "upsgi_get_var (rt_vars r2) name = Some (ub_content u) \<and> field_text r2 f = Some (ub_content u) \<and> rt_wf r2 \<and>
    (\<forall>k. k \<noteq> name \<longrightarrow> upsgi_get_var (rt_vars r2) k = upsgi_get_var (rt_vars r) k) \<and> (\<forall>g. g \<noteq> f \<longrightarrow> field_text r2 g = field_text r g)"
proof -
  note om = only_mimes_keeps [OF translate_mimes [OF disjI1 [OF assms(2)]]]
  have wf: "rt_wf q" using assms(1) om by (simp add: rt_wf_def)
  obtain ptr q1 where a: "rt_append cfg name (ub_content u) q = Some (Some ptr, q1)" "r2 = set_field f ptr (length (ub_content u)) q1"
    using assms(2,5) by (auto simp: set_func_def with_text_def append_field_def split: option.splits)
  note s = rt_append_Some [OF a(1) assms(4,3) wf]
  have r2: "rt_wr r2 = rt_wr q1" "rt_field r2 = (rt_field q1)(f := Some (ptr, length (ub_content u)))"
    using a(2) assms(3) by (simp_all add: set_field_def)
  have "field_text q g = field_text r g" for g using om by (intro field_text_cong) simp_all
  moreover have "field_text r2 g = field_text q1 g" if "g \<noteq> f" for g using that r2 by (intro field_text_cong) simp_all
  moreover have "field_text r2 f = Some (ub_content u)" using r2 s(3,7) by (simp add: field_text_def field_src_def)
  moreover have "rt_wf r2" using s(2,4) r2 by (auto simp: rt_wf_def)
  ultimately show ?thesis using s(1,6) r2(1) om(3) by (simp add: get_var_append)
qed

section \<open>Networks\<close>

text \<open>The bits of an address, the highest first.\<close>

definition to_bits :: "32 word \<Rightarrow> bool list" where
  "to_bits w = map (\<lambda>k. bit w (31 - k)) [0..<32]"

lemma take_to_bits: "p \<le> 32 \<Longrightarrow> take p (to_bits a) = take p (to_bits b) \<longleftrightarrow> (\<forall>k < 32. 32 - p \<le> k \<longrightarrow> bit a k = bit b k)"
proof -
  assume p: "p \<le> 32"
  have "take p (to_bits a) = take p (to_bits b) \<longleftrightarrow> (\<forall>j < p. bit a (31 - j) = bit b (31 - j))"
    using p by (auto simp: to_bits_def list_eq_iff_nth_eq)
  also have "\<dots> \<longleftrightarrow> (\<forall>k < 32. 32 - p \<le> k \<longrightarrow> bit a k = bit b k)"
  proof
    assume l: "\<forall>j < p. bit a (31 - j) = bit b (31 - j)"
    show "\<forall>k < 32. 32 - p \<le> k \<longrightarrow> bit a k = bit b k"
    proof (intro allI impI)
      fix k :: nat assume "k < 32" "32 - p \<le> k"
      with l [rule_format, of "31 - k"] p show "bit a k = bit b k" by auto
    qed
  next
    assume "\<forall>k < 32. 32 - p \<le> k \<longrightarrow> bit a k = bit b k"
    with p show "\<forall>j < p. bit a (31 - j) = bit b (31 - j)" by auto
  qed
  finally show ?thesis .
qed

lemma masked_eq:
  fixes a b mk :: "32 word"
  shows "(a AND mk) = (b AND mk) \<longleftrightarrow> (\<forall>k < 32. bit mk k \<longrightarrow> bit a k = bit b k)"
  by (auto simp: bit_eq_iff bit_and_iff)

text \<open>an address is in an IPv4 network exactly when the first bits agree, as many as the prefix says, from 0 to 32.\<close>

theorem ipv4_match_prefix:
  assumes "p \<le> 32"
  shows "ipv4_match ip net p \<longleftrightarrow> take p (to_bits ip) = take p (to_bits net)"
proof -
  have "bit (ucast (push_bit (32 - p) (- 1 :: 64 word)) :: 32 word) k \<longleftrightarrow> 32 - p \<le> k" if "k < 32" for k
    using that by (simp add: bit_ucast_iff bit_not_iff bit_mask_iff not_less)
  then show ?thesis unfolding take_to_bits [OF assms] ipv4_match_def Let_def masked_eq by auto
qed

lemma ipv6_mask_bit:
  assumes "p \<le> 128" "w < 4" "k < 32"
  shows "bit (ipv6_mask p ! w) k \<longleftrightarrow> 32 * w + (31 - k) < p"
proof -
  have b: "bit (push_bit (32 - p mod 32) (- 1 :: 32 word)) k \<longleftrightarrow> 32 - p mod 32 \<le> k" using assms(3) by (simp add: bit_not_iff bit_mask_iff not_less)
  have m0: "map (\<lambda>k. if k < p div 32 then - 1 else 0 :: 32 word) [0..<4] ! w = (if w < p div 32 then - 1 else 0)" using assms(2) by simp
  consider (lt) "w < p div 32" | (eq) "w = p div 32" | (gt) "w > p div 32" by linarith
  then show ?thesis
  proof cases
    case lt
    then have "32 * w + 32 \<le> p" using assms(3) by (simp add: less_eq_div_iff_mult_less_eq [symmetric] Suc_le_eq [symmetric] div_le_mono)
    then have "32 * w + (31 - k) < p" using assms(3) by linarith
    then show ?thesis using lt m0 assms(2,3) by (simp add: ipv6_mask_def Let_def nth_list_update)
  next
    case eq
    have d: "p = 32 * w + p mod 32" unfolding eq by simp
    show ?thesis
    proof (cases "p mod 32 = 0")
      case True
      then show ?thesis using eq m0 assms(2) d by (simp add: ipv6_mask_def Let_def)
    next
      case False
      have "32 - p mod 32 \<le> k \<longleftrightarrow> 32 * w + (31 - k) < p" using d assms(3) False by linarith
      then show ?thesis using False eq b assms(2) by (simp add: ipv6_mask_def Let_def)
    qed
  next
    case gt
    then have "p < 32 * w" by (simp add: div_less_iff_less_mult mult.commute)
    then show ?thesis using gt m0 assms(2) by (simp add: ipv6_mask_def Let_def nth_list_update)
  qed
qed

lemma nth_concat_blocks:
  assumes "\<And>x. length (f x) = n" "w < length xs" "k < n"
  shows "concat (map f xs) ! (n * w + k) = f (xs ! w) ! k"
  using assms(2)
proof (induction xs arbitrary: w)
  case (Cons x xs)
  show ?case
  proof (cases w)
    case 0
    with assms show ?thesis by (simp add: nth_append)
  next
    case (Suc w')
    have "n * w + k - length (f x) = n * w' + k" "\<not> n * w + k < length (f x)" using Suc assms(1) [of x] by simp_all
    then show ?thesis using Cons Suc by (simp add: nth_append del: mult_Suc_right)
  qed
qed simp

lemma nth_concat_bits:
  assumes "length ws = 4" "j < 128"
  shows "concat (map to_bits ws) ! j = bit (ws ! (j div 32)) (31 - j mod 32)"
proof -
  have "j div 32 < length ws" using assms by (simp add: div_less_iff_less_mult)
  moreover have "length (to_bits x) = 32" for x by (simp add: to_bits_def)
  ultimately have "concat (map to_bits ws) ! (32 * (j div 32) + j mod 32) = to_bits (ws ! (j div 32)) ! (j mod 32)"
    by (intro nth_concat_blocks) simp_all
  then show ?thesis by (simp add: to_bits_def)
qed

text \<open>an address is in an IPv6 network exactly when the first bits agree, as many as the prefix says, from 0 to 128.\<close>

theorem ipv6_match_prefix:
  assumes "p \<le> 128" "length ip = 4" "length net = 4"
  shows "ipv6_match ip net p \<longleftrightarrow> take p (concat (map to_bits ip)) = take p (concat (map to_bits net))"
proof -
  have len: "length (concat (map to_bits ws)) = 128" if "length ws = 4" for ws
    using that by (simp add: length_concat o_def to_bits_def sum_list_triv)
  have "ipv6_match ip net p \<longleftrightarrow> (\<forall>w < 4. \<forall>k < 32. 32 * w + (31 - k) < p \<longrightarrow> bit (ip ! w) k = bit (net ! w) k)"
    using ipv6_mask_bit [OF assms(1)] by (auto simp: ipv6_match_def list_all_iff masked_eq)
  also have "\<dots> \<longleftrightarrow> (\<forall>j < p. bit (ip ! (j div 32)) (31 - j mod 32) = bit (net ! (j div 32)) (31 - j mod 32))"
  proof
    assume l: "\<forall>w < 4. \<forall>k < 32. 32 * w + (31 - k) < p \<longrightarrow> bit (ip ! w) k = bit (net ! w) k"
    show "\<forall>j < p. bit (ip ! (j div 32)) (31 - j mod 32) = bit (net ! (j div 32)) (31 - j mod 32)"
    proof (intro allI impI)
      fix j assume j: "j < p"
      have "j div 32 < 4" using j assms(1) by (simp add: div_less_iff_less_mult)
      moreover have "32 * (j div 32) + (31 - (31 - j mod 32)) = j"
        using mult_div_mod_eq [of 32 j] mod_less_divisor [of 32 j] by linarith
      ultimately show "bit (ip ! (j div 32)) (31 - j mod 32) = bit (net ! (j div 32)) (31 - j mod 32)"
        using l [rule_format, of "j div 32" "31 - j mod 32"] j by simp
    qed
  next
    assume l: "\<forall>j < p. bit (ip ! (j div 32)) (31 - j mod 32) = bit (net ! (j div 32)) (31 - j mod 32)"
    show "\<forall>w < 4. \<forall>k < 32. 32 * w + (31 - k) < p \<longrightarrow> bit (ip ! w) k = bit (net ! w) k"
    proof (intro allI impI)
      fix w k :: nat assume a: "w < 4" "k < 32" "32 * w + (31 - k) < p"
      have "(32 * w + (31 - k)) div 32 = w" "(32 * w + (31 - k)) mod 32 = 31 - k" by simp_all
      with l [rule_format, OF a(3)] a(2) show "bit (ip ! w) k = bit (net ! w) k" by simp
    qed
  qed
  also have "\<dots> \<longleftrightarrow> take p (concat (map to_bits ip)) = take p (concat (map to_bits net))"
    using assms len [OF assms(2)] len [OF assms(3)] nth_concat_bits [OF assms(2)] nth_concat_bits [OF assms(3)]
    by (auto simp: list_eq_iff_nth_eq)
  finally show ?thesis .
qed

section \<open>Deviations\<close>

lemma strchr_split_app: "c \<notin> set a \<Longrightarrow> strchr_split c (a @ c # b) = Some (a, b)"
  by (induction a) (auto simp: strchr_split_def split: if_splits)

lemma strchr_split_Some: "strchr_split c s = Some (a, b) \<Longrightarrow> s = a @ c # b \<and> c \<notin> set a"
proof -
  assume s: "strchr_split c s = Some (a, b)"
  then have "c \<in> set s" by (auto simp: strchr_split_def split: if_splits)
  then obtain x y where "s = x @ c # y" "c \<notin> set x" by (metis split_list_first)
  with s strchr_split_app [of c x y] show ?thesis by simp
qed

text \<open>a number as operand of the arithmetic actions is read with the length of the whole argument, past the end of its block.\<close>

theorem math_operand_overrun:
  assumes "strchr_split (CHR '','') arg = Some (a, b)" "a \<noteq> []" "upsgi_router_simple_math_plus ur arg = Some u"
    "upsgi_get_var (rt_vars r) (u16_arg a) = Some v" "upsgi_str_num v = Some n"
  shows "upsgi_router_simple_math_func cfg (Some m) u r = None"
proof -
  have arg: "arg = a @ CHR '','' # b" using strchr_split_Some [OF assms(1)] by simp
  have u: "u = ur\<lparr>ur_func := R_simple_math, ur_data := arg @ [NUL], ur_data_len := length a, ur_data2 := b @ [NUL], ur_data2_len := length arg\<rparr>"
    using assms(1,3) by (simp add: upsgi_router_simple_math_plus_def)
  have "take (ur_data_len u) (ur_data u) = a" "ur_data2_len u > length (ur_data2 u)" using u arg assms(2) by (simp_all add: Suc_le_eq)
  then show ?thesis using assms(4,5) u arg
    by (simp add: upsgi_router_simple_math_func_def with_text_def upsgi_routing_translate_def)
qed

text \<open>the division is registered as a multiplication.\<close>

theorem divide_multiplies:
  "map_of embedded_routers ''/'' = Some upsgi_router_simple_math_divide \<and> upsgi_router_simple_math_divide = upsgi_router_simple_math_multiply"
  by (simp add: embedded_routers_def upsgi_router_simple_math_divide_def upsgi_router_simple_math_multiply_def fun_eq_iff)

text \<open>a user name with a colon leaves a field that is longer than the value stored for it, and reaches behind the packet.\<close>

theorem setuser_field_too_long:
  assumes "rt_wf r" "upsgi_routing_translate cfg r mem (subject_src r ur) (ur_data ur) (ur_data_len ur) = Ok (u, q)"
    "length (ub_content u) < 65536" "CHR '':'' \<in> set (ub_content u)" "upsgi_router_setuser_func cfg mem ur r = Some (NEXT, r2)"
  shows "\<not> rt_wf r2"
proof -
  define s where "s = ub_content u"
  define nm where "nm = takeWhile (\<lambda>c. c \<noteq> CHR '':'') s"
  have lt: "length nm < length s"
  proof -
    obtain x y where "s = x @ CHR '':'' # y" using assms(4) split_list unfolding s_def by metis
    then show ?thesis unfolding nm_def by (simp add: le_less_trans [OF length_takeWhile_le] takeWhile_append)
  qed
  note om = only_mimes_keeps [OF translate_mimes [OF disjI1 [OF assms(2)]]]
  have wf: "rt_wf q" using assms(1) om by (simp add: rt_wf_def)
  obtain ptr q1 where a: "rt_append cfg ''REMOTE_USER'' nm q = Some (Some ptr, q1)" "r2 = set_field F_remote_user ptr (length s) q1"
    using assms(2,5) by (auto simp: upsgi_router_setuser_func_def with_text_def append_field_def s_def nm_def split: option.splits)
  have "pkt_len (ap_pkt (w_append (rt_wr q1))) = ptr + length nm"
  proof -
    obtain a1 where "upsgi_req_append (wc_vec_size (rc_wr cfg)) ''REMOTE_USER'' nm (w_append (rt_wr q)) = Ok a1"
        "q1 = q\<lparr>rt_wr := (rt_wr q)\<lparr>w_append := a1\<rparr>\<rparr>" "ptr = pkt_len (ap_pkt (w_append (rt_wr q))) + 15"
      using a(1) by (auto simp: rt_append_def Let_def u16_arg_def split: c_result.splits)
    then show ?thesis using req_append_Ok(2) [of _ _ nm] lt assms(3) by (simp add: s_def keyval_bytes_def le16_def)
  qed
  moreover have "rt_field r2 F_remote_user = Some (ptr, length s)" "rt_wr r2 = rt_wr q1" using a(2) assms(3) by (simp_all add: set_field_def s_def)
  ultimately show ?thesis using lt by (auto simp: rt_wf_def intro!: exI [of _ F_remote_user])
qed

text \<open>through the interface for applications every action with a template reads a null pointer.\<close>

theorem api_template_crashes:
  assumes "router \<in> {''log'', ''goto'', ''addheader'', ''remheader'', ''clearheaders'', ''chdir'', ''setapp'', ''setuser'', ''setpathinfo'', ''send''}"
    "upsgi_route_api_func cfg router args r = Some x"
  shows "x = None"
proof -
  have t: "upsgi_routing_translate cfg q None src data len = Fault" for q src data len by (simp add: upsgi_routing_translate_def)
  from assms show ?thesis
    by (auto simp: upsgi_route_api_func_def embedded_routers_def with_arg_def with_number_def upsgi_router_goto_def run_func_def t with_text_def
        upsgi_router_log_func_def upsgi_router_goto_func_def upsgi_router_addheader_func_def upsgi_router_remheader_func_def
        upsgi_router_clearheaders_func_def upsgi_router_chdir_func_def set_router_defs set_func_def upsgi_router_setuser_func_def
        upsgi_router_send_func_def bind_eq_Some_conv split: option.splits)
qed

text \<open>C38: text that a pattern captured is read as a template once more: a request can name variables in it.\<close>

theorem capture_is_template:
  assumes "\<And>n. realloc_ok (wc_env (rc_wr cfg)) n" "NUL \<notin> set s" "m = \<lparr>rm_ub = Some s, rm_ovn = 1, rm_ovector = [(0, int (length s)), (0, int (length s))]\<rparr>"
    "get_value cfg r key = Some (Some v, r)" "CHR ''}'' \<notin> set key" "s = ''${'' @ key @ ''}''"
  shows "\<exists>u. upsgi_routing_translate cfg r (Some m) src (''$1'' @ [NUL]) 2 = Ok (u, r) \<and> ub_content u = v"
proof -
  have d: "is_digit (CHR ''1'')" "ord (CHR ''1'') - 48 = (1 :: nat)" by code_simp+
  have "ovector_ok s 1 (rm_ovector m)" using assms(3,6) by (simp add: ovector_ok_def group_ok_def)
  from apply_ovec_exact [OF this, of "''$1''"] have "upsgi_regexp_apply_ovec (Mem s) ''$1'' (rm_ovector m) 1 = Some (s @ [NUL])"
    using d assms(3,6) by (simp add: group_text_def)
  then have p: "pass1 m src (take 2 (''$1'' @ [NUL])) = Some s"
    using assms(2,3) cstr_plain(1) [OF assms(2)] by (simp add: pass1_def numeral_2_eq_2)
  have "takeWhile (\<lambda>x. x \<noteq> CHR ''}'') (key @ ''}'') = key" "dropWhile (\<lambda>x. x \<noteq> CHR ''}'') (key @ ''}'') = ''}''"
    using assms(5) by (induction key) auto
  then have "parse_template s = [Var key]" unfolding assms(6) by simp
  with translate_renders [OF assms(1) _ p, where r = r] assms(4) show ?thesis by auto
qed

text \<open>a network written with all its 18 bytes fails the condition, and with it every request.\<close>

theorem ipv4in_longest_fails:
  assumes "\<And>n. realloc_ok (wc_env (rc_wr cfg)) n" "ur_subject_str ur = a @ '';'' @ b" "CHR '';'' \<notin> set a" "CHR ''$'' \<notin> set (a @ b)" "length b = 18"
  shows "upsgi_route_condition_ipv4in cfg ur no_mem r = Some (- 1, no_mem, r)"
proof -
  have sp: "strchr_split (CHR '';'') (ur_subject_str ur) = Some (a, b)"
    using strchr_split_app [OF assms(3), of b] assms(2) by simp
  have ab: "CHR ''$'' \<notin> set a" "CHR ''$'' \<notin> set b" using assms(4) by auto
  have ct: "cond_text cfg r no_mem s f = f s r" if "CHR ''$'' \<notin> set s" for s f
    using translate_plain [OF assms(1) that, of r "[]"] by (auto simp: cond_text_def)
  show ?thesis using sp ct [OF ab(1)] ct [OF ab(2)] assms(5) by (simp add: upsgi_route_condition_ipv4in_def cond_two_def)
qed

text \<open>while the mark of the error routes is set, a jump in the final routes works on the wrong table.\<close>

theorem final_goto_lost:
  assumes "w_is_error_routing (rt_wr r)" "upsgi_router_goto_func cfg mem ur r = Some (ret, r2)"
  shows "rt_goto r2 T_final = rt_goto r T_final"
proof -
  have k: "rt_goto q = rt_goto r \<and> rt_wr q = rt_wr r"
    if "upsgi_routing_translate cfg r mem src data len = Ok (ub, q) \<or> upsgi_routing_translate cfg r mem src data len = Err (ub, q)" for src data len ub q
    using only_mimes_keeps(2,3) [OF translate_mimes [OF that]] by simp
  from assms show ?thesis
    by (auto simp: upsgi_router_goto_func_def with_text_def Let_def goto_table_def split: c_result.splits if_splits dest!: k [OF disjI1] k [OF disjI2])
qed

section \<open>Concrete requests\<close>

definition rt_cfg0 :: "upsgi_route list \<Rightarrow> rt_cfg" where
  "rt_cfg0 urs = \<lparr>rc_wr = wr_cfg0\<lparr>wc_env := env0\<lparr>realloc_ok := \<lambda>_. True\<rparr>, wc_vec_size := 100\<rparr>, rc_tables = (\<lambda>t. if t = T_routes then urs else []),
     rc_now = 1000, rc_micros = 5, rc_wid = 3, rc_pid = 77, rc_uuid = ''u'', rc_backlog = 0, rc_master = True,
     rc_gmtime = (\<lambda>_. \<lparr>tm_sec = 0, tm_min = 0, tm_hour = 0, tm_mday = 1, tm_mon = 0, tm_year = 70, tm_wday = 4\<rparr>),
     rc_file = (\<lambda>_ _. False), rc_chdir_ok = (\<lambda>_. True), rc_re_build = (\<lambda>_. True), rc_re_ovector = (\<lambda>_. 0),
     rc_re_exec = (\<lambda>p s. if take (length p) s = p then Some [] else None), rc_inet_addr = (\<lambda>_. 0), rc_inet_pton6 = (\<lambda>_. None)\<rparr>"

definition rt_req0 :: rt_req where
  "rt_req0 = \<lparr>rt_wr = (wr_req0 [])\<lparr>w_append := \<lparr>ap_pkt = \<lparr>pkt_buffer = replicate 60 NUL, pkt_len = 0\<rparr>, ap_hvec = [''K'', ''v1''], ap_path_info = [],
       ap_path_info_len = 0, ap_remains = [], ap_remains_copied = False\<rparr>\<rparr>,
     rt_fd = 7, rt_field = (\<lambda>_. None), rt_pc = (\<lambda>_. 0), rt_goto = (\<lambda>_. 0), rt_is_routing = False, rt_is_final_routing = False,
     rt_routes_applied = False, rt_response_routes_applied = False, rt_routed_requests = 0, rt_do_not_log = False, rt_can_offload = True,
     rt_dynamic = False, rt_modifier1 = 0, rt_modifier2 = 0, rt_user_harakiri = 0, rt_logvars = [], rt_log = [], rt_alarms = [], rt_signals = [],
     rt_cwd = [], rt_procname = [], rt_start = 0, rt_end = 0, rt_mimes = []\<rparr>"

lemma realloc0: "realloc_ok (wc_env (rc_wr (rt_cfg0 urs))) n"
  by (simp add: rt_cfg0_def)

theorem apply_ovec_exact_witness:
  "upsgi_regexp_apply_ovec (Mem ''/a/b'') ''x$1'' [(0, 4), (1, 2)] 1 = Some (''xa'' @ [NUL])"
proof -
  have d: "is_digit (CHR ''1'')" "ord (CHR ''1'') - 48 = (1 :: nat)" by code_simp+
  have "ovector_ok ''/a/b'' 1 [(0, 4), (1, 2)]" by (simp add: ovector_ok_def group_ok_def)
  from apply_ovec_exact [OF this, of "''x$1''"] d show ?thesis by (simp add: group_text_def)
qed

theorem translate_renders_witness:
  "\<exists>u. upsgi_routing_translate (rt_cfg0 []) rt_req0 (Some no_mem) NullSrc (''a${K}'' @ [NUL]) 5 = Ok (u, rt_req0) \<and> ub_content u = ''av1''"
proof -
  have p: "pass1 no_mem NullSrc (take 5 (''a${K}'' @ [NUL])) = Some ''a${K}''" by (simp add: pass1_def no_mem_def eval_nat_numeral)
  have "get_value (rt_cfg0 []) rt_req0 ''K'' = Some (Some ''v1'', rt_req0)"
    by (simp add: get_value_def rt_req0_def upsgi_get_var_def upsgi_strncmp_def u16_arg_def)
  then have "render (rt_cfg0 []) (parse_template ''a${K}'') rt_req0 = Some (''av1'', rt_req0)" by simp
  with translate_renders [OF realloc0 [of "[]"] _ p, where r = rt_req0] show ?thesis by auto
qed

definition route0 :: upsgi_route where
  "route0 = route_zero\<lparr>ur_func := R_donotlog\<rparr>"

theorem routes_structured_witness:
  "map_option (map_prod id (forget T_routes)) (upsgi_apply_routes_do (rt_cfg0 [route0]) T_routes [route0] rt_req0) =
     Some (CONTINUE, forget T_routes (rt_req0\<lparr>rt_do_not_log := True\<rparr>))"
proof -
  have "map_option (map_prod id (forget T_routes)) (upsgi_apply_routes_do (rt_cfg0 [route0]) T_routes [route0] rt_req0) =
      program (rt_cfg0 [route0]) T_routes [route0] 0 rt_req0"
    by (rule routes_structured) (simp_all add: rt_req0_def)
  also have "\<dots> = Some (CONTINUE, forget T_routes (rt_req0\<lparr>rt_do_not_log := True\<rparr>))"
    by (simp add: program.simps rule_applies_def route0_def route_zero_def run_rule_def run_func_def at_rule_def rt_req0_def)
  finally show ?thesis .
qed

theorem ipv6_match_prefix_witness:
  "ipv6_match [5, 0, 0, 1] [5, 0, 0, 0] 96 \<longleftrightarrow>
     take 96 (concat (map to_bits [5, 0, 0, 1])) = take 96 (concat (map to_bits [5, 0, 0, 0]))"
  by (rule ipv6_match_prefix) simp_all

definition route1 :: upsgi_route where
  "route1 = route_zero\<lparr>ur_func := R_setpathinfo, ur_data := ''/x'' @ [NUL], ur_data_len := 2\<rparr>"

theorem set_func_reads_back_witness:
  "\<exists>r2. upsgi_router_setpathinfo_func (rt_cfg0 []) (Some no_mem) route1 rt_req0 = Some (NEXT, r2) \<and>
     upsgi_get_var (rt_vars r2) ''PATH_INFO'' = Some ''/x'' \<and> field_text r2 F_path_info = Some ''/x'' \<and> upsgi_get_var (rt_vars r2) ''K'' = Some ''v1''"
proof -
  obtain u where u: "upsgi_routing_translate (rt_cfg0 []) rt_req0 (Some no_mem) (subject_src rt_req0 route1) (ur_data route1) (ur_data_len route1) =
      Ok (u, rt_req0)" "ub_content u = ''/x''"
    using translate_text [of "rt_cfg0 []" "''/x''" rt_req0 no_mem "subject_src rt_req0 route1" "[NUL]"] realloc0 by (auto simp: route1_def numeral_2_eq_2)
  have wf: "rt_wf rt_req0" by (simp add: rt_wf_def rt_req0_def)
  obtain r2 where r2: "set_func F_path_info ''PATH_INFO'' (rt_cfg0 []) (Some no_mem) route1 rt_req0 = Some (NEXT, r2)"
    using u by (simp add: set_func_def with_text_def append_field_def rt_append_def upsgi_req_append_def append_pair_def pkt_store_def mem_write_def
        keyval_bytes_def le16_def rt_cfg0_def rt_req0_def copy_remains_def u16_arg_def Let_def)
  from set_func_reads_back [OF wf u(1) _ _ r2] u(2)
  have f: "upsgi_get_var (rt_vars r2) ''PATH_INFO'' = Some ''/x''" "field_text r2 F_path_info = Some ''/x''"
    "upsgi_get_var (rt_vars r2) ''K'' = upsgi_get_var (rt_vars rt_req0) ''K''" by simp_all
  have "upsgi_get_var (rt_vars rt_req0) ''K'' = Some ''v1''" by (simp add: rt_req0_def upsgi_get_var_def upsgi_strncmp_def)
  with f r2 show ?thesis by (auto simp: upsgi_router_setpathinfo_func_def)
qed

definition route_goto0 :: "upsgi_route list" where
  "route_goto0 = [route_zero\<lparr>ur_func := R_goto, ur_data := ''e'' @ [NUL], ur_data_len := 1\<rparr>, route0\<lparr>ur_pos := 1\<rparr>,
     route_zero\<lparr>ur_pos := 2, ur_label := Some ''e''\<rparr>]"

theorem goto_lands_witness:
  "program (rt_cfg0 route_goto0) T_routes route_goto0 0 rt_req0 = Some (CONTINUE, forget T_routes rt_req0)"
proof -
  have "program (rt_cfg0 route_goto0) T_routes route_goto0 0 rt_req0 = program (rt_cfg0 route_goto0) T_routes route_goto0 (Suc 2) rt_req0"
    by (rule goto_lands [OF realloc0, where l = "''e''"])
      (auto simp: route_goto0_def route0_def route_zero_def rt_cfg0_def rt_req0_def positions_ok_def goto_table_def wr_req0_def goto_rule_def
        less_Suc_eq less_2_cases_iff)
  then show ?thesis by (simp add: program_end route_goto0_def)
qed

theorem capture_is_template_witness:
  "\<exists>u. upsgi_routing_translate (rt_cfg0 []) rt_req0 (Some \<lparr>rm_ub = Some ''${K}'', rm_ovn = 1, rm_ovector = [(0, 4), (0, 4)]\<rparr>) NullSrc (''$1'' @ [NUL]) 2 =
     Ok (u, rt_req0) \<and> ub_content u = ''v1''"
proof -
  have "get_value (rt_cfg0 []) rt_req0 ''K'' = Some (Some ''v1'', rt_req0)"
    by (simp add: get_value_def rt_req0_def upsgi_get_var_def upsgi_strncmp_def u16_arg_def)
  then show ?thesis
    by (intro capture_is_template [OF realloc0 [of "[]"], where s = "''${K}''" and key = "''K''"]) simp_all
qed

end
