(* ===== verification/Spec2Isabelle.thy ===== *)
theory Spec2Isabelle
  imports Upsgi_Chunked Upsgi_Http Upsgi_Hash Upsgi_Query Upsgi_Wire Upsgi_Writer Upsgi_Websocket Upsgi_CacheProps Upsgi_Fastcgi Upsgi_Reader Upsgi_Cron Upsgi_Master Upsgi_RoutingProps
begin

text \<open>
  upsgi is a prefork application server in C for Perl (PSGI) programs.  A worker accepts a connection, reads a request
  with one of several wire protocols, turns it into a packet of variables in memory, hands it to the application, lets
  it read the body and write the response, and logs.  Around the workers stand shared services (a cache, timers, cron
  jobs, remote procedures, an SNMP agent) and the supervising processes.  This development models the parts that carry
  data from and to the outside and the data structures behind them, and proves what each promises.

  \<^bold>\<open>Conventions\<close> (\<open>Upsgi_Prelude\<close>).  Bytes are values of \<open>char\<close>, blocks of memory are lists whose length is the size of
  the allocation.  An access outside of a block is a value of the model (\<open>Fault\<close>, or \<open>None\<close> where a function has no
  other failure), so that memory safety is a theorem and not an assumption.  \<open>size_t\<close> is \<open>nat\<close> with the wrap-around of
  64 bits written out in \<open>size_sub\<close> and \<open>size_add\<close> where the code can reach it, or a \<open>64 word\<close>.  Allocation is a
  parameter, \<open>mem_env\<close>: which requests succeed, and what fresh memory holds.  System calls are parameters: a script of what
  \<open>read\<close>, \<open>write\<close> and the wait hooks answer, a clock, the result of a look at the file system.  Every theorem about
  arriving data quantifies over these scripts.

  \<^bold>\<open>Bytes and strings.\<close>
  \<^item> \<open>Upsgi_Codec\<close> (core/utils.c): numbers, hex, base64, URL coding, byte order; round trips, and that a decoded path has
    no \<open>..\<close> left.
  \<^item> \<open>Upsgi_Strings\<close> (core/strings.c, core/utils.c): comparison, splitting, concatenation.
  \<^item> \<open>Upsgi_Buffer\<close> (core/buffer.c): the growable buffer; every operation refines list append, keeps its bounds and limit,
    and fails without damage.
  \<^item> \<open>Upsgi_Hash\<close> (core/hash.c), \<open>Upsgi_Query\<close> (core/querystring.c, core/cookie.c).

  \<^bold>\<open>Requests.\<close>
  \<^item> \<open>Upsgi_ProtoBase\<close> (proto/base.c): the packet of variables, header lines, body reads and single writes.
  \<^item> \<open>Upsgi_Http\<close> (proto/http.c): the request parser, incremental over arriving pieces; it inverts the printing of a
    request, its packet is well formed, conflicting framing headers are refused, and the pieces do not matter.
  \<^item> \<open>Upsgi_Protocol\<close> (core/protocol.c): the variables of a packet as fields of the request, mount points, ranges; the loop
    refines a fold over the list of variables.
  \<^item> \<open>Upsgi_Wire\<close> (proto/upsgi.c, proto/scgi.c) and \<open>Upsgi_Fastcgi\<close> (proto/fastcgi.c): the other three protocols; round
    trips over all ways the bytes may arrive, and the framing of responses.

  \<^bold>\<open>Bodies.\<close>
  \<^item> \<open>Upsgi_BodySched\<close> (core/body_scheduler.c): budgets, lanes and their accounting at 64 bits.  The locale
    \<open>read_governor\<close> is what a reader may rely on: a budget is positive, within the request, and the invariant is kept.
  \<^item> \<open>Upsgi_Chunked\<close> (core/chunked.c): the chunked reader over the scheduler; safety, framing, delivery of every chunk that
    arrives, and the whole body for every split of it.  Its loop ends because each round consumes input (\<open>chunk_rank\<close>).
  \<^item> \<open>Upsgi_Reader\<close> (core/reader.c): \<open>read\<close>, \<open>readline\<close>, seeking and buffering.  The locale \<open>body_stream\<close> states that calls
    return the body piece by piece; it holds for a connection and a file, and for reads of a body in memory.

  \<^bold>\<open>Responses.\<close>
  \<^item> \<open>Upsgi_Writer\<close> (core/writer.c, core/transformations.c, core/init.c): status, headers, body, chains of transformations
    and files; what leaves is what was asked for under every pattern of partial writes.
  \<^item> \<open>Upsgi_Websocket\<close> (core/websockets.c): handshake, framing, masking, control frames and messages in fragments.

  \<^bold>\<open>Shared cache\<close> (core/cache.c).  \<open>Upsgi_Bitmap\<close> is the block allocator, \<open>Upsgi_Cache\<close> the operations over the arrays,
  hash chains, the free stack and the recently-used list; \<open>Upsgi_CacheLists\<close>, \<open>Upsgi_CacheInv\<close>, \<open>Upsgi_CacheStore\<close> and
  \<open>Upsgi_CacheMap\<close> build the invariant and the abstraction to a map; \<open>Upsgi_CacheOps\<close> states the contract with clients as the
  locale \<open>forgetful_store\<close>; \<open>Upsgi_CacheNet\<close> and \<open>Upsgi_CacheRestore\<close> are replication, cache definitions and
  backing files; \<open>Upsgi_CacheProps\<close> holds the properties.

  \<^bold>\<open>Supervision and services.\<close>
  \<^item> \<open>Upsgi_Master\<close> (core/master_checks.c, core/master_utils.c, core/master.c): the table of the workers; at most one
    worker is away during a chain reload and each is renewed once, deadlines escalate, the number of workers follows the load
    without touching busy ones.
  \<^item> \<open>Upsgi_Routing\<close>, \<open>Upsgi_RoutingProps\<close> (core/routing.c, core/regexp.c): the rules of the internal routing and their
    interpreter over the state of the response writer and the packet of variables; a table is a structured program, a
    translation the rendering of a template, and what an action sets is read back.
  \<^item> \<open>Upsgi_Cron\<close> (core/cron.c): cron jobs and cron signals; the rule of crontab, spacing, and that a unique job runs once.

  \<^bold>\<open>Bounds and termination.\<close>  Loops over data are structural recursion or \<open>function\<close> with a measure; a loop that the
  environment can keep going is \<open>partial_function\<close> (\<open>None\<close> when it does not end), and the theorems about it state that it
  returns.  No definition uses fuel.  Sizes are bounded by hypotheses of the form \<open>n < 2 ^ 63\<close> where the code needs them.

  \<^bold>\<open>Not modelled.\<close>  Code whose work is done by the kernel or a library has no model: the event loop of the master, the emperor
  and their helpers (core/emperor.c, core/daemons.c), the event loops, sockets and locks (core/event.c, core/socket.c, core/lock.c), TLS
  (core/ssl.c over OpenSSL), the readers of YAML, JSON and XML, the Perl plugin (plugins/psgi), the log and offload
  threads, and regular expressions (PCRE).  Within modelled parts,
  messages to the log, the harakiri timer, upload progress files and the SSL variants of reads and writes are left out.
\<close>

end
